(* ===== verification/DRM_Prelude.thy ===== *)
theory DRM_Prelude
  imports Main "HOL-Library.Word"
begin

text \<open>
  The prelude of the development: the C integer conversions and macros the DRM sources use
  (\<open>include/linux/math.h\<close>, \<open>include/linux/math64.h\<close>), the kernel's error numbers, and the
  generic lemmas on machine integers and lists the components share.

  Two representations of machine integers are used. Code that computes with signed or mixed
  arithmetic works on \<open>int\<close>, with the conversion to the C type (\<open>to_s32\<close>, \<open>to_u16\<close>, ...)
  written at every operation that can leave the type's range; the kernel is compiled with
  wrapping signed arithmetic, so these conversions are exact. Code that works on bits and
  bytes uses \<open>'a word\<close>.
\<close>

unbundle bit_operations_syntax

section \<open>Proof collections\<close>

named_theorems c_arith \<open>definitions of the C integer conversions and macros\<close>
named_theorems conv_id \<open>a conversion to a C type is the identity on values in the range of the type\<close>

section \<open>Machine integers\<close>

type_synonym u8 = "8 word"
type_synonym u16 = "16 word"
type_synonym u32 = "32 word"
type_synonym u64 = "64 word"

text \<open>Conversions of a mathematical integer to the value of a C type.\<close>

definition to_u8 :: "int \<Rightarrow> int" where
  "to_u8 x = x mod 256"

definition to_u16 :: "int \<Rightarrow> int" where
  "to_u16 x = x mod 65536"

definition to_u32 :: "int \<Rightarrow> int" where
  "to_u32 x = x mod 4294967296"

definition to_u64 :: "int \<Rightarrow> int" where
  "to_u64 x = x mod 18446744073709551616"

definition to_s32 :: "int \<Rightarrow> int" where
  "to_s32 x = (x + 2147483648) mod 4294967296 - 2147483648"

definition is_s32 :: "int \<Rightarrow> bool" where
  "is_s32 x \<longleftrightarrow> - 2147483648 \<le> x \<and> x < 2147483648"

definition is_u16 :: "int \<Rightarrow> bool" where
  "is_u16 x \<longleftrightarrow> 0 \<le> x \<and> x < 65536"

definition is_u32 :: "int \<Rightarrow> bool" where
  "is_u32 x \<longleftrightarrow> 0 \<le> x \<and> x < 4294967296"

text \<open>C division and remainder truncate towards zero.\<close>

definition c_div :: "int \<Rightarrow> int \<Rightarrow> int" where
  "c_div a b = sgn a * sgn b * (\<bar>a\<bar> div \<bar>b\<bar>)"

definition c_mod :: "int \<Rightarrow> int \<Rightarrow> int" where
  "c_mod a b = a - b * c_div a b"

text \<open>\<open>DIV_ROUND_UP\<close> on values of type \<open>int\<close> (the sum is an \<open>int\<close>).\<close>

definition div_round_up_s32 :: "int \<Rightarrow> int \<Rightarrow> int" where
  "div_round_up_s32 n d = c_div (to_s32 (n + d - 1)) d"

text \<open>
  \<open>do_div\<close> divides a \<open>u64\<close> by a \<open>u32\<close>; \<open>DIV_ROUND_DOWN_ULL\<close>, \<open>DIV_ROUND_UP_ULL\<close> and
  \<open>DIV_ROUND_CLOSEST_ULL\<close> are built on it. \<open>mul_u32_u32\<close> converts both factors to \<open>u32\<close> and
  multiplies in \<open>u64\<close>.
\<close>

definition mul_u32_u32 :: "int \<Rightarrow> int \<Rightarrow> int" where
  "mul_u32_u32 a b = to_u32 a * to_u32 b"

definition div_round_down_ull :: "int \<Rightarrow> int \<Rightarrow> int" where
  "div_round_down_ull n d = to_u64 n div to_u32 d"

definition div_round_up_ull :: "int \<Rightarrow> int \<Rightarrow> int" where
  "div_round_up_ull n d = div_round_down_ull (n + d - 1) d"

definition div_round_closest_ull :: "int \<Rightarrow> int \<Rightarrow> int" where
  "div_round_closest_ull n d = div_round_down_ull (n + to_u32 d div 2) d"

lemmas c_conv_defs [c_arith] =
  to_u8_def to_u16_def to_u32_def to_u64_def to_s32_def is_s32_def is_u16_def is_u32_def

lemma to_s32_id [conv_id]: "is_s32 x \<Longrightarrow> to_s32 x = x"
  by (simp add: is_s32_def to_s32_def mod_pos_pos_trivial)

lemma to_u32_id [conv_id]: "0 \<le> x \<Longrightarrow> x < 4294967296 \<Longrightarrow> to_u32 x = x"
  by (simp add: to_u32_def)

lemma to_u16_id [conv_id]: "0 \<le> x \<Longrightarrow> x < 65536 \<Longrightarrow> to_u16 x = x"
  by (simp add: to_u16_def)

lemma to_u64_id [conv_id]: "0 \<le> x \<Longrightarrow> x < 18446744073709551616 \<Longrightarrow> to_u64 x = x"
  by (simp add: to_u64_def)

lemma is_s32_to_s32 [simp]: "is_s32 (to_s32 x)"
  by (simp add: is_s32_def to_s32_def)

lemma is_s32I [intro?]: "- 2147483648 \<le> x \<Longrightarrow> x < 2147483648 \<Longrightarrow> is_s32 x"
  by (simp add: is_s32_def)

text \<open>Wrapping subtraction is an involution on the values of the type.\<close>

lemma to_s32_diff_to_s32 [simp]: "to_s32 (a - to_s32 (a - x)) = to_s32 x"
proof -
  have "(x - 2147483648) mod 4294967296 = (x - 2147483648 + 4294967296) mod (4294967296::int)"
    by (simp only: mod_add_self2)
  then show ?thesis by (simp add: to_s32_def mod_simps algebra_simps)
qed

lemma c_div_nonneg: "0 \<le> a \<Longrightarrow> 0 \<le> b \<Longrightarrow> c_div a b = a div b"
  by (auto simp: c_div_def sgn_if)

lemma c_mod_nonneg: "0 \<le> a \<Longrightarrow> 0 \<le> b \<Longrightarrow> c_mod a b = a mod b"
  by (simp add: c_mod_def c_div_nonneg minus_mult_div_eq_mod)

text \<open>Floor and ceiling of a quotient against a bound.\<close>

lemma le_floor_div_iff: "0 < (d::int) \<Longrightarrow> k \<le> n div d \<longleftrightarrow> k * d \<le> n"
proof
  assume d: "0 < d" and "k \<le> n div d"
  then have "k * d \<le> n div d * d" by (simp add: mult_right_mono)
  also have "\<dots> \<le> n" using d by (simp add: minus_mod_eq_div_mult [symmetric])
  finally show "k * d \<le> n" .
next
  assume d: "0 < d" and "k * d \<le> n"
  then have "k * d div d \<le> n div d" by (simp only: zdiv_mono1)
  with d show "k \<le> n div d" by simp
qed

lemma ceil_div_le_iff: "0 < (d::int) \<Longrightarrow> (n + d - 1) div d \<le> k \<longleftrightarrow> n \<le> k * d"
  using le_floor_div_iff [of d "k + 1" "n + d - 1"] by (simp add: algebra_simps) linarith

lemma word_le_minus_one_iff: "0 < (e::'a::len word) \<Longrightarrow> a \<le> e - 1 \<longleftrightarrow> a < e"
  using unat_minus_one [of e] by (auto simp: word_le_nat_alt word_less_nat_alt word_neq_0_conv)

lemma word_inc_less: "i < (m::'a::len word) \<Longrightarrow> i < i + 1"
proof -
  assume "i < m"
  then have "i + 1 \<noteq> 0" using word_order.extremum_strict by (metis add_eq_0_iff2 minus_minus)
  then show ?thesis by (simp add: word_less_nat_alt unatSuc add.commute [of i])
qed

lemma and_exp_eq_exp:
  fixes w :: "'a::len word"
  assumes "n < LENGTH('a)"
  shows "w AND 2 ^ n = 2 ^ n \<longleftrightarrow> bit w n"
proof
  assume "w AND 2 ^ n = 2 ^ n"
  then have "bit (w AND 2 ^ n) n = bit (2 ^ n :: 'a word) n" by simp
  then show "bit w n" using assms by (simp add: bit_simps)
next
  assume "bit w n"
  then show "w AND 2 ^ n = 2 ^ n" by (intro bit_word_eqI) (auto simp: bit_simps)
qed

lemma unat_of_nat_u8: "n < 256 \<Longrightarrow> unat (of_nat n :: 8 word) = n"
  by (simp add: unat_of_nat)

lemma unat_u8_less: "unat (w :: 8 word) < 256"
  using unsigned_less [of w, where ?'a = nat] by simp

lemma less_exp_bit: "w < 2 ^ n \<Longrightarrow> bit w m \<Longrightarrow> m < n" for w :: "'a::len word"
proof -
  assume w: "w < 2 ^ n" and b: "bit w m"
  have "uint w < uint (2 ^ n :: 'a word)" using w by (simp only: word_less_def)
  also have "uint (2 ^ n :: 'a word) \<le> 2 ^ n" by transfer (simp add: take_bit_int_less_eq_self_iff)
  finally have "take_bit n (uint w) = uint w" by (simp add: take_bit_int_eq_self)
  then show "m < n" using b by (metis bit_take_bit_iff bit_uint_iff bit_imp_le_length)
qed

section \<open>Lists\<close>

lemma distinct_insert_between:
  "distinct (xs @ ys) \<Longrightarrow> x \<notin> set (xs @ ys) \<Longrightarrow> distinct (xs @ x # ys)"
  by auto

lemma distinct_map_remove1: "distinct (map f xs) \<Longrightarrow> distinct (map f (remove1 x xs))"
  by (auto simp: distinct_map intro: inj_on_subset dest: set_remove1_subset [THEN subsetD])

lemma find_append:
  "find P (xs @ ys) = (case find P xs of None \<Rightarrow> find P ys | Some x \<Rightarrow> Some x)"
  by (induction xs) auto

lemma find_None_all: "(\<And>x. x \<in> set xs \<Longrightarrow> \<not> P x) \<Longrightarrow> find P xs = None"
  by (simp add: find_None_iff)

lemma find_unique:
  assumes "v \<in> set xs" and "P v" and "\<And>w. w \<in> set xs \<Longrightarrow> P w \<Longrightarrow> w = v"
  shows "find P xs = Some v"
proof -
  obtain w where w: "find P xs = Some w" using assms(1,2) by (metis find_None_iff not_None_eq)
  then have "w \<in> set xs" "P w" by (auto simp: find_Some_iff)
  with assms(3) w show ?thesis by simp
qed

section \<open>Error numbers\<close>

text \<open>The errors the modelled functions return, and the value of the C constant.\<close>

datatype errno = EINTR | EIO | ENOMEM | EACCES | EBUSY | EEXIST | EINVAL | ENOSPC | ERANGE | EDEADLK | EPROTO | EOPNOTSUPP
  | ETIMEDOUT | EALREADY | EREMOTEIO

fun errno_value :: "errno \<Rightarrow> int" where
  "errno_value EINTR = 4"
| "errno_value EIO = 5"
| "errno_value ENOMEM = 12"
| "errno_value EACCES = 13"
| "errno_value EBUSY = 16"
| "errno_value EEXIST = 17"
| "errno_value EINVAL = 22"
| "errno_value ENOSPC = 28"
| "errno_value ERANGE = 34"
| "errno_value EDEADLK = 35"
| "errno_value EPROTO = 71"
| "errno_value EOPNOTSUPP = 95"
| "errno_value ETIMEDOUT = 110"
| "errno_value EALREADY = 114"
| "errno_value EREMOTEIO = 121"

definition neg_errno :: "errno \<Rightarrow> int" where
  "neg_errno e = - errno_value e"

lemma neg_errno_neg [simp]: "neg_errno e < 0"
  by (cases e) (simp_all add: neg_errno_def)

lemma neg_errno_eq_iff [simp]: "neg_errno e = neg_errno f \<longleftrightarrow> e = f"
  by (cases e; cases f) (simp_all add: neg_errno_def)

lemma neg_errno_simps [simp]: "neg_errno e \<noteq> 0" "\<not> 0 \<le> neg_errno e" "neg_errno e \<le> 0"
  by (cases e; simp add: neg_errno_def)+

end
