(* ===== verification/Rect.thy ===== *)
theory Rect
  imports DRM_Prelude
begin

unbundle bit_operations_syntax

text \<open>
  Rectangles: \<open>drm_rect.c\<close> and the inline operations of \<open>drm_rect.h\<close>. A rectangle is the half-open
  set of points \<open>[x1, x2) \<times> [y1, y2)\<close>; the fields are C \<open>int\<close>s.
\<close>

section \<open>Data and operations\<close>

record drm_rect =
  x1 :: int
  y1 :: int
  x2 :: int
  y2 :: int

definition DRM_MODE_ROTATE_0 :: u32 where "DRM_MODE_ROTATE_0 = 1"
definition DRM_MODE_ROTATE_90 :: u32 where "DRM_MODE_ROTATE_90 = 2"
definition DRM_MODE_ROTATE_180 :: u32 where "DRM_MODE_ROTATE_180 = 4"
definition DRM_MODE_ROTATE_270 :: u32 where "DRM_MODE_ROTATE_270 = 8"
definition DRM_MODE_REFLECT_X :: u32 where "DRM_MODE_REFLECT_X = 16"
definition DRM_MODE_REFLECT_Y :: u32 where "DRM_MODE_REFLECT_Y = 32"

definition DRM_MODE_ROTATE_MASK :: u32 where
  "DRM_MODE_ROTATE_MASK =
     DRM_MODE_ROTATE_0 OR DRM_MODE_ROTATE_90 OR DRM_MODE_ROTATE_180 OR DRM_MODE_ROTATE_270"

lemmas rotation_defs =
  DRM_MODE_ROTATE_0_def DRM_MODE_ROTATE_90_def DRM_MODE_ROTATE_180_def DRM_MODE_ROTATE_270_def
  DRM_MODE_REFLECT_X_def DRM_MODE_REFLECT_Y_def DRM_MODE_ROTATE_MASK_def

definition drm_rect_init :: "int \<Rightarrow> int \<Rightarrow> int \<Rightarrow> int \<Rightarrow> drm_rect" where
  "drm_rect_init x y width height =
     \<lparr>x1 = x, y1 = y, x2 = to_s32 (x + width), y2 = to_s32 (y + height)\<rparr>"

definition drm_rect_adjust_size :: "drm_rect \<Rightarrow> int \<Rightarrow> int \<Rightarrow> drm_rect" where
  "drm_rect_adjust_size r dw dh =
     \<lparr>x1 = to_s32 (x1 r - dw div 2),
      y1 = to_s32 (y1 r - dh div 2),
      x2 = to_s32 (x2 r + to_s32 (dw + 1) div 2),
      y2 = to_s32 (y2 r + to_s32 (dh + 1) div 2)\<rparr>"

definition drm_rect_translate :: "drm_rect \<Rightarrow> int \<Rightarrow> int \<Rightarrow> drm_rect" where
  "drm_rect_translate r dx dy =
     \<lparr>x1 = to_s32 (x1 r + dx), y1 = to_s32 (y1 r + dy),
      x2 = to_s32 (x2 r + dx), y2 = to_s32 (y2 r + dy)\<rparr>"

definition drm_rect_translate_to :: "drm_rect \<Rightarrow> int \<Rightarrow> int \<Rightarrow> drm_rect" where
  "drm_rect_translate_to r x y = drm_rect_translate r (to_s32 (x - x1 r)) (to_s32 (y - y1 r))"

definition drm_rect_width :: "drm_rect \<Rightarrow> int" where
  "drm_rect_width r = to_s32 (x2 r - x1 r)"

definition drm_rect_height :: "drm_rect \<Rightarrow> int" where
  "drm_rect_height r = to_s32 (y2 r - y1 r)"

definition drm_rect_visible :: "drm_rect \<Rightarrow> bool" where
  "drm_rect_visible r \<longleftrightarrow> drm_rect_width r > 0 \<and> drm_rect_height r > 0"

definition drm_rect_equals :: "drm_rect \<Rightarrow> drm_rect \<Rightarrow> bool" where
  "drm_rect_equals r1 r2 \<longleftrightarrow>
     x1 r1 = x1 r2 \<and> x2 r1 = x2 r2 \<and> y1 r1 = y1 r2 \<and> y2 r1 = y2 r2"

definition drm_rect_fp_to_int :: "drm_rect \<Rightarrow> drm_rect" where
  "drm_rect_fp_to_int src =
     drm_rect_init (x1 src div 65536) (y1 src div 65536)
       (drm_rect_width src div 65536) (drm_rect_height src div 65536)"

definition drm_rect_overlap :: "drm_rect \<Rightarrow> drm_rect \<Rightarrow> bool" where
  "drm_rect_overlap a b \<longleftrightarrow>
     x2 a > x1 b \<and> x2 b > x1 a \<and> y2 a > y1 b \<and> y2 b > y1 a"

text \<open>The C function overwrites its first argument; the model returns the result and the new value.\<close>

definition drm_rect_intersect :: "drm_rect \<Rightarrow> drm_rect \<Rightarrow> bool \<times> drm_rect" where
  "drm_rect_intersect r1 r2 =
     (let r = \<lparr>x1 = max (x1 r1) (x1 r2), y1 = max (y1 r1) (y1 r2),
               x2 = min (x2 r1) (x2 r2), y2 = min (y2 r1) (y2 r2)\<rparr>
      in (drm_rect_visible r, r))"

text \<open>\<open>clip_scaled\<close> returns the new source size and the updated \<open>clip\<close>.\<close>

definition clip_scaled :: "int \<Rightarrow> int \<Rightarrow> int \<Rightarrow> int \<times> int" where
  "clip_scaled src dst clip =
     (if dst = 0 then (0, clip)
      else let clip' = min clip dst;
               tmp = mul_u32_u32 src (to_s32 (dst - clip'))
           in (to_u32 (if src < to_s32 (dst * 65536)
                       then div_round_up_ull tmp dst
                       else div_round_down_ull tmp dst), clip'))"

definition drm_rect_clip_scaled ::
    "drm_rect \<Rightarrow> drm_rect \<Rightarrow> drm_rect \<Rightarrow> bool \<times> drm_rect \<times> drm_rect" where
  "drm_rect_clip_scaled src dst clip =
     (let diff = to_s32 (x1 clip - x1 dst);
          (src, dst) =
            (if diff > 0
             then let (new_src_w, diff) = clip_scaled (drm_rect_width src) (drm_rect_width dst) diff
                  in (src\<lparr>x1 := to_s32 (x2 src - new_src_w)\<rparr>, dst\<lparr>x1 := to_s32 (x1 dst + diff)\<rparr>)
             else (src, dst));
          diff = to_s32 (y1 clip - y1 dst);
          (src, dst) =
            (if diff > 0
             then let (new_src_h, diff) = clip_scaled (drm_rect_height src) (drm_rect_height dst) diff
                  in (src\<lparr>y1 := to_s32 (y2 src - new_src_h)\<rparr>, dst\<lparr>y1 := to_s32 (y1 dst + diff)\<rparr>)
             else (src, dst));
          diff = to_s32 (x2 dst - x2 clip);
          (src, dst) =
            (if diff > 0
             then let (new_src_w, diff) = clip_scaled (drm_rect_width src) (drm_rect_width dst) diff
                  in (src\<lparr>x2 := to_s32 (x1 src + new_src_w)\<rparr>, dst\<lparr>x2 := to_s32 (x2 dst - diff)\<rparr>)
             else (src, dst));
          diff = to_s32 (y2 dst - y2 clip);
          (src, dst) =
            (if diff > 0
             then let (new_src_h, diff) = clip_scaled (drm_rect_height src) (drm_rect_height dst) diff
                  in (src\<lparr>y2 := to_s32 (y1 src + new_src_h)\<rparr>, dst\<lparr>y2 := to_s32 (y2 dst - diff)\<rparr>)
             else (src, dst))
      in (drm_rect_visible dst, src, dst))"

definition drm_calc_scale :: "int \<Rightarrow> int \<Rightarrow> int" where
  "drm_calc_scale src dst =
     (if src < 0 \<or> dst < 0 then neg_errno EINVAL
      else if dst = 0 then 0
      else if src > to_s32 (dst * 65536) then div_round_up_s32 src dst
      else c_div src dst)"

definition drm_rect_calc_hscale :: "drm_rect \<Rightarrow> drm_rect \<Rightarrow> int \<Rightarrow> int \<Rightarrow> int" where
  "drm_rect_calc_hscale src dst min_hscale max_hscale =
     (let src_w = drm_rect_width src; dst_w = drm_rect_width dst;
          hscale = drm_calc_scale src_w dst_w
      in if hscale < 0 \<or> dst_w = 0 then hscale
         else if hscale < min_hscale \<or> hscale > max_hscale then neg_errno ERANGE
         else hscale)"

definition drm_rect_calc_vscale :: "drm_rect \<Rightarrow> drm_rect \<Rightarrow> int \<Rightarrow> int \<Rightarrow> int" where
  "drm_rect_calc_vscale src dst min_vscale max_vscale =
     (let src_h = drm_rect_height src; dst_h = drm_rect_height dst;
          vscale = drm_calc_scale src_h dst_h
      in if vscale < 0 \<or> dst_h = 0 then vscale
         else if vscale < min_vscale \<or> vscale > max_vscale then neg_errno ERANGE
         else vscale)"

text \<open>
  Rotation. Both functions share a reflection block, which saves the rectangle in \<open>tmp\<close> and
  overwrites the reflected coordinates.
\<close>

definition rect_reflect :: "drm_rect \<Rightarrow> int \<Rightarrow> int \<Rightarrow> u32 \<Rightarrow> drm_rect" where
  "rect_reflect r width height rotation =
     (if rotation AND (DRM_MODE_REFLECT_X OR DRM_MODE_REFLECT_Y) \<noteq> 0
      then let tmp = r;
               r = (if rotation AND DRM_MODE_REFLECT_X \<noteq> 0
                    then r\<lparr>x1 := to_s32 (width - x2 tmp), x2 := to_s32 (width - x1 tmp)\<rparr>
                    else r)
           in (if rotation AND DRM_MODE_REFLECT_Y \<noteq> 0
               then r\<lparr>y1 := to_s32 (height - y2 tmp), y2 := to_s32 (height - y1 tmp)\<rparr>
               else r)
      else r)"

definition drm_rect_rotate :: "drm_rect \<Rightarrow> int \<Rightarrow> int \<Rightarrow> u32 \<Rightarrow> drm_rect" where
  "drm_rect_rotate r width height rotation =
     (let tmp = rect_reflect r width height rotation;
          rot = rotation AND DRM_MODE_ROTATE_MASK
      in if rot = DRM_MODE_ROTATE_0 then tmp
         else if rot = DRM_MODE_ROTATE_90 then
           \<lparr>x1 = y1 tmp, y1 = to_s32 (width - x2 tmp), x2 = y2 tmp, y2 = to_s32 (width - x1 tmp)\<rparr>
         else if rot = DRM_MODE_ROTATE_180 then
           \<lparr>x1 = to_s32 (width - x2 tmp), y1 = to_s32 (height - y2 tmp),
            x2 = to_s32 (width - x1 tmp), y2 = to_s32 (height - y1 tmp)\<rparr>
         else if rot = DRM_MODE_ROTATE_270 then
           \<lparr>x1 = to_s32 (height - y2 tmp), y1 = x1 tmp, x2 = to_s32 (height - y1 tmp), y2 = x2 tmp\<rparr>
         else tmp)"

definition drm_rect_rotate_inv :: "drm_rect \<Rightarrow> int \<Rightarrow> int \<Rightarrow> u32 \<Rightarrow> drm_rect" where
  "drm_rect_rotate_inv r width height rotation =
     (let tmp = r;
          rot = rotation AND DRM_MODE_ROTATE_MASK;
          r = (if rot = DRM_MODE_ROTATE_0 then r
               else if rot = DRM_MODE_ROTATE_90 then
                 \<lparr>x1 = to_s32 (width - y2 tmp), y1 = x1 tmp, x2 = to_s32 (width - y1 tmp), y2 = x2 tmp\<rparr>
               else if rot = DRM_MODE_ROTATE_180 then
                 \<lparr>x1 = to_s32 (width - x2 tmp), y1 = to_s32 (height - y2 tmp),
                  x2 = to_s32 (width - x1 tmp), y2 = to_s32 (height - y1 tmp)\<rparr>
               else if rot = DRM_MODE_ROTATE_270 then
                 \<lparr>x1 = y1 tmp, y1 = to_s32 (height - x2 tmp), x2 = y2 tmp, y2 = to_s32 (height - x1 tmp)\<rparr>
               else r)
      in rect_reflect r width height rotation)"

section \<open>Well-formedness\<close>

text \<open>The fields of a rectangle hold values of the C type.\<close>

definition rect_wf :: "drm_rect \<Rightarrow> bool" where
  "rect_wf r \<longleftrightarrow> is_s32 (x1 r) \<and> is_s32 (y1 r) \<and> is_s32 (x2 r) \<and> is_s32 (y2 r)"

lemma rect_eta [simp]: "\<lparr>x1 = x1 r, y1 = y1 r, x2 = x2 r, y2 = y2 r\<rparr> = (r :: drm_rect)"
  by (cases r) simp

lemma rect_reflect_wf: "rect_wf r \<Longrightarrow> rect_wf (rect_reflect r width height rotation)"
  by (simp add: rect_reflect_def rect_wf_def Let_def)

lemma rect_reflect_involution:
  "rect_wf r \<Longrightarrow> rect_reflect (rect_reflect r width height rotation) width height rotation = r"
  by (simp add: rect_reflect_def rect_wf_def Let_def to_s32_id)

text \<open>Rotating a rectangle and applying the inverse rotation gives the rectangle back, for every
  rotation and reflection mask and every size of the coordinate space, wrap-around included.\<close>

theorem rotate_roundtrip:
  assumes "rect_wf r"
  shows "drm_rect_rotate_inv (drm_rect_rotate r width height rotation) width height rotation = r"
proof -
  define t where "t = rect_reflect r width height rotation"
  have t: "rect_wf t" and inv: "rect_reflect t width height rotation = r"
    using assms by (simp_all add: t_def rect_reflect_wf rect_reflect_involution)
  from t have "drm_rect_rotate_inv (drm_rect_rotate r width height rotation) width height rotation
      = rect_reflect t width height rotation"
    by (simp add: drm_rect_rotate_def drm_rect_rotate_inv_def Let_def t_def[symmetric]
        rect_wf_def to_s32_id)
  with inv show ?thesis by simp
qed

theorem rotate_roundtrip_witness:
  "drm_rect_rotate_inv (drm_rect_rotate \<lparr>x1 = 10, y1 = 20, x2 = 110, y2 = 70\<rparr> 1920 1080 18) 1920 1080 18
     = \<lparr>x1 = 10, y1 = 20, x2 = 110, y2 = 70\<rparr>"
  by (rule rotate_roundtrip) (simp add: rect_wf_def is_s32_def)

section \<open>Points\<close>

text \<open>
  The set of points of a rectangle is its abstract value. The code computes a width as a wrapping
  difference, so the visibility test is exact for coordinates whose differences fit the type;
  \<open>rect_small\<close> bounds every coordinate by \<open>2 ^ 30\<close> in magnitude.
\<close>

definition rect_points :: "drm_rect \<Rightarrow> (int \<times> int) set" where
  "rect_points r = {x1 r..<x2 r} \<times> {y1 r..<y2 r}"

definition rect_small :: "drm_rect \<Rightarrow> bool" where
  "rect_small r \<longleftrightarrow> (\<forall>c \<in> {x1 r, y1 r, x2 r, y2 r}. - 1073741824 \<le> c \<and> c < 1073741824)"

lemma rect_small_width: "rect_small r \<Longrightarrow> drm_rect_width r = x2 r - x1 r"
  by (simp add: rect_small_def drm_rect_width_def to_s32_id is_s32_def)

lemma rect_small_height: "rect_small r \<Longrightarrow> drm_rect_height r = y2 r - y1 r"
  by (simp add: rect_small_def drm_rect_height_def to_s32_id is_s32_def)

lemma visible_iff_points: "rect_small r \<Longrightarrow> drm_rect_visible r \<longleftrightarrow> rect_points r \<noteq> {}"
  by (simp add: drm_rect_visible_def rect_small_width rect_small_height rect_points_def)

lemma intersect_small:
  "rect_small a \<Longrightarrow> rect_small b \<Longrightarrow> rect_small (snd (drm_rect_intersect a b))"
  by (simp add: rect_small_def drm_rect_intersect_def Let_def) linarith

text \<open>\<open>drm_rect_intersect\<close> computes the intersection of the two point sets, and its result says
  whether a point is left; \<open>drm_rect_overlap\<close> of two nonempty rectangles agrees with it.\<close>

theorem intersect_points:
  assumes "rect_small a" and "rect_small b"
  shows "rect_points (snd (drm_rect_intersect a b)) = rect_points a \<inter> rect_points b \<and>
    fst (drm_rect_intersect a b) = (rect_points a \<inter> rect_points b \<noteq> {}) \<and>
    (rect_points a \<noteq> {} \<and> rect_points b \<noteq> {} \<longrightarrow>
       drm_rect_overlap a b = fst (drm_rect_intersect a b))"
proof -
  have pts: "rect_points (snd (drm_rect_intersect a b)) = rect_points a \<inter> rect_points b"
    by (auto simp: rect_points_def drm_rect_intersect_def Let_def)
  have "fst (drm_rect_intersect a b) = drm_rect_visible (snd (drm_rect_intersect a b))"
    by (simp add: drm_rect_intersect_def Let_def)
  then have vis: "fst (drm_rect_intersect a b) = (rect_points a \<inter> rect_points b \<noteq> {})"
    using visible_iff_points [OF intersect_small [OF assms]] pts by simp
  have "drm_rect_overlap a b = (rect_points a \<inter> rect_points b \<noteq> {})"
    if "rect_points a \<noteq> {}" and "rect_points b \<noteq> {}"
    using that by (auto simp: drm_rect_overlap_def rect_points_def Times_Int_Times)
  with pts vis show ?thesis by blast
qed

theorem intersect_points_witness:
  "rect_points (snd (drm_rect_intersect \<lparr>x1 = 0, y1 = 0, x2 = 10, y2 = 10\<rparr>
       \<lparr>x1 = 5, y1 = -3, x2 = 20, y2 = 4\<rparr>)) =
     rect_points \<lparr>x1 = 0, y1 = 0, x2 = 10, y2 = 10\<rparr> \<inter> rect_points \<lparr>x1 = 5, y1 = -3, x2 = 20, y2 = 4\<rparr>"
  using intersect_points [of "\<lparr>x1 = 0, y1 = 0, x2 = 10, y2 = 10\<rparr>"
      "\<lparr>x1 = 5, y1 = -3, x2 = 20, y2 = 4\<rparr>"]
  by (simp add: rect_small_def)

text \<open>Translation to a position moves the upper left corner there and keeps the size.\<close>

lemma translate_to_corner:
  assumes "rect_wf r" and "is_s32 x" and "is_s32 y"
  shows "x1 (drm_rect_translate_to r x y) = x \<and> y1 (drm_rect_translate_to r x y) = y \<and>
    drm_rect_width (drm_rect_translate_to r x y) = drm_rect_width r \<and>
    drm_rect_height (drm_rect_translate_to r x y) = drm_rect_height r"
proof -
  have corner: "to_s32 (a + to_s32 (b - a)) = to_s32 b" for a b
    by (simp add: to_s32_def mod_simps)
  have size: "to_s32 (to_s32 (a + to_s32 (c - b)) - c) = to_s32 (a - b)" for a b c
    by (simp add: to_s32_def mod_simps algebra_simps)
  from assms show ?thesis
    by (simp add: drm_rect_translate_to_def drm_rect_translate_def drm_rect_width_def
        drm_rect_height_def corner size to_s32_id)
qed

section \<open>Scaling\<close>

text \<open>
  A scale is a 16.16 fixed-point ratio of a source size (itself 16.16) to a destination size in
  pixels. The shift \<open>dst << 16\<close> wraps for destinations of 32768 pixels or more, so the results
  below are for smaller ones.
\<close>

lemma calc_scale_eq:
  assumes "0 \<le> src" and "src < 2147450880" and "0 < dst" and "dst < 32768"
  shows "drm_calc_scale src dst =
    (if src > dst * 65536 then (src + dst - 1) div dst else src div dst)"
  using assms
  by (simp add: drm_calc_scale_def div_round_up_s32_def to_s32_id is_s32_def c_div_nonneg)

text \<open>\<open>drm_rect_calc_hscale\<close> accepts a pair of rectangles exactly when the real ratio of the
  widths lies between the limits, whenever the limits enclose the factor 1.0: the rounding away from
  1.0 makes the integer test exact.\<close>

theorem calc_hscale_exact:
  assumes "rect_small src" and "rect_small dst"
    and "0 \<le> x2 src - x1 src" and "x2 src - x1 src < 2147450880"
    and "0 < x2 dst - x1 dst" and "x2 dst - x1 dst < 32768"
    and "0 \<le> lo" and "lo \<le> 65536" and "65536 \<le> hi"
  shows "drm_rect_calc_hscale src dst lo hi \<ge> 0 \<longleftrightarrow>
    lo * drm_rect_width dst \<le> drm_rect_width src \<and> drm_rect_width src \<le> hi * drm_rect_width dst"
proof -
  define s d where "s = x2 src - x1 src" and "d = x2 dst - x1 dst"
  have w: "drm_rect_width src = s" "drm_rect_width dst = d"
    using assms(1,2) by (simp_all add: rect_small_width s_def d_def)
  have s: "0 \<le> s" "s < 2147450880" and d: "0 < d" "d < 32768"
    using assms(3-6) by (simp_all add: s_def d_def)
  define q where "q = drm_calc_scale s d"
  have q: "q = (if s > d * 65536 then (s + d - 1) div d else s div d)"
    using calc_scale_eq [OF s d] by (simp add: q_def)
  have q0: "0 \<le> q" using s d by (simp add: q pos_imp_zdiv_nonneg_iff)
  have acc: "drm_rect_calc_hscale src dst lo hi \<ge> 0 \<longleftrightarrow> lo \<le> q \<and> q \<le> hi"
    using d q0 by (auto simp: drm_rect_calc_hscale_def w q_def[symmetric] Let_def neg_errno_def)
  have lo_d: "lo * d \<le> 65536 * d" and hi_d: "65536 * d \<le> hi * d"
    using assms(8,9) d by (auto intro: mult_right_mono)
  show ?thesis
    unfolding acc w
  proof (cases "s > d * 65536")
    case True
    then have qu: "q = (s + d - 1) div d" by (simp add: q)
    then have "q \<le> hi \<longleftrightarrow> s \<le> hi * d"
      using d by (simp add: ceil_div_le_iff)
    moreover have "lo * d \<le> s"
      using True lo_d by linarith
    moreover have "lo \<le> q"
    proof -
      have "65536 * d \<le> s + d - 1" using True d by (simp add: mult.commute)
      then have "65536 \<le> q"
        using d qu by (simp add: le_floor_div_iff)
      with assms(8) show ?thesis by simp
    qed
    ultimately show "lo \<le> q \<and> q \<le> hi \<longleftrightarrow> lo * d \<le> s \<and> s \<le> hi * d" by blast
  next
    case False
    then have qd: "q = s div d" by (simp add: q)
    have "q \<le> 65536"
      using False d zdiv_mono1 [of s "d * 65536" d] by (simp add: qd)
    moreover have "s \<le> hi * d"
      using False hi_d by linarith
    moreover have "lo \<le> q \<longleftrightarrow> lo * d \<le> s"
      using d by (simp add: qd le_floor_div_iff)
    ultimately show "lo \<le> q \<and> q \<le> hi \<longleftrightarrow> lo * d \<le> s \<and> s \<le> hi * d"
      using assms(9) by auto
  qed
qed

theorem calc_hscale_exact_witness:
  "drm_rect_calc_hscale \<lparr>x1 = 0, y1 = 0, x2 = 13107200, y2 = 6553600\<rparr>
     \<lparr>x1 = 0, y1 = 0, x2 = 100, y2 = 100\<rparr> 32768 131072 \<ge> 0"
  using calc_hscale_exact [of "\<lparr>x1 = 0, y1 = 0, x2 = 13107200, y2 = 6553600\<rparr>"
      "\<lparr>x1 = 0, y1 = 0, x2 = 100, y2 = 100\<rparr>" 32768 131072]
  by (simp add: rect_small_def drm_rect_width_def to_s32_id is_s32_def)

section \<open>Scaled clipping\<close>

text \<open>One clip step on sizes in range: the clip is bounded by the destination, and the new source
  size is the scaled size, rounded towards the factor 1.0.\<close>

lemma clip_scaled_eq:
  assumes "0 \<le> src" and "src < 2147483648" and "0 < dst" and "dst < 32768" and "0 < clip"
  shows "clip_scaled src dst clip =
    (if src < dst * 65536 then (src * (dst - min clip dst) + dst - 1) div dst
     else src * (dst - min clip dst) div dst, min clip dst)"
proof -
  define k where "k = dst - min clip dst"
  have k: "0 \<le> k" "k < dst" using assms by (auto simp: k_def)
  have prod: "0 \<le> src * k" "src * k \<le> src * dst"
    using assms k by (simp_all add: mult_left_mono)
  have "src * dst \<le> 2147483648 * 32768" using assms by (intro mult_mono) auto
  with prod have small: "src * k + dst < 18446744073709551616" using assms by linarith
  have q: "0 \<le> src * k div dst" "src * k div dst \<le> src"
    "0 \<le> (src * k + dst - 1) div dst" "(src * k + dst - 1) div dst \<le> src"
    using assms prod zdiv_mono1 [OF prod(2), of dst]
    by (simp_all add: pos_imp_zdiv_nonneg_iff ceil_div_le_iff mult.commute)
  have up: "to_u64 (src * k + dst - 1) = src * k + dst - 1"
    using assms prod small by (simp add: to_u64_id)
  show ?thesis
    using assms k prod q small
    by (simp add: up clip_scaled_def Let_def k_def[symmetric] mul_u32_u32_def div_round_up_ull_def
        div_round_down_ull_def to_s32_id is_s32_def to_u32_id to_u64_id)
qed

lemma clip_scaled_bounds:
  assumes "0 \<le> src" and "src < 2147483648" and "0 \<le> dst" and "dst < 32768" and "0 < clip"
    and "clip_scaled src dst clip = (n, c)"
  shows "c = (if dst = 0 then clip else min clip dst) \<and> 0 \<le> n \<and> n \<le> src"
proof (cases "dst = 0")
  case True
  with assms show ?thesis by (simp add: clip_scaled_def)
next
  case False
  with assms have d: "0 < dst" by simp
  have c: "c = min clip dst" and n: "n = (if src < dst * 65536 then (src * (dst - c) + dst - 1) div dst
      else src * (dst - c) div dst)"
    using assms(6) clip_scaled_eq [OF assms(1,2) d assms(4,5)] by auto
  have "src * (dst - c) \<le> src * dst"
    using assms c by (intro mult_left_mono) auto
  moreover have "0 \<le> src * (dst - c)"
    using assms c by auto
  ultimately have "0 \<le> n" "n \<le> src"
    using assms(1) d zdiv_mono1 [of "src * (dst - c)" "src * dst" dst]
    by (auto simp: n pos_imp_zdiv_nonneg_iff ceil_div_le_iff mult.commute)
  with False c show ?thesis by simp
qed

text \<open>The new source size is less than one unit from the source size scaled by the part of the
  destination that is left.\<close>

lemma clip_scaled_close:
  assumes "0 \<le> src" and "src < 2147483648" and "0 < dst" and "dst < 32768" and "0 < clip"
    and "clip_scaled src dst clip = (n, c)"
  shows "\<bar>n * dst - src * (dst - c)\<bar> < dst"
proof -
  let ?x = "src * (dst - c)"
  have "n = (if src < dst * 65536 then (?x + dst - 1) div dst else ?x div dst)"
    using assms(6) clip_scaled_eq [OF assms(1-5)] by auto
  then show ?thesis
    using assms(3) ceil_div_le_iff [of dst ?x n] ceil_div_le_iff [of dst ?x "n - 1"]
      le_floor_div_iff [of dst n ?x] le_floor_div_iff [of dst "n + 1" ?x]
    by (auto simp: abs_less_iff algebra_simps split: if_splits)
qed

text \<open>\<open>clip_scaled\<close> never changes upscaling into downscaling or the other way round: the clipped
  source size stays within the source size, and on the same side of the clipped destination size
  (in 16.16 fixed point) as before.\<close>

theorem clip_scaled_direction:
  assumes "0 \<le> src" and "src < 2147483648" and "0 < dst" and "dst < 32768" and "0 < clip"
    and "clip_scaled src dst clip = (n, c)"
  shows "c = min clip dst \<and> 0 \<le> n \<and> n \<le> src \<and>
    (src < dst * 65536 \<longrightarrow> n \<le> (dst - c) * 65536) \<and>
    (dst * 65536 \<le> src \<longrightarrow> (dst - c) * 65536 \<le> n)"
proof -
  have c: "c = min clip dst" and n: "n = (if src < dst * 65536 then (src * (dst - c) + dst - 1) div dst
      else src * (dst - c) div dst)"
    using assms(6) clip_scaled_eq [OF assms(1-5)] by auto
  have k: "0 \<le> dst - c" "dst - c \<le> dst" using assms c by auto
  have bnd: "0 \<le> n" "n \<le> src"
    using clip_scaled_bounds [OF assms(1,2) _ assms(4,5,6)] assms(3) by auto
  have "n \<le> (dst - c) * 65536" if "src < dst * 65536"
  proof -
    have "src * (dst - c) \<le> dst * 65536 * (dst - c)"
      using that k by (intro mult_right_mono) auto
    then show ?thesis
      using that assms by (simp add: n ceil_div_le_iff mult_ac)
  qed
  moreover have "(dst - c) * 65536 \<le> n" if "dst * 65536 \<le> src"
  proof -
    have "dst * 65536 * (dst - c) \<le> src * (dst - c)"
      using that k by (intro mult_right_mono) auto
    then show ?thesis
      using that assms by (simp add: n le_floor_div_iff mult_ac)
  qed
  ultimately show ?thesis using c bnd by blast
qed

theorem clip_scaled_direction_witness:
  "clip_scaled 1000000 100 30 = (700000, 30) \<and> 700000 \<le> (100 - 30) * (65536::int)"
proof -
  have e: "clip_scaled 1000000 100 30 = (700000, 30)"
    by (simp add: clip_scaled_eq)
  show ?thesis using clip_scaled_direction [OF _ _ _ _ _ e] e by simp
qed

text \<open>
  The four clip steps of \<open>drm_rect_clip_scaled\<close> work on the two axes separately; \<open>clip_axis\<close> is
  the pair of steps of one axis on the coordinates of that axis.
\<close>

definition clip_lo :: "int \<Rightarrow> int \<Rightarrow> int \<Rightarrow> int \<Rightarrow> int \<Rightarrow> int \<times> int" where
  "clip_lo s1 s2 d1 d2 c1 =
     (let diff = to_s32 (c1 - d1)
      in if diff > 0
         then let (n, diff) = clip_scaled (to_s32 (s2 - s1)) (to_s32 (d2 - d1)) diff
              in (to_s32 (s2 - n), to_s32 (d1 + diff))
         else (s1, d1))"

definition clip_hi :: "int \<Rightarrow> int \<Rightarrow> int \<Rightarrow> int \<Rightarrow> int \<Rightarrow> int \<times> int" where
  "clip_hi s1 s2 d1 d2 c2 =
     (let diff = to_s32 (d2 - c2)
      in if diff > 0
         then let (n, diff) = clip_scaled (to_s32 (s2 - s1)) (to_s32 (d2 - d1)) diff
              in (to_s32 (s1 + n), to_s32 (d2 - diff))
         else (s2, d2))"

definition clip_axis :: "int \<Rightarrow> int \<Rightarrow> int \<Rightarrow> int \<Rightarrow> int \<Rightarrow> int \<Rightarrow> int \<times> int \<times> int \<times> int" where
  "clip_axis s1 s2 d1 d2 c1 c2 =
     (let (s1, d1) = clip_lo s1 s2 d1 d2 c1; (s2, d2) = clip_hi s1 s2 d1 d2 c2
      in (s1, s2, d1, d2))"

lemma clip_scaled_axes:
  "drm_rect_clip_scaled src dst clip =
     (let (sx1, sx2, dx1, dx2) = clip_axis (x1 src) (x2 src) (x1 dst) (x2 dst) (x1 clip) (x2 clip);
          (sy1, sy2, dy1, dy2) = clip_axis (y1 src) (y2 src) (y1 dst) (y2 dst) (y1 clip) (y2 clip);
          src' = \<lparr>x1 = sx1, y1 = sy1, x2 = sx2, y2 = sy2\<rparr>;
          dst' = \<lparr>x1 = dx1, y1 = dy1, x2 = dx2, y2 = dy2\<rparr>
      in (drm_rect_visible dst', src', dst'))"
  by (cases src; cases dst; cases clip)
    (simp add: drm_rect_clip_scaled_def clip_axis_def clip_lo_def clip_hi_def drm_rect_width_def
      drm_rect_height_def Let_def split: prod.split)

definition coord_small :: "int \<Rightarrow> bool" where
  "coord_small c \<longleftrightarrow> - 1073741824 \<le> c \<and> c < 1073741824"

lemma clip_lo_bounds:
  assumes s: "coord_small s1" "s1 \<le> s2" "coord_small s2"
    and d: "coord_small d1" "d1 < d2" "coord_small d2" "d2 - d1 < 32768" and c: "coord_small c1"
    and r: "clip_lo s1 s2 d1 d2 c1 = (sm, dm)"
  shows "s1 \<le> sm \<and> sm \<le> s2 \<and> dm = (if c1 > d1 then min c1 d2 else d1)"
proof (cases "c1 > d1")
  case True
  obtain n diff where nd: "clip_scaled (s2 - s1) (d2 - d1) (c1 - d1) = (n, diff)" by force
  then have "diff = min (c1 - d1) (d2 - d1)" "0 \<le> n" "n \<le> s2 - s1"
    using clip_scaled_bounds [OF _ _ _ _ _ nd] s d True by (auto simp: coord_small_def)
  then show ?thesis
    using True r nd s d c
    by (auto simp: clip_lo_def Let_def coord_small_def to_s32_id is_s32_def min_def)
next
  case False
  with r s d c show ?thesis
    by (simp add: clip_lo_def Let_def coord_small_def to_s32_id is_s32_def)
qed

lemma clip_hi_bounds:
  assumes s: "coord_small s1" "s1 \<le> s2" "coord_small s2"
    and d: "coord_small d1" "d1 \<le> d2" "coord_small d2" "d2 - d1 < 32768" and c: "coord_small c2"
    and r: "clip_hi s1 s2 d1 d2 c2 = (sm, dm)"
  shows "s1 \<le> sm \<and> sm \<le> s2 \<and>
    dm = (if d2 > c2 then (if d2 = d1 then c2 else max c2 d1) else d2)"
proof (cases "d2 > c2")
  case True
  obtain n diff where nd: "clip_scaled (s2 - s1) (d2 - d1) (d2 - c2) = (n, diff)" by force
  then have "diff = (if d2 - d1 = 0 then d2 - c2 else min (d2 - c2) (d2 - d1))"
    "0 \<le> n" "n \<le> s2 - s1"
    using clip_scaled_bounds [OF _ _ _ _ _ nd] s d True by (auto simp: coord_small_def)
  then show ?thesis
    using True r nd s d c
    by (auto simp: clip_hi_def Let_def coord_small_def to_s32_id is_s32_def min_def)
next
  case False
  with r s d c show ?thesis
    by (simp add: clip_hi_def Let_def coord_small_def to_s32_id is_s32_def)
qed

lemma clip_axis_points:
  assumes s: "coord_small s1" "s1 \<le> s2" "coord_small s2"
    and d: "coord_small d1" "d1 < d2" "coord_small d2" "d2 - d1 < 32768"
    and c: "coord_small c1" "coord_small c2"
    and r: "clip_axis s1 s2 d1 d2 c1 c2 = (s1', s2', d1', d2')"
  shows "{d1'..<d2'} = {d1..<d2} \<inter> {c1..<c2} \<and> s1 \<le> s1' \<and> s1' \<le> s2' \<and> s2' \<le> s2 \<and>
    coord_small d1' \<and> coord_small d2'"
proof -
  from r have lo: "clip_lo s1 s2 d1 d2 c1 = (s1', d1')" and hi: "clip_hi s1' s2 d1' d2 c2 = (s2', d2')"
    by (auto simp: clip_axis_def Let_def split: prod.splits)
  have l: "s1 \<le> s1' \<and> s1' \<le> s2 \<and> d1' = (if c1 > d1 then min c1 d2 else d1)"
    by (rule clip_lo_bounds [OF s d c(1) lo])
  have "s1' \<le> s2' \<and> s2' \<le> s2 \<and> d2' = (if d2 > c2 then (if d2 = d1' then c2 else max c2 d1') else d2)"
    by (rule clip_hi_bounds [OF _ _ s(3) _ _ d(3) _ c(2) hi])
      (use l s d c in \<open>auto simp: coord_small_def\<close>)
  with l s d c show ?thesis by (auto simp: coord_small_def)
qed

text \<open>
  The scaling factors of an axis are kept: with \<open>S\<close> and \<open>D\<close> the sizes of source and destination
  before clipping, the new source edge is less than one source unit (\<open>1/65536\<close> of a pixel) from the place that the new
  destination edge scales to by \<open>S / D\<close>, and the new source size less than two units from the new destination size so scaled.
\<close>

definition scale_kept :: "int \<Rightarrow> int \<Rightarrow> int \<Rightarrow> int \<Rightarrow> int \<Rightarrow> int \<Rightarrow> int \<Rightarrow> int \<Rightarrow> bool" where
  "scale_kept s1 s2 d1 d2 s1' s2' d1' d2' \<longleftrightarrow>
     \<bar>(s1' - s1) * (d2 - d1) - (s2 - s1) * (d1' - d1)\<bar> < d2 - d1 \<and>
     \<bar>(s2' - s1') * (d2 - d1) - (s2 - s1) * (d2' - d1')\<bar> < 2 * (d2 - d1)"

lemma clip_lo_close:
  assumes s: "coord_small s1" "s1 \<le> s2" "coord_small s2"
    and d: "coord_small d1" "d1 < d2" "coord_small d2" "d2 - d1 < 32768" and c: "coord_small c1"
    and r: "clip_lo s1 s2 d1 d2 c1 = (sm, dm)"
  shows "\<bar>(s2 - sm) * (d2 - d1) - (s2 - s1) * (d2 - dm)\<bar> < d2 - d1"
proof (cases "c1 > d1")
  case True
  obtain n diff where nd: "clip_scaled (s2 - s1) (d2 - d1) (c1 - d1) = (n, diff)" by force
  have b: "diff = min (c1 - d1) (d2 - d1)" "0 \<le> n" "n \<le> s2 - s1"
    using clip_scaled_bounds [OF _ _ _ _ _ nd] s d True by (auto simp: coord_small_def)
  then have "s2 - sm = n" "d2 - dm = d2 - d1 - diff"
    using True r nd s d c
    by (auto simp: clip_lo_def Let_def coord_small_def to_s32_id is_s32_def min_def)
  moreover have "\<bar>n * (d2 - d1) - (s2 - s1) * (d2 - d1 - diff)\<bar> < d2 - d1"
    by (rule clip_scaled_close [OF _ _ _ _ _ nd]) (use s d True in \<open>auto simp: coord_small_def\<close>)
  ultimately show ?thesis by (simp only:)
next
  case False
  with r s d c show ?thesis
    by (simp add: clip_lo_def Let_def coord_small_def to_s32_id is_s32_def)
qed

lemma clip_hi_close:
  assumes s: "coord_small s1" "s1 \<le> s2" "coord_small s2"
    and d: "coord_small d1" "d1 < d2" "coord_small d2" "d2 - d1 < 32768" and c: "coord_small c2"
    and r: "clip_hi s1 s2 d1 d2 c2 = (sm, dm)"
  shows "\<bar>(sm - s1) * (d2 - d1) - (s2 - s1) * (dm - d1)\<bar> < d2 - d1"
proof (cases "d2 > c2")
  case True
  obtain n diff where nd: "clip_scaled (s2 - s1) (d2 - d1) (d2 - c2) = (n, diff)" by force
  have b: "diff = min (d2 - c2) (d2 - d1)" "0 \<le> n" "n \<le> s2 - s1"
    using clip_scaled_bounds [OF _ _ _ _ _ nd] s d True by (auto simp: coord_small_def)
  then have "sm - s1 = n" "dm - d1 = d2 - d1 - diff"
    using True r nd s d c
    by (auto simp: clip_hi_def Let_def coord_small_def to_s32_id is_s32_def min_def)
  moreover have "\<bar>n * (d2 - d1) - (s2 - s1) * (d2 - d1 - diff)\<bar> < d2 - d1"
    by (rule clip_scaled_close [OF _ _ _ _ _ nd]) (use s d True in \<open>auto simp: coord_small_def\<close>)
  ultimately show ?thesis by (simp only:)
next
  case False
  with r s d c show ?thesis
    by (simp add: clip_hi_def Let_def coord_small_def to_s32_id is_s32_def)
qed

text \<open>Two roundings in a row: a size \<open>S\<close> over \<open>D\<close> is scaled to \<open>n\<close> over \<open>k\<close>, and that to
  \<open>m\<close> over \<open>j\<close>.\<close>

lemma two_roundings:
  fixes S D :: int
  assumes e1: "\<bar>n * D - S * k\<bar> < D" and e2: "\<bar>m * k - n * j\<bar> < k" and j: "0 \<le> j" "j \<le> k"
  shows "\<bar>m * D - S * j\<bar> < 2 * D"
proof -
  have D: "0 < D" and k: "0 < k" using e1 e2 by linarith+
  have "(m * D - S * j) * k = (n * D - S * k) * j + (m * k - n * j) * D" by (simp add: algebra_simps)
  then have "\<bar>m * D - S * j\<bar> * \<bar>k\<bar> \<le> \<bar>n * D - S * k\<bar> * \<bar>j\<bar> + \<bar>m * k - n * j\<bar> * \<bar>D\<bar>"
    using abs_triangle_ineq [of "(n * D - S * k) * j" "(m * k - n * j) * D"] unfolding abs_mult [symmetric] by simp
  then have "\<bar>m * D - S * j\<bar> * k \<le> \<bar>n * D - S * k\<bar> * j + \<bar>m * k - n * j\<bar> * D"
    using j k D by simp
  also have "\<dots> < D * k + k * D"
    using mult_mono [of "\<bar>n * D - S * k\<bar>" D j k] mult_strict_right_mono [OF e2 D] e1 j D by linarith
  finally have "\<bar>m * D - S * j\<bar> * k < (2 * D) * k" by (simp add: algebra_simps)
  then show ?thesis using k by (simp add: mult_less_cancel_right)
qed

lemma clip_axis_scale:
  assumes s: "coord_small s1" "s1 \<le> s2" "coord_small s2"
    and d: "coord_small d1" "d1 < d2" "coord_small d2" "d2 - d1 < 32768"
    and c: "coord_small c1" "coord_small c2"
    and r: "clip_axis s1 s2 d1 d2 c1 c2 = (s1', s2', d1', d2')" and vis: "d1' < d2'"
  shows "scale_kept s1 s2 d1 d2 s1' s2' d1' d2'"
proof -
  from r have lo: "clip_lo s1 s2 d1 d2 c1 = (s1', d1')" and hi: "clip_hi s1' s2 d1' d2 c2 = (s2', d2')"
    by (auto simp: clip_axis_def Let_def split: prod.splits)
  have l: "s1 \<le> s1' \<and> s1' \<le> s2 \<and> d1' = (if c1 > d1 then min c1 d2 else d1)"
    by (rule clip_lo_bounds [OF s d c(1) lo])
  have h: "s1' \<le> s2' \<and> s2' \<le> s2 \<and> d2' = (if d2 > c2 then (if d2 = d1' then c2 else max c2 d1') else d2)"
    by (rule clip_hi_bounds [OF _ _ s(3) _ _ d(3) _ c(2) hi])
      (use l s d c in \<open>auto simp: coord_small_def\<close>)
  then have k: "d1' < d2" "d2' \<le> d2" using vis by (auto split: if_splits)
  have e1: "\<bar>(s2 - s1') * (d2 - d1) - (s2 - s1) * (d2 - d1')\<bar> < d2 - d1"
    by (rule clip_lo_close [OF s d c(1) lo])
  have e2: "\<bar>(s2' - s1') * (d2 - d1') - (s2 - s1') * (d2' - d1')\<bar> < d2 - d1'"
    by (rule clip_hi_close [OF _ _ s(3) _ k(1) d(3) _ c(2) hi])
      (use l s d c in \<open>auto simp: coord_small_def\<close>)
  have "(s1' - s1) * (d2 - d1) - (s2 - s1) * (d1' - d1) =
      - ((s2 - s1') * (d2 - d1) - (s2 - s1) * (d2 - d1'))"
    by (simp add: algebra_simps)
  then show ?thesis
    unfolding scale_kept_def using e1 two_roundings [OF e1 e2] vis k by simp
qed

text \<open>C33. \<open>drm_rect_clip_scaled\<close> for rectangles with coordinates below \<open>2 ^ 30\<close> in magnitude, an
  ordered source, and a nonempty destination with sides below 32768: the clipped destination is the intersection of
  destination and clip rectangle, the result says whether it is nonempty, the clipped source is
  a sub-rectangle of the source, and as long as something is left the scaling factors of both axes
  are kept: the source is clipped in proportion to the destination, up to rounding by less than one unit of
  \<open>1/65536\<close> pixel at its upper left corner and less than two in its size.\<close>

theorem clip_scaled_points:
  assumes "rect_small src" and "rect_small dst" and "rect_small clip"
    and "x1 src \<le> x2 src" and "y1 src \<le> y2 src"
    and "x1 dst < x2 dst" and "x2 dst - x1 dst < 32768"
    and "y1 dst < y2 dst" and "y2 dst - y1 dst < 32768"
    and "drm_rect_clip_scaled src dst clip = (vis, src', dst')"
  shows "rect_points dst' = rect_points dst \<inter> rect_points clip \<and>
    (vis \<longleftrightarrow> rect_points dst \<inter> rect_points clip \<noteq> {}) \<and>
    rect_points src' \<subseteq> rect_points src \<and> x1 src' \<le> x2 src' \<and> y1 src' \<le> y2 src' \<and>
    (vis \<longrightarrow>
      scale_kept (x1 src) (x2 src) (x1 dst) (x2 dst) (x1 src') (x2 src') (x1 dst') (x2 dst') \<and>
      scale_kept (y1 src) (y2 src) (y1 dst) (y2 dst) (y1 src') (y2 src') (y1 dst') (y2 dst'))"
proof -
  obtain sx1 sx2 dx1 dx2 where x:
    "clip_axis (x1 src) (x2 src) (x1 dst) (x2 dst) (x1 clip) (x2 clip) = (sx1, sx2, dx1, dx2)"
    by (metis surj_pair)
  obtain sy1 sy2 dy1 dy2 where y:
    "clip_axis (y1 src) (y2 src) (y1 dst) (y2 dst) (y1 clip) (y2 clip) = (sy1, sy2, dy1, dy2)"
    by (metis surj_pair)
  have res: "src' = \<lparr>x1 = sx1, y1 = sy1, x2 = sx2, y2 = sy2\<rparr>"
    "dst' = \<lparr>x1 = dx1, y1 = dy1, x2 = dx2, y2 = dy2\<rparr>" "vis = drm_rect_visible dst'"
    using assms(10) by (auto simp: clip_scaled_axes x y Let_def)
  have X: "{dx1..<dx2} = {x1 dst..<x2 dst} \<inter> {x1 clip..<x2 clip} \<and>
      x1 src \<le> sx1 \<and> sx1 \<le> sx2 \<and> sx2 \<le> x2 src \<and> coord_small dx1 \<and> coord_small dx2"
    by (rule clip_axis_points [OF _ _ _ _ _ _ _ _ _ x])
      (use assms in \<open>simp_all add: rect_small_def coord_small_def\<close>)
  have Y: "{dy1..<dy2} = {y1 dst..<y2 dst} \<inter> {y1 clip..<y2 clip} \<and>
      y1 src \<le> sy1 \<and> sy1 \<le> sy2 \<and> sy2 \<le> y2 src \<and> coord_small dy1 \<and> coord_small dy2"
    by (rule clip_axis_points [OF _ _ _ _ _ _ _ _ _ y])
      (use assms in \<open>simp_all add: rect_small_def coord_small_def\<close>)
  have small: "rect_small dst'" using X Y by (simp add: res rect_small_def coord_small_def)
  have pts: "rect_points dst' = rect_points dst \<inter> rect_points clip"
    using X Y by (simp add: res rect_points_def Times_Int_Times)
  have "rect_points src' \<subseteq> rect_points src"
    using X Y by (auto simp: res rect_points_def)
  moreover have "scale_kept (x1 src) (x2 src) (x1 dst) (x2 dst) sx1 sx2 dx1 dx2" if "dx1 < dx2"
    by (rule clip_axis_scale [OF _ _ _ _ _ _ _ _ _ x that])
      (use assms in \<open>simp_all add: rect_small_def coord_small_def\<close>)
  moreover have "scale_kept (y1 src) (y2 src) (y1 dst) (y2 dst) sy1 sy2 dy1 dy2" if "dy1 < dy2"
    by (rule clip_axis_scale [OF _ _ _ _ _ _ _ _ _ y that])
      (use assms in \<open>simp_all add: rect_small_def coord_small_def\<close>)
  moreover have vis: "vis \<longleftrightarrow> dx1 < dx2 \<and> dy1 < dy2" "vis \<longleftrightarrow> rect_points dst' \<noteq> {}"
    using visible_iff_points [OF small] by (auto simp: res rect_points_def)
  ultimately show ?thesis using pts X Y by (simp add: vis(2)) (simp add: res vis(1) rect_points_def)
qed

theorem clip_scaled_points_witness:
  "rect_points (snd (snd (drm_rect_clip_scaled
       \<lparr>x1 = 0, y1 = 0, x2 = 6553600, y2 = 6553600\<rparr> \<lparr>x1 = 0, y1 = 0, x2 = 100, y2 = 100\<rparr>
       \<lparr>x1 = 20, y1 = -5, x2 = 60, y2 = 50\<rparr>)))
   = rect_points \<lparr>x1 = 0, y1 = 0, x2 = 100, y2 = 100\<rparr> \<inter> rect_points \<lparr>x1 = 20, y1 = -5, x2 = 60, y2 = 50\<rparr> \<and>
   scale_kept 0 6553600 0 100 1310720 3932160 20 60"
proof -
  let ?s = "\<lparr>x1 = 0, y1 = 0, x2 = 6553600, y2 = 6553600\<rparr>" and ?d = "\<lparr>x1 = 0, y1 = 0, x2 = 100, y2 = 100\<rparr>"
  let ?c = "\<lparr>x1 = 20, y1 = -5, x2 = 60, y2 = 50\<rparr>"
  have r: "drm_rect_clip_scaled ?s ?d ?c =
      (True, \<lparr>x1 = 1310720, y1 = 0, x2 = 3932160, y2 = 3276800\<rparr>, \<lparr>x1 = 20, y1 = 0, x2 = 60, y2 = 50\<rparr>)"
    by code_simp
  show ?thesis using clip_scaled_points [OF _ _ _ _ _ _ _ _ _ r] by (simp add: r rect_small_def)
qed

end
