(* ===== verification/Interval_Tree.thy ===== *)
theory Interval_Tree
  imports DRM_Prelude
begin

text \<open>
  The augmented interval tree of \<open>include/linux/interval_tree_generic.h\<close>, which
  \<open>INTERVAL_TREE_DEFINE\<close> instantiates for \<open>struct drm_gpuva\<close> in \<open>drm_gpuvm.c\<close>. The template's
  parameters \<open>ITSTART\<close> and \<open>ITLAST\<close> are the arguments \<open>st\<close> and \<open>la\<close>.

  The red-black tree library (\<open>lib/rbtree.c\<close>) is not part of the repository: its rebalancing
  insertion, its erasure and its in-order neighbours are the fields of the parameter \<open>lib\<close>. What
  the template relies on (declared and documented in \<open>include/linux/rbtree.h\<close> and
  \<open>rbtree_augmented.h\<close>) is the locale \<open>rb_library\<close>; the correctness of the template is proved in it.
\<close>

section \<open>Trees\<close>

text \<open>A node carries its element and the augmented field \<open>ITSUBTREE\<close>, the last address of its subtree.\<close>

datatype 'a rbt = Leaf | Node "'a rbt" 'a u64 "'a rbt"

record 'a rb_root_cached =
  rb_root :: "'a rbt"
  rb_leftmost :: "'a option"

record 'a rb_lib =
  rb_insert_augmented :: "'a rbt \<Rightarrow> 'a rbt"
  rb_erase_augmented :: "'a \<Rightarrow> 'a rbt \<Rightarrow> 'a rbt"
  rb_next :: "'a rbt \<Rightarrow> 'a \<Rightarrow> 'a option"
  rb_prev :: "'a rbt \<Rightarrow> 'a \<Rightarrow> 'a option"

definition RB_ROOT_CACHED :: "'a rb_root_cached" where
  "RB_ROOT_CACHED = \<lparr>rb_root = Leaf, rb_leftmost = None\<rparr>"

fun inorder :: "'a rbt \<Rightarrow> 'a list" where
  "inorder Leaf = []"
| "inorder (Node l x m r) = inorder l @ x # inorder r"

section \<open>The operations of the template\<close>

text \<open>The descent of \<open>_insert\<close>: it raises \<open>ITSUBTREE\<close> on the way down and links the new leaf.\<close>

fun it_link :: "('a \<Rightarrow> u64) \<Rightarrow> ('a \<Rightarrow> u64) \<Rightarrow> 'a \<Rightarrow> 'a rbt \<Rightarrow> 'a rbt" where
  "it_link st la node Leaf = Node Leaf node (la node) Leaf"
| "it_link st la node (Node l x m r) =
     (let m' = (if m < la node then la node else m)
      in if st node < st x then Node (it_link st la node l) x m' r
         else Node l x m' (it_link st la node r))"

fun it_leftmost :: "('a \<Rightarrow> u64) \<Rightarrow> 'a \<Rightarrow> 'a rbt \<Rightarrow> bool" where
  "it_leftmost st node Leaf = True"
| "it_leftmost st node (Node l x m r) = (st node < st x \<and> it_leftmost st node l)"

definition it_insert ::
    "'a rb_lib \<Rightarrow> ('a \<Rightarrow> u64) \<Rightarrow> ('a \<Rightarrow> u64) \<Rightarrow> 'a \<Rightarrow> 'a rb_root_cached \<Rightarrow> 'a rb_root_cached" where
  "it_insert lib st la node root =
     \<lparr>rb_root = rb_insert_augmented lib (it_link st la node (rb_root root)),
      rb_leftmost = (if it_leftmost st node (rb_root root) then Some node else rb_leftmost root)\<rparr>"

definition it_remove :: "'a rb_lib \<Rightarrow> 'a \<Rightarrow> 'a rb_root_cached \<Rightarrow> 'a rb_root_cached" where
  "it_remove lib node root =
     \<lparr>rb_root = rb_erase_augmented lib node (rb_root root),
      rb_leftmost = (if rb_leftmost root = Some node then rb_next lib (rb_root root) node
                     else rb_leftmost root)\<rparr>"

text \<open>
  The search returns a node or \<open>NULL\<close>. The loop of \<open>_subtree_search\<close> also follows \<open>rb_right\<close>
  without a test; \<open>ItFault\<close> is the dereference of a null pointer this would be.
\<close>

datatype 'a it_res = ItNull | ItFound 'a | ItFault

fun it_subtree_search ::
    "('a \<Rightarrow> u64) \<Rightarrow> ('a \<Rightarrow> u64) \<Rightarrow> 'a rbt \<Rightarrow> u64 \<Rightarrow> u64 \<Rightarrow> 'a it_res" where
  "it_subtree_search st la Leaf start stop = ItFault"
| "it_subtree_search st la (Node l x m r) start stop =
     (if (case l of Leaf \<Rightarrow> False | Node _ _ ml _ \<Rightarrow> start \<le> ml)
      then it_subtree_search st la l start stop
      else if st x \<le> stop
      then (if start \<le> la x then ItFound x else it_subtree_search st la r start stop)
      else ItNull)"

definition it_iter_first ::
    "('a \<Rightarrow> u64) \<Rightarrow> ('a \<Rightarrow> u64) \<Rightarrow> 'a rb_root_cached \<Rightarrow> u64 \<Rightarrow> u64 \<Rightarrow> 'a it_res" where
  "it_iter_first st la root start stop =
     (case rb_root root of
        Leaf \<Rightarrow> ItNull
      | Node l x m r \<Rightarrow>
          if m < start then ItNull
          else case rb_leftmost root of
            None \<Rightarrow> ItFault
          | Some leftmost \<Rightarrow>
              if st leftmost > stop then ItNull
              else it_subtree_search st la (rb_root root) start stop)"

section \<open>The invariant\<close>

text \<open>\<open>ITSUBTREE\<close> is the maximum of \<open>ITLAST\<close> over the subtree, the property
  \<open>RB_DECLARE_CALLBACKS_MAX\<close> maintains.\<close>

fun augmented :: "('a \<Rightarrow> u64) \<Rightarrow> 'a rbt \<Rightarrow> bool" where
  "augmented la Leaf = True"
| "augmented la (Node l x m r) =
     (augmented la l \<and> augmented la r \<and>
      (\<forall>y \<in> set (inorder (Node l x m r)). la y \<le> m) \<and>
      (\<exists>y \<in> set (inorder (Node l x m r)). la y = m))"

definition it_inv :: "('a \<Rightarrow> u64) \<Rightarrow> ('a \<Rightarrow> u64) \<Rightarrow> 'a rb_root_cached \<Rightarrow> bool" where
  "it_inv st la root \<longleftrightarrow>
     sorted (map st (inorder (rb_root root))) \<and> distinct (inorder (rb_root root)) \<and>
     augmented la (rb_root root) \<and>
     rb_leftmost root = (case inorder (rb_root root) of [] \<Rightarrow> None | x # _ \<Rightarrow> Some x)"

text \<open>The intersection test of the template's comment, and the reference search: the first
  intersecting element of the in-order sequence.\<close>

definition intersects :: "('a \<Rightarrow> u64) \<Rightarrow> ('a \<Rightarrow> u64) \<Rightarrow> u64 \<Rightarrow> u64 \<Rightarrow> 'a \<Rightarrow> bool" where
  "intersects st la start stop x \<longleftrightarrow> st x \<le> stop \<and> start \<le> la x"

fun it_res_of :: "'a option \<Rightarrow> 'a it_res" where
  "it_res_of None = ItNull"
| "it_res_of (Some x) = ItFound x"

section \<open>Search\<close>

lemma augmented_ge: "augmented la (Node l x m r) \<Longrightarrow> y \<in> set (inorder (Node l x m r)) \<Longrightarrow> la y \<le> m"
  by auto

text \<open>Under the loop invariant of the source (some node of the subtree satisfies \<open>Cond2\<close>) the
  search finds the first intersecting node and never leaves the tree.\<close>

lemma it_subtree_search_correct:
  assumes "augmented la t" and "sorted (map st (inorder t))"
    and "\<exists>y \<in> set (inorder t). start \<le> la y"
  shows "it_subtree_search st la t start stop =
    it_res_of (find (intersects st la start stop) (inorder t))"
  using assms
proof (induction t)
  case Leaf
  then show ?case by simp
next
  case (Node l x m r)
  let ?P = "intersects st la start stop"
  have srt: "sorted (map st (inorder l))" "sorted (map st (inorder r))"
    "\<And>y. y \<in> set (inorder l) \<Longrightarrow> st y \<le> st x" "\<And>y. y \<in> set (inorder r) \<Longrightarrow> st x \<le> st y"
    "\<And>y z. y \<in> set (inorder l) \<Longrightarrow> z \<in> set (inorder r) \<Longrightarrow> st y \<le> st z"
    using Node.prems(2) by (auto simp: sorted_append)
  have aug: "augmented la l" "augmented la r" using Node.prems(1) by simp_all
  have left_iff: "(case l of Leaf \<Rightarrow> False | Node _ _ ml _ \<Rightarrow> start \<le> ml) \<longleftrightarrow>
      (\<exists>y \<in> set (inorder l). start \<le> la y)"
  proof (cases l)
    case (Node l1 y ml l2)
    with aug(1) show ?thesis
      by (auto simp del: inorder.simps dest: augmented_ge intro: order_trans)
  qed simp
  show ?case
  proof (cases "\<exists>y \<in> set (inorder l). start \<le> la y")
    case True
    then obtain y where y: "y \<in> set (inorder l)" "start \<le> la y" by blast
    have "find ?P (x # inorder r) = None" if none: "find ?P (inorder l) = None"
    proof -
      have "stop < st y" using none y unfolding find_None_iff intersects_def by (meson not_le)
      then have "stop < st z" if "z \<in> set (x # inorder r)" for z
        using that srt(3) [OF y(1)] srt(5) [OF y(1), of z] by auto
      then show ?thesis by (intro find_None_all) (auto simp: intersects_def dest: leD)
    qed
    with True Node.IH(1) aug srt left_iff show ?thesis
      by (cases "find ?P (inorder l)") (auto simp: find_append)
  next
    case False
    then have nl: "find ?P (inorder l) = None"
      by (intro find_None_all) (auto simp: intersects_def)
    have rest: "\<exists>y \<in> set (inorder r). start \<le> la y" if "\<not> start \<le> la x"
      using Node.prems(3) False that by auto
    have "find ?P (inorder r) = None" if "\<not> st x \<le> stop"
      using that srt(4) by (intro find_None_all) (auto simp: intersects_def dest: order_trans leD)
    moreover have "?P x \<longleftrightarrow> st x \<le> stop \<and> start \<le> la x" by (simp add: intersects_def)
    ultimately show ?thesis using False left_iff nl rest Node.IH(2) aug srt
      by (auto simp: find_append)
  qed
qed

lemma it_iter_first_correct:
  assumes "it_inv st la root"
  shows "it_iter_first st la root start stop =
    it_res_of (find (intersects st la start stop) (inorder (rb_root root)))"
proof (cases "rb_root root")
  case Leaf
  then show ?thesis by (simp add: it_iter_first_def)
next
  case (Node l x m r)
  let ?xs = "inorder (rb_root root)"
  have inv: "sorted (map st ?xs)" "augmented la (rb_root root)" using assms by (simp_all add: it_inv_def)
  obtain y ys where y: "?xs = y # ys" using Node by (cases "inorder l") auto
  then have lm: "rb_leftmost root = Some y" using assms by (simp add: it_inv_def)
  have small: "find (intersects st la start stop) ?xs = None" if "m < start"
    using that inv(2) augmented_ge [of la l x m r] Node
    by (intro find_None_all) (auto simp: intersects_def simp del: inorder.simps dest: leD order_trans)
  have big: "find (intersects st la start stop) ?xs = None" if "stop < st y"
    using that inv(1) y by (intro find_None_all) (auto simp: intersects_def dest: leD order_trans)
  have "\<exists>z \<in> set ?xs. start \<le> la z" if "\<not> m < start"
    using that inv(2) Node by (auto simp: not_less)
  with inv have "it_subtree_search st la (rb_root root) start stop =
      it_res_of (find (intersects st la start stop) ?xs)" if "\<not> m < start"
    using that it_subtree_search_correct by blast
  with Node lm small big show ?thesis by (auto simp: it_iter_first_def)
qed

section \<open>Insertion and removal, over the library's laws\<close>

lemma inorder_it_link:
  "sorted (map st (inorder t)) \<Longrightarrow>
   inorder (it_link st la n t) =
     takeWhile (\<lambda>y. st y \<le> st n) (inorder t) @ n # dropWhile (\<lambda>y. st y \<le> st n) (inorder t)"
proof (induction t)
  case Leaf
  then show ?case by simp
next
  case (Node l x m r)
  have srt: "sorted (map st (inorder l))" "sorted (map st (inorder r))"
    "\<And>y. y \<in> set (inorder l) \<Longrightarrow> st y \<le> st x"
    using Node.prems by (auto simp: sorted_append)
  show ?case
  proof (cases "st n < st x")
    case True
    then show ?thesis using Node.IH(1) srt
      by (auto simp: takeWhile_append dropWhile_append Let_def not_le)
  next
    case False
    then have "\<And>y. y \<in> set (inorder l) \<Longrightarrow> st y \<le> st n" using srt(3) by (meson not_less order_trans)
    then show ?thesis using Node.IH(2) srt False
      by (auto simp: takeWhile_append dropWhile_append Let_def not_less)
  qed
qed

lemma set_inorder_it_link: "set (inorder (it_link st la n t)) = insert n (set (inorder t))"
  by (induction t) (auto simp: Let_def)

lemma augmented_it_link: "augmented la t \<Longrightarrow> augmented la (it_link st la n t)"
  by (induction t) (auto simp: Let_def set_inorder_it_link not_less intro: order_trans dest: less_imp_le)

lemma it_leftmost_iff:
  "sorted (map st (inorder t)) \<Longrightarrow>
   it_leftmost st n t \<longleftrightarrow> (case inorder t of [] \<Rightarrow> True | y # _ \<Rightarrow> st n < st y)"
proof (induction t)
  case Leaf
  then show ?case by simp
next
  case (Node l x m r)
  then show ?case by (cases "inorder l") (auto simp: sorted_append)
qed

locale rb_library =
  fixes la :: "'a \<Rightarrow> u64" and lib :: "'a rb_lib"
  assumes insert_inorder: "inorder (rb_insert_augmented lib t) = inorder t"
    and insert_augmented: "augmented la t \<Longrightarrow> augmented la (rb_insert_augmented lib t)"
    and erase_inorder: "distinct (inorder t) \<Longrightarrow> x \<in> set (inorder t) \<Longrightarrow>
      inorder (rb_erase_augmented lib x t) = remove1 x (inorder t)"
    and erase_augmented: "augmented la t \<Longrightarrow> augmented la (rb_erase_augmented lib x t)"
    and next_inorder: "distinct (inorder t) \<Longrightarrow> inorder t = xs @ x # ys \<Longrightarrow>
      rb_next lib t x = (case ys of [] \<Rightarrow> None | y # _ \<Rightarrow> Some y)"
    and prev_inorder: "distinct (inorder t) \<Longrightarrow> inorder t = xs @ x # ys \<Longrightarrow>
      rb_prev lib t x = (if xs = [] then None else Some (last xs))"
begin

lemma it_insert_inorder:
  assumes "it_inv st la root"
  shows "inorder (rb_root (it_insert lib st la n root)) =
    takeWhile (\<lambda>y. st y \<le> st n) (inorder (rb_root root)) @
    n # dropWhile (\<lambda>y. st y \<le> st n) (inorder (rb_root root))"
  using assms by (simp add: it_insert_def insert_inorder inorder_it_link it_inv_def)

lemma it_insert_inv:
  assumes inv: "it_inv st la root" and fresh: "n \<notin> set (inorder (rb_root root))"
  shows "it_inv st la (it_insert lib st la n root)"
proof -
  let ?xs = "inorder (rb_root root)"
  let ?p = "\<lambda>y. st y \<le> st n"
  have srt: "sorted (map st ?xs)" and dis: "distinct ?xs" and aug: "augmented la (rb_root root)"
    and lm: "rb_leftmost root = (case ?xs of [] \<Rightarrow> None | x # _ \<Rightarrow> Some x)"
    using inv by (simp_all add: it_inv_def)
  have xs: "?xs = takeWhile ?p ?xs @ dropWhile ?p ?xs" by simp
  have big: "st n < st y" if "y \<in> set (dropWhile ?p ?xs)" for y
  proof -
    from that obtain z zs where z: "dropWhile ?p ?xs = z # zs" by (cases "dropWhile ?p ?xs") auto
    then have "\<not> ?p z" by (simp add: dropWhile_eq_Cons_conv)
    moreover have "sorted (map st (z # zs))"
      using srt z by (metis xs map_append sorted_append)
    ultimately show ?thesis using that z by auto
  qed
  have "sorted (map st (takeWhile ?p ?xs))" "sorted (map st (dropWhile ?p ?xs))"
    using srt xs by (metis map_append sorted_append)+
  then have "sorted (map st (takeWhile ?p ?xs @ n # dropWhile ?p ?xs))"
    using big by (auto simp: sorted_append dest!: set_takeWhileD intro: less_imp_le order_trans)
  moreover have "distinct (takeWhile ?p ?xs @ n # dropWhile ?p ?xs)"
    using distinct_insert_between [of "takeWhile ?p ?xs" "dropWhile ?p ?xs" n] dis fresh by simp
  moreover have "rb_leftmost (it_insert lib st la n root) =
      (case takeWhile ?p ?xs @ n # dropWhile ?p ?xs of [] \<Rightarrow> None | x # _ \<Rightarrow> Some x)"
    using srt lm by (cases ?xs) (auto simp: it_insert_def it_leftmost_iff not_le)
  ultimately show ?thesis
    using aug by (simp add: it_inv_def it_insert_def insert_inorder inorder_it_link srt
        insert_augmented augmented_it_link)
qed

lemma it_remove_inorder:
  assumes "it_inv st la root" and "n \<in> set (inorder (rb_root root))"
  shows "inorder (rb_root (it_remove lib n root)) = remove1 n (inorder (rb_root root))"
  using assms by (simp add: it_remove_def erase_inorder it_inv_def)

lemma it_remove_inv:
  assumes inv: "it_inv st la root" and mem: "n \<in> set (inorder (rb_root root))"
  shows "it_inv st la (it_remove lib n root)"
proof -
  let ?xs = "inorder (rb_root root)"
  have srt: "sorted (map st ?xs)" and dis: "distinct ?xs" and aug: "augmented la (rb_root root)"
    and lm: "rb_leftmost root = (case ?xs of [] \<Rightarrow> None | x # _ \<Rightarrow> Some x)"
    using inv by (simp_all add: it_inv_def)
  obtain y ys where xs: "?xs = y # ys" using mem by (cases ?xs) auto
  have "rb_leftmost (it_remove lib n root) = (case remove1 n ?xs of [] \<Rightarrow> None | x # _ \<Rightarrow> Some x)"
  proof (cases "y = n")
    case True
    with next_inorder [OF dis, of "[]" n ys] xs lm show ?thesis by (simp add: it_remove_def)
  next
    case False
    with xs lm show ?thesis by (simp add: it_remove_def)
  qed
  moreover have "sorted (map st (remove1 n ?xs))"
    using srt by (rule sorted_map_remove1)
  ultimately show ?thesis
    using dis aug mem by (simp add: it_inv_def it_remove_inorder [OF inv mem]
        it_remove_def erase_augmented erase_inorder)
qed

end

section \<open>A reference instance of the library\<close>

text \<open>
  A tree library that satisfies the laws: no rebalancing, erasure by rebuilding a right spine, and
  neighbours read from the in-order sequence. It shows that the laws can hold, and instantiates the
  parameter where the model is evaluated.
\<close>

fun spine :: "('a \<Rightarrow> u64) \<Rightarrow> 'a list \<Rightarrow> 'a rbt" where
  "spine la [] = Leaf"
| "spine la (x # xs) =
     (case spine la xs of
        Leaf \<Rightarrow> Node Leaf x (la x) Leaf
      | Node l y m r \<Rightarrow> Node Leaf x (max (la x) m) (Node l y m r))"

fun succ_in :: "'a \<Rightarrow> 'a list \<Rightarrow> 'a option" where
  "succ_in x (y # z # zs) = (if x = y then Some z else succ_in x (z # zs))"
| "succ_in x _ = None"

definition plain_lib :: "('a \<Rightarrow> u64) \<Rightarrow> 'a rb_lib" where
  "plain_lib la =
     \<lparr>rb_insert_augmented = (\<lambda>t. t),
      rb_erase_augmented = (\<lambda>x t. spine la (remove1 x (inorder t))),
      rb_next = (\<lambda>t x. succ_in x (inorder t)),
      rb_prev = (\<lambda>t x. succ_in x (rev (inorder t)))\<rparr>"

lemma inorder_spine [simp]: "inorder (spine la xs) = xs"
  by (induction xs) (auto split: rbt.split)

lemma augmented_spine: "augmented la (spine la xs)"
proof (induction xs)
  case Nil
  then show ?case by simp
next
  case (Cons x xs)
  then show ?case
    by (cases "spine la xs") (auto simp: max_def intro: order_trans)
qed

lemma succ_in_split: "distinct (xs @ x # ys) \<Longrightarrow> succ_in x (xs @ x # ys) = (case ys of [] \<Rightarrow> None | y # _ \<Rightarrow> Some y)"
proof (induction xs)
  case Nil
  then show ?case by (cases ys) auto
next
  case (Cons a xs)
  then show ?case by (cases xs) auto
qed

lemma plain_lib_laws: "rb_library la (plain_lib la)"
proof (unfold_locales, goal_cases)
  case (6 t xs x ys)
  then have "distinct (rev ys @ x # rev xs)" by auto
  from succ_in_split [OF this] 6 show ?case
    by (cases xs rule: rev_cases) (auto simp: plain_lib_def)
qed (auto simp: plain_lib_def augmented_spine succ_in_split)

text \<open>
  The template on the reference library: the interpretation makes the theorems of the locale available
  for every key function \<open>la\<close>, and shows that the laws assumed of \<open>lib/rbtree.c\<close> are consistent.
\<close>

interpretation plain_rb: rb_library la "plain_lib la" for la :: "'a \<Rightarrow> u64"
  by (rule plain_lib_laws)

end
