(* ===== verification/GPUVA.thy ===== *)
theory GPUVA
  imports Interval_Tree
begin

text \<open>
  The GPU virtual address space of \<open>drm_gpuvm.c\<close>: the range checks, initialisation and release of a
  \<open>struct drm_gpuvm\<close>, insertion and removal of a \<open>struct drm_gpuva\<close> (interval tree and ordered list),
  and the lookups.

  A \<open>drm_gpuva\<close> is its field values together with its identity \<open>va_ptr\<close>, which stands for its
  address; two mappings are the same object exactly if their records are equal. The value \<open>0\<close> is the
  identity of the embedded \<open>kernel_alloc_node\<close>. \<open>va_vm\<close> tells whether the back pointer \<open>va->vm\<close> is
  set. A function returns \<open>None\<close> where the C code would dereference a null pointer. The tree library
  is the parameter \<open>lib\<close> (see \<^theory_text>\<open>Interval_Tree\<close>).
\<close>

section \<open>State\<close>

record drm_gpuva =
  va_ptr :: nat
  va_vm :: bool
  va_addr :: u64
  va_range :: u64
  gem_obj :: "nat option"
  gem_offset :: u64

text \<open>The lists of extobj, evicted and deferred buffer objects are kept only because
  \<open>drm_gpuvm_fini\<close> tests them; \<open>warns\<close> counts the \<open>drm_WARN\<close>s that fired.\<close>

record drm_gpuvm =
  mm_start :: u64
  mm_range :: u64
  kernel_alloc_node :: drm_gpuva
  rb_tree :: "drm_gpuva rb_root_cached"
  rb_list :: "drm_gpuva list"
  extobj_list :: "nat list"
  evict_list :: "nat list"
  bo_defer :: "nat list"
  vm_kref :: nat
  vm_name :: "string option"
  vm_flags :: nat
  r_obj_refs :: int
  has_vm_free :: bool
  vm_freed :: bool
  warns :: nat

definition GPUVA_START :: "drm_gpuva \<Rightarrow> u64" where
  "GPUVA_START va = va_addr va"

definition GPUVA_LAST :: "drm_gpuva \<Rightarrow> u64" where
  "GPUVA_LAST va = va_addr va + va_range va - 1"

definition drm_WARN :: "bool \<Rightarrow> drm_gpuvm \<Rightarrow> drm_gpuvm" where
  "drm_WARN c vm = (if c then vm\<lparr>warns := warns vm + 1\<rparr> else vm)"

section \<open>Range checks\<close>

definition drm_gpuvm_check_overflow :: "u64 \<Rightarrow> u64 \<Rightarrow> bool" where
  "drm_gpuvm_check_overflow addr rng \<longleftrightarrow> uint addr + uint rng \<ge> 2 ^ 64"

definition drm_gpuvm_warn_check_overflow :: "drm_gpuvm \<Rightarrow> u64 \<Rightarrow> u64 \<Rightarrow> bool \<times> drm_gpuvm" where
  "drm_gpuvm_warn_check_overflow vm addr rng =
     (let c = drm_gpuvm_check_overflow addr rng in (c, drm_WARN c vm))"

definition drm_gpuvm_in_mm_range :: "drm_gpuvm \<Rightarrow> u64 \<Rightarrow> u64 \<Rightarrow> bool" where
  "drm_gpuvm_in_mm_range vm addr rng \<longleftrightarrow>
     addr \<ge> mm_start vm \<and> addr + rng \<le> mm_start vm + mm_range vm"

definition drm_gpuvm_in_kernel_node :: "drm_gpuvm \<Rightarrow> u64 \<Rightarrow> u64 \<Rightarrow> bool" where
  "drm_gpuvm_in_kernel_node vm addr rng \<longleftrightarrow>
     (let kstart = va_addr (kernel_alloc_node vm);
          krange = va_range (kernel_alloc_node vm);
          kend = kstart + krange
      in krange \<noteq> 0 \<and> addr < kend \<and> kstart < addr + rng)"

definition drm_gpuvm_range_valid :: "drm_gpuvm \<Rightarrow> u64 \<Rightarrow> u64 \<Rightarrow> bool" where
  "drm_gpuvm_range_valid vm addr rng \<longleftrightarrow>
     \<not> drm_gpuvm_check_overflow addr rng \<and>
     drm_gpuvm_in_mm_range vm addr rng \<and>
     \<not> drm_gpuvm_in_kernel_node vm addr rng"

section \<open>Insertion and removal\<close>

text \<open>\<open>list_add\<close> after an entry of the list (\<open>Some\<close>) or after the list head (\<open>None\<close>).\<close>

fun list_add :: "'a \<Rightarrow> 'a option \<Rightarrow> 'a list \<Rightarrow> 'a list" where
  "list_add x None ys = x # ys"
| "list_add x (Some p) [] = [x]"
| "list_add x (Some p) (y # ys) = (if y = p then y # x # ys else y # list_add x (Some p) ys)"

definition raw_drm_gpuva_insert ::
    "drm_gpuva rb_lib \<Rightarrow> drm_gpuvm \<Rightarrow> drm_gpuva \<Rightarrow> (int \<times> drm_gpuvm) option" where
  "raw_drm_gpuva_insert lib vm va =
     (case it_iter_first GPUVA_START GPUVA_LAST (rb_tree vm) (GPUVA_START va) (GPUVA_LAST va) of
        ItFault \<Rightarrow> None
      | ItFound _ \<Rightarrow> Some (neg_errno EEXIST, vm)
      | ItNull \<Rightarrow>
          let va = va\<lparr>va_vm := True\<rparr>;
              tree = it_insert lib GPUVA_START GPUVA_LAST va (rb_tree vm);
              node = rb_prev lib (rb_root tree) va
          in Some (0, vm\<lparr>rb_tree := tree, rb_list := list_add va node (rb_list vm)\<rparr>))"

definition drm_gpuvm_get :: "drm_gpuvm \<Rightarrow> drm_gpuvm" where
  "drm_gpuvm_get vm = vm\<lparr>vm_kref := vm_kref vm + 1\<rparr>"

definition drm_gpuva_insert ::
    "drm_gpuva rb_lib \<Rightarrow> drm_gpuvm \<Rightarrow> drm_gpuva \<Rightarrow> (int \<times> drm_gpuvm) option" where
  "drm_gpuva_insert lib vm va =
     (if \<not> drm_gpuvm_range_valid vm (va_addr va) (va_range va) then Some (neg_errno EINVAL, vm)
      else case raw_drm_gpuva_insert lib vm va of
        None \<Rightarrow> None
      | Some (ret, vm') \<Rightarrow> Some (ret, if ret = 0 then drm_gpuvm_get vm' else vm'))"

definition raw_drm_gpuva_remove :: "drm_gpuva rb_lib \<Rightarrow> drm_gpuvm \<Rightarrow> drm_gpuva \<Rightarrow> drm_gpuvm option" where
  "raw_drm_gpuva_remove lib vm va =
     (if \<not> va_vm va then None
      else Some (vm\<lparr>rb_tree := it_remove lib va (rb_tree vm), rb_list := remove1 va (rb_list vm)\<rparr>))"

section \<open>Initialisation and release\<close>

definition drm_gpuvm_init ::
    "drm_gpuva rb_lib \<Rightarrow> string option \<Rightarrow> nat \<Rightarrow> int \<Rightarrow> bool \<Rightarrow> u64 \<Rightarrow> u64 \<Rightarrow> u64 \<Rightarrow> u64 \<Rightarrow> drm_gpuvm option"
where
  "drm_gpuvm_init lib name flags obj_refs vm_free start_offset rng reserve_offset reserve_range =
     (let zero = \<lparr>va_ptr = 0, va_vm = False, va_addr = 0, va_range = 0, gem_obj = None, gem_offset = 0\<rparr>;
          vm = \<lparr>mm_start = 0, mm_range = 0, kernel_alloc_node = zero, rb_tree = RB_ROOT_CACHED,
                rb_list = [], extobj_list = [], evict_list = [], bo_defer = [], vm_kref = 1,
                vm_name = Some (case name of Some n \<Rightarrow> n | None \<Rightarrow> ''unknown''), vm_flags = flags,
                r_obj_refs = obj_refs + 1, has_vm_free = vm_free, vm_freed = False, warns = 0\<rparr>;
          vm = snd (drm_gpuvm_warn_check_overflow vm start_offset rng);
          vm = vm\<lparr>mm_start := start_offset, mm_range := rng\<rparr>
      in if reserve_range = 0 then Some vm
         else let k = zero\<lparr>va_addr := reserve_offset, va_range := reserve_range\<rparr>;
                  (c, vm) = drm_gpuvm_warn_check_overflow (vm\<lparr>kernel_alloc_node := k\<rparr>)
                              reserve_offset reserve_range
              in if c then Some vm
                 else case raw_drm_gpuva_insert lib vm k of
                   None \<Rightarrow> None
                 | Some (ret, vm) \<Rightarrow>
                     Some (if ret = 0 then vm\<lparr>kernel_alloc_node := k\<lparr>va_vm := True\<rparr>\<rparr> else vm))"

definition drm_gpuvm_fini :: "drm_gpuva rb_lib \<Rightarrow> drm_gpuvm \<Rightarrow> drm_gpuvm option" where
  "drm_gpuvm_fini lib vm =
     (let vm = vm\<lparr>vm_name := None\<rparr>
      in case (if va_range (kernel_alloc_node vm) \<noteq> 0
               then raw_drm_gpuva_remove lib vm (kernel_alloc_node vm) else Some vm) of
        None \<Rightarrow> None
      | Some vm \<Rightarrow>
          let vm = drm_WARN (rb_root (rb_tree vm) \<noteq> Leaf) vm;
              vm = drm_WARN (extobj_list vm \<noteq> []) vm;
              vm = drm_WARN (evict_list vm \<noteq> []) vm;
              vm = drm_WARN (bo_defer vm \<noteq> []) vm
          in Some (vm\<lparr>r_obj_refs := r_obj_refs vm - 1\<rparr>))"

definition drm_gpuvm_free :: "drm_gpuva rb_lib \<Rightarrow> drm_gpuvm \<Rightarrow> drm_gpuvm option" where
  "drm_gpuvm_free lib vm =
     (case drm_gpuvm_fini lib vm of
        None \<Rightarrow> None
      | Some vm \<Rightarrow> Some (if has_vm_free vm then vm\<lparr>vm_freed := True\<rparr> else drm_WARN True vm))"

definition drm_gpuvm_put :: "drm_gpuva rb_lib \<Rightarrow> drm_gpuvm \<Rightarrow> drm_gpuvm option" where
  "drm_gpuvm_put lib vm =
     (let vm' = vm\<lparr>vm_kref := vm_kref vm - 1\<rparr>
      in if vm_kref vm = 1 then drm_gpuvm_free lib vm' else Some vm')"

definition drm_gpuva_remove :: "drm_gpuva rb_lib \<Rightarrow> drm_gpuvm \<Rightarrow> drm_gpuva \<Rightarrow> drm_gpuvm option" where
  "drm_gpuva_remove lib vm va =
     (if va_ptr va = va_ptr (kernel_alloc_node vm) then Some (drm_WARN True vm)
      else case raw_drm_gpuva_remove lib vm va of
        None \<Rightarrow> None
      | Some vm' \<Rightarrow> drm_gpuvm_put lib vm')"

section \<open>Lookup\<close>

definition drm_gpuva_find_first :: "drm_gpuvm \<Rightarrow> u64 \<Rightarrow> u64 \<Rightarrow> drm_gpuva it_res" where
  "drm_gpuva_find_first vm addr rng =
     it_iter_first GPUVA_START GPUVA_LAST (rb_tree vm) addr (addr + rng - 1)"

definition drm_gpuva_find :: "drm_gpuvm \<Rightarrow> u64 \<Rightarrow> u64 \<Rightarrow> drm_gpuva it_res" where
  "drm_gpuva_find vm addr rng =
     (case drm_gpuva_find_first vm addr rng of
        ItFound va \<Rightarrow> if va_addr va \<noteq> addr \<or> va_range va \<noteq> rng then ItNull else ItFound va
      | r \<Rightarrow> r)"

definition drm_gpuva_find_prev :: "drm_gpuvm \<Rightarrow> u64 \<Rightarrow> drm_gpuva it_res" where
  "drm_gpuva_find_prev vm start =
     (if \<not> drm_gpuvm_range_valid vm (start - 1) 1 then ItNull
      else it_iter_first GPUVA_START GPUVA_LAST (rb_tree vm) (start - 1) start)"

definition drm_gpuva_find_next :: "drm_gpuvm \<Rightarrow> u64 \<Rightarrow> drm_gpuva it_res" where
  "drm_gpuva_find_next vm end_addr =
     (if \<not> drm_gpuvm_range_valid vm end_addr 1 then ItNull
      else it_iter_first GPUVA_START GPUVA_LAST (rb_tree vm) end_addr (end_addr + 1))"

definition drm_gpuvm_interval_empty :: "drm_gpuvm \<Rightarrow> u64 \<Rightarrow> u64 \<Rightarrow> bool" where
  "drm_gpuvm_interval_empty vm addr rng \<longleftrightarrow> drm_gpuva_find_first vm addr rng = ItNull"

text \<open>The successor in the ordered list, \<open>__drm_gpuva_next\<close> of \<open>drm_gpuvm.h\<close>.\<close>

definition drm_gpuva_next :: "drm_gpuvm \<Rightarrow> drm_gpuva option \<Rightarrow> drm_gpuva option" where
  "drm_gpuva_next vm va = (case va of None \<Rightarrow> None | Some v \<Rightarrow> succ_in v (rb_list vm))"

section \<open>The invariant and the address map\<close>

text \<open>
  A mapping is well formed if it is not empty and does not wrap around. The invariant of an address
  space: the tree is a valid interval tree, the list is its in-order sequence, the mappings are well
  formed, pairwise disjoint and sorted, all but the kernel node pass the range check, and the
  reference count covers them.
\<close>

definition va_end :: "drm_gpuva \<Rightarrow> u64" where
  "va_end v = va_addr v + va_range v"

definition va_ok :: "drm_gpuva \<Rightarrow> bool" where
  "va_ok v \<longleftrightarrow> va_addr v < va_end v"

definition covers :: "drm_gpuva \<Rightarrow> u64 \<Rightarrow> bool" where
  "covers v a \<longleftrightarrow> va_addr v \<le> a \<and> a < va_end v"

definition overlaps :: "u64 \<Rightarrow> u64 \<Rightarrow> drm_gpuva \<Rightarrow> bool" where
  "overlaps s e v \<longleftrightarrow> va_addr v < e \<and> s < va_end v"

definition before :: "drm_gpuva \<Rightarrow> drm_gpuva \<Rightarrow> bool" where
  "before v w \<longleftrightarrow> va_end v \<le> va_addr w"

definition user_vas :: "drm_gpuvm \<Rightarrow> drm_gpuva list" where
  "user_vas vm = filter (\<lambda>v. va_ptr v \<noteq> va_ptr (kernel_alloc_node vm)) (rb_list vm)"

definition kernel_ok :: "drm_gpuvm \<Rightarrow> bool" where
  "kernel_ok vm \<longleftrightarrow> (let k = kernel_alloc_node vm in
     if va_range k = 0 then \<forall>v \<in> set (rb_list vm). va_ptr v \<noteq> va_ptr k else k \<in> set (rb_list vm))"

definition vm_core :: "drm_gpuvm \<Rightarrow> bool" where
  "vm_core vm \<longleftrightarrow>
     it_inv GPUVA_START GPUVA_LAST (rb_tree vm) \<and>
     rb_list vm = inorder (rb_root (rb_tree vm)) \<and>
     sorted_wrt before (rb_list vm) \<and>
     (\<forall>v \<in> set (rb_list vm). va_ok v \<and> va_vm v) \<and>
     distinct (map va_ptr (rb_list vm))"

definition vm_inv :: "drm_gpuvm \<Rightarrow> bool" where
  "vm_inv vm \<longleftrightarrow> vm_core vm \<and> kernel_ok vm \<and>
     (\<forall>v \<in> set (user_vas vm). drm_gpuvm_range_valid vm (va_addr v) (va_range v)) \<and>
     length (user_vas vm) < vm_kref vm"

text \<open>What the address space maps an address to: the buffer object and the offset in it.\<close>

definition vm_map :: "drm_gpuvm \<Rightarrow> u64 \<Rightarrow> (nat option \<times> u64) option" where
  "vm_map vm a = map_option (\<lambda>v. (gem_obj v, gem_offset v + (a - va_addr v)))
                   (find (\<lambda>v. covers v a) (rb_list vm))"

lemmas va_defs = va_ok_def va_end_def GPUVA_START_def GPUVA_LAST_def

lemma intersects_overlaps:
  "va_ok v \<Longrightarrow> s < e \<Longrightarrow> intersects GPUVA_START GPUVA_LAST s (e - 1) v \<longleftrightarrow> overlaps s e v"
  using word_le_minus_one_iff [of e "va_addr v"] word_le_minus_one_iff [of "va_end v" s]
  by (auto simp: intersects_def overlaps_def va_defs dest: order_le_less_trans [OF word_zero_le])

lemma find_first_spec:
  assumes "vm_core vm" and "s < s + n"
  shows "drm_gpuva_find_first vm s n = it_res_of (find (overlaps s (s + n)) (rb_list vm))"
proof -
  have "find (intersects GPUVA_START GPUVA_LAST s (s + n - 1)) (rb_list vm) =
      find (overlaps s (s + n)) (rb_list vm)"
    using assms by (intro find_cong) (auto simp: vm_core_def intersects_overlaps)
  then show ?thesis
    using assms by (simp add: drm_gpuva_find_first_def vm_core_def it_iter_first_correct)
qed

text \<open>The abstract effect of a request on the address map.\<close>

definition map_update :: "u64 \<Rightarrow> u64 \<Rightarrow> (u64 \<Rightarrow> (nat option \<times> u64) option) \<Rightarrow>
    (u64 \<Rightarrow> (nat option \<times> u64) option) \<Rightarrow> u64 \<Rightarrow> (nat option \<times> u64) option" where
  "map_update s n f old a = (if s \<le> a \<and> a < s + n then f a else old a)"

text \<open>List insertion at the place the tree gives.\<close>

lemma list_add_last:
  "distinct (xs @ ys) \<Longrightarrow> list_add x (if xs = [] then None else Some (last xs)) (xs @ ys) = xs @ x # ys"
proof (induction xs)
  case Nil
  then show ?case by simp
next
  case (Cons a xs)
  then show ?case by (cases xs) auto
qed

lemma vm_inv_D:
  assumes "vm_inv vm"
  shows "it_inv GPUVA_START GPUVA_LAST (rb_tree vm)" "rb_list vm = inorder (rb_root (rb_tree vm))"
    "sorted_wrt before (rb_list vm)" "distinct (rb_list vm)" "distinct (map va_ptr (rb_list vm))"
    "\<And>v. v \<in> set (rb_list vm) \<Longrightarrow> va_ok v" "\<And>v. v \<in> set (rb_list vm) \<Longrightarrow> va_vm v"
    "kernel_ok vm" "length (user_vas vm) < vm_kref vm"
  using assms by (auto simp: vm_inv_def vm_core_def distinct_map)

lemma disjoint_pair:
  assumes "sorted_wrt before xs" and "v \<in> set xs" and "w \<in> set xs" and "v \<noteq> w"
  shows "before v w \<or> before w v"
  using assms
proof (induction xs)
  case Nil
  then show ?case by simp
next
  case (Cons a xs)
  then show ?case by auto
qed

lemma before_not_both_cover: "before v w \<Longrightarrow> covers v a \<Longrightarrow> covers w a \<Longrightarrow> False"
  by (auto simp: before_def covers_def)

lemma covers_unique:
  assumes "vm_inv vm" and "v \<in> set (rb_list vm)" and "w \<in> set (rb_list vm)"
    and "covers v a" and "covers w a"
  shows "v = w"
  using disjoint_pair [OF vm_inv_D(3) [OF assms(1)] assms(2,3)] assms(4,5)
  by (auto dest: before_not_both_cover)

text \<open>The address map in terms of the set of mappings.\<close>

definition va_value :: "drm_gpuva \<Rightarrow> u64 \<Rightarrow> nat option \<times> u64" where
  "va_value v a = (gem_obj v, gem_offset v + (a - va_addr v))"

lemma vm_map_Some:
  assumes "vm_inv vm" and "v \<in> set (rb_list vm)" and "covers v a"
  shows "vm_map vm a = Some (va_value v a)"
proof -
  have "find (\<lambda>v. covers v a) (rb_list vm) \<noteq> None" using assms by (auto simp: find_None_iff)
  then obtain w where w: "find (\<lambda>v. covers v a) (rb_list vm) = Some w" by auto
  then have "w \<in> set (rb_list vm)" "covers w a" by (auto simp: find_Some_iff)
  with assms have "w = v" by (blast intro: covers_unique)
  with w show ?thesis by (simp add: vm_map_def va_value_def)
qed

lemma vm_map_None:
  assumes "\<And>v. v \<in> set (rb_list vm) \<Longrightarrow> \<not> covers v a"
  shows "vm_map vm a = None"
proof -
  have "find (\<lambda>v. covers v a) (rb_list vm) = None" using assms by (intro find_None_all) auto
  then show ?thesis by (simp add: vm_map_def)
qed

lemma vm_map_cong:
  assumes "vm_inv vm" and "vm_inv vm'"
    and "\<And>v. covers v a \<Longrightarrow> v \<in> set (rb_list vm) \<longleftrightarrow> v \<in> set (rb_list vm')"
  shows "vm_map vm a = vm_map vm' a"
proof (cases "\<exists>v \<in> set (rb_list vm). covers v a")
  case True
  with assms show ?thesis by (auto simp: vm_map_Some)
next
  case False
  with assms have "\<not> (\<exists>v \<in> set (rb_list vm'). covers v a)" by blast
  with False show ?thesis by (auto simp: vm_map_None)
qed

section \<open>Insertion keeps the invariant\<close>

lemma sorted_wrt_insert_between:
  assumes "sorted_wrt P (xs @ ys)" and "\<And>x. x \<in> set xs \<Longrightarrow> P x v" and "\<And>y. y \<in> set ys \<Longrightarrow> P v y"
  shows "sorted_wrt P (xs @ v # ys)"
  using assms by (auto simp: sorted_wrt_append)

text \<open>Splitting the list at a mapping that overlaps none of its elements.\<close>

lemma sorted_wrt_remove1: "sorted_wrt P xs \<Longrightarrow> sorted_wrt P (remove1 x xs)"
  by (induction xs) (auto dest: notin_set_remove1 split: if_splits)

lemma split_at_free:
  assumes srt: "sorted_wrt before xs" and ok: "\<And>w. w \<in> set xs \<Longrightarrow> va_ok w" and v: "va_ok v"
    and free: "\<And>w. w \<in> set xs \<Longrightarrow> \<not> overlaps (va_addr v) (va_end v) w"
  defines "p \<equiv> \<lambda>w. GPUVA_START w \<le> GPUVA_START v"
  shows "\<And>w. w \<in> set (takeWhile p xs) \<Longrightarrow> before w v" "\<And>w. w \<in> set (dropWhile p xs) \<Longrightarrow> before v w"
proof -
  fix w assume w: "w \<in> set (takeWhile p xs)"
  then have "va_addr w \<le> va_addr v" "w \<in> set xs" by (auto simp: p_def GPUVA_START_def dest: set_takeWhileD)
  with free [of w] v show "before w v" by (auto simp: overlaps_def before_def va_ok_def)
next
  fix w assume w: "w \<in> set (dropWhile p xs)"
  then obtain z zs where z: "dropWhile p xs = z # zs" by (cases "dropWhile p xs") auto
  then have nz: "\<not> p z" by (simp add: dropWhile_eq_Cons_conv)
  have "sorted_wrt before (takeWhile p xs @ z # zs)" using srt z by (metis takeWhile_dropWhile_id)
  then have "w = z \<or> before z w" using w z by (auto simp: sorted_wrt_append)
  moreover have "z \<in> set xs" using z by (metis list.set_intros(1) set_dropWhileD)
  ultimately have "va_addr v < va_addr w"
    using nz ok [of z] by (auto simp: p_def GPUVA_START_def before_def va_ok_def)
  moreover have "w \<in> set xs" using w by (rule set_dropWhileD)
  ultimately show "before v w" using free [of w] ok [of w] by (auto simp: overlaps_def before_def va_ok_def)
qed

lemma vm_core_cong: "vm_core vm \<Longrightarrow> rb_tree vm' = rb_tree vm \<Longrightarrow> rb_list vm' = rb_list vm \<Longrightarrow> vm_core vm'"
  unfolding vm_core_def by metis

lemma vm_inv_warns: "vm_inv vm \<Longrightarrow> vm_inv (vm\<lparr>warns := k\<rparr>)"
  using vm_core_cong [of vm "vm\<lparr>warns := k\<rparr>"]
  by (simp add: vm_inv_def kernel_ok_def user_vas_def drm_gpuvm_range_valid_def
      drm_gpuvm_in_mm_range_def drm_gpuvm_in_kernel_node_def Let_def)

lemma iter_first_self:
  assumes "vm_core vm" and "va_ok va"
  shows "it_iter_first GPUVA_START GPUVA_LAST (rb_tree vm) (GPUVA_START va) (GPUVA_LAST va) =
    it_res_of (find (overlaps (va_addr va) (va_end va)) (rb_list vm))"
  using find_first_spec [of vm "va_addr va" "va_range va"] assms
  by (simp add: drm_gpuva_find_first_def va_defs)

definition same_frame :: "drm_gpuvm \<Rightarrow> drm_gpuvm \<Rightarrow> bool" where
  "same_frame vm vm' \<longleftrightarrow> mm_start vm' = mm_start vm \<and> mm_range vm' = mm_range vm \<and>
     kernel_alloc_node vm' = kernel_alloc_node vm"

lemma range_valid_frame: "same_frame vm vm' \<Longrightarrow> drm_gpuvm_range_valid vm' = drm_gpuvm_range_valid vm"
  by (intro ext) (simp add: same_frame_def drm_gpuvm_range_valid_def drm_gpuvm_in_mm_range_def
      drm_gpuvm_in_kernel_node_def)

lemma check_overflow_iff:
  "n \<noteq> 0 \<Longrightarrow> drm_gpuvm_check_overflow a n \<longleftrightarrow> \<not> a < a + n"
proof -
  assume "n \<noteq> 0"
  then have n: "0 < uint n" "uint n < 2 ^ 64" "0 \<le> uint a" "uint a < 2 ^ 64"
    using uint_lt2p [of a] uint_lt2p [of n] by (simp_all add: order_less_le uint_0_iff)
  show ?thesis
  proof (cases "uint a + uint n < 2 ^ 64")
    case True
    with n show ?thesis by (simp add: drm_gpuvm_check_overflow_def word_less_def uint_word_ariths)
  next
    case False
    then have "(uint a + uint n - 2 ^ 64) mod 2 ^ 64 = uint a + uint n - 2 ^ 64"
      using n by (intro mod_pos_pos_trivial) linarith+
    then have "(uint a + uint n) mod 2 ^ 64 = uint a + uint n - 2 ^ 64"
      by (simp only: minus_mod_self2)
    with n False show ?thesis by (simp add: drm_gpuvm_check_overflow_def word_less_def uint_word_ariths)
  qed
qed

lemma range_valid_less: "drm_gpuvm_range_valid vm a n \<Longrightarrow> n \<noteq> 0 \<Longrightarrow> a < a + n"
  by (simp add: drm_gpuvm_range_valid_def check_overflow_iff)

lemma vm_core_empty: "rb_tree vm = RB_ROOT_CACHED \<Longrightarrow> rb_list vm = [] \<Longrightarrow> vm_core vm"
  by (simp add: vm_core_def it_inv_def RB_ROOT_CACHED_def)

locale gpuva_lib = rb_library GPUVA_LAST lib for lib :: "drm_gpuva rb_lib"
begin

lemma raw_insert_conflict:
  assumes "vm_core vm" and "va_ok va" and "\<exists>w \<in> set (rb_list vm). overlaps (va_addr va) (va_end va) w"
  shows "raw_drm_gpuva_insert lib vm va = Some (neg_errno EEXIST, vm)"
proof -
  obtain w where "find (overlaps (va_addr va) (va_end va)) (rb_list vm) = Some w"
    using assms(3) by (metis find_None_iff not_None_eq)
  then show ?thesis using assms by (simp add: raw_drm_gpuva_insert_def iter_first_self)
qed

lemma raw_insert_free:
  assumes core: "vm_core vm" and ok: "va_ok va" and ptr: "va_ptr va \<notin> va_ptr ` set (rb_list vm)"
    and free: "\<And>w. w \<in> set (rb_list vm) \<Longrightarrow> \<not> overlaps (va_addr va) (va_end va) w"
  obtains tree xs ys where
    "raw_drm_gpuva_insert lib vm va =
       Some (0, vm\<lparr>rb_tree := tree, rb_list := xs @ va\<lparr>va_vm := True\<rparr> # ys\<rparr>)"
    "vm_core (vm\<lparr>rb_tree := tree, rb_list := xs @ va\<lparr>va_vm := True\<rparr> # ys\<rparr>)"
    "rb_list vm = xs @ ys"
proof -
  let ?va = "va\<lparr>va_vm := True\<rparr>"
  let ?p = "\<lambda>w. GPUVA_START w \<le> GPUVA_START ?va"
  let ?tree = "it_insert lib GPUVA_START GPUVA_LAST ?va (rb_tree vm)"
  define xs ys where "xs = takeWhile ?p (rb_list vm)" and "ys = dropWhile ?p (rb_list vm)"
  have inv: "it_inv GPUVA_START GPUVA_LAST (rb_tree vm)" "rb_list vm = inorder (rb_root (rb_tree vm))"
    "sorted_wrt before (rb_list vm)" "\<And>w. w \<in> set (rb_list vm) \<Longrightarrow> va_ok w \<and> va_vm w"
    "distinct (map va_ptr (rb_list vm))" using core by (auto simp: vm_core_def)
  have xy: "rb_list vm = xs @ ys" by (simp add: xs_def ys_def)
  have fresh: "?va \<notin> set (rb_list vm)" using ptr by (metis imageI drm_gpuva.select_convs(1) drm_gpuva.surjective drm_gpuva.update_convs(2))
  have tree_inv: "it_inv GPUVA_START GPUVA_LAST ?tree" using inv fresh by (auto intro: it_insert_inv)
  have ino: "inorder (rb_root ?tree) = xs @ ?va # ys"
    using inv by (simp add: it_insert_inorder xs_def ys_def)
  have dis: "distinct (inorder (rb_root ?tree))" using tree_inv by (simp add: it_inv_def)
  have "rb_prev lib (rb_root ?tree) ?va = (if xs = [] then None else Some (last xs))"
    using prev_inorder [OF dis ino] .
  moreover have "find (overlaps (va_addr va) (va_end va)) (rb_list vm) = None"
    using free by (intro find_None_all) auto
  moreover have "distinct (xs @ ys)" using inv(5) xy by (metis distinct_map)
  ultimately have res: "raw_drm_gpuva_insert lib vm va =
      Some (0, vm\<lparr>rb_tree := ?tree, rb_list := xs @ ?va # ys\<rparr>)"
    using core ok xy by (simp add: raw_drm_gpuva_insert_def iter_first_self Let_def list_add_last)
  have "va_ok ?va" using ok by (simp add: va_defs)
  moreover have "\<not> overlaps (va_addr ?va) (va_end ?va) w" if "w \<in> set (rb_list vm)" for w
    using free [OF that] by (simp add: va_end_def)
  ultimately have "sorted_wrt before (xs @ ?va # ys)"
    using split_at_free [OF inv(3)] inv(3,4) xy unfolding xs_def ys_def
    by (intro sorted_wrt_insert_between) auto
  moreover have "distinct (map va_ptr (xs @ ?va # ys))"
    using inv(5) ptr xy by auto
  ultimately have "vm_core (vm\<lparr>rb_tree := ?tree, rb_list := xs @ ?va # ys\<rparr>)"
    using tree_inv ino inv(4) xy \<open>va_ok ?va\<close> by (auto simp: vm_core_def)
  with res xy that show ?thesis by blast
qed

lemma raw_insert_empty:
  assumes "rb_tree vm = RB_ROOT_CACHED" and nil: "rb_list vm = []" and ok: "va_ok va"
  shows "\<exists>tree. raw_drm_gpuva_insert lib vm va =
      Some (0, vm\<lparr>rb_tree := tree, rb_list := [va\<lparr>va_vm := True\<rparr>]\<rparr>) \<and>
    vm_core (vm\<lparr>rb_tree := tree, rb_list := [va\<lparr>va_vm := True\<rparr>]\<rparr>)"
proof -
  have core: "vm_core vm" using assms by (simp add: vm_core_empty)
  obtain tree xs ys where *: "raw_drm_gpuva_insert lib vm va =
      Some (0, vm\<lparr>rb_tree := tree, rb_list := xs @ va\<lparr>va_vm := True\<rparr> # ys\<rparr>)"
    "vm_core (vm\<lparr>rb_tree := tree, rb_list := xs @ va\<lparr>va_vm := True\<rparr> # ys\<rparr>)" "rb_list vm = xs @ ys"
    by (rule raw_insert_free [OF core ok]) (simp_all add: nil)
  moreover from *(3) nil have "xs = []" "ys = []" by simp_all
  ultimately show ?thesis by auto
qed

text \<open>The contract of \<open>drm_gpuva_insert\<close> and \<open>drm_gpuva_remove\<close>.\<close>

lemma gpuva_insert_conflict:
  assumes "vm_inv vm" and "drm_gpuvm_range_valid vm (va_addr va) (va_range va)" and "va_range va \<noteq> 0"
    and "\<exists>w \<in> set (rb_list vm). overlaps (va_addr va) (va_end va) w"
  shows "drm_gpuva_insert lib vm va = Some (neg_errno EEXIST, vm)"
  using assms range_valid_less [of vm "va_addr va" "va_range va"]
  by (simp add: drm_gpuva_insert_def raw_insert_conflict vm_inv_def va_ok_def va_end_def neg_errno_def)

lemma gpuva_insert_ok:
  assumes inv: "vm_inv vm" and valid: "drm_gpuvm_range_valid vm (va_addr va) (va_range va)"
    and nz: "va_range va \<noteq> 0"
    and ptr: "va_ptr va \<notin> insert (va_ptr (kernel_alloc_node vm)) (va_ptr ` set (rb_list vm))"
    and free: "\<And>w. w \<in> set (rb_list vm) \<Longrightarrow> \<not> overlaps (va_addr va) (va_end va) w"
  obtains vm' where "drm_gpuva_insert lib vm va = Some (0, vm')" "vm_inv vm'" "same_frame vm vm'"
    "set (rb_list vm') = insert (va\<lparr>va_vm := True\<rparr>) (set (rb_list vm))" "vm_kref vm' = vm_kref vm + 1"
proof -
  let ?va = "va\<lparr>va_vm := True\<rparr>"
  have ok: "va_ok va" using range_valid_less [OF valid nz] by (simp add: va_defs)
  have "vm_core vm" "va_ptr va \<notin> va_ptr ` set (rb_list vm)" using inv ptr by (auto simp: vm_inv_def)
  then obtain tree xs ys where
    res: "raw_drm_gpuva_insert lib vm va = Some (0, vm\<lparr>rb_tree := tree, rb_list := xs @ ?va # ys\<rparr>)"
    and core: "vm_core (vm\<lparr>rb_tree := tree, rb_list := xs @ ?va # ys\<rparr>)"
    and xy: "rb_list vm = xs @ ys"
    using raw_insert_free [OF _ ok _ free] by blast
  let ?vm = "drm_gpuvm_get (vm\<lparr>rb_tree := tree, rb_list := xs @ ?va # ys\<rparr>)"
  have frame: "same_frame vm ?vm" by (simp add: same_frame_def drm_gpuvm_get_def)
  have users: "user_vas ?vm = filter (\<lambda>v. va_ptr v \<noteq> va_ptr (kernel_alloc_node vm)) xs @ ?va #
      filter (\<lambda>v. va_ptr v \<noteq> va_ptr (kernel_alloc_node vm)) ys"
    using ptr by (simp add: user_vas_def drm_gpuvm_get_def)
  have old: "user_vas vm = filter (\<lambda>v. va_ptr v \<noteq> va_ptr (kernel_alloc_node vm)) xs @
      filter (\<lambda>v. va_ptr v \<noteq> va_ptr (kernel_alloc_node vm)) ys"
    using xy by (simp add: user_vas_def)
  have "kernel_ok ?vm" using inv xy ptr
    by (auto simp: vm_inv_def kernel_ok_def Let_def drm_gpuvm_get_def split: if_splits)
  moreover have "vm_core ?vm" by (rule vm_core_cong [OF core]) (simp_all add: drm_gpuvm_get_def)
  moreover have "drm_gpuvm_range_valid ?vm (va_addr v) (va_range v)" if "v \<in> set (user_vas ?vm)" for v
    using that inv valid by (auto simp: range_valid_frame [OF frame] users old vm_inv_def)
  moreover have "length (user_vas ?vm) < vm_kref ?vm"
    using inv by (simp add: users old vm_inv_def) (simp add: drm_gpuvm_get_def)
  ultimately have "vm_inv ?vm" by (auto simp: vm_inv_def)
  moreover have "drm_gpuva_insert lib vm va = Some (0, ?vm)"
    using valid res by (simp add: drm_gpuva_insert_def)
  moreover have "set (rb_list ?vm) = insert ?va (set (rb_list vm))"
    using xy by (auto simp: drm_gpuvm_get_def)
  moreover have "vm_kref ?vm = vm_kref vm + 1" by (simp add: drm_gpuvm_get_def)
  ultimately show ?thesis using frame that by blast
qed

lemma gpuva_remove_ok:
  assumes inv: "vm_inv vm" and mem: "va \<in> set (user_vas vm)"
  obtains vm' where "drm_gpuva_remove lib vm va = Some vm'" "vm_inv vm'" "same_frame vm vm'"
    "set (rb_list vm') = set (rb_list vm) - {va}" "vm_kref vm' = vm_kref vm - 1"
proof -
  let ?vm = "vm\<lparr>rb_tree := it_remove lib va (rb_tree vm), rb_list := remove1 va (rb_list vm),
    vm_kref := vm_kref vm - 1\<rparr>"
  let ?k = "\<lambda>v. va_ptr v \<noteq> va_ptr (kernel_alloc_node vm)"
  note D = vm_inv_D [OF inv]
  have va: "va \<in> set (rb_list vm)" "?k va" using mem by (auto simp: user_vas_def)
  have users: "user_vas ?vm = remove1 va (user_vas vm)"
    using va by (simp add: user_vas_def filter_remove1)
  then have len: "length (user_vas ?vm) = length (user_vas vm) - 1" and pos: "0 < length (user_vas vm)"
    using mem by (auto simp: length_remove1 length_pos_if_in_set)
  have "vm_kref vm \<noteq> 1" using D(9) pos by linarith
  then have res: "drm_gpuva_remove lib vm va = Some ?vm"
    using va D(7) by (simp add: drm_gpuva_remove_def raw_drm_gpuva_remove_def drm_gpuvm_put_def)
  have frame: "same_frame vm ?vm" by (simp add: same_frame_def)
  have "it_inv GPUVA_START GPUVA_LAST (rb_tree ?vm)" "rb_list ?vm = inorder (rb_root (rb_tree ?vm))"
    using D(1,2) va by (simp_all add: it_remove_inv it_remove_inorder)
  moreover have "sorted_wrt before (rb_list ?vm)" "distinct (map va_ptr (rb_list ?vm))"
    using D(3,5) by (simp_all add: sorted_wrt_remove1 distinct_map_remove1)
  moreover have "\<forall>v \<in> set (rb_list ?vm). va_ok v \<and> va_vm v"
    using D(6,7) by (auto dest: notin_set_remove1)
  ultimately have "vm_core ?vm" unfolding vm_core_def by blast
  moreover have "kernel_ok ?vm" using D(4,8) va
    by (auto simp: kernel_ok_def Let_def dest: notin_set_remove1 split: if_splits)
  moreover have "drm_gpuvm_range_valid ?vm (va_addr v) (va_range v)" if "v \<in> set (user_vas ?vm)" for v
    using that inv unfolding range_valid_frame [OF frame] users vm_inv_def
    by (auto dest: notin_set_remove1)
  moreover have "length (user_vas ?vm) < vm_kref ?vm"
  proof -
    have "vm_kref ?vm = vm_kref vm - 1" by simp
    with len pos D(9) show ?thesis by linarith
  qed
  ultimately have "vm_inv ?vm" by (auto simp: vm_inv_def)
  moreover have "set (rb_list ?vm) = set (rb_list vm) - {va}" using D(4) by simp
  ultimately show ?thesis using res frame that by simp
qed

end

section \<open>Properties\<close>

text \<open>
  A freshly initialised address space satisfies the invariant and maps exactly the kernel's
  reserved range, provided that range does not wrap around.
\<close>

theorem gpuvm_init_inv:
  assumes lib: "rb_library GPUVA_LAST lib" and ok: "\<not> drm_gpuvm_check_overflow ro rr"
  shows "\<exists>vm. drm_gpuvm_init lib name flags refs fr start n ro rr = Some vm \<and> vm_inv vm \<and>
    mm_start vm = start \<and> mm_range vm = n \<and> vm_kref vm = 1 \<and>
    (\<forall>a. vm_map vm a = (if ro \<le> a \<and> a < ro + rr then Some (None, a - ro) else None))"
proof (cases "rr = 0")
  case True
  then show ?thesis
    by (auto simp: drm_gpuvm_init_def Let_def drm_gpuvm_warn_check_overflow_def drm_WARN_def vm_inv_def
        vm_core_empty kernel_ok_def user_vas_def vm_map_def)
next
  case False
  let ?zero = "\<lparr>va_ptr = 0, va_vm = False, va_addr = 0, va_range = 0, gem_obj = None, gem_offset = 0\<rparr>"
  let ?k = "?zero\<lparr>va_addr := ro, va_range := rr\<rparr>"
  let ?w = "if drm_gpuvm_check_overflow start n then 1 else (0::nat)"
  let ?vm = "\<lparr>mm_start = start, mm_range = n, kernel_alloc_node = ?k, rb_tree = RB_ROOT_CACHED,
      rb_list = [], extobj_list = [], evict_list = [], bo_defer = [], vm_kref = 1,
      vm_name = Some (case name of Some n \<Rightarrow> n | None \<Rightarrow> ''unknown''), vm_flags = flags,
      r_obj_refs = refs + 1, has_vm_free = fr, vm_freed = False, warns = ?w\<rparr>"
  have k: "va_ok ?k" using ok False by (simp add: va_defs check_overflow_iff)
  obtain tree where ins: "raw_drm_gpuva_insert lib ?vm ?k =
      Some (0, ?vm\<lparr>rb_tree := tree, rb_list := [?k\<lparr>va_vm := True\<rparr>]\<rparr>)"
    "vm_core (?vm\<lparr>rb_tree := tree, rb_list := [?k\<lparr>va_vm := True\<rparr>]\<rparr>)"
    using gpuva_lib.raw_insert_empty [OF gpuva_lib.intro [OF lib] _ _ k, of ?vm] by (metis drm_gpuvm.select_convs(4,5))
  let ?vm' = "?vm\<lparr>rb_tree := tree, rb_list := [?k\<lparr>va_vm := True\<rparr>],
    kernel_alloc_node := ?k\<lparr>va_vm := True\<rparr>\<rparr>"
  have "drm_gpuvm_init lib name flags refs fr start n ro rr = Some ?vm'"
    using False ok ins(1) by (cases "drm_gpuvm_check_overflow start n")
      (simp_all add: drm_gpuvm_init_def Let_def drm_gpuvm_warn_check_overflow_def drm_WARN_def)
  moreover have "vm_inv ?vm'"
  proof -
    have "vm_core ?vm'" using ins by (intro vm_core_cong [OF ins(2)]) simp_all
    then show ?thesis using False by (simp add: vm_inv_def kernel_ok_def user_vas_def)
  qed
  moreover have "vm_map ?vm' a = (if ro \<le> a \<and> a < ro + rr then Some (None, a - ro) else None)" for a
    by (simp add: vm_map_def covers_def va_end_def)
  ultimately show ?thesis by (intro exI [of _ ?vm']) simp
qed

theorem gpuvm_init_inv_witness:
  "\<exists>vm. drm_gpuvm_init (plain_lib GPUVA_LAST) None 0 1 True 0 0x10000 0xF000 0x1000 = Some vm \<and> vm_inv vm \<and>
    mm_start vm = 0 \<and> mm_range vm = 0x10000 \<and> vm_kref vm = 1 \<and>
    (\<forall>a. vm_map vm a = (if 0xF000 \<le> a \<and> a < 0xF000 + 0x1000 then Some (None, a - 0xF000) else None))"
  by (rule gpuvm_init_inv [OF plain_lib_laws]) (simp add: drm_gpuvm_check_overflow_def)

lemma overlap_iff_mapped:
  assumes inv: "vm_inv vm" and se: "s < e"
  shows "(\<exists>w \<in> set (rb_list vm). overlaps s e w) \<longleftrightarrow> (\<exists>a. s \<le> a \<and> a < e \<and> vm_map vm a \<noteq> None)"
proof
  assume "\<exists>w \<in> set (rb_list vm). overlaps s e w"
  then obtain w where w: "w \<in> set (rb_list vm)" "overlaps s e w" by blast
  let ?a = "max s (va_addr w)"
  have "covers w ?a" "s \<le> ?a" "?a < e"
    using w(2) se vm_inv_D(6) [OF inv w(1)] by (auto simp: overlaps_def covers_def va_ok_def max_def)
  then show "\<exists>a. s \<le> a \<and> a < e \<and> vm_map vm a \<noteq> None" using vm_map_Some [OF inv w(1)] by blast
next
  assume "\<exists>a. s \<le> a \<and> a < e \<and> vm_map vm a \<noteq> None"
  then obtain a where a: "s \<le> a" "a < e" "vm_map vm a \<noteq> None" by blast
  then obtain w where "w \<in> set (rb_list vm)" "covers w a" using vm_map_None [of vm a] by metis
  with a show "\<exists>w \<in> set (rb_list vm). overlaps s e w"
    by (intro bexI [of _ w]) (auto simp: covers_def overlaps_def)
qed

lemma mapped_object_iff:
  assumes inv: "vm_inv vm" and se: "s < e"
  shows "(\<exists>w \<in> set (rb_list vm). overlaps s e w \<and> gem_obj w = Some obj) \<longleftrightarrow>
    (\<exists>a off. s \<le> a \<and> a < e \<and> vm_map vm a = Some (Some obj, off))"
proof
  assume "\<exists>w \<in> set (rb_list vm). overlaps s e w \<and> gem_obj w = Some obj"
  then obtain w where w: "w \<in> set (rb_list vm)" "overlaps s e w" "gem_obj w = Some obj" by blast
  let ?a = "max s (va_addr w)"
  have "covers w ?a" "s \<le> ?a" "?a < e"
    using w(2) se vm_inv_D(6) [OF inv w(1)] by (auto simp: overlaps_def covers_def va_ok_def max_def)
  moreover from this have "vm_map vm ?a = Some (Some obj, snd (va_value w ?a))"
    using vm_map_Some [OF inv w(1)] w(3) by (simp add: va_value_def)
  ultimately show "\<exists>a off. s \<le> a \<and> a < e \<and> vm_map vm a = Some (Some obj, off)" by blast
next
  assume "\<exists>a off. s \<le> a \<and> a < e \<and> vm_map vm a = Some (Some obj, off)"
  then obtain a off where a: "s \<le> a" "a < e" "vm_map vm a = Some (Some obj, off)" by blast
  then obtain w where w: "w \<in> set (rb_list vm)" "covers w a" using vm_map_None [of vm a] by force
  then have "gem_obj w = Some obj" using vm_map_Some [OF inv w] a(3) by (simp add: va_value_def)
  moreover have "overlaps s e w" using w(2) a(1,2) by (auto simp: covers_def overlaps_def)
  ultimately show "\<exists>w \<in> set (rb_list vm). overlaps s e w \<and> gem_obj w = Some obj" using w(1) by blast
qed

lemma vm_map_insert:
  assumes "vm_inv vm" and "vm_inv vm'" and mem: "set (rb_list vm') = insert v (set (rb_list vm))"
  shows "vm_map vm' = map_update (va_addr v) (va_range v) (\<lambda>a. Some (va_value v a)) (vm_map vm)"
proof
  fix a
  show "vm_map vm' a = map_update (va_addr v) (va_range v) (\<lambda>a. Some (va_value v a)) (vm_map vm) a"
  proof (cases "covers v a")
    case True
    then show ?thesis using vm_map_Some [OF assms(2), of v a] mem
      by (simp add: map_update_def covers_def va_end_def)
  next
    case False
    then have "vm_map vm' a = vm_map vm a" using assms by (intro vm_map_cong) auto
    with False show ?thesis by (auto simp: map_update_def covers_def va_end_def)
  qed
qed

lemma vm_map_remove:
  assumes "vm_inv vm" and "vm_inv vm'" and "v \<in> set (rb_list vm)" and mem: "set (rb_list vm') = set (rb_list vm) - {v}"
  shows "vm_map vm' = map_update (va_addr v) (va_range v) (\<lambda>_. None) (vm_map vm)"
proof
  fix a
  show "vm_map vm' a = map_update (va_addr v) (va_range v) (\<lambda>_. None) (vm_map vm) a"
  proof (cases "covers v a")
    case True
    then have "vm_map vm' a = None" using covers_unique [OF assms(1,3)] mem by (intro vm_map_None) auto
    with True show ?thesis by (simp add: map_update_def covers_def va_end_def)
  next
    case False
    then have "vm_map vm' a = vm_map vm a" using assms by (intro vm_map_cong) auto
    with False show ?thesis by (auto simp: map_update_def covers_def va_end_def)
  qed
qed

text \<open>
  C21. Insertion of a mapping that is not in the address space and whose range is not empty: a range outside the managed
  space is refused with \<open>-EINVAL\<close>, one with an address that is already mapped with \<open>-EEXIST\<close>, both without a change;
  otherwise the mapping is on the list, one reference to the address space is taken and the address map changes exactly on the new range. The invariant
  is kept and no branch dereferences a null pointer. (The code does not refuse an empty range, whose last address lies before its first; the
  invariant would not hold with such a mapping.)
\<close>

theorem gpuva_insert_spec:
  assumes lib: "rb_library GPUVA_LAST lib" and inv: "vm_inv vm" and nz: "va_range va \<noteq> 0"
    and ptr: "va_ptr va \<notin> insert (va_ptr (kernel_alloc_node vm)) (va_ptr ` set (rb_list vm))"
  shows "\<exists>ret vm'. drm_gpuva_insert lib vm va = Some (ret, vm') \<and> vm_inv vm' \<and>
    ret = (if \<not> drm_gpuvm_range_valid vm (va_addr va) (va_range va) then neg_errno EINVAL
           else if \<exists>a. va_addr va \<le> a \<and> a < va_addr va + va_range va \<and> vm_map vm a \<noteq> None
           then neg_errno EEXIST else 0) \<and>
    (if ret = 0
     then set (rb_list vm') = insert (va\<lparr>va_vm := True\<rparr>) (set (rb_list vm)) \<and> vm_kref vm' = vm_kref vm + 1 \<and>
       vm_map vm' = map_update (va_addr va) (va_range va)
            (\<lambda>a. Some (gem_obj va, gem_offset va + (a - va_addr va))) (vm_map vm)
     else vm' = vm)"
proof (cases "drm_gpuvm_range_valid vm (va_addr va) (va_range va)")
  case valid: True
  note L = gpuva_lib.intro [OF lib]
  have se: "va_addr va < va_end va" using range_valid_less [OF valid nz] by (simp add: va_end_def)
  show ?thesis
  proof (cases "\<exists>w \<in> set (rb_list vm). overlaps (va_addr va) (va_end va) w")
    case True
    then show ?thesis using gpuva_lib.gpuva_insert_conflict [OF L inv valid nz True] inv valid
        overlap_iff_mapped [OF inv se] by (auto simp: va_end_def neg_errno_def)
  next
    case False
    then have free: "\<And>w. w \<in> set (rb_list vm) \<Longrightarrow> \<not> overlaps (va_addr va) (va_end va) w" by blast
    obtain vm' where vm': "drm_gpuva_insert lib vm va = Some (0, vm')" "vm_inv vm'"
      "set (rb_list vm') = insert (va\<lparr>va_vm := True\<rparr>) (set (rb_list vm))" "vm_kref vm' = vm_kref vm + 1"
      using gpuva_lib.gpuva_insert_ok [OF L inv valid nz ptr free] by blast
    have "vm_map vm' = map_update (va_addr va) (va_range va)
        (\<lambda>a. Some (gem_obj va, gem_offset va + (a - va_addr va))) (vm_map vm)"
      using vm_map_insert [OF inv vm'(2,3)] by (simp add: va_value_def)
    then show ?thesis using vm' valid False overlap_iff_mapped [OF inv se] by (auto simp: va_end_def)
  qed
qed (auto simp: drm_gpuva_insert_def neg_errno_def inv)

text \<open>A small address space on which the hypotheses hold: \<open>[0x1000, 0x5000)\<close>, \<open>[0x5000, 0x6000)\<close> and
  the kernel's \<open>[0xF000, 0x10000)\<close>.\<close>

definition ex_k :: drm_gpuva where
  "ex_k = \<lparr>va_ptr = 0, va_vm = True, va_addr = 0xF000, va_range = 0x1000, gem_obj = None, gem_offset = 0\<rparr>"

definition ex_a :: drm_gpuva where
  "ex_a = \<lparr>va_ptr = 1, va_vm = True, va_addr = 0x1000, va_range = 0x4000, gem_obj = Some 7, gem_offset = 0\<rparr>"

definition ex_b :: drm_gpuva where
  "ex_b = \<lparr>va_ptr = 2, va_vm = True, va_addr = 0x5000, va_range = 0x1000, gem_obj = Some 8, gem_offset = 0x2000\<rparr>"

definition ex_vm :: drm_gpuvm where
  "ex_vm = \<lparr>mm_start = 0, mm_range = 0x10000, kernel_alloc_node = ex_k,
     rb_tree = \<lparr>rb_root = Node (Node Leaf ex_a 0x4FFF Leaf) ex_b 0xFFFF (Node Leaf ex_k 0xFFFF Leaf),
                rb_leftmost = Some ex_a\<rparr>,
     rb_list = [ex_a, ex_b, ex_k], extobj_list = [], evict_list = [], bo_defer = [], vm_kref = 3,
     vm_name = None, vm_flags = 0, r_obj_refs = 1, has_vm_free = True, vm_freed = False, warns = 0\<rparr>"

text \<open>The address space on the reference tree library, on which the examples run.\<close>

interpretation gva: gpuva_lib "plain_lib GPUVA_LAST"
  by unfold_locales

lemmas ex_defs = ex_k_def ex_a_def ex_b_def ex_vm_def

lemma ex_vm_inv: "vm_inv ex_vm"
  by (auto simp: ex_defs vm_inv_def vm_core_def it_inv_def va_defs before_def kernel_ok_def user_vas_def
      drm_gpuvm_range_valid_def drm_gpuvm_check_overflow_def drm_gpuvm_in_mm_range_def
      drm_gpuvm_in_kernel_node_def)

theorem gpuva_insert_spec_witness:
  "let va = \<lparr>va_ptr = 3, va_vm = False, va_addr = 0x8000, va_range = 0x1000, gem_obj = Some 9, gem_offset = 0\<rparr>
   in \<exists>ret vm'. drm_gpuva_insert (plain_lib GPUVA_LAST) ex_vm va = Some (ret, vm') \<and> vm_inv vm'"
  using gpuva_insert_spec [OF plain_lib_laws ex_vm_inv, of
      "\<lparr>va_ptr = 3, va_vm = False, va_addr = 0x8000, va_range = 0x1000, gem_obj = Some 9, gem_offset = 0\<rparr>"]
  by (auto simp: ex_defs Let_def)

text \<open>
  Removal of a mapping keeps the invariant, drops one reference and unmaps exactly its range; the
  kernel's own node cannot be removed.
\<close>

theorem gpuva_remove_spec:
  assumes lib: "rb_library GPUVA_LAST lib" and inv: "vm_inv vm" and mem: "va \<in> set (rb_list vm)"
  shows "\<exists>vm'. drm_gpuva_remove lib vm va = Some vm' \<and> vm_inv vm' \<and>
    (if va = kernel_alloc_node vm then vm' = vm\<lparr>warns := warns vm + 1\<rparr>
     else vm_kref vm' = vm_kref vm - 1 \<and>
       vm_map vm' = map_update (va_addr va) (va_range va) (\<lambda>_. None) (vm_map vm))"
proof (cases "va_ptr va = va_ptr (kernel_alloc_node vm)")
  case True
  have "va = kernel_alloc_node vm"
    using vm_inv_D(5,8) [OF inv] mem True
    by (auto simp: kernel_ok_def Let_def distinct_map dest: inj_onD split: if_splits)
  moreover have "vm_inv (vm\<lparr>warns := warns vm + 1\<rparr>)" using inv by (rule vm_inv_warns)
  ultimately show ?thesis by (simp add: drm_gpuva_remove_def drm_WARN_def)
next
  case False
  then have "va \<in> set (user_vas vm)" "va \<noteq> kernel_alloc_node vm" using mem by (auto simp: user_vas_def)
  then obtain vm' where vm': "drm_gpuva_remove lib vm va = Some vm'" "vm_inv vm'"
      "set (rb_list vm') = set (rb_list vm) - {va}" "vm_kref vm' = vm_kref vm - 1"
    using gpuva_lib.gpuva_remove_ok [OF gpuva_lib.intro [OF lib] inv] by blast
  with vm_map_remove [OF inv vm'(2) mem vm'(3)] \<open>va \<noteq> kernel_alloc_node vm\<close> show ?thesis by simp
qed

theorem gpuva_remove_spec_witness:
  "\<exists>vm'. drm_gpuva_remove (plain_lib GPUVA_LAST) ex_vm ex_a = Some vm' \<and> vm_inv vm' \<and>
    vm_map vm' 0x2000 = None \<and> vm_map vm' 0x5010 = Some (Some 8, 0x2010)"
proof -
  have "vm_map ex_vm 0x5010 = Some (Some 8, 0x2010)"
    by (simp add: ex_defs vm_map_def covers_def va_end_def)
  moreover have "ex_a \<in> set (rb_list ex_vm)" "ex_a \<noteq> kernel_alloc_node ex_vm" by (simp_all add: ex_defs)
  ultimately show ?thesis using gpuva_remove_spec [OF plain_lib_laws ex_vm_inv, of ex_a]
    by (auto simp: map_update_def ex_a_def)
qed

text \<open>
  \<open>drm_gpuva_find\<close> returns the mapping with exactly the given address and range if there is one,
  and \<open>NULL\<close> otherwise; \<open>drm_gpuvm_interval_empty\<close> holds exactly if no address of the interval is
  mapped.
\<close>

theorem gpuva_find_spec:
  assumes inv: "vm_inv vm" and ok: "s < s + n"
  shows "(\<forall>v. drm_gpuva_find vm s n = ItFound v \<longleftrightarrow> v \<in> set (rb_list vm) \<and> va_addr v = s \<and> va_range v = n) \<and>
    drm_gpuva_find vm s n \<noteq> ItFault \<and>
    (drm_gpuvm_interval_empty vm s n \<longleftrightarrow> (\<forall>a. s \<le> a \<and> a < s + n \<longrightarrow> vm_map vm a = None))"
proof -
  let ?P = "overlaps s (s + n)"
  have first: "drm_gpuva_find_first vm s n = it_res_of (find ?P (rb_list vm))"
    using find_first_spec inv ok by (simp add: vm_inv_def)
  have exact: "find ?P (rb_list vm) = Some v"
    if v: "v \<in> set (rb_list vm)" "va_addr v = s" "va_range v = n" for v
  proof -
    have "\<not> before v w" "\<not> before w v" if "?P w" for w
      using that v by (auto simp: overlaps_def before_def va_end_def)
    moreover have "?P v" using v ok by (auto simp: overlaps_def va_end_def)
    ultimately show ?thesis using disjoint_pair [OF vm_inv_D(3) [OF inv] v(1)] find_unique [OF v(1)]
      by metis
  qed
  have found: "drm_gpuva_find vm s n = ItFound v \<longleftrightarrow> v \<in> set (rb_list vm) \<and> va_addr v = s \<and> va_range v = n" for v
    using first exact [of v]
    by (cases "find ?P (rb_list vm)") (auto simp: drm_gpuva_find_def find_Some_iff)
  have nofault: "drm_gpuva_find vm s n \<noteq> ItFault"
    using first by (cases "find ?P (rb_list vm)") (auto simp: drm_gpuva_find_def)
  have empty: "drm_gpuvm_interval_empty vm s n \<longleftrightarrow> find ?P (rb_list vm) = None"
    using first by (cases "find ?P (rb_list vm)") (auto simp: drm_gpuvm_interval_empty_def)
  have none: "find ?P (rb_list vm) = None \<longleftrightarrow> \<not> (\<exists>w \<in> set (rb_list vm). ?P w)"
    unfolding find_None_iff by blast
  have mapped: "(\<exists>w \<in> set (rb_list vm). ?P w) \<longleftrightarrow> \<not> (\<forall>a. s \<le> a \<and> a < s + n \<longrightarrow> vm_map vm a = None)"
    unfolding overlap_iff_mapped [OF inv ok] not_all not_imp conj_assoc by (rule refl)
  have "drm_gpuvm_interval_empty vm s n \<longleftrightarrow> (\<forall>a. s \<le> a \<and> a < s + n \<longrightarrow> vm_map vm a = None)"
    unfolding empty none mapped not_not by (rule refl)
  then show ?thesis using found nofault by iprover
qed

theorem gpuva_find_spec_witness:
  "drm_gpuva_find ex_vm 0x5000 0x1000 = ItFound ex_b \<and> drm_gpuva_find ex_vm 0x1000 0x1000 \<noteq> ItFound ex_a"
  using gpuva_find_spec [OF ex_vm_inv, of "0x5000" "0x1000"] gpuva_find_spec [OF ex_vm_inv, of "0x1000" "0x1000"]
  by (auto simp: ex_defs)

text \<open>
  C37. \<open>drm_gpuva_find_prev\<close> searches the addresses \<open>start - 1\<close> and \<open>start\<close>: with free space in front of a
  mapping it returns that mapping itself, where its documentation promises that none is returned.
\<close>

theorem gpuva_find_prev_gap:
  assumes inv: "vm_inv vm" and v: "v \<in> set (rb_list vm)" and pos: "0 < va_addr v"
    and valid: "drm_gpuvm_range_valid vm (va_addr v - 1) 1" and gap: "vm_map vm (va_addr v - 1) = None"
  shows "drm_gpuva_find_prev vm (va_addr v) = ItFound v"
proof -
  let ?P = "overlaps (va_addr v - 1) (va_addr v + 1)"
  have ok: "va_ok v" using inv v by (rule vm_inv_D(6))
  have less: "va_addr v < va_addr v + 1" "va_addr v - 1 < va_addr v"
    using word_inc_less [of "va_addr v" "va_end v"] ok word_le_minus_one_iff [OF pos, of "va_addr v - 1"]
    by (auto simp: va_ok_def)
  then have less': "va_addr v - 1 < va_addr v + 1" by (rule order_less_trans [rotated])
  have "it_iter_first GPUVA_START GPUVA_LAST (rb_tree vm) (va_addr v - 1) (va_addr v) =
      it_res_of (find ?P (rb_list vm))"
    using find_first_spec [of vm "va_addr v - 1" 2] inv less'
    by (simp add: drm_gpuva_find_first_def vm_inv_def algebra_simps)
  moreover have "find ?P (rb_list vm) = Some v"
  proof (rule find_unique [OF v])
    show "?P v" using ok less by (auto simp: overlaps_def va_ok_def)
    fix w assume w: "w \<in> set (rb_list vm)" "?P w"
    have "\<not> before v w" using w(2) ok inc_le [of "va_addr v" "va_end v"]
      by (auto simp: overlaps_def before_def va_ok_def)
    moreover have "\<not> before w v"
    proof
      assume "before w v"
      then have "covers w (va_addr v - 1)"
        using w vm_inv_D(6) [OF inv w(1)] word_le_minus_one_iff [OF pos, of "va_addr w"]
        by (auto simp: before_def covers_def overlaps_def va_ok_def)
      with gap vm_map_Some [OF inv w(1)] show False by simp
    qed
    ultimately show "w = v" using disjoint_pair [OF vm_inv_D(3) [OF inv] v w(1)] by blast
  qed
  ultimately show ?thesis using valid by (simp add: drm_gpuva_find_prev_def)
qed

theorem gpuva_find_prev_gap_witness: "drm_gpuva_find_prev ex_vm 0x1000 = ItFound ex_a"
proof -
  have "vm_map ex_vm (va_addr ex_a - 1) = None" by (simp add: ex_defs vm_map_def covers_def va_end_def)
  moreover have "drm_gpuvm_range_valid ex_vm (va_addr ex_a - 1) 1"
    by (simp add: ex_defs drm_gpuvm_range_valid_def drm_gpuvm_check_overflow_def drm_gpuvm_in_mm_range_def
        drm_gpuvm_in_kernel_node_def)
  moreover have "ex_a \<in> set (rb_list ex_vm)" "0 < va_addr ex_a" "va_addr ex_a = 0x1000"
    by (simp_all add: ex_defs)
  ultimately show ?thesis using gpuva_find_prev_gap [OF ex_vm_inv, of ex_a] by simp
qed

end
