(* ===== verification/GPUVM_SM.thy ===== *)
theory GPUVM_SM
  imports GPUVA
begin

text \<open>
  The split and merge logic of \<open>drm_gpuvm.c\<close>: \<open>__drm_gpuvm_sm_map\<close> and \<open>__drm_gpuvm_sm_unmap\<close>,
  the callbacks they issue, the two callback tables of the file (\<open>lock_ops\<close> and
  \<open>gpuvm_list_ops\<close>) and the functions that create and free lists of operations.

  A callback table is its three steps, each a function from the operation and the private state to
  the returned \<open>int\<close> and the new state. \<open>vm_of\<close> reads the address space in the private state, since
  a driver may change it in a callback; the loop fetches the successor of a mapping before it calls
  back, as \<open>drm_gpuvm_for_each_va_range_safe\<close> does. A loop carries fuel; \<open>None\<close> is a null pointer
  dereference or the end of the fuel, and the theorems show that neither happens.
\<close>

section \<open>Operations\<close>

record drm_gpuva_op_map =
  map_addr :: u64
  map_range :: u64
  map_obj :: "nat option"
  map_offset :: u64

record drm_gpuva_op_unmap =
  unmap_va :: drm_gpuva
  unmap_keep :: bool

datatype drm_gpuva_op =
    OP_MAP drm_gpuva_op_map
  | OP_REMAP "drm_gpuva_op_map option" "drm_gpuva_op_map option" drm_gpuva_op_unmap
  | OP_UNMAP drm_gpuva_op_unmap
  | OP_PREFETCH drm_gpuva

type_synonym 's sm_step = "drm_gpuva_op \<Rightarrow> 's \<Rightarrow> int \<times> 's"

record 's drm_gpuvm_ops =
  sm_step_map :: "'s sm_step option"
  sm_step_remap :: "'s sm_step option"
  sm_step_unmap :: "'s sm_step option"

text \<open>Drivers apply the operations with the helpers \<open>drm_gpuva_map\<close>, \<open>drm_gpuva_remap\<close> and
  \<open>drm_gpuva_unmap\<close>, which ignore the result of the insertion.\<close>

definition drm_gpuva_init_from_op :: "drm_gpuva \<Rightarrow> drm_gpuva_op_map \<Rightarrow> drm_gpuva" where
  "drm_gpuva_init_from_op va op =
     va\<lparr>va_addr := map_addr op, va_range := map_range op, gem_obj := map_obj op, gem_offset := map_offset op\<rparr>"

definition drm_gpuva_map :: "drm_gpuva rb_lib \<Rightarrow> drm_gpuvm \<Rightarrow> drm_gpuva \<Rightarrow> drm_gpuva_op_map \<Rightarrow> drm_gpuvm option"
where
  "drm_gpuva_map lib vm va op = map_option snd (drm_gpuva_insert lib vm (drm_gpuva_init_from_op va op))"

definition drm_gpuva_remap ::
    "drm_gpuva rb_lib \<Rightarrow> drm_gpuvm \<Rightarrow> drm_gpuva \<Rightarrow> drm_gpuva \<Rightarrow>
     drm_gpuva_op_map option \<Rightarrow> drm_gpuva_op_map option \<Rightarrow> drm_gpuva_op_unmap \<Rightarrow> drm_gpuvm option" where
  "drm_gpuva_remap lib vm prev nxt op_prev op_next op_unmap =
     (case drm_gpuva_remove lib vm (unmap_va op_unmap) of
        None \<Rightarrow> None
      | Some vm \<Rightarrow>
          case (case op_prev of None \<Rightarrow> Some vm | Some p \<Rightarrow> drm_gpuva_map lib vm prev p) of
            None \<Rightarrow> None
          | Some vm \<Rightarrow> (case op_next of None \<Rightarrow> Some vm | Some n \<Rightarrow> drm_gpuva_map lib vm nxt n))"

definition drm_gpuva_unmap :: "drm_gpuva rb_lib \<Rightarrow> drm_gpuvm \<Rightarrow> drm_gpuva_op_unmap \<Rightarrow> drm_gpuvm option" where
  "drm_gpuva_unmap lib vm op = drm_gpuva_remove lib vm (unmap_va op)"

section \<open>The callbacks\<close>

text \<open>
  \<open>op_map_cb\<close>, \<open>op_remap_cb\<close> and \<open>op_unmap_cb\<close> build the operation of a call, or make no call.
  \<open>sm_call\<close> passes an operation to the step for its kind; \<open>sm_issue\<close> makes calls in order up to the
  first one that fails (\<open>ret = cb(...); if (ret) return ret;\<close>).
\<close>

definition op_map_cb :: "drm_gpuva_op_map option \<Rightarrow> drm_gpuva_op list" where
  "op_map_cb req = (case req of None \<Rightarrow> [] | Some r \<Rightarrow> [OP_MAP r])"

definition op_remap_cb ::
    "drm_gpuva_op_map option \<Rightarrow> drm_gpuva_op_map option \<Rightarrow> drm_gpuva_op_unmap \<Rightarrow> drm_gpuva_op list" where
  "op_remap_cb prev nxt unmap = [OP_REMAP prev nxt unmap]"

definition op_unmap_cb :: "drm_gpuva \<Rightarrow> bool \<Rightarrow> bool \<Rightarrow> drm_gpuva_op list" where
  "op_unmap_cb va merge madvise =
     (if madvise then [] else [OP_UNMAP \<lparr>unmap_va = va, unmap_keep = merge\<rparr>])"

type_synonym 's sm_table = "'s sm_step \<times> 's sm_step \<times> 's sm_step"

fun sm_call :: "'s sm_table \<Rightarrow> 's sm_step" where
  "sm_call (f_map, f_remap, f_unmap) op s =
     (case op of
        OP_MAP _ \<Rightarrow> f_map op s
      | OP_REMAP _ _ _ \<Rightarrow> f_remap op s
      | OP_UNMAP _ \<Rightarrow> f_unmap op s
      | OP_PREFETCH _ \<Rightarrow> (0, s))"

fun sm_issue :: "'s sm_step \<Rightarrow> drm_gpuva_op list \<Rightarrow> 's \<Rightarrow> int \<times> 's" where
  "sm_issue cb [] s = (0, s)"
| "sm_issue cb (op # ops) s =
     (case cb op s of (ret, s') \<Rightarrow> if ret \<noteq> 0 then (ret, s') else sm_issue cb ops s')"

section \<open>The body of the map loop\<close>

text \<open>How the body ends: \<open>break\<close>, \<open>continue\<close> or \<open>return\<close>, with the value of \<open>op_map\<close>.\<close>

datatype sm_ctl = SM_Break | SM_Continue | SM_Return

text \<open>One iteration of \<open>__drm_gpuvm_sm_map\<close>: the calls it makes, how it ends, and the new \<open>op_map\<close>.\<close>

definition sm_map_body ::
    "drm_gpuva_op_map \<Rightarrow> bool \<Rightarrow> drm_gpuva \<Rightarrow> drm_gpuva_op_map option \<Rightarrow>
     drm_gpuva_op list \<times> sm_ctl \<times> drm_gpuva_op_map option" where
  "sm_map_body req madvise va op_map =
     (let req_obj = map_obj req; req_offset = map_offset req;
          req_range = map_range req; req_addr = map_addr req; req_end = req_addr + req_range;
          obj = gem_obj va; offset = gem_offset va; addr = va_addr va; rng = va_range va;
          e = addr + rng;
          merge = (obj \<noteq> None)
      in if madvise \<and> obj \<noteq> None then ([], SM_Continue, op_map)
      else if addr = req_addr then
        let merge = (merge \<and> obj = req_obj \<and> offset = req_offset)
        in if e = req_end then (op_unmap_cb va merge madvise, SM_Break, op_map)
        else if e < req_end then (op_unmap_cb va merge madvise, SM_Continue, op_map)
        else
          let n = \<lparr>map_addr = req_end, map_range = rng - req_range, map_obj = obj,
                   map_offset = offset + req_range\<rparr>;
              u = \<lparr>unmap_va = va, unmap_keep = merge\<rparr>
          in (op_remap_cb None (Some n) u, SM_Break, if madvise then Some req else op_map)
      else if addr < req_addr then
        let ls_range = req_addr - addr;
            p = \<lparr>map_addr = addr, map_range = ls_range, map_obj = obj, map_offset = offset\<rparr>;
            merge = (merge \<and> obj = req_obj \<and> offset + ls_range = req_offset);
            u = \<lparr>unmap_va = va, unmap_keep = merge\<rparr>
        in if e = req_end then
          (op_remap_cb (Some p) None u, SM_Break, if madvise then Some req else op_map)
        else if e < req_end then
          (op_remap_cb (Some p) None u @
           (if madvise
            then op_map_cb (Some \<lparr>map_addr = req_addr, map_range = e - req_addr, map_obj = None,
                                  map_offset = 0\<rparr>)
            else []), SM_Continue, op_map)
        else
          let n = \<lparr>map_addr = req_end, map_range = e - req_end, map_obj = obj,
                   map_offset = offset + ls_range + req_range\<rparr>
          in (op_remap_cb (Some p) (Some n) u, SM_Break, if madvise then Some req else op_map)
      else
        let merge = (merge \<and> obj = req_obj \<and> offset = req_offset + (addr - req_addr))
        in if e = req_end then (op_unmap_cb va merge madvise, SM_Break, op_map)
        else if e < req_end then (op_unmap_cb va merge madvise, SM_Continue, op_map)
        else
          let n = \<lparr>map_addr = req_end, map_range = e - req_end, map_obj = obj,
                   map_offset = offset + req_end - addr\<rparr>;
              u = \<lparr>unmap_va = va, unmap_keep = merge\<rparr>
          in if madvise
             then (op_remap_cb None (Some n) u @
                   op_map_cb (Some \<lparr>map_addr = addr, map_range = req_end - addr, map_obj = None,
                                    map_offset = 0\<rparr>), SM_Return, op_map)
             else (op_remap_cb None (Some n) u, SM_Break, op_map))"

fun sm_map_loop ::
    "nat \<Rightarrow> ('s \<Rightarrow> drm_gpuvm) \<Rightarrow> 's sm_step \<Rightarrow> drm_gpuva_op_map \<Rightarrow> bool \<Rightarrow>
     drm_gpuva option \<Rightarrow> drm_gpuva option \<Rightarrow> drm_gpuva_op_map option \<Rightarrow> 's \<Rightarrow> (int \<times> 's) option" where
  "sm_map_loop 0 vm_of cb req madvise va nxt op_map s = None"
| "sm_map_loop (Suc fuel) vm_of cb req madvise va nxt op_map s =
     (case va of
        None \<Rightarrow> Some (sm_issue cb (op_map_cb op_map) s)
      | Some v \<Rightarrow>
          if \<not> va_addr v < map_addr req + map_range req then Some (sm_issue cb (op_map_cb op_map) s)
          else case sm_map_body req madvise v op_map of
            (ops, ctl, op_map') \<Rightarrow>
              case sm_issue cb ops s of
                (ret, s') \<Rightarrow>
                  if ret \<noteq> 0 then Some (ret, s')
                  else case ctl of
                    SM_Return \<Rightarrow> Some (0, s')
                  | SM_Break \<Rightarrow> Some (sm_issue cb (op_map_cb op_map') s')
                  | SM_Continue \<Rightarrow>
                      sm_map_loop fuel vm_of cb req madvise nxt (drm_gpuva_next (vm_of s') nxt) op_map' s')"

definition raw_drm_gpuvm_sm_map ::
    "nat \<Rightarrow> ('s \<Rightarrow> drm_gpuvm) \<Rightarrow> 's sm_step \<Rightarrow> drm_gpuva_op_map \<Rightarrow> bool \<Rightarrow> 's \<Rightarrow> (int \<times> 's) option" where
  "raw_drm_gpuvm_sm_map fuel vm_of cb req madvise s =
     (let vm = vm_of s; req_end = map_addr req + map_range req
      in if \<not> drm_gpuvm_range_valid vm (map_addr req) (map_range req) then Some (neg_errno EINVAL, s)
         else case drm_gpuva_find_first vm (map_addr req) (req_end - map_addr req) of
           ItFault \<Rightarrow> None
         | ItNull \<Rightarrow> sm_map_loop fuel vm_of cb req madvise None None (if madvise then None else Some req) s
         | ItFound v \<Rightarrow> sm_map_loop fuel vm_of cb req madvise (Some v) (drm_gpuva_next vm (Some v))
                         (if madvise then None else Some req) s)"

section \<open>The unmap loop\<close>

definition sm_unmap_body :: "u64 \<Rightarrow> u64 \<Rightarrow> drm_gpuva \<Rightarrow> drm_gpuva_op list" where
  "sm_unmap_body req_addr req_range va =
     (let req_end = req_addr + req_range;
          obj = gem_obj va; offset = gem_offset va; addr = va_addr va; rng = va_range va;
          e = addr + rng;
          prev = (if addr < req_addr
                  then Some \<lparr>map_addr = addr, map_range = req_addr - addr, map_obj = obj, map_offset = offset\<rparr>
                  else None);
          nxt = (if e > req_end
                 then Some \<lparr>map_addr = req_end, map_range = e - req_end, map_obj = obj,
                            map_offset = offset + (req_end - addr)\<rparr>
                 else None)
      in if prev \<noteq> None \<or> nxt \<noteq> None
         then op_remap_cb prev nxt \<lparr>unmap_va = va, unmap_keep = False\<rparr>
         else op_unmap_cb va False False)"

fun sm_unmap_loop ::
    "nat \<Rightarrow> ('s \<Rightarrow> drm_gpuvm) \<Rightarrow> 's sm_step \<Rightarrow> u64 \<Rightarrow> u64 \<Rightarrow>
     drm_gpuva option \<Rightarrow> drm_gpuva option \<Rightarrow> 's \<Rightarrow> (int \<times> 's) option" where
  "sm_unmap_loop 0 vm_of cb req_addr req_range va nxt s = None"
| "sm_unmap_loop (Suc fuel) vm_of cb req_addr req_range va nxt s =
     (case va of
        None \<Rightarrow> Some (0, s)
      | Some v \<Rightarrow>
          if \<not> va_addr v < req_addr + req_range then Some (0, s)
          else case sm_issue cb (sm_unmap_body req_addr req_range v) s of
            (ret, s') \<Rightarrow>
              if ret \<noteq> 0 then Some (ret, s')
              else sm_unmap_loop fuel vm_of cb req_addr req_range nxt (drm_gpuva_next (vm_of s') nxt) s')"

definition raw_drm_gpuvm_sm_unmap ::
    "nat \<Rightarrow> ('s \<Rightarrow> drm_gpuvm) \<Rightarrow> 's sm_step \<Rightarrow> u64 \<Rightarrow> u64 \<Rightarrow> 's \<Rightarrow> (int \<times> 's) option" where
  "raw_drm_gpuvm_sm_unmap fuel vm_of cb req_addr req_range s =
     (let vm = vm_of s; req_end = req_addr + req_range
      in if \<not> drm_gpuvm_range_valid vm req_addr req_range then Some (neg_errno EINVAL, s)
         else case drm_gpuva_find_first vm req_addr (req_end - req_addr) of
           ItFault \<Rightarrow> None
         | ItNull \<Rightarrow> sm_unmap_loop fuel vm_of cb req_addr req_range None None s
         | ItFound v \<Rightarrow> sm_unmap_loop fuel vm_of cb req_addr req_range (Some v) (drm_gpuva_next vm (Some v)) s)"

section \<open>The entry points for drivers\<close>

definition drm_gpuvm_sm_map ::
    "nat \<Rightarrow> 's drm_gpuvm_ops option \<Rightarrow> ('s \<Rightarrow> drm_gpuvm) \<Rightarrow> drm_gpuva_op_map \<Rightarrow> 's \<Rightarrow> (int \<times> 's) option" where
  "drm_gpuvm_sm_map fuel ops vm_of req s =
     (case ops of
        None \<Rightarrow> Some (neg_errno EINVAL, s)
      | Some fn \<Rightarrow>
          (case (sm_step_map fn, sm_step_remap fn, sm_step_unmap fn) of
             (Some f, Some g, Some h) \<Rightarrow> raw_drm_gpuvm_sm_map fuel vm_of (sm_call (f, g, h)) req False s
           | _ \<Rightarrow> Some (neg_errno EINVAL, s)))"

definition drm_gpuvm_sm_unmap ::
    "nat \<Rightarrow> 's drm_gpuvm_ops option \<Rightarrow> ('s \<Rightarrow> drm_gpuvm) \<Rightarrow> u64 \<Rightarrow> u64 \<Rightarrow> 's \<Rightarrow> (int \<times> 's) option" where
  "drm_gpuvm_sm_unmap fuel ops vm_of req_addr req_range s =
     (case ops of
        None \<Rightarrow> Some (neg_errno EINVAL, s)
      | Some fn \<Rightarrow>
          (case (sm_step_remap fn, sm_step_unmap fn) of
             (Some g, Some h) \<Rightarrow>
               raw_drm_gpuvm_sm_unmap fuel vm_of (sm_call (\<lambda>op s. (0, s), g, h)) req_addr req_range s
           | _ \<Rightarrow> Some (neg_errno EINVAL, s)))"

section \<open>The sequence of operations of a request\<close>

text \<open>
  Reference definitions: the operations a request issues, as a function of the list of mappings from
  the first one that overlaps the request. A client whose callbacks leave the address space alone
  (the documented use where the driver stores the operations) sees exactly these, in order.
\<close>

fun sm_map_plan ::
    "drm_gpuva_op_map \<Rightarrow> bool \<Rightarrow> drm_gpuva_op_map option \<Rightarrow> drm_gpuva list \<Rightarrow> drm_gpuva_op list" where
  "sm_map_plan req madvise op_map [] = op_map_cb op_map"
| "sm_map_plan req madvise op_map (v # vs) =
     (if \<not> va_addr v < map_addr req + map_range req then op_map_cb op_map
      else case sm_map_body req madvise v op_map of
        (ops, ctl, op_map') \<Rightarrow>
          ops @ (case ctl of
                   SM_Return \<Rightarrow> []
                 | SM_Break \<Rightarrow> op_map_cb op_map'
                 | SM_Continue \<Rightarrow> sm_map_plan req madvise op_map' vs))"

fun sm_unmap_plan :: "u64 \<Rightarrow> u64 \<Rightarrow> drm_gpuva list \<Rightarrow> drm_gpuva_op list" where
  "sm_unmap_plan req_addr req_range [] = []"
| "sm_unmap_plan req_addr req_range (v # vs) =
     (if \<not> va_addr v < req_addr + req_range then []
      else sm_unmap_body req_addr req_range v @ sm_unmap_plan req_addr req_range vs)"

definition from_first :: "u64 \<Rightarrow> u64 \<Rightarrow> drm_gpuvm \<Rightarrow> drm_gpuva list" where
  "from_first a n vm = dropWhile (\<lambda>v. \<not> overlaps a (a + n) v) (rb_list vm)"

definition sm_map_ops :: "drm_gpuvm \<Rightarrow> drm_gpuva_op_map \<Rightarrow> bool \<Rightarrow> drm_gpuva_op list" where
  "sm_map_ops vm req madvise =
     sm_map_plan req madvise (if madvise then None else Some req)
       (from_first (map_addr req) (map_range req) vm)"

definition sm_unmap_ops :: "drm_gpuvm \<Rightarrow> u64 \<Rightarrow> u64 \<Rightarrow> drm_gpuva_op list" where
  "sm_unmap_ops vm req_addr req_range = sm_unmap_plan req_addr req_range (from_first req_addr req_range vm)"

lemma sm_issue_append:
  "sm_issue cb (xs @ ys) s =
     (case sm_issue cb xs s of (ret, s') \<Rightarrow> if ret \<noteq> 0 then (ret, s') else sm_issue cb ys s')"
  by (induction xs arbitrary: s) (auto split: prod.split)

definition opt_hd :: "'a list \<Rightarrow> 'a option" where
  "opt_hd xs = (case xs of [] \<Rightarrow> None | x # _ \<Rightarrow> Some x)"

lemma opt_hd_simps [simp]: "opt_hd [] = None" "opt_hd (x # xs) = Some x"
  by (simp_all add: opt_hd_def)

lemma gpuva_next_opt_hd:
  assumes "distinct (rb_list vm)" and "rb_list vm = pre @ vs"
  shows "drm_gpuva_next vm (opt_hd vs) = opt_hd (tl vs)"
proof (cases vs)
  case (Cons v rest)
  with assms succ_in_split [of pre v rest] show ?thesis
    by (simp add: drm_gpuva_next_def opt_hd_def)
qed (simp add: drm_gpuva_next_def)

lemma from_first_split:
  "find (overlaps a (a + n)) (rb_list vm) = opt_hd (from_first a n vm)"
  "\<exists>pre. rb_list vm = pre @ from_first a n vm"
proof -
  show "find (overlaps a (a + n)) (rb_list vm) = opt_hd (from_first a n vm)"
    unfolding from_first_def by (simp add: find_dropWhile opt_hd_def comp_def)
  show "\<exists>pre. rb_list vm = pre @ from_first a n vm"
    unfolding from_first_def by (metis takeWhile_dropWhile_id)
qed

locale sm_client =
  fixes vm_of :: "'s \<Rightarrow> drm_gpuvm" and cb :: "'s sm_step"
  assumes cb_vm: "vm_of (snd (cb op s)) = vm_of s"
begin

lemma issue_vm: "vm_of (snd (sm_issue cb ops s)) = vm_of s"
proof (induction ops arbitrary: s)
  case (Cons op ops)
  then show ?case using cb_vm [of op s] by (cases "cb op s") auto
qed simp

lemma sm_map_loop_plan:
  assumes "distinct (rb_list (vm_of s))" and "rb_list (vm_of s) = pre @ vs" and "length vs < fuel"
  shows "sm_map_loop fuel vm_of cb req madvise (opt_hd vs) (opt_hd (tl vs)) op_map s =
    Some (sm_issue cb (sm_map_plan req madvise op_map vs) s)"
  using assms
proof (induction vs arbitrary: pre fuel op_map s)
  case Nil
  then show ?case by (cases fuel) simp_all
next
  case (Cons v vs)
  obtain f where f: "fuel = Suc f" using Cons.prems by (cases fuel) auto
  obtain ops ctl op_map' where body: "sm_map_body req madvise v op_map = (ops, ctl, op_map')"
    by (cases "sm_map_body req madvise v op_map") auto
  obtain ret s' where iss: "sm_issue cb ops s = (ret, s')" by (cases "sm_issue cb ops s") auto
  have vm: "vm_of s' = vm_of s" using issue_vm [of ops s] iss by simp
  have nxt: "drm_gpuva_next (vm_of s') (opt_hd vs) = opt_hd (tl vs)"
    using gpuva_next_opt_hd [of "vm_of s" "pre @ [v]" vs] Cons.prems vm by simp
  have "sm_map_loop f vm_of cb req madvise (opt_hd vs) (opt_hd (tl vs)) op_map' s' =
      Some (sm_issue cb (sm_map_plan req madvise op_map' vs) s')"
    using Cons.IH [of s' "pre @ [v]" f op_map'] Cons.prems vm f by simp
  then show ?case using body iss nxt f by (simp add: sm_issue_append split: sm_ctl.split)
qed

lemma sm_unmap_loop_plan:
  assumes "distinct (rb_list (vm_of s))" and "rb_list (vm_of s) = pre @ vs" and "length vs < fuel"
  shows "sm_unmap_loop fuel vm_of cb req_addr req_range (opt_hd vs) (opt_hd (tl vs)) s =
    Some (sm_issue cb (sm_unmap_plan req_addr req_range vs) s)"
  using assms
proof (induction vs arbitrary: pre fuel s)
  case Nil
  then show ?case by (cases fuel) simp_all
next
  case (Cons v vs)
  let ?ops = "sm_unmap_body req_addr req_range v"
  obtain f where f: "fuel = Suc f" using Cons.prems by (cases fuel) auto
  obtain ret s' where iss: "sm_issue cb ?ops s = (ret, s')" by (cases "sm_issue cb ?ops s") auto
  have vm: "vm_of s' = vm_of s" using issue_vm [of ?ops s] iss by simp
  have nxt: "drm_gpuva_next (vm_of s') (opt_hd vs) = opt_hd (tl vs)"
    using gpuva_next_opt_hd [of "vm_of s" "pre @ [v]" vs] Cons.prems vm by simp
  have "sm_unmap_loop f vm_of cb req_addr req_range (opt_hd vs) (opt_hd (tl vs)) s' =
      Some (sm_issue cb (sm_unmap_plan req_addr req_range vs) s')"
    using Cons.IH [of s' "pre @ [v]" f] Cons.prems vm f by simp
  then show ?case using iss nxt f by (simp add: sm_issue_append)
qed

lemma sm_map_issues:
  assumes inv: "vm_core (vm_of s)" and nz: "map_range req \<noteq> 0" and fuel: "length (rb_list (vm_of s)) < fuel"
  shows "raw_drm_gpuvm_sm_map fuel vm_of cb req madvise s =
    Some (if drm_gpuvm_range_valid (vm_of s) (map_addr req) (map_range req)
          then sm_issue cb (sm_map_ops (vm_of s) req madvise) s else (neg_errno EINVAL, s))"
proof (cases "drm_gpuvm_range_valid (vm_of s) (map_addr req) (map_range req)")
  case True
  let ?vs = "from_first (map_addr req) (map_range req) (vm_of s)"
  have dis: "distinct (rb_list (vm_of s))" using inv by (auto simp: vm_core_def distinct_map)
  obtain pre where pre: "rb_list (vm_of s) = pre @ ?vs" using from_first_split(2) by blast
  have "drm_gpuva_find_first (vm_of s) (map_addr req) (map_range req) = it_res_of (opt_hd ?vs)"
    using find_first_spec [OF inv range_valid_less [OF True nz]] by (simp add: from_first_split)
  moreover have "drm_gpuva_next (vm_of s) (opt_hd ?vs) = opt_hd (tl ?vs)"
    using gpuva_next_opt_hd [OF dis pre] .
  moreover have "length ?vs < fuel" using fuel pre by (metis add_lessD1 length_append add.commute)
  ultimately show ?thesis
    using sm_map_loop_plan [OF dis pre, of fuel req madvise "if madvise then None else Some req"] True
    by (cases ?vs) (simp_all add: raw_drm_gpuvm_sm_map_def Let_def sm_map_ops_def split: it_res.split)
qed (simp add: raw_drm_gpuvm_sm_map_def)

lemma sm_unmap_issues:
  assumes inv: "vm_core (vm_of s)" and nz: "req_range \<noteq> 0" and fuel: "length (rb_list (vm_of s)) < fuel"
  shows "raw_drm_gpuvm_sm_unmap fuel vm_of cb req_addr req_range s =
    Some (if drm_gpuvm_range_valid (vm_of s) req_addr req_range
          then sm_issue cb (sm_unmap_ops (vm_of s) req_addr req_range) s else (neg_errno EINVAL, s))"
proof (cases "drm_gpuvm_range_valid (vm_of s) req_addr req_range")
  case True
  let ?vs = "from_first req_addr req_range (vm_of s)"
  have dis: "distinct (rb_list (vm_of s))" using inv by (auto simp: vm_core_def distinct_map)
  obtain pre where pre: "rb_list (vm_of s) = pre @ ?vs" using from_first_split(2) by blast
  have "drm_gpuva_find_first (vm_of s) req_addr req_range = it_res_of (opt_hd ?vs)"
    using find_first_spec [OF inv range_valid_less [OF True nz]] by (simp add: from_first_split)
  moreover have "drm_gpuva_next (vm_of s) (opt_hd ?vs) = opt_hd (tl ?vs)"
    using gpuva_next_opt_hd [OF dis pre] .
  moreover have "length ?vs < fuel" using fuel pre by (metis add_lessD1 length_append add.commute)
  ultimately show ?thesis
    using sm_unmap_loop_plan [OF dis pre, of fuel req_addr req_range] True
    by (cases ?vs) (simp_all add: raw_drm_gpuvm_sm_unmap_def Let_def sm_unmap_ops_def)
qed (simp add: raw_drm_gpuvm_sm_unmap_def)

end

section \<open>What the operations do to the address space\<close>

text \<open>
  A driver that applies the operations in order, each new \<open>drm_gpuva\<close> at a fresh address: the
  pointers \<open>p\<close> and \<open>p + 1\<close> for the operation, the following ones for the rest of the list.
\<close>

definition new_va :: "nat \<Rightarrow> drm_gpuva" where
  "new_va p = \<lparr>va_ptr = p, va_vm = False, va_addr = 0, va_range = 0, gem_obj = None, gem_offset = 0\<rparr>"

fun exec_op :: "drm_gpuva rb_lib \<Rightarrow> nat \<Rightarrow> drm_gpuva_op \<Rightarrow> drm_gpuvm \<Rightarrow> drm_gpuvm option" where
  "exec_op lib p (OP_MAP m) vm = drm_gpuva_map lib vm (new_va p) m"
| "exec_op lib p (OP_REMAP a b u) vm = drm_gpuva_remap lib vm (new_va p) (new_va (p + 1)) a b u"
| "exec_op lib p (OP_UNMAP u) vm = drm_gpuva_unmap lib vm u"
| "exec_op lib p (OP_PREFETCH v) vm = Some vm"

fun exec_ops :: "drm_gpuva rb_lib \<Rightarrow> nat \<Rightarrow> drm_gpuva_op list \<Rightarrow> drm_gpuvm \<Rightarrow> drm_gpuvm option" where
  "exec_ops lib p [] vm = Some vm"
| "exec_ops lib p (op # ops) vm =
     (case exec_op lib p op vm of None \<Rightarrow> None | Some vm' \<Rightarrow> exec_ops lib (p + 2) ops vm')"

definition ptrs_below :: "nat \<Rightarrow> drm_gpuvm \<Rightarrow> bool" where
  "ptrs_below p vm \<longleftrightarrow> va_ptr (kernel_alloc_node vm) < p \<and> (\<forall>v \<in> set (rb_list vm). va_ptr v < p)"

text \<open>The operation that removes the part of a mapping inside \<open>[s, e)\<close> and keeps the rest.\<close>

definition keep_prev :: "u64 \<Rightarrow> drm_gpuva \<Rightarrow> drm_gpuva_op_map option" where
  "keep_prev s v = (if va_addr v < s
     then Some \<lparr>map_addr = va_addr v, map_range = s - va_addr v, map_obj = gem_obj v, map_offset = gem_offset v\<rparr>
     else None)"

definition keep_next :: "u64 \<Rightarrow> drm_gpuva \<Rightarrow> drm_gpuva_op_map option" where
  "keep_next e v = (if e < va_end v
     then Some \<lparr>map_addr = e, map_range = va_end v - e, map_obj = gem_obj v,
                map_offset = gem_offset v + (e - va_addr v)\<rparr>
     else None)"

fun clears :: "u64 \<Rightarrow> u64 \<Rightarrow> drm_gpuva \<Rightarrow> drm_gpuva_op \<Rightarrow> bool" where
  "clears s e v (OP_UNMAP u) \<longleftrightarrow> unmap_va u = v \<and> keep_prev s v = None \<and> keep_next e v = None"
| "clears s e v (OP_REMAP p n u) \<longleftrightarrow>
     unmap_va u = v \<and> p = keep_prev s v \<and> n = keep_next e v \<and> (p \<noteq> None \<or> n \<noteq> None)"
| "clears s e v _ \<longleftrightarrow> False"

text \<open>\<open>W\<close> is the part \<open>[a, b)\<close> of \<open>v\<close> as a new mapping if \<open>c\<close> holds, and empty otherwise.\<close>

definition is_part :: "drm_gpuva \<Rightarrow> bool \<Rightarrow> u64 \<Rightarrow> u64 \<Rightarrow> drm_gpuva set \<Rightarrow> bool" where
  "is_part v c a b W \<longleftrightarrow> (W \<noteq> {} \<longleftrightarrow> c) \<and>
     (\<forall>w \<in> W. va_addr w = a \<and> va_end w = b \<and> (\<forall>x. va_value w x = va_value v x))"

lemma range_valid_sub:
  assumes "drm_gpuvm_range_valid vm (va_addr v) (va_range v)" and "va_ok v"
    and "va_addr v \<le> a" and "a < a + n" and "a + n \<le> va_end v"
  shows "drm_gpuvm_range_valid vm a n"
proof -
  have "n \<noteq> 0" using assms(4) by auto
  then show ?thesis
    using assms by (auto simp: drm_gpuvm_range_valid_def check_overflow_iff drm_gpuvm_in_mm_range_def
        drm_gpuvm_in_kernel_node_def va_end_def Let_def)
qed

lemma overlapping_user:
  assumes inv: "vm_inv vm" and valid: "drm_gpuvm_range_valid vm s (e - s)"
    and v: "v \<in> set (rb_list vm)" "overlaps s e v"
  shows "v \<in> set (user_vas vm)"
proof (rule ccontr)
  let ?k = "kernel_alloc_node vm"
  assume "v \<notin> set (user_vas vm)"
  then have ptr: "va_ptr v = va_ptr ?k" using v by (simp add: user_vas_def)
  then have "va_range ?k \<noteq> 0" "?k \<in> set (rb_list vm)"
    using vm_inv_D(8) [OF inv] v by (auto simp: kernel_ok_def Let_def split: if_splits)
  moreover from this have "v = ?k" using ptr v vm_inv_D(5) [OF inv] by (auto simp: distinct_map dest: inj_onD)
  ultimately show False using valid v
    by (auto simp: drm_gpuvm_range_valid_def drm_gpuvm_in_kernel_node_def overlaps_def va_end_def Let_def)
qed

context gpuva_lib
begin

lemma gpuva_map_ok:
  assumes inv: "vm_inv vm" and below: "ptrs_below p vm" and q: "q = p"
    and valid: "drm_gpuvm_range_valid vm (map_addr m) (map_range m)" and nz: "map_range m \<noteq> 0"
    and free: "\<And>w. w \<in> set (rb_list vm) \<Longrightarrow> \<not> overlaps (map_addr m) (map_addr m + map_range m) w"
  obtains vm' v where "drm_gpuva_map lib vm (new_va q) m = Some vm'" "vm_inv vm'" "same_frame vm vm'"
    "ptrs_below (p + 1) vm'" "set (rb_list vm') = insert v (set (rb_list vm))"
    "va_addr v = map_addr m" "va_range v = map_range m" "gem_obj v = map_obj m" "gem_offset v = map_offset m"
    "va_ptr v = q"
proof -
  let ?v = "drm_gpuva_init_from_op (new_va q) m"
  have v: "va_addr ?v = map_addr m" "va_range ?v = map_range m" "gem_obj ?v = map_obj m"
    "gem_offset ?v = map_offset m" "va_ptr ?v = q"
    by (simp_all add: drm_gpuva_init_from_op_def new_va_def)
  have ptr: "va_ptr ?v \<notin> insert (va_ptr (kernel_alloc_node vm)) (va_ptr ` set (rb_list vm))"
    using below q v by (auto simp: ptrs_below_def)
  obtain vm' where vm': "drm_gpuva_insert lib vm ?v = Some (0, vm')" "vm_inv vm'" "same_frame vm vm'"
    "set (rb_list vm') = insert (?v\<lparr>va_vm := True\<rparr>) (set (rb_list vm))"
    by (rule gpuva_insert_ok [OF inv, of ?v]) (use valid nz free v ptr in \<open>auto simp: va_end_def\<close>)
  moreover have "ptrs_below (p + 1) vm'" using below vm' v q
    by (auto simp: ptrs_below_def same_frame_def)
  ultimately show ?thesis using that [of vm' "?v\<lparr>va_vm := True\<rparr>"] v by (simp add: drm_gpuva_map_def)
qed

text \<open>Mapping the part \<open>[a, b)\<close> of a removed mapping \<open>v\<close> again, if the condition \<open>c\<close> holds.\<close>

lemma keep_part_ok:
  assumes inv: "vm_inv vm" and below: "ptrs_below p vm"
    and valid: "drm_gpuvm_range_valid vm (va_addr v) (va_range v)" and ok: "va_ok v"
    and part: "c \<Longrightarrow> va_addr v \<le> a \<and> a < b \<and> b \<le> va_end v"
    and free: "\<And>w. c \<Longrightarrow> w \<in> set (rb_list vm) \<Longrightarrow> \<not> overlaps a b w"
    and m: "m = \<lparr>map_addr = a, map_range = b - a, map_obj = gem_obj v,
                 map_offset = gem_offset v + (a - va_addr v)\<rparr>"
  obtains vm' W where
    "(case (if c then Some m else None) of None \<Rightarrow> Some vm | Some m \<Rightarrow> drm_gpuva_map lib vm (new_va p) m)
       = Some vm'"
    "vm_inv vm'" "same_frame vm vm'" "ptrs_below (p + 1) vm'" "set (rb_list vm') = W \<union> set (rb_list vm)"
    "is_part v c a b W"
proof (cases c)
  case True
  have val: "drm_gpuvm_range_valid vm (map_addr m) (map_range m)"
    using range_valid_sub [OF valid ok, of a "b - a"] part [OF True] m by simp
  have nz: "map_range m \<noteq> 0" using part [OF True] m by auto
  have fr: "\<not> overlaps (map_addr m) (map_addr m + map_range m) w" if "w \<in> set (rb_list vm)" for w
    using free [OF True that] m by simp
  obtain vm' w where w: "drm_gpuva_map lib vm (new_va p) m = Some vm'" "vm_inv vm'"
    "same_frame vm vm'" "ptrs_below (p + 1) vm'" "set (rb_list vm') = insert w (set (rb_list vm))"
    "va_addr w = map_addr m" "va_range w = map_range m" "gem_obj w = map_obj m" "gem_offset w = map_offset m"
    using gpuva_map_ok [OF inv below refl val nz fr] by blast
  then show ?thesis using True m by (intro that [of vm' "{w}"]) (auto simp: va_end_def va_value_def is_part_def)
next
  case False
  then show ?thesis using inv below
    by (intro that [of vm "{}"]) (auto simp: same_frame_def ptrs_below_def is_part_def)
qed

lemma remap_ok:
  assumes inv: "vm_inv vm" and below: "ptrs_below p vm" and v: "v \<in> set (user_vas vm)" and se: "s < e"
    and ov: "overlaps s e v" and u: "unmap_va u = v"
  obtains vm' P N where
    "drm_gpuva_remap lib vm (new_va p) (new_va (p + 1)) (keep_prev s v) (keep_next e v) u = Some vm'"
    "vm_inv vm'" "same_frame vm vm'" "ptrs_below (p + 2) vm'"
    "set (rb_list vm') = P \<union> N \<union> (set (rb_list vm) - {v})"
    "is_part v (va_addr v < s) (va_addr v) s P" "is_part v (e < va_end v) e (va_end v) N"
proof -
  have mem: "v \<in> set (rb_list vm)" using v by (auto simp: user_vas_def)
  have ok: "va_ok v" using inv mem by (rule vm_inv_D(6))
  have valid: "drm_gpuvm_range_valid vm (va_addr v) (va_range v)" using inv v by (auto simp: vm_inv_def)
  have apart: "\<not> overlaps a b w" if "w \<in> set (rb_list vm)" "w \<noteq> v" "va_addr v \<le> a" "b \<le> va_end v" for w a b
    using disjoint_pair [OF vm_inv_D(3) [OF inv] mem that(1)] that
    by (auto simp: before_def overlaps_def)
  obtain vm1 where vm1: "drm_gpuva_remove lib vm v = Some vm1" "vm_inv vm1" "same_frame vm vm1"
    "set (rb_list vm1) = set (rb_list vm) - {v}"
    using gpuva_remove_ok [OF inv v] by blast
  have below1: "ptrs_below p vm1" using below vm1 by (auto simp: ptrs_below_def same_frame_def)
  have valid1: "drm_gpuvm_range_valid vm1 (va_addr v) (va_range v)"
    using valid range_valid_frame [OF vm1(3)] by simp
  have part1: "va_addr v \<le> va_addr v \<and> va_addr v < s \<and> s \<le> va_end v" if "va_addr v < s"
    using that ov by (auto simp: overlaps_def)
  have free1: "\<not> overlaps (va_addr v) s w" if "va_addr v < s" "w \<in> set (rb_list vm1)" for w
    using that vm1(4) apart [of w "va_addr v" s] part1 by auto
  obtain vm2 P where vm2:
    "(case keep_prev s v of None \<Rightarrow> Some vm1 | Some m \<Rightarrow> drm_gpuva_map lib vm1 (new_va p) m) = Some vm2"
    "vm_inv vm2" "same_frame vm1 vm2" "ptrs_below (p + 1) vm2" "set (rb_list vm2) = P \<union> set (rb_list vm1)"
    "is_part v (va_addr v < s) (va_addr v) s P"
    using keep_part_ok [OF vm1(2) below1 valid1 ok part1 free1 refl]
    unfolding keep_prev_def diff_self add_0_right by blast
  have valid2: "drm_gpuvm_range_valid vm2 (va_addr v) (va_range v)"
    using valid1 range_valid_frame [OF vm2(3)] by simp
  have part2: "va_addr v \<le> e \<and> e < va_end v \<and> va_end v \<le> va_end v" if "e < va_end v"
    using that ov by (auto simp: overlaps_def)
  have free2: "\<not> overlaps e (va_end v) w" if "e < va_end v" "w \<in> set (rb_list vm2)" for w
  proof (cases "w \<in> P")
    case True
    then have "va_end w = s" using vm2(6) by (auto simp: is_part_def)
    with se show ?thesis by (auto simp: overlaps_def)
  next
    case False
    with that vm2(5) vm1(4) ov show ?thesis by (intro apart) (auto simp: overlaps_def)
  qed
  obtain vm3 N where vm3:
    "(case keep_next e v of None \<Rightarrow> Some vm2 | Some m \<Rightarrow> drm_gpuva_map lib vm2 (new_va (p + 1)) m) = Some vm3"
    "vm_inv vm3" "same_frame vm2 vm3" "ptrs_below (p + 2) vm3" "set (rb_list vm3) = N \<union> set (rb_list vm2)"
    "is_part v (e < va_end v) e (va_end v) N"
    using keep_part_ok [OF vm2(2,4) valid2 ok part2 free2 refl]
    unfolding keep_next_def add.assoc one_add_one by blast
  show ?thesis
  proof (rule that [of vm3 P N])
    show "drm_gpuva_remap lib vm (new_va p) (new_va (p + 1)) (keep_prev s v) (keep_next e v) u = Some vm3"
      unfolding drm_gpuva_remap_def u vm1(1) option.case vm2(1) by (rule vm3(1))
    show "same_frame vm vm3" using vm1(3) vm2(3) vm3(3) by (simp add: same_frame_def)
  qed (use vm1 vm2 vm3 in auto)
qed

lemma exec_clear_ok:
  assumes inv: "vm_inv vm" and below: "ptrs_below p vm" and v: "v \<in> set (user_vas vm)" and se: "s < e"
    and ov: "overlaps s e v" and op: "clears s e v op"
  obtains vm' where "exec_op lib p op vm = Some vm'" "vm_inv vm'" "same_frame vm vm'" "ptrs_below (p + 2) vm'"
    "{w \<in> set (rb_list vm'). overlaps s e w} = {w \<in> set (rb_list vm). overlaps s e w} - {v}"
    "\<forall>a. \<not> (s \<le> a \<and> a < e) \<longrightarrow> vm_map vm' a = vm_map vm a"
proof -
  obtain u where u: "unmap_va u = v" and ex: "exec_op lib p op vm =
      drm_gpuva_remap lib vm (new_va p) (new_va (p + 1)) (keep_prev s v) (keep_next e v) u"
    using op by (cases op) (auto simp: drm_gpuva_unmap_def drm_gpuva_remap_def split: option.split)
  obtain vm' P N where vm':
    "drm_gpuva_remap lib vm (new_va p) (new_va (p + 1)) (keep_prev s v) (keep_next e v) u = Some vm'"
    "vm_inv vm'" "same_frame vm vm'" "ptrs_below (p + 2) vm'"
    "set (rb_list vm') = P \<union> N \<union> (set (rb_list vm) - {v})"
    "is_part v (va_addr v < s) (va_addr v) s P" "is_part v (e < va_end v) e (va_end v) N"
    by (rule remap_ok [OF inv below v se ov u])
  then have P: "\<And>w. w \<in> P \<Longrightarrow> va_addr w = va_addr v \<and> va_end w = s \<and> (\<forall>x. va_value w x = va_value v x)"
    and N: "\<And>w. w \<in> N \<Longrightarrow> va_addr w = e \<and> va_end w = va_end v \<and> (\<forall>x. va_value w x = va_value v x)"
    and PN: "va_addr v < s \<Longrightarrow> P \<noteq> {}" "e < va_end v \<Longrightarrow> N \<noteq> {}"
    by (auto simp: is_part_def)
  have mem: "v \<in> set (rb_list vm)" using v by (auto simp: user_vas_def)
  have outside: "vm_map vm' a = vm_map vm a" if a: "\<not> (s \<le> a \<and> a < e)" for a
  proof (cases "covers v a")
    case True
    then consider "va_addr v < s" "a < s" | "e < va_end v" "e \<le> a"
      using a by (auto simp: covers_def not_le not_less dest: order_le_less_trans)
    then have "\<exists>w \<in> P \<union> N. covers w a \<and> va_value w a = va_value v a"
    proof cases
      case 1
      then obtain w where "w \<in> P" using PN(1) by blast
      with 1 P [of w] True show ?thesis by (intro bexI [of _ w]) (auto simp: covers_def)
    next
      case 2
      then obtain w where "w \<in> N" using PN(2) by blast
      with 2 N [of w] True show ?thesis by (intro bexI [of _ w]) (auto simp: covers_def)
    qed
    then have "vm_map vm' a = Some (va_value v a)" using vm_map_Some [OF vm'(2)] vm'(5) by (metis Un_iff)
    then show ?thesis using vm_map_Some [OF inv mem True] by simp
  next
    case False
    then have "w \<notin> P \<union> N" if "covers w a" for w
      using that P [of w] N [of w] ov by (auto simp: covers_def overlaps_def)
    then show ?thesis using False vm'(2,5) inv by (intro vm_map_cong) auto
  qed
  have "{w \<in> set (rb_list vm'). overlaps s e w} = {w \<in> set (rb_list vm). overlaps s e w} - {v}"
    using vm'(5) P N by (auto simp: overlaps_def)
  with vm' ex outside show ?thesis by (intro that [of vm']) auto
qed

lemma exec_clears_ok:
  assumes "vm_inv vm" and "ptrs_below p vm" and "s < e" and "drm_gpuvm_range_valid vm s (e - s)"
    and "list_all2 (clears s e) vs ops" and "distinct vs"
    and "set vs = {w \<in> set (rb_list vm). overlaps s e w}"
  shows "\<exists>vm'. exec_ops lib p ops vm = Some vm' \<and> vm_inv vm' \<and> same_frame vm vm' \<and>
    ptrs_below (p + 2 * length ops) vm' \<and> (\<forall>w \<in> set (rb_list vm'). \<not> overlaps s e w) \<and>
    (\<forall>a. \<not> (s \<le> a \<and> a < e) \<longrightarrow> vm_map vm' a = vm_map vm a)"
  using assms
proof (induction vs arbitrary: vm p ops)
  case Nil
  then show ?case by (auto simp: same_frame_def)
next
  case (Cons v vs)
  then obtain op ops' where ops: "ops = op # ops'" "clears s e v op" "list_all2 (clears s e) vs ops'"
    by (auto simp: list_all2_Cons1)
  have v: "v \<in> set (rb_list vm)" "overlaps s e v" using Cons.prems(7) by auto
  then have user: "v \<in> set (user_vas vm)" using overlapping_user Cons.prems(1,4) by blast
  obtain vm1 where vm1: "exec_op lib p op vm = Some vm1" "vm_inv vm1" "same_frame vm vm1"
    "ptrs_below (p + 2) vm1"
    "{w \<in> set (rb_list vm1). overlaps s e w} = {w \<in> set (rb_list vm). overlaps s e w} - {v}"
    "\<forall>a. \<not> (s \<le> a \<and> a < e) \<longrightarrow> vm_map vm1 a = vm_map vm a"
    by (rule exec_clear_ok [OF Cons.prems(1,2) user Cons.prems(3) v(2) ops(2)])
  have "set vs = {w \<in> set (rb_list vm1). overlaps s e w}"
    using Cons.prems(6,7) vm1(5) by auto
  moreover have "drm_gpuvm_range_valid vm1 s (e - s)"
    using Cons.prems(4) range_valid_frame [OF vm1(3)] by simp
  ultimately obtain vm2 where vm2: "exec_ops lib (p + 2) ops' vm1 = Some vm2" "vm_inv vm2"
    "same_frame vm1 vm2" "ptrs_below (p + 2 + 2 * length ops') vm2"
    "\<forall>w \<in> set (rb_list vm2). \<not> overlaps s e w"
    "\<forall>a. \<not> (s \<le> a \<and> a < e) \<longrightarrow> vm_map vm2 a = vm_map vm1 a"
    using Cons.IH [OF vm1(2,4) Cons.prems(3) _ ops(3)] Cons.prems(6) by auto
  have "same_frame vm vm2" using vm1(3) vm2(3) by (simp add: same_frame_def)
  with vm1 vm2 ops(1) show ?case by (intro exI [of _ vm2]) (auto simp: algebra_simps)
qed

end

lemma vm_map_free: "vm_inv vm \<Longrightarrow> \<forall>w \<in> set (rb_list vm). \<not> overlaps s e w \<Longrightarrow> s \<le> a \<Longrightarrow> a < e \<Longrightarrow> vm_map vm a = None"
  by (rule vm_map_None) (auto simp: overlaps_def covers_def)

section \<open>The operations of a request clear its range\<close>

lemma sm_map_body_clears:
  assumes "va_addr v < e" and "s < va_end v" and "s < e" and "s = map_addr req" and "e = map_addr req + map_range req"
  obtains op ctl where "sm_map_body req False v op_map = ([op], ctl, op_map)" "clears s e v op"
    "ctl = SM_Continue \<and> va_end v < e \<or> ctl = SM_Break \<and> e \<le> va_end v"
proof -
  have "\<exists>op ctl. sm_map_body req False v op_map = ([op], ctl, op_map) \<and> clears s e v op \<and>
      (ctl = SM_Continue \<and> va_end v < e \<or> ctl = SM_Break \<and> e \<le> va_end v)"
    using assms
    by (auto simp: sm_map_body_def Let_def op_unmap_cb_def op_remap_cb_def va_end_def keep_prev_def
        keep_next_def algebra_simps)
  then show ?thesis using that by blast
qed

lemma later_outside:
  assumes "sorted_wrt before (v # vs)" and "e \<le> va_end v"
  shows "takeWhile (\<lambda>v. va_addr v < e) vs = []"
  using assms by (cases vs) (auto simp: before_def)

lemma sm_map_plan_clears:
  assumes "sorted_wrt before vs" and "\<forall>v \<in> set vs. s < va_end v" and "s < e"
    and "s = map_addr req" and "e = map_addr req + map_range req"
  shows "\<exists>ops. sm_map_plan req False (Some req) vs = ops @ [OP_MAP req] \<and>
    list_all2 (clears s e) (takeWhile (\<lambda>v. va_addr v < e) vs) ops"
  using assms(1,2)
proof (induction vs)
  case Nil
  then show ?case by (simp add: op_map_cb_def)
next
  case (Cons v vs)
  show ?case
  proof (cases "va_addr v < e")
    case True
    obtain op ctl where b: "sm_map_body req False v (Some req) = ([op], ctl, Some req)" "clears s e v op"
      and ctl: "ctl = SM_Continue \<and> va_end v < e \<or> ctl = SM_Break \<and> e \<le> va_end v"
      using sm_map_body_clears [OF True _ assms(3-5)] Cons.prems(2) by (metis list.set_intros(1))
    from Cons obtain ops where ops: "sm_map_plan req False (Some req) vs = ops @ [OP_MAP req]"
      "list_all2 (clears s e) (takeWhile (\<lambda>v. va_addr v < e) vs) ops" by auto
    from ctl show ?thesis
    proof
      assume "ctl = SM_Continue \<and> va_end v < e"
      with b ops True assms(5) show ?thesis by (intro exI [of _ "op # ops"]) simp
    next
      assume "ctl = SM_Break \<and> e \<le> va_end v"
      with b True assms(5) later_outside [OF Cons.prems(1)] show ?thesis
        by (intro exI [of _ "[op]"]) (simp add: op_map_cb_def)
    qed
  next
    case False
    with assms(5) show ?thesis by (simp add: op_map_cb_def)
  qed
qed

lemma sm_unmap_plan_clears:
  assumes "\<forall>v \<in> set vs. s < va_end v" and "s < e" and "e = s + n"
  shows "list_all2 (clears s e) (takeWhile (\<lambda>v. va_addr v < e) vs) (sm_unmap_plan s n vs)"
  using assms(1)
proof (induction vs)
  case Nil
  then show ?case by simp
next
  case (Cons v vs)
  have "\<exists>op. sm_unmap_body s n v = [op] \<and> clears s e v op"
    using assms(3) by (auto simp: sm_unmap_body_def Let_def op_unmap_cb_def op_remap_cb_def
        keep_prev_def keep_next_def va_end_def)
  with Cons assms(3) show ?case by auto
qed

lemma from_first_facts:
  assumes core: "vm_core vm" and se: "a < a + n"
  shows "sorted_wrt before (from_first a n vm)" "distinct (from_first a n vm)"
    "\<forall>v \<in> set (from_first a n vm). a < va_end v"
    "set (takeWhile (\<lambda>v. va_addr v < a + n) (from_first a n vm)) = {w \<in> set (rb_list vm). overlaps a (a + n) w}"
proof -
  let ?vs = "from_first a n vm"
  have srt: "sorted_wrt before (rb_list vm)" and dis: "distinct (rb_list vm)"
    and ok: "\<And>v. v \<in> set (rb_list vm) \<Longrightarrow> va_ok v" using core by (auto simp: vm_core_def distinct_map)
  obtain pre where pre: "rb_list vm = pre @ ?vs" and out: "\<And>v. v \<in> set pre \<Longrightarrow> \<not> overlaps a (a + n) v"
    unfolding from_first_def by (metis takeWhile_dropWhile_id set_takeWhileD)
  show s: "sorted_wrt before ?vs" using srt pre by (metis sorted_wrt_append)
  show "distinct ?vs" using dis pre by (metis distinct_append)
  have end_mono: "va_end v \<le> va_end w" if "before v w" "w \<in> set (rb_list vm)" for v w
    using that ok [OF that(2)] by (auto simp: before_def va_ok_def)
  show late: "\<forall>v \<in> set ?vs. a < va_end v"
  proof (cases ?vs)
    case (Cons v vs)
    then have "overlaps a (a + n) v" unfolding from_first_def by (metis (mono_tags) hd_dropWhile list.sel(1) list.simps(3))
    moreover have "\<And>w. w \<in> set vs \<Longrightarrow> va_end v \<le> va_end w" using end_mono s Cons pre by auto
    ultimately show ?thesis using Cons by (auto simp: overlaps_def intro: order_less_le_trans)
  qed simp
  have mono: "va_addr v \<le> va_addr w" if "before v w" "v \<in> set (rb_list vm)" for v w
    using that ok [OF that(2)] by (auto simp: before_def va_ok_def)
  have "takeWhile (\<lambda>v. va_addr v < a + n) ?vs = filter (\<lambda>v. va_addr v < a + n) ?vs"
  proof -
    have "takeWhile (\<lambda>v. va_addr v < a + n) xs = filter (\<lambda>v. va_addr v < a + n) xs"
      if "sorted_wrt before xs" "set xs \<subseteq> set (rb_list vm)" for xs
      using that
    proof (induction xs)
      case (Cons x xs)
      then have "\<forall>w \<in> set xs. va_addr x \<le> va_addr w" using mono by auto
      then have "filter (\<lambda>v. va_addr v < a + n) xs = []" if "\<not> va_addr x < a + n"
        using that by (auto simp: filter_empty_conv dest: order_le_less_trans)
      with Cons show ?case by auto
    qed simp
    then show ?thesis using s pre by (metis set_append sup_ge2)
  qed
  then show "set (takeWhile (\<lambda>v. va_addr v < a + n) ?vs) = {w \<in> set (rb_list vm). overlaps a (a + n) w}"
    using pre out late by (auto simp: overlaps_def)
qed

end
