(* ===== verification/GPUVM_Ops.thy ===== *)
theory GPUVM_Ops
  imports GPUVM_SM
begin

text \<open>
  The clients of the split and merge logic in \<open>drm_gpuvm.c\<close>: the locking callbacks
  (\<open>drm_gpuva_sm_step_lock\<close>, \<open>*_exec_lock\<close>) and the functions that create and free a list of
  operations (\<open>drm_gpuva_sm_step\<close>, \<open>*_ops_create\<close>, \<open>drm_gpuva_ops_free\<close>).

  The kernel's allocator is represented by the outcomes of the next allocations (\<open>k_outcomes\<close>;
  allocations after the end of the list succeed) and by the number of live objects, those of
  \<open>kmalloc\<close> and those of the driver's \<open>op_alloc\<close>. An \<open>ERR_PTR\<close> is \<open>Inl\<close> of the error value.
  The loops get as fuel one more than the number of mappings; a theorem below shows it is enough.
\<close>

section \<open>Allocation\<close>

record kmem =
  k_outcomes :: "bool list"
  k_live :: int
  d_live :: int
  has_op_alloc :: bool
  has_op_free :: bool

definition alloc_outcome :: "kmem \<Rightarrow> bool \<times> kmem" where
  "alloc_outcome m =
     (case k_outcomes m of [] \<Rightarrow> (True, m) | b # bs \<Rightarrow> (b, m\<lparr>k_outcomes := bs\<rparr>))"

definition kmalloc :: "kmem \<Rightarrow> bool \<times> kmem" where
  "kmalloc m = (case alloc_outcome m of (b, m) \<Rightarrow> (b, if b then m\<lparr>k_live := k_live m + 1\<rparr> else m))"

text \<open>\<open>kfree\<close> of a pointer that is null or not.\<close>

definition kfree :: "bool \<Rightarrow> kmem \<Rightarrow> kmem" where
  "kfree nonnull m = (if nonnull then m\<lparr>k_live := k_live m - 1\<rparr> else m)"

definition gpuva_op_alloc :: "kmem \<Rightarrow> bool \<times> kmem" where
  "gpuva_op_alloc m =
     (if has_op_alloc m
      then (case alloc_outcome m of (b, m) \<Rightarrow> (b, if b then m\<lparr>d_live := d_live m + 1\<rparr> else m))
      else kmalloc m)"

definition gpuva_op_free :: "kmem \<Rightarrow> kmem" where
  "gpuva_op_free m = (if has_op_free m then m\<lparr>d_live := d_live m - 1\<rparr> else kfree True m)"

section \<open>Collecting the operations\<close>

record sm_args =
  args_vm :: drm_gpuvm
  args_ops :: "drm_gpuva_op list"
  args_mem :: kmem

text \<open>
  The copies of a remap operation's parts, with the error labels in the order the code has them:
  \<open>err_free_unmap\<close> falls through to \<open>err_free_prev\<close> and this to \<open>err_free_op\<close>. A failure to copy
  \<open>next\<close> jumps to \<open>err_free_prev\<close>.
\<close>

definition copy_remap :: "bool \<Rightarrow> bool \<Rightarrow> kmem \<Rightarrow> bool \<times> kmem" where
  "copy_remap has_prev has_next m =
     (case kmalloc m of
        (False, m) \<Rightarrow> (False, gpuva_op_free m)
      | (True, m) \<Rightarrow>
          case (if has_prev then kmalloc m else (True, m)) of
            (False, m) \<Rightarrow> (False, gpuva_op_free (kfree False (kfree True m)))
          | (True, m) \<Rightarrow>
              case (if has_next then kmalloc m else (True, m)) of
                (False, m) \<Rightarrow> (False, gpuva_op_free (kfree has_prev m))
              | (True, m) \<Rightarrow> (True, m))"

definition drm_gpuva_sm_step :: "sm_args sm_step" where
  "drm_gpuva_sm_step op args =
     (case gpuva_op_alloc (args_mem args) of
        (False, m) \<Rightarrow> (neg_errno ENOMEM, args\<lparr>args_mem := m\<rparr>)
      | (True, m) \<Rightarrow>
          case (case op of OP_REMAP prev nxt _ \<Rightarrow> copy_remap (prev \<noteq> None) (nxt \<noteq> None) m | _ \<Rightarrow> (True, m)) of
            (False, m) \<Rightarrow> (neg_errno ENOMEM, args\<lparr>args_mem := m\<rparr>)
          | (True, m) \<Rightarrow> (0, args\<lparr>args_ops := args_ops args @ [op], args_mem := m\<rparr>))"

definition gpuvm_list_ops :: "sm_args sm_table" where
  "gpuvm_list_ops = (drm_gpuva_sm_step, drm_gpuva_sm_step, drm_gpuva_sm_step)"

definition free_op :: "drm_gpuva_op \<Rightarrow> kmem \<Rightarrow> kmem" where
  "free_op op m =
     gpuva_op_free
       (case op of
          OP_REMAP prev nxt _ \<Rightarrow> kfree True (kfree (nxt \<noteq> None) (kfree (prev \<noteq> None) m))
        | _ \<Rightarrow> m)"

definition drm_gpuva_ops_free :: "drm_gpuva_op list \<Rightarrow> kmem \<Rightarrow> kmem" where
  "drm_gpuva_ops_free ops m = kfree True (fold free_op ops m)"

definition raw_drm_gpuvm_sm_map_ops_create ::
    "drm_gpuvm \<Rightarrow> drm_gpuva_op_map \<Rightarrow> bool \<Rightarrow> kmem \<Rightarrow> ((int + drm_gpuva_op list) \<times> kmem) option" where
  "raw_drm_gpuvm_sm_map_ops_create vm req madvise m =
     (case kmalloc m of
        (False, m) \<Rightarrow> Some (Inl (neg_errno ENOMEM), m)
      | (True, m) \<Rightarrow>
          case raw_drm_gpuvm_sm_map (Suc (length (rb_list vm))) args_vm (sm_call gpuvm_list_ops) req madvise
                 \<lparr>args_vm = vm, args_ops = [], args_mem = m\<rparr> of
            None \<Rightarrow> None
          | Some (ret, args) \<Rightarrow>
              Some (if ret \<noteq> 0
                    then (Inl ret, drm_gpuva_ops_free (args_ops args) (args_mem args))
                    else (Inr (args_ops args), args_mem args)))"

definition drm_gpuvm_sm_map_ops_create ::
    "drm_gpuvm \<Rightarrow> drm_gpuva_op_map \<Rightarrow> kmem \<Rightarrow> ((int + drm_gpuva_op list) \<times> kmem) option" where
  "drm_gpuvm_sm_map_ops_create vm req m = raw_drm_gpuvm_sm_map_ops_create vm req False m"

definition drm_gpuvm_madvise_ops_create ::
    "drm_gpuvm \<Rightarrow> drm_gpuva_op_map \<Rightarrow> kmem \<Rightarrow> ((int + drm_gpuva_op list) \<times> kmem) option" where
  "drm_gpuvm_madvise_ops_create vm req m = raw_drm_gpuvm_sm_map_ops_create vm req True m"

definition drm_gpuvm_sm_unmap_ops_create ::
    "drm_gpuvm \<Rightarrow> u64 \<Rightarrow> u64 \<Rightarrow> kmem \<Rightarrow> ((int + drm_gpuva_op list) \<times> kmem) option" where
  "drm_gpuvm_sm_unmap_ops_create vm req_addr req_range m =
     (case kmalloc m of
        (False, m) \<Rightarrow> Some (Inl (neg_errno ENOMEM), m)
      | (True, m) \<Rightarrow>
          case raw_drm_gpuvm_sm_unmap (Suc (length (rb_list vm))) args_vm (sm_call gpuvm_list_ops)
                 req_addr req_range \<lparr>args_vm = vm, args_ops = [], args_mem = m\<rparr> of
            None \<Rightarrow> None
          | Some (ret, args) \<Rightarrow>
              Some (if ret \<noteq> 0
                    then (Inl ret, drm_gpuva_ops_free (args_ops args) (args_mem args))
                    else (Inr (args_ops args), args_mem args)))"

text \<open>The prefetch loop walks the list without a check of the range; \<open>ops\<close> is the list so far.\<close>

fun prefetch_loop ::
    "nat \<Rightarrow> drm_gpuvm \<Rightarrow> u64 \<Rightarrow> drm_gpuva option \<Rightarrow> drm_gpuva_op list \<Rightarrow> kmem \<Rightarrow>
     ((int + drm_gpuva_op list) \<times> kmem) option" where
  "prefetch_loop 0 vm e va ops m = None"
| "prefetch_loop (Suc fuel) vm e va ops m =
     (case va of
        None \<Rightarrow> Some (Inr ops, m)
      | Some v \<Rightarrow>
          if \<not> va_addr v < e then Some (Inr ops, m)
          else case gpuva_op_alloc m of
            (False, m) \<Rightarrow> Some (Inl (neg_errno ENOMEM), drm_gpuva_ops_free ops m)
          | (True, m) \<Rightarrow> prefetch_loop fuel vm e (drm_gpuva_next vm va) (ops @ [OP_PREFETCH v]) m)"

definition drm_gpuvm_prefetch_ops_create ::
    "drm_gpuvm \<Rightarrow> u64 \<Rightarrow> u64 \<Rightarrow> kmem \<Rightarrow> ((int + drm_gpuva_op list) \<times> kmem) option" where
  "drm_gpuvm_prefetch_ops_create vm addr rng m =
     (case kmalloc m of
        (False, m) \<Rightarrow> Some (Inl (neg_errno ENOMEM), m)
      | (True, m) \<Rightarrow>
          case drm_gpuva_find_first vm addr (addr + rng - addr) of
            ItFault \<Rightarrow> None
          | ItNull \<Rightarrow> prefetch_loop (Suc (length (rb_list vm))) vm (addr + rng) None [] m
          | ItFound v \<Rightarrow> prefetch_loop (Suc (length (rb_list vm))) vm (addr + rng) (Some v) [] m)"

text \<open>The mappings of a \<open>drm_gpuvm_bo\<close> are the elements of its list \<open>vas\<close>; \<open>keep\<close> is zero from
  the allocation.\<close>

fun bo_unmap_loop :: "drm_gpuva list \<Rightarrow> drm_gpuva_op list \<Rightarrow> kmem \<Rightarrow> (int + drm_gpuva_op list) \<times> kmem" where
  "bo_unmap_loop [] ops m = (Inr ops, m)"
| "bo_unmap_loop (v # vs) ops m =
     (case gpuva_op_alloc m of
        (False, m) \<Rightarrow> (Inl (neg_errno ENOMEM), drm_gpuva_ops_free ops m)
      | (True, m) \<Rightarrow> bo_unmap_loop vs (ops @ [OP_UNMAP \<lparr>unmap_va = v, unmap_keep = False\<rparr>]) m)"

definition drm_gpuvm_bo_unmap_ops_create :: "drm_gpuva list \<Rightarrow> kmem \<Rightarrow> (int + drm_gpuva_op list) \<times> kmem" where
  "drm_gpuvm_bo_unmap_ops_create vas m =
     (case kmalloc m of
        (False, m) \<Rightarrow> (Inl (neg_errno ENOMEM), m)
      | (True, m) \<Rightarrow> bo_unmap_loop vas [] m)"

section \<open>Locking the objects of a request\<close>

text \<open>\<open>drm_exec_lock_obj\<close> and \<open>drm_exec_prepare_obj\<close> are arguments: functions of the object and the
  locking context.\<close>

definition drm_gpuva_sm_step_lock :: "(nat \<Rightarrow> 'e \<Rightarrow> int \<times> 'e) \<Rightarrow> 'e sm_step" where
  "drm_gpuva_sm_step_lock lock_obj op exec =
     (case op of
        OP_REMAP _ _ u \<Rightarrow> (case gem_obj (unmap_va u) of Some obj \<Rightarrow> lock_obj obj exec | None \<Rightarrow> (0, exec))
      | OP_UNMAP u \<Rightarrow> (case gem_obj (unmap_va u) of Some obj \<Rightarrow> lock_obj obj exec | None \<Rightarrow> (0, exec))
      | _ \<Rightarrow> (0, exec))"

definition lock_ops :: "(nat \<Rightarrow> 'e \<Rightarrow> int \<times> 'e) \<Rightarrow> 'e sm_table" where
  "lock_ops lock_obj =
     (drm_gpuva_sm_step_lock lock_obj, drm_gpuva_sm_step_lock lock_obj, drm_gpuva_sm_step_lock lock_obj)"

definition drm_gpuvm_sm_map_exec_lock ::
    "(nat \<Rightarrow> 'e \<Rightarrow> int \<times> 'e) \<Rightarrow> (nat \<Rightarrow> nat \<Rightarrow> 'e \<Rightarrow> int \<times> 'e) \<Rightarrow> drm_gpuvm \<Rightarrow> nat \<Rightarrow>
     drm_gpuva_op_map \<Rightarrow> 'e \<Rightarrow> (int \<times> 'e) option" where
  "drm_gpuvm_sm_map_exec_lock lock_obj prepare_obj vm num_fences req exec =
     (case (case map_obj req of Some obj \<Rightarrow> prepare_obj obj num_fences exec | None \<Rightarrow> (0, exec)) of
        (ret, exec) \<Rightarrow>
          if ret \<noteq> 0 then Some (ret, exec)
          else raw_drm_gpuvm_sm_map (Suc (length (rb_list vm))) (\<lambda>_. vm) (sm_call (lock_ops lock_obj)) req False exec)"

definition drm_gpuvm_sm_unmap_exec_lock ::
    "(nat \<Rightarrow> 'e \<Rightarrow> int \<times> 'e) \<Rightarrow> drm_gpuvm \<Rightarrow> u64 \<Rightarrow> u64 \<Rightarrow> 'e \<Rightarrow> (int \<times> 'e) option" where
  "drm_gpuvm_sm_unmap_exec_lock lock_obj vm req_addr req_range exec =
     raw_drm_gpuvm_sm_unmap (Suc (length (rb_list vm))) (\<lambda>_. vm) (sm_call (lock_ops lock_obj)) req_addr req_range exec"

section \<open>Both callback tables leave the address space alone\<close>

lemma sm_call_same [simp]: "sm_call (f, f, f) op s = (case op of OP_PREFETCH _ \<Rightarrow> (0, s) | _ \<Rightarrow> f op s)"
  by (cases op) simp_all

interpretation list_client: sm_client args_vm "sm_call gpuvm_list_ops"
  by unfold_locales
    (auto simp: gpuvm_list_ops_def drm_gpuva_sm_step_def split: drm_gpuva_op.split prod.split bool.split)

interpretation lock_client: sm_client "\<lambda>_. vm" "sm_call (lock_ops lock_obj)" for vm lock_obj
  by unfold_locales simp

section \<open>The lists that are created\<close>

text \<open>A successful run of the list callback has collected the operations it was given.\<close>

fun is_prefetch :: "drm_gpuva_op \<Rightarrow> bool" where
  "is_prefetch (OP_PREFETCH v) = True"
| "is_prefetch _ = False"

lemma sm_step_ok: "sm_call gpuvm_list_ops op args = (0, args') \<Longrightarrow> \<not> is_prefetch op \<Longrightarrow>
    args_ops args' = args_ops args @ [op]"
  by (cases op) (auto simp: gpuvm_list_ops_def drm_gpuva_sm_step_def neg_errno_def
      split: prod.splits bool.splits drm_gpuva_op.splits)

lemma issue_list_ops:
  "sm_issue (sm_call gpuvm_list_ops) ops args = (0, args') \<Longrightarrow> \<forall>op \<in> set ops. \<not> is_prefetch op \<Longrightarrow>
    args_ops args' = args_ops args @ ops"
proof (induction ops arbitrary: args)
  case (Cons op ops)
  obtain ret a where "sm_call gpuvm_list_ops op args = (ret, a)" by (cases "sm_call gpuvm_list_ops op args") auto
  moreover from this have "args_ops a = args_ops args @ [op]" if "ret = 0"
    using sm_step_ok [of op args a] Cons.prems(2) that by simp
  ultimately show ?case using Cons by (auto split: if_splits)
qed simp

lemma sm_map_body_no_prefetch: "sm_map_body req madvise v om = (ops, ctl, om') \<Longrightarrow> op \<in> set ops \<Longrightarrow> \<not> is_prefetch op"
  by (auto simp: sm_map_body_def Let_def op_unmap_cb_def op_remap_cb_def op_map_cb_def split: if_splits)

lemma sm_map_plan_no_prefetch: "op \<in> set (sm_map_plan req madvise om vs) \<Longrightarrow> \<not> is_prefetch op"
proof (induction vs arbitrary: om)
  case Nil
  then show ?case by (auto simp: op_map_cb_def split: option.splits)
next
  case (Cons v vs)
  obtain ops ctl om' where b: "sm_map_body req madvise v om = (ops, ctl, om')"
    by (cases "sm_map_body req madvise v om") auto
  with Cons show ?case using sm_map_body_no_prefetch [OF b]
    by (cases ctl) (auto simp: op_map_cb_def split: if_splits option.splits)
qed

lemma sm_unmap_plan_no_prefetch: "op \<in> set (sm_unmap_plan s n vs) \<Longrightarrow> \<not> is_prefetch op"
proof (induction vs)
  case (Cons v vs)
  then show ?case
    by (auto simp: sm_unmap_body_def Let_def op_unmap_cb_def op_remap_cb_def split: if_splits)
qed simp

text \<open>The functions return, and a list they return is the sequence of operations of the request.\<close>

lemma map_ops_create_result:
  assumes "vm_core vm" and "map_range req \<noteq> 0"
  obtains r m' where "raw_drm_gpuvm_sm_map_ops_create vm req madvise m = Some (r, m')"
    "\<forall>ops. r = Inr ops \<longrightarrow> ops = sm_map_ops vm req madvise \<and> drm_gpuvm_range_valid vm (map_addr req) (map_range req)"
proof -
  obtain b m1 where b: "kmalloc m = (b, m1)" by (cases "kmalloc m") auto
  let ?args = "\<lparr>args_vm = vm, args_ops = [], args_mem = m1\<rparr>"
  obtain ret a where iss: "sm_issue (sm_call gpuvm_list_ops) (sm_map_ops vm req madvise) ?args = (ret, a)"
    by (cases "sm_issue (sm_call gpuvm_list_ops) (sm_map_ops vm req madvise) ?args") auto
  have "args_ops a = sm_map_ops vm req madvise" if "ret = 0"
    using issue_list_ops [of "sm_map_ops vm req madvise" ?args a] iss that sm_map_plan_no_prefetch
    by (simp add: sm_map_ops_def)
  then show ?thesis
    using list_client.sm_map_issues [of ?args req "Suc (length (rb_list vm))" madvise] assms b iss
    by (cases b; cases "drm_gpuvm_range_valid vm (map_addr req) (map_range req)"; cases "ret = 0")
      (auto simp: raw_drm_gpuvm_sm_map_ops_create_def neg_errno_def intro!: that)
qed

lemma unmap_ops_create_result:
  assumes "vm_core vm" and "n \<noteq> 0"
  obtains r m' where "drm_gpuvm_sm_unmap_ops_create vm s n m = Some (r, m')"
    "\<forall>ops. r = Inr ops \<longrightarrow> ops = sm_unmap_ops vm s n \<and> drm_gpuvm_range_valid vm s n"
proof -
  obtain b m1 where b: "kmalloc m = (b, m1)" by (cases "kmalloc m") auto
  let ?args = "\<lparr>args_vm = vm, args_ops = [], args_mem = m1\<rparr>"
  obtain ret a where iss: "sm_issue (sm_call gpuvm_list_ops) (sm_unmap_ops vm s n) ?args = (ret, a)"
    by (cases "sm_issue (sm_call gpuvm_list_ops) (sm_unmap_ops vm s n) ?args") auto
  have "args_ops a = sm_unmap_ops vm s n" if "ret = 0"
    using issue_list_ops [of "sm_unmap_ops vm s n" ?args a] iss that sm_unmap_plan_no_prefetch
    by (simp add: sm_unmap_ops_def)
  then show ?thesis
    using list_client.sm_unmap_issues [of ?args n "Suc (length (rb_list vm))" s] assms b iss
    by (cases b; cases "drm_gpuvm_range_valid vm s n"; cases "ret = 0")
      (auto simp: drm_gpuvm_sm_unmap_ops_create_def neg_errno_def intro!: that)
qed

section \<open>Applying the lists\<close>

lemma exec_ops_append:
  "exec_ops lib p (xs @ ys) vm =
     (case exec_ops lib p xs vm of None \<Rightarrow> None | Some vm' \<Rightarrow> exec_ops lib (p + 2 * length xs) ys vm')"
  by (induction xs arbitrary: p vm) (auto simp: algebra_simps split: option.split)

context gpuva_lib
begin

lemma sm_unmap_ops_exec:
  assumes inv: "vm_inv vm" and below: "ptrs_below p vm" and nz: "n \<noteq> 0"
    and valid: "drm_gpuvm_range_valid vm s n"
  shows "\<exists>vm'. exec_ops lib p (sm_unmap_ops vm s n) vm = Some vm' \<and> vm_inv vm' \<and>
    vm_map vm' = map_update s n (\<lambda>_. None) (vm_map vm)"
proof -
  let ?vs = "from_first s n vm"
  have se: "s < s + n" using valid nz by (rule range_valid_less)
  have core: "vm_core vm" using inv by (simp add: vm_inv_def)
  note F = from_first_facts [OF core se]
  have ops: "list_all2 (clears s (s + n)) (takeWhile (\<lambda>v. va_addr v < s + n) ?vs) (sm_unmap_ops vm s n)"
    unfolding sm_unmap_ops_def by (rule sm_unmap_plan_clears [OF F(3) se refl])
  obtain vm' where "exec_ops lib p (sm_unmap_ops vm s n) vm = Some vm'" "vm_inv vm'"
    "\<forall>w \<in> set (rb_list vm'). \<not> overlaps s (s + n) w"
    "\<forall>a. \<not> (s \<le> a \<and> a < s + n) \<longrightarrow> vm_map vm' a = vm_map vm a"
    using exec_clears_ok [OF inv below se _ ops distinct_takeWhile [OF F(2)] F(4)] valid by auto
  then show ?thesis by (intro exI [of _ vm']) (auto simp: map_update_def vm_map_free)
qed

lemma sm_map_ops_exec:
  assumes inv: "vm_inv vm" and below: "ptrs_below p vm" and nz: "map_range req \<noteq> 0"
    and valid: "drm_gpuvm_range_valid vm (map_addr req) (map_range req)"
  shows "\<exists>vm'. exec_ops lib p (sm_map_ops vm req False) vm = Some vm' \<and> vm_inv vm' \<and>
    vm_map vm' = map_update (map_addr req) (map_range req)
      (\<lambda>a. Some (map_obj req, map_offset req + (a - map_addr req))) (vm_map vm)"
proof -
  let ?s = "map_addr req" and ?e = "map_addr req + map_range req"
  let ?vs = "from_first ?s (map_range req) vm"
  have se: "?s < ?e" using valid nz by (rule range_valid_less)
  have core: "vm_core vm" using inv by (simp add: vm_inv_def)
  note F = from_first_facts [OF core se]
  obtain ops where ops: "sm_map_ops vm req False = ops @ [OP_MAP req]"
    "list_all2 (clears ?s ?e) (takeWhile (\<lambda>v. va_addr v < ?e) ?vs) ops"
    using sm_map_plan_clears [OF F(1,3) se refl refl] by (auto simp: sm_map_ops_def)
  obtain vm1 where vm1: "exec_ops lib p ops vm = Some vm1" "vm_inv vm1" "same_frame vm vm1"
    "ptrs_below (p + 2 * length ops) vm1" "\<forall>w \<in> set (rb_list vm1). \<not> overlaps ?s ?e w"
    "\<forall>a. \<not> (?s \<le> a \<and> a < ?e) \<longrightarrow> vm_map vm1 a = vm_map vm a"
    using exec_clears_ok [OF inv below se _ ops(2) distinct_takeWhile [OF F(2)] F(4)] valid by auto
  have valid1: "drm_gpuvm_range_valid vm1 ?s (map_range req)"
    using valid range_valid_frame [OF vm1(3)] by simp
  have free1: "\<not> overlaps ?s ?e w" if "w \<in> set (rb_list vm1)" for w using vm1(5) that by blast
  obtain vm2 v where vm2: "drm_gpuva_map lib vm1 (new_va (p + 2 * length ops)) req = Some vm2" "vm_inv vm2"
    "set (rb_list vm2) = insert v (set (rb_list vm1))"
    "va_addr v = ?s" "va_range v = map_range req" "gem_obj v = map_obj req" "gem_offset v = map_offset req"
    using gpuva_map_ok [OF vm1(2,4) refl valid1 nz free1] by blast
  have "vm_map vm2 a = map_update ?s (map_range req)
      (\<lambda>a. Some (map_obj req, map_offset req + (a - ?s))) (vm_map vm) a" for a
  proof (cases "?s \<le> a \<and> a < ?e")
    case True
    then have "covers v a" using vm2 by (simp add: covers_def va_end_def)
    then show ?thesis using True vm_map_Some [OF vm2(2), of v a] vm2
      by (simp add: map_update_def va_value_def)
  next
    case False
    then have "\<not> covers v a" using vm2 by (auto simp: covers_def va_end_def)
    then have "vm_map vm2 a = vm_map vm1 a" using vm2 vm1 by (intro vm_map_cong) auto
    then show ?thesis using False vm1(6) by (auto simp: map_update_def)
  qed
  with vm1 vm2 ops(1) show ?thesis by (intro exI [of _ vm2]) (auto simp: exec_ops_append)
qed

end

section \<open>Properties of the created lists\<close>

text \<open>
  C1. Correctness of the split and merge logic for a map request: a list that
  \<open>drm_gpuvm_sm_map_ops_create\<close> returns, applied in order with the helpers \<open>drm_gpuva_map\<close>,
  \<open>drm_gpuva_remap\<close> and \<open>drm_gpuva_unmap\<close>, keeps the invariant and changes the address map exactly on
  the requested range, where every address is mapped to the requested object at its offset.
\<close>

theorem sm_map_ops_create_correct:
  assumes "rb_library GPUVA_LAST lib" and "vm_inv vm" and "ptrs_below p vm" and "map_range req \<noteq> 0"
    and "drm_gpuvm_sm_map_ops_create vm req m = Some (Inr ops, m')"
  shows "\<exists>vm'. exec_ops lib p ops vm = Some vm' \<and> vm_inv vm' \<and>
    vm_map vm' = map_update (map_addr req) (map_range req)
      (\<lambda>a. Some (map_obj req, map_offset req + (a - map_addr req))) (vm_map vm)"
proof -
  have "vm_core vm" using assms(2) by (simp add: vm_inv_def)
  then have "ops = sm_map_ops vm req False" "drm_gpuvm_range_valid vm (map_addr req) (map_range req)"
    using map_ops_create_result [of vm req False m] assms(4,5)
    unfolding drm_gpuvm_sm_map_ops_create_def by (metis (no_types, lifting) Pair_inject option.inject)+
  then show ?thesis
    using gpuva_lib.sm_map_ops_exec [OF gpuva_lib.intro [OF assms(1)] assms(2,3,4)] by simp
qed

text \<open>
  C9. Correctness of the split logic for an unmap request: applying the list unmaps exactly the
  requested range and keeps every other address mapped as it was.
\<close>

theorem sm_unmap_ops_create_correct:
  assumes "rb_library GPUVA_LAST lib" and "vm_inv vm" and "ptrs_below p vm" and "n \<noteq> 0"
    and "drm_gpuvm_sm_unmap_ops_create vm s n m = Some (Inr ops, m')"
  shows "\<exists>vm'. exec_ops lib p ops vm = Some vm' \<and> vm_inv vm' \<and>
    vm_map vm' = map_update s n (\<lambda>_. None) (vm_map vm)"
proof -
  have "vm_core vm" using assms(2) by (simp add: vm_inv_def)
  then have "ops = sm_unmap_ops vm s n" "drm_gpuvm_range_valid vm s n"
    using unmap_ops_create_result [of vm n s m] assms(4,5) by (metis (no_types, lifting) Pair_inject option.inject)+
  then show ?thesis
    using gpuva_lib.sm_unmap_ops_exec [OF gpuva_lib.intro [OF assms(1)] assms(2,3,4)] by simp
qed

text \<open>The requests of the witnesses: one that splits the first example mapping and covers the second,
  and one that cuts a hole into the first.\<close>

definition ex_req :: drm_gpuva_op_map where
  "ex_req = \<lparr>map_addr = 0x3000, map_range = 0x4000, map_obj = Some 9, map_offset = 0\<rparr>"

definition ex_mem :: kmem where
  "ex_mem = \<lparr>k_outcomes = [], k_live = 0, d_live = 0, has_op_alloc = False, has_op_free = False\<rparr>"

lemma ex_ptrs: "ptrs_below 3 ex_vm"
  by (simp add: ptrs_below_def ex_defs)

lemma ex_map_created: "\<exists>ops m'. drm_gpuvm_sm_map_ops_create ex_vm ex_req ex_mem = Some (Inr ops, m')"
proof -
  have "case drm_gpuvm_sm_map_ops_create ex_vm ex_req ex_mem of Some (Inr ops, m') \<Rightarrow> True | _ \<Rightarrow> False"
    by code_simp
  then show ?thesis by (auto split: option.splits sum.splits)
qed

lemma ex_unmap_created: "\<exists>ops m'. drm_gpuvm_sm_unmap_ops_create ex_vm 0x2000 0x1000 ex_mem = Some (Inr ops, m')"
proof -
  have "case drm_gpuvm_sm_unmap_ops_create ex_vm 0x2000 0x1000 ex_mem of Some (Inr ops, m') \<Rightarrow> True | _ \<Rightarrow> False"
    by code_simp
  then show ?thesis by (auto split: option.splits sum.splits)
qed

lemma ex_vm_maps: "vm_map ex_vm 0x2010 = Some (Some 7, 0x1010)" "vm_map ex_vm 0x3010 = Some (Some 7, 0x2010)"
  by (simp_all add: ex_defs vm_map_def covers_def va_end_def)

theorem sm_map_ops_create_correct_witness:
  "\<exists>ops m' vm'. drm_gpuvm_sm_map_ops_create ex_vm ex_req ex_mem = Some (Inr ops, m') \<and>
    exec_ops (plain_lib GPUVA_LAST) 3 ops ex_vm = Some vm' \<and> vm_map vm' 0x3010 = Some (Some 9, 0x10) \<and>
    vm_map vm' 0x2010 = Some (Some 7, 0x1010)"
proof -
  obtain ops m' where c: "drm_gpuvm_sm_map_ops_create ex_vm ex_req ex_mem = Some (Inr ops, m')"
    using ex_map_created by blast
  have "map_range ex_req \<noteq> 0" by (simp add: ex_req_def)
  from sm_map_ops_create_correct [OF plain_lib_laws ex_vm_inv ex_ptrs this c] c ex_vm_maps show ?thesis
    by (auto simp: map_update_def ex_req_def)
qed

theorem sm_unmap_ops_create_correct_witness:
  "\<exists>ops m' vm'. drm_gpuvm_sm_unmap_ops_create ex_vm 0x2000 0x1000 ex_mem = Some (Inr ops, m') \<and>
    exec_ops (plain_lib GPUVA_LAST) 3 ops ex_vm = Some vm' \<and> vm_map vm' 0x2010 = None \<and>
    vm_map vm' 0x3010 = Some (Some 7, 0x2010)"
proof -
  obtain ops m' where c: "drm_gpuvm_sm_unmap_ops_create ex_vm 0x2000 0x1000 ex_mem = Some (Inr ops, m')"
    using ex_unmap_created by blast
  from sm_unmap_ops_create_correct [OF plain_lib_laws ex_vm_inv ex_ptrs _ c] c ex_vm_maps show ?thesis
    by (auto simp: map_update_def)
qed

text \<open>
  The documented bounds on the operations. At most one overlapping mapping starts before the
  request, and at most one ends after it.
\<close>

fun is_remap :: "drm_gpuva_op \<Rightarrow> bool" where
  "is_remap (OP_REMAP p n u) = True"
| "is_remap _ = False"

fun is_map :: "drm_gpuva_op \<Rightarrow> bool" where
  "is_map (OP_MAP m) = True"
| "is_map _ = False"

fun is_unmap :: "drm_gpuva_op \<Rightarrow> bool" where
  "is_unmap (OP_UNMAP u) = True"
| "is_unmap _ = False"

lemma length_filter_unique:
  assumes "distinct xs" and "\<And>x y. x \<in> set xs \<Longrightarrow> y \<in> set xs \<Longrightarrow> P x \<Longrightarrow> P y \<Longrightarrow> x = y"
  shows "length (filter P xs) \<le> 1"
proof (cases "filter P xs")
  case (Cons a as)
  have "set (a # as) = {x \<in> set xs. P x}" unfolding Cons [symmetric] by simp
  then have "b \<in> set as \<Longrightarrow> b = a" for b using assms(2) by (metis (mono_tags) list.set_intros mem_Collect_eq)
  moreover have "distinct (a # as)" using assms(1) Cons by (metis distinct_filter)
  ultimately have "as = []" by (cases as) auto
  then show ?thesis using Cons by simp
qed simp

lemma clears_remap_iff: "clears s e v op \<Longrightarrow> is_remap op \<longleftrightarrow> va_addr v < s \<or> e < va_end v"
  by (cases op) (auto simp: keep_prev_def keep_next_def split: if_splits)

lemma clears_not_map: "clears s e v op \<Longrightarrow> \<not> is_map op"
  by (cases op) auto

lemma clears_remap_bound:
  assumes inv: "vm_inv vm" and c: "list_all2 (clears s e) vs ops" and dis: "distinct vs"
    and vs: "set vs = {w \<in> set (rb_list vm). overlaps s e w}"
  shows "length (filter is_remap ops) \<le> 2" and "\<forall>op \<in> set ops. \<not> is_map op"
proof -
  let ?P = "\<lambda>v. va_addr v < s" and ?N = "\<lambda>v. e < va_end v"
  have "length (filter is_remap ops) = length (filter (\<lambda>v. ?P v \<or> ?N v) vs)"
    using c by (induction rule: list_all2_induct) (auto dest: clears_remap_iff)
  also have "\<dots> \<le> length (filter ?P vs) + length (filter ?N vs)"
    by (induction vs) auto
  also have "length (filter ?P vs) \<le> 1"
  proof (rule length_filter_unique [OF dis])
    fix x y assume "x \<in> set vs" "y \<in> set vs" "?P x" "?P y"
    then have "covers x s" "covers y s" "x \<in> set (rb_list vm)" "y \<in> set (rb_list vm)"
      using vs by (auto simp: covers_def overlaps_def)
    then show "x = y" using covers_unique [OF inv] by blast
  qed
  also have "length (filter ?N vs) \<le> 1"
  proof (rule length_filter_unique [OF dis])
    fix x y assume "x \<in> set vs" "y \<in> set vs" "?N x" "?N y"
    then have "covers x e" "covers y e" "x \<in> set (rb_list vm)" "y \<in> set (rb_list vm)"
      using vs by (auto simp: covers_def overlaps_def)
    then show "x = y" using covers_unique [OF inv] by blast
  qed
  finally show "length (filter is_remap ops) \<le> 2" by simp
  show "\<forall>op \<in> set ops. \<not> is_map op"
    using c by (induction rule: list_all2_induct) (auto dest: clears_not_map)
qed

text \<open>
  The shape the documentation promises: the operations of a map request are unmaps and at most
  two remaps, followed by the one requested map operation.
\<close>

theorem sm_map_ops_shape:
  assumes inv: "vm_inv vm" and nz: "map_range req \<noteq> 0"
    and c: "drm_gpuvm_sm_map_ops_create vm req m = Some (Inr ops, m')"
  shows "\<exists>pre. ops = pre @ [OP_MAP req] \<and> length (filter is_remap pre) \<le> 2 \<and> (\<forall>op \<in> set pre. \<not> is_map op)"
proof -
  let ?s = "map_addr req" and ?e = "map_addr req + map_range req"
  have core: "vm_core vm" using inv by (simp add: vm_inv_def)
  then have ops: "ops = sm_map_ops vm req False" and valid: "drm_gpuvm_range_valid vm ?s (map_range req)"
    using map_ops_create_result [of vm req False m] nz c
    unfolding drm_gpuvm_sm_map_ops_create_def by (metis (no_types, lifting) Pair_inject option.inject)+
  have se: "?s < ?e" using valid nz by (rule range_valid_less)
  note F = from_first_facts [OF core se]
  obtain pre where pre: "ops = pre @ [OP_MAP req]"
    "list_all2 (clears ?s ?e) (takeWhile (\<lambda>v. va_addr v < ?e) (from_first ?s (map_range req) vm)) pre"
    using sm_map_plan_clears [OF F(1,3) se refl refl] ops by (auto simp: sm_map_ops_def)
  from clears_remap_bound [OF inv pre(2) distinct_takeWhile [OF F(2)] F(4)] pre(1) show ?thesis by blast
qed

theorem sm_map_ops_shape_witness:
  "\<exists>pre m'. drm_gpuvm_sm_map_ops_create ex_vm ex_req ex_mem = Some (Inr (pre @ [OP_MAP ex_req]), m') \<and>
    length (filter is_remap pre) \<le> 2"
proof -
  obtain ops m' where c: "drm_gpuvm_sm_map_ops_create ex_vm ex_req ex_mem = Some (Inr ops, m')"
    using ex_map_created by blast
  have "map_range ex_req \<noteq> 0" by (simp add: ex_req_def)
  from sm_map_ops_shape [OF ex_vm_inv this c] c show ?thesis by blast
qed

section \<open>Memory\<close>

text \<open>The number of objects an operation in a list owns, of \<open>kmalloc\<close> and of the driver.\<close>

definition op_parts :: "drm_gpuva_op \<Rightarrow> int" where
  "op_parts op = (case op of
     OP_REMAP p n _ \<Rightarrow> 1 + of_bool (p \<noteq> None) + of_bool (n \<noteq> None) | _ \<Rightarrow> 0)"

definition same_alloc :: "kmem \<Rightarrow> kmem \<Rightarrow> bool" where
  "same_alloc m m' \<longleftrightarrow> has_op_alloc m' = has_op_alloc m \<and> has_op_free m' = has_op_free m"

definition mem_owns :: "kmem \<Rightarrow> int \<Rightarrow> drm_gpuva_op list \<Rightarrow> kmem \<Rightarrow> bool" where
  "mem_owns m k ops m' \<longleftrightarrow> same_alloc m m' \<and>
     k_live m' = k_live m + k + (\<Sum>op \<leftarrow> ops. op_parts op + of_bool (\<not> has_op_alloc m)) \<and>
     d_live m' = d_live m + (\<Sum>op \<leftarrow> ops. of_bool (has_op_alloc m))"

lemmas mem_defs = kmalloc_def alloc_outcome_def kfree_def gpuva_op_alloc_def gpuva_op_free_def same_alloc_def

lemma ops_free_owns:
  assumes bal: "has_op_alloc m = has_op_free m" and "mem_owns m k ops m'"
  shows "k_live (drm_gpuva_ops_free ops m') = k_live m + k - 1 \<and> d_live (drm_gpuva_ops_free ops m') = d_live m"
proof -
  have "mem_owns m k [] (fold free_op ops m')" using assms(2)
  proof (induction ops arbitrary: m')
    case (Cons op ops)
    have "mem_owns m k ops (free_op op m')"
      using Cons.prems bal by (cases op) (auto simp: mem_owns_def free_op_def mem_defs op_parts_def)
    then show ?case using Cons.IH by simp
  qed simp
  then show ?thesis by (simp add: mem_owns_def drm_gpuva_ops_free_def kfree_def)
qed

lemma sm_step_owns:
  assumes bal: "has_op_alloc m = has_op_free m" and own: "mem_owns m k (args_ops args) (args_mem args)"
    and step: "sm_call gpuvm_list_ops op args = (ret, args')"
  shows "\<exists>leak \<in> {0, 1}. mem_owns m (k + leak) (args_ops args') (args_mem args') \<and> (ret = 0 \<longrightarrow> leak = 0)"
  using own step bal
  by (cases op) (auto simp: gpuvm_list_ops_def drm_gpuva_sm_step_def copy_remap_def mem_defs mem_owns_def
      op_parts_def neg_errno_def split: if_splits list.splits bool.splits option.splits)

lemma issue_owns:
  assumes "has_op_alloc m = has_op_free m" and "mem_owns m k (args_ops args) (args_mem args)"
    and "sm_issue (sm_call gpuvm_list_ops) ops args = (ret, args')"
  shows "\<exists>leak \<in> {0, 1}. mem_owns m (k + leak) (args_ops args') (args_mem args') \<and> (ret = 0 \<longrightarrow> leak = 0)"
  using assms(2,3)
proof (induction ops arbitrary: args)
  case (Cons op ops)
  obtain r a where step: "sm_call gpuvm_list_ops op args = (r, a)" by (cases "sm_call gpuvm_list_ops op args") auto
  from sm_step_owns [OF assms(1) Cons.prems(1) step] Cons step show ?case
    by (cases "r = 0") auto
qed simp

text \<open>
  Memory of the operation lists: freeing a list that was created gives back every object, and a
  failed creation leaves at most one object behind. (The driver's \<open>op_alloc\<close> and \<open>op_free\<close> are
  assumed to come together.)
\<close>

theorem map_ops_create_memory:
  assumes bal: "has_op_alloc m = has_op_free m" and inv: "vm_inv vm" and nz: "map_range req \<noteq> 0"
    and c: "raw_drm_gpuvm_sm_map_ops_create vm req madvise m = Some (r, m')"
  shows "case r of
      Inr ops \<Rightarrow> k_live (drm_gpuva_ops_free ops m') = k_live m \<and> d_live (drm_gpuva_ops_free ops m') = d_live m
    | Inl e \<Rightarrow> k_live m' \<in> {k_live m, k_live m + 1} \<and> d_live m' = d_live m"
proof -
  obtain b m1 where b: "kmalloc m = (b, m1)" by (cases "kmalloc m") auto
  have own: "mem_owns m (if b then 1 else 0) [] m1"
    using b by (auto simp: mem_owns_def mem_defs split: list.splits)
  let ?args = "\<lparr>args_vm = vm, args_ops = [], args_mem = m1\<rparr>"
  show ?thesis
  proof (cases "b \<and> drm_gpuvm_range_valid vm (map_addr req) (map_range req)")
    case True
    obtain ret a where iss: "sm_issue (sm_call gpuvm_list_ops) (sm_map_ops vm req madvise) ?args = (ret, a)"
      by (cases "sm_issue (sm_call gpuvm_list_ops) (sm_map_ops vm req madvise) ?args") auto
    have own1: "mem_owns m 1 (args_ops ?args) (args_mem ?args)" using own True by simp
    obtain leak where leak: "leak \<in> {0, 1}" "mem_owns m (1 + leak) (args_ops a) (args_mem a)" "ret = 0 \<longrightarrow> leak = 0"
      using issue_owns [OF bal own1 iss] by blast
    from ops_free_owns [OF bal leak(2)] leak(1,3) True b c iss inv nz show ?thesis
      using list_client.sm_map_issues [of ?args req "Suc (length (rb_list vm))" madvise]
      by (cases "ret = 0") (auto simp: raw_drm_gpuvm_sm_map_ops_create_def vm_inv_def)
  next
    case False
    then show ?thesis
      using b c inv nz own ops_free_owns [OF bal, of 1 "[]" m1]
        list_client.sm_map_issues [of ?args req "Suc (length (rb_list vm))" madvise]
      by (cases b) (auto simp: raw_drm_gpuvm_sm_map_ops_create_def vm_inv_def neg_errno_def mem_owns_def)
  qed
qed

theorem map_ops_create_memory_witness:
  "\<exists>ops m'. raw_drm_gpuvm_sm_map_ops_create ex_vm ex_req False ex_mem = Some (Inr ops, m') \<and>
    k_live (drm_gpuva_ops_free ops m') = 0"
proof -
  obtain ops m' where c: "raw_drm_gpuvm_sm_map_ops_create ex_vm ex_req False ex_mem = Some (Inr ops, m')"
    using ex_map_created unfolding drm_gpuvm_sm_map_ops_create_def by blast
  have "has_op_alloc ex_mem = has_op_free ex_mem" "map_range ex_req \<noteq> 0" "k_live ex_mem = 0"
    by (simp_all add: ex_mem_def ex_req_def)
  with map_ops_create_memory [OF _ ex_vm_inv _ c] c show ?thesis by auto
qed

text \<open>
  C36. The object that can be left behind: when the copy of a remap operation's \<open>next\<close> part fails, the
  copy of its \<open>unmap\<close> part is not freed, since the jump to \<open>err_free_prev\<close> skips it.
\<close>

theorem sm_step_leaks_unmap:
  assumes "k_outcomes m = [True, True] @ replicate (of_bool (p \<noteq> None)) True @ [False]"
    and "has_op_alloc m = has_op_free m"
  shows "\<exists>args'. drm_gpuva_sm_step (OP_REMAP p (Some n) u) \<lparr>args_vm = vm, args_ops = ops, args_mem = m\<rparr> =
      (neg_errno ENOMEM, args') \<and> args_ops args' = ops \<and> k_live (args_mem args') = k_live m + 1"
  using assms by (cases p) (auto simp: drm_gpuva_sm_step_def copy_remap_def mem_defs)

theorem sm_step_leaks_unmap_witness:
  "\<exists>args'. drm_gpuva_sm_step (OP_REMAP None (Some ex_req) \<lparr>unmap_va = ex_a, unmap_keep = False\<rparr>)
      \<lparr>args_vm = ex_vm, args_ops = [], args_mem = ex_mem\<lparr>k_outcomes := [True, True, False]\<rparr>\<rparr> =
      (neg_errno ENOMEM, args') \<and> k_live (args_mem args') = 1"
  using sm_step_leaks_unmap [of "ex_mem\<lparr>k_outcomes := [True, True, False]\<rparr>" None ex_req
      "\<lparr>unmap_va = ex_a, unmap_keep = False\<rparr>" ex_vm "[]"] by (auto simp: ex_mem_def)

lemma alloc_succeeds [simp]: "k_outcomes m = [] \<Longrightarrow> kmalloc m = (True, m\<lparr>k_live := k_live m + 1\<rparr>)"
  by (simp add: mem_defs)

lemma sm_step_succeeds:
  "k_outcomes (args_mem args) = [] \<Longrightarrow>
    fst (sm_call gpuvm_list_ops op args) = 0 \<and> k_outcomes (args_mem (snd (sm_call gpuvm_list_ops op args))) = []"
  by (cases op) (auto simp: gpuvm_list_ops_def drm_gpuva_sm_step_def copy_remap_def mem_defs)

lemma issue_succeeds:
  "k_outcomes (args_mem args) = [] \<Longrightarrow> fst (sm_issue (sm_call gpuvm_list_ops) ops args) = 0"
proof (induction ops arbitrary: args)
  case (Cons op ops)
  then show ?case using sm_step_succeeds [of args op] by (cases "sm_call gpuvm_list_ops op args") auto
qed simp

text \<open>
  C34. Outcomes of a request: the creation of the list always returns; without allocation failures it
  returns the operations if the range is valid and \<open>-EINVAL\<close> otherwise.
\<close>

theorem map_ops_create_outcome:
  assumes inv: "vm_inv vm" and nz: "map_range req \<noteq> 0"
  shows "\<exists>r m'. raw_drm_gpuvm_sm_map_ops_create vm req madvise m = Some (r, m') \<and>
    (k_outcomes m = [] \<longrightarrow>
       r = (if drm_gpuvm_range_valid vm (map_addr req) (map_range req)
            then Inr (sm_map_ops vm req madvise) else Inl (neg_errno EINVAL)))"
proof -
  have core: "vm_core vm" using inv by (simp add: vm_inv_def)
  obtain r m' where r: "raw_drm_gpuvm_sm_map_ops_create vm req madvise m = Some (r, m')"
    and ops: "\<forall>ops. r = Inr ops \<longrightarrow> ops = sm_map_ops vm req madvise \<and> drm_gpuvm_range_valid vm (map_addr req) (map_range req)"
    using map_ops_create_result [OF core nz] by blast
  let ?args = "\<lparr>args_vm = vm, args_ops = [], args_mem = m\<lparr>k_live := k_live m + 1\<rparr>\<rparr>"
  have "r = (if drm_gpuvm_range_valid vm (map_addr req) (map_range req)
             then Inr (sm_map_ops vm req madvise) else Inl (neg_errno EINVAL))" if "k_outcomes m = []"
    using that r ops issue_succeeds [of ?args "sm_map_ops vm req madvise"] core nz
      list_client.sm_map_issues [of ?args req "Suc (length (rb_list vm))" madvise]
    by (auto simp: raw_drm_gpuvm_sm_map_ops_create_def neg_errno_def split: if_splits prod.splits)
  with r show ?thesis by blast
qed

theorem map_ops_create_outcome_witness:
  "\<exists>m'. raw_drm_gpuvm_sm_map_ops_create ex_vm (ex_req\<lparr>map_range := 0xC001\<rparr>) False ex_mem =
    Some (Inl (neg_errno EINVAL), m')"
proof -
  have "\<not> drm_gpuvm_range_valid ex_vm 0x3000 0xC001" 
    by (simp add: ex_defs drm_gpuvm_range_valid_def drm_gpuvm_check_overflow_def drm_gpuvm_in_mm_range_def
        drm_gpuvm_in_kernel_node_def)
  then show ?thesis using map_ops_create_outcome [OF ex_vm_inv, of "ex_req\<lparr>map_range := 0xC001\<rparr>" False ex_mem]
    by (simp add: ex_req_def ex_mem_def)
qed

fun madvise_op :: "drm_gpuva_op \<Rightarrow> bool" where
  "madvise_op (OP_UNMAP u) = False"
| "madvise_op (OP_REMAP p n u) = (gem_obj (unmap_va u) = None)"
| "madvise_op _ = True"

lemma madvise_body: "sm_map_body req True v om = (ops, ctl, om') \<Longrightarrow> op \<in> set ops \<Longrightarrow> madvise_op op"
  by (auto simp: sm_map_body_def Let_def op_unmap_cb_def op_remap_cb_def op_map_cb_def split: if_splits)

lemma madvise_plan: "op \<in> set (sm_map_plan req True om vs) \<Longrightarrow> madvise_op op"
proof (induction vs arbitrary: om)
  case Nil
  then show ?case by (auto simp: op_map_cb_def split: option.splits)
next
  case (Cons v vs)
  obtain ops ctl om' where b: "sm_map_body req True v om = (ops, ctl, om')"
    by (cases "sm_map_body req True v om") auto
  with Cons show ?case using madvise_body [OF b]
    by (cases ctl) (auto simp: op_map_cb_def split: if_splits option.splits)
qed

text \<open>
  Splitting for \<open>madvise\<close> never unmaps: the list holds no unmap operation, and it remaps only
  mappings that have no buffer object.
\<close>

theorem madvise_ops_no_unmap:
  assumes "vm_inv vm" and "map_range req \<noteq> 0" and c: "drm_gpuvm_madvise_ops_create vm req m = Some (Inr ops, m')"
  shows "\<forall>op \<in> set ops. madvise_op op"
proof -
  have core: "vm_core vm" using assms(1) by (simp add: vm_inv_def)
  have "ops = sm_map_ops vm req True"
    using map_ops_create_result [OF core assms(2), of True m] c unfolding drm_gpuvm_madvise_ops_create_def
    by (metis (no_types, lifting) Pair_inject option.inject)
  then show ?thesis using madvise_plan by (auto simp: sm_map_ops_def)
qed

theorem madvise_ops_no_unmap_witness:
  "\<exists>ops m'. drm_gpuvm_madvise_ops_create ex_vm ex_req ex_mem = Some (Inr ops, m') \<and> (\<forall>op \<in> set ops. madvise_op op)"
proof -
  have "case drm_gpuvm_madvise_ops_create ex_vm ex_req ex_mem of Some (Inr ops, m') \<Rightarrow> True | _ \<Rightarrow> False"
    by code_simp
  then obtain ops m' where c: "drm_gpuvm_madvise_ops_create ex_vm ex_req ex_mem = Some (Inr ops, m')"
    by (auto split: option.splits sum.splits)
  have "map_range ex_req \<noteq> 0" by (simp add: ex_req_def)
  from madvise_ops_no_unmap [OF ex_vm_inv this c] c show ?thesis by blast
qed

section \<open>Locking\<close>

text \<open>Locking functions that always succeed and record the objects.\<close>

definition log_lock :: "nat \<Rightarrow> nat list \<Rightarrow> int \<times> nat list" where
  "log_lock obj l = (0, l @ [obj])"

definition log_prepare :: "nat \<Rightarrow> nat \<Rightarrow> nat list \<Rightarrow> int \<times> nat list" where
  "log_prepare obj n l = (0, l @ [obj])"

lemma issue_lock_clears:
  assumes "list_all2 (clears s e) vs ops"
  shows "sm_issue (sm_call (lock_ops log_lock)) (ops @ rest) l =
    sm_issue (sm_call (lock_ops log_lock)) rest (l @ List.map_filter gem_obj vs)"
  using assms
proof (induction arbitrary: l rule: list_all2_induct)
  case (Cons v vs op ops)
  then show ?case
    by (cases op) (auto simp: lock_ops_def drm_gpuva_sm_step_lock_def log_lock_def map_filter_simps split: option.split)
qed (simp add: map_filter_simps)

text \<open>
  \<open>drm_gpuvm_sm_map_exec_lock\<close> locks exactly the requested object and the objects that are mapped
  somewhere in the requested range, which are those a following \<open>drm_gpuvm_sm_map\<close> touches.
\<close>

theorem sm_map_exec_lock_objects:
  assumes inv: "vm_inv vm" and nz: "map_range req \<noteq> 0"
    and valid: "drm_gpuvm_range_valid vm (map_addr req) (map_range req)"
  shows "\<exists>l. drm_gpuvm_sm_map_exec_lock log_lock log_prepare vm num_fences req [] = Some (0, l) \<and>
    set l = set_option (map_obj req) \<union>
      {obj. \<exists>a off. map_addr req \<le> a \<and> a < map_addr req + map_range req \<and> vm_map vm a = Some (Some obj, off)}"
proof -
  let ?s = "map_addr req" and ?e = "map_addr req + map_range req"
  let ?vs = "takeWhile (\<lambda>v. va_addr v < ?e) (from_first ?s (map_range req) vm)"
  define l0 where "l0 = (case map_obj req of None \<Rightarrow> [] | Some obj \<Rightarrow> [obj])"
  have core: "vm_core vm" using inv by (simp add: vm_inv_def)
  have se: "?s < ?e" using valid nz by (rule range_valid_less)
  note F = from_first_facts [OF core se]
  obtain ops where ops: "sm_map_ops vm req False = ops @ [OP_MAP req]" "list_all2 (clears ?s ?e) ?vs ops"
    using sm_map_plan_clears [OF F(1,3) se refl refl] by (auto simp: sm_map_ops_def)
  have run: "drm_gpuvm_sm_map_exec_lock log_lock log_prepare vm num_fences req [] =
      Some (0, l0 @ List.map_filter gem_obj ?vs)"
    using lock_client.sm_map_issues [of vm req "Suc (length (rb_list vm))" log_lock False l0] core nz valid
      issue_lock_clears [OF ops(2), of "[OP_MAP req]" l0] ops(1)
    by (auto simp: drm_gpuvm_sm_map_exec_lock_def l0_def log_prepare_def lock_ops_def drm_gpuva_sm_step_lock_def
        split: option.split)
  have "(\<exists>v \<in> set ?vs. gem_obj v = Some obj) \<longleftrightarrow>
      (\<exists>w \<in> set (rb_list vm). overlaps ?s ?e w \<and> gem_obj w = Some obj)" for obj
    unfolding F(4) by blast
  then have A: "(\<exists>v \<in> set ?vs. gem_obj v = Some obj) \<longleftrightarrow>
      (\<exists>a off. ?s \<le> a \<and> a < ?e \<and> vm_map vm a = Some (Some obj, off))" for obj
    by (simp only: mapped_object_iff [OF inv se])
  have B: "set (List.map_filter gem_obj xs) = {obj. \<exists>v \<in> set xs. gem_obj v = Some obj}" for xs
    by (force simp: map_filter_def)
  have "set (List.map_filter gem_obj ?vs) =
      {obj. \<exists>a off. ?s \<le> a \<and> a < ?e \<and> vm_map vm a = Some (Some obj, off)}"
    unfolding B A by (rule refl)
  moreover have "set l0 = set_option (map_obj req)" by (cases "map_obj req") (simp_all add: l0_def)
  ultimately show ?thesis using run by simp
qed

theorem sm_map_exec_lock_objects_witness:
  "\<exists>l. drm_gpuvm_sm_map_exec_lock log_lock log_prepare ex_vm 1 ex_req [] = Some (0, l) \<and> 9 \<in> set l \<and> 7 \<in> set l"
proof -
  have "map_range ex_req \<noteq> 0" "drm_gpuvm_range_valid ex_vm (map_addr ex_req) (map_range ex_req)"
    by (simp_all add: ex_req_def ex_defs drm_gpuvm_range_valid_def drm_gpuvm_check_overflow_def
        drm_gpuvm_in_mm_range_def drm_gpuvm_in_kernel_node_def)
  from sm_map_exec_lock_objects [OF ex_vm_inv this, of 1] obtain l where
    l: "drm_gpuvm_sm_map_exec_lock log_lock log_prepare ex_vm 1 ex_req [] = Some (0, l)"
    "set l = set_option (map_obj ex_req) \<union> {obj. \<exists>a off. map_addr ex_req \<le> a \<and>
      a < map_addr ex_req + map_range ex_req \<and> vm_map ex_vm a = Some (Some obj, off)}" by blast
  have "map_addr ex_req \<le> 0x3010 \<and> 0x3010 < map_addr ex_req + map_range ex_req \<and>
      vm_map ex_vm 0x3010 = Some (Some 7, 0x2010)" using ex_vm_maps(2) by (simp add: ex_req_def)
  then have "7 \<in> set l" using l(2) by blast
  moreover have "9 \<in> set l" using l(2) by (simp add: ex_req_def)
  ultimately show ?thesis using l(1) by blast
qed

end
