(* ===== verification/DRM_Exec.thy ===== *)
theory DRM_Exec
  imports DRM_Prelude "HOL-Library.Monad_Syntax" "HOL-Library.Multiset"
begin

text \<open>
  The execution context of \<open>drm_exec.c\<close> and \<open>drm_exec.h\<close>: locking a set of GEM objects whose order is
  not known, with back-off when the lock class reports a deadlock.

  The wound/wait mutexes behind \<open>dma_resv_lock\<close> are not part of the repository: they are the record
  \<open>ww_ops\<close> of functions on a state \<open>'w\<close> of the lock class, with the documented behaviour
  as the assumptions of the locale \<open>ww_lib\<close>. \<open>rv\<close> gives the reservation object \<open>obj->resv\<close> of an
  object; objects may share one. The environment carries the reference counts of the objects and the
  outcomes of the next allocations. A result \<open>None\<close> is a dereference of \<open>DRM_EXEC_DUMMY\<close>.
\<close>

section \<open>The environment\<close>

record 'w ww_ops =
  resv_lock :: "nat \<Rightarrow> 'w \<Rightarrow> int \<times> 'w"
  resv_lock_interruptible :: "nat \<Rightarrow> 'w \<Rightarrow> int \<times> 'w"
  resv_lock_slow :: "nat \<Rightarrow> 'w \<Rightarrow> 'w"
  resv_lock_slow_interruptible :: "nat \<Rightarrow> 'w \<Rightarrow> int \<times> 'w"
  resv_unlock :: "nat \<Rightarrow> 'w \<Rightarrow> 'w"
  resv_reserve_fences :: "nat \<Rightarrow> nat \<Rightarrow> 'w \<Rightarrow> int \<times> 'w"

record 'w kenv =
  k_ww :: 'w
  k_refs :: "nat \<Rightarrow> int"
  k_allocs :: "bool list"

definition drm_gem_object_get :: "nat \<Rightarrow> 'w kenv \<Rightarrow> 'w kenv" where
  "drm_gem_object_get obj env = env\<lparr>k_refs := (k_refs env)(obj := k_refs env obj + 1)\<rparr>"

definition drm_gem_object_put :: "nat option \<Rightarrow> 'w kenv \<Rightarrow> 'w kenv" where
  "drm_gem_object_put obj env =
     (case obj of None \<Rightarrow> env | Some o' \<Rightarrow> env\<lparr>k_refs := (k_refs env)(o' := k_refs env o' - 1)\<rparr>)"

text \<open>An allocation; those after the end of the list succeed.\<close>

definition kalloc :: "'w kenv \<Rightarrow> bool \<times> 'w kenv" where
  "kalloc env = (case k_allocs env of [] \<Rightarrow> (True, env) | b # bs \<Rightarrow> (b, env\<lparr>k_allocs := bs\<rparr>))"

definition on_ww :: "('w \<Rightarrow> 'w) \<Rightarrow> 'w kenv \<Rightarrow> 'w kenv" where
  "on_ww f env = env\<lparr>k_ww := f (k_ww env)\<rparr>"

definition try_ww :: "('w \<Rightarrow> int \<times> 'w) \<Rightarrow> 'w kenv \<Rightarrow> int \<times> 'w kenv" where
  "try_ww f env = (case f (k_ww env) of (ret, w) \<Rightarrow> (ret, env\<lparr>k_ww := w\<rparr>))"

section \<open>The execution context\<close>

text \<open>\<open>contended\<close> is NULL, the marker \<open>DRM_EXEC_DUMMY\<close> or an object. The array \<open>objects\<close> is the list of its
  first \<open>num_objects\<close> elements.\<close>

datatype contention = Uncontended | DRM_EXEC_DUMMY | Contended nat

record drm_exec =
  exec_flags :: u32
  max_objects :: nat
  objects :: "nat list"
  contended :: contention
  prelocked :: "nat option"

definition DRM_EXEC_INTERRUPTIBLE_WAIT :: u32 where
  "DRM_EXEC_INTERRUPTIBLE_WAIT = push_bit 0 1"

definition DRM_EXEC_IGNORE_DUPLICATES :: u32 where
  "DRM_EXEC_IGNORE_DUPLICATES = push_bit 1 1"

text \<open>\<open>PAGE_SIZE / sizeof(void *)\<close> with pages of 4 KiB.\<close>

definition PAGE_PTRS :: nat where
  "PAGE_PTRS = 512"

definition drm_exec_unlock_all :: "'w ww_ops \<Rightarrow> (nat \<Rightarrow> nat) \<Rightarrow> drm_exec \<Rightarrow> 'w kenv \<Rightarrow> drm_exec \<times> 'w kenv" where
  "drm_exec_unlock_all ww rv exec env =
     (let env = fold (\<lambda>obj env. drm_gem_object_put (Some obj) (on_ww (resv_unlock ww (rv obj)) env))
                  (rev (objects exec)) env
      in (exec\<lparr>prelocked := None\<rparr>, drm_gem_object_put (prelocked exec) env))"

definition drm_exec_init :: "u32 \<Rightarrow> nat \<Rightarrow> 'w kenv \<Rightarrow> drm_exec \<times> 'w kenv" where
  "drm_exec_init flags nr env =
     (let nr = (if nr = 0 then PAGE_PTRS else nr);
          (ok, env) = kalloc env
      in (\<lparr>exec_flags = flags, max_objects = (if ok then nr else 0), objects = [],
           contended = DRM_EXEC_DUMMY, prelocked = None\<rparr>, env))"

definition drm_exec_fini :: "'w ww_ops \<Rightarrow> (nat \<Rightarrow> nat) \<Rightarrow> drm_exec \<Rightarrow> 'w kenv \<Rightarrow> 'w kenv" where
  "drm_exec_fini ww rv exec env =
     (let (exec, env) = drm_exec_unlock_all ww rv exec env
      in case contended exec of Contended obj \<Rightarrow> drm_gem_object_put (Some obj) env | _ \<Rightarrow> env)"

definition drm_exec_cleanup :: "'w ww_ops \<Rightarrow> (nat \<Rightarrow> nat) \<Rightarrow> drm_exec \<Rightarrow> 'w kenv \<Rightarrow> bool \<times> drm_exec \<times> 'w kenv" where
  "drm_exec_cleanup ww rv exec env =
     (case contended exec of
        Uncontended \<Rightarrow> (False, exec, env)
      | DRM_EXEC_DUMMY \<Rightarrow> (True, exec\<lparr>contended := Uncontended\<rparr>, env)
      | Contended _ \<Rightarrow>
          let (exec, env) = drm_exec_unlock_all ww rv exec env in (True, exec\<lparr>objects := []\<rparr>, env))"

definition drm_exec_obj_locked :: "nat \<Rightarrow> drm_exec \<Rightarrow> 'w kenv \<Rightarrow> int \<times> drm_exec \<times> 'w kenv" where
  "drm_exec_obj_locked obj exec env =
     (let full = (length (objects exec) = max_objects exec);
          (ok, env) = (if full then kalloc env else (True, env));
          exec = (if full \<and> ok then exec\<lparr>max_objects := max_objects exec + PAGE_PTRS\<rparr> else exec)
      in if \<not> ok then (neg_errno ENOMEM, exec, env)
         else (0, exec\<lparr>objects := objects exec @ [obj]\<rparr>, drm_gem_object_get obj env))"

text \<open>The flag selects the variant of a lock function that a signal can interrupt.\<close>

definition lock_slow_flags :: "'w ww_ops \<Rightarrow> u32 \<Rightarrow> nat \<Rightarrow> 'w kenv \<Rightarrow> int \<times> 'w kenv" where
  "lock_slow_flags ww flags r env =
     (if flags AND DRM_EXEC_INTERRUPTIBLE_WAIT \<noteq> 0 then try_ww (resv_lock_slow_interruptible ww r) env
      else (0, on_ww (resv_lock_slow ww r) env))"

definition lock_flags :: "'w ww_ops \<Rightarrow> u32 \<Rightarrow> nat \<Rightarrow> 'w kenv \<Rightarrow> int \<times> 'w kenv" where
  "lock_flags ww flags r env =
     (if flags AND DRM_EXEC_INTERRUPTIBLE_WAIT \<noteq> 0 then try_ww (resv_lock_interruptible ww r) env
      else try_ww (resv_lock ww r) env)"

definition drm_exec_lock_contended ::
    "'w ww_ops \<Rightarrow> (nat \<Rightarrow> nat) \<Rightarrow> drm_exec \<Rightarrow> 'w kenv \<Rightarrow> (int \<times> drm_exec \<times> 'w kenv) option" where
  "drm_exec_lock_contended ww rv exec env =
     (case contended exec of
        Uncontended \<Rightarrow> Some (0, exec, env)
      | DRM_EXEC_DUMMY \<Rightarrow> None
      | Contended obj \<Rightarrow> Some (
          let exec = exec\<lparr>contended := Uncontended\<rparr>;
              (ret, env) = lock_slow_flags ww (exec_flags exec) (rv obj) env
          in if ret \<noteq> 0 then (ret, exec, drm_gem_object_put (Some obj) env)
             else case drm_exec_obj_locked obj exec env of (ret, exec, env) \<Rightarrow>
               if ret \<noteq> 0
               then (ret, exec, drm_gem_object_put (Some obj) (on_ww (resv_unlock ww (rv obj)) env))
               else (0, exec\<lparr>prelocked := Some obj\<rparr>, env)))"

definition drm_exec_lock_obj ::
    "'w ww_ops \<Rightarrow> (nat \<Rightarrow> nat) \<Rightarrow> nat \<Rightarrow> drm_exec \<Rightarrow> 'w kenv \<Rightarrow> (int \<times> drm_exec \<times> 'w kenv) option" where
  "drm_exec_lock_obj ww rv obj exec env = do {
     (ret, exec, env) \<leftarrow> drm_exec_lock_contended ww rv exec env;
     Some (
       if ret \<noteq> 0 then (ret, exec, env)
       else if prelocked exec = Some obj
       then (0, exec\<lparr>prelocked := None\<rparr>, drm_gem_object_put (prelocked exec) env)
       else
         let (ret, env) = lock_flags ww (exec_flags exec) (rv obj) env
         in if ret = neg_errno EDEADLK
            then (neg_errno EDEADLK, exec\<lparr>contended := Contended obj\<rparr>, drm_gem_object_get obj env)
            else if ret = neg_errno EALREADY \<and> exec_flags exec AND DRM_EXEC_IGNORE_DUPLICATES \<noteq> 0
            then (0, exec, env)
            else if ret \<noteq> 0 then (ret, exec, env)
            else case drm_exec_obj_locked obj exec env of (ret, exec, env) \<Rightarrow>
              if ret \<noteq> 0 then (ret, exec, on_ww (resv_unlock ww (rv obj)) env)
              else (0, exec, env))
   }"

text \<open>The search runs from the end of the array; the elements behind the one found move down.\<close>

definition drm_exec_unlock_obj ::
    "'w ww_ops \<Rightarrow> (nat \<Rightarrow> nat) \<Rightarrow> nat \<Rightarrow> drm_exec \<Rightarrow> 'w kenv \<Rightarrow> drm_exec \<times> 'w kenv" where
  "drm_exec_unlock_obj ww rv obj exec env =
     (if obj \<in> set (objects exec)
      then (exec\<lparr>objects := rev (remove1 obj (rev (objects exec)))\<rparr>,
            drm_gem_object_put (Some obj) (on_ww (resv_unlock ww (rv obj)) env))
      else (exec, env))"

definition drm_exec_prepare_obj ::
    "'w ww_ops \<Rightarrow> (nat \<Rightarrow> nat) \<Rightarrow> nat \<Rightarrow> nat \<Rightarrow> drm_exec \<Rightarrow> 'w kenv \<Rightarrow> (int \<times> drm_exec \<times> 'w kenv) option" where
  "drm_exec_prepare_obj ww rv obj num_fences exec env = do {
     (ret, exec, env) \<leftarrow> drm_exec_lock_obj ww rv obj exec env;
     Some (
       if ret \<noteq> 0 then (ret, exec, env)
       else case try_ww (resv_reserve_fences ww (rv obj) num_fences) env of (ret, env) \<Rightarrow>
         if ret \<noteq> 0 then (ret, drm_exec_unlock_obj ww rv obj exec env)
         else (0, exec, env))
   }"

fun drm_exec_prepare_array ::
    "'w ww_ops \<Rightarrow> (nat \<Rightarrow> nat) \<Rightarrow> nat list \<Rightarrow> nat \<Rightarrow> drm_exec \<Rightarrow> 'w kenv \<Rightarrow> (int \<times> drm_exec \<times> 'w kenv) option" where
  "drm_exec_prepare_array ww rv [] num_fences exec env = Some (0, exec, env)"
| "drm_exec_prepare_array ww rv (obj # objs) num_fences exec env = do {
     (ret, exec, env) \<leftarrow> drm_exec_prepare_obj ww rv obj num_fences exec env;
     if ret \<noteq> 0 then Some (ret, exec, env)
     else drm_exec_prepare_array ww rv objs num_fences exec env
   }"

section \<open>The retry loop\<close>

text \<open>
  The body of \<open>drm_exec_until_all_locked\<close> is a sequence of stages, each followed by
  \<open>drm_exec_retry_on_contention\<close> and a jump out of the loop on an error. \<open>'x\<close> is the state the
  stages work on, \<open>ex\<close> reads the execution context in it and \<open>clean\<close> runs \<open>drm_exec_cleanup\<close>. The loop
  has fuel; \<open>None\<close> is also the value when it is used up.
\<close>

datatype body_result = Body_retry | Body_error int | Body_done

definition drm_exec_is_contended :: "drm_exec \<Rightarrow> bool" where
  "drm_exec_is_contended exec \<longleftrightarrow> contended exec \<noteq> Uncontended"

fun run_stages :: "('x \<Rightarrow> drm_exec) \<Rightarrow> ('x \<Rightarrow> (int \<times> 'x) option) list \<Rightarrow> 'x \<Rightarrow> (body_result \<times> 'x) option" where
  "run_stages ex [] x = Some (Body_done, x)"
| "run_stages ex (f # fs) x = do {
     (ret, x) \<leftarrow> f x;
     if drm_exec_is_contended (ex x) then Some (Body_retry, x)
     else if ret \<noteq> 0 then Some (Body_error ret, x)
     else run_stages ex fs x
   }"

fun drm_exec_until_all_locked ::
    "nat \<Rightarrow> ('x \<Rightarrow> drm_exec) \<Rightarrow> ('x \<Rightarrow> bool \<times> 'x) \<Rightarrow> ('x \<Rightarrow> (int \<times> 'x) option) list \<Rightarrow> 'x \<Rightarrow> (int \<times> 'x) option" where
  "drm_exec_until_all_locked 0 ex clean stages x = None"
| "drm_exec_until_all_locked (Suc n) ex clean stages x =
     (case clean x of
        (False, x) \<Rightarrow> Some (0, x)
      | (True, x) \<Rightarrow> do {
          (r, x) \<leftarrow> run_stages ex stages x;
          case r of
            Body_error ret \<Rightarrow> Some (ret, x)
          | _ \<Rightarrow> drm_exec_until_all_locked n ex clean stages x
        })"

section \<open>The lock class and the invariant of a context\<close>

text \<open>
  What is documented of \<open>dma_resv_lock\<close> and its variants (\<open>dma-resv.h\<close>, \<open>ww_mutex.h\<close>). \<open>held\<close> are the
  reservation objects locked with the ticket of the context. An attempt takes the lock, reports that the ticket
  has it already, or asks to back off; an interruptible one may be broken off by a signal. The slow path
  is taken with no lock held. The lock class guarantees progress: \<open>patience\<close> bounds how often a ticket is
  still asked to back off.
\<close>

locale ww_lib =
  fixes ww :: "'w ww_ops" and held :: "'w \<Rightarrow> nat set" and patience :: "'w \<Rightarrow> nat"
  assumes lock_result: "resv_lock ww r w = (ret, w') \<Longrightarrow>
      ret \<in> {0, neg_errno EALREADY, neg_errno EDEADLK} \<and> (ret = neg_errno EALREADY \<longleftrightarrow> r \<in> held w) \<and>
      held w' = (if ret = 0 then insert r (held w) else held w)"
    and lock_intr_result: "resv_lock_interruptible ww r w = (ret, w') \<Longrightarrow>
      ret \<in> {0, neg_errno EALREADY, neg_errno EDEADLK, neg_errno EINTR} \<and> (ret = neg_errno EALREADY \<longleftrightarrow> r \<in> held w) \<and>
      held w' = (if ret = 0 then insert r (held w) else held w)"
    and lock_slow_result: "held w = {} \<Longrightarrow> held (resv_lock_slow ww r w) = {r}"
    and lock_slow_intr_result: "held w = {} \<Longrightarrow> resv_lock_slow_interruptible ww r w = (ret, w') \<Longrightarrow>
      ret \<in> {0, neg_errno EINTR} \<and> held w' = (if ret = 0 then {r} else {})"
    and unlock_result: "r \<in> held w \<Longrightarrow> held (resv_unlock ww r w) = held w - {r}"
    and reserve_result: "resv_reserve_fences ww r n w = (ret, w') \<Longrightarrow> ret \<in> {0, neg_errno ENOMEM} \<and> held w' = held w"
    and lock_patience: "resv_lock ww r w = (ret, w') \<Longrightarrow> patience w' + of_bool (ret = neg_errno EDEADLK) \<le> patience w"
    and lock_intr_patience:
      "resv_lock_interruptible ww r w = (ret, w') \<Longrightarrow> patience w' + of_bool (ret = neg_errno EDEADLK) \<le> patience w"
    and other_patience: "patience (resv_lock_slow ww r w) \<le> patience w"
      "patience (snd (resv_lock_slow_interruptible ww r w)) \<le> patience w"
      "patience (resv_unlock ww r w) \<le> patience w" "patience (snd (resv_reserve_fences ww r n w)) \<le> patience w"

text \<open>
  The locks held are exactly those of the tracked objects, each once. With respect to the reference
  counts \<open>refs\<close> before the context existed, the context owns one reference for each tracked object,
  one for the prelocked and one for the contended object.
\<close>

definition exec_inv :: "('w \<Rightarrow> nat set) \<Rightarrow> (nat \<Rightarrow> nat) \<Rightarrow> (nat \<Rightarrow> int) \<Rightarrow> drm_exec \<Rightarrow> 'w kenv \<Rightarrow> bool" where
  "exec_inv held rv refs exec env \<longleftrightarrow>
     held (k_ww env) = rv ` set (objects exec) \<and> distinct (map rv (objects exec)) \<and>
     length (objects exec) \<le> max_objects exec \<and>
     (\<forall>o'. prelocked exec = Some o' \<longrightarrow> o' \<in> set (objects exec)) \<and>
     k_refs env = (\<lambda>o'. refs o' + of_bool (o' \<in> set (objects exec)) + of_bool (prelocked exec = Some o')
                        + of_bool (contended exec = Contended o'))"

text \<open>The states in which the retry loop calls its body: after \<open>drm_exec_cleanup\<close>.\<close>

definition exec_ready :: "drm_exec \<Rightarrow> bool" where
  "exec_ready exec \<longleftrightarrow>
     contended exec \<noteq> DRM_EXEC_DUMMY \<and> (\<forall>c. contended exec = Contended c \<longrightarrow> objects exec = [])"

lemma env_simps [simp]:
  "k_ww (drm_gem_object_get obj env) = k_ww env"
  "k_refs (drm_gem_object_get obj env) = (k_refs env)(obj := k_refs env obj + 1)"
  "k_ww (drm_gem_object_put p env) = k_ww env"
  "k_refs (drm_gem_object_put None env) = k_refs env"
  "k_refs (drm_gem_object_put (Some obj) env) = (k_refs env)(obj := k_refs env obj - 1)"
  "k_ww (on_ww f env) = f (k_ww env)" "k_refs (on_ww f env) = k_refs env"
  by (simp_all add: drm_gem_object_get_def drm_gem_object_put_def on_ww_def split: option.split)

lemma try_ww_split: "try_ww f env = (ret, env') \<Longrightarrow> f (k_ww env) = (ret, k_ww env') \<and> k_refs env' = k_refs env"
  by (auto simp: try_ww_def split: prod.splits)

lemma kalloc_same: "kalloc env = (ok, env') \<Longrightarrow> k_ww env' = k_ww env \<and> k_refs env' = k_refs env"
  by (auto simp: kalloc_def split: list.splits)

lemma remove1_set_distinct: "distinct xs \<Longrightarrow> set (rev (remove1 x (rev xs))) = set xs - {x}"
  by simp

text \<open>Tracking a locked object.\<close>

lemma obj_locked_cases:
  assumes "drm_exec_obj_locked obj exec env = (ret, exec', env')" and "length (objects exec) \<le> max_objects exec"
  shows "k_ww env' = k_ww env \<and> contended exec' = contended exec \<and> prelocked exec' = prelocked exec \<and>
         exec_flags exec' = exec_flags exec \<and> length (objects exec') \<le> max_objects exec' \<and>
         (ret = neg_errno ENOMEM \<and> objects exec' = objects exec \<and> k_refs env' = k_refs env \<or>
          ret = 0 \<and> objects exec' = objects exec @ [obj] \<and> k_refs env' = (k_refs env)(obj := k_refs env obj + 1))"
  using assms by (auto simp: drm_exec_obj_locked_def PAGE_PTRS_def Let_def split: prod.splits if_splits dest!: kalloc_same)

context ww_lib
begin

lemma fold_unlock:
  assumes "distinct (map rv xs)" and "rv ` set xs \<subseteq> held (k_ww env)"
  shows "held (k_ww (fold (\<lambda>obj env. drm_gem_object_put (Some obj) (on_ww (resv_unlock ww (rv obj)) env)) xs env))
           = held (k_ww env) - rv ` set xs" (is "?H xs env")
    and "k_refs (fold (\<lambda>obj env. drm_gem_object_put (Some obj) (on_ww (resv_unlock ww (rv obj)) env)) xs env)
           = (\<lambda>o'. k_refs env o' - of_bool (o' \<in> set xs))" (is "?R xs env")
proof -
  have "?H xs env \<and> ?R xs env"
    using assms
  proof (induction xs arbitrary: env)
    case (Cons x xs)
    have "x \<notin> set xs" using Cons.prems(1) by auto
    moreover have "rv ` set xs \<subseteq> held (k_ww env) - {rv x}" using Cons.prems by (fastforce simp: image_iff)
    ultimately show ?case using Cons.prems Cons.IH [of "drm_gem_object_put (Some x) (on_ww (resv_unlock ww (rv x)) env)"]
      by (auto simp: unlock_result fun_eq_iff)
  qed simp
  then show "?H xs env" and "?R xs env" by simp_all
qed

lemma unlock_all_spec:
  assumes "exec_inv held rv refs exec env" and "drm_exec_unlock_all ww rv exec env = (exec', env')"
  shows "held (k_ww env') = {}" and "exec' = exec\<lparr>prelocked := None\<rparr>"
    and "k_refs env' = (\<lambda>o'. refs o' + of_bool (contended exec = Contended o'))"
proof -
  have d: "distinct (map rv (rev (objects exec)))" using assms(1) by (simp add: exec_inv_def rev_map [symmetric])
  have s: "rv ` set (rev (objects exec)) \<subseteq> held (k_ww env)" using assms(1) by (simp add: exec_inv_def)
  note f = fold_unlock [OF d s]
  show "held (k_ww env') = {}" "exec' = exec\<lparr>prelocked := None\<rparr>"
    using assms f(1) by (auto simp: drm_exec_unlock_all_def exec_inv_def Let_def)
  show "k_refs env' = (\<lambda>o'. refs o' + of_bool (contended exec = Contended o'))"
    using assms f(2) by (cases "prelocked exec") (auto simp: drm_exec_unlock_all_def exec_inv_def Let_def fun_eq_iff)
qed

lemma fini_spec:
  assumes "exec_inv held rv refs exec env"
  shows "held (k_ww (drm_exec_fini ww rv exec env)) = {}" and "k_refs (drm_exec_fini ww rv exec env) = refs"
proof -
  obtain exec' env' where u: "drm_exec_unlock_all ww rv exec env = (exec', env')" by fastforce
  note s = unlock_all_spec [OF assms u]
  show "held (k_ww (drm_exec_fini ww rv exec env)) = {}" "k_refs (drm_exec_fini ww rv exec env) = refs"
    by (cases "contended exec"; simp add: drm_exec_fini_def u s fun_eq_iff)+
qed

lemma cleanup_spec:
  assumes inv: "exec_inv held rv refs exec env" and c: "drm_exec_cleanup ww rv exec env = (b, exec', env')"
  shows "exec_inv held rv refs exec' env' \<and> exec_ready exec' \<and> (b \<longleftrightarrow> contended exec \<noteq> Uncontended) \<and>
         (\<not> b \<longrightarrow> exec' = exec \<and> env' = env)"
proof -
  obtain exec1 env1 where u: "drm_exec_unlock_all ww rv exec env = (exec1, env1)" by fastforce
  note s = unlock_all_spec [OF inv u]
  show ?thesis
  proof (cases "contended exec")
    case (Contended o')
    then show ?thesis using c s by (auto simp: drm_exec_cleanup_def u exec_ready_def exec_inv_def)
  qed (use c inv in \<open>auto simp: drm_exec_cleanup_def exec_ready_def exec_inv_def\<close>)
qed

lemma patience_unlock_all:
  "patience (k_ww (snd (drm_exec_unlock_all ww rv exec env))) \<le> patience (k_ww env)"
proof -
  have "patience (k_ww (fold (\<lambda>obj env. drm_gem_object_put (Some obj) (on_ww (resv_unlock ww (rv obj)) env)) xs env))
        \<le> patience (k_ww env)" for xs
  proof (induction xs arbitrary: env)
    case (Cons x xs)
    show ?case
      using Cons.IH [of "drm_gem_object_put (Some x) (on_ww (resv_unlock ww (rv x)) env)"] other_patience(3) [of "rv x" "k_ww env"]
      by simp
  qed simp
  then show ?thesis by (simp add: drm_exec_unlock_all_def Let_def)
qed

lemma patience_cleanup:
  "drm_exec_cleanup ww rv exec env = (b, exec', env') \<Longrightarrow> patience (k_ww env') \<le> patience (k_ww env)"
  using patience_unlock_all [of rv exec env]
  by (auto simp: drm_exec_cleanup_def split: contention.splits prod.splits)

lemma lock_slow_flags_spec:
  assumes "lock_slow_flags ww flags r env = (ret, env')" and "held (k_ww env) = {}"
  shows "held (k_ww env') = (if ret = 0 then {r} else {})" and "k_refs env' = k_refs env"
    and "patience (k_ww env') \<le> patience (k_ww env)"
  using assms lock_slow_result [OF assms(2), of r] lock_slow_intr_result [OF assms(2), of r]
    other_patience(1,2) [of r "k_ww env"]
  by (auto simp: lock_slow_flags_def dest!: try_ww_split split: if_splits)

lemma lock_flags_spec:
  assumes "lock_flags ww flags r env = (ret, env')"
  shows "held (k_ww env') = (if ret = 0 then insert r (held (k_ww env)) else held (k_ww env))"
    and "ret = neg_errno EALREADY \<longleftrightarrow> r \<in> held (k_ww env)" and "k_refs env' = k_refs env"
    and "patience (k_ww env') + of_bool (ret = neg_errno EDEADLK) \<le> patience (k_ww env)"
proof -
  have "held (k_ww env') = (if ret = 0 then insert r (held (k_ww env)) else held (k_ww env)) \<and>
     (ret = neg_errno EALREADY \<longleftrightarrow> r \<in> held (k_ww env)) \<and> k_refs env' = k_refs env \<and>
     patience (k_ww env') + of_bool (ret = neg_errno EDEADLK) \<le> patience (k_ww env)"
  proof (cases "flags AND DRM_EXEC_INTERRUPTIBLE_WAIT \<noteq> 0")
    case True
    with assms have t: "resv_lock_interruptible ww r (k_ww env) = (ret, k_ww env')" "k_refs env' = k_refs env"
      by (simp_all add: lock_flags_def try_ww_split)
    show ?thesis using lock_intr_result [OF t(1)] lock_intr_patience [OF t(1)] t(2) by blast
  next
    case False
    with assms have t: "resv_lock ww r (k_ww env) = (ret, k_ww env')" "k_refs env' = k_refs env"
      by (simp_all add: lock_flags_def try_ww_split)
    show ?thesis using lock_result [OF t(1)] lock_patience [OF t(1)] t(2) by blast
  qed
  then show "held (k_ww env') = (if ret = 0 then insert r (held (k_ww env)) else held (k_ww env))"
    and "ret = neg_errno EALREADY \<longleftrightarrow> r \<in> held (k_ww env)" and "k_refs env' = k_refs env"
    and "patience (k_ww env') + of_bool (ret = neg_errno EDEADLK) \<le> patience (k_ww env)" by blast+
qed

text \<open>The object the context backed off for is locked first.\<close>

lemma lock_contended_spec:
  assumes inv: "exec_inv held rv refs exec env" and ready: "exec_ready exec"
  obtains ret exec' env' where "drm_exec_lock_contended ww rv exec env = Some (ret, exec', env')"
    and "exec_inv held rv refs exec' env'" and "contended exec' = Uncontended"
    and "set (objects exec) \<subseteq> set (objects exec')" and "exec_flags exec' = exec_flags exec"
    and "patience (k_ww env') \<le> patience (k_ww env)"
proof (cases "contended exec")
  case Uncontended
  then show thesis using inv by (intro that) (auto simp: drm_exec_lock_contended_def)
next
  case DRM_EXEC_DUMMY
  then show thesis using ready by (simp add: exec_ready_def)
next
  case (Contended c)
  then have e: "objects exec = []" "prelocked exec = None" "held (k_ww env) = {}"
      "k_refs env = (\<lambda>o'. refs o' + of_bool (c = o'))"
    using ready inv by (auto simp: exec_ready_def exec_inv_def)
  define x where "x = exec\<lparr>contended := Uncontended\<rparr>"
  obtain ret1 env1 where l: "lock_slow_flags ww (exec_flags exec) (rv c) env = (ret1, env1)" by fastforce
  note l1 = lock_slow_flags_spec [OF l e(3)]
  obtain ret2 x2 env2 where o: "drm_exec_obj_locked c x env1 = (ret2, x2, env2)" by (metis prod_cases3)
  have o2: "k_ww env2 = k_ww env1 \<and> contended x2 = contended x \<and> prelocked x2 = prelocked x \<and>
         exec_flags x2 = exec_flags x \<and> length (objects x2) \<le> max_objects x2 \<and>
         (ret2 = neg_errno ENOMEM \<and> objects x2 = objects x \<and> k_refs env2 = k_refs env1 \<or>
          ret2 = 0 \<and> objects x2 = objects x @ [c] \<and> k_refs env2 = (k_refs env1)(c := k_refs env1 c + 1))"
    by (rule obj_locked_cases [OF o]) (simp add: x_def e)
  have u: "ret1 = 0 \<Longrightarrow> held (resv_unlock ww (rv c) (k_ww env1)) = {}"
    using unlock_result [of "rv c" "k_ww env1"] l1(1) by simp
  have p: "patience (resv_unlock ww (rv c) (k_ww env1)) \<le> patience (k_ww env)"
    using other_patience(3) [of "rv c" "k_ww env1"] l1(3) by simp
  define T where "T = (if ret1 \<noteq> 0 then (ret1, x, drm_gem_object_put (Some c) env1)
        else if ret2 \<noteq> 0 then (ret2, x2, drm_gem_object_put (Some c) (on_ww (resv_unlock ww (rv c)) env2))
        else (0, x2\<lparr>prelocked := Some c\<rparr>, env2))"
  obtain ret' exec' env' where R: "T = (ret', exec', env')" by (rule prod_cases3)
  show thesis
  proof (rule that)
    show "drm_exec_lock_contended ww rv exec env = Some (ret', exec', env')"
      unfolding R [symmetric] T_def using o by (simp add: drm_exec_lock_contended_def Contended l x_def Let_def)
  qed (use R e inv Contended l1 o2 u p in \<open>auto simp: T_def x_def exec_inv_def fun_eq_iff split: if_splits\<close>)
qed

text \<open>The outcome of locking an object: it is held, or the context is to be cleaned up, or an error.\<close>

lemma lock_obj_spec:
  assumes inv: "exec_inv held rv refs exec env" and ready: "exec_ready exec"
  obtains ret exec' env' where "drm_exec_lock_obj ww rv obj exec env = Some (ret, exec', env')"
    and "exec_inv held rv refs exec' env'" and "contended exec' \<noteq> DRM_EXEC_DUMMY"
    and "set (objects exec) \<subseteq> set (objects exec')" and "exec_flags exec' = exec_flags exec"
    and "ret = 0 \<Longrightarrow> rv obj \<in> rv ` set (objects exec') \<and> prelocked exec' \<noteq> Some obj"
    and "contended exec' \<noteq> Uncontended \<Longrightarrow> ret \<noteq> 0"
    and "patience (k_ww env') + of_bool (contended exec' \<noteq> Uncontended) \<le> patience (k_ww env)"
proof -
  obtain ret1 x1 env1 where c: "drm_exec_lock_contended ww rv exec env = Some (ret1, x1, env1)"
    and i1: "exec_inv held rv refs x1 env1" and u1: "contended x1 = Uncontended"
    and s1: "set (objects exec) \<subseteq> set (objects x1)" and f1: "exec_flags x1 = exec_flags exec"
    and p1: "patience (k_ww env1) \<le> patience (k_ww env)"
    by (rule lock_contended_spec [OF inv ready])
  obtain ret2 env2 where l: "lock_flags ww (exec_flags x1) (rv obj) env1 = (ret2, env2)" by fastforce
  note l2 = lock_flags_spec [OF l]
  obtain ret3 x3 env3 where o: "drm_exec_obj_locked obj x1 env2 = (ret3, x3, env3)" by (metis prod_cases3)
  have o3: "k_ww env3 = k_ww env2 \<and> contended x3 = contended x1 \<and> prelocked x3 = prelocked x1 \<and>
         exec_flags x3 = exec_flags x1 \<and> length (objects x3) \<le> max_objects x3 \<and>
         (ret3 = neg_errno ENOMEM \<and> objects x3 = objects x1 \<and> k_refs env3 = k_refs env2 \<or>
          ret3 = 0 \<and> objects x3 = objects x1 @ [obj] \<and> k_refs env3 = (k_refs env2)(obj := k_refs env2 obj + 1))"
    by (rule obj_locked_cases [OF o]) (use i1 in \<open>simp add: exec_inv_def\<close>)
  have n: "ret2 = 0 \<Longrightarrow> rv obj \<notin> rv ` set (objects x1)" using l2(2) i1 by (auto simp: exec_inv_def)
  have h: "ret2 = neg_errno EALREADY \<Longrightarrow> rv obj \<in> rv ` set (objects x1)" using l2(2) i1 by (simp add: exec_inv_def)
  have un: "ret2 = 0 \<Longrightarrow> held (resv_unlock ww (rv obj) (k_ww env2)) = rv ` set (objects x1)"
    using unlock_result [of "rv obj" "k_ww env2"] l2(1) n i1 by (auto simp: exec_inv_def)
  note pu = other_patience(3) [of "rv obj" "k_ww env2"]
  consider (error) "ret1 \<noteq> 0" | (prelocked) "ret1 = 0" "prelocked x1 = Some obj"
    | (deadlock) "ret1 = 0" "prelocked x1 \<noteq> Some obj" "ret2 = neg_errno EDEADLK"
    | (duplicate) "ret1 = 0" "prelocked x1 \<noteq> Some obj" "ret2 = neg_errno EALREADY"
        "exec_flags x1 AND DRM_EXEC_IGNORE_DUPLICATES \<noteq> 0"
    | (failed) "ret1 = 0" "prelocked x1 \<noteq> Some obj" "ret2 \<noteq> 0" "ret2 \<noteq> neg_errno EDEADLK"
        "ret2 = neg_errno EALREADY \<Longrightarrow> exec_flags x1 AND DRM_EXEC_IGNORE_DUPLICATES = 0"
    | (untracked) "ret1 = 0" "prelocked x1 \<noteq> Some obj" "ret2 = 0" "ret3 \<noteq> 0"
    | (locked) "ret1 = 0" "prelocked x1 \<noteq> Some obj" "ret2 = 0" "ret3 = 0"
    by blast
  then show thesis
  proof cases
    case error
    with c i1 u1 s1 f1 p1 show thesis by (intro that [of ret1 x1 env1]) (simp_all add: drm_exec_lock_obj_def)
  next
    case prelocked
    with i1 have "exec_inv held rv refs (x1\<lparr>prelocked := None\<rparr>) (drm_gem_object_put (Some obj) env1)" "obj \<in> set (objects x1)"
      by (auto simp: exec_inv_def fun_eq_iff)
    with prelocked c u1 s1 f1 p1 show thesis
      by (intro that [of 0 "x1\<lparr>prelocked := None\<rparr>" "drm_gem_object_put (Some obj) env1"]) (simp_all add: drm_exec_lock_obj_def)
  next
    case deadlock
    with i1 u1 l2 have "exec_inv held rv refs (x1\<lparr>contended := Contended obj\<rparr>) (drm_gem_object_get obj env2)"
      by (auto simp: exec_inv_def fun_eq_iff)
    with deadlock c l s1 f1 p1 l2(4) show thesis
      by (intro that [of "neg_errno EDEADLK" "x1\<lparr>contended := Contended obj\<rparr>" "drm_gem_object_get obj env2"])
        (simp_all add: drm_exec_lock_obj_def)
  next
    case duplicate
    with i1 l2 have "exec_inv held rv refs x1 env2" by (simp add: exec_inv_def)
    with duplicate c l u1 s1 f1 p1 l2(4) h show thesis
      by (intro that [of 0 x1 env2]) (simp_all add: drm_exec_lock_obj_def)
  next
    case failed
    with i1 l2 have "exec_inv held rv refs x1 env2" by (simp add: exec_inv_def)
    with failed c l u1 s1 f1 p1 l2(4) show thesis
      by (intro that [of ret2 x1 env2]) (simp_all add: drm_exec_lock_obj_def)
  next
    case untracked
    with i1 u1 l2 o3 un have "exec_inv held rv refs x3 (on_ww (resv_unlock ww (rv obj)) env3)"
      by (auto simp: exec_inv_def)
    with untracked c l o u1 s1 f1 p1 l2(4) o3 pu show thesis
      by (intro that [of ret3 x3 "on_ww (resv_unlock ww (rv obj)) env3"]) (auto simp: drm_exec_lock_obj_def)
  next
    case locked
    with i1 u1 l2 o3 n have "exec_inv held rv refs x3 env3" by (auto simp: exec_inv_def fun_eq_iff)
    with locked c l o u1 s1 f1 p1 l2(4) o3 show thesis
      by (intro that [of 0 x3 env3]) (auto simp: drm_exec_lock_obj_def)
  qed
qed

lemma unlock_obj_inv:
  assumes inv: "exec_inv held rv refs exec env" and "prelocked exec \<noteq> Some obj"
    and u: "drm_exec_unlock_obj ww rv obj exec env = (exec', env')"
  shows "exec_inv held rv refs exec' env' \<and> contended exec' = contended exec \<and> patience (k_ww env') \<le> patience (k_ww env)"
proof (cases "obj \<in> set (objects exec)")
  case True
  have d: "distinct (objects exec)" using inv by (simp add: exec_inv_def distinct_map)
  have h: "held (resv_unlock ww (rv obj) (k_ww env)) = rv ` (set (objects exec) - {obj})"
    using unlock_result [of "rv obj" "k_ww env"] inv True by (auto simp: exec_inv_def distinct_map inj_on_def)
  define os where "os = rev (remove1 obj (rev (objects exec)))"
  have os: "set os = set (objects exec) - {obj}" "distinct (map rv os)" "length os \<le> max_objects exec"
    using d inv distinct_map_remove1 [of rv "rev (objects exec)" obj]
    by (auto simp: os_def exec_inv_def length_remove1 rev_map [symmetric])
  have "exec' = exec\<lparr>objects := os\<rparr>" "env' = drm_gem_object_put (Some obj) (on_ww (resv_unlock ww (rv obj)) env)"
    using True u by (simp_all add: drm_exec_unlock_obj_def os_def)
  then show ?thesis using inv assms(2) h True os other_patience(3) [of "rv obj" "k_ww env"]
    by (simp add: exec_inv_def fun_eq_iff) blast
next
  case False
  then show ?thesis using u inv by (simp add: drm_exec_unlock_obj_def)
qed

lemma prepare_obj_spec:
  assumes inv: "exec_inv held rv refs exec env" and ready: "exec_ready exec"
  obtains ret exec' env' where "drm_exec_prepare_obj ww rv obj n exec env = Some (ret, exec', env')"
    and "exec_inv held rv refs exec' env'" and "contended exec' \<noteq> DRM_EXEC_DUMMY"
    and "ret = 0 \<Longrightarrow> set (objects exec) \<subseteq> set (objects exec') \<and> rv obj \<in> rv ` set (objects exec')"
    and "contended exec' \<noteq> Uncontended \<Longrightarrow> ret \<noteq> 0"
    and "patience (k_ww env') + of_bool (contended exec' \<noteq> Uncontended) \<le> patience (k_ww env)"
proof -
  obtain ret1 x1 env1 where l: "drm_exec_lock_obj ww rv obj exec env = Some (ret1, x1, env1)"
    and i1: "exec_inv held rv refs x1 env1" and d1: "contended x1 \<noteq> DRM_EXEC_DUMMY"
    and s1: "set (objects exec) \<subseteq> set (objects x1)"
    and z1: "ret1 = 0 \<Longrightarrow> rv obj \<in> rv ` set (objects x1) \<and> prelocked x1 \<noteq> Some obj"
    and c1: "contended x1 \<noteq> Uncontended \<Longrightarrow> ret1 \<noteq> 0"
    and p1: "patience (k_ww env1) + of_bool (contended x1 \<noteq> Uncontended) \<le> patience (k_ww env)"
    by (rule lock_obj_spec [OF inv ready, of obj]) blast
  show thesis
  proof (cases "ret1 = 0")
    case False
    with l i1 d1 p1 show thesis by (intro that [of ret1 x1 env1]) (simp_all add: drm_exec_prepare_obj_def)
  next
    case True
    note z1 = z1 [OF True]
    from True c1 have u1: "contended x1 = Uncontended" by blast
    obtain ret2 env2 where r: "try_ww (resv_reserve_fences ww (rv obj) n) env1 = (ret2, env2)" by fastforce
    from try_ww_split [OF r] have w: "resv_reserve_fences ww (rv obj) n (k_ww env1) = (ret2, k_ww env2)"
      and k: "k_refs env2 = k_refs env1" by auto
    have i2: "exec_inv held rv refs x1 env2" using i1 k reserve_result [OF w] by (simp add: exec_inv_def)
    have p2: "patience (k_ww env2) \<le> patience (k_ww env)" using other_patience(4) [of "rv obj" n "k_ww env1"] w p1 by simp
    obtain x3 env3 where u: "drm_exec_unlock_obj ww rv obj x1 env2 = (x3, env3)" by fastforce
    have "exec_inv held rv refs x3 env3 \<and> contended x3 = contended x1 \<and> patience (k_ww env3) \<le> patience (k_ww env2)"
      by (rule unlock_obj_inv [OF i2 _ u]) (use z1 in blast)
    then have i3: "exec_inv held rv refs x3 env3" and c3: "contended x3 = Uncontended" and p3: "patience (k_ww env3) \<le> patience (k_ww env)"
      using u1 p2 by auto
    show thesis
    proof (cases "ret2 = 0")
      case True
      with \<open>ret1 = 0\<close> l r i2 u1 s1 z1 p2 show thesis
        by (intro that [of 0 x1 env2]) (simp_all add: drm_exec_prepare_obj_def)
    next
      case False
      with \<open>ret1 = 0\<close> l r u i3 c3 p3 show thesis
        by (intro that [of ret2 x3 env3]) (simp_all add: drm_exec_prepare_obj_def)
    qed
  qed
qed

end

section \<open>The retry loop locks everything or nothing\<close>

text \<open>
  A client of the retry loop: a state that contains an execution context and the environment. The
  contract of a stage for a set of reservation objects: it returns, keeps the invariant, and has locked them all
  unless it reports an error or contention. The first stage of a body may be called while the object
  the context backed off for is still to be locked.
\<close>

locale exec_client = ww_lib ww held patience
  for ww :: "'w ww_ops" and held :: "'w \<Rightarrow> nat set" and patience :: "'w \<Rightarrow> nat" +
  fixes rv :: "nat \<Rightarrow> nat" and ex :: "'x \<Rightarrow> drm_exec" and ev :: "'x \<Rightarrow> 'w kenv"
    and upd :: "drm_exec \<Rightarrow> 'w kenv \<Rightarrow> 'x \<Rightarrow> 'x" and wf :: "'x \<Rightarrow> bool"
  assumes ex_upd [simp]: "ex (upd e v x) = e" and ev_upd [simp]: "ev (upd e v x) = v"
    and wf_upd: "wf (upd e v x) = wf x" and upd_same: "upd (ex x) (ev x) x = x"
begin

definition clean :: "'x \<Rightarrow> bool \<times> 'x" where
  "clean x = (case drm_exec_cleanup ww rv (ex x) (ev x) of (b, e, v) \<Rightarrow> (b, upd e v x))"

definition good :: "(nat \<Rightarrow> int) \<Rightarrow> 'x \<Rightarrow> bool" where
  "good refs x \<longleftrightarrow> exec_inv held rv refs (ex x) (ev x) \<and> wf x"

definition stage_locks :: "bool \<Rightarrow> ('x \<Rightarrow> (int \<times> 'x) option) \<Rightarrow> nat set \<Rightarrow> bool" where
  "stage_locks first f N \<longleftrightarrow>
     (\<forall>refs x. good refs x \<longrightarrow> exec_ready (ex x) \<longrightarrow> first \<or> contended (ex x) = Uncontended \<longrightarrow>
     (\<exists>ret x'. f x = Some (ret, x') \<and> good refs x' \<and> contended (ex x') \<noteq> DRM_EXEC_DUMMY \<and>
        (contended (ex x') \<noteq> Uncontended \<longrightarrow> ret \<noteq> 0) \<and>
        (ret = 0 \<longrightarrow> set (objects (ex x)) \<subseteq> set (objects (ex x')) \<and> N \<subseteq> rv ` set (objects (ex x'))) \<and>
        patience (k_ww (ev x')) + of_bool (contended (ex x') \<noteq> Uncontended) \<le> patience (k_ww (ev x))))"

lemma stage_locksD:
  assumes "stage_locks first f N" and "good refs x" and "exec_ready (ex x)" and "first \<or> contended (ex x) = Uncontended"
  obtains ret x' where "f x = Some (ret, x')" and "good refs x'" and "contended (ex x') \<noteq> DRM_EXEC_DUMMY"
    and "contended (ex x') \<noteq> Uncontended \<Longrightarrow> ret \<noteq> 0"
    and "ret = 0 \<Longrightarrow> set (objects (ex x)) \<subseteq> set (objects (ex x')) \<and> N \<subseteq> rv ` set (objects (ex x'))"
    and "patience (k_ww (ev x')) + of_bool (contended (ex x') \<noteq> Uncontended) \<le> patience (k_ww (ev x))"
  using assms unfolding stage_locks_def by blast

lemma stage_locks_first: "stage_locks True f N \<Longrightarrow> stage_locks b f N"
  unfolding stage_locks_def by blast

lemma run_stages_spec:
  assumes "list_all2 (stage_locks False) fs Ns" and "good refs x" and "exec_ready (ex x)"
    and "N0 \<subseteq> rv ` set (objects (ex x))"
    and "contended (ex x) \<noteq> Uncontended \<Longrightarrow> fs \<noteq> [] \<and> stage_locks True (hd fs) (hd Ns)"
  obtains r x' where "run_stages ex fs x = Some (r, x')" and "good refs x'"
    and "contended (ex x') \<noteq> DRM_EXEC_DUMMY"
    and "r = Body_done \<Longrightarrow> contended (ex x') = Uncontended \<and> N0 \<union> \<Union> (set Ns) \<subseteq> rv ` set (objects (ex x'))"
    and "patience (k_ww (ev x')) + of_bool (r = Body_retry) \<le> patience (k_ww (ev x))"
    and "\<And>e. r = Body_error e \<Longrightarrow> e \<noteq> 0"
    and "r = Body_retry \<Longrightarrow> contended (ex x') \<noteq> Uncontended"
proof -
  have "\<exists>r x'. run_stages ex fs x = Some (r, x') \<and> good refs x' \<and> contended (ex x') \<noteq> DRM_EXEC_DUMMY \<and>
      (r = Body_done \<longrightarrow> contended (ex x') = Uncontended \<and> N0 \<union> \<Union> (set Ns) \<subseteq> rv ` set (objects (ex x'))) \<and>
      patience (k_ww (ev x')) + of_bool (r = Body_retry) \<le> patience (k_ww (ev x)) \<and> (\<forall>e. r = Body_error e \<longrightarrow> e \<noteq> 0) \<and>
      (r = Body_retry \<longrightarrow> contended (ex x') \<noteq> Uncontended)"
    using assms
  proof (induction fs arbitrary: Ns x N0)
    case Nil
    then show ?case by (cases "contended (ex x) = Uncontended") (simp_all add: exec_ready_def)
  next
    case (Cons f fs)
    then obtain N Ns' where Ns: "Ns = N # Ns'" and sf: "stage_locks False f N"
      and sfs: "list_all2 (stage_locks False) fs Ns'"
      by (auto simp: list_all2_Cons1)
    have sf': "stage_locks (contended (ex x) \<noteq> Uncontended) f N" using sf Cons.prems(5) Ns by (cases "contended (ex x) = Uncontended") auto
    obtain ret x1 where f: "f x = Some (ret, x1)" and g1: "good refs x1" and d1: "contended (ex x1) \<noteq> DRM_EXEC_DUMMY"
      and c1: "contended (ex x1) \<noteq> Uncontended \<Longrightarrow> ret \<noteq> 0"
      and o1: "ret = 0 \<Longrightarrow> set (objects (ex x)) \<subseteq> set (objects (ex x1)) \<and> N \<subseteq> rv ` set (objects (ex x1))"
      and p1: "patience (k_ww (ev x1)) + of_bool (contended (ex x1) \<noteq> Uncontended) \<le> patience (k_ww (ev x))"
      by (rule stage_locksD [OF sf' Cons.prems(2,3)]) blast+
    show ?case
    proof (cases "contended (ex x1) = Uncontended \<and> ret = 0")
      case False
      then show ?thesis using f g1 d1 c1 p1 by (auto simp: drm_exec_is_contended_def)
    next
      case True
      then have r1: "exec_ready (ex x1)" and n1: "N0 \<union> N \<subseteq> rv ` set (objects (ex x1))"
        using o1 Cons.prems(4) by (auto simp: exec_ready_def)
      obtain r x2 where "run_stages ex fs x1 = Some (r, x2)" and "good refs x2" and "contended (ex x2) \<noteq> DRM_EXEC_DUMMY"
        and "r = Body_done \<longrightarrow> contended (ex x2) = Uncontended \<and> N0 \<union> N \<union> \<Union> (set Ns') \<subseteq> rv ` set (objects (ex x2))"
        and "patience (k_ww (ev x2)) + of_bool (r = Body_retry) \<le> patience (k_ww (ev x1))"
        and "\<forall>e. r = Body_error e \<longrightarrow> e \<noteq> 0" and "r = Body_retry \<longrightarrow> contended (ex x2) \<noteq> Uncontended"
        using Cons.IH [OF sfs g1 r1 n1] True by (auto simp: Un_assoc)
      with True f p1 show ?thesis by (intro exI [of _ r] exI [of _ x2]) (auto simp: drm_exec_is_contended_def Ns)
    qed
  qed
  then show thesis using that by blast
qed

text \<open>
  Enough fuel: one round for each time the context may still be asked to back off, and two more. A loop that
  returns 0 ends with a run of all stages that meets no contention and no error.
\<close>

lemma until_all_locked_spec:
  assumes "stage_locks True f N" and "list_all2 (stage_locks False) fs Ns" and "good refs x"
    and "contended (ex x) \<noteq> Uncontended \<or> N \<union> \<Union> (set Ns) \<subseteq> rv ` set (objects (ex x))"
    and "patience (k_ww (ev x)) + of_bool (contended (ex x) \<noteq> Uncontended) < n"
  shows "\<exists>ret x'. drm_exec_until_all_locked n ex clean (f # fs) x = Some (ret, x') \<and> good refs x' \<and>
     contended (ex x') \<noteq> DRM_EXEC_DUMMY \<and>
     (ret = 0 \<longrightarrow> contended (ex x') = Uncontended \<and> N \<union> \<Union> (set Ns) \<subseteq> rv ` set (objects (ex x'))) \<and>
     (ret = 0 \<longrightarrow> x' = x \<and> contended (ex x) = Uncontended \<or>
        (\<exists>y. good refs y \<and> exec_ready (ex y) \<and> run_stages ex (f # fs) y = Some (Body_done, x')))"
  using assms(3-)
proof (induction n arbitrary: x)
  case (Suc n)
  obtain b e v where c: "drm_exec_cleanup ww rv (ex x) (ev x) = (b, e, v)" by (metis prod_cases3)
  from Suc.prems(1) have i: "exec_inv held rv refs (ex x) (ev x)" and w: "wf x" by (auto simp: good_def wf_upd)
  note cl = cleanup_spec [OF i c]
  have p: "patience (k_ww v) \<le> patience (k_ww (ev x))" by (rule patience_cleanup [OF c])
  show ?case
  proof (cases "contended (ex x) = Uncontended")
    case True
    then have "clean x = (False, upd (ex x) (ev x) x)" using cl c by (simp add: clean_def)
    then show ?thesis using Suc.prems True i w by (simp add: good_def upd_same)
  next
    case False
    have l2: "list_all2 (stage_locks False) (f # fs) (N # Ns)" using assms(1,2) stage_locks_first by simp
    define y where "y = upd e v x"
    have cy: "clean x = (True, y)" using cl False c by (simp add: clean_def y_def)
    have gy: "good refs y" and ry: "exec_ready (ex y)" using cl w by (simp_all add: good_def wf_upd y_def)
    obtain r z where z: "run_stages ex (f # fs) y = Some (r, z)" and gz: "good refs z" and dz: "contended (ex z) \<noteq> DRM_EXEC_DUMMY"
      and oz: "r = Body_done \<Longrightarrow> contended (ex z) = Uncontended \<and> {} \<union> \<Union> (set (N # Ns)) \<subseteq> rv ` set (objects (ex z))"
      and pz: "patience (k_ww (ev z)) + of_bool (r = Body_retry) \<le> patience (k_ww (ev y))"
      and ez: "\<And>e. r = Body_error e \<Longrightarrow> e \<noteq> 0" and tz: "r = Body_retry \<Longrightarrow> contended (ex z) \<noteq> Uncontended"
      by (rule run_stages_spec [OF l2 gy ry empty_subsetI]) (use assms(1) in auto)
    show ?thesis
    proof (cases "\<exists>ret. r = Body_error ret")
      case True
      then show ?thesis using cy z gz dz ez by (auto simp del: run_stages.simps)
    next
      case no: False
      have "contended (ex z) \<noteq> Uncontended \<or> N \<union> \<Union> (set Ns) \<subseteq> rv ` set (objects (ex z))" using no oz tz by (cases r) auto
      moreover have "patience (k_ww (ev z)) + of_bool (contended (ex z) \<noteq> Uncontended) < n"
        using no oz tz pz p Suc.prems(3) False by (cases r) (auto simp: y_def)
      ultimately obtain ret x' where l: "drm_exec_until_all_locked n ex clean (f # fs) z = Some (ret, x')" and g': "good refs x'"
        "contended (ex x') \<noteq> DRM_EXEC_DUMMY"
        "ret = 0 \<longrightarrow> contended (ex x') = Uncontended \<and> N \<union> \<Union> (set Ns) \<subseteq> rv ` set (objects (ex x'))"
        and e: "ret = 0 \<longrightarrow> x' = z \<and> contended (ex z) = Uncontended \<or>
          (\<exists>y. good refs y \<and> exec_ready (ex y) \<and> run_stages ex (f # fs) y = Some (Body_done, x'))"
        using Suc.IH [OF gz] by blast
      have "r = Body_done" if "contended (ex z) = Uncontended" using that no tz by (cases r) auto
      then have "ret = 0 \<longrightarrow> (\<exists>y. good refs y \<and> exec_ready (ex y) \<and> run_stages ex (f # fs) y = Some (Body_done, x'))"
        using e gy ry z by blast
      then show ?thesis using l g' cy z no by (cases r) (auto simp del: run_stages.simps)
    qed
  qed
qed simp

text \<open>A stage that prepares the objects of an array.\<close>

lemma prepare_obj_good:
  assumes "good refs x" and "exec_ready (ex x)"
  obtains ret e v where "drm_exec_prepare_obj ww rv obj n (ex x) (ev x) = Some (ret, e, v)"
    and "good refs (upd e v x)" and "contended e \<noteq> DRM_EXEC_DUMMY"
    and "ret = 0 \<Longrightarrow> set (objects (ex x)) \<subseteq> set (objects e) \<and> rv obj \<in> rv ` set (objects e)"
    and "contended e \<noteq> Uncontended \<Longrightarrow> ret \<noteq> 0"
    and "patience (k_ww v) + of_bool (contended e \<noteq> Uncontended) \<le> patience (k_ww (ev x))"
proof -
  from assms have i: "exec_inv held rv refs (ex x) (ev x)" and w: "wf x" by (auto simp: good_def wf_upd)
  show thesis
    by (rule prepare_obj_spec [OF i assms(2), of obj n]) (use w in \<open>auto intro!: that simp: good_def wf_upd\<close>)
qed

lemma prepare_array_spec:
  assumes "good refs x" and "exec_ready (ex x)" and "objs \<noteq> [] \<or> contended (ex x) = Uncontended"
  shows "\<exists>ret e v. drm_exec_prepare_array ww rv objs n (ex x) (ev x) = Some (ret, e, v) \<and> good refs (upd e v x) \<and>
        contended e \<noteq> DRM_EXEC_DUMMY \<and> (contended e \<noteq> Uncontended \<longrightarrow> ret \<noteq> 0) \<and>
        (ret = 0 \<longrightarrow> set (objects (ex x)) \<subseteq> set (objects e) \<and> rv ` set objs \<subseteq> rv ` set (objects e)) \<and>
        patience (k_ww v) + of_bool (contended e \<noteq> Uncontended) \<le> patience (k_ww (ev x))"
  using assms
proof (induction objs arbitrary: x)
  case Nil
  then show ?case by (simp add: good_def wf_upd exec_ready_def)
next
  case (Cons obj objs)
  obtain ret e v where o: "drm_exec_prepare_obj ww rv obj n (ex x) (ev x) = Some (ret, e, v)"
    and g: "good refs (upd e v x)" and d: "contended e \<noteq> DRM_EXEC_DUMMY"
    and z: "ret = 0 \<Longrightarrow> set (objects (ex x)) \<subseteq> set (objects e) \<and> rv obj \<in> rv ` set (objects e)"
    and c: "contended e \<noteq> Uncontended \<Longrightarrow> ret \<noteq> 0"
    and p: "patience (k_ww v) + of_bool (contended e \<noteq> Uncontended) \<le> patience (k_ww (ev x))"
    by (rule prepare_obj_good [OF Cons.prems(1,2), of obj n]) blast
  show ?case
  proof (cases "ret = 0")
    case False
    then show ?thesis using o g d c p by simp
  next
    case True
    with c have u: "contended (ex (upd e v x)) = Uncontended" by auto
    then have "exec_ready (ex (upd e v x))" by (simp add: exec_ready_def)
    from Cons.IH [OF g this] u obtain ret' e' v' where
      "drm_exec_prepare_array ww rv objs n e v = Some (ret', e', v')" and "good refs (upd e' v' (upd e v x))"
      and "contended e' \<noteq> DRM_EXEC_DUMMY" and "contended e' \<noteq> Uncontended \<longrightarrow> ret' \<noteq> 0"
      and "ret' = 0 \<longrightarrow> set (objects e) \<subseteq> set (objects e') \<and> rv ` set objs \<subseteq> rv ` set (objects e')"
      and "patience (k_ww v') + of_bool (contended e' \<noteq> Uncontended) \<le> patience (k_ww v)" by auto
    then show ?thesis using True o p z u
      by (intro exI [of _ ret'] exI [of _ e'] exI [of _ v']) (auto simp: good_def wf_upd)
  qed
qed

lemma prepare_array_locks:
  assumes "objs \<noteq> [] \<or> \<not> first"
  shows "stage_locks first (\<lambda>x. map_option (\<lambda>(ret, e, v). (ret, upd e v x))
           (drm_exec_prepare_array ww rv objs n (ex x) (ev x))) (rv ` set objs)"
  unfolding stage_locks_def
proof (intro allI impI)
  fix refs x
  assume x: "good refs x" "exec_ready (ex x)" "first \<or> contended (ex x) = Uncontended"
  from prepare_array_spec [OF x(1,2), of objs n] x(3) assms obtain ret e v where
    "drm_exec_prepare_array ww rv objs n (ex x) (ev x) = Some (ret, e, v)" and "good refs (upd e v x)"
    and "contended e \<noteq> DRM_EXEC_DUMMY" and "contended e \<noteq> Uncontended \<longrightarrow> ret \<noteq> 0"
    and "ret = 0 \<longrightarrow> set (objects (ex x)) \<subseteq> set (objects e) \<and> rv ` set objs \<subseteq> rv ` set (objects e)"
    and "patience (k_ww v) + of_bool (contended e \<noteq> Uncontended) \<le> patience (k_ww (ev x))" by blast
  then show "\<exists>ret x'. map_option (\<lambda>(ret, e, v). (ret, upd e v x)) (drm_exec_prepare_array ww rv objs n (ex x) (ev x)) = Some (ret, x') \<and>
      good refs x' \<and> contended (ex x') \<noteq> DRM_EXEC_DUMMY \<and> (contended (ex x') \<noteq> Uncontended \<longrightarrow> ret \<noteq> 0) \<and>
      (ret = 0 \<longrightarrow> set (objects (ex x)) \<subseteq> set (objects (ex x')) \<and> rv ` set objs \<subseteq> rv ` set (objects (ex x'))) \<and>
      patience (k_ww (ev x')) + of_bool (contended (ex x') \<noteq> Uncontended) \<le> patience (k_ww (ev x))"
    by (intro exI [of _ ret] exI [of _ "upd e v x"]) simp
qed

end

text \<open>The context alone with its environment.\<close>

definition exec_clean :: "'w ww_ops \<Rightarrow> (nat \<Rightarrow> nat) \<Rightarrow> drm_exec \<times> 'w kenv \<Rightarrow> bool \<times> drm_exec \<times> 'w kenv" where
  "exec_clean ww rv x = drm_exec_cleanup ww rv (fst x) (snd x)"

lemma exec_clientI: "ww_lib ww held patience \<Longrightarrow> exec_client ww held patience fst snd (\<lambda>e v x. (e, v)) (\<lambda>_. True)"
  by (simp add: exec_client_def exec_client_axioms_def)

lemma init_inv:
  "held (k_ww env) = {} \<Longrightarrow> drm_exec_init flags nr env = (exec, env') \<Longrightarrow>
   exec_inv held rv (k_refs env) exec env' \<and> contended exec = DRM_EXEC_DUMMY \<and> k_ww env' = k_ww env"
  by (auto simp: drm_exec_init_def exec_inv_def split: prod.splits dest!: kalloc_same)

section \<open>A lock class\<close>

text \<open>An instance of the lock class: the other parties are a script of what the next attempts on free
  locks meet.\<close>

datatype other_party = Gives_way | Wins | Signals

record plain_ww =
  pw_held :: "nat list"
  pw_script :: "other_party list"

definition plain_lock :: "bool \<Rightarrow> nat \<Rightarrow> plain_ww \<Rightarrow> int \<times> plain_ww" where
  "plain_lock interruptible r w =
     (if r \<in> set (pw_held w) then (neg_errno EALREADY, w)
      else case pw_script w of
        [] \<Rightarrow> (0, w\<lparr>pw_held := r # pw_held w\<rparr>)
      | p # ps \<Rightarrow>
          if p = Wins then (neg_errno EDEADLK, w\<lparr>pw_script := ps\<rparr>)
          else if p = Signals \<and> interruptible then (neg_errno EINTR, w\<lparr>pw_script := ps\<rparr>)
          else (0, w\<lparr>pw_held := r # pw_held w, pw_script := ps\<rparr>))"

definition plain_ops :: "plain_ww ww_ops" where
  "plain_ops = \<lparr>resv_lock = plain_lock False, resv_lock_interruptible = plain_lock True,
     resv_lock_slow = (\<lambda>r w. w\<lparr>pw_held := r # pw_held w\<rparr>),
     resv_lock_slow_interruptible = (\<lambda>r w. (0, w\<lparr>pw_held := r # pw_held w\<rparr>)),
     resv_unlock = (\<lambda>r w. w\<lparr>pw_held := removeAll r (pw_held w)\<rparr>),
     resv_reserve_fences = (\<lambda>r n w. (0, w))\<rparr>"

interpretation plain: ww_lib plain_ops "\<lambda>w. set (pw_held w)" "\<lambda>w. length (pw_script w)"
  by unfold_locales
    (auto simp: plain_ops_def plain_lock_def split: if_splits list.splits other_party.splits)

interpretation plain_exec: exec_client plain_ops "\<lambda>w. set (pw_held w)" "\<lambda>w. length (pw_script w)" rv fst snd
    "\<lambda>e v x. (e, v)" "\<lambda>_. True" for rv
  by (rule exec_clientI) (rule plain.ww_lib_axioms)

section \<open>Properties\<close>

text \<open>
  C6. Whatever the lock class does, a loop that prepares an array of objects ends: with all of them locked if it returns 0,
  and in every case, success, error or interruption, the locks held are exactly those of the objects the context
  tracks, and \<open>drm_exec_fini\<close> releases all locks and gives back every reference that was taken.
\<close>

theorem exec_locks_all_or_nothing:
  assumes ww: "ww_lib ww held patience" and h: "held (k_ww env) = {}" and objs: "objs \<noteq> []"
    and init: "drm_exec_init flags nr env = (exec, env0)" and fuel: "patience (k_ww env) + 1 < fuel"
  shows "\<exists>ret exec' env'.
     drm_exec_until_all_locked fuel fst (exec_clean ww rv)
       [\<lambda>x. drm_exec_prepare_array ww rv objs n (fst x) (snd x)] (exec, env0) = Some (ret, exec', env') \<and>
     (ret = 0 \<longrightarrow> rv ` set objs \<subseteq> held (k_ww env')) \<and>
     held (k_ww env') = rv ` set (objects exec') \<and> distinct (map rv (objects exec')) \<and>
     held (k_ww (drm_exec_fini ww rv exec' env')) = {} \<and>
     k_refs (drm_exec_fini ww rv exec' env') = k_refs env"
proof -
  note lib = exec_clientI [OF ww]
  note i = init_inv [where held = held and rv = rv, OF h init]
  have g: "exec_client.good held rv fst snd (\<lambda>_. True) (k_refs env) (exec, env0)"
    unfolding exec_client.good_def [OF lib] using i by simp
  have c: "exec_client.clean ww rv fst snd (\<lambda>e v x. (e, v)) = exec_clean ww rv"
    unfolding exec_client.clean_def [OF lib] exec_clean_def by (simp add: fun_eq_iff split: prod.split)
  have s: "exec_client.stage_locks held patience rv fst snd (\<lambda>_. True) True
      (\<lambda>x. drm_exec_prepare_array ww rv objs n (fst x) (snd x)) (rv ` set objs)"
    using exec_client.prepare_array_locks [OF lib, of objs True rv n] objs by (simp add: option.map_id)
  have "patience (k_ww (snd (exec, env0))) + of_bool (contended (fst (exec, env0)) \<noteq> Uncontended) < fuel"
    using i fuel by simp
  from exec_client.until_all_locked_spec [OF lib s list.rel_intros(1) g _ this, unfolded c] i
  obtain ret exec' env' where l: "drm_exec_until_all_locked fuel fst (exec_clean ww rv)
       [\<lambda>x. drm_exec_prepare_array ww rv objs n (fst x) (snd x)] (exec, env0) = Some (ret, exec', env')"
    and gx: "exec_client.good held rv fst snd (\<lambda>_. True) (k_refs env) (exec', env')"
    and z: "ret = 0 \<longrightarrow> rv ` set objs \<subseteq> rv ` set (objects exec')" by auto
  from gx have v: "exec_inv held rv (k_refs env) exec' env'" unfolding exec_client.good_def [OF lib] by simp
  show ?thesis using l z v ww_lib.fini_spec [OF ww v] by (simp add: exec_inv_def)
qed

definition ex_env :: "plain_ww kenv" where
  "ex_env = \<lparr>k_ww = \<lparr>pw_held = [], pw_script = [Gives_way, Wins, Gives_way]\<rparr>, k_refs = (\<lambda>_. 1), k_allocs = []\<rparr>"

theorem exec_locks_all_or_nothing_witness:
  "\<exists>exec' env'. drm_exec_until_all_locked 5 fst (exec_clean plain_ops id)
       [\<lambda>x. drm_exec_prepare_array plain_ops id [7, 8, 9] 1 (fst x) (snd x)] (drm_exec_init 0 4 ex_env) = Some (0, exec', env') \<and>
     objects exec' = [8, 7, 9] \<and> {7, 8, 9} \<subseteq> set (pw_held (k_ww env')) \<and>
     set (pw_held (k_ww (drm_exec_fini plain_ops id exec' env'))) = {} \<and>
     k_refs (drm_exec_fini plain_ops id exec' env') = k_refs ex_env"
proof -
  obtain exec env where i: "drm_exec_init 0 4 ex_env = (exec, env)" by (rule prod.exhaust)
  have "map_option (\<lambda>(r, e, v). (r, objects e)) (drm_exec_until_all_locked 5 fst (exec_clean plain_ops id)
       [\<lambda>x. drm_exec_prepare_array plain_ops id [7, 8, 9] 1 (fst x) (snd x)] (drm_exec_init 0 4 ex_env)) = Some (0, [8, 7, 9])"
    by code_simp
  with i exec_locks_all_or_nothing [OF plain.ww_lib_axioms _ _ i, of "[7, 8, 9]" 5 id 1] show ?thesis
    by (auto simp: ex_env_def)
qed

end
