(* ===== verification/GPUVM_BO.thy ===== *)
theory GPUVM_BO
  imports GPUVA DRM_Exec
begin

text \<open>
  The buffer object bookkeeping of \<open>drm_gpuvm.c\<close>: a \<open>struct drm_gpuvm_bo\<close> stands for a GEM object in
  an address space, is reference counted, lists the mappings of the object, and is an entry of the object's list and of
  the lists of external and of evicted objects of the address space. Objects that lose their last reference are
  destroyed at once or put on a list for a later clean up.

  The world has the live \<open>drm_gpuvm_bo\<close>s by address (\<open>None\<close>: not allocated or freed), the list of every
  GEM object, the address spaces, and the back pointer \<open>va->vm_bo\<close> of every mapping. A list entry is on a list
  exactly if its owner is an element of the list, or of the local list that a running iteration has taken it to. \<open>rv\<close>
  gives \<open>obj->resv\<close> as in \<^theory_text>\<open>DRM_Exec\<close>. A result \<open>None\<close> is an access to freed memory or a reference count
  that drops below zero. The driver's \<open>vm_bo_alloc\<close> is taken to return zeroed memory like the default does.
\<close>

section \<open>State\<close>

record drm_gpuvm_bo =
  bo_vm :: nat
  bo_obj :: nat
  bo_evicted :: bool
  bo_kref :: nat
  bo_gpuva :: "nat list"

record bo_vm =
  vm_base :: drm_gpuvm
  r_obj :: nat
  extobj_local :: "nat list option"
  evict_local :: "nat list option"

record 'w bo_world =
  w_env :: "'w kenv"
  w_next :: nat
  w_bos :: "nat \<Rightarrow> drm_gpuvm_bo option"
  w_gem :: "nat \<Rightarrow> nat list"
  w_vm :: "nat \<Rightarrow> bo_vm"
  w_va_bo :: "nat \<Rightarrow> nat option"

definition drm_gpuvm_resv_protected :: "bo_vm \<Rightarrow> bool" where
  "drm_gpuvm_resv_protected vm \<longleftrightarrow> bit (vm_flags (vm_base vm)) 0"

definition drm_gpuvm_immediate_mode :: "bo_vm \<Rightarrow> bool" where
  "drm_gpuvm_immediate_mode vm \<longleftrightarrow> bit (vm_flags (vm_base vm)) 1"

definition drm_gpuvm_is_extobj :: "(nat \<Rightarrow> nat) \<Rightarrow> bo_vm \<Rightarrow> nat \<Rightarrow> bool" where
  "drm_gpuvm_is_extobj rv vm obj \<longleftrightarrow> rv obj \<noteq> rv (r_obj vm)"

definition vm_WARN :: "bool \<Rightarrow> nat \<Rightarrow> 'w bo_world \<Rightarrow> 'w bo_world" where
  "vm_WARN c v w = w\<lparr>w_vm := (w_vm w)(v := (w_vm w v)\<lparr>vm_base := drm_WARN c (vm_base (w_vm w v))\<rparr>)\<rparr>"

definition set_bo :: "nat \<Rightarrow> drm_gpuvm_bo \<Rightarrow> 'w bo_world \<Rightarrow> 'w bo_world" where
  "set_bo p bo w = w\<lparr>w_bos := (w_bos w)(p := Some bo)\<rparr>"

section \<open>The lists of an address space\<close>

datatype list_name = Extobj | Evict

fun get_list :: "list_name \<Rightarrow> bo_vm \<Rightarrow> nat list" where
  "get_list Extobj vm = extobj_list (vm_base vm)"
| "get_list Evict vm = evict_list (vm_base vm)"

fun set_list :: "list_name \<Rightarrow> nat list \<Rightarrow> bo_vm \<Rightarrow> bo_vm" where
  "set_list Extobj xs vm = vm\<lparr>vm_base := (vm_base vm)\<lparr>extobj_list := xs\<rparr>\<rparr>"
| "set_list Evict xs vm = vm\<lparr>vm_base := (vm_base vm)\<lparr>evict_list := xs\<rparr>\<rparr>"

fun get_local :: "list_name \<Rightarrow> bo_vm \<Rightarrow> nat list option" where
  "get_local Extobj vm = extobj_local vm"
| "get_local Evict vm = evict_local vm"

fun set_local :: "list_name \<Rightarrow> nat list option \<Rightarrow> bo_vm \<Rightarrow> bo_vm" where
  "set_local Extobj l vm = vm\<lparr>extobj_local := l\<rparr>"
| "set_local Evict l vm = vm\<lparr>evict_local := l\<rparr>"

text \<open>The elements on the list or its local list.\<close>

definition entries :: "list_name \<Rightarrow> bo_vm \<Rightarrow> nat list" where
  "entries name vm = (case get_local name vm of None \<Rightarrow> [] | Some l \<Rightarrow> l) @ get_list name vm"

definition raw_drm_gpuvm_bo_list_add :: "list_name \<Rightarrow> nat \<Rightarrow> bo_vm \<Rightarrow> bo_vm" where
  "raw_drm_gpuvm_bo_list_add name p vm =
     (if p \<in> set (entries name vm) then vm else set_list name (get_list name vm @ [p]) vm)"

definition raw_drm_gpuvm_bo_list_del :: "list_name \<Rightarrow> nat \<Rightarrow> bo_vm \<Rightarrow> bo_vm" where
  "raw_drm_gpuvm_bo_list_del name p vm =
     set_local name (map_option (remove1 p) (get_local name vm)) (set_list name (remove1 p (get_list name vm)) vm)"

definition on_vm :: "nat \<Rightarrow> (bo_vm \<Rightarrow> bo_vm) \<Rightarrow> 'w bo_world \<Rightarrow> 'w bo_world" where
  "on_vm v f w = w\<lparr>w_vm := (w_vm w)(v := f (w_vm w v))\<rparr>"

definition drm_gpuvm_bo_is_zombie :: "drm_gpuvm_bo \<Rightarrow> bool" where
  "drm_gpuvm_bo_is_zombie bo \<longleftrightarrow> bo_kref bo = 0"

section \<open>Creation and destruction\<close>

definition drm_gpuvm_bo_get :: "nat \<Rightarrow> 'w bo_world \<Rightarrow> 'w bo_world option" where
  "drm_gpuvm_bo_get p w = do {
     bo \<leftarrow> w_bos w p;
     if bo_kref bo = 0 then None else Some (set_bo p (bo\<lparr>bo_kref := bo_kref bo + 1\<rparr>) w)
   }"

definition drm_gpuvm_bo_create :: "nat \<Rightarrow> nat \<Rightarrow> 'w bo_world \<Rightarrow> nat option \<times> 'w bo_world" where
  "drm_gpuvm_bo_create v obj w =
     (case kalloc (w_env w) of
        (False, env) \<Rightarrow> (None, w\<lparr>w_env := env\<rparr>)
      | (True, env) \<Rightarrow>
          let p = w_next w;
              w = on_vm v (\<lambda>vm. vm\<lparr>vm_base := drm_gpuvm_get (vm_base vm)\<rparr>) (w\<lparr>w_next := p + 1\<rparr>);
              w = set_bo p \<lparr>bo_vm = v, bo_obj = obj, bo_evicted = False, bo_kref = 1, bo_gpuva = []\<rparr> w
          in (Some p, w\<lparr>w_env := drm_gem_object_get obj env\<rparr>))"

definition drm_gpuvm_bo_destroy_not_in_lists :: "drm_gpuva rb_lib \<Rightarrow> nat \<Rightarrow> 'w bo_world \<Rightarrow> 'w bo_world option" where
  "drm_gpuvm_bo_destroy_not_in_lists lib p w = do {
     bo \<leftarrow> w_bos w p;
     base \<leftarrow> drm_gpuvm_put lib (vm_base (w_vm w (bo_vm bo)));
     let w = on_vm (bo_vm bo) (\<lambda>vm. vm\<lparr>vm_base := base\<rparr>) (w\<lparr>w_bos := (w_bos w)(p := None)\<rparr>);
     Some (w\<lparr>w_env := drm_gem_object_put (Some (bo_obj bo)) (w_env w)\<rparr>)
   }"

definition gem_list_del :: "nat \<Rightarrow> nat \<Rightarrow> 'w bo_world \<Rightarrow> 'w bo_world" where
  "gem_list_del obj p w = w\<lparr>w_gem := (w_gem w)(obj := remove1 p (w_gem w obj))\<rparr>"

definition drm_gpuvm_bo_destroy :: "drm_gpuva rb_lib \<Rightarrow> nat \<Rightarrow> 'w bo_world \<Rightarrow> 'w bo_world option" where
  "drm_gpuvm_bo_destroy lib p w = do {
     bo \<leftarrow> w_bos w p;
     let w = on_vm (bo_vm bo) (raw_drm_gpuvm_bo_list_del Extobj p) w;
     let w = on_vm (bo_vm bo) (raw_drm_gpuvm_bo_list_del Evict p) w;
     drm_gpuvm_bo_destroy_not_in_lists lib p (gem_list_del (bo_obj bo) p w)
   }"

text \<open>\<open>kref_put\<close> with a release function; the result tells whether it was called.\<close>

definition kref_put :: "(nat \<Rightarrow> 'w bo_world \<Rightarrow> 'w bo_world option) \<Rightarrow> nat \<Rightarrow> 'w bo_world \<Rightarrow> (bool \<times> 'w bo_world) option" where
  "kref_put release p w = do {
     bo \<leftarrow> w_bos w p;
     let w' = set_bo p (bo\<lparr>bo_kref := bo_kref bo - 1\<rparr>) w;
     if bo_kref bo = 0 then None
     else if bo_kref bo = 1 then map_option (Pair True) (release p w')
     else Some (False, w')
   }"

definition drm_gpuvm_bo_put :: "drm_gpuva rb_lib \<Rightarrow> nat option \<Rightarrow> 'w bo_world \<Rightarrow> (bool \<times> 'w bo_world) option" where
  "drm_gpuvm_bo_put lib p w =
     (case p of None \<Rightarrow> Some (False, w) | Some p \<Rightarrow> kref_put (drm_gpuvm_bo_destroy lib) p w)"

definition drm_gpuvm_bo_into_zombie :: "nat \<Rightarrow> 'w bo_world \<Rightarrow> 'w bo_world option" where
  "drm_gpuvm_bo_into_zombie p w = do {
     bo \<leftarrow> w_bos w p;
     let w = (if drm_gpuvm_resv_protected (w_vm w (bo_vm bo)) then w
              else on_vm (bo_vm bo) (raw_drm_gpuvm_bo_list_del Evict p \<circ> raw_drm_gpuvm_bo_list_del Extobj p) w);
     Some (gem_list_del (bo_obj bo) p w)
   }"

definition drm_gpuvm_bo_defer_zombie_cleanup :: "nat \<Rightarrow> 'w bo_world \<Rightarrow> 'w bo_world option" where
  "drm_gpuvm_bo_defer_zombie_cleanup p w = do {
     bo \<leftarrow> w_bos w p;
     Some (on_vm (bo_vm bo) (\<lambda>vm. vm\<lparr>vm_base := (vm_base vm)\<lparr>bo_defer := p # bo_defer (vm_base vm)\<rparr>\<rparr>) w)
   }"

definition drm_gpuvm_bo_defer_free :: "nat \<Rightarrow> 'w bo_world \<Rightarrow> 'w bo_world option" where
  "drm_gpuvm_bo_defer_free p w = do {
     w \<leftarrow> drm_gpuvm_bo_into_zombie p w;
     drm_gpuvm_bo_defer_zombie_cleanup p w
   }"

definition drm_gpuvm_bo_put_deferred :: "nat option \<Rightarrow> 'w bo_world \<Rightarrow> (bool \<times> 'w bo_world) option" where
  "drm_gpuvm_bo_put_deferred p w =
     (case p of
        None \<Rightarrow> Some (False, w)
      | Some p \<Rightarrow> do {
          bo \<leftarrow> w_bos w p;
          let w = vm_WARN (\<not> drm_gpuvm_immediate_mode (w_vm w (bo_vm bo))) (bo_vm bo) w;
          kref_put drm_gpuvm_bo_defer_free p w
        })"

fun destroy_all :: "drm_gpuva rb_lib \<Rightarrow> nat list \<Rightarrow> 'w bo_world \<Rightarrow> 'w bo_world option" where
  "destroy_all lib [] w = Some w"
| "destroy_all lib (p # ps) w = do { w \<leftarrow> drm_gpuvm_bo_destroy_not_in_lists lib p w; destroy_all lib ps w }"

definition drm_gpuvm_bo_deferred_cleanup :: "drm_gpuva rb_lib \<Rightarrow> nat \<Rightarrow> 'w bo_world \<Rightarrow> 'w bo_world option" where
  "drm_gpuvm_bo_deferred_cleanup lib v w = (
     let defer' = bo_defer (vm_base (w_vm w v));
         w = on_vm v (\<lambda>vm. vm\<lparr>vm_base := (vm_base vm)\<lparr>bo_defer := []\<rparr>\<rparr>) w
     in if defer' = [] then Some w
        else
          let w = (if drm_gpuvm_resv_protected (w_vm w v)
                   then on_vm v (fold (\<lambda>p. raw_drm_gpuvm_bo_list_del Evict p \<circ> raw_drm_gpuvm_bo_list_del Extobj p) defer') w
                   else w)
          in destroy_all lib defer' w)"

section \<open>Lookup\<close>

definition raw_drm_gpuvm_bo_find :: "nat \<Rightarrow> nat \<Rightarrow> 'w bo_world \<Rightarrow> nat option" where
  "raw_drm_gpuvm_bo_find v obj w = find (\<lambda>p. map_option bo_vm (w_bos w p) = Some v) (w_gem w obj)"

definition drm_gpuvm_bo_find :: "nat \<Rightarrow> nat \<Rightarrow> 'w bo_world \<Rightarrow> (nat option \<times> 'w bo_world) option" where
  "drm_gpuvm_bo_find v obj w =
     (case raw_drm_gpuvm_bo_find v obj w of
        None \<Rightarrow> Some (None, w)
      | Some p \<Rightarrow> map_option (Pair (Some p)) (drm_gpuvm_bo_get p w))"

definition gem_list_add_tail :: "nat \<Rightarrow> nat \<Rightarrow> 'w bo_world \<Rightarrow> 'w bo_world" where
  "gem_list_add_tail obj p w = w\<lparr>w_gem := (w_gem w)(obj := w_gem w obj @ [p])\<rparr>"

definition drm_gpuvm_bo_obtain_locked :: "nat \<Rightarrow> nat \<Rightarrow> 'w bo_world \<Rightarrow> ((int + nat) \<times> 'w bo_world) option" where
  "drm_gpuvm_bo_obtain_locked v obj w = do {
     let w = vm_WARN (drm_gpuvm_immediate_mode (w_vm w v)) v w;
     (found, w) \<leftarrow> drm_gpuvm_bo_find v obj w;
     case found of
       Some p \<Rightarrow> Some (Inr p, w)
     | None \<Rightarrow>
         (case drm_gpuvm_bo_create v obj w of
            (None, w) \<Rightarrow> Some (Inl (neg_errno ENOMEM), w)
          | (Some p, w) \<Rightarrow> Some (Inr p, gem_list_add_tail obj p w))
   }"

definition drm_gpuvm_bo_obtain_prealloc :: "drm_gpuva rb_lib \<Rightarrow> nat \<Rightarrow> 'w bo_world \<Rightarrow> (nat \<times> 'w bo_world) option" where
  "drm_gpuvm_bo_obtain_prealloc lib p w = do {
     bo \<leftarrow> w_bos w p;
     let w = vm_WARN (\<not> drm_gpuvm_immediate_mode (w_vm w (bo_vm bo))) (bo_vm bo) w;
     (found, w) \<leftarrow> drm_gpuvm_bo_find (bo_vm bo) (bo_obj bo) w;
     case found of
       Some q \<Rightarrow> map_option (\<lambda>(_, w). (q, w)) (kref_put (drm_gpuvm_bo_destroy_not_in_lists lib) p w)
     | None \<Rightarrow> Some (p, gem_list_add_tail (bo_obj bo) p w)
   }"

section \<open>External and evicted objects\<close>

definition drm_gpuvm_bo_extobj_add :: "(nat \<Rightarrow> nat) \<Rightarrow> nat \<Rightarrow> 'w bo_world \<Rightarrow> 'w bo_world option" where
  "drm_gpuvm_bo_extobj_add rv p w = do {
     bo \<leftarrow> w_bos w p;
     Some (if drm_gpuvm_is_extobj rv (w_vm w (bo_vm bo)) (bo_obj bo)
           then on_vm (bo_vm bo) (raw_drm_gpuvm_bo_list_add Extobj p) w else w)
   }"

definition drm_gpuvm_bo_evict :: "(nat \<Rightarrow> nat) \<Rightarrow> nat \<Rightarrow> bool \<Rightarrow> 'w bo_world \<Rightarrow> 'w bo_world option" where
  "drm_gpuvm_bo_evict rv p evict w = do {
     bo \<leftarrow> w_bos w p;
     let vm = w_vm w (bo_vm bo);
     let w = set_bo p (bo\<lparr>bo_evicted := evict\<rparr>) w;
     Some (if drm_gpuvm_is_extobj rv vm (bo_obj bo) \<and> drm_gpuvm_resv_protected vm then w
           else if evict then on_vm (bo_vm bo) (raw_drm_gpuvm_bo_list_add Evict p) w
           else on_vm (bo_vm bo) (raw_drm_gpuvm_bo_list_del Evict p) w)
   }"

fun evict_all :: "(nat \<Rightarrow> nat) \<Rightarrow> nat list \<Rightarrow> bool \<Rightarrow> 'w bo_world \<Rightarrow> 'w bo_world option" where
  "evict_all rv [] evict w = Some w"
| "evict_all rv (p # ps) evict w = do { w \<leftarrow> drm_gpuvm_bo_evict rv p evict w; evict_all rv ps evict w }"

definition drm_gpuvm_bo_gem_evict :: "(nat \<Rightarrow> nat) \<Rightarrow> nat \<Rightarrow> bool \<Rightarrow> 'w bo_world \<Rightarrow> 'w bo_world option" where
  "drm_gpuvm_bo_gem_evict rv obj evict w = evict_all rv (w_gem w obj) evict w"

section \<open>Linking mappings\<close>

definition drm_gpuva_link :: "drm_gpuva \<Rightarrow> nat \<Rightarrow> nat \<Rightarrow> 'w bo_world \<Rightarrow> 'w bo_world option" where
  "drm_gpuva_link va v p w =
     (case gem_obj va of
        None \<Rightarrow> Some w
      | Some obj \<Rightarrow> do {
          bo \<leftarrow> w_bos w p;
          let w = vm_WARN (obj \<noteq> bo_obj bo) v w;
          w \<leftarrow> drm_gpuvm_bo_get p w;
          bo \<leftarrow> w_bos w p;
          Some (set_bo p (bo\<lparr>bo_gpuva := bo_gpuva bo @ [va_ptr va]\<rparr>)
                  (w\<lparr>w_va_bo := (w_va_bo w)(va_ptr va := Some p)\<rparr>))
        })"

text \<open>\<open>list_del_init(&va->gem.entry)\<close> for a mapping that is linked or not.\<close>

definition gpuva_list_del :: "nat \<Rightarrow> nat option \<Rightarrow> 'w bo_world \<Rightarrow> 'w bo_world" where
  "gpuva_list_del a p w =
     (case Option.bind p (w_bos w) of
        None \<Rightarrow> w
      | Some bo \<Rightarrow> set_bo (the p) (bo\<lparr>bo_gpuva := remove1 a (bo_gpuva bo)\<rparr>) w)"

definition drm_gpuva_unlink :: "drm_gpuva rb_lib \<Rightarrow> drm_gpuva \<Rightarrow> 'w bo_world \<Rightarrow> 'w bo_world option" where
  "drm_gpuva_unlink lib va w =
     (case gem_obj va of
        None \<Rightarrow> Some w
      | Some obj \<Rightarrow>
          let p = w_va_bo w (va_ptr va);
              w = gpuva_list_del (va_ptr va) p w;
              w = w\<lparr>w_va_bo := (w_va_bo w)(va_ptr va := None)\<rparr>
          in map_option snd (drm_gpuvm_bo_put lib p w))"

definition drm_gpuva_unlink_defer :: "drm_gpuva \<Rightarrow> 'w bo_world \<Rightarrow> 'w bo_world option" where
  "drm_gpuva_unlink_defer va w =
     (case gem_obj va of
        None \<Rightarrow> Some w
      | Some obj \<Rightarrow> do {
          p \<leftarrow> w_va_bo w (va_ptr va);
          bo \<leftarrow> w_bos w p;
          let w = vm_WARN (\<not> drm_gpuvm_immediate_mode (w_vm w (bo_vm bo))) (bo_vm bo) w;
          let w = gpuva_list_del (va_ptr va) (Some p) w;
          (should_defer_bo, w) \<leftarrow> kref_put drm_gpuvm_bo_into_zombie p w;
          w \<leftarrow> (if should_defer_bo then drm_gpuvm_bo_defer_zombie_cleanup p w else Some w);
          Some (w\<lparr>w_va_bo := (w_va_bo w)(va_ptr va := None)\<rparr>)
        })"

end
