(* ===== verification/GPUVM_BO_Inv.thy ===== *)
theory GPUVM_BO_Inv
  imports GPUVM_BO
begin

text \<open>
  The invariant of the buffer object bookkeeping of \<^theory_text>\<open>GPUVM_BO\<close>: that every operation keeps it, that a driver which
  follows the rules of \<open>bo_allowed\<close> never makes an operation access freed memory, and what this says of the life time of
  address spaces and of the uniqueness of buffer objects.
\<close>

section \<open>The invariant\<close>

text \<open>
  The references the driver holds: to \<open>drm_gpuvm_bo\<close>s, to address spaces (including those of its mappings)
  and to GEM objects.
\<close>

record bo_holds =
  h_bo :: "nat \<Rightarrow> nat"
  h_vm :: "nat \<Rightarrow> nat"
  h_gem :: "nat \<Rightarrow> int"

type_synonym bo_heap = "nat \<Rightarrow> drm_gpuvm_bo option"

definition inv_heap :: "(nat \<Rightarrow> nat) \<Rightarrow> nat \<Rightarrow> bo_heap \<Rightarrow> bool" where
  "inv_heap h nxt bos \<longleftrightarrow>
     (\<forall>p bo. bos p = Some bo \<longrightarrow> p < nxt \<and> bo_kref bo = h p + length (bo_gpuva bo)) \<and> (\<forall>p. bos p = None \<longrightarrow> h p = 0)"

text \<open>Of an object the lists only depend on its address space, its GEM object, and whether it is a zombie.\<close>

definition bo_info :: "bo_heap \<Rightarrow> nat \<Rightarrow> (nat \<times> nat \<times> bool) option" where
  "bo_info bos p = map_option (\<lambda>bo. (bo_vm bo, bo_obj bo, bo_kref bo = 0)) (bos p)"

definition list_elem_ok :: "(nat \<Rightarrow> nat) \<Rightarrow> list_name \<Rightarrow> nat \<Rightarrow> bo_vm \<Rightarrow> (nat \<times> nat \<times> bool) option \<Rightarrow> bool" where
  "list_elem_ok rv name v vm i \<longleftrightarrow> (case i of
     None \<Rightarrow> False
   | Some (v', obj, zombie) \<Rightarrow> v' = v \<and> (zombie \<longrightarrow> drm_gpuvm_resv_protected vm) \<and>
       (name = Extobj \<longrightarrow> drm_gpuvm_is_extobj rv vm obj))"

definition inv_lists :: "(nat \<Rightarrow> nat) \<Rightarrow> (nat \<Rightarrow> (nat \<times> nat \<times> bool) option) \<Rightarrow> (nat \<Rightarrow> bo_vm) \<Rightarrow> bool" where
  "inv_lists rv info vms \<longleftrightarrow> (\<forall>v name. get_local name (vms v) = None \<and> distinct (get_list name (vms v)) \<and>
     (\<forall>p \<in> set (get_list name (vms v)). list_elem_ok rv name v (vms v) (info p)))"

definition inv_gem :: "(nat \<Rightarrow> (nat \<times> nat \<times> bool) option) \<Rightarrow> (nat \<Rightarrow> nat list) \<Rightarrow> bool" where
  "inv_gem info gem \<longleftrightarrow> (\<forall>obj. distinct (map (\<lambda>p. map_option fst (info p)) (gem obj)) \<and>
     (\<forall>p \<in> set (gem obj). \<exists>v. info p = Some (v, obj, False)))"

text \<open>\<open>Z\<close> are the zombies that are being destroyed. The other zombies wait for a clean up.\<close>

definition inv_zombies :: "nat set \<Rightarrow> (nat \<Rightarrow> (nat \<times> nat \<times> bool) option) \<Rightarrow> (nat \<Rightarrow> bo_vm) \<Rightarrow> bool" where
  "inv_zombies Z info vms \<longleftrightarrow> (\<forall>v. distinct (bo_defer (vm_base (vms v))) \<and>
     (\<forall>p. p \<in> set (bo_defer (vm_base (vms v))) \<longleftrightarrow> p \<notin> Z \<and> (\<exists>obj. info p = Some (v, obj, True)))) \<and>
     (\<forall>p \<in> Z. \<exists>v obj. info p = Some (v, obj, True))"

definition inv_links :: "bo_heap \<Rightarrow> (nat \<Rightarrow> nat list) \<Rightarrow> (nat \<Rightarrow> nat option) \<Rightarrow> bool" where
  "inv_links bos gem va_bo \<longleftrightarrow>
     (\<forall>p bo. bos p = Some bo \<longrightarrow> distinct (bo_gpuva bo) \<and> (\<forall>a. a \<in> set (bo_gpuva bo) \<longleftrightarrow> va_bo a = Some p) \<and>
        (bo_gpuva bo \<noteq> [] \<longrightarrow> p \<in> set (gem (bo_obj bo)))) \<and>
     (\<forall>a p. va_bo a = Some p \<longrightarrow> bos p \<noteq> None)"

definition in_vm :: "(nat \<Rightarrow> (nat \<times> nat \<times> bool) option) \<Rightarrow> nat \<Rightarrow> nat set" where
  "in_vm info v = {p. map_option fst (info p) = Some v}"

definition in_gem :: "(nat \<Rightarrow> (nat \<times> nat \<times> bool) option) \<Rightarrow> nat \<Rightarrow> nat set" where
  "in_gem info obj = {p. map_option (fst \<circ> snd) (info p) = Some obj}"

definition base_ok :: "nat \<Rightarrow> drm_gpuvm \<Rightarrow> bool" where
  "base_ok n base \<longleftrightarrow> vm_kref base = n \<and>
     (va_range (kernel_alloc_node base) \<noteq> 0 \<longrightarrow> va_vm (kernel_alloc_node base)) \<and> (0 < n \<longrightarrow> \<not> vm_freed base)"

definition inv_counts :: "bo_holds \<Rightarrow> (nat \<Rightarrow> (nat \<times> nat \<times> bool) option) \<Rightarrow> (nat \<Rightarrow> bo_vm) \<Rightarrow> (nat \<Rightarrow> int) \<Rightarrow> bool" where
  "inv_counts g info vms refs \<longleftrightarrow> finite (dom info) \<and>
     (\<forall>v. base_ok (h_vm g v + card (in_vm info v)) (vm_base (vms v))) \<and>
     (\<forall>obj. refs obj = h_gem g obj + int (card (in_gem info obj)))"

definition bo_inv_but :: "nat set \<Rightarrow> (nat \<Rightarrow> nat) \<Rightarrow> bo_holds \<Rightarrow> 'w bo_world \<Rightarrow> bool" where
  "bo_inv_but Z rv g w \<longleftrightarrow> inv_heap (h_bo g) (w_next w) (w_bos w) \<and> inv_lists rv (bo_info (w_bos w)) (w_vm w) \<and>
     inv_gem (bo_info (w_bos w)) (w_gem w) \<and> inv_zombies Z (bo_info (w_bos w)) (w_vm w) \<and>
     inv_links (w_bos w) (w_gem w) (w_va_bo w) \<and> inv_counts g (bo_info (w_bos w)) (w_vm w) (k_refs (w_env w))"

definition bo_inv :: "(nat \<Rightarrow> nat) \<Rightarrow> bo_holds \<Rightarrow> 'w bo_world \<Rightarrow> bool" where
  "bo_inv rv g w \<longleftrightarrow> bo_inv_but {} rv g w"

lemmas bo_inv_defs = bo_inv_def bo_inv_but_def

section \<open>Components of a changed world\<close>

lemma world_simps [simp]:
  "w_bos (set_bo p bo w) = (w_bos w)(p := Some bo)" "w_vm (set_bo p bo w) = w_vm w" "w_gem (set_bo p bo w) = w_gem w"
  "w_env (set_bo p bo w) = w_env w" "w_next (set_bo p bo w) = w_next w" "w_va_bo (set_bo p bo w) = w_va_bo w"
  "w_bos (on_vm v f w) = w_bos w" "w_vm (on_vm v f w) = (w_vm w)(v := f (w_vm w v))" "w_gem (on_vm v f w) = w_gem w"
  "w_env (on_vm v f w) = w_env w" "w_next (on_vm v f w) = w_next w" "w_va_bo (on_vm v f w) = w_va_bo w"
  "w_bos (gem_list_del obj p w) = w_bos w" "w_vm (gem_list_del obj p w) = w_vm w"
  "w_gem (gem_list_del obj p w) = (w_gem w)(obj := remove1 p (w_gem w obj))"
  "w_env (gem_list_del obj p w) = w_env w" "w_next (gem_list_del obj p w) = w_next w" "w_va_bo (gem_list_del obj p w) = w_va_bo w"
  "w_bos (gem_list_add_tail obj p w) = w_bos w" "w_vm (gem_list_add_tail obj p w) = w_vm w"
  "w_gem (gem_list_add_tail obj p w) = (w_gem w)(obj := w_gem w obj @ [p])"
  "w_env (gem_list_add_tail obj p w) = w_env w" "w_next (gem_list_add_tail obj p w) = w_next w"
  "w_va_bo (gem_list_add_tail obj p w) = w_va_bo w"
  by (simp_all add: set_bo_def on_vm_def gem_list_del_def gem_list_add_tail_def)

lemma vm_WARN_on_vm: "vm_WARN c v w = on_vm v (\<lambda>vm. vm\<lparr>vm_base := drm_WARN c (vm_base vm)\<rparr>) w"
  by (simp add: vm_WARN_def on_vm_def)

lemma get_set_list [simp]:
  "get_list n (set_list m xs vm) = (if n = m then xs else get_list n vm)" "get_local n (set_list m xs vm) = get_local n vm"
  "get_list n (set_local m l vm) = get_list n vm" "get_local n (set_local m l vm) = (if n = m then l else get_local n vm)"
  "get_local n (vm\<lparr>vm_base := b\<rparr>) = get_local n vm"
  by (cases n; cases m; simp)+

text \<open>What the list operations leave alone.\<close>

definition vm_frame :: "bo_vm \<Rightarrow> bo_vm \<Rightarrow> bool" where
  "vm_frame vm vm' \<longleftrightarrow> r_obj vm' = r_obj vm \<and> vm_flags (vm_base vm') = vm_flags (vm_base vm) \<and>
     vm_kref (vm_base vm') = vm_kref (vm_base vm) \<and> vm_freed (vm_base vm') = vm_freed (vm_base vm) \<and>
     kernel_alloc_node (vm_base vm') = kernel_alloc_node (vm_base vm)"

lemma vm_frame_simps [simp]:
  "vm_frame vm vm" "vm_frame vm (set_list n xs vm) " "vm_frame vm (set_local n l vm)"
  "vm_frame vm (vm\<lparr>vm_base := drm_WARN c (vm_base vm)\<rparr>)" "vm_frame vm (vm\<lparr>vm_base := (vm_base vm)\<lparr>bo_defer := d\<rparr>\<rparr>)"
  by (cases n; simp add: vm_frame_def drm_WARN_def)+

lemma vm_frame_trans: "vm_frame a b \<Longrightarrow> vm_frame b c \<Longrightarrow> vm_frame a c"
  by (simp add: vm_frame_def)

lemma bo_defer_simps [simp]:
  "bo_defer (vm_base (set_list n xs vm)) = bo_defer (vm_base vm)" "bo_defer (vm_base (set_local n l vm)) = bo_defer (vm_base vm)"
  by (cases n; simp)+

lemma list_del_simps [simp]:
  "get_list n (raw_drm_gpuvm_bo_list_del m p vm) = (if n = m then remove1 p (get_list n vm) else get_list n vm)"
  "get_local n vm = None \<Longrightarrow> get_local n (raw_drm_gpuvm_bo_list_del m p vm) = None"
  "bo_defer (vm_base (raw_drm_gpuvm_bo_list_del m p vm)) = bo_defer (vm_base vm)"
  "vm_frame vm (raw_drm_gpuvm_bo_list_del m p vm)"
  by (auto simp: raw_drm_gpuvm_bo_list_del_def intro: vm_frame_trans [OF vm_frame_simps(2) vm_frame_simps(3)])

lemma not_Extobj [simp]: "n \<noteq> Extobj \<longleftrightarrow> n = Evict" "n \<noteq> Evict \<longleftrightarrow> n = Extobj"
  by (cases n; simp)+

lemma defer_lists [simp]: "get_list n (vm\<lparr>vm_base := (vm_base vm)\<lparr>bo_defer := d\<rparr>\<rparr>) = get_list n vm"
  by (cases n) simp_all

lemma list_del_both:
  "get_list n (raw_drm_gpuvm_bo_list_del Evict p (raw_drm_gpuvm_bo_list_del Extobj p vm)) = remove1 p (get_list n vm)"
  by (cases n) (simp_all del: get_list.simps)

lemma list_add_simps [simp]:
  "get_local n (raw_drm_gpuvm_bo_list_add m p vm) = get_local n vm"
  "bo_defer (vm_base (raw_drm_gpuvm_bo_list_add m p vm)) = bo_defer (vm_base vm)"
  "vm_frame vm (raw_drm_gpuvm_bo_list_add m p vm)"
  by (auto simp: raw_drm_gpuvm_bo_list_add_def)

lemma list_add_list:
  "get_local m vm = None \<Longrightarrow> get_list n (raw_drm_gpuvm_bo_list_add m p vm) =
     (if n = m \<and> p \<notin> set (get_list m vm) then get_list n vm @ [p] else get_list n vm)"
  by (auto simp: raw_drm_gpuvm_bo_list_add_def entries_def)

lemma WARN_fields [simp]:
  "vm_kref (drm_WARN c base) = vm_kref base" "extobj_list (drm_WARN c base) = extobj_list base"
  "evict_list (drm_WARN c base) = evict_list base" "bo_defer (drm_WARN c base) = bo_defer base"
  "vm_flags (drm_WARN c base) = vm_flags base" "kernel_alloc_node (drm_WARN c base) = kernel_alloc_node base"
  "vm_freed (drm_WARN c base) = vm_freed base" "has_vm_free (drm_WARN c base) = has_vm_free base"
  by (simp_all add: drm_WARN_def)

lemma WARN_simps [simp]:
  "get_list n (vm\<lparr>vm_base := drm_WARN c (vm_base vm)\<rparr>) = get_list n vm"
  "get_local n (vm\<lparr>vm_base := drm_WARN c (vm_base vm)\<rparr>) = get_local n vm"
  by (cases n; simp)+

text \<open>Dropping a reference to an address space.\<close>

lemma gpuvm_put_frame:
  assumes "0 < vm_kref base" and "va_range (kernel_alloc_node base) \<noteq> 0 \<longrightarrow> va_vm (kernel_alloc_node base)"
  shows "\<exists>base'. drm_gpuvm_put lib base = Some base' \<and> vm_kref base' = vm_kref base - 1 \<and>
      extobj_list base' = extobj_list base \<and> evict_list base' = evict_list base \<and> bo_defer base' = bo_defer base \<and>
      vm_flags base' = vm_flags base \<and> kernel_alloc_node base' = kernel_alloc_node base \<and>
      (0 < vm_kref base' \<longrightarrow> vm_freed base' = vm_freed base)"
proof (cases "vm_kref base = 1")
  case True
  then show ?thesis using assms
    by (simp add: drm_gpuvm_put_def drm_gpuvm_free_def drm_gpuvm_fini_def raw_drm_gpuva_remove_def Let_def)
next
  case False
  then show ?thesis using assms by (simp add: drm_gpuvm_put_def)
qed

section \<open>Updates that keep parts of the invariant\<close>

lemma bo_info_upd:
  "bo_info (bos(p := Some bo)) = (bo_info bos)(p := Some (bo_vm bo, bo_obj bo, bo_kref bo = 0))"
  "bo_info (bos(p := None)) = (bo_info bos)(p := None)"
  by (auto simp: bo_info_def)

lemma bo_info_same:
  "bos p = Some bo \<Longrightarrow> bo_vm bo' = bo_vm bo \<Longrightarrow> bo_obj bo' = bo_obj bo \<Longrightarrow> (bo_kref bo' = 0) = (bo_kref bo = 0) \<Longrightarrow>
   bo_info (bos(p := Some bo')) = bo_info bos"
  by (auto simp: bo_info_def)

lemma vm_frame_preds:
  "vm_frame vm vm' \<Longrightarrow> drm_gpuvm_resv_protected vm' = drm_gpuvm_resv_protected vm"
  "vm_frame vm vm' \<Longrightarrow> drm_gpuvm_immediate_mode vm' = drm_gpuvm_immediate_mode vm"
  "vm_frame vm vm' \<Longrightarrow> drm_gpuvm_is_extobj rv vm' obj = drm_gpuvm_is_extobj rv vm obj"
  "vm_frame vm vm' \<Longrightarrow> list_elem_ok rv name v vm' i = list_elem_ok rv name v vm i"
  "vm_frame vm vm' \<Longrightarrow> base_ok n (vm_base vm') = base_ok n (vm_base vm)"
  by (simp_all add: vm_frame_def drm_gpuvm_resv_protected_def drm_gpuvm_immediate_mode_def drm_gpuvm_is_extobj_def
      list_elem_ok_def base_ok_def split: option.split)

text \<open>A change of one address space that keeps the frame.\<close>

lemma frame_upd:
  assumes "vm_frame (vms v) vm'"
  shows "inv_counts g info (vms(v := vm')) refs = inv_counts g info vms refs"
    and "bo_defer (vm_base vm') = bo_defer (vm_base (vms v)) \<Longrightarrow> inv_zombies {} info (vms(v := vm')) = inv_zombies {} info vms"
    and "inv_lists rv info vms \<Longrightarrow>
      (\<And>name. get_local name vm' = None \<and> distinct (get_list name vm') \<and>
         (\<forall>p \<in> set (get_list name vm'). list_elem_ok rv name v (vms v) (info p))) \<Longrightarrow> inv_lists rv info (vms(v := vm'))"
  using assms by (auto simp: inv_counts_def inv_zombies_def inv_lists_def vm_frame_preds)


section \<open>Objects that stay live\<close>

lemma inv_heapD: "inv_heap h nxt bos \<Longrightarrow> bos p = Some bo \<Longrightarrow> p < nxt \<and> bo_kref bo = h p + length (bo_gpuva bo)"
  by (auto simp: inv_heap_def)

lemma inv_heap_upd:
  "inv_heap h nxt bos \<Longrightarrow> bos p = Some bo \<Longrightarrow> bo_kref bo' = n + length (bo_gpuva bo') \<Longrightarrow>
   inv_heap (h(p := n)) nxt (bos(p := Some bo'))"
  by (auto simp: inv_heap_def)

lemma inv_links_upd:
  "inv_links bos gem va_bo \<Longrightarrow> bos p = Some bo \<Longrightarrow> bo_obj bo' = bo_obj bo \<Longrightarrow> bo_gpuva bo' = bo_gpuva bo \<Longrightarrow>
   inv_links (bos(p := Some bo')) gem va_bo"
  by (auto simp: inv_links_def)

lemma inv_counts_h_bo [simp]: "inv_counts (g\<lparr>h_bo := h\<rparr>) = inv_counts g"
  by (simp add: inv_counts_def fun_eq_iff)

lemma live_inv:
  assumes "bo_inv rv g w" and "w_bos w p = Some bo" and "bo_vm bo' = bo_vm bo" and "bo_obj bo' = bo_obj bo"
    and "bo_gpuva bo' = bo_gpuva bo" and "0 < bo_kref bo" and "0 < bo_kref bo'" and "bo_kref bo' = n + length (bo_gpuva bo)"
  shows "bo_inv rv (g\<lparr>h_bo := (h_bo g)(p := n)\<rparr>) (set_bo p bo' w)"
proof -
  have i: "bo_info ((w_bos w)(p := Some bo')) = bo_info (w_bos w)" using assms by (intro bo_info_same) auto
  show ?thesis using assms
    by (auto simp: bo_inv_defs i simp del: fun_upd_apply intro!: inv_heap_upd inv_links_upd)
qed

lemma bo_get_inv:
  assumes "bo_inv rv g w" and "w_bos w p = Some bo" and "0 < bo_kref bo"
  shows "\<exists>w'. drm_gpuvm_bo_get p w = Some w' \<and> bo_inv rv (g\<lparr>h_bo := (h_bo g)(p := h_bo g p + 1)\<rparr>) w'"
proof -
  have "bo_kref bo = h_bo g p + length (bo_gpuva bo)" using assms(1,2) inv_heapD by (fastforce simp: bo_inv_defs)
  then show ?thesis using assms by (auto simp: drm_gpuvm_bo_get_def intro!: live_inv)
qed

lemma gem_elem:
  assumes "bo_inv rv g w" and "p \<in> set (w_gem w obj)"
  obtains bo where "w_bos w p = Some bo" and "bo_obj bo = obj" and "0 < bo_kref bo"
  using assms by (auto simp: bo_inv_defs inv_gem_def bo_info_def)

lemma bo_find_inv:
  assumes "bo_inv rv g w"
  shows "(\<exists>p w' bo. drm_gpuvm_bo_find v obj w = Some (Some p, w') \<and> p \<in> set (w_gem w obj) \<and> w_bos w p = Some bo \<and> bo_vm bo = v \<and>
            drm_gpuvm_bo_get p w = Some w' \<and> bo_inv rv (g\<lparr>h_bo := (h_bo g)(p := h_bo g p + 1)\<rparr>) w') \<or>
         drm_gpuvm_bo_find v obj w = Some (None, w) \<and> (\<forall>p \<in> set (w_gem w obj). map_option bo_vm (w_bos w p) \<noteq> Some v)"
proof (cases "raw_drm_gpuvm_bo_find v obj w")
  case None
  then have "\<forall>p \<in> set (w_gem w obj). map_option bo_vm (w_bos w p) \<noteq> Some v"
    by (auto simp: raw_drm_gpuvm_bo_find_def find_None_iff)
  with None show ?thesis by (simp add: drm_gpuvm_bo_find_def)
next
  case (Some p)
  then have p: "p \<in> set (w_gem w obj)" "map_option bo_vm (w_bos w p) = Some v"
    by (auto simp: raw_drm_gpuvm_bo_find_def find_Some_iff)
  from gem_elem [OF assms p(1)] obtain bo where bo: "w_bos w p = Some bo" "0 < bo_kref bo" by blast
  from bo_get_inv [OF assms bo] Some p bo show ?thesis by (auto simp: drm_gpuvm_bo_find_def)
qed

text \<open>Warnings do not matter.\<close>

lemma WARN_inv [simp]: "bo_inv rv g (vm_WARN c v w) = bo_inv rv g w"
proof -
  have 1: "vm_frame (w_vm w v) ((w_vm w v)\<lparr>vm_base := drm_WARN c (vm_base (w_vm w v))\<rparr>)" by simp
  have 2: "inv_lists rv info ((w_vm w)(v := (w_vm w v)\<lparr>vm_base := drm_WARN c (vm_base (w_vm w v))\<rparr>)) = inv_lists rv info (w_vm w)" for info
    by (simp add: inv_lists_def vm_frame_preds [OF 1] cong: conj_cong) (auto simp: vm_frame_preds [OF 1])
  show ?thesis by (simp add: bo_inv_defs vm_WARN_on_vm frame_upd [where vms = "w_vm w" and v = v, OF 1] 2)
qed

section \<open>Objects that are destroyed\<close>

lemma in_vm_upd:
  "info p = Some (v, obj, z) \<Longrightarrow> in_vm (info(p := None)) v' = in_vm info v' - (if v' = v then {p} else {})"
  "info p = Some (v, obj, z) \<Longrightarrow> in_gem (info(p := None)) obj' = in_gem info obj' - (if obj' = obj then {p} else {})"
  "info p = Some (v, obj, z) \<Longrightarrow> in_vm (info(p := Some (v, obj, z'))) v' = in_vm info v'"
  "info p = Some (v, obj, z) \<Longrightarrow> in_gem (info(p := Some (v, obj, z'))) obj' = in_gem info obj'"
  "info p = None \<Longrightarrow> in_vm (info(p := Some (v, obj, z))) v' = in_vm info v' \<union> (if v' = v then {p} else {})"
  "info p = None \<Longrightarrow> in_gem (info(p := Some (v, obj, z))) obj' = in_gem info obj' \<union> (if obj' = obj then {p} else {})"
  by (auto simp: in_vm_def in_gem_def split: if_splits)

lemma in_vm_finite: "finite (dom info) \<Longrightarrow> finite (in_vm info v)" "finite (dom info) \<Longrightarrow> finite (in_gem info obj)"
  by (auto intro: rev_finite_subset simp: in_vm_def in_gem_def)

lemma inv_lists_shrink:
  assumes "inv_lists rv info vms" and "\<And>v name. get_local name (vms' v) = None \<and> distinct (get_list name (vms' v)) \<and>
      set (get_list name (vms' v)) \<subseteq> set (get_list name (vms v))"
    and "\<And>v name q. q \<in> set (get_list name (vms' v)) \<Longrightarrow> list_elem_ok rv name v (vms v) (info q) \<Longrightarrow>
      list_elem_ok rv name v (vms' v) (info' q)"
  shows "inv_lists rv info' vms'"
  unfolding inv_lists_def
proof (intro allI conjI ballI)
  fix v name q
  show "get_local name (vms' v) = None" "distinct (get_list name (vms' v))" using assms(2) by blast+
  assume q: "q \<in> set (get_list name (vms' v))"
  then have "q \<in> set (get_list name (vms v))" using assms(2) by blast
  then have "list_elem_ok rv name v (vms v) (info q)" using assms(1) by (simp add: inv_lists_def)
  then show "list_elem_ok rv name v (vms' v) (info' q)" using assms(3) [OF q] by blast
qed

lemma inv_gem_shrink:
  assumes "inv_gem info gem" and "\<And>obj. distinct (gem' obj) \<and> set (gem' obj) \<subseteq> set (gem obj)"
    and "\<And>obj q. q \<in> set (gem' obj) \<Longrightarrow> info' q = info q"
  shows "inv_gem info' gem'"
proof -
  have "inj_on (\<lambda>q. map_option fst (info' q)) (set (gem' obj))" for obj
  proof (rule inj_onI)
    fix q r
    assume q: "q \<in> set (gem' obj)" "r \<in> set (gem' obj)" "map_option fst (info' q) = map_option fst (info' r)"
    moreover have "inj_on (\<lambda>q. map_option fst (info q)) (set (gem obj))" using assms(1) by (auto simp: inv_gem_def distinct_map)
    ultimately show "q = r" using assms(2,3) by (metis inj_onD subsetD)
  qed
  then show ?thesis using assms by (fastforce simp: inv_gem_def distinct_map)
qed

lemma inv_gemD: "inv_gem info gem \<Longrightarrow> p \<in> set (gem obj) \<Longrightarrow> \<exists>v. info p = Some (v, obj, False)"
  by (simp add: inv_gem_def)

lemma inv_links_dead:
  assumes "inv_links bos gem va_bo" and "bos p = Some bo" and "bo_gpuva bo = []"
    and "\<And>q. q \<noteq> p \<Longrightarrow> bos' q = bos q" and "\<And>bo'. bos' p = Some bo' \<Longrightarrow> bo_gpuva bo' = []"
    and "\<And>obj q. q \<noteq> p \<Longrightarrow> q \<in> set (gem obj) \<Longrightarrow> q \<in> set (gem' obj)"
  shows "inv_links bos' gem' va_bo"
proof -
  have n: "va_bo a \<noteq> Some p" for a
  proof
    assume "va_bo a = Some p"
    then have "a \<in> set (bo_gpuva bo)" using assms(1,2) unfolding inv_links_def by blast
    then show False using assms(3) by simp
  qed
  show ?thesis unfolding inv_links_def
  proof (intro conjI allI impI)
    fix q bo' a
    assume q: "bos' q = Some bo'"
    show "distinct (bo_gpuva bo')" "a \<in> set (bo_gpuva bo') \<longleftrightarrow> va_bo a = Some q"
      using q n assms by (cases "q = p"; force simp: inv_links_def)+
    show "q \<in> set (gem' (bo_obj bo'))" if "bo_gpuva bo' \<noteq> []"
      using q that assms by (cases "q = p") (auto simp: inv_links_def)
  next
    fix a q
    assume "va_bo a = Some q"
    then show "bos' q \<noteq> None" using n assms by (cases "q = p") (auto simp: inv_links_def)
  qed
qed

lemma inv_links_gem_mono:
  "inv_links bos gem va_bo \<Longrightarrow> (\<And>obj. set (gem obj) \<subseteq> set (gem' obj)) \<Longrightarrow> inv_links bos gem' va_bo"
  unfolding inv_links_def by blast

lemma bo_inv_butE:
  assumes "bo_inv_but Z rv g w"
  obtains "inv_heap (h_bo g) (w_next w) (w_bos w)" and "inv_lists rv (bo_info (w_bos w)) (w_vm w)"
    and "inv_gem (bo_info (w_bos w)) (w_gem w)" and "inv_zombies Z (bo_info (w_bos w)) (w_vm w)"
    and "inv_links (w_bos w) (w_gem w) (w_va_bo w)" and "inv_counts g (bo_info (w_bos w)) (w_vm w) (k_refs (w_env w))"
  using assms by (auto simp: bo_inv_but_def)

text \<open>Setting the reference count to zero. The object leaves the list of its GEM object, and the lists of the address
  space unless these are protected by the reservation lock.\<close>

lemma kill_inv:
  assumes inv: "bo_inv rv g w" and bo: "w_bos w p = Some bo" "bo_kref bo = 1" "h_bo g p = 1"
    and w': "w_bos w' = (w_bos w)(p := Some (bo\<lparr>bo_kref := 0\<rparr>))" "w_gem w' = (w_gem w)(bo_obj bo := remove1 p (w_gem w (bo_obj bo)))"
      "w_vm w' = (w_vm w)(bo_vm bo := vm')" "w_next w' = w_next w" "w_va_bo w' = w_va_bo w" "w_env w' = w_env w"
    and vm': "vm_frame (w_vm w (bo_vm bo)) vm'" "bo_defer (vm_base vm') = bo_defer (vm_base (w_vm w (bo_vm bo)))"
      "\<And>name. get_local name vm' = None"
      "\<And>name. get_list name vm' = (if keep then id else remove1 p) (get_list name (w_vm w (bo_vm bo)))"
      "keep \<Longrightarrow> drm_gpuvm_resv_protected (w_vm w (bo_vm bo))"
  shows "bo_inv_but {p} rv (g\<lparr>h_bo := (h_bo g)(p := 0)\<rparr>) w' \<and> (\<not> keep \<longrightarrow> (\<forall>v name. p \<notin> set (get_list name (w_vm w' v))))"
proof (rule bo_inv_butE [OF inv [unfolded bo_inv_def]])
  let ?i = "bo_info (w_bos w)"
  assume h: "inv_heap (h_bo g) (w_next w) (w_bos w)" and l: "inv_lists rv ?i (w_vm w)" and ge: "inv_gem ?i (w_gem w)"
    and z: "inv_zombies {} ?i (w_vm w)" and k: "inv_links (w_bos w) (w_gem w) (w_va_bo w)"
    and c: "inv_counts g ?i (w_vm w) (k_refs (w_env w))"
  have ip: "?i p = Some (bo_vm bo, bo_obj bo, False)" using bo by (simp add: bo_info_def)
  have i': "bo_info (w_bos w') = ?i(p := Some (bo_vm bo, bo_obj bo, True))" using bo by (simp add: w' bo_info_upd)
  have empty: "bo_gpuva bo = []" using inv_heapD [OF h bo(1)] bo by simp
  have d: "get_local name (w_vm w v) = None \<and> distinct (get_list name (w_vm w v))" for name v using l by (simp add: inv_lists_def)
  have other: "v = bo_vm bo" if "p \<in> set (get_list name (w_vm w v))" for name v
    using l ip that by (fastforce simp: inv_lists_def list_elem_ok_def)
  have not_in: "\<not> keep \<longrightarrow> (\<forall>v name. p \<notin> set (get_list name (w_vm w' v)))" using d other by (auto simp: w' vm')
  have dg: "distinct (w_gem w obj)" for obj using ge by (auto simp: inv_gem_def distinct_map)
  have og: "p \<notin> set (w_gem w obj)" if "obj \<noteq> bo_obj bo" for obj using ge ip that by (fastforce simp: inv_gem_def)
  have "inv_heap ((h_bo g)(p := 0)) (w_next w') (w_bos w')"
    unfolding w' by (rule inv_heap_upd [OF h bo(1)]) (simp add: empty)
  moreover have "inv_lists rv (bo_info (w_bos w')) (w_vm w')"
  proof (rule inv_lists_shrink [OF l])
    fix v name q
    assume q: "q \<in> set (get_list name (w_vm w' v))" and ok: "list_elem_ok rv name v (w_vm w v) (?i q)"
    have f: "list_elem_ok rv name v (w_vm w' v) x = list_elem_ok rv name v (w_vm w v) x" for x
      by (simp add: w' vm_frame_preds(4) [OF vm'(1)])
    show "list_elem_ok rv name v (w_vm w' v) (bo_info (w_bos w') q)"
    proof (cases "q = p")
      case True
      with q not_in vm'(5) have "drm_gpuvm_resv_protected (w_vm w (bo_vm bo))" by blast
      with True ok ip show ?thesis unfolding f i' by (simp add: list_elem_ok_def)
    next
      case False
      with ok show ?thesis unfolding f i' by simp
    qed
  qed (use d vm' set_remove1_subset in \<open>auto simp: w'\<close>)
  moreover have "inv_gem (bo_info (w_bos w')) (w_gem w')"
  proof (rule inv_gem_shrink [OF ge])
    show "bo_info (w_bos w') q = ?i q" if "q \<in> set (w_gem w' obj)" for obj q
      using that dg og by (cases "obj = bo_obj bo") (auto simp: i' w'(2))
  qed (use dg in \<open>auto simp: w'\<close>)
  moreover have "inv_zombies {p} (bo_info (w_bos w')) (w_vm w')"
    using z ip vm'(2) unfolding inv_zombies_def i' by (auto simp: w')
  moreover have "inv_links (w_bos w') (w_gem w') (w_va_bo w')"
    unfolding w' by (rule inv_links_dead [OF k bo(1) empty]) (auto simp: empty in_set_remove1)
  moreover have "inv_counts g (bo_info (w_bos w')) (w_vm w') (k_refs (w_env w'))"
    using c ip unfolding inv_counts_def i'
    by (auto simp: w'(3,6) in_vm_upd(3,4) [where info = ?i and p = p, OF ip] vm_frame_preds(5) [OF vm'(1)])
  ultimately show ?thesis using not_in by (simp add: bo_inv_but_def)
qed

text \<open>Freeing an object that is being destroyed: the address space and the GEM object lose a reference.\<close>

lemma counts_free:
  assumes c: "inv_counts g info vms refs" and ip: "info p = Some (v, obj, z)"
  shows "\<exists>base'. drm_gpuvm_put lib (vm_base (vms v)) = Some base' \<and>
      (\<forall>name. get_list name ((vms v)\<lparr>vm_base := base'\<rparr>) = get_list name (vms v)) \<and> bo_defer base' = bo_defer (vm_base (vms v)) \<and>
      (\<forall>rv name u i. list_elem_ok rv name u ((vms v)\<lparr>vm_base := base'\<rparr>) i = list_elem_ok rv name u (vms v) i) \<and>
      inv_counts g (info(p := None)) (vms(v := (vms v)\<lparr>vm_base := base'\<rparr>)) (refs(obj := refs obj - 1))"
proof -
  define base where "base = vm_base (vms v)"
  have fin: "finite (in_vm info v')" "finite (in_gem info obj')" for v' obj' using c in_vm_finite by (auto simp: inv_counts_def)
  have mem: "p \<in> in_vm info v" "p \<in> in_gem info obj" using ip by (auto simp: in_vm_def in_gem_def)
  have pos: "0 < card (in_vm info v)" "0 < card (in_gem info obj)" using mem fin by (auto simp: card_gt_0_iff)
  have b: "base_ok (h_vm g v + card (in_vm info v)) base" using c by (auto simp: inv_counts_def base_def)
  from gpuvm_put_frame [of base lib] b pos obtain base' where b': "drm_gpuvm_put lib base = Some base'" "vm_kref base' = vm_kref base - 1"
      "extobj_list base' = extobj_list base" "evict_list base' = evict_list base" "bo_defer base' = bo_defer base"
      "vm_flags base' = vm_flags base" "kernel_alloc_node base' = kernel_alloc_node base"
      "0 < vm_kref base' \<longrightarrow> vm_freed base' = vm_freed base"
    by (auto simp: base_ok_def)
  have "base_ok (h_vm g v + (card (in_vm info v) - 1)) base'" using b b' pos by (auto simp: base_ok_def)
  moreover have "finite (dom (info(p := None)))" using c by (simp add: inv_counts_def)
  ultimately have "inv_counts g (info(p := None)) (vms(v := (vms v)\<lparr>vm_base := base'\<rparr>)) (refs(obj := refs obj - 1))"
    using c mem fin pos unfolding inv_counts_def in_vm_upd(1,2) [where info = info and p = p, OF ip] by (auto simp: card_Diff_singleton of_nat_diff)
  moreover have "get_list name ((vms v)\<lparr>vm_base := base'\<rparr>) = get_list name (vms v)" for name
    using b' by (cases name) (simp_all add: base_def)
  moreover have "list_elem_ok rv name u ((vms v)\<lparr>vm_base := base'\<rparr>) i = list_elem_ok rv name u (vms v) i" for rv name u i
    using b' by (simp add: list_elem_ok_def base_def drm_gpuvm_resv_protected_def drm_gpuvm_is_extobj_def split: option.split)
  ultimately show ?thesis using b' by (auto simp: base_def)
qed

lemma destroy_not_in_lists_inv:
  assumes inv: "bo_inv_but Z rv g w" and p: "p \<in> Z" and off: "\<And>v name. p \<notin> set (get_list name (w_vm w v))"
  shows "\<exists>w'. drm_gpuvm_bo_destroy_not_in_lists lib p w = Some w' \<and> bo_inv_but (Z - {p}) rv g w' \<and> w_bos w' p = None \<and>
     (\<forall>v name. get_list name (w_vm w' v) = get_list name (w_vm w v))"
proof (rule bo_inv_butE [OF inv])
  let ?i = "bo_info (w_bos w)"
  assume h: "inv_heap (h_bo g) (w_next w) (w_bos w)" and l: "inv_lists rv ?i (w_vm w)" and ge: "inv_gem ?i (w_gem w)"
    and z: "inv_zombies Z ?i (w_vm w)" and k: "inv_links (w_bos w) (w_gem w) (w_va_bo w)"
    and c: "inv_counts g ?i (w_vm w) (k_refs (w_env w))"
  from z p obtain bo where bo: "w_bos w p = Some bo" "bo_kref bo = 0" by (fastforce simp: inv_zombies_def bo_info_def)
  have ip: "?i p = Some (bo_vm bo, bo_obj bo, True)" using bo by (simp add: bo_info_def)
  have e: "h_bo g p = 0" "bo_gpuva bo = []" using inv_heapD [OF h bo(1)] bo(2) by auto
  have not_in: "p \<notin> set (get_list name (w_vm w v))" "p \<notin> set (w_gem w obj)" for name v obj
    using off ip inv_gemD [OF ge, of p obj] by auto
  obtain base' where b': "drm_gpuvm_put lib (vm_base (w_vm w (bo_vm bo))) = Some base'" "bo_defer base' = bo_defer (vm_base (w_vm w (bo_vm bo)))"
      "\<And>name. get_list name ((w_vm w (bo_vm bo))\<lparr>vm_base := base'\<rparr>) = get_list name (w_vm w (bo_vm bo))"
      "\<And>rv name u i. list_elem_ok rv name u ((w_vm w (bo_vm bo))\<lparr>vm_base := base'\<rparr>) i = list_elem_ok rv name u (w_vm w (bo_vm bo)) i"
      "inv_counts g (?i(p := None)) ((w_vm w)(bo_vm bo := (w_vm w (bo_vm bo))\<lparr>vm_base := base'\<rparr>))
         ((k_refs (w_env w))(bo_obj bo := k_refs (w_env w) (bo_obj bo) - 1))"
    using counts_free [OF c ip, of lib] by blast
  have lo: "get_local name ((w_vm w v)\<lparr>vm_base := base'\<rparr>) = None" for name v using l by (cases name) (auto simp: inv_lists_def)
  define w1 where "w1 = on_vm (bo_vm bo) (\<lambda>vm. vm\<lparr>vm_base := base'\<rparr>) (w\<lparr>w_bos := (w_bos w)(p := None)\<rparr>)"
  define w' where "w' = w1\<lparr>w_env := drm_gem_object_put (Some (bo_obj bo)) (w_env w1)\<rparr>"
  have w': "w_bos w' = (w_bos w)(p := None)" "w_vm w' = (w_vm w)(bo_vm bo := (w_vm w (bo_vm bo))\<lparr>vm_base := base'\<rparr>)"
    "w_gem w' = w_gem w" "w_next w' = w_next w" "w_va_bo w' = w_va_bo w"
    "k_refs (w_env w') = (k_refs (w_env w))(bo_obj bo := k_refs (w_env w) (bo_obj bo) - 1)"
    by (simp_all add: w'_def w1_def)
  have i': "bo_info (w_bos w') = ?i(p := None)" by (simp add: w' bo_info_upd)
  have "inv_heap (h_bo g) (w_next w') (w_bos w')" using h e by (auto simp: inv_heap_def w')
  moreover have "inv_lists rv (bo_info (w_bos w')) (w_vm w')" unfolding i'
    by (rule inv_lists_shrink [OF l]) (use l b'(3,4) lo not_in in \<open>auto simp: inv_lists_def w'(2)\<close>)
  moreover have "inv_gem (bo_info (w_bos w')) (w_gem w')" unfolding i'
    by (rule inv_gem_shrink [OF ge]) (use ge not_in in \<open>auto simp: inv_gem_def distinct_map w'(3)\<close>)
  moreover have "inv_zombies (Z - {p}) (bo_info (w_bos w')) (w_vm w')"
    using z p b'(2) unfolding inv_zombies_def i' by (auto simp: w'(2))
  moreover have "inv_links (w_bos w') (w_gem w') (w_va_bo w')"
    unfolding w' by (rule inv_links_dead [OF k bo(1) e(2)]) auto
  ultimately have "bo_inv_but (Z - {p}) rv g w'" using b'(5) by (simp add: bo_inv_but_def i' w'(2,6))
  moreover have "drm_gpuvm_bo_destroy_not_in_lists lib p w = Some w'"
    by (simp add: drm_gpuvm_bo_destroy_not_in_lists_def bo b'(1) w'_def w1_def)
  ultimately show ?thesis using b'(3) by (auto simp: w')
qed

lemma bo_destroy_inv:
  assumes inv: "bo_inv rv g w" and bo: "w_bos w p = Some bo" "bo_kref bo = 1" "h_bo g p = 1"
  shows "\<exists>w'. drm_gpuvm_bo_destroy lib p (set_bo p (bo\<lparr>bo_kref := 0\<rparr>) w) = Some w' \<and>
     bo_inv rv (g\<lparr>h_bo := (h_bo g)(p := 0)\<rparr>) w' \<and> w_bos w' p = None"
proof -
  let ?vm = "w_vm w (bo_vm bo)"
  define vm' where "vm' = raw_drm_gpuvm_bo_list_del Evict p (raw_drm_gpuvm_bo_list_del Extobj p ?vm)"
  define w1 where "w1 = gem_list_del (bo_obj bo) p (on_vm (bo_vm bo) (raw_drm_gpuvm_bo_list_del Evict p)
     (on_vm (bo_vm bo) (raw_drm_gpuvm_bo_list_del Extobj p) (set_bo p (bo\<lparr>bo_kref := 0\<rparr>) w)))"
  have lo: "get_local name ?vm = None" for name using inv by (auto simp: bo_inv_defs inv_lists_def)
  have "bo_inv_but {p} rv (g\<lparr>h_bo := (h_bo g)(p := 0)\<rparr>) w1 \<and> (\<not> False \<longrightarrow> (\<forall>v name. p \<notin> set (get_list name (w_vm w1 v))))"
  proof (rule kill_inv [OF inv bo, where vm' = vm'])
    show "vm_frame ?vm vm'" unfolding vm'_def by (rule vm_frame_trans [OF list_del_simps(4) list_del_simps(4)])
    show "get_list name vm' = (if False then id else remove1 p) (get_list name ?vm)" for name by (simp add: vm'_def list_del_both)
  qed (simp_all add: w1_def vm'_def lo)
  then have "\<exists>w'. drm_gpuvm_bo_destroy_not_in_lists lib p w1 = Some w' \<and> bo_inv_but ({p} - {p}) rv (g\<lparr>h_bo := (h_bo g)(p := 0)\<rparr>) w' \<and>
      w_bos w' p = None \<and> (\<forall>v name. get_list name (w_vm w' v) = get_list name (w_vm w1 v))"
    by (intro destroy_not_in_lists_inv) auto
  then show ?thesis by (auto simp: drm_gpuvm_bo_destroy_def w1_def bo_inv_def)
qed

text \<open>Dropping a reference with any release function that keeps the invariant.\<close>

lemma kref_put_inv:
  assumes inv: "bo_inv rv g w" and h: "0 < h_bo g p"
    and release: "\<And>bo. w_bos w p = Some bo \<Longrightarrow> bo_kref bo = 1 \<Longrightarrow> h_bo g p = 1 \<Longrightarrow>
      \<exists>w'. release p (set_bo p (bo\<lparr>bo_kref := 0\<rparr>) w) = Some w' \<and> P w'"
    and rest: "\<And>w'. bo_inv rv (g\<lparr>h_bo := (h_bo g)(p := h_bo g p - 1)\<rparr>) w' \<Longrightarrow> w_va_bo w' = w_va_bo w \<Longrightarrow> Q w'"
  shows "\<exists>b w'. kref_put release p w = Some (b, w') \<and> (if b then P w' else Q w') \<and>
     (b \<longleftrightarrow> map_option bo_kref (w_bos w p) = Some 1)"
proof -
  from inv h obtain bo where bo: "w_bos w p = Some bo" and k: "bo_kref bo = h_bo g p + length (bo_gpuva bo)"
    by (cases "w_bos w p") (auto simp: bo_inv_defs inv_heap_def)
  show ?thesis
  proof (cases "bo_kref bo = 1")
    case True
    with h k have "h_bo g p = 1" by linarith
    from release [OF bo True this] True bo show ?thesis by (auto simp: kref_put_def)
  next
    case False
    then have "bo_inv rv (g\<lparr>h_bo := (h_bo g)(p := h_bo g p - 1)\<rparr>) (set_bo p (bo\<lparr>bo_kref := bo_kref bo - 1\<rparr>) w)"
      using h k by (intro live_inv [OF inv bo]) auto
    with rest [OF this] False h k bo show ?thesis by (auto simp: kref_put_def)
  qed
qed

lemma bo_put_inv:
  assumes inv: "bo_inv rv g w" and h: "0 < h_bo g p"
  shows "\<exists>b w'. drm_gpuvm_bo_put lib (Some p) w = Some (b, w') \<and> bo_inv rv (g\<lparr>h_bo := (h_bo g)(p := h_bo g p - 1)\<rparr>) w' \<and>
     (b \<longleftrightarrow> map_option bo_kref (w_bos w p) = Some 1) \<and> (b \<longrightarrow> w_bos w' p = None)"
proof -
  have "\<exists>b w'. kref_put (drm_gpuvm_bo_destroy lib) p w = Some (b, w') \<and>
      (if b then bo_inv rv (g\<lparr>h_bo := (h_bo g)(p := h_bo g p - 1)\<rparr>) w' \<and> w_bos w' p = None
       else bo_inv rv (g\<lparr>h_bo := (h_bo g)(p := h_bo g p - 1)\<rparr>) w') \<and> (b \<longleftrightarrow> map_option bo_kref (w_bos w p) = Some 1)"
  proof (rule kref_put_inv [OF inv h])
    fix bo
    assume "w_bos w p = Some bo" "bo_kref bo = 1" "h_bo g p = 1"
    with bo_destroy_inv [OF inv this, of lib]
    show "\<exists>w'. drm_gpuvm_bo_destroy lib p (set_bo p (bo\<lparr>bo_kref := 0\<rparr>) w) = Some w' \<and>
        bo_inv rv (g\<lparr>h_bo := (h_bo g)(p := h_bo g p - 1)\<rparr>) w' \<and> w_bos w' p = None" by simp
  qed
  then show ?thesis by (auto simp: drm_gpuvm_bo_put_def split: if_splits)
qed

section \<open>Deferred clean up\<close>

lemma defer_add_inv:
  assumes inv: "bo_inv_but {p} rv g w"
  shows "\<exists>w'. drm_gpuvm_bo_defer_zombie_cleanup p w = Some w' \<and> bo_inv rv g w' \<and> w_bos w' = w_bos w \<and> w_gem w' = w_gem w \<and> w_va_bo w' = w_va_bo w"
proof -
  from inv obtain v obj where "bo_info (w_bos w) p = Some (v, obj, True)" by (auto simp: bo_inv_but_def inv_zombies_def)
  then obtain bo where bo: "w_bos w p = Some bo" "bo_info (w_bos w) p = Some (bo_vm bo, bo_obj bo, True)" by (auto simp: bo_info_def)
  let ?vm = "w_vm w (bo_vm bo)"
  define vm' where "vm' = ?vm\<lparr>vm_base := (vm_base ?vm)\<lparr>bo_defer := p # bo_defer (vm_base ?vm)\<rparr>\<rparr>"
  have f: "vm_frame ?vm vm'" by (simp add: vm'_def)
  have g: "get_list name vm' = get_list name ?vm" for name by (cases name) (simp_all add: vm'_def)
  have "inv_lists rv (bo_info (w_bos w)) ((w_vm w)(bo_vm bo := vm'))"
    by (rule frame_upd(3) [where vms = "w_vm w" and v = "bo_vm bo", OF f]) (use inv in \<open>auto simp: bo_inv_but_def inv_lists_def g vm'_def\<close>)
  moreover have "inv_zombies {} (bo_info (w_bos w)) ((w_vm w)(bo_vm bo := vm'))"
    using inv bo(2) by (auto simp: bo_inv_but_def inv_zombies_def vm'_def)
  moreover have "drm_gpuvm_bo_defer_zombie_cleanup p w =
      Some (on_vm (bo_vm bo) (\<lambda>vm. vm\<lparr>vm_base := (vm_base vm)\<lparr>bo_defer := p # bo_defer (vm_base vm)\<rparr>\<rparr>) w)"
    by (simp add: drm_gpuvm_bo_defer_zombie_cleanup_def bo)
  ultimately show ?thesis
    using inv frame_upd(1) [where vms = "w_vm w" and v = "bo_vm bo", OF f] by (auto simp: bo_inv_defs vm'_def)
qed

lemma into_zombie_inv:
  assumes inv: "bo_inv rv g w" and bo: "w_bos w p = Some bo" "bo_kref bo = 1" "h_bo g p = 1"
  shows "\<exists>w'. drm_gpuvm_bo_into_zombie p (set_bo p (bo\<lparr>bo_kref := 0\<rparr>) w) = Some w' \<and>
     bo_inv_but {p} rv (g\<lparr>h_bo := (h_bo g)(p := 0)\<rparr>) w' \<and> w_va_bo w' = w_va_bo w"
proof -
  let ?vm = "w_vm w (bo_vm bo)"
  define keep where "keep = drm_gpuvm_resv_protected ?vm"
  define vm' where "vm' = (if keep then ?vm else raw_drm_gpuvm_bo_list_del Evict p (raw_drm_gpuvm_bo_list_del Extobj p ?vm))"
  have lo: "get_local name ?vm = None" for name using inv by (auto simp: bo_inv_defs inv_lists_def)
  define w1 where "w1 = set_bo p (bo\<lparr>bo_kref := 0\<rparr>) w"
  define w' where "w' = gem_list_del (bo_obj bo) p (if keep then w1
       else on_vm (bo_vm bo) (raw_drm_gpuvm_bo_list_del Evict p \<circ> raw_drm_gpuvm_bo_list_del Extobj p) w1)"
  have "bo_inv_but {p} rv (g\<lparr>h_bo := (h_bo g)(p := 0)\<rparr>) w' \<and> (\<not> keep \<longrightarrow> (\<forall>v name. p \<notin> set (get_list name (w_vm w' v))))"
  proof (rule kill_inv [OF inv bo, where vm' = vm'])
    show "vm_frame ?vm vm'" unfolding vm'_def using vm_frame_trans [OF list_del_simps(4) list_del_simps(4)] by simp
    show "get_list name vm' = (if keep then id else remove1 p) (get_list name ?vm)" for name
      by (simp add: vm'_def list_del_both)
  qed (simp_all add: w'_def w1_def vm'_def lo, simp_all add: keep_def)
  moreover have "drm_gpuvm_bo_into_zombie p w1 = Some w'"
    by (simp add: drm_gpuvm_bo_into_zombie_def w1_def w'_def keep_def)
  ultimately show ?thesis by (auto simp: w1_def w'_def)
qed

lemma bo_defer_free_inv:
  assumes inv: "bo_inv rv g w" and bo: "w_bos w p = Some bo" "bo_kref bo = 1" "h_bo g p = 1"
  shows "\<exists>w'. drm_gpuvm_bo_defer_free p (set_bo p (bo\<lparr>bo_kref := 0\<rparr>) w) = Some w' \<and>
     bo_inv rv (g\<lparr>h_bo := (h_bo g)(p := 0)\<rparr>) w'"
  using into_zombie_inv [OF assms] defer_add_inv by (fastforce simp: drm_gpuvm_bo_defer_free_def)

lemma bo_put_deferred_inv:
  assumes inv: "bo_inv rv g w" and h: "0 < h_bo g p"
  shows "\<exists>b w'. drm_gpuvm_bo_put_deferred (Some p) w = Some (b, w') \<and> bo_inv rv (g\<lparr>h_bo := (h_bo g)(p := h_bo g p - 1)\<rparr>) w'"
proof -
  from inv h obtain bo where bo: "w_bos w p = Some bo" by (cases "w_bos w p") (auto simp: bo_inv_defs inv_heap_def)
  define w1 where "w1 = vm_WARN (\<not> drm_gpuvm_immediate_mode (w_vm w (bo_vm bo))) (bo_vm bo) w"
  have inv1: "bo_inv rv g w1" using inv by (simp add: w1_def)
  have "\<exists>b w'. kref_put drm_gpuvm_bo_defer_free p w1 = Some (b, w') \<and>
      (if b then bo_inv rv (g\<lparr>h_bo := (h_bo g)(p := h_bo g p - 1)\<rparr>) w' else bo_inv rv (g\<lparr>h_bo := (h_bo g)(p := h_bo g p - 1)\<rparr>) w') \<and>
      (b \<longleftrightarrow> map_option bo_kref (w_bos w1 p) = Some 1)"
  proof (rule kref_put_inv [OF inv1 h])
    fix bo
    assume "w_bos w1 p = Some bo" "bo_kref bo = 1" "h_bo g p = 1"
    with bo_defer_free_inv [OF inv1 this]
    show "\<exists>w'. drm_gpuvm_bo_defer_free p (set_bo p (bo\<lparr>bo_kref := 0\<rparr>) w1) = Some w' \<and>
        bo_inv rv (g\<lparr>h_bo := (h_bo g)(p := h_bo g p - 1)\<rparr>) w'" by simp
  qed
  then show ?thesis using bo by (auto simp: drm_gpuvm_bo_put_deferred_def w1_def)
qed

lemma destroy_all_inv:
  assumes "bo_inv_but (set ps) rv g w" and "distinct ps" and "\<And>p v name. p \<in> set ps \<Longrightarrow> p \<notin> set (get_list name (w_vm w v))"
  shows "\<exists>w'. destroy_all lib ps w = Some w' \<and> bo_inv rv g w' \<and> (\<forall>p \<in> set ps. w_bos w' p = None) \<and>
     (\<forall>p. p \<notin> set ps \<longrightarrow> w_bos w' p = w_bos w p)"
  using assms
proof (induction ps arbitrary: w)
  case (Cons p ps)
  from destroy_not_in_lists_inv [OF Cons.prems(1), of p lib] Cons.prems(3) obtain w1 where
    w1: "drm_gpuvm_bo_destroy_not_in_lists lib p w = Some w1" "bo_inv_but (set (p # ps) - {p}) rv g w1"
      "\<forall>v name. get_list name (w_vm w1 v) = get_list name (w_vm w v)" by auto
  have b1: "w_bos w1 = (w_bos w)(p := None)"
    using w1(1) by (auto simp: drm_gpuvm_bo_destroy_not_in_lists_def split: bind_splits)
  have "bo_inv_but (set ps) rv g w1" using w1(2) Cons.prems(2) by (simp add: insert_Diff_if)
  from Cons.IH [OF this] Cons.prems(2,3) w1 b1 show ?case by auto
qed (simp add: bo_inv_def)

lemma fold_list_del:
  fixes vm :: bo_vm
  defines "vm' ps \<equiv> fold (\<lambda>p. raw_drm_gpuvm_bo_list_del Evict p \<circ> raw_drm_gpuvm_bo_list_del Extobj p) ps vm"
  shows "get_list name (vm' ps) = fold remove1 ps (get_list name vm)"
    and "vm_frame vm (vm' ps)" and "bo_defer (vm_base (vm' ps)) = bo_defer (vm_base vm)"
    and "(\<And>name. get_local name vm = None) \<Longrightarrow> get_local name (vm' ps) = None"
  unfolding vm'_def
proof (induction ps arbitrary: vm)
  case (Cons p ps)
  case 2
  have "vm_frame vm (raw_drm_gpuvm_bo_list_del Evict p (raw_drm_gpuvm_bo_list_del Extobj p vm))"
    by (rule vm_frame_trans [OF list_del_simps(4) list_del_simps(4)])
  then show ?case using Cons.IH(2) by (auto intro: vm_frame_trans)
qed (simp_all add: list_del_both)

lemma fold_remove1: "distinct xs \<Longrightarrow> distinct (fold remove1 ps xs) \<and> set (fold remove1 ps xs) = set xs - set ps"
  by (induction ps arbitrary: xs) auto

lemma deferred_cleanup_inv:
  assumes inv: "bo_inv rv g w"
  shows "\<exists>w'. drm_gpuvm_bo_deferred_cleanup lib v w = Some w' \<and> bo_inv rv g w' \<and>
     w_bos w' = (\<lambda>p. if p \<in> set (bo_defer (vm_base (w_vm w v))) then None else w_bos w p)"
proof -
  define ds where "ds = bo_defer (vm_base (w_vm w v))"
  define prot where "prot = drm_gpuvm_resv_protected (w_vm w v)"
  define vm0 where "vm0 = (w_vm w v)\<lparr>vm_base := (vm_base (w_vm w v))\<lparr>bo_defer := []\<rparr>\<rparr>"
  define vm1 where "vm1 = (if prot then fold (\<lambda>p. raw_drm_gpuvm_bo_list_del Evict p \<circ> raw_drm_gpuvm_bo_list_del Extobj p) ds vm0 else vm0)"
  define w1 where "w1 = on_vm v (\<lambda>_. vm1) w"
  from inv have l: "inv_lists rv (bo_info (w_bos w)) (w_vm w)" and z: "inv_zombies {} (bo_info (w_bos w)) (w_vm w)"
    by (auto simp: bo_inv_defs)
  have lo: "get_local name vm0 = None" for name using l by (simp add: inv_lists_def vm0_def)
  have d: "distinct (get_list name (w_vm w v))" for name using l by (simp add: inv_lists_def)
  have f0: "vm_frame (w_vm w v) vm0" by (simp add: vm0_def)
  have f: "vm_frame (w_vm w v) vm1"
    using vm_frame_trans [OF f0 fold_list_del(2)] f0 by (simp add: vm1_def)
  have lists: "get_list name vm1 = (if prot then fold remove1 ds (get_list name (w_vm w v)) else get_list name (w_vm w v))"
      "get_local name vm1 = None" "bo_defer (vm_base vm1) = []" for name
    by (simp_all add: vm1_def fold_list_del lo) (simp_all add: vm0_def)
  have zs: "\<exists>obj. bo_info (w_bos w) p = Some (v, obj, True)" if "p \<in> set ds" for p
    using z that by (auto simp: inv_zombies_def ds_def)
  have off: "p \<notin> set (get_list name (w_vm w1 u))" if p: "p \<in> set ds" for p u name
  proof (cases "u = v")
    case True
    have "prot" if "p \<in> set (get_list name (w_vm w v))" using l zs [OF p] that by (fastforce simp: inv_lists_def list_elem_ok_def prot_def)
    then show ?thesis using True p fold_remove1 [OF d] by (auto simp: w1_def lists)
  next
    case False
    then show ?thesis using l zs [OF p] by (fastforce simp: w1_def inv_lists_def list_elem_ok_def)
  qed
  have "inv_lists rv (bo_info (w_bos w)) (w_vm w1)"
    by (rule inv_lists_shrink [OF l])
      (use l lists fold_remove1 [OF d] vm_frame_preds(4) [OF f] in \<open>auto simp: w1_def inv_lists_def\<close>)
  moreover have "inv_zombies (set ds) (bo_info (w_bos w)) (w_vm w1)"
    using z zs by (auto simp: inv_zombies_def w1_def lists ds_def)
  ultimately have "bo_inv_but (set ds) rv g w1"
    using inv frame_upd(1) [where vms = "w_vm w" and v = v, OF f] by (simp add: bo_inv_defs w1_def)
  moreover have "distinct ds" using z by (simp add: inv_zombies_def ds_def)
  ultimately obtain w' where w': "destroy_all lib ds w1 = Some w'" "bo_inv rv g w'" "\<forall>p \<in> set ds. w_bos w' p = None"
      "\<forall>p. p \<notin> set ds \<longrightarrow> w_bos w' p = w_bos w1 p"
    using destroy_all_inv [of ds rv g w1 lib] off by blast
  have "drm_gpuvm_bo_deferred_cleanup lib v w = destroy_all lib ds w1"
    by (auto simp: drm_gpuvm_bo_deferred_cleanup_def Let_def ds_def [symmetric] w1_def vm1_def vm0_def on_vm_def prot_def
        drm_gpuvm_resv_protected_def)
  with w' show ?thesis by (auto simp: w1_def ds_def)
qed

section \<open>Creation and lookup\<close>

text \<open>A new object: the address space and the GEM object gain a reference.\<close>

lemma bo_create_inv:
  assumes inv: "bo_inv rv g w" and h: "0 < h_vm g v" and cr: "drm_gpuvm_bo_create v obj w = (Some p, w')"
  shows "bo_inv rv (g\<lparr>h_bo := (h_bo g)(p := 1)\<rparr>) w' \<and> w_bos w p = None \<and> w_gem w' = w_gem w \<and>
     w_bos w' = (w_bos w)(p := Some \<lparr>bo_vm = v, bo_obj = obj, bo_evicted = False, bo_kref = 1, bo_gpuva = []\<rparr>) \<and>
     (\<forall>name u. get_list name (w_vm w' u) = get_list name (w_vm w u))"
proof (rule bo_inv_butE [OF inv [unfolded bo_inv_def]])
  let ?i = "bo_info (w_bos w)" and ?bo = "\<lparr>bo_vm = v, bo_obj = obj, bo_evicted = False, bo_kref = 1, bo_gpuva = []\<rparr>"
  assume a: "inv_heap (h_bo g) (w_next w) (w_bos w)" and l: "inv_lists rv ?i (w_vm w)" and ge: "inv_gem ?i (w_gem w)"
    and z: "inv_zombies {} ?i (w_vm w)" and k: "inv_links (w_bos w) (w_gem w) (w_va_bo w)"
    and c: "inv_counts g ?i (w_vm w) (k_refs (w_env w))"
  from cr obtain env where al: "kalloc (w_env w) = (True, env)" and p: "p = w_next w"
    by (auto simp: drm_gpuvm_bo_create_def Let_def split: prod.splits bool.splits)
  note ks = kalloc_same [OF al]
  define vm' where "vm' = (w_vm w v)\<lparr>vm_base := drm_gpuvm_get (vm_base (w_vm w v))\<rparr>"
  have w': "w_bos w' = (w_bos w)(p := Some ?bo)" "w_vm w' = (w_vm w)(v := vm')" "w_gem w' = w_gem w" "w_next w' = p + 1"
      "w_va_bo w' = w_va_bo w" "k_refs (w_env w') = (k_refs (w_env w))(obj := k_refs (w_env w) obj + 1)"
    using cr ks by (auto simp: drm_gpuvm_bo_create_def al p vm'_def Let_def)
  have np: "w_bos w p = None" using a by (fastforce simp: inv_heap_def p)
  then have ip: "?i p = None" by (simp add: bo_info_def)
  have i': "bo_info (w_bos w') = ?i(p := Some (v, obj, False))" by (simp add: w'(1) bo_info_upd)
  have lists: "get_list name vm' = get_list name (w_vm w v)" for name by (cases name) (simp_all add: vm'_def drm_gpuvm_get_def)
  have el: "list_elem_ok rv name u vm' x = list_elem_ok rv name u (w_vm w v) x" for name u x
    by (simp add: vm'_def drm_gpuvm_get_def list_elem_ok_def drm_gpuvm_resv_protected_def drm_gpuvm_is_extobj_def split: option.split)
  have "inv_heap ((h_bo g)(p := 1)) (w_next w') (w_bos w')" using a by (auto simp: inv_heap_def w' p less_Suc_eq)
  moreover have "inv_lists rv (bo_info (w_bos w')) (w_vm w')" unfolding i'
    by (rule inv_lists_shrink [OF l]) (use l ip lists el in \<open>auto simp: inv_lists_def w'(2) vm'_def list_elem_ok_def\<close>)
  moreover have "inv_gem (bo_info (w_bos w')) (w_gem w')" unfolding i' w'(3)
    by (rule inv_gem_shrink [OF ge]) (use ge ip inv_gemD [OF ge, of p] in \<open>auto simp: inv_gem_def distinct_map\<close>)
  moreover have "inv_zombies {} (bo_info (w_bos w')) (w_vm w')"
    using z ip unfolding inv_zombies_def i' by (auto simp: w'(2) vm'_def drm_gpuvm_get_def)
  moreover have "inv_links (w_bos w') (w_gem w') (w_va_bo w')" using k np by (fastforce simp: inv_links_def w')
  moreover have "inv_counts g (bo_info (w_bos w')) (w_vm w') (k_refs (w_env w'))"
  proof -
    have "p \<notin> in_vm ?i v" "p \<notin> in_gem ?i obj" using ip by (auto simp: in_vm_def in_gem_def)
    then show ?thesis using c h in_vm_finite [of ?i] unfolding inv_counts_def i' in_vm_upd(5,6) [where info = ?i and p = p, OF ip]
      by (auto simp: w'(2,6) vm'_def drm_gpuvm_get_def base_ok_def)
  qed
  ultimately show ?thesis using np lists by (auto simp: bo_inv_defs w')
qed

text \<open>Entering the list of the GEM object, which has no other object of the address space.\<close>

lemma gem_add_inv:
  assumes inv: "bo_inv rv g w" and bo: "w_bos w p = Some bo" "0 < bo_kref bo"
    and new: "\<forall>q \<in> set (w_gem w (bo_obj bo)). map_option bo_vm (w_bos w q) \<noteq> Some (bo_vm bo)"
  shows "bo_inv rv g (gem_list_add_tail (bo_obj bo) p w)"
proof -
  have e: "map_option fst (bo_info (w_bos w) q) = map_option bo_vm (w_bos w q)" for q
    by (cases "w_bos w q") (simp_all add: bo_info_def)
  have n: "Some (bo_vm bo) \<notin> (\<lambda>q. map_option bo_vm (w_bos w q)) ` set (w_gem w (bo_obj bo))" using new by (metis imageE)
  have "inv_gem (bo_info (w_bos w)) ((w_gem w)(bo_obj bo := w_gem w (bo_obj bo) @ [p]))"
    using inv n bo by (auto simp: bo_inv_defs inv_gem_def e) (auto simp: bo_info_def)
  moreover have "inv_links (w_bos w) ((w_gem w)(bo_obj bo := w_gem w (bo_obj bo) @ [p])) (w_va_bo w)"
    by (rule inv_links_gem_mono [of _ "w_gem w"]) (use inv in \<open>auto simp: bo_inv_defs\<close>)
  ultimately show ?thesis using inv by (simp add: bo_inv_defs)
qed

lemma bo_create_fail: "drm_gpuvm_bo_create v obj w = (None, w') \<Longrightarrow> bo_inv rv g w \<Longrightarrow> bo_inv rv g w'"
  by (auto simp: drm_gpuvm_bo_create_def bo_inv_defs Let_def split: prod.splits bool.splits dest!: kalloc_same)

lemma WARN_same [simp]:
  "w_bos (vm_WARN c v w) = w_bos w" "w_gem (vm_WARN c v w) = w_gem w" "w_va_bo (vm_WARN c v w) = w_va_bo w"
  "drm_gpuvm_resv_protected (w_vm (vm_WARN c v w) u) = drm_gpuvm_resv_protected (w_vm w u)"
  "get_list name (w_vm (vm_WARN c v w) u) = get_list name (w_vm w u)"
  by (cases name; simp add: vm_WARN_def drm_gpuvm_resv_protected_def)+

lemma obtain_locked_inv:
  assumes inv: "bo_inv rv g w" and h: "0 < h_vm g v"
  shows "\<exists>r w'. drm_gpuvm_bo_obtain_locked v obj w = Some (r, w') \<and>
     (case r of
        Inl e \<Rightarrow> e = neg_errno ENOMEM \<and> bo_inv rv g w'
      | Inr p \<Rightarrow> bo_inv rv (g\<lparr>h_bo := (h_bo g)(p := h_bo g p + 1)\<rparr>) w' \<and> p \<in> set (w_gem w' obj) \<and>
          map_option bo_vm (w_bos w' p) = Some v)"
proof -
  define w0 where "w0 = vm_WARN (drm_gpuvm_immediate_mode (w_vm w v)) v w"
  have inv0: "bo_inv rv g w0" using inv by (simp add: w0_def)
  from bo_find_inv [OF inv0, of v obj] show ?thesis
  proof (elim disjE exE conjE)
    fix p w' bo
    assume f: "drm_gpuvm_bo_find v obj w0 = Some (Some p, w')" and p: "p \<in> set (w_gem w0 obj)" "w_bos w0 p = Some bo" "bo_vm bo = v"
      and gt: "drm_gpuvm_bo_get p w0 = Some w'" and inv': "bo_inv rv (g\<lparr>h_bo := (h_bo g)(p := h_bo g p + 1)\<rparr>) w'"
    have "w_gem w' = w_gem w0" "map_option bo_vm (w_bos w' p) = Some v"
      using gt p by (auto simp: drm_gpuvm_bo_get_def split: if_splits)
    with f p inv' show ?thesis by (simp add: drm_gpuvm_bo_obtain_locked_def w0_def [symmetric])
  next
    assume f: "drm_gpuvm_bo_find v obj w0 = Some (None, w0)"
      and none: "\<forall>p \<in> set (w_gem w0 obj). map_option bo_vm (w_bos w0 p) \<noteq> Some v"
    obtain r w1 where c: "drm_gpuvm_bo_create v obj w0 = (r, w1)" by (rule prod.exhaust)
    show ?thesis
    proof (cases r)
      case None
      with c bo_create_fail [of v obj w0 w1 rv g] inv0 f show ?thesis
        by (simp add: drm_gpuvm_bo_obtain_locked_def w0_def [symmetric])
    next
      case (Some p)
      let ?bo = "\<lparr>bo_vm = v, bo_obj = obj, bo_evicted = False, bo_kref = 1, bo_gpuva = []\<rparr>"
      note cr = bo_create_inv [OF inv0 h c [unfolded Some]]
      have hp: "h_bo g p = 0" using cr inv0 by (auto simp: bo_inv_defs inv_heap_def)
      from cr have b1: "w_bos w1 p = Some ?bo" by simp
      have "\<forall>q \<in> set (w_gem w1 (bo_obj ?bo)). map_option bo_vm (w_bos w1 q) \<noteq> Some (bo_vm ?bo)"
      proof
        fix q assume "q \<in> set (w_gem w1 (bo_obj ?bo))"
        with cr have q: "q \<in> set (w_gem w0 obj)" by simp
        then have "w_bos w0 q \<noteq> None" by (rule gem_elem [OF inv0]) simp
        with cr have "w_bos w1 q = w_bos w0 q" by auto
        with none q show "map_option bo_vm (w_bos w1 q) \<noteq> Some (bo_vm ?bo)" by simp
      qed
      from gem_add_inv [OF conjunct1 [OF cr] b1 _ this] have "bo_inv rv (g\<lparr>h_bo := (h_bo g)(p := 1)\<rparr>) (gem_list_add_tail obj p w1)" by simp
      with Some c f hp b1 show ?thesis by (simp add: drm_gpuvm_bo_obtain_locked_def w0_def [symmetric])
    qed
  qed
qed

lemma obtain_prealloc_inv:
  assumes inv: "bo_inv rv g w" and bo: "w_bos w p = Some bo" and h: "0 < h_bo g p"
    and fresh: "p \<notin> set (w_gem w (bo_obj bo))" "\<And>name v. p \<notin> set (get_list name (w_vm w v))"
  shows "\<exists>q w'. drm_gpuvm_bo_obtain_prealloc lib p w = Some (q, w') \<and>
     bo_inv rv (if q = p then g else g\<lparr>h_bo := (h_bo g)(q := h_bo g q + 1, p := h_bo g p - 1)\<rparr>) w'"
proof -
  define w0 where "w0 = vm_WARN (\<not> drm_gpuvm_immediate_mode (w_vm w (bo_vm bo))) (bo_vm bo) w"
  have inv0: "bo_inv rv g w0" and bo0: "w_bos w0 p = Some bo" using inv bo by (simp_all add: w0_def)
  from bo_find_inv [OF inv0, of "bo_vm bo" "bo_obj bo"] show ?thesis
  proof (elim disjE exE conjE)
    fix q w1 bo1
    assume f: "drm_gpuvm_bo_find (bo_vm bo) (bo_obj bo) w0 = Some (Some q, w1)" and q: "q \<in> set (w_gem w0 (bo_obj bo))"
      and gt: "drm_gpuvm_bo_get q w0 = Some w1" and inv1: "bo_inv rv (g\<lparr>h_bo := (h_bo g)(q := h_bo g q + 1)\<rparr>) w1"
    have qp: "q \<noteq> p" using q fresh(1) by (auto simp: w0_def)
    let ?g = "g\<lparr>h_bo := (h_bo g)(q := h_bo g q + 1)\<rparr>" and ?g' = "g\<lparr>h_bo := (h_bo g)(q := h_bo g q + 1, p := h_bo g p - 1)\<rparr>"
    have same: "w_bos w1 p = Some bo" "w_gem w1 = w_gem w" "w_vm w1 = w_vm w0"
      using gt qp bo0 by (auto simp: drm_gpuvm_bo_get_def w0_def split: if_splits bind_splits)
    have off: "p \<notin> set (get_list name (w_vm w1 v))" for name v using fresh(2) by (simp add: same w0_def)
    have "\<exists>b w'. kref_put (drm_gpuvm_bo_destroy_not_in_lists lib) p w1 = Some (b, w') \<and> (if b then bo_inv rv ?g' w' else bo_inv rv ?g' w') \<and>
       (b \<longleftrightarrow> map_option bo_kref (w_bos w1 p) = Some 1)"
    proof (rule kref_put_inv [OF inv1])
      fix bo' assume b': "w_bos w1 p = Some bo'" "bo_kref bo' = 1" "h_bo ?g p = 1"
      define w2 where "w2 = set_bo p (bo'\<lparr>bo_kref := 0\<rparr>) w1"
      have lo: "get_local name (w_vm w1 v) = None" for name v using inv1 by (auto simp: bo_inv_defs inv_lists_def)
      have "bo_inv_but {p} rv (?g\<lparr>h_bo := (h_bo ?g)(p := 0)\<rparr>) w2 \<and> (\<not> False \<longrightarrow> (\<forall>v name. p \<notin> set (get_list name (w_vm w2 v))))"
      proof (rule kill_inv [OF inv1 b', where vm' = "w_vm w1 (bo_vm bo')"])
        show "w_gem w2 = (w_gem w1)(bo_obj bo' := remove1 p (w_gem w1 (bo_obj bo')))"
          using fresh(1) same b'(1) by (simp add: w2_def remove1_idem)
        show "get_list name (w_vm w1 (bo_vm bo')) = (if False then id else remove1 p) (get_list name (w_vm w1 (bo_vm bo')))" for name
          using off by (simp add: remove1_idem)
      qed (simp_all add: w2_def lo)
      then have "\<exists>w'. drm_gpuvm_bo_destroy_not_in_lists lib p w2 = Some w' \<and> bo_inv_but ({p} - {p}) rv (?g\<lparr>h_bo := (h_bo ?g)(p := 0)\<rparr>) w' \<and>
          w_bos w' p = None \<and> (\<forall>v name. get_list name (w_vm w' v) = get_list name (w_vm w2 v))"
        by (intro destroy_not_in_lists_inv) auto
      then show "\<exists>w'. drm_gpuvm_bo_destroy_not_in_lists lib p (set_bo p (bo'\<lparr>bo_kref := 0\<rparr>) w1) = Some w' \<and> bo_inv rv ?g' w'"
        using b'(3) qp by (auto simp: w2_def bo_inv_def)
    qed (use qp h in simp_all)
    then show ?thesis using f bo qp
      by (auto simp: drm_gpuvm_bo_obtain_prealloc_def w0_def [symmetric] split: if_splits)
  next
    assume f: "drm_gpuvm_bo_find (bo_vm bo) (bo_obj bo) w0 = Some (None, w0)"
      and none: "\<forall>q \<in> set (w_gem w0 (bo_obj bo)). map_option bo_vm (w_bos w0 q) \<noteq> Some (bo_vm bo)"
    have "0 < bo_kref bo" using inv_heapD [of "h_bo g" "w_next w0" "w_bos w0" p bo] inv0 bo0 h by (auto simp: bo_inv_defs)
    from gem_add_inv [OF inv0 bo0 this none] f bo show ?thesis
      by (auto simp: drm_gpuvm_bo_obtain_prealloc_def w0_def [symmetric])
  qed
qed

section \<open>Eviction and links\<close>

lemma list_add_inv:
  assumes inv: "bo_inv rv g w" and bo: "w_bos w p = Some bo" "0 < bo_kref bo"
    and ext: "name = Extobj \<Longrightarrow> drm_gpuvm_is_extobj rv (w_vm w (bo_vm bo)) (bo_obj bo)"
  shows "bo_inv rv g (on_vm (bo_vm bo) (raw_drm_gpuvm_bo_list_add name p) w)"
proof -
  have l: "inv_lists rv (bo_info (w_bos w)) (w_vm w)" using inv by (simp add: bo_inv_defs)
  have lo: "get_local n (w_vm w v) = None" for n v using l by (simp add: inv_lists_def)
  have ok: "list_elem_ok rv name (bo_vm bo) (w_vm w (bo_vm bo)) (bo_info (w_bos w) p)"
    using bo ext by (simp add: list_elem_ok_def bo_info_def)
  have f: "vm_frame (w_vm w (bo_vm bo)) (raw_drm_gpuvm_bo_list_add name p (w_vm w (bo_vm bo)))" by simp
  have "inv_lists rv (bo_info (w_bos w)) ((w_vm w)(bo_vm bo := raw_drm_gpuvm_bo_list_add name p (w_vm w (bo_vm bo))))"
    by (rule frame_upd(3) [where vms = "w_vm w" and v = "bo_vm bo", OF f l])
      (use l lo ok in \<open>auto simp: inv_lists_def list_add_list\<close>)
  then show ?thesis using inv frame_upd(1,2) [where vms = "w_vm w" and v = "bo_vm bo", OF f] by (simp add: bo_inv_defs)
qed

lemma list_del_inv:
  assumes inv: "bo_inv rv g w"
  shows "bo_inv rv g (on_vm v (raw_drm_gpuvm_bo_list_del name p) w)"
proof -
  have l: "inv_lists rv (bo_info (w_bos w)) (w_vm w)" using inv by (simp add: bo_inv_defs)
  have f: "vm_frame (w_vm w v) (raw_drm_gpuvm_bo_list_del name p (w_vm w v))" by simp
  have "inv_lists rv (bo_info (w_bos w)) ((w_vm w)(v := raw_drm_gpuvm_bo_list_del name p (w_vm w v)))"
    by (rule inv_lists_shrink [OF l]) (use l vm_frame_preds(4) [OF f] in \<open>auto simp: inv_lists_def\<close>)
  then show ?thesis using inv frame_upd(1,2) [where vms = "w_vm w" and v = v, OF f] by (simp add: bo_inv_defs)
qed

lemma extobj_add_inv:
  assumes "bo_inv rv g w" and "w_bos w p = Some bo" and "0 < bo_kref bo"
  shows "\<exists>w'. drm_gpuvm_bo_extobj_add rv p w = Some w' \<and> bo_inv rv g w'"
  using assms by (auto simp: drm_gpuvm_bo_extobj_add_def intro: list_add_inv)

lemma bo_evict_inv:
  assumes inv: "bo_inv rv g w" and bo: "w_bos w p = Some bo" "0 < bo_kref bo"
  shows "\<exists>w'. drm_gpuvm_bo_evict rv p e w = Some w' \<and> bo_inv rv g w' \<and> w_gem w' = w_gem w \<and>
     w_bos w' = (w_bos w)(p := Some (bo\<lparr>bo_evicted := e\<rparr>))"
proof -
  define w1 where "w1 = set_bo p (bo\<lparr>bo_evicted := e\<rparr>) w"
  have k: "bo_kref bo = h_bo g p + length (bo_gpuva bo)" using inv bo inv_heapD by (fastforce simp: bo_inv_defs)
  have "bo_inv rv (g\<lparr>h_bo := (h_bo g)(p := h_bo g p)\<rparr>) w1"
    unfolding w1_def using bo k by (intro live_inv [OF inv bo(1)]) auto
  then have inv1: "bo_inv rv g w1" by simp
  have b1: "w_bos w1 p = Some (bo\<lparr>bo_evicted := e\<rparr>)" by (simp add: w1_def)
  have "bo_inv rv g (on_vm (bo_vm bo) (raw_drm_gpuvm_bo_list_add Evict p) w1)"
    using list_add_inv [OF inv1 b1, of Evict] bo(2) by simp
  moreover have "bo_inv rv g (on_vm (bo_vm bo) (raw_drm_gpuvm_bo_list_del Evict p) w1)" by (rule list_del_inv [OF inv1])
  ultimately show ?thesis using inv1 bo
    by (cases "drm_gpuvm_is_extobj rv (w_vm w (bo_vm bo)) (bo_obj bo) \<and> drm_gpuvm_resv_protected (w_vm w (bo_vm bo))"; cases e)
      (simp_all add: drm_gpuvm_bo_evict_def w1_def Let_def)
qed

lemma evict_all_inv:
  assumes "bo_inv rv g w" and "\<And>p. p \<in> set ps \<Longrightarrow> \<exists>bo. w_bos w p = Some bo \<and> 0 < bo_kref bo"
  shows "\<exists>w'. evict_all rv ps e w = Some w' \<and> bo_inv rv g w' \<and> w_gem w' = w_gem w"
  using assms
proof (induction ps arbitrary: w)
  case (Cons p ps)
  from Cons.prems(2) [of p] obtain bo where bo: "w_bos w p = Some bo" "0 < bo_kref bo" by auto
  from bo_evict_inv [OF Cons.prems(1) bo, of e] obtain w1 where
    w1: "drm_gpuvm_bo_evict rv p e w = Some w1" "bo_inv rv g w1" "w_gem w1 = w_gem w"
      "w_bos w1 = (w_bos w)(p := Some (bo\<lparr>bo_evicted := e\<rparr>))" by blast
  have "\<exists>bo. w_bos w1 q = Some bo \<and> 0 < bo_kref bo" if "q \<in> set ps" for q
    using Cons.prems(2) [of q] that bo w1(4) by auto
  from Cons.IH [OF w1(2) this] w1 show ?case by simp
qed simp

lemma gem_evict_inv:
  assumes inv: "bo_inv rv g w"
  shows "\<exists>w'. drm_gpuvm_bo_gem_evict rv obj e w = Some w' \<and> bo_inv rv g w'"
  unfolding drm_gpuvm_bo_gem_evict_def using evict_all_inv [OF inv] gem_elem [OF inv] by metis

lemma link_inv:
  assumes inv: "bo_inv rv g w" and va: "gem_obj va = Some obj" "w_va_bo w (va_ptr va) = None"
    and bo: "w_bos w p = Some bo" "p \<in> set (w_gem w (bo_obj bo))"
  shows "\<exists>w'. drm_gpuva_link va v p w = Some w' \<and> bo_inv rv g w' \<and> w_va_bo w' = (w_va_bo w)(va_ptr va := Some p)"
proof -
  let ?a = "va_ptr va"
  from gem_elem [OF inv bo(2)] bo(1) have k: "0 < bo_kref bo" by auto
  define bo' where "bo' = bo\<lparr>bo_kref := bo_kref bo + 1, bo_gpuva := bo_gpuva bo @ [?a]\<rparr>"
  define w0 where "w0 = vm_WARN (obj \<noteq> bo_obj bo) v w"
  define w' where "w' = set_bo p bo' (w0\<lparr>w_va_bo := (w_va_bo w)(?a := Some p)\<rparr>)"
  have inv0: "bo_inv rv g w0" and b0: "w_bos w0 p = Some bo" using inv bo by (simp_all add: w0_def)
  have w': "w_bos w' = (w_bos w0)(p := Some bo')" "w_vm w' = w_vm w0" "w_gem w' = w_gem w0" "w_next w' = w_next w0"
      "w_env w' = w_env w0" "w_va_bo w' = (w_va_bo w0)(?a := Some p)" by (simp_all add: w'_def w0_def)
  have i': "bo_info (w_bos w') = bo_info (w_bos w0)"
    unfolding w' by (rule bo_info_same [of "w_bos w0" p, OF b0]) (use k in \<open>auto simp: bo'_def\<close>)
  have "inv_heap ((h_bo g)(p := h_bo g p)) (w_next w') (w_bos w')"
    unfolding w' by (rule inv_heap_upd [where bos = "w_bos w0" and p = p, OF _ b0])
      (use inv0 inv_heapD [of "h_bo g" "w_next w0" "w_bos w0" p bo] b0 in \<open>auto simp: bo_inv_defs bo'_def\<close>)
  moreover have "inv_links (w_bos w') (w_gem w') (w_va_bo w')"
  proof -
    have l: "inv_links (w_bos w0) (w_gem w0) (w_va_bo w0)" using inv0 by (simp add: bo_inv_defs)
    have na: "?a \<notin> set (bo_gpuva b)" if "w_bos w0 q = Some b" for q b
      using l that va(2) unfolding inv_links_def by (auto simp: w0_def)
    show ?thesis unfolding inv_links_def w'
    proof (intro conjI allI impI)
      fix q b a
      assume q: "((w_bos w0)(p := Some bo')) q = Some b"
      show "distinct (bo_gpuva b)" using q na [OF b0] l b0 by (cases "q = p") (auto simp: inv_links_def bo'_def)
      show "a \<in> set (bo_gpuva b) \<longleftrightarrow> ((w_va_bo w0)(?a := Some p)) a = Some q"
        using q na l b0 by (cases "q = p"; cases "a = ?a") (auto simp: inv_links_def bo'_def)
      show "q \<in> set (w_gem w0 (bo_obj b))" if "bo_gpuva b \<noteq> []"
        using q that l bo(2) by (cases "q = p") (auto simp: inv_links_def bo'_def w0_def)
    next
      fix a q
      assume "((w_va_bo w0)(?a := Some p)) a = Some q"
      then show "((w_bos w0)(p := Some bo')) q \<noteq> None" using l by (auto simp: inv_links_def split: if_splits)
    qed
  qed
  ultimately have "bo_inv rv g w'" using inv0 unfolding bo_inv_defs i' by (simp add: w'(2-5))
  moreover have "drm_gpuva_link va v p w = Some w'"
    using va(1) bo(1) k by (simp add: drm_gpuva_link_def drm_gpuvm_bo_get_def w'_def w0_def bo'_def set_bo_def Let_def)
  ultimately show ?thesis by (auto simp: w' w0_def)
qed

text \<open>Taking a mapping off the list of its object leaves the object with a reference that its holder has to drop.\<close>

lemma unlink_transfer:
  assumes inv: "bo_inv rv g w" and va: "w_va_bo w a = Some p"
  shows "bo_inv rv (g\<lparr>h_bo := (h_bo g)(p := h_bo g p + 1)\<rparr>) ((gpuva_list_del a (Some p) w)\<lparr>w_va_bo := (w_va_bo w)(a := None)\<rparr>)"
proof -
  from inv have l: "inv_links (w_bos w) (w_gem w) (w_va_bo w)" by (simp add: bo_inv_defs)
  from l va obtain bo where bo: "w_bos w p = Some bo" "a \<in> set (bo_gpuva bo)" "distinct (bo_gpuva bo)"
    unfolding inv_links_def by blast
  then have pg: "p \<in> set (w_gem w (bo_obj bo))" using l unfolding inv_links_def by fastforce
  define bo' where "bo' = bo\<lparr>bo_gpuva := remove1 a (bo_gpuva bo)\<rparr>"
  have e: "(gpuva_list_del a (Some p) w) = set_bo p bo' w" using bo(1) by (simp add: gpuva_list_del_def bo'_def)
  have i': "bo_info ((w_bos w)(p := Some bo')) = bo_info (w_bos w)" by (rule bo_info_same [of "w_bos w" p, OF bo(1)]) (simp_all add: bo'_def)
  have h: "inv_heap (h_bo g) (w_next w) (w_bos w)" using inv by (simp add: bo_inv_defs)
  have "0 < length (bo_gpuva bo)" using bo(2) by (cases "bo_gpuva bo") auto
  then have "inv_heap ((h_bo g)(p := h_bo g p + 1)) (w_next w) ((w_bos w)(p := Some bo'))"
    by (intro inv_heap_upd [OF h bo(1)]) (use inv_heapD [OF h bo(1)] bo(2) in \<open>simp add: bo'_def length_remove1\<close>)
  moreover have "inv_links ((w_bos w)(p := Some bo')) (w_gem w) ((w_va_bo w)(a := None))"
    unfolding inv_links_def
  proof (intro conjI allI impI)
    fix q b c
    assume q: "((w_bos w)(p := Some bo')) q = Some b"
    show "distinct (bo_gpuva b)" using q l bo by (cases "q = p") (auto simp: inv_links_def bo'_def)
    show "c \<in> set (bo_gpuva b) \<longleftrightarrow> ((w_va_bo w)(a := None)) c = Some q"
      using q l bo va by (cases "q = p"; cases "c = a") (auto simp: inv_links_def bo'_def)
    show "q \<in> set (w_gem w (bo_obj b))" if "bo_gpuva b \<noteq> []"
      using q that l pg by (cases "q = p") (auto simp: inv_links_def bo'_def)
  next
    fix c q
    assume "((w_va_bo w)(a := None)) c = Some q"
    then show "((w_bos w)(p := Some bo')) q \<noteq> None" using l by (auto simp: inv_links_def split: if_splits)
  qed
  ultimately show ?thesis using inv unfolding bo_inv_defs by (simp add: e i')
qed

lemma holds_cancel [simp]: "(g\<lparr>h_bo := (h_bo g)(p := n)\<rparr>)\<lparr>h_bo := (h_bo (g\<lparr>h_bo := (h_bo g)(p := n)\<rparr>))(p := h_bo g p)\<rparr> = g"
  by simp

lemma gpuva_list_del_same [simp]:
  "w_va_bo (gpuva_list_del a p w) = w_va_bo w" "gpuva_list_del a None w = w"
  by (simp_all add: gpuva_list_del_def split: option.split)

lemma unlink_inv:
  assumes inv: "bo_inv rv g w"
  shows "\<exists>w'. drm_gpuva_unlink lib va w = Some w' \<and> bo_inv rv g w'"
proof (cases "gem_obj va = None \<or> w_va_bo w (va_ptr va) = None")
  case True
  have "w\<lparr>w_va_bo := (w_va_bo w)(va_ptr va := None)\<rparr> = w" if "w_va_bo w (va_ptr va) = None"
    using fun_upd_triv [of "w_va_bo w" "va_ptr va"] that by simp
  with True inv show ?thesis
    by (cases "gem_obj va") (auto simp: drm_gpuva_unlink_def drm_gpuvm_bo_put_def Let_def)
next
  case False
  then obtain obj p where o: "gem_obj va = Some obj" and p: "w_va_bo w (va_ptr va) = Some p" by auto
  from bo_put_inv [OF unlink_transfer [OF inv p], of p lib] show ?thesis
    by (auto simp: drm_gpuva_unlink_def o p Let_def)
qed

text \<open>The deferred variant clears the back pointer of the mapping last; nothing before depends on it.\<close>

lemma va_bo_commute:
  "set_bo p bo (w\<lparr>w_va_bo := f\<rparr>) = (set_bo p bo w)\<lparr>w_va_bo := f\<rparr>" "on_vm v h (w\<lparr>w_va_bo := f\<rparr>) = (on_vm v h w)\<lparr>w_va_bo := f\<rparr>"
  "gem_list_del obj p (w\<lparr>w_va_bo := f\<rparr>) = (gem_list_del obj p w)\<lparr>w_va_bo := f\<rparr>"
  by (simp_all add: set_bo_def on_vm_def gem_list_del_def)

lemma into_zombie_va_bo:
  "drm_gpuvm_bo_into_zombie p (w\<lparr>w_va_bo := f\<rparr>) = map_option (\<lambda>w. w\<lparr>w_va_bo := f\<rparr>) (drm_gpuvm_bo_into_zombie p w)"
  "kref_put drm_gpuvm_bo_into_zombie p (w\<lparr>w_va_bo := f\<rparr>) =
     map_option (\<lambda>(b, w). (b, w\<lparr>w_va_bo := f\<rparr>)) (kref_put drm_gpuvm_bo_into_zombie p w)"
  "drm_gpuvm_bo_defer_zombie_cleanup p (w\<lparr>w_va_bo := f\<rparr>) = map_option (\<lambda>w. w\<lparr>w_va_bo := f\<rparr>) (drm_gpuvm_bo_defer_zombie_cleanup p w)"
proof -
  show i: "drm_gpuvm_bo_into_zombie p (w\<lparr>w_va_bo := f\<rparr>) = map_option (\<lambda>w. w\<lparr>w_va_bo := f\<rparr>) (drm_gpuvm_bo_into_zombie p w)" for w
    by (cases "w_bos w p") (simp_all add: drm_gpuvm_bo_into_zombie_def va_bo_commute Let_def)
  show "kref_put drm_gpuvm_bo_into_zombie p (w\<lparr>w_va_bo := f\<rparr>) =
     map_option (\<lambda>(b, w). (b, w\<lparr>w_va_bo := f\<rparr>)) (kref_put drm_gpuvm_bo_into_zombie p w)"
    by (cases "w_bos w p") (simp_all add: kref_put_def va_bo_commute i Let_def option.map_comp comp_def)
  show "drm_gpuvm_bo_defer_zombie_cleanup p (w\<lparr>w_va_bo := f\<rparr>) =
      map_option (\<lambda>w. w\<lparr>w_va_bo := f\<rparr>) (drm_gpuvm_bo_defer_zombie_cleanup p w)"
    by (cases "w_bos w p") (simp_all add: drm_gpuvm_bo_defer_zombie_cleanup_def va_bo_commute)
qed

lemma zombie_va_bo: "kref_put drm_gpuvm_bo_into_zombie p w = Some (b, w') \<Longrightarrow> w_va_bo w' = w_va_bo w"
  by (auto simp: kref_put_def drm_gpuvm_bo_into_zombie_def Let_def split: bind_splits if_splits)

lemma defer_va_bo: "drm_gpuvm_bo_defer_zombie_cleanup p w = Some w' \<Longrightarrow> w_va_bo w' = w_va_bo w"
  by (auto simp: drm_gpuvm_bo_defer_zombie_cleanup_def split: bind_splits)

lemma unlink_defer_inv:
  assumes inv: "bo_inv rv g w" and va: "gem_obj va = None \<or> w_va_bo w (va_ptr va) \<noteq> None"
  shows "\<exists>w'. drm_gpuva_unlink_defer va w = Some w' \<and> bo_inv rv g w'"
proof (cases "gem_obj va")
  case None
  then show ?thesis using inv by (simp add: drm_gpuva_unlink_defer_def)
next
  case (Some obj)
  with va obtain p where p: "w_va_bo w (va_ptr va) = Some p" by auto
  from inv p obtain bo where bo: "w_bos w p = Some bo" unfolding bo_inv_defs inv_links_def by blast
  define w0 where "w0 = vm_WARN (\<not> drm_gpuvm_immediate_mode (w_vm w (bo_vm bo))) (bo_vm bo) w"
  define f where "f = (w_va_bo w0)(va_ptr va := None)"
  define w1 where "w1 = gpuva_list_del (va_ptr va) (Some p) w0"
  let ?g = "g\<lparr>h_bo := (h_bo g)(p := h_bo g p + 1)\<rparr>"
  have inv1: "bo_inv rv ?g (w1\<lparr>w_va_bo := f\<rparr>)"
    unfolding w1_def f_def by (rule unlink_transfer) (use inv p in \<open>simp_all add: w0_def\<close>)
  have "\<exists>b w'. kref_put drm_gpuvm_bo_into_zombie p (w1\<lparr>w_va_bo := f\<rparr>) = Some (b, w') \<and>
      (if b then bo_inv_but {p} rv g w' else bo_inv rv g w') \<and>
      (b \<longleftrightarrow> map_option bo_kref (w_bos (w1\<lparr>w_va_bo := f\<rparr>) p) = Some 1)"
  proof (rule kref_put_inv [OF inv1])
    fix bo assume "w_bos (w1\<lparr>w_va_bo := f\<rparr>) p = Some bo" "bo_kref bo = 1" "h_bo ?g p = 1"
    from into_zombie_inv [OF inv1 this] \<open>h_bo ?g p = 1\<close>
    show "\<exists>w'. drm_gpuvm_bo_into_zombie p (set_bo p (bo\<lparr>bo_kref := 0\<rparr>) (w1\<lparr>w_va_bo := f\<rparr>)) = Some w' \<and> bo_inv_but {p} rv g w'"
      using holds_cancel [of g p "h_bo g p + 1"] by auto
  qed auto
  then obtain b w' where "kref_put drm_gpuvm_bo_into_zombie p (w1\<lparr>w_va_bo := f\<rparr>) = Some (b, w')"
    and iv: "if b then bo_inv_but {p} rv g w' else bo_inv rv g w'" by blast
  then obtain w2 where k: "kref_put drm_gpuvm_bo_into_zombie p w1 = Some (b, w2)" "w' = w2\<lparr>w_va_bo := f\<rparr>"
    by (auto simp: into_zombie_va_bo)
  have "\<exists>w3. (if b then drm_gpuvm_bo_defer_zombie_cleanup p w2 else Some w2) = Some w3 \<and> bo_inv rv g (w3\<lparr>w_va_bo := f\<rparr>) \<and>
      w_va_bo w3 = w_va_bo w2"
  proof (cases b)
    case True
    with iv k(2) defer_add_inv [of p rv g w'] obtain w4 where "drm_gpuvm_bo_defer_zombie_cleanup p (w2\<lparr>w_va_bo := f\<rparr>) = Some w4" "bo_inv rv g w4" by auto
    with True show ?thesis by (auto simp: into_zombie_va_bo dest: defer_va_bo)
  qed (use iv k(2) in simp)
  moreover have "w_va_bo w2 = w_va_bo w0" using zombie_va_bo [OF k(1)] by (simp add: w1_def)
  ultimately show ?thesis using Some p bo k(1)
    by (auto simp: drm_gpuva_unlink_defer_def w0_def [symmetric] w1_def [symmetric] f_def)
qed

section \<open>A driver\<close>

text \<open>
  What a driver may do. The obligations are those of the kernel documentation: a reference may only be used by who
  holds it, a preallocated object must not be on a list, a mapping is linked once and to an
  object that was obtained.
\<close>

datatype bo_cmd =
    Vm_get nat | Vm_put nat
  | Bo_create nat nat | Bo_find nat nat | Bo_obtain nat nat | Bo_prealloc nat
  | Bo_get nat | Bo_put nat | Bo_put_deferred nat | Bo_cleanup nat
  | Bo_extobj_add nat | Bo_evict nat bool | Gem_evict nat bool
  | Va_link drm_gpuva nat nat | Va_unlink drm_gpuva | Va_unlink_defer drm_gpuva

definition bo_live :: "'w bo_world \<Rightarrow> nat \<Rightarrow> bool" where
  "bo_live w p \<longleftrightarrow> (case w_bos w p of None \<Rightarrow> False | Some bo \<Rightarrow> 0 < bo_kref bo)"

fun bo_allowed :: "bo_cmd \<Rightarrow> bo_holds \<times> 'w bo_world \<Rightarrow> bool" where
  "bo_allowed (Vm_get v) (g, w) = (0 < h_vm g v)"
| "bo_allowed (Vm_put v) (g, w) = (0 < h_vm g v)"
| "bo_allowed (Bo_create v obj) (g, w) = (0 < h_vm g v)"
| "bo_allowed (Bo_find v obj) (g, w) = True"
| "bo_allowed (Bo_obtain v obj) (g, w) = (0 < h_vm g v)"
| "bo_allowed (Bo_prealloc p) (g, w) =
     (0 < h_bo g p \<and> (\<forall>obj. p \<notin> set (w_gem w obj)) \<and> (\<forall>name v. p \<notin> set (get_list name (w_vm w v))))"
| "bo_allowed (Bo_get p) (g, w) = (0 < h_bo g p)"
| "bo_allowed (Bo_put p) (g, w) = (0 < h_bo g p)"
| "bo_allowed (Bo_put_deferred p) (g, w) = (0 < h_bo g p)"
| "bo_allowed (Bo_cleanup v) (g, w) = True"
| "bo_allowed (Bo_extobj_add p) (g, w) = bo_live w p"
| "bo_allowed (Bo_evict p e) (g, w) = bo_live w p"
| "bo_allowed (Gem_evict obj e) (g, w) = True"
| "bo_allowed (Va_link va v p) (g, w) =
     (w_va_bo w (va_ptr va) = None \<and> (\<exists>bo. w_bos w p = Some bo \<and> p \<in> set (w_gem w (bo_obj bo))))"
| "bo_allowed (Va_unlink va) (g, w) = True"
| "bo_allowed (Va_unlink_defer va) (g, w) = (gem_obj va = None \<or> w_va_bo w (va_ptr va) \<noteq> None)"

definition hold :: "nat \<Rightarrow> bo_holds \<Rightarrow> bo_holds" where
  "hold p g = g\<lparr>h_bo := (h_bo g)(p := h_bo g p + 1)\<rparr>"

definition release :: "nat \<Rightarrow> bo_holds \<Rightarrow> bo_holds" where
  "release p g = g\<lparr>h_bo := (h_bo g)(p := h_bo g p - 1)\<rparr>"

fun bo_exec :: "drm_gpuva rb_lib \<Rightarrow> (nat \<Rightarrow> nat) \<Rightarrow> bo_cmd \<Rightarrow> bo_holds \<times> 'w bo_world \<Rightarrow> (bo_holds \<times> 'w bo_world) option" where
  "bo_exec lib rv (Vm_get v) (g, w) =
     Some (g\<lparr>h_vm := (h_vm g)(v := h_vm g v + 1)\<rparr>, on_vm v (\<lambda>vm. vm\<lparr>vm_base := drm_gpuvm_get (vm_base vm)\<rparr>) w)"
| "bo_exec lib rv (Vm_put v) (g, w) =
     map_option (\<lambda>base. (g\<lparr>h_vm := (h_vm g)(v := h_vm g v - 1)\<rparr>, on_vm v (\<lambda>vm. vm\<lparr>vm_base := base\<rparr>) w))
       (drm_gpuvm_put lib (vm_base (w_vm w v)))"
| "bo_exec lib rv (Bo_create v obj) (g, w) =
     (case drm_gpuvm_bo_create v obj w of (None, w) \<Rightarrow> Some (g, w) | (Some p, w) \<Rightarrow> Some (hold p g, w))"
| "bo_exec lib rv (Bo_find v obj) (g, w) =
     map_option (\<lambda>(r, w). (case r of None \<Rightarrow> g | Some p \<Rightarrow> hold p g, w)) (drm_gpuvm_bo_find v obj w)"
| "bo_exec lib rv (Bo_obtain v obj) (g, w) =
     map_option (\<lambda>(r, w). (case r of Inl _ \<Rightarrow> g | Inr p \<Rightarrow> hold p g, w)) (drm_gpuvm_bo_obtain_locked v obj w)"
| "bo_exec lib rv (Bo_prealloc p) (g, w) =
     map_option (\<lambda>(q, w). (if q = p then g else release p (hold q g), w)) (drm_gpuvm_bo_obtain_prealloc lib p w)"
| "bo_exec lib rv (Bo_get p) (g, w) = map_option (Pair (hold p g)) (drm_gpuvm_bo_get p w)"
| "bo_exec lib rv (Bo_put p) (g, w) = map_option (\<lambda>(_, w). (release p g, w)) (drm_gpuvm_bo_put lib (Some p) w)"
| "bo_exec lib rv (Bo_put_deferred p) (g, w) = map_option (\<lambda>(_, w). (release p g, w)) (drm_gpuvm_bo_put_deferred (Some p) w)"
| "bo_exec lib rv (Bo_cleanup v) (g, w) = map_option (Pair g) (drm_gpuvm_bo_deferred_cleanup lib v w)"
| "bo_exec lib rv (Bo_extobj_add p) (g, w) = map_option (Pair g) (drm_gpuvm_bo_extobj_add rv p w)"
| "bo_exec lib rv (Bo_evict p e) (g, w) = map_option (Pair g) (drm_gpuvm_bo_evict rv p e w)"
| "bo_exec lib rv (Gem_evict obj e) (g, w) = map_option (Pair g) (drm_gpuvm_bo_gem_evict rv obj e w)"
| "bo_exec lib rv (Va_link va v p) (g, w) = map_option (Pair g) (drm_gpuva_link va v p w)"
| "bo_exec lib rv (Va_unlink va) (g, w) = map_option (Pair g) (drm_gpuva_unlink lib va w)"
| "bo_exec lib rv (Va_unlink_defer va) (g, w) = map_option (Pair g) (drm_gpuva_unlink_defer va w)"

text \<open>Address spaces without buffer objects, to which the driver holds references.\<close>

definition bo_start :: "bo_holds \<times> 'w bo_world \<Rightarrow> bool" where
  "bo_start s = (case s of (g, w) \<Rightarrow>
     (\<forall>p. w_bos w p = None \<and> w_gem w p = [] \<and> w_va_bo w p = None \<and> h_bo g p = 0) \<and>
     (\<forall>v. base_ok (h_vm g v) (vm_base (w_vm w v)) \<and> bo_defer (vm_base (w_vm w v)) = [] \<and>
        (\<forall>name. get_list name (w_vm w v) = [] \<and> get_local name (w_vm w v) = None)) \<and> k_refs (w_env w) = h_gem g)"

inductive bo_reachable :: "drm_gpuva rb_lib \<Rightarrow> (nat \<Rightarrow> nat) \<Rightarrow> bo_holds \<times> 'w bo_world \<Rightarrow> bool" for lib rv where
  start: "bo_start s \<Longrightarrow> bo_reachable lib rv s"
| step: "bo_reachable lib rv s \<Longrightarrow> bo_allowed c s \<Longrightarrow> bo_exec lib rv c s = Some s' \<Longrightarrow> bo_reachable lib rv s'"

lemma vm_ref_inv:
  assumes inv: "bo_inv rv g w" and h: "0 < h_vm g v"
  shows "bo_inv rv (g\<lparr>h_vm := (h_vm g)(v := h_vm g v + 1)\<rparr>) (on_vm v (\<lambda>vm. vm\<lparr>vm_base := drm_gpuvm_get (vm_base vm)\<rparr>) w)"
    and "\<exists>base. drm_gpuvm_put lib (vm_base (w_vm w v)) = Some base \<and>
      bo_inv rv (g\<lparr>h_vm := (h_vm g)(v := h_vm g v - 1)\<rparr>) (on_vm v (\<lambda>vm. vm\<lparr>vm_base := base\<rparr>) w)"
proof -
  let ?i = "bo_info (w_bos w)"
  have l: "inv_lists rv ?i (w_vm w)" and z: "inv_zombies {} ?i (w_vm w)" and c: "inv_counts g ?i (w_vm w) (k_refs (w_env w))"
    using inv by (simp_all add: bo_inv_defs)
  have b: "base_ok (h_vm g v + card (in_vm ?i v)) (vm_base (w_vm w v))" using c by (simp add: inv_counts_def)
  have upd: "bo_inv rv (g\<lparr>h_vm := (h_vm g)(v := n)\<rparr>) (on_vm v (\<lambda>vm. vm\<lparr>vm_base := base\<rparr>) w)"
    if ok: "base_ok (n + card (in_vm ?i v)) base" and same: "extobj_list base = extobj_list (vm_base (w_vm w v))"
      "evict_list base = evict_list (vm_base (w_vm w v))" "bo_defer base = bo_defer (vm_base (w_vm w v))"
      "vm_flags base = vm_flags (vm_base (w_vm w v))" for n base
  proof -
    have g: "get_list name ((w_vm w v)\<lparr>vm_base := base\<rparr>) = get_list name (w_vm w v)" for name by (cases name) (simp_all add: same)
    have el: "list_elem_ok rv name u ((w_vm w v)\<lparr>vm_base := base\<rparr>) x = list_elem_ok rv name u (w_vm w v) x" for name u x
      by (simp add: list_elem_ok_def drm_gpuvm_resv_protected_def drm_gpuvm_is_extobj_def same split: option.split)
    have "inv_lists rv ?i ((w_vm w)(v := (w_vm w v)\<lparr>vm_base := base\<rparr>))"
      by (rule inv_lists_shrink [OF l]) (use l g el in \<open>auto simp: inv_lists_def\<close>)
    then show ?thesis using inv ok same(3) by (auto simp: bo_inv_defs inv_zombies_def inv_counts_def)
  qed
  have "bo_inv rv (g\<lparr>h_vm := (h_vm g)(v := h_vm g v + 1)\<rparr>) (on_vm v (\<lambda>vm. vm\<lparr>vm_base := drm_gpuvm_get (vm_base (w_vm w v))\<rparr>) w)"
    by (rule upd) (use b h in \<open>auto simp: base_ok_def drm_gpuvm_get_def\<close>)
  then show "bo_inv rv (g\<lparr>h_vm := (h_vm g)(v := h_vm g v + 1)\<rparr>) (on_vm v (\<lambda>vm. vm\<lparr>vm_base := drm_gpuvm_get (vm_base vm)\<rparr>) w)"
    by (simp add: on_vm_def)
  from gpuvm_put_frame [of "vm_base (w_vm w v)" lib] b h obtain base where p: "drm_gpuvm_put lib (vm_base (w_vm w v)) = Some base"
      "vm_kref base = vm_kref (vm_base (w_vm w v)) - 1" "extobj_list base = extobj_list (vm_base (w_vm w v))"
      "evict_list base = evict_list (vm_base (w_vm w v))" "bo_defer base = bo_defer (vm_base (w_vm w v))"
      "vm_flags base = vm_flags (vm_base (w_vm w v))" "kernel_alloc_node base = kernel_alloc_node (vm_base (w_vm w v))"
      "0 < vm_kref base \<longrightarrow> vm_freed base = vm_freed (vm_base (w_vm w v))"
    by (auto simp: base_ok_def)
  then have "base_ok (h_vm g v - 1 + card (in_vm ?i v)) base" using b h by (auto simp: base_ok_def)
  from upd [OF this p(3-6)] p(1)
  show "\<exists>base. drm_gpuvm_put lib (vm_base (w_vm w v)) = Some base \<and>
      bo_inv rv (g\<lparr>h_vm := (h_vm g)(v := h_vm g v - 1)\<rparr>) (on_vm v (\<lambda>vm. vm\<lparr>vm_base := base\<rparr>) w)" by blast
qed

lemma holds_live:
  assumes "bo_inv rv g w" and "0 < h_bo g p"
  obtains bo where "w_bos w p = Some bo" and "0 < bo_kref bo"
  using assms by (cases "w_bos w p") (auto simp: bo_inv_defs inv_heap_def)

lemma bo_liveE:
  assumes "bo_live w p" obtains bo where "w_bos w p = Some bo" and "0 < bo_kref bo"
  using assms by (auto simp: bo_live_def split: option.splits)

lemma bo_exec_inv:
  assumes inv: "bo_inv rv g w" and ok: "bo_allowed c (g, w)"
  shows "\<exists>g' w'. bo_exec lib rv c (g, w) = Some (g', w') \<and> bo_inv rv g' w'"
proof (cases c)
  case (Vm_get v)
  then show ?thesis using vm_ref_inv(1) [OF inv] ok by simp
next
  case (Vm_put v)
  then show ?thesis using vm_ref_inv(2) [OF inv, of v lib] ok by auto
next
  case (Bo_create v obj)
  obtain r w' where cr: "drm_gpuvm_bo_create v obj w = (r, w')" by (rule prod.exhaust)
  show ?thesis
  proof (cases r)
    case None
    then show ?thesis using Bo_create cr bo_create_fail [of v obj w w' rv g] inv by simp
  next
    case (Some p)
    from bo_create_inv [OF inv _ cr [unfolded Some]] ok Bo_create
    have i: "bo_inv rv (g\<lparr>h_bo := (h_bo g)(p := 1)\<rparr>) w'" and n: "w_bos w p = None" by simp_all
    have "h_bo g p = 0" using inv n by (simp add: bo_inv_defs inv_heap_def)
    then show ?thesis using Bo_create cr Some i by (simp add: hold_def)
  qed
next
  case (Bo_find v obj)
  then show ?thesis using bo_find_inv [OF inv, of v obj] inv by (auto simp: hold_def)
next
  case (Bo_obtain v obj)
  with ok have "0 < h_vm g v" by simp
  from obtain_locked_inv [OF inv this, of obj] obtain r w' where r: "drm_gpuvm_bo_obtain_locked v obj w = Some (r, w')"
    and i: "case r of Inl e \<Rightarrow> e = neg_errno ENOMEM \<and> bo_inv rv g w'
      | Inr p \<Rightarrow> bo_inv rv (g\<lparr>h_bo := (h_bo g)(p := h_bo g p + 1)\<rparr>) w' \<and> p \<in> set (w_gem w' obj) \<and> map_option bo_vm (w_bos w' p) = Some v"
    by blast
  then show ?thesis using Bo_obtain by (cases r) (simp_all add: hold_def)
next
  case (Bo_prealloc p)
  with ok have h: "0 < h_bo g p" by simp
  obtain bo where bo: "w_bos w p = Some bo" by (rule holds_live [OF inv h])
  from obtain_prealloc_inv [OF inv bo h, of lib] ok Bo_prealloc
  obtain q w' where "drm_gpuvm_bo_obtain_prealloc lib p w = Some (q, w')"
    "bo_inv rv (if q = p then g else g\<lparr>h_bo := (h_bo g)(q := h_bo g q + 1, p := h_bo g p - 1)\<rparr>) w'" by auto
  then show ?thesis using Bo_prealloc by (cases "q = p") (simp_all add: hold_def release_def)
next
  case (Bo_get p)
  with ok have h: "0 < h_bo g p" by simp
  obtain bo where bo: "w_bos w p = Some bo" "0 < bo_kref bo" by (rule holds_live [OF inv h])
  from bo_get_inv [OF inv bo] Bo_get show ?thesis by (auto simp: hold_def)
next
  case (Bo_put p)
  then show ?thesis using bo_put_inv [OF inv, of p lib] ok by (auto simp: release_def)
next
  case (Bo_put_deferred p)
  then show ?thesis using bo_put_deferred_inv [OF inv, of p] ok by (auto simp: release_def)
next
  case (Bo_cleanup v)
  then show ?thesis using deferred_cleanup_inv [OF inv, of lib v] by auto
next
  case (Bo_extobj_add p)
  with ok obtain bo where bo: "w_bos w p = Some bo" "0 < bo_kref bo" by (auto elim: bo_liveE)
  from extobj_add_inv [OF inv bo] Bo_extobj_add show ?thesis by auto
next
  case (Bo_evict p e)
  with ok obtain bo where bo: "w_bos w p = Some bo" "0 < bo_kref bo" by (auto elim: bo_liveE)
  from bo_evict_inv [OF inv bo, of e] Bo_evict show ?thesis by auto
next
  case (Gem_evict obj e)
  then show ?thesis using gem_evict_inv [OF inv, of obj e] by auto
next
  case (Va_link va v p)
  then show ?thesis using link_inv [OF inv, of va] inv ok
    by (cases "gem_obj va") (fastforce simp: drm_gpuva_link_def)+
next
  case (Va_unlink va)
  then show ?thesis using unlink_inv [OF inv, of lib va] by auto
next
  case (Va_unlink_defer va)
  then show ?thesis using unlink_defer_inv [OF inv, of va] ok by auto
qed

lemma bo_start_inv: "bo_start (g, w) \<Longrightarrow> bo_inv rv g w"
proof -
  assume s: "bo_start (g, w)"
  then have n: "bo_info (w_bos w) = (\<lambda>_. None)" by (simp add: bo_start_def bo_info_def fun_eq_iff)
  have e: "in_vm (\<lambda>_. None) v = {}" "in_gem (\<lambda>_. None) v = {}" for v by (simp_all add: in_vm_def in_gem_def)
  from s show ?thesis
    by (simp add: bo_start_def bo_inv_defs inv_heap_def inv_lists_def inv_gem_def inv_zombies_def inv_links_def inv_counts_def n e dom_def)
qed

lemma bo_reachable_inv: "bo_reachable lib rv s \<Longrightarrow> bo_inv rv (fst s) (snd s)"
proof (induction rule: bo_reachable.induct)
  case (start s)
  then show ?case by (cases s) (simp add: bo_start_inv)
next
  case (step s c s')
  then show ?case using bo_exec_inv [of rv "fst s" "snd s" c lib] by auto
qed

section \<open>An example\<close>

text \<open>An address space and a GEM object that is obtained, linked and evicted.\<close>

definition ex_base :: drm_gpuvm where
  "ex_base = \<lparr>mm_start = 0, mm_range = 0x100000,
     kernel_alloc_node = \<lparr>va_ptr = 0, va_vm = False, va_addr = 0, va_range = 0, gem_obj = None, gem_offset = 0\<rparr>,
     rb_tree = RB_ROOT_CACHED, rb_list = [], extobj_list = [], evict_list = [], bo_defer = [], vm_kref = 1, vm_name = None,
     vm_flags = 1, r_obj_refs = 1, has_vm_free = True, vm_freed = False, warns = 0\<rparr>"

definition ex_start :: "bo_holds \<times> plain_ww bo_world" where
  "ex_start = (\<lparr>h_bo = (\<lambda>_. 0), h_vm = (\<lambda>_. 1), h_gem = (\<lambda>_. 1)\<rparr>,
     \<lparr>w_env = ex_env, w_next = 1, w_bos = (\<lambda>_. None), w_gem = (\<lambda>_. []),
      w_vm = (\<lambda>_. \<lparr>vm_base = ex_base, r_obj = 0, extobj_local = None, evict_local = None\<rparr>), w_va_bo = (\<lambda>_. None)\<rparr>)"

definition ex_obtained :: "bo_holds \<times> plain_ww bo_world" where
  "ex_obtained = the (bo_exec (plain_lib GPUVA_LAST) id (Bo_obtain 3 5) ex_start)"

lemma ex_start_ok: "bo_start ex_start"
proof -
  have "get_list name \<lparr>vm_base = ex_base, r_obj = 0, extobj_local = None, evict_local = None\<rparr> = [] \<and>
        get_local name \<lparr>vm_base = ex_base, r_obj = 0, extobj_local = None, evict_local = None\<rparr> = None" for name
    by (cases name) (simp_all add: ex_base_def)
  then show ?thesis by (simp add: bo_start_def ex_start_def base_ok_def ex_env_def) (simp add: ex_base_def)
qed

lemma reachable_next:
  assumes "bo_reachable lib rv s" and "bo_allowed c s"
  shows "bo_reachable lib rv (the (bo_exec lib rv c s))"
proof -
  obtain g w where s: "s = (g, w)" by (rule prod.exhaust)
  then show ?thesis using bo_exec_inv [of rv g w c lib] bo_reachable_inv [OF assms(1)] assms by (auto intro: bo_reachable.step)
qed

lemma ex_obtained_reachable: "bo_reachable (plain_lib GPUVA_LAST) id ex_obtained"
  unfolding ex_obtained_def by (rule reachable_next [OF bo_reachable.start [OF ex_start_ok]]) (simp add: ex_start_def)

lemmas ex_eval = ex_start_def ex_env_def ex_base_def drm_gpuvm_bo_obtain_locked_def drm_gpuvm_bo_find_def vm_WARN_def drm_WARN_def
  raw_drm_gpuvm_bo_find_def drm_gpuvm_bo_create_def kalloc_def drm_gpuvm_immediate_mode_def hold_def Let_def drm_gpuvm_get_def

lemma ex_obtained_state:
  "w_gem (snd ex_obtained) 5 = [1]" "w_bos (snd ex_obtained) 1 = Some \<lparr>bo_vm = 3, bo_obj = 5, bo_evicted = False, bo_kref = 1, bo_gpuva = []\<rparr>"
  "h_bo (fst ex_obtained) 1 = 1" "h_vm (fst ex_obtained) 3 = 1"
  "vm_base (w_vm (snd ex_obtained) 3) = ex_base\<lparr>vm_kref := 2\<rparr>"
  by (simp_all add: ex_obtained_def ex_eval)

section \<open>Properties\<close>

text \<open>
  C7. No sequence of allowed driver calls, with any outcome of the allocations, makes the bookkeeping touch freed memory or drop a count
  below zero, and in every reachable state the invariant holds: reference counts are the references held plus one for each linked
  mapping, the list of a GEM object has live objects only and at most one for each address space, the lists of an
  address space have its own allocated objects only, and the objects without references are exactly those that wait for the
  clean up.
\<close>

theorem bo_bookkeeping_safe:
  assumes "bo_reachable lib rv (g, w)"
  shows "bo_inv rv g w \<and> (\<forall>c. bo_allowed c (g, w) \<longrightarrow> bo_exec lib rv c (g, w) \<noteq> None)"
  using bo_reachable_inv [OF assms] bo_exec_inv [of rv g w _ lib] by fastforce

theorem bo_bookkeeping_safe_witness:
  "bo_inv id (fst ex_obtained) (snd ex_obtained) \<and> bo_exec (plain_lib GPUVA_LAST) id (Bo_put_deferred 1) ex_obtained \<noteq> None"
proof -
  have a: "bo_allowed (Bo_put_deferred 1) (fst ex_obtained, snd ex_obtained)"
    using ex_obtained_state by (simp del: prod.collapse)
  have "bo_reachable (plain_lib GPUVA_LAST) id (fst ex_obtained, snd ex_obtained)" using ex_obtained_reachable by simp
  from bo_bookkeeping_safe [OF this] a show ?thesis unfolding prod.collapse by blast
qed

text \<open>
  C26. An address space is not freed before its buffer objects: in a reachable state in which its last reference was dropped, it has no
  buffer object, and its lists of external, evicted and deferred objects are empty, so that \<open>drm_gpuvm_fini\<close> has nothing to
  warn about.
\<close>

theorem vm_outlives_bos:
  assumes "bo_reachable lib rv (g, w)" and "vm_kref (vm_base (w_vm w v)) = 0"
  shows "(\<forall>p bo. w_bos w p = Some bo \<longrightarrow> bo_vm bo \<noteq> v) \<and> extobj_list (vm_base (w_vm w v)) = [] \<and>
     evict_list (vm_base (w_vm w v)) = [] \<and> bo_defer (vm_base (w_vm w v)) = []"
proof -
  have inv: "bo_inv rv g w" using bo_reachable_inv [OF assms(1)] by simp
  let ?i = "bo_info (w_bos w)"
  have "card (in_vm ?i v) = 0" "finite (in_vm ?i v)"
    using inv assms(2) in_vm_finite by (auto simp: bo_inv_defs inv_counts_def base_ok_def)
  then have e: "?i p = Some (u, obj, z) \<Longrightarrow> u \<noteq> v" for p u obj z by (auto simp: in_vm_def)
  have "get_list name (w_vm w v) = []" for name
  proof (rule ccontr)
    assume "get_list name (w_vm w v) \<noteq> []"
    then obtain p where "p \<in> set (get_list name (w_vm w v))" using list.set_sel(1) by blast
    then have "list_elem_ok rv name v (w_vm w v) (?i p)" using inv by (simp add: bo_inv_defs inv_lists_def)
    then show False using e by (auto simp: list_elem_ok_def split: option.splits)
  qed
  from this [of Extobj] this [of Evict] have "extobj_list (vm_base (w_vm w v)) = []" "evict_list (vm_base (w_vm w v)) = []" by simp_all
  moreover have "bo_defer (vm_base (w_vm w v)) = []"
    using inv e unfolding bo_inv_defs inv_zombies_def by (metis list.set_intros(1) neq_Nil_conv)
  moreover have "bo_vm bo \<noteq> v" if "w_bos w p = Some bo" for p bo using e [of p "bo_vm bo"] that by (simp add: bo_info_def)
  ultimately show ?thesis by blast
qed

text \<open>The driver of the example gives up the address space and then the buffer object, which has the last reference to it.\<close>

definition ex_released :: "bo_holds \<times> plain_ww bo_world" where
  "ex_released = (let lib = plain_lib GPUVA_LAST in the (bo_exec lib id (Bo_put 1) (the (bo_exec lib id (Vm_put 3) ex_obtained))))"

lemma ex_released_state:
  "vm_kref (vm_base (w_vm (snd ex_released) 3)) = 0" "vm_freed (vm_base (w_vm (snd ex_released) 3))"
  "bo_reachable (plain_lib GPUVA_LAST) id ex_released"
proof -
  define s where "s = the (bo_exec (plain_lib GPUVA_LAST) id (Vm_put 3) ex_obtained)"
  obtain g w where o: "ex_obtained = (g, w)" by (rule prod.exhaust)
  have s: "s = (g\<lparr>h_vm := (h_vm g)(3 := h_vm g 3 - 1)\<rparr>, on_vm 3 (\<lambda>vm. vm\<lparr>vm_base := ex_base\<rparr>) w)"
    using ex_obtained_state by (simp add: s_def o drm_gpuvm_put_def) (simp add: ex_base_def)
  have a: "bo_allowed (Vm_put 3) ex_obtained" "bo_allowed (Bo_put 1) s" using ex_obtained_state by (simp_all add: o s)
  have r: "ex_released = the (bo_exec (plain_lib GPUVA_LAST) id (Bo_put 1) s)" by (simp add: ex_released_def s_def Let_def)
  show "bo_reachable (plain_lib GPUVA_LAST) id ex_released"
    unfolding r using reachable_next [OF reachable_next [OF ex_obtained_reachable a(1)], folded s_def] a(2) by blast
  have b: "w_bos (snd s) 1 = Some \<lparr>bo_vm = 3, bo_obj = 5, bo_evicted = False, bo_kref = 1, bo_gpuva = []\<rparr>"
    "vm_base (w_vm (snd s) 3) = ex_base" using ex_obtained_state by (simp_all add: o s)
  show "vm_kref (vm_base (w_vm (snd ex_released) 3)) = 0" "vm_freed (vm_base (w_vm (snd ex_released) 3))"
    using b unfolding r
    by (cases s; simp add: drm_gpuvm_bo_put_def kref_put_def drm_gpuvm_bo_destroy_def drm_gpuvm_bo_destroy_not_in_lists_def Let_def
        raw_drm_gpuvm_bo_list_del_def drm_gpuvm_put_def drm_gpuvm_free_def drm_gpuvm_fini_def ex_base_def drm_WARN_def)+
qed

theorem vm_outlives_bos_witness:
  "vm_freed (vm_base (w_vm (snd ex_released) 3)) \<and> extobj_list (vm_base (w_vm (snd ex_released) 3)) = [] \<and>
   evict_list (vm_base (w_vm (snd ex_released) 3)) = [] \<and> bo_defer (vm_base (w_vm (snd ex_released) 3)) = []"
  using vm_outlives_bos [of "plain_lib GPUVA_LAST" id "fst ex_released" "snd ex_released" 3] ex_released_state by simp

text \<open>
  There is one buffer object for an address space and a GEM object: after \<open>drm_gpuvm_bo_obtain_locked\<close> returned one, and as
  long as it is on the list of the GEM object, a second call returns the same one and takes one more reference to it.
\<close>

theorem obtain_locked_unique:
  assumes "bo_reachable lib rv (g, w)" and "p \<in> set (w_gem w obj)" and "w_bos w p = Some bo" and "bo_vm bo = v"
  shows "\<exists>w'. drm_gpuvm_bo_obtain_locked v obj w = Some (Inr p, w') \<and>
     w_bos w' = (w_bos w)(p := Some (bo\<lparr>bo_kref := bo_kref bo + 1\<rparr>))"
proof -
  have inv: "bo_inv rv g w" using bo_reachable_inv [OF assms(1)] by simp
  define w0 where "w0 = vm_WARN (drm_gpuvm_immediate_mode (w_vm w v)) v w"
  have d: "distinct (map (\<lambda>p. map_option fst (bo_info (w_bos w) p)) (w_gem w obj))"
    using inv by (simp add: bo_inv_defs inv_gem_def)
  have e: "map_option fst (bo_info (w_bos w) q) = map_option bo_vm (w_bos w q)" for q
    by (cases "w_bos w q") (simp_all add: bo_info_def)
  have "raw_drm_gpuvm_bo_find v obj w0 = Some p"
    unfolding raw_drm_gpuvm_bo_find_def
    by (rule find_unique) (use assms(2-4) d in \<open>auto simp: w0_def e distinct_map inj_on_def\<close>)
  moreover have "0 < bo_kref bo" using gem_elem [OF inv assms(2)] assms(3) by auto
  ultimately show ?thesis using assms(3)
    by (simp add: drm_gpuvm_bo_obtain_locked_def drm_gpuvm_bo_find_def drm_gpuvm_bo_get_def w0_def [symmetric]) (simp add: w0_def)
qed

theorem obtain_locked_unique_witness:
  "\<exists>w'. drm_gpuvm_bo_obtain_locked 3 5 (snd ex_obtained) = Some (Inr 1, w') \<and> map_option bo_kref (w_bos w' 1) = Some 2"
  using obtain_locked_unique [of "plain_lib GPUVA_LAST" id "fst ex_obtained" "snd ex_obtained" 1 5 _ 3] ex_obtained_reachable ex_obtained_state
  by fastforce

end
