(* ===== verification/GPUVM_Exec.thy ===== *)
theory GPUVM_Exec
  imports GPUVM_BO_Inv GPUVM_SM
begin

text \<open>
  Locking and validating an address space, the part of \<open>drm_gpuvm.c\<close> that joins the execution contexts of
  \<^theory_text>\<open>DRM_Exec\<close> with the buffer objects of \<^theory_text>\<open>GPUVM_BO\<close>: iteration over the lists of an address space with a local
  list, preparing the reservation of the address space, of its external objects and of the objects in a range of
  addresses, the retry loops around it, validation of evicted objects and adding a fence to the locked objects.

  The iterations of one list do not overlap (the callers hold a lock over the whole iteration), so the local list
  a running iteration finds is its own. The lockdep assertions are left out. The callback \<open>vm_bo_validate\<close> of the
  driver and \<open>dma_resv_add_fence\<close> are parameters.
\<close>

section \<open>Iteration with a local list\<close>

text \<open>The loop of \<open>get_next_vm_bo_from_list\<close>: zombies leave the list, the first live object moves to the local list.\<close>

fun get_next_loop :: "list_name \<Rightarrow> nat \<Rightarrow> nat list \<Rightarrow> 'w bo_world \<Rightarrow> (nat option \<times> 'w bo_world) option" where
  "get_next_loop name v [] w = Some (None, on_vm v (set_list name []) w)"
| "get_next_loop name v (p # ps) w = do {
     bo \<leftarrow> w_bos w p;
     if bo_kref bo \<noteq> 0
     then Some (Some p, on_vm v (\<lambda>vm. set_local name (map_option (\<lambda>l. l @ [p]) (get_local name vm)) (set_list name ps vm))
                          (set_bo p (bo\<lparr>bo_kref := bo_kref bo + 1\<rparr>) w))
     else get_next_loop name v ps w
   }"

definition get_next_vm_bo_from_list ::
    "drm_gpuva rb_lib \<Rightarrow> list_name \<Rightarrow> nat \<Rightarrow> nat option \<Rightarrow> 'w bo_world \<Rightarrow> (nat option \<times> 'w bo_world) option" where
  "get_next_vm_bo_from_list lib name v prev w = do {
     (_, w) \<leftarrow> drm_gpuvm_bo_put lib prev w;
     let w = (if get_local name (w_vm w v) = None then on_vm v (set_local name (Some [])) w else w);
     get_next_loop name v (get_list name (w_vm w v)) w
   }"

text \<open>The loop with its body, up to the end or the first error; the object at which it stopped still has its reference.\<close>

fun for_each_vm_bo_in_list ::
    "nat \<Rightarrow> drm_gpuva rb_lib \<Rightarrow> list_name \<Rightarrow> nat \<Rightarrow>
     (nat \<Rightarrow> drm_exec \<times> 'w bo_world \<Rightarrow> (int \<times> drm_exec \<times> 'w bo_world) option) \<Rightarrow> nat option \<Rightarrow> drm_exec \<times> 'w bo_world \<Rightarrow>
     (int \<times> nat option \<times> drm_exec \<times> 'w bo_world) option" where
  "for_each_vm_bo_in_list 0 lib name v f prev x = None"
| "for_each_vm_bo_in_list (Suc fuel) lib name v f prev (exec, w) = do {
     (cur, w) \<leftarrow> get_next_vm_bo_from_list lib name v prev w;
     case cur of
       None \<Rightarrow> Some (0, None, exec, w)
     | Some p \<Rightarrow> do {
         (ret, exec, w) \<leftarrow> f p (exec, w);
         if ret \<noteq> 0 then Some (ret, Some p, exec, w)
         else for_each_vm_bo_in_list fuel lib name v f (Some p) (exec, w)
       }
   }"

definition restore_vm_bo_list :: "list_name \<Rightarrow> bo_vm \<Rightarrow> bo_vm" where
  "restore_vm_bo_list name vm =
     (case get_local name vm of
        None \<Rightarrow> vm
      | Some l \<Rightarrow> set_local name None (set_list name (l @ get_list name vm) vm))"

section \<open>Preparing objects\<close>

definition exec_prepare_obj ::
    "'w ww_ops \<Rightarrow> (nat \<Rightarrow> nat) \<Rightarrow> nat \<Rightarrow> nat \<Rightarrow> drm_exec \<times> 'w bo_world \<Rightarrow> (int \<times> drm_exec \<times> 'w bo_world) option" where
  "exec_prepare_obj ww rv obj num_fences x = (case x of (exec, w) \<Rightarrow>
     map_option (\<lambda>(ret, exec, env). (ret, exec, w\<lparr>w_env := env\<rparr>))
       (if num_fences \<noteq> 0 then drm_exec_prepare_obj ww rv obj num_fences exec (w_env w)
        else drm_exec_lock_obj ww rv obj exec (w_env w)))"

definition drm_gpuvm_prepare_vm ::
    "'w ww_ops \<Rightarrow> (nat \<Rightarrow> nat) \<Rightarrow> nat \<Rightarrow> nat \<Rightarrow> drm_exec \<times> 'w bo_world \<Rightarrow> (int \<times> drm_exec \<times> 'w bo_world) option" where
  "drm_gpuvm_prepare_vm ww rv v num_fences x = exec_prepare_obj ww rv (r_obj (w_vm (snd x) v)) num_fences x"

text \<open>The body does not lengthen the list: one round for each object and one for the end are enough.\<close>

definition raw_drm_gpuvm_prepare_objects ::
    "drm_gpuva rb_lib \<Rightarrow> 'w ww_ops \<Rightarrow> (nat \<Rightarrow> nat) \<Rightarrow> nat \<Rightarrow> nat \<Rightarrow> drm_exec \<times> 'w bo_world \<Rightarrow> (int \<times> drm_exec \<times> 'w bo_world) option" where
  "raw_drm_gpuvm_prepare_objects lib ww rv v num_fences x = do {
     (ret, cur, exec, w) \<leftarrow>
       for_each_vm_bo_in_list (Suc (length (extobj_list (vm_base (w_vm (snd x) v))))) lib Extobj v
         (\<lambda>p (exec, w). do { bo \<leftarrow> w_bos w p; exec_prepare_obj ww rv (bo_obj bo) num_fences (exec, w) }) None x;
     (_, w) \<leftarrow> drm_gpuvm_bo_put lib cur w;
     Some (ret, exec, on_vm v (restore_vm_bo_list Extobj) w)
   }"

fun prepare_objects_loop ::
    "'w ww_ops \<Rightarrow> (nat \<Rightarrow> nat) \<Rightarrow> nat \<Rightarrow> nat list \<Rightarrow> drm_exec \<times> 'w bo_world \<Rightarrow> (int \<times> drm_exec \<times> 'w bo_world) option" where
  "prepare_objects_loop ww rv num_fences [] (exec, w) = Some (0, exec, w)"
| "prepare_objects_loop ww rv num_fences (p # ps) (exec, w) = do {
     bo \<leftarrow> w_bos w p;
     if drm_gpuvm_bo_is_zombie bo then prepare_objects_loop ww rv num_fences ps (exec, w)
     else do {
       (ret, exec, w) \<leftarrow> exec_prepare_obj ww rv (bo_obj bo) num_fences (exec, w);
       if ret \<noteq> 0 then Some (ret, exec, w)
       else prepare_objects_loop ww rv num_fences ps
              (exec, if bo_evicted bo then on_vm (bo_vm bo) (raw_drm_gpuvm_bo_list_add Evict p) w else w)
     }
   }"

definition drm_gpuvm_prepare_objects_locked ::
    "'w ww_ops \<Rightarrow> (nat \<Rightarrow> nat) \<Rightarrow> nat \<Rightarrow> nat \<Rightarrow> drm_exec \<times> 'w bo_world \<Rightarrow> (int \<times> drm_exec \<times> 'w bo_world) option" where
  "drm_gpuvm_prepare_objects_locked ww rv v num_fences x =
     prepare_objects_loop ww rv num_fences (extobj_list (vm_base (w_vm (snd x) v))) x"

definition drm_gpuvm_prepare_objects ::
    "drm_gpuva rb_lib \<Rightarrow> 'w ww_ops \<Rightarrow> (nat \<Rightarrow> nat) \<Rightarrow> nat \<Rightarrow> nat \<Rightarrow> drm_exec \<times> 'w bo_world \<Rightarrow> (int \<times> drm_exec \<times> 'w bo_world) option" where
  "drm_gpuvm_prepare_objects lib ww rv v num_fences x =
     (if drm_gpuvm_resv_protected (w_vm (snd x) v) then drm_gpuvm_prepare_objects_locked ww rv v num_fences x
      else raw_drm_gpuvm_prepare_objects lib ww rv v num_fences x)"

text \<open>A mapping without a GEM object is a dereference of NULL.\<close>

fun prepare_range_loop ::
    "nat \<Rightarrow> 'w ww_ops \<Rightarrow> (nat \<Rightarrow> nat) \<Rightarrow> drm_gpuvm \<Rightarrow> u64 \<Rightarrow> nat \<Rightarrow> drm_gpuva option \<Rightarrow> drm_exec \<times> 'w bo_world \<Rightarrow>
     (int \<times> drm_exec \<times> 'w bo_world) option" where
  "prepare_range_loop 0 ww rv vm e num_fences va x = None"
| "prepare_range_loop (Suc fuel) ww rv vm e num_fences va x =
     (case va of
        None \<Rightarrow> Some (0, x)
      | Some a \<Rightarrow>
          if \<not> va_addr a < e then Some (0, x)
          else do {
            obj \<leftarrow> gem_obj a;
            (ret, x) \<leftarrow> exec_prepare_obj ww rv obj num_fences x;
            if ret \<noteq> 0 then Some (ret, x)
            else prepare_range_loop fuel ww rv vm e num_fences (drm_gpuva_next vm va) x
          })"

definition drm_gpuvm_prepare_range ::
    "'w ww_ops \<Rightarrow> (nat \<Rightarrow> nat) \<Rightarrow> nat \<Rightarrow> u64 \<Rightarrow> u64 \<Rightarrow> nat \<Rightarrow> drm_exec \<times> 'w bo_world \<Rightarrow> (int \<times> drm_exec \<times> 'w bo_world) option" where
  "drm_gpuvm_prepare_range ww rv v addr rng num_fences x = (
     let vm = vm_base (w_vm (snd x) v); fuel = Suc (length (rb_list vm))
     in case drm_gpuva_find_first vm addr (addr + rng - addr) of
          ItFault \<Rightarrow> None
        | ItNull \<Rightarrow> prepare_range_loop fuel ww rv vm (addr + rng) num_fences None x
        | ItFound a \<Rightarrow> prepare_range_loop fuel ww rv vm (addr + rng) num_fences (Some a) x)"

section \<open>Locking loops\<close>

definition vm_exec_clean :: "'w ww_ops \<Rightarrow> (nat \<Rightarrow> nat) \<Rightarrow> drm_exec \<times> 'w bo_world \<Rightarrow> bool \<times> drm_exec \<times> 'w bo_world" where
  "vm_exec_clean ww rv x =
     (case drm_exec_cleanup ww rv (fst x) (w_env (snd x)) of (b, exec, env) \<Rightarrow> (b, exec, (snd x)\<lparr>w_env := env\<rparr>))"

text \<open>\<open>vm_exec->extra\<close> is the callback applied to its private data, or NULL. The fuel is that of the retry loop.\<close>

record 'w drm_gpuvm_exec =
  ve_flags :: u32
  ve_vm :: nat
  ve_num_fences :: nat
  extra_fn :: "(drm_exec \<times> 'w bo_world \<Rightarrow> (int \<times> drm_exec \<times> 'w bo_world) option) option"

definition exec_init_world :: "u32 \<Rightarrow> 'w bo_world \<Rightarrow> drm_exec \<times> 'w bo_world" where
  "exec_init_world flags w = (case drm_exec_init flags 0 (w_env w) of (exec, env) \<Rightarrow> (exec, w\<lparr>w_env := env\<rparr>))"

definition drm_gpuvm_exec_unlock :: "'w ww_ops \<Rightarrow> (nat \<Rightarrow> nat) \<Rightarrow> drm_exec \<times> 'w bo_world \<Rightarrow> 'w bo_world" where
  "drm_gpuvm_exec_unlock ww rv x = (snd x)\<lparr>w_env := drm_exec_fini ww rv (fst x) (w_env (snd x))\<rparr>"

definition drm_gpuvm_exec_lock ::
    "nat \<Rightarrow> drm_gpuva rb_lib \<Rightarrow> 'w ww_ops \<Rightarrow> (nat \<Rightarrow> nat) \<Rightarrow> 'w drm_gpuvm_exec \<Rightarrow> 'w bo_world \<Rightarrow> (int \<times> drm_exec \<times> 'w bo_world) option" where
  "drm_gpuvm_exec_lock fuel lib ww rv ve w = do {
     (ret, x) \<leftarrow> drm_exec_until_all_locked fuel fst (vm_exec_clean ww rv)
       ([drm_gpuvm_prepare_vm ww rv (ve_vm ve) (ve_num_fences ve), drm_gpuvm_prepare_objects lib ww rv (ve_vm ve) (ve_num_fences ve)] @
        (case extra_fn ve of None \<Rightarrow> [] | Some fn \<Rightarrow> [fn])) (exec_init_world (ve_flags ve) w);
     Some (if ret \<noteq> 0 then (ret, fst x, drm_gpuvm_exec_unlock ww rv x) else (0, x))
   }"

definition fn_lock_array ::
    "'w ww_ops \<Rightarrow> (nat \<Rightarrow> nat) \<Rightarrow> nat list \<Rightarrow> nat \<Rightarrow> drm_exec \<times> 'w bo_world \<Rightarrow> (int \<times> drm_exec \<times> 'w bo_world) option" where
  "fn_lock_array ww rv objs num_fences x =
     map_option (\<lambda>(ret, exec, env). (ret, exec, (snd x)\<lparr>w_env := env\<rparr>))
       (drm_exec_prepare_array ww rv objs num_fences (fst x) (w_env (snd x)))"

definition drm_gpuvm_exec_lock_array ::
    "nat \<Rightarrow> drm_gpuva rb_lib \<Rightarrow> 'w ww_ops \<Rightarrow> (nat \<Rightarrow> nat) \<Rightarrow> 'w drm_gpuvm_exec \<Rightarrow> nat list \<Rightarrow> 'w bo_world \<Rightarrow>
     (int \<times> drm_exec \<times> 'w bo_world) option" where
  "drm_gpuvm_exec_lock_array fuel lib ww rv ve objs w =
     drm_gpuvm_exec_lock fuel lib ww rv (ve\<lparr>extra_fn := Some (fn_lock_array ww rv objs (ve_num_fences ve))\<rparr>) w"

definition drm_gpuvm_exec_lock_range ::
    "nat \<Rightarrow> 'w ww_ops \<Rightarrow> (nat \<Rightarrow> nat) \<Rightarrow> 'w drm_gpuvm_exec \<Rightarrow> u64 \<Rightarrow> u64 \<Rightarrow> 'w bo_world \<Rightarrow> (int \<times> drm_exec \<times> 'w bo_world) option" where
  "drm_gpuvm_exec_lock_range fuel ww rv ve addr rng w = do {
     (ret, x) \<leftarrow> drm_exec_until_all_locked fuel fst (vm_exec_clean ww rv)
       [drm_gpuvm_prepare_range ww rv (ve_vm ve) addr rng (ve_num_fences ve)] (exec_init_world (ve_flags ve) w);
     Some (if ret \<noteq> 0 then (ret, fst x, drm_gpuvm_exec_unlock ww rv x) else (ret, x))
   }"

section \<open>Validation\<close>

definition raw_drm_gpuvm_validate ::
    "nat \<Rightarrow> drm_gpuva rb_lib \<Rightarrow> (nat \<Rightarrow> drm_exec \<times> 'w bo_world \<Rightarrow> (int \<times> drm_exec \<times> 'w bo_world) option) \<Rightarrow> nat \<Rightarrow>
     drm_exec \<times> 'w bo_world \<Rightarrow> (int \<times> drm_exec \<times> 'w bo_world) option" where
  "raw_drm_gpuvm_validate fuel lib vm_bo_validate v x = do {
     (ret, cur, exec, w) \<leftarrow> for_each_vm_bo_in_list fuel lib Evict v vm_bo_validate None x;
     (_, w) \<leftarrow> drm_gpuvm_bo_put lib cur w;
     Some (ret, exec, on_vm v (restore_vm_bo_list Evict) w)
   }"

text \<open>The entry behind an entry of a list; none (an endless loop) for an entry that is on no list.\<close>

definition next_entry :: "nat \<Rightarrow> nat list \<Rightarrow> nat option option" where
  "next_entry p xs = (case dropWhile (\<lambda>q. q \<noteq> p) xs of [] \<Rightarrow> None | [_] \<Rightarrow> Some None | _ # q # _ \<Rightarrow> Some (Some q))"

fun validate_locked_loop ::
    "nat \<Rightarrow> (nat \<Rightarrow> drm_exec \<times> 'w bo_world \<Rightarrow> (int \<times> drm_exec \<times> 'w bo_world) option) \<Rightarrow> nat \<Rightarrow> nat option \<Rightarrow>
     drm_exec \<times> 'w bo_world \<Rightarrow> (int \<times> drm_exec \<times> 'w bo_world) option" where
  "validate_locked_loop 0 vm_bo_validate v cur x = None"
| "validate_locked_loop (Suc fuel) vm_bo_validate v cur (exec, w) =
     (case cur of
        None \<Rightarrow> Some (0, exec, w)
      | Some p \<Rightarrow> do {
          nxt \<leftarrow> next_entry p (evict_list (vm_base (w_vm w v)));
          bo \<leftarrow> w_bos w p;
          if drm_gpuvm_bo_is_zombie bo then validate_locked_loop fuel vm_bo_validate v nxt (exec, w)
          else do {
            (ret, exec, w) \<leftarrow> vm_bo_validate p (exec, w);
            if ret \<noteq> 0 then Some (ret, exec, w)
            else do {
              bo \<leftarrow> w_bos w p;
              validate_locked_loop fuel vm_bo_validate v nxt
                (exec, if bo_evicted bo then w else on_vm (bo_vm bo) (raw_drm_gpuvm_bo_list_del Evict p) w)
            }
          }
        })"

definition drm_gpuvm_validate_locked ::
    "nat \<Rightarrow> (nat \<Rightarrow> drm_exec \<times> 'w bo_world \<Rightarrow> (int \<times> drm_exec \<times> 'w bo_world) option) \<Rightarrow> nat \<Rightarrow>
     drm_exec \<times> 'w bo_world \<Rightarrow> (int \<times> drm_exec \<times> 'w bo_world) option" where
  "drm_gpuvm_validate_locked fuel vm_bo_validate v x =
     validate_locked_loop fuel vm_bo_validate v
       (case evict_list (vm_base (w_vm (snd x) v)) of [] \<Rightarrow> None | p # _ \<Rightarrow> Some p) x"

definition drm_gpuvm_validate ::
    "nat \<Rightarrow> drm_gpuva rb_lib \<Rightarrow> (nat \<Rightarrow> drm_exec \<times> 'w bo_world \<Rightarrow> (int \<times> drm_exec \<times> 'w bo_world) option) option \<Rightarrow> nat \<Rightarrow>
     drm_exec \<times> 'w bo_world \<Rightarrow> (int \<times> drm_exec \<times> 'w bo_world) option" where
  "drm_gpuvm_validate fuel lib vm_bo_validate v x =
     (case vm_bo_validate of
        None \<Rightarrow> Some (neg_errno EOPNOTSUPP, x)
      | Some f \<Rightarrow> if drm_gpuvm_resv_protected (w_vm (snd x) v) then drm_gpuvm_validate_locked fuel f v x
                  else raw_drm_gpuvm_validate fuel lib f v x)"

section \<open>Fences\<close>

definition drm_gpuvm_resv_add_fence ::
    "(nat \<Rightarrow> 'f \<Rightarrow> 'u \<Rightarrow> 'w \<Rightarrow> 'w) \<Rightarrow> (nat \<Rightarrow> nat) \<Rightarrow> nat \<Rightarrow> 'f \<Rightarrow> 'u \<Rightarrow> 'u \<Rightarrow> drm_exec \<times> 'w bo_world \<Rightarrow> 'w bo_world" where
  "drm_gpuvm_resv_add_fence add_fence rv v fence private_usage extobj_usage x =
     (snd x)\<lparr>w_env := fold (\<lambda>obj. on_ww (add_fence (rv obj) fence
          (if drm_gpuvm_is_extobj rv (w_vm (snd x) v) obj then extobj_usage else private_usage)))
        (objects (fst x)) (w_env (snd x))\<rparr>"

end
