(* ===== verification/GPUVM_Lock.thy ===== *)
theory GPUVM_Lock
  imports GPUVM_Exec
begin

text \<open>
  Locking an address space, from \<^theory_text>\<open>GPUVM_Exec\<close>: the iteration with a local list visits every object once and restores the list,
  the stages of the retry loop fulfil the contract of \<^theory_text>\<open>DRM_Exec\<close> over the bookkeeping invariant of \<^theory_text>\<open>GPUVM_BO_Inv\<close>, and what
  the locking functions and adding a fence promise.
\<close>

section \<open>The iteration\<close>

text \<open>A reference to the object of the current round.\<close>

definition bump :: "nat option \<Rightarrow> 'w bo_world \<Rightarrow> 'w bo_world" where
  "bump cur w = (case cur of None \<Rightarrow> w | Some p \<Rightarrow>
     w\<lparr>w_bos := (w_bos w)(p := map_option (\<lambda>bo. bo\<lparr>bo_kref := bo_kref bo + 1\<rparr>) (w_bos w p))\<rparr>)"

text \<open>The world in the middle of an iteration over a list: the elements \<open>l\<close> are on the local list.\<close>

definition iter_world :: "list_name \<Rightarrow> nat \<Rightarrow> nat list \<Rightarrow> nat list \<Rightarrow> nat option \<Rightarrow> 'w bo_world \<Rightarrow> 'w bo_world" where
  "iter_world name v l r cur w = on_vm v (\<lambda>vm. set_local name (Some l) (set_list name r vm)) (bump cur w)"

definition all_live :: "'w bo_world \<Rightarrow> nat list \<Rightarrow> bool" where
  "all_live w ps \<longleftrightarrow> (\<forall>p \<in> set ps. \<exists>bo. w_bos w p = Some bo \<and> 0 < bo_kref bo)"

lemma set_local_list [simp]:
  "set_local n l (set_local n l' vm) = set_local n l vm" "set_list n xs (set_list n ys vm) = set_list n xs vm"
  "set_list n xs (set_local n l vm) = set_local n l (set_list n xs vm)"
  by (cases n; simp)+

lemma set_same: "get_list n vm = xs \<Longrightarrow> get_local n vm = l \<Longrightarrow> set_local n l (set_list n xs vm) = vm"
  by (cases n) auto

lemma set_list_same: "get_list n vm = xs \<Longrightarrow> set_list n xs vm = vm"
  by (cases n) auto

lemma on_vm_comp: "on_vm v f (on_vm v g w) = on_vm v (f \<circ> g) w"
  by (simp add: on_vm_def)

lemma on_vm_cong: "f (w_vm w v) = g (w_vm w v) \<Longrightarrow> on_vm v f w = on_vm v g w"
  by (simp add: on_vm_def)

lemma bump_simps [simp]:
  "w_vm (bump cur w) = w_vm w" "w_env (bump cur w) = w_env w" "bump None w = w" "bump cur (w\<lparr>w_env := e\<rparr>) = (bump cur w)\<lparr>w_env := e\<rparr>"
  "bump cur (on_vm v f w) = on_vm v f (bump cur w)"
  by (simp_all add: bump_def on_vm_def split: option.split)

lemma bump_put:
  assumes "\<And>p. cur = Some p \<Longrightarrow> \<exists>bo. w_bos w p = Some bo \<and> 0 < bo_kref bo"
  shows "drm_gpuvm_bo_put lib cur (bump cur w) = Some (False, w)"
proof (cases cur)
  case None
  then show ?thesis by (simp add: drm_gpuvm_bo_put_def)
next
  case (Some p)
  with assms obtain bo where bo: "w_bos w p = Some bo" "0 < bo_kref bo" by blast
  then have "(w_bos w)(p := Some bo) = w_bos w" by auto
  with bo Some show ?thesis by (simp add: drm_gpuvm_bo_put_def kref_put_def bump_def set_bo_def)
qed

lemma get_next_iter:
  assumes "all_live w r" and "\<And>p. cur = Some p \<Longrightarrow> \<exists>bo. w_bos w p = Some bo \<and> 0 < bo_kref bo"
  shows "get_next_vm_bo_from_list lib name v cur (iter_world name v l r cur w) =
     Some (case r of [] \<Rightarrow> (None, iter_world name v l [] None w) | q # r' \<Rightarrow> (Some q, iter_world name v (l @ [q]) r' (Some q) w))"
proof -
  define w1 where "w1 = on_vm v (\<lambda>vm. set_local name (Some l) (set_list name r vm)) w"
  have "iter_world name v l r cur w = bump cur w1" by (simp add: iter_world_def w1_def)
  moreover have "drm_gpuvm_bo_put lib cur (bump cur w1) = Some (False, w1)"
    using bump_put [of cur w1 lib] assms(2) by (auto simp: w1_def)
  moreover have "get_next_loop name v r w1 = Some (case r of [] \<Rightarrow> (None, iter_world name v l [] None w)
      | q # r' \<Rightarrow> (Some q, iter_world name v (l @ [q]) r' (Some q) w))"
  proof (cases r)
    case Nil
    then show ?thesis by (simp add: w1_def iter_world_def on_vm_comp comp_def)
  next
    case (Cons q r')
    with assms(1) obtain bo where "w_bos w q = Some bo" "0 < bo_kref bo" by (auto simp: all_live_def)
    with Cons show ?thesis
      by (simp add: w1_def iter_world_def on_vm_comp comp_def) (simp add: on_vm_def set_bo_def bump_def)
  qed
  ultimately show ?thesis by (simp add: get_next_vm_bo_from_list_def) (simp add: w1_def)
qed

text \<open>The first round finds no local list.\<close>

lemma get_next_start:
  assumes "get_local name (w_vm w v) = None"
  shows "get_next_vm_bo_from_list lib name v None w =
    get_next_vm_bo_from_list lib name v None (iter_world name v [] (get_list name (w_vm w v)) None w)"
proof -
  have "iter_world name v [] (get_list name (w_vm w v)) None w = on_vm v (set_local name (Some [])) w"
    unfolding iter_world_def bump_simps(3) by (rule on_vm_cong) (simp add: set_list_same)
  then show ?thesis using assms
    by (simp add: get_next_vm_bo_from_list_def drm_gpuvm_bo_put_def)
qed

lemma restore_iter:
  assumes "get_list name (w_vm w v) = l @ r" and "get_local name (w_vm w v) = None"
  shows "on_vm v (restore_vm_bo_list name) (iter_world name v l r None w) = w"
proof -
  have "restore_vm_bo_list name (set_local name (Some l) (set_list name r (w_vm w v))) = w_vm w v"
    by (simp add: restore_vm_bo_list_def set_same assms)
  then show ?thesis by (simp add: iter_world_def on_vm_def)
qed

section \<open>Preparing a list of objects\<close>

definition prepare1 :: "'w ww_ops \<Rightarrow> (nat \<Rightarrow> nat) \<Rightarrow> nat \<Rightarrow> nat \<Rightarrow> drm_exec \<Rightarrow> 'w kenv \<Rightarrow> (int \<times> drm_exec \<times> 'w kenv) option" where
  "prepare1 ww rv n obj exec env = (if n \<noteq> 0 then drm_exec_prepare_obj ww rv obj n exec env else drm_exec_lock_obj ww rv obj exec env)"

fun prepare_list :: "'w ww_ops \<Rightarrow> (nat \<Rightarrow> nat) \<Rightarrow> nat \<Rightarrow> nat list \<Rightarrow> drm_exec \<Rightarrow> 'w kenv \<Rightarrow> (int \<times> drm_exec \<times> 'w kenv) option" where
  "prepare_list ww rv n [] exec env = Some (0, exec, env)"
| "prepare_list ww rv n (obj # objs) exec env = do {
     (ret, exec, env) \<leftarrow> prepare1 ww rv n obj exec env;
     if ret \<noteq> 0 then Some (ret, exec, env) else prepare_list ww rv n objs exec env
   }"

lemma exec_prepare_obj_eq:
  "exec_prepare_obj ww rv obj n (exec, w) =
     map_option (\<lambda>(ret, exec, env). (ret, exec, w\<lparr>w_env := env\<rparr>)) (prepare1 ww rv n obj exec (w_env w))"
  by (simp add: exec_prepare_obj_def prepare1_def)

definition obj_of :: "'w bo_world \<Rightarrow> nat \<Rightarrow> nat" where
  "obj_of w p = (case w_bos w p of None \<Rightarrow> 0 | Some bo \<Rightarrow> bo_obj bo)"

lemma iter_env: "(iter_world name v l r cur w)\<lparr>w_env := e\<rparr> = iter_world name v l r cur (w\<lparr>w_env := e\<rparr>)"
  by (simp add: iter_world_def on_vm_def)

lemma iter_bos: "w_bos w p = Some bo \<Longrightarrow> \<exists>k. w_bos (iter_world name v l r cur w) p = Some (bo\<lparr>bo_kref := k\<rparr>)"
proof -
  assume a: "w_bos w p = Some bo"
  have "\<exists>k. bo = bo\<lparr>bo_kref := k\<rparr>" by (rule exI [of _ "bo_kref bo"]) simp
  then show ?thesis using a unfolding iter_world_def bump_def
    by (cases "cur = Some p"; cases cur) (auto simp: iter_world_def bump_def)
qed

lemma for_each_prepare:
  fixes ww :: "'w ww_ops" and rv :: "nat \<Rightarrow> nat" and n :: nat
  assumes "all_live w (l @ r)" and "\<forall>p. cur = Some p \<longrightarrow> p \<in> set l"
  defines "f \<equiv> \<lambda>p (exec, w). do { bo \<leftarrow> w_bos w p; exec_prepare_obj ww rv (bo_obj bo) n (exec, w) }"
  shows "case prepare_list ww rv n (map (obj_of w) r) exec (w_env w) of
       None \<Rightarrow> for_each_vm_bo_in_list (Suc (length r)) lib Extobj v f cur (exec, iter_world Extobj v l r cur w) = None
     | Some (ret, exec', env') \<Rightarrow> \<exists>cur' l' r'. for_each_vm_bo_in_list (Suc (length r)) lib Extobj v f cur (exec, iter_world Extobj v l r cur w) =
          Some (ret, cur', exec', iter_world Extobj v l' r' cur' (w\<lparr>w_env := env'\<rparr>)) \<and> l' @ r' = l @ r \<and> (\<forall>p. cur' = Some p \<longrightarrow> p \<in> set l')"
  using assms(1,2)
proof (induction r arbitrary: l cur exec w)
  case Nil
  then have "get_next_vm_bo_from_list lib Extobj v cur (iter_world Extobj v l [] cur w) = Some (None, iter_world Extobj v l [] None w)"
    by (subst get_next_iter) (auto simp: all_live_def)
  then show ?case by auto
next
  case (Cons q r)
  then have g: "get_next_vm_bo_from_list lib Extobj v cur (iter_world Extobj v l (q # r) cur w) =
      Some (Some q, iter_world Extobj v (l @ [q]) r (Some q) w)"
    by (subst get_next_iter) (auto simp: all_live_def)
  from Cons.prems obtain bo where bo: "w_bos w q = Some bo" by (auto simp: all_live_def)
  obtain k where k: "w_bos (iter_world Extobj v (l @ [q]) r (Some q) w) q = Some (bo\<lparr>bo_kref := k\<rparr>)"
    using iter_bos [OF bo] by blast
  have e: "w_env (iter_world Extobj v (l @ [q]) r (Some q) w) = w_env w" by (simp add: iter_world_def)
  have f: "f q (exec, iter_world Extobj v (l @ [q]) r (Some q) w) =
      map_option (\<lambda>(ret, exec, env). (ret, exec, iter_world Extobj v (l @ [q]) r (Some q) (w\<lparr>w_env := env\<rparr>)))
        (prepare1 ww rv n (obj_of w q) exec (w_env w))"
    by (simp add: f_def k exec_prepare_obj_eq e iter_env obj_of_def bo)
  show ?case
  proof (cases "prepare1 ww rv n (obj_of w q) exec (w_env w)")
    case None
    then show ?thesis using g f by simp
  next
    case (Some a)
    obtain ret exec1 env1 where a: "a = (ret, exec1, env1)" by (rule prod_cases3)
    show ?thesis
    proof (cases "ret = 0")
      case False
      then show ?thesis using Some a g f
        by simp (rule exI [of _ "l @ [q]"], rule exI [of _ r], simp)
    next
      case True
      have o: "map (obj_of (w\<lparr>w_env := env1\<rparr>)) r = map (obj_of w) r" by (simp add: obj_of_def)
      have p: "all_live (w\<lparr>w_env := env1\<rparr>) ((l @ [q]) @ r)" using Cons.prems(1) by (simp add: all_live_def)
      have s: "\<forall>p. Some q = Some p \<longrightarrow> p \<in> set (l @ [q])" by simp
      note ih = Cons.IH [OF p s, where exec = exec1]
      have step: "for_each_vm_bo_in_list (Suc (length (q # r))) lib Extobj v f cur (exec, iter_world Extobj v l (q # r) cur w) =
          for_each_vm_bo_in_list (Suc (length r)) lib Extobj v f (Some q) (exec1, iter_world Extobj v (l @ [q]) r (Some q) (w\<lparr>w_env := env1\<rparr>))"
        using g f Some a True by simp
      show ?thesis unfolding step using ih Some a True
        by (cases "prepare_list ww rv n (map (obj_of w) r) exec1 env1") (auto simp: o simp del: for_each_vm_bo_in_list.simps)
    qed
  qed
qed

text \<open>
  The lockless iteration prepares the objects of the list once each and in order, and leaves the lists and the reference
  counts as they were.
\<close>

lemma prepare_objects_unlocked:
  assumes live: "all_live w (extobj_list (vm_base (w_vm w v)))" and loc: "get_local Extobj (w_vm w v) = None"
  shows "raw_drm_gpuvm_prepare_objects lib ww rv v n (exec, w) =
     map_option (\<lambda>(ret, exec, env). (ret, exec, w\<lparr>w_env := env\<rparr>))
       (prepare_list ww rv n (map (obj_of w) (extobj_list (vm_base (w_vm w v)))) exec (w_env w))"
proof -
  let ?xs = "extobj_list (vm_base (w_vm w v))"
  let ?f = "\<lambda>p (exec, w). do { bo \<leftarrow> w_bos w p; exec_prepare_obj ww rv (bo_obj bo) n (exec, w) }"
  have start: "for_each_vm_bo_in_list (Suc (length ?xs)) lib Extobj v ?f None (exec, w) =
      for_each_vm_bo_in_list (Suc (length ?xs)) lib Extobj v ?f None (exec, iter_world Extobj v [] ?xs None w)"
    unfolding for_each_vm_bo_in_list.simps get_next_start [OF loc] by simp
  note fe = for_each_prepare [where w = w and l = "[]" and r = ?xs and cur = None and v = v and ww = ww and rv = rv and n = n and exec = exec and lib = lib]
  show ?thesis
  proof (cases "prepare_list ww rv n (map (obj_of w) ?xs) exec (w_env w)")
    case None
    then show ?thesis using fe live by (simp add: raw_drm_gpuvm_prepare_objects_def start del: for_each_vm_bo_in_list.simps)
  next
    case (Some a)
    obtain ret exec' env' where a: "a = (ret, exec', env')" by (rule prod_cases3)
    from fe live Some a obtain cur' l' r' where
      r: "for_each_vm_bo_in_list (Suc (length ?xs)) lib Extobj v ?f None (exec, iter_world Extobj v [] ?xs None w) =
          Some (ret, cur', exec', iter_world Extobj v l' r' cur' (w\<lparr>w_env := env'\<rparr>))" and xs: "l' @ r' = ?xs"
      and c: "\<forall>p. cur' = Some p \<longrightarrow> p \<in> set l'" by auto
    let ?w = "w\<lparr>w_env := env'\<rparr>"
    have i: "iter_world Extobj v l' r' cur' ?w = bump cur' (iter_world Extobj v l' r' None ?w)" by (simp add: iter_world_def)
    have "\<exists>bo. w_bos (iter_world Extobj v l' r' None ?w) p = Some bo \<and> 0 < bo_kref bo" if "cur' = Some p" for p
      using that c live unfolding xs [symmetric] by (auto simp: all_live_def iter_world_def)
    then have "drm_gpuvm_bo_put lib cur' (iter_world Extobj v l' r' cur' ?w) = Some (False, iter_world Extobj v l' r' None ?w)"
      unfolding i using bump_put [of cur' "iter_world Extobj v l' r' None ?w" lib] by blast
    moreover have "on_vm v (restore_vm_bo_list Extobj) (iter_world Extobj v l' r' None ?w) = ?w"
      by (rule restore_iter) (use xs loc in simp_all)
    ultimately show ?thesis using r Some a
      by (simp add: raw_drm_gpuvm_prepare_objects_def start del: for_each_vm_bo_in_list.simps)
  qed
qed

section \<open>Contracts of the stages\<close>

context ww_lib
begin

lemma prepare1_spec:
  assumes inv: "exec_inv held rv refs exec env" and ready: "exec_ready exec"
  obtains ret exec' env' where "prepare1 ww rv n obj exec env = Some (ret, exec', env')"
    and "exec_inv held rv refs exec' env'" and "contended exec' \<noteq> DRM_EXEC_DUMMY"
    and "ret = 0 \<Longrightarrow> set (objects exec) \<subseteq> set (objects exec') \<and> rv obj \<in> rv ` set (objects exec')"
    and "contended exec' \<noteq> Uncontended \<Longrightarrow> ret \<noteq> 0"
    and "patience (k_ww env') + of_bool (contended exec' \<noteq> Uncontended) \<le> patience (k_ww env)"
proof (cases "n = 0")
  case True
  show thesis
    by (rule lock_obj_spec [OF inv ready, of obj]) (use True in \<open>intro that; simp add: prepare1_def\<close>)
next
  case False
  show thesis
    by (rule prepare_obj_spec [OF inv ready, of obj n]) (use False in \<open>intro that; simp add: prepare1_def\<close>)
qed

end

text \<open>
  What the stages keep of the world \<open>w0\<close> before the loop: everything but the environment and the list of evicted objects,
  which may grow.
\<close>

definition vm_rel :: "(nat \<Rightarrow> nat) \<Rightarrow> bo_holds \<Rightarrow> nat \<Rightarrow> 'w bo_world \<Rightarrow> 'w bo_world \<Rightarrow> bool" where
  "vm_rel rv g v w0 w \<longleftrightarrow> bo_inv rv g (w\<lparr>w_env := w_env w0\<rparr>) \<and>
     (\<exists>es. set (evict_list (vm_base (w_vm w0 v))) \<subseteq> set es \<and> w\<lparr>w_env := w_env w0\<rparr> = on_vm v (set_list Evict es) w0)"

lemma vm_rel_env [simp]: "vm_rel rv g v w0 (w\<lparr>w_env := e\<rparr>) = vm_rel rv g v w0 w"
  by (simp add: vm_rel_def)

lemma vm_rel_refl: "bo_inv rv g w0 \<Longrightarrow> vm_rel rv g v w0 w0"
  unfolding vm_rel_def by (auto intro!: exI [of _ "evict_list (vm_base (w_vm w0 v))"] simp: on_vm_def)

lemma vm_relD:
  assumes "vm_rel rv g v w0 w"
  shows "w_bos w = w_bos w0" "get_list Extobj (w_vm w v) = get_list Extobj (w_vm w0 v)" "r_obj (w_vm w v) = r_obj (w_vm w0 v)"
    "get_local name (w_vm w v) = None" "rb_list (vm_base (w_vm w v)) = rb_list (vm_base (w_vm w0 v))"
    "drm_gpuvm_resv_protected (w_vm w v) = drm_gpuvm_resv_protected (w_vm w0 v)" "obj_of w = obj_of w0"
    "set (evict_list (vm_base (w_vm w0 v))) \<subseteq> set (evict_list (vm_base (w_vm w v)))"
proof -
  from assms obtain es where sub: "set (evict_list (vm_base (w_vm w0 v))) \<subseteq> set es" and e: "w\<lparr>w_env := w_env w0\<rparr> = on_vm v (set_list Evict es) w0" and i: "bo_inv rv g (w\<lparr>w_env := w_env w0\<rparr>)"
    by (auto simp: vm_rel_def)
  from arg_cong [OF e, of w_bos] show b: "w_bos w = w_bos w0" by simp
  from arg_cong [OF e, of w_vm] have v: "w_vm w v = set_list Evict es (w_vm w0 v)" by simp
  show "get_list Extobj (w_vm w v) = get_list Extobj (w_vm w0 v)" "r_obj (w_vm w v) = r_obj (w_vm w0 v)"
    "rb_list (vm_base (w_vm w v)) = rb_list (vm_base (w_vm w0 v))"
    "drm_gpuvm_resv_protected (w_vm w v) = drm_gpuvm_resv_protected (w_vm w0 v)"
    by (simp_all add: v drm_gpuvm_resv_protected_def)
  show "set (evict_list (vm_base (w_vm w0 v))) \<subseteq> set (evict_list (vm_base (w_vm w v)))" using sub by (simp add: v)
  show "get_local name (w_vm w v) = None" using i by (simp add: bo_inv_defs inv_lists_def)
  show "obj_of w = obj_of w0" by (simp add: obj_of_def b fun_eq_iff)
qed

lemma evict_add_rel:
  assumes r: "vm_rel rv g v w0 w" and bo: "w_bos w p = Some bo" "0 < bo_kref bo" "bo_vm bo = v"
  shows "vm_rel rv g v w0 (on_vm v (raw_drm_gpuvm_bo_list_add Evict p) w)"
proof -
  let ?w = "w\<lparr>w_env := w_env w0\<rparr>"
  from r obtain es where sub: "set (evict_list (vm_base (w_vm w0 v))) \<subseteq> set es"
    and e: "?w = on_vm v (set_list Evict es) w0" and i: "bo_inv rv g ?w" by (auto simp: vm_rel_def)
  have c: "(on_vm v (raw_drm_gpuvm_bo_list_add Evict p) w)\<lparr>w_env := w_env w0\<rparr> = on_vm v (raw_drm_gpuvm_bo_list_add Evict p) ?w"
    by (simp add: on_vm_def)
  have "bo_inv rv g (on_vm v (raw_drm_gpuvm_bo_list_add Evict p) ?w)"
    using list_add_inv [OF i, of p bo Evict] bo by simp
  moreover have "on_vm v (raw_drm_gpuvm_bo_list_add Evict p) ?w =
      on_vm v (set_list Evict (if p \<in> set (entries Evict (w_vm ?w v)) then es else es @ [p])) w0"
    unfolding e by (simp add: on_vm_comp comp_def raw_drm_gpuvm_bo_list_add_def on_vm_def)
  moreover have "set (evict_list (vm_base (w_vm w0 v))) \<subseteq> set (if p \<in> set (entries Evict (w_vm ?w v)) then es else es @ [p])"
    using sub by auto
  ultimately show ?thesis unfolding vm_rel_def c by blast
qed

context exec_client
begin

text \<open>The outcome of a stage, as in \<open>stage_locks\<close>.\<close>

definition step_ok :: "(nat \<Rightarrow> int) \<Rightarrow> 'x \<Rightarrow> int \<Rightarrow> 'x \<Rightarrow> nat set \<Rightarrow> bool" where
  "step_ok refs x ret x' N \<longleftrightarrow> good refs x' \<and> contended (ex x') \<noteq> DRM_EXEC_DUMMY \<and> (contended (ex x') \<noteq> Uncontended \<longrightarrow> ret \<noteq> 0) \<and>
     (ret = 0 \<longrightarrow> set (objects (ex x)) \<subseteq> set (objects (ex x')) \<and> N \<subseteq> rv ` set (objects (ex x'))) \<and>
     patience (k_ww (ev x')) + of_bool (contended (ex x') \<noteq> Uncontended) \<le> patience (k_ww (ev x))"

lemma stage_locksI:
  assumes "\<And>refs x. good refs x \<Longrightarrow> exec_ready (ex x) \<Longrightarrow> first \<or> contended (ex x) = Uncontended \<Longrightarrow>
     \<exists>ret x'. f x = Some (ret, x') \<and> step_ok refs x ret x' N"
  shows "stage_locks first f N"
  using assms unfolding stage_locks_def step_ok_def by blast

lemma step_ok_ready: "step_ok refs x 0 y N \<Longrightarrow> good refs y \<and> exec_ready (ex y) \<and> contended (ex y) = Uncontended"
  by (auto simp: step_ok_def exec_ready_def)

lemma step_ok_trans: "step_ok refs x 0 y N \<Longrightarrow> step_ok refs y ret z M \<Longrightarrow> step_ok refs x ret z (N \<union> M)"
  unfolding step_ok_def by (simp, blast)

lemma step_ok_refl: "good refs x \<Longrightarrow> contended (ex x) = Uncontended \<Longrightarrow> step_ok refs x 0 x {}"
  by (simp add: step_ok_def)

lemma step_ok_cong: "ex y = ex x' \<Longrightarrow> ev y = ev x' \<Longrightarrow> wf y \<Longrightarrow> step_ok refs x ret x' N \<Longrightarrow> step_ok refs x ret y N"
  by (simp add: step_ok_def good_def)

lemma step_ok_from: "ex y = ex x \<Longrightarrow> ev y = ev x \<Longrightarrow> step_ok refs y = step_ok refs x"
  by (simp add: step_ok_def fun_eq_iff)

lemma prepare1_step:
  assumes "good refs x" and "exec_ready (ex x)"
  shows "\<exists>ret e v. prepare1 ww rv n obj (ex x) (ev x) = Some (ret, e, v) \<and> step_ok refs x ret (upd e v x) {rv obj}"
proof -
  from assms have i: "exec_inv held rv refs (ex x) (ev x)" and w: "wf x" by (auto simp: good_def)
  show ?thesis
    by (rule prepare1_spec [OF i assms(2), of n obj]) (use w in \<open>auto simp: step_ok_def good_def wf_upd\<close>)
qed

lemma prepare_list_step:
  assumes "good refs x" and "exec_ready (ex x)" and "objs \<noteq> [] \<or> contended (ex x) = Uncontended"
  shows "\<exists>ret e v. prepare_list ww rv n objs (ex x) (ev x) = Some (ret, e, v) \<and> step_ok refs x ret (upd e v x) (rv ` set objs)"
  using assms
proof (induction objs arbitrary: x)
  case Nil
  then show ?case by (simp add: upd_same step_ok_refl)
next
  case (Cons obj objs)
  from prepare1_step [OF Cons.prems(1,2), of n obj] obtain ret e v where
    o: "prepare1 ww rv n obj (ex x) (ev x) = Some (ret, e, v)" and s: "step_ok refs x ret (upd e v x) {rv obj}" by blast
  show ?case
  proof (cases "ret = 0")
    case False
    then show ?thesis using o s by (simp add: step_ok_def)
  next
    case True
    note r = step_ok_ready [OF s [unfolded True]]
    from Cons.IH [of "upd e v x"] r obtain ret' e' v' where o': "prepare_list ww rv n objs e v = Some (ret', e', v')"
      and s': "step_ok refs (upd e v x) ret' (upd e' v' (upd e v x)) (rv ` set objs)" by auto
    have w: "wf (upd e' v' x)" using Cons.prems(1) by (simp add: good_def wf_upd)
    from step_ok_cong [OF _ _ w step_ok_trans [OF s [unfolded True] s']]
    have "step_ok refs x ret' (upd e' v' x) (rv ` set (obj # objs))" by simp
    then show ?thesis using o o' True by simp
  qed
qed

end

section \<open>Locking an address space\<close>

locale vm_exec = ww_lib ww held patience
  for ww :: "'w ww_ops" and held :: "'w \<Rightarrow> nat set" and patience :: "'w \<Rightarrow> nat" +
  fixes rv :: "nat \<Rightarrow> nat" and g :: bo_holds and v :: nat and w0 :: "'w bo_world"
  assumes start: "bo_inv rv g w0"

sublocale vm_exec \<subseteq> vm: exec_client ww held patience rv fst "\<lambda>x. w_env (snd x)" "\<lambda>e env x. (e, (snd x)\<lparr>w_env := env\<rparr>)"
    "\<lambda>x. vm_rel rv g v w0 (snd x)"
  by unfold_locales simp_all

context vm_exec
begin

lemma clean_eq: "vm.clean = vm_exec_clean ww rv"
  by (simp add: vm.clean_def vm_exec_clean_def fun_eq_iff)

lemma good_distinct: "vm.good refs x \<Longrightarrow> distinct (map rv (objects (fst x)))"
  by (simp add: vm.good_def exec_inv_def)

lemma good_rel: "vm.good refs x \<Longrightarrow> vm_rel rv g v w0 (snd x)"
  by (simp add: vm.good_def)

lemma prepare_obj_step:
  assumes "vm.good refs (exec, w)" and "exec_ready exec"
  shows "\<exists>ret e env. exec_prepare_obj ww rv obj n (exec, w) = Some (ret, e, w\<lparr>w_env := env\<rparr>) \<and>
     vm.step_ok refs (exec, w) ret (e, w\<lparr>w_env := env\<rparr>) {rv obj}"
  using vm.prepare1_step [OF assms(1), of n obj] assms(2) by (auto simp: exec_prepare_obj_eq)

lemma prepare_vm_locks:
  "vm.stage_locks True (drm_gpuvm_prepare_vm ww rv v n) {rv (r_obj (w_vm w0 v))}"
proof (rule vm.stage_locksI)
  fix refs and x :: "drm_exec \<times> 'w bo_world"
  assume x: "vm.good refs x" "exec_ready (fst x)"
  obtain exec w where e: "x = (exec, w)" by (rule prod.exhaust)
  have "r_obj (w_vm w v) = r_obj (w_vm w0 v)" using x(1) e by (auto simp: vm.good_def dest: vm_relD)
  then show "\<exists>ret x'. drm_gpuvm_prepare_vm ww rv v n x = Some (ret, x') \<and> vm.step_ok refs x ret x' {rv (r_obj (w_vm w0 v))}"
    using prepare_obj_step [of refs exec w "r_obj (w_vm w0 v)" n] x e by (auto simp: drm_gpuvm_prepare_vm_def)
qed

definition live_of :: "nat list \<Rightarrow> nat list" where
  "live_of ps = filter (\<lambda>p. \<exists>bo. w_bos w0 p = Some bo \<and> 0 < bo_kref bo) ps"

definition ext_live :: "nat list" where
  "ext_live = live_of (extobj_list (vm_base (w_vm w0 v)))"

lemma extobj_elem:
  assumes "p \<in> set (extobj_list (vm_base (w_vm w0 v)))"
  obtains bo where "w_bos w0 p = Some bo" "bo_vm bo = v" "bo_kref bo = 0 \<Longrightarrow> drm_gpuvm_resv_protected (w_vm w0 v)"
    "drm_gpuvm_is_extobj rv (w_vm w0 v) (bo_obj bo)"
proof -
  have "list_elem_ok rv Extobj v (w_vm w0 v) (bo_info (w_bos w0) p)" using start assms unfolding bo_inv_defs inv_lists_def
    by (metis get_list.simps(1))
  then show thesis using that by (auto simp: list_elem_ok_def bo_info_def split: option.splits)
qed

lemma prepare_loop_step:
  assumes "vm.good refs (exec, w)" and "contended exec = Uncontended" and "set ps \<subseteq> set (extobj_list (vm_base (w_vm w0 v)))"
  shows "\<exists>ret e w'. prepare_objects_loop ww rv n ps (exec, w) = Some (ret, e, w') \<and>
     vm.step_ok refs (exec, w) ret (e, w') ((rv \<circ> obj_of w0) ` set (live_of ps)) \<and>
     set (evict_list (vm_base (w_vm w v))) \<subseteq> set (evict_list (vm_base (w_vm w' v))) \<and>
     (ret = 0 \<longrightarrow> (\<forall>p bo. p \<in> set ps \<and> w_bos w0 p = Some bo \<and> 0 < bo_kref bo \<and> bo_evicted bo \<longrightarrow>
        p \<in> set (evict_list (vm_base (w_vm w' v)))))"
  using assms
proof (induction ps arbitrary: exec w)
  case Nil
  then show ?case using vm.step_ok_refl [of refs "(exec, w)"] by (simp add: live_of_def)
next
  case (Cons p ps)
  from Cons.prems(3) obtain bo where bo: "w_bos w0 p = Some bo" "bo_vm bo = v" by (auto elim: extobj_elem)
  have rel: "vm_rel rv g v w0 w" using Cons.prems(1) by (simp add: vm.good_def)
  have bw: "w_bos w p = Some bo" using bo vm_relD(1) [OF rel] by simp
  have ready: "exec_ready exec" using Cons.prems(2) by (simp add: exec_ready_def)
  show ?case
  proof (cases "bo_kref bo = 0")
    case True
    then show ?thesis using Cons.IH [OF Cons.prems(1,2)] Cons.prems(3) bo bw
      by (auto simp: drm_gpuvm_bo_is_zombie_def live_of_def)
  next
    case False
    from prepare_obj_step [OF Cons.prems(1) ready, of "bo_obj bo" n] obtain ret e env where
      o: "exec_prepare_obj ww rv (bo_obj bo) n (exec, w) = Some (ret, e, w\<lparr>w_env := env\<rparr>)"
      and s: "vm.step_ok refs (exec, w) ret (e, w\<lparr>w_env := env\<rparr>) {rv (bo_obj bo)}" by blast
    show ?thesis
    proof (cases "ret = 0")
      case err: False
      then show ?thesis using o s False bw by (simp add: drm_gpuvm_bo_is_zombie_def vm.step_ok_def)
    next
      case True
      define w1 where "w1 = (if bo_evicted bo then on_vm v (raw_drm_gpuvm_bo_list_add Evict p) (w\<lparr>w_env := env\<rparr>) else w\<lparr>w_env := env\<rparr>)"
      have rel1: "vm_rel rv g v w0 w1" using evict_add_rel [of rv g v w0 "w\<lparr>w_env := env\<rparr>" p bo] rel bw bo(2) False by (simp add: w1_def)
      have lo: "get_local Evict (w_vm w v) = None" by (rule vm_relD(4) [OF rel])
      have ev: "get_list Evict (w_vm w1 v) = (if bo_evicted bo \<and> p \<notin> set (get_list Evict (w_vm w v)) then get_list Evict (w_vm w v) @ [p]
           else get_list Evict (w_vm w v))"
        using lo by (simp add: w1_def list_add_list del: get_list.simps)
      have s1: "vm.step_ok refs (exec, w) 0 (e, w1) {rv (bo_obj bo)}"
        by (rule vm.step_ok_cong [OF _ _ _ s [unfolded True]]) (use rel1 in \<open>simp_all add: w1_def\<close>)
      from vm.step_ok_ready [OF s1] have g1: "vm.good refs (e, w1)" "contended e = Uncontended" by simp_all
      from Cons.IH [OF g1] Cons.prems(3) obtain ret' e' w' where
        l: "prepare_objects_loop ww rv n ps (e, w1) = Some (ret', e', w')"
        and s2: "vm.step_ok refs (e, w1) ret' (e', w') ((rv \<circ> obj_of w0) ` set (live_of ps))"
        and ev2: "set (evict_list (vm_base (w_vm w1 v))) \<subseteq> set (evict_list (vm_base (w_vm w' v)))"
        and all: "ret' = 0 \<longrightarrow> (\<forall>p bo. p \<in> set ps \<and> w_bos w0 p = Some bo \<and> 0 < bo_kref bo \<and> bo_evicted bo \<longrightarrow>
           p \<in> set (evict_list (vm_base (w_vm w' v))))" by auto
      have "prepare_objects_loop ww rv n (p # ps) (exec, w) = Some (ret', e', w')"
        using l o bw bo(2) False True by (cases "bo_evicted bo") (simp_all add: drm_gpuvm_bo_is_zombie_def w1_def)
      moreover have "vm.step_ok refs (exec, w) ret' (e', w') ((rv \<circ> obj_of w0) ` set (live_of (p # ps)))"
        using vm.step_ok_trans [OF s1 s2] bo False by (simp add: live_of_def obj_of_def)
      moreover have "set (evict_list (vm_base (w_vm w v))) \<subseteq> set (evict_list (vm_base (w_vm w' v)))"
        using ev ev2 by (auto split: if_splits)
      moreover have "p \<in> set (evict_list (vm_base (w_vm w' v)))" if "bo_evicted bo" using ev ev2 that by (auto split: if_splits)
      ultimately show ?thesis using all bo by auto
    qed
  qed
qed

lemma prepare_objects_step:
  assumes "vm.good refs (exec, w)" and "contended exec = Uncontended"
  shows "\<exists>ret e w'. drm_gpuvm_prepare_objects lib ww rv v n (exec, w) = Some (ret, e, w') \<and>
     vm.step_ok refs (exec, w) ret (e, w') ((rv \<circ> obj_of w0) ` set ext_live) \<and>
     (ret = 0 \<and> drm_gpuvm_resv_protected (w_vm w0 v) \<longrightarrow> (\<forall>p \<in> set ext_live. map_option bo_evicted (w_bos w0 p) = Some True \<longrightarrow>
        p \<in> set (evict_list (vm_base (w_vm w' v)))))"
proof -
  let ?xs = "extobj_list (vm_base (w_vm w0 v))"
  have rel: "vm_rel rv g v w0 w" using assms(1) by (simp add: vm.good_def)
  note r = vm_relD [OF rel]
  have xs: "extobj_list (vm_base (w_vm w v)) = ?xs" using r(2) by simp
  show ?thesis
  proof (cases "drm_gpuvm_resv_protected (w_vm w0 v)")
    case True
    from prepare_loop_step [OF assms subset_refl] True show ?thesis
      by (fastforce simp: drm_gpuvm_prepare_objects_def drm_gpuvm_prepare_objects_locked_def r xs ext_live_def live_of_def)
  next
    case False
    have live: "\<exists>bo. w_bos w0 p = Some bo \<and> 0 < bo_kref bo" if "p \<in> set ?xs" for p
      using extobj_elem [OF that] False by blast
    then have e: "ext_live = ?xs" by (simp add: ext_live_def live_of_def filter_id_conv)
    have "all_live w (extobj_list (vm_base (w_vm w v)))" unfolding xs all_live_def r(1) using live by blast
    note p = prepare_objects_unlocked [OF this r(4), of lib ww rv n exec]
    have "exec_ready exec" using assms(2) by (simp add: exec_ready_def)
    from vm.prepare_list_step [of refs "(exec, w)" "map (obj_of w0) ?xs" n] assms this obtain ret e env where
      l: "prepare_list ww rv n (map (obj_of w0) ?xs) exec (w_env w) = Some (ret, e, env)"
      and s: "vm.step_ok refs (exec, w) ret (e, w\<lparr>w_env := env\<rparr>) (rv ` set (map (obj_of w0) ?xs))" by auto
    have "drm_gpuvm_prepare_objects lib ww rv v n (exec, w) = Some (ret, e, w\<lparr>w_env := env\<rparr>)"
      using p l False by (simp add: drm_gpuvm_prepare_objects_def r xs)
    then show ?thesis using s e False by (auto simp: image_comp)
  qed
qed

lemma prepare_objects_locks:
  "vm.stage_locks False (drm_gpuvm_prepare_objects lib ww rv v n) ((rv \<circ> obj_of w0) ` set ext_live)"
proof (rule vm.stage_locksI)
  fix refs and x :: "drm_exec \<times> 'w bo_world"
  assume x: "vm.good refs x" "False \<or> contended (fst x) = Uncontended"
  then show "\<exists>ret x'. drm_gpuvm_prepare_objects lib ww rv v n x = Some (ret, x') \<and> vm.step_ok refs x ret x' ((rv \<circ> obj_of w0) ` set ext_live)"
    using prepare_objects_step [of refs "fst x" "snd x" lib n] by auto
qed

lemma lock_array_locks: "vm.stage_locks False (fn_lock_array ww rv objs n) (rv ` set objs)"
proof -
  have e: "fn_lock_array ww rv objs n = (\<lambda>x. map_option (\<lambda>(ret, e, env). (ret, e, (snd x)\<lparr>w_env := env\<rparr>))
      (drm_exec_prepare_array ww rv objs n (fst x) (w_env (snd x))))" by (simp add: fn_lock_array_def fun_eq_iff)
  show ?thesis unfolding e using vm.prepare_array_locks [of objs False n] by simp
qed

lemma lock_array_same: "fn_lock_array ww rv objs n x = Some (ret, x') \<Longrightarrow> w_vm (snd x') = w_vm (snd x)"
  by (auto simp: fn_lock_array_def)

lemma init_good:
  assumes "held (k_ww (w_env w0)) = {}"
  obtains exec env where "exec_init_world flags w0 = (exec, w0\<lparr>w_env := env\<rparr>)"
    and "vm.good (k_refs (w_env w0)) (exec, w0\<lparr>w_env := env\<rparr>)" and "contended exec = DRM_EXEC_DUMMY" and "k_ww env = k_ww (w_env w0)"
proof -
  obtain exec env where i: "drm_exec_init flags 0 (w_env w0) = (exec, env)" by (rule prod.exhaust)
  from init_inv [where held = held and rv = rv, OF assms i] show thesis
    using that [of exec env] vm_rel_refl [OF start, of v] by (auto simp: exec_init_world_def i vm.good_def)
qed

lemma bo_inv_refs: "k_refs e = k_refs e' \<Longrightarrow> bo_inv rv g (w\<lparr>w_env := e\<rparr>) = bo_inv rv g (w\<lparr>w_env := e'\<rparr>)"
  by (simp add: bo_inv_defs)

lemma unlock_good:
  assumes "vm.good (k_refs (w_env w0)) x"
  shows "held (k_ww (w_env (drm_gpuvm_exec_unlock ww rv x))) = {}" and "bo_inv rv g (drm_gpuvm_exec_unlock ww rv x)"
    and "held (k_ww (w_env (snd x))) = rv ` set (objects (fst x))"
proof -
  from assms have i: "exec_inv held rv (k_refs (w_env w0)) (fst x) (w_env (snd x))" and r: "vm_rel rv g v w0 (snd x)"
    by (simp_all add: vm.good_def)
  note f = fini_spec [OF i]
  show "held (k_ww (w_env (drm_gpuvm_exec_unlock ww rv x))) = {}" using f by (simp add: drm_gpuvm_exec_unlock_def)
  show "bo_inv rv g (drm_gpuvm_exec_unlock ww rv x)"
    unfolding drm_gpuvm_exec_unlock_def using bo_inv_refs [OF f(2)] r by (simp add: vm_rel_def)
  show "held (k_ww (w_env (snd x))) = rv ` set (objects (fst x))" using i by (simp add: exec_inv_def)
qed

lemma exec_lock_array_result:
  assumes h: "held (k_ww (w_env w0)) = {}" and fuel: "patience (k_ww (w_env w0)) + 1 < fuel" and ve: "ve_vm ve = v"
  shows "\<exists>ret exec w. drm_gpuvm_exec_lock_array fuel lib ww rv ve objs w0 = Some (ret, exec, w) \<and>
     (ret = 0 \<longrightarrow> vm.good (k_refs (w_env w0)) (exec, w) \<and> contended exec = Uncontended \<and>
        {rv (r_obj (w_vm w0 v))} \<union> (rv \<circ> obj_of w0) ` set ext_live \<union> rv ` set objs \<subseteq> held (k_ww (w_env w)) \<and>
        (drm_gpuvm_resv_protected (w_vm w0 v) \<longrightarrow> (\<forall>p \<in> set ext_live. map_option bo_evicted (w_bos w0 p) = Some True \<longrightarrow>
           p \<in> set (evict_list (vm_base (w_vm w v)))))) \<and>
     (ret \<noteq> 0 \<longrightarrow> held (k_ww (w_env w)) = {} \<and> bo_inv rv g w)"
proof -
  let ?n = "ve_num_fences ve"
  let ?fs = "[drm_gpuvm_prepare_objects lib ww rv v ?n, fn_lock_array ww rv objs ?n]"
  let ?Ns = "[(rv \<circ> obj_of w0) ` set ext_live, rv ` set objs]"
  obtain exec0 env0 where i: "exec_init_world (ve_flags ve) w0 = (exec0, w0\<lparr>w_env := env0\<rparr>)"
    and g0: "vm.good (k_refs (w_env w0)) (exec0, w0\<lparr>w_env := env0\<rparr>)" and d: "contended exec0 = DRM_EXEC_DUMMY" and k: "k_ww env0 = k_ww (w_env w0)"
    by (rule init_good [OF h])
  have l2: "list_all2 (vm.stage_locks False) ?fs ?Ns" by (intro list.rel_intros prepare_objects_locks lock_array_locks)
  have c: "contended (fst (exec0, w0\<lparr>w_env := env0\<rparr>)) \<noteq> Uncontended \<or>
      {rv (r_obj (w_vm w0 v))} \<union> \<Union> (set ?Ns) \<subseteq> rv ` set (objects (fst (exec0, w0\<lparr>w_env := env0\<rparr>)))" using d by simp
  have p: "patience (k_ww (w_env (snd (exec0, w0\<lparr>w_env := env0\<rparr>)))) + of_bool (contended (fst (exec0, w0\<lparr>w_env := env0\<rparr>)) \<noteq> Uncontended) < fuel"
    using d k fuel by simp
  obtain ret x where u: "drm_exec_until_all_locked fuel fst (vm_exec_clean ww rv) (drm_gpuvm_prepare_vm ww rv v ?n # ?fs) (exec0, w0\<lparr>w_env := env0\<rparr>) = Some (ret, x)"
    and gx: "vm.good (k_refs (w_env w0)) x"
    and ok: "ret = 0 \<longrightarrow> contended (fst x) = Uncontended \<and> {rv (r_obj (w_vm w0 v))} \<union> \<Union> (set ?Ns) \<subseteq> rv ` set (objects (fst x))"
    and last: "ret = 0 \<longrightarrow> x = (exec0, w0\<lparr>w_env := env0\<rparr>) \<and> contended (fst (exec0, w0\<lparr>w_env := env0\<rparr>)) = Uncontended \<or>
        (\<exists>y. vm.good (k_refs (w_env w0)) y \<and> exec_ready (fst y) \<and>
        run_stages fst (drm_gpuvm_prepare_vm ww rv v ?n # ?fs) y = Some (Body_done, x))"
    using vm.until_all_locked_spec [OF prepare_vm_locks l2 g0 c p, unfolded clean_eq] by blast
  note un = unlock_good [OF gx]
  have r: "drm_gpuvm_exec_lock_array fuel lib ww rv ve objs w0 =
      Some (if ret \<noteq> 0 then (ret, fst x, drm_gpuvm_exec_unlock ww rv x) else (0, x))"
    using u by (simp add: drm_gpuvm_exec_lock_array_def drm_gpuvm_exec_lock_def i ve)
  show ?thesis
  proof (cases "ret = 0")
    case False
    then show ?thesis using r un by simp
  next
    case True
    have ev: "\<forall>p \<in> set ext_live. map_option bo_evicted (w_bos w0 p) = Some True \<longrightarrow> p \<in> set (evict_list (vm_base (w_vm (snd x) v)))"
      if prot: "drm_gpuvm_resv_protected (w_vm w0 v)"
    proof -
      from last True obtain y where y: "vm.good (k_refs (w_env w0)) y" "exec_ready (fst y)"
        "run_stages fst (drm_gpuvm_prepare_vm ww rv v ?n # ?fs) y = Some (Body_done, x)" using d by auto
      from prepare_vm_locks [of ?n] y(1,2) obtain ret1 y1 where y1: "drm_gpuvm_prepare_vm ww rv v ?n y = Some (ret1, y1)" "vm.good (k_refs (w_env w0)) y1"
        by (rule vm.stage_locksD) auto
      from y(3) y1(1) have c1: "contended (fst y1) = Uncontended" by (auto simp: drm_exec_is_contended_def split: if_splits)
      from prepare_objects_step [of "k_refs (w_env w0)" "fst y1" "snd y1" lib ?n] y1(2) c1 obtain ret2 e2 w2 where
        y2: "drm_gpuvm_prepare_objects lib ww rv v ?n y1 = Some (ret2, e2, w2)"
        and e2: "ret2 = 0 \<longrightarrow> (\<forall>p \<in> set ext_live. map_option bo_evicted (w_bos w0 p) = Some True \<longrightarrow> p \<in> set (evict_list (vm_base (w_vm w2 v))))"
        using prot by auto
      from y(3) y1(1) y2 have "ret2 = 0" and "\<exists>ret3. fn_lock_array ww rv objs ?n (e2, w2) = Some (ret3, x)"
        by (auto simp: drm_exec_is_contended_def split: if_splits bind_splits)
      then show ?thesis using e2 lock_array_same [of objs ?n "(e2, w2)"] by (cases x) auto
    qed
    show ?thesis using True r gx ok un(3) ev by (intro exI [of _ 0] exI [of _ "fst x"] exI [of _ "snd x"]) simp
  qed
qed

end

section \<open>Locking a range\<close>

lemma prepare_range_loop_eq:
  assumes "distinct (rb_list vm)" and "rb_list vm = pre @ vs" and "length vs < fuel"
    and "\<forall>a \<in> set (takeWhile (\<lambda>a. va_addr a < e) vs). gem_obj a \<noteq> None"
  shows "prepare_range_loop fuel ww rv vm e n (opt_hd vs) (exec, w) =
     map_option (\<lambda>(ret, exec, env). (ret, exec, w\<lparr>w_env := env\<rparr>))
       (prepare_list ww rv n (map (\<lambda>a. the (gem_obj a)) (takeWhile (\<lambda>a. va_addr a < e) vs)) exec (w_env w))"
  using assms
proof (induction vs arbitrary: pre fuel exec w)
  case Nil
  then show ?case by (cases fuel) simp_all
next
  case (Cons a vs)
  from Cons.prems(3) obtain k where fuel: "fuel = Suc k" "length vs < k" by (cases fuel) auto
  have nx: "drm_gpuva_next vm (Some a) = opt_hd vs" using gpuva_next_opt_hd [OF Cons.prems(1,2)] by simp
  show ?case
  proof (cases "va_addr a < e")
    case False
    then show ?thesis using fuel by simp
  next
    case True
    then obtain obj where o: "gem_obj a = Some obj" using Cons.prems(4) by auto
    have r: "rb_list vm = (pre @ [a]) @ vs" using Cons.prems(2) by simp
    have a: "\<forall>a \<in> set (takeWhile (\<lambda>a. va_addr a < e) vs). gem_obj a \<noteq> None" using Cons.prems(4) True by simp
    note ih = Cons.IH [OF Cons.prems(1) r fuel(2) a]
    show ?thesis
      by (cases "prepare1 ww rv n obj exec (w_env w)") (auto simp: fuel True o exec_prepare_obj_eq nx ih)
  qed
qed

text \<open>The objects mapped in a range.\<close>

definition range_objs :: "drm_gpuvm \<Rightarrow> u64 \<Rightarrow> u64 \<Rightarrow> nat list" where
  "range_objs vm addr rng = map (\<lambda>a. the (gem_obj a)) (takeWhile (\<lambda>a. va_addr a < addr + rng) (from_first addr rng vm))"

lemma core_distinct: "vm_core vm \<Longrightarrow> distinct (rb_list vm)"
  unfolding vm_core_def using distinct_map by blast

lemma prepare_range_start:
  assumes core: "vm_core (vm_base (w_vm w v))" and r: "addr < addr + rng"
  shows "drm_gpuvm_prepare_range ww rv v addr rng n (exec, w) =
    prepare_range_loop (Suc (length (rb_list (vm_base (w_vm w v))))) ww rv (vm_base (w_vm w v)) (addr + rng) n
      (opt_hd (from_first addr rng (vm_base (w_vm w v)))) (exec, w)"
  using find_first_spec [OF core r]
  by (cases "from_first addr rng (vm_base (w_vm w v))")
    (simp_all add: drm_gpuvm_prepare_range_def from_first_split Let_def)

lemma prepare_range_eq:
  assumes core: "vm_core (vm_base (w_vm w v))" and r: "addr < addr + rng"
    and objs: "\<And>a. a \<in> set (rb_list (vm_base (w_vm w v))) \<Longrightarrow> overlaps addr (addr + rng) a \<Longrightarrow> gem_obj a \<noteq> None"
  shows "drm_gpuvm_prepare_range ww rv v addr rng n (exec, w) =
     map_option (\<lambda>(ret, exec, env). (ret, exec, w\<lparr>w_env := env\<rparr>))
       (prepare_list ww rv n (range_objs (vm_base (w_vm w v)) addr rng) exec (w_env w))"
proof -
  let ?vm = "vm_base (w_vm w v)"
  obtain pre where pre: "rb_list ?vm = pre @ from_first addr rng ?vm" using from_first_split(2) by blast
  have l: "length (from_first addr rng ?vm) < Suc (length (rb_list ?vm))" using arg_cong [OF pre, of length] by simp
  have o: "\<forall>a \<in> set (takeWhile (\<lambda>a. va_addr a < addr + rng) (from_first addr rng ?vm)). gem_obj a \<noteq> None"
    unfolding from_first_facts(4) [OF core r] using objs by blast
  show ?thesis unfolding prepare_range_start [OF core r] range_objs_def
    by (rule prepare_range_loop_eq [OF core_distinct [OF core] pre l o])
qed

text \<open>A mapping without an object, at the start of the range, is dereferenced.\<close>

lemma prepare_range_null:
  assumes "vm_core (vm_base (w_vm w v))" and "addr < addr + rng"
    and "find (overlaps addr (addr + rng)) (rb_list (vm_base (w_vm w v))) = Some a" and "gem_obj a = None"
  shows "drm_gpuvm_prepare_range ww rv v addr rng n (exec, w) = None"
proof -
  have "overlaps addr (addr + rng) a" using assms(3) by (auto simp: find_Some_iff)
  then show ?thesis using assms(3,4) prepare_range_start [OF assms(1,2), of ww rv n exec]
    by (simp add: from_first_split(1) [symmetric] overlaps_def)
qed

lemma range_objs_set:
  assumes "vm_core vm" and "addr < addr + rng"
  shows "set (range_objs vm addr rng) = (\<lambda>a. the (gem_obj a)) ` {a \<in> set (rb_list vm). overlaps addr (addr + rng) a}"
  unfolding range_objs_def set_map from_first_facts(4) [OF assms] ..

context vm_exec
begin

lemma vm_rel_base:
  assumes "vm_rel rv g v w0 w"
  shows "rb_tree (vm_base (w_vm w v)) = rb_tree (vm_base (w_vm w0 v))" "rb_list (vm_base (w_vm w v)) = rb_list (vm_base (w_vm w0 v))"
proof -
  from assms obtain es where e: "w\<lparr>w_env := w_env w0\<rparr> = on_vm v (set_list Evict es) w0" by (auto simp: vm_rel_def)
  from arg_cong [OF e, of w_vm] have "w_vm w v = set_list Evict es (w_vm w0 v)" by simp
  then show "rb_tree (vm_base (w_vm w v)) = rb_tree (vm_base (w_vm w0 v))" "rb_list (vm_base (w_vm w v)) = rb_list (vm_base (w_vm w0 v))"
    by simp_all
qed

lemma prepare_range_step:
  assumes x: "vm.good refs x" and core: "vm_core (vm_base (w_vm w0 v))" and r: "addr < addr + rng"
    and objs: "\<And>a. a \<in> set (rb_list (vm_base (w_vm w0 v))) \<Longrightarrow> overlaps addr (addr + rng) a \<Longrightarrow> gem_obj a \<noteq> None"
  shows "drm_gpuvm_prepare_range ww rv v addr rng n x =
     map_option (\<lambda>(ret, exec, env). (ret, exec, (snd x)\<lparr>w_env := env\<rparr>))
       (prepare_list ww rv n (range_objs (vm_base (w_vm w0 v)) addr rng) (fst x) (w_env (snd x)))"
proof -
  have rel: "vm_rel rv g v w0 (snd x)" using x by (simp add: vm.good_def)
  note b = vm_rel_base [OF rel]
  have c: "vm_core (vm_base (w_vm (snd x) v))" by (rule vm_core_cong [OF core b])
  have o: "gem_obj a \<noteq> None" if "a \<in> set (rb_list (vm_base (w_vm (snd x) v)))" "overlaps addr (addr + rng) a" for a
    using objs that b by simp
  have "range_objs (vm_base (w_vm (snd x) v)) addr rng = range_objs (vm_base (w_vm w0 v)) addr rng"
    by (simp add: range_objs_def from_first_def b)
  then show ?thesis using prepare_range_eq [OF c r o, of ww rv n "fst x"] by simp
qed

lemma exec_lock_range_result:
  assumes h: "held (k_ww (w_env w0)) = {}" and fuel: "patience (k_ww (w_env w0)) + 1 < fuel" and ve: "ve_vm ve = v"
    and core: "vm_core (vm_base (w_vm w0 v))" and r: "addr < addr + rng"
    and objs: "\<And>a. a \<in> set (rb_list (vm_base (w_vm w0 v))) \<Longrightarrow> overlaps addr (addr + rng) a \<Longrightarrow> gem_obj a \<noteq> None"
  shows "\<exists>ret exec w. drm_gpuvm_exec_lock_range fuel ww rv ve addr rng w0 = Some (ret, exec, w) \<and>
     (ret = 0 \<longrightarrow> vm.good (k_refs (w_env w0)) (exec, w) \<and> rv ` set (range_objs (vm_base (w_vm w0 v)) addr rng) \<subseteq> held (k_ww (w_env w))) \<and>
     (ret \<noteq> 0 \<longrightarrow> held (k_ww (w_env w)) = {} \<and> bo_inv rv g w)"
proof -
  let ?n = "ve_num_fences ve" and ?os = "range_objs (vm_base (w_vm w0 v)) addr rng"
  let ?f = "drm_gpuvm_prepare_range ww rv v addr rng ?n"
  note step = prepare_range_step [OF _ core r objs]
  obtain exec0 env0 where i: "exec_init_world (ve_flags ve) w0 = (exec0, w0\<lparr>w_env := env0\<rparr>)"
    and g0: "vm.good (k_refs (w_env w0)) (exec0, w0\<lparr>w_env := env0\<rparr>)" and d: "contended exec0 = DRM_EXEC_DUMMY" and k: "k_ww env0 = k_ww (w_env w0)"
    by (rule init_good [OF h])
  have "\<exists>ret x. drm_exec_until_all_locked fuel fst (vm_exec_clean ww rv) [?f] (exec0, w0\<lparr>w_env := env0\<rparr>) = Some (ret, x) \<and>
      vm.good (k_refs (w_env w0)) x \<and> (ret = 0 \<longrightarrow> rv ` set ?os \<subseteq> rv ` set (objects (fst x)))"
  proof (cases "?os = []")
    case True
    define m where "m = fuel - 2"
    have m: "fuel = Suc (Suc m)" using fuel by (simp add: m_def)
    let ?x = "(exec0\<lparr>contended := Uncontended\<rparr>, w0\<lparr>w_env := env0\<rparr>)"
    have gx: "vm.good (k_refs (w_env w0)) ?x" using g0 d by (simp add: vm.good_def exec_inv_def)
    have "?f ?x = Some (0, ?x)" using step [OF gx, of ?n] True by simp
    then show ?thesis using gx d True
      by (intro exI [of _ 0] exI [of _ ?x]) (simp add: m vm_exec_clean_def drm_exec_cleanup_def drm_exec_is_contended_def)
  next
    case False
    have s: "vm.stage_locks True ?f (rv ` set ?os)"
    proof (rule vm.stage_locksI)
      fix refs and x :: "drm_exec \<times> 'w bo_world"
      assume x: "vm.good refs x" "exec_ready (fst x)"
      from vm.prepare_list_step [OF x, of ?os ?n] False step [OF x(1), of ?n]
      show "\<exists>ret x'. ?f x = Some (ret, x') \<and> vm.step_ok refs x ret x' (rv ` set ?os)" by auto
    qed
    have c: "contended (fst (exec0, w0\<lparr>w_env := env0\<rparr>)) \<noteq> Uncontended \<or>
        rv ` set ?os \<union> \<Union> (set []) \<subseteq> rv ` set (objects (fst (exec0, w0\<lparr>w_env := env0\<rparr>)))" using d by simp
    have p: "patience (k_ww (w_env (snd (exec0, w0\<lparr>w_env := env0\<rparr>)))) + of_bool (contended (fst (exec0, w0\<lparr>w_env := env0\<rparr>)) \<noteq> Uncontended) < fuel"
      using d k fuel by simp
    show ?thesis using vm.until_all_locked_spec [OF s list.rel_intros(1) g0 c p, unfolded clean_eq] by auto
  qed
  then obtain ret x where u: "drm_exec_until_all_locked fuel fst (vm_exec_clean ww rv) [?f] (exec0, w0\<lparr>w_env := env0\<rparr>) = Some (ret, x)"
    and gx: "vm.good (k_refs (w_env w0)) x" and ok: "ret = 0 \<longrightarrow> rv ` set ?os \<subseteq> rv ` set (objects (fst x))" by blast
  note un = unlock_good [OF gx]
  have "drm_gpuvm_exec_lock_range fuel ww rv ve addr rng w0 = Some (if ret \<noteq> 0 then (ret, fst x, drm_gpuvm_exec_unlock ww rv x) else (ret, x))"
    using u by (simp add: drm_gpuvm_exec_lock_range_def i ve)
  then show ?thesis using un ok gx by (cases x; cases "ret = 0") auto
qed

end

section \<open>Properties\<close>

lemma vm_execI: "ww_lib ww held patience \<Longrightarrow> bo_inv rv g w \<Longrightarrow> vm_exec ww held patience rv g w"
  by (simp add: vm_exec_def vm_exec_axioms_def)

text \<open>
  C20. Locking an address space and an array of further objects, in any reachable state and whatever the lock class does, ends. If
  it returns 0, the reservation locks of the address space, of every external object that is in use and of the array are held, and unlocking
  releases all of them and restores the reference counts; otherwise nothing is locked and no reference is kept. The bookkeeping
  invariant holds in both cases.
\<close>

theorem exec_lock_array_correct:
  assumes ww: "ww_lib ww held patience" and reach: "bo_reachable lib rv (g, w)" and h: "held (k_ww (w_env w)) = {}"
    and fuel: "patience (k_ww (w_env w)) + 1 < fuel"
  shows "\<exists>ret exec w'. drm_gpuvm_exec_lock_array fuel lib ww rv ve objs w = Some (ret, exec, w') \<and>
     (ret = 0 \<longrightarrow> rv (r_obj (w_vm w (ve_vm ve))) \<in> held (k_ww (w_env w')) \<and> rv ` set objs \<subseteq> held (k_ww (w_env w')) \<and>
        (\<forall>p bo. p \<in> set (extobj_list (vm_base (w_vm w (ve_vm ve)))) \<and> w_bos w p = Some bo \<and> 0 < bo_kref bo \<longrightarrow>
           rv (bo_obj bo) \<in> held (k_ww (w_env w'))) \<and>
        held (k_ww (w_env (drm_gpuvm_exec_unlock ww rv (exec, w')))) = {} \<and> bo_inv rv g (drm_gpuvm_exec_unlock ww rv (exec, w'))) \<and>
     (ret \<noteq> 0 \<longrightarrow> held (k_ww (w_env w')) = {} \<and> bo_inv rv g w')"
proof -
  note lib = vm_execI [OF ww, of rv g w]
  have inv: "bo_inv rv g w" using bo_reachable_inv [OF reach] by simp
  note r = vm_exec.exec_lock_array_result [OF lib [OF inv] h fuel refl, where ve = ve and lib = lib and objs = objs]
  note un = vm_exec.unlock_good [OF lib [OF inv]]
  note ext = vm_exec.ext_live_def [OF lib [OF inv]] vm_exec.live_of_def [OF lib [OF inv]]
  from r obtain ret exec w' where l: "drm_gpuvm_exec_lock_array fuel lib ww rv ve objs w = Some (ret, exec, w')"
    and ok: "ret = 0 \<longrightarrow> exec_client.good held rv fst (\<lambda>x. w_env (snd x)) (\<lambda>x. vm_rel rv g (ve_vm ve) w (snd x)) (k_refs (w_env w)) (exec, w') \<and>
       {rv (r_obj (w_vm w (ve_vm ve)))} \<union> (rv \<circ> obj_of w) ` set (vm_exec.ext_live (ve_vm ve) w) \<union> rv ` set objs \<subseteq> held (k_ww (w_env w'))"
    and err: "ret \<noteq> 0 \<longrightarrow> held (k_ww (w_env w')) = {} \<and> bo_inv rv g w'" by blast
  have ext: "rv (bo_obj bo) \<in> (rv \<circ> obj_of w) ` set (vm_exec.ext_live (ve_vm ve) w)"
    if "p \<in> set (extobj_list (vm_base (w_vm w (ve_vm ve))))" "w_bos w p = Some bo" "0 < bo_kref bo" for p bo
    using that by (intro image_eqI [of _ _ p]) (simp_all add: ext obj_of_def)
  show ?thesis
  proof (cases "ret = 0")
    case True
    with ok have g: "exec_client.good held rv fst (\<lambda>x. w_env (snd x)) (\<lambda>x. vm_rel rv g (ve_vm ve) w (snd x)) (k_refs (w_env w)) (exec, w')"
      and s: "{rv (r_obj (w_vm w (ve_vm ve)))} \<union> (rv \<circ> obj_of w) ` set (vm_exec.ext_live (ve_vm ve) w) \<union> rv ` set objs \<subseteq> held (k_ww (w_env w'))"
      by blast+
    from s ext have "\<forall>p bo. p \<in> set (extobj_list (vm_base (w_vm w (ve_vm ve)))) \<and> w_bos w p = Some bo \<and> 0 < bo_kref bo \<longrightarrow>
        rv (bo_obj bo) \<in> held (k_ww (w_env w'))" by blast
    then show ?thesis using l True s un [OF g] by simp
  qed (use l err in simp)
qed

text \<open>The locks of the example: an external object, with the lists protected by the reservation lock.\<close>

definition ex_external :: "bo_holds \<times> plain_ww bo_world" where
  "ex_external = the (bo_exec (plain_lib GPUVA_LAST) id (Bo_evict 1 True) (the (bo_exec (plain_lib GPUVA_LAST) id (Bo_extobj_add 1) ex_obtained)))"

definition ex_ve :: "plain_ww drm_gpuvm_exec" where
  "ex_ve = \<lparr>ve_flags = 0, ve_vm = 3, ve_num_fences = 1, extra_fn = None\<rparr>"

lemma ex_external_reachable: "bo_reachable (plain_lib GPUVA_LAST) id ex_external"
proof -
  let ?s = "the (bo_exec (plain_lib GPUVA_LAST) id (Bo_extobj_add 1) ex_obtained)"
  obtain g w where o: "ex_obtained = (g, w)" by (rule prod.exhaust)
  have a: "bo_allowed (Bo_extobj_add 1) ex_obtained" using ex_obtained_state by (simp add: bo_live_def o)
  have "w_bos (snd ?s) 1 = w_bos (snd ex_obtained) 1" using ex_obtained_state(2)
    by (simp add: drm_gpuvm_bo_extobj_add_def o)
  then have "bo_allowed (Bo_evict 1 True) ?s" using ex_obtained_state(2) by (cases ?s) (simp add: bo_live_def)
  then show ?thesis unfolding ex_external_def by (rule reachable_next [OF reachable_next [OF ex_obtained_reachable a]])
qed

interpretation plain_vm: vm_exec plain_ops "\<lambda>w. set (pw_held w)" "\<lambda>w. length (pw_script w)" id "fst ex_external" 3 "snd ex_external"
  by (rule vm_execI [OF plain.ww_lib_axioms]) (rule bo_reachable_inv [OF ex_external_reachable])

lemma ex_external_env: "w_env (snd ex_external) = w_env (snd ex_obtained)"
proof -
  obtain g w where o: "ex_obtained = (g, w)" by (rule prod.exhaust)
  show ?thesis using ex_obtained_state(2) by (simp add: o ex_external_def drm_gpuvm_bo_extobj_add_def drm_gpuvm_bo_evict_def Let_def)
qed

lemma ex_locked:
  "map_option (\<lambda>(ret, exec, w). (ret, objects exec, evict_list (vm_base (w_vm w 3))))
     (drm_gpuvm_exec_lock_array 5 (plain_lib GPUVA_LAST) plain_ops id ex_ve [7] (snd ex_external)) = Some (0, [5, 0, 7], [1])"
  by code_simp

theorem exec_lock_array_correct_witness:
  "\<exists>exec w'. drm_gpuvm_exec_lock_array 5 (plain_lib GPUVA_LAST) plain_ops id ex_ve [7] (snd ex_external) = Some (0, exec, w') \<and>
     {0, 7} \<subseteq> set (pw_held (k_ww (w_env w'))) \<and> set (pw_held (k_ww (w_env (drm_gpuvm_exec_unlock plain_ops id (exec, w'))))) = {}"
proof -
  have e: "w_env (snd ex_external) = w_env (snd ex_obtained)" "pw_held (k_ww (w_env (snd ex_obtained))) = []"
    "length (pw_script (k_ww (w_env (snd ex_obtained)))) = 3" "r_obj (w_vm (snd ex_external) 3) = 0"
    by (rule ex_external_env) code_simp+
  have r: "bo_reachable (plain_lib GPUVA_LAST) id (fst ex_external, snd ex_external)" using ex_external_reachable by simp
  obtain exec w' where "drm_gpuvm_exec_lock_array 5 (plain_lib GPUVA_LAST) plain_ops id ex_ve [7] (snd ex_external) = Some (0, exec, w')"
    using ex_locked by auto
  with exec_lock_array_correct [OF plain.ww_lib_axioms r, of 5 ex_ve "[7]"] e show ?thesis by (auto simp: ex_ve_def)
qed

text \<open>
  C25. Locking a range of addresses: the call ends, and if it returns 0, the reservation locks of all objects mapped in the range are held and
  unlocking releases everything; otherwise nothing is locked and no reference is kept. Every mapping in the range must have an object.
\<close>

theorem exec_lock_range_correct:
  assumes ww: "ww_lib ww held patience" and reach: "bo_reachable lib rv (g, w)" and h: "held (k_ww (w_env w)) = {}"
    and fuel: "patience (k_ww (w_env w)) + 1 < fuel" and core: "vm_core (vm_base (w_vm w (ve_vm ve)))" and r: "addr < addr + rng"
    and objs: "\<And>a. a \<in> set (rb_list (vm_base (w_vm w (ve_vm ve)))) \<Longrightarrow> overlaps addr (addr + rng) a \<Longrightarrow> gem_obj a \<noteq> None"
  shows "\<exists>ret exec w'. drm_gpuvm_exec_lock_range fuel ww rv ve addr rng w = Some (ret, exec, w') \<and>
     (ret = 0 \<longrightarrow> (\<forall>a obj. a \<in> set (rb_list (vm_base (w_vm w (ve_vm ve)))) \<and> overlaps addr (addr + rng) a \<and> gem_obj a = Some obj \<longrightarrow>
           rv obj \<in> held (k_ww (w_env w'))) \<and>
        held (k_ww (w_env (drm_gpuvm_exec_unlock ww rv (exec, w')))) = {} \<and> bo_inv rv g (drm_gpuvm_exec_unlock ww rv (exec, w'))) \<and>
     (ret \<noteq> 0 \<longrightarrow> held (k_ww (w_env w')) = {} \<and> bo_inv rv g w')"
proof -
  note lib = vm_execI [OF ww, of rv g w]
  have inv: "bo_inv rv g w" using bo_reachable_inv [OF reach] by simp
  note un = vm_exec.unlock_good [OF lib [OF inv]]
  from vm_exec.exec_lock_range_result [OF lib [OF inv] h fuel refl core r objs]
  obtain ret exec w' where l: "drm_gpuvm_exec_lock_range fuel ww rv ve addr rng w = Some (ret, exec, w')"
    and ok: "ret = 0 \<longrightarrow> exec_client.good held rv fst (\<lambda>x. w_env (snd x)) (\<lambda>x. vm_rel rv g (ve_vm ve) w (snd x)) (k_refs (w_env w)) (exec, w') \<and>
       rv ` set (range_objs (vm_base (w_vm w (ve_vm ve))) addr rng) \<subseteq> held (k_ww (w_env w'))"
    and err: "ret \<noteq> 0 \<longrightarrow> held (k_ww (w_env w')) = {} \<and> bo_inv rv g w'" by blast
  show ?thesis
  proof (cases "ret = 0")
    case True
    with ok have g: "exec_client.good held rv fst (\<lambda>x. w_env (snd x)) (\<lambda>x. vm_rel rv g (ve_vm ve) w (snd x)) (k_refs (w_env w)) (exec, w')"
      and s: "rv ` set (range_objs (vm_base (w_vm w (ve_vm ve))) addr rng) \<subseteq> held (k_ww (w_env w'))" by blast+
    have "\<forall>a obj. a \<in> set (rb_list (vm_base (w_vm w (ve_vm ve)))) \<and> overlaps addr (addr + rng) a \<and> gem_obj a = Some obj \<longrightarrow>
        rv obj \<in> held (k_ww (w_env w'))" using s unfolding range_objs_set [OF core r] by force
    then show ?thesis using l True un [OF g] by simp
  qed (use l err in simp)
qed

text \<open>The address space of \<open>ex_vm\<close>, of which the driver holds the references.\<close>

definition ex_mapped :: "bo_holds \<times> plain_ww bo_world" where
  "ex_mapped = (\<lparr>h_bo = (\<lambda>_. 0), h_vm = (\<lambda>_. 3), h_gem = (\<lambda>_. 1)\<rparr>,
     \<lparr>w_env = ex_env, w_next = 1, w_bos = (\<lambda>_. None), w_gem = (\<lambda>_. []),
      w_vm = (\<lambda>_. \<lparr>vm_base = ex_vm, r_obj = 0, extobj_local = None, evict_local = None\<rparr>), w_va_bo = (\<lambda>_. None)\<rparr>)"

lemma ex_mapped_reachable: "bo_reachable lib rv ex_mapped"
proof (rule bo_reachable.start)
  have "get_list name \<lparr>vm_base = ex_vm, r_obj = 0, extobj_local = None, evict_local = None\<rparr> = [] \<and>
        get_local name \<lparr>vm_base = ex_vm, r_obj = 0, extobj_local = None, evict_local = None\<rparr> = None" for name
    by (cases name) (simp_all add: ex_vm_def)
  then show "bo_start ex_mapped" by (simp add: bo_start_def ex_mapped_def base_ok_def ex_env_def) (simp add: ex_vm_def ex_k_def)
qed

theorem exec_lock_range_correct_witness:
  "\<exists>exec w'. drm_gpuvm_exec_lock_range 5 plain_ops id ex_ve 0x2000 0x4000 (snd ex_mapped) = Some (0, exec, w') \<and>
     {7, 8} \<subseteq> set (pw_held (k_ww (w_env w'))) \<and> bo_inv id (fst ex_mapped) (drm_gpuvm_exec_unlock plain_ops id (exec, w'))"
proof -
  have c: "vm_core ex_vm" using ex_vm_inv by (simp add: vm_inv_def)
  have v: "vm_base (w_vm (snd ex_mapped) 3) = ex_vm" "w_env (snd ex_mapped) = ex_env" by (simp_all add: ex_mapped_def)
  have "map_option fst (drm_gpuvm_exec_lock_range 5 plain_ops id ex_ve 0x2000 0x4000 (snd ex_mapped)) = Some 0" by code_simp
  then obtain exec w' where l: "drm_gpuvm_exec_lock_range 5 plain_ops id ex_ve 0x2000 0x4000 (snd ex_mapped) = Some (0, exec, w')" by auto
  have r: "bo_reachable (plain_lib GPUVA_LAST) id (fst ex_mapped, snd ex_mapped)" using ex_mapped_reachable by simp
  have o: "ex_a \<in> set (rb_list ex_vm)" "ex_b \<in> set (rb_list ex_vm)" "overlaps 0x2000 (0x2000 + 0x4000) ex_a" "overlaps 0x2000 (0x2000 + 0x4000) ex_b"
    "gem_obj ex_a = Some 7" "gem_obj ex_b = Some 8" by (simp_all add: ex_defs overlaps_def va_end_def)
  have "\<And>a. a \<in> set (rb_list ex_vm) \<Longrightarrow> overlaps 0x2000 (0x2000 + 0x4000) a \<Longrightarrow> gem_obj a \<noteq> None"
    by (auto simp: ex_defs overlaps_def va_end_def)
  with exec_lock_range_correct [OF plain.ww_lib_axioms r, of 5 ex_ve "0x2000" "0x4000"] c v l o show ?thesis
    by (simp add: ex_ve_def ex_env_def)
qed

text \<open>
  After a successful lock of the address space, \<open>drm_gpuvm_resv_add_fence\<close> adds the fence once to every locked reservation object: to
  that of the address space with the private usage, to all others with the usage for external objects.
\<close>

theorem fence_on_locked:
  assumes ww: "ww_lib ww held patience" and reach: "bo_reachable lib rv (g, w)" and h: "held (k_ww (w_env w)) = {}"
    and fuel: "patience (k_ww (w_env w)) + 1 < fuel" and lock: "drm_gpuvm_exec_lock_array fuel lib ww rv ve objs w = Some (0, exec, w1)"
  shows "\<exists>new. w_env (drm_gpuvm_resv_add_fence add_fence rv (ve_vm ve) fence private_usage extobj_usage (exec, w1)) =
       fold (\<lambda>(r, usage). on_ww (add_fence r fence usage)) new (w_env w1) \<and>
     distinct (map fst new) \<and> set (map fst new) = held (k_ww (w_env w1)) \<and> rv (r_obj (w_vm w (ve_vm ve))) \<in> set (map fst new) \<and>
     (\<forall>(r, usage) \<in> set new. usage = (if r = rv (r_obj (w_vm w (ve_vm ve))) then private_usage else extobj_usage))"
proof -
  let ?v = "ve_vm ve"
  have inv: "bo_inv rv g w" using bo_reachable_inv [OF reach] by simp
  note lib = vm_execI [OF ww inv]
  from vm_exec.exec_lock_array_result [OF lib h fuel refl, where ve = ve and lib = lib and objs = objs] lock
  have g: "exec_client.good held rv fst (\<lambda>x. w_env (snd x)) (\<lambda>x. vm_rel rv g ?v w (snd x)) (k_refs (w_env w)) (exec, w1)"
    and r: "rv (r_obj (w_vm w ?v)) \<in> held (k_ww (w_env w1))" by auto
  note d = vm_exec.good_distinct [OF lib g] and hl = vm_exec.unlock_good(3) [OF lib g]
  have "vm_rel rv g ?v w w1" using vm_exec.good_rel [OF lib g] by simp
  then have ro: "r_obj (w_vm w1 ?v) = r_obj (w_vm w ?v)" by (rule vm_relD(3))
  define new where "new = map (\<lambda>obj. (rv obj, if drm_gpuvm_is_extobj rv (w_vm w1 ?v) obj then extobj_usage else private_usage)) (objects exec)"
  have "w_env (drm_gpuvm_resv_add_fence add_fence rv ?v fence private_usage extobj_usage (exec, w1)) =
      fold (\<lambda>(r, usage). on_ww (add_fence r fence usage)) new (w_env w1)"
    by (simp add: drm_gpuvm_resv_add_fence_def new_def fold_map comp_def)
  moreover have m: "map fst new = map rv (objects exec)" by (simp add: new_def comp_def)
  moreover have "\<forall>(r, usage) \<in> set new. usage = (if r = rv (r_obj (w_vm w ?v)) then private_usage else extobj_usage)"
    by (auto simp: new_def drm_gpuvm_is_extobj_def ro)
  moreover have "fst ` set new = rv ` set (objects exec)" using arg_cong [OF m, of set] by simp
  ultimately show ?thesis using d hl r by (intro exI [of _ new]) simp
qed

theorem fence_on_locked_witness:
  "\<exists>exec w1 new. drm_gpuvm_exec_lock_array 5 (plain_lib GPUVA_LAST) plain_ops id ex_ve [7] (snd ex_external) = Some (0, exec, w1) \<and>
     w_env (drm_gpuvm_resv_add_fence (\<lambda>r f u w. w) id 3 () ''private'' ''extobj'' (exec, w1)) =
       fold (\<lambda>(r, usage). on_ww (\<lambda>w. w)) new (w_env w1) \<and> distinct (map fst new) \<and> (0::nat, ''private'') \<in> set new"
proof -
  have e: "w_env (snd ex_external) = w_env (snd ex_obtained)" "pw_held (k_ww (w_env (snd ex_obtained))) = []"
    "length (pw_script (k_ww (w_env (snd ex_obtained)))) = 3" "r_obj (w_vm (snd ex_external) 3) = 0"
    by (rule ex_external_env) code_simp+
  have r: "bo_reachable (plain_lib GPUVA_LAST) id (fst ex_external, snd ex_external)" using ex_external_reachable by simp
  obtain exec w' where "drm_gpuvm_exec_lock_array 5 (plain_lib GPUVA_LAST) plain_ops id ex_ve [7] (snd ex_external) = Some (0, exec, w')"
    using ex_locked by auto
  note l = this
  have v: "ve_vm ex_ve = 3" by (simp add: ex_ve_def)
  have i: "id (r_obj (w_vm (snd ex_external) 3)) = 0" by (simp add: e)
  have a: "set (pw_held (k_ww (w_env (snd ex_external)))) = {}" "length (pw_script (k_ww (w_env (snd ex_external)))) + 1 < 5"
    by (simp_all add: e)
  from fence_on_locked [OF plain.ww_lib_axioms r a l, where add_fence = "\<lambda>r f u w. w" and fence = "()"
      and private_usage = "''private''" and extobj_usage = "''extobj''", unfolded v i]
  obtain new where n: "w_env (drm_gpuvm_resv_add_fence (\<lambda>r f u w. w) id 3 () ''private'' ''extobj'' (exec, w')) =
       fold (\<lambda>(r, usage). on_ww (\<lambda>w. w)) new (w_env w')" "distinct (map fst new)" "0 \<in> set (map fst new)"
    "\<forall>(r, usage) \<in> set new. usage = (if r = (0::nat) then ''private'' else ''extobj'')"
    by blast
  from n(3) obtain u where u: "(0, u) \<in> set new" by auto
  from bspec [OF n(4) u] have "u = ''private''" by simp
  then show ?thesis using n(1,2) l u by blast
qed

end
