(* ===== verification/GPUVM_Validate.thy ===== *)
theory GPUVM_Validate
  imports GPUVM_Lock
begin

text \<open>
  Validation of evicted objects, from \<^theory_text>\<open>GPUVM_Exec\<close>: the contract of the driver's callback as a locale, the loops of both locking
  schemes, the invariant that evicted objects are known to their address space, and that locking followed by validation leaves no
  object evicted.
\<close>

section \<open>Validation\<close>

definition clear_evicted :: "nat \<Rightarrow> 'w bo_world \<Rightarrow> 'w bo_world" where
  "clear_evicted p w = w\<lparr>w_bos := (w_bos w)(p := map_option (\<lambda>bo. bo\<lparr>bo_evicted := False\<rparr>) (w_bos w p))\<rparr>"

definition only_cleared :: "'w bo_world \<Rightarrow> 'w bo_world \<Rightarrow> bool" where
  "only_cleared w w' \<longleftrightarrow> (\<forall>p. w_bos w' p = w_bos w p \<or> w_bos w' p = map_option (\<lambda>bo. bo\<lparr>bo_evicted := False\<rparr>) (w_bos w p))"

text \<open>
  The contract of the driver's \<open>vm_bo_validate\<close>: on success the object is no longer evicted, because the callback clears the
  flag itself (as that of xe does) or through \<open>drm_gpuvm_bo_evict\<close>, which also takes it off the list; apart from
  that it changes the environment and the execution context only.
\<close>

locale validate_hook =
  fixes f :: "nat \<Rightarrow> drm_exec \<times> 'w bo_world \<Rightarrow> (int \<times> drm_exec \<times> 'w bo_world) option"
  assumes hook: "w_bos w p = Some bo \<Longrightarrow> 0 < bo_kref bo \<Longrightarrow> \<exists>ret e env d. f p (exec, w) = Some (ret, e,
    (if ret \<noteq> 0 then w else if d then on_vm (bo_vm bo) (raw_drm_gpuvm_bo_list_del Evict p) (clear_evicted p w) else clear_evicted p w)
      \<lparr>w_env := env\<rparr>)"

lemma clear_simps [simp]:
  "w_vm (clear_evicted p w) = w_vm w" "w_bos (clear_evicted p w) = (w_bos w)(p := map_option (\<lambda>bo. bo\<lparr>bo_evicted := False\<rparr>) (w_bos w p))"
  "(clear_evicted p w)\<lparr>w_env := e\<rparr> = clear_evicted p (w\<lparr>w_env := e\<rparr>)"
  by (simp_all add: clear_evicted_def)

lemma only_cleared_refl [simp]: "only_cleared w w" "only_cleared w (w\<lparr>w_env := e\<rparr>)" "only_cleared w (clear_evicted p w)"
  "only_cleared w w' \<Longrightarrow> only_cleared w (on_vm v h w')" "only_cleared w (w'\<lparr>w_env := e\<rparr>) = only_cleared w w'"
  "only_cleared w (clear_evicted p (w\<lparr>w_env := e\<rparr>))"
  by (auto simp: only_cleared_def)

lemma only_cleared_trans: "only_cleared w w' \<Longrightarrow> only_cleared w' w'' \<Longrightarrow> only_cleared w w''"
proof -
  have i: "map_option (\<lambda>bo. bo\<lparr>bo_evicted := False\<rparr>) (map_option (\<lambda>bo. bo\<lparr>bo_evicted := False\<rparr>) x) = map_option (\<lambda>bo. bo\<lparr>bo_evicted := False\<rparr>) x"
    for x :: "drm_gpuvm_bo option" by (cases x) simp_all
  assume "only_cleared w w'" "only_cleared w' w''"
  then show ?thesis unfolding only_cleared_def using i by metis
qed

lemma clear_evicted_inv:
  assumes inv: "bo_inv rv g w" and bo: "w_bos w p = Some bo" "0 < bo_kref bo"
  shows "bo_inv rv g (clear_evicted p w)"
proof -
  have k: "bo_kref bo = h_bo g p + length (bo_gpuva bo)" using inv bo inv_heapD by (fastforce simp: bo_inv_defs)
  have "bo_inv rv (g\<lparr>h_bo := (h_bo g)(p := h_bo g p)\<rparr>) (set_bo p (bo\<lparr>bo_evicted := False\<rparr>) w)"
    using bo k by (intro live_inv [OF inv bo(1)]) auto
  moreover have "set_bo p (bo\<lparr>bo_evicted := False\<rparr>) w = clear_evicted p w" using bo by (simp add: set_bo_def clear_evicted_def)
  ultimately show ?thesis by simp
qed

lemma evict_elem:
  assumes "bo_inv rv g (w\<lparr>w_env := e\<rparr>)" and "p \<in> set (evict_list (vm_base (w_vm w v)))"
  obtains bo where "w_bos w p = Some bo" and "bo_vm bo = v" and "bo_kref bo = 0 \<Longrightarrow> drm_gpuvm_resv_protected (w_vm w v)"
proof -
  have "list_elem_ok rv Evict v (w_vm w v) (bo_info (w_bos w) p)" using assms by (simp add: bo_inv_defs inv_lists_def)
  then show thesis using that by (auto simp: list_elem_ok_def bo_info_def split: option.splits)
qed

lemma evict_distinct: "bo_inv rv g (w\<lparr>w_env := e\<rparr>) \<Longrightarrow> distinct (evict_list (vm_base (w_vm w v)))"
proof -
  assume "bo_inv rv g (w\<lparr>w_env := e\<rparr>)"
  then have "distinct (get_list Evict (w_vm w v))" by (simp add: bo_inv_defs inv_lists_def del: get_list.simps)
  then show ?thesis by simp
qed

lemma next_entry_split: "p \<notin> set pre \<Longrightarrow> next_entry p (pre @ p # r) = Some (opt_hd r)"
proof -
  assume "p \<notin> set pre"
  then have "dropWhile (\<lambda>q. q \<noteq> p) (pre @ p # r) = p # r" by (subst dropWhile_append2) auto
  then show ?thesis by (cases r) (simp_all add: next_entry_def opt_hd_def)
qed

lemma list_del_evict:
  "get_local Evict vm = None \<Longrightarrow> evict_list (vm_base (raw_drm_gpuvm_bo_list_del Evict p vm)) = remove1 p (evict_list (vm_base vm))"
  by (simp add: raw_drm_gpuvm_bo_list_del_def)

lemma inv_local: "bo_inv rv g (w\<lparr>w_env := e\<rparr>) \<Longrightarrow> get_local name (w_vm w v) = None"
  by (simp add: bo_inv_defs inv_lists_def)

lemma kref_evicted: "bo\<lparr>bo_kref := k, bo_evicted := e\<rparr> = bo\<lparr>bo_evicted := e, bo_kref := k\<rparr>" for bo :: drm_gpuvm_bo
  by (cases bo) simp

context validate_hook
begin

lemma validate_locked_step:
  assumes inv: "bo_inv rv g (w\<lparr>w_env := env0\<rparr>)" and ev: "evict_list (vm_base (w_vm w v)) = pre @ p # r"
    and bo: "w_bos w p = Some bo" "0 < bo_kref bo"
  obtains ret e w1 w2 where "f p (exec, w) = Some (ret, e, w1)"
    and "bo_inv rv g (w1\<lparr>w_env := env0\<rparr>)" and "only_cleared w w1"
    and "ret = 0 \<Longrightarrow> w_bos w1 p = Some (bo\<lparr>bo_evicted := False\<rparr>)"
    and "w2 = on_vm v (raw_drm_gpuvm_bo_list_del Evict p) w1" and "bo_inv rv g (w2\<lparr>w_env := env0\<rparr>)"
    and "evict_list (vm_base (w_vm w2 v)) = pre @ r"
proof -
  have v: "bo_vm bo = v" using evict_elem [OF inv, of p v] ev bo by auto
  have d: "p \<notin> set pre" "p \<notin> set r" using evict_distinct [OF inv, of v] ev by auto
  have lo: "get_local Evict (w_vm w v) = None" by (rule inv_local [OF inv])
  from hook [OF bo, of exec] obtain ret e env del where
    f: "f p (exec, w) = Some (ret, e, (if ret \<noteq> 0 then w else if del then on_vm v (raw_drm_gpuvm_bo_list_del Evict p) (clear_evicted p w)
        else clear_evicted p w)\<lparr>w_env := env\<rparr>)" unfolding v by blast
  define w1 where "w1 = (if ret \<noteq> 0 then w else if del then on_vm v (raw_drm_gpuvm_bo_list_del Evict p) (clear_evicted p w)
        else clear_evicted p w)\<lparr>w_env := env\<rparr>"
  define w2 where "w2 = on_vm v (raw_drm_gpuvm_bo_list_del Evict p) w1"
  have c: "bo_inv rv g ((clear_evicted p w)\<lparr>w_env := env0\<rparr>)" using clear_evicted_inv [OF inv, of p bo] bo by simp
  have o: "(on_vm v h u)\<lparr>w_env := x\<rparr> = on_vm v h (u\<lparr>w_env := x\<rparr>)" for h u and x :: "'w kenv" by (simp add: on_vm_def)
  have i1: "bo_inv rv g (w1\<lparr>w_env := env0\<rparr>)"
    using inv c list_del_inv [OF c, of v Evict p] by (auto simp: w1_def o)
  have i2: "bo_inv rv g (w2\<lparr>w_env := env0\<rparr>)" using list_del_inv [OF i1, of v Evict p] by (simp add: w2_def o)
  have "get_local Evict (w_vm w1 v) = None" by (rule inv_local [OF i1])
  then have e2: "evict_list (vm_base (w_vm w2 v)) = pre @ r" using ev d lo
    by (auto simp: w2_def w1_def list_del_evict remove1_append remove1_idem)
  show thesis
    by (rule that [OF f [folded w1_def] i1 _ _ w2_def i2 e2]) (auto simp: w1_def bo only_cleared_refl)
qed

lemma validate_locked_spec:
  assumes "bo_inv rv g (w\<lparr>w_env := env0\<rparr>)" and "evict_list (vm_base (w_vm w v)) = pre @ r" and "length r < fuel"
  shows "\<exists>ret e w'. validate_locked_loop fuel f v (opt_hd r) (exec, w) = Some (ret, e, w') \<and> bo_inv rv g (w'\<lparr>w_env := env0\<rparr>) \<and>
     only_cleared w w' \<and> (ret = 0 \<longrightarrow> evict_list (vm_base (w_vm w' v)) = pre @ filter (\<lambda>p. map_option bo_kref (w_bos w p) = Some 0) r \<and>
       (\<forall>p \<in> set r. \<forall>bo. w_bos w' p = Some bo \<and> 0 < bo_kref bo \<longrightarrow> \<not> bo_evicted bo))"
  using assms
proof (induction r arbitrary: pre fuel exec w)
  case Nil
  then show ?case by (cases fuel) (auto simp: opt_hd_def)
next
  case (Cons p r)
  from Cons.prems(3) obtain n where fuel: "fuel = Suc n" "length r < n" by (cases fuel) auto
  obtain bo where bo: "w_bos w p = Some bo" using evict_elem [OF Cons.prems(1), of p v] Cons.prems(2) by auto
  have d: "p \<notin> set pre" "p \<notin> set r" using evict_distinct [OF Cons.prems(1), of v] Cons.prems(2) by auto
  have nx: "next_entry p (evict_list (vm_base (w_vm w v))) = Some (opt_hd r)" by (simp add: Cons.prems(2) next_entry_split d)
  have keep: "\<forall>bo'. w_bos w' p = Some bo' \<and> 0 < bo_kref bo' \<longrightarrow> \<not> bo_evicted bo'"
    if "only_cleared u w'" "w_bos u p = Some b" "bo_kref b = 0 \<or> \<not> bo_evicted b" for u w' and b :: drm_gpuvm_bo
    using that unfolding only_cleared_def by (auto dest!: spec [of _ p])
  show ?case
  proof (cases "bo_kref bo = 0")
    case True
    have l: "evict_list (vm_base (w_vm w v)) = (pre @ [p]) @ r" using Cons.prems(2) by simp
    from Cons.IH [OF Cons.prems(1) l fuel(2), of exec] obtain ret e w' where
      "validate_locked_loop n f v (opt_hd r) (exec, w) = Some (ret, e, w')" "bo_inv rv g (w'\<lparr>w_env := env0\<rparr>)" "only_cleared w w'"
      "ret = 0 \<longrightarrow> evict_list (vm_base (w_vm w' v)) = (pre @ [p]) @ filter (\<lambda>p. map_option bo_kref (w_bos w p) = Some 0) r \<and>
       (\<forall>p \<in> set r. \<forall>bo. w_bos w' p = Some bo \<and> 0 < bo_kref bo \<longrightarrow> \<not> bo_evicted bo)" by blast
    then show ?thesis using True bo nx fuel keep [of w w' bo] by (simp add: opt_hd_def drm_gpuvm_bo_is_zombie_def)
  next
    case False
    then have b: "0 < bo_kref bo" by simp
    obtain ret e w1 w2 where f: "f p (exec, w) = Some (ret, e, w1)" and i1: "bo_inv rv g (w1\<lparr>w_env := env0\<rparr>)" and c1: "only_cleared w w1"
      and z: "ret = 0 \<Longrightarrow> w_bos w1 p = Some (bo\<lparr>bo_evicted := False\<rparr>)" and w2: "w2 = on_vm v (raw_drm_gpuvm_bo_list_del Evict p) w1"
      and i2: "bo_inv rv g (w2\<lparr>w_env := env0\<rparr>)" and e2: "evict_list (vm_base (w_vm w2 v)) = pre @ r"
      by (rule validate_locked_step [OF Cons.prems(1,2) bo b, of exec]) blast
    show ?thesis
    proof (cases "ret = 0")
      case err: False
      then show ?thesis using f i1 c1 False bo nx fuel by (simp add: opt_hd_def drm_gpuvm_bo_is_zombie_def)
    next
      case True
      have v: "bo_vm bo = v" using evict_elem [OF Cons.prems(1), of p v] Cons.prems(2) bo by auto
      from Cons.IH [OF i2 e2 fuel(2), of e] obtain ret' e' w' where
        l: "validate_locked_loop n f v (opt_hd r) (e, w2) = Some (ret', e', w')" "bo_inv rv g (w'\<lparr>w_env := env0\<rparr>)" "only_cleared w2 w'"
        "ret' = 0 \<longrightarrow> evict_list (vm_base (w_vm w' v)) = pre @ filter (\<lambda>p. map_option bo_kref (w_bos w2 p) = Some 0) r \<and>
         (\<forall>p \<in> set r. \<forall>bo. w_bos w' p = Some bo \<and> 0 < bo_kref bo \<longrightarrow> \<not> bo_evicted bo)" by blast
      have k: "map_option bo_kref (w_bos w2 q) = map_option bo_kref (w_bos w q)" for q
        using c1 unfolding only_cleared_def w2 by (auto dest!: spec [of _ q] simp: option.map_comp comp_def)
      have c: "only_cleared w w'" using only_cleared_trans [OF _ l(3), of w] c1 by (simp add: w2)
      have "\<forall>bo'. w_bos w' p = Some bo' \<and> 0 < bo_kref bo' \<longrightarrow> \<not> bo_evicted bo'"
        by (rule keep [OF l(3), of "bo\<lparr>bo_evicted := False\<rparr>"]) (use z True in \<open>simp_all add: w2\<close>)
      then show ?thesis using l(1-3) l(4) [unfolded k] c f False True bo z v nx fuel
        by (simp add: opt_hd_def drm_gpuvm_bo_is_zombie_def w2)
    qed
  qed
qed

lemma validate_unlocked_step:
  assumes inv: "bo_inv rv g (w\<lparr>w_env := env0\<rparr>)" and ev: "evict_list (vm_base (w_vm w v)) = l @ q # r"
    and bo: "w_bos w q = Some bo" "0 < bo_kref bo"
  obtains ret e l1 w1 where "f q (exec, iter_world Evict v (l @ [q]) r (Some q) w) = Some (ret, e, iter_world Evict v l1 r (Some q) w1)"
    and "bo_inv rv g (w1\<lparr>w_env := env0\<rparr>)" and "evict_list (vm_base (w_vm w1 v)) = l1 @ r" and "only_cleared w w1"
    and "ret = 0 \<Longrightarrow> w_bos w1 q = Some (bo\<lparr>bo_evicted := False\<rparr>)"
proof -
  let ?i = "iter_world Evict v (l @ [q]) r (Some q)"
  have v: "bo_vm bo = v" using evict_elem [OF inv, of q v] ev bo by auto
  have d: "q \<notin> set l" "q \<notin> set r" using evict_distinct [OF inv, of v] ev by auto
  have lo: "get_local Evict (w_vm w v) = None" by (rule inv_local [OF inv])
  have bi: "w_bos (?i w) q = Some (bo\<lparr>bo_kref := bo_kref bo + 1\<rparr>)" by (simp add: iter_world_def bump_def bo)
  have vi: "bo_vm (bo\<lparr>bo_kref := bo_kref bo + 1\<rparr>) = v" "0 < bo_kref (bo\<lparr>bo_kref := bo_kref bo + 1\<rparr>)" by (simp_all add: v)
  from hook [OF bi vi(2), of exec] obtain ret e env del where
    f: "f q (exec, ?i w) = Some (ret, e, (if ret \<noteq> 0 then ?i w else if del then on_vm v (raw_drm_gpuvm_bo_list_del Evict q) (clear_evicted q (?i w))
        else clear_evicted q (?i w))\<lparr>w_env := env\<rparr>)" unfolding vi(1) by blast
  have c: "bo_inv rv g ((clear_evicted q w)\<lparr>w_env := env0\<rparr>)" using clear_evicted_inv [OF inv, of q bo] bo by simp
  have ci: "clear_evicted q (?i w) = ?i (clear_evicted q w)"
    by (rule bo_world.equality) (simp_all add: iter_world_def clear_evicted_def bump_def on_vm_def bo kref_evicted)
  have o: "(on_vm v h u)\<lparr>w_env := x\<rparr> = on_vm v h (u\<lparr>w_env := x\<rparr>)" for h u and x :: "'w kenv" by (simp add: on_vm_def)
  let ?d = "on_vm v (raw_drm_gpuvm_bo_list_del Evict q) (clear_evicted q w)"
  have id: "bo_inv rv g (?d\<lparr>w_env := env0\<rparr>)" using list_del_inv [OF c, of v Evict q] by (simp add: o)
  have ed: "evict_list (vm_base (w_vm ?d v)) = l @ r" using ev d lo by (simp add: list_del_evict remove1_append)
  have di: "on_vm v (raw_drm_gpuvm_bo_list_del Evict q) (clear_evicted q (?i w)) = iter_world Evict v l r (Some q) ?d"
    unfolding ci using d lo
    by (simp add: iter_world_def on_vm_comp comp_def raw_drm_gpuvm_bo_list_del_def remove1_append remove1_idem)
  consider "ret \<noteq> 0" | "ret = 0" "del" | "ret = 0" "\<not> del" by blast
  then show thesis
  proof cases
    case 1
    then show thesis using that [of ret e "l @ [q]" "w\<lparr>w_env := env\<rparr>"] f inv ev by (simp add: iter_env)
  next
    case 2
    then show thesis using that [of 0 e l "?d\<lparr>w_env := env\<rparr>"] f id ed bo unfolding di by (simp add: iter_env)
  next
    case 3
    then show thesis using that [of 0 e "l @ [q]" "(clear_evicted q w)\<lparr>w_env := env\<rparr>"] f c ev bo unfolding ci by (simp add: iter_env)
  qed
qed

lemma for_each_validate:
  assumes "bo_inv rv g (w\<lparr>w_env := env0\<rparr>)" and "evict_list (vm_base (w_vm w v)) = l @ r" and "length r < fuel"
    and "\<forall>p \<in> set r. \<exists>bo. w_bos w p = Some bo \<and> 0 < bo_kref bo" and "\<forall>p. cur = Some p \<longrightarrow> (\<exists>bo. w_bos w p = Some bo \<and> 0 < bo_kref bo)"
  shows "\<exists>ret cur' e l' r' w'. for_each_vm_bo_in_list fuel lib Evict v f cur (exec, iter_world Evict v l r cur w) =
       Some (ret, cur', e, iter_world Evict v l' r' cur' w') \<and> bo_inv rv g (w'\<lparr>w_env := env0\<rparr>) \<and>
     evict_list (vm_base (w_vm w' v)) = l' @ r' \<and> only_cleared w w' \<and>
     (\<forall>p. cur' = Some p \<longrightarrow> (\<exists>bo. w_bos w' p = Some bo \<and> 0 < bo_kref bo)) \<and>
     (ret = 0 \<longrightarrow> (\<forall>p \<in> set r. \<forall>bo. w_bos w' p = Some bo \<longrightarrow> \<not> bo_evicted bo))"
  using assms
proof (induction r arbitrary: l fuel exec w cur)
  case Nil
  from Nil.prems(3) obtain n where fuel: "fuel = Suc n" by (cases fuel) auto
  have "get_next_vm_bo_from_list lib Evict v cur (iter_world Evict v l [] cur w) = Some (None, iter_world Evict v l [] None w)"
    using Nil.prems(5) by (subst get_next_iter) (auto simp: all_live_def)
  then have "for_each_vm_bo_in_list fuel lib Evict v f cur (exec, iter_world Evict v l [] cur w) = Some (0, None, exec, iter_world Evict v l [] None w)"
    using fuel by simp
  then show ?case using Nil.prems(1,2)
    by - (rule exI [of _ 0], rule exI [of _ None], rule exI [of _ exec], rule exI [of _ l], rule exI [of _ "[]"], rule exI [of _ w], simp)
next
  case (Cons q r)
  from Cons.prems(3) obtain n where fuel: "fuel = Suc n" "length r < n" by (cases fuel) auto
  have g: "get_next_vm_bo_from_list lib Evict v cur (iter_world Evict v l (q # r) cur w) = Some (Some q, iter_world Evict v (l @ [q]) r (Some q) w)"
    using Cons.prems(4,5) by (subst get_next_iter) (auto simp: all_live_def)
  from Cons.prems(4) obtain bo where bo: "w_bos w q = Some bo" "0 < bo_kref bo" by auto
  obtain ret e l1 w1 where f: "f q (exec, iter_world Evict v (l @ [q]) r (Some q) w) = Some (ret, e, iter_world Evict v l1 r (Some q) w1)"
    and i1: "bo_inv rv g (w1\<lparr>w_env := env0\<rparr>)" and e1: "evict_list (vm_base (w_vm w1 v)) = l1 @ r" and c1: "only_cleared w w1"
    and z: "ret = 0 \<Longrightarrow> w_bos w1 q = Some (bo\<lparr>bo_evicted := False\<rparr>)"
    by (rule validate_unlocked_step [OF Cons.prems(1,2) bo, of exec]) blast
  have live: "\<exists>bo. w_bos w1 p = Some bo \<and> 0 < bo_kref bo" if "\<exists>bo. w_bos w p = Some bo \<and> 0 < bo_kref bo" for p
    using c1 that unfolding only_cleared_def by (auto dest!: spec [of _ p])
  show ?case
  proof (cases "ret = 0")
    case False
    have "\<forall>p. Some q = Some p \<longrightarrow> (\<exists>bo. w_bos w1 p = Some bo \<and> 0 < bo_kref bo)" using live bo by blast
    then show ?thesis using False f g fuel i1 e1 c1 by auto
  next
    case True
    have l1: "\<forall>p \<in> set r. \<exists>bo. w_bos w1 p = Some bo \<and> 0 < bo_kref bo" using live Cons.prems(4) by simp
    have l2: "\<forall>p. Some q = Some p \<longrightarrow> (\<exists>bo. w_bos w1 p = Some bo \<and> 0 < bo_kref bo)" using live bo by blast
    from Cons.IH [OF i1 e1 fuel(2) l1 l2, of e] obtain ret' cur' e' l' r' w' where
      o: "for_each_vm_bo_in_list n lib Evict v f (Some q) (e, iter_world Evict v l1 r (Some q) w1) =
         Some (ret', cur', e', iter_world Evict v l' r' cur' w')" and i': "bo_inv rv g (w'\<lparr>w_env := env0\<rparr>)"
      "evict_list (vm_base (w_vm w' v)) = l' @ r'" and c': "only_cleared w1 w'"
      and t: "\<forall>p. cur' = Some p \<longrightarrow> (\<exists>bo. w_bos w' p = Some bo \<and> 0 < bo_kref bo)"
      "ret' = 0 \<longrightarrow> (\<forall>p \<in> set r. \<forall>bo. w_bos w' p = Some bo \<longrightarrow> \<not> bo_evicted bo)" by blast
    have "\<forall>bo. w_bos w' q = Some bo \<longrightarrow> \<not> bo_evicted bo"
      using c' z [OF True] unfolding only_cleared_def by (auto dest!: spec [of _ q])
    moreover have "for_each_vm_bo_in_list fuel lib Evict v f cur (exec, iter_world Evict v l (q # r) cur w) =
         Some (ret', cur', e', iter_world Evict v l' r' cur' w')" using fuel g f True o by simp
    ultimately show ?thesis using i' only_cleared_trans [OF c1 c'] t
      by - (rule exI [of _ ret'], rule exI [of _ cur'], rule exI [of _ e'], rule exI [of _ l'], rule exI [of _ r'], rule exI [of _ w'], simp)
  qed
qed

lemma validate_spec:
  assumes inv: "bo_inv rv g (w\<lparr>w_env := env0\<rparr>)" and fuel: "length (evict_list (vm_base (w_vm w v))) < fuel"
  shows "\<exists>ret e w'. drm_gpuvm_validate fuel lib (Some f) v (exec, w) = Some (ret, e, w') \<and> bo_inv rv g (w'\<lparr>w_env := env0\<rparr>) \<and>
     only_cleared w w' \<and>
     (ret = 0 \<longrightarrow> (\<forall>p \<in> set (evict_list (vm_base (w_vm w v))). \<forall>bo. w_bos w' p = Some bo \<and> 0 < bo_kref bo \<longrightarrow> \<not> bo_evicted bo))"
proof (cases "drm_gpuvm_resv_protected (w_vm w v)")
  case True
  have e: "(case xs of [] \<Rightarrow> None | p # _ \<Rightarrow> Some p) = opt_hd xs" for xs :: "nat list" by (simp add: opt_hd_def split: list.split)
  from validate_locked_spec [OF inv, of v "[]" _ fuel exec] fuel show ?thesis
    by (fastforce simp: True drm_gpuvm_validate_def drm_gpuvm_validate_locked_def e)
next
  case False
  let ?xs = "evict_list (vm_base (w_vm w v))"
  have lo: "get_local Evict (w_vm w v) = None" by (rule inv_local [OF inv])
  have live: "\<forall>p \<in> set ?xs. \<exists>bo. w_bos w p = Some bo \<and> 0 < bo_kref bo"
    using evict_elem [OF inv] False by blast
  obtain n where n: "fuel = Suc n" using fuel by (cases fuel) auto
  have start: "for_each_vm_bo_in_list fuel lib Evict v f None (exec, w) =
      for_each_vm_bo_in_list fuel lib Evict v f None (exec, iter_world Evict v [] ?xs None w)"
    unfolding n for_each_vm_bo_in_list.simps get_next_start [OF lo] by simp
  from for_each_validate [OF inv, of v "[]" ?xs fuel None lib exec] fuel live obtain ret cur' e l' r' w' where
    o: "for_each_vm_bo_in_list fuel lib Evict v f None (exec, iter_world Evict v [] ?xs None w) = Some (ret, cur', e, iter_world Evict v l' r' cur' w')"
    and i': "bo_inv rv g (w'\<lparr>w_env := env0\<rparr>)" and e': "evict_list (vm_base (w_vm w' v)) = l' @ r'" and c': "only_cleared w w'"
    and t: "\<forall>p. cur' = Some p \<longrightarrow> (\<exists>bo. w_bos w' p = Some bo \<and> 0 < bo_kref bo)"
      "ret = 0 \<longrightarrow> (\<forall>p \<in> set ?xs. \<forall>bo. w_bos w' p = Some bo \<longrightarrow> \<not> bo_evicted bo)" by auto
  have b: "iter_world Evict v l' r' cur' w' = bump cur' (iter_world Evict v l' r' None w')" by (simp add: iter_world_def)
  have "drm_gpuvm_bo_put lib cur' (iter_world Evict v l' r' cur' w') = Some (False, iter_world Evict v l' r' None w')"
    unfolding b by (rule bump_put) (use t(1) in \<open>simp add: iter_world_def\<close>)
  moreover have "on_vm v (restore_vm_bo_list Evict) (iter_world Evict v l' r' None w') = w'"
    by (rule restore_iter) (use e' inv_local [OF i'] in simp_all)
  ultimately have "drm_gpuvm_validate fuel lib (Some f) v (exec, w) = Some (ret, e, w')"
    using False o by (simp add: drm_gpuvm_validate_def raw_drm_gpuvm_validate_def start)
  then show ?thesis using i' c' t(2) by blast
qed

end

section \<open>The evicted objects are known\<close>

text \<open>
  An evicted object is on the list of evicted objects of its address space, unless it is external and the lists are
  protected by the reservation lock of the address space, which \<open>drm_gpuvm_bo_evict\<close> may not take.
\<close>

definition evict_ok :: "(nat \<Rightarrow> nat) \<Rightarrow> 'w bo_world \<Rightarrow> bool" where
  "evict_ok rv w \<longleftrightarrow> (\<forall>p bo. w_bos w p = Some bo \<and> 0 < bo_kref bo \<and> bo_evicted bo \<and>
     \<not> (drm_gpuvm_is_extobj rv (w_vm w (bo_vm bo)) (bo_obj bo) \<and> drm_gpuvm_resv_protected (w_vm w (bo_vm bo))) \<longrightarrow>
     p \<in> set (evict_list (vm_base (w_vm w (bo_vm bo)))))"

text \<open>A change of the world that marks no object as evicted and takes no live object off the list.\<close>

definition evict_keeps :: "'w bo_world \<Rightarrow> 'w bo_world \<Rightarrow> bool" where
  "evict_keeps w w' \<longleftrightarrow> (\<forall>v. r_obj (w_vm w' v) = r_obj (w_vm w v) \<and> vm_flags (vm_base (w_vm w' v)) = vm_flags (vm_base (w_vm w v))) \<and>
     (\<forall>p bo'. w_bos w' p = Some bo' \<and> 0 < bo_kref bo' \<and> bo_evicted bo' \<longrightarrow>
        (\<exists>bo. w_bos w p = Some bo \<and> 0 < bo_kref bo \<and> bo_evicted bo \<and> bo_vm bo = bo_vm bo' \<and> bo_obj bo = bo_obj bo' \<and>
           (p \<in> set (evict_list (vm_base (w_vm w (bo_vm bo)))) \<longrightarrow> p \<in> set (evict_list (vm_base (w_vm w' (bo_vm bo)))))))"

lemma evict_keeps_ok: "evict_keeps w w' \<Longrightarrow> evict_ok rv w \<Longrightarrow> evict_ok rv w'"
  unfolding evict_keeps_def evict_ok_def drm_gpuvm_is_extobj_def drm_gpuvm_resv_protected_def by metis

lemma evict_keeps_trans [trans]: "evict_keeps w w' \<Longrightarrow> evict_keeps w' w'' \<Longrightarrow> evict_keeps w w''"
  unfolding evict_keeps_def by metis

lemma evict_keeps_same: "w_bos w' = w_bos w \<Longrightarrow> w_vm w' = w_vm w \<Longrightarrow> evict_keeps w w'"
  by (auto simp: evict_keeps_def)

lemma evict_keeps_refl [simp]: "evict_keeps w w"
  by (rule evict_keeps_same) simp_all

lemma evict_keeps_on_vm:
  assumes "r_obj (h (w_vm w v)) = r_obj (w_vm w v)" and "vm_flags (vm_base (h (w_vm w v))) = vm_flags (vm_base (w_vm w v))"
    and "\<And>p. p \<in> set (evict_list (vm_base (w_vm w v))) \<Longrightarrow> bo_live w p \<Longrightarrow> p \<in> set (evict_list (vm_base (h (w_vm w v))))"
  shows "evict_keeps w (on_vm v h w)"
  using assms by (auto simp: evict_keeps_def bo_live_def)

lemma evict_keeps_set_bo:
  assumes "w_bos w p = Some bo" and "bo_vm bo' = bo_vm bo" and "bo_obj bo' = bo_obj bo" and "bo_evicted bo' \<Longrightarrow> bo_evicted bo"
    and "0 < bo_kref bo' \<Longrightarrow> 0 < bo_kref bo"
  shows "evict_keeps w (set_bo p bo' w)"
  using assms by (auto simp: evict_keeps_def)

lemma list_del_frame [simp]:
  "r_obj (raw_drm_gpuvm_bo_list_del name p vm) = r_obj vm" "vm_flags (vm_base (raw_drm_gpuvm_bo_list_del name p vm)) = vm_flags (vm_base vm)"
  using list_del_simps(4) [of vm name p] by (simp_all add: vm_frame_def)

lemma list_add_frame [simp]:
  "r_obj (raw_drm_gpuvm_bo_list_add name p vm) = r_obj vm" "vm_flags (vm_base (raw_drm_gpuvm_bo_list_add name p vm)) = vm_flags (vm_base vm)"
  using list_add_simps(3) [of vm name p] by (simp_all add: vm_frame_def)

lemma list_del_other: "q \<noteq> p \<Longrightarrow> q \<in> set (evict_list (vm_base (raw_drm_gpuvm_bo_list_del name p vm))) \<longleftrightarrow> q \<in> set (evict_list (vm_base vm))"
  by (cases name) (simp_all add: raw_drm_gpuvm_bo_list_del_def)

lemma list_add_other: "q \<in> set (evict_list (vm_base vm)) \<Longrightarrow> q \<in> set (evict_list (vm_base (raw_drm_gpuvm_bo_list_add name p vm)))"
  by (cases name) (simp_all add: raw_drm_gpuvm_bo_list_add_def)

lemma list_del_keeps:
  assumes "\<not> bo_live w p" shows "evict_keeps w (on_vm v (raw_drm_gpuvm_bo_list_del name p) w)"
proof (rule evict_keeps_on_vm)
  fix q assume q: "q \<in> set (evict_list (vm_base (w_vm w v)))" "bo_live w q"
  with assms have "q \<noteq> p" by blast
  with q show "q \<in> set (evict_list (vm_base (raw_drm_gpuvm_bo_list_del name p (w_vm w v))))" by (simp add: list_del_other)
qed simp_all

lemma list_add_keeps: "evict_keeps w (on_vm v (raw_drm_gpuvm_bo_list_add name p) w)"
  by (rule evict_keeps_on_vm) (simp_all add: list_add_other)

lemma WARN_keeps: "evict_keeps w (vm_WARN c v w)"
  unfolding vm_WARN_on_vm by (rule evict_keeps_on_vm) simp_all

lemma gpuvm_put_lists:
  "drm_gpuvm_put lib base = Some base' \<Longrightarrow> evict_list base' = evict_list base \<and> vm_flags base' = vm_flags base"
  by (auto simp: drm_gpuvm_put_def drm_gpuvm_free_def drm_gpuvm_fini_def raw_drm_gpuva_remove_def Let_def split: if_splits option.splits)

lemma bo_get_keeps: "drm_gpuvm_bo_get p w = Some w' \<Longrightarrow> evict_keeps w w'"
  by (auto simp: drm_gpuvm_bo_get_def split: bind_splits if_splits intro!: evict_keeps_set_bo)

lemma find_keeps: "drm_gpuvm_bo_find v obj w = Some (r, w') \<Longrightarrow> evict_keeps w w'"
  by (auto simp: drm_gpuvm_bo_find_def evict_keeps_same split: option.splits dest: bo_get_keeps)

lemma create_keeps: "drm_gpuvm_bo_create v obj w = (r, w') \<Longrightarrow> evict_keeps w w'"
  by (auto simp: drm_gpuvm_bo_create_def evict_keeps_def Let_def drm_gpuvm_get_def split: prod.splits bool.splits if_splits)

lemma gem_list_keeps: "evict_keeps w (gem_list_del obj p w)" "evict_keeps w (gem_list_add_tail obj p w)"
  by (auto intro: evict_keeps_same)

lemma destroy_not_in_lists_keeps: "drm_gpuvm_bo_destroy_not_in_lists lib p w = Some w' \<Longrightarrow> evict_keeps w w'"
proof -
  assume "drm_gpuvm_bo_destroy_not_in_lists lib p w = Some w'"
  then obtain bo base where bo: "w_bos w p = Some bo" and p: "drm_gpuvm_put lib (vm_base (w_vm w (bo_vm bo))) = Some base"
    and w': "w' = (on_vm (bo_vm bo) (\<lambda>vm. vm\<lparr>vm_base := base\<rparr>) (w\<lparr>w_bos := (w_bos w)(p := None)\<rparr>))
      \<lparr>w_env := drm_gem_object_put (Some (bo_obj bo)) (w_env w)\<rparr>"
    by (auto simp: drm_gpuvm_bo_destroy_not_in_lists_def split: bind_splits)
  have "evict_keeps w (w\<lparr>w_bos := (w_bos w)(p := None)\<rparr>)" by (auto simp: evict_keeps_def)
  also have "evict_keeps \<dots> (on_vm (bo_vm bo) (\<lambda>vm. vm\<lparr>vm_base := base\<rparr>) \<dots>)"
    by (rule evict_keeps_on_vm) (use gpuvm_put_lists [OF p] in simp_all)
  also have "evict_keeps \<dots> w'" unfolding w' by (rule evict_keeps_same) simp_all
  finally show ?thesis .
qed

lemma destroy_keeps:
  assumes "drm_gpuvm_bo_destroy lib p w = Some w'" and "\<not> bo_live w p"
  shows "evict_keeps w w'"
proof -
  from assms(1) obtain bo where bo: "w_bos w p = Some bo" and d: "drm_gpuvm_bo_destroy_not_in_lists lib p (gem_list_del (bo_obj bo) p
      (on_vm (bo_vm bo) (raw_drm_gpuvm_bo_list_del Evict p) (on_vm (bo_vm bo) (raw_drm_gpuvm_bo_list_del Extobj p) w))) = Some w'"
    by (auto simp: drm_gpuvm_bo_destroy_def split: bind_splits)
  have "evict_keeps w (on_vm (bo_vm bo) (raw_drm_gpuvm_bo_list_del Extobj p) w)" by (rule list_del_keeps [OF assms(2)])
  also have "evict_keeps \<dots> (on_vm (bo_vm bo) (raw_drm_gpuvm_bo_list_del Evict p) \<dots>)"
    by (rule list_del_keeps) (use assms(2) in \<open>simp add: bo_live_def\<close>)
  also note gem_list_keeps(1)
  also note destroy_not_in_lists_keeps [OF d]
  finally show ?thesis .
qed

lemma kref_put_keeps:
  assumes "kref_put rel p w = Some (b, w')" and "\<And>u u'. rel p u = Some u' \<Longrightarrow> \<not> bo_live u p \<Longrightarrow> evict_keeps u u'"
  shows "evict_keeps w w'"
proof -
  from assms(1) obtain bo where bo: "w_bos w p = Some bo" "bo_kref bo \<noteq> 0"
    and r: "if bo_kref bo = 1 then rel p (set_bo p (bo\<lparr>bo_kref := bo_kref bo - 1\<rparr>) w) = Some w' else w' = set_bo p (bo\<lparr>bo_kref := bo_kref bo - 1\<rparr>) w"
    by (cases "w_bos w p") (auto simp: kref_put_def Let_def split: if_splits)
  have k: "evict_keeps w (set_bo p (bo\<lparr>bo_kref := bo_kref bo - 1\<rparr>) w)" by (rule evict_keeps_set_bo [OF bo(1)]) (use bo in simp_all)
  show ?thesis
  proof (cases "bo_kref bo = 1")
    case True
    with r have "rel p (set_bo p (bo\<lparr>bo_kref := bo_kref bo - 1\<rparr>) w) = Some w'" by simp
    then have "evict_keeps (set_bo p (bo\<lparr>bo_kref := bo_kref bo - 1\<rparr>) w) w'" by (rule assms(2)) (simp add: bo_live_def True)
    with k show ?thesis by (rule evict_keeps_trans)
  qed (use k r in simp)
qed

lemma put_keeps: "drm_gpuvm_bo_put lib q w = Some (b, w') \<Longrightarrow> evict_keeps w w'"
  by (cases q) (auto simp: drm_gpuvm_bo_put_def evict_keeps_same intro: kref_put_keeps destroy_keeps)

lemma into_zombie_keeps:
  assumes "drm_gpuvm_bo_into_zombie p w = Some w'" and "\<not> bo_live w p"
  shows "evict_keeps w w'"
proof -
  from assms(1) obtain bo where bo: "w_bos w p = Some bo" and w': "w' = gem_list_del (bo_obj bo) p (if drm_gpuvm_resv_protected (w_vm w (bo_vm bo)) then w
      else on_vm (bo_vm bo) (raw_drm_gpuvm_bo_list_del Evict p \<circ> raw_drm_gpuvm_bo_list_del Extobj p) w)"
    by (auto simp: drm_gpuvm_bo_into_zombie_def split: bind_splits)
  have "evict_keeps w (on_vm (bo_vm bo) (raw_drm_gpuvm_bo_list_del Extobj p) w)" by (rule list_del_keeps [OF assms(2)])
  also have "evict_keeps \<dots> (on_vm (bo_vm bo) (raw_drm_gpuvm_bo_list_del Evict p) \<dots>)"
    by (rule list_del_keeps) (use assms(2) in \<open>simp add: bo_live_def\<close>)
  finally show ?thesis unfolding w' on_vm_comp
    by (cases "drm_gpuvm_resv_protected (w_vm w (bo_vm bo))") (simp_all add: gem_list_keeps(1) evict_keeps_trans [OF _ gem_list_keeps(1)])
qed

lemma zombie_cleanup_keeps: "drm_gpuvm_bo_defer_zombie_cleanup p w = Some w' \<Longrightarrow> evict_keeps w w'"
  by (auto simp: drm_gpuvm_bo_defer_zombie_cleanup_def split: bind_splits intro!: evict_keeps_on_vm)

lemma defer_free_keeps: "drm_gpuvm_bo_defer_free p w = Some w' \<Longrightarrow> \<not> bo_live w p \<Longrightarrow> evict_keeps w w'"
  by (auto simp: drm_gpuvm_bo_defer_free_def split: bind_splits dest: into_zombie_keeps zombie_cleanup_keeps intro: evict_keeps_trans)

lemma put_deferred_keeps: "drm_gpuvm_bo_put_deferred q w = Some (b, w') \<Longrightarrow> evict_keeps w w'"
proof (cases q)
  case (Some p)
  assume "drm_gpuvm_bo_put_deferred q w = Some (b, w')"
  with Some obtain c v where "kref_put drm_gpuvm_bo_defer_free p (vm_WARN c v w) = Some (b, w')"
    by (auto simp: drm_gpuvm_bo_put_deferred_def split: bind_splits)
  then have "evict_keeps (vm_WARN c v w) w'" by (rule kref_put_keeps) (rule defer_free_keeps)
  with WARN_keeps show ?thesis by (rule evict_keeps_trans)
qed (simp add: drm_gpuvm_bo_put_deferred_def evict_keeps_same)

lemma destroy_all_keeps: "destroy_all lib ps w = Some w' \<Longrightarrow> evict_keeps w w'"
  by (induction ps arbitrary: w) (auto simp: evict_keeps_same split: bind_splits intro: evict_keeps_trans destroy_not_in_lists_keeps)

lemma fold_del_keeps:
  "(\<forall>p \<in> set ps. \<not> bo_live w p) \<Longrightarrow>
   evict_keeps w (on_vm v (fold (\<lambda>p. raw_drm_gpuvm_bo_list_del Evict p \<circ> raw_drm_gpuvm_bo_list_del Extobj p) ps) w)"
proof (induction ps arbitrary: w)
  case Nil
  show ?case by (rule evict_keeps_same) (simp_all add: fun_upd_idem)
next
  case (Cons p ps)
  have "evict_keeps w (on_vm v (raw_drm_gpuvm_bo_list_del Extobj p) w)" by (rule list_del_keeps) (use Cons.prems in simp)
  also have "evict_keeps \<dots> (on_vm v (raw_drm_gpuvm_bo_list_del Evict p) \<dots>)"
    by (rule list_del_keeps) (use Cons.prems in \<open>simp add: bo_live_def\<close>)
  also have "evict_keeps \<dots> (on_vm v (fold (\<lambda>p. raw_drm_gpuvm_bo_list_del Evict p \<circ> raw_drm_gpuvm_bo_list_del Extobj p) ps) \<dots>)"
    by (rule Cons.IH) (use Cons.prems in \<open>simp add: bo_live_def\<close>)
  finally show ?case by (simp add: on_vm_comp comp_def)
qed

lemma cleanup_keeps:
  assumes inv: "bo_inv rv g w" and c: "drm_gpuvm_bo_deferred_cleanup lib v w = Some w'"
  shows "evict_keeps w w'"
proof -
  let ?d = "bo_defer (vm_base (w_vm w v))" and ?w = "on_vm v (\<lambda>vm. vm\<lparr>vm_base := (vm_base vm)\<lparr>bo_defer := []\<rparr>\<rparr>) w"
  have z: "\<not> bo_live w p" if "p \<in> set ?d" for p
    using inv that by (fastforce simp: bo_inv_defs inv_zombies_def bo_info_def bo_live_def split: option.splits)
  have k: "evict_keeps w ?w" by (rule evict_keeps_on_vm) simp_all
  show ?thesis
  proof (cases "?d = []")
    case True
    then show ?thesis using c k by (simp add: drm_gpuvm_bo_deferred_cleanup_def)
  next
    case False
    define u where "u = (if drm_gpuvm_resv_protected (w_vm ?w v)
       then on_vm v (fold (\<lambda>p. raw_drm_gpuvm_bo_list_del Evict p \<circ> raw_drm_gpuvm_bo_list_del Extobj p) ?d) ?w else ?w)"
    have "evict_keeps ?w u" unfolding u_def using fold_del_keeps [of ?d ?w v] z
      by (auto simp: bo_live_def intro: evict_keeps_same)
    moreover have "evict_keeps u w'"
      by (rule destroy_all_keeps [of lib ?d]) (use c False in \<open>simp add: drm_gpuvm_bo_deferred_cleanup_def u_def Let_def\<close>)
    ultimately show ?thesis using k evict_keeps_trans by blast
  qed
qed

lemma obtain_keeps:
  assumes "drm_gpuvm_bo_obtain_locked v obj w = Some (r, w')"
  shows "evict_keeps w w'"
proof -
  let ?w = "vm_WARN (drm_gpuvm_immediate_mode (w_vm w v)) v w"
  from assms obtain found w1 where f: "drm_gpuvm_bo_find v obj ?w = Some (found, w1)"
    and r: "case found of Some p \<Rightarrow> w' = w1 | None \<Rightarrow> (case drm_gpuvm_bo_create v obj w1 of (None, w2) \<Rightarrow> w' = w2
        | (Some p, w2) \<Rightarrow> w' = gem_list_add_tail obj p w2)"
    by (auto simp: drm_gpuvm_bo_obtain_locked_def split: bind_splits option.splits prod.splits)
  have "evict_keeps w1 w'"
    using r by (auto split: option.splits prod.splits intro: evict_keeps_same evict_keeps_trans [OF create_keeps gem_list_keeps(2)] create_keeps)
  then show ?thesis using WARN_keeps find_keeps [OF f] evict_keeps_trans by blast
qed

lemma prealloc_keeps:
  assumes "drm_gpuvm_bo_obtain_prealloc lib p w = Some (q, w')"
  shows "evict_keeps w w'"
proof -
  from assms obtain bo found w1 where bo: "w_bos w p = Some bo"
    and f: "drm_gpuvm_bo_find (bo_vm bo) (bo_obj bo) (vm_WARN (\<not> drm_gpuvm_immediate_mode (w_vm w (bo_vm bo))) (bo_vm bo) w) = Some (found, w1)"
    and r: "(\<exists>b. kref_put (drm_gpuvm_bo_destroy_not_in_lists lib) p w1 = Some (b, w')) \<or> w' = gem_list_add_tail (bo_obj bo) p w1"
    by (auto simp: drm_gpuvm_bo_obtain_prealloc_def split: bind_splits option.splits prod.splits)
  have "evict_keeps w1 w'"
    using r by (auto intro: gem_list_keeps kref_put_keeps destroy_not_in_lists_keeps)
  then show ?thesis using WARN_keeps find_keeps [OF f] evict_keeps_trans by blast
qed

lemma extobj_add_keeps: "drm_gpuvm_bo_extobj_add rv p w = Some w' \<Longrightarrow> evict_keeps w w'"
  by (auto simp: drm_gpuvm_bo_extobj_add_def split: bind_splits if_splits intro: list_add_keeps evict_keeps_same)

lemma link_keeps: "drm_gpuva_link va v p w = Some w' \<Longrightarrow> evict_keeps w w'"
proof (cases "gem_obj va")
  case (Some obj)
  assume "drm_gpuva_link va v p w = Some w'"
  with Some obtain c w1 bo where g: "drm_gpuvm_bo_get p (vm_WARN c v w) = Some w1" and bo: "w_bos w1 p = Some bo"
    and w': "w' = set_bo p (bo\<lparr>bo_gpuva := bo_gpuva bo @ [va_ptr va]\<rparr>) (w1\<lparr>w_va_bo := (w_va_bo w1)(va_ptr va := Some p)\<rparr>)"
    by (auto simp: drm_gpuva_link_def split: bind_splits)
  note WARN_keeps
  also note bo_get_keeps [OF g]
  also have "evict_keeps w1 (w1\<lparr>w_va_bo := (w_va_bo w1)(va_ptr va := Some p)\<rparr>)" by (rule evict_keeps_same) simp_all
  also have "evict_keeps \<dots> w'" unfolding w' by (rule evict_keeps_set_bo [of _ _ bo]) (use bo in simp_all)
  finally show ?thesis .
qed (simp add: drm_gpuva_link_def evict_keeps_same)

lemma gpuva_list_del_keeps: "evict_keeps w (gpuva_list_del a q w)"
  by (cases q) (auto simp: gpuva_list_del_def split: option.split intro: evict_keeps_same evict_keeps_set_bo)

lemma unlink_keeps: "drm_gpuva_unlink lib va w = Some w' \<Longrightarrow> evict_keeps w w'"
proof (cases "gem_obj va")
  case (Some obj)
  let ?q = "w_va_bo w (va_ptr va)"
  let ?w = "(gpuva_list_del (va_ptr va) ?q w)\<lparr>w_va_bo := (w_va_bo (gpuva_list_del (va_ptr va) ?q w))(va_ptr va := None)\<rparr>"
  assume "drm_gpuva_unlink lib va w = Some w'"
  with Some obtain b where p: "drm_gpuvm_bo_put lib ?q ?w = Some (b, w')" by (auto simp: drm_gpuva_unlink_def Let_def)
  note gpuva_list_del_keeps [of w "va_ptr va" ?q]
  also have "evict_keeps (gpuva_list_del (va_ptr va) ?q w) ?w" by (rule evict_keeps_same) simp_all
  also note put_keeps [OF p]
  finally show ?thesis .
qed (simp add: drm_gpuva_unlink_def evict_keeps_same)

lemma unlink_defer_keeps: "drm_gpuva_unlink_defer va w = Some w' \<Longrightarrow> evict_keeps w w'"
proof (cases "gem_obj va")
  case (Some obj)
  assume "drm_gpuva_unlink_defer va w = Some w'"
  with Some obtain p c v s w1 w2 where k: "kref_put drm_gpuvm_bo_into_zombie p (gpuva_list_del (va_ptr va) (Some p) (vm_WARN c v w)) = Some (s, w1)"
    and d: "if s then drm_gpuvm_bo_defer_zombie_cleanup p w1 = Some w2 else w2 = w1" and w': "w' = w2\<lparr>w_va_bo := (w_va_bo w2)(va_ptr va := None)\<rparr>"
    by (auto simp: drm_gpuva_unlink_defer_def split: bind_splits if_splits)
  note WARN_keeps
  also note gpuva_list_del_keeps
  also have "evict_keeps (gpuva_list_del (va_ptr va) (Some p) (vm_WARN c v w)) w1" by (rule kref_put_keeps [OF k into_zombie_keeps])
  also have "evict_keeps w1 w2" using d zombie_cleanup_keeps evict_keeps_same by (auto split: if_splits)
  also have "evict_keeps w2 w'" unfolding w' by (rule evict_keeps_same) simp_all
  finally show ?thesis .
qed (simp add: drm_gpuva_unlink_defer_def evict_keeps_same)

lemma evict_evict_ok:
  assumes ok: "evict_ok rv w" and lo: "\<And>v. get_local Evict (w_vm w v) = None" and e: "drm_gpuvm_bo_evict rv p ev w = Some w'"
  shows "evict_ok rv w' \<and> (\<forall>v. get_local Evict (w_vm w' v) = None)"
proof -
  from e obtain bo where bo: "w_bos w p = Some bo"
    and w': "w' = (if drm_gpuvm_is_extobj rv (w_vm w (bo_vm bo)) (bo_obj bo) \<and> drm_gpuvm_resv_protected (w_vm w (bo_vm bo))
       then set_bo p (bo\<lparr>bo_evicted := ev\<rparr>) w else if ev then on_vm (bo_vm bo) (raw_drm_gpuvm_bo_list_add Evict p) (set_bo p (bo\<lparr>bo_evicted := ev\<rparr>) w)
       else on_vm (bo_vm bo) (raw_drm_gpuvm_bo_list_del Evict p) (set_bo p (bo\<lparr>bo_evicted := ev\<rparr>) w))"
    by (auto simp: drm_gpuvm_bo_evict_def Let_def split: bind_splits)
  have a: "set (evict_list (vm_base (raw_drm_gpuvm_bo_list_add Evict p (w_vm w v)))) = insert p (set (evict_list (vm_base (w_vm w v))))" for v
    using list_add_list [where m = Evict and n = Evict and p = p, OF lo, of v] by auto
  have fr: "r_obj (w_vm w' v) = r_obj (w_vm w v) \<and> vm_flags (vm_base (w_vm w' v)) = vm_flags (vm_base (w_vm w v))" for v
    unfolding w' by simp
  have kp: "q \<in> set (evict_list (vm_base (w_vm w' v)))" if "q \<noteq> p" "q \<in> set (evict_list (vm_base (w_vm w v)))" for q v
    unfolding w' using that by (auto simp: list_del_other a)
  have "evict_ok rv w'" unfolding evict_ok_def
  proof (intro allI impI)
    fix q bq assume "w_bos w' q = Some bq \<and> 0 < bo_kref bq \<and> bo_evicted bq \<and>
       \<not> (drm_gpuvm_is_extobj rv (w_vm w' (bo_vm bq)) (bo_obj bq) \<and> drm_gpuvm_resv_protected (w_vm w' (bo_vm bq)))"
    then have q: "w_bos w' q = Some bq" "0 < bo_kref bq" "bo_evicted bq"
      "\<not> (drm_gpuvm_is_extobj rv (w_vm w (bo_vm bq)) (bo_obj bq) \<and> drm_gpuvm_resv_protected (w_vm w (bo_vm bq)))"
      by (simp_all add: drm_gpuvm_is_extobj_def drm_gpuvm_resv_protected_def fr)
    have bos: "w_bos w' = (w_bos w)(p := Some (bo\<lparr>bo_evicted := ev\<rparr>))" unfolding w' by simp
    show "q \<in> set (evict_list (vm_base (w_vm w' (bo_vm bq))))"
    proof (cases "q = p")
      case True
      with q(1) bos have "bq = bo\<lparr>bo_evicted := ev\<rparr>" by simp
      then show ?thesis using True q(3,4) unfolding w' by (auto simp: a)
    next
      case False
      with q(1) bos have "w_bos w q = Some bq" by simp
      with ok q have "q \<in> set (evict_list (vm_base (w_vm w (bo_vm bq))))" unfolding evict_ok_def by blast
      then show ?thesis by (rule kp [OF False])
    qed
  qed
  moreover have "get_local Evict (w_vm w' v) = None" for v
    using lo unfolding w' by (simp del: get_local.simps)
  ultimately show ?thesis by blast
qed

lemma evict_all_ok:
  "evict_ok rv w \<Longrightarrow> (\<And>v. get_local Evict (w_vm w v) = None) \<Longrightarrow> evict_all rv ps ev w = Some w' \<Longrightarrow> evict_ok rv w'"
proof (induction ps arbitrary: w)
  case (Cons p ps)
  from Cons.prems(3) obtain w1 where "drm_gpuvm_bo_evict rv p ev w = Some w1" "evict_all rv ps ev w1 = Some w'" by (auto split: bind_splits)
  with evict_evict_ok [OF Cons.prems(1,2)] Cons.IH show ?case by blast
qed simp

lemma bo_exec_evict_ok:
  assumes inv: "bo_inv rv g w" and ok: "evict_ok rv w" and e: "bo_exec lib rv c (g, w) = Some (g', w')"
  shows "evict_ok rv w'"
proof -
  have lo: "get_local Evict (w_vm w v) = None" for v using inv by (simp add: bo_inv_defs inv_lists_def)
  have vm: "evict_keeps w (on_vm v (\<lambda>vm. vm\<lparr>vm_base := base\<rparr>) w)"
    if "evict_list base = evict_list (vm_base (w_vm w v))" "vm_flags base = vm_flags (vm_base (w_vm w v))" for v base
    by (rule evict_keeps_on_vm) (use that in simp_all)
  have get: "evict_keeps w (on_vm v (\<lambda>vm. vm\<lparr>vm_base := drm_gpuvm_get (vm_base vm)\<rparr>) w)" for v
    by (rule evict_keeps_on_vm) (simp_all add: drm_gpuvm_get_def)
  note keeps = evict_keeps_ok [OF _ ok]
  show ?thesis
  proof (cases c)
    case (Bo_evict p ev)
    then show ?thesis using e evict_evict_ok [OF ok lo] by auto
  next
    case (Gem_evict obj ev)
    then show ?thesis using e evict_all_ok [OF ok lo] by (auto simp: drm_gpuvm_bo_gem_evict_def)
  next
    case (Vm_put v)
    then show ?thesis using e keeps [OF vm] by (auto dest: gpuvm_put_lists)
  next
    case (Bo_create v obj)
    then show ?thesis using e keeps [OF create_keeps] by (auto split: prod.splits option.splits)
  qed (use e get keeps in \<open>auto simp: cleanup_keeps [OF inv]
      intro: find_keeps obtain_keeps prealloc_keeps bo_get_keeps put_keeps put_deferred_keeps extobj_add_keeps link_keeps unlink_keeps unlink_defer_keeps\<close>)
qed

lemma reachable_evict_ok: "bo_reachable lib rv s \<Longrightarrow> evict_ok rv (snd s)"
proof (induction rule: bo_reachable.induct)
  case (start s)
  then show ?case by (cases s) (simp add: bo_start_def evict_ok_def)
next
  case (step s c s')
  then show ?case using bo_exec_evict_ok [of rv "fst s" "snd s" lib c "fst s'" "snd s'"] bo_reachable_inv [OF step.hyps(1)] by simp
qed

section \<open>Properties\<close>

text \<open>
  C8. When an address space was locked together with its external objects and the evicted objects were then validated, and both
  calls returned 0, no object that is in use in the address space is evicted any more: neither one that shares the reservation lock of the
  address space nor one on the list of external objects. The driver's callback only has to clear the flag of the object it is called with.
\<close>

theorem lock_validate_resident:
  assumes ww: "ww_lib ww held patience" and reach: "bo_reachable lib rv (g, w)" and h: "held (k_ww (w_env w)) = {}"
    and fuel: "patience (k_ww (w_env w)) + 1 < fuel" and hook: "validate_hook f"
    and lock: "drm_gpuvm_exec_lock_array fuel lib ww rv ve objs w = Some (0, exec, w1)"
    and n: "length (evict_list (vm_base (w_vm w1 (ve_vm ve)))) < n"
  shows "\<exists>ret exec' w2. drm_gpuvm_validate n lib (Some f) (ve_vm ve) (exec, w1) = Some (ret, exec', w2) \<and>
     (ret = 0 \<longrightarrow> (\<forall>p bo. w_bos w2 p = Some bo \<and> bo_vm bo = ve_vm ve \<and> 0 < bo_kref bo \<and>
        (rv (bo_obj bo) = rv (r_obj (w_vm w (ve_vm ve))) \<or> p \<in> set (extobj_list (vm_base (w_vm w (ve_vm ve))))) \<longrightarrow> \<not> bo_evicted bo))"
proof -
  let ?v = "ve_vm ve"
  note lib = vm_execI [OF ww, of rv g w]
  have inv: "bo_inv rv g w" and ok: "evict_ok rv w" using bo_reachable_inv [OF reach] reachable_evict_ok [OF reach] by simp_all
  note ext = vm_exec.ext_live_def [OF lib [OF inv]] vm_exec.live_of_def [OF lib [OF inv]]
  from vm_exec.exec_lock_array_result [OF lib [OF inv] h fuel refl, where ve = ve and lib = lib and objs = objs] lock
  have rel: "vm_rel rv g ?v w w1" and ev: "drm_gpuvm_resv_protected (w_vm w ?v) \<longrightarrow> (\<forall>p \<in> set (vm_exec.ext_live ?v w).
      map_option bo_evicted (w_bos w p) = Some True \<longrightarrow> p \<in> set (evict_list (vm_base (w_vm w1 ?v))))"
    by (auto dest: vm_exec.good_rel [OF lib [OF inv]])
  have i1: "bo_inv rv g (w1\<lparr>w_env := w_env w\<rparr>)" using rel by (simp add: vm_rel_def)
  from validate_hook.validate_spec [OF hook i1 n, of lib exec] obtain ret exec' w2 where
    va: "drm_gpuvm_validate n lib (Some f) ?v (exec, w1) = Some (ret, exec', w2)" and c: "only_cleared w1 w2"
    and z: "ret = 0 \<longrightarrow> (\<forall>p \<in> set (evict_list (vm_base (w_vm w1 ?v))). \<forall>bo. w_bos w2 p = Some bo \<and> 0 < bo_kref bo \<longrightarrow> \<not> bo_evicted bo)"
    by blast
  have "\<not> bo_evicted bo" if r: "ret = 0" and p: "w_bos w2 p = Some bo" "bo_vm bo = ?v" "0 < bo_kref bo"
    "rv (bo_obj bo) = rv (r_obj (w_vm w ?v)) \<or> p \<in> set (extobj_list (vm_base (w_vm w ?v)))" for p bo
  proof
    assume e: "bo_evicted bo"
    have b: "w_bos w p = Some bo" using c p(1) e unfolding only_cleared_def vm_relD(1) [OF rel] by (auto dest!: spec [of _ p])
    have "p \<in> set (evict_list (vm_base (w_vm w1 ?v)))"
    proof (cases "drm_gpuvm_is_extobj rv (w_vm w ?v) (bo_obj bo) \<and> drm_gpuvm_resv_protected (w_vm w ?v)")
      case True
      then have "p \<in> set (vm_exec.ext_live ?v w)" using p b by (simp add: ext drm_gpuvm_is_extobj_def)
      then show ?thesis using ev True b e by simp
    next
      case False
      then have "p \<in> set (evict_list (vm_base (w_vm w ?v)))" using ok [unfolded evict_ok_def] b e p(2,3) by metis
      then show ?thesis using vm_relD(8) [OF rel] by blast
    qed
    then show False using z r p e by blast
  qed
  then show ?thesis using va by blast
qed

text \<open>A callback that finds every object in place and reports this with \<open>drm_gpuvm_bo_evict\<close>.\<close>

definition evict_validate :: "(nat \<Rightarrow> nat) \<Rightarrow> nat \<Rightarrow> drm_exec \<times> 'w bo_world \<Rightarrow> (int \<times> drm_exec \<times> 'w bo_world) option" where
  "evict_validate rv p x = map_option (\<lambda>w. (0, fst x, w)) (drm_gpuvm_bo_evict rv p False (snd x))"

interpretation evict_validate: validate_hook "evict_validate rv" for rv
proof
  fix w :: "'w bo_world" and p bo exec
  assume bo: "w_bos w p = Some bo"
  let ?vm = "w_vm w (bo_vm bo)"
  have "set_bo p (bo\<lparr>bo_evicted := False\<rparr>) w = clear_evicted p w" using bo by (simp add: set_bo_def clear_evicted_def)
  then have "evict_validate rv p (exec, w) = Some (0, exec, (if \<not> (drm_gpuvm_is_extobj rv ?vm (bo_obj bo) \<and> drm_gpuvm_resv_protected ?vm)
      then on_vm (bo_vm bo) (raw_drm_gpuvm_bo_list_del Evict p) (clear_evicted p w) else clear_evicted p w)\<lparr>w_env := w_env w\<rparr>)"
    using bo by (simp add: evict_validate_def drm_gpuvm_bo_evict_def Let_def clear_evicted_def on_vm_def)
  then show "\<exists>ret e env d. evict_validate rv p (exec, w) = Some (ret, e,
    (if ret \<noteq> 0 then w else if d then on_vm (bo_vm bo) (raw_drm_gpuvm_bo_list_del Evict p) (clear_evicted p w) else clear_evicted p w)
      \<lparr>w_env := env\<rparr>)" by (intro exI [of _ 0] exI [of _ exec] exI [of _ "w_env w"]) (simp, blast)
qed

lemma ex_validated:
  "Option.bind (drm_gpuvm_exec_lock_array 5 (plain_lib GPUVA_LAST) plain_ops id ex_ve [7] (snd ex_external)) (\<lambda>(ret, exec, w1).
     map_option (\<lambda>(ret', exec', w2). (ret, ret', map_option bo_evicted (w_bos w1 1), map_option bo_vm (w_bos w2 1), map_option bo_kref (w_bos w2 1), evict_list (vm_base (w_vm w1 3)),
         extobj_list (vm_base (w_vm (snd ex_external) 3))))
       (drm_gpuvm_validate 2 (plain_lib GPUVA_LAST) (Some (evict_validate id)) 3 (exec, w1))) = Some (0, 0, Some True, Some 3, Some 1, [1], [1])"
  by code_simp

theorem lock_validate_resident_witness:
  "\<exists>exec w1 exec' w2. drm_gpuvm_exec_lock_array 5 (plain_lib GPUVA_LAST) plain_ops id ex_ve [7] (snd ex_external) = Some (0, exec, w1) \<and>
     drm_gpuvm_validate 2 (plain_lib GPUVA_LAST) (Some (evict_validate id)) 3 (exec, w1) = Some (0, exec', w2) \<and>
     map_option bo_evicted (w_bos w1 1) = Some True \<and> map_option bo_evicted (w_bos w2 1) = Some False"
proof -
  let ?l = "drm_gpuvm_exec_lock_array 5 (plain_lib GPUVA_LAST) plain_ops id ex_ve [7] (snd ex_external)"
  have e: "w_env (snd ex_external) = w_env (snd ex_obtained)" "pw_held (k_ww (w_env (snd ex_obtained))) = []"
    "length (pw_script (k_ww (w_env (snd ex_obtained)))) = 3"
    by (rule ex_external_env) code_simp+
  have r: "bo_reachable (plain_lib GPUVA_LAST) id (fst ex_external, snd ex_external)" using ex_external_reachable by simp
  from ex_validated obtain exec w1 exec' w2 where l: "?l = Some (0, exec, w1)"
    and v: "drm_gpuvm_validate 2 (plain_lib GPUVA_LAST) (Some (evict_validate id)) 3 (exec, w1) = Some (0, exec', w2)"
    and b: "map_option bo_evicted (w_bos w1 1) = Some True" "map_option bo_vm (w_bos w2 1) = Some 3" "map_option bo_kref (w_bos w2 1) = Some 1"
      "evict_list (vm_base (w_vm w1 3)) = [1]" "extobj_list (vm_base (w_vm (snd ex_external) 3)) = [1]"
    by (auto split: bind_splits)
  from lock_validate_resident [OF plain.ww_lib_axioms r _ _ evict_validate.validate_hook_axioms [of id] l, of 2] e b v l show ?thesis
    by (auto simp: ex_ve_def dest!: spec [of _ "Suc 0"])
qed

end
