(* ===== verification/DSC_Tables.thy ===== *)
theory DSC_Tables
  imports DRM_Prelude
begin

text \<open>
  The rate control tables of \<open>display/drm_dsc_helper.c\<close>: recommended parameters from the DSC
  specifications, indexed by bits per pixel and bits per component. A row of the C initialiser is
  one \<open>rc_entry\<close>, in the order of the source; every table ends with a zero entry, the sentinel.
\<close>

record drm_dsc_rc_range_parameters =
  range_min_qp :: u8
  range_max_qp :: u8
  range_bpg_offset :: u8

record rc_parameters =
  rp_initial_xmit_delay :: u16
  rp_first_line_bpg_offset :: u8
  rp_initial_offset :: u16
  rp_flatness_min_qp :: u8
  rp_flatness_max_qp :: u8
  rp_rc_quant_incr_limit0 :: u8
  rp_rc_quant_incr_limit1 :: u8
  rp_rc_range_params :: "drm_dsc_rc_range_parameters list"

record rc_parameters_data =
  rpd_bpp :: u8
  rpd_bpc :: u8
  rpd_params :: rc_parameters

definition DSC_NUM_BUF_RANGES :: nat where
  "DSC_NUM_BUF_RANGES = 15"

definition DSC_BPP :: "u8 \<Rightarrow> u8" where
  "DSC_BPP bpp = push_bit 4 bpp"

definition rc_range :: "u8 \<times> u8 \<times> u8 \<Rightarrow> drm_dsc_rc_range_parameters" where
  "rc_range t = (case t of (lo, hi, off) \<Rightarrow> \<lparr>range_min_qp = lo, range_max_qp = hi, range_bpg_offset = off\<rparr>)"

definition rc_entry ::
    "u8 \<Rightarrow> u8 \<Rightarrow> u16 \<Rightarrow> u8 \<Rightarrow> u16 \<Rightarrow> u8 \<Rightarrow> u8 \<Rightarrow> u8 \<Rightarrow> u8 \<Rightarrow> (u8 \<times> u8 \<times> u8) list \<Rightarrow> rc_parameters_data" where
  "rc_entry bpp bpc ixd flbo io fmin fmax q0 q1 rs =
     \<lparr>rpd_bpp = DSC_BPP bpp, rpd_bpc = bpc,
      rpd_params = \<lparr>rp_initial_xmit_delay = ixd, rp_first_line_bpg_offset = flbo, rp_initial_offset = io,
        rp_flatness_min_qp = fmin, rp_flatness_max_qp = fmax, rp_rc_quant_incr_limit0 = q0,
        rp_rc_quant_incr_limit1 = q1, rp_rc_range_params = map rc_range rs\<rparr>\<rparr>"

definition rc_sentinel :: rc_parameters_data where
  "rc_sentinel = rc_entry 0 0 0 0 0 0 0 0 0 (replicate DSC_NUM_BUF_RANGES (0, 0, 0))"

definition rc_parameters_pre_scr_rows :: "rc_parameters_data list" where
  "rc_parameters_pre_scr_rows = [
     rc_entry 6 8 683 15 6144 3 13 11 11
       [(0, 2, 0), (1, 4, - 2), (3, 6, - 2), (4, 6, - 4), (5, 7, - 6),
        (5, 7, - 6), (6, 7, - 6), (6, 8, - 8), (7, 9, - 8), (8, 10, - 10),
        (9, 11, - 10), (10, 12, - 12), (10, 13, - 12), (12, 14, - 12), (15, 15, - 12)],
     rc_entry 8 8 512 12 6144 3 12 11 11
       [(0, 4, 2), (0, 4, 0), (1, 5, 0), (1, 6, - 2), (3, 7, - 4),
        (3, 7, - 6), (3, 7, - 8), (3, 8, - 8), (3, 9, - 8), (3, 10, - 10),
        (5, 11, - 10), (5, 12, - 12), (5, 13, - 12), (7, 13, - 12), (13, 15, - 12)],
     rc_entry 8 10 512 12 6144 7 16 15 15
       [(0, 4, 2), (4, 8, 0), (5, 9, 0), (5, 10, - 2), (7, 11, - 4),
        (7, 11, - 6), (7, 11, - 8), (7, 12, - 8), (7, 13, - 8), (7, 14, - 10),
        (9, 15, - 10), (9, 16, - 12), (9, 17, - 12), (11, 17, - 12), (17, 19, - 12)],
     rc_entry 8 12 512 12 6144 11 20 19 19
       [(0, 12, 2), (4, 12, 0), (9, 13, 0), (9, 14, - 2), (11, 15, - 4),
        (11, 15, - 6), (11, 15, - 8), (11, 16, - 8), (11, 17, - 8), (11, 18, - 10),
        (13, 19, - 10), (13, 20, - 12), (13, 21, - 12), (15, 21, - 12), (21, 23, - 12)],
     rc_entry 10 8 410 12 5632 3 12 11 11
       [(0, 3, 2), (0, 4, 0), (1, 5, 0), (2, 6, - 2), (3, 7, - 4),
        (3, 7, - 6), (3, 7, - 8), (3, 8, - 8), (3, 9, - 8), (3, 9, - 10),
        (5, 10, - 10), (5, 11, - 10), (5, 12, - 12), (7, 13, - 12), (13, 15, - 12)],
     rc_entry 10 10 410 12 5632 7 16 15 15
       [(0, 7, 2), (4, 8, 0), (5, 9, 0), (6, 10, - 2), (7, 11, - 4),
        (7, 11, - 6), (7, 11, - 8), (7, 12, - 8), (7, 13, - 8), (7, 13, - 10),
        (9, 14, - 10), (9, 15, - 10), (9, 16, - 12), (11, 17, - 12), (17, 19, - 12)],
     rc_entry 10 12 410 12 5632 11 20 19 19
       [(0, 11, 2), (4, 12, 0), (9, 13, 0), (10, 14, - 2), (11, 15, - 4),
        (11, 15, - 6), (11, 15, - 8), (11, 16, - 8), (11, 17, - 8), (11, 17, - 10),
        (13, 18, - 10), (13, 19, - 10), (13, 20, - 12), (15, 21, - 12), (21, 23, - 12)],
     rc_entry 12 8 341 15 2048 3 12 11 11
       [(0, 2, 2), (0, 4, 0), (1, 5, 0), (1, 6, - 2), (3, 7, - 4),
        (3, 7, - 6), (3, 7, - 8), (3, 8, - 8), (3, 9, - 8), (3, 10, - 10),
        (5, 11, - 10), (5, 12, - 12), (5, 13, - 12), (7, 13, - 12), (13, 15, - 12)],
     rc_entry 12 10 341 15 2048 7 16 15 15
       [(0, 2, 2), (2, 5, 0), (3, 7, 0), (4, 8, - 2), (6, 9, - 4),
        (7, 10, - 6), (7, 11, - 8), (7, 12, - 8), (7, 13, - 8), (7, 14, - 10),
        (9, 15, - 10), (9, 16, - 12), (9, 17, - 12), (11, 17, - 12), (17, 19, - 12)],
     rc_entry 12 12 341 15 2048 11 20 19 19
       [(0, 6, 2), (4, 9, 0), (7, 11, 0), (8, 12, - 2), (10, 13, - 4),
        (11, 14, - 6), (11, 15, - 8), (11, 16, - 8), (11, 17, - 8), (11, 18, - 10),
        (13, 19, - 10), (13, 20, - 12), (13, 21, - 12), (15, 21, - 12), (21, 23, - 12)],
     rc_entry 15 8 273 15 2048 3 12 11 11
       [(0, 0, 10), (0, 1, 8), (0, 1, 6), (0, 2, 4), (1, 2, 2),
        (1, 3, 0), (1, 4, - 2), (2, 4, - 4), (3, 4, - 6), (3, 5, - 8),
        (4, 6, - 10), (5, 7, - 10), (5, 8, - 12), (7, 13, - 12), (13, 15, - 12)],
     rc_entry 15 10 273 15 2048 7 16 15 15
       [(0, 2, 10), (2, 5, 8), (3, 5, 6), (4, 6, 4), (5, 6, 2),
        (5, 7, 0), (5, 8, - 2), (6, 8, - 4), (7, 8, - 6), (7, 9, - 8),
        (8, 10, - 10), (9, 11, - 10), (9, 12, - 12), (11, 17, - 12), (17, 19, - 12)],
     rc_entry 15 12 273 15 2048 11 20 19 19
       [(0, 4, 10), (2, 7, 8), (4, 9, 6), (6, 11, 4), (9, 11, 2),
        (9, 11, 0), (9, 12, - 2), (10, 12, - 4), (11, 12, - 6), (11, 13, - 8),
        (12, 14, - 10), (13, 15, - 10), (13, 16, - 12), (15, 21, - 12), (21, 23, - 12)]]"

definition rc_parameters_pre_scr :: "rc_parameters_data list" where
  "rc_parameters_pre_scr = rc_parameters_pre_scr_rows @ [rc_sentinel]"

definition rc_parameters_1_2_444_part1 :: "rc_parameters_data list" where
  "rc_parameters_1_2_444_part1 = [
     rc_entry 6 8 768 15 6144 3 13 11 11
       [(0, 4, 0), (1, 6, - 2), (3, 8, - 2), (4, 8, - 4), (5, 9, - 6),
        (5, 9, - 6), (6, 9, - 6), (6, 10, - 8), (7, 11, - 8), (8, 12, - 10),
        (9, 12, - 10), (10, 12, - 12), (10, 12, - 12), (11, 12, - 12), (13, 14, - 12)],
     rc_entry 6 10 768 15 6144 7 17 15 15
       [(0, 8, 0), (3, 10, - 2), (7, 12, - 2), (8, 12, - 4), (9, 13, - 6),
        (9, 13, - 6), (10, 13, - 6), (10, 14, - 8), (11, 15, - 8), (12, 16, - 10),
        (13, 16, - 10), (14, 16, - 12), (14, 16, - 12), (15, 16, - 12), (17, 18, - 12)],
     rc_entry 6 12 768 15 6144 11 21 19 19
       [(0, 12, 0), (5, 14, - 2), (11, 16, - 2), (12, 16, - 4), (13, 17, - 6),
        (13, 17, - 6), (14, 17, - 6), (14, 18, - 8), (15, 19, - 8), (16, 20, - 10),
        (17, 20, - 10), (18, 20, - 12), (18, 20, - 12), (19, 20, - 12), (21, 22, - 12)],
     rc_entry 6 14 768 15 6144 15 25 23 23
       [(0, 16, 0), (7, 18, - 2), (15, 20, - 2), (16, 20, - 4), (17, 21, - 6),
        (17, 21, - 6), (18, 21, - 6), (18, 22, - 8), (19, 23, - 8), (20, 24, - 10),
        (21, 24, - 10), (22, 24, - 12), (22, 24, - 12), (23, 24, - 12), (25, 26, - 12)],
     rc_entry 6 16 768 15 6144 19 29 27 27
       [(0, 20, 0), (9, 22, - 2), (19, 24, - 2), (20, 24, - 4), (21, 25, - 6),
        (21, 25, - 6), (22, 25, - 6), (22, 26, - 8), (23, 27, - 8), (24, 28, - 10),
        (25, 28, - 10), (26, 28, - 12), (26, 28, - 12), (27, 28, - 12), (29, 30, - 12)],
     rc_entry 8 8 512 12 6144 3 12 11 11
       [(0, 4, 2), (0, 4, 0), (1, 5, 0), (1, 6, - 2), (3, 7, - 4),
        (3, 7, - 6), (3, 7, - 8), (3, 8, - 8), (3, 9, - 8), (3, 10, - 10),
        (5, 10, - 10), (5, 11, - 12), (5, 11, - 12), (9, 12, - 12), (12, 13, - 12)],
     rc_entry 8 10 512 12 6144 7 16 15 15
       [(0, 8, 2), (4, 8, 0), (5, 9, 0), (5, 10, - 2), (7, 11, - 4),
        (7, 11, - 6), (7, 11, - 8), (7, 12, - 8), (7, 13, - 8), (7, 14, - 10),
        (9, 14, - 10), (9, 15, - 12), (9, 15, - 12), (13, 16, - 12), (16, 17, - 12)],
     rc_entry 8 12 512 12 6144 11 20 19 19
       [(0, 12, 2), (4, 12, 0), (9, 13, 0), (9, 14, - 2), (11, 15, - 4),
        (11, 15, - 6), (11, 15, - 8), (11, 16, - 8), (11, 17, - 8), (11, 18, - 10),
        (13, 18, - 10), (13, 19, - 12), (13, 19, - 12), (17, 20, - 12), (20, 21, - 12)],
     rc_entry 8 14 512 12 6144 15 24 23 23
       [(0, 12, 2), (5, 13, 0), (11, 15, 0), (12, 17, - 2), (15, 19, - 4),
        (15, 19, - 6), (15, 19, - 8), (15, 20, - 8), (15, 21, - 8), (15, 22, - 10),
        (17, 22, - 10), (17, 23, - 12), (17, 23, - 12), (21, 24, - 12), (24, 25, - 12)],
     rc_entry 8 16 512 12 6144 19 28 27 27
       [(0, 12, 2), (6, 14, 0), (13, 17, 0), (15, 20, - 2), (19, 23, - 4),
        (19, 23, - 6), (19, 23, - 8), (19, 24, - 8), (19, 25, - 8), (19, 26, - 10),
        (21, 26, - 10), (21, 27, - 12), (21, 27, - 12), (25, 28, - 12), (28, 29, - 12)]]"

definition rc_parameters_1_2_444_part2 :: "rc_parameters_data list" where
  "rc_parameters_1_2_444_part2 = [
     rc_entry 10 8 410 15 5632 3 12 11 11
       [(0, 3, 2), (0, 4, 0), (1, 5, 0), (2, 6, - 2), (3, 7, - 4),
        (3, 7, - 6), (3, 7, - 8), (3, 8, - 8), (3, 9, - 8), (3, 9, - 10),
        (5, 10, - 10), (5, 10, - 10), (5, 11, - 12), (7, 11, - 12), (11, 12, - 12)],
     rc_entry 10 10 410 15 5632 7 16 15 15
       [(0, 7, 2), (4, 8, 0), (5, 9, 0), (6, 10, - 2), (7, 11, - 4),
        (7, 11, - 6), (7, 11, - 8), (7, 12, - 8), (7, 13, - 8), (7, 13, - 10),
        (9, 14, - 10), (9, 14, - 10), (9, 15, - 12), (11, 15, - 12), (15, 16, - 12)],
     rc_entry 10 12 410 15 5632 11 20 19 19
       [(0, 11, 2), (4, 12, 0), (9, 13, 0), (10, 14, - 2), (11, 15, - 4),
        (11, 15, - 6), (11, 15, - 8), (11, 16, - 8), (11, 17, - 8), (11, 17, - 10),
        (13, 18, - 10), (13, 18, - 10), (13, 19, - 12), (15, 19, - 12), (19, 20, - 12)],
     rc_entry 10 14 410 15 5632 15 24 23 23
       [(0, 11, 2), (5, 13, 0), (11, 15, 0), (13, 18, - 2), (15, 19, - 4),
        (15, 19, - 6), (15, 19, - 8), (15, 20, - 8), (15, 21, - 8), (15, 21, - 10),
        (17, 22, - 10), (17, 22, - 10), (17, 23, - 12), (19, 23, - 12), (23, 24, - 12)],
     rc_entry 10 16 410 15 5632 19 28 27 27
       [(0, 11, 2), (6, 14, 0), (13, 17, 0), (16, 20, - 2), (19, 23, - 4),
        (19, 23, - 6), (19, 23, - 8), (19, 24, - 8), (19, 25, - 8), (19, 25, - 10),
        (21, 26, - 10), (21, 26, - 10), (21, 27, - 12), (23, 27, - 12), (27, 28, - 12)],
     rc_entry 12 8 341 15 2048 3 12 11 11
       [(0, 2, 2), (0, 4, 0), (1, 5, 0), (1, 6, - 2), (3, 7, - 4),
        (3, 7, - 6), (3, 7, - 8), (3, 8, - 8), (3, 8, - 8), (3, 9, - 10),
        (5, 9, - 10), (5, 9, - 12), (5, 9, - 12), (7, 10, - 12), (10, 11, - 12)],
     rc_entry 12 10 341 15 2048 7 16 15 15
       [(0, 2, 2), (2, 5, 0), (3, 7, 0), (4, 8, - 2), (6, 9, - 4),
        (7, 10, - 6), (7, 11, - 8), (7, 12, - 8), (7, 12, - 8), (7, 13, - 10),
        (9, 13, - 10), (9, 13, - 12), (9, 13, - 12), (11, 14, - 12), (14, 15, - 12)],
     rc_entry 12 12 341 15 2048 11 20 19 19
       [(0, 6, 2), (4, 9, 0), (7, 11, 0), (8, 12, - 2), (10, 13, - 4),
        (11, 14, - 6), (11, 15, - 8), (11, 16, - 8), (11, 16, - 8), (11, 17, - 10),
        (13, 17, - 10), (13, 17, - 12), (13, 17, - 12), (15, 18, - 12), (18, 19, - 12)],
     rc_entry 12 14 341 15 2048 15 24 23 23
       [(0, 6, 2), (7, 10, 0), (9, 13, 0), (11, 16, - 2), (14, 17, - 4),
        (15, 18, - 6), (15, 19, - 8), (15, 20, - 8), (15, 20, - 8), (15, 21, - 10),
        (17, 21, - 10), (17, 21, - 12), (17, 21, - 12), (19, 22, - 12), (22, 23, - 12)],
     rc_entry 12 16 341 15 2048 19 28 27 27
       [(0, 6, 2), (6, 11, 0), (11, 15, 0), (14, 18, - 2), (18, 21, - 4),
        (19, 22, - 6), (19, 23, - 8), (19, 24, - 8), (19, 24, - 8), (19, 25, - 10),
        (21, 25, - 10), (21, 25, - 12), (21, 25, - 12), (23, 26, - 12), (26, 27, - 12)]]"

definition rc_parameters_1_2_444_part3 :: "rc_parameters_data list" where
  "rc_parameters_1_2_444_part3 = [
     rc_entry 15 8 273 15 2048 3 12 11 11
       [(0, 0, 10), (0, 1, 8), (0, 1, 6), (0, 2, 4), (1, 2, 2),
        (1, 3, 0), (1, 3, - 2), (2, 4, - 4), (2, 5, - 6), (3, 5, - 8),
        (4, 6, - 10), (4, 7, - 10), (5, 7, - 12), (7, 8, - 12), (8, 9, - 12)],
     rc_entry 15 10 273 15 2048 7 16 15 15
       [(0, 2, 10), (2, 5, 8), (3, 5, 6), (4, 6, 4), (5, 6, 2),
        (5, 7, 0), (5, 7, - 2), (6, 8, - 4), (6, 9, - 6), (7, 9, - 8),
        (8, 10, - 10), (8, 11, - 10), (9, 11, - 12), (11, 12, - 12), (12, 13, - 12)],
     rc_entry 15 12 273 15 2048 11 20 19 19
       [(0, 4, 10), (2, 7, 8), (4, 9, 6), (6, 11, 4), (9, 11, 2),
        (9, 11, 0), (9, 12, - 2), (10, 12, - 4), (11, 13, - 6), (11, 13, - 8),
        (12, 14, - 10), (13, 15, - 10), (13, 15, - 12), (15, 16, - 12), (16, 17, - 12)],
     rc_entry 15 14 273 15 2048 15 24 23 23
       [(0, 4, 10), (3, 8, 8), (6, 11, 6), (9, 14, 4), (13, 15, 2),
        (13, 15, 0), (13, 16, - 2), (14, 16, - 4), (15, 17, - 6), (15, 17, - 8),
        (16, 18, - 10), (17, 19, - 10), (17, 19, - 12), (19, 20, - 12), (20, 21, - 12)],
     rc_entry 15 16 273 15 2048 19 28 27 27
       [(0, 4, 10), (4, 9, 8), (8, 13, 6), (12, 17, 4), (17, 19, 2),
        (17, 20, 0), (17, 20, - 2), (18, 20, - 4), (19, 21, - 6), (19, 21, - 8),
        (20, 22, - 10), (21, 23, - 10), (21, 23, - 12), (23, 24, - 12), (24, 25, - 12)]]"

definition rc_parameters_1_2_444 :: "rc_parameters_data list" where
  "rc_parameters_1_2_444 = rc_parameters_1_2_444_part1 @ rc_parameters_1_2_444_part2 @ rc_parameters_1_2_444_part3 @ [rc_sentinel]"

definition rc_parameters_1_2_422_part1 :: "rc_parameters_data list" where
  "rc_parameters_1_2_422_part1 = [
     rc_entry 6 8 512 15 6144 3 12 11 11
       [(0, 4, 2), (0, 4, 0), (1, 5, 0), (1, 6, - 2), (3, 7, - 4),
        (3, 7, - 6), (3, 7, - 8), (3, 8, - 8), (3, 9, - 8), (3, 10, - 10),
        (5, 10, - 10), (5, 11, - 12), (5, 11, - 12), (9, 12, - 12), (12, 13, - 12)],
     rc_entry 6 10 512 15 6144 7 16 15 15
       [(0, 8, 2), (4, 8, 0), (5, 9, 0), (5, 10, - 2), (7, 11, - 4),
        (7, 11, - 6), (7, 11, - 8), (7, 12, - 8), (7, 13, - 8), (7, 14, - 10),
        (9, 14, - 10), (9, 15, - 12), (9, 15, - 12), (13, 16, - 12), (16, 17, - 12)],
     rc_entry 6 12 512 15 6144 11 20 19 19
       [(0, 12, 2), (4, 12, 0), (9, 13, 0), (9, 14, - 2), (11, 15, - 4),
        (11, 15, - 6), (11, 15, - 8), (11, 16, - 8), (11, 17, - 8), (11, 18, - 10),
        (13, 18, - 10), (13, 19, - 12), (13, 19, - 12), (17, 20, - 12), (20, 21, - 12)],
     rc_entry 6 14 512 15 6144 15 24 23 23
       [(0, 12, 2), (5, 13, 0), (11, 15, 0), (12, 17, - 2), (15, 19, - 4),
        (15, 19, - 6), (15, 19, - 8), (15, 20, - 8), (15, 21, - 8), (15, 22, - 10),
        (17, 22, - 10), (17, 23, - 12), (17, 23, - 12), (21, 24, - 12), (24, 25, - 12)],
     rc_entry 6 16 512 15 6144 19 28 27 27
       [(0, 12, 2), (6, 14, 0), (13, 17, 0), (15, 20, - 2), (19, 23, - 4),
        (19, 23, - 6), (19, 23, - 8), (19, 24, - 8), (19, 25, - 8), (19, 26, - 10),
        (21, 26, - 10), (21, 27, - 12), (21, 27, - 12), (25, 28, - 12), (28, 29, - 12)],
     rc_entry 7 8 410 15 5632 3 12 11 11
       [(0, 3, 2), (0, 4, 0), (1, 5, 0), (2, 6, - 2), (3, 7, - 4),
        (3, 7, - 6), (3, 7, - 8), (3, 8, - 8), (3, 9, - 8), (3, 9, - 10),
        (5, 10, - 10), (5, 10, - 10), (5, 11, - 12), (7, 11, - 12), (11, 12, - 12)],
     rc_entry 7 10 410 15 5632 7 16 15 15
       [(0, 7, 2), (4, 8, 0), (5, 9, 0), (6, 10, - 2), (7, 11, - 4),
        (7, 11, - 6), (7, 11, - 8), (7, 12, - 8), (7, 13, - 8), (7, 13, - 10),
        (9, 14, - 10), (9, 14, - 10), (9, 15, - 12), (11, 15, - 12), (15, 16, - 12)],
     rc_entry 7 12 410 15 5632 11 20 19 19
       [(0, 11, 2), (4, 12, 0), (9, 13, 0), (10, 14, - 2), (11, 15, - 4),
        (11, 15, - 6), (11, 15, - 8), (11, 16, - 8), (11, 17, - 8), (11, 17, - 10),
        (13, 18, - 10), (13, 18, - 10), (13, 19, - 12), (15, 19, - 12), (19, 20, - 12)],
     rc_entry 7 14 410 15 5632 15 24 23 23
       [(0, 11, 2), (5, 13, 0), (11, 15, 0), (13, 18, - 2), (15, 19, - 4),
        (15, 19, - 6), (15, 19, - 8), (15, 20, - 8), (15, 21, - 8), (15, 21, - 10),
        (17, 22, - 10), (17, 22, - 10), (17, 23, - 12), (19, 23, - 12), (23, 24, - 12)],
     rc_entry 7 16 410 15 5632 19 28 27 27
       [(0, 11, 2), (6, 14, 0), (13, 17, 0), (16, 20, - 2), (19, 23, - 4),
        (19, 23, - 6), (19, 23, - 8), (19, 24, - 8), (19, 25, - 8), (19, 25, - 10),
        (21, 26, - 10), (21, 26, - 10), (21, 27, - 12), (23, 27, - 12), (27, 28, - 12)]]"

definition rc_parameters_1_2_422_part2 :: "rc_parameters_data list" where
  "rc_parameters_1_2_422_part2 = [
     rc_entry 8 8 341 15 2048 3 12 11 11
       [(0, 2, 2), (0, 4, 0), (1, 5, 0), (1, 6, - 2), (3, 7, - 4),
        (3, 7, - 6), (3, 7, - 8), (3, 8, - 8), (3, 8, - 8), (3, 9, - 10),
        (5, 9, - 10), (5, 9, - 12), (5, 9, - 12), (7, 10, - 12), (10, 11, - 12)],
     rc_entry 8 10 341 15 2048 7 16 15 15
       [(0, 2, 2), (2, 5, 0), (3, 7, 0), (4, 8, - 2), (6, 9, - 4),
        (7, 10, - 6), (7, 11, - 8), (7, 12, - 8), (7, 12, - 8), (7, 13, - 10),
        (9, 13, - 10), (9, 13, - 12), (9, 13, - 12), (11, 14, - 12), (14, 15, - 12)],
     rc_entry 8 12 341 15 2048 11 20 19 19
       [(0, 6, 2), (4, 9, 0), (7, 11, 0), (8, 12, - 2), (10, 13, - 4),
        (11, 14, - 6), (11, 15, - 8), (11, 16, - 8), (11, 16, - 8), (11, 17, - 10),
        (13, 17, - 10), (13, 17, - 12), (13, 17, - 12), (15, 18, - 12), (18, 19, - 12)],
     rc_entry 8 14 341 15 2048 15 24 23 23
       [(0, 6, 2), (7, 10, 0), (9, 13, 0), (11, 16, - 2), (14, 17, - 4),
        (15, 18, - 6), (15, 19, - 8), (15, 20, - 8), (15, 20, - 8), (15, 21, - 10),
        (17, 21, - 10), (17, 21, - 12), (17, 21, - 12), (19, 22, - 12), (22, 23, - 12)],
     rc_entry 8 16 341 15 2048 19 28 27 27
       [(0, 6, 2), (6, 11, 0), (11, 15, 0), (14, 18, - 2), (18, 21, - 4),
        (19, 22, - 6), (19, 23, - 8), (19, 24, - 8), (19, 24, - 8), (19, 25, - 10),
        (21, 25, - 10), (21, 25, - 12), (21, 25, - 12), (23, 26, - 12), (26, 27, - 12)],
     rc_entry 10 8 273 15 2048 3 12 11 11
       [(0, 0, 10), (0, 1, 8), (0, 1, 6), (0, 2, 4), (1, 2, 2),
        (1, 3, 0), (1, 3, - 2), (2, 4, - 4), (2, 5, - 6), (3, 5, - 8),
        (4, 6, - 10), (4, 7, - 10), (5, 7, - 12), (7, 8, - 12), (8, 9, - 12)],
     rc_entry 10 10 273 15 2048 7 16 15 15
       [(0, 2, 10), (2, 5, 8), (3, 5, 6), (4, 6, 4), (5, 6, 2),
        (5, 7, 0), (5, 7, - 2), (6, 8, - 4), (6, 9, - 6), (7, 9, - 8),
        (8, 10, - 10), (8, 11, - 10), (9, 11, - 12), (11, 12, - 12), (12, 13, - 12)],
     rc_entry 10 12 273 15 2048 11 20 19 19
       [(0, 4, 10), (2, 7, 8), (4, 9, 6), (6, 11, 4), (9, 11, 2),
        (9, 11, 0), (9, 12, - 2), (10, 12, - 4), (11, 13, - 6), (11, 13, - 8),
        (12, 14, - 10), (13, 15, - 10), (13, 15, - 12), (15, 16, - 12), (16, 17, - 12)],
     rc_entry 10 14 273 15 2048 15 24 23 23
       [(0, 4, 10), (3, 8, 8), (6, 11, 6), (9, 14, 4), (13, 15, 2),
        (13, 15, 0), (13, 16, - 2), (14, 16, - 4), (15, 17, - 6), (15, 17, - 8),
        (16, 18, - 10), (17, 19, - 10), (17, 19, - 12), (19, 20, - 12), (20, 21, - 12)],
     rc_entry 10 16 273 15 2048 19 28 27 27
       [(0, 4, 10), (4, 9, 8), (8, 13, 6), (12, 17, 4), (17, 19, 2),
        (17, 20, 0), (17, 20, - 2), (18, 20, - 4), (19, 21, - 6), (19, 21, - 8),
        (20, 22, - 10), (21, 23, - 10), (21, 23, - 12), (23, 24, - 12), (24, 25, - 12)]]"

definition rc_parameters_1_2_422 :: "rc_parameters_data list" where
  "rc_parameters_1_2_422 = rc_parameters_1_2_422_part1 @ rc_parameters_1_2_422_part2 @ [rc_sentinel]"

definition rc_parameters_1_2_420_part1 :: "rc_parameters_data list" where
  "rc_parameters_1_2_420_part1 = [
     rc_entry 4 8 512 12 6144 3 12 11 11
       [(0, 4, 2), (0, 4, 0), (1, 5, 0), (1, 6, - 2), (3, 7, - 4),
        (3, 7, - 6), (3, 7, - 8), (3, 8, - 8), (3, 9, - 8), (3, 10, - 10),
        (5, 10, - 10), (5, 11, - 12), (5, 11, - 12), (9, 12, - 12), (12, 13, - 12)],
     rc_entry 4 10 512 12 6144 7 16 15 15
       [(0, 8, 2), (4, 8, 0), (5, 9, 0), (5, 10, - 2), (7, 11, - 4),
        (7, 11, - 6), (7, 11, - 8), (7, 12, - 8), (7, 13, - 8), (7, 14, - 10),
        (9, 14, - 10), (9, 15, - 12), (9, 15, - 12), (13, 16, - 12), (16, 17, - 12)],
     rc_entry 4 12 512 12 6144 11 20 19 19
       [(0, 12, 2), (4, 12, 0), (9, 13, 0), (9, 14, - 2), (11, 15, - 4),
        (11, 15, - 6), (11, 15, - 8), (11, 16, - 8), (11, 17, - 8), (11, 18, - 10),
        (13, 18, - 10), (13, 19, - 12), (13, 19, - 12), (17, 20, - 12), (20, 21, - 12)],
     rc_entry 4 14 512 12 6144 15 24 23 23
       [(0, 12, 2), (5, 13, 0), (11, 15, 0), (12, 17, - 2), (15, 19, - 4),
        (15, 19, - 6), (15, 19, - 8), (15, 20, - 8), (15, 21, - 8), (15, 22, - 10),
        (17, 22, - 10), (17, 23, - 12), (17, 23, - 12), (21, 24, - 12), (24, 25, - 12)],
     rc_entry 4 16 512 12 6144 19 28 27 27
       [(0, 12, 2), (6, 14, 0), (13, 17, 0), (15, 20, - 2), (19, 23, - 4),
        (19, 23, - 6), (19, 23, - 8), (19, 24, - 8), (19, 25, - 8), (19, 26, - 10),
        (21, 26, - 10), (21, 27, - 12), (21, 27, - 12), (25, 28, - 12), (28, 29, - 12)],
     rc_entry 5 8 410 15 5632 3 12 11 11
       [(0, 3, 2), (0, 4, 0), (1, 5, 0), (2, 6, - 2), (3, 7, - 4),
        (3, 7, - 6), (3, 7, - 8), (3, 8, - 8), (3, 9, - 8), (3, 9, - 10),
        (5, 10, - 10), (5, 10, - 10), (5, 11, - 12), (7, 11, - 12), (11, 12, - 12)],
     rc_entry 5 10 410 15 5632 7 16 15 15
       [(0, 7, 2), (4, 8, 0), (5, 9, 0), (6, 10, - 2), (7, 11, - 4),
        (7, 11, - 6), (7, 11, - 8), (7, 12, - 8), (7, 13, - 8), (7, 13, - 10),
        (9, 14, - 10), (9, 14, - 10), (9, 15, - 12), (11, 15, - 12), (15, 16, - 12)],
     rc_entry 5 12 410 15 5632 11 20 19 19
       [(0, 11, 2), (4, 12, 0), (9, 13, 0), (10, 14, - 2), (11, 15, - 4),
        (11, 15, - 6), (11, 15, - 8), (11, 16, - 8), (11, 17, - 8), (11, 17, - 10),
        (13, 18, - 10), (13, 18, - 10), (13, 19, - 12), (15, 19, - 12), (19, 20, - 12)],
     rc_entry 5 14 410 15 5632 15 24 23 23
       [(0, 11, 2), (5, 13, 0), (11, 15, 0), (13, 18, - 2), (15, 19, - 4),
        (15, 19, - 6), (15, 19, - 8), (15, 20, - 8), (15, 21, - 8), (15, 21, - 10),
        (17, 22, - 10), (17, 22, - 10), (17, 23, - 12), (19, 23, - 12), (23, 24, - 12)],
     rc_entry 5 16 410 15 5632 19 28 27 27
       [(0, 11, 2), (6, 14, 0), (13, 17, 0), (16, 20, - 2), (19, 23, - 4),
        (19, 23, - 6), (19, 23, - 8), (19, 24, - 8), (19, 25, - 8), (19, 25, - 10),
        (21, 26, - 10), (21, 26, - 10), (21, 27, - 12), (23, 27, - 12), (27, 28, - 12)]]"

definition rc_parameters_1_2_420_part2 :: "rc_parameters_data list" where
  "rc_parameters_1_2_420_part2 = [
     rc_entry 6 8 341 15 2048 3 12 11 11
       [(0, 2, 2), (0, 4, 0), (1, 5, 0), (1, 6, - 2), (3, 7, - 4),
        (3, 7, - 6), (3, 7, - 8), (3, 8, - 8), (3, 8, - 8), (3, 9, - 10),
        (5, 9, - 10), (5, 9, - 12), (5, 9, - 12), (7, 10, - 12), (10, 12, - 12)],
     rc_entry 6 10 341 15 2048 7 16 15 15
       [(0, 2, 2), (2, 5, 0), (3, 7, 0), (4, 8, - 2), (6, 9, - 4),
        (7, 10, - 6), (7, 11, - 8), (7, 12, - 8), (7, 12, - 8), (7, 13, - 10),
        (9, 13, - 10), (9, 13, - 12), (9, 13, - 12), (11, 14, - 12), (14, 15, - 12)],
     rc_entry 6 12 341 15 2048 11 20 19 19
       [(0, 6, 2), (4, 9, 0), (7, 11, 0), (8, 12, - 2), (10, 13, - 4),
        (11, 14, - 6), (11, 15, - 8), (11, 16, - 8), (11, 16, - 8), (11, 17, - 10),
        (13, 17, - 10), (13, 17, - 12), (13, 17, - 12), (15, 18, - 12), (18, 19, - 12)],
     rc_entry 6 14 341 15 2048 15 24 23 23
       [(0, 6, 2), (7, 10, 0), (9, 13, 0), (11, 16, - 2), (14, 17, - 4),
        (15, 18, - 6), (15, 19, - 8), (15, 20, - 8), (15, 20, - 8), (15, 21, - 10),
        (17, 21, - 10), (17, 21, - 12), (17, 21, - 12), (19, 22, - 12), (22, 23, - 12)],
     rc_entry 6 16 341 15 2048 19 28 27 27
       [(0, 6, 2), (6, 11, 0), (11, 15, 0), (14, 18, - 2), (18, 21, - 4),
        (19, 22, - 6), (19, 23, - 8), (19, 24, - 8), (19, 24, - 8), (19, 25, - 10),
        (21, 25, - 10), (21, 25, - 12), (21, 25, - 12), (23, 26, - 12), (26, 27, - 12)],
     rc_entry 8 8 256 15 2048 3 12 11 11
       [(0, 0, 10), (0, 1, 8), (0, 1, 6), (0, 2, 4), (1, 2, 2),
        (1, 3, 0), (1, 3, - 2), (2, 4, - 4), (2, 5, - 6), (3, 5, - 8),
        (4, 6, - 10), (4, 7, - 10), (5, 7, - 12), (7, 8, - 12), (8, 9, - 12)],
     rc_entry 8 10 256 15 2048 7 16 15 15
       [(0, 2, 10), (2, 5, 8), (3, 5, 6), (4, 6, 4), (5, 6, 2),
        (5, 7, 0), (5, 7, - 2), (6, 8, - 4), (6, 9, - 6), (7, 9, - 8),
        (8, 10, - 10), (8, 11, - 10), (9, 11, - 12), (11, 12, - 12), (12, 13, - 12)],
     rc_entry 8 12 256 15 2048 11 20 19 19
       [(0, 4, 10), (2, 7, 8), (4, 9, 6), (6, 11, 4), (9, 11, 2),
        (9, 11, 0), (9, 12, - 2), (10, 12, - 4), (11, 13, - 6), (11, 13, - 8),
        (12, 14, - 10), (13, 15, - 10), (13, 15, - 12), (15, 16, - 12), (16, 17, - 12)],
     rc_entry 8 14 256 15 2048 15 24 23 23
       [(0, 4, 10), (3, 8, 8), (6, 11, 6), (9, 14, 4), (13, 15, 2),
        (13, 15, 0), (13, 16, - 2), (14, 16, - 4), (15, 17, - 6), (15, 17, - 8),
        (16, 18, - 10), (17, 19, - 10), (17, 19, - 12), (19, 20, - 12), (20, 21, - 12)],
     rc_entry 8 16 256 15 2048 19 28 27 27
       [(0, 4, 10), (4, 9, 8), (8, 13, 6), (12, 17, 4), (17, 19, 2),
        (17, 20, 0), (17, 20, - 2), (18, 20, - 4), (19, 21, - 6), (19, 21, - 8),
        (20, 22, - 10), (21, 23, - 10), (21, 23, - 12), (23, 24, - 12), (24, 25, - 12)]]"

definition rc_parameters_1_2_420 :: "rc_parameters_data list" where
  "rc_parameters_1_2_420 = rc_parameters_1_2_420_part1 @ rc_parameters_1_2_420_part2 @ [rc_sentinel]"

section \<open>Well-formedness of the tables\<close>

text \<open>
  What the rest of the code relies on: the sentinel is the only entry with zero bits per pixel, an
  entry has one range for each buffer range, quantisation parameters are ordered and fit the five
  bits, and offsets the six bits (two's complement), that the picture parameter set has for them.
\<close>

definition rc_range_ok :: "drm_dsc_rc_range_parameters \<Rightarrow> bool" where
  "rc_range_ok r \<longleftrightarrow> range_min_qp r \<le> range_max_qp r \<and> range_max_qp r < 32 \<and>
     (range_bpg_offset r < 32 \<or> - 32 \<le> range_bpg_offset r)"

definition rc_entry_ok :: "rc_parameters_data \<Rightarrow> bool" where
  "rc_entry_ok d \<longleftrightarrow> rpd_bpp d \<noteq> 0 \<and> rpd_bpc d \<noteq> 0 \<and>
     length (rp_rc_range_params (rpd_params d)) = DSC_NUM_BUF_RANGES \<and>
     list_all rc_range_ok (rp_rc_range_params (rpd_params d)) \<and>
     rp_flatness_min_qp (rpd_params d) \<le> rp_flatness_max_qp (rpd_params d) \<and>
     rp_initial_xmit_delay (rpd_params d) < 1024"

definition rc_table_ok :: "rc_parameters_data list \<Rightarrow> bool" where
  "rc_table_ok t \<longleftrightarrow> t \<noteq> [] \<and> last t = rc_sentinel \<and> list_all rc_entry_ok (butlast t) \<and>
     distinct (map (\<lambda>d. (rpd_bpp d, rpd_bpc d)) t)"

lemma rc_parameters_pre_scr_ok: "rc_table_ok rc_parameters_pre_scr"
  by code_simp

lemma rc_parameters_1_2_444_ok: "rc_table_ok rc_parameters_1_2_444"
  by code_simp

lemma rc_parameters_1_2_422_ok: "rc_table_ok rc_parameters_1_2_422"
  by code_simp

lemma rc_parameters_1_2_420_ok: "rc_table_ok rc_parameters_1_2_420"
  by code_simp

end
