(* ===== verification/DSC.thy ===== *)
theory DSC
  imports DSC_Tables
begin

unbundle bit_operations_syntax

text \<open>
  Display Stream Compression, \<open>display/drm_dsc_helper.c\<close>: packing the picture parameter set, the
  constant parameters, the lookup in the rate control tables and the computation of the rate control
  parameters. The fields of \<open>struct drm_dsc_config\<close> are words of their C width. Expressions are
  evaluated on \<open>int\<close> with the conversions C makes: products of \<open>u16\<close> values are \<open>int\<close> (wrapping
  at 32 bits), and an operand of type \<open>unsigned long\<close> (64 bits) makes the operation unsigned.
  \<open>None\<close> is a division by zero.
\<close>

section \<open>Configuration\<close>

record drm_dsc_config =
  line_buf_depth :: u8
  bits_per_component :: u8
  convert_rgb :: bool
  slice_count :: u8
  slice_width :: u16
  slice_height :: u16
  simple_422 :: bool
  pic_width :: u16
  pic_height :: u16
  rc_tgt_offset_high :: u8
  rc_tgt_offset_low :: u8
  bits_per_pixel :: u16
  rc_edge_factor :: u8
  rc_quant_incr_limit1 :: u8
  rc_quant_incr_limit0 :: u8
  initial_xmit_delay :: u16
  initial_dec_delay :: u16
  block_pred_enable :: bool
  first_line_bpg_offset :: u8
  initial_offset :: u16
  rc_buf_thresh :: "u16 list"
  rc_range_params :: "drm_dsc_rc_range_parameters list"
  rc_model_size :: u16
  flatness_min_qp :: u8
  flatness_max_qp :: u8
  initial_scale_value :: u8
  scale_decrement_interval :: u16
  scale_increment_interval :: u16
  nfl_bpg_offset :: u16
  slice_bpg_offset :: u16
  final_offset :: u16
  vbr_enable :: bool
  mux_word_size :: u8
  slice_chunk_size :: u16
  rc_bits :: u16
  dsc_version_minor :: u8
  dsc_version_major :: u8
  native_422 :: bool
  native_420 :: bool
  second_line_bpg_offset :: u8
  nsl_bpg_offset :: u16
  second_line_offset_adj :: u16

text \<open>The arrays have their declared sizes.\<close>

definition dsc_arrays_ok :: "drm_dsc_config \<Rightarrow> bool" where
  "dsc_arrays_ok cfg \<longleftrightarrow> length (rc_buf_thresh cfg) = 14 \<and> length (rc_range_params cfg) = 15"

section \<open>The picture parameter set\<close>

definition drm_dsc_dp_pps_header_init :: "u8 list" where
  "drm_dsc_dp_pps_header_init = [0, 0x10, 0x7F, 0]"

definition drm_dsc_dp_rc_buffer_size :: "u8 \<Rightarrow> u8 \<Rightarrow> int" where
  "drm_dsc_dp_rc_buffer_size block_size buffer_size =
     (let sz = 1024 * (uint buffer_size + 1)
      in if block_size = 0 then 1 * sz
         else if block_size = 1 then 4 * sz
         else if block_size = 2 then 16 * sz
         else if block_size = 3 then 64 * sz
         else 0)"

text \<open>\<open>cpu_to_be16\<close>, as the two bytes in memory.\<close>

definition be16 :: "u16 \<Rightarrow> u8 list" where
  "be16 w = [ucast (drop_bit 8 w), ucast w]"

definition pack_rc_range :: "drm_dsc_rc_range_parameters \<Rightarrow> u8 list" where
  "pack_rc_range r =
     be16 (push_bit 11 (ucast (range_min_qp r)) OR push_bit 6 (ucast (range_max_qp r)) OR
           ucast (range_bpg_offset r))"

text \<open>The packed structure as its 128 bytes. Values are truncated to the width of the field.\<close>

definition drm_dsc_pps_payload_pack :: "drm_dsc_config \<Rightarrow> u8 list" where
  "drm_dsc_pps_payload_pack cfg =
     [dsc_version_minor cfg OR push_bit 4 (dsc_version_major cfg)] @
     [0, 0] @
     [line_buf_depth cfg OR push_bit 4 (bits_per_component cfg)] @
     [ucast (drop_bit 8 (bits_per_pixel cfg AND 0x300)) OR
      push_bit 2 (of_bool (vbr_enable cfg)) OR
      push_bit 3 (of_bool (simple_422 cfg)) OR
      push_bit 4 (of_bool (convert_rgb cfg)) OR
      push_bit 5 (of_bool (block_pred_enable cfg))] @
     [ucast (bits_per_pixel cfg AND 0xFF)] @
     be16 (pic_height cfg) @
     be16 (pic_width cfg) @
     be16 (slice_height cfg) @
     be16 (slice_width cfg) @
     be16 (slice_chunk_size cfg) @
     [ucast (drop_bit 8 (initial_xmit_delay cfg AND 0x300))] @
     [ucast (initial_xmit_delay cfg AND 0xFF)] @
     be16 (initial_dec_delay cfg) @
     [0] @
     [initial_scale_value cfg] @
     be16 (scale_increment_interval cfg) @
     [ucast (drop_bit 8 (scale_decrement_interval cfg AND 0xF00))] @
     [ucast (scale_decrement_interval cfg AND 0xFF)] @
     [0] @
     [first_line_bpg_offset cfg] @
     be16 (nfl_bpg_offset cfg) @
     be16 (slice_bpg_offset cfg) @
     be16 (initial_offset cfg) @
     be16 (final_offset cfg) @
     [flatness_min_qp cfg] @
     [flatness_max_qp cfg] @
     be16 (rc_model_size cfg) @
     [6] @
     [rc_quant_incr_limit0 cfg] @
     [rc_quant_incr_limit1 cfg] @
     [3 OR push_bit 4 3] @
     map (\<lambda>i. ucast (rc_buf_thresh cfg ! i)) [0..<14] @
     concat (map (\<lambda>i. pack_rc_range (rc_range_params cfg ! i)) [0..<15]) @
     [of_bool (native_422 cfg) OR push_bit 1 (of_bool (native_420 cfg))] @
     [second_line_bpg_offset cfg] @
     be16 (nsl_bpg_offset cfg) @
     be16 (second_line_offset_adj cfg) @
     replicate 34 0"

section \<open>Constant parameters and thresholds\<close>

definition drm_dsc_set_const_params :: "drm_dsc_config \<Rightarrow> drm_dsc_config" where
  "drm_dsc_set_const_params cfg =
     cfg\<lparr>rc_model_size := if rc_model_size cfg = 0 then 8192 else rc_model_size cfg,
         rc_edge_factor := 6, rc_tgt_offset_high := 3, rc_tgt_offset_low := 3,
         mux_word_size := if bits_per_component cfg \<le> 10 then 48 else 64\<rparr>"

definition drm_dsc_rc_buf_thresh :: "u16 list" where
  "drm_dsc_rc_buf_thresh =
     [896, 1792, 2688, 3584, 4480, 5376, 6272, 6720, 7168, 7616, 7744, 7872, 8000, 8064]"

definition drm_dsc_set_rc_buf_thresh :: "drm_dsc_config \<Rightarrow> drm_dsc_config" where
  "drm_dsc_set_rc_buf_thresh cfg =
     (let th = map (drop_bit 6) drm_dsc_rc_buf_thresh
      in cfg\<lparr>rc_buf_thresh :=
           if bits_per_pixel cfg = push_bit 4 6
           then th[12 := drop_bit 6 7936, 13 := drop_bit 6 8000] else th\<rparr>)"

section \<open>Table lookup\<close>

text \<open>The values of \<open>enum drm_dsc_params_type\<close>.\<close>

definition DRM_DSC_1_2_444 :: int where "DRM_DSC_1_2_444 = 0"
definition DRM_DSC_1_1_PRE_SCR :: int where "DRM_DSC_1_1_PRE_SCR = 1"
definition DRM_DSC_1_2_422 :: int where "DRM_DSC_1_2_422 = 2"
definition DRM_DSC_1_2_420 :: int where "DRM_DSC_1_2_420 = 3"

lemmas dsc_type_defs = DRM_DSC_1_2_444_def DRM_DSC_1_1_PRE_SCR_def DRM_DSC_1_2_422_def DRM_DSC_1_2_420_def

text \<open>The loop ends at the first entry with zero bits per pixel. The \<open>u8\<close> of the table is compared
  with the \<open>u16\<close> argument as \<open>int\<close>.\<close>

fun get_rc_params :: "rc_parameters_data list \<Rightarrow> u16 \<Rightarrow> u8 \<Rightarrow> rc_parameters option" where
  "get_rc_params [] dsc_bpp bpc = None"
| "get_rc_params (d # ds) dsc_bpp bpc =
     (if rpd_bpp d = 0 then None
      else if uint (rpd_bpp d) = uint dsc_bpp \<and> rpd_bpc d = bpc then Some (rpd_params d)
      else get_rc_params ds dsc_bpp bpc)"

definition rc_table :: "int \<Rightarrow> rc_parameters_data list option" where
  "rc_table type =
     (if type = DRM_DSC_1_2_444 then Some rc_parameters_1_2_444
      else if type = DRM_DSC_1_1_PRE_SCR then Some rc_parameters_pre_scr
      else if type = DRM_DSC_1_2_422 then Some rc_parameters_1_2_422
      else if type = DRM_DSC_1_2_420 then Some rc_parameters_1_2_420
      else None)"

definition drm_dsc_setup_rc_params :: "drm_dsc_config \<Rightarrow> int \<Rightarrow> int \<times> drm_dsc_config" where
  "drm_dsc_setup_rc_params cfg type =
     (if bits_per_pixel cfg = 0 \<or> bits_per_component cfg = 0 then (neg_errno EINVAL, cfg)
      else case rc_table type of
        None \<Rightarrow> (neg_errno EINVAL, cfg)
      | Some data \<Rightarrow>
          case get_rc_params data (bits_per_pixel cfg) (bits_per_component cfg) of
            None \<Rightarrow> (neg_errno EINVAL, cfg)
          | Some p \<Rightarrow>
              (0, cfg\<lparr>first_line_bpg_offset := rp_first_line_bpg_offset p,
                      initial_xmit_delay := rp_initial_xmit_delay p,
                      initial_offset := rp_initial_offset p,
                      flatness_min_qp := rp_flatness_min_qp p,
                      flatness_max_qp := rp_flatness_max_qp p,
                      rc_quant_incr_limit0 := rp_rc_quant_incr_limit0 p,
                      rc_quant_incr_limit1 := rp_rc_quant_incr_limit1 p,
                      rc_range_params :=
                        map (\<lambda>i. let r = rp_rc_range_params p ! i
                                 in \<lparr>range_min_qp = range_min_qp r, range_max_qp = range_max_qp r,
                                     range_bpg_offset = range_bpg_offset r AND 0x3f\<rparr>)
                          [0..<DSC_NUM_BUF_RANGES]\<rparr>))"

section \<open>Rate control parameters\<close>

text \<open>The loop that reduces the extra mux bits, on \<open>unsigned long\<close> values.\<close>

function mux_bits_loop :: "int \<Rightarrow> int \<Rightarrow> int \<Rightarrow> int" where
  "mux_bits_loop slice_bits mux n =
     (if n > 0 \<and> to_u64 (slice_bits - n) mod mux \<noteq> 0 then mux_bits_loop slice_bits mux (n - 1) else n)"
  by auto
termination by (relation "measure (\<lambda>(_, _, n). nat n)") auto

declare mux_bits_loop.simps [simp del]

definition num_extra_mux_bits :: "drm_dsc_config \<Rightarrow> int" where
  "num_extra_mux_bits cfg =
     (let mux = uint (mux_word_size cfg); bpc = uint (bits_per_component cfg)
      in if convert_rgb cfg then 3 * (mux + (4 * bpc + 4) - 2)
         else if native_422 cfg then 4 * mux + (4 * bpc + 4) + 3 * (4 * bpc) - 2
         else 3 * mux + (4 * bpc + 4) + 2 * (4 * bpc) - 2)"

text \<open>The width in pixels that is coded, and from it the groups per line and the chunk size.\<close>

definition coded_width :: "drm_dsc_config \<Rightarrow> int" where
  "coded_width cfg =
     (if native_420 cfg \<or> native_422 cfg then uint (slice_width cfg) div 2 else uint (slice_width cfg))"

definition groups_per_line :: "drm_dsc_config \<Rightarrow> int" where
  "groups_per_line cfg = div_round_up_s32 (coded_width cfg) 3"

definition chunk_size :: "drm_dsc_config \<Rightarrow> u16" where
  "chunk_size cfg = word_of_int (div_round_up_s32 (to_s32 (coded_width cfg * uint (bits_per_pixel cfg))) 128)"

text \<open>
  The function in the three stages between its early exits: up to the range check on the final
  offset, the offsets per line and slice, and the buffer size. \<open>num\<close> is the reduced number of extra
  mux bits.
\<close>

definition rc_stage1 :: "drm_dsc_config \<Rightarrow> (int \<times> drm_dsc_config) option" where
  "rc_stage1 cfg =
     (let gpl = groups_per_line cfg;
          cfg = cfg\<lparr>slice_chunk_size := chunk_size cfg\<rparr>;
          slice_bits = to_u64 (to_s32 (to_s32 (8 * uint (slice_chunk_size cfg)) * uint (slice_height cfg)));
          mux = uint (mux_word_size cfg)
      in if num_extra_mux_bits cfg > 0 \<and> mux = 0 then None
      else
        let num = mux_bits_loop slice_bits mux (num_extra_mux_bits cfg);
            cfg = (if gpl < to_u64 (uint (initial_scale_value cfg) - 8)
                   then cfg\<lparr>initial_scale_value := word_of_int (gpl + 8)\<rparr> else cfg);
            cfg = (if uint (initial_scale_value cfg) > 8
                   then cfg\<lparr>scale_decrement_interval :=
                              word_of_int (gpl div (uint (initial_scale_value cfg) - 8))\<rparr>
                   else cfg\<lparr>scale_decrement_interval := 4095\<rparr>);
            cfg = cfg\<lparr>final_offset := word_of_int (uint (rc_model_size cfg) -
                     c_div (to_s32 (to_s32 (uint (initial_xmit_delay cfg) * uint (bits_per_pixel cfg)) + 8)) 16 + num)\<rparr>
        in Some (num, cfg))"

definition rc_stage2 :: "int \<Rightarrow> int \<Rightarrow> drm_dsc_config \<Rightarrow> drm_dsc_config option" where
  "rc_stage2 gpl num cfg =
     (let final_scale = (uint (rc_model_size cfg) * 8) div (uint (rc_model_size cfg) - uint (final_offset cfg));
          cfg = cfg\<lparr>nfl_bpg_offset :=
                  if uint (slice_height cfg) > 1
                  then word_of_int (div_round_up_s32 (uint (first_line_bpg_offset cfg) * 2048)
                                      (uint (slice_height cfg) - 1))
                  else 0\<rparr>;
          groups_total = to_u64 (gpl * uint (slice_height cfg))
      in if groups_total = 0 then None
      else
        let n = to_u64 (to_u64 (uint (rc_model_size cfg) - uint (initial_offset cfg) + num) * 2048);
            cfg = cfg\<lparr>slice_bpg_offset := word_of_int (to_u64 (n + groups_total - 1) div groups_total)\<rparr>
        in if final_scale > 9
           then let d = to_u64 ((uint (nfl_bpg_offset cfg) + uint (slice_bpg_offset cfg)) * (final_scale - 9))
                in if d = 0 then None
                   else Some (cfg\<lparr>scale_increment_interval := word_of_int (uint (final_offset cfg) * 2048 div d)\<rparr>)
           else Some (cfg\<lparr>scale_increment_interval := 0\<rparr>))"

definition rc_stage3 :: "int \<Rightarrow> drm_dsc_config \<Rightarrow> drm_dsc_config option" where
  "rc_stage3 gpl cfg =
     (let bpp = uint (bits_per_pixel cfg);
          rbs_min = to_u64 (to_s32 (uint (rc_model_size cfg) - uint (initial_offset cfg) +
                      div_round_up_s32 (to_s32 (uint (initial_xmit_delay cfg) * bpp)) 16) +
                      gpl * uint (first_line_bpg_offset cfg))
      in if bpp = 0 then None
      else
        let hrd_delay = to_u64 (to_u64 (rbs_min * 16) + bpp - 1) div bpp
        in Some (cfg\<lparr>rc_bits := word_of_int (to_u64 (hrd_delay * bpp) div 16),
                     initial_dec_delay := word_of_int (hrd_delay - uint (initial_xmit_delay cfg))\<rparr>))"

definition drm_dsc_compute_rc_parameters :: "drm_dsc_config \<Rightarrow> (int \<times> drm_dsc_config) option" where
  "drm_dsc_compute_rc_parameters cfg =
     (case rc_stage1 cfg of
        None \<Rightarrow> None
      | Some (num, cfg1) \<Rightarrow>
          if uint (final_offset cfg1) \<ge> uint (rc_model_size cfg1) then Some (neg_errno ERANGE, cfg1)
          else case rc_stage2 (groups_per_line cfg) num cfg1 of
            None \<Rightarrow> None
          | Some cfg2 \<Rightarrow>
              case rc_stage3 (groups_per_line cfg) cfg2 of
                None \<Rightarrow> None
              | Some cfg3 \<Rightarrow> Some (0, cfg3))"

section \<open>Derived values\<close>

definition drm_dsc_get_bpp_int :: "drm_dsc_config \<Rightarrow> u32" where
  "drm_dsc_get_bpp_int cfg = ucast (drop_bit 4 (bits_per_pixel cfg))"

definition drm_dsc_initial_scale_value :: "drm_dsc_config \<Rightarrow> u8 option" where
  "drm_dsc_initial_scale_value cfg =
     (let d = uint (rc_model_size cfg) - uint (initial_offset cfg)
      in if d = 0 then None else Some (word_of_int (c_div (8 * uint (rc_model_size cfg)) d)))"

text \<open>The shift is by less than 32 if at least 8 bits per component are used.\<close>

definition drm_dsc_flatness_det_thresh :: "drm_dsc_config \<Rightarrow> u32 option" where
  "drm_dsc_flatness_det_thresh cfg =
     (let k = uint (bits_per_component cfg) - 8
      in if k < 0 \<or> k \<ge> 32 then None else Some (push_bit (nat k) 2))"

section \<open>The picture parameter set can be read back\<close>

text \<open>
  The reader of a picture parameter set, after the layout in the comments of
  \<open>struct drm_dsc_picture_parameter_set\<close>. The fields that are not transmitted are those of \<open>cfg0\<close>.
\<close>

definition get16 :: "u8 list \<Rightarrow> nat \<Rightarrow> u16" where
  "get16 bs i = push_bit 8 (ucast (bs ! i)) OR ucast (bs ! (i + 1))"

definition get_rc_range :: "u16 \<Rightarrow> drm_dsc_rc_range_parameters" where
  "get_rc_range w = \<lparr>range_min_qp = ucast (drop_bit 11 w), range_max_qp = ucast (take_bit 5 (drop_bit 6 w)),
     range_bpg_offset = ucast (take_bit 6 w)\<rparr>"

definition pps_unpack :: "u8 list \<Rightarrow> drm_dsc_config \<Rightarrow> drm_dsc_config" where
  "pps_unpack bs cfg0 = cfg0\<lparr>
     dsc_version_minor := take_bit 4 (bs ! 0), dsc_version_major := drop_bit 4 (bs ! 0),
     line_buf_depth := take_bit 4 (bs ! 3), bits_per_component := drop_bit 4 (bs ! 3),
     bits_per_pixel := push_bit 8 (ucast (take_bit 2 (bs ! 4))) OR ucast (bs ! 5),
     vbr_enable := bit (bs ! 4) 2, simple_422 := bit (bs ! 4) 3, convert_rgb := bit (bs ! 4) 4,
     block_pred_enable := bit (bs ! 4) 5,
     pic_height := get16 bs 6, pic_width := get16 bs 8, slice_height := get16 bs 10,
     slice_width := get16 bs 12, slice_chunk_size := get16 bs 14,
     initial_xmit_delay := push_bit 8 (ucast (take_bit 2 (bs ! 16))) OR ucast (bs ! 17),
     initial_dec_delay := get16 bs 18, initial_scale_value := take_bit 6 (bs ! 21),
     scale_increment_interval := get16 bs 22,
     scale_decrement_interval := push_bit 8 (ucast (take_bit 4 (bs ! 24))) OR ucast (bs ! 25),
     first_line_bpg_offset := take_bit 5 (bs ! 27), nfl_bpg_offset := get16 bs 28, slice_bpg_offset := get16 bs 30,
     initial_offset := get16 bs 32, final_offset := get16 bs 34, flatness_min_qp := take_bit 5 (bs ! 36),
     flatness_max_qp := take_bit 5 (bs ! 37), rc_model_size := get16 bs 38, rc_edge_factor := take_bit 4 (bs ! 40),
     rc_quant_incr_limit0 := take_bit 5 (bs ! 41), rc_quant_incr_limit1 := take_bit 5 (bs ! 42),
     rc_tgt_offset_low := take_bit 4 (bs ! 43), rc_tgt_offset_high := drop_bit 4 (bs ! 43),
     rc_buf_thresh := map (\<lambda>i. ucast (bs ! (44 + i))) [0..<14],
     rc_range_params := map (\<lambda>i. get_rc_range (get16 bs (58 + 2 * i))) [0..<15],
     native_422 := bit (bs ! 88) 0, native_420 := bit (bs ! 88) 1, second_line_bpg_offset := take_bit 5 (bs ! 89),
     nsl_bpg_offset := get16 bs 90, second_line_offset_adj := get16 bs 92\<rparr>"

text \<open>The values of a configuration fit the fields they are packed into.\<close>

definition rc_range_fits :: "drm_dsc_rc_range_parameters \<Rightarrow> bool" where
  "rc_range_fits r \<longleftrightarrow> range_min_qp r < 32 \<and> range_max_qp r < 32 \<and> range_bpg_offset r < 64"

definition pps_fits :: "drm_dsc_config \<Rightarrow> bool" where
  "pps_fits cfg \<longleftrightarrow> dsc_arrays_ok cfg \<and> dsc_version_minor cfg < 16 \<and> dsc_version_major cfg < 16 \<and>
     line_buf_depth cfg < 16 \<and> bits_per_component cfg < 16 \<and> bits_per_pixel cfg < 1024 \<and>
     initial_xmit_delay cfg < 1024 \<and> scale_decrement_interval cfg < 4096 \<and>
     initial_scale_value cfg < 64 \<and> first_line_bpg_offset cfg < 32 \<and> flatness_min_qp cfg < 32 \<and>
     flatness_max_qp cfg < 32 \<and> rc_quant_incr_limit0 cfg < 32 \<and> rc_quant_incr_limit1 cfg < 32 \<and>
     second_line_bpg_offset cfg < 32 \<and>
     list_all (\<lambda>t. t < 256) (rc_buf_thresh cfg) \<and> list_all rc_range_fits (rc_range_params cfg)"

lemma nibbles:
  fixes a b :: u8
  assumes "a < 16" and "b < 16"
  shows "take_bit 4 (a OR push_bit 4 b) = a" "drop_bit 4 (a OR push_bit 4 b) = b"
proof -
  have a: "bit a m \<Longrightarrow> m < 4" and b: "bit b m \<Longrightarrow> m < 4" for m
    using less_exp_bit [of a 4 m] less_exp_bit [of b 4 m] assms by auto
  show "take_bit 4 (a OR push_bit 4 b) = a" "drop_bit 4 (a OR push_bit 4 b) = b"
    by (rule bit_word_eqI, auto simp: bit_simps dest: a b)+
qed

lemma be16_get: "push_bit 8 (ucast (ucast (drop_bit 8 w) :: u8)) OR ucast (ucast w :: u8) = (w :: u16)"
  by (rule bit_word_eqI) (auto simp: bit_simps)

lemma high_low:
  fixes w :: u16
  assumes "w < 2 ^ (8 + k)" and "k \<le> 8"
  shows "push_bit 8 (ucast (take_bit k (ucast (drop_bit 8 (w AND push_bit 8 (mask k))) :: u8))) OR
    ucast (ucast (w AND mask 8) :: u8) = w"
proof -
  have "bit w m \<Longrightarrow> m - 8 < k \<or> m < 8" for m using less_exp_bit [OF assms(1), of m] by auto
  then show ?thesis using assms(2) by (intro bit_word_eqI) (auto simp: bit_simps)
qed

lemma range_bits:
  fixes a b c :: u8 and w :: u16
  assumes lt: "a < 32" "b < 32" "c < 64"
    and w: "w = push_bit 11 (ucast a) OR push_bit 6 (ucast b) OR ucast c"
  shows "ucast (drop_bit 11 w) = a" "ucast (take_bit 5 (drop_bit 6 w)) = b" "ucast (take_bit 6 w) = c"
proof -
  have bits: "bit a m \<Longrightarrow> m < 5" "bit b m \<Longrightarrow> m < 5" "bit c m \<Longrightarrow> m < 6" for m
    using less_exp_bit [of a 5 m] less_exp_bit [of b 5 m] less_exp_bit [of c 6 m] lt by auto
  show "ucast (drop_bit 11 w) = a" "ucast (take_bit 5 (drop_bit 6 w)) = b" "ucast (take_bit 6 w) = c"
    unfolding w by (rule bit_word_eqI, auto simp: bit_simps dest: bits)+
qed

lemma range_get:
  assumes "rc_range_fits r"
  shows "get_rc_range (push_bit 8 (ucast (pack_rc_range r ! 0)) OR ucast (pack_rc_range r ! 1)) = r"
proof -
  define w :: u16 where "w = push_bit 11 (ucast (range_min_qp r)) OR push_bit 6 (ucast (range_max_qp r)) OR
    ucast (range_bpg_offset r)"
  have "push_bit 8 (ucast (pack_rc_range r ! 0)) OR ucast (pack_rc_range r ! 1) = w"
    unfolding pack_rc_range_def be16_def nth_Cons_0 One_nat_def nth_Cons_Suc be16_get w_def ..
  then show ?thesis using range_bits [OF _ _ _ w_def] assms by (simp add: get_rc_range_def rc_range_fits_def)
qed

lemma pps_flags:
  fixes x :: u8
  assumes "x < 4" and b: "b = x OR push_bit 2 (of_bool v) OR push_bit 3 (of_bool s) OR push_bit 4 (of_bool c) OR push_bit 5 (of_bool p)"
  shows "take_bit 2 b = x" "bit b 2 = v" "bit b 3 = s" "bit b 4 = c" "bit b 5 = p"
proof -
  have x: "bit x m \<Longrightarrow> m < 2" for m using less_exp_bit [of x 2 m] assms(1) by auto
  show "take_bit 2 b = x" unfolding b by (rule bit_word_eqI) (auto simp: bit_simps dest: x)
  show "bit b 2 = v" "bit b 3 = s" "bit b 4 = c" "bit b 5 = p"
    unfolding b by (auto simp: bit_simps dest: x)
qed

lemma map_nth_upt: "length xs = n \<Longrightarrow> map (\<lambda>i. f (xs ! i)) [0..<n] = map f xs"
  by (metis map_map map_nth comp_def map_cong)

lemma length_pack: "length (drm_dsc_pps_payload_pack cfg) = 128"
  by (simp add: drm_dsc_pps_payload_pack_def be16_def pack_rc_range_def upt_rec)


lemmas pack_simps = drm_dsc_pps_payload_pack_def get16_def be16_def upt_rec nth_append

lemma pack_ranges:
  "map (\<lambda>i. get16 (drm_dsc_pps_payload_pack cfg) (58 + 2 * i)) [0..<15] =
   map (\<lambda>i. push_bit 8 (ucast (pack_rc_range (rc_range_params cfg ! i) ! 0)) OR
     ucast (pack_rc_range (rc_range_params cfg ! i) ! 1)) [0..<15]"
  by (simp add: pack_simps pack_rc_range_def)

lemma pack_thresh:
  "map (\<lambda>i. drm_dsc_pps_payload_pack cfg ! (44 + i)) [0..<14] = map (\<lambda>i. ucast (rc_buf_thresh cfg ! i)) [0..<14]"
  by (simp add: pack_simps pack_rc_range_def)

lemma pack_masks: "(0x300 :: u16) = push_bit 8 (mask 2)" "(0xF00 :: u16) = push_bit 8 (mask 4)" "(0xFF :: u16) = mask 8"
  by (simp_all add: mask_eq_exp_minus_1)

lemma pack_bytes:
  "drm_dsc_pps_payload_pack cfg ! 0 = dsc_version_minor cfg OR push_bit 4 (dsc_version_major cfg)"
  "drm_dsc_pps_payload_pack cfg ! 3 = line_buf_depth cfg OR push_bit 4 (bits_per_component cfg)"
  "drm_dsc_pps_payload_pack cfg ! 4 = ucast (drop_bit 8 (bits_per_pixel cfg AND 0x300)) OR
      push_bit 2 (of_bool (vbr_enable cfg)) OR push_bit 3 (of_bool (simple_422 cfg)) OR
      push_bit 4 (of_bool (convert_rgb cfg)) OR push_bit 5 (of_bool (block_pred_enable cfg))"
  "drm_dsc_pps_payload_pack cfg ! 5 = ucast (bits_per_pixel cfg AND 0xFF)"
  "drm_dsc_pps_payload_pack cfg ! 16 = ucast (drop_bit 8 (initial_xmit_delay cfg AND 0x300))"
  "drm_dsc_pps_payload_pack cfg ! 17 = ucast (initial_xmit_delay cfg AND 0xFF)"
  "drm_dsc_pps_payload_pack cfg ! 24 = ucast (drop_bit 8 (scale_decrement_interval cfg AND 0xF00))"
  "drm_dsc_pps_payload_pack cfg ! 25 = ucast (scale_decrement_interval cfg AND 0xFF)"
  "drm_dsc_pps_payload_pack cfg ! 43 = 3 OR push_bit 4 3"
  "drm_dsc_pps_payload_pack cfg ! 88 = of_bool (native_422 cfg) OR push_bit 1 (of_bool (native_420 cfg))"
  by (simp_all add: pack_simps pack_rc_range_def)

lemma pack_u8:
  "drm_dsc_pps_payload_pack cfg ! 21 = initial_scale_value cfg" "drm_dsc_pps_payload_pack cfg ! 27 = first_line_bpg_offset cfg"
  "drm_dsc_pps_payload_pack cfg ! 36 = flatness_min_qp cfg" "drm_dsc_pps_payload_pack cfg ! 37 = flatness_max_qp cfg"
  "drm_dsc_pps_payload_pack cfg ! 40 = 6" "drm_dsc_pps_payload_pack cfg ! 41 = rc_quant_incr_limit0 cfg"
  "drm_dsc_pps_payload_pack cfg ! 42 = rc_quant_incr_limit1 cfg" "drm_dsc_pps_payload_pack cfg ! 89 = second_line_bpg_offset cfg"
  by (simp_all add: pack_simps pack_rc_range_def)

lemma pack_u16:
  "get16 (drm_dsc_pps_payload_pack cfg) 6 = pic_height cfg" "get16 (drm_dsc_pps_payload_pack cfg) 8 = pic_width cfg"
  "get16 (drm_dsc_pps_payload_pack cfg) 10 = slice_height cfg" "get16 (drm_dsc_pps_payload_pack cfg) 12 = slice_width cfg"
  "get16 (drm_dsc_pps_payload_pack cfg) 14 = slice_chunk_size cfg" "get16 (drm_dsc_pps_payload_pack cfg) 18 = initial_dec_delay cfg"
  "get16 (drm_dsc_pps_payload_pack cfg) 22 = scale_increment_interval cfg" "get16 (drm_dsc_pps_payload_pack cfg) 28 = nfl_bpg_offset cfg"
  "get16 (drm_dsc_pps_payload_pack cfg) 30 = slice_bpg_offset cfg" "get16 (drm_dsc_pps_payload_pack cfg) 32 = initial_offset cfg"
  "get16 (drm_dsc_pps_payload_pack cfg) 34 = final_offset cfg" "get16 (drm_dsc_pps_payload_pack cfg) 38 = rc_model_size cfg"
  "get16 (drm_dsc_pps_payload_pack cfg) 90 = nsl_bpg_offset cfg" "get16 (drm_dsc_pps_payload_pack cfg) 92 = second_line_offset_adj cfg"
  by (simp_all add: pack_simps pack_rc_range_def be16_get)


section \<open>Properties\<close>

lemma take_high:
  "k \<le> 8 \<Longrightarrow> take_bit k (ucast (drop_bit 8 (w AND push_bit 8 (mask k)) :: u16) :: u8) =
    ucast (drop_bit 8 (w AND push_bit 8 (mask k)))"
  by (rule bit_word_eqI) (auto simp: bit_simps)

lemma pps_two_bits: "ucast (drop_bit 8 (w AND push_bit 8 (mask 2)) :: u16) < (4 :: u8)"
proof -
  have "uint (take_bit 2 (x :: u8)) < 4" for x
    using take_bit_int_less_exp [of 2 "uint x"] by (simp add: unsigned_take_bit_eq)
  then have "take_bit 2 (x :: u8) < 4" for x by (simp add: word_less_def)
  from this [of "ucast (drop_bit 8 (w AND push_bit 8 (mask 2)) :: u16)"] show ?thesis
    using take_high [of 2 w] by simp
qed

lemma ucast_u8_id: "t < 256 \<Longrightarrow> ucast (ucast t :: u8) = (t :: u16)"
  using less_exp_bit [of t 8] by (intro bit_word_eqI) (auto simp: bit_simps)

lemma take_bit_fits: "x < 2 ^ k \<Longrightarrow> take_bit k x = x" for x :: u8
  using less_exp_bit [of x k] by (intro bit_word_eqI) (auto simp: bit_simps)

lemma pps_thresh_read:
  assumes len: "length (rc_buf_thresh cfg) = 14" and fits: "list_all (\<lambda>t. t < 256) (rc_buf_thresh cfg)"
  shows "map (\<lambda>i. ucast (drm_dsc_pps_payload_pack cfg ! (44 + i))) [0..<14] = rc_buf_thresh cfg"
proof -
  have "map (\<lambda>i. ucast (drm_dsc_pps_payload_pack cfg ! (44 + i))) [0..<14] =
      map (\<lambda>t. ucast (ucast t :: u8) :: u16) (rc_buf_thresh cfg)"
    using arg_cong [OF pack_thresh [of cfg], of "map (ucast :: u8 \<Rightarrow> u16)"] map_nth_upt [OF len, of "\<lambda>t. ucast (ucast t :: u8) :: u16"]
    by (simp only: map_map comp_def)
  also have "\<dots> = map (\<lambda>t. t) (rc_buf_thresh cfg)"
    using fits by (intro map_cong) (auto simp: list_all_iff ucast_u8_id)
  finally show ?thesis by simp
qed

lemma pps_ranges_read:
  assumes len: "length (rc_range_params cfg) = 15" and fits: "list_all rc_range_fits (rc_range_params cfg)"
  shows "map (\<lambda>i. get_rc_range (get16 (drm_dsc_pps_payload_pack cfg) (58 + 2 * i))) [0..<15] = rc_range_params cfg"
proof -
  let ?read = "\<lambda>r. get_rc_range (push_bit 8 (ucast (pack_rc_range r ! 0)) OR ucast (pack_rc_range r ! 1))"
  have "map (\<lambda>i. get_rc_range (get16 (drm_dsc_pps_payload_pack cfg) (58 + 2 * i))) [0..<15] =
      map ?read (rc_range_params cfg)"
    using arg_cong [OF pack_ranges [of cfg], of "map get_rc_range"] map_nth_upt [OF len, of ?read]
    by (simp only: map_map comp_def)
  also have "\<dots> = map (\<lambda>r. r) (rc_range_params cfg)"
    using fits by (intro map_cong) (auto simp: list_all_iff range_get [unfolded One_nat_def])
  finally show ?thesis by simp
qed

text \<open>
  C22. The picture parameter set has 128 bytes. For a configuration whose two arrays have their declared
  lengths and whose values fit the fields they are packed into, a reader of the unreserved bits recovers
  every transmitted field, except three: the packer writes the constants 6, 3 and 3 of the standard for the edge
  factor and the two target offsets whatever the configuration holds, and these are what is read. The slice
  count, the mux word size and the number of rate control bits are not transmitted.
\<close>

theorem pps_roundtrip:
  assumes fits: "pps_fits cfg"
  shows "length (drm_dsc_pps_payload_pack cfg) = 128 \<and>
    pps_unpack (drm_dsc_pps_payload_pack cfg) cfg0 =
    cfg\<lparr>slice_count := slice_count cfg0, mux_word_size := mux_word_size cfg0, rc_bits := rc_bits cfg0,
      rc_edge_factor := 6, rc_tgt_offset_low := 3, rc_tgt_offset_high := 3\<rparr>"
proof -
  let ?b = "drm_dsc_pps_payload_pack cfg"
  have f: "dsc_version_minor cfg < 16" "dsc_version_major cfg < 16" "line_buf_depth cfg < 16"
    "bits_per_component cfg < 16" "bits_per_pixel cfg < 2 ^ (8 + 2)" "initial_xmit_delay cfg < 2 ^ (8 + 2)"
    "scale_decrement_interval cfg < 2 ^ (8 + 4)" "length (rc_buf_thresh cfg) = 14" "length (rc_range_params cfg) = 15"
    "list_all (\<lambda>t. t < 256) (rc_buf_thresh cfg)" "list_all rc_range_fits (rc_range_params cfg)"
    using fits by (simp_all add: pps_fits_def dsc_arrays_ok_def)
  note flags = pps_flags [OF pps_two_bits pack_bytes(3) [unfolded pack_masks], of cfg]
  have k: "(2::nat) \<le> 8" "(4::nat) \<le> 8" by simp_all
  have bpp: "push_bit 8 (ucast (take_bit 2 (?b ! 4))) OR ucast (?b ! 5) = bits_per_pixel cfg"
    using high_low [OF f(5) k(1), unfolded take_high [OF k(1)]]
    unfolding flags(1) pack_bytes(4) pack_masks .
  have ixd: "push_bit 8 (ucast (take_bit 2 (?b ! 16))) OR ucast (?b ! 17) = initial_xmit_delay cfg"
    using high_low [OF f(6) k(1)] unfolding pack_bytes pack_masks .
  have sdi: "push_bit 8 (ucast (take_bit 4 (?b ! 24))) OR ucast (?b ! 25) = scale_decrement_interval cfg"
    using high_low [OF f(7) k(2)] unfolding pack_bytes pack_masks .
  have nib: "take_bit 4 (?b ! 0) = dsc_version_minor cfg" "drop_bit 4 (?b ! 0) = dsc_version_major cfg"
    "take_bit 4 (?b ! 3) = line_buf_depth cfg" "drop_bit 4 (?b ! 3) = bits_per_component cfg"
    "take_bit 4 (?b ! 43) = 3" "drop_bit 4 (?b ! 43) = 3"
    unfolding pack_bytes using f by (simp_all only: nibbles) simp_all
  have low: "take_bit 6 (initial_scale_value cfg) = initial_scale_value cfg"
    "take_bit 5 (first_line_bpg_offset cfg) = first_line_bpg_offset cfg"
    "take_bit 5 (flatness_min_qp cfg) = flatness_min_qp cfg" "take_bit 5 (flatness_max_qp cfg) = flatness_max_qp cfg"
    "take_bit 5 (rc_quant_incr_limit0 cfg) = rc_quant_incr_limit0 cfg"
    "take_bit 5 (rc_quant_incr_limit1 cfg) = rc_quant_incr_limit1 cfg"
    "take_bit 5 (second_line_bpg_offset cfg) = second_line_bpg_offset cfg" "take_bit 4 (6 :: u8) = 6"
    using fits by (simp_all add: pps_fits_def take_bit_fits)
  have nat: "bit (?b ! 88) 0 = native_422 cfg" "bit (?b ! 88) 1 = native_420 cfg"
    unfolding pack_bytes by (auto simp: bit_simps)
  note th = pps_thresh_read [OF f(8,10)]
  note rg = pps_ranges_read [OF f(9,11)]
  have "pps_unpack ?b cfg0 =
      cfg\<lparr>slice_count := slice_count cfg0, mux_word_size := mux_word_size cfg0, rc_bits := rc_bits cfg0,
        rc_edge_factor := 6, rc_tgt_offset_low := 3, rc_tgt_offset_high := 3\<rparr>"
    unfolding pps_unpack_def bpp ixd sdi nib nat th rg flags(2-5) pack_u8 pack_u16 low
    by (rule drm_dsc_config.equality) (simp_all add: f)
  then show ?thesis using length_pack by simp
qed

lemma get_rc_params_entry:
  assumes "get_rc_params t b c = Some p" and "list_all rc_entry_ok (butlast t)" and "t \<noteq> []" and "last t = rc_sentinel"
  shows "\<exists>d \<in> set t. rc_entry_ok d \<and> uint (rpd_bpp d) = uint b \<and> rpd_bpc d = c \<and> rpd_params d = p"
  using assms
proof (induction t)
  case (Cons d t)
  show ?case
  proof (cases "t = []")
    case True
    with Cons.prems show ?thesis by (simp add: rc_sentinel_def rc_entry_def DSC_BPP_def)
  next
    case False
    with Cons show ?thesis by (auto split: if_splits)
  qed
qed simp

lemma get_rc_params_found:
  assumes "d \<in> set t" and "rpd_bpp d \<noteq> 0" and "uint (rpd_bpp d) = uint b" and "rpd_bpc d = c"
    and "\<And>d'. d' \<in> set (takeWhile (\<lambda>x. x \<noteq> d) t) \<Longrightarrow> rpd_bpp d' \<noteq> 0"
  shows "get_rc_params t b c \<noteq> None"
  using assms by (induction t) auto

lemma rc_table_tables: "rc_table type = Some t \<Longrightarrow> rc_table_ok t"
  using rc_parameters_1_2_444_ok rc_parameters_pre_scr_ok rc_parameters_1_2_422_ok rc_parameters_1_2_420_ok
  by (auto simp: rc_table_def split: if_splits)

lemma masked_offset: "(x < 32 \<or> - 32 \<le> x) \<Longrightarrow> x AND 0x3f < 64 \<and> signed_take_bit 5 (x AND 0x3f) = x" for x :: u8
proof -
  have all: "list_all (\<lambda>n. let x = of_nat n :: u8 in
      (x < 32 \<or> - 32 \<le> x) \<longrightarrow> x AND 0x3f < 64 \<and> signed_take_bit 5 (x AND 0x3f) = x) [0..<256]"
    by code_simp
  have "unat x \<in> set [0..<256]" using unsigned_less [of x] by simp
  then show "(x < 32 \<or> - 32 \<le> x) \<Longrightarrow> x AND 0x3f < 64 \<and> signed_take_bit 5 (x AND 0x3f) = x"
    using all bspec [of "set [0..<256]" _ "unat x"] unfolding list_all_iff Let_def by fastforce
qed

text \<open>
  A successful lookup of the rate control parameters sets fifteen ranges whose values fit the
  fields of the picture parameter set; read as six-bit two's complement they are those of the table
  entry for the configured bits per pixel and per component.
\<close>

theorem setup_rc_params_spec:
  assumes s: "drm_dsc_setup_rc_params cfg type = (0, cfg')"
  shows "length (rc_range_params cfg') = 15 \<and> list_all rc_range_fits (rc_range_params cfg') \<and>
    initial_xmit_delay cfg' < 1024 \<and>
    (\<exists>t d. rc_table type = Some t \<and> d \<in> set t \<and> uint (rpd_bpp d) = uint (bits_per_pixel cfg) \<and>
       rpd_bpc d = bits_per_component cfg \<and>
       map (\<lambda>r. r\<lparr>range_bpg_offset := signed_take_bit 5 (range_bpg_offset r)\<rparr>) (rc_range_params cfg') =
         rp_rc_range_params (rpd_params d))"
proof -
  obtain t p where t: "rc_table type = Some t" "get_rc_params t (bits_per_pixel cfg) (bits_per_component cfg) = Some p"
    and cfg': "initial_xmit_delay cfg' = rp_initial_xmit_delay p" "rc_range_params cfg' =
      map (\<lambda>i. let r = rp_rc_range_params p ! i in \<lparr>range_min_qp = range_min_qp r, range_max_qp = range_max_qp r,
        range_bpg_offset = range_bpg_offset r AND 0x3f\<rparr>) [0..<DSC_NUM_BUF_RANGES]"
    using s by (auto simp: drm_dsc_setup_rc_params_def neg_errno_def split: if_splits option.splits)
  have ok: "rc_table_ok t" using rc_table_tables t(1) .
  obtain d where d: "d \<in> set t" "rc_entry_ok d" "uint (rpd_bpp d) = uint (bits_per_pixel cfg)"
    "rpd_bpc d = bits_per_component cfg" "rpd_params d = p"
    using get_rc_params_entry [OF t(2)] ok by (auto simp: rc_table_ok_def)
  have len: "length (rp_rc_range_params p) = DSC_NUM_BUF_RANGES" and rs: "list_all rc_range_ok (rp_rc_range_params p)"
    using d(2,5) by (auto simp: rc_entry_ok_def)
  have ranges: "rc_range_params cfg' = map (\<lambda>r. \<lparr>range_min_qp = range_min_qp r, range_max_qp = range_max_qp r,
        range_bpg_offset = range_bpg_offset r AND 0x3f\<rparr>) (rp_rc_range_params p)"
    unfolding cfg' Let_def by (rule map_nth_upt [OF len])
  have "list_all rc_range_fits (rc_range_params cfg')"
    unfolding ranges using rs masked_offset
    by (auto simp: list_all_iff rc_range_fits_def rc_range_ok_def)
  moreover have "map (\<lambda>r. r\<lparr>range_bpg_offset := signed_take_bit 5 (range_bpg_offset r)\<rparr>) (rc_range_params cfg') =
      rp_rc_range_params p"
    unfolding ranges using rs masked_offset
    by (auto simp: list_all_iff rc_range_ok_def comp_def intro!: map_idI)
  moreover have "initial_xmit_delay cfg' < 1024" using cfg'(1) d(2,5) by (simp add: rc_entry_ok_def)
  ultimately show ?thesis using d t ranges len by (auto simp: DSC_NUM_BUF_RANGES_def)
qed

text \<open>A configuration: 1920x1080, two slices per line, 8 bits per component compressed to 8 bits per
  pixel.\<close>

definition ex_dsc :: drm_dsc_config where
  "ex_dsc = \<lparr>line_buf_depth = 9, bits_per_component = 8, convert_rgb = True, slice_count = 2,
     slice_width = 960, slice_height = 108, simple_422 = False, pic_width = 1920, pic_height = 1080,
     rc_tgt_offset_high = 3, rc_tgt_offset_low = 3, bits_per_pixel = 128, rc_edge_factor = 6,
     rc_quant_incr_limit1 = 11, rc_quant_incr_limit0 = 11, initial_xmit_delay = 512, initial_dec_delay = 0,
     block_pred_enable = True, first_line_bpg_offset = 12, initial_offset = 6144,
     rc_buf_thresh = replicate 14 0, rc_range_params = replicate 15 (rc_range (0, 0, 0)),
     rc_model_size = 8192, flatness_min_qp = 3, flatness_max_qp = 12, initial_scale_value = 32,
     scale_decrement_interval = 0, scale_increment_interval = 0, nfl_bpg_offset = 0, slice_bpg_offset = 0,
     final_offset = 0, vbr_enable = False, mux_word_size = 48, slice_chunk_size = 0, rc_bits = 0,
     dsc_version_minor = 1, dsc_version_major = 1, native_422 = False, native_420 = False,
     second_line_bpg_offset = 0, nsl_bpg_offset = 0, second_line_offset_adj = 0\<rparr>"

lemma mux_bits_loop_spec:
  "0 \<le> n \<Longrightarrow> 0 \<le> mux_bits_loop sb mux n \<and> mux_bits_loop sb mux n \<le> n \<and>
    (mux_bits_loop sb mux n = 0 \<or> to_u64 (sb - mux_bits_loop sb mux n) mod mux = 0) \<and>
    (\<forall>m. mux_bits_loop sb mux n < m \<and> m \<le> n \<longrightarrow> to_u64 (sb - m) mod mux \<noteq> 0)"
proof (induction sb mux n rule: mux_bits_loop.induct)
  case (1 sb mux n)
  show ?case
  proof (cases "n > 0 \<and> to_u64 (sb - n) mod mux \<noteq> 0")
    case True
    then have eq: "mux_bits_loop sb mux n = mux_bits_loop sb mux (n - 1)" by (subst mux_bits_loop.simps) simp
    have m: "m = n \<or> m \<le> n - 1" if "m \<le> n" for m using that by linarith
    show ?thesis unfolding eq using 1 True m by fastforce
  next
    case False
    then have "mux_bits_loop sb mux n = n" using mux_bits_loop.simps [of sb mux n] by presburger
    with False 1(2) show ?thesis by auto
  qed
qed

text \<open>In a slice that holds them, the loop keeps the most extra bits that leave whole mux words.\<close>

lemma mux_bits_greatest:
  assumes "0 \<le> n" and "n \<le> sb" and "sb < 2147483648"
  shows "0 \<le> mux_bits_loop sb mux n \<and> mux_bits_loop sb mux n \<le> n \<and>
    (mux_bits_loop sb mux n = 0 \<or> mux dvd sb - mux_bits_loop sb mux n) \<and>
    (\<forall>m. mux_bits_loop sb mux n < m \<and> m \<le> n \<longrightarrow> \<not> mux dvd sb - m)"
proof -
  have id: "to_u64 (sb - m) = sb - m" if "0 \<le> m" "m \<le> n" for m
    using that assms by (intro to_u64_id) linarith+
  show ?thesis using mux_bits_loop_spec [OF assms(1), of sb mux] id
    by (metis dvd_eq_mod_eq_0 order_less_imp_le order_trans)
qed

theorem pps_roundtrip_witness:
  "length (drm_dsc_pps_payload_pack ex_dsc) = 128 \<and>
   slice_width (pps_unpack (drm_dsc_pps_payload_pack ex_dsc) (ex_dsc\<lparr>slice_width := 0\<rparr>)) = 960"
proof -
  have "pps_fits ex_dsc" by code_simp
  from pps_roundtrip [OF this, of "ex_dsc\<lparr>slice_width := 0\<rparr>"] show ?thesis by (simp add: ex_dsc_def)
qed

theorem setup_rc_params_spec_witness:
  "list_all rc_range_fits (rc_range_params (snd (drm_dsc_setup_rc_params ex_dsc DRM_DSC_1_2_444)))"
proof -
  have "fst (drm_dsc_setup_rc_params ex_dsc DRM_DSC_1_2_444) = 0" by code_simp
  then have "drm_dsc_setup_rc_params ex_dsc DRM_DSC_1_2_444 = (0, snd (drm_dsc_setup_rc_params ex_dsc DRM_DSC_1_2_444))"
    by (simp add: prod_eq_iff)
  from setup_rc_params_spec [OF this] show ?thesis by blast
qed


lemma num_extra_nonneg: "0 \<le> num_extra_mux_bits cfg"
  by (auto simp: num_extra_mux_bits_def Let_def)

lemma rc_stage1_result:
  assumes "mux_word_size cfg \<noteq> 0" and sb: "num_extra_mux_bits cfg \<le> sb" "sb < 2147483648"
    "sb = 8 * uint (chunk_size cfg) * uint (slice_height cfg)"
    and xd: "xd = (uint (initial_xmit_delay cfg) * uint (bits_per_pixel cfg) + 8) div 16"
    "xd \<le> uint (rc_model_size cfg)" "uint (rc_model_size cfg) + num_extra_mux_bits cfg \<le> 65535 + xd"
  obtains num c1 where "rc_stage1 cfg = Some (num, c1)" "0 \<le> num" "num \<le> num_extra_mux_bits cfg"
    "slice_chunk_size c1 = chunk_size cfg" "slice_height c1 = slice_height cfg" "rc_model_size c1 = rc_model_size cfg"
    "initial_offset c1 = initial_offset cfg" "bits_per_pixel c1 = bits_per_pixel cfg"
    "num = 0 \<or> uint (mux_word_size cfg) dvd sb - num"
    "\<And>m. num < m \<Longrightarrow> m \<le> num_extra_mux_bits cfg \<Longrightarrow> \<not> uint (mux_word_size cfg) dvd sb - m"
    "uint (final_offset c1) = uint (rc_model_size cfg) - xd + num"
proof -
  let ?num = "mux_bits_loop sb (uint (mux_word_size cfg)) (num_extra_mux_bits cfg)"
  let ?d = "uint (initial_xmit_delay cfg) * uint (bits_per_pixel cfg)"
  have mux: "uint (mux_word_size cfg) \<noteq> 0" using assms(1) by (simp add: uint_0_iff)
  have extra: "num_extra_mux_bits (cfg\<lparr>slice_chunk_size := k\<rparr>) = num_extra_mux_bits cfg" for k
    by (simp add: num_extra_mux_bits_def Let_def)
  note g = mux_bits_greatest [OF num_extra_nonneg sb(1,2), of "uint (mux_word_size cfg)"]
  have sb0: "0 \<le> sb" using sb(1) num_extra_nonneg [of cfg] by linarith
  have "to_s32 (8 * uint (chunk_size cfg)) = 8 * uint (chunk_size cfg)"
    using uint_lt2p [of "chunk_size cfg"] by (intro to_s32_id) (simp add: is_s32_def order_trans [OF _ uint_ge_0])
  then have sbits: "to_u64 (to_s32 (to_s32 (8 * uint (chunk_size cfg)) * uint (slice_height cfg))) = sb"
    using sb(2) sb0 sb(3)[symmetric] to_s32_id [of sb] to_u64_id [of sb]
    by (simp add: is_s32_def)
  have d0: "0 \<le> ?d" by simp
  have m: "uint (rc_model_size cfg) < 65536" using uint_lt2p [of "rc_model_size cfg"] by simp
  have "x div 16 \<le> r \<Longrightarrow> r < 65536 \<Longrightarrow> x < 2147483648" for x r :: int by linarith
  then have "?d + 8 < 2147483648" using xd(2) [unfolded xd(1)] m by blast
  moreover have "c_div (to_s32 (to_s32 x + 8)) 16 = (x + 8) div 16" if "0 \<le> x" "x + 8 < 2147483648" for x
    using that by (simp add: conv_id is_s32_def c_div_nonneg)
  ultimately have c: "c_div (to_s32 (to_s32 ?d + 8)) 16 = xd" unfolding xd(1) using d0 by blast
  have "0 \<le> uint (rc_model_size cfg) - xd + ?num" "uint (rc_model_size cfg) - xd + ?num < 65536"
    using g xd(2,3) by linarith+
  moreover have "uint (word_of_int x :: u16) = x" if "0 \<le> x" "x < 65536" for x
    using that by (simp add: uint_word_of_int)
  ultimately have fo: "uint (word_of_int (uint (rc_model_size cfg) - xd + ?num) :: u16) = uint (rc_model_size cfg) - xd + ?num"
    by blast
  have "\<exists>c1. rc_stage1 cfg = Some (?num, c1) \<and>
      slice_chunk_size c1 = chunk_size cfg \<and> slice_height c1 = slice_height cfg \<and>
      rc_model_size c1 = rc_model_size cfg \<and> initial_offset c1 = initial_offset cfg \<and>
      bits_per_pixel c1 = bits_per_pixel cfg \<and>
      final_offset c1 = word_of_int (uint (rc_model_size cfg) - xd + ?num)"
    using mux by (simp add: rc_stage1_def Let_def extra sbits c)
  then show ?thesis using that g fo by (metis (no_types, lifting))
qed

lemma rc_stage2_result:
  assumes gpl: "0 < gpl" "gpl \<le> 65535" and h: "slice_height c \<noteq> 0" and num: "0 \<le> num" "num \<le> 100000"
    and io: "uint (initial_offset c) < uint (rc_model_size c)"
    and fo: "uint (final_offset c) < uint (rc_model_size c)"
    and bound: "(uint (rc_model_size c) - uint (initial_offset c) + num) * 2048 \<le> 65535 * (gpl * uint (slice_height c))"
  obtains c2 where "rc_stage2 gpl num c = Some c2" "slice_chunk_size c2 = slice_chunk_size c"
    "rc_model_size c2 = rc_model_size c" "final_offset c2 = final_offset c" "bits_per_pixel c2 = bits_per_pixel c"
    "(uint (rc_model_size c) - uint (initial_offset c) + num) * 2048 \<le> uint (slice_bpg_offset c2) * (gpl * uint (slice_height c))"
    "(uint (slice_bpg_offset c2) - 1) * (gpl * uint (slice_height c)) < (uint (rc_model_size c) - uint (initial_offset c) + num) * 2048"
proof -
  let ?g = "gpl * uint (slice_height c)" and ?r = "uint (rc_model_size c)"
  let ?n = "(?r - uint (initial_offset c) + num) * 2048"
  have hb: "0 < uint (slice_height c)" "uint (slice_height c) < 65536" and rb: "?r < 65536"
    using h uint_lt2p [of "slice_height c"] uint_lt2p [of "rc_model_size c"] by (simp_all add: uint_0_iff order_less_le)
  have g: "0 < ?g" "?g < 65536 * 65536" using gpl hb mult_strict_mono [of gpl 65536 "uint (slice_height c)" 65536] by auto
  have io0: "0 \<le> uint (initial_offset c)" by simp
  have x: "0 \<le> ?r - uint (initial_offset c) + num" "?r - uint (initial_offset c) + num < 200000"
    using io io0 num rb by linarith+
  then have n: "0 < ?n" "?n \<le> 65535 * ?g" "?n < 1000000000" using io num bound by auto
  have gt: "to_u64 ?g = ?g" using g by (intro to_u64_id) auto
  have nn: "to_u64 (to_u64 (?r - uint (initial_offset c) + num) * 2048) = ?n"
  proof -
    have "to_u64 (?r - uint (initial_offset c) + num) = ?r - uint (initial_offset c) + num"
      using x by (intro to_u64_id) linarith+
    moreover have "to_u64 ?n = ?n" using n by (intro to_u64_id) linarith+
    ultimately show ?thesis by simp
  qed
  have q: "to_u64 (?n + ?g - 1) div ?g = (?n + ?g - 1) div ?g" using n g to_u64_id [of "?n + ?g - 1"] by simp
  have q1: "1 \<le> (?n + ?g - 1) div ?g" using n g by (simp add: le_floor_div_iff)
  have q2: "(?n + ?g - 1) div ?g \<le> 65535" using n g by (simp add: ceil_div_le_iff)
  have sbo: "uint (word_of_int ((?n + ?g - 1) div ?g) :: u16) = (?n + ?g - 1) div ?g"
    using q1 q2 by (simp add: uint_word_of_int)
  have ceil: "?n \<le> (?n + ?g - 1) div ?g * ?g" "((?n + ?g - 1) div ?g - 1) * ?g < ?n"
    using ceil_div_le_iff [of ?g ?n "(?n + ?g - 1) div ?g"] ceil_div_le_iff [of ?g ?n "(?n + ?g - 1) div ?g - 1"] g(1)
    by (auto simp: not_le)
  let ?fs = "?r * 8 div (?r - uint (final_offset c))"
  have fs: "?fs \<le> ?r * 8" using fo zdiv_mono2 [of "?r * 8" 1 "?r - uint (final_offset c)"] by simp
  let ?nfl = "if uint (slice_height c) > 1 then word_of_int (div_round_up_s32 (uint (first_line_bpg_offset c) * 2048)
      (uint (slice_height c) - 1)) else 0 :: u16"
  let ?s = "uint ?nfl + (?n + ?g - 1) div ?g"
  have "0 \<le> uint ?nfl" "uint ?nfl < 65536" using uint_lt2p [of ?nfl] by simp_all
  then have s: "0 < ?s" "?s \<le> 200000" using q1 q2 by linarith+
  have d: "to_u64 (?s * (?fs - 9)) \<noteq> 0" if "9 < ?fs"
  proof -
    have "0 < ?s * (?fs - 9)" using s that by simp
    moreover have "?s * (?fs - 9) \<le> 200000 * 600000"
      using s fs rb that by (intro mult_mono) auto
    moreover from calculation have "to_u64 (?s * (?fs - 9)) = ?s * (?fs - 9)" by (intro to_u64_id) linarith+
    ultimately show ?thesis by linarith
  qed
  have "\<exists>c2. rc_stage2 gpl num c = Some c2 \<and> slice_chunk_size c2 = slice_chunk_size c \<and>
      rc_model_size c2 = rc_model_size c \<and> final_offset c2 = final_offset c \<and> bits_per_pixel c2 = bits_per_pixel c \<and>
      uint (slice_bpg_offset c2) = (?n + ?g - 1) div ?g"
  proof -
    let ?sb = "word_of_int (to_u64 (to_u64 (to_u64 (?r - uint (initial_offset c) + num) * 2048) + to_u64 ?g - 1)
        div to_u64 ?g) :: u16"
    have sb: "uint ?sb = (?n + ?g - 1) div ?g" unfolding gt nn q sbo ..
    then have d': "to_u64 ((uint ?nfl + uint ?sb) * (?fs - 9)) \<noteq> 0" if "9 < ?fs"
      using d that by presburger
    have g': "to_u64 ?g \<noteq> 0" using gt g(1) by linarith
    show ?thesis using d' g' sb unfolding rc_stage2_def Let_def
      by (cases "uint (slice_height c) > 1"; cases "9 < ?fs") simp_all
  qed
  then show ?thesis using that ceil by metis
qed

lemma chunk_size_ceil:
  assumes "coded_width cfg * uint (bits_per_pixel cfg) \<le> 65535 * 128"
  shows "coded_width cfg * uint (bits_per_pixel cfg) \<le> 128 * uint (chunk_size cfg)"
    "128 * (uint (chunk_size cfg) - 1) < coded_width cfg * uint (bits_per_pixel cfg)"
proof -
  let ?m = "coded_width cfg * uint (bits_per_pixel cfg)"
  have m: "0 \<le> ?m" by (simp add: coded_width_def)
  have dr: "div_round_up_s32 (to_s32 ?m) 128 = (?m + 127) div 128"
    using assms m by (simp add: div_round_up_s32_def conv_id is_s32_def c_div_nonneg)
  have "(?m + 127) div 128 \<le> 65535" using assms m by linarith
  then have c: "uint (chunk_size cfg) = (?m + 127) div 128"
    using m by (simp add: chunk_size_def dr uint_word_of_int)
  show "?m \<le> 128 * uint (chunk_size cfg)" unfolding c using m by linarith
  show "128 * (uint (chunk_size cfg) - 1) < ?m"
  proof -
    have "128 * ((x + 127) div 128 - 1) < x" for x :: int by presburger
    then show ?thesis unfolding c by blast
  qed
qed

lemma groups_per_line_bounds: "0 < coded_width cfg \<Longrightarrow> 0 < groups_per_line cfg \<and> groups_per_line cfg \<le> 65535"
proof -
  assume w: "0 < coded_width cfg"
  have "coded_width cfg < 65536"
    using uint_lt2p [of "slice_width cfg"] by (auto simp: coded_width_def)
  then have "groups_per_line cfg = (coded_width cfg + 2) div 3"
    using w by (simp add: groups_per_line_def div_round_up_s32_def conv_id is_s32_def c_div_nonneg)
  with w \<open>coded_width cfg < 65536\<close> show ?thesis by auto
qed

lemma num_extra_small: "num_extra_mux_bits cfg \<le> 100000"
  using uint_lt2p [of "mux_word_size cfg"] uint_lt2p [of "bits_per_component cfg"]
  by (auto simp: num_extra_mux_bits_def Let_def)

text \<open>
  C35. The rate control computation for a non-empty slice. The hypotheses are on the mode: the two
  divisors taken from the configuration, the mux word size and the bits per pixel, are not zero; the initial
  offset lies below the model size; a line fits the 16-bit chunk size; the bits \<open>sb\<close> of the slice hold the extra
  mux bits and fit an \<open>int\<close>; the bits \<open>xd\<close> of the initial transmission delay are at most the model size,
  and the extra mux bits exceed them by no more than the final offset's 16 bits allow; the bits
  to recover per group of the slice, with 11 fractional bits, fit the 16 bits of the slice offset. Then every division of the
  function is defined and it returns. The chunk size is the least number of bytes that holds a line;
  the number \<open>num\<close> of extra mux bits is the greatest that leaves whole mux words (or zero); the final
  offset is the model size less \<open>xd\<close> plus \<open>num\<close>; the function reports \<open>-ERANGE\<close> exactly if \<open>num\<close>
  reaches \<open>xd\<close>; and otherwise the slice offset is the least that recovers the bits over the groups of the slice.
\<close>

theorem compute_rc_parameters_total:
  assumes mux: "mux_word_size cfg \<noteq> 0" and w: "0 < coded_width cfg" and h: "slice_height cfg \<noteq> 0"
    and bpp: "bits_per_pixel cfg \<noteq> 0" and io: "initial_offset cfg < rc_model_size cfg"
    and fit: "coded_width cfg * uint (bits_per_pixel cfg) \<le> 65535 * 128"
    and sb: "num_extra_mux_bits cfg \<le> sb" "sb < 2147483648" "sb = 8 * uint (chunk_size cfg) * uint (slice_height cfg)"
    and xd: "xd = (uint (initial_xmit_delay cfg) * uint (bits_per_pixel cfg) + 8) div 16"
      "xd \<le> uint (rc_model_size cfg)" "uint (rc_model_size cfg) + num_extra_mux_bits cfg \<le> 65535 + xd"
    and groups: "groups = groups_per_line cfg * uint (slice_height cfg)"
    and slice: "(uint (rc_model_size cfg) - uint (initial_offset cfg) + num_extra_mux_bits cfg) * 2048 \<le> 65535 * groups"
  shows "\<exists>num ret cfg'. drm_dsc_compute_rc_parameters cfg = Some (ret, cfg') \<and>
    128 * (uint (slice_chunk_size cfg') - 1) < coded_width cfg * uint (bits_per_pixel cfg) \<and>
    coded_width cfg * uint (bits_per_pixel cfg) \<le> 128 * uint (slice_chunk_size cfg') \<and>
    0 \<le> num \<and> num \<le> num_extra_mux_bits cfg \<and> (num = 0 \<or> uint (mux_word_size cfg) dvd sb - num) \<and>
    (\<forall>m. num < m \<and> m \<le> num_extra_mux_bits cfg \<longrightarrow> \<not> uint (mux_word_size cfg) dvd sb - m) \<and>
    uint (final_offset cfg') = uint (rc_model_size cfg) - xd + num \<and>
    ret = (if num < xd then 0 else neg_errno ERANGE) \<and>
    (num < xd \<longrightarrow>
      (uint (slice_bpg_offset cfg') - 1) * groups < (uint (rc_model_size cfg) - uint (initial_offset cfg) + num) * 2048 \<and>
      (uint (rc_model_size cfg) - uint (initial_offset cfg) + num) * 2048 \<le> uint (slice_bpg_offset cfg') * groups)"
proof -
  obtain num c1 where c1: "rc_stage1 cfg = Some (num, c1)" "0 \<le> num" "num \<le> num_extra_mux_bits cfg"
    "slice_chunk_size c1 = chunk_size cfg" "slice_height c1 = slice_height cfg" "rc_model_size c1 = rc_model_size cfg"
    "initial_offset c1 = initial_offset cfg" "bits_per_pixel c1 = bits_per_pixel cfg"
    and spec: "num = 0 \<or> uint (mux_word_size cfg) dvd sb - num"
      "\<And>m. num < m \<Longrightarrow> m \<le> num_extra_mux_bits cfg \<Longrightarrow> \<not> uint (mux_word_size cfg) dvd sb - m"
      "uint (final_offset c1) = uint (rc_model_size cfg) - xd + num"
    by (rule rc_stage1_result [OF mux sb xd]) blast
  note chunk = chunk_size_ceil [OF fit]
  show ?thesis
  proof (cases "num < xd")
    case True
    let ?g = "groups_per_line cfg"
    have g: "0 < ?g" "?g \<le> 65535" using groups_per_line_bounds [OF w] by simp_all
    have num: "num \<le> 100000" using c1(3) num_extra_small by (rule order_trans)
    have fo: "uint (final_offset c1) < uint (rc_model_size c1)" using True spec(3) c1(6) by simp
    obtain c2 where c2: "rc_stage2 ?g num c1 = Some c2" "slice_chunk_size c2 = slice_chunk_size c1"
      "rc_model_size c2 = rc_model_size c1" "final_offset c2 = final_offset c1" "bits_per_pixel c2 = bits_per_pixel c1"
      "(uint (rc_model_size c1) - uint (initial_offset c1) + num) * 2048 \<le> uint (slice_bpg_offset c2) * (?g * uint (slice_height c1))"
      "(uint (slice_bpg_offset c2) - 1) * (?g * uint (slice_height c1)) < (uint (rc_model_size c1) - uint (initial_offset c1) + num) * 2048"
      by (rule rc_stage2_result [of ?g c1 num]) (use g h num c1 io slice groups fo in \<open>auto simp: word_less_def\<close>)
    have "uint (bits_per_pixel c2) \<noteq> 0" using bpp c1 c2 by (simp add: uint_0_iff)
    then obtain c3 where c3: "rc_stage3 ?g c2 = Some c3" "slice_chunk_size c3 = slice_chunk_size c2"
      "final_offset c3 = final_offset c2" "slice_bpg_offset c3 = slice_bpg_offset c2"
      by (simp add: rc_stage3_def Let_def)
    have "drm_dsc_compute_rc_parameters cfg = Some (0, c3)"
      using c1(1) c2(1) c3(1) fo by (simp add: drm_dsc_compute_rc_parameters_def)
    then show ?thesis using True c1 c2 c3 chunk spec groups
      by (intro exI [of _ num] exI [of _ 0] exI [of _ c3]) simp
  next
    case False
    then have "drm_dsc_compute_rc_parameters cfg = Some (neg_errno ERANGE, c1)"
      using c1(1,6) spec(3) by (simp add: drm_dsc_compute_rc_parameters_def)
    then show ?thesis using False c1 chunk spec
      by (intro exI [of _ num] exI [of _ "neg_errno ERANGE"] exI [of _ c1]) simp
  qed
qed

theorem compute_rc_parameters_total_witness:
  "\<exists>cfg'. drm_dsc_compute_rc_parameters ex_dsc = Some (0, cfg') \<and> uint (slice_chunk_size cfg') = 960 \<and>
    uint (final_offset cfg') = 4336 \<and> uint (slice_bpg_offset cfg') = 136"
proof -
  have v: "coded_width ex_dsc = 960" "groups_per_line ex_dsc = 320" "num_extra_mux_bits ex_dsc = 246"
    "uint (chunk_size ex_dsc) = 960" "uint (mux_word_size ex_dsc) = 48" "uint (slice_height ex_dsc) = 108"
    "uint (bits_per_pixel ex_dsc) = 128" "uint (initial_offset ex_dsc) = 6144" "uint (rc_model_size ex_dsc) = 8192"
    "uint (initial_xmit_delay ex_dsc) = 512"
    by code_simp+
  have nz: "mux_word_size ex_dsc \<noteq> 0" "slice_height ex_dsc \<noteq> 0" "bits_per_pixel ex_dsc \<noteq> 0"
    "initial_offset ex_dsc < rc_model_size ex_dsc"
    by code_simp+
  have "\<exists>num ret cfg'. drm_dsc_compute_rc_parameters ex_dsc = Some (ret, cfg') \<and>
      128 * (uint (slice_chunk_size cfg') - 1) < 960 * 128 \<and> 960 * 128 \<le> 128 * uint (slice_chunk_size cfg') \<and>
      0 \<le> num \<and> num \<le> 246 \<and> (num = 0 \<or> 48 dvd 829440 - num) \<and>
      (\<forall>m. num < m \<and> m \<le> 246 \<longrightarrow> \<not> 48 dvd 829440 - m) \<and> uint (final_offset cfg') = 8192 - 4096 + num \<and>
      ret = (if num < 4096 then 0 else neg_errno ERANGE) \<and>
      (num < 4096 \<longrightarrow> (uint (slice_bpg_offset cfg') - 1) * 34560 < (8192 - 6144 + num) * 2048 \<and>
        (8192 - 6144 + num) * 2048 \<le> uint (slice_bpg_offset cfg') * 34560)"
    by (rule compute_rc_parameters_total [of ex_dsc 829440 4096 34560, unfolded v, OF nz(1) _ nz(2-4)]) simp_all
  then obtain num ret cfg' where r: "drm_dsc_compute_rc_parameters ex_dsc = Some (ret, cfg')"
    and chunk: "128 * (uint (slice_chunk_size cfg') - 1) < 960 * 128" "960 * 128 \<le> 128 * uint (slice_chunk_size cfg')"
    and num: "0 \<le> num" "num \<le> 246" "num = 0 \<or> 48 dvd 829440 - num"
      "\<forall>m. num < m \<and> m \<le> 246 \<longrightarrow> \<not> 48 dvd 829440 - m"
    and ret: "uint (final_offset cfg') = 8192 - 4096 + num" "ret = (if num < 4096 then 0 else neg_errno ERANGE)"
    and off: "num < 4096 \<longrightarrow> (uint (slice_bpg_offset cfg') - 1) * 34560 < (8192 - 6144 + num) * 2048 \<and>
        (8192 - 6144 + num) * 2048 \<le> uint (slice_bpg_offset cfg') * 34560"
    by (elim exE conjE)
  have "num = 240" using num(1-3) num(4) [rule_format, of 240] by presburger
  with r chunk ret off show ?thesis by simp
qed

end
