(* ===== verification/CRC.thy ===== *)
theory CRC
  imports DRM_Prelude
begin

text \<open>
  Cyclic redundancy codes as polynomial division, one bit at a time. The sideband messages of
  DisplayPort MST carry a four bit code over the header and an eight bit code over the body
  (\<open>drm_dp_mst_topology.c\<close>); this theory holds the reference definition both loops are compared
  with, and the detection theorem, proved once in the locale \<open>crc_code\<close> for every generator with
  a constant term.
\<close>

unbundle bit_operations_syntax

section \<open>Division step and code\<close>

text \<open>The generator is \<open>x ^ LENGTH('a) + poly\<close>; the remainder is the register of the shift division.\<close>

definition crc_step :: "'a::len word \<Rightarrow> bool \<Rightarrow> 'a word \<Rightarrow> 'a word" where
  "crc_step poly b r = (push_bit 1 r XOR of_bool b) XOR (if bit r (LENGTH('a) - 1) then poly else 0)"

definition crc_rem :: "'a::len word \<Rightarrow> bool list \<Rightarrow> 'a word" where
  "crc_rem poly bs = fold (crc_step poly) bs 0"

definition crc_bits :: "'a::len word \<Rightarrow> bool list \<Rightarrow> 'a word" where
  "crc_bits poly bs = crc_rem poly (bs @ replicate LENGTH('a) False)"

definition xor_bits :: "bool list \<Rightarrow> bool list \<Rightarrow> bool list" where
  "xor_bits xs ys = map2 (\<noteq>) xs ys"

text \<open>An error burst: the only differing positions lie in a window of \<open>n\<close> bits.\<close>

definition burst :: "nat \<Rightarrow> bool list \<Rightarrow> bool" where
  "burst n es \<longleftrightarrow> (\<exists>a ws b. es = replicate a False @ ws @ replicate b False \<and> length ws \<le> n \<and> True \<in> set ws)"

lemma xor_bits_simps [simp]:
  "xor_bits [] [] = []" "xor_bits (x # xs) (y # ys) = (x \<noteq> y) # xor_bits xs ys"
  by (simp_all add: xor_bits_def)

lemma length_xor_bits [simp]: "length xs = length ys \<Longrightarrow> length (xor_bits xs ys) = length ys"
  by (simp add: xor_bits_def)

lemma nth_xor_bits [simp]:
  "i < length xs \<Longrightarrow> length xs = length ys \<Longrightarrow> xor_bits xs ys ! i = (xs ! i \<noteq> ys ! i)"
  by (simp add: xor_bits_def)

lemma xor_bits_append:
  "length xs = length ys \<Longrightarrow> xor_bits (xs @ xs') (ys @ ys') = xor_bits xs ys @ xor_bits xs' ys'"
  by (simp add: xor_bits_def)

lemma xor_bits_same [simp]: "xor_bits xs xs = replicate (length xs) False"
  by (induction xs) simp_all

section \<open>Linearity\<close>

lemma bit_crc_step:
  "bit (crc_step poly b r) i \<longleftrightarrow>
     i < LENGTH('a) \<and> ((if i = 0 then b else bit r (i - 1)) \<noteq> (bit r (LENGTH('a) - 1) \<and> bit poly i))"
  for poly :: "'a::len word"
  unfolding crc_step_def bit_xor_iff bit_push_bit_iff
  by (cases "i = 0") (auto simp: bit_of_bool_iff possible_bit_def dest: bit_imp_le_length)

lemma crc_step_xor: "crc_step poly (a \<noteq> b) (r XOR s) = crc_step poly a r XOR crc_step poly b s"
  by (rule bit_word_eqI) (auto simp: bit_crc_step bit_xor_iff)

lemma crc_step_xor' [simp]:
  "crc_step poly (a = (\<not> b)) (r XOR s) = crc_step poly a r XOR crc_step poly b s"
  using crc_step_xor [of poly a b r s] by (cases a; cases b) simp_all

lemma crc_step_zero [simp]: "crc_step poly False 0 = 0"
  by (simp add: crc_step_def)

lemma fold_crc_xor:
  "length xs = length ys \<Longrightarrow>
    fold (crc_step poly) (xor_bits xs ys) (r XOR s) = fold (crc_step poly) xs r XOR fold (crc_step poly) ys s"
  by (induction xs ys arbitrary: r s rule: list_induct2) simp_all

lemma crc_rem_xor: "length xs = length ys \<Longrightarrow> crc_rem poly (xor_bits xs ys) = crc_rem poly xs XOR crc_rem poly ys"
  using fold_crc_xor [of xs ys poly 0 0] by (simp add: crc_rem_def)

lemma crc_bits_xor:
  assumes "length xs = length ys"
  shows "crc_bits poly (xor_bits xs ys) = crc_bits poly xs XOR (crc_bits poly ys :: 'a::len word)"
  using crc_rem_xor [of "xs @ replicate LENGTH('a) False" "ys @ replicate LENGTH('a) False" poly] assms
  by (simp add: crc_bits_def xor_bits_append)

lemma fold_crc_zeros [simp]: "fold (crc_step poly) (replicate n False) 0 = 0"
  by (induction n) simp_all

text \<open>As long as the register does not overflow it just collects the bits.\<close>

lemma fold_crc_short:
  assumes "length bs \<le> LENGTH('a::len)"
  shows "bit (fold (crc_step (poly :: 'a word)) bs 0) i \<longleftrightarrow> i < length bs \<and> bs ! (length bs - 1 - i)"
  using assms
proof (induction bs arbitrary: i rule: rev_induct)
  case Nil
  then show ?case by simp
next
  case (snoc b bs)
  let ?r = "fold (crc_step poly) bs 0"
  from snoc have IH: "bit ?r j \<longleftrightarrow> j < length bs \<and> bs ! (length bs - 1 - j)" for j
    by simp
  have msb: "\<not> bit ?r (LENGTH('a) - 1)" using snoc.prems by (simp add: IH)
  have "LENGTH('a) > length bs" using snoc.prems by simp
  then show ?case
    using msb by (cases i) (auto simp: bit_crc_step IH nth_append)
qed

section \<open>Detection\<close>

locale crc_code =
  fixes poly :: "'a::len word"
  assumes const_term: "bit poly 0"
begin

lemma step_zero_eq_zero: "crc_step poly False r = 0 \<Longrightarrow> r = 0"
proof -
  assume z: "crc_step poly False r = 0"
  have "bit (crc_step poly False r) 0 = bit r (LENGTH('a) - 1)"
    using const_term by (simp add: bit_crc_step)
  with z have msb: "\<not> bit r (LENGTH('a) - 1)" by simp
  have "\<not> bit r i" for i
  proof (cases "Suc i < LENGTH('a)")
    case True
    then have "bit (crc_step poly False r) (Suc i) = bit r i" using msb by (simp add: bit_crc_step)
    then show ?thesis using z by simp
  next
    case False
    then have "i = LENGTH('a) - 1 \<or> LENGTH('a) \<le> i" by linarith
    then show ?thesis using msb bit_imp_le_length by fastforce
  qed
  then show "r = 0" by (simp add: bit_eq_iff)
qed

lemma zeros_keep: "fold (crc_step poly) (replicate n False) r = 0 \<Longrightarrow> r = 0"
  by (induction n arbitrary: r) (auto dest: step_zero_eq_zero)

theorem burst_rem_nonzero:
  assumes "burst LENGTH('a) es"
  shows "crc_rem poly es \<noteq> 0"
proof
  assume z: "crc_rem poly es = 0"
  obtain a ws b where es: "es = replicate a False @ ws @ replicate b False"
    and len: "length ws \<le> LENGTH('a)" and w: "True \<in> set ws"
    using assms by (auto simp: burst_def)
  have "fold (crc_step poly) ws 0 = 0"
    using z zeros_keep [of b] by (simp add: crc_rem_def es del: fold_replicate)
  moreover obtain i where i: "i < length ws" "ws ! i" using w by (metis in_set_conv_nth)
  ultimately show False
    using fold_crc_short [OF len, of poly "length ws - 1 - i"] i by simp
qed

theorem burst_detected:
  assumes "length xs = length ys" and "burst LENGTH('a) (xor_bits xs ys)"
  shows "crc_bits poly xs \<noteq> crc_bits poly ys"
proof
  assume "crc_bits poly xs = crc_bits poly ys"
  then have "crc_bits poly (xor_bits xs ys) = 0"
    using crc_bits_xor [OF assms(1), of poly] by simp
  then have "crc_rem poly (xor_bits xs ys) = 0"
    using zeros_keep by (simp add: crc_bits_def crc_rem_def del: fold_replicate)
  with burst_rem_nonzero [OF assms(2)] show False ..
qed

end

text \<open>The two generators of the sideband messages: \<open>x\<^sup>4 + x + 1\<close> and \<open>x\<^sup>8 + x\<^sup>7 + x\<^sup>6 + x\<^sup>4 + x\<^sup>2 + 1\<close>.\<close>

definition CRC4_POLY :: "4 word" where "CRC4_POLY = 3"
definition CRC8_POLY :: "8 word" where "CRC8_POLY = 0xd5"

interpretation crc4: crc_code CRC4_POLY
  by unfold_locales (simp add: CRC4_POLY_def)

interpretation crc8: crc_code CRC8_POLY
  by unfold_locales (simp add: CRC8_POLY_def)

text \<open>The check bits appended to the data make the remainder of the whole zero.\<close>

lemma crc_rem_append_word:
  assumes "bs = map (\<lambda>i. bit (w :: 'a::len word) (LENGTH('a) - 1 - i)) [0..<LENGTH('a)]"
  shows "crc_rem poly (xs @ bs) = crc_bits poly xs XOR w"
proof -
  have len: "length bs = LENGTH('a)" using assms by simp
  have "xs @ bs = xor_bits (xs @ replicate LENGTH('a) False) (replicate (length xs) False @ bs)"
    using len by (intro nth_equalityI) (auto simp: nth_append)
  then have "crc_rem poly (xs @ bs) = crc_bits poly xs XOR crc_rem poly (replicate (length xs) False @ bs)"
    by (simp only: crc_rem_xor crc_bits_def length_append length_replicate len)
  moreover have "crc_rem poly (replicate (length xs) False @ bs) = w"
    using fold_crc_short [of bs poly] len
    by (intro bit_word_eqI) (auto simp: crc_rem_def assms simp del: fold_replicate)
  ultimately show ?thesis by simp
qed

end
