(* ===== verification/MST_Header.thy ===== *)
theory MST_Header
  imports CRC
begin

text \<open>
  The header of a DisplayPort MST sideband message (\<open>drm_dp_mst_topology.c\<close>): the two CRC loops,
  the encoder and the decoder of the header. The loops are proved equal to polynomial division, the
  decoder inverts the encoder, and the decoder refuses every header that a burst of at most four bits
  turned into another one of the same length.
\<close>

unbundle bit_operations_syntax

section \<open>CRC loops\<close>

text \<open>
  The loop state is the one of the C functions: the mask and shift of the current bit, the index of
  the current byte and the remainder. The first argument is \<open>number_of_bits\<close>.
\<close>

fun hdr_crc_loop :: "nat \<Rightarrow> u8 list \<Rightarrow> u8 \<Rightarrow> u8 \<Rightarrow> u8 \<Rightarrow> u8 \<Rightarrow> u8" where
  "hdr_crc_loop 0 data bitmask bitshift array_index remainder = remainder"
| "hdr_crc_loop (Suc n) data bitmask bitshift array_index remainder =
     (let remainder = push_bit 1 remainder OR drop_bit (unat bitshift) (data ! unat array_index AND bitmask);
          bitmask = drop_bit 1 bitmask;
          bitshift = bitshift - 1;
          wrap = (bitmask = 0);
          remainder = (if remainder AND 0x10 = 0x10 then remainder XOR 0x13 else remainder)
      in hdr_crc_loop n data (if wrap then 0x80 else bitmask) (if wrap then 7 else bitshift)
           (if wrap then array_index + 1 else array_index) remainder)"

fun hdr_crc_tail :: "nat \<Rightarrow> u8 \<Rightarrow> u8" where
  "hdr_crc_tail 0 remainder = remainder"
| "hdr_crc_tail (Suc n) remainder =
     (let remainder = push_bit 1 remainder
      in hdr_crc_tail n (if remainder AND 0x10 \<noteq> 0 then remainder XOR 0x13 else remainder))"

definition drm_dp_msg_header_crc4 :: "u8 list \<Rightarrow> nat \<Rightarrow> u8" where
  "drm_dp_msg_header_crc4 data num_nibbles =
     hdr_crc_tail 4 (hdr_crc_loop (num_nibbles * 4) data 0x80 7 0 0)"

fun data_crc_loop :: "nat \<Rightarrow> u8 list \<Rightarrow> u8 \<Rightarrow> u8 \<Rightarrow> u8 \<Rightarrow> u16 \<Rightarrow> u16" where
  "data_crc_loop 0 data bitmask bitshift array_index remainder = remainder"
| "data_crc_loop (Suc n) data bitmask bitshift array_index remainder =
     (let remainder = push_bit 1 remainder OR ucast (drop_bit (unat bitshift) (data ! unat array_index AND bitmask));
          bitmask = drop_bit 1 bitmask;
          bitshift = bitshift - 1;
          wrap = (bitmask = 0);
          remainder = (if remainder AND 0x100 = 0x100 then remainder XOR 0xd5 else remainder)
      in data_crc_loop n data (if wrap then 0x80 else bitmask) (if wrap then 7 else bitshift)
           (if wrap then array_index + 1 else array_index) remainder)"

fun data_crc_tail :: "nat \<Rightarrow> u16 \<Rightarrow> u16" where
  "data_crc_tail 0 remainder = remainder"
| "data_crc_tail (Suc n) remainder =
     (let remainder = push_bit 1 remainder
      in data_crc_tail n (if remainder AND 0x100 \<noteq> 0 then remainder XOR 0xd5 else remainder))"

definition drm_dp_msg_data_crc4 :: "u8 list \<Rightarrow> u8 \<Rightarrow> u8" where
  "drm_dp_msg_data_crc4 data number_of_bytes =
     ucast (data_crc_tail 8 (data_crc_loop (unat number_of_bytes * 8) data 0x80 7 0 0) AND 0xff)"

section \<open>Header\<close>

record drm_dp_sideband_msg_hdr =
  lct :: u8
  lcr :: u8
  rad :: "u8 list"
  broadcast :: bool
  path_msg :: bool
  msg_len :: u8
  somt :: bool
  eomt :: bool
  seqno :: bool

definition drm_dp_calc_sb_hdr_size :: "drm_dp_sideband_msg_hdr \<Rightarrow> u8" where
  "drm_dp_calc_sb_hdr_size hdr = 3 + lct hdr div 2"

text \<open>The bytes written to \<open>buf\<close>; \<open>*len\<close> is their number.\<close>

definition drm_dp_encode_sideband_msg_hdr :: "drm_dp_sideband_msg_hdr \<Rightarrow> u8 list" where
  "drm_dp_encode_sideband_msg_hdr hdr =
     (let buf = [push_bit 4 (lct hdr AND 0xf) OR (lcr hdr AND 0xf)]
              @ map (\<lambda>i. rad hdr ! i) [0..<unat (lct hdr div 2)]
              @ [push_bit 7 (of_bool (broadcast hdr)) OR push_bit 6 (of_bool (path_msg hdr)) OR (msg_len hdr AND 0x3f)]
              @ [push_bit 7 (of_bool (somt hdr)) OR push_bit 6 (of_bool (eomt hdr)) OR push_bit 4 (of_bool (seqno hdr))];
          idx = length buf;
          crc4 = drm_dp_msg_header_crc4 buf (idx * 2 - 1)
      in buf[idx - 1 := buf ! (idx - 1) OR (crc4 AND 0xf)])"

definition hi_nibble :: "u8 \<Rightarrow> u8" where
  "hi_nibble w = drop_bit 4 (w AND 0xf0)"

text \<open>The result is the returned flag with the header and the header length as left in memory.\<close>

definition drm_dp_decode_sideband_msg_hdr ::
    "drm_dp_sideband_msg_hdr \<Rightarrow> u8 list \<Rightarrow> nat \<Rightarrow> u8 \<Rightarrow> bool \<times> drm_dp_sideband_msg_hdr \<times> u8" where
  "drm_dp_decode_sideband_msg_hdr hdr buf buflen hdrlen =
     (if buf ! 0 = 0 then (False, hdr, hdrlen)
      else let len = 3 + hi_nibble (buf ! 0) div 2 in
        if unat len > buflen then (False, hdr, hdrlen)
        else let crc4 = drm_dp_msg_header_crc4 buf (unat len * 2 - 1) in
          if crc4 AND 0xf \<noteq> buf ! (unat len - 1) AND 0xf then (False, hdr, hdrlen)
          else
            let l = hi_nibble (buf ! 0);
                n = unat (l div 2);
                idx = 1 + n;
                hdr = hdr\<lparr>lct := l, lcr := buf ! 0 AND 0xf,
                          rad := map (\<lambda>i. buf ! (1 + i)) [0..<n] @ drop n (rad hdr),
                          broadcast := bit (buf ! idx) 7, path_msg := bit (buf ! idx) 6,
                          msg_len := buf ! idx AND 0x3f\<rparr>
            in if msg_len hdr < 1 then (False, hdr, hdrlen)
               else (True, hdr\<lparr>somt := bit (buf ! (idx + 1)) 7, eomt := bit (buf ! (idx + 1)) 6,
                               seqno := bit (buf ! (idx + 1)) 4\<rparr>, of_nat (idx + 2)))"

section \<open>The loops compute the remainder of a polynomial division\<close>

definition msg_bit :: "u8 list \<Rightarrow> nat \<Rightarrow> bool" where
  "msg_bit data i = bit (data ! (i div 8)) (7 - i mod 8)"

definition msg_bits :: "u8 list \<Rightarrow> nat \<Rightarrow> bool list" where
  "msg_bits data n = map (msg_bit data) [0..<n]"

lemma mask_bit_shift: "drop_bit s (d AND push_bit s 1) = of_bool (bit (d::'a::len word) s)"
  by (rule bit_word_eqI) (auto simp: bit_simps bit_1_iff dest: bit_imp_le_length)

text \<open>One iteration, as a change of the bit position.\<close>

definition at_bit :: "nat \<Rightarrow> u8 \<Rightarrow> u8 \<Rightarrow> u8 \<Rightarrow> bool" where
  "at_bit i bitmask bitshift array_index \<longleftrightarrow>
     bitmask = push_bit (7 - i mod 8) 1 \<and> bitshift = of_nat (7 - i mod 8) \<and> array_index = of_nat (i div 8)"

lemma at_bit_start: "at_bit 0 0x80 7 0"
  by (simp add: at_bit_def push_bit_eq_mult)

lemma at_bit_read:
  assumes "at_bit i bitmask bitshift array_index" and "i < 2048"
  shows "drop_bit (unat bitshift) (data ! unat array_index AND bitmask) = of_bool (msg_bit data i)"
proof -
  have "7 - i mod 8 < 8" "i div 8 < 256" using assms(2) by auto
  then have "unat bitshift = 7 - i mod 8" "unat array_index = i div 8"
    using assms(1) by (simp_all add: at_bit_def unat_of_nat del: of_nat_diff of_nat_mod)
  moreover have "bitmask = push_bit (7 - i mod 8) 1" using assms(1) by (simp only: at_bit_def)
  ultimately show ?thesis by (simp only: mask_bit_shift msg_bit_def)
qed

lemma at_bit_next:
  assumes "at_bit i bitmask bitshift array_index"
  shows "at_bit (Suc i) (if drop_bit 1 bitmask = 0 then 0x80 else drop_bit 1 bitmask)
    (if drop_bit 1 bitmask = 0 then 7 else bitshift - 1)
    (if drop_bit 1 bitmask = 0 then array_index + 1 else array_index)"
proof -
  have "i mod 8 \<in> {0, 1, 2, 3, 4, 5, 6, 7}" by auto
  moreover have "Suc i mod 8 = (if i mod 8 = 7 then 0 else Suc (i mod 8))" "Suc i div 8 = (if i mod 8 = 7 then Suc (i div 8) else i div 8)"
    by presburger+
  ultimately show ?thesis
    using assms by (auto simp: at_bit_def push_bit_eq_mult drop_bit_eq_div)
qed

lemma hdr_step:
  "(let s = push_bit 1 (ucast r) OR of_bool b in if s AND 0x10 = 0x10 then s XOR 0x13 else s) =
     (ucast (crc_step CRC4_POLY b r) :: u8)"
proof -
  have "\<forall>r b. (let s = push_bit 1 (ucast r) OR of_bool b in if s AND 0x10 = 0x10 then s XOR 0x13 else s) =
     (ucast (crc_step CRC4_POLY b r) :: u8)"
    by code_simp
  then show ?thesis by blast
qed

lemma and_0x100: "(s AND 0x100 = 0x100) = bit s 8" "(s AND 0x100 \<noteq> 0) = bit s 8" for s :: u16
  using and_exp_eq_exp [of 8 s] and_exp_eq_0_iff_not_bit [of s 8] by simp_all

lemma and_0x10: "(s AND 0x10 \<noteq> 0) = (s AND 0x10 = 0x10)" for s :: u8
  using and_exp_eq_exp [of 4 s] and_exp_eq_0_iff_not_bit [of s 4] by simp

lemma data_step:
  "ucast (let s = push_bit 1 r OR of_bool b in if s AND 0x100 = 0x100 then s XOR 0xd5 else s) =
     crc_step CRC8_POLY b (ucast (r::u16))"
proof -
  let ?s = "push_bit 1 r OR of_bool b :: u16"
  have c: "(ucast (0xd5::u16) :: 8 word) = 0xd5" by simp
  have x: "(ucast (?s XOR 0xd5) :: 8 word) = ucast ?s XOR 0xd5"
    unfolding c [symmetric] by (rule bit_word_eqI) (simp only: bit_ucast_iff bit_xor_iff, auto)
  have u: "(ucast ?s :: 8 word) = push_bit 1 (ucast r) XOR of_bool b"
    by (rule bit_word_eqI, unfold bit_ucast_iff bit_xor_iff bit_or_iff bit_push_bit_iff)
      (auto simp: bit_of_bool_iff bit_ucast_iff)
  have "bit ?s 8 = bit (ucast r :: 8 word) 7"
    unfolding bit_ucast_iff bit_or_iff bit_push_bit_iff by (simp add: bit_of_bool_iff)
  then show ?thesis
    unfolding Let_def and_0x100 crc_step_def CRC8_POLY_def
    by (cases "bit ?s 8") (simp_all only: if_True if_False x u, simp_all)
qed

lemma ucast_of_bool: "ucast (of_bool b :: u8) = (of_bool b :: u16)"
  by (cases b) simp_all

lemma data_tail_step:
  "ucast (let s = push_bit 1 r in if s AND 0x100 \<noteq> 0 then s XOR 0xd5 else s) =
     crc_step CRC8_POLY False (ucast (r::u16))"
  using data_step [of r False] by (simp add: Let_def and_0x100)

lemma hdr_tail_fold: "hdr_crc_tail n (ucast r) = ucast (fold (crc_step CRC4_POLY) (replicate n False) r)"
proof (induction n arbitrary: r)
  case (Suc n)
  have "(if push_bit 1 (ucast r :: u8) AND 0x10 \<noteq> 0 then push_bit 1 (ucast r :: u8) XOR 0x13 else push_bit 1 (ucast r)) =
      ucast (crc_step CRC4_POLY False r)"
  proof -
    show ?thesis using hdr_step [of r False] unfolding Let_def and_0x10 by (auto split: if_splits)
  qed
  with Suc show ?case by (simp only: hdr_crc_tail.simps Let_def replicate_Suc fold_simps)
qed simp

lemma data_tail_fold:
  "ucast (data_crc_tail n r) = fold (crc_step CRC8_POLY) (replicate n False) (ucast r)"
  by (induction n arbitrary: r) (simp_all add: Let_def data_tail_step [unfolded Let_def, symmetric] del: fold_replicate)

lemma hdr_loop_fold:
  assumes "at_bit i bitmask bitshift array_index" and "i + n \<le> 2048"
  shows "hdr_crc_loop n data bitmask bitshift array_index (ucast r) =
    ucast (fold (crc_step CRC4_POLY) (map (msg_bit data) [i..<i + n]) r)"
  using assms
proof (induction n arbitrary: i bitmask bitshift array_index r)
  case (Suc n)
  have upt: "[i..<i + Suc n] = i # [Suc i..<Suc i + n]" by (simp add: upt_conv_Cons del: upt_Suc)
  have "i < 2048" "Suc i + n \<le> 2048" using Suc.prems by simp_all
  from Suc.IH [OF at_bit_next [OF Suc.prems(1)] this(2), of "crc_step CRC4_POLY (msg_bit data i) r"]
  show ?case
    by (simp only: upt list.map fold_simps hdr_crc_loop.simps Let_def
        at_bit_read [OF Suc.prems(1) \<open>i < 2048\<close>] hdr_step [unfolded Let_def])
qed simp

lemma data_loop_fold:
  assumes "at_bit i bitmask bitshift array_index" and "i + n \<le> 2048"
  shows "ucast (data_crc_loop n data bitmask bitshift array_index r) =
    fold (crc_step CRC8_POLY) (map (msg_bit data) [i..<i + n]) (ucast r)"
  using assms
proof (induction n arbitrary: i bitmask bitshift array_index r)
  case (Suc n)
  have upt: "[i..<i + Suc n] = i # [Suc i..<Suc i + n]" by (simp add: upt_conv_Cons del: upt_Suc)
  have "i < 2048" "Suc i + n \<le> 2048" using Suc.prems by simp_all
  with Suc.IH [OF at_bit_next [OF Suc.prems(1)] this(2)]
  show ?case
    by (simp only: upt list.map fold_simps data_crc_loop.simps Let_def ucast_of_bool
        at_bit_read [OF Suc.prems(1) \<open>i < 2048\<close>] data_step [unfolded Let_def, symmetric])
qed simp

lemma header_crc4_eq:
  assumes "n \<le> 512"
  shows "drm_dp_msg_header_crc4 data n = ucast (crc_bits CRC4_POLY (msg_bits data (n * 4)))"
  using hdr_loop_fold [OF at_bit_start, of "n * 4" data 0] hdr_tail_fold [of 4] assms
  by (simp add: drm_dp_msg_header_crc4_def crc_bits_def crc_rem_def msg_bits_def del: fold_replicate)

lemma data_crc4_eq: "drm_dp_msg_data_crc4 data n = crc_bits CRC8_POLY (msg_bits data (unat n * 8))"
proof -
  have "unat n * 8 \<le> 2048" using unsigned_less [of n, where ?'a = nat] by simp
  moreover have "(ucast (x AND 0xff) :: 8 word) = ucast x" for x :: u16
  proof -
    have m: "(0xff::u16) = mask 8" by (simp add: mask_eq_exp_minus_1)
    show ?thesis unfolding m by (rule bit_word_eqI, unfold bit_ucast_iff bit_and_iff bit_mask_iff) auto
  qed
  ultimately show ?thesis
    using data_loop_fold [OF at_bit_start, of "unat n * 8" data 0]
    by (simp add: drm_dp_msg_data_crc4_def crc_bits_def crc_rem_def msg_bits_def data_tail_fold del: fold_replicate)
qed

section \<open>Error detection\<close>

text \<open>
  The body CRC detects bursts: if the bytes of a body are changed in at least one bit and all the
  changed bits lie within eight consecutive positions, then \<open>drm_dp_msg_data_crc4\<close> gives another
  value. A change confined to one byte is the special case.
\<close>

theorem data_crc4_detects_burst:
  assumes "burst 8 (xor_bits (msg_bits data (unat n * 8)) (msg_bits data' (unat n * 8)))"
  shows "drm_dp_msg_data_crc4 data n \<noteq> drm_dp_msg_data_crc4 data' n"
  using crc8.burst_detected [of "msg_bits data (unat n * 8)" "msg_bits data' (unat n * 8)"] assms
  by (simp add: data_crc4_eq msg_bits_def)

theorem data_crc4_detects_burst_witness:
  "drm_dp_msg_data_crc4 [0x20, 0x31, 0x42] 3 \<noteq> drm_dp_msg_data_crc4 [0x20, 0x31, 0xff] 3"
proof -
  have "xor_bits (msg_bits [0x20, 0x31, 0x42] (unat (3::u8) * 8)) (msg_bits [0x20, 0x31, 0xff] (unat (3::u8) * 8)) =
      replicate 16 False @ [True, False, True, True, True, True, False, True] @ replicate 0 False"
    by code_simp
  then have "burst 8 (xor_bits (msg_bits [0x20, 0x31, 0x42] (unat (3::u8) * 8)) (msg_bits [0x20, 0x31, 0xff] (unat (3::u8) * 8)))"
    unfolding burst_def by (intro exI conjI) (assumption, simp_all)
  then show ?thesis by (rule data_crc4_detects_burst)
qed

lemma msg_bits_last_nibble:
  assumes "0 < len"
  shows "msg_bits buf (len * 8) =
    msg_bits buf ((len * 2 - 1) * 4) @ map (\<lambda>i. bit (ucast (buf ! (len - 1)) :: 4 word) (LENGTH(4) - 1 - i)) [0..<LENGTH(4)]"
proof (rule nth_equalityI)
  show "length (msg_bits buf (len * 8)) = length (msg_bits buf ((len * 2 - 1) * 4) @
      map (\<lambda>i. bit (ucast (buf ! (len - 1)) :: 4 word) (LENGTH(4) - 1 - i)) [0..<LENGTH(4)])"
    using assms by (simp add: msg_bits_def)
  fix i assume "i < length (msg_bits buf (len * 8))"
  then have i: "i < len * 8" by (simp add: msg_bits_def)
  show "msg_bits buf (len * 8) ! i = (msg_bits buf ((len * 2 - 1) * 4) @
      map (\<lambda>i. bit (ucast (buf ! (len - 1)) :: 4 word) (LENGTH(4) - 1 - i)) [0..<LENGTH(4)]) ! i"
  proof (cases "i < (len * 2 - 1) * 4")
    case True
    then show ?thesis using i by (simp add: msg_bits_def nth_append)
  next
    case False
    define k where "k = i - (len * 2 - 1) * 4"
    have k: "i = (len - 1) * 8 + (4 + k)" "k < 4" using False i assms by (auto simp: k_def)
    then have "i div 8 = len - 1" "i mod 8 = 4 + k" by auto
    then have "msg_bit buf i = bit (ucast (buf ! (len - 1)) :: 4 word) (LENGTH(4) - 1 - k)"
      using k(2) by (auto simp: msg_bit_def bit_ucast_iff)
    then show ?thesis using False i k(2) unfolding k_def
      by (simp add: msg_bits_def nth_append del: upt_Suc)
  qed
qed

lemma low_nibble_eq_iff: "ucast (r :: 4 word) AND 0xf = (w::u8) AND 0xf \<longleftrightarrow> r = ucast w"
proof -
  have m: "(0xf::u8) = mask 4" by (simp add: mask_eq_exp_minus_1)
  have b: "bit (ucast r AND mask 4 :: u8) i = bit r i" "bit (w AND mask 4) i = bit (ucast w :: 4 word) i" for i
    by (unfold bit_ucast_iff bit_and_iff bit_mask_iff) (auto dest: bit_imp_le_length)
  show ?thesis unfolding m by (metis b bit_eqI)
qed

lemma word_xor_eq_0_iff: "a XOR b = 0 \<longleftrightarrow> a = b" for a b :: "'a::len word"
  by (auto simp: bit_eq_iff bit_xor_iff)

text \<open>The check of the decoder: the whole header is divisible by the generator.\<close>

lemma hdr_check_iff:
  assumes "0 < len" "len \<le> 16"
  shows "drm_dp_msg_header_crc4 buf (len * 2 - 1) AND 0xf = buf ! (len - 1) AND 0xf \<longleftrightarrow>
    crc_rem CRC4_POLY (msg_bits buf (len * 8)) = 0"
proof -
  have "len * 2 - 1 \<le> 512" using assms by simp
  then have "drm_dp_msg_header_crc4 buf (len * 2 - 1) AND 0xf = buf ! (len - 1) AND 0xf \<longleftrightarrow>
      crc_bits CRC4_POLY (msg_bits buf ((len * 2 - 1) * 4)) = ucast (buf ! (len - 1))"
    by (simp only: header_crc4_eq low_nibble_eq_iff)
  also have "\<dots> \<longleftrightarrow> crc_rem CRC4_POLY (msg_bits buf (len * 8)) = 0"
    unfolding msg_bits_last_nibble [OF assms(1)] crc_rem_append_word [OF refl] by (simp add: word_xor_eq_0_iff)
  finally show ?thesis .
qed

definition hdr_size :: "u8 list \<Rightarrow> nat" where
  "hdr_size buf = 3 + unat (hi_nibble (buf ! 0)) div 2"

lemma hi_nibble_le: "unat (hi_nibble w) \<le> 15"
proof -
  have "w AND 0xf0 \<le> 0xf0" by (rule word_and_le1)
  then have "unat (w AND 0xf0) \<le> 240" by (simp add: word_le_nat_alt)
  then show ?thesis by (simp add: hi_nibble_def drop_bit_eq_div unat_div)
qed

lemma hdr_size_unat: "unat (3 + hi_nibble (buf ! 0) div 2 :: u8) = hdr_size buf"
  and hdr_size_bounds: "3 \<le> hdr_size buf" "hdr_size buf \<le> 10"
  using hi_nibble_le [of "buf ! 0"]
  by (auto simp: hdr_size_def unat_word_ariths unat_div)

lemma decode_accepts_rem:
  assumes "fst (drm_dp_decode_sideband_msg_hdr hdr buf buflen hdrlen)"
  shows "crc_rem CRC4_POLY (msg_bits buf (hdr_size buf * 8)) = 0"
  using assms hdr_check_iff [of "hdr_size buf" buf] hdr_size_bounds [of buf]
  by (auto simp: drm_dp_decode_sideband_msg_hdr_def hdr_size_unat Let_def split: if_splits)

definition ex_hdr :: drm_dp_sideband_msg_hdr where
  "ex_hdr = \<lparr>lct = 2, lcr = 1, rad = [0x10, 0, 0, 0, 0, 0, 0, 0], broadcast = False, path_msg = True,
     msg_len = 5, somt = True, eomt = True, seqno = False\<rparr>"

text \<open>
  C28. The header decoder refuses damaged headers: if a header is accepted, and another one of the same
  length field differs from it in at least one bit with all differing bits within four consecutive
  positions (the CRC nibble included), the other one is refused.
\<close>

theorem decode_rejects_burst:
  assumes ok: "fst (drm_dp_decode_sideband_msg_hdr hdr buf buflen hdrlen)"
    and lct: "hi_nibble (buf' ! 0) = hi_nibble (buf ! 0)"
    and err: "burst 4 (xor_bits (msg_bits buf (hdr_size buf * 8)) (msg_bits buf' (hdr_size buf * 8)))"
  shows "\<not> fst (drm_dp_decode_sideband_msg_hdr hdr' buf' buflen' hdrlen')"
proof
  assume ok': "fst (drm_dp_decode_sideband_msg_hdr hdr' buf' buflen' hdrlen')"
  have "hdr_size buf' = hdr_size buf" by (simp add: hdr_size_def lct)
  then have "crc_rem CRC4_POLY (xor_bits (msg_bits buf (hdr_size buf * 8)) (msg_bits buf' (hdr_size buf * 8))) = 0"
    using decode_accepts_rem [OF ok] decode_accepts_rem [OF ok'] by (simp add: crc_rem_xor msg_bits_def)
  then show False using crc4.burst_rem_nonzero [of "xor_bits (msg_bits buf (hdr_size buf * 8)) (msg_bits buf' (hdr_size buf * 8))"] err
    by simp
qed

theorem decode_rejects_burst_witness:
  "fst (drm_dp_decode_sideband_msg_hdr ex_hdr [0x21, 0x10, 0x45, 0xc9] 4 0) \<and>
   \<not> fst (drm_dp_decode_sideband_msg_hdr ex_hdr [0x21, 0x10, 0x4b, 0xc9] 4 0)"
proof -
  have ok: "fst (drm_dp_decode_sideband_msg_hdr ex_hdr [0x21, 0x10, 0x45, 0xc9] 4 0)" by code_simp
  have "xor_bits (msg_bits [0x21, 0x10, 0x45, 0xc9] (hdr_size [0x21, 0x10, 0x45, 0xc9] * 8))
      (msg_bits [0x21, 0x10, 0x4b, 0xc9] (hdr_size [0x21, 0x10, 0x45, 0xc9] * 8)) =
      replicate 20 False @ [True, True, True] @ replicate 9 False"
    by code_simp
  then have "burst 4 (xor_bits (msg_bits [0x21, 0x10, 0x45, 0xc9] (hdr_size [0x21, 0x10, 0x45, 0xc9] * 8))
      (msg_bits [0x21, 0x10, 0x4b, 0xc9] (hdr_size [0x21, 0x10, 0x45, 0xc9] * 8)))"
    unfolding burst_def by (intro exI conjI) (assumption, simp_all)
  then have "\<not> fst (drm_dp_decode_sideband_msg_hdr ex_hdr [0x21, 0x10, 0x4b, 0xc9] 4 0)"
    by (rule decode_rejects_burst [OF ok, rotated]) simp
  with ok show ?thesis by simp
qed

section \<open>Encoding and decoding\<close>

definition hdr_wf :: "drm_dp_sideband_msg_hdr \<Rightarrow> bool" where
  "hdr_wf hdr \<longleftrightarrow> lct hdr < 16 \<and> lcr hdr < 16 \<and> (lct hdr \<noteq> 0 \<or> lcr hdr \<noteq> 0) \<and> length (rad hdr) = 8 \<and>
     0 < msg_len hdr \<and> msg_len hdr < 64"

lemma nibble_mask: "(0xf::u8) = mask 4" "(0xf0::u8) = push_bit 4 (mask 4)" "(0x3f::u8) = mask 6"
  by (simp_all add: mask_eq_exp_minus_1 push_bit_eq_mult)

lemma hdr_byte0:
  assumes "l < 16" "r < 16"
  shows "hi_nibble (push_bit 4 (l AND 0xf) OR (r AND 0xf)) = l" "(push_bit 4 (l AND 0xf) OR (r AND 0xf)) AND 0xf = r"
proof -
  have b: "bit l i \<Longrightarrow> i < 4" "bit r i \<Longrightarrow> i < 4" for i
    using less_exp_bit [of l 4 i] less_exp_bit [of r 4 i] assms by auto
  show "hi_nibble (push_bit 4 (l AND 0xf) OR (r AND 0xf)) = l" "(push_bit 4 (l AND 0xf) OR (r AND 0xf)) AND 0xf = r"
    unfolding hi_nibble_def nibble_mask
    by (rule bit_word_eqI, unfold bit_drop_bit_eq bit_push_bit_iff bit_or_iff bit_and_iff bit_mask_iff comp_def, auto dest: b)+
qed

lemma hdr_byte1:
  assumes "n < 64" and w_def: "w = (push_bit 7 (of_bool a) OR push_bit 6 (of_bool b) OR (n AND 0x3f) :: u8)"
  shows "bit w 7 = a" "bit w 6 = b" "w AND 0x3f = n"
proof -
  have b: "bit n i \<Longrightarrow> i < 6" for i
    using less_exp_bit [of n 6 i] assms by auto
  show "bit w 7 = a" "bit w 6 = b"
    unfolding w_def nibble_mask bit_push_bit_iff bit_or_iff bit_and_iff bit_mask_iff by (auto simp: bit_of_bool_iff dest: b)
  show "w AND 0x3f = n"
    unfolding w_def nibble_mask
    by (rule bit_word_eqI, unfold bit_push_bit_iff bit_or_iff bit_and_iff bit_mask_iff) (auto simp: bit_of_bool_iff dest: b)
qed

lemma hdr_byte2:
  assumes w_def: "w = (push_bit 7 (of_bool a) OR push_bit 6 (of_bool b) OR push_bit 4 (of_bool c) :: u8)"
  shows "bit (w OR (x AND 0xf)) 7 = a" "bit (w OR (x AND 0xf)) 6 = b" "bit (w OR (x AND 0xf)) 4 = c"
    "(w OR (x AND 0xf)) AND 0xf = x AND 0xf"
proof -
  show "bit (w OR (x AND 0xf)) 7 = a" "bit (w OR (x AND 0xf)) 6 = b" "bit (w OR (x AND 0xf)) 4 = c"
    unfolding w_def nibble_mask bit_push_bit_iff bit_or_iff bit_and_iff bit_mask_iff by (auto simp: bit_of_bool_iff)
  show "(w OR (x AND 0xf)) AND 0xf = x AND 0xf"
    unfolding w_def nibble_mask
    by (rule bit_word_eqI, unfold bit_push_bit_iff bit_or_iff bit_and_iff bit_mask_iff) (auto simp: bit_of_bool_iff)
qed

text \<open>The CRC covers all nibbles but the last one.\<close>

lemma header_crc4_cong:
  assumes "n \<le> 512" and "\<And>i. i < n * 4 \<Longrightarrow> msg_bit data i = msg_bit data' i"
  shows "drm_dp_msg_header_crc4 data n = drm_dp_msg_header_crc4 data' n"
proof -
  have "msg_bits data (n * 4) = msg_bits data' (n * 4)"
    unfolding msg_bits_def by (rule map_cong) (simp_all add: assms(2))
  then show ?thesis by (simp add: header_crc4_eq [OF assms(1)])
qed

lemma header_crc4_last_nibble:
  assumes "length buf = len" "0 < len" "len \<le> 16"
    and low: "\<And>i. 4 \<le> i \<Longrightarrow> bit w i = bit (buf ! (len - 1)) i"
  shows "drm_dp_msg_header_crc4 (buf[len - 1 := w] @ rest) (len * 2 - 1) = drm_dp_msg_header_crc4 buf (len * 2 - 1)"
proof (rule header_crc4_cong)
  show "len * 2 - 1 \<le> 512" using assms by simp
  fix i assume i: "i < (len * 2 - 1) * 4"
  then have "i div 8 < len" by simp
  moreover have "4 \<le> 7 - i mod 8" if "i div 8 = len - 1"
  proof -
    have "i = (len - 1) * 8 + i mod 8" using that by (metis div_mult_mod_eq)
    then show ?thesis using i by linarith
  qed
  ultimately show "msg_bit (buf[len - 1 := w] @ rest) i = msg_bit buf i"
    using low assms(1) by (auto simp: msg_bit_def nth_append nth_list_update)
qed

text \<open>The header bytes without the CRC nibble, and the encoder in terms of them.\<close>

definition hdr_bytes :: "drm_dp_sideband_msg_hdr \<Rightarrow> u8 list" where
  "hdr_bytes hdr = [push_bit 4 (lct hdr AND 0xf) OR (lcr hdr AND 0xf)]
              @ map (\<lambda>i. rad hdr ! i) [0..<unat (lct hdr div 2)]
              @ [push_bit 7 (of_bool (broadcast hdr)) OR push_bit 6 (of_bool (path_msg hdr)) OR (msg_len hdr AND 0x3f)]
              @ [push_bit 7 (of_bool (somt hdr)) OR push_bit 6 (of_bool (eomt hdr)) OR push_bit 4 (of_bool (seqno hdr))]"

lemma length_hdr_bytes [simp]: "length (hdr_bytes hdr) = 3 + unat (lct hdr div 2)"
  by (simp add: hdr_bytes_def)

lemma hdr_bytes_nth:
  "hdr_bytes hdr ! 0 = push_bit 4 (lct hdr AND 0xf) OR (lcr hdr AND 0xf)"
  "i < unat (lct hdr div 2) \<Longrightarrow> hdr_bytes hdr ! Suc i = rad hdr ! i"
  "hdr_bytes hdr ! (1 + unat (lct hdr div 2)) =
     push_bit 7 (of_bool (broadcast hdr)) OR push_bit 6 (of_bool (path_msg hdr)) OR (msg_len hdr AND 0x3f)"
  "hdr_bytes hdr ! (2 + unat (lct hdr div 2)) =
     push_bit 7 (of_bool (somt hdr)) OR push_bit 6 (of_bool (eomt hdr)) OR push_bit 4 (of_bool (seqno hdr))"
  by (simp_all add: hdr_bytes_def nth_append)

lemma encode_hdr_eq:
  "drm_dp_encode_sideband_msg_hdr hdr = (hdr_bytes hdr)[2 + unat (lct hdr div 2) :=
     hdr_bytes hdr ! (2 + unat (lct hdr div 2)) OR
       (drm_dp_msg_header_crc4 (hdr_bytes hdr) ((3 + unat (lct hdr div 2)) * 2 - 1) AND 0xf)]"
proof -
  have "length (hdr_bytes hdr) - 1 = 2 + unat (lct hdr div 2)" by simp
  then show ?thesis
    unfolding drm_dp_encode_sideband_msg_hdr_def hdr_bytes_def [symmetric] Let_def
    by (simp only: length_hdr_bytes)
qed

lemma length_encode_hdr [simp]: "length (drm_dp_encode_sideband_msg_hdr hdr) = 3 + unat (lct hdr div 2)"
  by (simp add: encode_hdr_eq)

lemma decode_encode_hdr:
  assumes wf: "hdr_wf hdr" and len: "length (drm_dp_encode_sideband_msg_hdr hdr) \<le> buflen"
  shows "drm_dp_decode_sideband_msg_hdr hdr0 (drm_dp_encode_sideband_msg_hdr hdr @ rest) buflen hdrlen =
    (True, hdr\<lparr>rad := take (unat (lct hdr div 2)) (rad hdr) @ drop (unat (lct hdr div 2)) (rad hdr0)\<rparr>,
     drm_dp_calc_sb_hdr_size hdr)"
proof -
  let ?n = "unat (lct hdr div 2)"
  define buf where "buf = drm_dp_encode_sideband_msg_hdr hdr @ rest"
  let ?w = "hdr_bytes hdr ! (2 + ?n) OR (drm_dp_msg_header_crc4 (hdr_bytes hdr) ((3 + ?n) * 2 - 1) AND 0xf)"
  have n: "?n \<le> 7" using wf by (auto simp: hdr_wf_def unat_div word_less_nat_alt)
  have buf_eq: "buf = (hdr_bytes hdr)[2 + ?n := ?w] @ rest" by (simp add: buf_def encode_hdr_eq)
  have b0: "buf ! 0 = hdr_bytes hdr ! 0" and bi: "i < ?n \<Longrightarrow> buf ! Suc i = rad hdr ! i"
    and b1: "buf ! (1 + ?n) = hdr_bytes hdr ! (1 + ?n)" and b2: "buf ! (2 + ?n) = ?w" for i
    by (simp_all add: buf_eq nth_append hdr_bytes_nth)
  have hi: "hi_nibble (buf ! 0) = lct hdr" and lo: "buf ! 0 AND 0xf = lcr hdr"
    using hdr_byte0 [of "lct hdr" "lcr hdr"] wf by (simp_all add: hdr_wf_def b0 hdr_bytes_nth)
  have nz: "buf ! 0 \<noteq> 0"
    using hi lo wf by (auto simp: hdr_wf_def hi_nibble_def)
  have sz: "unat (3 + lct hdr div 2) = 3 + ?n" using n by (simp add: unat_word_ariths)
  have "drm_dp_msg_header_crc4 buf ((3 + ?n) * 2 - 1) = drm_dp_msg_header_crc4 (hdr_bytes hdr) ((3 + ?n) * 2 - 1)"
    using header_crc4_last_nibble [of "hdr_bytes hdr" "3 + ?n" ?w rest] n
    by (auto simp: buf_eq nibble_mask bit_or_iff bit_and_iff bit_mask_iff)
  then have crc: "drm_dp_msg_header_crc4 buf ((3 + ?n) * 2 - 1) AND 0xf = buf ! (2 + ?n) AND 0xf"
    by (simp only: b2 hdr_byte2(4) [OF hdr_bytes_nth(4)])
  have rad: "map (\<lambda>i. buf ! (1 + i)) [0..<?n] = take ?n (rad hdr)"
    using bi n wf by (intro nth_equalityI) (auto simp: hdr_wf_def)
  note f1 = hdr_byte1 [OF _ b1 [unfolded hdr_bytes_nth(3)]] and f2 = hdr_byte2 [OF hdr_bytes_nth(4)]
  have lt: "msg_len hdr < 64" and pos: "\<not> msg_len hdr < 1" using wf by (auto simp: hdr_wf_def word_less_nat_alt)
  have idx: "1 + ?n + 1 = 2 + ?n" "3 + ?n - 1 = 2 + ?n" by simp_all
  have fit: "\<not> buflen < 3 + ?n" using len by simp
  have hl: "of_nat (1 + ?n + 2) = 3 + lct hdr div 2" by simp
  have g1: "bit (buf ! Suc ?n) 7 = broadcast hdr" "bit (buf ! Suc ?n) 6 = path_msg hdr" "buf ! Suc ?n AND 0x3f = msg_len hdr"
    using f1 [OF lt] by simp_all
  have g2: "bit (buf ! (2 + ?n)) 7 = somt hdr" "bit (buf ! (2 + ?n)) 6 = eomt hdr" "bit (buf ! (2 + ?n)) 4 = seqno hdr"
    unfolding b2 by (rule f2)+
  show ?thesis
    unfolding buf_def [symmetric] drm_dp_decode_sideband_msg_hdr_def drm_dp_calc_sb_hdr_size_def Let_def hi lo sz idx hl rad
      if_not_P [OF nz] if_not_P [OF fit] crc
    using pos g1 g2 by (cases hdr) simp
qed

text \<open>
  The decoder inverts the encoder: it accepts every encoded well-formed header (a link count total
  and remaining below 16 that are not both zero, a message length of 1 to 63) and gives back all its
  fields, whatever follows the header in the buffer.
\<close>

theorem hdr_roundtrip:
  assumes wf: "hdr_wf hdr" and len: "length (drm_dp_encode_sideband_msg_hdr hdr) \<le> buflen"
  shows "drm_dp_decode_sideband_msg_hdr hdr0 (drm_dp_encode_sideband_msg_hdr hdr @ rest) buflen hdrlen =
    (True, hdr\<lparr>rad := take (unat (lct hdr div 2)) (rad hdr) @ drop (unat (lct hdr div 2)) (rad hdr0)\<rparr>,
     drm_dp_calc_sb_hdr_size hdr)"
  using assms by (rule decode_encode_hdr)

theorem hdr_roundtrip_witness:
  "drm_dp_encode_sideband_msg_hdr ex_hdr = [0x21, 0x10, 0x45, 0xc9] \<and>
   drm_dp_decode_sideband_msg_hdr (ex_hdr\<lparr>somt := False\<rparr>) [0x21, 0x10, 0x45, 0xc9, 0x24] 16 0 = (True, ex_hdr, 4)"
proof -
  have e: "drm_dp_encode_sideband_msg_hdr ex_hdr = [0x21, 0x10, 0x45, 0xc9]" by code_simp
  have "drm_dp_decode_sideband_msg_hdr (ex_hdr\<lparr>somt := False\<rparr>) (drm_dp_encode_sideband_msg_hdr ex_hdr @ [0x24]) 16 0 =
      (True, ex_hdr\<lparr>rad := take (unat (lct ex_hdr div 2)) (rad ex_hdr) @
         drop (unat (lct ex_hdr div 2)) (rad (ex_hdr\<lparr>somt := False\<rparr>))\<rparr>, drm_dp_calc_sb_hdr_size ex_hdr)"
    by (rule hdr_roundtrip) (code_simp, simp add: ex_hdr_def)
  then show ?thesis by (simp add: e) (simp add: ex_hdr_def drm_dp_calc_sb_hdr_size_def)
qed

end
