(* ===== verification/MST_Topology.thy ===== *)
theory MST_Topology
  imports DRM_Prelude
begin

text \<open>
  The tree of branch devices of a DisplayPort MST topology and its relative addresses
  (\<open>drm_dp_mst_topology.c\<close>): a branch device is named by its link count total and the port numbers on
  the way from the primary branch device, packed two to a byte. The theory models the computation of
  the address of a new branch device, the decoding of an address, and the lookups of a branch device by
  address and by GUID; the main theorem is that the lookup finds every branch device of a well-formed
  tree by the address it was given.

  The reference counts are reduced to the flag \<open>branch_live\<close> (the topology reference count is not zero,
  so that \<open>drm_dp_mst_topology_try_get_mstb\<close> succeeds).
\<close>

unbundle bit_operations_syntax

section \<open>Branch devices and ports\<close>

record drm_dp_mst_branch =
  branch_ptr :: nat
  branch_rad :: "u8 list"
  branch_lct :: u8
  branch_guid :: "u8 list"
  branch_live :: bool

datatype mst_branch = Mstb (mstb_info: drm_dp_mst_branch) (mstb_ports: "mst_port list")
  and mst_port = MstPort (mport_num: u8) (port_mstb: "mst_branch option")

section \<open>Relative addresses\<close>

definition drm_dp_mst_get_ufp_num_at_lct_from_rad :: "u8 \<Rightarrow> u8 list \<Rightarrow> u8" where
  "drm_dp_mst_get_ufp_num_at_lct_from_rad lct rad =
     (let shift = (if unat lct mod 2 \<noteq> 0 then 0 else 4)
      in if lct = 1 then 0 else drop_bit shift (rad ! (unat lct div 2 - 1)) AND 0xf)"

text \<open>The bytes of the caller's \<open>rad\<close> that are written, and the returned link count total.\<close>

definition drm_dp_calculate_rad :: "drm_dp_mst_branch \<Rightarrow> u8 \<Rightarrow> u8 list \<times> u8" where
  "drm_dp_calculate_rad parent num =
     (let parent_lct = unat (branch_lct parent);
          idx = (parent_lct - 1) div 2;
          (rad, shift) = (if parent_lct > 1
                          then (take (idx + 1) (branch_rad parent), if parent_lct mod 2 \<noteq> 0 then 4 else 0)
                          else ([0], 4))
      in (rad[idx := rad ! idx OR push_bit shift num], of_nat (parent_lct + 1)))"

definition drm_dp_add_mst_branch_device :: "nat \<Rightarrow> u8 \<Rightarrow> u8 list \<Rightarrow> drm_dp_mst_branch" where
  "drm_dp_add_mst_branch_device ptr lct rad =
     \<lparr>branch_ptr = ptr,
      branch_rad = (if lct > 1 then take (unat lct div 2) rad @ replicate (8 - unat lct div 2) 0 else replicate 8 0),
      branch_lct = lct, branch_guid = replicate 16 0, branch_live = True\<rparr>"

section \<open>Lookup\<close>

text \<open>
  One level down: the first port with the number; when no port has it the inner loop ends and the walk
  goes on with the same branch device.
\<close>

definition rad_step :: "u8 \<Rightarrow> mst_branch \<Rightarrow> mst_branch option" where
  "rad_step num b = (case find (\<lambda>p. mport_num p = num) (mstb_ports b) of None \<Rightarrow> Some b | Some p \<Rightarrow> port_mstb p)"

fun rad_walk :: "u8 list \<Rightarrow> mst_branch \<Rightarrow> mst_branch option" where
  "rad_walk [] b = Some b"
| "rad_walk (n # ns) b = (case rad_step n b of None \<Rightarrow> None | Some b' \<Rightarrow> rad_walk ns b')"

definition try_get :: "mst_branch \<Rightarrow> mst_branch option" where
  "try_get b = (if branch_live (mstb_info b) then Some b else None)"

definition drm_dp_get_mst_branch_device :: "mst_branch option \<Rightarrow> u8 \<Rightarrow> u8 list \<Rightarrow> mst_branch option" where
  "drm_dp_get_mst_branch_device primary lct rad =
     (case primary of
        None \<Rightarrow> None
      | Some b \<Rightarrow>
          (case rad_walk (map (\<lambda>i. drm_dp_mst_get_ufp_num_at_lct_from_rad (of_nat (i + 1)) rad) [1..<unat lct]) b of
             None \<Rightarrow> None
           | Some b' \<Rightarrow> try_get b'))"

fun get_mst_branch_device_by_guid_helper :: "u8 list \<Rightarrow> mst_branch \<Rightarrow> mst_branch option"
  and guid_in_ports :: "u8 list \<Rightarrow> mst_port list \<Rightarrow> mst_branch option" where
  "get_mst_branch_device_by_guid_helper guid (Mstb info ps) =
     (if branch_guid info = guid then Some (Mstb info ps) else guid_in_ports guid ps)"
| "guid_in_ports guid [] = None"
| "guid_in_ports guid (MstPort n None # ps) = guid_in_ports guid ps"
| "guid_in_ports guid (MstPort n (Some b) # ps) =
     (case get_mst_branch_device_by_guid_helper guid b of Some b' \<Rightarrow> Some b' | None \<Rightarrow> guid_in_ports guid ps)"

definition drm_dp_get_mst_branch_device_by_guid :: "mst_branch option \<Rightarrow> u8 list \<Rightarrow> mst_branch option" where
  "drm_dp_get_mst_branch_device_by_guid primary guid =
     (case primary of
        None \<Rightarrow> None
      | Some b \<Rightarrow> (case get_mst_branch_device_by_guid_helper guid b of None \<Rightarrow> None | Some b' \<Rightarrow> try_get b'))"

section \<open>Addresses of the branch devices of a tree\<close>

text \<open>
  \<open>descends b ns d\<close>: the branch device \<open>d\<close> is reached from \<open>b\<close> over the ports with the numbers \<open>ns\<close>, and every
  branch device on the way got its address from \<open>drm_dp_calculate_rad\<close> and has distinct port numbers below 16.
\<close>

definition child_addr :: "drm_dp_mst_branch \<Rightarrow> u8 \<Rightarrow> drm_dp_mst_branch \<Rightarrow> bool" where
  "child_addr parent num child \<longleftrightarrow>
     (case drm_dp_calculate_rad parent num of (rad, lct) \<Rightarrow>
        branch_lct child = lct \<and> branch_rad child = branch_rad (drm_dp_add_mst_branch_device 0 lct rad))"

inductive descends :: "mst_branch \<Rightarrow> u8 list \<Rightarrow> mst_branch \<Rightarrow> bool" where
  here: "descends b [] b"
| child: "descends b ns p \<Longrightarrow> distinct (map mport_num (mstb_ports p)) \<Longrightarrow> MstPort n (Some c) \<in> set (mstb_ports p) \<Longrightarrow>
    n < 16 \<Longrightarrow> child_addr (mstb_info p) n (mstb_info c) \<Longrightarrow> descends b (ns @ [n]) c"

inductive_cases descends_nilE: "descends b [] d"

definition primary_addr :: "mst_branch \<Rightarrow> bool" where
  "primary_addr b \<longleftrightarrow> branch_lct (mstb_info b) = 1 \<and> branch_rad (mstb_info b) = replicate 8 0"

text \<open>The address in terms of the port numbers: nibble \<open>i\<close> (counted from the high nibble of the first byte).\<close>

definition nib :: "u8 \<Rightarrow> nat \<Rightarrow> u8" where
  "nib b i = drop_bit (if even i then 4 else 0) b AND 0xf"

definition rad_nibble :: "u8 list \<Rightarrow> nat \<Rightarrow> u8" where
  "rad_nibble rad i = nib (rad ! (i div 2)) i"

lemma ufp_nibble:
  assumes "i < 14"
  shows "drm_dp_mst_get_ufp_num_at_lct_from_rad (of_nat (i + 2)) rad = rad_nibble rad i"
proof -
  have u: "unat (of_nat (i + 2) :: u8) = i + 2" using assms by (intro unat_of_nat_u8) simp
  then have "(of_nat (i + 2) :: u8) \<noteq> 1" by (metis add_2_eq_Suc' nat.distinct(1) nat.inject unat_1 One_nat_def)
  then show ?thesis
    unfolding drm_dp_mst_get_ufp_num_at_lct_from_rad_def rad_nibble_def nib_def Let_def u by (simp add: even_iff_mod_2_eq_zero)
qed

lemma nib_or:
  assumes "n < (16::u8)"
  shows "nib (b OR push_bit (if even k then 4 else 0) n) i = (if even i = even k then nib b i OR n else nib b i)"
proof -
  have m: "(0xf::u8) = mask 4" by (simp add: mask_eq_exp_minus_1)
  have n: "bit n i \<Longrightarrow> i < 4" for i using less_exp_bit [of n 4 i] assms by auto
  note bits = bit_drop_bit_eq bit_push_bit_iff bit_or_iff bit_and_iff bit_mask_iff comp_def
  consider "even i" "even k" | "even i" "odd k" | "odd i" "even k" | "odd i" "odd k" by blast
  then show ?thesis
    unfolding nib_def m
    by cases (simp_all only: if_True if_False not_True_eq_False simp_thms,
        (rule bit_word_eqI, unfold bits, auto dest: n)+)
qed

text \<open>The new byte of a child's address holds the parent's nibbles and the port number in the next one.\<close>

definition rad_of :: "u8 list \<Rightarrow> u8 list \<Rightarrow> bool" where
  "rad_of rad ns \<longleftrightarrow> length rad = 8 \<and> (\<forall>i < 16. rad_nibble rad i = (if i < length ns then ns ! i else 0))"

lemma rad_of_snoc:
  assumes rad: "rad_of rad ns" and k: "length ns < 14" and n: "n < 16"
    and rad': "rad' = (take (length ns div 2 + 1) rad)[length ns div 2 := rad ! (length ns div 2) OR push_bit (if even (length ns) then 4 else 0) n]
      @ replicate (8 - (length ns div 2 + 1)) 0"
  shows "rad_of rad' (ns @ [n])"
proof -
  let ?k = "length ns" and ?idx = "length ns div 2"
  have len: "length rad = 8" and nib: "i < 16 \<Longrightarrow> rad_nibble rad i = (if i < ?k then ns ! i else 0)" for i
    using rad by (auto simp: rad_of_def)
  have idx: "?idx < 7" using k by linarith
  have byte: "rad' ! j = (if j < ?idx then rad ! j else if j = ?idx then rad ! ?idx OR push_bit (if even ?k then 4 else 0) n else 0)"
    if "j < 8" for j
    using that idx len by (auto simp: rad' nth_append nth_list_update)
  have "rad_nibble rad' i = (if i < Suc ?k then (ns @ [n]) ! i else 0)" if i: "i < 16" for i
  proof -
    have j: "i div 2 < 8" using i by simp
    consider (low) "i div 2 < ?idx" | (high) "?idx < i div 2" | (same) "i div 2 = ?idx" by linarith
    then show ?thesis
    proof cases
      case low
      then have "i < ?k" by linarith
      then show ?thesis using low j nib [OF i] by (simp add: rad_nibble_def byte nth_append)
    next
      case high
      then have "\<not> i < Suc ?k" by linarith
      then show ?thesis using high j by (simp add: rad_nibble_def byte nib_def)
    next
      case same
      have old: "nib (rad ! ?idx) i = (if i < ?k then ns ! i else 0)"
        using nib [OF i] same by (simp add: rad_nibble_def)
      have new: "rad_nibble rad' i = (if even i = even ?k then nib (rad ! ?idx) i OR n else nib (rad ! ?idx) i)"
      proof -
        have "rad' ! ?idx = rad ! ?idx OR push_bit (if even ?k then 4 else 0) n" using byte [of ?idx] idx by simp
        then show ?thesis unfolding rad_nibble_def same by (simp only: nib_or [OF n])
      qed
      consider "even ?k" "i = ?k" | "even ?k" "i = Suc ?k" | "odd ?k" "Suc i = ?k" "even i" | "odd ?k" "i = ?k"
      proof -
        have "(even ?k \<and> (i = ?k \<or> i = Suc ?k)) \<or> (odd ?k \<and> (Suc i = ?k \<and> even i \<or> i = ?k))" using same by presburger
        then show thesis using that by blast
      qed
      then show ?thesis
        using old new by cases (simp_all add: nth_append)
    qed
  qed
  then show ?thesis using len idx by (auto simp: rad_of_def rad')
qed

lemma calculate_rad_child:
  assumes lct: "branch_lct parent = of_nat (Suc (length ns))" and k: "length ns < 14" and rad: "rad_of (branch_rad parent) ns"
    and prim: "ns = [] \<Longrightarrow> branch_rad parent = replicate 8 0" and n: "n < 16" and child: "child_addr parent n child"
  shows "branch_lct child = of_nat (Suc (length (ns @ [n]))) \<and> rad_of (branch_rad child) (ns @ [n])"
proof -
  let ?k = "length ns" and ?idx = "length ns div 2"
  have len: "length (branch_rad parent) = 8" using rad by (simp add: rad_of_def)
  have u: "unat (branch_lct parent) = Suc ?k" using lct k unat_of_nat_u8 [of "Suc ?k"] by simp
  have u2: "unat (of_nat (Suc ?k + 1) :: u8) = Suc ?k + 1" using k by (intro unat_of_nat_u8) simp
  have sh: "(Suc ?k mod 2 \<noteq> 0) = even ?k" by presburger
  let ?new = "(take (?idx + 1) (branch_rad parent))[?idx := branch_rad parent ! ?idx OR push_bit (if even ?k then 4 else 0) n]"
  have calc: "drm_dp_calculate_rad parent n = (?new, of_nat (Suc ?k + 1))"
  proof (cases "ns = []")
    case True
    then show ?thesis using prim by (simp add: drm_dp_calculate_rad_def u)
  next
    case False
    then have "1 < Suc ?k" by simp
    moreover have "take (?idx + 1) (branch_rad parent) ! ?idx = branch_rad parent ! ?idx" using len k by simp
    ultimately show ?thesis
      unfolding drm_dp_calculate_rad_def u Let_def sh by simp
  qed
  have "(of_nat (Suc ?k + 1) :: u8) > 1" using u2 by (metis One_nat_def Suc_less_eq add.commute plus_1_eq_Suc unat_1 word_less_nat_alt zero_less_Suc)
  moreover have "(Suc ?k + 1) div 2 = ?idx + 1" by simp
  ultimately have "branch_rad child = ?new @ replicate (8 - (?idx + 1)) 0"
    using child len k unfolding child_addr_def calc prod.case drm_dp_add_mst_branch_device_def u2 by simp
  from rad_of_snoc [OF rad k n this] child show ?thesis by (simp add: child_addr_def calc)
qed

lemma descends_addr:
  assumes "descends b ns d" and "primary_addr b" and "length ns \<le> 14"
  shows "branch_lct (mstb_info d) = of_nat (Suc (length ns)) \<and> rad_of (branch_rad (mstb_info d)) ns \<and>
    (ns = [] \<longrightarrow> branch_rad (mstb_info d) = replicate 8 0)"
  using assms
proof (induction rule: descends.induct)
  case (here b)
  then show ?case by (auto simp: primary_addr_def rad_of_def rad_nibble_def nib_def)
next
  case (child b ns p n c)
  then show ?case using calculate_rad_child [of "mstb_info p" ns n "mstb_info c"] by simp
qed

lemma rad_walk_append:
  "rad_walk (ns @ ms) b = (case rad_walk ns b of None \<Rightarrow> None | Some b' \<Rightarrow> rad_walk ms b')"
  by (induction ns arbitrary: b) (auto split: option.split)

lemma find_port:
  "distinct (map mport_num ps) \<Longrightarrow> MstPort n c \<in> set ps \<Longrightarrow> find (\<lambda>p. mport_num p = n) ps = Some (MstPort n c)"
  by (induction ps) (auto simp: image_iff)

lemma descends_walk: "descends b ns d \<Longrightarrow> rad_walk ns b = Some d"
proof (induction rule: descends.induct)
  case (child b ns p n c)
  then show ?case using find_port [of "mstb_ports p" n "Some c"] by (simp add: rad_walk_append rad_step_def)
qed simp

text \<open>
  C31. Routing by relative address: every branch device of the tree, up to the depth 15 an address can
  name, is found by the link count total and the address that \<open>drm_dp_calculate_rad\<close> gave it.
\<close>

theorem branch_lookup_complete:
  assumes "primary_addr b" and d: "descends b ns d" and len: "length ns \<le> 14" and "branch_live (mstb_info d)"
  shows "drm_dp_get_mst_branch_device (Some b) (branch_lct (mstb_info d)) (branch_rad (mstb_info d)) = Some d"
proof -
  let ?rad = "branch_rad (mstb_info d)"
  have lct: "unat (branch_lct (mstb_info d)) = Suc (length ns)" and rad: "rad_of ?rad ns"
    using descends_addr [OF d assms(1) len] len unat_of_nat_u8 [of "Suc (length ns)"] by auto
  have "map (\<lambda>i. drm_dp_mst_get_ufp_num_at_lct_from_rad (of_nat (i + 1)) ?rad) [1..<Suc (length ns)] = ns"
  proof (rule nth_equalityI)
    fix i assume "i < length (map (\<lambda>i. drm_dp_mst_get_ufp_num_at_lct_from_rad (of_nat (i + 1)) ?rad) [1..<Suc (length ns)])"
    then have i: "i < length ns" by (simp del: upt_Suc)
    then have "drm_dp_mst_get_ufp_num_at_lct_from_rad (of_nat (i + 2)) ?rad = ns ! i"
      using rad len ufp_nibble [of i ?rad] by (simp add: rad_of_def)
    then show "map (\<lambda>i. drm_dp_mst_get_ufp_num_at_lct_from_rad (of_nat (i + 1)) ?rad) [1..<Suc (length ns)] ! i = ns ! i"
      using i by (simp add: add.commute del: upt_Suc)
  qed (simp del: upt_Suc)
  then show ?thesis
    using descends_walk [OF d] assms(4) by (simp add: drm_dp_get_mst_branch_device_def lct try_get_def del: upt_Suc)
qed

text \<open>A tree of three branch devices: the primary one, one behind its port 2 and one behind port 9 of that one.\<close>

definition ex_deep :: mst_branch where
  "ex_deep = Mstb \<lparr>branch_ptr = 3, branch_rad = [0x29, 0, 0, 0, 0, 0, 0, 0], branch_lct = 3,
     branch_guid = replicate 16 3, branch_live = True\<rparr> []"

definition ex_mid :: mst_branch where
  "ex_mid = Mstb \<lparr>branch_ptr = 2, branch_rad = [0x20, 0, 0, 0, 0, 0, 0, 0], branch_lct = 2,
     branch_guid = replicate 16 2, branch_live = True\<rparr> [MstPort 1 None, MstPort 9 (Some ex_deep)]"

definition ex_primary :: mst_branch where
  "ex_primary = Mstb \<lparr>branch_ptr = 1, branch_rad = replicate 8 0, branch_lct = 1,
     branch_guid = replicate 16 1, branch_live = True\<rparr> [MstPort 0 None, MstPort 2 (Some ex_mid)]"

lemma ex_descends: "descends ex_primary [2, 9] ex_deep"
proof -
  have "child_addr (mstb_info ex_primary) 2 (mstb_info ex_mid)" by code_simp
  then have "descends ex_primary ([] @ [2]) ex_mid"
    by (intro descends.child [OF descends.here]) (simp_all add: ex_primary_def)
  moreover have "child_addr (mstb_info ex_mid) 9 (mstb_info ex_deep)" by code_simp
  ultimately have "descends ex_primary (([] @ [2]) @ [9]) ex_deep"
    by (elim descends.child) (simp_all add: ex_mid_def)
  then show ?thesis by simp
qed

theorem branch_lookup_complete_witness:
  "drm_dp_get_mst_branch_device (Some ex_primary) 3 [0x29, 0, 0, 0, 0, 0, 0, 0] = Some ex_deep"
proof -
  have "primary_addr ex_primary" "branch_live (mstb_info ex_deep)" by (simp_all add: primary_addr_def ex_primary_def ex_deep_def)
  from branch_lookup_complete [OF this(1) ex_descends _ this(2)] show ?thesis by (simp add: ex_deep_def)
qed

section \<open>Lookup by GUID\<close>

text \<open>The branch devices of a tree, in the order of the search.\<close>

fun branches :: "mst_branch \<Rightarrow> mst_branch list" and port_branches :: "mst_port list \<Rightarrow> mst_branch list" where
  "branches (Mstb info ps) = Mstb info ps # port_branches ps"
| "port_branches [] = []"
| "port_branches (MstPort n None # ps) = port_branches ps"
| "port_branches (MstPort n (Some b) # ps) = branches b @ port_branches ps"

lemma guid_helper_find:
  "get_mst_branch_device_by_guid_helper guid b = find (\<lambda>d. branch_guid (mstb_info d) = guid) (branches b)"
  "guid_in_ports guid ps = find (\<lambda>d. branch_guid (mstb_info d) = guid) (port_branches ps)"
  by (induction b and ps rule: branches_port_branches.induct) (auto simp: find_append split: option.split)

text \<open>
  The recursive lookup by GUID is a depth first search: it returns the first branch device with the GUID
  in preorder, and fails exactly when the tree has none or the one found is being destroyed.
\<close>

theorem guid_lookup_preorder:
  "drm_dp_get_mst_branch_device_by_guid (Some b) guid =
     (case find (\<lambda>d. branch_guid (mstb_info d) = guid) (branches b) of
        Some d \<Rightarrow> if branch_live (mstb_info d) then Some d else None | None \<Rightarrow> None)"
  by (simp add: drm_dp_get_mst_branch_device_by_guid_def guid_helper_find try_get_def split: option.split)

end
