(* ===== verification/MST_Messages.thy ===== *)
theory MST_Messages
  imports MST_Header MST_Topology "HOL-Library.Monad_Syntax"
begin

text \<open>
  The bodies of DisplayPort MST sideband messages (\<open>drm_dp_mst_topology.c\<close>): requests, their encoder
  and decoder, the functions that build a request, and the parsers of replies and up requests.

  The tagged unions of \<open>drm_dp_mst_helper.h\<close> are datatypes, and an array or a counted pointer is a
  list. Reading a message buffer outside its 256 bytes has no defined result: functions that index the
  buffer with a value taken from the message return \<open>None\<close> then. \<open>kmemdup\<close> takes its outcome from a
  list (the end of the list means that all further allocations succeed).
\<close>

unbundle bit_operations_syntax

section \<open>Memory\<close>

definition rd :: "u8 list \<Rightarrow> nat \<Rightarrow> u8 option" where
  "rd buf i = (if i < length buf then Some (buf ! i) else None)"

definition rdn :: "u8 list \<Rightarrow> nat \<Rightarrow> nat \<Rightarrow> u8 list option" where
  "rdn buf i n = (if i + n \<le> length buf then Some (take n (drop i buf)) else None)"

definition next_alloc :: "bool list \<Rightarrow> bool \<times> bool list" where
  "next_alloc outs = (case outs of [] \<Rightarrow> (True, []) | b # bs \<Rightarrow> (b, bs))"

section \<open>Requests\<close>

definition DP_LINK_ADDRESS :: u8 where "DP_LINK_ADDRESS = 0x01"
definition DP_CONNECTION_STATUS_NOTIFY :: u8 where "DP_CONNECTION_STATUS_NOTIFY = 0x02"
definition DP_ENUM_PATH_RESOURCES :: u8 where "DP_ENUM_PATH_RESOURCES = 0x10"
definition DP_ALLOCATE_PAYLOAD :: u8 where "DP_ALLOCATE_PAYLOAD = 0x11"
definition DP_QUERY_PAYLOAD :: u8 where "DP_QUERY_PAYLOAD = 0x12"
definition DP_RESOURCE_STATUS_NOTIFY :: u8 where "DP_RESOURCE_STATUS_NOTIFY = 0x13"
definition DP_CLEAR_PAYLOAD_ID_TABLE :: u8 where "DP_CLEAR_PAYLOAD_ID_TABLE = 0x14"
definition DP_REMOTE_DPCD_READ :: u8 where "DP_REMOTE_DPCD_READ = 0x20"
definition DP_REMOTE_DPCD_WRITE :: u8 where "DP_REMOTE_DPCD_WRITE = 0x21"
definition DP_REMOTE_I2C_READ :: u8 where "DP_REMOTE_I2C_READ = 0x22"
definition DP_REMOTE_I2C_WRITE :: u8 where "DP_REMOTE_I2C_WRITE = 0x23"
definition DP_POWER_UP_PHY :: u8 where "DP_POWER_UP_PHY = 0x24"
definition DP_POWER_DOWN_PHY :: u8 where "DP_POWER_DOWN_PHY = 0x25"
definition DP_QUERY_STREAM_ENC_STATUS :: u8 where "DP_QUERY_STREAM_ENC_STATUS = 0x38"

lemmas dp_codes =
  DP_LINK_ADDRESS_def DP_CONNECTION_STATUS_NOTIFY_def DP_ENUM_PATH_RESOURCES_def DP_ALLOCATE_PAYLOAD_def
  DP_QUERY_PAYLOAD_def DP_RESOURCE_STATUS_NOTIFY_def DP_CLEAR_PAYLOAD_ID_TABLE_def DP_REMOTE_DPCD_READ_def
  DP_REMOTE_DPCD_WRITE_def DP_REMOTE_I2C_READ_def DP_REMOTE_I2C_WRITE_def DP_POWER_UP_PHY_def
  DP_POWER_DOWN_PHY_def DP_QUERY_STREAM_ENC_STATUS_def

record drm_dp_allocate_payload =
  ap_port_number :: u8
  number_sdp_streams :: u8
  ap_vcpi :: u8
  ap_pbn :: u16
  sdp_stream_sink :: "u8 list"

record drm_dp_query_payload =
  qp_port_number :: u8
  qp_vcpi :: u8

record drm_dp_remote_dpcd_read =
  dr_port_number :: u8
  dr_dpcd_address :: u32
  dr_num_bytes :: u8

record drm_dp_remote_dpcd_write =
  dw_port_number :: u8
  dw_dpcd_address :: u32
  dw_num_bytes :: u8
  dw_bytes :: "u8 list"

record drm_dp_remote_i2c_read_tx =
  i2c_dev_id :: u8
  tx_num_bytes :: u8
  tx_bytes :: "u8 list"
  no_stop_bit :: u8
  i2c_transaction_delay :: u8

record drm_dp_remote_i2c_read =
  num_transactions :: u8
  ir_port_number :: u8
  transactions :: "drm_dp_remote_i2c_read_tx list"
  read_i2c_device_id :: u8
  num_bytes_read :: u8

record drm_dp_remote_i2c_write =
  iw_port_number :: u8
  write_i2c_device_id :: u8
  iw_num_bytes :: u8
  iw_bytes :: "u8 list"

record drm_dp_query_stream_enc_status =
  es_stream_id :: u8
  client_id :: "u8 list"
  stream_event :: u8
  valid_stream_event :: bool
  stream_behavior :: u8
  valid_stream_behavior :: u8

record drm_dp_connection_status_notify =
  cs_guid :: "u8 list"
  cs_port_number :: u8
  cs_legacy_device_plug_status :: bool
  displayport_device_plug_status :: bool
  message_capability_status :: bool
  cs_input_port :: bool
  cs_peer_device_type :: u8

record drm_dp_resource_status_notify =
  rs_port_number :: u8
  rs_guid :: "u8 list"
  available_pbn :: u16

text \<open>
  \<open>drm_dp_sideband_msg_req_body\<close>: the constructor is the request type, its argument the member of the
  union. Requests without a body are \<open>Plain_req\<close> with the type.
\<close>

datatype drm_dp_sideband_msg_req_body =
    Enum_path_resources u8
  | Power_down_phy u8
  | Power_up_phy u8
  | Allocate_payload drm_dp_allocate_payload
  | Query_payload drm_dp_query_payload
  | Remote_dpcd_read drm_dp_remote_dpcd_read
  | Remote_dpcd_write drm_dp_remote_dpcd_write
  | Remote_i2c_read drm_dp_remote_i2c_read
  | Remote_i2c_write drm_dp_remote_i2c_write
  | Query_stream_enc_status drm_dp_query_stream_enc_status
  | Connection_status_notify drm_dp_connection_status_notify
  | Resource_status_notify drm_dp_resource_status_notify
  | Plain_req u8

fun req_type :: "drm_dp_sideband_msg_req_body \<Rightarrow> u8" where
  "req_type (Enum_path_resources _) = DP_ENUM_PATH_RESOURCES"
| "req_type (Power_down_phy _) = DP_POWER_DOWN_PHY"
| "req_type (Power_up_phy _) = DP_POWER_UP_PHY"
| "req_type (Allocate_payload _) = DP_ALLOCATE_PAYLOAD"
| "req_type (Query_payload _) = DP_QUERY_PAYLOAD"
| "req_type (Remote_dpcd_read _) = DP_REMOTE_DPCD_READ"
| "req_type (Remote_dpcd_write _) = DP_REMOTE_DPCD_WRITE"
| "req_type (Remote_i2c_read _) = DP_REMOTE_I2C_READ"
| "req_type (Remote_i2c_write _) = DP_REMOTE_I2C_WRITE"
| "req_type (Query_stream_enc_status _) = DP_QUERY_STREAM_ENC_STATUS"
| "req_type (Connection_status_notify _) = DP_CONNECTION_STATUS_NOTIFY"
| "req_type (Resource_status_notify _) = DP_RESOURCE_STATUS_NOTIFY"
| "req_type (Plain_req t) = t"

section \<open>Encoding of requests\<close>

definition enc_port :: "u8 \<Rightarrow> u8" where
  "enc_port p = push_bit 4 (p AND 0xf)"

definition enc_sinks :: "u8 \<Rightarrow> u8 list \<Rightarrow> u8 list" where
  "enc_sinks n sink =
     map (\<lambda>i. push_bit 4 (sink ! (i * 2) AND 0xf) OR (sink ! (i * 2 + 1) AND 0xf)) [0..<unat n div 2]
     @ (if n AND 1 \<noteq> 0 then [push_bit 4 (sink ! (unat n - 1) AND 0xf)] else [])"

definition enc_dpcd_addr :: "u8 \<Rightarrow> u32 \<Rightarrow> u8 list" where
  "enc_dpcd_addr port addr =
     [enc_port port OR (ucast (drop_bit 16 (addr AND 0xf0000)) AND 0xf),
      ucast (drop_bit 8 (addr AND 0xff00)), ucast (addr AND 0xff)]"

definition enc_i2c_tx :: "drm_dp_remote_i2c_read_tx \<Rightarrow> u8 list" where
  "enc_i2c_tx t = [i2c_dev_id t AND 0x7f, tx_num_bytes t] @ take (unat (tx_num_bytes t)) (tx_bytes t)
     @ [push_bit 4 (no_stop_bit t AND 1) OR (i2c_transaction_delay t AND 0xf)]"

fun enc_req_body :: "drm_dp_sideband_msg_req_body \<Rightarrow> u8 list" where
  "enc_req_body (Enum_path_resources p) = [enc_port p]"
| "enc_req_body (Power_down_phy p) = [enc_port p]"
| "enc_req_body (Power_up_phy p) = [enc_port p]"
| "enc_req_body (Allocate_payload a) =
     [enc_port (ap_port_number a) OR (number_sdp_streams a AND 0xf), ap_vcpi a AND 0x7f,
      ucast (drop_bit 8 (ap_pbn a)), ucast (ap_pbn a AND 0xff)]
     @ enc_sinks (number_sdp_streams a) (sdp_stream_sink a)"
| "enc_req_body (Query_payload q) = [enc_port (qp_port_number q), qp_vcpi q AND 0x7f]"
| "enc_req_body (Remote_dpcd_read r) = enc_dpcd_addr (dr_port_number r) (dr_dpcd_address r) @ [dr_num_bytes r]"
| "enc_req_body (Remote_dpcd_write w) =
     enc_dpcd_addr (dw_port_number w) (dw_dpcd_address w) @ [dw_num_bytes w] @ take (unat (dw_num_bytes w)) (dw_bytes w)"
| "enc_req_body (Remote_i2c_read r) =
     [enc_port (ir_port_number r) OR (num_transactions r AND 0x3)]
     @ concat (map (\<lambda>i. enc_i2c_tx (transactions r ! i)) [0..<unat (num_transactions r AND 0x3)])
     @ [read_i2c_device_id r AND 0x7f, num_bytes_read r]"
| "enc_req_body (Remote_i2c_write w) =
     [enc_port (iw_port_number w), write_i2c_device_id w AND 0x7f, iw_num_bytes w] @ take (unat (iw_num_bytes w)) (iw_bytes w)"
| "enc_req_body (Query_stream_enc_status m) =
     [es_stream_id m] @ client_id m
     @ [(stream_event m AND 3) OR (if valid_stream_event m then 4 else 0)
        OR push_bit 3 (stream_behavior m AND 3) OR (if valid_stream_behavior m \<noteq> 0 then 0x20 else 0)]"
| "enc_req_body (Connection_status_notify _) = []"
| "enc_req_body (Resource_status_notify _) = []"
| "enc_req_body (Plain_req _) = []"

definition enc_req :: "drm_dp_sideband_msg_req_body \<Rightarrow> u8 list" where
  "enc_req req = (req_type req AND 0x7f) # enc_req_body req"

text \<open>
  The message being sent. Writing more than the 256 bytes of \<open>msg\<close> has no defined result; \<open>cur_len\<close> is
  an \<open>u8\<close>.
\<close>

datatype drm_dp_sideband_tx_state =
  DRM_DP_SIDEBAND_TX_QUEUED | DRM_DP_SIDEBAND_TX_START_SEND | DRM_DP_SIDEBAND_TX_SENT |
  DRM_DP_SIDEBAND_TX_RX | DRM_DP_SIDEBAND_TX_TIMEOUT

record drm_dp_sideband_msg_tx =
  tx_ptr :: nat
  tx_msg :: "u8 list"
  cur_offset :: u8
  cur_len :: u8
  dst :: drm_dp_mst_branch
  tx_path_msg :: bool
  tx_state :: drm_dp_sideband_tx_state

definition drm_dp_encode_sideband_req ::
    "drm_dp_sideband_msg_req_body \<Rightarrow> drm_dp_sideband_msg_tx \<Rightarrow> drm_dp_sideband_msg_tx option" where
  "drm_dp_encode_sideband_req req raw =
     (let bs = enc_req req
      in if length bs > length (tx_msg raw) then None
         else Some (raw\<lparr>tx_msg := bs @ drop (length bs) (tx_msg raw), cur_len := of_nat (length bs)\<rparr>))"

definition drm_dp_encode_sideband_reply :: "u8 \<Rightarrow> u8 \<Rightarrow> drm_dp_sideband_msg_tx \<Rightarrow> drm_dp_sideband_msg_tx" where
  "drm_dp_encode_sideband_reply rep_type rep_req_type raw =
     raw\<lparr>tx_msg := (tx_msg raw)[0 := push_bit 7 (rep_type AND 1) OR (rep_req_type AND 0x7f)], cur_len := 1\<rparr>"

section \<open>Decoding of requests\<close>

definition dec_sinks :: "u8 list \<Rightarrow> nat \<Rightarrow> u8 \<Rightarrow> u8 list" where
  "dec_sinks buf idx n =
     map (\<lambda>i. drop_bit (if i mod 2 \<noteq> 0 then 0 else 4) (buf ! (idx + i div 2)) AND 0xf) [0..<unat n]"

definition dec_dpcd_addr :: "u8 \<Rightarrow> u8 \<Rightarrow> u8 \<Rightarrow> u32" where
  "dec_dpcd_addr a b c =
     (push_bit 16 (ucast a) AND 0xf0000) OR (push_bit 8 (ucast b) AND 0xff00) OR (ucast c AND 0xff)"

text \<open>
  A failed decoding: \<open>Inl\<close> of the error with the number of calls of \<open>kfree\<close> on pointers of the
  caller's \<open>req\<close> that the function never wrote.
\<close>

fun dec_i2c_txs ::
    "nat \<Rightarrow> bool list \<Rightarrow> u8 list \<Rightarrow> nat \<Rightarrow> ((int \<times> nat) + drm_dp_remote_i2c_read_tx list \<times> nat) option" where
  "dec_i2c_txs 0 outs buf idx = Some (Inr ([], idx))"
| "dec_i2c_txs (Suc n) outs buf idx = do {
     dev \<leftarrow> rd buf (idx + 1);
     num \<leftarrow> rd buf (idx + 2);
     (case next_alloc outs of
        (False, _) \<Rightarrow> Some (Inl (neg_errno ENOMEM, n))
      | (True, outs') \<Rightarrow> do {
          bytes \<leftarrow> rdn buf (idx + 3) (unat num);
          st \<leftarrow> rd buf (idx + 3 + unat num);
          r \<leftarrow> dec_i2c_txs n outs' buf (idx + 3 + unat num);
          Some (case r of
             Inl e \<Rightarrow> Inl e
           | Inr (txs, idx') \<Rightarrow>
               Inr (\<lparr>i2c_dev_id = dev AND 0x7f, tx_num_bytes = num, tx_bytes = bytes,
                     no_stop_bit = drop_bit 5 st AND 1, i2c_transaction_delay = st AND 0xf\<rparr> # txs, idx'))
        })
   }"

definition drm_dp_decode_sideband_req ::
    "bool list \<Rightarrow> drm_dp_sideband_msg_tx \<Rightarrow> ((int \<times> nat) + drm_dp_sideband_msg_req_body) option" where
  "drm_dp_decode_sideband_req outs raw =
     (let buf = tx_msg raw; t = buf ! 0 AND 0x7f; port = drop_bit 4 (buf ! 1) AND 0xf in
      if t = DP_ENUM_PATH_RESOURCES then Some (Inr (Enum_path_resources port))
      else if t = DP_POWER_DOWN_PHY then Some (Inr (Power_down_phy port))
      else if t = DP_POWER_UP_PHY then Some (Inr (Power_up_phy port))
      else if t = DP_ALLOCATE_PAYLOAD then
        let n = buf ! 1 AND 0xf in
        Some (Inr (Allocate_payload
          \<lparr>ap_port_number = port, number_sdp_streams = n, ap_vcpi = buf ! 2 AND 0x7f,
           ap_pbn = push_bit 8 (ucast (buf ! 3)) OR ucast (buf ! 4), sdp_stream_sink = dec_sinks buf 5 n\<rparr>))
      else if t = DP_QUERY_PAYLOAD then
        Some (Inr (Query_payload \<lparr>qp_port_number = port, qp_vcpi = buf ! 2 AND 0x7f\<rparr>))
      else if t = DP_REMOTE_DPCD_READ then
        Some (Inr (Remote_dpcd_read
          \<lparr>dr_port_number = port, dr_dpcd_address = dec_dpcd_addr (buf ! 1) (buf ! 2) (buf ! 3), dr_num_bytes = buf ! 4\<rparr>))
      else if t = DP_REMOTE_DPCD_WRITE then
        (if \<not> fst (next_alloc outs) then Some (Inl (neg_errno ENOMEM, 0))
         else map_option (\<lambda>bytes. Inr (Remote_dpcd_write
           \<lparr>dw_port_number = port, dw_dpcd_address = dec_dpcd_addr (buf ! 1) (buf ! 2) (buf ! 3),
            dw_num_bytes = buf ! 4, dw_bytes = bytes\<rparr>)) (rdn buf 5 (unat (buf ! 4))))
      else if t = DP_REMOTE_I2C_READ then
        do {
          r \<leftarrow> dec_i2c_txs (unat (buf ! 1 AND 0x3)) outs buf 1;
          (case r of
             Inl e \<Rightarrow> Some (Inl e)
           | Inr (txs, idx) \<Rightarrow> do {
               dev \<leftarrow> rd buf (idx + 1);
               num \<leftarrow> rd buf (idx + 2);
               Some (Inr (Remote_i2c_read
                 \<lparr>num_transactions = buf ! 1 AND 0x3, ir_port_number = port, transactions = txs,
                  read_i2c_device_id = dev AND 0x7f, num_bytes_read = num\<rparr>))
             })
        }
      else if t = DP_REMOTE_I2C_WRITE then
        (if \<not> fst (next_alloc outs) then Some (Inl (neg_errno ENOMEM, 0))
         else map_option (\<lambda>bytes. Inr (Remote_i2c_write
           \<lparr>iw_port_number = port, write_i2c_device_id = buf ! 2 AND 0x7f, iw_num_bytes = buf ! 3, iw_bytes = bytes\<rparr>))
           (rdn buf 4 (unat (buf ! 3))))
      else if t = DP_QUERY_STREAM_ENC_STATUS then
        Some (Inr (Query_stream_enc_status
          \<lparr>es_stream_id = buf ! 1, client_id = map (\<lambda>i. buf ! (2 + i)) [0..<7],
           stream_event = buf ! 9 AND 3, valid_stream_event = bit (buf ! 9) 2,
           stream_behavior = drop_bit 3 (buf ! 9) AND 3, valid_stream_behavior = drop_bit 5 (buf ! 9) AND 1\<rparr>))
      else Some (Inr (Plain_req t)))"

section \<open>Building requests\<close>

definition build_dpcd_write ::
    "drm_dp_sideband_msg_tx \<Rightarrow> u8 \<Rightarrow> u32 \<Rightarrow> u8 \<Rightarrow> u8 list \<Rightarrow> drm_dp_sideband_msg_tx option" where
  "build_dpcd_write msg port_num offset num_bytes bytes =
     drm_dp_encode_sideband_req (Remote_dpcd_write
       \<lparr>dw_port_number = port_num, dw_dpcd_address = offset, dw_num_bytes = num_bytes, dw_bytes = bytes\<rparr>) msg"

definition build_dpcd_read :: "drm_dp_sideband_msg_tx \<Rightarrow> u8 \<Rightarrow> u32 \<Rightarrow> u8 \<Rightarrow> drm_dp_sideband_msg_tx option" where
  "build_dpcd_read msg port_num offset num_bytes =
     drm_dp_encode_sideband_req (Remote_dpcd_read
       \<lparr>dr_port_number = port_num, dr_dpcd_address = offset, dr_num_bytes = num_bytes\<rparr>) msg"

definition build_link_address :: "drm_dp_sideband_msg_tx \<Rightarrow> drm_dp_sideband_msg_tx option" where
  "build_link_address msg = drm_dp_encode_sideband_req (Plain_req DP_LINK_ADDRESS) msg"

definition set_path_msg :: "drm_dp_sideband_msg_tx option \<Rightarrow> drm_dp_sideband_msg_tx option" where
  "set_path_msg = map_option (\<lambda>msg. msg\<lparr>tx_path_msg := True\<rparr>)"

definition build_clear_payload_id_table :: "drm_dp_sideband_msg_tx \<Rightarrow> drm_dp_sideband_msg_tx option" where
  "build_clear_payload_id_table msg = set_path_msg (drm_dp_encode_sideband_req (Plain_req DP_CLEAR_PAYLOAD_ID_TABLE) msg)"

text \<open>\<open>int port_num\<close> is converted to the \<open>u8\<close> field.\<close>

definition build_enum_path_resources :: "drm_dp_sideband_msg_tx \<Rightarrow> int \<Rightarrow> drm_dp_sideband_msg_tx option" where
  "build_enum_path_resources msg port_num =
     set_path_msg (drm_dp_encode_sideband_req (Enum_path_resources (word_of_int port_num)) msg)"

definition build_allocate_payload ::
    "drm_dp_sideband_msg_tx \<Rightarrow> int \<Rightarrow> u8 \<Rightarrow> u16 \<Rightarrow> u8 \<Rightarrow> u8 list \<Rightarrow> drm_dp_sideband_msg_tx option" where
  "build_allocate_payload msg port_num vcpi pbn n sink =
     (if unat n > 16 then None
      else set_path_msg (drm_dp_encode_sideband_req (Allocate_payload
        \<lparr>ap_port_number = word_of_int port_num, number_sdp_streams = n, ap_vcpi = vcpi, ap_pbn = pbn,
         sdp_stream_sink = take (unat n) sink @ replicate (16 - unat n) 0\<rparr>) msg))"

definition build_power_updown_phy :: "drm_dp_sideband_msg_tx \<Rightarrow> int \<Rightarrow> bool \<Rightarrow> drm_dp_sideband_msg_tx option" where
  "build_power_updown_phy msg port_num power_up =
     set_path_msg (drm_dp_encode_sideband_req
       (if power_up then Power_up_phy (word_of_int port_num) else Power_down_phy (word_of_int port_num)) msg)"

definition build_query_stream_enc_status :: "drm_dp_sideband_msg_tx \<Rightarrow> u8 \<Rightarrow> u8 list \<Rightarrow> drm_dp_sideband_msg_tx option" where
  "build_query_stream_enc_status msg stream_id q_id =
     drm_dp_encode_sideband_req (Query_stream_enc_status
       \<lparr>es_stream_id = stream_id, client_id = take 7 q_id, stream_event = 0, valid_stream_event = False,
        stream_behavior = 0, valid_stream_behavior = 0\<rparr>) msg"

section \<open>Round trip of requests\<close>

lemma word_and_mask_id: "w < 2 ^ n \<Longrightarrow> w AND mask n = w" for w :: "'a::len word"
  by (rule bit_word_eqI) (auto simp: bit_and_iff bit_mask_iff dest: less_exp_bit)

lemma u8_and_id:
  "w < 4 \<Longrightarrow> w AND 3 = w" "w < 16 \<Longrightarrow> w AND 0xf = w" "w < 128 \<Longrightarrow> w AND 0x7f = w" for w :: u8
  using word_and_mask_id [of w 2] word_and_mask_id [of w 4] word_and_mask_id [of w 7]
  by (simp_all add: mask_eq_exp_minus_1)

lemma enc_port_dec:
  assumes "p < 16"
  shows "drop_bit 4 (enc_port p OR (x AND 0xf)) AND 0xf = p" "(enc_port p OR (x AND 0xf)) AND 0xf = x AND 0xf"
proof -
  have b: "bit p i \<Longrightarrow> i < 4" for i
    using less_exp_bit [of p 4 i] assms by auto
  show "drop_bit 4 (enc_port p OR (x AND 0xf)) AND 0xf = p" "(enc_port p OR (x AND 0xf)) AND 0xf = x AND 0xf"
    unfolding enc_port_def nibble_mask
    by (rule bit_word_eqI, unfold bit_drop_bit_eq bit_push_bit_iff bit_or_iff bit_and_iff bit_mask_iff comp_def, auto dest: b)+
qed

lemma enc_port_or_low: "p < 16 \<Longrightarrow> x < 16 \<Longrightarrow> (enc_port p OR x) AND 0xf = x"
  using enc_port_dec(2) [of p x] by (simp add: u8_and_id)

lemma enc_port_dec0: "p < 16 \<Longrightarrow> drop_bit 4 (enc_port p) AND 0xf = p"
  using enc_port_dec(1) [of p 0] by simp

lemma enc_port_dec3:
  assumes "p < 16"
  shows "drop_bit 4 (enc_port p OR (x AND 3)) AND 0xf = p" "(enc_port p OR (x AND 3)) AND 3 = x AND 3"
proof -
  have x: "x AND 3 = (x AND 3) AND 0xf" by (simp add: and.assoc)
  show "drop_bit 4 (enc_port p OR (x AND 3)) AND 0xf = p"
    by (subst x) (rule enc_port_dec [OF assms])
  have "w AND 3 = (w AND 0xf) AND 3" for w :: u8 by (simp add: and.assoc)
  then have "(enc_port p OR (x AND 3)) AND 3 = ((enc_port p OR (x AND 3)) AND 0xf) AND 3" .
  also have "\<dots> = x AND 3" using enc_port_dec(2) [OF assms, of "x AND 3"] x by (simp add: and.assoc)
  finally show "(enc_port p OR (x AND 3)) AND 3 = x AND 3" .
qed

lemma bytes16_dec: "push_bit 8 (ucast (ucast (drop_bit 8 w) :: u8)) OR ucast (ucast (w AND 0xff) :: u8) = (w::u16)"
proof -
  have m: "(0xff::u16) = mask 8" by (simp add: mask_eq_exp_minus_1)
  show ?thesis unfolding m
    by (rule bit_word_eqI, unfold bit_ucast_iff bit_push_bit_iff bit_or_iff bit_and_iff bit_mask_iff bit_drop_bit_eq comp_def)
      auto
qed

lemma dpcd_addr_dec:
  assumes "addr < 2 ^ 20" "p < 16"
  shows "dec_dpcd_addr (enc_dpcd_addr p addr ! 0) (enc_dpcd_addr p addr ! 1) (enc_dpcd_addr p addr ! 2) = addr"
proof -
  have b: "bit addr i \<Longrightarrow> i < 20" for i using less_exp_bit [of addr 20 i] assms by auto
  have m: "(0xf0000::u32) = push_bit 16 (mask 4)" "(0xff00::u32) = push_bit 8 (mask 8)" "(0xff::u32) = mask 8"
    by (simp_all add: mask_eq_exp_minus_1 push_bit_eq_mult)
  note bits = bit_ucast_iff bit_push_bit_iff bit_or_iff bit_and_iff bit_mask_iff bit_drop_bit_eq comp_def
  show ?thesis
  proof (rule bit_word_eqI)
    fix i :: nat
    consider "i < 8" | "8 \<le> i" "i < 16" | "16 \<le> i" "i < 20" | "20 \<le> i" by linarith
    then show "bit (dec_dpcd_addr (enc_dpcd_addr p addr ! 0) (enc_dpcd_addr p addr ! 1) (enc_dpcd_addr p addr ! 2)) i = bit addr i"
      unfolding dec_dpcd_addr_def enc_dpcd_addr_def enc_port_def m nibble_mask
      using b [of i] by cases (simp_all add: bits, auto)
  qed
qed

lemma odd_word_iff: "n AND 1 \<noteq> 0 \<longleftrightarrow> odd (unat n)" for n :: u8
  by (simp add: and_one_eq mod_2_eq_odd bit_unsigned_iff flip: bit_0)

lemma length_enc_sinks [simp]: "length (enc_sinks n sink) = (unat n + 1) div 2"
  by (auto simp: enc_sinks_def odd_word_iff)

lemma nth_enc_sinks:
  assumes "i < unat n"
  shows "enc_sinks n sink ! (i div 2) =
    enc_port (sink ! (i - i mod 2)) OR ((if i div 2 < unat n div 2 then sink ! (i - i mod 2 + 1) else 0) AND 0xf)"
proof (cases "i div 2 < unat n div 2")
  case True
  then show ?thesis by (simp add: enc_sinks_def nth_append enc_port_def minus_mod_eq_div_mult)
next
  case False
  then have "i div 2 = unat n div 2" "odd (unat n)" "i - i mod 2 = unat n - 1"
    using assms by presburger+
  then show ?thesis by (simp add: enc_sinks_def nth_append enc_port_def odd_word_iff)
qed

lemma dec_enc_sinks:
  assumes "length xs = idx" and "length sink \<ge> unat n" and "\<And>x. x \<in> set sink \<Longrightarrow> x < 16"
  shows "dec_sinks (xs @ enc_sinks n sink @ ys) idx n = take (unat n) sink"
proof (rule nth_equalityI)
  show "length (dec_sinks (xs @ enc_sinks n sink @ ys) idx n) = length (take (unat n) sink)"
    using assms by (simp add: dec_sinks_def)
  fix i assume "i < length (dec_sinks (xs @ enc_sinks n sink @ ys) idx n)"
  then have i: "i < unat n" by (simp add: dec_sinks_def)
  then have i2: "i div 2 < (unat n + 1) div 2" by presburger
  have byte: "(xs @ enc_sinks n sink @ ys) ! (idx + i div 2) = enc_sinks n sink ! (i div 2)"
    using i2 assms(1) by (simp add: nth_append)
  have lt: "j < unat n \<Longrightarrow> sink ! j < 16" for j using assms by simp
  show "dec_sinks (xs @ enc_sinks n sink @ ys) idx n ! i = take (unat n) sink ! i"
  proof (cases "i mod 2 = 0")
    case True
    then show ?thesis using i lt [OF i]
      by (simp add: dec_sinks_def byte nth_enc_sinks enc_port_dec enc_port_dec0)
  next
    case False
    then have "i div 2 < unat n div 2" "i - i mod 2 + 1 = i" "i - i mod 2 < unat n" using i by presburger+
    then show ?thesis using False i lt [OF i] lt [of "i - i mod 2"]
      by (simp add: dec_sinks_def byte nth_enc_sinks enc_port_or_low u8_and_id)
  qed
qed

definition i2c_tx_wf :: "drm_dp_remote_i2c_read_tx \<Rightarrow> bool" where
  "i2c_tx_wf t \<longleftrightarrow> i2c_dev_id t < 128 \<and> length (tx_bytes t) = unat (tx_num_bytes t) \<and> i2c_transaction_delay t < 16"

lemma i2c_stop_byte:
  "drop_bit 5 (push_bit 4 (a AND 1) OR (d AND 0xf)) AND (1::u8) = 0"
  "d < 16 \<Longrightarrow> (push_bit 4 (a AND 1) OR (d AND 0xf)) AND (0xf::u8) = d"
proof -
  have m: "(1::u8) = mask 1" by (simp add: mask_eq_exp_minus_1)
  show "drop_bit 5 (push_bit 4 (a AND 1) OR (d AND 0xf)) AND (1::u8) = 0"
    unfolding m nibble_mask
    by (rule bit_word_eqI, unfold bit_drop_bit_eq bit_push_bit_iff bit_or_iff bit_and_iff bit_mask_iff comp_def) auto
  assume "d < 16"
  then have b: "bit d i \<Longrightarrow> i < 4" for i using less_exp_bit [of d 4 i] by auto
  show "(push_bit 4 (a AND 1) OR (d AND 0xf)) AND (0xf::u8) = d"
    unfolding m nibble_mask
    by (rule bit_word_eqI, unfold bit_drop_bit_eq bit_push_bit_iff bit_or_iff bit_and_iff bit_mask_iff comp_def) (auto dest: b)
qed

lemma i2c_tx_norm:
  assumes "i2c_tx_wf t"
  shows "\<lparr>i2c_dev_id = i2c_dev_id t AND 0x7f, tx_num_bytes = tx_num_bytes t, tx_bytes = tx_bytes t,
      no_stop_bit = drop_bit 5 (push_bit 4 (no_stop_bit t AND 1) OR (i2c_transaction_delay t AND 0xf)) AND 1,
      i2c_transaction_delay = (push_bit 4 (no_stop_bit t AND 1) OR (i2c_transaction_delay t AND 0xf)) AND 0xf\<rparr> =
    t\<lparr>no_stop_bit := 0\<rparr>"
  unfolding i2c_stop_byte(1) using assms i2c_stop_byte(2) [of "i2c_transaction_delay t" "no_stop_bit t"]
  by (simp add: i2c_tx_wf_def u8_and_id)

lemma i2c_tx_reads:
  assumes wf: "i2c_tx_wf t" and idx: "length pre = Suc idx" and buf: "buf = pre @ enc_i2c_tx t @ post"
  shows "rd buf (idx + 1) = Some (i2c_dev_id t AND 0x7f)" "rd buf (idx + 2) = Some (tx_num_bytes t)"
    "rdn buf (idx + 3) (unat (tx_num_bytes t)) = Some (tx_bytes t)"
    "rd buf (idx + 3 + unat (tx_num_bytes t)) = Some (push_bit 4 (no_stop_bit t AND 1) OR (i2c_transaction_delay t AND 0xf))"
    "length (enc_i2c_tx t) = 3 + unat (tx_num_bytes t)"
  using wf idx unfolding buf enc_i2c_tx_def by (simp_all add: rd_def rdn_def nth_append i2c_tx_wf_def)

lemma dec_enc_i2c_txs:
  assumes "\<forall>t \<in> set txs. i2c_tx_wf t" and "length pre = Suc idx"
  shows "dec_i2c_txs (length txs) [] (pre @ concat (map enc_i2c_tx txs) @ post) idx =
    Some (Inr (map (\<lambda>t. t\<lparr>no_stop_bit := 0\<rparr>) txs, idx + length (concat (map enc_i2c_tx txs))))"
  using assms
proof (induction txs arbitrary: pre idx)
  case (Cons t txs)
  have wf: "i2c_tx_wf t" using Cons.prems by simp
  let ?buf = "pre @ concat (map enc_i2c_tx (t # txs)) @ post"
  let ?k = "unat (tx_num_bytes t)"
  have buf: "?buf = pre @ enc_i2c_tx t @ (concat (map enc_i2c_tx txs) @ post)" by simp
  note r = i2c_tx_reads [OF wf Cons.prems(2) buf] and len = i2c_tx_reads(5) [OF wf Cons.prems(2) buf]
  have IH: "dec_i2c_txs (length txs) [] ((pre @ enc_i2c_tx t) @ concat (map enc_i2c_tx txs) @ post) (idx + 3 + ?k) =
      Some (Inr (map (\<lambda>t. t\<lparr>no_stop_bit := 0\<rparr>) txs, idx + 3 + ?k + length (concat (map enc_i2c_tx txs))))"
    using Cons.prems len by (intro Cons.IH) auto
  have norm: "\<lparr>i2c_dev_id = (i2c_dev_id t AND 0x7f) AND 0x7f, tx_num_bytes = tx_num_bytes t, tx_bytes = tx_bytes t,
      no_stop_bit = drop_bit 5 (push_bit 4 (no_stop_bit t AND 1) OR (i2c_transaction_delay t AND 0xf)) AND 1,
      i2c_transaction_delay = (push_bit 4 (no_stop_bit t AND 1) OR (i2c_transaction_delay t AND 0xf)) AND 0xf\<rparr> =
    t\<lparr>no_stop_bit := 0\<rparr>"
    using i2c_tx_norm [OF wf] by (simp only: and.assoc and.idem)
  show ?case
    unfolding list.size(4) add_Suc_right add_0_right dec_i2c_txs.simps r Option.bind.simps next_alloc_def list.case prod.case bool.case
    using IH by (simp only: list.map concat.simps append_assoc Option.bind.simps sum.case prod.case norm length_append len)
      (simp add: add.assoc)
qed simp

text \<open>
  The requests the encoder can represent: fields within their width, arrays as long as their counts
  say, and no request type outside the seven bits of the type field.
\<close>

fun req_wf :: "drm_dp_sideband_msg_req_body \<Rightarrow> bool" where
  "req_wf (Enum_path_resources p) = (p < 16)"
| "req_wf (Power_down_phy p) = (p < 16)"
| "req_wf (Power_up_phy p) = (p < 16)"
| "req_wf (Allocate_payload a) =
     (ap_port_number a < 16 \<and> number_sdp_streams a < 16 \<and> ap_vcpi a < 128 \<and>
      unat (number_sdp_streams a) \<le> length (sdp_stream_sink a) \<and> (\<forall>x \<in> set (sdp_stream_sink a). x < 16))"
| "req_wf (Query_payload q) = (qp_port_number q < 16 \<and> qp_vcpi q < 128)"
| "req_wf (Remote_dpcd_read r) = (dr_port_number r < 16 \<and> dr_dpcd_address r < 2 ^ 20)"
| "req_wf (Remote_dpcd_write w) =
     (dw_port_number w < 16 \<and> dw_dpcd_address w < 2 ^ 20 \<and> length (dw_bytes w) = unat (dw_num_bytes w))"
| "req_wf (Remote_i2c_read r) =
     (ir_port_number r < 16 \<and> num_transactions r < 4 \<and> length (transactions r) = unat (num_transactions r) \<and>
      (\<forall>t \<in> set (transactions r). i2c_tx_wf t) \<and> read_i2c_device_id r < 128)"
| "req_wf (Remote_i2c_write w) =
     (iw_port_number w < 16 \<and> write_i2c_device_id w < 128 \<and> length (iw_bytes w) = unat (iw_num_bytes w))"
| "req_wf (Query_stream_enc_status m) =
     (length (client_id m) = 7 \<and> stream_event m < 4 \<and> stream_behavior m < 4 \<and> valid_stream_behavior m < 2)"
| "req_wf (Connection_status_notify _) = False"
| "req_wf (Resource_status_notify _) = False"
| "req_wf (Plain_req t) =
     (t < 128 \<and> t \<notin> {DP_ENUM_PATH_RESOURCES, DP_POWER_DOWN_PHY, DP_POWER_UP_PHY, DP_ALLOCATE_PAYLOAD, DP_QUERY_PAYLOAD,
        DP_REMOTE_DPCD_READ, DP_REMOTE_DPCD_WRITE, DP_REMOTE_I2C_READ, DP_REMOTE_I2C_WRITE, DP_QUERY_STREAM_ENC_STATUS})"

text \<open>
  What decoding gives back: the used part of the sink array, and the I2C transactions with their
  \<open>no_stop_bit\<close> cleared, since the encoder writes this bit at position 4 and the decoder reads position 5.
\<close>

fun req_norm :: "drm_dp_sideband_msg_req_body \<Rightarrow> drm_dp_sideband_msg_req_body" where
  "req_norm (Allocate_payload a) =
     Allocate_payload (a\<lparr>sdp_stream_sink := take (unat (number_sdp_streams a)) (sdp_stream_sink a)\<rparr>)"
| "req_norm (Remote_i2c_read r) =
     Remote_i2c_read (r\<lparr>transactions := map (\<lambda>t. t\<lparr>no_stop_bit := 0\<rparr>) (transactions r)\<rparr>)"
| "req_norm req = req"

lemma u8_less_4: "e < 4 \<Longrightarrow> e = 0 \<or> e = 1 \<or> e = 2 \<or> e = 3"
  and u8_less_2: "e < 2 \<Longrightarrow> e = 0 \<or> e = 1" for e :: u8
proof -
  have "\<forall>e::u8. (e < 4 \<longrightarrow> e = 0 \<or> e = 1 \<or> e = 2 \<or> e = 3) \<and> (e < 2 \<longrightarrow> e = 0 \<or> e = 1)" by code_simp
  then show "e < 4 \<Longrightarrow> e = 0 \<or> e = 1 \<or> e = 2 \<or> e = 3" "e < 2 \<Longrightarrow> e = 0 \<or> e = 1" by blast+
qed

lemma enc_status_byte:
  assumes "e < 4" "b < 4" "v < 2"
    and w: "w = ((e AND 3) OR (if f then 4 else 0) OR push_bit 3 (b AND 3) OR (if v \<noteq> 0 then 0x20 else 0) :: u8)"
  shows "w AND 3 = e" "bit w 2 = f" "drop_bit 3 w AND 3 = b" "drop_bit 5 w AND 1 = v"
proof -
  have "\<forall>e \<in> {0, 1, 2, 3 :: u8}. \<forall>b \<in> {0, 1, 2, 3 :: u8}. \<forall>v \<in> {0, 1 :: u8}. \<forall>f.
    (let w = ((e AND 3) OR (if f then 4 else 0) OR push_bit 3 (b AND 3) OR (if v \<noteq> 0 then 0x20 else 0) :: u8)
     in w AND 3 = e \<and> bit w 2 = f \<and> drop_bit 3 w AND 3 = b \<and> drop_bit 5 w AND 1 = v)"
    by code_simp
  moreover have "e \<in> {0, 1, 2, 3}" "b \<in> {0, 1, 2, 3}" "v \<in> {0, 1}"
    using u8_less_4 [OF assms(1)] u8_less_4 [OF assms(2)] u8_less_2 [OF assms(3)] by blast+
  ultimately have "w AND 3 = e \<and> bit w 2 = f \<and> drop_bit 3 w AND 3 = b \<and> drop_bit 5 w AND 1 = v"
    unfolding w Let_def by blast
  then show "w AND 3 = e" "bit w 2 = f" "drop_bit 3 w AND 3 = b" "drop_bit 5 w AND 1 = v" by blast+
qed

lemma decode_allocate_payload:
  assumes wf: "req_wf (Allocate_payload a)" and buf: "tx_msg raw' = enc_req (Allocate_payload a) @ rest"
  shows "drm_dp_decode_sideband_req [] raw' = Some (Inr (req_norm (Allocate_payload a)))"
proof -
  let ?pre = "[DP_ALLOCATE_PAYLOAD AND 0x7f, enc_port (ap_port_number a) OR (number_sdp_streams a AND 0xf), ap_vcpi a AND 0x7f,
    ucast (drop_bit 8 (ap_pbn a)), ucast (ap_pbn a AND 0xff)]"
  have "dec_sinks (?pre @ enc_sinks (number_sdp_streams a) (sdp_stream_sink a) @ rest) 5 (number_sdp_streams a) =
      take (unat (number_sdp_streams a)) (sdp_stream_sink a)"
    using wf by (intro dec_enc_sinks) auto
  then show ?thesis using wf enc_port_dec [of "ap_port_number a" "number_sdp_streams a"]
    by (simp add: drm_dp_decode_sideband_req_def buf enc_req_def dp_codes u8_and_id bytes16_dec Let_def)
qed

lemma decode_enc_status:
  assumes wf: "req_wf (Query_stream_enc_status m)" and buf: "tx_msg raw' = enc_req (Query_stream_enc_status m) @ rest"
  shows "drm_dp_decode_sideband_req [] raw' = Some (Inr (req_norm (Query_stream_enc_status m)))"
proof -
  let ?b = "(stream_event m AND 3) OR (if valid_stream_event m then 4 else 0)
      OR push_bit 3 (stream_behavior m AND 3) OR (if valid_stream_behavior m \<noteq> 0 then 0x20 else 0)"
  have m: "stream_event m < 4" "stream_behavior m < 4" "valid_stream_behavior m < 2" "length (client_id m) = 7"
    using wf by simp_all
  have buf': "tx_msg raw' = [DP_QUERY_STREAM_ENC_STATUS AND 0x7f, es_stream_id m] @ client_id m @ ?b # rest"
    by (simp add: buf enc_req_def)
  have "tx_msg raw' ! 9 = ?b" "tx_msg raw' ! 0 AND 0x7f = DP_QUERY_STREAM_ENC_STATUS" "tx_msg raw' ! 1 = es_stream_id m"
    unfolding buf' using m(4) by (simp_all add: nth_append dp_codes)
  moreover have "map (\<lambda>i. tx_msg raw' ! (2 + i)) [0..<7] = client_id m"
    unfolding buf' using m(4) by (intro nth_equalityI) (auto simp: nth_append)
  ultimately show ?thesis
    using enc_status_byte [OF m(1-3) refl, of "valid_stream_event m"]
    unfolding drm_dp_decode_sideband_req_def Let_def
    by (simp only: dp_codes) simp
qed

lemma decode_i2c_read:
  assumes wf: "req_wf (Remote_i2c_read r)" and buf: "tx_msg raw' = enc_req (Remote_i2c_read r) @ rest"
  shows "drm_dp_decode_sideband_req [] raw' = Some (Inr (req_norm (Remote_i2c_read r)))"
proof -
  let ?txs = "concat (map enc_i2c_tx (transactions r))"
  let ?pre = "[DP_REMOTE_I2C_READ AND 0x7f, enc_port (ir_port_number r) OR (num_transactions r AND 3)]"
  let ?post = "[read_i2c_device_id r AND 0x7f, num_bytes_read r] @ rest"
  have r: "ir_port_number r < 16" "num_transactions r AND 3 = num_transactions r" "read_i2c_device_id r < 128"
    "length (transactions r) = unat (num_transactions r)" "\<forall>t \<in> set (transactions r). i2c_tx_wf t"
    using wf by (simp_all add: u8_and_id)
  have "map (\<lambda>i. enc_i2c_tx (transactions r ! i)) [0..<unat (num_transactions r AND 3)] = map enc_i2c_tx (transactions r)"
    using r by (intro nth_equalityI) simp_all
  then have buf': "tx_msg raw' = ?pre @ ?txs @ ?post"
    by (simp add: buf enc_req_def)
  have b01: "tx_msg raw' ! 0 AND 0x7f = DP_REMOTE_I2C_READ" "tx_msg raw' ! 1 = enc_port (ir_port_number r) OR (num_transactions r AND 3)"
    unfolding buf' by (simp_all add: dp_codes)
  have txs: "dec_i2c_txs (unat (num_transactions r)) [] (tx_msg raw') 1 =
      Some (Inr (map (\<lambda>t. t\<lparr>no_stop_bit := 0\<rparr>) (transactions r), 1 + length ?txs))"
    unfolding buf' using dec_enc_i2c_txs [OF r(5), of ?pre 1 ?post] r(4) by simp
  have "rd (tx_msg raw') (1 + length ?txs + 1) = Some (read_i2c_device_id r)"
    "rd (tx_msg raw') (1 + length ?txs + 2) = Some (num_bytes_read r)"
    unfolding buf' using r(3) by (simp_all add: rd_def nth_append u8_and_id)
  then show ?thesis
    using r txs enc_port_dec3 [OF r(1), of "num_transactions r"]
    unfolding drm_dp_decode_sideband_req_def Let_def b01
    by (simp only: dp_codes) (simp add: u8_and_id)
qed

text \<open>
  C27. The decoder inverts the encoder: a representable request that fits the message buffer is encoded
  without writing outside it, and decoding the buffer gives back the request, its unused sink entries
  and the \<open>no_stop_bit\<close> of I2C transactions excepted.
\<close>

theorem req_roundtrip:
  assumes wf: "req_wf req" and raw: "length (tx_msg raw) = 256" and fits: "length (enc_req req) \<le> 256"
  shows "\<exists>raw'. drm_dp_encode_sideband_req req raw = Some raw' \<and> length (tx_msg raw') = 256 \<and>
    cur_len raw' = of_nat (length (enc_req req)) \<and>
    drm_dp_decode_sideband_req [] raw' = Some (Inr (req_norm req))"
proof -
  define rest where "rest = drop (length (enc_req req)) (tx_msg raw)"
  define raw' where "raw' = raw\<lparr>tx_msg := enc_req req @ rest, cur_len := of_nat (length (enc_req req))\<rparr>"
  have enc: "drm_dp_encode_sideband_req req raw = Some raw'" "length (tx_msg raw') = 256"
    "cur_len raw' = of_nat (length (enc_req req))"
    using fits raw by (simp_all add: drm_dp_encode_sideband_req_def raw'_def rest_def Let_def)
  have buf: "tx_msg raw' = enc_req req @ rest" by (simp add: raw'_def)
  have "drm_dp_decode_sideband_req [] raw' = Some (Inr (req_norm req))"
  proof (cases req)
    case (Enum_path_resources p)
    then show ?thesis using wf
      by (simp add: drm_dp_decode_sideband_req_def buf enc_req_def dp_codes enc_port_dec0)
  next
    case (Power_down_phy p)
    then show ?thesis using wf
      by (simp add: drm_dp_decode_sideband_req_def buf enc_req_def dp_codes enc_port_dec0)
  next
    case (Power_up_phy p)
    then show ?thesis using wf
      by (simp add: drm_dp_decode_sideband_req_def buf enc_req_def dp_codes enc_port_dec0)
  next
    case (Allocate_payload a)
    then show ?thesis using wf decode_allocate_payload [of a raw' rest] buf by simp
  next
    case (Query_payload q)
    then show ?thesis using wf
      by (simp add: drm_dp_decode_sideband_req_def buf enc_req_def dp_codes enc_port_dec0 u8_and_id)
  next
    case (Remote_dpcd_read r)
    then show ?thesis using wf dpcd_addr_dec [of "dr_dpcd_address r" "dr_port_number r"]
        enc_port_dec [of "dr_port_number r" "ucast (drop_bit 16 (dr_dpcd_address r AND 0xf0000))"]
      by (simp add: drm_dp_decode_sideband_req_def buf enc_req_def dp_codes enc_dpcd_addr_def)
  next
    case (Remote_dpcd_write w)
    then show ?thesis using wf dpcd_addr_dec [of "dw_dpcd_address w" "dw_port_number w"]
        enc_port_dec [of "dw_port_number w" "ucast (drop_bit 16 (dw_dpcd_address w AND 0xf0000))"]
      by (simp add: drm_dp_decode_sideband_req_def buf enc_req_def dp_codes enc_dpcd_addr_def next_alloc_def rdn_def)
  next
    case (Remote_i2c_write w)
    then show ?thesis using wf
      by (simp add: drm_dp_decode_sideband_req_def buf enc_req_def dp_codes enc_port_dec0 u8_and_id next_alloc_def rdn_def)
  next
    case (Query_stream_enc_status m)
    then show ?thesis using wf decode_enc_status [of m raw' rest] buf by simp
  next
    case (Remote_i2c_read r)
    then show ?thesis using wf decode_i2c_read [of r raw' rest] buf by simp
  qed (use wf in \<open>simp_all add: drm_dp_decode_sideband_req_def buf enc_req_def dp_codes u8_and_id\<close>)
  with enc show ?thesis by blast
qed

definition ex_branch :: drm_dp_mst_branch where
  "ex_branch = \<lparr>branch_ptr = 1, branch_rad = [0x10, 0, 0, 0, 0, 0, 0, 0], branch_lct = 2,
     branch_guid = replicate 16 1, branch_live = True\<rparr>"

definition ex_tx :: drm_dp_sideband_msg_tx where
  "ex_tx = \<lparr>tx_ptr = 1, tx_msg = replicate 256 0, cur_offset = 0, cur_len = 0, dst = ex_branch, tx_path_msg = False, tx_state = DRM_DP_SIDEBAND_TX_QUEUED\<rparr>"

definition ex_i2c :: drm_dp_sideband_msg_req_body where
  "ex_i2c = Remote_i2c_read \<lparr>num_transactions = 2, ir_port_number = 1,
     transactions = [\<lparr>i2c_dev_id = 0x30, tx_num_bytes = 1, tx_bytes = [1], no_stop_bit = 1, i2c_transaction_delay = 0\<rparr>,
                     \<lparr>i2c_dev_id = 0x50, tx_num_bytes = 1, tx_bytes = [0x80], no_stop_bit = 1, i2c_transaction_delay = 0xf\<rparr>],
     read_i2c_device_id = 0x50, num_bytes_read = 128\<rparr>"

theorem req_roundtrip_witness:
  "\<exists>raw'. drm_dp_encode_sideband_req ex_i2c ex_tx = Some raw' \<and> cur_len raw' = 12 \<and>
     drm_dp_decode_sideband_req [] raw' = Some (Inr (req_norm ex_i2c)) \<and> req_norm ex_i2c \<noteq> ex_i2c"
proof -
  have "req_wf ex_i2c" "length (tx_msg ex_tx) = 256" by (simp_all add: ex_i2c_def i2c_tx_wf_def ex_tx_def)
  moreover have len: "length (enc_req ex_i2c) = 12" by code_simp
  ultimately obtain raw' where "drm_dp_encode_sideband_req ex_i2c ex_tx = Some raw'" "cur_len raw' = of_nat (length (enc_req ex_i2c))"
    "drm_dp_decode_sideband_req [] raw' = Some (Inr (req_norm ex_i2c))"
    using req_roundtrip [of ex_i2c ex_tx] by auto
  then show ?thesis using len by (simp add: ex_i2c_def)
qed

lemma dec_i2c_txs_nomem:
  assumes "\<forall>t \<in> set txs. i2c_tx_wf t" and "length pre = Suc idx" and "k < length txs"
  shows "dec_i2c_txs (length txs) (replicate k True @ [False]) (pre @ concat (map enc_i2c_tx txs) @ post) idx =
    Some (Inl (neg_errno ENOMEM, length txs - Suc k))"
  using assms
proof (induction txs arbitrary: pre idx k)
  case (Cons t txs)
  have wf: "i2c_tx_wf t" using Cons.prems by simp
  let ?buf = "pre @ concat (map enc_i2c_tx (t # txs)) @ post"
  let ?k = "unat (tx_num_bytes t)"
  have buf: "?buf = pre @ enc_i2c_tx t @ (concat (map enc_i2c_tx txs) @ post)" by simp
  note r = i2c_tx_reads [OF wf Cons.prems(2) buf] and len = i2c_tx_reads(5) [OF wf Cons.prems(2) buf]
  show ?case
  proof (cases k)
    case 0
    then show ?thesis
      unfolding list.size(4) add_Suc_right add_0_right dec_i2c_txs.simps r Option.bind.simps next_alloc_def by simp
  next
    case (Suc j)
    have IH: "dec_i2c_txs (length txs) (replicate j True @ [False]) ((pre @ enc_i2c_tx t) @ concat (map enc_i2c_tx txs) @ post) (idx + 3 + ?k) =
        Some (Inl (neg_errno ENOMEM, length txs - Suc j))"
      using Cons.prems len Suc by (intro Cons.IH) auto
    show ?thesis
      unfolding list.size(4) add_Suc_right add_0_right dec_i2c_txs.simps r Option.bind.simps next_alloc_def Suc
        replicate_Suc append_Cons list.case prod.case bool.case
      using IH by simp
  qed
qed simp

text \<open>
  A failing allocation while decoding an I2C read: when the copy of transaction \<open>k\<close> of \<open>n\<close> fails, the
  decoder returns \<open>-ENOMEM\<close>, but its cleanup loop also frees the \<open>n - k - 1\<close> byte pointers of the later
  transactions, which it never wrote.
\<close>

theorem decode_i2c_nomem:
  assumes wf: "req_wf (Remote_i2c_read r)" and buf: "tx_msg raw = enc_req (Remote_i2c_read r) @ rest"
    and k: "k < unat (num_transactions r)"
  shows "drm_dp_decode_sideband_req (replicate k True @ [False]) raw =
    Some (Inl (neg_errno ENOMEM, unat (num_transactions r) - Suc k))"
proof -
  let ?txs = "concat (map enc_i2c_tx (transactions r))"
  let ?pre = "[DP_REMOTE_I2C_READ AND 0x7f, enc_port (ir_port_number r) OR (num_transactions r AND 3)]"
  let ?post = "[read_i2c_device_id r AND 0x7f, num_bytes_read r] @ rest"
  have r: "ir_port_number r < 16" "num_transactions r AND 3 = num_transactions r"
    "length (transactions r) = unat (num_transactions r)" "\<forall>t \<in> set (transactions r). i2c_tx_wf t"
    using wf by (simp_all add: u8_and_id)
  have "map (\<lambda>i. enc_i2c_tx (transactions r ! i)) [0..<unat (num_transactions r AND 3)] = map enc_i2c_tx (transactions r)"
    using r by (intro nth_equalityI) simp_all
  then have buf': "tx_msg raw = ?pre @ ?txs @ ?post" by (simp add: buf enc_req_def)
  have b01: "tx_msg raw ! 0 AND 0x7f = DP_REMOTE_I2C_READ" "tx_msg raw ! 1 = enc_port (ir_port_number r) OR (num_transactions r AND 3)"
    unfolding buf' by (simp_all add: dp_codes)
  have "dec_i2c_txs (unat (num_transactions r)) (replicate k True @ [False]) (tx_msg raw) 1 =
      Some (Inl (neg_errno ENOMEM, unat (num_transactions r) - Suc k))"
    unfolding buf' using dec_i2c_txs_nomem [OF r(4), of ?pre 1 k ?post] r(3) k by simp
  then show ?thesis
    using r enc_port_dec3 [OF r(1), of "num_transactions r"]
    unfolding drm_dp_decode_sideband_req_def Let_def b01 by (simp only: dp_codes) simp
qed

theorem decode_i2c_nomem_witness:
  "drm_dp_decode_sideband_req [False] (ex_tx\<lparr>tx_msg := enc_req ex_i2c @ replicate 244 0\<rparr>) = Some (Inl (neg_errno ENOMEM, 1))"
proof -
  obtain r where r: "ex_i2c = Remote_i2c_read r" "num_transactions r = 2" by (simp add: ex_i2c_def)
  have "req_wf (Remote_i2c_read r)" unfolding r(1) [symmetric] by (simp add: ex_i2c_def i2c_tx_wf_def)
  from decode_i2c_nomem [OF this, of "ex_tx\<lparr>tx_msg := enc_req ex_i2c @ replicate 244 0\<rparr>" "replicate 244 0" 0]
  show ?thesis by (simp add: r)
qed

section \<open>Bounds of the message buffer\<close>

text \<open>
  C38. The message buffer bounds a remote DPCD write: the builder stays inside the 256 bytes for at most 251
  data bytes, and \<open>cur_len\<close>, an eight bit field, holds the length for at most 250; with 251 bytes it is 0.
\<close>

theorem dpcd_write_bounds:
  assumes "length (tx_msg msg) = 256" and "length bytes = unat n"
  shows "map_option (\<lambda>m. unat (cur_len m)) (build_dpcd_write msg port off n bytes) =
    (if 251 < unat n then None else Some (if unat n = 251 then 0 else 5 + unat n))"
proof -
  have len: "length (enc_req (Remote_dpcd_write \<lparr>dw_port_number = port, dw_dpcd_address = off, dw_num_bytes = n, dw_bytes = bytes\<rparr>)) = 5 + unat n"
    using assms by (simp add: enc_req_def enc_dpcd_addr_def)
  show ?thesis
    using assms len
    by (auto simp: build_dpcd_write_def drm_dp_encode_sideband_req_def Let_def unat_of_nat simp del: of_nat_add)
qed

theorem dpcd_write_bounds_witness:
  "build_dpcd_write ex_tx 1 0 252 (replicate 252 0) = None \<and>
   map_option (\<lambda>m. unat (cur_len m)) (build_dpcd_write ex_tx 1 0 251 (replicate 251 0)) = Some 0"
  using dpcd_write_bounds [of ex_tx "replicate 252 0" 252 1 0] dpcd_write_bounds [of ex_tx "replicate 251 0" 251 1 0]
  by (simp add: ex_tx_def)

end
