(* ===== verification/MST_Replies.thy ===== *)
theory MST_Replies
  imports MST_Messages
begin

text \<open>
  Parsing of received sideband messages (\<open>drm_dp_mst_topology.c\<close>): the replies to down requests and the
  up requests. A parser reads the 256 byte buffer \<open>raw->msg\<close> and compares its position with
  \<open>raw->curlen\<close> after each field. The result is the returned flag with the body, as far as it was
  filled; a read outside the buffer has no defined result and is \<open>None\<close>.
\<close>

unbundle bit_operations_syntax

section \<open>Reply bodies\<close>

record drm_dp_nak_reply =
  nak_guid :: "u8 list"
  nak_reason :: u8
  nak_data :: u8

record drm_dp_link_addr_reply_port =
  input_port :: bool
  peer_device_type :: u8
  port_number :: u8
  mcs :: bool
  ddps :: bool
  legacy_device_plug_status :: bool
  dpcd_revision :: u8
  peer_guid :: "u8 list"
  num_sdp_streams :: u8
  num_sdp_stream_sinks :: u8

record drm_dp_link_address_ack_reply =
  la_guid :: "u8 list"
  nports :: u8
  ports :: "drm_dp_link_addr_reply_port list"

record drm_dp_data_ack_reply =
  da_port_number :: u8
  da_num_bytes :: u8
  da_bytes :: "u8 list"

record drm_dp_enum_path_resources_ack_reply =
  ep_port_number :: u8
  fec_capable :: bool
  full_payload_bw_number :: u16
  avail_payload_bw_number :: u16

record drm_dp_allocate_payload_ack_reply =
  aa_port_number :: u8
  aa_vcpi :: u8
  aa_allocated_pbn :: u16

record drm_dp_query_payload_ack_reply =
  qa_port_number :: u8
  qa_allocated_pbn :: u16

record drm_dp_query_stream_enc_status_ack_reply =
  sa_stream_id :: u8
  reply_signed :: bool
  unauthorizable_device_present :: bool
  legacy_device_present :: bool
  query_capable_device_present :: bool
  hdcp_1x_device_present :: bool
  hdcp_2x_device_present :: bool
  auth_completed :: bool
  encryption_enabled :: bool
  repeater_present :: bool
  sa_state :: u8

text \<open>
  The union of \<open>drm_dp_sideband_msg_reply_body\<close>; \<open>Reply_none\<close> is the zeroed body. The acknowledgements of
  remote DPCD and I2C reads have the same layout.
\<close>

datatype ack_replies =
    Reply_none
  | Reply_nak drm_dp_nak_reply
  | Reply_link_addr drm_dp_link_address_ack_reply
  | Reply_dpcd_read drm_dp_data_ack_reply
  | Reply_dpcd_write u8
  | Reply_i2c_read drm_dp_data_ack_reply
  | Reply_path_resources drm_dp_enum_path_resources_ack_reply
  | Reply_allocate_payload drm_dp_allocate_payload_ack_reply
  | Reply_query_payload drm_dp_query_payload_ack_reply
  | Reply_port_number u8
  | Reply_enc_status drm_dp_query_stream_enc_status_ack_reply

record drm_dp_sideband_msg_reply_body =
  reply_type :: u8
  rep_req_type :: u8
  rep_u :: ack_replies

type_synonym 'a parse = "(bool \<times> 'a) option"

definition zero_port :: drm_dp_link_addr_reply_port where
  "zero_port = \<lparr>input_port = False, peer_device_type = 0, port_number = 0, mcs = False, ddps = False,
     legacy_device_plug_status = False, dpcd_revision = 0, peer_guid = replicate 16 0,
     num_sdp_streams = 0, num_sdp_stream_sinks = 0\<rparr>"

definition be_pair :: "u8 \<Rightarrow> u8 \<Rightarrow> u16" where
  "be_pair hi lo = push_bit 8 (ucast hi) OR ucast lo"

section \<open>Parsers of replies\<close>

text \<open>One port of a link address reply, with the position after it.\<close>

definition parse_port :: "u8 list \<Rightarrow> nat \<Rightarrow> nat \<Rightarrow> (bool \<times> drm_dp_link_addr_reply_port \<times> nat) option" where
  "parse_port msg curlen idx = do {
     b \<leftarrow> rd msg idx;
     let p = zero_port\<lparr>input_port := bit b 7, peer_device_type := drop_bit 4 b AND 0x7, port_number := b AND 0xf\<rparr>;
     if idx + 1 > curlen then Some (False, p, idx + 1)
     else do {
       b \<leftarrow> rd msg (idx + 1);
       let p = p\<lparr>mcs := bit b 7, ddps := bit b 6,
                 legacy_device_plug_status := (\<not> input_port p \<and> bit b 5)\<rparr>;
       if idx + 2 > curlen then Some (False, p, idx + 2)
       else if input_port p then Some (True, p, idx + 2)
       else do {
         b \<leftarrow> rd msg (idx + 2);
         let p = p\<lparr>dpcd_revision := b\<rparr>;
         if idx + 3 > curlen then Some (False, p, idx + 3)
         else do {
           g \<leftarrow> rdn msg (idx + 3) 16;
           let p = p\<lparr>peer_guid := g\<rparr>;
           if idx + 19 > curlen then Some (False, p, idx + 19)
           else do {
             b \<leftarrow> rd msg (idx + 19);
             let p = p\<lparr>num_sdp_streams := drop_bit 4 b AND 0xf, num_sdp_stream_sinks := b AND 0xf\<rparr>;
             Some (idx + 20 \<le> curlen, p, idx + 20)
           }
         }
       }
     }
   }"

fun parse_ports ::
    "nat \<Rightarrow> u8 list \<Rightarrow> nat \<Rightarrow> nat \<Rightarrow> nat \<Rightarrow> drm_dp_link_addr_reply_port list \<Rightarrow> drm_dp_link_addr_reply_port list parse" where
  "parse_ports 0 msg curlen idx i ps = Some (True, ps)"
| "parse_ports (Suc n) msg curlen idx i ps = do {
     (ok, p, idx) \<leftarrow> parse_port msg curlen idx;
     if ok then parse_ports n msg curlen idx (Suc i) (ps[i := p]) else Some (False, ps[i := p])
   }"

definition drm_dp_sideband_parse_link_address :: "u8 list \<Rightarrow> u8 \<Rightarrow> ack_replies parse" where
  "drm_dp_sideband_parse_link_address msg curlen = do {
     g \<leftarrow> rdn msg 1 16;
     b \<leftarrow> rd msg 17;
     let r = \<lparr>la_guid = g, nports = b AND 0xf, ports = replicate 16 zero_port\<rparr>;
     if 18 > unat curlen then Some (False, Reply_link_addr r)
     else do {
       (ok, ps) \<leftarrow> parse_ports (unat (nports r)) msg (unat curlen) 18 0 (ports r);
       Some (ok, Reply_link_addr (r\<lparr>ports := ps\<rparr>))
     }
   }"

definition drm_dp_sideband_parse_remote_dpcd_read :: "u8 list \<Rightarrow> u8 \<Rightarrow> ack_replies parse" where
  "drm_dp_sideband_parse_remote_dpcd_read msg curlen = do {
     b \<leftarrow> rd msg 1;
     let r = \<lparr>da_port_number = b AND 0xf, da_num_bytes = 0, da_bytes = []\<rparr>;
     if 2 > unat curlen then Some (False, Reply_dpcd_read r)
     else do {
       n \<leftarrow> rd msg 2;
       let r = r\<lparr>da_num_bytes := n\<rparr>;
       if 3 > unat curlen then Some (False, Reply_dpcd_read r)
       else do {
         bs \<leftarrow> rdn msg 3 (unat n);
         Some (True, Reply_dpcd_read (r\<lparr>da_bytes := bs\<rparr>))
       }
     }
   }"

definition drm_dp_sideband_parse_remote_dpcd_write :: "u8 list \<Rightarrow> u8 \<Rightarrow> ack_replies parse" where
  "drm_dp_sideband_parse_remote_dpcd_write msg curlen = do {
     b \<leftarrow> rd msg 1;
     Some (2 \<le> unat curlen, Reply_dpcd_write (b AND 0xf))
   }"

definition drm_dp_sideband_parse_remote_i2c_read_ack :: "u8 list \<Rightarrow> u8 \<Rightarrow> ack_replies parse" where
  "drm_dp_sideband_parse_remote_i2c_read_ack msg curlen = do {
     b \<leftarrow> rd msg 1;
     let r = \<lparr>da_port_number = b AND 0xf, da_num_bytes = 0, da_bytes = []\<rparr>;
     if 2 > unat curlen then Some (False, Reply_i2c_read r)
     else do {
       n \<leftarrow> rd msg 2;
       bs \<leftarrow> rdn msg 3 (unat n);
       Some (True, Reply_i2c_read (r\<lparr>da_num_bytes := n, da_bytes := bs\<rparr>))
     }
   }"

definition drm_dp_sideband_parse_enum_path_resources_ack :: "u8 list \<Rightarrow> u8 \<Rightarrow> ack_replies parse" where
  "drm_dp_sideband_parse_enum_path_resources_ack msg curlen = do {
     b \<leftarrow> rd msg 1;
     let r = \<lparr>ep_port_number = drop_bit 4 b AND 0xf, fec_capable = bit b 0, full_payload_bw_number = 0,
              avail_payload_bw_number = 0\<rparr>;
     if 2 > unat curlen then Some (False, Reply_path_resources r)
     else do {
       h \<leftarrow> rd msg 2; l \<leftarrow> rd msg 3;
       let r = r\<lparr>full_payload_bw_number := be_pair h l\<rparr>;
       if 4 > unat curlen then Some (False, Reply_path_resources r)
       else do {
         h \<leftarrow> rd msg 4; l \<leftarrow> rd msg 5;
         Some (6 \<le> unat curlen, Reply_path_resources (r\<lparr>avail_payload_bw_number := be_pair h l\<rparr>))
       }
     }
   }"

definition drm_dp_sideband_parse_allocate_payload_ack :: "u8 list \<Rightarrow> u8 \<Rightarrow> ack_replies parse" where
  "drm_dp_sideband_parse_allocate_payload_ack msg curlen = do {
     b \<leftarrow> rd msg 1;
     let r = \<lparr>aa_port_number = drop_bit 4 b AND 0xf, aa_vcpi = 0, aa_allocated_pbn = 0\<rparr>;
     if 2 > unat curlen then Some (False, Reply_allocate_payload r)
     else do {
       v \<leftarrow> rd msg 2;
       let r = r\<lparr>aa_vcpi := v\<rparr>;
       if 3 > unat curlen then Some (False, Reply_allocate_payload r)
       else do {
         h \<leftarrow> rd msg 3; l \<leftarrow> rd msg 4;
         Some (5 \<le> unat curlen, Reply_allocate_payload (r\<lparr>aa_allocated_pbn := be_pair h l\<rparr>))
       }
     }
   }"

definition drm_dp_sideband_parse_query_payload_ack :: "u8 list \<Rightarrow> u8 \<Rightarrow> ack_replies parse" where
  "drm_dp_sideband_parse_query_payload_ack msg curlen = do {
     b \<leftarrow> rd msg 1;
     let r = \<lparr>qa_port_number = drop_bit 4 b AND 0xf, qa_allocated_pbn = 0\<rparr>;
     if 2 > unat curlen then Some (False, Reply_query_payload r)
     else do {
       h \<leftarrow> rd msg 2; l \<leftarrow> rd msg 3;
       Some (4 \<le> unat curlen, Reply_query_payload (r\<lparr>qa_allocated_pbn := be_pair h l\<rparr>))
     }
   }"

definition drm_dp_sideband_parse_power_updown_phy_ack :: "u8 list \<Rightarrow> u8 \<Rightarrow> ack_replies parse" where
  "drm_dp_sideband_parse_power_updown_phy_ack msg curlen = do {
     b \<leftarrow> rd msg 1;
     Some (2 \<le> unat curlen, Reply_port_number (drop_bit 4 b AND 0xf))
   }"

definition drm_dp_sideband_parse_query_stream_enc_status :: "u8 list \<Rightarrow> ack_replies parse" where
  "drm_dp_sideband_parse_query_stream_enc_status msg = do {
     b1 \<leftarrow> rd msg 1; b2 \<leftarrow> rd msg 2; b3 \<leftarrow> rd msg 3;
     Some (True, Reply_enc_status
       \<lparr>sa_stream_id = b3, reply_signed = bit b2 0, unauthorizable_device_present = bit b2 7,
        legacy_device_present = bit b2 6, query_capable_device_present = bit b2 5,
        hdcp_1x_device_present = bit b2 4, hdcp_2x_device_present = bit b2 3,
        auth_completed = bit b1 3, encryption_enabled = bit b1 4, repeater_present = bit b1 5,
        sa_state = drop_bit 6 (b1 AND 0xc0)\<rparr>)
   }"

definition parse_ack :: "u8 \<Rightarrow> u8 list \<Rightarrow> u8 \<Rightarrow> ack_replies parse" where
  "parse_ack t msg curlen =
     (if t = DP_LINK_ADDRESS then drm_dp_sideband_parse_link_address msg curlen
      else if t = DP_QUERY_PAYLOAD then drm_dp_sideband_parse_query_payload_ack msg curlen
      else if t = DP_REMOTE_DPCD_READ then drm_dp_sideband_parse_remote_dpcd_read msg curlen
      else if t = DP_REMOTE_DPCD_WRITE then drm_dp_sideband_parse_remote_dpcd_write msg curlen
      else if t = DP_REMOTE_I2C_READ then drm_dp_sideband_parse_remote_i2c_read_ack msg curlen
      else if t = DP_REMOTE_I2C_WRITE then Some (True, Reply_none)
      else if t = DP_ENUM_PATH_RESOURCES then drm_dp_sideband_parse_enum_path_resources_ack msg curlen
      else if t = DP_ALLOCATE_PAYLOAD then drm_dp_sideband_parse_allocate_payload_ack msg curlen
      else if t = DP_POWER_DOWN_PHY \<or> t = DP_POWER_UP_PHY then drm_dp_sideband_parse_power_updown_phy_ack msg curlen
      else if t = DP_CLEAR_PAYLOAD_ID_TABLE then Some (True, Reply_none)
      else if t = DP_QUERY_STREAM_ENC_STATUS then drm_dp_sideband_parse_query_stream_enc_status msg
      else Some (False, Reply_none))"

definition drm_dp_sideband_parse_reply :: "u8 list \<Rightarrow> u8 \<Rightarrow> drm_dp_sideband_msg_reply_body parse" where
  "drm_dp_sideband_parse_reply msg curlen = do {
     b \<leftarrow> rd msg 0;
     let r = \<lparr>reply_type = drop_bit 7 (b AND 0x80), rep_req_type = b AND 0x7f, rep_u = Reply_none\<rparr>;
     if reply_type r = 1
     then do {
       g \<leftarrow> rdn msg 1 16; reason \<leftarrow> rd msg 17; data \<leftarrow> rd msg 18;
       Some (False, r\<lparr>rep_u := Reply_nak \<lparr>nak_guid = g, nak_reason = reason, nak_data = data\<rparr>\<rparr>)
     }
     else do {
       (ok, u) \<leftarrow> parse_ack (rep_req_type r) msg curlen;
       Some (ok, r\<lparr>rep_u := u\<rparr>)
     }
   }"

section \<open>Parsers of up requests\<close>

definition drm_dp_sideband_parse_connection_status_notify ::
    "u8 list \<Rightarrow> u8 \<Rightarrow> drm_dp_sideband_msg_req_body parse" where
  "drm_dp_sideband_parse_connection_status_notify msg curlen = do {
     b \<leftarrow> rd msg 1;
     let r = \<lparr>cs_guid = replicate 16 0, cs_port_number = drop_bit 4 (b AND 0xf0), cs_legacy_device_plug_status = False,
              displayport_device_plug_status = False, message_capability_status = False, cs_input_port = False,
              cs_peer_device_type = 0\<rparr>;
     if 2 > unat curlen then Some (False, Connection_status_notify r)
     else do {
       g \<leftarrow> rdn msg 2 16;
       let r = r\<lparr>cs_guid := g\<rparr>;
       if 18 > unat curlen then Some (False, Connection_status_notify r)
       else do {
         b \<leftarrow> rd msg 18;
         Some (True, Connection_status_notify
           (r\<lparr>cs_legacy_device_plug_status := bit b 6, displayport_device_plug_status := bit b 5,
              message_capability_status := bit b 4, cs_input_port := bit b 3, cs_peer_device_type := b AND 0x7\<rparr>))
       }
     }
   }"

definition drm_dp_sideband_parse_resource_status_notify ::
    "u8 list \<Rightarrow> u8 \<Rightarrow> drm_dp_sideband_msg_req_body parse" where
  "drm_dp_sideband_parse_resource_status_notify msg curlen = do {
     b \<leftarrow> rd msg 1;
     let r = \<lparr>rs_port_number = drop_bit 4 (b AND 0xf0), rs_guid = replicate 16 0, available_pbn = 0\<rparr>;
     if 2 > unat curlen then Some (False, Resource_status_notify r)
     else do {
       g \<leftarrow> rdn msg 2 16;
       let r = r\<lparr>rs_guid := g\<rparr>;
       if 18 > unat curlen then Some (False, Resource_status_notify r)
       else do {
         h \<leftarrow> rd msg 18; l \<leftarrow> rd msg 19;
         Some (True, Resource_status_notify (r\<lparr>available_pbn := be_pair h l\<rparr>))
       }
     }
   }"

definition drm_dp_sideband_parse_req :: "u8 list \<Rightarrow> u8 \<Rightarrow> drm_dp_sideband_msg_req_body parse" where
  "drm_dp_sideband_parse_req msg curlen = do {
     b \<leftarrow> rd msg 0;
     let t = b AND 0x7f;
     if t = DP_CONNECTION_STATUS_NOTIFY then drm_dp_sideband_parse_connection_status_notify msg curlen
     else if t = DP_RESOURCE_STATUS_NOTIFY then drm_dp_sideband_parse_resource_status_notify msg curlen
     else Some (False, Plain_req t)
   }"

section \<open>Memory safety of the parsers\<close>

lemmas parser_defs =
  drm_dp_sideband_parse_link_address_def drm_dp_sideband_parse_query_payload_ack_def
  drm_dp_sideband_parse_remote_dpcd_read_def drm_dp_sideband_parse_remote_dpcd_write_def
  drm_dp_sideband_parse_remote_i2c_read_ack_def drm_dp_sideband_parse_enum_path_resources_ack_def
  drm_dp_sideband_parse_allocate_payload_ack_def drm_dp_sideband_parse_power_updown_phy_ack_def
  drm_dp_sideband_parse_query_stream_enc_status_def

lemma rd_defined: "i < length msg \<Longrightarrow> rd msg i = Some (msg ! i)"
  and rdn_defined: "i + n \<le> length msg \<Longrightarrow> rdn msg i n = Some (take n (drop i msg))"
  by (simp_all add: rd_def rdn_def)

lemma parse_port_safe:
  assumes "length msg = 256" and "curlen \<le> 240" and "idx \<le> curlen"
  shows "\<exists>ok p idx'. parse_port msg curlen idx = Some (ok, p, idx') \<and> (ok \<longrightarrow> idx' \<le> curlen)"
  using assms by (auto simp: parse_port_def rd_defined rdn_defined Let_def)

lemma parse_ports_safe:
  assumes "length msg = 256" and "curlen \<le> 240" and "idx \<le> curlen"
  shows "\<exists>ok ps'. parse_ports n msg curlen idx i ps = Some (ok, ps')"
  using assms
proof (induction n arbitrary: idx i ps)
  case (Suc n)
  obtain ok p idx' where p: "parse_port msg curlen idx = Some (ok, p, idx')" "ok \<longrightarrow> idx' \<le> curlen"
    using parse_port_safe [OF Suc.prems] by blast
  then show ?case using Suc.IH [of idx'] Suc.prems by (cases ok) auto
qed auto

lemma parse_link_address_safe:
  assumes "length msg = 256" and "unat curlen \<le> 240"
  shows "drm_dp_sideband_parse_link_address msg curlen \<noteq> None"
proof (cases "unat curlen < 18")
  case True
  then show ?thesis using assms by (auto simp: drm_dp_sideband_parse_link_address_def rd_defined rdn_defined)
next
  case False
  then obtain ok ps where "parse_ports (unat (msg ! 17 AND 0xf)) msg (unat curlen) 18 0 (replicate 16 zero_port) = Some (ok, ps)"
    using parse_ports_safe [of msg "unat curlen" 18] assms by (meson not_le)
  then show ?thesis using assms by (auto simp: drm_dp_sideband_parse_link_address_def rd_defined rdn_defined Let_def)
qed

lemma ack_parsers_safe:
  assumes "length msg = 256"
  shows "drm_dp_sideband_parse_query_payload_ack msg curlen \<noteq> None"
    "drm_dp_sideband_parse_remote_dpcd_write msg curlen \<noteq> None"
    "drm_dp_sideband_parse_enum_path_resources_ack msg curlen \<noteq> None"
    "drm_dp_sideband_parse_allocate_payload_ack msg curlen \<noteq> None"
    "drm_dp_sideband_parse_power_updown_phy_ack msg curlen \<noteq> None"
    "drm_dp_sideband_parse_query_stream_enc_status msg \<noteq> None"
  using assms by (auto simp: parser_defs rd_defined Let_def)

lemma data_parsers_safe:
  assumes "length msg = 256" and "unat (msg ! 2) \<le> 253"
  shows "drm_dp_sideband_parse_remote_dpcd_read msg curlen \<noteq> None"
    "drm_dp_sideband_parse_remote_i2c_read_ack msg curlen \<noteq> None"
  using assms by (auto simp: parser_defs rd_defined rdn_defined Let_def)

text \<open>
  C32. The reply parser stays inside the message buffer: for a received message of at most 240 bytes, and of
  at most 253 announced data bytes in a remote DPCD or I2C read acknowledgement, no parser reads outside
  the 256 bytes of the buffer, whatever the bytes are.
\<close>

theorem parse_reply_safe:
  assumes "length msg = 256" and "unat curlen \<le> 240"
    and "msg ! 0 AND 0x7f \<in> {DP_REMOTE_DPCD_READ, DP_REMOTE_I2C_READ} \<Longrightarrow> unat (msg ! 2) \<le> 253"
  shows "\<exists>ok r. drm_dp_sideband_parse_reply msg curlen = Some (ok, r)"
proof -
  have "parse_ack (msg ! 0 AND 0x7f) msg curlen \<noteq> None"
    using ack_parsers_safe [OF assms(1)] data_parsers_safe [OF assms(1)]
      parse_link_address_safe [OF assms(1,2)] assms(3)
    by (simp add: parse_ack_def dp_codes del: not_None_eq)
  then show ?thesis using assms(1)
    by (auto simp: drm_dp_sideband_parse_reply_def rd_defined rdn_defined Let_def)
qed

definition ex_ack :: "u8 list" where
  "ex_ack = [0x20, 0x01, 0x02, 0xaa, 0xbb] @ replicate 251 0"

theorem parse_reply_safe_witness: "\<exists>ok r. drm_dp_sideband_parse_reply ex_ack 5 = Some (ok, r)"
  by (rule parse_reply_safe) (simp_all add: ex_ack_def)

text \<open>
  The length field of a remote DPCD read acknowledgement is not compared with the message: the parser
  copies \<open>num_bytes\<close> bytes behind the header even when the message ended before, and reads outside the
  buffer exactly when the field exceeds 253.
\<close>

theorem dpcd_read_ack_unchecked:
  assumes "length msg = 256" and "msg ! 0 = DP_REMOTE_DPCD_READ" and "3 \<le> unat curlen"
  shows "drm_dp_sideband_parse_reply msg curlen =
    (if unat (msg ! 2) \<le> 253
     then Some (True, \<lparr>reply_type = 0, rep_req_type = DP_REMOTE_DPCD_READ,
            rep_u = Reply_dpcd_read \<lparr>da_port_number = msg ! 1 AND 0xf, da_num_bytes = msg ! 2,
              da_bytes = take (unat (msg ! 2)) (drop 3 msg)\<rparr>\<rparr>)
     else None)"
  using assms by (simp add: drm_dp_sideband_parse_reply_def parse_ack_def parser_defs rd_defined rdn_def dp_codes Let_def)

theorem dpcd_read_ack_unchecked_witness:
  "drm_dp_sideband_parse_reply ([0x20, 0x01, 0xff] @ replicate 253 0) 3 = None"
  using dpcd_read_ack_unchecked [of "[0x20, 0x01, 0xff] @ replicate 253 0" 3] by (simp add: dp_codes)

section \<open>Link address replies\<close>

text \<open>
  The layout of a link address reply as a branch device sends it; parsing such a message gives back its
  contents. An input port has no revision, GUID and stream counts.
\<close>

definition enc_reply_port :: "drm_dp_link_addr_reply_port \<Rightarrow> u8 list" where
  "enc_reply_port p =
     [push_bit 7 (of_bool (input_port p)) OR (push_bit 4 (peer_device_type p) OR port_number p),
      push_bit 7 (of_bool (mcs p)) OR (push_bit 6 (of_bool (ddps p)) OR push_bit 5 (of_bool (legacy_device_plug_status p)))]
     @ (if input_port p then []
        else dpcd_revision p # peer_guid p @ [push_bit 4 (num_sdp_streams p) OR num_sdp_stream_sinks p])"

definition enc_link_address :: "u8 list \<Rightarrow> drm_dp_link_addr_reply_port list \<Rightarrow> u8 list" where
  "enc_link_address guid ps = DP_LINK_ADDRESS # guid @ of_nat (length ps) # concat (map enc_reply_port ps)"

definition reply_port_wf :: "drm_dp_link_addr_reply_port \<Rightarrow> bool" where
  "reply_port_wf p \<longleftrightarrow> peer_device_type p < 8 \<and> port_number p < 16 \<and> length (peer_guid p) = 16 \<and>
     num_sdp_streams p < 16 \<and> num_sdp_stream_sinks p < 16 \<and>
     (input_port p \<longrightarrow> \<not> legacy_device_plug_status p \<and> dpcd_revision p = 0 \<and> peer_guid p = replicate 16 0 \<and>
        num_sdp_streams p = 0 \<and> num_sdp_stream_sinks p = 0)"

lemma port_byte0:
  assumes "t < 8" "n < 16" and b_def: "b = (push_bit 7 (of_bool i) OR (push_bit 4 t OR n) :: u8)"
  shows "bit b 7 = i" "drop_bit 4 b AND 7 = t" "b AND 0xf = n"
proof -
  have t: "bit t j \<Longrightarrow> j < 3" and n: "bit n j \<Longrightarrow> j < 4" for j
    using less_exp_bit [of t 3 j] less_exp_bit [of n 4 j] assms by auto
  have m: "(7::u8) = mask 3" by (simp add: mask_eq_exp_minus_1)
  show "bit b 7 = i"
    unfolding b_def bit_push_bit_iff bit_or_iff by (auto simp: bit_of_bool_iff dest: t n)
  note bits = bit_drop_bit_eq bit_push_bit_iff bit_or_iff bit_and_iff bit_mask_iff comp_def
  show "drop_bit 4 b AND 7 = t"
    unfolding b_def m by (rule bit_word_eqI, unfold bits) (auto simp: bit_of_bool_iff dest: t n)
  show "b AND 0xf = n"
    unfolding b_def nibble_mask by (rule bit_word_eqI, unfold bits) (auto simp: bit_of_bool_iff dest: t n)
qed

lemma port_byte1:
  assumes b_def: "b = (push_bit 7 (of_bool x) OR (push_bit 6 (of_bool y) OR push_bit 5 (of_bool z)) :: u8)"
  shows "bit b 7 = x" "bit b 6 = y" "bit b 5 = z"
  unfolding b_def bit_push_bit_iff bit_or_iff by (auto simp: bit_of_bool_iff)

lemma two_nibbles:
  assumes "a < 16" "c < 16" and b_def: "b = (push_bit 4 a OR c :: u8)"
  shows "drop_bit 4 b AND 0xf = a" "b AND 0xf = c"
proof -
  have a: "bit a j \<Longrightarrow> j < 4" and c: "bit c j \<Longrightarrow> j < 4" for j
    using less_exp_bit [of a 4 j] less_exp_bit [of c 4 j] assms by auto
  show "drop_bit 4 b AND 0xf = a" "b AND 0xf = c"
    unfolding b_def nibble_mask
    by (rule bit_word_eqI, unfold bit_drop_bit_eq bit_push_bit_iff bit_or_iff bit_and_iff bit_mask_iff comp_def,
        auto dest: a c)+
qed

lemma parse_port_enc:
  assumes wf: "reply_port_wf p" and idx: "length pre = idx" and len: "idx + length (enc_reply_port p) \<le> curlen"
  shows "parse_port (pre @ enc_reply_port p @ post) curlen idx = Some (True, p, idx + length (enc_reply_port p))"
proof -
  let ?b0 = "push_bit 7 (of_bool (input_port p)) OR (push_bit 4 (peer_device_type p) OR port_number p)"
  let ?b1 = "push_bit 7 (of_bool (mcs p)) OR (push_bit 6 (of_bool (ddps p)) OR push_bit 5 (of_bool (legacy_device_plug_status p)))"
  let ?b2 = "push_bit 4 (num_sdp_streams p) OR num_sdp_stream_sinks p"
  let ?m = "pre @ enc_reply_port p @ post"
  note wf' = wf [unfolded reply_port_wf_def]
  have b0: "bit ?b0 7 = input_port p" "drop_bit 4 ?b0 AND 7 = peer_device_type p" "?b0 AND 0xf = port_number p"
    using port_byte0 [OF _ _ refl] wf' by blast+
  note b1 = port_byte1 [OF refl, of "mcs p" "ddps p" "legacy_device_plug_status p"]
  have b2: "drop_bit 4 ?b2 AND 0xf = num_sdp_streams p" "?b2 AND 0xf = num_sdp_stream_sinks p"
    using two_nibbles [OF _ _ refl] wf' by blast+
  have r: "rd ?m idx = Some ?b0" "rd ?m (idx + 1) = Some ?b1"
    using idx by (simp_all add: rd_def nth_append enc_reply_port_def)
  show ?thesis
  proof (cases "input_port p")
    case True
    then have "length (enc_reply_port p) = 2" by (simp add: enc_reply_port_def)
    moreover have "zero_port\<lparr>input_port := True, peer_device_type := peer_device_type p, port_number := port_number p,
        mcs := mcs p, ddps := ddps p, legacy_device_plug_status := False\<rparr> = p"
      using wf' True by (cases p) (simp add: zero_port_def)
    ultimately show ?thesis using len True wf'
      unfolding parse_port_def r Option.bind.simps Let_def b0 b1 by simp
  next
    case False
    then have l: "length (enc_reply_port p) = 20" using wf' by (simp add: enc_reply_port_def)
    have r': "rd ?m (idx + 2) = Some (dpcd_revision p)" "rdn ?m (idx + 3) 16 = Some (peer_guid p)" "rd ?m (idx + 19) = Some ?b2"
      using idx False wf' by (simp_all add: rd_def rdn_def nth_append enc_reply_port_def)
    show ?thesis using len l False
      unfolding parse_port_def r r' Option.bind.simps Let_def b0 b1 b2 by (simp add: zero_port_def)
  qed
qed

lemma parse_ports_enc:
  assumes "\<forall>p \<in> set ps. reply_port_wf p" and "length pre = idx" and "idx + length (concat (map enc_reply_port ps)) \<le> curlen"
    and "i + length ps \<le> length qs"
  shows "parse_ports (length ps) (pre @ concat (map enc_reply_port ps) @ post) curlen idx i qs =
    Some (True, take i qs @ ps @ drop (i + length ps) qs)"
  using assms
proof (induction ps arbitrary: pre idx i qs)
  case (Cons p ps)
  have p: "parse_port (pre @ enc_reply_port p @ (concat (map enc_reply_port ps) @ post)) curlen idx =
      Some (True, p, idx + length (enc_reply_port p))"
    using Cons.prems by (intro parse_port_enc) auto
  have "parse_ports (length ps) ((pre @ enc_reply_port p) @ concat (map enc_reply_port ps) @ post) curlen
        (idx + length (enc_reply_port p)) (Suc i) (qs[i := p]) =
      Some (True, take (Suc i) (qs[i := p]) @ ps @ drop (Suc i + length ps) (qs[i := p]))"
    using Cons.prems by (intro Cons.IH) auto
  moreover have "take (Suc i) (qs[i := p]) = take i qs @ [p]"
    using Cons.prems(4) by (simp add: take_Suc_conv_app_nth)
  ultimately show ?case using p by simp
qed simp

text \<open>
  Parsing a link address reply gives back its contents: the GUID, the number of ports and every port, the
  unused entries of the port array being zero.
\<close>

theorem link_address_roundtrip:
  assumes guid: "length guid = 16" and ps: "\<forall>p \<in> set ps. reply_port_wf p" and n: "length ps < 16"
    and len: "length (enc_link_address guid ps) \<le> 255"
  shows "drm_dp_sideband_parse_reply (enc_link_address guid ps @ post) (of_nat (length (enc_link_address guid ps))) =
    Some (True, \<lparr>reply_type = 0, rep_req_type = DP_LINK_ADDRESS,
       rep_u = Reply_link_addr \<lparr>la_guid = guid, nports = of_nat (length ps), ports = ps @ replicate (16 - length ps) zero_port\<rparr>\<rparr>)"
proof -
  let ?msg = "enc_link_address guid ps @ post" and ?n = "of_nat (length ps) :: u8"
  let ?len = "18 + length (concat (map enc_reply_port ps))"
  have l: "length (enc_link_address guid ps) = ?len" using guid by (simp add: enc_link_address_def)
  have cur: "unat (of_nat ?len :: u8) = ?len" using len l by (simp add: unat_of_nat del: of_nat_add)
  have nn: "?n AND 0xf = ?n" "unat ?n = length ps"
    using n by (simp_all add: u8_and_id word_less_nat_alt unat_of_nat)
  have r: "rd ?msg 0 = Some DP_LINK_ADDRESS" "rdn ?msg 1 16 = Some guid" "rd ?msg 17 = Some ?n"
    using guid by (simp_all add: enc_link_address_def rd_def rdn_def nth_append)
  have ports: "parse_ports (length ps) ?msg ?len 18 0 (replicate 16 zero_port) =
      Some (True, ps @ replicate (16 - length ps) zero_port)"
    using parse_ports_enc [OF ps, of "DP_LINK_ADDRESS # guid @ [?n]" 18 ?len 0 "replicate 16 zero_port" post] n guid
    by (simp add: enc_link_address_def)
  have "parse_ack DP_LINK_ADDRESS ?msg (of_nat ?len) =
      Some (True, Reply_link_addr \<lparr>la_guid = guid, nports = ?n, ports = ps @ replicate (16 - length ps) zero_port\<rparr>)"
    unfolding parse_ack_def drm_dp_sideband_parse_link_address_def r Option.bind.simps Let_def cur
    using ports nn by (simp add: dp_codes)
  then show ?thesis
    unfolding drm_dp_sideband_parse_reply_def r l Option.bind.simps Let_def by (simp add: dp_codes)
qed

definition ex_port :: drm_dp_link_addr_reply_port where
  "ex_port = \<lparr>input_port = False, peer_device_type = 3, port_number = 8, mcs = False, ddps = True,
     legacy_device_plug_status = False, dpcd_revision = 0x14, peer_guid = map of_nat [0..<16],
     num_sdp_streams = 1, num_sdp_stream_sinks = 2\<rparr>"

theorem link_address_roundtrip_witness:
  "drm_dp_sideband_parse_reply (enc_link_address (replicate 16 7) [zero_port\<lparr>input_port := True, port_number := 1\<rparr>, ex_port] @ replicate 216 0) 40 =
     Some (True, \<lparr>reply_type = 0, rep_req_type = DP_LINK_ADDRESS,
       rep_u = Reply_link_addr \<lparr>la_guid = replicate 16 7, nports = 2,
         ports = [zero_port\<lparr>input_port := True, port_number := 1\<rparr>, ex_port] @ replicate 14 zero_port\<rparr>\<rparr>)"
  using link_address_roundtrip [of "replicate 16 7" "[zero_port\<lparr>input_port := True, port_number := 1\<rparr>, ex_port]" "replicate 216 0"]
  by (simp add: reply_port_wf_def ex_port_def zero_port_def enc_link_address_def enc_reply_port_def)

end
