(* ===== verification/DP_Aux.thy ===== *)
theory DP_Aux
  imports DRM_Prelude
begin

text \<open>
  The DisplayPort AUX channel (\<open>drm_dp_helper.c\<close>, \<open>drm_dp_helper.h\<close>): native reads and writes of DPCD
  registers with their retries, the byte by byte fallback of a read, and the I2C transfers that are
  tunnelled over the channel.

  The \<open>transfer\<close> hook of the driver is a parameter, a function on a state \<open>'a\<close> that stands for the
  hardware. It is given the message and returns the number of bytes or the error, the reply code and the
  contents of the buffer: its documentation forbids it to change anything else of the message. A channel
  with \<open>is_remote\<close> is served by the topology manager (\<open>drm_dp_mst_dpcd_read\<close>, \<open>drm_dp_mst_dpcd_write\<close>), whose
  two functions are parameters of the same kind.
\<close>

unbundle bit_operations_syntax

section \<open>State\<close>

record drm_dp_aux_msg =
  msg_address :: nat
  msg_request :: u8
  msg_reply :: u8
  msg_buffer :: "u8 list"
  msg_size :: nat

record 'a drm_dp_aux =
  aux_transfer :: "drm_dp_aux_msg \<Rightarrow> 'a \<Rightarrow> int \<times> u8 \<times> u8 list \<times> 'a"
  drm_dp_mst_dpcd_read :: "nat \<Rightarrow> nat \<Rightarrow> 'a \<Rightarrow> int \<times> u8 list \<times> 'a"
  drm_dp_mst_dpcd_write :: "nat \<Rightarrow> u8 list \<Rightarrow> 'a \<Rightarrow> int \<times> 'a"
  i2c_nack_count :: u32
  i2c_defer_count :: u32
  is_remote :: bool
  powered_down :: bool
  no_zero_sized :: bool
  dpcd_probe_disabled :: bool

definition DP_AUX_MAX_PAYLOAD_BYTES :: int where "DP_AUX_MAX_PAYLOAD_BYTES = 16"
definition DP_AUX_I2C_WRITE :: u8 where "DP_AUX_I2C_WRITE = 0x0"
definition DP_AUX_I2C_READ :: u8 where "DP_AUX_I2C_READ = 0x1"
definition DP_AUX_I2C_WRITE_STATUS_UPDATE :: u8 where "DP_AUX_I2C_WRITE_STATUS_UPDATE = 0x2"
definition DP_AUX_I2C_MOT :: u8 where "DP_AUX_I2C_MOT = 0x4"
definition DP_AUX_NATIVE_WRITE :: u8 where "DP_AUX_NATIVE_WRITE = 0x8"
definition DP_AUX_NATIVE_READ :: u8 where "DP_AUX_NATIVE_READ = 0x9"
definition DP_AUX_NATIVE_REPLY_ACK :: u8 where "DP_AUX_NATIVE_REPLY_ACK = 0x0"
definition DP_AUX_NATIVE_REPLY_NACK :: u8 where "DP_AUX_NATIVE_REPLY_NACK = 0x1"
definition DP_AUX_NATIVE_REPLY_DEFER :: u8 where "DP_AUX_NATIVE_REPLY_DEFER = 0x2"
definition DP_AUX_NATIVE_REPLY_MASK :: u8 where "DP_AUX_NATIVE_REPLY_MASK = 0x3"
definition DP_AUX_I2C_REPLY_ACK :: u8 where "DP_AUX_I2C_REPLY_ACK = 0x0"
definition DP_AUX_I2C_REPLY_NACK :: u8 where "DP_AUX_I2C_REPLY_NACK = 0x4"
definition DP_AUX_I2C_REPLY_DEFER :: u8 where "DP_AUX_I2C_REPLY_DEFER = 0x8"
definition DP_AUX_I2C_REPLY_MASK :: u8 where "DP_AUX_I2C_REPLY_MASK = 0xc"
definition DP_TRAINING_PATTERN_SET :: nat where "DP_TRAINING_PATTERN_SET = 0x102"

lemmas aux_codes =
  DP_AUX_I2C_WRITE_def DP_AUX_I2C_READ_def DP_AUX_I2C_WRITE_STATUS_UPDATE_def DP_AUX_I2C_MOT_def DP_AUX_NATIVE_WRITE_def
  DP_AUX_NATIVE_READ_def DP_AUX_NATIVE_REPLY_ACK_def DP_AUX_NATIVE_REPLY_NACK_def DP_AUX_NATIVE_REPLY_DEFER_def
  DP_AUX_NATIVE_REPLY_MASK_def DP_AUX_I2C_REPLY_ACK_def DP_AUX_I2C_REPLY_NACK_def DP_AUX_I2C_REPLY_DEFER_def
  DP_AUX_I2C_REPLY_MASK_def

section \<open>Native access\<close>

text \<open>The loop of \<open>drm_dp_dpcd_access\<close>, with the number of attempts left and the first error so far.\<close>

primrec dpcd_access_loop :: "nat \<Rightarrow> 'a drm_dp_aux \<Rightarrow> drm_dp_aux_msg \<Rightarrow> int \<Rightarrow> 'a \<Rightarrow> int \<times> u8 list \<times> 'a" where
  "dpcd_access_loop 0 aux msg err a = (err, msg_buffer msg, a)"
| "dpcd_access_loop (Suc n) aux msg err a =
     (case aux_transfer aux msg a of
        (ret, reply, buf, a) \<Rightarrow>
          let msg = msg\<lparr>msg_reply := reply, msg_buffer := buf\<rparr>;
              native_reply = reply AND DP_AUX_NATIVE_REPLY_MASK
          in if ret \<ge> 0 \<and> native_reply = DP_AUX_NATIVE_REPLY_ACK \<and> ret = int (msg_size msg) then (ret, buf, a)
             else
               let ret = (if ret < 0 then ret
                          else if native_reply = DP_AUX_NATIVE_REPLY_ACK then neg_errno EPROTO
                          else neg_errno EIO)
               in dpcd_access_loop n aux msg (if err = 0 then ret else err) a)"

definition native_msg :: "u8 \<Rightarrow> nat \<Rightarrow> u8 list \<Rightarrow> drm_dp_aux_msg" where
  "native_msg request offset buffer =
     \<lparr>msg_address = offset, msg_request = request, msg_reply = 0, msg_buffer = buffer, msg_size = length buffer\<rparr>"

definition drm_dp_dpcd_access :: "'a drm_dp_aux \<Rightarrow> u8 \<Rightarrow> nat \<Rightarrow> u8 list \<Rightarrow> 'a \<Rightarrow> int \<times> u8 list \<times> 'a" where
  "drm_dp_dpcd_access aux request offset buffer a =
     (if powered_down aux then (neg_errno EBUSY, buffer, a)
      else dpcd_access_loop 32 aux (native_msg request offset buffer) 0 a)"

definition drm_dp_dpcd_probe :: "'a drm_dp_aux \<Rightarrow> nat \<Rightarrow> 'a \<Rightarrow> int \<times> 'a" where
  "drm_dp_dpcd_probe aux offset a =
     (case drm_dp_dpcd_access aux DP_AUX_NATIVE_READ offset [0] a of
        (ret, buffer, a) \<Rightarrow> (if ret < 0 then ret else 0, a))"

definition drm_dp_dpcd_set_powered :: "'a drm_dp_aux \<Rightarrow> bool \<Rightarrow> 'a drm_dp_aux" where
  "drm_dp_dpcd_set_powered aux powered = aux\<lparr>powered_down := \<not> powered\<rparr>"

definition drm_dp_dpcd_set_probe :: "'a drm_dp_aux \<Rightarrow> bool \<Rightarrow> 'a drm_dp_aux" where
  "drm_dp_dpcd_set_probe aux enable = aux\<lparr>dpcd_probe_disabled := \<not> enable\<rparr>"

definition dpcd_access_needs_probe :: "'a drm_dp_aux \<Rightarrow> bool" where
  "dpcd_access_needs_probe aux \<longleftrightarrow> \<not> is_remote aux \<and> \<not> dpcd_probe_disabled aux"

definition drm_dp_dpcd_read :: "'a drm_dp_aux \<Rightarrow> nat \<Rightarrow> u8 list \<Rightarrow> 'a \<Rightarrow> int \<times> u8 list \<times> 'a" where
  "drm_dp_dpcd_read aux offset buffer a =
     (case (if dpcd_access_needs_probe aux then drm_dp_dpcd_probe aux DP_TRAINING_PATTERN_SET a else (0, a)) of
        (ret, a) \<Rightarrow>
          if ret < 0 then (ret, buffer, a)
          else if is_remote aux then drm_dp_mst_dpcd_read aux offset (length buffer) a
          else drm_dp_dpcd_access aux DP_AUX_NATIVE_READ offset buffer a)"

definition drm_dp_dpcd_write :: "'a drm_dp_aux \<Rightarrow> nat \<Rightarrow> u8 list \<Rightarrow> 'a \<Rightarrow> int \<times> 'a" where
  "drm_dp_dpcd_write aux offset buffer a =
     (if is_remote aux then drm_dp_mst_dpcd_write aux offset buffer a
      else case drm_dp_dpcd_access aux DP_AUX_NATIVE_WRITE offset buffer a of (ret, _, a) \<Rightarrow> (ret, a))"

definition drm_dp_dpcd_readb :: "'a drm_dp_aux \<Rightarrow> nat \<Rightarrow> u8 \<Rightarrow> 'a \<Rightarrow> int \<times> u8 \<times> 'a" where
  "drm_dp_dpcd_readb aux offset value a =
     (case drm_dp_dpcd_read aux offset [value] a of (ret, buf, a) \<Rightarrow> (ret, hd (buf @ [value]), a))"

text \<open>The fallback of \<open>drm_dp_dpcd_read_data\<close>: the bytes from \<open>i\<close> on, one at a time.\<close>

primrec read_bytes :: "nat \<Rightarrow> 'a drm_dp_aux \<Rightarrow> nat \<Rightarrow> nat \<Rightarrow> u8 list \<Rightarrow> 'a \<Rightarrow> int \<times> u8 list \<times> 'a" where
  "read_bytes 0 aux offset i buf a = (0, buf, a)"
| "read_bytes (Suc n) aux offset i buf a =
     (case drm_dp_dpcd_readb aux (offset + i) (buf ! i) a of
        (ret, value, a) \<Rightarrow>
          let buf = buf[i := value]
          in if ret < 0 then (ret, buf, a) else read_bytes n aux offset (Suc i) buf a)"

text \<open>The result is the error code, the buffer of \<open>sz\<close> bytes (zero where nothing was read) and the state.\<close>

definition drm_dp_dpcd_read_data :: "'a drm_dp_aux \<Rightarrow> nat \<Rightarrow> nat \<Rightarrow> 'a \<Rightarrow> int \<times> u8 list \<times> 'a" where
  "drm_dp_dpcd_read_data aux offset sz a =
     (case drm_dp_dpcd_read aux offset (replicate sz 0) a of
        (ret, buf, a) \<Rightarrow>
          if ret \<ge> 0 then (if ret < int sz then neg_errno EPROTO else 0, buf, a)
          else read_bytes sz aux offset 0 buf a)"

definition drm_dp_dpcd_write_data :: "'a drm_dp_aux \<Rightarrow> nat \<Rightarrow> u8 list \<Rightarrow> 'a \<Rightarrow> int \<times> 'a" where
  "drm_dp_dpcd_write_data aux offset buffer a =
     (case drm_dp_dpcd_write aux offset buffer a of
        (ret, a) \<Rightarrow>
          if ret < 0 then (ret, a) else if ret < int (length buffer) then (neg_errno EPROTO, a) else (0, a))"

section \<open>I2C over AUX\<close>

record i2c_msg =
  i2c_addr :: nat
  i2c_flags :: u16
  i2c_buf :: "u8 list"

definition I2C_M_RD :: u16 where "I2C_M_RD = 0x0001"
definition I2C_M_STOP :: u16 where "I2C_M_STOP = 0x8000"

definition drm_dp_i2c_msg_write_status_update :: "drm_dp_aux_msg \<Rightarrow> drm_dp_aux_msg" where
  "drm_dp_i2c_msg_write_status_update msg =
     (if msg_request msg AND NOT DP_AUX_I2C_MOT = DP_AUX_I2C_WRITE
      then msg\<lparr>msg_request := (msg_request msg AND DP_AUX_I2C_MOT) OR DP_AUX_I2C_WRITE_STATUS_UPDATE\<rparr> else msg)"

text \<open>Durations in microseconds: 66 and 42 are the sums of the lengths of the fixed parts of a request and a reply.\<close>

definition drm_dp_aux_req_duration :: "drm_dp_aux_msg \<Rightarrow> nat" where
  "drm_dp_aux_req_duration msg =
     10 + (16 + 4) + 4 + 4 + 20 + 8 + (if msg_request msg AND DP_AUX_I2C_READ = 0 then msg_size msg * 8 else 0)"

definition drm_dp_aux_reply_duration :: "drm_dp_aux_msg \<Rightarrow> nat" where
  "drm_dp_aux_reply_duration msg =
     10 + (16 + 4) + 4 + 4 + 4 + (if msg_request msg AND DP_AUX_I2C_READ \<noteq> 0 then msg_size msg * 8 else 0)"

definition div_round_up_nat :: "nat \<Rightarrow> nat \<Rightarrow> nat" where
  "div_round_up_nat n d = (n + d - 1) div d"

text \<open>\<open>i2c_speed_khz\<close> is the module parameter \<open>dp_aux_i2c_speed_khz\<close>, documented for 1 to 400. For 0 the C code divides by
  zero, where \<open>div\<close> of HOL is 0: the definition is the code's only for a positive speed.\<close>

definition drm_dp_i2c_msg_duration :: "drm_dp_aux_msg \<Rightarrow> nat \<Rightarrow> nat" where
  "drm_dp_i2c_msg_duration msg i2c_speed_khz = div_round_up_nat ((1 + 9 + msg_size msg * 9 + 1) * 1000) i2c_speed_khz"

definition drm_dp_i2c_retry_count :: "drm_dp_aux_msg \<Rightarrow> nat \<Rightarrow> nat" where
  "drm_dp_i2c_retry_count msg i2c_speed_khz =
     div_round_up_nat (drm_dp_i2c_msg_duration msg i2c_speed_khz)
       (drm_dp_aux_req_duration msg + drm_dp_aux_reply_duration msg + 500)"

text \<open>The loop of \<open>drm_dp_i2c_do_msg\<close>. The message and the counters of the channel are returned updated.\<close>

function i2c_do_msg_loop ::
    "nat \<Rightarrow> nat \<Rightarrow> nat \<Rightarrow> 'a drm_dp_aux \<Rightarrow> drm_dp_aux_msg \<Rightarrow> 'a \<Rightarrow> int \<times> drm_dp_aux_msg \<times> 'a drm_dp_aux \<times> 'a" where
  "i2c_do_msg_loop max_retries retry defer_i2c aux msg a =
     (if retry < max_retries + defer_i2c then
        (case aux_transfer aux msg a of
           (ret, reply, buf, a) \<Rightarrow>
             let msg = msg\<lparr>msg_reply := reply, msg_buffer := buf\<rparr>;
                 native = reply AND DP_AUX_NATIVE_REPLY_MASK;
                 i2c = reply AND DP_AUX_I2C_REPLY_MASK
             in if ret < 0 then
                  if ret = neg_errno EBUSY then i2c_do_msg_loop max_retries (Suc retry) defer_i2c aux msg a
                  else (ret, msg, aux, a)
                else if native = DP_AUX_NATIVE_REPLY_NACK then (neg_errno EREMOTEIO, msg, aux, a)
                else if native = DP_AUX_NATIVE_REPLY_DEFER then i2c_do_msg_loop max_retries (Suc retry) defer_i2c aux msg a
                else if native \<noteq> DP_AUX_NATIVE_REPLY_ACK then (neg_errno EREMOTEIO, msg, aux, a)
                else if i2c = DP_AUX_I2C_REPLY_ACK then
                  (ret, if ret \<noteq> int (msg_size msg) then drm_dp_i2c_msg_write_status_update msg else msg, aux, a)
                else if i2c = DP_AUX_I2C_REPLY_NACK then
                  (neg_errno EREMOTEIO, msg, aux\<lparr>i2c_nack_count := i2c_nack_count aux + 1\<rparr>, a)
                else if i2c = DP_AUX_I2C_REPLY_DEFER then
                  i2c_do_msg_loop max_retries (Suc retry) (if defer_i2c < 7 then Suc defer_i2c else defer_i2c)
                    (aux\<lparr>i2c_defer_count := i2c_defer_count aux + 1\<rparr>) (drm_dp_i2c_msg_write_status_update msg) a
                else (neg_errno EREMOTEIO, msg, aux, a))
      else (neg_errno EREMOTEIO, msg, aux, a))"
  by pat_completeness auto
termination
  by (relation "measure (\<lambda>(max_retries, retry, defer_i2c, _). max_retries + defer_i2c - retry + 2 * (7 - defer_i2c))")
    (auto split: if_splits)

declare i2c_do_msg_loop.simps [simp del]

definition drm_dp_i2c_do_msg ::
    "nat \<Rightarrow> 'a drm_dp_aux \<Rightarrow> drm_dp_aux_msg \<Rightarrow> 'a \<Rightarrow> int \<times> drm_dp_aux_msg \<times> 'a drm_dp_aux \<times> 'a" where
  "drm_dp_i2c_do_msg khz aux msg a = i2c_do_msg_loop (max 7 (drm_dp_i2c_retry_count msg khz)) 0 0 aux msg a"

definition drm_dp_i2c_msg_set_request :: "drm_dp_aux_msg \<Rightarrow> i2c_msg \<Rightarrow> drm_dp_aux_msg" where
  "drm_dp_i2c_msg_set_request msg m =
     msg\<lparr>msg_request := (if i2c_flags m AND I2C_M_RD \<noteq> 0 then DP_AUX_I2C_READ else DP_AUX_I2C_WRITE)
                          OR (if i2c_flags m AND I2C_M_STOP = 0 then DP_AUX_I2C_MOT else 0)\<rparr>"

text \<open>
  \<open>drm_dp_i2c_drain_msg\<close>: the recommended size or the error, and the contents of the buffer. \<open>None\<close> when the
  driver claims more bytes than it was given, where the size of the C code wraps around.
\<close>

function i2c_drain_loop ::
    "nat \<Rightarrow> 'a drm_dp_aux \<Rightarrow> drm_dp_aux_msg \<Rightarrow> int \<Rightarrow> 'a \<Rightarrow> (int \<times> u8 list \<times> 'a drm_dp_aux \<times> 'a) option" where
  "i2c_drain_loop khz aux msg ret a =
     (if msg_size msg > 0 then
        (case drm_dp_i2c_do_msg khz aux msg a of
           (err, msg', aux, a) \<Rightarrow>
             if err \<le> 0 then Some (if err = 0 then neg_errno EPROTO else err, msg_buffer msg', aux, a)
             else if err > int (msg_size msg) then None
             else
               map_option (\<lambda>(ret, buf, aux, a). (ret, take (nat err) (msg_buffer msg') @ buf, aux, a))
                 (i2c_drain_loop khz aux
                   (msg'\<lparr>msg_buffer := drop (nat err) (msg_buffer msg'), msg_size := msg_size msg - nat err\<rparr>)
                   (if err < int (msg_size msg) \<and> err < ret then err else ret) a))
      else Some (ret, msg_buffer msg, aux, a))"
  by pat_completeness auto
termination
  by (relation "measure (\<lambda>(khz, aux, msg, ret, a). msg_size msg)") auto

declare i2c_drain_loop.simps [simp del]

definition drm_dp_i2c_drain_msg ::
    "nat \<Rightarrow> 'a drm_dp_aux \<Rightarrow> drm_dp_aux_msg \<Rightarrow> 'a \<Rightarrow> (int \<times> u8 list \<times> 'a drm_dp_aux \<times> 'a) option" where
  "drm_dp_i2c_drain_msg khz aux orig_msg a = i2c_drain_loop khz aux orig_msg (int (msg_size orig_msg)) a"

text \<open>The bytes the driver left at offset \<open>j\<close> of a buffer.\<close>

definition overwrite :: "nat \<Rightarrow> u8 list \<Rightarrow> u8 list \<Rightarrow> u8 list" where
  "overwrite j bs xs = take j xs @ take (length xs - j) bs @ drop (j + length bs) xs"

lemma length_overwrite [simp]: "length (overwrite j bs xs) = length xs"
  by (simp add: overwrite_def)

text \<open>
  The data phase of one message of \<open>drm_dp_i2c_xfer\<close>, from byte \<open>j\<close> on: the next piece of the message, and the
  loop. \<open>None\<close> also when the transfer size is zero: the C loop would not advance.
\<close>

definition i2c_piece :: "'a drm_dp_aux \<Rightarrow> i2c_msg \<Rightarrow> drm_dp_aux_msg \<Rightarrow> nat \<Rightarrow> nat \<Rightarrow> drm_dp_aux_msg" where
  "i2c_piece aux m msg transfer_size j =
     (let n = min transfer_size (length (i2c_buf m) - j)
      in msg\<lparr>msg_buffer := take n (drop j (i2c_buf m)), msg_size := n,
             msg_request := (if j + n = length (i2c_buf m) \<and> no_zero_sized aux
                             then msg_request msg AND NOT DP_AUX_I2C_MOT else msg_request msg)\<rparr>)"

function i2c_data_loop ::
    "nat \<Rightarrow> 'a drm_dp_aux \<Rightarrow> i2c_msg \<Rightarrow> drm_dp_aux_msg \<Rightarrow> nat \<Rightarrow> nat \<Rightarrow> 'a \<Rightarrow>
     (int \<times> drm_dp_aux_msg \<times> i2c_msg \<times> 'a drm_dp_aux \<times> 'a) option" where
  "i2c_data_loop khz aux m msg transfer_size j a =
     (if j < length (i2c_buf m) then
        if transfer_size = 0 then None
        else
          let piece = i2c_piece aux m msg transfer_size j
          in (case drm_dp_i2c_drain_msg khz aux piece a of
                None \<Rightarrow> None
              | Some (err, buf, aux, a) \<Rightarrow>
                  let msg = drm_dp_i2c_msg_set_request piece m;
                      m = m\<lparr>i2c_buf := overwrite j buf (i2c_buf m)\<rparr>
                  in if err < 0 then Some (err, msg, m, aux, a)
                     else i2c_data_loop khz aux m msg (nat err) (j + msg_size piece) a)
      else Some (0, msg, m, aux, a))"
  by pat_completeness auto
termination
  by (relation "measure (\<lambda>(khz, aux, m, msg, transfer_size, j, a). length (i2c_buf m) - j)")
    (auto simp: i2c_piece_def Let_def)

declare i2c_data_loop.simps [simp del]

definition i2c_bare :: "drm_dp_aux_msg \<Rightarrow> drm_dp_aux_msg" where
  "i2c_bare msg = msg\<lparr>msg_buffer := [], msg_size := 0\<rparr>"

primrec i2c_msgs_loop ::
    "nat \<Rightarrow> nat \<Rightarrow> 'a drm_dp_aux \<Rightarrow> drm_dp_aux_msg \<Rightarrow> i2c_msg list \<Rightarrow> 'a \<Rightarrow>
     (int \<times> drm_dp_aux_msg \<times> i2c_msg list \<times> 'a drm_dp_aux \<times> 'a) option" where
  "i2c_msgs_loop khz tsize aux msg [] a = Some (0, msg, [], aux, a)"
| "i2c_msgs_loop khz tsize aux msg (m # ms) a =
     (let msg = msg\<lparr>msg_address := i2c_addr m\<rparr>
      in case (if \<not> no_zero_sized aux then drm_dp_i2c_do_msg khz aux (i2c_bare (drm_dp_i2c_msg_set_request msg m)) a
               else (0, msg, aux, a)) of
           (err, msg, aux, a) \<Rightarrow>
             let msg = drm_dp_i2c_msg_set_request msg m
             in if err < 0 then Some (err, msg, m # ms, aux, a)
                else
                  (case i2c_data_loop khz aux m msg tsize 0 a of
                     None \<Rightarrow> None
                   | Some (err, msg, m, aux, a) \<Rightarrow>
                       if err < 0 then Some (err, msg, m # ms, aux, a)
                       else map_option (\<lambda>(err, msg, ms, aux, a). (err, msg, m # ms, aux, a))
                              (i2c_msgs_loop khz tsize aux msg ms a)))"

definition clamp_transfer_size :: "int \<Rightarrow> nat" where
  "clamp_transfer_size tsize = nat (min (max tsize 1) DP_AUX_MAX_PAYLOAD_BYTES)"

definition drm_dp_i2c_xfer ::
    "nat \<Rightarrow> int \<Rightarrow> 'a drm_dp_aux \<Rightarrow> i2c_msg list \<Rightarrow> 'a \<Rightarrow> (int \<times> i2c_msg list \<times> 'a drm_dp_aux \<times> 'a) option" where
  "drm_dp_i2c_xfer khz tsize aux msgs a =
     (if powered_down aux then Some (neg_errno EBUSY, msgs, aux, a)
      else
        (case i2c_msgs_loop khz (clamp_transfer_size tsize) aux (native_msg 0 0 []) msgs a of
           None \<Rightarrow> None
         | Some (err, msg, ms, aux, a) \<Rightarrow>
             let err = (if err \<ge> 0 then int (length msgs) else err)
             in if no_zero_sized aux then Some (err, ms, aux, a)
                else
                  let msg = i2c_bare (msg\<lparr>msg_request := msg_request msg AND NOT DP_AUX_I2C_MOT\<rparr>)
                  in case drm_dp_i2c_do_msg khz aux msg a of (_, _, aux, a) \<Rightarrow> Some (err, ms, aux, a)))"

section \<open>What a native access returns\<close>

text \<open>
  The outcome of one attempt as the code sees it, and the outcomes of \<open>n\<close> attempts in a row.
\<close>

definition native_result :: "int \<Rightarrow> u8 \<Rightarrow> nat \<Rightarrow> int" where
  "native_result ret reply n =
     (if ret < 0 then ret
      else if reply AND DP_AUX_NATIVE_REPLY_MASK \<noteq> DP_AUX_NATIVE_REPLY_ACK then neg_errno EIO
      else if ret \<noteq> int n then neg_errno EPROTO
      else ret)"

primrec attempts :: "nat \<Rightarrow> 'a drm_dp_aux \<Rightarrow> drm_dp_aux_msg \<Rightarrow> 'a \<Rightarrow> (int \<times> u8 list \<times> 'a) list" where
  "attempts 0 aux msg a = []"
| "attempts (Suc n) aux msg a =
     (case aux_transfer aux msg a of
        (ret, reply, buf, a) \<Rightarrow>
          (native_result ret reply (msg_size msg), buf, a) # attempts n aux (msg\<lparr>msg_reply := reply, msg_buffer := buf\<rparr>) a)"

lemma length_attempts [simp]: "length (attempts n aux msg a) = n"
  by (induction n arbitrary: msg a) (auto split: prod.splits)

lemma attempts_eq_Nil [simp]: "attempts n aux msg a = [] \<longleftrightarrow> n = 0"
  by (metis length_0_conv length_attempts)

lemma dpcd_access_loop_attempts:
  assumes "err \<noteq> 0 \<or> 0 < n"
  shows "dpcd_access_loop n aux msg err a =
    (case find (\<lambda>(ret, _, _). 0 \<le> ret) (attempts n aux msg a) of
       Some r \<Rightarrow> r
     | None \<Rightarrow> (if err = 0 then fst (hd (attempts n aux msg a)) else err,
         if n = 0 then (msg_buffer msg, a) else snd (last (attempts n aux msg a))))"
  using assms
proof (induction n arbitrary: msg err a)
  case (Suc n)
  obtain ret reply buf b where t: "aux_transfer aux msg a = (ret, reply, buf, b)" by (metis prod_cases4)
  let ?msg = "msg\<lparr>msg_reply := reply, msg_buffer := buf\<rparr>" and ?r = "native_result ret reply (msg_size msg)"
  show ?case
  proof (cases "0 \<le> ?r")
    case True
    then show ?thesis by (auto simp: t native_result_def split: if_splits)
  next
    case False
    then have neg: "?r < 0" by simp
    have step: "dpcd_access_loop (Suc n) aux msg err a = dpcd_access_loop n aux ?msg (if err = 0 then ?r else err) b"
      using neg by (auto simp: t native_result_def Let_def split: if_splits)
    show ?thesis
      unfolding step using neg by (subst Suc.IH) (auto simp: t split: option.splits)
  qed
qed simp

text \<open>
  C39. Retries of a native access: a channel that is not powered down returns the first of up to 32
  attempts that the sink acknowledges in full, with its data, whatever the kind of the errors before it;
  when all of them fail the error is the one of the first attempt. A powered down channel is
  not touched.
\<close>

theorem dpcd_access_first_success:
  "drm_dp_dpcd_access aux request offset buffer a =
    (if powered_down aux then (neg_errno EBUSY, buffer, a)
     else let rs = attempts 32 aux (native_msg request offset buffer) a
       in case find (\<lambda>(ret, _, _). 0 \<le> ret) rs of
            Some r \<Rightarrow> r
          | None \<Rightarrow> (fst (hd rs), snd (last rs)))"
  using dpcd_access_loop_attempts [of 0 32 aux "native_msg request offset buffer" a]
  by (simp add: drm_dp_dpcd_access_def Let_def)

lemma dpcd_access_loop_induct:
  assumes run: "dpcd_access_loop n aux msg err a = (ret, buf, a')" and err: "err < 0 \<or> (err = 0 \<and> 0 < n)"
    and inv: "\<And>m b r rp bf b'. I m b \<Longrightarrow> aux_transfer aux m b = (r, rp, bf, b') \<Longrightarrow> I (m\<lparr>msg_reply := rp, msg_buffer := bf\<rparr>) b'"
    and start: "I msg a"
  shows "(\<exists>m. I m a' \<and> msg_buffer m = buf) \<and>
    (0 \<le> ret \<longrightarrow> (\<exists>m b rp. I m b \<and> aux_transfer aux m b = (ret, rp, buf, a') \<and> ret = int (msg_size m) \<and>
       rp AND DP_AUX_NATIVE_REPLY_MASK = DP_AUX_NATIVE_REPLY_ACK))"
  using run err start
proof (induction n arbitrary: msg err a)
  case (Suc n)
  obtain r rp bf b where t: "aux_transfer aux msg a = (r, rp, bf, b)" by (metis prod_cases4)
  let ?msg = "msg\<lparr>msg_reply := rp, msg_buffer := bf\<rparr>"
  have I: "I ?msg b" by (rule inv [OF Suc.prems(3) t])
  let ?good = "r \<ge> 0 \<and> rp AND DP_AUX_NATIVE_REPLY_MASK = DP_AUX_NATIVE_REPLY_ACK \<and> r = int (msg_size msg)"
  let ?r = "if r < 0 then r else if rp AND DP_AUX_NATIVE_REPLY_MASK = DP_AUX_NATIVE_REPLY_ACK then neg_errno EPROTO else neg_errno EIO"
  show ?case
  proof (cases ?good)
    case True
    then have "ret = r" "buf = bf" "a' = b" using Suc.prems(1) t by auto
    moreover have "\<exists>m. I m b \<and> msg_buffer m = bf" using I by (intro exI [of _ ?msg]) simp
    ultimately show ?thesis using t True Suc.prems(3) by blast
  next
    case False
    then have "dpcd_access_loop n aux ?msg (if err = 0 then ?r else err) b = (ret, buf, a')"
      using Suc.prems(1) t by (auto simp: Let_def)
    moreover have "(if err = 0 then ?r else err) < 0" using Suc.prems(2) by auto
    ultimately show ?thesis using I Suc.IH by blast
  qed
qed auto

section \<open>The registers behind the channel\<close>

text \<open>
  What the DPCD helpers promise to their callers: a successful write stores the bytes, a failed one changes
  nothing outside the range it was given, and a read returns the registers and keeps them.
\<close>

locale dpcd_regs =
  fixes aux :: "'a drm_dp_aux" and regs :: "'a \<Rightarrow> nat \<Rightarrow> u8"
  assumes write_ok: "drm_dp_dpcd_write_data aux off bs a = (ret, a') \<Longrightarrow> 0 \<le> ret \<Longrightarrow> i < length bs \<Longrightarrow> regs a' (off + i) = bs ! i"
    and write_frame: "drm_dp_dpcd_write_data aux off bs a = (ret, a') \<Longrightarrow> i < off \<or> off + length bs \<le> i \<Longrightarrow> regs a' i = regs a i"
    and read_ok: "drm_dp_dpcd_read_data aux off n a = (ret, bs, a') \<Longrightarrow> 0 \<le> ret \<Longrightarrow> bs = map (regs a) [off..<off + n]"
    and read_frame: "drm_dp_dpcd_read_data aux off n a = (ret, bs, a') \<Longrightarrow> regs a' = regs a"
begin

definition holds :: "'a \<Rightarrow> nat \<Rightarrow> u8 list \<Rightarrow> bool" where
  "holds a base bs \<longleftrightarrow> (\<forall>i < length bs. regs a (base + i) = bs ! i)"

end

text \<open>
  The documented behaviour of a driver and a sink that give this: a native transaction that is acknowledged
  in full has stored or delivered the bytes, one that is not may have written a part of the range, and the
  buffer of a read keeps its size.
\<close>

definition acked :: "int \<Rightarrow> u8 \<Rightarrow> drm_dp_aux_msg \<Rightarrow> bool" where
  "acked ret reply m \<longleftrightarrow> reply AND DP_AUX_NATIVE_REPLY_MASK = DP_AUX_NATIVE_REPLY_ACK \<and> ret = int (msg_size m)"

locale aux_sink =
  fixes aux :: "'a drm_dp_aux" and regs :: "'a \<Rightarrow> nat \<Rightarrow> u8"
  assumes local: "\<not> is_remote aux"
    and read_acked: "aux_transfer aux m a = (ret, reply, buf, a') \<Longrightarrow> msg_request m = DP_AUX_NATIVE_READ \<Longrightarrow> acked ret reply m \<Longrightarrow>
      buf = map (regs a) [msg_address m..<msg_address m + msg_size m]"
    and read_keeps: "aux_transfer aux m a = (ret, reply, buf, a') \<Longrightarrow> msg_request m = DP_AUX_NATIVE_READ \<Longrightarrow>
      regs a' = regs a \<and> length buf = length (msg_buffer m)"
    and write_acked: "aux_transfer aux m a = (ret, reply, buf, a') \<Longrightarrow> msg_request m = DP_AUX_NATIVE_WRITE \<Longrightarrow> acked ret reply m \<Longrightarrow>
      i < msg_size m \<Longrightarrow> regs a' (msg_address m + i) = msg_buffer m ! i"
    and write_keeps: "aux_transfer aux m a = (ret, reply, buf, a') \<Longrightarrow> msg_request m = DP_AUX_NATIVE_WRITE \<Longrightarrow>
      buf = msg_buffer m \<and> (\<forall>i. i < msg_address m \<or> msg_address m + msg_size m \<le> i \<longrightarrow> regs a' i = regs a i)"
begin

lemma access_read:
  assumes "drm_dp_dpcd_access aux DP_AUX_NATIVE_READ off buffer a = (ret, buf, a')"
  shows "regs a' = regs a" and "length buf = length buffer"
    and "0 \<le> ret \<Longrightarrow> ret = int (length buffer) \<and> buf = map (regs a) [off..<off + length buffer]"
proof -
  define I where "I m b \<longleftrightarrow> msg_request m = DP_AUX_NATIVE_READ \<and> msg_address m = off \<and> msg_size m = length buffer \<and>
    length (msg_buffer m) = length buffer \<and> regs b = regs a" for m :: drm_dp_aux_msg and b
  have "regs a' = regs a \<and> length buf = length buffer \<and>
      (0 \<le> ret \<longrightarrow> ret = int (length buffer) \<and> buf = map (regs a) [off..<off + length buffer])"
  proof (cases "powered_down aux")
    case True
    then show ?thesis using assms by (auto simp: drm_dp_dpcd_access_def)
  next
    case False
    have run: "dpcd_access_loop 32 aux (native_msg DP_AUX_NATIVE_READ off buffer) 0 a = (ret, buf, a')"
      using assms False by (simp add: drm_dp_dpcd_access_def)
    have "(\<exists>m. I m a' \<and> msg_buffer m = buf) \<and>
      (0 \<le> ret \<longrightarrow> (\<exists>m b rp. I m b \<and> aux_transfer aux m b = (ret, rp, buf, a') \<and> ret = int (msg_size m) \<and>
       rp AND DP_AUX_NATIVE_REPLY_MASK = DP_AUX_NATIVE_REPLY_ACK))"
      by (rule dpcd_access_loop_induct [OF run, of I]) (auto simp: I_def native_msg_def dest: read_keeps)
    then show ?thesis by (auto simp: I_def acked_def dest!: read_acked)
  qed
  then show "regs a' = regs a" and "length buf = length buffer"
    and "0 \<le> ret \<Longrightarrow> ret = int (length buffer) \<and> buf = map (regs a) [off..<off + length buffer]" by auto
qed

lemma access_write:
  assumes "drm_dp_dpcd_access aux DP_AUX_NATIVE_WRITE off buffer a = (ret, buf, a')"
  shows "i < off \<or> off + length buffer \<le> i \<Longrightarrow> regs a' i = regs a i"
    and "0 \<le> ret \<Longrightarrow> ret = int (length buffer) \<and> (\<forall>i < length buffer. regs a' (off + i) = buffer ! i)"
proof -
  define I where "I m b \<longleftrightarrow> msg_request m = DP_AUX_NATIVE_WRITE \<and> msg_address m = off \<and> msg_size m = length buffer \<and>
    msg_buffer m = buffer \<and> (\<forall>i. i < off \<or> off + length buffer \<le> i \<longrightarrow> regs b i = regs a i)" for m :: drm_dp_aux_msg and b
  have "(\<forall>i. i < off \<or> off + length buffer \<le> i \<longrightarrow> regs a' i = regs a i) \<and>
      (0 \<le> ret \<longrightarrow> ret = int (length buffer) \<and> (\<forall>i < length buffer. regs a' (off + i) = buffer ! i))"
  proof (cases "powered_down aux")
    case True
    then show ?thesis using assms by (auto simp: drm_dp_dpcd_access_def)
  next
    case False
    have run: "dpcd_access_loop 32 aux (native_msg DP_AUX_NATIVE_WRITE off buffer) 0 a = (ret, buf, a')"
      using assms False by (simp add: drm_dp_dpcd_access_def)
    have "(\<exists>m. I m a' \<and> msg_buffer m = buf) \<and>
      (0 \<le> ret \<longrightarrow> (\<exists>m b rp. I m b \<and> aux_transfer aux m b = (ret, rp, buf, a') \<and> ret = int (msg_size m) \<and>
       rp AND DP_AUX_NATIVE_REPLY_MASK = DP_AUX_NATIVE_REPLY_ACK))"
      by (rule dpcd_access_loop_induct [OF run, of I]) (auto simp: I_def native_msg_def dest: write_keeps)
    then show ?thesis by (fastforce simp: I_def acked_def dest: write_acked)
  qed
  then show "i < off \<or> off + length buffer \<le> i \<Longrightarrow> regs a' i = regs a i"
    and "0 \<le> ret \<Longrightarrow> ret = int (length buffer) \<and> (\<forall>i < length buffer. regs a' (off + i) = buffer ! i)" by auto
qed

lemma dpcd_read:
  assumes "drm_dp_dpcd_read aux off buffer a = (ret, buf, a')"
  shows "regs a' = regs a \<and> length buf = length buffer \<and>
    (0 \<le> ret \<longrightarrow> ret = int (length buffer) \<and> buf = map (regs a) [off..<off + length buffer])"
proof -
  obtain r b where p: "(if dpcd_access_needs_probe aux then drm_dp_dpcd_probe aux DP_TRAINING_PATTERN_SET a else (0, a)) = (r, b)"
    by (metis prod.exhaust)
  have b: "regs b = regs a"
    using p access_read(1) by (auto simp: drm_dp_dpcd_probe_def split: if_splits prod.splits)
  show ?thesis
    using assms local b access_read [of off buffer b ret buf a'] by (auto simp: drm_dp_dpcd_read_def p split: if_splits)
qed

lemma read_bytes_regs:
  assumes "read_bytes n aux off i buf a = (ret, buf', a')" and "i + n = length buf"
    and "take i buf = map (regs a) [off..<off + i]"
  shows "regs a' = regs a \<and> (0 \<le> ret \<longrightarrow> buf' = map (regs a) [off..<off + length buf])"
  using assms
proof (induction n arbitrary: i buf a)
  case (Suc n)
  obtain r bs b where t: "drm_dp_dpcd_read aux (off + i) [buf ! i] a = (r, bs, b)" by (metis prod_cases3)
  note f = dpcd_read [OF t]
  obtain v where v: "bs = [v]" "0 \<le> r \<Longrightarrow> v = regs a (off + i)" using f by (cases bs) auto
  show ?case
  proof (cases "r < 0")
    case True
    then show ?thesis using Suc.prems(1) f by (auto simp: drm_dp_dpcd_readb_def t Let_def)
  next
    case False
    have "read_bytes n aux off (Suc i) (buf[i := v]) b = (ret, buf', a')"
      using Suc.prems(1) False v by (simp add: drm_dp_dpcd_readb_def t Let_def)
    moreover have "take (Suc i) (buf[i := v]) = map (regs b) [off..<off + Suc i]"
      using Suc.prems(2,3) f v False by (simp add: take_Suc_conv_app_nth)
    ultimately show ?thesis using Suc.IH [of "Suc i" "buf[i := v]" b] f Suc.prems(2) by simp
  qed
qed auto

lemma read_data_regs:
  assumes "drm_dp_dpcd_read_data aux off n a = (ret, bs, a')"
  shows "regs a' = regs a \<and> (0 \<le> ret \<longrightarrow> bs = map (regs a) [off..<off + n])"
proof -
  obtain r b c where t: "drm_dp_dpcd_read aux off (replicate n 0) a = (r, b, c)" by (metis prod_cases3)
  show ?thesis
    using assms dpcd_read [OF t] read_bytes_regs [of n off 0 b c ret bs a']
    by (auto simp: drm_dp_dpcd_read_data_def t split: if_splits)
qed

lemma write_data_regs:
  assumes "drm_dp_dpcd_write_data aux off bs a = (ret, a')"
  shows "i < off \<or> off + length bs \<le> i \<Longrightarrow> regs a' i = regs a i"
    and "0 \<le> ret \<Longrightarrow> i < length bs \<Longrightarrow> regs a' (off + i) = bs ! i"
proof -
  obtain r b c where t: "drm_dp_dpcd_access aux DP_AUX_NATIVE_WRITE off bs a = (r, b, c)" by (metis prod_cases3)
  have "c = a'" "0 \<le> ret \<Longrightarrow> 0 \<le> r"
    using assms local by (auto simp: drm_dp_dpcd_write_data_def drm_dp_dpcd_write_def t split: if_splits)
  then show "i < off \<or> off + length bs \<le> i \<Longrightarrow> regs a' i = regs a i"
    and "0 \<le> ret \<Longrightarrow> i < length bs \<Longrightarrow> regs a' (off + i) = bs ! i" using access_write [OF t] by auto
qed

end

sublocale aux_sink \<subseteq> dpcd_regs
  by unfold_locales (blast dest: write_data_regs read_data_regs)+

section \<open>I2C transfers end\<close>

text \<open>
  A driver returns at most the number of bytes it was asked to transfer and keeps the size of the buffer
  (\<open>drm_dp_aux.transfer\<close>: the number of payload bytes that were transferred).
\<close>

locale i2c_driver =
  fixes tr :: "drm_dp_aux_msg \<Rightarrow> 'a \<Rightarrow> int \<times> u8 \<times> u8 list \<times> 'a"
  assumes tr_size: "tr m a = (ret, reply, buf, a') \<Longrightarrow> ret \<le> int (msg_size m)"
    and tr_buf: "tr m a = (ret, reply, buf, a') \<Longrightarrow> length buf = length (msg_buffer m)"
begin

lemma do_msg_loop_frame:
  assumes "i2c_do_msg_loop max_retries retry defer_i2c aux msg a = (ret, msg', aux', a')" and "aux_transfer aux = tr"
  shows "aux_transfer aux' = tr \<and> no_zero_sized aux' = no_zero_sized aux \<and> msg_size msg' = msg_size msg \<and>
    length (msg_buffer msg') = length (msg_buffer msg) \<and> ret \<le> int (msg_size msg)"
  using assms
proof (induction max_retries retry defer_i2c aux msg a rule: i2c_do_msg_loop.induct)
  case (1 max_retries retry defer_i2c aux msg a)
  obtain r reply buf b where t: "aux_transfer aux msg a = (r, reply, buf, b)" by (metis prod_cases4)
  note run = 1(4) [unfolded i2c_do_msg_loop.simps [of max_retries retry] t prod.case Let_def]
  have f: "r \<le> int (msg_size msg)" "length buf = length (msg_buffer msg)"
    using t tr_size tr_buf 1(5) by auto
  have le: "neg_errno e \<le> int n" for e n using neg_errno_neg [of e] by linarith
  note IH = 1(1-3) [OF _ t [symmetric] refl refl refl refl refl]
  show ?case
    using run f IH 1(5) le
    by (auto simp: drm_dp_i2c_msg_write_status_update_def split: if_splits)
qed

lemma do_msg_frame:
  assumes "drm_dp_i2c_do_msg khz aux msg a = (ret, msg', aux', a')" and "aux_transfer aux = tr"
  shows "aux_transfer aux' = tr \<and> no_zero_sized aux' = no_zero_sized aux \<and> msg_size msg' = msg_size msg \<and>
    length (msg_buffer msg') = length (msg_buffer msg) \<and> ret \<le> int (msg_size msg)"
  using assms do_msg_loop_frame by (simp add: drm_dp_i2c_do_msg_def)

lemma drain_loop_returns:
  assumes "aux_transfer aux = tr" and "length (msg_buffer msg) = msg_size msg" and "0 < ret"
  shows "\<exists>r buf aux' a'. i2c_drain_loop khz aux msg ret a = Some (r, buf, aux', a') \<and> r \<noteq> 0 \<and> r \<le> ret \<and>
    length buf = msg_size msg \<and> aux_transfer aux' = tr \<and> no_zero_sized aux' = no_zero_sized aux"
  using assms
proof (induction khz aux msg ret a rule: i2c_drain_loop.induct)
  case (1 khz aux msg ret a)
  show ?case
  proof (cases "msg_size msg = 0")
    case True
    then show ?thesis using 1(2-4) by (simp add: i2c_drain_loop.simps)
  next
    case False
    obtain err m aux1 b where t: "drm_dp_i2c_do_msg khz aux msg a = (err, m, aux1, b)" by (metis prod_cases4)
    note f = do_msg_frame [OF t 1(2)]
    show ?thesis
    proof (cases "err \<le> 0")
      case True
      have "neg_errno EPROTO \<le> ret" "err \<le> ret" using True 1(4) neg_errno_neg [of EPROTO] by linarith+
      then show ?thesis using True False f 1(3) by (simp add: i2c_drain_loop.simps t)
    next
      case pos: False
      let ?m = "m\<lparr>msg_buffer := drop (nat err) (msg_buffer m), msg_size := msg_size msg - nat err\<rparr>"
      let ?r = "if err < int (msg_size msg) \<and> err < ret then err else ret"
      have "\<exists>r buf aux' a'. i2c_drain_loop khz aux1 ?m ?r b = Some (r, buf, aux', a') \<and> r \<noteq> 0 \<and> r \<le> ?r \<and>
          length buf = msg_size ?m \<and> aux_transfer aux' = tr \<and> no_zero_sized aux' = no_zero_sized aux1"
        by (rule 1(1) [OF _ t [symmetric] refl refl]) (use False pos f 1(3,4) in auto)
      then obtain r buf aux' a' where IH: "i2c_drain_loop khz aux1 ?m ?r b = Some (r, buf, aux', a')" "r \<noteq> 0" "r \<le> ?r"
          "length buf = msg_size ?m" "aux_transfer aux' = tr" "no_zero_sized aux' = no_zero_sized aux1" by blast
      have "i2c_drain_loop khz aux msg ret a = Some (r, take (nat err) (msg_buffer m) @ buf, aux', a')"
        unfolding i2c_drain_loop.simps [of khz aux msg] t prod.case using False pos f IH(1) by simp
      then show ?thesis using IH(2-) f 1(3) pos by (auto split: if_splits)
    qed
  qed
qed

lemma drain_returns:
  assumes "aux_transfer aux = tr" and "length (msg_buffer msg) = msg_size msg" and "0 < msg_size msg"
  shows "\<exists>r buf aux' a'. drm_dp_i2c_drain_msg khz aux msg a = Some (r, buf, aux', a') \<and> r \<noteq> 0 \<and>
    length buf = msg_size msg \<and> aux_transfer aux' = tr \<and> no_zero_sized aux' = no_zero_sized aux"
  using drain_loop_returns [of aux msg "int (msg_size msg)" khz a] assms by (auto simp: drm_dp_i2c_drain_msg_def)

lemma data_loop_returns:
  assumes "aux_transfer aux = tr" and "0 < transfer_size"
  shows "\<exists>err msg' m' aux' a'. i2c_data_loop khz aux m msg transfer_size j a = Some (err, msg', m', aux', a') \<and>
    aux_transfer aux' = tr \<and> no_zero_sized aux' = no_zero_sized aux"
  using assms
proof (induction khz aux m msg transfer_size j a rule: i2c_data_loop.induct)
  case (1 khz aux m msg transfer_size j a)
  show ?case
  proof (cases "j < length (i2c_buf m)")
    case True
    define piece where "piece = i2c_piece aux m msg transfer_size j"
    have "length (msg_buffer piece) = msg_size piece" "0 < msg_size piece"
      using True 1(3) by (auto simp: piece_def i2c_piece_def Let_def)
    from drain_returns [OF 1(2) this] obtain r buf aux1 b where
      d: "drm_dp_i2c_drain_msg khz aux piece a = Some (r, buf, aux1, b)" "r \<noteq> 0" "aux_transfer aux1 = tr"
        "no_zero_sized aux1 = no_zero_sized aux" by blast
    let ?next = "i2c_data_loop khz aux1 (m\<lparr>i2c_buf := overwrite j buf (i2c_buf m)\<rparr>)
      (drm_dp_i2c_msg_set_request piece m) (nat r) (j + msg_size piece) b"
    have step: "i2c_data_loop khz aux m msg transfer_size j a =
        (if r < 0 then Some (r, drm_dp_i2c_msg_set_request piece m, m\<lparr>i2c_buf := overwrite j buf (i2c_buf m)\<rparr>, aux1, b) else ?next)"
      unfolding i2c_data_loop.simps [of khz aux m msg] Let_def piece_def [symmetric] d(1) option.case prod.case using True 1(3) by simp
    have "r < 0 \<or> (\<exists>err msg' m' aux' a'. ?next = Some (err, msg', m', aux', a') \<and>
        aux_transfer aux' = tr \<and> no_zero_sized aux' = no_zero_sized aux1)"
      using 1(1) [OF True _ piece_def d(1) refl refl refl refl refl _ d(3)] 1(3) d(2) by auto
    then show ?thesis unfolding step using d(3,4) by auto
  next
    case False
    then show ?thesis using 1(2) by (simp add: i2c_data_loop.simps)
  qed
qed

lemma msgs_loop_returns:
  assumes "aux_transfer aux = tr" and "0 < tsize"
  shows "\<exists>err msg' ms' aux' a'. i2c_msgs_loop khz tsize aux msg ms a = Some (err, msg', ms', aux', a')"
  using assms
proof (induction ms arbitrary: aux msg a)
  case (Cons m ms)
  let ?msg = "msg\<lparr>msg_address := i2c_addr m\<rparr>"
  obtain err msg1 aux1 b where t: "(if \<not> no_zero_sized aux then drm_dp_i2c_do_msg khz aux (i2c_bare (drm_dp_i2c_msg_set_request ?msg m)) a
      else (0, ?msg, aux, a)) = (err, msg1, aux1, b)" by (metis prod_cases4)
  have f: "aux_transfer aux1 = tr" using t Cons.prems(1) by (auto split: if_splits dest: do_msg_frame)
  obtain err2 msg2 m2 aux2 c where d: "i2c_data_loop khz aux1 m (drm_dp_i2c_msg_set_request msg1 m) tsize 0 b = Some (err2, msg2, m2, aux2, c)"
    "aux_transfer aux2 = tr" using data_loop_returns [OF f Cons.prems(2)] by blast
  show ?case using Cons.IH [OF d(2) Cons.prems(2), of msg2 c] unfolding i2c_msgs_loop.simps Let_def t prod.case d(1) option.case by auto
qed simp

lemma xfer_returns:
  assumes "aux_transfer aux = tr"
  shows "\<exists>err ms' aux' a'. drm_dp_i2c_xfer khz tsize aux ms a = Some (err, ms', aux', a')"
proof -
  have "0 < clamp_transfer_size tsize" by (simp add: clamp_transfer_size_def DP_AUX_MAX_PAYLOAD_BYTES_def)
  from msgs_loop_returns [OF assms this] obtain err msg' ms' aux1 b where
    l: "i2c_msgs_loop khz (clamp_transfer_size tsize) aux (native_msg 0 0 []) ms a = Some (err, msg', ms', aux1, b)" by blast
  show ?thesis unfolding drm_dp_i2c_xfer_def l Let_def by (simp split: prod.split)
qed

end

section \<open>Reads over I2C\<close>

text \<open>
  The device on the I2C bus as a stream of bytes: an acknowledged read delivers the next bytes and moves on,
  every other outcome of a read leaves the stream as it is.
\<close>

definition is_i2c_read :: "u8 \<Rightarrow> bool" where
  "is_i2c_read request \<longleftrightarrow> request AND NOT DP_AUX_I2C_MOT = DP_AUX_I2C_READ"

definition i2c_acked :: "int \<Rightarrow> u8 \<Rightarrow> bool" where
  "i2c_acked ret reply \<longleftrightarrow> 0 \<le> ret \<and> reply AND DP_AUX_NATIVE_REPLY_MASK = DP_AUX_NATIVE_REPLY_ACK \<and>
     reply AND DP_AUX_I2C_REPLY_MASK = DP_AUX_I2C_REPLY_ACK"

definition delivers :: "(nat \<Rightarrow> u8) \<Rightarrow> nat \<Rightarrow> u8 list \<Rightarrow> (nat \<Rightarrow> u8) \<Rightarrow> bool" where
  "delivers s n bs s' \<longleftrightarrow> take n bs = map s [0..<n] \<and> s' = (\<lambda>i. s (n + i))"

lemma delivers_append:
  assumes "delivers s n bs s1" and "delivers s1 k cs s2" and "n \<le> length bs"
  shows "delivers s (n + k) (take n bs @ cs) s2"
proof -
  have "map s [0..<n + k] = map s [0..<n] @ map (\<lambda>i. s (n + i)) [0..<k]"
    by (rule nth_equalityI) (auto simp: nth_append)
  then show ?thesis using assms by (auto simp: delivers_def add.assoc)
qed

lemma is_i2c_read_status_update [simp]:
  "is_i2c_read (msg_request msg) \<Longrightarrow> drm_dp_i2c_msg_write_status_update msg = msg"
  by (simp add: is_i2c_read_def drm_dp_i2c_msg_write_status_update_def aux_codes)

lemma is_i2c_read_and [simp]: "is_i2c_read (r AND NOT DP_AUX_I2C_MOT) = is_i2c_read r"
  by (simp add: is_i2c_read_def and.assoc)

lemma is_i2c_read_set_request [simp]:
  "i2c_flags m AND I2C_M_RD \<noteq> 0 \<Longrightarrow> is_i2c_read (msg_request (drm_dp_i2c_msg_set_request msg m))"
  by (simp add: is_i2c_read_def drm_dp_i2c_msg_set_request_def aux_codes)

locale i2c_reader = i2c_driver tr for tr :: "drm_dp_aux_msg \<Rightarrow> 'a \<Rightarrow> int \<times> u8 \<times> u8 list \<times> 'a" +
  fixes stream :: "'a \<Rightarrow> nat \<Rightarrow> u8"
  assumes tr_read: "tr m a = (ret, reply, buf, a') \<Longrightarrow> is_i2c_read (msg_request m) \<Longrightarrow>
      if i2c_acked ret reply then delivers (stream a) (nat ret) buf (stream a') else stream a' = stream a"
begin

lemma do_msg_loop_read:
  assumes "i2c_do_msg_loop max_retries retry defer_i2c aux msg a = (ret, msg', aux', a')" and "aux_transfer aux = tr"
    and "is_i2c_read (msg_request msg)"
  shows "msg_request msg' = msg_request msg \<and>
    (if ret < 0 then stream a' = stream a else delivers (stream a) (nat ret) (msg_buffer msg') (stream a'))"
  using assms
proof (induction max_retries retry defer_i2c aux msg a rule: i2c_do_msg_loop.induct)
  case (1 max_retries retry defer_i2c aux msg a)
  obtain r reply buf b where t: "aux_transfer aux msg a = (r, reply, buf, b)" by (metis prod_cases4)
  note run = 1(4) [unfolded i2c_do_msg_loop.simps [of max_retries retry] t prod.case Let_def]
  have f: "if i2c_acked r reply then delivers (stream a) (nat r) buf (stream b) else stream b = stream a"
    using t tr_read 1(5,6) by auto
  note IH = 1(1-3) [OF _ t [symmetric] refl refl refl refl refl]
  show ?case
    using run f IH 1(5,6)
    by (auto simp: i2c_acked_def aux_codes split: if_splits)
qed

lemma drain_loop_read:
  assumes "i2c_drain_loop khz aux msg ret a = Some (r, buf, aux', a')" and "aux_transfer aux = tr"
    and "is_i2c_read (msg_request msg)" and "length (msg_buffer msg) = msg_size msg" and "0 < ret" and "0 \<le> r"
  shows "delivers (stream a) (msg_size msg) buf (stream a')"
  using assms
proof (induction khz aux msg ret a arbitrary: buf rule: i2c_drain_loop.induct)
  case (1 khz aux msg ret a)
  show ?case
  proof (cases "msg_size msg = 0")
    case True
    then show ?thesis using 1(2) by (simp add: i2c_drain_loop.simps delivers_def)
  next
    case False
    obtain err m aux1 b where t: "drm_dp_i2c_do_msg khz aux msg a = (err, m, aux1, b)" by (metis prod_cases4)
    have f: "aux_transfer aux1 = tr" "length (msg_buffer m) = msg_size msg" "err \<le> int (msg_size msg)" "msg_request m = msg_request msg"
        "0 \<le> err \<Longrightarrow> delivers (stream a) (nat err) (msg_buffer m) (stream b)"
      using do_msg_frame [OF t 1(3)] do_msg_loop_read t 1(3-5) by (auto simp: drm_dp_i2c_do_msg_def split: if_splits)
    let ?m = "m\<lparr>msg_buffer := drop (nat err) (msg_buffer m), msg_size := msg_size msg - nat err\<rparr>"
    let ?r = "if err < int (msg_size msg) \<and> err < ret then err else ret"
    have pos: "0 < err" using 1(2,7) False by (auto simp: i2c_drain_loop.simps [of khz aux msg] t split: if_splits)
    then obtain buf1 where d: "i2c_drain_loop khz aux1 ?m ?r b = Some (r, buf1, aux', a')" "buf = take (nat err) (msg_buffer m) @ buf1"
      using 1(2) False f(3) by (auto simp: i2c_drain_loop.simps [of khz aux msg] t)
    have "delivers (stream b) (msg_size ?m) buf1 (stream a')"
      by (rule 1(1) [OF _ t [symmetric] refl refl _ _ d(1)]) (use False pos f 1(4,6,7) in auto)
    then show ?thesis using delivers_append [OF f(5)] pos f(2,3) d(2) by fastforce
  qed
qed

lemma overwrite_full:
  assumes "length bs = n" and "j + n \<le> length xs"
  shows "overwrite j bs xs = take j xs @ bs @ drop (j + n) xs"
  using assms by (simp add: overwrite_def)

lemma data_loop_read:
  assumes "i2c_data_loop khz aux m msg transfer_size j a = Some (err, msg', m', aux', a')" and "aux_transfer aux = tr"
    and "is_i2c_read (msg_request msg)" and "i2c_flags m AND I2C_M_RD \<noteq> 0" and "0 < transfer_size" and "0 \<le> err" and "j \<le> length (i2c_buf m)"
  shows "length (i2c_buf m') = length (i2c_buf m) \<and> take j (i2c_buf m') = take j (i2c_buf m) \<and>
    delivers (stream a) (length (i2c_buf m) - j) (drop j (i2c_buf m')) (stream a') \<and>
    is_i2c_read (msg_request msg') \<and> aux_transfer aux' = tr"
  using assms
proof (induction khz aux m msg transfer_size j a rule: i2c_data_loop.induct)
  case (1 khz aux m msg transfer_size j a)
  show ?case
  proof (cases "j < length (i2c_buf m)")
    case True
    define piece where "piece = i2c_piece aux m msg transfer_size j"
    have piece: "length (msg_buffer piece) = msg_size piece" "0 < msg_size piece" "j + msg_size piece \<le> length (i2c_buf m)"
      "is_i2c_read (msg_request piece)"
      using True 1(4,6) by (auto simp: piece_def i2c_piece_def Let_def)
    from drain_returns [OF 1(3) piece(1,2)] obtain r buf aux1 b where
      d: "drm_dp_i2c_drain_msg khz aux piece a = Some (r, buf, aux1, b)" "r \<noteq> 0" "aux_transfer aux1 = tr" "length buf = msg_size piece"
      by blast
    let ?m = "m\<lparr>i2c_buf := overwrite j buf (i2c_buf m)\<rparr>" and ?msg = "drm_dp_i2c_msg_set_request piece m"
    have step: "i2c_data_loop khz aux m msg transfer_size j a =
        (if r < 0 then Some (r, ?msg, ?m, aux1, b) else i2c_data_loop khz aux1 ?m ?msg (nat r) (j + msg_size piece) b)"
      unfolding i2c_data_loop.simps [of khz aux m msg] Let_def piece_def [symmetric] d(1) option.case prod.case using True 1(6) by simp
    then have r: "0 \<le> r" and run: "i2c_data_loop khz aux1 ?m ?msg (nat r) (j + msg_size piece) b = Some (err, msg', m', aux', a')"
      using 1(2,7) by (auto split: if_splits)
    have del: "delivers (stream a) (msg_size piece) buf (stream b)"
      using drain_loop_read [OF d(1) [unfolded drm_dp_i2c_drain_msg_def] 1(3) piece(4,1)] piece(2) r by simp
    have IH: "length (i2c_buf m') = length (i2c_buf ?m) \<and> take (j + msg_size piece) (i2c_buf m') = take (j + msg_size piece) (i2c_buf ?m) \<and>
        delivers (stream b) (length (i2c_buf ?m) - (j + msg_size piece)) (drop (j + msg_size piece) (i2c_buf m')) (stream a') \<and>
        is_i2c_read (msg_request msg') \<and> aux_transfer aux' = tr"
      by (rule 1(1) [OF True _ piece_def d(1) refl refl refl refl refl _ run]) (use r 1(5-7) d(2,3) piece(3) in auto)
    have ow: "overwrite j buf (i2c_buf m) = take j (i2c_buf m) @ buf @ drop (j + msg_size piece) (i2c_buf m)"
      by (rule overwrite_full [OF d(4) piece(3)])
    have tk: "take (j + msg_size piece) (i2c_buf m') = take j (i2c_buf m) @ buf"
      using IH ow d(4) True by simp
    have "take j (i2c_buf m') = take j (i2c_buf m)" "take (msg_size piece) (drop j (i2c_buf m')) = buf"
      using arg_cong [OF tk, of "take j"] arg_cong [OF tk, of "drop j"] True by (simp_all add: take_drop [symmetric] drop_take)
    then have "drop j (i2c_buf m') = take (msg_size piece) buf @ drop (j + msg_size piece) (i2c_buf m')"
      using d(4) append_take_drop_id [of "msg_size piece" "drop j (i2c_buf m')"] by (simp add: add.commute)
    then have "delivers (stream a) (length (i2c_buf m) - j) (drop j (i2c_buf m')) (stream a')"
      using delivers_append [OF del] IH piece(3) d(4) by fastforce
    then show ?thesis using IH \<open>take j (i2c_buf m') = _\<close> by simp
  next
    case False
    then show ?thesis using 1(2-) by (auto simp: i2c_data_loop.simps delivers_def)
  qed
qed

lemma xfer_read:
  assumes "drm_dp_i2c_xfer khz tsize aux [m] a = Some (err, ms, aux', a')" and "aux_transfer aux = tr"
    and "i2c_flags m AND I2C_M_RD \<noteq> 0" and "0 \<le> err"
  shows "err = 1 \<and> map i2c_buf ms = [map (stream a) [0..<length (i2c_buf m)]]"
proof -
  have pos: "0 < clamp_transfer_size tsize" by (simp add: clamp_transfer_size_def DP_AUX_MAX_PAYLOAD_BYTES_def)
  have up: "\<not> powered_down aux" using assms(1,4) by (auto simp: drm_dp_i2c_xfer_def)
  let ?msg = "(native_msg 0 0 [])\<lparr>msg_address := i2c_addr m\<rparr>"
  obtain e msg1 aux1 b where t: "(if \<not> no_zero_sized aux then drm_dp_i2c_do_msg khz aux (i2c_bare (drm_dp_i2c_msg_set_request ?msg m)) a
      else (0, ?msg, aux, a)) = (e, msg1, aux1, b)" by (metis prod_cases4)
  have f: "aux_transfer aux1 = tr \<and> stream b = stream a"
  proof (cases "no_zero_sized aux")
    case False
    then have d: "drm_dp_i2c_do_msg khz aux (i2c_bare (drm_dp_i2c_msg_set_request ?msg m)) a = (e, msg1, aux1, b)" using t by simp
    have "is_i2c_read (msg_request (i2c_bare (drm_dp_i2c_msg_set_request ?msg m)))" using assms(3) by (simp add: i2c_bare_def)
    from do_msg_loop_read [OF d [unfolded drm_dp_i2c_do_msg_def] assms(2) this] do_msg_frame [OF d assms(2)]
    show ?thesis by (auto simp: i2c_bare_def delivers_def split: if_splits)
  qed (use t assms(2) in auto)
  obtain err2 msg2 m2 aux2 c where d: "i2c_data_loop khz aux1 m (drm_dp_i2c_msg_set_request msg1 m) (clamp_transfer_size tsize) 0 b =
      Some (err2, msg2, m2, aux2, c)"
    using data_loop_returns [OF conjunct1 [OF f] pos] by blast
  have run: "i2c_msgs_loop khz (clamp_transfer_size tsize) aux (native_msg 0 0 []) [m] a =
      (if e < 0 then Some (e, drm_dp_i2c_msg_set_request msg1 m, [m], aux1, b)
       else if err2 < 0 then Some (err2, msg2, [m2], aux2, c) else Some (0, msg2, [m2], aux2, c))"
    unfolding i2c_msgs_loop.simps Let_def t prod.case d option.case by simp
  have good: "0 \<le> e" "0 \<le> err2" "err = 1" "ms = [m2]"
    using assms(1) [unfolded drm_dp_i2c_xfer_def run] assms(4) up
    by (auto simp: Let_def simp del: i2c_msgs_loop.simps split: if_splits prod.splits)
  have "length (i2c_buf m2) = length (i2c_buf m) \<and> delivers (stream b) (length (i2c_buf m)) (i2c_buf m2) (stream c)"
    using data_loop_read [OF d] f assms(3) pos good(2) by simp
  then show ?thesis using good f by (auto simp: delivers_def)
qed

end

section \<open>A sink\<close>

text \<open>
  A sink that shows that the assumptions on driver and sink can hold together: registers, an I2C device with
  a stream of bytes that answers at most \<open>sink_max\<close> of them at once, and a number of transactions that it
  defers first.
\<close>

record sink =
  sink_regs :: "nat \<Rightarrow> u8"
  sink_stream :: "nat \<Rightarrow> u8"
  sink_max :: nat
  sink_defers :: nat

definition sink_transfer :: "drm_dp_aux_msg \<Rightarrow> sink \<Rightarrow> int \<times> u8 \<times> u8 list \<times> sink" where
  "sink_transfer m s =
     (if sink_defers s > 0 then
        (0, if msg_request m AND 0x8 = 0 then DP_AUX_I2C_REPLY_DEFER else DP_AUX_NATIVE_REPLY_DEFER, msg_buffer m,
         s\<lparr>sink_defers := sink_defers s - 1\<rparr>)
      else if msg_request m = DP_AUX_NATIVE_READ \<and> length (msg_buffer m) = msg_size m then
        (int (msg_size m), 0, map (sink_regs s) [msg_address m..<msg_address m + msg_size m], s)
      else if msg_request m = DP_AUX_NATIVE_WRITE then
        (int (msg_size m), 0, msg_buffer m,
         s\<lparr>sink_regs := (\<lambda>i. if msg_address m \<le> i \<and> i < msg_address m + msg_size m
                           then msg_buffer m ! (i - msg_address m) else sink_regs s i)\<rparr>)
      else if is_i2c_read (msg_request m) \<and> length (msg_buffer m) = msg_size m then
        let n = min (msg_size m) (sink_max s)
        in (int n, 0, map (sink_stream s) [0..<n] @ drop n (msg_buffer m), s\<lparr>sink_stream := (\<lambda>i. sink_stream s (n + i))\<rparr>)
      else (0, DP_AUX_NATIVE_REPLY_NACK, msg_buffer m, s))"

definition sink_aux :: "bool \<Rightarrow> sink drm_dp_aux" where
  "sink_aux nz = \<lparr>aux_transfer = sink_transfer, drm_dp_mst_dpcd_read = (\<lambda>_ _ a. (neg_errno EIO, [], a)),
     drm_dp_mst_dpcd_write = (\<lambda>_ _ a. (neg_errno EIO, a)), i2c_nack_count = 0, i2c_defer_count = 0, is_remote = False,
     powered_down = False, no_zero_sized = nz, dpcd_probe_disabled = False\<rparr>"

interpretation sink: aux_sink "sink_aux nz" sink_regs
  by unfold_locales
    (auto simp: sink_aux_def sink_transfer_def acked_def aux_codes is_i2c_read_def Let_def split: if_splits)

interpretation sink_i2c: i2c_reader sink_transfer sink_stream
  by unfold_locales
    (auto simp: sink_transfer_def aux_codes is_i2c_read_def i2c_acked_def delivers_def Let_def split: if_splits)

definition ex_sink :: sink where
  "ex_sink = \<lparr>sink_regs = (\<lambda>_. 0), sink_stream = (\<lambda>i. of_nat i), sink_max = 2, sink_defers = 3\<rparr>"

definition ex_read :: i2c_msg where
  "ex_read = \<lparr>i2c_addr = 0x50, i2c_flags = I2C_M_RD, i2c_buf = replicate 3 0\<rparr>"

text \<open>The number of retries computed with integers, for evaluation.\<close>

lemma retry_count_code [code]:
  "drm_dp_i2c_retry_count msg khz =
     (let i2c_time = ((11 + int (msg_size msg) * 9) * 1000 + int khz - 1) div int khz;
          aux_time = 66 + 42 + int (msg_size msg) * 8 + 500
      in if khz = 0 then div_round_up_nat 0 (nat aux_time) else nat ((i2c_time + aux_time - 1) div aux_time))"
proof (cases "khz = 0")
  case False
  have aux: "drm_dp_aux_req_duration msg + drm_dp_aux_reply_duration msg + 500 = 66 + 42 + msg_size msg * 8 + 500"
    by (simp add: drm_dp_aux_req_duration_def drm_dp_aux_reply_duration_def)
  have up: "div_round_up_nat n d = nat ((int n + int d - 1) div int d)" if "0 < d" for n d
    using that by (simp add: div_round_up_nat_def nat_div_distrib nat_diff_distrib nat_add_distrib)
  have i2c: "int (drm_dp_i2c_msg_duration msg khz) = ((11 + int (msg_size msg) * 9) * 1000 + int khz - 1) div int khz"
    using False by (simp add: drm_dp_i2c_msg_duration_def up pos_imp_zdiv_nonneg_iff algebra_simps)
  show ?thesis unfolding drm_dp_i2c_retry_count_def aux using False by (subst up) (simp_all add: i2c Let_def)
qed (simp add: drm_dp_i2c_retry_count_def drm_dp_i2c_msg_duration_def div_round_up_nat_def drm_dp_aux_req_duration_def drm_dp_aux_reply_duration_def Let_def)

text \<open>
  C29. Native writes and reads over a driver and a sink that behave as documented: what a successful
  \<open>drm_dp_dpcd_write_data\<close> wrote is what a successful \<open>drm_dp_dpcd_read_data\<close> returns, through all retries,
  the probing read and the byte by byte fallback, and the registers outside the range are as before.
\<close>

theorem dpcd_write_read:
  assumes "aux_sink aux regs" and "drm_dp_dpcd_write_data aux off bs a = (0, b)"
    and "drm_dp_dpcd_read_data aux off (length bs) b = (0, bs', c)"
  shows "bs' = bs \<and> regs c = regs b \<and> (\<forall>i. regs c i = (if off \<le> i \<and> i < off + length bs then bs ! (i - off) else regs a i))"
proof -
  have w: "i < length bs \<Longrightarrow> regs b (off + i) = bs ! i" "i < off \<or> off + length bs \<le> i \<Longrightarrow> regs b i = regs a i" for i
    using aux_sink.write_data_regs [OF assms(1,2)] by auto
  have "regs c = regs b" "bs' = map (regs b) [off..<off + length bs]"
    using aux_sink.read_data_regs [OF assms(1,3)] by auto
  moreover have "map (regs b) [off..<off + length bs] = bs"
    by (rule nth_equalityI) (simp_all add: w)
  moreover have "regs b i = (if off \<le> i \<and> i < off + length bs then bs ! (i - off) else regs a i)" for i
    using w(1) [of "i - off"] w(2) [of i] by auto
  ultimately show ?thesis by simp
qed

theorem dpcd_write_read_witness:
  "\<exists>b c. drm_dp_dpcd_write_data (sink_aux False) 0x1000 [7, 9] ex_sink = (0, b) \<and>
     drm_dp_dpcd_read_data (sink_aux False) 0x1000 2 b = (0, [7, 9], c) \<and> sink_regs c 0x1002 = 0"
proof -
  have "fst (drm_dp_dpcd_write_data (sink_aux False) 0x1000 [7, 9] ex_sink) = 0" by code_simp
  then obtain b where w: "drm_dp_dpcd_write_data (sink_aux False) 0x1000 [7, 9] ex_sink = (0, b)" by (metis prod.collapse)
  have "fst (drm_dp_dpcd_read_data (sink_aux False) 0x1000 2 (snd (drm_dp_dpcd_write_data (sink_aux False) 0x1000 [7, 9] ex_sink))) = 0"
    by code_simp
  then obtain bs c where r: "drm_dp_dpcd_read_data (sink_aux False) 0x1000 (length [7::u8, 9]) b = (0, bs, c)"
    using w by (metis One_nat_def Suc_1 list.size(3,4) plus_1_eq_Suc add_0 prod.collapse snd_conv add.commute)
  show ?thesis using dpcd_write_read [OF sink.aux_sink_axioms w r] w r by (auto simp: ex_sink_def numeral_2_eq_2 simp del: One_nat_def)
qed

text \<open>
  C10. I2C over AUX: for a driver that never claims more bytes than it was given, a transfer of one read
  message always ends, and if it does not fail the buffer holds the next bytes of the device's stream, in order and without a
  gap, whatever short replies, defers and retries there were.
\<close>

theorem i2c_xfer_reads_stream:
  assumes "i2c_reader (aux_transfer aux) stream" and "i2c_flags m AND I2C_M_RD \<noteq> 0"
  shows "\<exists>err ms aux' b. drm_dp_i2c_xfer khz tsize aux [m] a = Some (err, ms, aux', b) \<and>
    (0 \<le> err \<longrightarrow> err = 1 \<and> map i2c_buf ms = [map (stream a) [0..<length (i2c_buf m)]])"
proof -
  have "i2c_driver (aux_transfer aux)" using assms(1) by (simp add: i2c_reader_def)
  then obtain err ms aux' b where "drm_dp_i2c_xfer khz tsize aux [m] a = Some (err, ms, aux', b)"
    using i2c_driver.xfer_returns [of _ aux] by blast
  with i2c_reader.xfer_read [OF assms(1) _ refl assms(2)] show ?thesis by blast
qed

theorem i2c_xfer_reads_stream_witness:
  "\<exists>ms aux' b. drm_dp_i2c_xfer 10 16 (sink_aux True) [ex_read] ex_sink = Some (1, ms, aux', b) \<and> map i2c_buf ms = [[0, 1, 2]]"
proof -
  have rd: "i2c_reader (aux_transfer (sink_aux True)) sink_stream"
    using sink_i2c.i2c_reader_axioms by (simp add: sink_aux_def)
  have "map_option fst (drm_dp_i2c_xfer 10 16 (sink_aux True) [ex_read] ex_sink) = Some 1" by code_simp
  with i2c_xfer_reads_stream [OF rd, of ex_read 10 16 ex_sink] show ?thesis
    by (auto simp: ex_read_def ex_sink_def I2C_M_RD_def upt_conv_Cons)
qed

end
