(* ===== verification/MST_Transport.thy ===== *)
theory MST_Transport
  imports MST_Replies DP_Aux
begin

text \<open>
  The transport of sideband messages in the DisplayPort MST topology manager
  (\<open>drm_dp_mst_topology.c\<close>): cutting a message into chunks and writing them to the sink, and reading and
  reassembling received chunks. The result of the theory is that the two fit together.

  The DPCD registers of the sink are reached over the AUX channel of the manager. Where the C code would
  write outside a buffer, or would not return, a function of this theory returns \<open>None\<close>.
\<close>

unbundle bit_operations_syntax

section \<open>State\<close>

definition DP_SIDEBAND_MSG_DOWN_REQ_BASE :: nat where "DP_SIDEBAND_MSG_DOWN_REQ_BASE = 0x1000"
definition DP_SIDEBAND_MSG_UP_REP_BASE :: nat where "DP_SIDEBAND_MSG_UP_REP_BASE = 0x1200"
definition DP_SIDEBAND_MSG_DOWN_REP_BASE :: nat where "DP_SIDEBAND_MSG_DOWN_REP_BASE = 0x1400"
definition DP_SIDEBAND_MSG_UP_REQ_BASE :: nat where "DP_SIDEBAND_MSG_UP_REQ_BASE = 0x1600"

definition zero_hdr :: drm_dp_sideband_msg_hdr where
  "zero_hdr = \<lparr>lct = 0, lcr = 0, rad = replicate 8 0, broadcast = False, path_msg = False, msg_len = 0,
     somt = False, eomt = False, seqno = False\<rparr>"

record drm_dp_sideband_msg_rx =
  rx_chunk :: "u8 list"
  rx_msg :: "u8 list"
  curchunk_len :: u8
  curchunk_idx :: u8
  curchunk_hdrlen :: u8
  curlen :: u8
  have_somt :: bool
  have_eomt :: bool
  initial_hdr :: drm_dp_sideband_msg_hdr

definition reset_msg_rx_state :: drm_dp_sideband_msg_rx where
  "reset_msg_rx_state = \<lparr>rx_chunk = replicate 48 0, rx_msg = replicate 256 0, curchunk_len = 0, curchunk_idx = 0,
     curchunk_hdrlen = 0, curlen = 0, have_somt = False, have_eomt = False, initial_hdr = zero_hdr\<rparr>"

section \<open>Sending\<close>

text \<open>
  \<open>drm_dp_send_sideband_msg\<close>: the writes of at most 16 bytes, started again from the beginning on \<open>-EIO\<close>, at
  most five times.
\<close>

primrec send_loop ::
    "nat \<Rightarrow> 'a drm_dp_aux \<Rightarrow> nat \<Rightarrow> nat \<Rightarrow> u8 list \<Rightarrow> nat \<Rightarrow> nat \<Rightarrow> 'a \<Rightarrow> (int \<times> 'a) option" where
  "send_loop 0 aux maxb regbase msg offset retries a = None"
| "send_loop (Suc fuel) aux maxb regbase msg offset retries a =
     (let total = length msg - offset;
          tosend = min (min maxb 16) total
      in case drm_dp_dpcd_write_data aux (regbase + offset) (take tosend (drop offset msg)) a of
           (ret, a) \<Rightarrow>
             if ret = neg_errno EIO \<and> retries < 5 then send_loop fuel aux maxb regbase msg 0 (retries + 1) a
             else if ret < 0 then Some (neg_errno EIO, a)
             else if total - tosend > 0 then send_loop fuel aux maxb regbase msg (offset + tosend) retries a
             else Some (0, a))"

definition drm_dp_send_sideband_msg :: "'a drm_dp_aux \<Rightarrow> nat \<Rightarrow> bool \<Rightarrow> u8 list \<Rightarrow> 'a \<Rightarrow> (int \<times> 'a) option" where
  "drm_dp_send_sideband_msg aux maxb up msg a =
     (let regbase = (if up then DP_SIDEBAND_MSG_UP_REP_BASE else DP_SIDEBAND_MSG_DOWN_REQ_BASE)
      in send_loop (6 * Suc (length msg)) aux maxb regbase msg 0 0 a)"

definition drm_dp_crc_sideband_chunk_req :: "u8 list \<Rightarrow> u8 list" where
  "drm_dp_crc_sideband_chunk_req body = body @ [drm_dp_msg_data_crc4 body (of_nat (length body))]"

definition set_hdr_from_dst_qlock :: "drm_dp_sideband_msg_tx \<Rightarrow> drm_dp_sideband_msg_hdr" where
  "set_hdr_from_dst_qlock txmsg =
     (let t = tx_msg txmsg ! 0 AND 0x7f;
          bc = (t = DP_CONNECTION_STATUS_NOTIFY \<or> t = DP_RESOURCE_STATUS_NOTIFY \<or> t = DP_CLEAR_PAYLOAD_ID_TABLE);
          l = (if bc then 1 else branch_lct (dst txmsg));
          n = unat l div 2
      in zero_hdr\<lparr>broadcast := bc, path_msg := tx_path_msg txmsg, lct := l,
                  lcr := (if bc then 6 else branch_lct (dst txmsg) - 1),
                  rad := take n (branch_rad (dst txmsg)) @ replicate (8 - n) 0\<rparr>)"

text \<open>The chunk that the next call sends: header, part of the body, body CRC; with the number of body bytes.\<close>

definition tx_chunk :: "drm_dp_sideband_msg_tx \<Rightarrow> u8 list \<times> nat" where
  "tx_chunk txmsg =
     (let hdr = set_hdr_from_dst_qlock txmsg;
          len = unat (cur_len txmsg) - unat (cur_offset txmsg);
          space = 48 - 1 - unat (drm_dp_calc_sb_hdr_size hdr);
          tosend = min len space;
          hdr = hdr\<lparr>somt := (len = unat (cur_len txmsg)), eomt := (space \<ge> len), msg_len := of_nat (tosend + 1)\<rparr>
      in (drm_dp_encode_sideband_msg_hdr hdr
            @ drm_dp_crc_sideband_chunk_req (take tosend (drop (unat (cur_offset txmsg)) (tx_msg txmsg))), tosend))"

definition process_single_tx_qlock ::
    "'a drm_dp_aux \<Rightarrow> nat \<Rightarrow> drm_dp_sideband_msg_tx \<Rightarrow> bool \<Rightarrow> 'a \<Rightarrow> (int \<times> drm_dp_sideband_msg_tx \<times> 'a) option" where
  "process_single_tx_qlock aux maxb txmsg up a =
     (if tx_state txmsg = DRM_DP_SIDEBAND_TX_SENT then Some (0, txmsg, a)
      else
        let txmsg = (if tx_state txmsg = DRM_DP_SIDEBAND_TX_QUEUED
                     then txmsg\<lparr>tx_state := DRM_DP_SIDEBAND_TX_START_SEND\<rparr> else txmsg);
            (chunk, tosend) = tx_chunk txmsg
        in case drm_dp_send_sideband_msg aux maxb up chunk a of
             None \<Rightarrow> None
           | Some (ret, a) \<Rightarrow>
               if ret \<noteq> 0 then Some (ret, txmsg, a)
               else
                 let txmsg = txmsg\<lparr>cur_offset := cur_offset txmsg + of_nat tosend\<rparr>
                 in if cur_offset txmsg = cur_len txmsg
                    then Some (1, txmsg\<lparr>tx_state := DRM_DP_SIDEBAND_TX_SENT\<rparr>, a)
                    else Some (0, txmsg, a))"

section \<open>Receiving\<close>

definition drm_dp_sideband_msg_set_header ::
    "drm_dp_sideband_msg_rx \<Rightarrow> drm_dp_sideband_msg_hdr \<Rightarrow> u8 \<Rightarrow> bool \<times> drm_dp_sideband_msg_rx" where
  "drm_dp_sideband_msg_set_header msg hdr hdrlen =
     (if \<not> somt hdr \<and> \<not> have_somt msg then (False, msg)
      else
        let msg = msg\<lparr>curchunk_idx := 0, curchunk_len := msg_len hdr, curchunk_hdrlen := hdrlen\<rparr>
        in if somt hdr \<and> have_somt msg then (False, msg)
           else
             let msg = (if somt hdr then msg\<lparr>initial_hdr := hdr, have_somt := True\<rparr> else msg);
                 msg = (if eomt hdr then msg\<lparr>have_eomt := True\<rparr> else msg)
             in (True, msg))"

text \<open>
  A mismatch of the CRC is only logged. \<open>None\<close>: one of the copies leaves the 48 byte chunk or the 256 byte
  message.
\<close>

definition put_bytes :: "u8 list \<Rightarrow> nat \<Rightarrow> u8 list \<Rightarrow> u8 list option" where
  "put_bytes buf i bs = (if i + length bs \<le> length buf then Some (take i buf @ bs @ drop (i + length bs) buf) else None)"

definition drm_dp_sideband_append_payload :: "drm_dp_sideband_msg_rx \<Rightarrow> u8 list \<Rightarrow> (bool \<times> drm_dp_sideband_msg_rx) option" where
  "drm_dp_sideband_append_payload msg replybuf = do {
     chunk \<leftarrow> put_bytes (rx_chunk msg) (unat (curchunk_idx msg)) replybuf;
     let msg = msg\<lparr>rx_chunk := chunk, curchunk_idx := curchunk_idx msg + of_nat (length replybuf)\<rparr>;
     if curchunk_idx msg \<ge> curchunk_len msg
     then if curchunk_len msg = 0 \<or> unat (curchunk_len msg) > length chunk then None
       else do {
         m \<leftarrow> put_bytes (rx_msg msg) (unat (curlen msg)) (take (unat (curchunk_len msg) - 1) chunk);
         Some (True, msg\<lparr>rx_msg := m, curlen := curlen msg + (curchunk_len msg - 1)\<rparr>)
       }
     else Some (True, msg)
   }"

primrec read_rest ::
    "nat \<Rightarrow> 'a drm_dp_aux \<Rightarrow> nat \<Rightarrow> nat \<Rightarrow> nat \<Rightarrow> nat \<Rightarrow> drm_dp_sideband_msg_rx \<Rightarrow> 'a \<Rightarrow>
     (bool \<times> drm_dp_sideband_msg_rx \<times> 'a) option" where
  "read_rest 0 aux maxb basereg curreply replylen msg a = None"
| "read_rest (Suc fuel) aux maxb basereg curreply replylen msg a =
     (if replylen = 0 then Some (True, msg, a)
      else
        let len = min (min replylen maxb) 16
        in case drm_dp_dpcd_read_data aux (basereg + curreply) len a of
             (ret, block, a) \<Rightarrow>
               if ret < 0 then Some (False, msg, a)
               else
                 (case drm_dp_sideband_append_payload msg (take len block) of
                    None \<Rightarrow> None
                  | Some (ok, msg) \<Rightarrow>
                      if \<not> ok then Some (False, msg, a)
                      else read_rest fuel aux maxb basereg (curreply + len) (replylen - len) msg a))"

text \<open>
  \<open>drm_dp_get_one_sb_msg\<close> on the receive state \<open>msg\<close>. The sender is looked up in the topology \<open>primary\<close>, for down
  replies only. The local header starts zeroed here; the C code leaves it uninitialised, which is
  visible only in the unused bytes of the address.
\<close>

definition get_one_sb_msg ::
    "'a drm_dp_aux \<Rightarrow> nat \<Rightarrow> bool \<Rightarrow> mst_branch option \<Rightarrow> drm_dp_sideband_msg_rx \<Rightarrow> 'a \<Rightarrow>
     (bool \<times> mst_branch option \<times> drm_dp_sideband_msg_rx \<times> 'a) option" where
  "get_one_sb_msg aux maxb up primary msg a =
     (let basereg = (if up then DP_SIDEBAND_MSG_UP_REQ_BASE else DP_SIDEBAND_MSG_DOWN_REP_BASE);
          len = min maxb 16
      in case drm_dp_dpcd_read_data aux basereg len a of
           (ret, block, a) \<Rightarrow>
             if ret < 0 then Some (False, None, msg, a)
             else
               case drm_dp_decode_sideband_msg_hdr zero_hdr block len 0 of
                 (False, _) \<Rightarrow> Some (False, None, msg, a)
               | (True, hdr, hdrlen) \<Rightarrow>
                   let mstb = (if up then None else drm_dp_get_mst_branch_device primary (lct hdr) (rad hdr))
                   in if \<not> up \<and> mstb = None then Some (False, None, msg, a)
                      else
                        case drm_dp_sideband_msg_set_header msg hdr hdrlen of
                          (False, msg) \<Rightarrow> Some (False, mstb, msg, a)
                        | (True, msg) \<Rightarrow>
                            let replylen = min (unat (curchunk_len msg)) (len - unat hdrlen)
                            in case drm_dp_sideband_append_payload msg (take replylen (drop (unat hdrlen) block)) of
                                 None \<Rightarrow> None
                               | Some (False, msg) \<Rightarrow> Some (False, mstb, msg, a)
                               | Some (True, msg) \<Rightarrow>
                                   let replylen = unat (curchunk_len msg) + unat (curchunk_hdrlen msg) - len
                                   in map_option (\<lambda>(ok, msg, a). (ok, mstb, msg, a))
                                        (read_rest (Suc replylen) aux maxb basereg len replylen msg a))"

section \<open>Sending writes the whole message\<close>

context dpcd_regs
begin

lemma send_loop_holds:
  assumes "send_loop fuel aux maxb base msg off retries a = Some (0, a')" and "0 < maxb" and "off \<le> length msg"
    and "holds a base (take off msg)"
  shows "holds a' base msg"
  using assms
proof (induction fuel arbitrary: off retries a)
  case (Suc fuel)
  define n where "n = min (min maxb 16) (length msg - off)"
  obtain ret b where w: "drm_dp_dpcd_write_data aux (base + off) (take n (drop off msg)) a = (ret, b)"
    by (meson surj_pair)
  note run = Suc.prems(1) [unfolded send_loop.simps Let_def, folded n_def, unfolded w prod.case]
  have zero: "holds c base []" for c by (simp add: holds_def)
  show ?case
  proof (cases "ret < 0")
    case True
    then show ?thesis using run Suc.IH [of 0 "retries + 1" b] Suc.prems(2) zero by (auto simp: neg_errno_def split: if_splits)
  next
    case False
    have n: "n \<le> length msg - off" by (simp add: n_def)
    have pre: "holds b base (take (off + n) msg)"
      unfolding holds_def
    proof (intro allI impI)
      fix i assume i: "i < length (take (off + n) msg)"
      show "regs b (base + i) = take (off + n) msg ! i"
      proof (cases "i < off")
        case True
        then show ?thesis using write_frame [OF w, of "base + i"] Suc.prems(3,4) i by (simp add: holds_def)
      next
        case False
        then have "i - off < length (take n (drop off msg))" using i n by auto
        from write_ok [OF w _ this] False \<open>\<not> ret < 0\<close> i n Suc.prems(3) show ?thesis
          by (simp add: add.assoc)
      qed
    qed
    have eio: "ret \<noteq> neg_errno EIO" using False neg_errno_neg [of EIO] by linarith
    show ?thesis
    proof (cases "length msg - off - n > 0")
      case True
      then show ?thesis using run False eio Suc.IH [of "off + n" retries b] Suc.prems(2) pre n by auto
    next
      case f: False
      then have "a' = b" "take (off + n) msg = msg" using run False eio by auto
      then show ?thesis using pre by simp
    qed
  qed
qed simp

lemma send_sideband_holds:
  assumes "drm_dp_send_sideband_msg aux maxb up msg a = Some (0, a')" and "0 < maxb"
  shows "holds a' (if up then DP_SIDEBAND_MSG_UP_REP_BASE else DP_SIDEBAND_MSG_DOWN_REQ_BASE) msg"
  using send_loop_holds [of _ maxb _ msg 0 0 a a'] assms by (simp add: drm_dp_send_sideband_msg_def Let_def holds_def)

end

text \<open>Sending returns whatever the AUX channel does: the fuel covers six passes over the message.\<close>

lemma send_loop_returns:
  assumes "0 < maxb" and "off \<le> length msg" and "retries \<le> 5"
    and "(5 - retries) * Suc (length msg) + Suc (length msg - off) \<le> fuel"
  shows "\<exists>ret a'. send_loop fuel aux maxb base msg off retries a = Some (ret, a')"
  using assms
proof (induction fuel arbitrary: off retries a)
  case (Suc fuel)
  define n where "n = min (min maxb 16) (length msg - off)"
  obtain ret b where w: "drm_dp_dpcd_write_data aux (base + off) (take n (drop off msg)) a = (ret, b)"
    by (meson surj_pair)
  have retry: "\<exists>ret a'. send_loop fuel aux maxb base msg 0 (retries + 1) b = Some (ret, a')" if r5: "retries < 5"
  proof (rule Suc.IH)
    obtain d where d: "5 - retries = Suc d" using r5 by (cases "5 - retries") auto
    then have "5 - (retries + 1) = d" by simp
    then show "(5 - (retries + 1)) * Suc (length msg) + Suc (length msg - 0) \<le> fuel"
      using Suc.prems(4) d by simp
  qed (use that Suc.prems in auto)
  have more: "\<exists>ret a'. send_loop fuel aux maxb base msg (off + n) retries b = Some (ret, a')" if "length msg - off - n > 0"
    using that Suc.prems by (intro Suc.IH) (auto simp: n_def)
  show ?case
    unfolding send_loop.simps Let_def n_def [symmetric] w prod.case using retry more by auto
qed simp

lemma send_sideband_returns: "0 < maxb \<Longrightarrow> \<exists>ret a'. drm_dp_send_sideband_msg aux maxb up msg a = Some (ret, a')"
  unfolding drm_dp_send_sideband_msg_def Let_def by (rule send_loop_returns) simp_all

section \<open>Receiving one chunk\<close>

text \<open>\<open>collects rx p k\<close>: the first \<open>k\<close> bytes of the payload \<open>p\<close> of the current chunk have been copied.\<close>

definition collects :: "drm_dp_sideband_msg_rx \<Rightarrow> u8 list \<Rightarrow> nat \<Rightarrow> bool" where
  "collects rx p k \<longleftrightarrow> length (rx_chunk rx) = 48 \<and> take k (rx_chunk rx) = take k p \<and> unat (curchunk_idx rx) = k \<and>
     unat (curchunk_len rx) = length p \<and> 0 < length p \<and> length p \<le> 48 \<and> length (rx_msg rx) = 256 \<and>
     unat (curlen rx) + length p \<le> 256"

text \<open>The receive state after the chunk: the body, without the CRC byte, is appended to the message.\<close>

definition appended :: "drm_dp_sideband_msg_rx \<Rightarrow> u8 list \<Rightarrow> drm_dp_sideband_msg_rx \<Rightarrow> bool" where
  "appended rx body rx' \<longleftrightarrow>
     length (rx_chunk rx') = 48 \<and>
     rx_msg rx' = take (unat (curlen rx)) (rx_msg rx) @ body @ drop (unat (curlen rx) + length body) (rx_msg rx) \<and>
     unat (curlen rx') = unat (curlen rx) + length body \<and>
     have_somt rx' = have_somt rx \<and> have_eomt rx' = have_eomt rx \<and> initial_hdr rx' = initial_hdr rx"

definition same_msg :: "drm_dp_sideband_msg_rx \<Rightarrow> drm_dp_sideband_msg_rx \<Rightarrow> bool" where
  "same_msg rx rx' \<longleftrightarrow> rx_msg rx' = rx_msg rx \<and> curlen rx' = curlen rx \<and> have_somt rx' = have_somt rx \<and>
     have_eomt rx' = have_eomt rx \<and> initial_hdr rx' = initial_hdr rx"

lemma appended_same: "same_msg rx rx1 \<Longrightarrow> appended rx1 body rx' \<Longrightarrow> appended rx body rx'"
  by (simp add: same_msg_def appended_def)

lemma put_bytes_fits:
  "i + length bs \<le> length buf \<Longrightarrow> put_bytes buf i bs = Some (take i buf @ bs @ drop (i + length bs) buf)"
  by (simp add: put_bytes_def)

lemma collects_put:
  assumes c: "collects rx p k" and kj: "k + j \<le> length p"
  defines "piece \<equiv> take j (drop k p)"
  obtains ch where "put_bytes (rx_chunk rx) (unat (curchunk_idx rx)) piece = Some ch" "length ch = 48"
    "take (k + j) ch = take (k + j) p" "unat (curchunk_idx rx + of_nat (length piece)) = k + j"
proof
  have f: "length (rx_chunk rx) = 48" "take k (rx_chunk rx) = take k p" "unat (curchunk_idx rx) = k" "length p \<le> 48"
    using c by (simp_all add: collects_def)
  have lp: "length piece = j" using kj by (simp add: piece_def)
  let ?ch = "take k (rx_chunk rx) @ piece @ drop (k + j) (rx_chunk rx)"
  show "put_bytes (rx_chunk rx) (unat (curchunk_idx rx)) piece = Some ?ch" using f kj lp by (simp add: put_bytes_fits)
  show "length ?ch = 48" using f kj lp by simp
  show "take (k + j) ?ch = take (k + j) p" using f(1,2) kj lp by (simp add: piece_def take_add)
  show "unat (curchunk_idx rx + of_nat (length piece)) = k + j" using f kj lp by (simp add: unat_word_ariths unat_of_nat)
qed

lemma append_piece_more:
  assumes c: "collects rx p k" and kj: "k + j < length p"
  shows "\<exists>rx'. drm_dp_sideband_append_payload rx (take j (drop k p)) = Some (True, rx') \<and>
    curchunk_len rx' = curchunk_len rx \<and> curchunk_hdrlen rx' = curchunk_hdrlen rx \<and> same_msg rx rx' \<and> collects rx' p (k + j)"
proof -
  obtain ch where ch: "put_bytes (rx_chunk rx) (unat (curchunk_idx rx)) (take j (drop k p)) = Some ch" "length ch = 48"
    "take (k + j) ch = take (k + j) p" "unat (curchunk_idx rx + of_nat (length (take j (drop k p)))) = k + j"
    using collects_put [OF c less_imp_le [OF kj]] .
  let ?rx1 = "rx\<lparr>rx_chunk := ch, curchunk_idx := curchunk_idx rx + of_nat (length (take j (drop k p)))\<rparr>"
  have "\<not> curchunk_idx ?rx1 \<ge> curchunk_len ?rx1" using ch(4) c kj by (simp add: word_le_nat_alt collects_def)
  then have "drm_dp_sideband_append_payload rx (take j (drop k p)) = Some (True, ?rx1)"
    unfolding drm_dp_sideband_append_payload_def ch(1) Option.bind.simps Let_def by simp
  moreover have "collects ?rx1 p (k + j)" using c ch(2-) by (simp add: collects_def)
  ultimately show ?thesis by (intro exI [of _ ?rx1]) (simp add: same_msg_def)
qed

lemma append_piece_last:
  assumes c: "collects rx p k" and kj: "k + j = length p"
  shows "\<exists>rx'. drm_dp_sideband_append_payload rx (take j (drop k p)) = Some (True, rx') \<and>
    curchunk_len rx' = curchunk_len rx \<and> curchunk_hdrlen rx' = curchunk_hdrlen rx \<and> appended rx (butlast p) rx'"
proof -
  have f: "unat (curchunk_len rx) = length p" "0 < length p" "length p \<le> 48" "length (rx_msg rx) = 256"
    "unat (curlen rx) + length p \<le> 256"
    using c by (simp_all add: collects_def)
  obtain ch where ch: "put_bytes (rx_chunk rx) (unat (curchunk_idx rx)) (take j (drop k p)) = Some ch" "length ch = 48"
    "take (k + j) ch = take (k + j) p" "unat (curchunk_idx rx + of_nat (length (take j (drop k p)))) = k + j"
    using collects_put [OF c eq_refl [OF kj]] .
  have body: "take (unat (curchunk_len rx) - 1) ch = butlast p"
    using arg_cong [OF ch(3), of "take (length p - 1)"] kj f(1) by (simp add: butlast_conv_take)
  have nz: "curchunk_len rx \<noteq> 0" using f(1,2) by auto
  have cur: "unat (curlen rx + (curchunk_len rx - 1)) = unat (curlen rx) + (length p - 1)"
  proof -
    have "unat (curlen rx) + (length p - 1) < 256" using f(2,5) by linarith
    then show ?thesis using nz f(1) by (simp add: unat_word_ariths unat_minus_one)
  qed
  have put: "put_bytes (rx_msg rx) (unat (curlen rx)) (butlast p) =
      Some (take (unat (curlen rx)) (rx_msg rx) @ butlast p @ drop (unat (curlen rx) + length (butlast p)) (rx_msg rx))"
    using f(4,5) by (intro put_bytes_fits) simp
  let ?rx1 = "rx\<lparr>rx_chunk := ch, curchunk_idx := curchunk_idx rx + of_nat (length (take j (drop k p)))\<rparr>"
  let ?rx2 = "?rx1\<lparr>rx_msg := take (unat (curlen rx)) (rx_msg rx) @ butlast p @ drop (unat (curlen rx) + length (butlast p)) (rx_msg rx),
     curlen := curlen rx + (curchunk_len rx - 1)\<rparr>"
  have "curchunk_idx ?rx1 \<ge> curchunk_len ?rx1" using ch(4) f(1) kj by (simp add: word_le_nat_alt)
  then have "drm_dp_sideband_append_payload rx (take j (drop k p)) = Some (True, ?rx2)"
    unfolding drm_dp_sideband_append_payload_def ch(1) Option.bind.simps Let_def
    using nz f(1,3) ch(2) body put by simp
  moreover have "appended rx (butlast p) ?rx2" using cur ch(2) by (simp add: appended_def)
  ultimately show ?thesis by (intro exI [of _ ?rx2]) simp
qed


text \<open>In the states \<open>responsive\<close> the sink answers every read.\<close>

locale responsive_regs = dpcd_regs aux regs for aux :: "'a drm_dp_aux" and regs +
  fixes responsive :: "'a \<Rightarrow> bool"
  assumes read_succeeds: "responsive a \<Longrightarrow> drm_dp_dpcd_read_data aux off n a = (ret, bs, a') \<Longrightarrow> 0 \<le> ret \<and> responsive a'"
begin

lemma read_regs:
  assumes "responsive a"
  obtains ret a' where "drm_dp_dpcd_read_data aux off n a = (ret, map (regs a) [off..<off + n], a')" "0 \<le> ret" "regs a' = regs a"
    "responsive a'"
proof -
  obtain ret bs a' where r: "drm_dp_dpcd_read_data aux off n a = (ret, bs, a')" by (metis prod_cases3)
  then show thesis using that read_succeeds [OF assms r] read_ok [OF r] read_frame [OF r] by simp
qed

lemma read_rest_collects:
  assumes "collects rx p k" and "k < length p" and "0 < maxb" and "length p - k \<le> fuel" and "responsive a"
    and "\<And>i. k + i < length p \<Longrightarrow> regs a (base + cur + i) = p ! (k + i)"
  shows "\<exists>rx' a'. read_rest (Suc fuel) aux maxb base cur (length p - k) rx a = Some (True, rx', a') \<and>
    appended rx (butlast p) rx' \<and> curchunk_len rx' = curchunk_len rx \<and> regs a' = regs a"
  using assms
proof (induction fuel arbitrary: rx k cur a)
  case (Suc fuel)
  define j where "j = min (min (length p - k) maxb) 16"
  have j: "0 < j" "k + j \<le> length p" using Suc.prems by (auto simp: j_def)
  obtain ret b where r: "drm_dp_dpcd_read_data aux (base + cur) j a = (ret, map (regs a) [base + cur..<base + cur + j], b)"
    "0 \<le> ret" "regs b = regs a" "responsive b" by (rule read_regs [OF Suc.prems(5)])
  have piece: "take j (map (regs a) [base + cur..<base + cur + j]) = take j (drop k p)"
    using j Suc.prems(6) by (intro nth_equalityI) auto
  have step: "read_rest (Suc (Suc fuel)) aux maxb base cur (length p - k) rx a =
      read_rest (Suc fuel) aux maxb base (cur + j) (length p - (k + j)) rx1 b"
    if "drm_dp_sideband_append_payload rx (take j (drop k p)) = Some (True, rx1)" for rx1
    unfolding read_rest.simps(2) [of "Suc fuel"] Let_def j_def [symmetric] r(1) prod.case piece that option.case
    using Suc.prems(2) r(2) by simp
  show ?case
  proof (cases "k + j = length p")
    case True
    from append_piece_last [OF Suc.prems(1) True] obtain rx1 where
      rx1: "drm_dp_sideband_append_payload rx (take j (drop k p)) = Some (True, rx1)"
        "curchunk_len rx1 = curchunk_len rx" "appended rx (butlast p) rx1" by blast
    show ?thesis unfolding step [OF rx1(1)] using True rx1(2,3) r(3) by simp
  next
    case False
    then obtain rx1 where rx1: "drm_dp_sideband_append_payload rx (take j (drop k p)) = Some (True, rx1)"
      "curchunk_len rx1 = curchunk_len rx" "same_msg rx rx1" "collects rx1 p (k + j)"
      using append_piece_more [OF Suc.prems(1), of j] j(2) by auto
    have "\<exists>rx' a'. read_rest (Suc fuel) aux maxb base (cur + j) (length p - (k + j)) rx1 b = Some (True, rx', a') \<and>
        appended rx1 (butlast p) rx' \<and> curchunk_len rx' = curchunk_len rx1 \<and> regs a' = regs b"
      using False rx1(4) j Suc.prems(3,4) r(3,4) Suc.prems(6) [of "j + i" for i]
      by (intro Suc.IH) (auto simp: add.assoc)
    then show ?thesis unfolding step [OF rx1(1)] using appended_same [OF rx1(3)] rx1(2) r(3) by auto
  qed
qed simp

end

text \<open>The effect of a header on the receive state.\<close>

definition rx_header :: "drm_dp_sideband_msg_rx \<Rightarrow> drm_dp_sideband_msg_hdr \<Rightarrow> drm_dp_sideband_msg_rx" where
  "rx_header rx hdr = rx\<lparr>curchunk_idx := 0, curchunk_len := msg_len hdr, curchunk_hdrlen := drm_dp_calc_sb_hdr_size hdr,
     have_somt := True, have_eomt := (have_eomt rx \<or> eomt hdr), initial_hdr := (if somt hdr then hdr else initial_hdr rx)\<rparr>"

lemma set_header_in_order:
  assumes "somt hdr = (\<not> have_somt rx)"
  shows "drm_dp_sideband_msg_set_header rx hdr (drm_dp_calc_sb_hdr_size hdr) = (True, rx_header rx hdr)"
  using assms by (auto simp: drm_dp_sideband_msg_set_header_def rx_header_def Let_def)

context responsive_regs
begin

lemma get_one_chunk:
  assumes wf: "hdr_wf hdr" and rad0: "drop (unat (lct hdr div 2)) (rad hdr) = replicate (8 - unat (lct hdr div 2)) 0"
    and p: "length p = unat (msg_len hdr)" "length p \<le> 48"
    and regs: "holds a (if up then DP_SIDEBAND_MSG_UP_REQ_BASE else DP_SIDEBAND_MSG_DOWN_REP_BASE) (drm_dp_encode_sideband_msg_hdr hdr @ p)" and maxb: "10 \<le> maxb"
    and rx: "length (rx_chunk rx) = 48" "length (rx_msg rx) = 256" "unat (curlen rx) + length p \<le> 256"
    and order: "somt hdr = (\<not> have_somt rx)" and ready: "responsive a"
    and sender: "up \<or> drm_dp_get_mst_branch_device primary (lct hdr) (rad hdr) \<noteq> None"
  defines "mstb \<equiv> if up then None else drm_dp_get_mst_branch_device primary (lct hdr) (rad hdr)"
  shows "\<exists>rx' a'. get_one_sb_msg aux maxb up primary rx a = Some (True, mstb, rx', a') \<and>
    appended (rx_header rx hdr) (butlast p) rx' \<and> regs a' = regs a"
proof -
  let ?base = "if up then DP_SIDEBAND_MSG_UP_REQ_BASE else DP_SIDEBAND_MSG_DOWN_REP_BASE" and ?enc = "drm_dp_encode_sideband_msg_hdr hdr"
  let ?hl = "3 + unat (lct hdr div 2)" and ?len = "min maxb 16"
  have n: "unat (lct hdr div 2) \<le> 7" using wf by (auto simp: hdr_wf_def unat_div word_less_nat_alt)
  have hl: "unat (drm_dp_calc_sb_hdr_size hdr) = ?hl" using n by (simp add: drm_dp_calc_sb_hdr_size_def unat_word_ariths)
  have lp: "0 < length p" using wf p by (auto simp: hdr_wf_def word_less_nat_alt)
  obtain ret b where r: "drm_dp_dpcd_read_data aux ?base ?len a = (ret, map (regs a) [?base..<?base + ?len], b)"
    "0 \<le> ret" "regs b = regs a" "responsive b" by (rule read_regs [OF ready])
  define block where "block = map (regs a) [?base..<?base + ?len]"
  have le: "?hl \<le> ?len" using n maxb by simp
  have "take ?hl block = ?enc"
    using regs le by (intro nth_equalityI) (auto simp: block_def holds_def nth_append)
  then have block: "block = ?enc @ drop ?hl block" by (metis append_take_drop_id)
  have hdr: "hdr\<lparr>rad := take (unat (lct hdr div 2)) (rad hdr) @ drop (unat (lct hdr div 2)) (rad zero_hdr)\<rparr> = hdr"
    using rad0 by (simp add: zero_hdr_def flip: rad0)
  have dec: "drm_dp_decode_sideband_msg_hdr zero_hdr block ?len 0 = (True, hdr, drm_dp_calc_sb_hdr_size hdr)"
    using decode_encode_hdr [OF wf, of ?len zero_hdr "drop ?hl block" 0] le hdr block by simp
  let ?rx = "rx_header rx hdr"
  have col: "collects ?rx p 0"
    using rx p lp by (simp add: collects_def rx_header_def)
  define j where "j = min (length p) (?len - ?hl)"
  have first: "take j (drop ?hl block) = take j (drop 0 p)"
  proof (rule nth_equalityI)
    fix i assume "i < length (take j (drop ?hl block))"
    then have i: "i < j" by simp
    then have "regs a (?base + (?hl + i)) = (?enc @ p) ! (?hl + i)"
      using regs by (auto simp: holds_def j_def)
    moreover have "?hl \<le> length block" using le by (simp add: block_def)
    moreover have lt: "?hl + i < ?len"
    proof -
      have "i < ?len - ?hl" using i unfolding j_def by linarith
      then show ?thesis by linarith
    qed
    moreover have "block ! (?hl + i) = regs a (?base + (?hl + i))" using lt by (simp add: block_def)
    ultimately show "take j (drop ?hl block) ! i = take j (drop 0 p) ! i"
      using i by (simp add: nth_append)
  qed (simp add: block_def j_def)
  have cl: "curchunk_len ?rx = msg_len hdr" by (simp add: rx_header_def)
  have j_min: "min (unat (msg_len hdr)) (?len - ?hl) = j" using p(1) by (simp add: j_def)
  have run: "get_one_sb_msg aux maxb up primary rx a =
      map_option (\<lambda>(ok, msg, a). (ok, mstb, msg, a)) (read_rest (Suc (length p - j)) aux maxb ?base ?len (length p - j) rx1 b)"
    if rx1: "drm_dp_sideband_append_payload ?rx (take j (drop 0 p)) = Some (True, rx1)"
      "curchunk_len rx1 = curchunk_len ?rx" "curchunk_hdrlen rx1 = curchunk_hdrlen ?rx" for rx1
  proof -
    have len1: "unat (curchunk_len rx1) + unat (curchunk_hdrlen rx1) - ?len = length p - j"
      using rx1(2,3) p hl le by (auto simp: rx_header_def j_def)
    show ?thesis
      unfolding get_one_sb_msg_def Let_def r(1) block_def [symmetric] prod.case dec bool.case
        set_header_in_order [OF order] hl cl j_min first rx1(1) option.case len1
      using r(2) sender by (auto simp: mstb_def simp del: read_rest.simps)
  qed
  show ?thesis
  proof (cases "j = length p")
    case True
    then have "0 + j = length p" by simp
    from append_piece_last [OF col this] obtain rx1 where
      rx1: "drm_dp_sideband_append_payload ?rx (take j (drop 0 p)) = Some (True, rx1)"
        "curchunk_len rx1 = curchunk_len ?rx" "curchunk_hdrlen rx1 = curchunk_hdrlen ?rx" "appended ?rx (butlast p) rx1" by blast
    show ?thesis unfolding run [OF rx1(1-3)] using True rx1(4) r(3) by simp
  next
    case False
    then have jl: "j = ?len - ?hl" "j < length p" by (auto simp: j_def)
    then obtain rx1 where rx1: "drm_dp_sideband_append_payload ?rx (take j (drop 0 p)) = Some (True, rx1)"
      "curchunk_len rx1 = curchunk_len ?rx" "curchunk_hdrlen rx1 = curchunk_hdrlen ?rx" "same_msg ?rx rx1" "collects rx1 p (0 + j)"
      using append_piece_more [OF col, of j] by auto
    have "\<exists>rx' a'. read_rest (Suc (length p - j)) aux maxb ?base ?len (length p - j) rx1 b = Some (True, rx', a') \<and>
        appended rx1 (butlast p) rx' \<and> curchunk_len rx' = curchunk_len rx1 \<and> regs a' = regs b"
    proof (rule read_rest_collects)
      fix i assume i: "j + i < length p"
      have "?hl + j = ?len" using jl le by linarith
      then have pos: "?base + ?len + i = ?base + (?hl + (j + i))" by linarith
      have "regs a (?base + (?hl + (j + i))) = (?enc @ p) ! (?hl + (j + i))" using regs i by (simp add: holds_def)
      then show "regs b (?base + ?len + i) = p ! (j + i)"
        unfolding pos r(3) by (simp add: nth_append)
    qed (use rx1(5) jl maxb r(4) in auto)
    then show ?thesis unfolding run [OF rx1(1-3)] using appended_same [OF rx1(4)] r(3) by force
  qed
qed

end

section \<open>Cutting a message into chunks and putting it together again\<close>

text \<open>A message that is being sent, with the address of its destination in range.\<close>

definition tx_wf :: "drm_dp_sideband_msg_tx \<Rightarrow> bool" where
  "tx_wf tx \<longleftrightarrow> length (tx_msg tx) = 256 \<and> 0 < branch_lct (dst tx) \<and> branch_lct (dst tx) < 16 \<and>
     length (branch_rad (dst tx)) = 8 \<and> cur_offset tx \<le> cur_len tx"

text \<open>The header and the body of the next chunk.\<close>

definition chunk_body :: "drm_dp_sideband_msg_tx \<Rightarrow> u8 list" where
  "chunk_body tx = take (snd (tx_chunk tx)) (drop (unat (cur_offset tx)) (tx_msg tx))"

definition chunk_hdr :: "drm_dp_sideband_msg_tx \<Rightarrow> drm_dp_sideband_msg_hdr" where
  "chunk_hdr tx = (set_hdr_from_dst_qlock tx)\<lparr>somt := (cur_offset tx = 0),
     eomt := (unat (cur_offset tx) + snd (tx_chunk tx) = unat (cur_len tx)), msg_len := of_nat (snd (tx_chunk tx) + 1)\<rparr>"

lemma set_hdr_wf:
  assumes "tx_wf tx"
  defines "h \<equiv> set_hdr_from_dst_qlock tx"
  shows "0 < lct h \<and> lct h < 16 \<and> lcr h < 16 \<and> length (rad h) = 8 \<and>
    drop (unat (lct h div 2)) (rad h) = replicate (8 - unat (lct h div 2)) 0 \<and> unat (drm_dp_calc_sb_hdr_size h) \<le> 10"
proof -
  have l: "0 < branch_lct (dst tx)" "branch_lct (dst tx) < 16" "length (branch_rad (dst tx)) = 8"
    using assms by (simp_all add: tx_wf_def)
  have "unat (branch_lct (dst tx)) < 16" "branch_lct (dst tx) \<noteq> 0" using l by (auto simp: word_less_nat_alt)
  then have "unat (branch_lct (dst tx)) < 16" "unat (branch_lct (dst tx) - 1) < 16"
    by (simp_all add: unat_minus_one)
  then show ?thesis
    using l by (auto simp: h_def set_hdr_from_dst_qlock_def Let_def zero_hdr_def drm_dp_calc_sb_hdr_size_def unat_div
      word_less_nat_alt unat_word_ariths min_def)
qed

lemma chunk_space:
  assumes "tx_wf tx"
  shows "snd (tx_chunk tx) \<le> unat (cur_len tx) - unat (cur_offset tx)" and "snd (tx_chunk tx) \<le> 47"
    and "cur_offset tx \<noteq> cur_len tx \<Longrightarrow> 0 < snd (tx_chunk tx)"
proof -
  have "unat (cur_offset tx) \<le> unat (cur_len tx)" using assms by (simp add: tx_wf_def word_le_nat_alt)
  then show "snd (tx_chunk tx) \<le> unat (cur_len tx) - unat (cur_offset tx)" and "snd (tx_chunk tx) \<le> 47"
    and "cur_offset tx \<noteq> cur_len tx \<Longrightarrow> 0 < snd (tx_chunk tx)"
    using set_hdr_wf [OF assms] by (auto simp: tx_chunk_def Let_def word_unat_eq_iff)
qed

lemma tx_chunk_eq:
  assumes "tx_wf tx"
  shows "fst (tx_chunk tx) = drm_dp_encode_sideband_msg_hdr (chunk_hdr tx) @ drm_dp_crc_sideband_chunk_req (chunk_body tx)"
proof -
  have le: "unat (cur_offset tx) \<le> unat (cur_len tx)" using assms by (simp add: tx_wf_def word_le_nat_alt)
  have "unat (cur_len tx) - unat (cur_offset tx) = unat (cur_len tx) \<longleftrightarrow> cur_offset tx = 0 \<or> cur_len tx = 0"
    using le by (auto simp: word_unat_eq_iff)
  then have somt: "(unat (cur_len tx) - unat (cur_offset tx) = unat (cur_len tx)) = (cur_offset tx = 0)"
    using assms by (auto simp: tx_wf_def)
  show ?thesis
    using le by (auto simp: chunk_hdr_def chunk_body_def tx_chunk_def Let_def somt min_def intro!: arg_cong [of _ _ drm_dp_encode_sideband_msg_hdr])
qed

lemma chunk_hdr_wf:
  assumes "tx_wf tx"
  shows "hdr_wf (chunk_hdr tx)" and "drop (unat (lct (chunk_hdr tx) div 2)) (rad (chunk_hdr tx)) = replicate (8 - unat (lct (chunk_hdr tx) div 2)) 0"
    and "length (drm_dp_crc_sideband_chunk_req (chunk_body tx)) = unat (msg_len (chunk_hdr tx))"
    and "length (drm_dp_crc_sideband_chunk_req (chunk_body tx)) \<le> 48"
proof -
  note sp = chunk_space [OF assms] and h = set_hdr_wf [OF assms]
  have len: "unat (msg_len (chunk_hdr tx)) = snd (tx_chunk tx) + 1"
    using sp(2) unat_of_nat_u8 [of "snd (tx_chunk tx) + 1"] by (simp add: chunk_hdr_def)
  show "hdr_wf (chunk_hdr tx)" "drop (unat (lct (chunk_hdr tx) div 2)) (rad (chunk_hdr tx)) = replicate (8 - unat (lct (chunk_hdr tx) div 2)) 0"
    using h len sp(2) by (auto simp: hdr_wf_def word_less_nat_alt) (simp_all add: chunk_hdr_def word_less_nat_alt)
  have "unat (cur_len tx) \<le> 256" using unat_u8_less [of "cur_len tx"] by simp
  then have "length (chunk_body tx) = snd (tx_chunk tx)" using sp(1) assms by (simp add: chunk_body_def tx_wf_def)
  then show "length (drm_dp_crc_sideband_chunk_req (chunk_body tx)) = unat (msg_len (chunk_hdr tx))"
    "length (drm_dp_crc_sideband_chunk_req (chunk_body tx)) \<le> 48"
    using len sp(2) by (simp_all add: drm_dp_crc_sideband_chunk_req_def)
qed

text \<open>The chunks that the calls of \<open>process_single_tx_qlock\<close> send, one after the other.\<close>

definition next_tx :: "drm_dp_sideband_msg_tx \<Rightarrow> drm_dp_sideband_msg_tx" where
  "next_tx tx = tx\<lparr>cur_offset := cur_offset tx + of_nat (snd (tx_chunk tx))\<rparr>"

lemma next_tx_offset:
  assumes "tx_wf tx"
  shows "unat (cur_offset (next_tx tx)) = unat (cur_offset tx) + snd (tx_chunk tx)" and "tx_wf (next_tx tx)"
proof -
  have "unat (cur_offset tx) \<le> unat (cur_len tx)" using assms by (simp add: tx_wf_def word_le_nat_alt)
  moreover have "unat (cur_len tx) < 256" using unat_u8_less [of "cur_len tx"] by simp
  ultimately show off: "unat (cur_offset (next_tx tx)) = unat (cur_offset tx) + snd (tx_chunk tx)"
    using chunk_space [OF assms] by (simp add: next_tx_def unat_word_ariths unat_of_nat)
  then show "tx_wf (next_tx tx)"
    using assms chunk_space(1) [OF assms] \<open>unat (cur_offset tx) \<le> _\<close> by (simp add: tx_wf_def word_le_nat_alt) (simp add: next_tx_def)
qed

function tx_chunks :: "drm_dp_sideband_msg_tx \<Rightarrow> u8 list list" where
  "tx_chunks tx = (if tx_wf tx \<and> cur_offset tx \<noteq> cur_len tx then fst (tx_chunk tx) # tx_chunks (next_tx tx) else [])"
  by pat_completeness auto
termination
proof (relation "measure (\<lambda>tx. unat (cur_len tx) - unat (cur_offset tx))")
  fix tx assume "tx_wf tx \<and> cur_offset tx \<noteq> cur_len tx"
  then show "(next_tx tx, tx) \<in> measure (\<lambda>tx. unat (cur_len tx) - unat (cur_offset tx))"
    using next_tx_offset(1) [of tx] chunk_space [of tx] by (auto simp: next_tx_def word_le_nat_alt)
qed simp

declare tx_chunks.simps [simp del]

text \<open>
  Receiving at the interrupts of a message: the states of the sink at each of them, in order. The chunk of
  the \<open>i\<close>-th interrupt is in the registers of the \<open>i\<close>-th state.
\<close>

primrec receive_all ::
    "'a drm_dp_aux \<Rightarrow> nat \<Rightarrow> bool \<Rightarrow> mst_branch option \<Rightarrow> drm_dp_sideband_msg_rx \<Rightarrow> 'a list \<Rightarrow> drm_dp_sideband_msg_rx option" where
  "receive_all aux maxb up primary rx [] = Some rx"
| "receive_all aux maxb up primary rx (a # as) =
     (case get_one_sb_msg aux maxb up primary rx a of
        Some (True, _, rx, _) \<Rightarrow> receive_all aux maxb up primary rx as
      | _ \<Rightarrow> None)"

definition recv_base :: "bool \<Rightarrow> nat" where
  "recv_base up = (if up then DP_SIDEBAND_MSG_UP_REQ_BASE else DP_SIDEBAND_MSG_DOWN_REP_BASE)"

text \<open>The receive state holds the part of the message that has been sent.\<close>

definition received :: "drm_dp_sideband_msg_tx \<Rightarrow> drm_dp_sideband_msg_rx \<Rightarrow> bool" where
  "received tx rx \<longleftrightarrow> length (rx_chunk rx) = 48 \<and> length (rx_msg rx) = 256 \<and> curlen rx = cur_offset tx \<and>
     take (unat (cur_offset tx)) (rx_msg rx) = take (unat (cur_offset tx)) (tx_msg tx) \<and>
     have_somt rx = (cur_offset tx \<noteq> 0) \<and> have_eomt rx = (cur_offset tx \<noteq> 0 \<and> cur_offset tx = cur_len tx)"

lemma received_next:
  assumes wf: "tx_wf tx" and r: "received tx rx" and more: "cur_offset tx \<noteq> cur_len tx"
    and ap: "appended (rx_header rx (chunk_hdr tx)) (chunk_body tx) rx'"
  shows "received (next_tx tx) rx'"
proof -
  let ?o = "unat (cur_offset tx)" and ?n = "snd (tx_chunk tx)"
  have o: "unat (cur_offset (next_tx tx)) = ?o + ?n" by (rule next_tx_offset(1) [OF wf])
  have le: "?o + ?n \<le> unat (cur_len tx)" "0 < ?n" "unat (cur_len tx) < 256"
    using chunk_space [OF wf] wf more unat_u8_less [of "cur_len tx"] by (auto simp: tx_wf_def word_le_nat_alt)
  have body: "chunk_body tx = take ?n (drop ?o (tx_msg tx))" "length (chunk_body tx) = ?n"
    using le wf by (auto simp: chunk_body_def tx_wf_def)
  have same: "tx_msg (next_tx tx) = tx_msg tx" "cur_len (next_tx tx) = cur_len tx" by (simp_all add: next_tx_def)
  have nz: "cur_offset (next_tx tx) \<noteq> 0" using o le(2) by (auto simp: word_unat_eq_iff)
  have eo: "(cur_offset (next_tx tx) = cur_len tx) = (?o + ?n = unat (cur_len tx))" using o by (simp add: word_unat_eq_iff)
  have "curlen rx' = cur_offset (next_tx tx)"
    using ap r o body(2) by (simp add: word_unat_eq_iff appended_def rx_header_def received_def)
  moreover have "take (?o + ?n) (rx_msg rx') = take (?o + ?n) (tx_msg tx)"
  proof -
    have "rx_msg rx' = take ?o (tx_msg tx) @ chunk_body tx @ drop (?o + ?n) (rx_msg rx)"
      using ap r body(2) by (simp add: appended_def rx_header_def received_def)
    moreover have "length (tx_msg tx) = 256" using wf by (simp add: tx_wf_def)
    ultimately show ?thesis using body le by (simp add: take_add)
  qed
  moreover have "length (rx_chunk rx') = 48 \<and> length (rx_msg rx') = 256" "have_somt rx'"
    "have_eomt rx' = (?o + ?n = unat (cur_len tx))"
    using ap r body(2) le more wf by (auto simp: appended_def rx_header_def received_def chunk_hdr_def tx_wf_def)
  ultimately show ?thesis
    using nz eo by (simp add: received_def o same)
qed

context responsive_regs
begin

lemma receive_all_chunks:
  assumes "tx_wf tx" and "received tx rx" and "list_all2 (\<lambda>a c. responsive a \<and> holds a (recv_base up) c) as (tx_chunks tx)"
    and "10 \<le> maxb" and "up \<or> drm_dp_get_mst_branch_device primary (lct (chunk_hdr tx)) (rad (chunk_hdr tx)) \<noteq> None"
  shows "(\<exists>rx'. receive_all aux maxb up primary rx as = Some rx' \<and> received (tx\<lparr>cur_offset := cur_len tx\<rparr>) rx') \<and>
    (\<forall>n < length as. \<exists>rx'. receive_all aux maxb up primary rx (take n as) = Some rx' \<and> \<not> have_eomt rx')"
  using assms
proof (induction tx arbitrary: rx as rule: tx_chunks.induct)
  case (1 tx)
  show ?case
  proof (cases "cur_offset tx = cur_len tx")
    case True
    then have "as = []" using 1(4) by (simp add: tx_chunks.simps)
    moreover have "tx\<lparr>cur_offset := cur_len tx\<rparr> = tx" using True by simp
    ultimately show ?thesis using 1(3) by simp
  next
    case False
    let ?p = "drm_dp_crc_sideband_chunk_req (chunk_body tx)" and ?h = "chunk_hdr tx"
    obtain a as' where as: "as = a # as'" "responsive a" "holds a (recv_base up) (drm_dp_encode_sideband_msg_hdr ?h @ ?p)"
        "list_all2 (\<lambda>a c. responsive a \<and> holds a (recv_base up) c) as' (tx_chunks (next_tx tx))"
      using 1(4) False 1(2) tx_chunk_eq [OF 1(2)] by (auto simp: tx_chunks.simps [of tx] list_all2_Cons2)
    note wf = chunk_hdr_wf [OF 1(2)]
    have room: "unat (curlen rx) + length ?p \<le> 256"
    proof -
      have "unat (cur_offset tx) \<le> unat (cur_len tx)" using 1(2) by (simp add: tx_wf_def word_le_nat_alt)
      then have "unat (cur_offset tx) + snd (tx_chunk tx) < 256"
        using chunk_space(1) [OF 1(2)] unat_u8_less [of "cur_len tx"] by linarith
      then show ?thesis using 1(3) by (simp add: drm_dp_crc_sideband_chunk_req_def chunk_body_def received_def)
    qed
    have "\<exists>rx' a'. get_one_sb_msg aux maxb up primary rx a =
        Some (True, if up then None else drm_dp_get_mst_branch_device primary (lct ?h) (rad ?h), rx', a') \<and>
        appended (rx_header rx ?h) (butlast ?p) rx' \<and> regs a' = regs a"
      by (rule get_one_chunk [OF wf(1-4) as(3) [unfolded recv_base_def] 1(5) _ _ room _ as(2) 1(6)])
        (use 1(3) in \<open>auto simp: received_def chunk_hdr_def\<close>)
    then obtain rx' a' where get: "get_one_sb_msg aux maxb up primary rx a =
        Some (True, if up then None else drm_dp_get_mst_branch_device primary (lct ?h) (rad ?h), rx', a')"
        "appended (rx_header rx ?h) (chunk_body tx) rx'"
      by (auto simp: drm_dp_crc_sideband_chunk_req_def)
    have same: "(next_tx tx)\<lparr>cur_offset := cur_len (next_tx tx)\<rparr> = tx\<lparr>cur_offset := cur_len tx\<rparr>"
      "lct (chunk_hdr (next_tx tx)) = lct ?h" "rad (chunk_hdr (next_tx tx)) = rad ?h"
      by (simp_all add: next_tx_def chunk_hdr_def set_hdr_from_dst_qlock_def Let_def)
    have IH: "(\<exists>rx''. receive_all aux maxb up primary rx' as' = Some rx'' \<and>
        received ((next_tx tx)\<lparr>cur_offset := cur_len (next_tx tx)\<rparr>) rx'') \<and>
      (\<forall>n < length as'. \<exists>rx''. receive_all aux maxb up primary rx' (take n as') = Some rx'' \<and> \<not> have_eomt rx'')"
      by (rule 1(1) [OF conjI [OF 1(2) False] next_tx_offset(2) [OF 1(2)] received_next [OF 1(2,3) False get(2)] as(4) 1(5)])
        (use 1(6) same in simp)
    have "\<exists>rx'. receive_all aux maxb up primary rx (take n as) = Some rx' \<and> \<not> have_eomt rx'" if "n < length as" for n
      using that IH as(1) get(1) 1(3) False by (cases n) (auto simp: received_def)
    then show ?thesis using IH as(1) get(1) same(1) by simp
  qed
qed

end

lemma received_start: "cur_offset tx = 0 \<Longrightarrow> received tx reset_msg_rx_state"
  by (simp add: received_def reset_msg_rx_state_def)

text \<open>The sink of the AUX theory answers at once when it has no transaction left to defer.\<close>

lemma sink_reads:
  assumes "sink_defers s = 0" and "drm_dp_dpcd_read_data (sink_aux nz) off n s = (ret, bs, s')"
  shows "0 \<le> ret \<and> sink_defers s' = 0"
proof -
  have tr: "aux_transfer (sink_aux nz) m s = (int (msg_size m), 0, map (sink_regs s) [msg_address m..<msg_address m + msg_size m], s)"
    if "msg_request m = DP_AUX_NATIVE_READ" "length (msg_buffer m) = msg_size m" for m
    using assms(1) that by (simp add: sink_aux_def sink_transfer_def)
  have acc: "drm_dp_dpcd_access (sink_aux nz) DP_AUX_NATIVE_READ o' buf s =
      (int (length buf), map (sink_regs s) [o'..<o' + length buf], s)" for o' buf
    using tr [of "native_msg DP_AUX_NATIVE_READ o' buf"]
    by (simp add: drm_dp_dpcd_access_def numeral_eq_Suc native_msg_def DP_AUX_NATIVE_REPLY_ACK_def) (simp add: sink_aux_def)
  have "drm_dp_dpcd_read_data (sink_aux nz) off n s = (0, map (sink_regs s) [off..<off + n], s)"
    by (simp add: drm_dp_dpcd_read_data_def drm_dp_dpcd_read_def drm_dp_dpcd_probe_def acc) (simp add: sink_aux_def)
  then show ?thesis using assms by simp
qed

interpretation ready_sink: responsive_regs "sink_aux nz" sink_regs "\<lambda>s. sink_defers s = 0"
  by unfold_locales (use sink_reads in blast)

text \<open>A sink that shows the bytes \<open>c\<close> at a register address.\<close>

definition showing :: "nat \<Rightarrow> u8 list \<Rightarrow> sink" where
  "showing base c = \<lparr>sink_regs = (\<lambda>i. if base \<le> i \<and> i < base + length c then c ! (i - base) else 0),
     sink_stream = (\<lambda>_. 0), sink_max = 0, sink_defers = 0\<rparr>"

lemma holds_showing: "sink.holds (showing base c) base c"
  by (simp add: sink.holds_def showing_def)

text \<open>
  C2. Segmentation and reassembly: when the chunks into which \<open>process_single_tx_qlock\<close> cuts a non-empty message of up
  to 255 bytes appear one after the other in the receive registers of a sink that answers reads, receiving them with
  \<open>drm_dp_get_one_sb_msg\<close> from a fresh receive state succeeds for each chunk. As long as a chunk is missing the
  end-of-message flag is not set; after the last one the flag is set and the receive state holds the message and its length.
  The number of bytes per DPCD transaction is at least 10, the longest header, and for down replies the address in the header of the chunks
  names a branch device of the topology (the receiver looks the sender up).
\<close>

theorem sideband_transport:
  assumes "responsive_regs aux regs responsive"
    and "tx_wf tx" and "cur_offset tx = 0" and "cur_len tx \<noteq> 0" and "10 \<le> maxb"
    and "list_all2 (\<lambda>a c. responsive a \<and> (\<forall>i < length c. regs a (recv_base up + i) = c ! i)) as (tx_chunks tx)"
    and "up \<or> drm_dp_get_mst_branch_device primary (lct (chunk_hdr tx)) (rad (chunk_hdr tx)) \<noteq> None"
  shows "(\<exists>rx. receive_all aux maxb up primary reset_msg_rx_state as = Some rx \<and> curlen rx = cur_len tx \<and> have_eomt rx \<and>
      take (unat (cur_len tx)) (rx_msg rx) = take (unat (cur_len tx)) (tx_msg tx)) \<and>
    (\<forall>n < length as. \<exists>rx. receive_all aux maxb up primary reset_msg_rx_state (take n as) = Some rx \<and> \<not> have_eomt rx)"
proof -
  have "dpcd_regs aux regs" using assms(1) by (simp add: responsive_regs_def)
  then have h: "dpcd_regs.holds regs a (recv_base up) c \<longleftrightarrow> (\<forall>i < length c. regs a (recv_base up + i) = c ! i)" for a c
    by (rule dpcd_regs.holds_def)
  have "(\<exists>rx. receive_all aux maxb up primary reset_msg_rx_state as = Some rx \<and> received (tx\<lparr>cur_offset := cur_len tx\<rparr>) rx) \<and>
    (\<forall>n < length as. \<exists>rx. receive_all aux maxb up primary reset_msg_rx_state (take n as) = Some rx \<and> \<not> have_eomt rx)"
    by (rule responsive_regs.receive_all_chunks [OF assms(1,2) received_start [OF assms(3)] _ assms(5,7)]) (use assms(6) h in simp)
  then show ?thesis using assms(4) by (auto simp: received_def)
qed

definition ex_long :: drm_dp_sideband_msg_tx where
  "ex_long = ex_tx\<lparr>tx_msg := map of_nat [0..<256], cur_len := 60\<rparr>"

lemma ex_long_wf: "tx_wf ex_long"
  by (simp add: tx_wf_def ex_long_def ex_tx_def ex_branch_def)

lemma length_ex_long: "length (tx_chunks ex_long) = 2"
proof -
  have s: "snd (tx_chunk (ex_long\<lparr>cur_offset := o'\<rparr>)) = min (60 - unat o') 43" for o'
    by (simp add: tx_chunk_def set_hdr_from_dst_qlock_def ex_long_def ex_tx_def ex_branch_def drm_dp_calc_sb_hdr_size_def
      DP_CONNECTION_STATUS_NOTIFY_def DP_RESOURCE_STATUS_NOTIFY_def DP_CLEAR_PAYLOAD_ID_TABLE_def Let_def)
  have n: "next_tx ex_long = ex_long\<lparr>cur_offset := 43\<rparr>" "next_tx (ex_long\<lparr>cur_offset := 43\<rparr>) = ex_long\<lparr>cur_offset := 60\<rparr>"
    using s [of 0] s [of 43] by (simp_all add: next_tx_def ex_long_def ex_tx_def)
  have "tx_wf (ex_long\<lparr>cur_offset := 43\<rparr>)" using ex_long_wf by (simp add: tx_wf_def ex_long_def ex_tx_def)
  then show ?thesis using ex_long_wf n by (simp add: tx_chunks.simps ex_long_def ex_tx_def)
qed

theorem sideband_transport_witness:
  "length (tx_chunks ex_long) = 2 \<and>
   (\<exists>rx. receive_all (sink_aux True) 16 True None reset_msg_rx_state (map (showing (recv_base True)) (tx_chunks ex_long)) = Some rx \<and>
      curlen rx = 60 \<and> have_eomt rx \<and> take 60 (rx_msg rx) = map of_nat [0..<60])"
proof
  note wf = ex_long_wf
  show "length (tx_chunks ex_long) = 2" by (rule length_ex_long)
  have all: "list_all2 (\<lambda>a c. sink_defers a = 0 \<and> (\<forall>i < length c. sink_regs a (recv_base True + i) = c ! i))
      (map (showing (recv_base True)) (tx_chunks ex_long)) (tx_chunks ex_long)"
    by (simp add: list_all2_map1 list_all2_same showing_def)
  show "\<exists>rx. receive_all (sink_aux True) 16 True None reset_msg_rx_state (map (showing (recv_base True)) (tx_chunks ex_long)) = Some rx \<and>
      curlen rx = 60 \<and> have_eomt rx \<and> take 60 (rx_msg rx) = map of_nat [0..<60]"
    using sideband_transport [OF ready_sink.responsive_regs_axioms [of True] wf _ _ _ all, of 16 None]
    by (auto simp: ex_long_def ex_tx_def take_map)
qed

end
