(* ===== verification/MST_Queue.thy ===== *)
theory MST_Queue
  imports MST_Transport
begin

text \<open>
  The message queue of the DisplayPort MST topology manager (\<open>drm_dp_mst_topology.c\<close>): queueing of down requests, the
  transmit work, the handlers of the two message interrupts, the end of a wait for a reply and the
  removal of the messages of a branch device that goes away.

  \<open>mgr_hw\<close> is the state of the sink behind the AUX channel. A message that leaves the queue stays with the
  thread that waits for it: \<open>finished\<close> holds those messages with the reply that was stored in them. The locks of the
  manager make the functions of this theory atomic; \<open>wake_up_all\<close> has no effect on the state. Work items that are
  scheduled are flags.
\<close>

unbundle bit_operations_syntax

section \<open>State\<close>

record drm_dp_pending_up_req =
  up_hdr :: drm_dp_sideband_msg_hdr
  up_msg :: drm_dp_sideband_msg_req_body

record 'a drm_dp_mst_topology_mgr =
  mgr_aux :: "'a drm_dp_aux"
  mgr_hw :: 'a
  max_dpcd_transaction_bytes :: nat
  mst_primary :: "mst_branch option"
  sink_count :: u8
  tx_msg_downq :: "drm_dp_sideband_msg_tx list"
  finished :: "(drm_dp_sideband_msg_tx \<times> drm_dp_sideband_msg_reply_body option) list"
  down_rep_recv :: drm_dp_sideband_msg_rx
  up_req_recv :: drm_dp_sideband_msg_rx
  reset_rx_state :: bool
  up_req_list :: "drm_dp_pending_up_req list"
  tx_work_queued :: bool
  up_req_work_queued :: bool

section \<open>Sending\<close>

definition process_single_down_tx_qlock :: "'a drm_dp_mst_topology_mgr \<Rightarrow> 'a drm_dp_mst_topology_mgr option" where
  "process_single_down_tx_qlock mgr =
     (case tx_msg_downq mgr of
        [] \<Rightarrow> Some mgr
      | txmsg # q \<Rightarrow>
          (case process_single_tx_qlock (mgr_aux mgr) (max_dpcd_transaction_bytes mgr) txmsg False (mgr_hw mgr) of
             None \<Rightarrow> None
           | Some (ret, txmsg, a) \<Rightarrow>
               Some (if ret < 0
                     then mgr\<lparr>mgr_hw := a, tx_msg_downq := q,
                              finished := (txmsg\<lparr>tx_state := DRM_DP_SIDEBAND_TX_TIMEOUT\<rparr>, None) # finished mgr\<rparr>
                     else mgr\<lparr>mgr_hw := a, tx_msg_downq := txmsg # q\<rparr>)))"

definition drm_dp_queue_down_tx ::
    "'a drm_dp_mst_topology_mgr \<Rightarrow> drm_dp_sideband_msg_tx \<Rightarrow> 'a drm_dp_mst_topology_mgr option" where
  "drm_dp_queue_down_tx mgr txmsg =
     (let mgr = mgr\<lparr>tx_msg_downq := tx_msg_downq mgr @ [txmsg]\<rparr>
      in if length (tx_msg_downq mgr) = 1 then process_single_down_tx_qlock mgr else Some mgr)"

definition drm_dp_mst_kick_tx :: "'a drm_dp_mst_topology_mgr \<Rightarrow> 'a drm_dp_mst_topology_mgr" where
  "drm_dp_mst_kick_tx mgr = mgr\<lparr>tx_work_queued := True\<rparr>"

definition drm_dp_tx_work :: "'a drm_dp_mst_topology_mgr \<Rightarrow> 'a drm_dp_mst_topology_mgr option" where
  "drm_dp_tx_work mgr =
     (let mgr = mgr\<lparr>tx_work_queued := False\<rparr>
      in if tx_msg_downq mgr \<noteq> [] then process_single_down_tx_qlock mgr else Some mgr)"

section \<open>Waiting\<close>

definition check_txmsg_state :: "drm_dp_sideband_msg_tx \<Rightarrow> bool" where
  "check_txmsg_state txmsg \<longleftrightarrow> tx_state txmsg = DRM_DP_SIDEBAND_TX_RX \<or> tx_state txmsg = DRM_DP_SIDEBAND_TX_TIMEOUT"

text \<open>
  The end of \<open>drm_dp_mst_wait_tx_reply\<close> for the message with address \<open>ptr\<close>: \<open>woken\<close> is the result of
  \<open>wait_event_timeout\<close>, true when it saw a terminal state. The message may still reach a terminal state
  between a timeout and the lock. The caller then frees the message.
\<close>

definition find_tx :: "'a drm_dp_mst_topology_mgr \<Rightarrow> nat \<Rightarrow> drm_dp_sideband_msg_tx option" where
  "find_tx mgr ptr = find (\<lambda>tx. tx_ptr tx = ptr) (tx_msg_downq mgr @ map fst (finished mgr))"

definition drm_dp_mst_wait_tx_reply :: "'a drm_dp_mst_topology_mgr \<Rightarrow> nat \<Rightarrow> bool \<Rightarrow> (int \<times> 'a drm_dp_mst_topology_mgr) option" where
  "drm_dp_mst_wait_tx_reply mgr ptr woken =
     (case find_tx mgr ptr of
        None \<Rightarrow> None
      | Some txmsg \<Rightarrow>
          if woken
          then Some (if tx_state txmsg = DRM_DP_SIDEBAND_TX_TIMEOUT then neg_errno EIO else 1,
                     drm_dp_mst_kick_tx mgr)
          else Some (neg_errno EIO,
                     drm_dp_mst_kick_tx
                       (if tx_state txmsg = DRM_DP_SIDEBAND_TX_QUEUED \<or> tx_state txmsg = DRM_DP_SIDEBAND_TX_START_SEND \<or>
                           tx_state txmsg = DRM_DP_SIDEBAND_TX_SENT
                        then mgr\<lparr>tx_msg_downq := remove1 txmsg (tx_msg_downq mgr)\<rparr> else mgr)))"

definition free_tx :: "nat \<Rightarrow> 'a drm_dp_mst_topology_mgr \<Rightarrow> 'a drm_dp_mst_topology_mgr" where
  "free_tx ptr mgr = mgr\<lparr>finished := filter (\<lambda>(tx, _). tx_ptr tx \<noteq> ptr) (finished mgr)\<rparr>"

text \<open>The part of \<open>drm_dp_delayed_destroy_mstb\<close> that works on the queue.\<close>

definition drop_tx_of_mstb :: "nat \<Rightarrow> 'a drm_dp_mst_topology_mgr \<Rightarrow> 'a drm_dp_mst_topology_mgr" where
  "drop_tx_of_mstb mstb mgr =
     mgr\<lparr>tx_msg_downq := filter (\<lambda>tx. branch_ptr (dst tx) \<noteq> mstb) (tx_msg_downq mgr),
         finished := map (\<lambda>tx. (tx\<lparr>tx_state := DRM_DP_SIDEBAND_TX_TIMEOUT\<rparr>, None))
                       (filter (\<lambda>tx. branch_ptr (dst tx) = mstb) (tx_msg_downq mgr)) @ finished mgr\<rparr>"

section \<open>Replies\<close>

definition get_msg_request_type :: "u8 \<Rightarrow> u8" where
  "get_msg_request_type data = data AND 0x7f"

definition verify_rx_request_type :: "drm_dp_sideband_msg_tx \<Rightarrow> drm_dp_sideband_msg_rx \<Rightarrow> bool" where
  "verify_rx_request_type txmsg rxmsg \<longleftrightarrow>
     get_msg_request_type (tx_msg txmsg ! 0) = get_msg_request_type (rx_msg rxmsg ! 0)"

definition clear_down_rep :: "'a drm_dp_mst_topology_mgr \<Rightarrow> 'a drm_dp_mst_topology_mgr" where
  "clear_down_rep mgr = mgr\<lparr>down_rep_recv := reset_msg_rx_state\<rparr>"

definition drm_dp_mst_handle_down_rep :: "'a drm_dp_mst_topology_mgr \<Rightarrow> 'a drm_dp_mst_topology_mgr option" where
  "drm_dp_mst_handle_down_rep mgr =
     (case get_one_sb_msg (mgr_aux mgr) (max_dpcd_transaction_bytes mgr) False (mst_primary mgr) (down_rep_recv mgr) (mgr_hw mgr) of
        None \<Rightarrow> None
      | Some (ok, mstb, msg, a) \<Rightarrow>
          let mgr = mgr\<lparr>down_rep_recv := msg, mgr_hw := a\<rparr>
          in if \<not> ok then Some (clear_down_rep mgr)
             else if \<not> have_eomt msg then Some mgr
             else
               (case (tx_msg_downq mgr, mstb) of
                  (txmsg # q, Some b) \<Rightarrow>
                    if branch_ptr (dst txmsg) \<noteq> branch_ptr (mstb_info b) then Some (clear_down_rep mgr)
                    else if \<not> verify_rx_request_type txmsg msg then Some (clear_down_rep mgr)
                    else
                      (case drm_dp_sideband_parse_reply (rx_msg msg) (curlen msg) of
                         None \<Rightarrow> None
                       | Some (_, reply) \<Rightarrow>
                           Some (clear_down_rep
                             (mgr\<lparr>tx_msg_downq := q,
                                  finished := (txmsg\<lparr>tx_state := DRM_DP_SIDEBAND_TX_RX\<rparr>, Some reply) # finished mgr\<rparr>)))
                | _ \<Rightarrow> Some (clear_down_rep mgr)))"

section \<open>Up requests\<close>

text \<open>A message of all zeroes, as \<open>kzalloc_obj\<close> returns it, addressed to \<open>mstb\<close>.\<close>

definition zero_tx :: "drm_dp_mst_branch \<Rightarrow> drm_dp_sideband_msg_tx" where
  "zero_tx mstb = \<lparr>tx_ptr = 0, tx_msg = replicate 256 0, cur_offset = 0, cur_len = 0, dst = mstb, tx_path_msg = False,
     tx_state = DRM_DP_SIDEBAND_TX_QUEUED\<rparr>"

definition DP_SIDEBAND_REPLY_ACK :: u8 where "DP_SIDEBAND_REPLY_ACK = 0"

definition drm_dp_encode_up_ack_reply :: "drm_dp_sideband_msg_tx \<Rightarrow> u8 \<Rightarrow> drm_dp_sideband_msg_tx" where
  "drm_dp_encode_up_ack_reply msg rtype = drm_dp_encode_sideband_reply DP_SIDEBAND_REPLY_ACK rtype msg"

text \<open>\<open>alloc\<close>: whether the allocation of the message succeeds.\<close>

definition drm_dp_send_up_ack_reply ::
    "'a drm_dp_mst_topology_mgr \<Rightarrow> mst_branch \<Rightarrow> u8 \<Rightarrow> bool \<Rightarrow> (int \<times> 'a drm_dp_mst_topology_mgr) option" where
  "drm_dp_send_up_ack_reply mgr mstb rtype alloc =
     (if \<not> alloc then Some (neg_errno ENOMEM, mgr)
      else
        (case process_single_tx_qlock (mgr_aux mgr) (max_dpcd_transaction_bytes mgr)
                (drm_dp_encode_up_ack_reply (zero_tx (mstb_info mstb)) rtype) True (mgr_hw mgr) of
           None \<Rightarrow> None
         | Some (_, _, a) \<Rightarrow> Some (0, mgr\<lparr>mgr_hw := a\<rparr>)))"

definition clear_up_req :: "'a drm_dp_mst_topology_mgr \<Rightarrow> 'a drm_dp_mst_topology_mgr" where
  "clear_up_req mgr = mgr\<lparr>up_req_recv := reset_msg_rx_state\<rparr>"

text \<open>\<open>alloc\<close> and \<open>alloc_ack\<close>: whether the allocations of the pending request and of the acknowledgement succeed.\<close>

definition drm_dp_mst_handle_up_req ::
    "'a drm_dp_mst_topology_mgr \<Rightarrow> bool \<Rightarrow> bool \<Rightarrow> (int \<times> 'a drm_dp_mst_topology_mgr) option" where
  "drm_dp_mst_handle_up_req mgr alloc alloc_ack =
     (case get_one_sb_msg (mgr_aux mgr) (max_dpcd_transaction_bytes mgr) True (mst_primary mgr) (up_req_recv mgr) (mgr_hw mgr) of
        None \<Rightarrow> None
      | Some (ok, _, msg, a) \<Rightarrow>
          let mgr = mgr\<lparr>up_req_recv := msg, mgr_hw := a\<rparr>
          in if \<not> ok then Some (0, clear_up_req mgr)
             else if \<not> have_eomt msg then Some (0, mgr)
             else if \<not> alloc then Some (neg_errno ENOMEM, clear_up_req mgr)
             else
               (case drm_dp_sideband_parse_req (rx_msg msg) (curlen msg) of
                  None \<Rightarrow> None
                | Some (_, req) \<Rightarrow>
                    if req_type req \<noteq> DP_CONNECTION_STATUS_NOTIFY \<and> req_type req \<noteq> DP_RESOURCE_STATUS_NOTIFY
                    then Some (0, clear_up_req mgr)
                    else
                      (case Option.bind (mst_primary mgr) try_get of
                         None \<Rightarrow> Some (0, clear_up_req mgr)
                       | Some primary \<Rightarrow>
                           (case drm_dp_send_up_ack_reply mgr primary (req_type req) alloc_ack of
                              None \<Rightarrow> None
                            | Some (_, mgr) \<Rightarrow>
                                Some (0, clear_up_req
                                  (mgr\<lparr>up_req_list := up_req_list mgr @ [\<lparr>up_hdr = initial_hdr msg, up_msg = req\<rparr>],
                                       up_req_work_queued := True\<rparr>))))))"

section \<open>Interrupts\<close>

definition update_msg_rx_state :: "'a drm_dp_mst_topology_mgr \<Rightarrow> 'a drm_dp_mst_topology_mgr" where
  "update_msg_rx_state mgr =
     (if reset_rx_state mgr
      then mgr\<lparr>reset_rx_state := False, down_rep_recv := reset_msg_rx_state, up_req_recv := reset_msg_rx_state\<rparr> else mgr)"

definition DP_GET_SINK_COUNT :: "u8 \<Rightarrow> u8" where
  "DP_GET_SINK_COUNT x = drop_bit 1 (x AND 0x80) OR (x AND 0x3f)"

text \<open>
  The arguments are the two bytes of \<open>esi\<close> that are read and the byte \<open>ack[1]\<close>; the result has the return
  value, \<open>ack[1]\<close> and \<open>handled\<close>.
\<close>

definition drm_dp_mst_hpd_irq_handle_event ::
    "'a drm_dp_mst_topology_mgr \<Rightarrow> u8 \<Rightarrow> u8 \<Rightarrow> u8 \<Rightarrow> bool \<Rightarrow> bool \<Rightarrow> (int \<times> u8 \<times> bool \<times> 'a drm_dp_mst_topology_mgr) option" where
  "drm_dp_mst_hpd_irq_handle_event mgr esi0 esi1 ack1 alloc alloc_ack =
     (let sc = DP_GET_SINK_COUNT esi0;
          handled = (sc \<noteq> sink_count mgr);
          mgr = update_msg_rx_state (mgr\<lparr>sink_count := sc\<rparr>)
      in case (if bit esi1 4 then map_option (\<lambda>mgr. (True, ack1 OR 0x10, mgr)) (drm_dp_mst_handle_down_rep mgr)
               else Some (handled, ack1, mgr)) of
           None \<Rightarrow> None
         | Some (handled, ack1, mgr) \<Rightarrow>
             if bit esi1 5
             then map_option (\<lambda>(ret, mgr). (ret, ack1 OR 0x20, True, mgr)) (drm_dp_mst_handle_up_req mgr alloc alloc_ack)
             else Some (0, ack1, handled, mgr))"

definition drm_dp_mst_hpd_irq_send_new_request :: "'a drm_dp_mst_topology_mgr \<Rightarrow> 'a drm_dp_mst_topology_mgr" where
  "drm_dp_mst_hpd_irq_send_new_request mgr =
     (case tx_msg_downq mgr of
        [] \<Rightarrow> mgr
      | txmsg # _ \<Rightarrow>
          if tx_state txmsg = DRM_DP_SIDEBAND_TX_START_SEND \<or> tx_state txmsg = DRM_DP_SIDEBAND_TX_SENT then mgr
          else drm_dp_mst_kick_tx mgr)"

section \<open>The states of the queue\<close>

text \<open>A queued message: not yet started, partly sent, or sent completely.\<close>

fun state_ok :: "drm_dp_sideband_tx_state \<Rightarrow> u8 \<Rightarrow> u8 \<Rightarrow> bool" where
  "state_ok DRM_DP_SIDEBAND_TX_QUEUED off len = (off = 0)"
| "state_ok DRM_DP_SIDEBAND_TX_START_SEND off len = (off \<noteq> len)"
| "state_ok DRM_DP_SIDEBAND_TX_SENT off len = (off = len)"
| "state_ok _ off len = False"

definition tx_ok :: "drm_dp_sideband_msg_tx \<Rightarrow> bool" where
  "tx_ok tx \<longleftrightarrow> tx_wf tx \<and> state_ok (tx_state tx) (cur_offset tx) (cur_len tx)"

definition rx_ok :: "drm_dp_sideband_msg_rx \<Rightarrow> bool" where
  "rx_ok rx \<longleftrightarrow> length (rx_chunk rx) = 48 \<and> length (rx_msg rx) = 256"

definition queue_ok :: "drm_dp_sideband_msg_tx list \<Rightarrow> bool" where
  "queue_ok q \<longleftrightarrow> (\<forall>tx \<in> set q. tx_ok tx) \<and> (\<forall>tx \<in> set (tl q). tx_state tx = DRM_DP_SIDEBAND_TX_QUEUED)"

definition done_ok :: "drm_dp_sideband_msg_tx \<times> drm_dp_sideband_msg_reply_body option \<Rightarrow> bool" where
  "done_ok = (\<lambda>(tx, reply). if reply = None then tx_state tx = DRM_DP_SIDEBAND_TX_TIMEOUT else tx_state tx = DRM_DP_SIDEBAND_TX_RX)"

definition mgr_ptrs :: "'a drm_dp_mst_topology_mgr \<Rightarrow> nat list" where
  "mgr_ptrs mgr = map tx_ptr (tx_msg_downq mgr) @ map (tx_ptr \<circ> fst) (finished mgr)"

definition mgr_inv :: "'a drm_dp_mst_topology_mgr \<Rightarrow> bool" where
  "mgr_inv mgr \<longleftrightarrow> queue_ok (tx_msg_downq mgr) \<and> (\<forall>d \<in> set (finished mgr). done_ok d) \<and> distinct (mgr_ptrs mgr) \<and>
     rx_ok (down_rep_recv mgr) \<and> rx_ok (up_req_recv mgr)"

lemma rx_ok_reset [simp]: "rx_ok reset_msg_rx_state"
  by (simp add: rx_ok_def reset_msg_rx_state_def)

lemma put_bytes_length: "put_bytes buf i bs = Some buf' \<Longrightarrow> length buf' = length buf"
  by (auto simp: put_bytes_def split: if_splits)

lemma append_payload_rx_ok: "drm_dp_sideband_append_payload rx bs = Some (ok, rx') \<Longrightarrow> rx_ok rx \<Longrightarrow> rx_ok rx'"
  by (auto simp: drm_dp_sideband_append_payload_def rx_ok_def Let_def put_bytes_length bind_eq_Some_conv split: if_splits)

lemma read_rest_rx_ok: "read_rest fuel aux maxb base cur len rx a = Some (ok, rx', a') \<Longrightarrow> rx_ok rx \<Longrightarrow> rx_ok rx'"
proof (induction fuel arbitrary: cur len rx a)
  case (Suc fuel)
  then show ?case
    by (auto simp: Let_def split: if_splits prod.splits option.splits dest: append_payload_rx_ok)
qed simp

lemma set_header_rx_ok: "drm_dp_sideband_msg_set_header rx hdr n = (ok, rx') \<Longrightarrow> rx_ok rx \<Longrightarrow> rx_ok rx'"
  by (auto simp: drm_dp_sideband_msg_set_header_def rx_ok_def Let_def split: if_splits)

lemma get_one_rx_ok:
  assumes "get_one_sb_msg aux maxb up primary rx a = Some (ok, mstb, rx', a')" and "rx_ok rx"
  shows "rx_ok rx'"
proof -
  define base where "base = (if up then DP_SIDEBAND_MSG_UP_REQ_BASE else DP_SIDEBAND_MSG_DOWN_REP_BASE)"
  obtain r block b where t: "drm_dp_dpcd_read_data aux base (min maxb 16) a = (r, block, b)" by (metis prod_cases3)
  obtain hok hdr hl where d: "drm_dp_decode_sideband_msg_hdr zero_hdr block (min maxb 16) 0 = (hok, hdr, hl)" by (metis prod_cases3)
  obtain sok rx1 where h: "drm_dp_sideband_msg_set_header rx hdr hl = (sok, rx1)" by fastforce
  have rx1: "rx_ok rx1" using set_header_rx_ok [OF h assms(2)] .
  show ?thesis
    using assms(1) [unfolded get_one_sb_msg_def Let_def, folded base_def, unfolded t prod.case d h] assms(2) rx1
    by (auto simp del: read_rest.simps split: if_splits option.splits bool.splits dest!: append_payload_rx_ok read_rest_rx_ok)
qed

lemma send_loop_ret: "send_loop fuel aux maxb base msg off retries a = Some (ret, a') \<Longrightarrow> ret = 0 \<or> ret = neg_errno EIO"
proof (induction fuel arbitrary: off retries a)
  case (Suc fuel)
  then show ?case by (auto simp: Let_def split: if_splits prod.splits)
qed simp

text \<open>Sending a chunk returns, whatever the AUX channel does.\<close>

lemma process_single_tx_returns:
  assumes "0 < maxb"
  shows "\<exists>r. process_single_tx_qlock aux maxb tx up a = Some r"
proof (cases "tx_state tx = DRM_DP_SIDEBAND_TX_SENT")
  case False
  obtain chunk tosend where c: "tx_chunk (if tx_state tx = DRM_DP_SIDEBAND_TX_QUEUED
      then tx\<lparr>tx_state := DRM_DP_SIDEBAND_TX_START_SEND\<rparr> else tx) = (chunk, tosend)" by fastforce
  obtain r b where "drm_dp_send_sideband_msg aux maxb up chunk a = Some (r, b)"
    using send_sideband_returns [OF assms, of aux up chunk a] by blast
  then show ?thesis using False by (simp add: process_single_tx_qlock_def Let_def c)
qed (simp add: process_single_tx_qlock_def)

definition started :: "drm_dp_sideband_msg_tx \<Rightarrow> drm_dp_sideband_msg_tx" where
  "started tx = (if tx_state tx = DRM_DP_SIDEBAND_TX_QUEUED then tx\<lparr>tx_state := DRM_DP_SIDEBAND_TX_START_SEND\<rparr> else tx)"

text \<open>The outcomes of sending a chunk of a queued message.\<close>

lemma process_single_tx_cases:
  assumes "process_single_tx_qlock aux maxb tx up a = Some (ret, tx', a')" and "tx_state tx \<noteq> DRM_DP_SIDEBAND_TX_SENT"
  obtains (failed) "ret = neg_errno EIO" "tx' = started tx"
  | (sent) "ret = 1" "cur_offset (next_tx (started tx)) = cur_len tx" "tx' = (next_tx (started tx))\<lparr>tx_state := DRM_DP_SIDEBAND_TX_SENT\<rparr>"
      "drm_dp_send_sideband_msg aux maxb up (fst (tx_chunk (started tx))) a = Some (0, a')"
  | (more) "ret = 0" "cur_offset (next_tx (started tx)) \<noteq> cur_len tx" "tx' = next_tx (started tx)"
      "drm_dp_send_sideband_msg aux maxb up (fst (tx_chunk (started tx))) a = Some (0, a')"
proof -
  obtain r b where s: "drm_dp_send_sideband_msg aux maxb up (fst (tx_chunk (started tx))) a = Some (r, b)"
    using assms by (cases "drm_dp_send_sideband_msg aux maxb up (fst (tx_chunk (started tx))) a")
      (auto simp: process_single_tx_qlock_def Let_def started_def split: prod.splits)
  have "r = 0 \<or> r = neg_errno EIO" using s send_loop_ret by (fastforce simp: drm_dp_send_sideband_msg_def Let_def)
  moreover have "cur_len (started tx) = cur_len tx" by (simp add: started_def)
  ultimately show thesis
    using assms s failed sent more
    by (auto simp: process_single_tx_qlock_def Let_def started_def [symmetric] next_tx_def split: prod.splits if_splits)
qed

lemma started_ok: "tx_ok tx \<Longrightarrow> tx_state tx \<noteq> DRM_DP_SIDEBAND_TX_SENT \<Longrightarrow>
    tx_wf (started tx) \<and> tx_state (started tx) = DRM_DP_SIDEBAND_TX_START_SEND \<and> tx_ptr (started tx) = tx_ptr tx"
  by (cases "tx_state tx") (auto simp: tx_ok_def started_def tx_wf_def)

lemma process_single_tx_ok:
  assumes "process_single_tx_qlock aux maxb tx up a = Some (ret, tx', a')" and "tx_ok tx"
  shows "tx_ptr tx' = tx_ptr tx \<and> (ret < 0 \<or> tx_ok tx')"
proof (cases "tx_state tx = DRM_DP_SIDEBAND_TX_SENT")
  case True
  then show ?thesis using assms by (simp add: process_single_tx_qlock_def)
next
  case False
  note st = started_ok [OF assms(2) False]
  have n: "tx_wf (next_tx (started tx))" "cur_len (next_tx (started tx)) = cur_len tx" "tx_ptr (next_tx (started tx)) = tx_ptr tx"
    "tx_state (next_tx (started tx)) = DRM_DP_SIDEBAND_TX_START_SEND"
    using next_tx_offset(2) st by (auto simp: next_tx_def started_def)
  from assms(1) False show ?thesis
    by (cases rule: process_single_tx_cases) (use n st in \<open>auto simp: tx_ok_def tx_wf_def\<close>)
qed

lemma queue_ok_Cons: "queue_ok (tx # q) \<longleftrightarrow> tx_ok tx \<and> (\<forall>t \<in> set q. tx_ok t \<and> tx_state t = DRM_DP_SIDEBAND_TX_QUEUED)"
  by (auto simp: queue_ok_def)

lemma queue_ok_tail: "queue_ok (tx # q) \<Longrightarrow> queue_ok q"
  by (cases q) (auto simp: queue_ok_def)

lemma queue_ok_filter: "queue_ok q \<Longrightarrow> queue_ok (filter P q)"
proof (induction q)
  case (Cons tx q)
  then have "queue_ok q" by (rule_tac queue_ok_tail)
  then show ?case using Cons by (auto simp: queue_ok_Cons)
qed simp

lemma queue_ok_remove1: "queue_ok q \<Longrightarrow> queue_ok (remove1 tx q)"
proof (cases q)
  case (Cons t r)
  assume q: "queue_ok q"
  show ?thesis
  proof (cases "tx = t")
    case False
    have "set (remove1 tx r) \<subseteq> set r" by (rule set_remove1_subset)
    then show ?thesis using q Cons False by (auto simp: queue_ok_Cons)
  qed (use q Cons queue_ok_tail in auto)
qed simp

text \<open>The invariant looks at the queue, the finished messages and the sizes of the receive buffers.\<close>

lemma mgr_inv_frame:
  assumes "mgr_inv m" and "tx_msg_downq m' = tx_msg_downq m" and "finished m' = finished m"
    and "rx_ok (down_rep_recv m')" and "rx_ok (up_req_recv m')"
  shows "mgr_inv m'"
  using assms by (simp add: mgr_inv_def mgr_ptrs_def)

lemma mgr_inv_finish:
  assumes "mgr_inv m" and "tx_msg_downq m = tx # q" and "tx_msg_downq m' = q" and "finished m' = (tx', reply) # finished m"
    and "tx_ptr tx' = tx_ptr tx" and "done_ok (tx', reply)" and "rx_ok (down_rep_recv m')" and "rx_ok (up_req_recv m')"
  shows "mgr_inv m'"
  using assms queue_ok_tail [of tx q] by (simp add: mgr_inv_def mgr_ptrs_def)

lemma process_down_inv:
  assumes "process_single_down_tx_qlock mgr = Some mgr'" and "mgr_inv mgr"
  shows "mgr_inv mgr'"
proof (cases "tx_msg_downq mgr")
  case Nil
  then show ?thesis using assms by (simp add: process_single_down_tx_qlock_def)
next
  case (Cons tx q)
  from assms(1) Cons obtain ret tx' a where p:
      "process_single_tx_qlock (mgr_aux mgr) (max_dpcd_transaction_bytes mgr) tx False (mgr_hw mgr) = Some (ret, tx', a)"
    and m: "mgr' = (if ret < 0 then mgr\<lparr>mgr_hw := a, tx_msg_downq := q,
                    finished := (tx'\<lparr>tx_state := DRM_DP_SIDEBAND_TX_TIMEOUT\<rparr>, None) # finished mgr\<rparr>
                  else mgr\<lparr>mgr_hw := a, tx_msg_downq := tx' # q\<rparr>)"
    by (auto simp: process_single_down_tx_qlock_def split: option.splits)
  have "tx_ok tx" using assms(2) Cons by (simp add: mgr_inv_def queue_ok_Cons)
  note tx' = process_single_tx_ok [OF p this]
  show ?thesis
  proof (cases "ret < 0")
    case True
    then show ?thesis
      using mgr_inv_finish [OF assms(2) Cons, of mgr' "tx'\<lparr>tx_state := DRM_DP_SIDEBAND_TX_TIMEOUT\<rparr>" None] m tx' assms(2)
      by (simp add: done_ok_def mgr_inv_def)
  next
    case False
    then show ?thesis using assms(2) m Cons tx' by (auto simp: mgr_inv_def queue_ok_Cons mgr_ptrs_def)
  qed
qed

lemma queue_down_inv:
  assumes "drm_dp_queue_down_tx mgr tx = Some mgr'" and "mgr_inv mgr" and "tx_wf tx" and "cur_offset tx = 0"
    and "tx_state tx = DRM_DP_SIDEBAND_TX_QUEUED" and "tx_ptr tx \<notin> set (mgr_ptrs mgr)"
  shows "mgr_inv mgr'"
proof -
  let ?m = "mgr\<lparr>tx_msg_downq := tx_msg_downq mgr @ [tx]\<rparr>"
  have "tx_ok tx" using assms by (simp add: tx_ok_def)
  then have "queue_ok (tx_msg_downq ?m)"
    using assms(2,5) by (cases "tx_msg_downq mgr") (auto simp: mgr_inv_def queue_ok_def)
  then have "mgr_inv ?m" using assms(2,6) by (auto simp: mgr_inv_def mgr_ptrs_def)
  then show ?thesis using assms(1) process_down_inv [of ?m] by (auto simp: drm_dp_queue_down_tx_def Let_def split: if_splits)
qed

lemma tx_work_inv: "drm_dp_tx_work mgr = Some mgr' \<Longrightarrow> mgr_inv mgr \<Longrightarrow> mgr_inv mgr'"
  using process_down_inv [of "mgr\<lparr>tx_work_queued := False\<rparr>" mgr']
  by (auto simp: drm_dp_tx_work_def Let_def mgr_inv_def mgr_ptrs_def split: if_splits)

text \<open>What the handler of down replies does to the queue.\<close>

lemma handle_down_rep_cases:
  assumes "drm_dp_mst_handle_down_rep mgr = Some mgr'"
  obtains ok mstb msg a where
    "get_one_sb_msg (mgr_aux mgr) (max_dpcd_transaction_bytes mgr) False (mst_primary mgr) (down_rep_recv mgr) (mgr_hw mgr) =
       Some (ok, mstb, msg, a)"
    and "mgr' = mgr\<lparr>down_rep_recv := msg, mgr_hw := a\<rparr> \<or> mgr' = clear_down_rep (mgr\<lparr>mgr_hw := a\<rparr>) \<or>
      (\<exists>tx q b ok' reply. tx_msg_downq mgr = tx # q \<and> mstb = Some b \<and> ok \<and> have_eomt msg \<and> branch_ptr (dst tx) = branch_ptr (mstb_info b) \<and>
         verify_rx_request_type tx msg \<and> drm_dp_sideband_parse_reply (rx_msg msg) (curlen msg) = Some (ok', reply) \<and>
         mgr' = clear_down_rep (mgr\<lparr>mgr_hw := a, tx_msg_downq := q,
           finished := (tx\<lparr>tx_state := DRM_DP_SIDEBAND_TX_RX\<rparr>, Some reply) # finished mgr\<rparr>))"
proof -
  obtain ok mstb msg a where g: "get_one_sb_msg (mgr_aux mgr) (max_dpcd_transaction_bytes mgr) False (mst_primary mgr)
      (down_rep_recv mgr) (mgr_hw mgr) = Some (ok, mstb, msg, a)"
    using assms(1) by (auto simp: drm_dp_mst_handle_down_rep_def split: option.splits)
  show thesis
    by (rule that [OF g], use assms [unfolded drm_dp_mst_handle_down_rep_def g] in
      \<open>auto simp: Let_def clear_down_rep_def split: if_splits option.splits list.splits\<close>)
qed

lemma handle_down_rep_inv:
  assumes "drm_dp_mst_handle_down_rep mgr = Some mgr'" and inv: "mgr_inv mgr"
  shows "mgr_inv mgr'"
  using assms(1)
proof (cases rule: handle_down_rep_cases)
  case (1 ok mstb msg a)
  have rx: "rx_ok msg" "rx_ok (up_req_recv mgr)" using get_one_rx_ok [OF 1(1)] inv by (simp_all add: mgr_inv_def)
  from 1(2) show ?thesis
    by (elim disjE exE conjE)
      (use rx inv in \<open>auto simp: clear_down_rep_def done_ok_def intro: mgr_inv_frame mgr_inv_finish\<close>)
qed

lemma handle_up_req_inv:
  assumes "drm_dp_mst_handle_up_req mgr alloc alloc_ack = Some (ret, mgr')" and "mgr_inv mgr"
  shows "mgr_inv mgr'"
proof -
  obtain ok mstb msg a where g: "get_one_sb_msg (mgr_aux mgr) (max_dpcd_transaction_bytes mgr) True (mst_primary mgr)
      (up_req_recv mgr) (mgr_hw mgr) = Some (ok, mstb, msg, a)"
    using assms(1) by (auto simp: drm_dp_mst_handle_up_req_def split: option.splits)
  have "rx_ok msg" using get_one_rx_ok [OF g] assms(2) by (simp add: mgr_inv_def)
  then have "tx_msg_downq mgr' = tx_msg_downq mgr \<and> finished mgr' = finished mgr \<and> down_rep_recv mgr' = down_rep_recv mgr \<and> rx_ok (up_req_recv mgr')"
    using assms(1) [unfolded drm_dp_mst_handle_up_req_def g]
    by (auto simp: Let_def clear_up_req_def drm_dp_send_up_ack_reply_def split: if_splits option.splits)
  then show ?thesis using assms(2) mgr_inv_def [of mgr] by (intro mgr_inv_frame [OF assms(2)]) auto
qed

lemma irq_inv:
  assumes "drm_dp_mst_hpd_irq_handle_event mgr esi0 esi1 ack1 alloc alloc_ack = Some (ret, ack, handled, mgr')" and "mgr_inv mgr"
  shows "mgr_inv mgr'"
proof -
  let ?m = "update_msg_rx_state (mgr\<lparr>sink_count := DP_GET_SINK_COUNT esi0\<rparr>)"
  have "mgr_inv ?m" using assms(2) by (intro mgr_inv_frame [OF assms(2)]) (auto simp: update_msg_rx_state_def mgr_inv_def)
  then show ?thesis
    using assms(1) by (auto simp: drm_dp_mst_hpd_irq_handle_event_def Let_def split: if_splits option.splits
      dest: handle_down_rep_inv handle_up_req_inv)
qed

section \<open>Runs of the manager\<close>

text \<open>
  The manager as a transition system. Between the steps of the manager the sink may change its registers,
  the driver may stop and restart MST (which asks for the receive states to be reset), and the topology may
  change. A thread queues messages that \<open>kzalloc_obj\<close> and the request builders made. A wait ends with a
  timeout at any time, or because the message has reached a terminal state.
\<close>

inductive mgr_step :: "'a drm_dp_mst_topology_mgr \<Rightarrow> 'a drm_dp_mst_topology_mgr \<Rightarrow> bool" where
  step_queue: "tx_wf tx \<Longrightarrow> cur_offset tx = 0 \<Longrightarrow> tx_state tx = DRM_DP_SIDEBAND_TX_QUEUED \<Longrightarrow> tx_ptr tx \<notin> set (mgr_ptrs mgr) \<Longrightarrow>
    drm_dp_queue_down_tx mgr tx = Some mgr' \<Longrightarrow> mgr_step mgr mgr'"
| step_work: "tx_work_queued mgr \<Longrightarrow> drm_dp_tx_work mgr = Some mgr' \<Longrightarrow> mgr_step mgr mgr'"
| step_irq: "drm_dp_mst_hpd_irq_handle_event mgr esi0 esi1 ack1 alloc alloc_ack = Some (ret, ack, handled, mgr') \<Longrightarrow> mgr_step mgr mgr'"
| step_request: "mgr_step mgr (drm_dp_mst_hpd_irq_send_new_request mgr)"
| step_wait: "find_tx mgr ptr = Some tx \<Longrightarrow> woken \<longrightarrow> check_txmsg_state tx \<Longrightarrow>
    drm_dp_mst_wait_tx_reply mgr ptr woken = Some (ret, mgr') \<Longrightarrow> mgr_step mgr (free_tx ptr mgr')"
| step_destroy: "mgr_step mgr (drop_tx_of_mstb mstb mgr)"
| step_sink: "mgr_step mgr (mgr\<lparr>mgr_hw := a\<rparr>)"
| step_topology: "mgr_step mgr (mgr\<lparr>mst_primary := primary, reset_rx_state := reset \<or> reset_rx_state mgr\<rparr>)"

definition mgr_start :: "'a drm_dp_aux \<Rightarrow> 'a \<Rightarrow> nat \<Rightarrow> 'a drm_dp_mst_topology_mgr" where
  "mgr_start aux a maxb = \<lparr>mgr_aux = aux, mgr_hw = a, max_dpcd_transaction_bytes = maxb, mst_primary = None, sink_count = 0,
     tx_msg_downq = [], finished = [], down_rep_recv = reset_msg_rx_state, up_req_recv = reset_msg_rx_state,
     reset_rx_state = False, up_req_list = [], tx_work_queued = False, up_req_work_queued = False\<rparr>"

lemma kick_tx_inv [simp]: "mgr_inv (drm_dp_mst_kick_tx mgr) = mgr_inv mgr"
  by (simp add: drm_dp_mst_kick_tx_def mgr_inv_def mgr_ptrs_def)

lemma remove_tx_inv:
  assumes "mgr_inv mgr"
  shows "mgr_inv (mgr\<lparr>tx_msg_downq := remove1 tx (tx_msg_downq mgr)\<rparr>)"
proof -
  have "tx_ptr ` set (remove1 tx (tx_msg_downq mgr)) \<subseteq> tx_ptr ` set (tx_msg_downq mgr)" by (intro image_mono set_remove1_subset)
  then have "(tx_ptr ` set (remove1 tx (tx_msg_downq mgr))) \<inter> (\<lambda>x. tx_ptr (fst x)) ` set (finished mgr) = {}"
    using assms by (auto simp: mgr_inv_def mgr_ptrs_def)
  then show ?thesis
    using assms by (simp add: mgr_inv_def mgr_ptrs_def queue_ok_remove1 distinct_map_remove1)
qed

lemma free_tx_inv:
  assumes "mgr_inv mgr"
  shows "mgr_inv (free_tx ptr mgr)"
proof -
  have "distinct (map (tx_ptr \<circ> fst) (filter P l))" if "distinct (map (tx_ptr \<circ> fst) l)"
    for P and l :: "(drm_dp_sideband_msg_tx \<times> drm_dp_sideband_msg_reply_body option) list"
    using that by (rule distinct_map_filter)
  then show ?thesis using assms by (auto simp: mgr_inv_def mgr_ptrs_def free_tx_def)
qed

lemma wait_inv: "drm_dp_mst_wait_tx_reply mgr ptr woken = Some (ret, mgr') \<Longrightarrow> mgr_inv mgr \<Longrightarrow> mgr_inv mgr'"
  by (auto simp: drm_dp_mst_wait_tx_reply_def remove_tx_inv split: option.splits if_splits)

lemma drop_tx_inv:
  assumes "mgr_inv mgr"
  shows "mgr_inv (drop_tx_of_mstb mstb mgr)"
proof -
  let ?P = "\<lambda>tx. branch_ptr (dst tx) = mstb"
  have "distinct (map tx_ptr (filter (\<lambda>tx. \<not> ?P tx) q) @ map tx_ptr (filter ?P q))" if "distinct (map tx_ptr q)" for q
    using that by (induction q) auto
  then show ?thesis
    using assms queue_ok_filter by (auto simp: mgr_inv_def mgr_ptrs_def drop_tx_of_mstb_def done_ok_def comp_def)
qed

lemma mgr_step_inv: "mgr_step mgr mgr' \<Longrightarrow> mgr_inv mgr \<Longrightarrow> mgr_inv mgr'"
proof (induction rule: mgr_step.induct)
  case (step_queue tx mgr mgr')
  then show ?case by (metis queue_down_inv)
next
  case (step_request mgr)
  then show ?case by (simp add: drm_dp_mst_hpd_irq_send_new_request_def split: list.split)
next
  case (step_sink mgr a)
  then show ?case by (simp add: mgr_inv_def mgr_ptrs_def)
next
  case (step_topology mgr primary reset)
  then show ?case by (simp add: mgr_inv_def mgr_ptrs_def)
qed (blast intro: tx_work_inv irq_inv free_tx_inv wait_inv drop_tx_inv)+

text \<open>
  C5. The queue of down requests in every reachable state: only the first message of the queue is on its way
  (messages are never interleaved), its offset is below the length while it is being sent and equal to it when its state
  is \<open>SENT\<close>, every other message is untouched; a message that left the queue has the state \<open>RX\<close>, and
  then a reply, or \<open>TIMEOUT\<close>, and then none; no message is in the queue or finished twice; and the receive
  buffers keep their sizes.
\<close>

theorem mgr_reachable_inv:
  assumes "mgr_step\<^sup>*\<^sup>* (mgr_start aux a maxb) mgr"
  shows "mgr_inv mgr"
  using assms
proof (induction rule: rtranclp_induct)
  case base
  show ?case by (simp add: mgr_inv_def mgr_start_def queue_ok_def mgr_ptrs_def)
next
  case (step m m')
  then show ?case by (simp add: mgr_step_inv)
qed

section \<open>Replies complete the message they answer\<close>

text \<open>The header of the reply that is in the registers of the sink, if it can be read and has a correct CRC.\<close>

definition reply_hdr :: "'a drm_dp_aux \<Rightarrow> nat \<Rightarrow> 'a \<Rightarrow> drm_dp_sideband_msg_hdr option" where
  "reply_hdr aux maxb a =
     (case drm_dp_dpcd_read_data aux DP_SIDEBAND_MSG_DOWN_REP_BASE (min maxb 16) a of
        (ret, block, _) \<Rightarrow>
          if ret < 0 then None
          else (case drm_dp_decode_sideband_msg_hdr zero_hdr block (min maxb 16) 0 of (ok, hdr, _) \<Rightarrow> if ok then Some hdr else None))"

lemma get_one_sender:
  assumes "get_one_sb_msg aux maxb False primary rx a = Some (True, Some b, rx', a')"
  shows "\<exists>hdr. reply_hdr aux maxb a = Some hdr \<and> drm_dp_get_mst_branch_device primary (lct hdr) (rad hdr) = Some b"
proof -
  obtain r block c where t: "drm_dp_dpcd_read_data aux DP_SIDEBAND_MSG_DOWN_REP_BASE (min maxb 16) a = (r, block, c)" by (metis prod_cases3)
  obtain hok hdr hl where d: "drm_dp_decode_sideband_msg_hdr zero_hdr block (min maxb 16) 0 = (hok, hdr, hl)" by (metis prod_cases3)
  show ?thesis
    using assms [unfolded get_one_sb_msg_def Let_def if_False t prod.case d]
    by (auto simp: reply_hdr_def t d simp del: read_rest.simps split: if_splits option.splits bool.splits prod.splits)
qed

lemma parse_reply_type:
  "drm_dp_sideband_parse_reply msg len = Some (ok, reply) \<Longrightarrow> rep_req_type reply = get_msg_request_type (msg ! 0)"
  by (auto simp: drm_dp_sideband_parse_reply_def get_msg_request_type_def rd_def bind_eq_Some_conv Let_def split: if_splits)

text \<open>
  C11. A down reply interrupt leaves the queue and the finished messages as they are, or completes the
  first message of the queue and no other: then the last chunk of a reply was received, the message stored is what the reply parser gives for the reassembled bytes and of the type of the
  request, the branch device that the address in the header of the chunk names is the one the request was sent to, and the receive state is
  cleared for the next reply.
\<close>

theorem down_rep_completes_head:
  assumes "drm_dp_mst_handle_down_rep mgr = Some mgr'"
  shows "(tx_msg_downq mgr' = tx_msg_downq mgr \<and> finished mgr' = finished mgr) \<or>
    (\<exists>tx reply ok b hdr msg a. tx_msg_downq mgr = tx # tx_msg_downq mgr' \<and>
       finished mgr' = (tx\<lparr>tx_state := DRM_DP_SIDEBAND_TX_RX\<rparr>, Some reply) # finished mgr \<and>
       rep_req_type reply = get_msg_request_type (tx_msg tx ! 0) \<and>
       get_one_sb_msg (mgr_aux mgr) (max_dpcd_transaction_bytes mgr) False (mst_primary mgr) (down_rep_recv mgr) (mgr_hw mgr) =
         Some (True, Some b, msg, a) \<and> have_eomt msg \<and> drm_dp_sideband_parse_reply (rx_msg msg) (curlen msg) = Some (ok, reply) \<and>
       reply_hdr (mgr_aux mgr) (max_dpcd_transaction_bytes mgr) (mgr_hw mgr) = Some hdr \<and>
       drm_dp_get_mst_branch_device (mst_primary mgr) (lct hdr) (rad hdr) = Some b \<and> branch_ptr (mstb_info b) = branch_ptr (dst tx) \<and>
       down_rep_recv mgr' = reset_msg_rx_state)"
  using assms
proof (cases rule: handle_down_rep_cases)
  case (1 ok mstb msg a)
  from 1(2) show ?thesis
  proof (elim disjE exE conjE)
    fix tx q b ok' reply
    assume h: "tx_msg_downq mgr = tx # q" "mstb = Some b" ok "have_eomt msg" "branch_ptr (dst tx) = branch_ptr (mstb_info b)"
      "verify_rx_request_type tx msg" "drm_dp_sideband_parse_reply (rx_msg msg) (curlen msg) = Some (ok', reply)"
      "mgr' = clear_down_rep (mgr\<lparr>mgr_hw := a, tx_msg_downq := q,
           finished := (tx\<lparr>tx_state := DRM_DP_SIDEBAND_TX_RX\<rparr>, Some reply) # finished mgr\<rparr>)"
    have get: "get_one_sb_msg (mgr_aux mgr) (max_dpcd_transaction_bytes mgr) False (mst_primary mgr) (down_rep_recv mgr) (mgr_hw mgr) =
        Some (True, Some b, msg, a)" using 1(1) h(2,3) by simp
    from get_one_sender [OF get] obtain hdr where "reply_hdr (mgr_aux mgr) (max_dpcd_transaction_bytes mgr) (mgr_hw mgr) = Some hdr"
      "drm_dp_get_mst_branch_device (mst_primary mgr) (lct hdr) (rad hdr) = Some b" by blast
    moreover have "rep_req_type reply = get_msg_request_type (tx_msg tx ! 0)"
      using parse_reply_type [OF h(7)] h(6) by (simp add: verify_rx_request_type_def)
    moreover have "tx_msg_downq mgr' = q" "down_rep_recv mgr' = reset_msg_rx_state"
      "finished mgr' = (tx\<lparr>tx_state := DRM_DP_SIDEBAND_TX_RX\<rparr>, Some reply) # finished mgr"
      using h(8) by (simp_all add: clear_down_rep_def)
    ultimately show ?thesis using h(1,4,5,7) get
      by (intro disjI2 exI [of _ tx] exI [of _ reply] exI [of _ ok'] exI [of _ b] exI [of _ hdr] exI [of _ msg] exI [of _ a]) simp
  qed (auto simp: clear_down_rep_def)
qed

text \<open>A manager that waits for the reply to a request to power up a port of its only branch device.\<close>

definition ex_top :: drm_dp_mst_branch where
  "ex_top = ex_branch\<lparr>branch_lct := 1, branch_rad := replicate 8 0\<rparr>"

definition ex_request :: drm_dp_sideband_msg_tx where
  "ex_request = ex_tx\<lparr>tx_msg := DP_POWER_UP_PHY # replicate 255 0, cur_len := 2, dst := ex_top\<rparr>"

definition ex_mgr :: "sink drm_dp_mst_topology_mgr" where
  "ex_mgr = (mgr_start (sink_aux True) (showing (recv_base False) (fst (tx_chunk ex_request))) 16)
     \<lparr>mst_primary := Some (Mstb ex_top []),
      tx_msg_downq := [ex_request\<lparr>cur_offset := 2, tx_state := DRM_DP_SIDEBAND_TX_SENT\<rparr>]\<rparr>"

lemma ex_reply_received:
  "\<exists>rx a. get_one_sb_msg (sink_aux True) 16 False (Some (Mstb ex_top [])) reset_msg_rx_state
       (showing (recv_base False) (fst (tx_chunk ex_request))) = Some (True, Some (Mstb ex_top []), rx, a) \<and>
     have_eomt rx \<and> rx_msg rx = DP_POWER_UP_PHY # 0 # replicate 254 0"
proof -
  have wf: "tx_wf ex_request" by (simp add: tx_wf_def ex_request_def ex_tx_def ex_top_def)
  have n: "snd (tx_chunk ex_request) = 2" "lct (chunk_hdr ex_request) = 1"
    by (simp_all add: tx_chunk_def chunk_hdr_def set_hdr_from_dst_qlock_def ex_request_def ex_tx_def ex_top_def drm_dp_calc_sb_hdr_size_def
      DP_POWER_UP_PHY_def DP_CONNECTION_STATUS_NOTIFY_def DP_RESOURCE_STATUS_NOTIFY_def DP_CLEAR_PAYLOAD_ID_TABLE_def Let_def)
  have look: "drm_dp_get_mst_branch_device (Some (Mstb ex_top [])) (lct (chunk_hdr ex_request)) (rad (chunk_hdr ex_request)) = Some (Mstb ex_top [])"
    by (simp add: drm_dp_get_mst_branch_device_def n try_get_def ex_top_def ex_branch_def)
  let ?s = "showing (recv_base False) (fst (tx_chunk ex_request))" and ?p = "drm_dp_crc_sideband_chunk_req (chunk_body ex_request)"
  have h: "sink.holds ?s (if False then DP_SIDEBAND_MSG_UP_REQ_BASE else DP_SIDEBAND_MSG_DOWN_REP_BASE)
      (drm_dp_encode_sideband_msg_hdr (chunk_hdr ex_request) @ ?p)"
    using holds_showing [of "recv_base False" "fst (tx_chunk ex_request)"] tx_chunk_eq [OF wf] by (simp add: recv_base_def)
  have body: "chunk_body ex_request = [DP_POWER_UP_PHY, 0]"
    by (simp add: chunk_body_def n) (simp add: ex_request_def ex_tx_def numeral_2_eq_2)
  have flags: "somt (chunk_hdr ex_request)" "eomt (chunk_hdr ex_request)"
    by (simp_all add: chunk_hdr_def n) (simp_all add: ex_request_def ex_tx_def)
  have "\<exists>rx' a'. get_one_sb_msg (sink_aux True) 16 False (Some (Mstb ex_top [])) reset_msg_rx_state ?s =
      Some (True, if False then None else drm_dp_get_mst_branch_device (Some (Mstb ex_top [])) (lct (chunk_hdr ex_request)) (rad (chunk_hdr ex_request)), rx', a') \<and>
      appended (rx_header reset_msg_rx_state (chunk_hdr ex_request)) (butlast ?p) rx' \<and> sink_regs a' = sink_regs ?s"
    by (rule ready_sink.get_one_chunk [OF chunk_hdr_wf [OF wf] h])
      (simp_all add: look flags body drm_dp_crc_sideband_chunk_req_def, simp_all add: reset_msg_rx_state_def showing_def)
  then show ?thesis
    unfolding look if_False
    by (auto simp: appended_def rx_header_def body flags drm_dp_crc_sideband_chunk_req_def reset_msg_rx_state_def)
qed

theorem down_rep_completes_head_witness:
  "\<exists>mgr'. drm_dp_mst_handle_down_rep ex_mgr = Some mgr' \<and> tx_msg_downq mgr' = [] \<and>
     map (tx_state \<circ> fst) (finished mgr') = [DRM_DP_SIDEBAND_TX_RX]"
proof -
  obtain rx a where g: "get_one_sb_msg (mgr_aux ex_mgr) (max_dpcd_transaction_bytes ex_mgr) False (mst_primary ex_mgr)
      (down_rep_recv ex_mgr) (mgr_hw ex_mgr) = Some (True, Some (Mstb ex_top []), rx, a)"
    "have_eomt rx" "rx_msg rx = DP_POWER_UP_PHY # 0 # replicate 254 0"
    using ex_reply_received by (auto simp: ex_mgr_def mgr_start_def)
  obtain ok reply where "drm_dp_sideband_parse_reply (rx_msg rx) (curlen rx) = Some (ok, reply)"
    unfolding g(3)
    by (simp add: drm_dp_sideband_parse_reply_def parse_ack_def drm_dp_sideband_parse_power_updown_phy_ack_def rd_def Let_def
      DP_POWER_UP_PHY_def DP_LINK_ADDRESS_def DP_QUERY_PAYLOAD_def DP_REMOTE_DPCD_READ_def DP_REMOTE_DPCD_WRITE_def
      DP_REMOTE_I2C_READ_def DP_REMOTE_I2C_WRITE_def DP_ENUM_PATH_RESOURCES_def DP_ALLOCATE_PAYLOAD_def)
  then have "\<exists>mgr'. drm_dp_mst_handle_down_rep ex_mgr = Some mgr' \<and> tx_msg_downq mgr' = []"
    unfolding drm_dp_mst_handle_down_rep_def g(1)
    by (simp add: g ex_mgr_def mgr_start_def Let_def clear_down_rep_def verify_rx_request_type_def ex_request_def)
  then obtain mgr' where m: "drm_dp_mst_handle_down_rep ex_mgr = Some mgr'" "tx_msg_downq mgr' = []" by blast
  have "tx_msg_downq ex_mgr \<noteq> []" "finished ex_mgr = []" by (simp_all add: ex_mgr_def mgr_start_def)
  then show ?thesis using down_rep_completes_head [OF m(1)] m by auto
qed

section \<open>Progress\<close>

primrec work_runs :: "nat \<Rightarrow> 'a drm_dp_mst_topology_mgr \<Rightarrow> 'a drm_dp_mst_topology_mgr option" where
  "work_runs 0 mgr = Some mgr"
| "work_runs (Suc n) mgr = (case drm_dp_tx_work mgr of None \<Rightarrow> None | Some mgr \<Rightarrow> work_runs n mgr)"

text \<open>A set of states of the sink in which it accepts every write.\<close>

definition accepts_writes :: "'a drm_dp_aux \<Rightarrow> 'a set \<Rightarrow> bool" where
  "accepts_writes aux W \<longleftrightarrow> (\<forall>off bs. \<forall>a \<in> W. \<exists>a' \<in> W. drm_dp_dpcd_write_data aux off bs a = (0, a'))"

lemma send_loop_succeeds:
  assumes "accepts_writes aux W" and "a \<in> W" and "send_loop fuel aux maxb base msg off retries a = Some (ret, a')"
  shows "ret = 0 \<and> a' \<in> W"
  using assms(2,3)
proof (induction fuel arbitrary: off retries a)
  case (Suc fuel)
  obtain b where "drm_dp_dpcd_write_data aux (base + off) (take (min (min maxb 16) (length msg - off)) (drop off msg)) a = (0, b)" "b \<in> W"
    using assms(1) Suc.prems(1) unfolding accepts_writes_def by blast
  then show ?case using Suc by (auto simp: Let_def split: if_splits)
qed simp

lemma process_single_tx_progress:
  assumes w: "accepts_writes aux W" "a \<in> W" and "0 < maxb" and ns: "tx_state tx \<noteq> DRM_DP_SIDEBAND_TX_SENT"
  obtains a' where "process_single_tx_qlock aux maxb tx up a =
    (if cur_offset (next_tx (started tx)) = cur_len tx
     then Some (1, (next_tx (started tx))\<lparr>tx_state := DRM_DP_SIDEBAND_TX_SENT\<rparr>, a') else Some (0, next_tx (started tx), a'))" "a' \<in> W"
proof -
  obtain r b where s: "drm_dp_send_sideband_msg aux maxb up (fst (tx_chunk (started tx))) a = Some (r, b)"
    using send_sideband_returns [OF assms(3), of aux up "fst (tx_chunk (started tx))" a] by blast
  then have "r = 0" "b \<in> W" using send_loop_succeeds [OF w] by (auto simp: drm_dp_send_sideband_msg_def Let_def)
  moreover have "process_single_tx_qlock aux maxb tx up a =
    (if cur_offset (next_tx (started tx)) = cur_len tx
     then Some (1, (next_tx (started tx))\<lparr>tx_state := DRM_DP_SIDEBAND_TX_SENT\<rparr>, b) else Some (0, next_tx (started tx), b))"
    using ns s \<open>r = 0\<close> by (auto simp: process_single_tx_qlock_def Let_def next_tx_def started_def split: prod.splits)
  ultimately show thesis using that by blast
qed

lemma chunks_cong:
  assumes "tx_msg t = tx_msg t'" "cur_offset t = cur_offset t'" "cur_len t = cur_len t'" "dst t = dst t'" "tx_path_msg t = tx_path_msg t'"
  shows "tx_chunk t = tx_chunk t'" and "tx_wf t = tx_wf t'"
  using assms by (simp_all add: tx_chunk_def set_hdr_from_dst_qlock_def tx_wf_def Let_def)

lemma length_chunks_started: "length (tx_chunks (started tx)) = length (tx_chunks tx)"
proof -
  have gen: "length (tx_chunks t) = length (tx_chunks t')"
    if "tx_msg t = tx_msg t'" "cur_offset t = cur_offset t'" "cur_len t = cur_len t'" "dst t = dst t'" "tx_path_msg t = tx_path_msg t'" for t t'
    using that
  proof (induction t arbitrary: t' rule: tx_chunks.induct)
    case (1 t)
    have c: "tx_chunk t = tx_chunk t'" "tx_wf t = tx_wf t'" by (rule chunks_cong [OF 1(2-)])+
    have "length (tx_chunks (next_tx t)) = length (tx_chunks (next_tx t'))" if "tx_wf t \<and> cur_offset t \<noteq> cur_len t"
      by (rule 1(1) [OF that]) (simp_all add: next_tx_def c 1(2-))
    then show ?case unfolding tx_chunks.simps [of t] tx_chunks.simps [of t'] by (simp add: c 1(3,4))
  qed
  show ?thesis by (rule gen) (simp_all add: started_def)
qed

text \<open>
  C30. Progress of the transmit work: as long as the sink accepts writes, running \<open>drm_dp_tx_work\<close> once for
  every chunk of the first message of the queue sends the message completely, in the order of the queue and
  without touching the messages behind it.
\<close>

theorem tx_work_sends_head:
  assumes "accepts_writes (mgr_aux mgr) W" and "mgr_hw mgr \<in> W" and "0 < max_dpcd_transaction_bytes mgr"
    and "tx_msg_downq mgr = tx # q" and "tx_ok tx" and "cur_offset tx \<noteq> cur_len tx"
  shows "\<exists>mgr' tx'. work_runs (length (tx_chunks tx)) mgr = Some mgr' \<and> tx_msg_downq mgr' = tx' # q \<and>
    tx_ptr tx' = tx_ptr tx \<and> tx_state tx' = DRM_DP_SIDEBAND_TX_SENT \<and> cur_offset tx' = cur_len tx \<and> finished mgr' = finished mgr"
  using assms
proof (induction "length (tx_chunks tx)" arbitrary: mgr tx rule: less_induct)
  case less
  have ns: "tx_state tx \<noteq> DRM_DP_SIDEBAND_TX_SENT" using less(6,7) by (auto simp: tx_ok_def)
  note st = started_ok [OF less(6) ns]
  have len: "length (tx_chunks tx) = Suc (length (tx_chunks (next_tx (started tx))))"
    unfolding length_chunks_started [of tx, symmetric] using st less(7) by (subst tx_chunks.simps) (simp add: started_def)
  obtain a where p: "process_single_tx_qlock (mgr_aux mgr) (max_dpcd_transaction_bytes mgr) tx False (mgr_hw mgr) =
      (if cur_offset (next_tx (started tx)) = cur_len tx
       then Some (1, (next_tx (started tx))\<lparr>tx_state := DRM_DP_SIDEBAND_TX_SENT\<rparr>, a) else Some (0, next_tx (started tx), a))" "a \<in> W"
    using process_single_tx_progress [OF less(2,3,4) ns] by metis
  have n: "tx_wf (next_tx (started tx))" "cur_len (next_tx (started tx)) = cur_len tx" "tx_ptr (next_tx (started tx)) = tx_ptr tx"
    "tx_state (next_tx (started tx)) = DRM_DP_SIDEBAND_TX_START_SEND"
    using next_tx_offset(2) st by (auto simp: next_tx_def started_def)
  show ?case
  proof (cases "cur_offset (next_tx (started tx)) = cur_len tx")
    case True
    have "tx_chunks (next_tx (started tx)) = []" using True n(2) by (simp add: tx_chunks.simps)
    then show ?thesis
      using len p(1) True less(5) n by (simp add: drm_dp_tx_work_def process_single_down_tx_qlock_def)
  next
    case False
    let ?m = "mgr\<lparr>tx_work_queued := False, mgr_hw := a, tx_msg_downq := next_tx (started tx) # q\<rparr>"
    have w: "drm_dp_tx_work mgr = Some ?m"
      using p(1) False less(5) by (simp add: drm_dp_tx_work_def process_single_down_tx_qlock_def)
    have "\<exists>mgr' tx'. work_runs (length (tx_chunks (next_tx (started tx)))) ?m = Some mgr' \<and> tx_msg_downq mgr' = tx' # q \<and>
        tx_ptr tx' = tx_ptr (next_tx (started tx)) \<and> tx_state tx' = DRM_DP_SIDEBAND_TX_SENT \<and>
        cur_offset tx' = cur_len (next_tx (started tx)) \<and> finished mgr' = finished ?m"
      by (rule less(1)) (use len less(2,4) n False p(2) in \<open>auto simp: tx_ok_def\<close>)
    then show ?thesis unfolding len using w n by simp
  qed
qed

lemma sink_accepts_writes: "accepts_writes (sink_aux nz) {s. sink_defers s = 0}"
  unfolding accepts_writes_def
proof (intro allI ballI)
  fix off bs and s :: sink assume s: "s \<in> {s. sink_defers s = 0}"
  let ?m = "native_msg DP_AUX_NATIVE_WRITE off bs"
  obtain s' where "aux_transfer (sink_aux nz) ?m s = (int (length bs), 0, bs, s')" "sink_defers s' = 0"
    using s by (simp add: sink_aux_def sink_transfer_def native_msg_def aux_codes)
  moreover have "\<not> powered_down (sink_aux nz)" "\<not> is_remote (sink_aux nz)" by (simp_all add: sink_aux_def)
  ultimately have "drm_dp_dpcd_write_data (sink_aux nz) off bs s = (0, s')"
    by (simp add: drm_dp_dpcd_write_data_def drm_dp_dpcd_write_def drm_dp_dpcd_access_def numeral_eq_Suc DP_AUX_NATIVE_REPLY_ACK_def)
      (simp add: native_msg_def)
  then show "\<exists>a'\<in>{s. sink_defers s = 0}. drm_dp_dpcd_write_data (sink_aux nz) off bs s = (0, a')"
    using \<open>sink_defers s' = 0\<close> by auto
qed

theorem tx_work_sends_head_witness:
  "\<exists>mgr' tx'. work_runs (length (tx_chunks ex_long)) ((mgr_start (sink_aux True) (showing 0 []) 16)\<lparr>tx_msg_downq := [ex_long, ex_tx]\<rparr>) = Some mgr' \<and>
     tx_msg_downq mgr' = [tx', ex_tx] \<and> tx_state tx' = DRM_DP_SIDEBAND_TX_SENT \<and> cur_offset tx' = 60"
  using tx_work_sends_head [of "(mgr_start (sink_aux True) (showing 0 []) 16)\<lparr>tx_msg_downq := [ex_long, ex_tx]\<rparr>" "{s. sink_defers s = 0}" ex_long "[ex_tx]"]
    sink_accepts_writes [of True]
  by (auto simp: mgr_start_def showing_def tx_ok_def tx_wf_def ex_long_def ex_tx_def ex_branch_def)

text \<open>
  C40. A request that needs more than one chunk, queued on an idle manager, stays half sent: queueing writes the first chunk
  only, the message is in the state \<open>START_SEND\<close>, and \<open>drm_dp_mst_hpd_irq_send_new_request\<close>, which a
  driver calls after an interrupt, then does not schedule the transmit work that would send the rest.
\<close>

theorem multi_chunk_stalls:
  assumes "accepts_writes (mgr_aux mgr) W" and "mgr_hw mgr \<in> W" and "0 < max_dpcd_transaction_bytes mgr"
    and "tx_msg_downq mgr = []" and "\<not> tx_work_queued mgr"
    and "tx_ok tx" and "tx_state tx = DRM_DP_SIDEBAND_TX_QUEUED" and "1 < length (tx_chunks tx)"
  shows "\<exists>mgr' tx'. drm_dp_queue_down_tx mgr tx = Some mgr' \<and> tx_msg_downq mgr' = [tx'] \<and> cur_offset tx' \<noteq> cur_len tx \<and>
    tx_state tx' = DRM_DP_SIDEBAND_TX_START_SEND \<and> drm_dp_mst_hpd_irq_send_new_request mgr' = mgr' \<and> \<not> tx_work_queued mgr'"
proof -
  have ns: "tx_state tx \<noteq> DRM_DP_SIDEBAND_TX_SENT" using assms(7) by simp
  note st = started_ok [OF assms(6) ns]
  obtain a where p: "process_single_tx_qlock (mgr_aux mgr) (max_dpcd_transaction_bytes mgr) tx False (mgr_hw mgr) =
      (if cur_offset (next_tx (started tx)) = cur_len tx
       then Some (1, (next_tx (started tx))\<lparr>tx_state := DRM_DP_SIDEBAND_TX_SENT\<rparr>, a) else Some (0, next_tx (started tx), a))"
    using process_single_tx_progress [OF assms(1-3) ns] by metis
  have len: "1 < length (tx_chunks (started tx))" using assms(8) by (simp add: length_chunks_started)
  then have "tx_chunks (next_tx (started tx)) \<noteq> []"
    by (subst (asm) tx_chunks.simps) (auto split: if_splits)
  then have more: "cur_offset (next_tx (started tx)) \<noteq> cur_len tx"
    by (subst (asm) tx_chunks.simps) (auto simp: next_tx_def started_def split: if_splits)
  let ?m = "mgr\<lparr>mgr_hw := a, tx_msg_downq := [next_tx (started tx)]\<rparr>"
  have "drm_dp_queue_down_tx mgr tx = Some ?m"
    using assms(4) p more by (simp add: drm_dp_queue_down_tx_def process_single_down_tx_qlock_def)
  moreover have "tx_state (next_tx (started tx)) = DRM_DP_SIDEBAND_TX_START_SEND" using st by (simp add: next_tx_def)
  ultimately show ?thesis using more assms(5) by (simp add: drm_dp_mst_hpd_irq_send_new_request_def)
qed

theorem multi_chunk_stalls_witness:
  "\<exists>mgr' tx'. drm_dp_queue_down_tx (mgr_start (sink_aux True) (showing 0 []) 16) ex_long = Some mgr' \<and> tx_msg_downq mgr' = [tx'] \<and>
     cur_offset tx' \<noteq> 60 \<and> drm_dp_mst_hpd_irq_send_new_request mgr' = mgr' \<and> \<not> tx_work_queued mgr'"
proof -
  have "1 < length (tx_chunks ex_long)" by (simp add: length_ex_long)
  with multi_chunk_stalls [of "mgr_start (sink_aux True) (showing 0 []) 16" "{s. sink_defers s = 0}" ex_long] sink_accepts_writes [of True]
  show ?thesis by (auto simp: mgr_start_def showing_def tx_ok_def tx_wf_def ex_long_def ex_tx_def ex_branch_def)
qed

theorem mgr_reachable_inv_witness:
  "\<exists>mgr. drm_dp_queue_down_tx (mgr_start (sink_aux True) (showing 0 []) 16) ex_long = Some mgr \<and> mgr_inv mgr"
proof -
  let ?m = "mgr_start (sink_aux True) (showing 0 []) 16"
  obtain ret tx' a where "process_single_tx_qlock (sink_aux True) 16 ex_long False (showing 0 []) = Some (ret, tx', a)"
    using process_single_tx_returns [of 16] by (metis prod_cases3 zero_less_numeral)
  then obtain mgr where q: "drm_dp_queue_down_tx ?m ex_long = Some mgr"
    by (simp add: drm_dp_queue_down_tx_def process_single_down_tx_qlock_def mgr_start_def Let_def)
  have "mgr_step ?m mgr"
    by (rule step_queue [OF _ _ _ _ q]) (simp_all add: tx_wf_def ex_long_def ex_tx_def ex_branch_def mgr_ptrs_def mgr_start_def)
  then show ?thesis using mgr_reachable_inv [of "sink_aux True" "showing 0 []" 16 mgr] q by auto
qed

end
