(* ===== verification/List_Head.thy ===== *)
theory List_Head
  imports DRM_Prelude
begin

text \<open>
  The doubly linked lists of \<open>include/linux/list.h\<close>. A \<open>struct list_head\<close> is embedded in every entry; \<open>'p\<close> is
  the type of the entries' addresses, and \<open>L p\<close> the list head embedded in the entry at \<open>p\<close>. The operations are the assignments of the
  source in their order, without the checks of \<open>CONFIG_LIST_HARDENED\<close>.

  The predicate \<open>ring L h ps\<close> relates the pointers to the list they represent. It is proved that the operations change the list the
  way their comments say, and that adding an entry after the predecessor it still points to undoes its deletion exactly.
\<close>

record 'p list_head =
  list_next :: 'p
  list_prev :: 'p

section \<open>Operations\<close>

definition INIT_LIST_HEAD :: "'p \<Rightarrow> ('p \<Rightarrow> 'p list_head) \<Rightarrow> 'p \<Rightarrow> 'p list_head" where
  "INIT_LIST_HEAD h L = L(h := \<lparr>list_next = h, list_prev = h\<rparr>)"

definition set_next :: "'p \<Rightarrow> 'p \<Rightarrow> ('p \<Rightarrow> 'p list_head) \<Rightarrow> 'p \<Rightarrow> 'p list_head" where
  "set_next p q L = L(p := (L p)\<lparr>list_next := q\<rparr>)"

definition set_prev :: "'p \<Rightarrow> 'p \<Rightarrow> ('p \<Rightarrow> 'p list_head) \<Rightarrow> 'p \<Rightarrow> 'p list_head" where
  "set_prev p q L = L(p := (L p)\<lparr>list_prev := q\<rparr>)"

definition list_add_between :: "'p \<Rightarrow> 'p \<Rightarrow> 'p \<Rightarrow> ('p \<Rightarrow> 'p list_head) \<Rightarrow> 'p \<Rightarrow> 'p list_head" where
  "list_add_between new prv nxt L = set_next prv new (set_prev new prv (set_next new nxt (set_prev nxt new L)))"

definition list_add :: "'p \<Rightarrow> 'p \<Rightarrow> ('p \<Rightarrow> 'p list_head) \<Rightarrow> 'p \<Rightarrow> 'p list_head" where
  "list_add new h L = list_add_between new h (list_next (L h)) L"

definition list_del_between :: "'p \<Rightarrow> 'p \<Rightarrow> ('p \<Rightarrow> 'p list_head) \<Rightarrow> 'p \<Rightarrow> 'p list_head" where
  "list_del_between prv nxt L = set_next prv nxt (set_prev nxt prv L)"

definition list_del_entry :: "'p \<Rightarrow> ('p \<Rightarrow> 'p list_head) \<Rightarrow> 'p \<Rightarrow> 'p list_head" where
  "list_del_entry p L = list_del_between (list_prev (L p)) (list_next (L p)) L"

text \<open>\<open>list_del\<close> overwrites the pointers of the entry with \<open>LIST_POISON1\<close> and \<open>LIST_POISON2\<close>, the arguments \<open>p1\<close> and \<open>p2\<close>.\<close>

definition list_del :: "'p \<Rightarrow> 'p \<Rightarrow> 'p \<Rightarrow> ('p \<Rightarrow> 'p list_head) \<Rightarrow> 'p \<Rightarrow> 'p list_head" where
  "list_del p1 p2 p L = set_prev p p2 (set_next p p1 (list_del_entry p L))"

lemmas list_head_defs = INIT_LIST_HEAD_def set_next_def set_prev_def list_add_between_def list_add_def
  list_del_between_def list_del_entry_def list_del_def

section \<open>The represented list\<close>

text \<open>Consecutive entries of a path point to each other; a ring is a path of distinct entries that leads back to its head.\<close>

fun chain :: "('p \<Rightarrow> 'p list_head) \<Rightarrow> 'p list \<Rightarrow> bool" where
  "chain L (a # b # xs) = (list_next (L a) = b \<and> list_prev (L b) = a \<and> chain L (b # xs))"
| "chain L _ = True"

definition ring :: "('p \<Rightarrow> 'p list_head) \<Rightarrow> 'p \<Rightarrow> 'p list \<Rightarrow> bool" where
  "ring L h ps \<longleftrightarrow> chain L (h # ps @ [h]) \<and> distinct (h # ps)"

lemma chain_append: "chain L (xs @ a # ys) \<longleftrightarrow> chain L (xs @ [a]) \<and> chain L (a # ys)"
proof (induction xs)
  case (Cons x xs)
  then show ?case by (cases xs) auto
qed simp

lemma chain_cong:
  "(\<And>a. a \<in> set (butlast xs) \<Longrightarrow> list_next (L a) = list_next (M a)) \<Longrightarrow>
   (\<And>b. b \<in> set (tl xs) \<Longrightarrow> list_prev (L b) = list_prev (M b)) \<Longrightarrow> chain L xs = chain M xs"
  by (induction L xs rule: chain.induct) auto

lemma ring_next_head: "ring L h ps \<Longrightarrow> list_next (L h) = hd (ps @ [h])"
  by (cases ps) (auto simp: ring_def)

lemma ring_next:
  assumes "ring L h (as @ p # bs)"
  shows "list_next (L p) = hd (bs @ [h])"
proof -
  have "chain L (p # bs @ [h])" using assms chain_append [of L "h # as" p "bs @ [h]"] by (simp add: ring_def)
  then show ?thesis by (cases bs) auto
qed

lemma ring_prev:
  assumes "ring L h (as @ p # bs)"
  shows "list_prev (L p) = last (h # as)"
proof -
  have "chain L ((h # as) @ [p])" using assms chain_append [of L "h # as" p "bs @ [h]"] by (simp add: ring_def)
  then show ?thesis using chain_append [of L "butlast (h # as)" "last (h # as)" "[p]"]
    by (metis append_butlast_last_id append_eq_appendI append_Cons append_Nil chain.simps(1) list.distinct(1))
qed

lemma INIT_LIST_HEAD_ring: "ring (INIT_LIST_HEAD h L) h []"
  by (simp add: ring_def INIT_LIST_HEAD_def)

text \<open>Adding after an entry.\<close>

lemma list_add_next:
  "p \<noteq> q \<Longrightarrow> list_next (list_add p q L x) = (if x = q then p else if x = p then list_next (L q) else list_next (L x))"
  by (simp add: list_head_defs)

lemma list_add_prev:
  "p \<noteq> list_next (L q) \<Longrightarrow>
   list_prev (list_add p q L x) = (if x = p then q else if x = list_next (L q) then p else list_prev (L x))"
  by (simp add: list_head_defs)

lemma list_add_ring:
  assumes ring: "ring L h (as @ bs)" and q: "q = last (h # as)" and fresh: "p \<notin> set (h # as @ bs)"
  shows "ring (list_add p q L) h (as @ p # bs)"
proof -
  let ?M = "list_add p q L"
  obtain xs where ha: "h # as = xs @ [q]" using q by (metis append_butlast_last_id list.distinct(1))
  obtain c cs where cs: "bs @ [h] = c # cs" by (cases bs) auto
  have path: "h # (as @ bs) @ [h] = xs @ q # c # cs" using ha cs by (metis append_Cons append_assoc append_Nil)
  then have chL: "chain L (xs @ [q])" "chain L (c # cs)" and c: "list_next (L q) = c"
    using ring chain_append [of L xs q "c # cs"] by (auto simp: ring_def)
  have dis: "distinct (xs @ [q])" "set (xs @ [q]) = insert h (set as)" "h \<notin> set as" "h \<notin> set bs" "set as \<inter> set bs = {}" "distinct bs"
    using ring ha by (metis distinct_append append_Cons ring_def, metis list.set(2), simp_all add: ring_def)
  have cin: "c \<in> insert h (set bs)" using cs by (metis list.set_intros(1) set_append list.simps(15) Un_commute empty_set Un_insert_left sup_bot_left)
  have p: "p \<noteq> q" "p \<noteq> c" "p \<notin> set xs" "p \<notin> set bs" "p \<noteq> h" "p \<notin> set as" using fresh dis(2) cin by auto
  have M: "list_next (?M x) = (if x = q then p else if x = p then c else list_next (L x))"
    "list_prev (?M x) = (if x = p then q else if x = c then p else list_prev (L x))" for x
    using list_add_next [of p q L] list_add_prev [of p L q] p c by auto
  have "chain ?M (xs @ [q])"
  proof (rule iffD1 [OF chain_cong chL(1)])
    show "list_prev (L b) = list_prev (?M b)" if "b \<in> set (tl (xs @ [q]))" for b
    proof -
      have "b \<in> set as" using that ha by (metis list.sel(3))
      with dis cin p show ?thesis by (auto simp: M)
    qed
  qed (use dis p in \<open>auto simp: M\<close>)
  moreover have "chain ?M (c # cs)"
  proof (rule iffD1 [OF chain_cong chL(2)])
    fix a assume "a \<in> set (butlast (c # cs))"
    then have "a \<in> set bs" using cs by (metis butlast_snoc)
    with dis p show "list_next (L a) = list_next (?M a)" by (auto simp: M)
  next
    fix b assume "b \<in> set (tl (c # cs))"
    then show "list_prev (L b) = list_prev (?M b)" using cs dis p by (cases bs) (auto simp: M)
  qed
  moreover have "h # (as @ p # bs) @ [h] = xs @ q # p # c # cs"
    using ha cs by (metis append_Cons append_assoc append_Nil)
  ultimately show ?thesis using ring fresh p c chain_append [of ?M xs q "p # c # cs"]
    by (auto simp: ring_def M)
qed

text \<open>Deletion of an entry: its neighbours are linked, and its own pointers stay as they are.\<close>

lemma list_del_entry_next:
  "list_next (list_del_entry p L x) = (if x = list_prev (L p) then list_next (L p) else list_next (L x))"
  by (simp add: list_head_defs)

lemma list_del_entry_prev:
  "list_prev (list_del_entry p L x) = (if x = list_next (L p) then list_prev (L p) else list_prev (L x))"
  by (simp add: list_head_defs)

lemma list_del_entry_ring:
  assumes ring: "ring L h (as @ p # bs)"
  shows "ring (list_del_entry p L) h (as @ bs)"
proof -
  let ?M = "list_del_entry p L" and ?q = "last (h # as)"
  obtain xs where ha: "h # as = xs @ [?q]" by (metis append_butlast_last_id list.distinct(1))
  obtain c cs where cs: "bs @ [h] = c # cs" by (cases bs) auto
  have c: "list_next (L p) = c" using ring_next [OF ring] cs by simp
  have q: "list_prev (L p) = ?q" using ring_prev [OF ring] .
  have M: "list_next (?M x) = (if x = ?q then c else list_next (L x))"
    "list_prev (?M x) = (if x = c then ?q else list_prev (L x))" for x
    using c q by (simp_all add: list_del_entry_next list_del_entry_prev)
  have path: "h # (as @ p # bs) @ [h] = xs @ ?q # p # c # cs"
    using ha cs by (metis append_Cons append_assoc append_Nil)
  then have chL: "chain L (xs @ [?q])" "chain L (c # cs)"
    using ring chain_append [of L xs ?q "p # c # cs"] by (simp_all add: ring_def)
  have dis: "distinct (xs @ [?q])" "set (xs @ [?q]) = insert h (set as)" "h \<notin> set as" "h \<notin> set bs" "set as \<inter> set bs = {}" "distinct bs"
    using ring ha by (metis distinct_append append_Cons ring_def, metis list.set(2), simp_all add: ring_def)
  have cin: "c \<in> insert h (set bs)" using cs by (metis list.set_intros(1) set_append list.simps(15) Un_commute empty_set Un_insert_left sup_bot_left)
  have "chain ?M (xs @ [?q])"
  proof (rule iffD1 [OF chain_cong chL(1)])
    show "list_prev (L b) = list_prev (?M b)" if "b \<in> set (tl (xs @ [?q]))" for b
    proof -
      have "b \<in> set as" using that ha by (metis list.sel(3))
      with dis cin show ?thesis by (auto simp: M)
    qed
  qed (use dis in \<open>auto simp: M\<close>)
  moreover have "chain ?M (c # cs)"
  proof (rule iffD1 [OF chain_cong chL(2)])
    fix a assume "a \<in> set (butlast (c # cs))"
    then have "a \<in> set bs" using cs by (metis butlast_snoc)
    moreover have "?q \<in> insert h (set as)" by simp
    ultimately show "list_next (L a) = list_next (?M a)" using dis by (auto simp: M)
  next
    fix b assume "b \<in> set (tl (c # cs))"
    then show "list_prev (L b) = list_prev (?M b)" using cs dis by (cases bs) (auto simp: M)
  qed
  moreover have "h # (as @ bs) @ [h] = xs @ ?q # c # cs"
    using ha cs by (metis append_Cons append_assoc append_Nil)
  ultimately show ?thesis using ring chain_append [of ?M xs ?q "c # cs"]
    by (auto simp: ring_def M)
qed

lemma ring_poison: "ring L h ps \<Longrightarrow> p \<notin> set (h # ps) \<Longrightarrow> ring (set_prev p a (set_next p b L)) h ps"
  unfolding ring_def
  by (subst chain_cong [where M = L]) (auto simp: list_head_defs dest: in_set_butlastD)

lemma list_del_ring:
  assumes "ring L h (as @ p # bs)"
  shows "ring (list_del p1 p2 p L) h (as @ bs)"
  unfolding list_del_def
  by (rule ring_poison [OF list_del_entry_ring [OF assms]]) (use assms in \<open>auto simp: ring_def\<close>)

text \<open>Adding a deleted entry back after the predecessor its own pointers still name restores all pointers.\<close>

lemma list_add_del_entry:
  assumes "ring L h (as @ p # bs)"
  shows "list_add p (list_prev (L p)) (list_del_entry p L) = L"
proof -
  let ?q = "list_prev (L p)" and ?c = "list_next (L p)"
  have ne: "p \<noteq> ?q" "p \<noteq> ?c"
    using assms ring_prev [OF assms] ring_next [OF assms] last_in_set [of "h # as"] hd_in_set [of "bs @ [h]"]
    by (auto simp: ring_def)
  have links: "list_next (L ?q) = p" "list_prev (L ?c) = p"
  proof -
    obtain xs where xs: "h # as = xs @ [?q]"
      using ring_prev [OF assms] by (metis append_butlast_last_id list.distinct(1))
    obtain cs where cs: "bs @ [h] = ?c # cs" using ring_next [OF assms] by (cases "bs @ [h]") auto
    have "h # (as @ p # bs) @ [h] = xs @ ?q # p # ?c # cs" using xs cs by (metis append_Cons append_assoc append_Nil)
    with assms chain_append [of L xs ?q "p # ?c # cs"] show "list_next (L ?q) = p" "list_prev (L ?c) = p"
      by (simp_all add: ring_def)
  qed
  show ?thesis
  proof
    fix x
    show "list_add p ?q (list_del_entry p L) x = L x"
      using ne links by (intro list_head.equality) (auto simp: list_head_defs)
  qed
qed

end
