(* ===== verification/DRM_MM.thy ===== *)
theory DRM_MM
  imports Interval_Tree List_Head
begin

text \<open>
  The range allocator of \<open>drivers/gpu/drm/drm_mm.c\<close> and \<open>include/drm/drm_mm.h\<close>: the definitions.

  A node is named by a reference; the head node embedded in \<open>struct drm_mm\<close> is \<open>MM_HEAD\<close>, and \<open>MM_NULL\<close> is the null pointer in a cleared node. The nodes' data are in the store
  \<open>mm_nodes\<close>, their embedded \<open>node_list\<close> heads in \<open>node_list\<close>, with the pointers of the source. The three red-black trees hold references;
  the fields \<open>__subtree_last\<close> and \<open>subtree_max_hole\<close> are the annotations of the interval tree and of \<open>holes_addr\<close>. The red-black tree library is
  the parameter \<open>lib\<close>, which gets the field the augment callbacks maximise. The callback \<open>color_adjust\<close> is a parameter as well.

  The model is that of \<open>CONFIG_DRM_DEBUG_MM\<close>: \<open>DRM_MM_BUG_ON\<close> stops the kernel. An operation returns \<open>None\<close> if such a check fires or
  if it follows a null pointer; the theorems show that neither happens.
\<close>

datatype mm_ref = MM_HEAD | MM_NODE nat | MM_NULL | LIST_POISON1 | LIST_POISON2

record drm_mm_node =
  n_color :: u64
  n_start :: u64
  n_size :: u64
  n_hole_size :: u64
  n_allocated :: bool
  n_scanned :: bool

record drm_mm =
  mm_nodes :: "mm_ref \<Rightarrow> drm_mm_node"
  node_list :: "mm_ref \<Rightarrow> mm_ref list_head"
  hole_stack :: "mm_ref list"
  interval_tree :: "mm_ref rb_root_cached"
  holes_size :: "mm_ref rb_root_cached"
  holes_addr :: "mm_ref rbt"
  scan_active :: u64

type_synonym rb_family_lib = "(mm_ref \<Rightarrow> u64) \<Rightarrow> mm_ref rb_lib"
type_synonym color_fn = "drm_mm \<Rightarrow> mm_ref \<Rightarrow> u64 \<Rightarrow> u64 \<times> u64 \<Rightarrow> u64 \<times> u64"

section \<open>Fields\<close>

abbreviation mm_start :: "drm_mm \<Rightarrow> mm_ref \<Rightarrow> u64" where
  "mm_start mm p \<equiv> n_start (mm_nodes mm p)"

abbreviation mm_size :: "drm_mm \<Rightarrow> mm_ref \<Rightarrow> u64" where
  "mm_size mm p \<equiv> n_size (mm_nodes mm p)"

abbreviation mm_hole_size :: "drm_mm \<Rightarrow> mm_ref \<Rightarrow> u64" where
  "mm_hole_size mm p \<equiv> n_hole_size (mm_nodes mm p)"

definition mm_last :: "drm_mm \<Rightarrow> mm_ref \<Rightarrow> u64" where
  "mm_last mm p = mm_start mm p + mm_size mm p - 1"

definition upd_node :: "mm_ref \<Rightarrow> (drm_mm_node \<Rightarrow> drm_mm_node) \<Rightarrow> drm_mm \<Rightarrow> drm_mm" where
  "upd_node p f mm = mm\<lparr>mm_nodes := (mm_nodes mm)(p := f (mm_nodes mm p))\<rparr>"

definition drm_mm_node_allocated :: "drm_mm \<Rightarrow> mm_ref \<Rightarrow> bool" where
  "drm_mm_node_allocated mm p = n_allocated (mm_nodes mm p)"

definition drm_mm_node_scanned_block :: "drm_mm \<Rightarrow> mm_ref \<Rightarrow> bool" where
  "drm_mm_node_scanned_block mm p = n_scanned (mm_nodes mm p)"

definition drm_mm_hole_follows :: "drm_mm \<Rightarrow> mm_ref \<Rightarrow> bool" where
  "drm_mm_hole_follows mm p \<longleftrightarrow> mm_hole_size mm p \<noteq> 0"

definition hole_node_start :: "drm_mm \<Rightarrow> mm_ref \<Rightarrow> u64" where
  "hole_node_start mm p = mm_start mm p + mm_size mm p"

definition hole_node_end :: "drm_mm \<Rightarrow> mm_ref \<Rightarrow> u64" where
  "hole_node_end mm p = mm_start mm (list_next (node_list mm p))"

definition drm_mm_clean :: "drm_mm \<Rightarrow> bool" where
  "drm_mm_clean mm \<longleftrightarrow> list_next (node_list mm MM_HEAD) = MM_HEAD"

section \<open>The interval tree of nodes\<close>

definition drm_mm_interval_first :: "drm_mm \<Rightarrow> u64 \<Rightarrow> u64 \<Rightarrow> mm_ref option" where
  "drm_mm_interval_first mm start stop =
     (case it_iter_first (mm_start mm) (mm_last mm) (interval_tree mm) start stop of
        ItFound p \<Rightarrow> Some p
      | ItNull \<Rightarrow> Some MM_HEAD
      | ItFault \<Rightarrow> None)"

text \<open>
  \<open>drm_mm_interval_tree_add_node\<close> starts at the node before the hole. The ascent raises \<open>__subtree_last\<close> of that node and its ancestors until one
  of them needs no change, the flag of the result says whether it is still going on; the new node is linked below the right child
  of the node before the hole. \<open>None\<close> says that this node is not in the tree.
\<close>

fun raise_last :: "u64 \<Rightarrow> u64 \<times> bool \<Rightarrow> u64 \<times> bool" where
  "raise_last v (m, up) = (if \<not> up \<or> v \<le> m then (m, False) else (v, True))"

fun it_link_at :: "(mm_ref \<Rightarrow> u64) \<Rightarrow> (mm_ref \<Rightarrow> u64) \<Rightarrow> mm_ref \<Rightarrow> mm_ref \<Rightarrow> mm_ref rbt \<Rightarrow> (mm_ref rbt \<times> bool) option" where
  "it_link_at st la hole node Leaf = None"
| "it_link_at st la hole node (Node l x m r) =
     (if x = hole then
        (let (m', up) = raise_last (la node) (m, True) in Some (Node l x m' (it_link st la node r), up))
      else case it_link_at st la hole node l of
        Some (l', up) \<Rightarrow> (let (m', up') = raise_last (la node) (m, up) in Some (Node l' x m' r, up'))
      | None \<Rightarrow> (case it_link_at st la hole node r of
          Some (r', up) \<Rightarrow> (let (m', up') = raise_last (la node) (m, up) in Some (Node l x m' r', up'))
        | None \<Rightarrow> None))"

definition interval_tree_add_node :: "rb_family_lib \<Rightarrow> mm_ref \<Rightarrow> mm_ref \<Rightarrow> drm_mm \<Rightarrow> drm_mm option" where
  "interval_tree_add_node lib hole_node node mm =
     (if drm_mm_node_allocated mm hole_node then
        (case it_link_at (mm_start mm) (mm_last mm) hole_node node (rb_root (interval_tree mm)) of
           None \<Rightarrow> None
         | Some (t, _) \<Rightarrow> Some (mm\<lparr>interval_tree := (interval_tree mm)\<lparr>rb_root := rb_insert_augmented (lib (mm_last mm)) t\<rparr>\<rparr>))
      else Some (mm\<lparr>interval_tree := it_insert (lib (mm_last mm)) (mm_start mm) (mm_last mm) node (interval_tree mm)\<rparr>))"

section \<open>The trees of holes\<close>

text \<open>The tree \<open>holes_size\<close> is not augmented: its annotations are zero, and the callbacks of the library do nothing. Larger holes
  are to the left.\<close>

fun hole_size_link :: "(mm_ref \<Rightarrow> u64) \<Rightarrow> mm_ref \<Rightarrow> mm_ref rbt \<Rightarrow> mm_ref rbt" where
  "hole_size_link hs node Leaf = Node Leaf node 0 Leaf"
| "hole_size_link hs node (Node l x m r) =
     (if hs node > hs x then Node (hole_size_link hs node l) x m r else Node l x m (hole_size_link hs node r))"

fun hole_size_first :: "(mm_ref \<Rightarrow> u64) \<Rightarrow> mm_ref \<Rightarrow> mm_ref rbt \<Rightarrow> bool" where
  "hole_size_first hs node Leaf = True"
| "hole_size_first hs node (Node l x m r) = (hs node > hs x \<and> hole_size_first hs node l)"

definition insert_hole_size :: "rb_family_lib \<Rightarrow> (mm_ref \<Rightarrow> u64) \<Rightarrow> mm_ref \<Rightarrow> mm_ref rb_root_cached \<Rightarrow> mm_ref rb_root_cached" where
  "insert_hole_size lib hs node root =
     \<lparr>rb_root = rb_insert_augmented (lib (\<lambda>_. 0)) (hole_size_link hs node (rb_root root)),
      rb_leftmost = (if hole_size_first hs node (rb_root root) then Some node else rb_leftmost root)\<rparr>"

definition insert_hole_addr :: "rb_family_lib \<Rightarrow> drm_mm \<Rightarrow> mm_ref \<Rightarrow> mm_ref rbt \<Rightarrow> mm_ref rbt" where
  "insert_hole_addr lib mm node root =
     rb_insert_augmented (lib (mm_hole_size mm)) (it_link (hole_node_start mm) (mm_hole_size mm) node root)"

definition add_hole :: "rb_family_lib \<Rightarrow> mm_ref \<Rightarrow> drm_mm \<Rightarrow> drm_mm option" where
  "add_hole lib node mm =
     (let mm = upd_node node (\<lambda>n. n\<lparr>n_hole_size := hole_node_end mm node - hole_node_start mm node\<rparr>) mm
      in if \<not> drm_mm_hole_follows mm node then None
         else Some (mm\<lparr>holes_size := insert_hole_size lib (mm_hole_size mm) node (holes_size mm),
                       holes_addr := insert_hole_addr lib mm node (holes_addr mm),
                       hole_stack := node # hole_stack mm\<rparr>))"

definition rm_hole :: "rb_family_lib \<Rightarrow> mm_ref \<Rightarrow> drm_mm \<Rightarrow> drm_mm option" where
  "rm_hole lib node mm =
     (if \<not> drm_mm_hole_follows mm node then None
      else let mm = mm\<lparr>hole_stack := remove1 node (hole_stack mm),
                       holes_size := it_remove (lib (\<lambda>_. 0)) node (holes_size mm),
                       holes_addr := rb_erase_augmented (lib (mm_hole_size mm)) node (holes_addr mm)\<rparr>
           in Some (upd_node node (\<lambda>n. n\<lparr>n_hole_size := 0\<rparr>) mm))"

section \<open>Searching a hole\<close>

definition DRM_MM_INSERT_BEST :: u32 where "DRM_MM_INSERT_BEST = 0"
definition DRM_MM_INSERT_LOW :: u32 where "DRM_MM_INSERT_LOW = 1"
definition DRM_MM_INSERT_HIGH :: u32 where "DRM_MM_INSERT_HIGH = 2"
definition DRM_MM_INSERT_EVICT :: u32 where "DRM_MM_INSERT_EVICT = 3"
definition DRM_MM_INSERT_ONCE :: u32 where "DRM_MM_INSERT_ONCE = 0x80000000"

lemmas insert_mode_defs = DRM_MM_INSERT_BEST_def DRM_MM_INSERT_LOW_def DRM_MM_INSERT_HIGH_def DRM_MM_INSERT_EVICT_def
  DRM_MM_INSERT_ONCE_def

fun best_from :: "(mm_ref \<Rightarrow> u64) \<Rightarrow> u64 \<Rightarrow> mm_ref rbt \<Rightarrow> mm_ref option \<Rightarrow> mm_ref option" where
  "best_from hs sz Leaf best = best"
| "best_from hs sz (Node l x m r) best =
     (if sz \<le> hs x then best_from hs sz r (Some x) else best_from hs sz l best)"

definition best_hole :: "drm_mm \<Rightarrow> u64 \<Rightarrow> mm_ref option option" where
  "best_hole mm sz =
     (case rb_root (holes_size mm) of
        Leaf \<Rightarrow> None
      | Node l x m r \<Rightarrow> Some (best_from (mm_hole_size mm) sz (Node l x m r) None))"

fun usable_hole_addr :: "mm_ref rbt \<Rightarrow> u64 \<Rightarrow> bool" where
  "usable_hole_addr Leaf sz = False"
| "usable_hole_addr (Node l x m r) sz = (sz \<le> m)"

fun find_from :: "(mm_ref \<Rightarrow> u64) \<Rightarrow> (mm_ref \<Rightarrow> u64) \<Rightarrow> u64 \<Rightarrow> u64 \<Rightarrow> mm_ref rbt \<Rightarrow> mm_ref option \<Rightarrow> mm_ref option" where
  "find_from ha hs addr sz Leaf node = node"
| "find_from ha hs addr sz (Node l x m r) node =
     (if \<not> usable_hole_addr (Node l x m r) sz then node
      else if addr < ha x then find_from ha hs addr sz l (Some x)
      else if addr > ha x + hs x then find_from ha hs addr sz r (Some x)
      else Some x)"

definition find_hole_addr :: "drm_mm \<Rightarrow> u64 \<Rightarrow> u64 \<Rightarrow> mm_ref option" where
  "find_hole_addr mm addr sz = find_from (hole_node_start mm) (mm_hole_size mm) addr sz (holes_addr mm) None"

definition first_hole :: "drm_mm \<Rightarrow> u64 \<Rightarrow> u64 \<Rightarrow> u64 \<Rightarrow> u32 \<Rightarrow> mm_ref option option" where
  "first_hole mm start stop sz mode =
     (if mode = DRM_MM_INSERT_LOW then Some (find_hole_addr mm start sz)
      else if mode = DRM_MM_INSERT_HIGH then Some (find_hole_addr mm stop sz)
      else if mode = DRM_MM_INSERT_EVICT then Some (case hole_stack mm of [] \<Rightarrow> None | p # _ \<Rightarrow> Some p)
      else best_hole mm sz)"

text \<open>
  The macro \<open>DECLARE_NEXT_HOLE_ADDR(name, first, last)\<close>: the flag says that \<open>first\<close> is \<open>rb_right\<close>. The source finds the next
  ancestor through the parent pointers; here the search for the entry carries it down as \<open>up\<close>. The outer \<open>None\<close> says that the entry is not in the tree.
\<close>

fun last_usable :: "bool \<Rightarrow> u64 \<Rightarrow> mm_ref rbt \<Rightarrow> mm_ref option" where
  "last_usable right sz Leaf = None"
| "last_usable right sz (Node l x m r) =
     (let lst = (if right then l else r)
      in if usable_hole_addr lst sz then last_usable right sz lst else Some x)"

fun next_hole_addr :: "bool \<Rightarrow> mm_ref \<Rightarrow> u64 \<Rightarrow> mm_ref option \<Rightarrow> mm_ref rbt \<Rightarrow> mm_ref option option" where
  "next_hole_addr right entry sz up Leaf = None"
| "next_hole_addr right entry sz up (Node l x m r) =
     (let fst = (if right then r else l); lst = (if right then l else r)
      in if x = entry then Some (if usable_hole_addr fst sz then last_usable right sz fst else up)
         else case next_hole_addr right entry sz (Some x) lst of
           Some res \<Rightarrow> Some res
         | None \<Rightarrow> next_hole_addr right entry sz up fst)"

definition next_hole_low_addr :: "drm_mm \<Rightarrow> mm_ref \<Rightarrow> u64 \<Rightarrow> mm_ref option" where
  "next_hole_low_addr mm entry sz =
     (case next_hole_addr True entry sz None (holes_addr mm) of None \<Rightarrow> None | Some res \<Rightarrow> res)"

definition next_hole_high_addr :: "drm_mm \<Rightarrow> mm_ref \<Rightarrow> u64 \<Rightarrow> mm_ref option" where
  "next_hole_high_addr mm entry sz =
     (case next_hole_addr False entry sz None (holes_addr mm) of None \<Rightarrow> None | Some res \<Rightarrow> res)"

definition next_hole :: "rb_family_lib \<Rightarrow> drm_mm \<Rightarrow> mm_ref \<Rightarrow> u64 \<Rightarrow> u32 \<Rightarrow> mm_ref option" where
  "next_hole lib mm node sz mode =
     (if mode = DRM_MM_INSERT_LOW then next_hole_low_addr mm node sz
      else if mode = DRM_MM_INSERT_HIGH then next_hole_high_addr mm node sz
      else if mode = DRM_MM_INSERT_EVICT then succ_in node (hole_stack mm)
      else rb_prev (lib (\<lambda>_. 0)) (rb_root (holes_size mm)) node)"

section \<open>Insertion\<close>

definition color_adjust :: "color_fn option \<Rightarrow> drm_mm \<Rightarrow> mm_ref \<Rightarrow> u64 \<Rightarrow> u64 \<times> u64 \<Rightarrow> u64 \<times> u64" where
  "color_adjust ca mm hole color se = (case ca of None \<Rightarrow> se | Some f \<Rightarrow> f mm hole color se)"

text \<open>The end of both insertion functions: the node becomes part of the hole, whose rests become holes again.\<close>

definition split_hole :: "rb_family_lib \<Rightarrow> mm_ref \<Rightarrow> mm_ref \<Rightarrow> u64 \<Rightarrow> u64 \<Rightarrow> drm_mm \<Rightarrow> drm_mm option" where
  "split_hole lib hole node hole_start hole_end mm =
     (case rm_hole lib hole mm of
        None \<Rightarrow> None
      | Some mm \<Rightarrow>
          (case (if mm_start mm node > hole_start then add_hole lib hole mm else Some mm) of
             None \<Rightarrow> None
           | Some mm \<Rightarrow> if mm_start mm node + mm_size mm node < hole_end then add_hole lib node mm else Some mm))"

definition place_node :: "rb_family_lib \<Rightarrow> mm_ref \<Rightarrow> mm_ref \<Rightarrow> u64 \<Rightarrow> u64 \<Rightarrow> drm_mm \<Rightarrow> drm_mm option" where
  "place_node lib hole node hole_start hole_end mm =
     (let mm = upd_node node (\<lambda>n. n\<lparr>n_allocated := True\<rparr>) mm;
          mm = mm\<lparr>node_list := list_add node hole (node_list mm)\<rparr>
      in case interval_tree_add_node lib hole node mm of
           None \<Rightarrow> None
         | Some mm \<Rightarrow> split_hole lib hole node hole_start hole_end (upd_node node (\<lambda>n. n\<lparr>n_hole_size := 0\<rparr>) mm))"

definition drm_mm_reserve_node :: "rb_family_lib \<Rightarrow> color_fn option \<Rightarrow> mm_ref \<Rightarrow> drm_mm \<Rightarrow> (int \<times> drm_mm) option" where
  "drm_mm_reserve_node lib ca node mm =
     (let stop = mm_start mm node + mm_size mm node
      in if stop \<le> mm_start mm node then Some (neg_errno ENOSPC, mm)
         else case find_hole_addr mm (mm_start mm node) 0 of
           None \<Rightarrow> Some (neg_errno ENOSPC, mm)
         | Some hole \<Rightarrow>
             (let hole_start = hole_node_start mm hole;
                  hole_end = hole_start + mm_hole_size mm hole;
                  (adj_start, adj_end) = color_adjust ca mm hole (n_color (mm_nodes mm node)) (hole_start, hole_end)
              in if adj_start > mm_start mm node \<or> adj_end < stop then Some (neg_errno ENOSPC, mm)
                 else map_option (\<lambda>mm. (0, mm)) (place_node lib hole node hole_start hole_end mm)))"

definition is_power_of_2 :: "u64 \<Rightarrow> bool" where
  "is_power_of_2 n \<longleftrightarrow> n \<noteq> 0 \<and> n AND (n - 1) = 0"

definition remainder_mask :: "u64 \<Rightarrow> u64" where
  "remainder_mask alignment = (if is_power_of_2 alignment then alignment - 1 else 0)"

text \<open>
  The placement in a hole, shared by insertion and scanning: the adjusted range \<open>[col_start, col_end)\<close> of the hole and the
  allowed range give the start of the block, or nothing if the block does not fit.
\<close>

definition fit_block :: "u64 \<Rightarrow> u64 \<Rightarrow> u64 \<Rightarrow> bool \<Rightarrow> u64 \<Rightarrow> u64 \<Rightarrow> u64 \<Rightarrow> u64 \<Rightarrow> u64 option" where
  "fit_block sz alignment rmask high range_start range_end col_start col_end =
     (let adj_start = max col_start range_start; adj_end = min col_end range_end
      in if adj_end \<le> adj_start \<or> adj_end - adj_start < sz then None
         else
           (let adj_start = (if high then adj_end - sz else adj_start)
            in if alignment = 0 then Some adj_start
               else
                 (let rem = (if rmask \<noteq> 0 then adj_start AND rmask else adj_start mod alignment)
                  in if rem = 0 then Some adj_start
                     else
                       (let adj_start = adj_start - rem; adj_start = (if high then adj_start else adj_start + alignment)
                        in if adj_start < max col_start range_start \<or> min col_end range_end - adj_start < sz then None
                           else if adj_end \<le> adj_start \<or> adj_end - adj_start < sz then None
                           else Some adj_start))))"

text \<open>One round of the loop of \<open>drm_mm_insert_node_in_range\<close>: leave the loop, go on, or place the node at an address.\<close>

datatype try_result = TryBreak | TryContinue | TryPlace u64

definition try_hole ::
    "color_fn option \<Rightarrow> drm_mm \<Rightarrow> u64 \<Rightarrow> u64 \<Rightarrow> u64 \<Rightarrow> u64 \<Rightarrow> u64 \<Rightarrow> u32 \<Rightarrow> mm_ref \<Rightarrow> try_result" where
  "try_hole ca mm sz alignment color range_start range_end mode hole =
     (let hole_start = hole_node_start mm hole; hole_end = hole_start + mm_hole_size mm hole
      in if mode = DRM_MM_INSERT_LOW \<and> hole_start \<ge> range_end then TryBreak
         else if mode = DRM_MM_INSERT_HIGH \<and> hole_end \<le> range_start then TryBreak
         else
           (let (col_start, col_end) = color_adjust ca mm hole color (hole_start, hole_end)
            in case fit_block sz alignment (remainder_mask alignment) (mode = DRM_MM_INSERT_HIGH)
                  range_start range_end col_start col_end of
                 None \<Rightarrow> TryContinue
               | Some adj_start \<Rightarrow> TryPlace adj_start))"

partial_function (option) insert_loop ::
    "rb_family_lib \<Rightarrow> drm_mm \<Rightarrow> u64 \<Rightarrow> u32 \<Rightarrow> bool \<Rightarrow> (mm_ref \<Rightarrow> try_result) \<Rightarrow> mm_ref option \<Rightarrow> (mm_ref \<times> u64) option option" where
  "insert_loop lib mm sz mode once probe hole =
     (case hole of
        None \<Rightarrow> Some None
      | Some h \<Rightarrow>
          (case probe h of
             TryBreak \<Rightarrow> Some None
           | TryPlace a \<Rightarrow> Some (Some (h, a))
           | TryContinue \<Rightarrow> insert_loop lib mm sz mode once probe (if once then None else next_hole lib mm h sz mode)))"

declare insert_loop.simps [code]

definition drm_mm_insert_node_in_range ::
    "rb_family_lib \<Rightarrow> color_fn option \<Rightarrow> mm_ref \<Rightarrow> u64 \<Rightarrow> u64 \<Rightarrow> u64 \<Rightarrow> u64 \<Rightarrow> u64 \<Rightarrow> u32 \<Rightarrow> drm_mm \<Rightarrow> (int \<times> drm_mm) option" where
  "drm_mm_insert_node_in_range lib ca node sz alignment color range_start range_end mode mm =
     (if range_start > range_end then None
      else if sz = 0 \<or> range_end - range_start < sz then Some (neg_errno ENOSPC, mm)
      else if (case rb_leftmost (holes_size mm) of None \<Rightarrow> 0 | Some p \<Rightarrow> mm_hole_size mm p) < sz
      then Some (neg_errno ENOSPC, mm)
      else
        (let alignment = (if alignment \<le> 1 then 0 else alignment);
             once = (mode AND DRM_MM_INSERT_ONCE \<noteq> 0);
             mode = mode AND NOT DRM_MM_INSERT_ONCE
         in case first_hole mm range_start range_end sz mode of
              None \<Rightarrow> None
            | Some first \<Rightarrow>
                (case insert_loop lib mm sz mode once
                        (try_hole ca mm sz alignment color range_start range_end mode) first of
                   None \<Rightarrow> None
                 | Some None \<Rightarrow> Some (neg_errno ENOSPC, mm)
                 | Some (Some (hole, adj_start)) \<Rightarrow>
                     (let hole_start = hole_node_start mm hole; hole_end = hole_start + mm_hole_size mm hole;
                          mm = upd_node node (\<lambda>n. n\<lparr>n_size := sz, n_start := adj_start, n_color := color, n_hole_size := 0\<rparr>) mm
                      in map_option (\<lambda>mm. (0, mm)) (place_node lib hole node hole_start hole_end mm)))))"

definition drm_mm_insert_node_generic ::
    "rb_family_lib \<Rightarrow> color_fn option \<Rightarrow> mm_ref \<Rightarrow> u64 \<Rightarrow> u64 \<Rightarrow> u64 \<Rightarrow> u32 \<Rightarrow> drm_mm \<Rightarrow> (int \<times> drm_mm) option" where
  "drm_mm_insert_node_generic lib ca node sz alignment color mode mm =
     drm_mm_insert_node_in_range lib ca node sz alignment color 0 (- 1) mode mm"

definition drm_mm_insert_node :: "rb_family_lib \<Rightarrow> color_fn option \<Rightarrow> mm_ref \<Rightarrow> u64 \<Rightarrow> drm_mm \<Rightarrow> (int \<times> drm_mm) option" where
  "drm_mm_insert_node lib ca node sz mm = drm_mm_insert_node_generic lib ca node sz 0 0 0 mm"

section \<open>Removal\<close>

definition drm_mm_remove_node :: "rb_family_lib \<Rightarrow> mm_ref \<Rightarrow> drm_mm \<Rightarrow> drm_mm option" where
  "drm_mm_remove_node lib node mm =
     (if \<not> drm_mm_node_allocated mm node \<or> drm_mm_node_scanned_block mm node then None
      else
        (let prev_node = list_prev (node_list mm node)
         in case (if drm_mm_hole_follows mm node then rm_hole lib node mm else Some mm) of
              None \<Rightarrow> None
            | Some mm \<Rightarrow>
                (let mm = mm\<lparr>interval_tree := it_remove (lib (mm_last mm)) node (interval_tree mm)\<rparr>;
                     mm = mm\<lparr>node_list := list_del LIST_POISON1 LIST_POISON2 node (node_list mm)\<rparr>
                 in case (if drm_mm_hole_follows mm prev_node then rm_hole lib prev_node mm else Some mm) of
                      None \<Rightarrow> None
                    | Some mm \<Rightarrow>
                        map_option (upd_node node (\<lambda>n. n\<lparr>n_allocated := False\<rparr>)) (add_hole lib prev_node mm))))"

section \<open>Initialisation and teardown\<close>

definition drm_mm_init :: "rb_family_lib \<Rightarrow> u64 \<Rightarrow> u64 \<Rightarrow> drm_mm \<Rightarrow> drm_mm option" where
  "drm_mm_init lib start sz mm =
     (if start + sz \<le> start then None
      else
        (let mm = mm\<lparr>hole_stack := [], interval_tree := RB_ROOT_CACHED, holes_size := RB_ROOT_CACHED, holes_addr := Leaf,
                     node_list := INIT_LIST_HEAD MM_HEAD (node_list mm)\<rparr>;
             mm = upd_node MM_HEAD (\<lambda>n. n\<lparr>n_allocated := False, n_scanned := False, n_start := start + sz, n_size := - sz\<rparr>) mm
         in map_option (\<lambda>mm. mm\<lparr>scan_active := 0\<rparr>) (add_hole lib MM_HEAD mm)))"

text \<open>\<open>drm_mm_takedown\<close> warns if the allocator is not clean; the value says whether it does.\<close>

definition drm_mm_takedown :: "drm_mm \<Rightarrow> bool" where
  "drm_mm_takedown mm \<longleftrightarrow> \<not> drm_mm_clean mm"

section \<open>Scanning for eviction\<close>

record drm_mm_scan =
  sc_size :: u64
  sc_alignment :: u64
  sc_remainder_mask :: u64
  sc_range_start :: u64
  sc_range_end :: u64
  sc_hit_start :: u64
  sc_hit_end :: u64
  sc_color :: u64
  sc_mode :: u32

definition drm_mm_scan_init_with_range ::
    "drm_mm \<Rightarrow> u64 \<Rightarrow> u64 \<Rightarrow> u64 \<Rightarrow> u64 \<Rightarrow> u64 \<Rightarrow> u32 \<Rightarrow> drm_mm_scan option" where
  "drm_mm_scan_init_with_range mm sz alignment color start stop mode =
     (if start \<ge> stop \<or> sz = 0 \<or> sz > stop - start \<or> scan_active mm \<noteq> 0 then None
      else
        (let alignment = (if alignment \<le> 1 then 0 else alignment)
         in Some \<lparr>sc_size = sz, sc_alignment = alignment, sc_remainder_mask = remainder_mask alignment,
                  sc_range_start = start, sc_range_end = stop, sc_hit_start = - 1, sc_hit_end = 0, sc_color = color, sc_mode = mode\<rparr>))"

definition drm_mm_scan_init :: "drm_mm \<Rightarrow> u64 \<Rightarrow> u64 \<Rightarrow> u64 \<Rightarrow> u32 \<Rightarrow> drm_mm_scan option" where
  "drm_mm_scan_init mm sz alignment color mode = drm_mm_scan_init_with_range mm sz alignment color 0 (- 1) mode"

definition drm_mm_scan_add_block ::
    "color_fn option \<Rightarrow> drm_mm_scan \<Rightarrow> mm_ref \<Rightarrow> drm_mm \<Rightarrow> (bool \<times> drm_mm_scan \<times> drm_mm) option" where
  "drm_mm_scan_add_block ca scan node mm =
     (if \<not> drm_mm_node_allocated mm node \<or> drm_mm_node_scanned_block mm node then None
      else
        (let mm = upd_node node (\<lambda>n. n\<lparr>n_scanned := True\<rparr>) mm;
             mm = mm\<lparr>scan_active := scan_active mm + 1\<rparr>;
             hole = list_prev (node_list mm node)
         in if list_next (node_list mm hole) \<noteq> node then None
            else
              (let mm = mm\<lparr>node_list := list_del_entry node (node_list mm)\<rparr>;
                   hole_start = hole_node_start mm hole; hole_end = hole_node_end mm hole;
                   (col_start, col_end) = color_adjust ca mm hole (sc_color scan) (hole_start, hole_end)
               in case fit_block (sc_size scan) (sc_alignment scan) (sc_remainder_mask scan) (sc_mode scan = DRM_MM_INSERT_HIGH)
                      (sc_range_start scan) (sc_range_end scan) col_start col_end of
                    None \<Rightarrow> Some (False, scan, mm)
                  | Some adj_start \<Rightarrow>
                      (let scan = scan\<lparr>sc_hit_start := adj_start, sc_hit_end := adj_start + sc_size scan\<rparr>
                       in if sc_hit_start scan \<ge> sc_hit_end scan \<or> sc_hit_start scan < hole_start \<or> sc_hit_end scan > hole_end then None
                          else Some (True, scan, mm)))))"

definition drm_mm_scan_remove_block :: "drm_mm_scan \<Rightarrow> mm_ref \<Rightarrow> drm_mm \<Rightarrow> (bool \<times> drm_mm) option" where
  "drm_mm_scan_remove_block scan node mm =
     (if \<not> drm_mm_node_scanned_block mm node then None
      else
        (let mm = upd_node node (\<lambda>n. n\<lparr>n_scanned := False\<rparr>) mm
         in if scan_active mm = 0 then None
            else
              (let mm = mm\<lparr>scan_active := scan_active mm - 1\<rparr>; prev_node = list_prev (node_list mm node)
               in if list_next (node_list mm prev_node) \<noteq> list_next (node_list mm node) then None
                  else Some (mm_start mm node + mm_size mm node > sc_hit_start scan \<and> mm_start mm node < sc_hit_end scan,
                             mm\<lparr>node_list := list_add node prev_node (node_list mm)\<rparr>))))"

text \<open>The walk over the hole stack ends at the list head if no hole contains the hit; the check behind it then fires.\<close>

definition drm_mm_scan_color_evict :: "color_fn option \<Rightarrow> drm_mm_scan \<Rightarrow> drm_mm \<Rightarrow> mm_ref option option" where
  "drm_mm_scan_color_evict ca scan mm =
     (if hole_stack mm = [] then None
      else case ca of
        None \<Rightarrow> Some None
      | Some f \<Rightarrow>
          (case find (\<lambda>hole. hole_node_start mm hole \<le> sc_hit_start scan \<and>
                  hole_node_start mm hole + mm_hole_size mm hole \<ge> sc_hit_end scan) (hole_stack mm) of
             None \<Rightarrow> None
           | Some hole \<Rightarrow>
               (let (hole_start, hole_end) = f mm hole (sc_color scan)
                      (hole_node_start mm hole, hole_node_start mm hole + mm_hole_size mm hole)
                in Some (if hole_start > sc_hit_start scan then Some hole
                         else if hole_end < sc_hit_end scan then Some (list_next (node_list mm hole))
                         else None))))"

section \<open>The callback of the i915 driver\<close>

text \<open>\<open>i915_ggtt_color_adjust\<close> leaves a guard page next to a neighbour of another color; \<open>I915_GTT_PAGE_SIZE\<close> is 4096.\<close>

definition i915_node_color_differs :: "drm_mm \<Rightarrow> mm_ref \<Rightarrow> u64 \<Rightarrow> bool" where
  "i915_node_color_differs mm p color \<longleftrightarrow> drm_mm_node_allocated mm p \<and> n_color (mm_nodes mm p) \<noteq> color"

definition i915_ggtt_color_adjust :: color_fn where
  "i915_ggtt_color_adjust mm p color se =
     (let start = (if i915_node_color_differs mm p color then fst se + 0x1000 else fst se);
          p = list_next (node_list mm p)
      in (start, if n_color (mm_nodes mm p) \<noteq> color then snd se - 0x1000 else snd se))"

section \<open>Printing\<close>

text \<open>
  The lines \<open>drm_mm_print\<close> prints are the values of this type; the text of a line is left out. The loop over the nodes follows the list
  until it is back at the head.
\<close>

datatype mm_line = FreeLine u64 u64 u64 | UsedLine u64 u64 u64 | TotalLine u64 u64 u64

definition drm_mm_dump_hole :: "drm_mm \<Rightarrow> mm_ref \<Rightarrow> mm_line list \<times> u64" where
  "drm_mm_dump_hole mm p =
     (let sz = mm_hole_size mm p; start = hole_node_start mm p
      in (if sz \<noteq> 0 then [FreeLine start (start + sz) sz] else [], sz))"

partial_function (option) print_nodes :: "drm_mm \<Rightarrow> mm_ref \<Rightarrow> mm_line list \<Rightarrow> u64 \<Rightarrow> u64 \<Rightarrow> (mm_line list \<times> u64 \<times> u64) option" where
  "print_nodes mm entry out total_used total_free =
     (if entry = MM_HEAD then Some (out, total_used, total_free)
      else
        (let used = UsedLine (mm_start mm entry) (mm_start mm entry + mm_size mm entry) (mm_size mm entry);
             (free, sz) = drm_mm_dump_hole mm entry
         in print_nodes mm (list_next (node_list mm entry)) (out @ used # free) (total_used + mm_size mm entry) (total_free + sz)))"

declare print_nodes.simps [code]

definition drm_mm_print :: "drm_mm \<Rightarrow> mm_line list option" where
  "drm_mm_print mm =
     (let (free, sz) = drm_mm_dump_hole mm MM_HEAD
      in case print_nodes mm (list_next (node_list mm MM_HEAD)) free 0 sz of
           None \<Rightarrow> None
         | Some (out, total_used, total_free) \<Rightarrow> Some (out @ [TotalLine (total_free + total_used) total_used total_free]))"

end
