(* ===== verification/DRM_MM_Inv.thy ===== *)
theory DRM_MM_Inv
  imports DRM_MM
begin

text \<open>
  The invariant of the range allocator: the node list is in address order, the recorded hole sizes are the gaps between the
  nodes, and the interval tree, the two trees of holes and the hole stack agree with the list. The locale \<open>rb_family\<close> states what is assumed of the
  red-black tree library, for every field the augment callbacks may maximise; in it initialisation, placement and removal are shown to keep the invariant.
\<close>

section \<open>Red-black trees over a changing store\<close>

locale rb_family =
  fixes lib :: "('a \<Rightarrow> u64) \<Rightarrow> 'a rb_lib"
  assumes library: "rb_library la (lib la)"

sublocale rb_family \<subseteq> rb: rb_library la "lib la" for la
  by (rule library)

interpretation plain_family: rb_family "plain_lib :: ('a \<Rightarrow> u64) \<Rightarrow> 'a rb_lib"
  by (simp add: rb_family_def plain_lib_laws)

lemma augmented_cong: "(\<And>x. x \<in> set (inorder t) \<Longrightarrow> la x = lb x) \<Longrightarrow> augmented la t = augmented lb t"
  by (induction t) (simp_all add: ball_Un bex_Un cong: ball_cong bex_cong)

lemma it_inv_cong:
  assumes "\<And>x. x \<in> set (inorder (rb_root root)) \<Longrightarrow> st x = su x \<and> la x = lb x"
  shows "it_inv st la root = it_inv su lb root"
proof -
  have "map st (inorder (rb_root root)) = map su (inorder (rb_root root))" using assms by simp
  moreover have "augmented la (rb_root root) = augmented lb (rb_root root)" using assms by (intro augmented_cong) simp
  ultimately show ?thesis by (simp only: it_inv_def)
qed

text \<open>The tree of hole sizes is ordered by decreasing size, that is by increasing complement of the size.\<close>

lemma not_less_not_iff: "NOT a < NOT b \<longleftrightarrow> b < a" for a b :: "'a::len word"
proof -
  have "uint (NOT w) = mask LENGTH('a) - uint w" for w :: "'a word"
    by (simp add: unsigned_not_eq take_bit_not_eq_mask_diff take_bit_int_eq_self)
  then show ?thesis by (simp add: word_less_def)
qed

lemma not_le_not_iff: "NOT a \<le> NOT b \<longleftrightarrow> b \<le> a" for a b :: "'a::len word"
  using not_less_not_iff [of b a] by (simp add: not_less [symmetric])

abbreviation size_key :: "drm_mm \<Rightarrow> mm_ref \<Rightarrow> u64" where
  "size_key mm p \<equiv> NOT (mm_hole_size mm p)"

lemma hole_size_link_it: "hole_size_link hs n t = it_link (\<lambda>p. NOT (hs p)) (\<lambda>_. 0) n t"
  by (induction t) (simp_all add: not_less_not_iff Let_def)

lemma hole_size_first_it: "hole_size_first hs n t = it_leftmost (\<lambda>p. NOT (hs p)) n t"
  by (induction t) (simp_all add: not_less_not_iff)

lemma insert_hole_size_it:
  "insert_hole_size lib hs n root = it_insert (lib (\<lambda>_. 0)) (\<lambda>p. NOT (hs p)) (\<lambda>_. 0) n root"
  by (simp add: insert_hole_size_def it_insert_def hole_size_link_it hole_size_first_it)

section \<open>The invariant\<close>

fun tiled :: "drm_mm \<Rightarrow> u64 \<Rightarrow> mm_ref list \<Rightarrow> u64 \<Rightarrow> bool" where
  "tiled mm a [] e = (a \<le> e)"
| "tiled mm a (p # ps) e =
     (a \<le> mm_start mm p \<and> mm_start mm p < hole_node_start mm p \<and> tiled mm (hole_node_start mm p) ps e)"

definition mm_layout :: "drm_mm \<Rightarrow> mm_ref list \<Rightarrow> bool" where
  "mm_layout mm ps \<longleftrightarrow>
     ring (node_list mm) MM_HEAD ps \<and> set ps \<subseteq> range MM_NODE \<and>
     (\<forall>p \<in> set ps. drm_mm_node_allocated mm p) \<and> \<not> drm_mm_node_allocated mm MM_HEAD \<and>
     tiled mm (hole_node_start mm MM_HEAD) ps (mm_start mm MM_HEAD) \<and> hole_node_start mm MM_HEAD < mm_start mm MM_HEAD"

definition holes_inv :: "drm_mm \<Rightarrow> mm_ref list \<Rightarrow> bool" where
  "holes_inv mm hs \<longleftrightarrow>
     distinct hs \<and> (\<forall>p \<in> set hs. mm_hole_size mm p \<noteq> 0) \<and>
     it_inv (size_key mm) (\<lambda>_. 0) (holes_size mm) \<and> set (inorder (rb_root (holes_size mm))) = set hs \<and>
     augmented (mm_hole_size mm) (holes_addr mm) \<and> inorder (holes_addr mm) = hs \<and>
     distinct (hole_stack mm) \<and> set (hole_stack mm) = set hs"

definition mm_gaps :: "drm_mm \<Rightarrow> mm_ref list \<Rightarrow> bool" where
  "mm_gaps mm ps \<longleftrightarrow> (\<forall>p \<in> set (MM_HEAD # ps). mm_hole_size mm p = hole_node_end mm p - hole_node_start mm p)"

definition mm_holes :: "drm_mm \<Rightarrow> mm_ref list \<Rightarrow> mm_ref list" where
  "mm_holes mm ps = filter (drm_mm_hole_follows mm) (MM_HEAD # ps)"

definition mm_inv :: "drm_mm \<Rightarrow> mm_ref list \<Rightarrow> bool" where
  "mm_inv mm ps \<longleftrightarrow>
     mm_layout mm ps \<and> mm_gaps mm ps \<and> holes_inv mm (mm_holes mm ps) \<and>
     it_inv (mm_start mm) (mm_last mm) (interval_tree mm) \<and> inorder (rb_root (interval_tree mm)) = ps \<and>
     (\<forall>p \<in> set ps. \<not> drm_mm_node_scanned_block mm p)"

lemmas node_defs = drm_mm_node_allocated_def drm_mm_node_scanned_block_def drm_mm_hole_follows_def hole_node_start_def
  hole_node_end_def mm_last_def upd_node_def

section \<open>Addresses\<close>

lemma tiled_le: "tiled mm a ps e \<Longrightarrow> a \<le> e"
proof (induction ps arbitrary: a)
  case (Cons p ps)
  then have "hole_node_start mm p \<le> e" "a \<le> mm_start mm p" "mm_start mm p < hole_node_start mm p" by auto
  then show ?case by order
qed simp

lemma tiled_append:
  "tiled mm (hole_node_start mm h) (as @ bs) e \<longleftrightarrow>
   tiled mm (hole_node_start mm h) as (hole_node_start mm (last (h # as))) \<and>
   tiled mm (hole_node_start mm (last (h # as))) bs e"
  by (induction as arbitrary: h) (auto dest: tiled_le)

lemma tiled_cong:
  "(\<And>p. p \<in> set ps \<Longrightarrow> mm_start mm p = mm_start mm' p \<and> mm_size mm p = mm_size mm' p) \<Longrightarrow>
   tiled mm a ps e = tiled mm' a ps e"
  by (induction ps arbitrary: a) (auto simp: hole_node_start_def)

lemma tiled_bounds:
  "tiled mm a ps e \<Longrightarrow> p \<in> set ps \<Longrightarrow>
   a \<le> mm_start mm p \<and> mm_start mm p < hole_node_start mm p \<and> hole_node_start mm p \<le> e"
proof (induction ps arbitrary: a)
  case (Cons q ps)
  show ?case
  proof (cases "p = q")
    case True
    with Cons.prems tiled_le show ?thesis by auto
  next
    case False
    then have "hole_node_start mm q \<le> mm_start mm p \<and> mm_start mm p < hole_node_start mm p \<and> hole_node_start mm p \<le> e"
      using Cons by auto
    moreover have "a \<le> mm_start mm q" "mm_start mm q < hole_node_start mm q" using Cons.prems by auto
    ultimately show ?thesis by (auto intro: order_trans less_imp_le)
  qed
qed simp

lemma tiled_after:
  "tiled mm a (as @ p # bs) e \<Longrightarrow> q \<in> set bs \<Longrightarrow> hole_node_start mm p \<le> mm_start mm q"
  by (induction as arbitrary: a) (auto dest: tiled_bounds)

text \<open>The end of the hole behind a node is not before its start.\<close>

lemma layout_gap:
  assumes "mm_layout mm (as @ bs)" and "q = last (MM_HEAD # as)"
  shows "hole_node_end mm q = mm_start mm (hd (bs @ [MM_HEAD]))" and "hole_node_start mm q \<le> hole_node_end mm q"
proof -
  have "list_next (node_list mm q) = hd (bs @ [MM_HEAD])"
  proof (cases as rule: rev_cases)
    case Nil
    with assms ring_next_head [of "node_list mm" MM_HEAD bs] show ?thesis by (simp add: mm_layout_def)
  next
    case (snoc xs x)
    with assms ring_next [of "node_list mm" MM_HEAD xs x bs] show ?thesis by (simp add: mm_layout_def)
  qed
  then show e: "hole_node_end mm q = mm_start mm (hd (bs @ [MM_HEAD]))" by (simp add: hole_node_end_def)
  have "tiled mm (hole_node_start mm q) bs (mm_start mm MM_HEAD)"
    using assms by (simp add: mm_layout_def tiled_append)
  then show "hole_node_start mm q \<le> hole_node_end mm q" unfolding e by (cases bs) auto
qed


lemma layout_sorted:
  assumes "mm_layout mm ps"
  shows "sorted_wrt (\<lambda>p q. hole_node_start mm p < hole_node_start mm q) (MM_HEAD # ps)"
proof -
  have "tiled mm a ps e \<Longrightarrow> sorted_wrt (\<lambda>p q. hole_node_start mm p < hole_node_start mm q) ps" for a e
  proof (induction ps arbitrary: a)
    case (Cons p ps)
    then have "hole_node_start mm p < hole_node_start mm q" if "q \<in> set ps" for q
      using that tiled_bounds [of mm "hole_node_start mm p" ps e q] by (auto intro: le_less_trans)
    with Cons show ?case by auto
  qed simp
  with assms show ?thesis by (auto simp: mm_layout_def dest: tiled_bounds intro: le_less_trans)
qed

lemma layout_disjoint:
  assumes "mm_layout mm ps"
  shows "sorted_wrt (\<lambda>p q. mm_start mm p < hole_node_start mm p \<and> hole_node_start mm p \<le> mm_start mm q) ps"
proof -
  have "tiled mm a ps e \<Longrightarrow> sorted_wrt (\<lambda>p q. mm_start mm p < hole_node_start mm p \<and> hole_node_start mm p \<le> mm_start mm q) ps" for a e
    by (induction ps arbitrary: a) (auto dest: tiled_bounds)
  with assms show ?thesis by (auto simp: mm_layout_def)
qed

text \<open>The operations on holes change no block: its position, its size, its color and its flags.\<close>

definition same_blocks :: "drm_mm \<Rightarrow> drm_mm \<Rightarrow> bool" where
  "same_blocks mm mm' \<longleftrightarrow>
     (\<forall>q. mm_start mm' q = mm_start mm q \<and> mm_size mm' q = mm_size mm q \<and> n_color (mm_nodes mm' q) = n_color (mm_nodes mm q) \<and>
       drm_mm_node_scanned_block mm' q = drm_mm_node_scanned_block mm q)"

lemma same_blocks_starts:
  "same_blocks mm mm' \<Longrightarrow> mm_start mm' q = mm_start mm q" "same_blocks mm mm' \<Longrightarrow> mm_size mm' q = mm_size mm q"
  "same_blocks mm mm' \<Longrightarrow> mm_start mm' = mm_start mm" "same_blocks mm mm' \<Longrightarrow> hole_node_start mm' = hole_node_start mm"
  "same_blocks mm mm' \<Longrightarrow> mm_last mm' = mm_last mm"
  by (auto simp: same_blocks_def hole_node_start_def mm_last_def)

lemma same_blocks_trans: "same_blocks a b \<Longrightarrow> same_blocks b c \<Longrightarrow> same_blocks a c"
  by (simp add: same_blocks_def)

lemma holes_inv_cong:
  assumes inv: "holes_inv mm H" and eq: "\<And>q. q \<in> set H \<Longrightarrow> mm_hole_size mm' q = mm_hole_size mm q"
    and "holes_size mm' = holes_size mm" "holes_addr mm' = holes_addr mm" "hole_stack mm' = hole_stack mm"
  shows "holes_inv mm' H"
proof -
  have H: "set (inorder (rb_root (holes_size mm))) = set H" "inorder (holes_addr mm) = H"
    "it_inv (size_key mm) (\<lambda>_. 0) (holes_size mm)" "augmented (mm_hole_size mm) (holes_addr mm)"
    using inv by (simp_all add: holes_inv_def)
  have "it_inv (size_key mm') (\<lambda>_. 0) (holes_size mm)" by (rule iffD1 [OF it_inv_cong H(3)]) (use H eq in auto)
  moreover have "augmented (mm_hole_size mm') (holes_addr mm)" by (rule iffD1 [OF augmented_cong H(4)]) (use H eq in auto)
  ultimately show ?thesis using assms by (auto simp: holes_inv_def)
qed

text \<open>A node that is not in the list may be overwritten, and a block may be placed in the gap behind a node.\<close>

lemma tiled_place:
  assumes "tiled mm (hole_node_start mm MM_HEAD) (as @ bs) (mm_start mm MM_HEAD)" and "h = last (MM_HEAD # as)"
    and "hole_node_start mm h \<le> mm_start mm n" "mm_start mm n < hole_node_start mm n"
    and "hole_node_start mm n \<le> mm_start mm (hd (bs @ [MM_HEAD]))"
  shows "tiled mm (hole_node_start mm MM_HEAD) (as @ n # bs) (mm_start mm MM_HEAD)"
proof -
  have "tiled mm (hole_node_start mm MM_HEAD) as (hole_node_start mm h)" "tiled mm (hole_node_start mm h) bs (mm_start mm MM_HEAD)"
    using assms(1,2) tiled_append by metis+
  moreover have "tiled mm (hole_node_start mm n) bs (mm_start mm MM_HEAD)"
    using assms(5) calculation(2) by (cases bs) auto
  ultimately show ?thesis using assms by (simp only: tiled_append [of _ _ as] tiled.simps)
qed

lemma mm_holes_append:
  "mm_holes mm (as @ bs) =
   filter (drm_mm_hole_follows mm) (butlast (MM_HEAD # as)) @ filter (drm_mm_hole_follows mm) [last (MM_HEAD # as)] @
   filter (drm_mm_hole_follows mm) bs"
proof -
  have "MM_HEAD # as = butlast (MM_HEAD # as) @ [last (MM_HEAD # as)]" by (metis append_butlast_last_id list.distinct(1))
  then show ?thesis unfolding mm_holes_def by (metis append_Cons append_assoc filter_append)
qed

lemma mm_layout_place:
  assumes lay: "mm_layout mm (as @ bs)" and h: "h = last (MM_HEAD # as)" and n: "n \<in> range MM_NODE" "n \<notin> set (as @ bs)"
    and room: "hole_node_start mm h \<le> mm_start mm n" "mm_start mm n < hole_node_start mm n" "hole_node_start mm n \<le> hole_node_end mm h"
    and same: "same_blocks mm mm'" and alloc: "\<And>q. drm_mm_node_allocated mm' q \<longleftrightarrow> q = n \<or> drm_mm_node_allocated mm q"
    and list: "node_list mm' = list_add n h (node_list mm)"
  shows "mm_layout mm' (as @ n # bs)"
proof -
  have "ring (node_list mm') MM_HEAD (as @ n # bs)"
    unfolding list by (rule list_add_ring) (use lay h n in \<open>auto simp: mm_layout_def\<close>)
  moreover have "tiled mm (hole_node_start mm MM_HEAD) (as @ n # bs) (mm_start mm MM_HEAD)"
    by (rule tiled_place [OF _ h]) (use lay room layout_gap [OF lay h] in \<open>auto simp: mm_layout_def\<close>)
  then have "tiled mm' (hole_node_start mm' MM_HEAD) (as @ n # bs) (mm_start mm' MM_HEAD)"
    using same tiled_cong [of "as @ n # bs" mm mm'] by (simp add: same_blocks_starts)
  ultimately show ?thesis using lay n alloc same by (auto simp: mm_layout_def same_blocks_starts)
qed

section \<open>Linking behind a node of the interval tree\<close>

lemma split_cases:
  assumes "xs @ x # ys = as @ h # bs"
  obtains (here) "h = x" "xs = as" "ys = bs"
    | (left) cs where "xs = as @ h # cs" "bs = cs @ x # ys"
    | (right) cs where "ys = cs @ h # bs" "as = xs @ x # cs"
  using assms by (auto simp: append_eq_append_conv2 Cons_eq_append_conv append_eq_Cons_conv)

lemma inorder_it_link_first:
  "(\<And>q. q \<in> set (inorder t) \<Longrightarrow> st n < st q) \<Longrightarrow> inorder (it_link st la n t) = n # inorder t"
  by (induction t) (simp_all add: Let_def)

lemma raise_last_spec:
  assumes "raise_last (la n) (m, up) = (m', up')" and "\<forall>y \<in> S. la y \<le> m" and "\<exists>y \<in> S. la y = m"
    and "up \<or> (\<exists>y \<in> S. la n \<le> la y)"
  shows "\<forall>y \<in> insert n S. la y \<le> m'" and "\<exists>y \<in> insert n S. la y = m'" and "up' \<or> (\<exists>y \<in> S. la n \<le> la y)"
  using assms by (auto split: if_splits simp: not_le intro: order_trans dest: less_imp_le)

text \<open>The ascent may stop early: above a node that covers the new one, every ancestor covers it.\<close>

lemma it_link_at_spec:
  assumes "augmented la t" and "distinct (inorder t)" and "inorder t = as @ h # bs" and "\<And>q. q \<in> set bs \<Longrightarrow> st n < st q"
  obtains t' up where "it_link_at st la h n t = Some (t', up)" "inorder t' = as @ h # n # bs" "augmented la t'"
    "up \<or> (\<exists>y \<in> set (inorder t). la n \<le> la y)"
  using assms
proof (induction t arbitrary: as bs thesis)
  case (Node l x m r)
  let ?S = "set (inorder (Node l x m r))"
  have aug: "augmented la l" "augmented la r" "\<forall>y \<in> ?S. la y \<le> m" "\<exists>y \<in> ?S. la y = m" using Node.prems(2) by simp_all
  have none: "it_link_at st la h n t = None" if "h \<notin> set (inorder t)" for t
    using that by (induction t) auto
  have dis: "distinct (inorder l)" "distinct (inorder r)" using Node.prems(3) by simp_all
  from Node.prems(4) have "inorder l @ x # inorder r = as @ h # bs" by simp
  then show ?case
  proof (cases rule: split_cases)
    case here
    obtain m' up' where up: "raise_last (la n) (m, True) = (m', up')" by fastforce
    note raise = raise_last_spec [OF up aug(3,4) disjI1 [OF TrueI]]
    have "it_link_at st la h n (Node l x m r) = Some (Node l x m' (it_link st la n r), up')" using here up by simp
    moreover have "augmented la (Node l x m' (it_link st la n r))"
      using raise aug(1,2) by (auto simp: set_inorder_it_link augmented_it_link)
    moreover have "inorder (Node l x m' (it_link st la n r)) = as @ h # n # bs"
      using here Node.prems(5) inorder_it_link_first [of r st n la] by simp
    ultimately show ?thesis using Node.prems(1) raise(3) by blast
  next
    case (left cs)
    then obtain l' up where l': "it_link_at st la h n l = Some (l', up)" "inorder l' = as @ h # n # cs" "augmented la l'"
        "up \<or> (\<exists>y \<in> set (inorder l). la n \<le> la y)"
      using Node.IH(1) [of as cs] aug(1) dis(1) Node.prems(5) by auto
    obtain m' up' where up: "raise_last (la n) (m, up) = (m', up')" by fastforce
    have "up \<or> (\<exists>y \<in> ?S. la n \<le> la y)" using l'(4) by auto
    note raise = raise_last_spec [OF up aug(3,4) this]
    have S: "set (inorder l') = insert n (set (inorder l))" using l'(2) left by auto
    have "x \<noteq> h" using Node.prems(3) left by auto
    with l' up have "it_link_at st la h n (Node l x m r) = Some (Node l' x m' r, up')" by simp
    moreover have "augmented la (Node l' x m' r)" using raise l'(3) aug(2) S by auto
    ultimately show ?thesis using Node.prems(1) l'(2) left raise(3) by simp
  next
    case (right cs)
    then obtain r' up where r': "it_link_at st la h n r = Some (r', up)" "inorder r' = cs @ h # n # bs" "augmented la r'"
        "up \<or> (\<exists>y \<in> set (inorder r). la n \<le> la y)"
      using Node.IH(2) [of cs bs] aug(2) dis(2) Node.prems(5) by auto
    obtain m' up' where up: "raise_last (la n) (m, up) = (m', up')" by fastforce
    have "up \<or> (\<exists>y \<in> ?S. la n \<le> la y)" using r'(4) by auto
    note raise = raise_last_spec [OF up aug(3,4) this]
    have S: "set (inorder r') = insert n (set (inorder r))" using r'(2) right by auto
    have "x \<noteq> h" "h \<notin> set (inorder l)" using Node.prems(3) right by auto
    with r' up none have "it_link_at st la h n (Node l x m r) = Some (Node l x m' r', up')" by simp
    moreover have "augmented la (Node l x m' r')" using raise r'(3) aug(1) S by auto
    ultimately show ?thesis using Node.prems(1) r'(2) right raise(3) by simp
  qed
qed simp

section \<open>Adding and removing holes\<close>

locale mm_library = rb_family lib for lib :: rb_family_lib
begin

lemma rm_hole_spec:
  assumes inv: "holes_inv mm (as @ p # bs)"
  obtains mm' where "rm_hole lib p mm = Some mm'" "holes_inv mm' (as @ bs)"
    "mm_nodes mm' = (mm_nodes mm)(p := (mm_nodes mm p)\<lparr>n_hole_size := 0\<rparr>)"
    "node_list mm' = node_list mm" "interval_tree mm' = interval_tree mm" "scan_active mm' = scan_active mm"
proof -
  let ?hs = "mm_hole_size mm"
  let ?sz = "it_remove (lib (\<lambda>_. 0)) p (holes_size mm)" and ?ad = "rb_erase_augmented (lib ?hs) p (holes_addr mm)"
  define mm' where "mm' = upd_node p (\<lambda>n. n\<lparr>n_hole_size := 0\<rparr>)
    (mm\<lparr>hole_stack := remove1 p (hole_stack mm), holes_size := ?sz, holes_addr := ?ad\<rparr>)"
  have p: "p \<in> set (inorder (rb_root (holes_size mm)))" "p \<notin> set as" "p \<notin> set bs" "?hs p \<noteq> 0" "distinct (as @ bs)"
    using inv by (auto simp: holes_inv_def)
  have sz: "it_inv (size_key mm) (\<lambda>_. 0) ?sz" "set (inorder (rb_root ?sz)) = set (as @ bs)"
    using inv p rb.it_remove_inv [of "size_key mm" "\<lambda>_. 0" "holes_size mm" p]
      rb.it_remove_inorder [of "size_key mm" "\<lambda>_. 0" "holes_size mm" p]
    by (auto simp: holes_inv_def it_inv_def [of _ _ "holes_size mm"])
  have ad: "augmented ?hs ?ad" "inorder ?ad = as @ bs"
    using inv p rb.erase_augmented [of ?hs "holes_addr mm" p] rb.erase_inorder [of "holes_addr mm" p ?hs]
    by (auto simp: holes_inv_def remove1_append)
  have eq: "mm_hole_size mm' q = ?hs q" if "q \<in> set as \<union> set bs" for q using that p by (auto simp: mm'_def upd_node_def)
  have "it_inv (size_key mm') (\<lambda>_. 0) ?sz"
    by (rule iffD1 [OF it_inv_cong sz(1)]) (use sz(2) p eq in auto)
  moreover have "augmented (mm_hole_size mm') ?ad"
    by (rule iffD1 [OF augmented_cong ad(1)]) (use ad(2) p eq in auto)
  moreover have "\<forall>q \<in> set (as @ bs). mm_hole_size mm' q \<noteq> 0" using inv p eq by (auto simp: holes_inv_def)
  moreover have "holes_size mm' = ?sz" "holes_addr mm' = ?ad" "hole_stack mm' = remove1 p (hole_stack mm)"
    by (simp_all add: mm'_def upd_node_def)
  ultimately have "holes_inv mm' (as @ bs)" using inv p sz ad by (auto simp: holes_inv_def)
  moreover have "rm_hole lib p mm = Some mm'" using p by (simp add: rm_hole_def mm'_def drm_mm_hole_follows_def)
  ultimately show thesis by (intro that [of mm']) (simp_all add: mm'_def upd_node_def)
qed

lemma add_hole_spec:
  assumes inv: "holes_inv mm (as @ bs)" and fresh: "p \<notin> set (as @ bs)"
    and gap: "hole_node_end mm p \<noteq> hole_node_start mm p"
    and srt: "sorted (map (hole_node_start mm) (as @ bs))"
    and before: "\<And>q. q \<in> set as \<Longrightarrow> hole_node_start mm q \<le> hole_node_start mm p"
    and after: "\<And>q. q \<in> set bs \<Longrightarrow> hole_node_start mm p < hole_node_start mm q"
  obtains mm' where "add_hole lib p mm = Some mm'" "holes_inv mm' (as @ p # bs)"
    "mm_nodes mm' = (mm_nodes mm)(p := (mm_nodes mm p)\<lparr>n_hole_size := hole_node_end mm p - hole_node_start mm p\<rparr>)"
    "node_list mm' = node_list mm" "interval_tree mm' = interval_tree mm" "scan_active mm' = scan_active mm"
proof -
  define mm1 where "mm1 = upd_node p (\<lambda>n. n\<lparr>n_hole_size := hole_node_end mm p - hole_node_start mm p\<rparr>) mm"
  let ?sz = "insert_hole_size lib (mm_hole_size mm1) p (holes_size mm)" and ?ad = "insert_hole_addr lib mm1 p (holes_addr mm)"
  define mm' where "mm' = mm1\<lparr>holes_size := ?sz, holes_addr := ?ad, hole_stack := p # hole_stack mm\<rparr>"
  have st: "hole_node_start mm1 = hole_node_start mm" by (auto simp: mm1_def node_defs)
  have eq: "mm_hole_size mm1 q = mm_hole_size mm q" if "q \<in> set as \<union> set bs" for q
    using that fresh by (auto simp: mm1_def upd_node_def)
  have p0: "mm_hole_size mm1 p \<noteq> 0" using gap by (simp add: mm1_def upd_node_def)
  have H: "inorder (holes_addr mm) = as @ bs" "set (inorder (rb_root (holes_size mm))) = set (as @ bs)"
    using inv by (simp_all add: holes_inv_def)
  have key: "it_inv (size_key mm1) (\<lambda>_. 0) (holes_size mm)"
    by (rule iffD1 [OF it_inv_cong, of _ "size_key mm"]) (use inv fresh H(2) eq in \<open>auto simp: holes_inv_def\<close>)
  have sz: "it_inv (size_key mm1) (\<lambda>_. 0) ?sz"
    unfolding insert_hole_size_it by (rule rb.it_insert_inv [OF key]) (use fresh H in simp)
  have szset: "set (inorder (rb_root ?sz)) = insert p (set (as @ bs))"
    unfolding insert_hole_size_it using H(2) by (simp add: it_insert_def rb.insert_inorder set_inorder_it_link)
  have aug: "augmented (mm_hole_size mm1) (holes_addr mm)"
    by (rule iffD1 [OF augmented_cong, of _ "mm_hole_size mm"]) (use inv fresh H(1) eq in \<open>auto simp: holes_inv_def\<close>)
  have ad: "augmented (mm_hole_size mm1) ?ad"
    unfolding insert_hole_addr_def by (intro rb.insert_augmented augmented_it_link aug)
  have tw: "takeWhile (\<lambda>q. hole_node_start mm q \<le> hole_node_start mm p) (as @ bs) = as"
    "dropWhile (\<lambda>q. hole_node_start mm q \<le> hole_node_start mm p) (as @ bs) = bs"
    using before after by (cases bs; fastforce simp: takeWhile_append dropWhile_append)+
  have adset: "inorder ?ad = as @ p # bs"
    unfolding insert_hole_addr_def st using H(1) srt tw by (simp only: rb.insert_inorder inorder_it_link)
  have mm': "mm_hole_size mm' q = mm_hole_size mm1 q" "holes_size mm' = ?sz" "holes_addr mm' = ?ad"
    "hole_stack mm' = p # hole_stack mm" for q
    by (simp_all add: mm'_def)
  have "\<forall>q \<in> set (as @ p # bs). mm_hole_size mm1 q \<noteq> 0" using inv p0 eq by (auto simp: holes_inv_def)
  moreover have "distinct (as @ p # bs)" using inv fresh by (auto simp: holes_inv_def)
  ultimately have "holes_inv mm' (as @ p # bs)"
    using sz szset ad adset inv fresh unfolding holes_inv_def mm' by auto
  moreover have "add_hole lib p mm = Some mm'"
    using p0 by (simp add: add_hole_def mm'_def mm1_def [symmetric] drm_mm_hole_follows_def)
      (simp add: mm1_def upd_node_def)
  ultimately show thesis by (intro that [of mm']) (simp_all add: mm'_def mm1_def upd_node_def)
qed

lemma add_node_spec:
  assumes inv: "it_inv (mm_start mm) (mm_last mm) (interval_tree mm)" and ino: "inorder (rb_root (interval_tree mm)) = as @ bs"
    and h: "h = last (MM_HEAD # as)" and alloc: "drm_mm_node_allocated mm h \<longleftrightarrow> as \<noteq> []"
    and fresh: "n \<notin> set (as @ bs)"
    and before: "\<And>q. q \<in> set as \<Longrightarrow> mm_start mm q \<le> mm_start mm n" and after: "\<And>q. q \<in> set bs \<Longrightarrow> mm_start mm n < mm_start mm q"
  obtains t where "interval_tree_add_node lib h n mm = Some (mm\<lparr>interval_tree := t\<rparr>)"
    "it_inv (mm_start mm) (mm_last mm) t" "inorder (rb_root t) = as @ n # bs"
proof (cases as rule: rev_cases)
  case Nil
  let ?t = "it_insert (lib (mm_last mm)) (mm_start mm) (mm_last mm) n (interval_tree mm)"
  have "it_inv (mm_start mm) (mm_last mm) ?t" using rb.it_insert_inv [OF inv] fresh ino by simp
  moreover have "takeWhile (\<lambda>y. mm_start mm y \<le> mm_start mm n) bs = []" "dropWhile (\<lambda>y. mm_start mm y \<le> mm_start mm n) bs = bs"
    using after by (cases bs; auto simp: not_le)+
  then have "inorder (rb_root ?t) = n # bs" using rb.it_insert_inorder [OF inv, of n] ino Nil by simp
  moreover have "interval_tree_add_node lib h n mm = Some (mm\<lparr>interval_tree := ?t\<rparr>)"
    using alloc Nil by (simp add: interval_tree_add_node_def)
  ultimately show thesis using that Nil by simp
next
  case (snoc xs x)
  let ?T = "rb_root (interval_tree mm)"
  have hx: "h = x" and split: "?T = ?T" "inorder ?T = xs @ h # bs" using h ino snoc by simp_all
  have "augmented (mm_last mm) ?T" "distinct (inorder ?T)" using inv by (simp_all add: it_inv_def)
  from it_link_at_spec [OF this split(2), of "mm_start mm" n] after
  obtain t' up where t': "it_link_at (mm_start mm) (mm_last mm) h n ?T = Some (t', up)" "inorder t' = xs @ h # n # bs"
    "augmented (mm_last mm) t'" by metis
  let ?t = "(interval_tree mm)\<lparr>rb_root := rb_insert_augmented (lib (mm_last mm)) t'\<rparr>"
  have ino': "inorder (rb_root ?t) = as @ n # bs" using t'(2) snoc hx by (simp add: rb.insert_inorder)
  have "sorted (map (mm_start mm) (as @ n # bs))"
    using inv ino before after by (auto simp: it_inv_def sorted_append intro: less_imp_le order_trans)
  moreover have "distinct (as @ n # bs)" using inv ino fresh by (auto simp: it_inv_def)
  moreover have "rb_leftmost ?t = (case as @ n # bs of [] \<Rightarrow> None | y # _ \<Rightarrow> Some y)"
    using inv ino snoc by (cases xs) (auto simp: it_inv_def)
  moreover have "augmented (mm_last mm) (rb_root ?t)" using t'(3) by (simp add: rb.insert_augmented)
  ultimately have "it_inv (mm_start mm) (mm_last mm) ?t" unfolding it_inv_def ino' by simp
  moreover have "interval_tree_add_node lib h n mm = Some (mm\<lparr>interval_tree := ?t\<rparr>)"
    using alloc snoc t'(1) by (simp add: interval_tree_add_node_def)
  ultimately show thesis using that ino' by blast
qed

text \<open>The conditional forms in which the source uses both operations.\<close>

lemma opt_rm_hole:
  assumes inv: "holes_inv mm (as @ filter (drm_mm_hole_follows mm) [p] @ bs)"
  obtains mm' where "(if drm_mm_hole_follows mm p then rm_hole lib p mm else Some mm) = Some mm'" "holes_inv mm' (as @ bs)"
    "mm_nodes mm' = (mm_nodes mm)(p := (mm_nodes mm p)\<lparr>n_hole_size := 0\<rparr>)"
    "node_list mm' = node_list mm" "interval_tree mm' = interval_tree mm" "scan_active mm' = scan_active mm"
proof (cases "drm_mm_hole_follows mm p")
  case True
  with inv rm_hole_spec [of mm as p bs] that show thesis by auto
next
  case False
  then have "(mm_nodes mm p)\<lparr>n_hole_size := 0\<rparr> = mm_nodes mm p" by (simp add: drm_mm_hole_follows_def)
  with False inv that [of mm] show thesis by (simp add: fun_upd_idem)
qed

lemma opt_add_hole:
  assumes inv: "holes_inv mm (as @ bs)" and srt: "sorted_wrt (\<lambda>p q. hole_node_start mm p < hole_node_start mm q) (as @ p # bs)"
    and zero: "mm_hole_size mm p = 0" and c: "c \<longleftrightarrow> hole_node_end mm p \<noteq> hole_node_start mm p"
  obtains mm' where "(if c then add_hole lib p mm else Some mm) = Some mm'" "holes_inv mm' (as @ filter (\<lambda>_. c) [p] @ bs)"
    "mm_nodes mm' = (mm_nodes mm)(p := (mm_nodes mm p)\<lparr>n_hole_size := hole_node_end mm p - hole_node_start mm p\<rparr>)"
    "node_list mm' = node_list mm" "interval_tree mm' = interval_tree mm" "scan_active mm' = scan_active mm"
proof (cases c)
  case True
  have fresh: "p \<notin> set (as @ bs)" using srt by (auto simp: sorted_wrt_append)
  have "sorted (map (hole_node_start mm) (as @ bs))"
    using srt by (auto simp: sorted_wrt_append sorted_append sorted_wrt_map elim: sorted_wrt_mono_rel [rotated] intro: less_imp_le)
  from add_hole_spec [OF inv fresh _ this] srt c True that show thesis
    by (simp add: sorted_wrt_append) (metis less_imp_le)
next
  case False
  then have "(mm_nodes mm p)\<lparr>n_hole_size := hole_node_end mm p - hole_node_start mm p\<rparr> = mm_nodes mm p"
    using zero c by simp
  with False inv that [of mm] show thesis by (simp add: fun_upd_idem)
qed

text \<open>Splitting the hole behind \<open>h\<close> at the block \<open>n\<close>.\<close>

lemma split_hole_spec:
  assumes inv: "holes_inv mm (A @ h # B)" and srt: "sorted_wrt (\<lambda>p q. hole_node_start mm p < hole_node_start mm q) (A @ h # n # B)"
    and n: "n \<noteq> h" "mm_hole_size mm n = 0"
    and room: "hole_node_start mm h \<le> mm_start mm n" "hole_node_start mm n \<le> E"
    and ends: "hole_node_end mm h = mm_start mm n" "hole_node_end mm n = E"
    and c: "c \<longleftrightarrow> hole_node_start mm h < mm_start mm n" and d: "d \<longleftrightarrow> hole_node_start mm n < E"
  obtains mm' where "split_hole lib h n (hole_node_start mm h) E mm = Some mm'"
    "holes_inv mm' (A @ filter (\<lambda>_. c) [h] @ filter (\<lambda>_. d) [n] @ B)"
    "mm_nodes mm' = (mm_nodes mm)(h := (mm_nodes mm h)\<lparr>n_hole_size := mm_start mm n - hole_node_start mm h\<rparr>,
       n := (mm_nodes mm n)\<lparr>n_hole_size := E - hole_node_start mm n\<rparr>)"
    "node_list mm' = node_list mm" "interval_tree mm' = interval_tree mm" "scan_active mm' = scan_active mm"
proof -
  obtain mm5 where mm5: "rm_hole lib h mm = Some mm5" "holes_inv mm5 (A @ B)"
    "mm_nodes mm5 = (mm_nodes mm)(h := (mm_nodes mm h)\<lparr>n_hole_size := 0\<rparr>)"
    "node_list mm5 = node_list mm" "interval_tree mm5 = interval_tree mm" "scan_active mm5 = scan_active mm"
    using rm_hole_spec [OF inv] by blast
  have same5: "same_blocks mm mm5" using mm5(3) by (auto simp: same_blocks_def node_defs)
  note st5 = same_blocks_starts [OF same5]
  have nxt5: "hole_node_end mm5 h = mm_start mm n" using ends st5 mm5(4) by (simp add: hole_node_end_def)
  obtain mm6 where mm6: "(if c then add_hole lib h mm5 else Some mm5) = Some mm6" "holes_inv mm6 (A @ filter (\<lambda>_. c) [h] @ B)"
    "mm_nodes mm6 = (mm_nodes mm5)(h := (mm_nodes mm5 h)\<lparr>n_hole_size := mm_start mm n - hole_node_start mm h\<rparr>)"
    "node_list mm6 = node_list mm5" "interval_tree mm6 = interval_tree mm5" "scan_active mm6 = scan_active mm5"
  proof (rule opt_add_hole [OF mm5(2), of h c])
    show "sorted_wrt (\<lambda>p q. hole_node_start mm5 p < hole_node_start mm5 q) (A @ h # B)"
      using srt unfolding st5 by (auto simp: sorted_wrt_append)
    show "mm_hole_size mm5 h = 0" using mm5(3) by simp
    show "c \<longleftrightarrow> hole_node_end mm5 h \<noteq> hole_node_start mm5 h" using room nxt5 st5 c by auto
  qed (use nxt5 st5 in simp)
  have same6: "same_blocks mm mm6" using same5 mm6(3) by (auto simp: same_blocks_def node_defs)
  note st6 = same_blocks_starts [OF same6]
  have nxt6: "hole_node_end mm6 n = E" using ends st6 mm5(4) mm6(4) by (simp add: hole_node_end_def)
  obtain mm7 where mm7: "(if d then add_hole lib n mm6 else Some mm6) = Some mm7"
    "holes_inv mm7 (A @ filter (\<lambda>_. c) [h] @ filter (\<lambda>_. d) [n] @ B)"
    "mm_nodes mm7 = (mm_nodes mm6)(n := (mm_nodes mm6 n)\<lparr>n_hole_size := E - hole_node_start mm n\<rparr>)"
    "node_list mm7 = node_list mm6" "interval_tree mm7 = interval_tree mm6" "scan_active mm7 = scan_active mm6"
  proof (rule opt_add_hole [of mm6 "A @ filter (\<lambda>_. c) [h]" B n d])
    show "sorted_wrt (\<lambda>p q. hole_node_start mm6 p < hole_node_start mm6 q) ((A @ filter (\<lambda>_. c) [h]) @ n # B)"
      using srt unfolding st6 by (auto simp: sorted_wrt_append)
    show "mm_hole_size mm6 n = 0" using mm6(3) mm5(3) n by simp
    show "d \<longleftrightarrow> hole_node_end mm6 n \<noteq> hole_node_start mm6 n" using room nxt6 st6 d by auto
  qed (use mm6(2) nxt6 st6 in simp_all)
  have "split_hole lib h n (hole_node_start mm h) E mm = Some mm7"
    using mm5(1) mm6(1) mm7(1) st5 st6 c d unfolding hole_node_start_def [of _ n] by (simp add: split_hole_def)
  moreover have "mm_nodes mm7 = (mm_nodes mm)(h := (mm_nodes mm h)\<lparr>n_hole_size := mm_start mm n - hole_node_start mm h\<rparr>,
       n := (mm_nodes mm n)\<lparr>n_hole_size := E - hole_node_start mm n\<rparr>)"
    using mm7(3) mm6(3) mm5(3) n by simp
  ultimately show thesis using that mm7 mm6(4-6) mm5(4-6) by simp
qed

text \<open>Linking a block behind \<open>h\<close> into the list and the interval tree.\<close>

lemma link_node_spec:
  assumes inv: "mm_inv mm (as @ bs)" and h: "h = last (MM_HEAD # as)" and n: "n \<in> range MM_NODE" "n \<notin> set (as @ bs)"
    and room: "hole_node_start mm h \<le> mm_start mm n" "mm_start mm n < hole_node_start mm n" "hole_node_start mm n \<le> hole_node_end mm h"
    and mm2: "mm2 = (upd_node n (\<lambda>x. x\<lparr>n_allocated := True\<rparr>) mm)\<lparr>node_list := list_add n h (node_list mm)\<rparr>"
  obtains t where "interval_tree_add_node lib h n mm2 = Some (mm2\<lparr>interval_tree := t\<rparr>)"
    "it_inv (mm_start mm) (mm_last mm) t" "inorder (rb_root t) = as @ n # bs" "mm_layout mm2 (as @ n # bs)"
proof -
  have lay: "mm_layout mm (as @ bs)" using inv by (simp add: mm_inv_def)
  have nh: "n \<noteq> h" using h n last_in_set [of "MM_HEAD # as"] by auto
  have same: "same_blocks mm mm2" and alloc: "\<And>q. drm_mm_node_allocated mm2 q \<longleftrightarrow> q = n \<or> drm_mm_node_allocated mm q"
    by (auto simp: mm2 same_blocks_def node_defs)
  note st = same_blocks_starts [OF same]
  have lay2: "mm_layout mm2 (as @ n # bs)" by (rule mm_layout_place [OF lay h n room same alloc]) (simp add: mm2)
  have bnd: "q \<in> set as \<Longrightarrow> mm_start mm q \<le> mm_start mm n" "q \<in> set bs \<Longrightarrow> mm_start mm n < mm_start mm q" for q
    using layout_disjoint [OF lay2] room(2) unfolding st by (auto simp: sorted_wrt_append intro: less_imp_le less_le_trans)
  show thesis
  proof (rule add_node_spec [of mm2 as bs h n])
    have "drm_mm_node_allocated mm h \<longleftrightarrow> as \<noteq> []" using lay h by (auto simp: mm_layout_def)
    then show "drm_mm_node_allocated mm2 h \<longleftrightarrow> as \<noteq> []" using alloc nh by auto
    show "it_inv (mm_start mm2) (mm_last mm2) (interval_tree mm2)" "inorder (rb_root (interval_tree mm2)) = as @ bs"
      using inv st by (simp_all add: mm2 upd_node_def mm_inv_def)
  qed (use bnd h n st that lay2 in auto)
qed

text \<open>Placing a block in the hole behind \<open>h\<close>.\<close>

lemma place_node_spec:
  assumes inv: "mm_inv mm (as @ bs)" and h: "h = last (MM_HEAD # as)" and n: "n \<in> range MM_NODE" "n \<notin> set (as @ bs)"
    and room: "hole_node_start mm h \<le> mm_start mm n" "mm_start mm n < hole_node_start mm n" "hole_node_start mm n \<le> hole_node_end mm h"
    and unscanned: "\<not> drm_mm_node_scanned_block mm n"
  obtains mm' where "place_node lib h n (hole_node_start mm h) (hole_node_end mm h) mm = Some mm'" "mm_inv mm' (as @ n # bs)"
    "same_blocks mm mm'" "\<And>q. drm_mm_node_allocated mm' q \<longleftrightarrow> q = n \<or> drm_mm_node_allocated mm q"
    "scan_active mm' = scan_active mm"
proof -
  let ?ps = "as @ bs" and ?f = "drm_mm_hole_follows mm" and ?X = "butlast (MM_HEAD # as)"
  define c where "c \<longleftrightarrow> hole_node_start mm h < mm_start mm n"
  define d where "d \<longleftrightarrow> hole_node_start mm n < hole_node_end mm h"
  have lay: "mm_layout mm ?ps" and gaps: "mm_gaps mm ?ps" and hol: "holes_inv mm (mm_holes mm ?ps)"
    using inv by (simp_all add: mm_inv_def)
  have nh: "n \<noteq> h" and hin: "h \<in> set (MM_HEAD # as)" using h n last_in_set [of "MM_HEAD # as"] by auto
  have cut: "MM_HEAD # as @ n # bs = ?X @ h # n # bs"
    using h by (metis append_butlast_last_id append_Cons append_assoc append_Nil list.distinct(1))
  define mm2 where "mm2 = (upd_node n (\<lambda>x. x\<lparr>n_allocated := True\<rparr>) mm)\<lparr>node_list := list_add n h (node_list mm)\<rparr>"
  obtain t where t: "interval_tree_add_node lib h n mm2 = Some (mm2\<lparr>interval_tree := t\<rparr>)"
    "it_inv (mm_start mm) (mm_last mm) t" "inorder (rb_root t) = as @ n # bs" and lay2: "mm_layout mm2 (as @ n # bs)"
    using link_node_spec [OF inv h n room mm2_def] .
  define mm4 where "mm4 = upd_node n (\<lambda>x. x\<lparr>n_hole_size := 0\<rparr>) (mm2\<lparr>interval_tree := t\<rparr>)"
  have same: "same_blocks mm mm2" "same_blocks mm mm4" by (auto simp: mm4_def mm2_def same_blocks_def node_defs)
  note st = same_blocks_starts [OF same(1)] same_blocks_starts [OF same(2)]
  have list4: "node_list mm4 = list_add n h (node_list mm)" and z4: "mm_hole_size mm4 n = 0"
    by (simp_all add: mm4_def mm2_def upd_node_def)
  have e4: "hole_node_end mm4 h = mm_start mm n" "hole_node_end mm4 n = hole_node_end mm h"
    using nh by (simp_all add: hole_node_end_def list4 list_add_next st)
  have "?f h" using gaps room hin by (auto simp: mm_gaps_def drm_mm_hole_follows_def)
  then have H: "mm_holes mm ?ps = filter ?f ?X @ h # filter ?f bs" using h by (simp add: mm_holes_append)
  have dis: "distinct (?X @ h # n # bs)" using lay2 cut by (metis mm_layout_def ring_def)
  have "holes_inv mm4 (filter ?f ?X @ h # filter ?f bs)"
    by (rule holes_inv_cong [OF hol [unfolded H]]) (use dis in \<open>auto simp: mm4_def mm2_def upd_node_def simp del: butlast.simps\<close>)
  moreover have "sorted_wrt (\<lambda>p q. hole_node_start mm p < hole_node_start mm q) (filter ?f ?X @ h # n # filter ?f bs)"
    using layout_sorted [OF lay2] unfolding st cut by (auto simp: sorted_wrt_append intro: sorted_wrt_filter simp del: butlast.simps)
  ultimately obtain mm7 where mm7: "split_hole lib h n (hole_node_start mm h) (hole_node_end mm h) mm4 = Some mm7"
    "holes_inv mm7 (filter ?f ?X @ filter (\<lambda>_. c) [h] @ filter (\<lambda>_. d) [n] @ filter ?f bs)"
    "mm_nodes mm7 = (mm_nodes mm4)(h := (mm_nodes mm4 h)\<lparr>n_hole_size := mm_start mm n - hole_node_start mm h\<rparr>,
       n := (mm_nodes mm4 n)\<lparr>n_hole_size := hole_node_end mm h - hole_node_start mm n\<rparr>)"
    "node_list mm7 = node_list mm4" "interval_tree mm7 = interval_tree mm4" "scan_active mm7 = scan_active mm4"
    using split_hole_spec [of mm4 "filter ?f ?X" h "filter ?f bs" n "hole_node_end mm h" c d, unfolded st] nh z4 room e4 c_def d_def
    by blast
  have same7: "same_blocks mm mm7" using same mm7(3) by (auto simp: same_blocks_def node_defs)
  note st7 = same_blocks_starts [OF same7]
  have hs7: "mm_hole_size mm7 q = (if q = n then hole_node_end mm h - hole_node_start mm n
      else if q = h then mm_start mm n - hole_node_start mm h else mm_hole_size mm q)" for q
    using mm7(3) nh by (simp add: mm4_def mm2_def upd_node_def)
  have list7: "node_list mm7 = list_add n h (node_list mm)" using mm7(4) by (simp add: mm4_def mm2_def upd_node_def)
  have alloc7: "drm_mm_node_allocated mm7 q \<longleftrightarrow> q = n \<or> drm_mm_node_allocated mm q" for q
    using mm7(3) nh by (simp add: mm4_def mm2_def upd_node_def drm_mm_node_allocated_def)
  have "hole_node_end mm7 q = (if q = n then hole_node_end mm h else if q = h then mm_start mm n else hole_node_end mm q)" for q
    using nh st7 by (simp add: hole_node_end_def list7 list_add_next)
  then have "mm_gaps mm7 (as @ n # bs)" using gaps hs7 st7 by (auto simp: mm_gaps_def)
  moreover have "mm_holes mm7 (as @ n # bs) = filter ?f ?X @ filter (\<lambda>_. c) [h] @ filter (\<lambda>_. d) [n] @ filter ?f bs"
  proof -
    have "filter (drm_mm_hole_follows mm7) xs = filter ?f xs" if "h \<notin> set xs" "n \<notin> set xs" for xs
      using that hs7 by (intro filter_cong) (auto simp: drm_mm_hole_follows_def)
    moreover have "h \<notin> set ?X" "n \<notin> set ?X" "h \<notin> set bs" "n \<notin> set bs" using dis by (auto simp del: butlast.simps)
    moreover have "drm_mm_hole_follows mm7 h \<longleftrightarrow> c" "drm_mm_hole_follows mm7 n \<longleftrightarrow> d"
      using hs7 nh room by (auto simp: drm_mm_hole_follows_def c_def d_def)
    ultimately show ?thesis using h by (simp add: mm_holes_append [of mm7 as "n # bs"])
  qed
  moreover have "interval_tree mm7 = t" using mm7(5) by (simp add: mm4_def upd_node_def)
  moreover have "\<forall>p \<in> set (as @ n # bs). \<not> drm_mm_node_scanned_block mm7 p"
    using inv unscanned same7 by (auto simp: mm_inv_def same_blocks_def)
  moreover have "mm_layout mm7 (as @ n # bs)" by (rule mm_layout_place [OF lay h n room same7 alloc7 list7])
  ultimately have "mm_inv mm7 (as @ n # bs)" using mm7(2) t st7 by (simp add: mm_inv_def)
  moreover have "place_node lib h n (hole_node_start mm h) (hole_node_end mm h) mm = Some mm7"
  proof -
    have "(upd_node n (\<lambda>x. x\<lparr>n_allocated := True\<rparr>) mm)
        \<lparr>node_list := list_add n h (node_list (upd_node n (\<lambda>x. x\<lparr>n_allocated := True\<rparr>) mm))\<rparr> = mm2"
      by (simp add: mm2_def upd_node_def)
    then show ?thesis using t(1) mm7(1) unfolding place_node_def Let_def by (simp add: mm4_def [symmetric])
  qed
  moreover have "scan_active mm7 = scan_active mm" using mm7(6) by (simp add: mm4_def mm2_def upd_node_def)
  ultimately show thesis using that same7 alloc7 by blast
qed

end

end
