(* ===== verification/DRM_MM_Ops.thy ===== *)
theory DRM_MM_Ops
  imports DRM_MM_Inv
begin

text \<open>
  Initialisation and removal keep the invariant of the range allocator, and so does a write to a node that is not in the
  allocator. Removal is described on the list of blocks: exactly the removed block leaves it.
\<close>

section \<open>Nodes outside the allocator\<close>

lemma tiled_mono: "a \<le> b \<Longrightarrow> tiled mm b ps e \<Longrightarrow> tiled mm a ps e"
  by (cases ps) auto

lemma mm_layout_remove:
  assumes lay: "mm_layout mm (as @ n # bs)" and same: "same_blocks mm mm'"
    and alloc: "\<And>q. q \<noteq> n \<Longrightarrow> drm_mm_node_allocated mm' q = drm_mm_node_allocated mm q"
    and ring: "ring (node_list mm') MM_HEAD (as @ bs)"
  shows "mm_layout mm' (as @ bs)"
proof -
  let ?h = "last (MM_HEAD # as)" and ?e = "mm_start mm MM_HEAD"
  have t: "tiled mm (hole_node_start mm MM_HEAD) as (hole_node_start mm ?h)" "tiled mm (hole_node_start mm ?h) (n # bs) ?e"
    using lay tiled_append [of mm MM_HEAD as "n # bs" ?e] unfolding mm_layout_def by blast+
  then have "hole_node_start mm ?h \<le> hole_node_start mm n" "tiled mm (hole_node_start mm n) bs ?e" by auto
  then have "tiled mm (hole_node_start mm ?h) bs ?e" by (rule tiled_mono)
  with t(1) have "tiled mm (hole_node_start mm MM_HEAD) (as @ bs) ?e" by (simp only: tiled_append)
  then have "tiled mm' (hole_node_start mm' MM_HEAD) (as @ bs) (mm_start mm' MM_HEAD)"
    using same tiled_cong [of "as @ bs" mm mm'] by (simp add: same_blocks_starts)
  moreover have "n \<notin> set (as @ bs)" "n \<noteq> MM_HEAD" using lay by (auto simp: mm_layout_def ring_def)
  then have "\<forall>q \<in> set (as @ bs). drm_mm_node_allocated mm' q" "\<not> drm_mm_node_allocated mm' MM_HEAD"
    using lay alloc by (metis mm_layout_def Un_iff set_append list.set_intros(2), metis mm_layout_def)
  ultimately show ?thesis using lay ring same by (auto simp: mm_layout_def same_blocks_starts)
qed

lemma set_mm_holes: "set (mm_holes mm ps) = {p \<in> set (MM_HEAD # ps). drm_mm_hole_follows mm p}"
  by (auto simp: mm_holes_def)

text \<open>Writing the data of a node that is not in the list.\<close>

lemma mm_inv_upd_node:
  assumes inv: "mm_inv mm ps" and n: "n \<notin> set (MM_HEAD # ps)"
  shows "mm_inv (upd_node n f mm) ps"
proof -
  let ?mm = "upd_node n f mm"
  have eq: "mm_nodes ?mm q = mm_nodes mm q" if "q \<in> set (MM_HEAD # ps)" for q using that n by (auto simp: upd_node_def)
  have fld: "node_list ?mm = node_list mm" "interval_tree ?mm = interval_tree mm" "holes_size ?mm = holes_size mm"
    "holes_addr ?mm = holes_addr mm" "hole_stack ?mm = hole_stack mm" by (simp_all add: upd_node_def)
  have nxt: "list_next (node_list mm q) \<in> set (MM_HEAD # ps)" if "q \<in> set (MM_HEAD # ps)" for q
  proof -
    have ring: "ring (node_list mm) MM_HEAD ps" using inv by (simp add: mm_inv_def mm_layout_def)
    show ?thesis
    proof (cases "q = MM_HEAD")
      case True
      with ring_next_head [OF ring] show ?thesis by (cases ps) auto
    next
      case False
      then obtain as bs where ps: "ps = as @ q # bs" using \<open>q \<in> set (MM_HEAD # ps)\<close> by (auto dest: split_list)
      with ring_next [of "node_list mm" MM_HEAD as q bs] ring show ?thesis by (cases bs) auto
    qed
  qed
  have lay: "mm_layout ?mm ps"
    using inv eq tiled_cong [of ps ?mm mm] by (auto simp: mm_inv_def mm_layout_def fld hole_node_start_def drm_mm_node_allocated_def)
  have "mm_gaps ?mm ps" using inv eq nxt fld by (auto simp: mm_inv_def mm_gaps_def hole_node_end_def hole_node_start_def)
  moreover have H: "mm_holes ?mm ps = mm_holes mm ps"
    unfolding mm_holes_def by (rule filter_cong) (use eq in \<open>auto simp: drm_mm_hole_follows_def\<close>)
  moreover have "holes_inv ?mm (mm_holes mm ps)"
    by (rule holes_inv_cong [of mm]) (use inv eq fld set_mm_holes [of mm ps] in \<open>auto simp: mm_inv_def\<close>)
  moreover have "it_inv (mm_start ?mm) (mm_last ?mm) (interval_tree mm)"
    by (rule iffD1 [OF it_inv_cong, of _ "mm_start mm" _ "mm_last mm"]) (use inv eq in \<open>auto simp: mm_inv_def mm_last_def\<close>)
  ultimately show ?thesis using inv lay eq fld by (auto simp: mm_inv_def drm_mm_node_scanned_block_def)
qed

section \<open>Removal\<close>

lemma list_del_next:
  "list_prev (L n) \<noteq> n \<Longrightarrow> list_next (list_del p1 p2 n L q) =
   (if q = n then p1 else if q = list_prev (L n) then list_next (L n) else list_next (L q))"
  by (simp add: list_head_defs)

lemma mm_holes_cut:
  assumes "MM_HEAD # as = X @ [h]"
  shows "mm_holes mm (as @ bs) =
    filter (drm_mm_hole_follows mm) X @ filter (drm_mm_hole_follows mm) [h] @ filter (drm_mm_hole_follows mm) bs"
proof -
  have "MM_HEAD # as @ bs = X @ [h] @ bs" using assms by (metis append_Cons append_assoc)
  then show ?thesis unfolding mm_holes_def by (metis filter_append)
qed

context mm_library
begin

lemma remove_node_spec:
  assumes inv: "mm_inv mm (as @ n # bs)"
  obtains mm' where "drm_mm_remove_node lib n mm = Some mm'" "mm_inv mm' (as @ bs)" "same_blocks mm mm'"
    "\<And>q. drm_mm_node_allocated mm' q \<longleftrightarrow> drm_mm_node_allocated mm q \<and> q \<noteq> n" "scan_active mm' = scan_active mm"
proof -
  let ?ps = "as @ n # bs" and ?f = "drm_mm_hole_follows mm"
  obtain X h where h: "MM_HEAD # as = X @ [h]" by (metis rev_exhaust list.distinct(1))
  have lay: "mm_layout mm ?ps" and gaps: "mm_gaps mm ?ps" and hol: "holes_inv mm (mm_holes mm ?ps)"
    and itv: "it_inv (mm_start mm) (mm_last mm) (interval_tree mm)" "inorder (rb_root (interval_tree mm)) = ?ps"
    using inv by (simp_all add: mm_inv_def)
  have ring: "ring (node_list mm) MM_HEAD ?ps" using lay by (simp add: mm_layout_def)
  have cut: "MM_HEAD # ?ps = X @ h # n # bs" using h by (metis append_Cons append_assoc append_Nil)
  have dis: "distinct (X @ h # n # bs)" using ring cut by (metis ring_def)
  have prv: "list_prev (node_list mm n) = h" using ring_prev [OF ring] h by simp
  obtain mm1 where mm1: "(if ?f n then rm_hole lib n mm else Some mm) = Some mm1"
    "holes_inv mm1 ((filter ?f X @ filter ?f [h]) @ filter ?f bs)"
    "mm_nodes mm1 = (mm_nodes mm)(n := (mm_nodes mm n)\<lparr>n_hole_size := 0\<rparr>)"
    "node_list mm1 = node_list mm" "interval_tree mm1 = interval_tree mm" "scan_active mm1 = scan_active mm"
    using opt_rm_hole [of mm "filter ?f X @ filter ?f [h]" n "filter ?f bs"] hol mm_holes_cut [OF h, of mm "n # bs"]
    by (metis append_Cons append_Nil append_assoc filter_append)
  define mm3 where "mm3 = mm1\<lparr>interval_tree := it_remove (lib (mm_last mm)) n (interval_tree mm),
     node_list := list_del LIST_POISON1 LIST_POISON2 n (node_list mm)\<rparr>"
  have f3: "drm_mm_hole_follows mm3 h \<longleftrightarrow> ?f h" using mm1(3) dis by (auto simp: mm3_def drm_mm_hole_follows_def)
  obtain mm4 where mm4: "(if drm_mm_hole_follows mm3 h then rm_hole lib h mm3 else Some mm3) = Some mm4"
    "holes_inv mm4 (filter ?f X @ filter ?f bs)"
    "mm_nodes mm4 = (mm_nodes mm3)(h := (mm_nodes mm3 h)\<lparr>n_hole_size := 0\<rparr>)"
    "node_list mm4 = node_list mm3" "interval_tree mm4 = interval_tree mm3" "scan_active mm4 = scan_active mm3"
  proof (rule opt_rm_hole)
    have f: "filter (drm_mm_hole_follows mm3) [h] = filter ?f [h]" using f3 by simp
    show "holes_inv mm3 (filter ?f X @ filter (drm_mm_hole_follows mm3) [h] @ filter ?f bs)"
      unfolding f by (rule holes_inv_cong [of mm1]) (use mm1(2) in \<open>simp_all add: mm3_def\<close>)
  qed
  have same4: "same_blocks mm mm4" using mm1(3) mm4(3) by (auto simp: mm3_def same_blocks_def node_defs)
  note st4 = same_blocks_starts [OF same4]
  have end4: "hole_node_end mm4 h = hole_node_end mm n"
    using mm4(4) prv dis st4 by (auto simp: hole_node_end_def mm3_def list_del_next)
  have srt: "sorted_wrt (\<lambda>p q. hole_node_start mm p < hole_node_start mm q) (X @ h # n # bs)"
    using layout_sorted [OF lay] cut by simp
  have gap: "hole_node_start mm h < hole_node_end mm n"
    using srt layout_gap(2) [of mm "as @ [n]" bs n] lay by (auto simp: sorted_wrt_append)
  obtain mm5 where mm5: "add_hole lib h mm4 = Some mm5" "holes_inv mm5 (filter ?f X @ h # filter ?f bs)"
    "mm_nodes mm5 = (mm_nodes mm4)(h := (mm_nodes mm4 h)\<lparr>n_hole_size := hole_node_end mm n - hole_node_start mm h\<rparr>)"
    "node_list mm5 = node_list mm4" "interval_tree mm5 = interval_tree mm4" "scan_active mm5 = scan_active mm4"
  proof (rule opt_add_hole [OF mm4(2), of h True, unfolded end4 st4])
    show "sorted_wrt (\<lambda>p q. hole_node_start mm p < hole_node_start mm q) (filter ?f X @ h # filter ?f bs)"
      using srt by (auto simp: sorted_wrt_append intro: sorted_wrt_filter)
  qed (use mm4(3) gap in auto)
  define mm' where "mm' = upd_node n (\<lambda>x. x\<lparr>n_allocated := False\<rparr>) mm5"
  have run: "drm_mm_remove_node lib n mm = Some mm'"
  proof -
    have "mm_last mm1 = mm_last mm" using mm1(3) by (auto simp: mm_last_def)
    moreover have "drm_mm_node_allocated mm n" "\<not> drm_mm_node_scanned_block mm n" using inv by (auto simp: mm_inv_def mm_layout_def)
    ultimately show ?thesis using mm1(1,4,5) mm4(1) mm5(1) prv
      by (simp add: drm_mm_remove_node_def Let_def mm'_def mm3_def [symmetric] split: if_splits)
  qed
  have same: "same_blocks mm mm'" using same4 mm5(3) by (auto simp: mm'_def same_blocks_def node_defs)
  note st = same_blocks_starts [OF same]
  have nodes: "mm_nodes mm' = (mm_nodes mm)(n := (mm_nodes mm n)\<lparr>n_hole_size := 0, n_allocated := False\<rparr>,
      h := (mm_nodes mm h)\<lparr>n_hole_size := hole_node_end mm n - hole_node_start mm h\<rparr>)"
    using mm5(3) mm4(3) mm1(3) dis by (auto simp: mm'_def mm3_def upd_node_def)
  have list: "node_list mm' = list_del LIST_POISON1 LIST_POISON2 n (node_list mm)"
    using mm5(4) mm4(4) by (simp add: mm'_def mm3_def upd_node_def)
  have alloc: "drm_mm_node_allocated mm' q \<longleftrightarrow> drm_mm_node_allocated mm q \<and> q \<noteq> n" for q
    using nodes dis by (auto simp: drm_mm_node_allocated_def)
  have "mm_layout mm' (as @ bs)"
    by (rule mm_layout_remove [OF lay same]) (use alloc list_del_ring [OF ring] list in auto)
  moreover have "mm_gaps mm' (as @ bs)"
    unfolding mm_gaps_def
  proof
    fix q assume "q \<in> set (MM_HEAD # as @ bs)"
    moreover have "n \<notin> set (MM_HEAD # as @ bs)" using ring by (auto simp: ring_def)
    ultimately have q: "q \<noteq> n" "q \<in> set (MM_HEAD # ?ps)" by auto
    then have "hole_node_end mm' q = (if q = h then hole_node_end mm n else hole_node_end mm q)"
      using prv dis st by (auto simp: hole_node_end_def list list_del_next)
    moreover have "mm_hole_size mm' q = (if q = h then hole_node_end mm n - hole_node_start mm h else mm_hole_size mm q)"
      using q nodes by simp
    ultimately show "mm_hole_size mm' q = hole_node_end mm' q - hole_node_start mm' q"
      using bspec [OF gaps [unfolded mm_gaps_def] q(2)] st by (simp split: if_splits)
  qed
  moreover have "mm_holes mm' (as @ bs) = filter ?f X @ h # filter ?f bs"
  proof -
    have "filter (drm_mm_hole_follows mm') xs = filter ?f xs" if "h \<notin> set xs" "n \<notin> set xs" for xs
      using that nodes by (intro filter_cong) (auto simp: drm_mm_hole_follows_def)
    moreover have "drm_mm_hole_follows mm' h" using nodes gap by (simp add: drm_mm_hole_follows_def)
    ultimately show ?thesis using dis by (auto simp: mm_holes_cut [OF h])
  qed
  moreover have "holes_inv mm' (filter ?f X @ h # filter ?f bs)"
    by (rule holes_inv_cong [OF mm5(2)]) (use dis in \<open>auto simp: mm'_def upd_node_def\<close>)
  moreover have "it_inv (mm_start mm) (mm_last mm) (interval_tree mm')" "inorder (rb_root (interval_tree mm')) = as @ bs"
  proof -
    have "interval_tree mm' = it_remove (lib (mm_last mm)) n (interval_tree mm)"
      using mm5(5) mm4(5) by (simp add: mm'_def mm3_def upd_node_def)
    moreover have "n \<in> set (inorder (rb_root (interval_tree mm)))" "n \<notin> set as" using itv dis h by (auto simp: itv(1) it_inv_def)
    ultimately show "it_inv (mm_start mm) (mm_last mm) (interval_tree mm')" "inorder (rb_root (interval_tree mm')) = as @ bs"
      using rb.it_remove_inv [OF itv(1), of n] rb.it_remove_inorder [OF itv(1), of n] itv(2) by (simp_all add: remove1_append)
  qed
  moreover have "\<forall>p \<in> set (as @ bs). \<not> drm_mm_node_scanned_block mm' p"
    using inv same by (auto simp: mm_inv_def same_blocks_def)
  ultimately have "mm_inv mm' (as @ bs)" using st by (simp add: mm_inv_def)
  moreover have "scan_active mm' = scan_active mm" using mm5(6) mm4(6) mm1(6) by (simp add: mm'_def mm3_def upd_node_def)
  ultimately show thesis using that run same alloc by blast
qed

section \<open>Initialisation\<close>

lemma init_spec:
  assumes "start < start + sz"
  obtains mm' where "drm_mm_init lib start sz mm = Some mm'" "mm_inv mm' []"
    "hole_node_start mm' MM_HEAD = start" "mm_start mm' MM_HEAD = start + sz" "scan_active mm' = 0"
    "\<And>q. q \<noteq> MM_HEAD \<Longrightarrow> mm_nodes mm' q = mm_nodes mm q" "\<not> drm_mm_node_scanned_block mm' MM_HEAD"
proof -
  define mm1 where "mm1 = upd_node MM_HEAD (\<lambda>n. n\<lparr>n_allocated := False, n_scanned := False, n_start := start + sz, n_size := - sz\<rparr>)
    (mm\<lparr>hole_stack := [], interval_tree := RB_ROOT_CACHED, holes_size := RB_ROOT_CACHED, holes_addr := Leaf,
        node_list := INIT_LIST_HEAD MM_HEAD (node_list mm)\<rparr>)"
  have ring: "ring (node_list mm1) MM_HEAD []" by (simp add: mm1_def upd_node_def INIT_LIST_HEAD_ring)
  have se: "hole_node_start mm1 MM_HEAD = start" "hole_node_end mm1 MM_HEAD = start + sz"
    using ring by (simp_all add: ring_def mm1_def node_defs)
  have ne: "hole_node_end mm1 MM_HEAD \<noteq> hole_node_start mm1 MM_HEAD" using se assms by auto
  have emp: "holes_inv mm1 ([] @ [])" by (simp add: holes_inv_def mm1_def upd_node_def RB_ROOT_CACHED_def it_inv_def)
  obtain mm2 where mm2: "add_hole lib MM_HEAD mm1 = Some mm2" "holes_inv mm2 [MM_HEAD]"
    "mm_nodes mm2 = (mm_nodes mm1)(MM_HEAD := (mm_nodes mm1 MM_HEAD)\<lparr>n_hole_size := hole_node_end mm1 MM_HEAD - hole_node_start mm1 MM_HEAD\<rparr>)"
    "node_list mm2 = node_list mm1" "interval_tree mm2 = interval_tree mm1" "scan_active mm2 = scan_active mm1"
    by (rule add_hole_spec [OF emp _ ne]) simp_all
  define mm' where "mm' = mm2\<lparr>scan_active := 0\<rparr>"
  have run: "drm_mm_init lib start sz mm = Some mm'"
    using mm2(1) assms by (simp add: drm_mm_init_def mm'_def Let_def mm1_def [symmetric])
  have hd: "mm_start mm' MM_HEAD = start + sz" "hole_node_start mm' MM_HEAD = start" "\<not> drm_mm_node_allocated mm' MM_HEAD"
    "mm_hole_size mm' MM_HEAD = sz" "\<not> drm_mm_node_scanned_block mm' MM_HEAD"
    using mm2(3) se by (simp_all add: mm'_def mm1_def node_defs)
  have "hole_node_end mm' MM_HEAD = start + sz" using ring mm2(3,4) se by (auto simp: mm'_def ring_def hole_node_end_def)
  then have "mm_gaps mm' []" using hd by (simp add: mm_gaps_def)
  moreover have "mm_layout mm' []" using ring hd assms mm2(4) by (simp add: mm_layout_def mm'_def less_imp_le)
  moreover have "holes_inv mm' (mm_holes mm' [])"
  proof -
    have "mm_holes mm' [] = [MM_HEAD]" using hd assms by (auto simp: mm_holes_def drm_mm_hole_follows_def)
    then show ?thesis by (simp only:) (rule holes_inv_cong [OF mm2(2)], simp_all add: mm'_def)
  qed
  moreover have "interval_tree mm' = RB_ROOT_CACHED" using mm2(5) by (simp add: mm'_def mm1_def upd_node_def)
  ultimately have "mm_inv mm' []" by (simp add: mm_inv_def RB_ROOT_CACHED_def it_inv_def)
  moreover have "mm_nodes mm' q = mm_nodes mm q" if "q \<noteq> MM_HEAD" for q using that mm2(3) by (simp add: mm'_def mm1_def upd_node_def)
  ultimately show thesis using that run hd by (simp add: mm'_def)
qed

end

end
