(* ===== verification/DRM_MM_Search.thy ===== *)
theory DRM_MM_Search
  imports DRM_MM_Ops
begin

text \<open>
  The search for a hole: where the first hole of each mode stands in the order in which the mode visits the holes, and which holes the
  step to the next hole leaves out. The predicate \<open>hole_walk\<close> is the contract of such a step; the loop of
  \<open>drm_mm_insert_node_in_range\<close> is shown to end in it.
\<close>

section \<open>Walking over holes\<close>

definition hole_walk :: "('a \<Rightarrow> 'a option) \<Rightarrow> 'a list \<Rightarrow> ('a \<Rightarrow> bool) \<Rightarrow> bool" where
  "hole_walk nxt vs small \<longleftrightarrow>
     (\<forall>as h bs. vs = as @ h # bs \<longrightarrow>
        (case nxt h of
           None \<Rightarrow> \<forall>q \<in> set bs. small q
         | Some h' \<Rightarrow> \<exists>cs ds. bs = cs @ h' # ds \<and> (\<forall>q \<in> set cs. small q)))"

lemma hole_walk_None: "hole_walk nxt vs small \<Longrightarrow> vs = as @ h # bs \<Longrightarrow> nxt h = None \<Longrightarrow> q \<in> set bs \<Longrightarrow> small q"
  unfolding hole_walk_def by fastforce

lemma hole_walk_Some:
  "hole_walk nxt vs small \<Longrightarrow> vs = as @ h # bs \<Longrightarrow> nxt h = Some h' \<Longrightarrow> \<exists>cs ds. bs = cs @ h' # ds \<and> (\<forall>q \<in> set cs. small q)"
  unfolding hole_walk_def by fastforce

lemma hole_walkI:
  assumes "\<And>as h bs q. vs = as @ h # bs \<Longrightarrow> nxt h = None \<Longrightarrow> q \<in> set bs \<Longrightarrow> small q"
    and "\<And>as h bs h'. vs = as @ h # bs \<Longrightarrow> nxt h = Some h' \<Longrightarrow> \<exists>cs ds. bs = cs @ h' # ds \<and> (\<forall>q \<in> set cs. small q)"
  shows "hole_walk nxt vs small"
  unfolding hole_walk_def using assms by (auto split: option.split)

text \<open>Reversing the direction of the search is searching the mirrored tree.\<close>

fun mirror :: "'a rbt \<Rightarrow> 'a rbt" where
  "mirror Leaf = Leaf"
| "mirror (Node l x m r) = Node (mirror r) x m (mirror l)"

lemma inorder_mirror [simp]: "inorder (mirror t) = rev (inorder t)"
  by (induction t) simp_all

lemma augmented_mirror [simp]: "augmented la (mirror t) = augmented la t"
  by (induction t) auto

lemma usable_mirror [simp]: "usable_hole_addr (mirror t) sz = usable_hole_addr t sz"
  by (cases t) simp_all

lemma last_usable_mirror: "last_usable False sz t = last_usable True sz (mirror t)"
  by (induction t) (simp_all add: Let_def)

lemma next_hole_addr_mirror: "next_hole_addr False e sz up t = next_hole_addr True e sz up (mirror t)"
  by (induction t arbitrary: up) (simp_all add: Let_def last_usable_mirror cong: option.case_cong)

section \<open>The tree of hole addresses\<close>

lemma unusable_small: "augmented hs t \<Longrightarrow> \<not> usable_hole_addr t sz \<Longrightarrow> q \<in> set (inorder t) \<Longrightarrow> hs q < sz"
  by (cases t) (auto intro: le_less_trans)

lemma last_usable_first:
  assumes "augmented hs t" and "usable_hole_addr t sz"
  shows "\<exists>cs h ds. last_usable True sz t = Some h \<and> inorder t = cs @ h # ds \<and> (\<forall>q \<in> set cs. hs q < sz)"
  using assms
proof (induction t)
  case (Node l x m r)
  show ?case
  proof (cases "usable_hole_addr l sz")
    case True
    with Node obtain cs h ds where "last_usable True sz l = Some h" "inorder l = cs @ h # ds" "\<forall>q \<in> set cs. hs q < sz" by auto
    with True show ?thesis by auto
  next
    case False
    then show ?thesis using Node.prems unusable_small [of hs l sz] by auto
  qed
qed simp

lemma next_hole_addr_right:
  assumes "augmented hs t" and "distinct (inorder t)" and "inorder t = as @ e # bs"
  obtains res where "next_hole_addr True e sz up t = Some res"
    "(\<exists>cs h ds. bs = cs @ h # ds \<and> res = Some h \<and> (\<forall>q \<in> set cs. hs q < sz)) \<or> (res = up \<and> (\<forall>q \<in> set bs. hs q < sz))"
  using assms
proof (induction t arbitrary: as bs up thesis)
  case (Node l x m r)
  have aug: "augmented hs l" "augmented hs r" and dis: "distinct (inorder l)" "distinct (inorder r)" using Node.prems by simp_all
  have none: "next_hole_addr True e sz up t = None" if "e \<notin> set (inorder t)" for t up
    using that by (induction t arbitrary: up) auto
  from Node.prems(4) have "inorder l @ x # inorder r = as @ e # bs" by simp
  then show ?case
  proof (cases rule: split_cases)
    case here
    then show ?thesis using Node.prems(1) last_usable_first [OF aug(2), of sz] unusable_small [OF aug(2), of sz]
      by (cases "usable_hole_addr r sz") auto
  next
    case (left cs)
    obtain res where res: "next_hole_addr True e sz (Some x) l = Some res"
      "(\<exists>cs' h ds. cs = cs' @ h # ds \<and> res = Some h \<and> (\<forall>q \<in> set cs'. hs q < sz)) \<or> (res = Some x \<and> (\<forall>q \<in> set cs. hs q < sz))"
      by (rule Node.IH(1) [OF _ aug(1) dis(1) left(1)])
    then have "\<exists>cs h ds. bs = cs @ h # ds \<and> res = Some h \<and> (\<forall>q \<in> set cs. hs q < sz)" using left by fastforce
    moreover have "x \<noteq> e" using Node.prems(3) left by auto
    ultimately show ?thesis using Node.prems(1) res(1) by simp
  next
    case (right cs)
    obtain res where "next_hole_addr True e sz up r = Some res"
      "(\<exists>cs h ds. bs = cs @ h # ds \<and> res = Some h \<and> (\<forall>q \<in> set cs. hs q < sz)) \<or> (res = up \<and> (\<forall>q \<in> set bs. hs q < sz))"
      by (rule Node.IH(2) [OF _ aug(2) dis(2) right(1)])
    moreover have "x \<noteq> e" "e \<notin> set (inorder l)" using Node.prems(3) right by auto
    ultimately show ?thesis using Node.prems(1) none by simp
  qed
qed simp

text \<open>
  \<open>find_hole_addr\<close> stops at a hole such that, as far as they are large enough, the holes before it end before the address and
  the holes behind it start behind the address.
\<close>

definition found_at :: "(mm_ref \<Rightarrow> u64) \<Rightarrow> (mm_ref \<Rightarrow> u64) \<Rightarrow> u64 \<Rightarrow> u64 \<Rightarrow> mm_ref list \<Rightarrow> mm_ref option \<Rightarrow> bool" where
  "found_at ha hs addr sz xs res \<longleftrightarrow>
     (case res of
        None \<Rightarrow> \<forall>p \<in> set xs. hs p < sz
      | Some h \<Rightarrow> \<exists>as bs. xs = as @ h # bs \<and>
          (\<forall>p \<in> set as. hs p < sz \<or> ha p + hs p < addr) \<and> (\<forall>p \<in> set bs. hs p < sz \<or> addr < ha p))"

lemma find_stop:
  assumes "\<forall>p \<in> set ts. hs p < sz" and "\<forall>p \<in> set L. hs p < sz \<or> ha p + hs p < addr" and "\<forall>p \<in> set R. hs p < sz \<or> addr < ha p"
    and "c = None \<and> L = [] \<and> R = [] \<or> (\<exists>x. c = Some x \<and> ((\<exists>L'. L = L' @ [x]) \<or> (\<exists>R'. R = x # R')))"
  shows "found_at ha hs addr sz (L @ ts @ R) c"
proof -
  consider (none) "c = None" "L = []" "R = []" | (left) x L' where "c = Some x" "L = L' @ [x]"
    | (right) x R' where "c = Some x" "R = x # R'"
    using assms(4) by blast
  then show ?thesis
  proof cases
    case none
    with assms(1) show ?thesis by (simp add: found_at_def)
  next
    case left
    with assms(1-3) have "L @ ts @ R = L' @ x # (ts @ R) \<and> (\<forall>p \<in> set L'. hs p < sz \<or> ha p + hs p < addr) \<and>
        (\<forall>p \<in> set (ts @ R). hs p < sz \<or> addr < ha p)" by auto
    with left show ?thesis unfolding found_at_def by (simp only: option.case) blast
  next
    case right
    with assms(1-3) have "L @ ts @ R = (L @ ts) @ x # R' \<and> (\<forall>p \<in> set (L @ ts). hs p < sz \<or> ha p + hs p < addr) \<and>
        (\<forall>p \<in> set R'. hs p < sz \<or> addr < ha p)" by auto
    with right show ?thesis unfolding found_at_def by (simp only: option.case) blast
  qed
qed

lemma find_from_spec:
  assumes "augmented hs t" and "sorted_wrt (\<lambda>p q. ha p + hs p < ha q) (inorder t)" and "\<And>p. p \<in> set (inorder t) \<Longrightarrow> ha p \<le> ha p + hs p"
    and "\<forall>p \<in> set L. hs p < sz \<or> ha p + hs p < addr" and "\<forall>p \<in> set R. hs p < sz \<or> addr < ha p"
    and "c = None \<and> L = [] \<and> R = [] \<or> (\<exists>x. c = Some x \<and> ((\<exists>L'. L = L' @ [x]) \<or> (\<exists>R'. R = x # R')))"
  shows "found_at ha hs addr sz (L @ inorder t @ R) (find_from ha hs addr sz t c)"
  using assms
proof (induction t arbitrary: L R c)
  case Leaf
  show ?case unfolding find_from.simps inorder.simps by (rule find_stop [OF _ Leaf.prems(4-6)]) simp
next
  case (Node l x m r)
  let ?t = "Node l x m r"
  have aug: "augmented hs l" "augmented hs r" using Node.prems(1) by simp_all
  have srt: "sorted_wrt (\<lambda>p q. ha p + hs p < ha q) (inorder l)" "sorted_wrt (\<lambda>p q. ha p + hs p < ha q) (inorder r)"
    and l: "\<And>p. p \<in> set (inorder l) \<Longrightarrow> ha p + hs p < ha x" and r: "\<And>p. p \<in> set (inorder r) \<Longrightarrow> ha x + hs x < ha p"
    using Node.prems(2) by (auto simp: sorted_wrt_append)
  have x: "ha x \<le> ha x + hs x" using Node.prems(3) by simp
  consider (small) "\<not> usable_hole_addr ?t sz" | (left) "usable_hole_addr ?t sz" "addr < ha x"
    | (right) "usable_hole_addr ?t sz" "\<not> addr < ha x" "addr > ha x + hs x"
    | (here) "usable_hole_addr ?t sz" "\<not> addr < ha x" "\<not> addr > ha x + hs x" by blast
  then show ?case
  proof cases
    case small
    then have "\<forall>p \<in> set (inorder ?t). hs p < sz" using unusable_small [OF Node.prems(1)] by blast
    from find_stop [OF this Node.prems(4-6)] small show ?thesis by (simp del: usable_hole_addr.simps)
  next
    case left
    have "\<forall>p \<in> set (x # inorder r @ R). hs p < sz \<or> addr < ha p"
      using left(2) r x Node.prems(5) by (auto intro: less_trans le_less_trans less_le_trans)
    from Node.IH(1) [OF aug(1) srt(1) _ Node.prems(4) this, of "Some x"] left Node.prems(3) show ?thesis by simp
  next
    case right
    have "\<forall>p \<in> set (L @ inorder l @ [x]). hs p < sz \<or> ha p + hs p < addr"
    proof -
      have "ha p + hs p < addr" if "p \<in> set (inorder l)" for p using l [OF that] x right(3) by order
      with right(3) Node.prems(4) show ?thesis by auto
    qed
    from Node.IH(2) [OF aug(2) srt(2) _ this Node.prems(5), of "Some x"] right Node.prems(3) show ?thesis by simp
  next
    case here
    have "\<forall>p \<in> set (L @ inorder l). hs p < sz \<or> ha p + hs p < addr" "\<forall>p \<in> set (inorder r @ R). hs p < sz \<or> addr < ha p"
    proof -
      have "ha p + hs p < addr" if "p \<in> set (inorder l)" for p using l [OF that] here by order
      moreover have "addr < ha p" if "p \<in> set (inorder r)" for p using r [OF that] here by order
      ultimately show "\<forall>p \<in> set (L @ inorder l). hs p < sz \<or> ha p + hs p < addr" "\<forall>p \<in> set (inorder r @ R). hs p < sz \<or> addr < ha p"
        using Node.prems(4,5) by auto
    qed
    moreover have "find_from ha hs addr sz ?t c = Some x" using here by simp
    moreover have "L @ inorder ?t @ R = (L @ inorder l) @ x # (inorder r @ R)" by simp
    ultimately show ?thesis unfolding found_at_def by (simp only: option.case) blast
  qed
qed

section \<open>The order of the holes\<close>

lemma sorted_wrt_splitI: "(\<And>as p bs q. xs = as @ p # bs \<Longrightarrow> q \<in> set bs \<Longrightarrow> P p q) \<Longrightarrow> sorted_wrt P xs"
proof (induction xs)
  case (Cons x xs)
  have "P x q" if "q \<in> set xs" for q using that Cons.prems [of "[]"] by simp
  moreover have "sorted_wrt P xs" using Cons.prems by (intro Cons.IH) (metis append_Cons)
  ultimately show ?case by simp
qed simp

lemma layout_holes_sorted:
  assumes lay: "mm_layout mm ps"
  shows "sorted_wrt (\<lambda>p q. hole_node_end mm p < hole_node_start mm q) (MM_HEAD # ps)"
proof (rule sorted_wrt_splitI)
  fix as p bs q assume split: "MM_HEAD # ps = as @ p # bs" and q: "q \<in> set bs"
  obtain xs where xs: "MM_HEAD # xs = as @ [p]" "ps = xs @ bs" using split by (cases as) auto
  obtain c cs where bs: "bs = c # cs" using q by (cases bs) auto
  have "last (MM_HEAD # xs) = p" using xs(1) by (metis last_snoc)
  then have e: "hole_node_end mm p = mm_start mm c" using layout_gap(1) [of mm xs bs p] lay xs bs by simp
  have t: "tiled mm (hole_node_start mm MM_HEAD) (xs @ c # cs) (mm_start mm MM_HEAD)" using lay xs bs by (simp add: mm_layout_def)
  have c: "mm_start mm c < hole_node_start mm c" using tiled_bounds [OF t] by simp
  show "hole_node_end mm p < hole_node_start mm q"
  proof (cases "q = c")
    case False
    then have "hole_node_start mm c \<le> mm_start mm q" "mm_start mm q < hole_node_start mm q"
      using q bs tiled_after [OF t] tiled_bounds [OF t] by auto
    with c e show ?thesis by order
  qed (use c e in simp)
qed

text \<open>A hole is the range from the end of its node to the start of the next node.\<close>

lemma inv_hole:
  assumes inv: "mm_inv mm ps" and p: "p \<in> set (MM_HEAD # ps)"
  shows "hole_node_start mm p + mm_hole_size mm p = hole_node_end mm p" and "hole_node_start mm p \<le> hole_node_end mm p"
proof -
  show "hole_node_start mm p + mm_hole_size mm p = hole_node_end mm p" using assms by (auto simp: mm_inv_def mm_gaps_def)
  obtain as bs where "MM_HEAD # ps = as @ p # bs" using p by (metis split_list)
  then obtain xs where "MM_HEAD # xs = as @ [p]" "ps = xs @ bs" by (cases as) auto
  then show "hole_node_start mm p \<le> hole_node_end mm p"
    using layout_gap(2) [of mm xs bs p] inv by (metis last_snoc mm_inv_def)
qed

lemma inv_holes_sorted:
  assumes inv: "mm_inv mm ps"
  shows "sorted_wrt (\<lambda>p q. hole_node_start mm p + mm_hole_size mm p < hole_node_start mm q) (mm_holes mm ps)"
proof -
  have "sorted_wrt (\<lambda>p q. hole_node_end mm p < hole_node_start mm q) (mm_holes mm ps)"
    unfolding mm_holes_def by (intro sorted_wrt_filter layout_holes_sorted) (use inv in \<open>simp add: mm_inv_def\<close>)
  then show ?thesis
    by (rule sorted_wrt_mono_rel [rotated]) (use inv_hole(1) [OF inv] in \<open>auto simp: set_mm_holes\<close>)
qed

section \<open>First and next hole\<close>

text \<open>The order in which a mode visits the holes.\<close>

definition hole_order :: "drm_mm \<Rightarrow> u32 \<Rightarrow> mm_ref list" where
  "hole_order mm mode =
     (if mode = DRM_MM_INSERT_LOW then inorder (holes_addr mm)
      else if mode = DRM_MM_INSERT_HIGH then rev (inorder (holes_addr mm))
      else if mode = DRM_MM_INSERT_EVICT then hole_stack mm
      else rev (inorder (rb_root (holes_size mm))))"

lemma set_hole_order: "mm_inv mm ps \<Longrightarrow> set (hole_order mm mode) = set (mm_holes mm ps)"
  by (auto simp: hole_order_def mm_inv_def holes_inv_def)

lemma best_from_find:
  "sorted_wrt (\<lambda>x y. hs y \<le> hs x) (inorder t) \<Longrightarrow>
   best_from hs sz t best = (case find (\<lambda>p. sz \<le> hs p) (rev (inorder t)) of None \<Rightarrow> best | Some p \<Rightarrow> Some p)"
proof (induction t arbitrary: best)
  case (Node l x m r)
  show ?case
  proof (cases "sz \<le> hs x")
    case True
    with Node show ?thesis by (auto simp: find_append sorted_wrt_append split: option.splits)
  next
    case False
    then have "find (\<lambda>p. sz \<le> hs p) (rev (inorder r)) = None"
      using Node.prems by (intro find_None_all) (auto simp: sorted_wrt_append)
    with False Node show ?thesis by (auto simp: find_append sorted_wrt_append)
  qed
qed simp

lemma find_split: "find P xs = Some h \<Longrightarrow> \<exists>as bs. xs = as @ h # bs \<and> P h \<and> (\<forall>q \<in> set as. \<not> P q)"
proof (induction xs)
  case (Cons x xs)
  then show ?case
  proof (cases "P x")
    case False
    with Cons obtain as bs where "xs = as @ h # bs \<and> P h \<and> (\<forall>q \<in> set as. \<not> P q)" by auto
    with False show ?thesis by (intro exI [of _ "x # as"] exI [of _ bs]) simp
  qed fastforce
qed simp

lemma find_hole_addr_spec:
  assumes inv: "mm_inv mm ps"
  shows "found_at (hole_node_start mm) (mm_hole_size mm) addr sz (mm_holes mm ps) (find_hole_addr mm addr sz)"
proof -
  have "augmented (mm_hole_size mm) (holes_addr mm)" and ino: "inorder (holes_addr mm) = mm_holes mm ps"
    using inv by (simp_all add: mm_inv_def holes_inv_def)
  moreover have "hole_node_start mm p \<le> hole_node_start mm p + mm_hole_size mm p" if "p \<in> set (mm_holes mm ps)" for p
    using that inv_hole [OF inv, of p] by (auto simp: set_mm_holes)
  ultimately show ?thesis using find_from_spec [of "mm_hole_size mm" "holes_addr mm" "hole_node_start mm" "[]" sz addr "[]" None]
      inv_holes_sorted [OF inv] by (simp add: find_hole_addr_def)
qed

text \<open>The first hole of a mode: the holes in front of it are too small, or outside the range on the side the mode starts from.\<close>

definition first_skips :: "drm_mm \<Rightarrow> u64 \<Rightarrow> u64 \<Rightarrow> u64 \<Rightarrow> u32 \<Rightarrow> mm_ref \<Rightarrow> bool" where
  "first_skips mm start stop sz mode p \<longleftrightarrow>
     mm_hole_size mm p < sz \<or> mode = DRM_MM_INSERT_LOW \<and> hole_node_end mm p < start \<or>
     mode = DRM_MM_INSERT_HIGH \<and> stop < hole_node_start mm p"

lemma first_hole_spec:
  assumes inv: "mm_inv mm ps" and ne: "mm_holes mm ps \<noteq> []"
  obtains res where "first_hole mm start stop sz mode = Some res"
    "case res of None \<Rightarrow> \<forall>p \<in> set (hole_order mm mode). first_skips mm start stop sz mode p
      | Some h \<Rightarrow> \<exists>as bs. hole_order mm mode = as @ h # bs \<and> (\<forall>p \<in> set as. first_skips mm start stop sz mode p)"
proof -
  have hol: "holes_inv mm (mm_holes mm ps)" using inv by (simp add: mm_inv_def)
  have ends: "hole_node_start mm p + mm_hole_size mm p = hole_node_end mm p" if "p \<in> set (mm_holes mm ps)" for p
    using that inv_hole(1) [OF inv] by (auto simp: set_mm_holes)
  consider (low) "mode = DRM_MM_INSERT_LOW" | (high) "mode = DRM_MM_INSERT_HIGH" | (evict) "mode = DRM_MM_INSERT_EVICT"
    | (best) "mode \<noteq> DRM_MM_INSERT_LOW" "mode \<noteq> DRM_MM_INSERT_HIGH" "mode \<noteq> DRM_MM_INSERT_EVICT" by blast
  then show thesis
  proof cases
    case low
    have ord: "hole_order mm mode = mm_holes mm ps" using low hol by (simp add: hole_order_def holes_inv_def)
    show thesis
    proof (rule that)
      show "first_hole mm start stop sz mode = Some (find_hole_addr mm start sz)" using low by (simp add: first_hole_def)
      show "case find_hole_addr mm start sz of None \<Rightarrow> \<forall>p \<in> set (hole_order mm mode). first_skips mm start stop sz mode p
        | Some h \<Rightarrow> \<exists>as bs. hole_order mm mode = as @ h # bs \<and> (\<forall>p \<in> set as. first_skips mm start stop sz mode p)"
        using find_hole_addr_spec [OF inv, of start sz] ends low unfolding ord found_at_def first_skips_def
        by (cases "find_hole_addr mm start sz") fastforce+
    qed
  next
    case high
    have ord: "hole_order mm mode = rev (mm_holes mm ps)" using high hol by (simp add: hole_order_def holes_inv_def insert_mode_defs)
    show thesis
    proof (rule that)
      show "first_hole mm start stop sz mode = Some (find_hole_addr mm stop sz)" using high by (simp add: first_hole_def insert_mode_defs)
      show "case find_hole_addr mm stop sz of None \<Rightarrow> \<forall>p \<in> set (hole_order mm mode). first_skips mm start stop sz mode p
        | Some h \<Rightarrow> \<exists>as bs. hole_order mm mode = as @ h # bs \<and> (\<forall>p \<in> set as. first_skips mm start stop sz mode p)"
      proof (cases "find_hole_addr mm stop sz")
        case (Some h)
        with find_hole_addr_spec [OF inv, of stop sz] obtain as bs where
          "mm_holes mm ps = as @ h # bs" "\<forall>p \<in> set bs. mm_hole_size mm p < sz \<or> stop < hole_node_start mm p"
          by (auto simp: found_at_def)
        then have "hole_order mm mode = rev bs @ h # rev as" "\<forall>p \<in> set (rev bs). first_skips mm start stop sz mode p"
          using ord high by (auto simp: first_skips_def)
        with Some show ?thesis by auto
      qed (use find_hole_addr_spec [OF inv, of stop sz] in \<open>auto simp: found_at_def first_skips_def ord\<close>)
    qed
  next
    case evict
    then have *: "first_hole mm start stop sz mode = Some (case hole_stack mm of [] \<Rightarrow> None | p # _ \<Rightarrow> Some p)"
      "hole_order mm mode = hole_stack mm" by (simp_all add: first_hole_def hole_order_def insert_mode_defs)
    show thesis
    proof (cases "hole_stack mm")
      case (Cons p list)
      then have "hole_order mm mode = [] @ p # list" using * by simp
      with * Cons show thesis by (intro that [of "Some p"]) fastforce+
    qed (use * that [of None] in simp)
  next
    case best
    let ?t = "rb_root (holes_size mm)" and ?P = "\<lambda>p. sz \<le> mm_hole_size mm p"
    have ord: "hole_order mm mode = rev (inorder ?t)" using best by (simp add: hole_order_def)
    have "sorted_wrt (\<lambda>x y. mm_hole_size mm y \<le> mm_hole_size mm x) (inorder ?t)"
      using hol by (simp add: holes_inv_def it_inv_def sorted_wrt_map not_le_not_iff)
    note find = best_from_find [OF this, of sz None]
    have "?t \<noteq> Leaf" using hol ne by (auto simp: holes_inv_def)
    then have "first_hole mm start stop sz mode = Some (find ?P (rev (inorder ?t)))"
      using best find by (cases ?t) (auto simp: first_hole_def best_hole_def split: option.splits)
    moreover have "case find ?P (rev (inorder ?t)) of None \<Rightarrow> \<forall>p \<in> set (hole_order mm mode). first_skips mm start stop sz mode p
        | Some h \<Rightarrow> \<exists>as bs. hole_order mm mode = as @ h # bs \<and> (\<forall>p \<in> set as. first_skips mm start stop sz mode p)"
    proof (cases "find ?P (rev (inorder ?t))")
      case (Some h)
      with find_split [OF this] ord show ?thesis by (fastforce simp: first_skips_def not_le)
    next
      case None
      then have "\<forall>p \<in> set (inorder ?t). mm_hole_size mm p < sz" by (auto simp: find_None_iff not_le)
      with None ord show ?thesis by (auto simp: first_skips_def)
    qed
    ultimately show thesis using that by blast
  qed
qed

lemma successor_walk:
  assumes "\<And>as h bs. vs = as @ h # bs \<Longrightarrow> nxt h = (case bs of [] \<Rightarrow> None | y # _ \<Rightarrow> Some y)"
  shows "hole_walk nxt vs small"
proof (rule hole_walkI)
  fix as h bs h' assume "vs = as @ h # bs" "nxt h = Some h'"
  with assms obtain ds where "bs = [] @ h' # ds" by (cases bs) auto
  then show "\<exists>cs ds. bs = cs @ h' # ds \<and> (\<forall>q \<in> set cs. small q)" by fastforce
qed (use assms in \<open>auto split: list.splits\<close>)

lemma next_addr_walk:
  assumes "augmented hs t" and "distinct (inorder t)"
  shows "hole_walk (\<lambda>h. case next_hole_addr True h sz None t of None \<Rightarrow> None | Some res \<Rightarrow> res) (inorder t) (\<lambda>q. hs q < sz)"
proof (rule hole_walkI)
  fix as h bs q
  assume split: "inorder t = as @ h # bs"
  obtain res where res: "next_hole_addr True h sz None t = Some res"
    "(\<exists>cs h' ds. bs = cs @ h' # ds \<and> res = Some h' \<and> (\<forall>q \<in> set cs. hs q < sz)) \<or> (res = None \<and> (\<forall>q \<in> set bs. hs q < sz))"
    by (rule next_hole_addr_right [OF assms split])
  show "(case next_hole_addr True h sz None t of None \<Rightarrow> None | Some res \<Rightarrow> res) = None \<Longrightarrow> q \<in> set bs \<Longrightarrow> hs q < sz"
    using res by auto
  show "\<exists>cs ds. bs = cs @ h' # ds \<and> (\<forall>q \<in> set cs. hs q < sz)"
    if "(case next_hole_addr True h sz None t of None \<Rightarrow> None | Some res \<Rightarrow> res) = Some h'" for h'
    using res that by auto
qed

text \<open>
  The result of the loop over the holes \<open>xs\<close>: a hole after holes that are too small or were tried in vain, or the holes
  are exhausted, or one of them ended the loop. A loop with \<open>DRM_MM_INSERT_ONCE\<close> may end early.
\<close>

definition loop_result ::
    "(mm_ref \<Rightarrow> try_result) \<Rightarrow> (mm_ref \<Rightarrow> bool) \<Rightarrow> bool \<Rightarrow> mm_ref list \<Rightarrow> (mm_ref \<times> u64) option \<Rightarrow> bool" where
  "loop_result probe small once xs res \<longleftrightarrow>
     (case res of
        Some (x, a) \<Rightarrow> \<exists>cs ds. xs = cs @ x # ds \<and> probe x = TryPlace a \<and> (\<forall>q \<in> set cs. small q \<or> probe q = TryContinue)
      | None \<Rightarrow> once \<or>
          (\<exists>cs ds. xs = cs @ ds \<and> (\<forall>q \<in> set cs. small q \<or> probe q = TryContinue) \<and> (ds = [] \<or> probe (hd ds) = TryBreak)))"

lemma loop_result_prepend:
  assumes "loop_result probe small once xs res" and "\<forall>q \<in> set pre. small q \<or> probe q = TryContinue"
  shows "loop_result probe small once (pre @ xs) res"
proof (cases res)
  case None
  then consider "once" | cs ds where "xs = cs @ ds" "\<forall>q \<in> set cs. small q \<or> probe q = TryContinue" "ds = [] \<or> probe (hd ds) = TryBreak"
    using assms(1) by (auto simp: loop_result_def)
  then show ?thesis
  proof cases
    case 2
    then have "pre @ xs = (pre @ cs) @ ds \<and> (\<forall>q \<in> set (pre @ cs). small q \<or> probe q = TryContinue) \<and> (ds = [] \<or> probe (hd ds) = TryBreak)"
      using assms(2) by auto
    with None show ?thesis unfolding loop_result_def by (simp only: option.case) blast
  qed (use None in \<open>simp add: loop_result_def\<close>)
next
  case (Some r)
  obtain x a where r: "r = (x, a)" by fastforce
  then obtain cs ds where "xs = cs @ x # ds" "probe x = TryPlace a" "\<forall>q \<in> set cs. small q \<or> probe q = TryContinue"
    using assms(1) Some by (auto simp: loop_result_def)
  then have "pre @ xs = (pre @ cs) @ x # ds \<and> probe x = TryPlace a \<and> (\<forall>q \<in> set (pre @ cs). small q \<or> probe q = TryContinue)"
    using assms(2) by auto
  with Some r show ?thesis unfolding loop_result_def by (simp only: option.case prod.case) blast
qed

context mm_library
begin

lemma next_hole_walk:
  assumes inv: "mm_inv mm ps"
  shows "hole_walk (\<lambda>h. next_hole lib mm h sz mode) (hole_order mm mode) (\<lambda>q. mm_hole_size mm q < sz)"
proof -
  have hol: "augmented (mm_hole_size mm) (holes_addr mm)" "distinct (inorder (holes_addr mm))" "distinct (hole_stack mm)"
    "distinct (inorder (rb_root (holes_size mm)))"
    using inv by (simp_all add: mm_inv_def holes_inv_def it_inv_def)
  consider (low) "mode = DRM_MM_INSERT_LOW" | (high) "mode = DRM_MM_INSERT_HIGH" | (evict) "mode = DRM_MM_INSERT_EVICT"
    | (best) "mode \<noteq> DRM_MM_INSERT_LOW" "mode \<noteq> DRM_MM_INSERT_HIGH" "mode \<noteq> DRM_MM_INSERT_EVICT" by blast
  then show ?thesis
  proof cases
    case low
    with next_addr_walk [OF hol(1,2), of sz] show ?thesis by (simp add: next_hole_def next_hole_low_addr_def hole_order_def)
  next
    case high
    with next_addr_walk [of "mm_hole_size mm" "mirror (holes_addr mm)" sz] hol show ?thesis
      by (simp add: next_hole_def next_hole_high_addr_def next_hole_addr_mirror hole_order_def insert_mode_defs)
  next
    case evict
    then have eq: "next_hole lib mm h sz mode = succ_in h (hole_stack mm)" "hole_order mm mode = hole_stack mm" for h
      by (simp_all add: next_hole_def hole_order_def insert_mode_defs)
    have "succ_in h (hole_stack mm) = (case bs of [] \<Rightarrow> None | y # _ \<Rightarrow> Some y)" if "hole_stack mm = as @ h # bs" for as h bs
      using succ_in_split [of as h bs] hol(3) that by simp
    then show ?thesis unfolding eq by (rule successor_walk)
  next
    case best
    let ?t = "rb_root (holes_size mm)"
    have eq: "next_hole lib mm h sz mode = rb_prev (lib (\<lambda>_. 0)) ?t h" "hole_order mm mode = rev (inorder ?t)" for h
      using best by (simp_all add: next_hole_def hole_order_def)
    have "rb_prev (lib (\<lambda>_. 0)) ?t h = (case bs of [] \<Rightarrow> None | y # _ \<Rightarrow> Some y)" if "rev (inorder ?t) = as @ h # bs" for as h bs
    proof -
      have "inorder ?t = rev bs @ h # rev as" using that by (metis append_Cons append_Nil append_assoc rev.simps(2) rev_append rev_rev_ident)
      from rb.prev_inorder [OF hol(4) this, of "\<lambda>_. 0"] show ?thesis by (cases bs) auto
    qed
    then show ?thesis unfolding eq by (rule successor_walk)
  qed
qed

text \<open>The loop ends.\<close>

lemma insert_loop_spec:
  assumes walk: "hole_walk (\<lambda>h. next_hole lib mm h sz mode) vs small" and split: "vs = as @ h # bs"
  obtains res where "insert_loop lib mm sz mode once probe (Some h) = Some res"
    "loop_result probe small once (h # bs) res"
  using split
proof (induction "length bs" arbitrary: as h bs thesis rule: less_induct)
  case less
  let ?ok = "\<lambda>q. small q \<or> probe q = TryContinue" and ?nxt = "if once then None else next_hole lib mm h sz mode"
  note loop = insert_loop.simps [of lib mm sz mode once probe]
  show ?case
  proof (cases "probe h")
    case TryBreak
    then have "insert_loop lib mm sz mode once probe (Some h) = Some None" "h # bs = [] @ (h # bs)" by (simp_all add: loop)
    with TryBreak show ?thesis by (intro less.prems(1)) (force simp: loop_result_def)+
  next
    case (TryPlace a)
    then have "insert_loop lib mm sz mode once probe (Some h) = Some (Some (h, a))" "h # bs = [] @ h # bs" by (simp_all add: loop)
    with TryPlace show ?thesis by (intro less.prems(1)) (force simp: loop_result_def)+
  next
    case TryContinue
    then have run: "insert_loop lib mm sz mode once probe (Some h) = insert_loop lib mm sz mode once probe ?nxt"
      by (subst loop) simp
    show ?thesis
    proof (cases ?nxt)
      case None
      then have "insert_loop lib mm sz mode once probe (Some h) = Some None" using run by (simp add: loop)
      moreover have "once \<or> (\<forall>q \<in> set (h # bs). ?ok q)"
        using None TryContinue hole_walk_None [OF walk less.prems(2)] by auto
      ultimately show ?thesis by (intro less.prems(1)) (force simp: loop_result_def)+
    next
      case (Some h')
      then have no: "\<not> once" "next_hole lib mm h sz mode = Some h'" by (auto split: if_splits)
      then obtain cs ds where bs: "bs = cs @ h' # ds" "\<forall>q \<in> set cs. small q"
        using hole_walk_Some [OF walk less.prems(2)] by blast
      have vs: "vs = (as @ h # cs) @ h' # ds" using less.prems(2) bs by simp
      obtain res where res: "insert_loop lib mm sz mode once probe (Some h') = Some res"
        "loop_result probe small once (h' # ds) res"
        by (rule less.hyps [OF _ _ vs]) (use bs(1) in auto)
      have pre: "h # bs = (h # cs) @ h' # ds" "\<forall>q \<in> set (h # cs). ?ok q" using bs TryContinue by auto
      show ?thesis
        by (rule less.prems(1)) (use run res Some loop_result_prepend [OF res(2) pre(2)] pre(1) in simp_all)
    qed
  qed
qed

end

end
