(* ===== verification/DRM_MM_Insert.thy ===== *)
theory DRM_MM_Insert
  imports DRM_MM_Search
begin

text \<open>
  Insertion and reservation. The placement of a block in a hole is exact: it is found if and only if the hole has room for it, at the
  lowest or the highest aligned address. Together with the search this gives the outcome of both functions.
\<close>

section \<open>Alignment\<close>

lemma and_pred_zero_exp: "n AND (n - 1) = 0 \<Longrightarrow> 0 < n \<Longrightarrow> \<exists>k. n = 2 ^ k" for n :: nat
proof (induction n rule: less_induct)
  case (less n)
  show ?case
  proof (cases "even n")
    case True
    then obtain m where m: "n = 2 * m" "0 < m" using less.prems by auto
    then have "n - 1 = 2 * (m - 1) + 1" by simp
    then have "n AND (n - 1) = 2 * (m AND (m - 1))" using m by (simp add: and_nat_unfold [of "2 * m"])
    then have "m AND (m - 1) = 0" using less.prems(1) by simp
    then obtain k where "m = 2 ^ k" using less.IH [of m] m by auto
    with m have "n = 2 ^ Suc k" by simp
    then show ?thesis by blast
  next
    case False
    then obtain m where m: "n = 2 * m + 1" by (metis oddE)
    then have "n AND (n - 1) = 2 * m" by (simp add: and_nat_unfold [of "Suc (2 * m)"])
    with less m have "n = 2 ^ 0" by simp
    then show ?thesis by blast
  qed
qed

lemma remainder_mask_mod:
  assumes "al \<noteq> 0"
  shows "(if remainder_mask al \<noteq> 0 then a AND remainder_mask al else a mod al) = a mod al"
proof (cases "is_power_of_2 al")
  case True
  then have "unat al AND unat (al - 1) = 0" by (metis is_power_of_2_def unsigned_0 unsigned_and_eq)
  moreover have "unat (al - 1) = unat al - 1" using assms by (simp add: unat_minus_one)
  ultimately obtain k where k: "unat al = 2 ^ k" using and_pred_zero_exp [of "unat al"] assms by (auto simp: unat_gt_0)
  then have "(2 :: nat) ^ k < 2 ^ 64" using unsigned_less [of al, where ?'a = nat] by simp
  then have "k < 64" by (rule power_less_imp_less_exp [rotated]) simp
  have al: "al = 2 ^ k"
  proof -
    have "word_of_nat (unat al) = al" by simp
    then show ?thesis unfolding k by simp
  qed
  have "a mod al = take_bit k a" by (simp add: al take_bit_eq_mod)
  also have "\<dots> = a AND (al - 1)" by (simp add: al take_bit_eq_mask mask_eq_exp_minus_1)
  finally show ?thesis using True by (simp add: remainder_mask_def)
qed (simp add: remainder_mask_def)

section \<open>Placement in a hole\<close>

text \<open>An aligned block of the size between two addresses.\<close>

definition aligned :: "u64 \<Rightarrow> u64 \<Rightarrow> bool" where
  "aligned al a \<longleftrightarrow> al = 0 \<or> a mod al = 0"

definition block_ok :: "u64 \<Rightarrow> u64 \<Rightarrow> u64 \<Rightarrow> u64 \<Rightarrow> u64 \<Rightarrow> bool" where
  "block_ok sz al lo hi a \<longleftrightarrow> lo \<le> a \<and> unat a + unat sz \<le> unat hi \<and> aligned al a"

lemma word_diff_less_iff: "hi \<le> lo \<or> hi - lo < sz \<longleftrightarrow> unat hi < unat lo + unat sz" if "0 < sz" for hi lo sz :: u64
proof (cases "lo \<le> hi")
  case True
  then have "unat (hi - lo) = unat hi - unat lo" by (rule unat_sub)
  with True that show ?thesis by (auto simp: word_less_nat_alt word_le_nat_alt)
qed (use that in \<open>auto simp: word_less_nat_alt word_le_nat_alt\<close>)

lemma next_multiple:
  assumes "0 < A" and "L mod A \<noteq> 0" and "A dvd a" and "L \<le> a"
  shows "L - L mod A + A \<le> (a::nat)"
proof -
  obtain k where a: "a = A * k" using assms(3) by blast
  have "A * (L div A) < A * k" using mult_div_mod_eq [of A L] assms(2,4) a by linarith
  then have "A * Suc (L div A) \<le> A * k" by (intro mult_le_mono2) (simp add: Suc_leI)
  then show ?thesis unfolding a by (simp add: minus_mod_eq_mult_div)
qed

lemma prev_multiple:
  assumes "A dvd a" and "a \<le> D"
  shows "a \<le> D - D mod (A::nat)"
proof -
  obtain k where a: "a = A * k" using assms(1) by blast
  then have "k \<le> D div A \<or> A = 0" using assms(2) by (metis div_le_mono nonzero_mult_div_cancel_left)
  then show ?thesis unfolding a by (auto simp: minus_mod_eq_mult_div)
qed

lemma unat_mod_zero_iff: "a mod al = 0 \<longleftrightarrow> unat al dvd unat a" for a al :: u64
  by (metis dvd_eq_mod_eq_0 unat_mod_distrib unat_eq_0 unsigned_0)

lemma unat_minus_mod: "unat (a - a mod al) = unat a - unat a mod unat al" for a al :: u64
proof -
  have "a mod al \<le> a" by (simp add: word_le_nat_alt unat_mod_distrib)
  then show ?thesis by (simp add: unat_sub unat_mod_distrib)
qed

text \<open>The placement with the remainder written as such.\<close>

definition fit_spec :: "u64 \<Rightarrow> u64 \<Rightarrow> bool \<Rightarrow> u64 \<Rightarrow> u64 \<Rightarrow> u64 option" where
  "fit_spec sz al high lo hi =
     (let a = (if high then hi - sz else lo); b = (if high then a - a mod al else a - a mod al + al)
      in if unat hi < unat lo + unat sz then None
         else if al = 0 \<or> a mod al = 0 then Some a
         else if b < lo \<or> unat hi < unat b + unat sz then None else Some b)"

lemma fit_block_spec:
  assumes "0 < sz"
  shows "fit_block sz al (remainder_mask al) high rs re cs ce = fit_spec sz al high (max cs rs) (min ce re)"
proof (cases "al = 0")
  case True
  then show ?thesis using word_diff_less_iff [OF assms, of "min ce re" "max cs rs"] by (simp add: fit_block_def fit_spec_def Let_def)
next
  case False
  have *: "(if b < lo \<or> hi - b < sz then None else if hi \<le> b \<or> hi - b < sz then None else x) =
      (if b < lo \<or> unat hi < unat b + unat sz then None else x)" for b lo hi :: u64 and x :: "u64 option"
    using word_diff_less_iff [OF assms, of hi b] by auto
  show ?thesis unfolding fit_block_def fit_spec_def Let_def remainder_mask_mod [OF False] * unfolding word_diff_less_iff [OF assms]
    using False by (cases high) simp_all
qed

lemma fit_spec_low:
  assumes sz: "0 < sz"
  shows "case fit_spec sz al False lo hi of
      None \<Rightarrow> \<forall>a. \<not> block_ok sz al lo hi a
    | Some a \<Rightarrow> block_ok sz al lo hi a \<and> (\<forall>b. block_ok sz al lo hi b \<longrightarrow> a \<le> b)"
proof -
  let ?b = "lo - lo mod al + al"
  consider (full) "unat hi < unat lo + unat sz" | (here) "\<not> unat hi < unat lo + unat sz" "al = 0 \<or> lo mod al = 0"
    | (up) "\<not> unat hi < unat lo + unat sz" "al \<noteq> 0" "lo mod al \<noteq> 0" by blast
  then show ?thesis
  proof cases
    case full
    then show ?thesis by (auto simp: fit_spec_def Let_def block_ok_def aligned_def word_le_nat_alt)
  next
    case here
    then show ?thesis by (auto simp: fit_spec_def Let_def block_ok_def aligned_def)
  next
    case up
    let ?A = "unat al" and ?L = "unat lo"
    have A: "0 < ?A" "?L mod ?A \<noteq> 0" using up by (auto simp: unat_gt_0 unat_mod_zero_iff dvd_eq_mod_eq_0)
    have least: "?L - ?L mod ?A + ?A \<le> unat a" if "block_ok sz al lo hi a" for a
      using next_multiple [OF A, of "unat a"] that up(2) by (auto simp: block_ok_def aligned_def word_le_nat_alt unat_mod_zero_iff)
    define C where "C = ?L - ?L mod ?A + ?A"
    have down: "unat (lo - lo mod al) = ?L - ?L mod ?A" by (rule unat_minus_mod)
    have dvd: "?A dvd C" unfolding C_def by (simp add: minus_mod_eq_mult_div)
    have LC: "?L \<le> C" using mod_less_divisor [OF A(1), of ?L] unfolding C_def by linarith
    show ?thesis
    proof (cases "C < 2 ^ 64")
      case True
      then have b: "unat ?b = C" using unat_add_lem [of "lo - lo mod al" al] by (simp add: C_def down)
      then have "\<not> ?b < lo" using LC by (simp add: word_less_nat_alt)
      then have "fit_spec sz al False lo hi = (if unat hi < C + unat sz then None else Some ?b)"
        using up b by (simp add: fit_spec_def Let_def)
      moreover have "block_ok sz al lo hi ?b" if "\<not> unat hi < C + unat sz"
        using that b LC dvd by (auto simp: block_ok_def aligned_def word_le_nat_alt unat_mod_zero_iff)
      moreover have "C \<le> unat a" if "block_ok sz al lo hi a" for a using least [OF that] by (simp add: C_def)
      ultimately show ?thesis using b by (fastforce simp: word_le_nat_alt block_ok_def aligned_def)
    next
      case False
      have "\<not> block_ok sz al lo hi a" for a
        using least [of a] False unsigned_less [of a, where ?'a = nat] by (auto simp: C_def)
      moreover have "?b < lo"
      proof -
        have "unat ?b = C - 2 ^ 64" using unat_plus_if' [of "lo - lo mod al" al] False by (simp add: C_def down)
        moreover have "?A < 2 ^ 64" using unsigned_less [of al, where ?'a = nat] by simp
        ultimately show ?thesis using False A LC by (simp add: word_less_nat_alt C_def)
      qed
      ultimately show ?thesis using up by (simp add: fit_spec_def Let_def)
    qed
  qed
qed

lemma fit_spec_high:
  assumes sz: "0 < sz"
  shows "case fit_spec sz al True lo hi of
      None \<Rightarrow> \<forall>a. \<not> block_ok sz al lo hi a
    | Some a \<Rightarrow> block_ok sz al lo hi a \<and> (\<forall>b. block_ok sz al lo hi b \<longrightarrow> b \<le> a)"
proof (cases "unat hi < unat lo + unat sz")
  case True
  then show ?thesis by (auto simp: fit_spec_def Let_def block_ok_def aligned_def word_le_nat_alt)
next
  case False
  let ?d = "hi - sz" and ?A = "unat al"
  have d: "unat ?d = unat hi - unat sz" using False by (intro unat_sub) (simp add: word_le_nat_alt)
  have top: "unat a \<le> unat ?d" if "block_ok sz al lo hi a" for a using that d by (auto simp: block_ok_def aligned_def)
  show ?thesis
  proof (cases "al = 0 \<or> ?d mod al = 0")
    case True
    then have "fit_spec sz al True lo hi = Some ?d" using False by (auto simp: fit_spec_def Let_def)
    moreover have "block_ok sz al lo hi ?d" using True False d by (auto simp: block_ok_def aligned_def word_le_nat_alt)
    ultimately show ?thesis using top by (simp add: word_le_nat_alt)
  next
    case al: False
    let ?b = "?d - ?d mod al"
    have b: "unat ?b = unat ?d - unat ?d mod ?A" by (rule unat_minus_mod)
    have le: "unat a \<le> unat ?b" if "block_ok sz al lo hi a" for a
      using prev_multiple [of ?A "unat a" "unat ?d"] top [OF that] that al b by (auto simp: block_ok_def aligned_def unat_mod_zero_iff)
    have eq: "fit_spec sz al True lo hi = (if ?b < lo then None else Some ?b)"
      using False al b d by (auto simp: fit_spec_def Let_def)
    have "?A dvd unat ?b" unfolding b by (simp add: minus_mod_eq_mult_div)
    then have "block_ok sz al lo hi ?b" if "\<not> ?b < lo" using that False b d by (auto simp: block_ok_def aligned_def unat_mod_zero_iff)
    then show ?thesis unfolding eq using le by (fastforce simp: word_le_nat_alt word_less_nat_alt block_ok_def aligned_def)
  qed
qed

section \<open>Trying a hole\<close>

text \<open>
  A block at \<open>a\<close> fits the hole behind \<open>p\<close>: it lies in the part of the hole the color callback leaves and in the allowed range. The callback
  may only restrict the hole.
\<close>

definition hole_fits :: "color_fn option \<Rightarrow> drm_mm \<Rightarrow> u64 \<Rightarrow> u64 \<Rightarrow> u64 \<Rightarrow> u64 \<Rightarrow> u64 \<Rightarrow> mm_ref \<Rightarrow> u64 \<Rightarrow> bool" where
  "hole_fits ca mm sz al color rs re p a \<longleftrightarrow>
     (case color_adjust ca mm p color (hole_node_start mm p, hole_node_end mm p) of (cs, ce) \<Rightarrow> block_ok sz al (max cs rs) (min ce re) a)"

definition color_shrinks :: "color_fn option \<Rightarrow> drm_mm \<Rightarrow> u64 \<Rightarrow> mm_ref \<Rightarrow> bool" where
  "color_shrinks ca mm color p \<longleftrightarrow>
     (case color_adjust ca mm p color (hole_node_start mm p, hole_node_end mm p) of (cs, ce) \<Rightarrow>
       hole_node_start mm p \<le> cs \<and> ce \<le> hole_node_end mm p)"

lemma block_ok_max_min:
  "block_ok sz al (max a b) (min c d) x \<longleftrightarrow>
   a \<le> x \<and> b \<le> x \<and> unat x + unat sz \<le> unat c \<and> unat x + unat sz \<le> unat d \<and> aligned al x"
  by (auto simp: block_ok_def max_def min_def word_le_nat_alt)

lemma hole_fits_inside:
  assumes "hole_fits ca mm sz al color rs re p a" and "color_shrinks ca mm color p"
  shows "hole_node_start mm p \<le> a" "unat a + unat sz \<le> unat (hole_node_end mm p)" "rs \<le> a" "unat a + unat sz \<le> unat re"
    "aligned al a"
  using assms by (auto simp: hole_fits_def color_shrinks_def block_ok_max_min word_le_nat_alt split: prod.splits)

lemma block_ok_align1: "block_ok sz (if al \<le> 1 then 0 else al) lo hi a = block_ok sz al lo hi a"
proof -
  have "al \<le> 1 \<longleftrightarrow> al = 0 \<or> al = 1" by (auto simp: word_le_nat_alt le_Suc_eq word_unat_eq_iff)
  then show ?thesis by (auto simp: block_ok_def aligned_def)
qed

lemma try_hole_spec:
  assumes sz: "0 < sz" and e: "hole_node_start mm p + mm_hole_size mm p = hole_node_end mm p"
    and fits_def: "fits = hole_fits ca mm sz al color rs re p"
  shows "case try_hole ca mm sz (if al \<le> 1 then 0 else al) color rs re mode p of
      TryBreak \<Rightarrow> mode = DRM_MM_INSERT_LOW \<and> re \<le> hole_node_start mm p \<or> mode = DRM_MM_INSERT_HIGH \<and> hole_node_end mm p \<le> rs
    | TryContinue \<Rightarrow> \<forall>a. \<not> fits a
    | TryPlace a \<Rightarrow> fits a \<and> (\<forall>b. fits b \<longrightarrow> (if mode = DRM_MM_INSERT_HIGH then b \<le> a else a \<le> b))"
proof -
  let ?al = "if al \<le> 1 then 0 else al" and ?high = "mode = DRM_MM_INSERT_HIGH"
  obtain cs ce where col: "color_adjust ca mm p color (hole_node_start mm p, hole_node_end mm p) = (cs, ce)" by fastforce
  have fits: "fits = block_ok sz ?al (max cs rs) (min ce re)"
    using col block_ok_align1 [of sz al] by (auto simp: fits_def hole_fits_def)
  show ?thesis
  proof (cases "mode = DRM_MM_INSERT_LOW \<and> re \<le> hole_node_start mm p \<or> ?high \<and> hole_node_end mm p \<le> rs")
    case True
    then have "try_hole ca mm sz ?al color rs re mode p = TryBreak" using e by (auto simp: try_hole_def Let_def)
    with True show ?thesis by simp
  next
    case False
    then have "try_hole ca mm sz ?al color rs re mode p =
        (case fit_spec sz ?al ?high (max cs rs) (min ce re) of None \<Rightarrow> TryContinue | Some a \<Rightarrow> TryPlace a)"
      using e col by (auto simp: try_hole_def Let_def fit_block_spec [OF sz])
    then show ?thesis
      using fit_spec_low [OF sz, of ?al "max cs rs" "min ce re"] fit_spec_high [OF sz, of ?al "max cs rs" "min ce re"]
      unfolding fits by (cases "fit_spec sz ?al ?high (max cs rs) (min ce re)"; cases ?high) simp_all
  qed
qed

section \<open>The search as a whole\<close>

text \<open>Holes that the search leaves out have no room.\<close>

lemma unfit_hole:
  assumes shr: "color_shrinks ca mm color p" and le: "hole_node_start mm p \<le> hole_node_end mm p"
    and hs: "hole_node_start mm p + mm_hole_size mm p = hole_node_end mm p" and sz: "0 < sz"
    and skip: "mm_hole_size mm p < sz \<or> hole_node_end mm p \<le> rs \<or> re \<le> hole_node_start mm p"
  shows "\<not> hole_fits ca mm sz al color rs re p a"
proof
  assume "hole_fits ca mm sz al color rs re p a"
  note in_hole = hole_fits_inside [OF this shr]
  have "unat (mm_hole_size mm p) = unat (hole_node_end mm p) - unat (hole_node_start mm p)"
    using hs le unat_sub [OF le] by (metis add_diff_cancel_left')
  with in_hole skip sz show False by (auto simp: word_le_nat_alt word_less_nat_alt)
qed

text \<open>The placement a mode chooses among all that fit.\<close>

definition best_placed :: "color_fn option \<Rightarrow> drm_mm \<Rightarrow> mm_ref list \<Rightarrow> u64 \<Rightarrow> u64 \<Rightarrow> u64 \<Rightarrow> u64 \<Rightarrow> u64 \<Rightarrow> u32 \<Rightarrow> mm_ref \<Rightarrow> u64 \<Rightarrow> bool" where
  "best_placed ca mm hs sz al color rs re mode x a \<longleftrightarrow>
     (\<forall>y \<in> set hs. \<forall>b. hole_fits ca mm sz al color rs re y b \<longrightarrow>
        (if mode = DRM_MM_INSERT_LOW then a \<le> b else if mode = DRM_MM_INSERT_HIGH then b \<le> a
         else mode = DRM_MM_INSERT_BEST \<longrightarrow> mm_hole_size mm x \<le> mm_hole_size mm y))"

lemma hole_order_sorted:
  assumes inv: "mm_inv mm ps"
  shows "mode = DRM_MM_INSERT_LOW \<Longrightarrow> sorted_wrt (\<lambda>p q. hole_node_end mm p < hole_node_start mm q) (hole_order mm mode)"
    and "mode = DRM_MM_INSERT_HIGH \<Longrightarrow> sorted_wrt (\<lambda>p q. hole_node_end mm q < hole_node_start mm p) (hole_order mm mode)"
    and "mode = DRM_MM_INSERT_BEST \<Longrightarrow> sorted_wrt (\<lambda>p q. mm_hole_size mm p \<le> mm_hole_size mm q) (hole_order mm mode)"
proof -
  have hol: "holes_inv mm (mm_holes mm ps)" and lay: "mm_layout mm ps" using inv by (simp_all add: mm_inv_def)
  have srt: "sorted_wrt (\<lambda>p q. hole_node_end mm p < hole_node_start mm q) (mm_holes mm ps)"
    unfolding mm_holes_def by (intro sorted_wrt_filter layout_holes_sorted lay)
  show "sorted_wrt (\<lambda>p q. hole_node_end mm p < hole_node_start mm q) (hole_order mm mode)" if "mode = DRM_MM_INSERT_LOW"
    using that srt hol by (simp add: hole_order_def holes_inv_def)
  show "sorted_wrt (\<lambda>p q. hole_node_end mm q < hole_node_start mm p) (hole_order mm mode)" if "mode = DRM_MM_INSERT_HIGH"
    using that srt hol by (simp add: hole_order_def holes_inv_def sorted_wrt_rev insert_mode_defs)
  show "sorted_wrt (\<lambda>p q. mm_hole_size mm p \<le> mm_hole_size mm q) (hole_order mm mode)" if "mode = DRM_MM_INSERT_BEST"
    using that hol by (simp add: hole_order_def holes_inv_def it_inv_def sorted_wrt_rev sorted_wrt_map not_le_not_iff insert_mode_defs)
qed

text \<open>When a hole ends the loop, those after it are outside the range as well.\<close>

lemma break_unfit:
  assumes inv: "mm_inv mm ps" and vs: "hole_order mm mode = pre @ x # ds"
    and brk: "mode = DRM_MM_INSERT_LOW \<and> re \<le> hole_node_start mm x \<or> mode = DRM_MM_INSERT_HIGH \<and> hole_node_end mm x \<le> rs"
    and le: "hole_node_start mm x \<le> hole_node_end mm x" and q: "q \<in> set (x # ds)"
  shows "hole_node_end mm q \<le> rs \<or> re \<le> hole_node_start mm q"
proof (cases "q = x")
  case False
  with q have q: "q \<in> set ds" by simp
  from brk show ?thesis
  proof
    assume l: "mode = DRM_MM_INSERT_LOW \<and> re \<le> hole_node_start mm x"
    then have "hole_node_end mm x < hole_node_start mm q" using hole_order_sorted(1) [OF inv, of mode] q vs by (auto simp: sorted_wrt_append)
    with conjunct2 [OF l] le show ?thesis by (intro disjI2) order
  next
    assume h: "mode = DRM_MM_INSERT_HIGH \<and> hole_node_end mm x \<le> rs"
    then have "hole_node_end mm q < hole_node_start mm x" using hole_order_sorted(2) [OF inv, of mode] q vs by (auto simp: sorted_wrt_append)
    with conjunct2 [OF h] le show ?thesis by (intro disjI1) order
  qed
qed (use brk in auto)

text \<open>The first hole that fits, in the order of the mode, is the best.\<close>

lemma best_of_order:
  assumes inv: "mm_inv mm ps" and vs: "hole_order mm mode = pre @ x # ds"
    and shr: "\<And>p. p \<in> set (mm_holes mm ps) \<Longrightarrow> color_shrinks ca mm color p"
    and unfit: "\<And>q b. q \<in> set pre \<Longrightarrow> \<not> hole_fits ca mm sz al color rs re q b"
    and x: "hole_fits ca mm sz al color rs re x a"
    and ext: "\<And>b. hole_fits ca mm sz al color rs re x b \<Longrightarrow> (if mode = DRM_MM_INSERT_HIGH then b \<le> a else a \<le> b)"
  shows "best_placed ca mm (mm_holes mm ps) sz al color rs re mode x a"
  unfolding best_placed_def
proof (intro ballI allI impI)
  fix y b assume y: "y \<in> set (mm_holes mm ps)" and b: "hole_fits ca mm sz al color rs re y b"
  have set: "set (hole_order mm mode) = set (mm_holes mm ps)" by (rule set_hole_order [OF inv])
  note iy = hole_fits_inside [OF b shr [OF y]]
  have "x \<in> set (mm_holes mm ps)" using set vs by auto
  note ix = hole_fits_inside [OF x shr [OF this]]
  have "y = x \<or> y \<in> set ds" using y set vs unfit b by auto
  then show "if mode = DRM_MM_INSERT_LOW then a \<le> b else if mode = DRM_MM_INSERT_HIGH then b \<le> a
      else mode = DRM_MM_INSERT_BEST \<longrightarrow> mm_hole_size mm x \<le> mm_hole_size mm y"
  proof
    assume "y = x"
    with ext [of b] b show ?thesis by (auto simp: insert_mode_defs)
  next
    assume "y \<in> set ds"
    then show ?thesis using hole_order_sorted [OF inv, of mode] ix iy unfolding vs
      by (fastforce simp: sorted_wrt_append word_le_nat_alt word_less_nat_alt)
  qed
qed

context mm_library
begin

text \<open>The search for a hole succeeds if a hole fits, with the best placement of the mode.\<close>

lemma search_spec:
  assumes inv: "mm_inv mm ps" and sz: "0 < sz" and shr: "\<And>p. p \<in> set (mm_holes mm ps) \<Longrightarrow> color_shrinks ca mm color p"
    and ne: "mm_holes mm ps \<noteq> []" and fits: "fits = hole_fits ca mm sz al color rs re"
    and probe: "probe = try_hole ca mm sz (if al \<le> 1 then 0 else al) color rs re mode"
  obtains first res where "first_hole mm rs re sz mode = Some first" "insert_loop lib mm sz mode once probe first = Some res"
    "case res of
       None \<Rightarrow> once \<or> (\<forall>p \<in> set (mm_holes mm ps). \<forall>a. \<not> fits p a)
     | Some (x, a) \<Rightarrow> x \<in> set (mm_holes mm ps) \<and> fits x a \<and> best_placed ca mm (mm_holes mm ps) sz al color rs re mode x a"
proof -
  let ?vs = "hole_order mm mode"
  have set: "set ?vs = set (mm_holes mm ps)" by (rule set_hole_order [OF inv])
  have hole: "hole_node_start mm p + mm_hole_size mm p = hole_node_end mm p" "hole_node_start mm p \<le> hole_node_end mm p"
    "color_shrinks ca mm color p" if "p \<in> set ?vs" for p
    using that inv_hole [OF inv, of p] shr unfolding set set_mm_holes by auto
  have unfit: "\<not> fits p a" if "p \<in> set ?vs" "mm_hole_size mm p < sz \<or> hole_node_end mm p \<le> rs \<or> re \<le> hole_node_start mm p" for p a
    unfolding fits by (rule unfit_hole [OF hole(3,2,1) sz that(2)]) (rule that(1))+
  have place: "case probe p of
      TryBreak \<Rightarrow> mode = DRM_MM_INSERT_LOW \<and> re \<le> hole_node_start mm p \<or> mode = DRM_MM_INSERT_HIGH \<and> hole_node_end mm p \<le> rs
    | TryContinue \<Rightarrow> \<forall>a. \<not> fits p a
    | TryPlace a \<Rightarrow> fits p a \<and> (\<forall>b. fits p b \<longrightarrow> (if mode = DRM_MM_INSERT_HIGH then b \<le> a else a \<le> b))" if "p \<in> set ?vs" for p
    unfolding probe by (rule try_hole_spec [OF sz hole(1) [OF that]]) (simp add: fits)
  have tried: "\<not> fits p a" if "p \<in> set ?vs" "mm_hole_size mm p < sz \<or> probe p = TryContinue" for p a
    using that unfit [of p a] place [OF that(1)] by auto
  have skipped: "\<not> fits p a" if "p \<in> set ?vs" "first_skips mm rs re sz mode p" for p a
    using that unfit [of p a] by (auto simp: first_skips_def dest: less_imp_le)
  obtain first where first: "first_hole mm rs re sz mode = Some first"
    "case first of None \<Rightarrow> \<forall>p \<in> set ?vs. first_skips mm rs re sz mode p
      | Some h \<Rightarrow> \<exists>as bs. ?vs = as @ h # bs \<and> (\<forall>p \<in> set as. first_skips mm rs re sz mode p)"
    by (rule first_hole_spec [OF inv ne])
  show thesis
  proof (cases first)
    case None
    then have "insert_loop lib mm sz mode once probe first = Some None" by (simp add: insert_loop.simps)
    with None first skipped set that show thesis by auto
  next
    case (Some h)
    then obtain as bs where vs: "?vs = as @ h # bs" and skip: "\<forall>p \<in> set as. first_skips mm rs re sz mode p" using first(2) by auto
    obtain res where res: "insert_loop lib mm sz mode once probe (Some h) = Some res"
      "loop_result probe (\<lambda>q. mm_hole_size mm q < sz) once (h # bs) res"
      by (rule insert_loop_spec [OF next_hole_walk [OF inv] vs])
    have before: "\<not> fits q a" if "q \<in> set as \<or> q \<in> set cs" "h # bs = cs @ ds" "\<forall>q \<in> set cs. mm_hole_size mm q < sz \<or> probe q = TryContinue"
      for q a cs ds
    proof -
      have "q \<in> set ?vs" using that(1,2) vs by (metis Un_iff set_append)
      with that skip show ?thesis using skipped tried by blast
    qed
    show thesis
    proof (cases res)
      case None
      have "once \<or> (\<forall>p \<in> set ?vs. \<forall>a. \<not> fits p a)"
      proof (rule disjCI)
        assume "\<not> (\<forall>p \<in> set ?vs. \<forall>a. \<not> fits p a)"
        then obtain q a where q: "q \<in> set ?vs" "fits q a" by blast
        show once
        proof (rule ccontr)
          assume "\<not> once"
          then obtain cs ds where l: "h # bs = cs @ ds" "\<forall>q \<in> set cs. mm_hole_size mm q < sz \<or> probe q = TryContinue"
            "ds = [] \<or> probe (hd ds) = TryBreak" using None res(2) by (auto simp: loop_result_def)
          have "q \<in> set ds" using q before [OF _ l(1,2)] vs l(1) by (metis Un_iff set_append)
          then obtain x ds' where ds: "ds = x # ds'" "probe x = TryBreak" using l(3) by (cases ds) auto
          have vs': "?vs = (as @ cs) @ x # ds'" using vs l(1) ds by simp
          then have "x \<in> set ?vs" by simp
          with break_unfit [OF inv vs', of re rs q] place [of x] ds \<open>q \<in> set ds\<close> hole(2) [of x] unfit [OF q(1)] q(2)
          show False by simp
        qed
      qed
      then show thesis using that [OF first(1)] res(1) Some None set by auto
    next
      case (Some r)
      obtain x a where r: "r = (x, a)" by fastforce
      then obtain cs ds where l: "h # bs = cs @ x # ds" "\<forall>q \<in> set cs. mm_hole_size mm q < sz \<or> probe q = TryContinue"
        and x: "probe x = TryPlace a" using Some res(2) by (auto simp: loop_result_def)
      have vs': "?vs = (as @ cs) @ x # ds" using vs l(1) by simp
      then have xin: "x \<in> set ?vs" by simp
      have "best_placed ca mm (mm_holes mm ps) sz al color rs re mode x a"
        by (rule best_of_order [OF inv vs' shr]) (use before [OF _ l] place [OF xin] x in \<open>auto simp: fits\<close>)
      then show thesis using that [OF first(1)] res(1) \<open>first = Some h\<close> Some r set xin place [OF xin] x by auto
    qed
  qed
qed

lemma largest_hole:
  assumes inv: "mm_inv mm ps" and small: "(case rb_leftmost (holes_size mm) of None \<Rightarrow> 0 | Some p \<Rightarrow> mm_hole_size mm p) < sz"
    and p: "p \<in> set (mm_holes mm ps)"
  shows "mm_hole_size mm p < sz"
proof -
  have hol: "holes_inv mm (mm_holes mm ps)" using inv by (simp add: mm_inv_def)
  then have "p \<in> set (inorder (rb_root (holes_size mm)))" using p by (simp add: holes_inv_def)
  then obtain x xs where xs: "inorder (rb_root (holes_size mm)) = x # xs" "p = x \<or> p \<in> set xs"
    by (cases "inorder (rb_root (holes_size mm))") auto
  then have "mm_hole_size mm p \<le> mm_hole_size mm x" "rb_leftmost (holes_size mm) = Some x"
    using hol by (auto simp: holes_inv_def it_inv_def not_le_not_iff)
  with small show ?thesis by auto
qed

lemma place_in_hole:
  assumes inv: "mm_inv mm ps" and x: "x \<in> set (mm_holes mm ps)" and n: "n \<in> range MM_NODE" "n \<notin> set ps" "\<not> drm_mm_node_scanned_block mm n"
    and room: "hole_node_start mm x \<le> mm_start mm n" "unat (mm_start mm n) + unat (mm_size mm n) \<le> unat (hole_node_end mm x)" "0 < mm_size mm n"
  obtains as bs mm' where "ps = as @ bs" "x = last (MM_HEAD # as)"
    "place_node lib x n (hole_node_start mm x) (hole_node_start mm x + mm_hole_size mm x) mm = Some mm'" "mm_inv mm' (as @ n # bs)"
    "same_blocks mm mm'" "\<forall>q. drm_mm_node_allocated mm' q \<longleftrightarrow> q = n \<or> drm_mm_node_allocated mm q" "scan_active mm' = scan_active mm"
proof -
  have xin: "x \<in> set (MM_HEAD # ps)" using x by (simp add: set_mm_holes)
  obtain cs ds where "MM_HEAD # ps = cs @ x # ds" using xin by (metis split_list)
  then obtain as bs where ps: "MM_HEAD # as = cs @ [x]" "ps = as @ bs" by (cases cs) auto
  have h: "x = last (MM_HEAD # as)" using ps(1) by (metis last_snoc)
  have "unat (mm_start mm n) + unat (mm_size mm n) < 2 ^ LENGTH(64)"
    using room(2) unsigned_less [of "hole_node_end mm x", where ?'a = nat] by simp
  then have "unat (hole_node_start mm n) = unat (mm_start mm n) + unat (mm_size mm n)"
    unfolding hole_node_start_def by (rule iffD1 [OF unat_add_lem])
  then have "mm_start mm n < hole_node_start mm n" "hole_node_start mm n \<le> hole_node_end mm x"
    using room by (auto simp: word_less_nat_alt word_le_nat_alt)
  from place_node_spec [OF inv [unfolded ps(2)] h n(1) _ room(1) this n(3)] n(2) ps(2) h that inv_hole(1) [OF inv xin]
  show thesis by metis
qed

lemma set_and_place:
  assumes inv: "mm_inv mm ps" and x: "x \<in> set (mm_holes mm ps)" and n: "n \<in> range MM_NODE" "n \<notin> set ps" "\<not> drm_mm_node_scanned_block mm n"
    and room: "hole_node_start mm x \<le> a" "unat a + unat sz \<le> unat (hole_node_end mm x)" "0 < sz"
  obtains as bs mm' where "ps = as @ bs" "x = last (MM_HEAD # as)" "mm_inv mm' (as @ n # bs)"
    "place_node lib x n (hole_node_start mm x) (hole_node_start mm x + mm_hole_size mm x)
       (upd_node n (\<lambda>n. n\<lparr>n_size := sz, n_start := a, n_color := color, n_hole_size := 0\<rparr>) mm) = Some mm'"
    "mm_start mm' n = a" "mm_size mm' n = sz" "n_color (mm_nodes mm' n) = color" "scan_active mm' = scan_active mm"
    "\<forall>q. q \<noteq> n \<longrightarrow> mm_start mm' q = mm_start mm q \<and> mm_size mm' q = mm_size mm q \<and> n_color (mm_nodes mm' q) = n_color (mm_nodes mm q) \<and>
       drm_mm_node_scanned_block mm' q = drm_mm_node_scanned_block mm q \<and> drm_mm_node_allocated mm' q = drm_mm_node_allocated mm q"
proof -
  define mm1 where "mm1 = upd_node n (\<lambda>n. n\<lparr>n_size := sz, n_start := a, n_color := color, n_hole_size := 0\<rparr>) mm"
  have nin: "n \<notin> set (MM_HEAD # ps)" using n by auto
  then have xn: "x \<noteq> n" using x by (auto simp: set_mm_holes)
  have inv1: "mm_inv mm1 ps" unfolding mm1_def by (rule mm_inv_upd_node [OF inv nin])
  have eq: "mm_nodes mm1 q = mm_nodes mm q" if "q \<noteq> n" for q using that by (simp add: mm1_def upd_node_def)
  then have x1: "x \<in> set (mm_holes mm1 ps)" and st: "hole_node_start mm1 x = hole_node_start mm x" "mm_hole_size mm1 x = mm_hole_size mm x"
    using x xn by (simp_all add: hole_node_start_def set_mm_holes drm_mm_hole_follows_def)
  then have e: "hole_node_end mm1 x = hole_node_end mm x"
    using inv_hole(1) [OF inv, of x] inv_hole(1) [OF inv1, of x] x by (simp add: set_mm_holes)
  have nd: "mm_start mm1 n = a" "mm_size mm1 n = sz" "n_color (mm_nodes mm1 n) = color" "\<not> drm_mm_node_scanned_block mm1 n"
    using n(3) by (simp_all add: mm1_def node_defs)
  obtain as bs mm' where p: "ps = as @ bs" "x = last (MM_HEAD # as)"
    "place_node lib x n (hole_node_start mm x) (hole_node_start mm x + mm_hole_size mm x) mm1 = Some mm'" "mm_inv mm' (as @ n # bs)"
    "same_blocks mm1 mm'" "\<forall>q. drm_mm_node_allocated mm' q \<longleftrightarrow> q = n \<or> drm_mm_node_allocated mm1 q" "scan_active mm' = scan_active mm1"
    by (rule place_in_hole [OF inv1 x1 n(1,2) nd(4), unfolded nd st e, OF room])
  show thesis
  proof (rule that [OF p(1,2,4)])
    show "place_node lib x n (hole_node_start mm x) (hole_node_start mm x + mm_hole_size mm x)
       (upd_node n (\<lambda>n. n\<lparr>n_size := sz, n_start := a, n_color := color, n_hole_size := 0\<rparr>) mm) = Some mm'"
      using p(3) by (simp only: mm1_def)
    show "scan_active mm' = scan_active mm" using p(7) by (simp add: mm1_def upd_node_def)
    show "\<forall>q. q \<noteq> n \<longrightarrow> mm_start mm' q = mm_start mm q \<and> mm_size mm' q = mm_size mm q \<and> n_color (mm_nodes mm' q) = n_color (mm_nodes mm q) \<and>
       drm_mm_node_scanned_block mm' q = drm_mm_node_scanned_block mm q \<and> drm_mm_node_allocated mm' q = drm_mm_node_allocated mm q"
      using p(5,6) eq by (simp add: same_blocks_def drm_mm_node_scanned_block_def drm_mm_node_allocated_def)
  qed (use p(5) nd in \<open>auto simp: same_blocks_def\<close>)
qed

lemma insert_spec:
  assumes inv: "mm_inv mm ps" and n: "n \<in> range MM_NODE" "n \<notin> set ps" "\<not> drm_mm_node_scanned_block mm n" and range: "rs \<le> re"
    and shrs: "\<forall>p \<in> set (mm_holes mm ps). color_shrinks ca mm color p"
  obtains (placed) a as bs mm' where
      "drm_mm_insert_node_in_range lib ca n sz al color rs re mode mm = Some (0, mm')" "ps = as @ bs" "mm_inv mm' (as @ n # bs)"
      "mm_start mm' n = a" "mm_size mm' n = sz" "n_color (mm_nodes mm' n) = color" "0 < sz"
      "last (MM_HEAD # as) \<in> set (mm_holes mm ps)" "hole_fits ca mm sz al color rs re (last (MM_HEAD # as)) a"
      "best_placed ca mm (mm_holes mm ps) sz al color rs re (mode AND NOT DRM_MM_INSERT_ONCE) (last (MM_HEAD # as)) a"
      "\<forall>q. q \<noteq> n \<longrightarrow> mm_start mm' q = mm_start mm q \<and> mm_size mm' q = mm_size mm q \<and>
         n_color (mm_nodes mm' q) = n_color (mm_nodes mm q) \<and>
         drm_mm_node_scanned_block mm' q = drm_mm_node_scanned_block mm q \<and>
         drm_mm_node_allocated mm' q = drm_mm_node_allocated mm q"
      "scan_active mm' = scan_active mm"
    | (full) "drm_mm_insert_node_in_range lib ca n sz al color rs re mode mm = Some (neg_errno ENOSPC, mm)"
      "mode AND DRM_MM_INSERT_ONCE \<noteq> 0 \<or> sz = 0 \<or> (\<forall>p \<in> set (mm_holes mm ps). \<forall>a. \<not> hole_fits ca mm sz al color rs re p a)"
proof -
  note shr = bspec [OF shrs]
  let ?run = "drm_mm_insert_node_in_range lib ca n sz al color rs re mode mm"
  let ?big = "case rb_leftmost (holes_size mm) of None \<Rightarrow> 0 | Some p \<Rightarrow> mm_hole_size mm p"
  consider (zero) "sz = 0" | (narrow) "0 < sz" "re - rs < sz" | (small) "0 < sz" "\<not> re - rs < sz" "?big < sz"
    | (search) "0 < sz" "\<not> re - rs < sz" "\<not> ?big < sz" by (auto simp: word_gt_0)
  then show thesis
  proof cases
    case zero
    then show thesis using range by (intro full) (simp_all add: drm_mm_insert_node_in_range_def)
  next
    case narrow
    have "\<not> hole_fits ca mm sz al color rs re p a" if "p \<in> set (mm_holes mm ps)" for p a
      using hole_fits_inside(3,4) [OF _ shr [OF that]] narrow range unat_sub [OF range]
      by (fastforce simp: word_le_nat_alt word_less_nat_alt)
    with narrow range show thesis by (intro full) (auto simp: drm_mm_insert_node_in_range_def)
  next
    case small
    have "\<not> hole_fits ca mm sz al color rs re p a" if p: "p \<in> set (mm_holes mm ps)" for p a
      by (rule unfit_hole [OF shr [OF p]]) (use p inv_hole [OF inv, of p] largest_hole [OF inv small(3) p] small(1) in \<open>auto simp: set_mm_holes\<close>)
    with small range show thesis by (intro full) (auto simp: drm_mm_insert_node_in_range_def)
  next
    case search
    have ne: "mm_holes mm ps \<noteq> []"
      using search(1,3) inv by (auto simp: mm_inv_def holes_inv_def it_inv_def)
    obtain first res where f: "first_hole mm rs re sz (mode AND NOT DRM_MM_INSERT_ONCE) = Some first"
      "insert_loop lib mm sz (mode AND NOT DRM_MM_INSERT_ONCE) (mode AND DRM_MM_INSERT_ONCE \<noteq> 0)
         (try_hole ca mm sz (if al \<le> 1 then 0 else al) color rs re (mode AND NOT DRM_MM_INSERT_ONCE)) first = Some res"
      "case res of
         None \<Rightarrow> mode AND DRM_MM_INSERT_ONCE \<noteq> 0 \<or> (\<forall>p \<in> set (mm_holes mm ps). \<forall>a. \<not> hole_fits ca mm sz al color rs re p a)
       | Some (x, a) \<Rightarrow> x \<in> set (mm_holes mm ps) \<and> hole_fits ca mm sz al color rs re x a \<and>
           best_placed ca mm (mm_holes mm ps) sz al color rs re (mode AND NOT DRM_MM_INSERT_ONCE) x a"
      by (rule search_spec [OF inv search(1) shr ne refl refl])
    show thesis
    proof (cases res)
      case None
      with f search range show thesis by (intro full) (auto simp: drm_mm_insert_node_in_range_def Let_def)
    next
      case (Some r)
      obtain x a where r: "r = (x, a)" by fastforce
      then have x: "x \<in> set (mm_holes mm ps)" "hole_fits ca mm sz al color rs re x a"
        and best: "best_placed ca mm (mm_holes mm ps) sz al color rs re (mode AND NOT DRM_MM_INSERT_ONCE) x a"
        using f(3) Some by simp_all
      note room = hole_fits_inside [OF x(2) shr [OF x(1)]]
      obtain as bs mm' where p: "ps = as @ bs" "x = last (MM_HEAD # as)" "mm_inv mm' (as @ n # bs)"
        "place_node lib x n (hole_node_start mm x) (hole_node_start mm x + mm_hole_size mm x)
           (upd_node n (\<lambda>n. n\<lparr>n_size := sz, n_start := a, n_color := color, n_hole_size := 0\<rparr>) mm) = Some mm'"
        "mm_start mm' n = a" "mm_size mm' n = sz" "n_color (mm_nodes mm' n) = color" "scan_active mm' = scan_active mm"
        and same: "\<forall>q. q \<noteq> n \<longrightarrow> mm_start mm' q = mm_start mm q \<and> mm_size mm' q = mm_size mm q \<and>
           n_color (mm_nodes mm' q) = n_color (mm_nodes mm q) \<and>
           drm_mm_node_scanned_block mm' q = drm_mm_node_scanned_block mm q \<and> drm_mm_node_allocated mm' q = drm_mm_node_allocated mm q"
        by (rule set_and_place [OF inv x(1) n room(1,2) search(1), where color = color])
      have "?run = Some (0, mm')" using f(1,2) Some r search range p(4)
        by (auto simp: drm_mm_insert_node_in_range_def Let_def)
      then show thesis using placed p same x best search(1) by blast
    qed
  qed
qed

text \<open>Reservation: the range of the node has to be in the part of one hole the color callback leaves.\<close>

lemma reserve_spec:
  fixes mm n
  assumes inv: "mm_inv mm ps" and n: "n \<in> range MM_NODE" "n \<notin> set ps" "\<not> drm_mm_node_scanned_block mm n"
    and shrs: "\<forall>p \<in> set (mm_holes mm ps). color_shrinks ca mm (n_color (mm_nodes mm n)) p"
  defines "fits \<equiv> \<lambda>p. case color_adjust ca mm p (n_color (mm_nodes mm n)) (hole_node_start mm p, hole_node_end mm p) of
      (cs, ce) \<Rightarrow> cs \<le> mm_start mm n \<and> unat (mm_start mm n) + unat (mm_size mm n) \<le> unat ce"
  obtains (placed) as bs mm' where
      "drm_mm_reserve_node lib ca n mm = Some (0, mm')" "ps = as @ bs" "mm_inv mm' (as @ n # bs)" "0 < mm_size mm n"
      "last (MM_HEAD # as) \<in> set (mm_holes mm ps)" "fits (last (MM_HEAD # as))" "same_blocks mm mm'"
      "\<forall>q. drm_mm_node_allocated mm' q \<longleftrightarrow> q = n \<or> drm_mm_node_allocated mm q" "scan_active mm' = scan_active mm"
    | (full) "drm_mm_reserve_node lib ca n mm = Some (neg_errno ENOSPC, mm)"
      "mm_size mm n = 0 \<or> (\<forall>p \<in> set (mm_holes mm ps). \<not> fits p)"
proof -
  note shr = bspec [OF shrs]
  let ?a = "mm_start mm n" and ?s = "mm_size mm n" and ?c = "n_color (mm_nodes mm n)"
  have shrink: "hole_node_start mm p \<le> ?a" "unat ?a + unat ?s \<le> unat (hole_node_end mm p)"
    if "p \<in> set (mm_holes mm ps)" "fits p" for p
    using shr [OF that(1)] that(2) by (auto simp: fits_def color_shrinks_def word_le_nat_alt split: prod.splits)
  have wrap: "?a + ?s \<le> ?a \<longleftrightarrow> ?s = 0 \<or> 2 ^ 64 \<le> unat ?a + unat ?s"
    using unat_plus_if' [of ?a ?s] unsigned_less [of ?s, where ?'a = nat]
    by (auto simp: word_le_nat_alt unat_eq_0 split: if_splits)
  show thesis
  proof (cases "?a + ?s \<le> ?a")
    case True
    have "?s = 0 \<or> (\<forall>p \<in> set (mm_holes mm ps). \<not> fits p)"
    proof (rule disjCI)
      assume "\<not> (\<forall>p \<in> set (mm_holes mm ps). \<not> fits p)"
      then obtain p where "unat ?a + unat ?s \<le> unat (hole_node_end mm p)" using shrink(2) by blast
      with wrap True unsigned_less [of "hole_node_end mm p", where ?'a = nat] show "?s = 0" by auto
    qed
    with True show thesis by (intro full) (simp_all add: drm_mm_reserve_node_def)
  next
    case False
    have found: "found_at (hole_node_start mm) (mm_hole_size mm) ?a 0 (mm_holes mm ps) (find_hole_addr mm ?a 0)"
      by (rule find_hole_addr_spec [OF inv])
    have s: "0 < ?s" and sum: "unat (?a + ?s) = unat ?a + unat ?s"
      using False wrap unat_plus_if' [of ?a ?s] by (auto simp: word_gt_0)
    have only: "find_hole_addr mm ?a 0 = Some p" if p: "p \<in> set (mm_holes mm ps)" "fits p" for p
    proof (cases "find_hole_addr mm ?a 0")
      case None
      with found p(1) show ?thesis by (auto simp: found_at_def)
    next
      case (Some h)
      then obtain as bs where split: "mm_holes mm ps = as @ h # bs" "\<forall>p \<in> set as. hole_node_start mm p + mm_hole_size mm p < ?a"
        "\<forall>p \<in> set bs. ?a < hole_node_start mm p" using found by (auto simp: found_at_def)
      have "hole_node_start mm p + mm_hole_size mm p = hole_node_end mm p" using p(1) inv_hole(1) [OF inv] by (auto simp: set_mm_holes)
      then have "\<not> hole_node_start mm p + mm_hole_size mm p < ?a" "\<not> ?a < hole_node_start mm p"
        using shrink [OF p] s by (auto simp: word_less_nat_alt word_le_nat_alt)
      with split p(1) Some show ?thesis by auto
    qed
    show thesis
    proof (cases "find_hole_addr mm ?a 0")
      case None
      with False only show thesis by (intro full) (auto simp: drm_mm_reserve_node_def Let_def)
    next
      case (Some h)
      then have h: "h \<in> set (mm_holes mm ps)" using found by (auto simp: found_at_def)
      then have e: "hole_node_start mm h + mm_hole_size mm h = hole_node_end mm h" using inv_hole(1) [OF inv] by (auto simp: set_mm_holes)
      have run: "drm_mm_reserve_node lib ca n mm = (if fits h then
          map_option (\<lambda>mm. (0, mm)) (place_node lib h n (hole_node_start mm h) (hole_node_start mm h + mm_hole_size mm h) mm)
          else Some (neg_errno ENOSPC, mm))"
        using False Some e sum by (auto simp: drm_mm_reserve_node_def Let_def fits_def word_less_nat_alt word_le_nat_alt split: prod.splits)
      show thesis
      proof (cases "fits h")
        case True
        obtain as bs mm' where "ps = as @ bs" "h = last (MM_HEAD # as)"
          "place_node lib h n (hole_node_start mm h) (hole_node_start mm h + mm_hole_size mm h) mm = Some mm'" "mm_inv mm' (as @ n # bs)"
          "same_blocks mm mm'" "\<forall>q. drm_mm_node_allocated mm' q \<longleftrightarrow> q = n \<or> drm_mm_node_allocated mm q" "scan_active mm' = scan_active mm"
          by (rule place_in_hole [OF inv h n shrink [OF h True] s])
        with run True s h show thesis by (intro placed [of mm' as bs]) simp_all
      next
        case False
        with run only Some show thesis by (intro full) (simp, metis option.inject)
      qed
    qed
  qed
qed

end

end
