(* ===== verification/DRM_MM_Free.thy ===== *)
theory DRM_MM_Free
  imports DRM_MM_Insert
begin

text \<open>
  The range allocator on the level of addresses: an insertion succeeds if and only if the range has free aligned space, and the block goes to the
  place the mode asks for. The color callback is an interface with the locale \<open>color_hook\<close> as its contract. The last section
  shows that no sequence of driver calls breaks the invariant or fires a check.
\<close>

section \<open>Free ranges\<close>

text \<open>A block at \<open>a\<close> is free: it is aligned, inside the allowed range and the managed range, and meets no allocated node.\<close>

definition free_place :: "drm_mm \<Rightarrow> mm_ref list \<Rightarrow> u64 \<Rightarrow> u64 \<Rightarrow> u64 \<Rightarrow> u64 \<Rightarrow> u64 \<Rightarrow> bool" where
  "free_place mm ps sz al rs re a \<longleftrightarrow>
     block_ok sz al (max (hole_node_start mm MM_HEAD) rs) (min (mm_start mm MM_HEAD) re) a \<and>
     (\<forall>p \<in> set ps. unat a + unat sz \<le> unat (mm_start mm p) \<or> hole_node_start mm p \<le> a)"

lemma free_in_gap:
  assumes "tiled mm (hole_node_start mm h) bs e" and "hole_node_start mm h \<le> a" and "unat a + unat sz \<le> unat e"
    and "\<forall>p \<in> set bs. unat a + unat sz \<le> unat (mm_start mm p) \<or> hole_node_start mm p \<le> a"
  shows "\<exists>cs ds. bs = cs @ ds \<and> hole_node_start mm (last (h # cs)) \<le> a \<and>
    unat a + unat sz \<le> unat (case ds of [] \<Rightarrow> e | d # _ \<Rightarrow> mm_start mm d)"
  using assms
proof (induction bs arbitrary: h)
  case Nil
  then show ?case by simp
next
  case (Cons p bs)
  show ?case
  proof (cases "unat a + unat sz \<le> unat (mm_start mm p)")
    case True
    then show ?thesis using Cons.prems by (intro exI [of _ "[]"] exI [of _ "p # bs"]) simp
  next
    case False
    then have "tiled mm (hole_node_start mm p) bs e" "hole_node_start mm p \<le> a"
      "\<forall>p \<in> set bs. unat a + unat sz \<le> unat (mm_start mm p) \<or> hole_node_start mm p \<le> a" using Cons.prems by auto
    from Cons.IH [OF this(1,2) Cons.prems(3) this(3)] obtain cs ds where "bs = cs @ ds \<and> hole_node_start mm (last (p # cs)) \<le> a \<and>
        unat a + unat sz \<le> unat (case ds of [] \<Rightarrow> e | d # _ \<Rightarrow> mm_start mm d)" by blast
    then show ?thesis by (intro exI [of _ "p # cs"] exI [of _ ds]) simp
  qed
qed

text \<open>The gap behind a node meets no node.\<close>

lemma gap_is_free:
  assumes lay: "mm_layout mm (as @ bs)" and h: "h = last (MM_HEAD # as)" and ok: "block_ok sz al rs re a"
    and a: "hole_node_start mm h \<le> a" "unat a + unat sz \<le> unat (hole_node_end mm h)"
  shows "free_place mm (as @ bs) sz al rs re a"
proof -
  have t: "tiled mm (hole_node_start mm MM_HEAD) as (hole_node_start mm h)" "tiled mm (hole_node_start mm h) bs (mm_start mm MM_HEAD)"
    using lay h tiled_append [of mm MM_HEAD as bs "mm_start mm MM_HEAD"] by (auto simp: mm_layout_def)
  have e: "hole_node_end mm h \<le> mm_start mm MM_HEAD"
    using layout_gap(1) [OF lay h] tiled_bounds [OF t(2)] by (cases bs) (auto intro: less_imp_le order_trans)
  have "hole_node_start mm p \<le> a" if "p \<in> set as" for p using tiled_bounds [OF t(1) that] a(1) by auto
  moreover have "unat a + unat sz \<le> unat (mm_start mm p)" if p: "p \<in> set bs" for p
  proof -
    obtain b cs where bs: "bs = b # cs" using p by (cases bs) auto
    have "mm_start mm b \<le> mm_start mm p"
    proof (cases "p = b")
      case False
      then have "hole_node_start mm b \<le> mm_start mm p" "mm_start mm b < hole_node_start mm b"
        using p bs t(2) tiled_bounds [of mm "hole_node_start mm b" cs _ p] by auto
      then show ?thesis by order
    qed simp
    then show ?thesis using a(2) layout_gap(1) [OF lay h] bs by (simp add: word_le_nat_alt)
  qed
  ultimately show ?thesis
    using ok a e tiled_le [OF t(1)] by (auto simp: free_place_def block_ok_def max_def min_def word_le_nat_alt)
qed

lemma free_place_iff:
  assumes inv: "mm_inv mm ps" and sz: "0 < sz"
  shows "free_place mm ps sz al rs re a \<longleftrightarrow> (\<exists>p \<in> set (mm_holes mm ps). hole_fits None mm sz al color rs re p a)"
proof
  have lay: "mm_layout mm ps" using inv by (simp add: mm_inv_def)
  assume f: "free_place mm ps sz al rs re a"
  then have ok: "hole_node_start mm MM_HEAD \<le> a" "unat a + unat sz \<le> unat (mm_start mm MM_HEAD)" "block_ok sz al rs re a"
    by (auto simp: free_place_def block_ok_max_min) (simp add: block_ok_def)
  have "tiled mm (hole_node_start mm MM_HEAD) ps (mm_start mm MM_HEAD)" using lay by (simp add: mm_layout_def)
  from free_in_gap [OF this ok(1,2)] f obtain cs ds where ps: "ps = cs @ ds" and a: "hole_node_start mm (last (MM_HEAD # cs)) \<le> a"
    "unat a + unat sz \<le> unat (case ds of [] \<Rightarrow> mm_start mm MM_HEAD | d # _ \<Rightarrow> mm_start mm d)"
    by (auto simp: free_place_def)
  let ?h = "last (MM_HEAD # cs)"
  have e: "unat a + unat sz \<le> unat (hole_node_end mm ?h)"
    using a(2) layout_gap(1) [OF lay [unfolded ps] refl] by (cases ds) auto
  then have "hole_node_start mm ?h < hole_node_end mm ?h" using a(1) sz by (auto simp: word_less_nat_alt word_le_nat_alt)
  moreover have "?h \<in> set (MM_HEAD # ps)" using last_in_set [of "MM_HEAD # cs"] ps by auto
  ultimately have "?h \<in> set (mm_holes mm ps)"
    using inv_hole(1) [OF inv, of ?h] by (auto simp: set_mm_holes drm_mm_hole_follows_def simp del: last.simps)
  moreover have "hole_fits None mm sz al color rs re ?h a"
    using a e ok(3) by (simp add: hole_fits_def color_adjust_def block_ok_max_min) (simp add: block_ok_def)
  ultimately show "\<exists>p \<in> set (mm_holes mm ps). hole_fits None mm sz al color rs re p a" by blast
next
  assume "\<exists>p \<in> set (mm_holes mm ps). hole_fits None mm sz al color rs re p a"
  then obtain p where p: "p \<in> set (MM_HEAD # ps)" and f: "hole_fits None mm sz al color rs re p a" by (auto simp: set_mm_holes)
  obtain cs ds where "MM_HEAD # ps = cs @ p # ds" using p by (metis split_list)
  then obtain as bs where ps: "MM_HEAD # as = cs @ [p]" "ps = as @ bs" by (cases cs) auto
  have h: "p = last (MM_HEAD # as)" using ps(1) by (metis last_snoc)
  have "block_ok sz al rs re a" "hole_node_start mm p \<le> a" "unat a + unat sz \<le> unat (hole_node_end mm p)"
    using f by (auto simp: hole_fits_def color_adjust_def block_ok_max_min) (simp add: block_ok_def)
  with gap_is_free [of mm as bs p] inv ps(2) h show "free_place mm ps sz al rs re a" by (auto simp: mm_inv_def)
qed

section \<open>The color callback\<close>

text \<open>
  The callback may restrict a hole and not enlarge it. A driver may rely on the addresses of its nodes for that: \<open>grid\<close> says which
  addresses it uses.
\<close>

definition on_grid :: "(u64 \<Rightarrow> bool) \<Rightarrow> drm_mm \<Rightarrow> mm_ref list \<Rightarrow> bool" where
  "on_grid grid mm ps \<longleftrightarrow> (\<forall>p \<in> set (MM_HEAD # ps). grid (mm_start mm p) \<and> grid (hole_node_start mm p))"

locale color_hook =
  fixes ca :: "color_fn option" and grid :: "u64 \<Rightarrow> bool"
  assumes shrinks: "\<lbrakk>mm_layout mm ps; on_grid grid mm ps; p \<in> set (MM_HEAD # ps); hole_node_start mm p < hole_node_end mm p\<rbrakk>
    \<Longrightarrow> color_shrinks ca mm color p"
begin

lemma holes_shrink:
  assumes inv: "mm_inv mm ps" and grid: "on_grid grid mm ps"
  shows "\<forall>p \<in> set (mm_holes mm ps). color_shrinks ca mm color p"
proof (rule ballI, rule shrinks [OF _ grid])
  fix p assume p: "p \<in> set (mm_holes mm ps)"
  show "mm_layout mm ps" using inv by (simp add: mm_inv_def)
  have "mm_hole_size mm p \<noteq> 0" and mem: "p \<in> set (MM_HEAD # ps)" using p by (auto simp: set_mm_holes drm_mm_hole_follows_def)
  then show "hole_node_start mm p < hole_node_end mm p"
    using inv_hole [OF inv mem] by (metis add.right_neutral add_left_cancel order.not_eq_order_implies_strict)
  show "p \<in> set (MM_HEAD # ps)" by (rule mem)
qed

end

interpretation no_color: color_hook None "\<lambda>_. True"
  by unfold_locales (simp add: color_shrinks_def color_adjust_def)

text \<open>The callback of the i915 driver keeps its contract on page boundaries, with pages of 4096 bytes.\<close>

definition page_aligned :: "u64 \<Rightarrow> bool" where
  "page_aligned a \<longleftrightarrow> 4096 dvd unat a"

lemma page_bounds:
  assumes "page_aligned s" and "page_aligned e" and "s < e"
  shows "s \<le> s + 4096" and "e - 4096 \<le> e"
proof -
  obtain i j where i: "unat s = 4096 * i" "unat e = 4096 * j" using assms(1,2) unfolding page_aligned_def by (elim dvdE) blast
  moreover have "unat s < unat e" using assms(3) by (simp add: word_less_nat_alt)
  ultimately have ij: "i < j" by simp
  have "unat e < 2 ^ 64" using unsigned_less [of e, where ?'a = nat] by simp
  with ij i have "unat s + unat (4096 :: u64) < 2 ^ LENGTH(64)" by simp
  then have "unat (s + 4096) = unat s + 4096" using unat_add_lem [of s 4096] by simp
  then show "s \<le> s + 4096" by (simp add: word_le_nat_alt)
  have "4096 \<le> e" using ij i by (simp add: word_le_nat_alt)
  then show "e - 4096 \<le> e" by (simp add: word_le_nat_alt unat_sub)
qed

interpretation ggtt_color: color_hook "Some i915_ggtt_color_adjust" page_aligned
proof
  fix mm ps p color
  assume lay: "mm_layout mm ps" and grid: "on_grid page_aligned mm ps" and p: "p \<in> set (MM_HEAD # ps)"
    and lt: "hole_node_start mm p < hole_node_end mm p"
  obtain cs ds where "MM_HEAD # ps = cs @ p # ds" using p by (metis split_list)
  then obtain as bs where ps: "MM_HEAD # as = cs @ [p]" "ps = as @ bs" by (cases cs) auto
  have "p = last (MM_HEAD # as)" using ps(1) by (metis last_snoc)
  then have "hole_node_end mm p = mm_start mm (hd (bs @ [MM_HEAD]))" using layout_gap(1) lay ps(2) by blast
  moreover have "hd (bs @ [MM_HEAD]) \<in> set (MM_HEAD # ps)" using ps(2) by (cases bs) auto
  ultimately have "page_aligned (hole_node_start mm p)" "page_aligned (hole_node_end mm p)" using grid p by (auto simp: on_grid_def)
  from page_bounds [OF this lt] show "color_shrinks (Some i915_ggtt_color_adjust) mm color p"
    by (simp add: color_shrinks_def color_adjust_def i915_ggtt_color_adjust_def Let_def)
qed

section \<open>Insertion on the level of addresses\<close>

context mm_library
begin

lemma insert_free_place:
  assumes inv: "mm_inv mm ps" and n: "n \<in> range MM_NODE" "n \<notin> set ps" "\<not> drm_mm_node_scanned_block mm n"
    and range: "rs \<le> re" and once: "mode AND DRM_MM_INSERT_ONCE = 0" and sz: "0 < sz"
  shows "if \<exists>a. free_place mm ps sz al rs re a
    then \<exists>a mm' as bs. drm_mm_insert_node_in_range lib None n sz al color rs re mode mm = Some (0, mm') \<and>
      free_place mm ps sz al rs re a \<and>
      (mode = DRM_MM_INSERT_LOW \<longrightarrow> (\<forall>b. free_place mm ps sz al rs re b \<longrightarrow> a \<le> b)) \<and>
      (mode = DRM_MM_INSERT_HIGH \<longrightarrow> (\<forall>b. free_place mm ps sz al rs re b \<longrightarrow> b \<le> a)) \<and>
      ps = as @ bs \<and> mm_inv mm' (as @ n # bs) \<and> mm_start mm' n = a \<and> mm_size mm' n = sz \<and> n_color (mm_nodes mm' n) = color \<and>
      (\<forall>q. q \<noteq> n \<longrightarrow> mm_start mm' q = mm_start mm q \<and> mm_size mm' q = mm_size mm q \<and> drm_mm_node_allocated mm' q = drm_mm_node_allocated mm q)
    else drm_mm_insert_node_in_range lib None n sz al color rs re mode mm = Some (neg_errno ENOSPC, mm)"
proof -
  note free = free_place_iff [OF inv sz, of al rs re _ color]
  have "mode = (mode AND DRM_MM_INSERT_ONCE) OR (mode AND NOT DRM_MM_INSERT_ONCE)" by (simp flip: bit.conj_disj_distrib)
  then have mode: "mode AND NOT DRM_MM_INSERT_ONCE = mode" using once by simp
  have shr: "\<forall>p \<in> set (mm_holes mm ps). color_shrinks None mm color p" by (simp add: color_shrinks_def color_adjust_def)
  show ?thesis
  proof (cases rule: insert_spec [OF inv n range shr, of sz al mode, case_names placed full])
    case (placed a as bs mm')
    then have "free_place mm ps sz al rs re a" using free by blast
    moreover have "mode = DRM_MM_INSERT_LOW \<longrightarrow> (\<forall>b. free_place mm ps sz al rs re b \<longrightarrow> a \<le> b)"
      "mode = DRM_MM_INSERT_HIGH \<longrightarrow> (\<forall>b. free_place mm ps sz al rs re b \<longrightarrow> b \<le> a)"
      using placed(10) unfolding mode free best_placed_def by (auto simp: insert_mode_defs)
    ultimately show ?thesis using placed by auto
  next
    case full
    then show ?thesis using free once sz by auto
  qed
qed

end

end
