(* ===== verification/DRM_MM_Reach.thy ===== *)
theory DRM_MM_Reach
  imports DRM_MM_Free
begin

text \<open>
  The range allocator under a driver: the states any sequence of calls reaches, and the properties of the allocator stated for its
  callers.
\<close>

section \<open>Driver calls\<close>

text \<open>
  A driver may write a node that is not in the allocator, reserve or insert it, and remove a node that is. It passes no
  inverted range, and uses sizes and alignments that keep its nodes on its grid of addresses.
\<close>

inductive mm_step :: "rb_family_lib \<Rightarrow> color_fn option \<Rightarrow> (u64 \<Rightarrow> bool) \<Rightarrow> drm_mm \<Rightarrow> drm_mm \<Rightarrow> bool"
  for lib ca grid where
  write_node: "\<not> drm_mm_node_allocated mm (MM_NODE k) \<Longrightarrow>
    mm_step lib ca grid mm (upd_node (MM_NODE k) (\<lambda>n. n\<lparr>n_start := a, n_size := sz, n_color := color\<rparr>) mm)"
| reserve: "\<lbrakk>\<not> drm_mm_node_allocated mm (MM_NODE k); grid (mm_start mm (MM_NODE k)); grid (hole_node_start mm (MM_NODE k));
    drm_mm_reserve_node lib ca (MM_NODE k) mm = Some (r, mm')\<rbrakk> \<Longrightarrow> mm_step lib ca grid mm mm'"
| insert: "\<lbrakk>\<not> drm_mm_node_allocated mm (MM_NODE k); rs \<le> re; \<forall>a. aligned al a \<longrightarrow> grid a; \<forall>a. grid a \<longrightarrow> grid (a + sz);
    drm_mm_insert_node_in_range lib ca (MM_NODE k) sz al color rs re mode mm = Some (r, mm')\<rbrakk> \<Longrightarrow> mm_step lib ca grid mm mm'"
| remove: "\<lbrakk>drm_mm_node_allocated mm (MM_NODE k); drm_mm_remove_node lib (MM_NODE k) mm = Some mm'\<rbrakk> \<Longrightarrow> mm_step lib ca grid mm mm'"

inductive mm_reachable :: "rb_family_lib \<Rightarrow> color_fn option \<Rightarrow> (u64 \<Rightarrow> bool) \<Rightarrow> drm_mm \<Rightarrow> bool"
  for lib ca grid where
  init: "\<lbrakk>\<forall>q. \<not> drm_mm_node_allocated mm q \<and> \<not> drm_mm_node_scanned_block mm q; grid start; grid (start + sz);
    drm_mm_init lib start sz mm = Some mm'\<rbrakk> \<Longrightarrow> mm_reachable lib ca grid mm'"
| step: "\<lbrakk>mm_reachable lib ca grid mm; mm_step lib ca grid mm mm'\<rbrakk> \<Longrightarrow> mm_reachable lib ca grid mm'"

inductive_cases mm_stepE: "mm_step lib ca grid mm mm'"

definition mm_good :: "(u64 \<Rightarrow> bool) \<Rightarrow> drm_mm \<Rightarrow> mm_ref list \<Rightarrow> bool" where
  "mm_good grid mm ps \<longleftrightarrow>
     mm_inv mm ps \<and> on_grid grid mm ps \<and> (\<forall>q. drm_mm_node_allocated mm q \<longleftrightarrow> q \<in> set ps) \<and>
     (\<forall>q. \<not> drm_mm_node_scanned_block mm q) \<and> scan_active mm = 0"

lemma mm_good_fresh:
  assumes "mm_good grid mm ps" and "\<not> drm_mm_node_allocated mm (MM_NODE k)"
  shows "MM_NODE k \<in> range MM_NODE" "MM_NODE k \<notin> set ps" "\<not> drm_mm_node_scanned_block mm (MM_NODE k)"
  using assms by (auto simp: mm_good_def)

locale mm_client = mm_library lib + color_hook ca grid
  for lib :: rb_family_lib and ca :: "color_fn option" and grid :: "u64 \<Rightarrow> bool"
begin

lemma step_good:
  assumes "mm_step lib ca grid mm mm'" and good: "mm_good grid mm ps"
  shows "\<exists>qs. mm_good grid mm' qs"
proof -
  have inv: "mm_inv mm ps" and og: "on_grid grid mm ps" and al: "\<forall>q. drm_mm_node_allocated mm q \<longleftrightarrow> q \<in> set ps"
    using good by (simp_all add: mm_good_def)
  note shr = holes_shrink [OF inv og]
  from assms(1) show ?thesis
  proof cases
    case (write_node k a sz color)
    have "mm_inv mm' ps" unfolding write_node(1) by (rule mm_inv_upd_node [OF inv]) (use write_node(2) al in auto)
    moreover have "on_grid grid mm' ps" unfolding write_node(1) using og write_node(2) al by (auto simp: on_grid_def node_defs)
    ultimately have "mm_good grid mm' ps" unfolding write_node(1) using good by (auto simp: mm_good_def node_defs)
    then show ?thesis by blast
  next
    case (reserve k r)
    note n = mm_good_fresh [OF good reserve(1)]
    show ?thesis
    proof (cases rule: reserve_spec [OF inv n shr, case_names placed full])
      case (placed as bs m)
      then have "mm_good grid m (as @ MM_NODE k # bs)"
        using good reserve(2,3) by (auto simp: mm_good_def on_grid_def same_blocks_starts) (simp add: same_blocks_def)
      with placed(1) reserve(4) show ?thesis by auto
    next
      case full
      with reserve(4) good show ?thesis by auto
    qed
  next
    case (insert k rs re al sz color mode r)
    note n = mm_good_fresh [OF good insert(1)]
    show ?thesis
    proof (cases rule: insert_spec [OF inv n insert(2) shr,
          where sz = sz and al = al and mode = mode and color = color, case_names placed full])
      case (placed a as bs m)
      have "color_shrinks ca mm color (last (MM_HEAD # as))" using shr placed(8) by blast
      then have "aligned al a" by (rule hole_fits_inside(5) [OF placed(9)])
      then have g: "grid (mm_start m (MM_NODE k))" "grid (hole_node_start m (MM_NODE k))"
        using insert(3,4) placed(4,5) by (auto simp: hole_node_start_def)
      have "grid (mm_start m q) \<and> grid (hole_node_start m q)" if "q \<in> set (MM_HEAD # ps)" for q
      proof -
        have "q \<noteq> MM_NODE k" using that n(2) by auto
        then have "mm_start m q = mm_start mm q" "mm_size m q = mm_size mm q" using placed(11) by blast+
        with og that show ?thesis by (auto simp: on_grid_def hole_node_start_def)
      qed
      with g have "on_grid grid m (as @ MM_NODE k # bs)" using placed(2) by (auto simp: on_grid_def)
      moreover have "drm_mm_node_allocated m q \<longleftrightarrow> q \<in> set (as @ MM_NODE k # bs)" "\<not> drm_mm_node_scanned_block m q" for q
        using good placed(2,3,11) by (cases "q = MM_NODE k"; auto simp: mm_good_def mm_inv_def mm_layout_def)+
      ultimately have "mm_good grid m (as @ MM_NODE k # bs)" using good placed(3,12) by (simp add: mm_good_def)
      with placed(1) insert(5) show ?thesis by auto
    next
      case full
      with insert(5) good show ?thesis by auto
    qed
  next
    case (remove k)
    then obtain as bs where ps: "ps = as @ MM_NODE k # bs" using al by (metis split_list)
    obtain m where m: "drm_mm_remove_node lib (MM_NODE k) mm = Some m" "mm_inv m (as @ bs)" "same_blocks mm m"
      "\<And>q. drm_mm_node_allocated m q \<longleftrightarrow> drm_mm_node_allocated mm q \<and> q \<noteq> MM_NODE k" "scan_active m = scan_active mm"
      using remove_node_spec [OF inv [unfolded ps]] by blast
    have "MM_NODE k \<notin> set (as @ bs)" using inv ps by (auto simp: mm_inv_def mm_layout_def ring_def)
    then have "mm_good grid m (as @ bs)"
      using good m ps by (auto simp: mm_good_def on_grid_def same_blocks_starts) (simp add: same_blocks_def)
    with m(1) remove(2) show ?thesis by auto
  qed
qed

lemma reachable_good: "mm_reachable lib ca grid mm \<Longrightarrow> \<exists>ps. mm_good grid mm ps"
proof (induction rule: mm_reachable.induct)
  case (init mm start sz mm')
  then have lt: "start < start + sz" by (auto simp: drm_mm_init_def split: if_splits)
  obtain m where m: "drm_mm_init lib start sz mm = Some m" "mm_inv m []" "hole_node_start m MM_HEAD = start" "mm_start m MM_HEAD = start + sz"
    "scan_active m = 0" "\<And>q. q \<noteq> MM_HEAD \<Longrightarrow> mm_nodes m q = mm_nodes mm q"
    "\<not> drm_mm_node_scanned_block m MM_HEAD"
    using init_spec [OF lt] by blast
  then have "\<not> drm_mm_node_allocated m MM_HEAD" by (simp add: mm_inv_def mm_layout_def)
  then have "\<not> drm_mm_node_allocated m q \<and> \<not> drm_mm_node_scanned_block m q" for q
    using m(6,7) init(1) by (cases "q = MM_HEAD") (auto simp: drm_mm_node_allocated_def drm_mm_node_scanned_block_def)
  then have "mm_good grid m []" using m init(2,3) by (simp add: mm_good_def on_grid_def)
  with m(1) init(4) show ?case by auto
next
  case (step mm mm')
  then show ?case using step_good by blast
qed

lemma good_calls_return:
  assumes good: "mm_good grid mm ps"
  shows "drm_mm_node_allocated mm (MM_NODE k) \<Longrightarrow> drm_mm_remove_node lib (MM_NODE k) mm \<noteq> None"
    and "\<not> drm_mm_node_allocated mm (MM_NODE k) \<Longrightarrow> drm_mm_reserve_node lib ca (MM_NODE k) mm \<noteq> None"
    and "\<not> drm_mm_node_allocated mm (MM_NODE k) \<Longrightarrow> rs \<le> re \<Longrightarrow>
      drm_mm_insert_node_in_range lib ca (MM_NODE k) sz al color rs re mode mm \<noteq> None"
proof -
  have inv: "mm_inv mm ps" and og: "on_grid grid mm ps" using good by (simp_all add: mm_good_def)
  note shr = holes_shrink [OF inv og]
  show "drm_mm_remove_node lib (MM_NODE k) mm \<noteq> None" if al: "drm_mm_node_allocated mm (MM_NODE k)"
  proof -
    obtain as bs where "ps = as @ MM_NODE k # bs" using good al by (auto simp: mm_good_def dest: split_list)
    with remove_node_spec [of mm as "MM_NODE k" bs] inv show ?thesis by (metis option.distinct(1))
  qed
  assume n: "\<not> drm_mm_node_allocated mm (MM_NODE k)"
  show "drm_mm_reserve_node lib ca (MM_NODE k) mm \<noteq> None"
    by (rule reserve_spec [OF inv mm_good_fresh [OF good n] shr]) auto
  show "drm_mm_insert_node_in_range lib ca (MM_NODE k) sz al color rs re mode mm \<noteq> None" if "rs \<le> re"
    by (rule insert_spec [OF inv mm_good_fresh [OF good n] that shr, where sz = sz and al = al and color = color and mode = mode]) auto
qed

end

interpretation plain_mm: mm_library "plain_lib :: rb_family_lib"
  by unfold_locales

interpretation plain_client: mm_client "plain_lib :: rb_family_lib" None "\<lambda>_. True"
  by unfold_locales

interpretation ggtt_client: mm_client "plain_lib :: rb_family_lib" "Some i915_ggtt_color_adjust" page_aligned
  by unfold_locales

lemma mm_clientI: "rb_family lib \<Longrightarrow> color_hook ca grid \<Longrightarrow> mm_client lib ca grid"
  by (simp add: mm_client_def mm_library_def)

text \<open>A cleared allocator, with nodes that are all cleared.\<close>

definition mm_zero :: drm_mm where
  "mm_zero =
     \<lparr>mm_nodes = (\<lambda>_. \<lparr>n_color = 0, n_start = 0, n_size = 0, n_hole_size = 0, n_allocated = False, n_scanned = False\<rparr>),
      node_list = (\<lambda>_. \<lparr>list_next = MM_NULL, list_prev = MM_NULL\<rparr>), hole_stack = [], interval_tree = RB_ROOT_CACHED,
      holes_size = RB_ROOT_CACHED, holes_addr = Leaf, scan_active = 0\<rparr>"

lemma mm_zero_clear: "\<not> drm_mm_node_allocated mm_zero q" "\<not> drm_mm_node_scanned_block mm_zero q"
  by (simp_all add: mm_zero_def drm_mm_node_allocated_def drm_mm_node_scanned_block_def)

section \<open>Properties\<close>

text \<open>
  C3. No sequence of driver calls breaks the allocator: in every reachable state the allocated nodes are disjoint ranges inside the managed range in
  the order of the node list, the recorded holes are the gaps between them, and the trees agree. Every further call returns: it
  follows no null pointer, ends its search, and fires none of the checks of \<open>DRM_MM_BUG_ON\<close>.
\<close>

theorem mm_reachable_safe:
  assumes "rb_family lib" and "color_hook ca grid" and "mm_reachable lib ca grid mm"
  shows "\<exists>ps. mm_inv mm ps \<and> (\<forall>q. drm_mm_node_allocated mm q \<longleftrightarrow> q \<in> set ps) \<and>
    (\<forall>k. drm_mm_node_allocated mm (MM_NODE k) \<longrightarrow> drm_mm_remove_node lib (MM_NODE k) mm \<noteq> None) \<and>
    (\<forall>k. \<not> drm_mm_node_allocated mm (MM_NODE k) \<longrightarrow>
       drm_mm_reserve_node lib ca (MM_NODE k) mm \<noteq> None \<and>
       (\<forall>sz al color rs re mode. rs \<le> re \<longrightarrow>
          drm_mm_insert_node_in_range lib ca (MM_NODE k) sz al color rs re mode mm \<noteq> None))"
proof -
  note client = mm_clientI [OF assms(1,2)]
  obtain ps where good: "mm_good grid mm ps" using mm_client.reachable_good [OF client assms(3)] by blast
  with mm_client.good_calls_return [OF client good] show ?thesis by (auto simp: mm_good_def)
qed

theorem mm_reachable_safe_witness:
  "\<exists>mm. drm_mm_init plain_lib 0x1000 0x10000 mm_zero = Some mm \<and>
    mm_reachable plain_lib (Some i915_ggtt_color_adjust) page_aligned mm \<and>
    (\<exists>ps. mm_inv mm ps) \<and>
    drm_mm_insert_node_in_range plain_lib (Some i915_ggtt_color_adjust) (MM_NODE 1) 0x1000 0x1000 0 0 (- 1) 0 mm \<noteq> None"
proof -
  obtain mm where mm: "drm_mm_init plain_lib 0x1000 0x10000 mm_zero = Some mm" "\<And>q. q \<noteq> MM_HEAD \<Longrightarrow> mm_nodes mm q = mm_nodes mm_zero q"
    by (rule plain_mm.init_spec [of "0x1000" "0x10000" mm_zero]) auto
  have r: "mm_reachable plain_lib (Some i915_ggtt_color_adjust) page_aligned mm"
    by (rule mm_reachable.init [OF _ _ _ mm(1)]) (auto simp: mm_zero_clear page_aligned_def)
  have free: "\<not> drm_mm_node_allocated mm (MM_NODE 1)" using mm(2) mm_zero_clear(1) by (simp add: drm_mm_node_allocated_def)
  from mm_reachable_safe [OF plain_family.rb_family_axioms ggtt_color.color_hook_axioms r] free mm(1) r show ?thesis by auto
qed

text \<open>
  C4. Insertion without a color callback and without \<open>DRM_MM_INSERT_ONCE\<close>, on the level of addresses: it fails with \<open>-ENOSPC\<close>, and changes nothing,
  exactly if no aligned free space of the size is left in the range. Otherwise the node gets such a space, the lowest one in the mode
  \<open>DRM_MM_INSERT_LOW\<close> and the highest one in the mode \<open>DRM_MM_INSERT_HIGH\<close>, and no other node changes.
\<close>

theorem insert_in_range_correct:
  assumes "rb_family lib" and "mm_inv mm ps" and "n \<in> range MM_NODE" "n \<notin> set ps" "\<not> drm_mm_node_scanned_block mm n"
    and "rs \<le> re" and "mode AND DRM_MM_INSERT_ONCE = 0" and "0 < sz"
  shows "if \<exists>a. free_place mm ps sz al rs re a
    then \<exists>a mm' as bs. drm_mm_insert_node_in_range lib None n sz al color rs re mode mm = Some (0, mm') \<and>
      free_place mm ps sz al rs re a \<and>
      (mode = DRM_MM_INSERT_LOW \<longrightarrow> (\<forall>b. free_place mm ps sz al rs re b \<longrightarrow> a \<le> b)) \<and>
      (mode = DRM_MM_INSERT_HIGH \<longrightarrow> (\<forall>b. free_place mm ps sz al rs re b \<longrightarrow> b \<le> a)) \<and>
      ps = as @ bs \<and> mm_inv mm' (as @ n # bs) \<and> mm_start mm' n = a \<and> mm_size mm' n = sz \<and> n_color (mm_nodes mm' n) = color \<and>
      (\<forall>q. q \<noteq> n \<longrightarrow> mm_start mm' q = mm_start mm q \<and> mm_size mm' q = mm_size mm q \<and> drm_mm_node_allocated mm' q = drm_mm_node_allocated mm q)
    else drm_mm_insert_node_in_range lib None n sz al color rs re mode mm = Some (neg_errno ENOSPC, mm)"
  using assms by (intro mm_library.insert_free_place) (simp_all add: mm_library_def)

theorem insert_in_range_correct_witness:
  "\<exists>mm mm'. drm_mm_init plain_lib 0x1000 0x10000 mm_zero = Some mm \<and>
    drm_mm_insert_node_in_range plain_lib None (MM_NODE 1) 0x800 0x1000 7 0x1001 0xffff DRM_MM_INSERT_LOW mm = Some (0, mm') \<and>
    mm_start mm' (MM_NODE 1) = 0x2000"
proof -
  obtain mm where mm: "drm_mm_init plain_lib 0x1000 0x10000 mm_zero = Some mm" "mm_inv mm []"
      "hole_node_start mm MM_HEAD = 0x1000" "mm_start mm MM_HEAD = 0x11000" "\<And>q. q \<noteq> MM_HEAD \<Longrightarrow> mm_nodes mm q = mm_nodes mm_zero q"
    by (rule plain_mm.init_spec [of "0x1000" "0x10000" mm_zero]) auto
  have ns: "\<not> drm_mm_node_scanned_block mm (MM_NODE 1)" using mm(5) mm_zero_clear(2) by (simp add: drm_mm_node_scanned_block_def)
  have free: "free_place mm [] 0x800 0x1000 0x1001 0xffff a \<longleftrightarrow> 0x1001 \<le> a \<and> unat a + 0x800 \<le> 0xffff \<and> aligned 0x1000 a" for a
    using mm(3,4) by (simp add: free_place_def block_ok_def)
  then have f: "free_place mm [] 0x800 0x1000 0x1001 0xffff 0x2000" by (simp add: aligned_def)
  then have ex: "\<exists>a. free_place mm [] 0x800 0x1000 0x1001 0xffff a" by blast
  have node: "MM_NODE 1 \<in> range MM_NODE" "MM_NODE 1 \<notin> set []" "(0x1001 :: u64) \<le> 0xffff" "(0 :: u64) < 0x800"
    "DRM_MM_INSERT_LOW AND DRM_MM_INSERT_ONCE = 0" by (simp_all add: insert_mode_defs)
  note ins = insert_in_range_correct [OF plain_family.rb_family_axioms mm(2) node(1,2) ns node(3,5,4), of "0x1000" 7]
  from ins [unfolded if_P [OF ex]]
  obtain a mm' where a: "drm_mm_insert_node_in_range plain_lib None (MM_NODE 1) 0x800 0x1000 7 0x1001 0xffff DRM_MM_INSERT_LOW mm = Some (0, mm')"
    "free_place mm [] 0x800 0x1000 0x1001 0xffff a" "mm_start mm' (MM_NODE 1) = a"
    "DRM_MM_INSERT_LOW = DRM_MM_INSERT_LOW \<longrightarrow> (\<forall>b. free_place mm [] 0x800 0x1000 0x1001 0xffff b \<longrightarrow> a \<le> b)"
    by (elim exE conjE)
  have le: "a \<le> 0x2000" by (rule a(4) [rule_format, OF refl f])
  have "4096 dvd unat a" "4097 \<le> unat a" "unat a \<le> 8192"
    using a(2) le free by (auto simp: aligned_def unat_mod_zero_iff word_le_nat_alt)
  then obtain k where "unat a = 4096 * k" "4097 \<le> 4096 * k" "4096 * k \<le> 8192" by (metis dvdE)
  moreover from this have "\<not> k \<le> 1" "k \<le> 2" by linarith+
  ultimately have "unat a = 8192" by (simp add: le_less_Suc_eq not_le)
  then have "a = 0x2000" by (simp add: word_unat_eq_iff)
  with mm(1) a(1,3) show ?thesis by auto
qed

text \<open>
  C14. Reservation of a fixed range without a color callback: it succeeds exactly if the node's range is free. Then the node is
  allocated there and no other node changes; otherwise the result is \<open>-ENOSPC\<close> and nothing changes.
\<close>

theorem reserve_node_exact:
  assumes lib: "rb_family lib" and inv: "mm_inv mm ps" and n: "n \<in> range MM_NODE" "n \<notin> set ps" "\<not> drm_mm_node_scanned_block mm n"
  shows "if 0 < mm_size mm n \<and> free_place mm ps (mm_size mm n) 0 0 (- 1) (mm_start mm n)
    then \<exists>mm' as bs. drm_mm_reserve_node lib None n mm = Some (0, mm') \<and> ps = as @ bs \<and> mm_inv mm' (as @ n # bs) \<and> same_blocks mm mm'
    else drm_mm_reserve_node lib None n mm = Some (neg_errno ENOSPC, mm)"
proof -
  have ml: "mm_library lib" using lib by (simp add: mm_library_def)
  have shr: "\<forall>p \<in> set (mm_holes mm ps). color_shrinks None mm color p" for color by (simp add: color_shrinks_def color_adjust_def)
  let ?in = "\<lambda>p. hole_node_start mm p \<le> mm_start mm n \<and> unat (mm_start mm n) + unat (mm_size mm n) \<le> unat (hole_node_end mm p)"
  have free: "free_place mm ps (mm_size mm n) 0 0 (- 1) (mm_start mm n) \<longleftrightarrow> (\<exists>p \<in> set (mm_holes mm ps). ?in p)" if "0 < mm_size mm n"
  proof -
    have "hole_fits None mm (mm_size mm n) 0 0 0 (- 1) p (mm_start mm n) \<longleftrightarrow> ?in p" for p
      by (simp add: hole_fits_def color_adjust_def block_ok_def aligned_def)
    then show ?thesis unfolding free_place_iff [OF inv that, of _ _ _ _ 0] by blast
  qed
  show ?thesis
  proof (cases rule: mm_library.reserve_spec [OF ml inv n shr, case_names placed full])
    case (placed as bs mm')
    then show ?thesis using free by (auto simp: color_adjust_def)
  next
    case full
    then show ?thesis using free by (auto simp: color_adjust_def word_gt_0)
  qed
qed

theorem reserve_node_exact_witness:
  "\<exists>mm mm'. drm_mm_init plain_lib 0x1000 0x10000 mm_zero = Some mm \<and>
    drm_mm_reserve_node plain_lib None (MM_NODE 1)
      (upd_node (MM_NODE 1) (\<lambda>n. n\<lparr>n_start := 0x3000, n_size := 0x800\<rparr>) mm) = Some (0, mm')"
proof -
  obtain mm where mm: "drm_mm_init plain_lib 0x1000 0x10000 mm_zero = Some mm" "mm_inv mm []"
      "hole_node_start mm MM_HEAD = 0x1000" "mm_start mm MM_HEAD = 0x11000" "\<And>q. q \<noteq> MM_HEAD \<Longrightarrow> mm_nodes mm q = mm_nodes mm_zero q"
    by (rule plain_mm.init_spec [of "0x1000" "0x10000" mm_zero]) auto
  let ?mm = "upd_node (MM_NODE 1) (\<lambda>n. n\<lparr>n_start := 0x3000, n_size := 0x800\<rparr>) mm"
  have inv: "mm_inv ?mm []" by (rule mm_inv_upd_node [OF mm(2)]) simp
  have ns: "\<not> drm_mm_node_scanned_block ?mm (MM_NODE 1)" using mm(5) mm_zero_clear(2) by (simp add: node_defs)
  have "free_place ?mm [] (mm_size ?mm (MM_NODE 1)) 0 0 (- 1) (mm_start ?mm (MM_NODE 1))"
  proof -
    have "hole_node_start ?mm MM_HEAD = 0x1000" "mm_start ?mm MM_HEAD = 0x11000" using mm(3,4) by (simp_all add: hole_node_start_def upd_node_def)
    then show ?thesis unfolding free_place_def by (simp add: block_ok_def aligned_def upd_node_def)
  qed
  with reserve_node_exact [OF plain_family.rb_family_axioms inv _ _ ns] mm(1) show ?thesis by (auto simp: upd_node_def)
qed

section \<open>Removal and printing\<close>

text \<open>The list of nodes determines the holes.\<close>

lemma ring_next_in:
  assumes "ring L h ps" and "q \<in> set (h # ps)"
  shows "list_next (L q) \<in> set (h # ps)" and "ring M h ps \<Longrightarrow> list_next (M q) = list_next (L q)"
proof -
  have "\<exists>x \<in> set (h # ps). \<forall>L. ring L h ps \<longrightarrow> list_next (L q) = x"
  proof (cases "q = h")
    case True
    then show ?thesis using ring_next_head by (cases ps) fastforce+
  next
    case False
    then obtain as bs where "ps = as @ q # bs" using assms(2) by (auto dest: split_list)
    then show ?thesis using ring_next by (cases bs) fastforce+
  qed
  with assms(1) show "list_next (L q) \<in> set (h # ps)" "ring M h ps \<Longrightarrow> list_next (M q) = list_next (L q)" by auto
qed

lemma holes_determined:
  assumes inv: "mm_inv mm ps" "mm_inv mm' ps"
    and eq: "\<And>q. q \<in> set (MM_HEAD # ps) \<Longrightarrow> mm_start mm' q = mm_start mm q \<and> mm_size mm' q = mm_size mm q"
  shows "q \<in> set (MM_HEAD # ps) \<Longrightarrow> mm_hole_size mm' q = mm_hole_size mm q" and "mm_holes mm' ps = mm_holes mm ps"
proof -
  have hs: "mm_hole_size mm' q = mm_hole_size mm q" if "q \<in> set (MM_HEAD # ps)" for q
  proof -
    have "ring (node_list mm) MM_HEAD ps" "ring (node_list mm') MM_HEAD ps" using inv by (simp_all add: mm_inv_def mm_layout_def)
    from ring_next_in(1) [OF this(1) that] ring_next_in(2) [OF this(1) that this(2)]
    have "hole_node_end mm' q = hole_node_end mm q" using eq by (simp add: hole_node_end_def)
    moreover have "hole_node_start mm' q = hole_node_start mm q" using eq [OF that] by (simp add: hole_node_start_def)
    moreover have "mm_gaps mm ps" "mm_gaps mm' ps" using inv by (simp_all add: mm_inv_def)
    ultimately show ?thesis using that unfolding mm_gaps_def by metis
  qed
  then show "q \<in> set (MM_HEAD # ps) \<Longrightarrow> mm_hole_size mm' q = mm_hole_size mm q" .
  show "mm_holes mm' ps = mm_holes mm ps" unfolding mm_holes_def
    by (rule filter_cong) (use hs in \<open>auto simp: drm_mm_hole_follows_def\<close>)
qed

text \<open>
  C15. Removal undoes insertion: after a successful insertion, whatever the mode and the color callback, the node can be removed, and the
  allocator has the nodes, the holes and their sizes it had before.
\<close>

theorem insert_remove_roundtrip:
  assumes lib: "rb_family lib" and inv: "mm_inv mm ps" and n: "n \<in> range MM_NODE" "n \<notin> set ps" "\<not> drm_mm_node_scanned_block mm n"
    and shr: "\<forall>p \<in> set (mm_holes mm ps). color_shrinks ca mm color p" and range: "rs \<le> re"
    and ins: "drm_mm_insert_node_in_range lib ca n sz al color rs re mode mm = Some (0, mm1)"
  shows "\<exists>mm2. drm_mm_remove_node lib n mm1 = Some mm2 \<and> mm_inv mm2 ps \<and> mm_holes mm2 ps = mm_holes mm ps \<and>
    (\<forall>q \<in> set (MM_HEAD # ps). mm_start mm2 q = mm_start mm q \<and> mm_size mm2 q = mm_size mm q \<and> mm_hole_size mm2 q = mm_hole_size mm q)"
proof -
  have ml: "mm_library lib" using lib by (simp add: mm_library_def)
  show ?thesis
  proof (cases rule: mm_library.insert_spec [OF ml inv n range shr, where sz = sz and al = al and mode = mode, case_names placed full])
    case (placed a as bs m)
    then have m: "m = mm1" "mm_inv mm1 (as @ n # bs)" using ins by auto
    obtain mm2 where mm2: "drm_mm_remove_node lib n mm1 = Some mm2" "mm_inv mm2 (as @ bs)" "same_blocks mm1 mm2"
      using mm_library.remove_node_spec [OF ml m(2)] by blast
    have eq: "mm_start mm2 q = mm_start mm q \<and> mm_size mm2 q = mm_size mm q" if "q \<in> set (MM_HEAD # ps)" for q
    proof -
      have "q \<noteq> n" using that n by auto
      with placed(11) m(1) mm2(3) show ?thesis by (simp add: same_blocks_def)
    qed
    have inv2: "mm_inv mm2 ps" using mm2(2) placed(2) by simp
    from holes_determined [OF inv inv2 eq] eq inv2 mm2(1) show ?thesis by blast
  next
    case full
    with ins show ?thesis by simp
  qed
qed

theorem insert_remove_roundtrip_witness:
  "\<exists>mm mm1 mm2. drm_mm_init plain_lib 0x1000 0x10000 mm_zero = Some mm \<and>
    drm_mm_insert_node_in_range plain_lib None (MM_NODE 1) 0x800 0 0 0 (- 1) DRM_MM_INSERT_HIGH mm = Some (0, mm1) \<and>
    drm_mm_remove_node plain_lib (MM_NODE 1) mm1 = Some mm2 \<and> mm_holes mm2 [] = mm_holes mm []"
proof -
  obtain mm where mm: "drm_mm_init plain_lib 0x1000 0x10000 mm_zero = Some mm" "mm_inv mm []"
      "hole_node_start mm MM_HEAD = 0x1000" "mm_start mm MM_HEAD = 0x11000" "\<And>q. q \<noteq> MM_HEAD \<Longrightarrow> mm_nodes mm q = mm_nodes mm_zero q"
    by (rule plain_mm.init_spec [of "0x1000" "0x10000" mm_zero]) auto
  have ns: "\<not> drm_mm_node_scanned_block mm (MM_NODE 1)" using mm(5) mm_zero_clear(2) by (simp add: drm_mm_node_scanned_block_def)
  have shr: "\<forall>p \<in> set (mm_holes mm []). color_shrinks None mm 0 p" by (simp add: color_shrinks_def color_adjust_def)
  have "free_place mm [] 0x800 0 0 (- 1) 0x1000" using mm(3,4) by (simp add: free_place_def block_ok_def aligned_def)
  then have "\<exists>a. free_place mm [] 0x800 0 0 (- 1) a" by blast
  with plain_mm.insert_free_place [OF mm(2) _ _ ns, of 0 "- 1" DRM_MM_INSERT_HIGH "0x800" 0 0]
  obtain mm1 where "drm_mm_insert_node_in_range plain_lib None (MM_NODE 1) 0x800 0 0 0 (- 1) DRM_MM_INSERT_HIGH mm = Some (0, mm1)"
    by (auto simp: insert_mode_defs)
  with insert_remove_roundtrip [OF plain_family.rb_family_axioms mm(2) _ _ ns shr _ this] mm(1) show ?thesis by auto
qed

text \<open>
  The lookup by address: \<open>__drm_mm_interval_first\<close> returns the first node in address order that meets the range, and the head node if
  there is none. It follows no null pointer.
\<close>

theorem interval_first_spec:
  assumes "mm_inv mm ps"
  shows "drm_mm_interval_first mm start stop =
    Some (case find (\<lambda>p. mm_start mm p \<le> stop \<and> start \<le> mm_last mm p) ps of None \<Rightarrow> MM_HEAD | Some p \<Rightarrow> p)"
proof -
  have it: "it_inv (mm_start mm) (mm_last mm) (interval_tree mm)" "inorder (rb_root (interval_tree mm)) = ps"
    using assms by (simp_all add: mm_inv_def)
  have "intersects (mm_start mm) (mm_last mm) start stop = (\<lambda>p. mm_start mm p \<le> stop \<and> start \<le> mm_last mm p)"
    by (auto simp: intersects_def)
  with it_iter_first_correct [OF it(1), of start stop] it(2) show ?thesis
    by (cases "find (\<lambda>p. mm_start mm p \<le> stop \<and> start \<le> mm_last mm p) ps") (auto simp: drm_mm_interval_first_def)
qed

theorem interval_first_spec_witness:
  "\<exists>mm. drm_mm_init plain_lib 0x1000 0x10000 mm_zero = Some mm \<and> drm_mm_interval_first mm 0 (- 1) = Some MM_HEAD"
proof -
  obtain mm where "drm_mm_init plain_lib 0x1000 0x10000 mm_zero = Some mm" "mm_inv mm []"
    by (rule plain_mm.init_spec [of "0x1000" "0x10000" mm_zero]) auto
  with interval_first_spec [of mm "[]" 0 "- 1"] show ?thesis by auto
qed

lemma print_nodes_spec:
  assumes "ring (node_list mm) MM_HEAD (as @ bs)"
  shows "\<exists>out'. print_nodes mm (hd (bs @ [MM_HEAD])) out u f =
    Some (out @ out', u + sum_list (map (mm_size mm) bs), f + sum_list (map (mm_hole_size mm) bs))"
  using assms
proof (induction bs arbitrary: as out u f)
  case Nil
  then show ?case by (simp add: print_nodes.simps)
next
  case (Cons b bs)
  have "b \<noteq> MM_HEAD" using Cons.prems by (auto simp: ring_def)
  moreover have "list_next (node_list mm b) = hd (bs @ [MM_HEAD])" by (rule ring_next [OF Cons.prems])
  moreover obtain fr where "drm_mm_dump_hole mm b = (fr, mm_hole_size mm b)" by (simp add: drm_mm_dump_hole_def Let_def)
  ultimately have "print_nodes mm (hd ((b # bs) @ [MM_HEAD])) out u f =
      print_nodes mm (hd (bs @ [MM_HEAD])) (out @ UsedLine (mm_start mm b) (mm_start mm b + mm_size mm b) (mm_size mm b) # fr)
        (u + mm_size mm b) (f + mm_hole_size mm b)"
    by (subst print_nodes.simps) simp
  moreover have ring: "ring (node_list mm) MM_HEAD ((as @ [b]) @ bs)" using Cons.prems by simp
  obtain out' where "print_nodes mm (hd (bs @ [MM_HEAD])) (out @ UsedLine (mm_start mm b) (mm_start mm b + mm_size mm b) (mm_size mm b) # fr)
        (u + mm_size mm b) (f + mm_hole_size mm b) =
      Some ((out @ UsedLine (mm_start mm b) (mm_start mm b + mm_size mm b) (mm_size mm b) # fr) @ out',
        u + mm_size mm b + sum_list (map (mm_size mm) bs), f + mm_hole_size mm b + sum_list (map (mm_hole_size mm) bs))"
    using Cons.IH [OF ring] by blast
  ultimately show ?case by (simp add: add.assoc)
qed

lemma word_telescope:
  fixes h :: "'a :: len word"
  assumes "h = b - e" and "k + s + t = q - (b + z)"
  shows "h + (z + s) + (k + t) = q - e"
proof -
  have "h + (z + s) + (k + t) = h + z + (k + s + t)" by simp
  then show ?thesis by (simp add: assms)
qed

lemma gaps_telescope:
  assumes "mm_layout mm (as @ bs)" and "mm_gaps mm (as @ bs)" and "h = last (MM_HEAD # as)"
  shows "mm_hole_size mm h + sum_list (map (mm_size mm) bs) + sum_list (map (mm_hole_size mm) bs) = mm_start mm MM_HEAD - hole_node_start mm h"
  using assms
proof (induction bs arbitrary: as h)
  case Nil
  have "h \<in> set (MM_HEAD # as)" using Nil.prems(3) last_in_set [of "MM_HEAD # as"] by simp
  with Nil layout_gap(1) [OF Nil.prems(1,3)] show ?case by (auto simp: mm_gaps_def)
next
  case (Cons b bs)
  have "h \<in> set (MM_HEAD # as @ b # bs)" using Cons.prems(3) last_in_set [of "MM_HEAD # as"] by auto
  then have "mm_hole_size mm h = mm_start mm b - hole_node_start mm h"
    using Cons.prems(2) layout_gap(1) [OF Cons.prems(1,3)] by (auto simp: mm_gaps_def)
  moreover have "mm_hole_size mm b + sum_list (map (mm_size mm) bs) + sum_list (map (mm_hole_size mm) bs) = mm_start mm MM_HEAD - hole_node_start mm b"
    using Cons.IH [of "as @ [b]" b] Cons.prems by simp
  moreover have "hole_node_start mm b = mm_start mm b + mm_size mm b" by (simp add: hole_node_start_def)
  ultimately have "mm_hole_size mm h + (mm_size mm b + sum_list (map (mm_size mm) bs)) +
      (mm_hole_size mm b + sum_list (map (mm_hole_size mm) bs)) = mm_start mm MM_HEAD - hole_node_start mm h"
    by (intro word_telescope) simp_all
  then show ?case by simp
qed

text \<open>
  The dump of the allocator ends, and its totals are right: the used space is the sum of the sizes of the nodes, and used and free
  space add up to the managed range.
\<close>

theorem print_totals:
  assumes "mm_inv mm ps"
  shows "\<exists>out used free. drm_mm_print mm = Some (out @ [TotalLine (mm_start mm MM_HEAD - hole_node_start mm MM_HEAD) used free]) \<and>
    used = sum_list (map (mm_size mm) ps) \<and> used + free = mm_start mm MM_HEAD - hole_node_start mm MM_HEAD"
proof -
  have lay: "mm_layout mm ([] @ ps)" "mm_gaps mm ([] @ ps)" using assms by (simp_all add: mm_inv_def)
  then have ring: "ring (node_list mm) MM_HEAD ([] @ ps)" by (simp add: mm_layout_def)
  obtain fr where fr: "drm_mm_dump_hole mm MM_HEAD = (fr, mm_hole_size mm MM_HEAD)" by (simp add: drm_mm_dump_hole_def Let_def)
  from print_nodes_spec [OF ring, of fr 0 "mm_hole_size mm MM_HEAD"] ring_next_head [of "node_list mm" MM_HEAD ps] ring
  obtain out where "print_nodes mm (list_next (node_list mm MM_HEAD)) fr 0 (mm_hole_size mm MM_HEAD) =
      Some (fr @ out, sum_list (map (mm_size mm) ps), mm_hole_size mm MM_HEAD + sum_list (map (mm_hole_size mm) ps))" by auto
  then have "drm_mm_print mm = Some ((fr @ out) @ [TotalLine
      (mm_hole_size mm MM_HEAD + sum_list (map (mm_hole_size mm) ps) + sum_list (map (mm_size mm) ps))
      (sum_list (map (mm_size mm) ps)) (mm_hole_size mm MM_HEAD + sum_list (map (mm_hole_size mm) ps))])"
    by (simp add: drm_mm_print_def fr)
  moreover have "mm_hole_size mm MM_HEAD + sum_list (map (mm_hole_size mm) ps) + sum_list (map (mm_size mm) ps) =
      mm_start mm MM_HEAD - hole_node_start mm MM_HEAD"
    using gaps_telescope [OF lay, of MM_HEAD] by (simp add: ac_simps)
  ultimately show ?thesis by (metis add.commute)
qed

theorem print_totals_witness:
  "\<exists>mm. drm_mm_init plain_lib 0x1000 0x10000 mm_zero = Some mm \<and>
    (\<exists>out free. drm_mm_print mm = Some (out @ [TotalLine 0x10000 0 free]) \<and> free = 0x10000)"
proof -
  obtain mm where "drm_mm_init plain_lib 0x1000 0x10000 mm_zero = Some mm" "mm_inv mm []"
      "hole_node_start mm MM_HEAD = 0x1000" "mm_start mm MM_HEAD = 0x11000"
    by (rule plain_mm.init_spec [of "0x1000" "0x10000" mm_zero]) auto
  with print_totals [of mm "[]"] show ?thesis by auto
qed

end
