(* ===== verification/DRM_MM_Scan.thy ===== *)
theory DRM_MM_Scan
  imports DRM_MM_Reach
begin

text \<open>
  The eviction scan of the range allocator. A driver that finds no room takes nodes out of the node list one by one until
  a gap is large enough, puts them back in reverse order, evicts the ones that overlap the gap found, and inserts its node. The
  list pointers of a node that was taken out stay as they are, and putting it back restores the list exactly. In the locale
  \<open>color_hook\<close> this is shown for every color callback that keeps its contract.
\<close>

section \<open>Taking a block out and putting it back\<close>

definition scan_out :: "mm_ref \<Rightarrow> drm_mm \<Rightarrow> drm_mm" where
  "scan_out n mm = (upd_node n (\<lambda>x. x\<lparr>n_scanned := True\<rparr>) mm)
     \<lparr>scan_active := scan_active mm + 1, node_list := list_del_entry n (node_list mm)\<rparr>"

definition scan_overlaps :: "drm_mm_scan \<Rightarrow> drm_mm \<Rightarrow> mm_ref \<Rightarrow> bool" where
  "scan_overlaps scan mm p \<longleftrightarrow> hole_node_start mm p > sc_hit_start scan \<and> mm_start mm p < sc_hit_end scan"

lemma upd_node_links: "node_list (upd_node n f mm) = node_list mm" "scan_active (upd_node n f mm) = scan_active mm"
  by (simp_all add: upd_node_def)

lemma scan_out_simps [simp]:
  "n_start (mm_nodes (scan_out n mm) q) = n_start (mm_nodes mm q)" "n_size (mm_nodes (scan_out n mm) q) = n_size (mm_nodes mm q)"
  "hole_node_start (scan_out n mm) = hole_node_start mm" "n_allocated (mm_nodes (scan_out n mm) q) = n_allocated (mm_nodes mm q)"
  "drm_mm_node_allocated (scan_out n mm) q = drm_mm_node_allocated mm q"
  "drm_mm_node_scanned_block (scan_out n mm) q \<longleftrightarrow> q = n \<or> drm_mm_node_scanned_block mm q"
  "node_list (scan_out n mm) = list_del_entry n (node_list mm)" "scan_active (scan_out n mm) = scan_active mm + 1"
  by (auto simp: scan_out_def node_defs)

lemma scan_out_places [simp]:
  "free_place (scan_out n mm) ps = free_place mm ps" "scan_overlaps scan (scan_out n mm) = scan_overlaps scan mm"
  "on_grid grid (scan_out n mm) ps = on_grid grid mm ps"
  by (auto simp: free_place_def scan_overlaps_def on_grid_def fun_eq_iff)

lemma tiled_scan_out [simp]: "tiled (scan_out n mm) a ps e = tiled mm a ps e"
  by (rule tiled_cong) simp

lemma layout_scan_out:
  assumes lay: "mm_layout mm (as @ n # bs)"
  shows "mm_layout (scan_out n mm) (as @ bs)"
proof -
  have "mm_layout (mm\<lparr>node_list := list_del_entry n (node_list mm)\<rparr>) (as @ bs)"
    by (rule mm_layout_remove [OF lay]) (use lay in \<open>auto simp: same_blocks_def node_defs mm_layout_def intro: list_del_entry_ring\<close>)
  moreover have "tiled (mm\<lparr>node_list := L\<rparr>) a ps e = tiled mm a ps e" for L a ps e by (rule tiled_cong) simp
  ultimately show ?thesis by (simp add: mm_layout_def drm_mm_node_allocated_def hole_node_start_def)
qed

lemma remove_block_scan_out:
  assumes ring: "ring (node_list mm) MM_HEAD (as @ n # bs)" and ns: "\<not> drm_mm_node_scanned_block mm n" and act: "scan_active mm + 1 \<noteq> 0"
  shows "drm_mm_scan_remove_block scan n (scan_out n mm) = Some (scan_overlaps scan mm n, mm)"
proof -
  let ?L = "node_list mm" and ?M = "list_del_entry n (node_list mm)"
  have ne: "list_prev (?L n) \<noteq> n" "list_next (?L n) \<noteq> n"
    using ring ring_prev [OF ring] ring_next [OF ring] last_in_set [of "MM_HEAD # as"] hd_in_set [of "bs @ [MM_HEAD]"]
    by (auto simp: ring_def)
  then have prv: "list_prev (?M n) = list_prev (?L n)" "list_next (?M (list_prev (?L n))) = list_next (?M n)"
    by (auto simp: list_del_entry_next list_del_entry_prev)
  have again: "list_add n (list_prev (?L n)) ?M = ?L" by (rule list_add_del_entry [OF ring])
  have "(mm_nodes mm n)\<lparr>n_scanned := False\<rparr> = mm_nodes mm n"
    using ns by (intro drm_mm_node.equality) (simp_all add: drm_mm_node_scanned_block_def)
  then have "(upd_node n (\<lambda>x. x\<lparr>n_scanned := False\<rparr>) (scan_out n mm))\<lparr>scan_active := scan_active mm, node_list := ?L\<rparr> = mm"
    by (simp add: scan_out_def upd_node_def)
  then show ?thesis using prv again act
    by (simp add: drm_mm_scan_remove_block_def Let_def scan_overlaps_def hole_node_start_def upd_node_def)
qed

text \<open>Every node has at least one address, so the counter of scanned nodes does not wrap around.\<close>

lemma tiled_length: "tiled mm a ps e \<Longrightarrow> unat a + length ps \<le> unat e"
  by (induction ps arbitrary: a) (fastforce simp: word_le_nat_alt word_less_nat_alt)+

section \<open>One block\<close>

definition scan_inv :: "(u64 \<Rightarrow> bool) \<Rightarrow> drm_mm \<Rightarrow> mm_ref list \<Rightarrow> bool" where
  "scan_inv grid mm ps \<longleftrightarrow>
     mm_layout mm ps \<and> on_grid grid mm ps \<and> (\<forall>p \<in> set ps. \<not> drm_mm_node_scanned_block mm p) \<and> unat (scan_active mm) + length ps < 2 ^ 64"

definition scan_ok :: "drm_mm_scan \<Rightarrow> bool" where
  "scan_ok scan \<longleftrightarrow> 0 < sc_size scan \<and> sc_remainder_mask scan = remainder_mask (sc_alignment scan)"

abbreviation scan_fits :: "color_fn option \<Rightarrow> drm_mm_scan \<Rightarrow> drm_mm \<Rightarrow> mm_ref \<Rightarrow> u64 \<Rightarrow> bool" where
  "scan_fits ca scan mm \<equiv>
     hole_fits ca mm (sc_size scan) (sc_alignment scan) (sc_color scan) (sc_range_start scan) (sc_range_end scan)"

abbreviation scan_place :: "drm_mm_scan \<Rightarrow> drm_mm \<Rightarrow> mm_ref list \<Rightarrow> u64 \<Rightarrow> bool" where
  "scan_place scan mm ps \<equiv> free_place mm ps (sc_size scan) (sc_alignment scan) (sc_range_start scan) (sc_range_end scan)"

abbreviation scan_hit :: "drm_mm_scan \<Rightarrow> u64 \<Rightarrow> drm_mm_scan" where
  "scan_hit scan a \<equiv> scan\<lparr>sc_hit_start := a, sc_hit_end := a + sc_size scan\<rparr>"

lemma scan_inv_out:
  assumes inv: "scan_inv grid mm (as @ n # bs)"
  shows "scan_inv grid (scan_out n mm) (as @ bs)" and "scan_active mm + 1 \<noteq> 0"
proof -
  have lay: "mm_layout mm (as @ n # bs)" and act: "unat (scan_active mm) + 1 < 2 ^ 64" using inv by (auto simp: scan_inv_def)
  have un: "unat (scan_active mm + 1) = unat (scan_active mm) + 1" using act unat_add_lem [of "scan_active mm" 1] by simp
  then show "scan_active mm + 1 \<noteq> 0" by auto
  have "n \<notin> set (as @ bs)" using lay by (auto simp: mm_layout_def ring_def)
  then show "scan_inv grid (scan_out n mm) (as @ bs)"
    using inv layout_scan_out [OF lay] un by (auto simp: scan_inv_def on_grid_def)
qed

lemma fit_block_exact:
  assumes "0 < sz"
  shows "case fit_block sz al (remainder_mask al) high rs re cs ce of
      None \<Rightarrow> \<forall>a. \<not> block_ok sz al (max cs rs) (min ce re) a
    | Some a \<Rightarrow> block_ok sz al (max cs rs) (min ce re) a"
  using fit_spec_low [OF assms, of al "max cs rs" "min ce re"] fit_spec_high [OF assms, of al "max cs rs" "min ce re"]
  by (cases high) (auto simp: fit_block_spec [OF assms] split: option.splits)

context color_hook
begin

lemma add_block_spec:
  assumes inv: "scan_inv grid mm (as @ n # bs)" and ok: "scan_ok scan" and h: "h = last (MM_HEAD # as)"
  obtains (miss) "drm_mm_scan_add_block ca scan n mm = Some (False, scan, scan_out n mm)" "\<forall>a. \<not> scan_fits ca scan (scan_out n mm) h a"
    | (found) a where "drm_mm_scan_add_block ca scan n mm = Some (True, scan_hit scan a, scan_out n mm)" "scan_place scan mm (as @ bs) a"
      "unat a + unat (sc_size scan) < 2 ^ 64"
proof -
  let ?mm = "scan_out n mm" and ?sz = "sc_size scan" and ?al = "sc_alignment scan"
  have lay: "mm_layout mm (as @ n # bs)" and sc: "\<not> drm_mm_node_scanned_block mm n" and grid: "on_grid grid ?mm (as @ bs)"
    and al: "drm_mm_node_allocated mm n" and ring: "ring (node_list mm) MM_HEAD (as @ n # bs)"
    using inv scan_inv_out(1) [OF inv] by (auto simp: scan_inv_def mm_layout_def)
  have lay': "mm_layout ?mm (as @ bs)" by (rule layout_scan_out [OF lay])
  have sz: "0 < ?sz" and rm: "sc_remainder_mask scan = remainder_mask ?al" using ok by (simp_all add: scan_ok_def)
  have prv: "list_prev (node_list mm n) = h" using ring_prev [OF ring] h by simp
  have nxt: "list_next (node_list mm h) = n"
  proof (cases as rule: rev_cases)
    case Nil
    with ring ring_next_head [of "node_list mm" MM_HEAD "n # bs"] h show ?thesis by simp
  next
    case (snoc ys y)
    with ring ring_next [of "node_list mm" MM_HEAD ys y "n # bs"] h show ?thesis by simp
  qed
  obtain cs ce where col: "color_adjust ca ?mm h (sc_color scan) (hole_node_start ?mm h, hole_node_end ?mm h) = (cs, ce)" by fastforce
  have gap: "hole_node_start ?mm h < hole_node_end ?mm h"
  proof -
    have "tiled mm (hole_node_start mm h) (n # bs) (mm_start mm MM_HEAD)" using lay h tiled_append [of mm MM_HEAD as "n # bs"]
      by (auto simp: mm_layout_def)
    then have "hole_node_start mm h < hole_node_start mm n" "tiled mm (hole_node_start mm n) bs (mm_start mm MM_HEAD)" by auto
    then show ?thesis unfolding layout_gap(1) [OF lay' h] by (cases bs) (auto intro: less_le_trans)
  qed
  have "h \<in> set (MM_HEAD # as @ bs)" using h last_in_set [of "MM_HEAD # as"] by auto
  note shr = shrinks [OF lay' grid this gap, of "sc_color scan"]
  have eq: "drm_mm_scan_add_block ca scan n mm =
      (case fit_block ?sz ?al (remainder_mask ?al) (sc_mode scan = DRM_MM_INSERT_HIGH) (sc_range_start scan) (sc_range_end scan) cs ce of
         None \<Rightarrow> Some (False, scan, ?mm)
       | Some a \<Rightarrow> if a \<ge> a + ?sz \<or> a < hole_node_start ?mm h \<or> a + ?sz > hole_node_end ?mm h then None
                    else Some (True, scan_hit scan a, ?mm))"
    using al sc prv nxt col by (simp add: drm_mm_scan_add_block_def Let_def rm upd_node_links split: option.split flip: scan_out_def)
  have fits: "scan_fits ca scan ?mm h = block_ok ?sz ?al (max cs (sc_range_start scan)) (min ce (sc_range_end scan))"
    using col by (simp add: hole_fits_def fun_eq_iff)
  show thesis
  proof (cases "fit_block ?sz ?al (remainder_mask ?al) (sc_mode scan = DRM_MM_INSERT_HIGH) (sc_range_start scan) (sc_range_end scan) cs ce")
    case None
    with eq fit_block_exact [OF sz, where al = ?al and high = "sc_mode scan = DRM_MM_INSERT_HIGH" and rs = "sc_range_start scan" and re = "sc_range_end scan" and cs = cs and ce = ce]
    show thesis by (intro miss) (simp_all add: fits)
  next
    case (Some a)
    then have f: "scan_fits ca scan ?mm h a"
      using fit_block_exact [OF sz, where al = ?al and high = "sc_mode scan = DRM_MM_INSERT_HIGH" and rs = "sc_range_start scan" and re = "sc_range_end scan" and cs = cs and ce = ce]
      by (simp add: fits)
    note ins = hole_fits_inside [OF f shr]
    have lt: "unat a + unat ?sz < 2 ^ 64" using ins(2) unsigned_less [of "hole_node_end ?mm h", where ?'a = nat] by simp
    then have un: "unat (a + ?sz) = unat a + unat ?sz" using unat_add_lem [of a ?sz] by simp
    then have "\<not> (a \<ge> a + ?sz \<or> a < hole_node_start ?mm h \<or> a + ?sz > hole_node_end ?mm h)"
      using ins sz by (simp add: word_le_nat_alt word_less_nat_alt)
    moreover have "block_ok ?sz ?al (sc_range_start scan) (sc_range_end scan) a" using ins by (simp add: block_ok_def)
    with gap_is_free [OF lay' h _ ins(1,2)] have "scan_place scan mm (as @ bs) a" by simp
    ultimately show thesis using eq Some lt by (intro found [of a]) auto
  qed
qed

end

section \<open>The scan as a whole\<close>

text \<open>
  What a driver does in a scan, as the documentation of the scan roster in \<open>drm_mm.c\<close> asks: add nodes until the scan reports a
  hit, remove all of them in reverse order noting the nodes reported, and remove those from the allocator.
\<close>

fun scan_add_until :: "color_fn option \<Rightarrow> mm_ref list \<Rightarrow> drm_mm_scan \<Rightarrow> drm_mm \<Rightarrow> (bool \<times> mm_ref list \<times> drm_mm_scan \<times> drm_mm) option" where
  "scan_add_until ca [] scan mm = Some (False, [], scan, mm)"
| "scan_add_until ca (n # ns) scan mm =
     (case drm_mm_scan_add_block ca scan n mm of
        None \<Rightarrow> None
      | Some (True, scan, mm) \<Rightarrow> Some (True, [n], scan, mm)
      | Some (False, scan, mm) \<Rightarrow>
          map_option (\<lambda>(hit, added, scan, mm). (hit, n # added, scan, mm)) (scan_add_until ca ns scan mm))"

fun scan_remove_all :: "drm_mm_scan \<Rightarrow> mm_ref list \<Rightarrow> drm_mm \<Rightarrow> (mm_ref list \<times> drm_mm) option" where
  "scan_remove_all scan [] mm = Some ([], mm)"
| "scan_remove_all scan (n # ns) mm =
     (case drm_mm_scan_remove_block scan n mm of
        None \<Rightarrow> None
      | Some (evict, mm) \<Rightarrow>
          map_option (\<lambda>(sel, mm). (if evict then n # sel else sel, mm)) (scan_remove_all scan ns mm))"

fun remove_all_nodes :: "rb_family_lib \<Rightarrow> mm_ref list \<Rightarrow> drm_mm \<Rightarrow> drm_mm option" where
  "remove_all_nodes lib [] mm = Some mm"
| "remove_all_nodes lib (n # ns) mm =
     (case drm_mm_remove_node lib n mm of None \<Rightarrow> None | Some mm \<Rightarrow> remove_all_nodes lib ns mm)"

lemma scan_remove_all_append:
  "scan_remove_all scan (as @ bs) mm =
   (case scan_remove_all scan as mm of
      None \<Rightarrow> None
    | Some (s, mm') \<Rightarrow> map_option (\<lambda>(t, mm). (s @ t, mm)) (scan_remove_all scan bs mm'))"
  by (induction as arbitrary: mm) (auto split: option.splits simp: map_option_case)

lemma scan_added:
  "scan_add_until ca ns scan mm = Some (hit, added, scan', mm') \<Longrightarrow> set added \<subseteq> set ns \<and> (distinct ns \<longrightarrow> distinct added)"
  by (induction ns arbitrary: scan mm added) (fastforce split: option.splits bool.splits)+

lemma free_place_mono: "free_place mm ps sz al rs re a \<Longrightarrow> set qs \<subseteq> set ps \<Longrightarrow> free_place mm qs sz al rs re a"
  by (auto simp: free_place_def)

lemma free_place_not_overlapping:
  assumes "scan_place scan mm qs a" and "\<forall>p \<in> set ps - set qs. \<not> scan_overlaps (scan_hit scan a) mm p"
    and "unat a + unat (sc_size scan) < 2 ^ 64"
  shows "scan_place scan mm ps a"
proof -
  have "unat (a + sc_size scan) = unat a + unat (sc_size scan)" using assms(3) unat_add_lem [of a "sc_size scan"] by simp
  with assms(1,2) show ?thesis
    by (fastforce simp: free_place_def scan_overlaps_def not_less word_le_nat_alt word_less_nat_alt)
qed

lemma remove_filter:
  assumes "ps = as @ n # bs" and "distinct ps"
  shows "as @ bs = filter (\<lambda>p. p \<noteq> n) ps" "filter (\<lambda>p. p \<notin> set ns) (as @ bs) = filter (\<lambda>p. p \<notin> set (n # ns)) ps"
proof -
  have "n \<notin> set (as @ bs)" using assms by auto
  then have "filter (\<lambda>p. p \<noteq> n \<and> p \<notin> set ms) (as @ bs) = filter (\<lambda>p. p \<notin> set ms) (as @ bs)" for ms
    by (intro filter_cong) auto
  from this [of ns] this [of "[]"] assms(1)
  show "as @ bs = filter (\<lambda>p. p \<noteq> n) ps" "filter (\<lambda>p. p \<notin> set ns) (as @ bs) = filter (\<lambda>p. p \<notin> set (n # ns)) ps" by simp_all
qed

context color_hook
begin

lemma scan_add_until_spec:
  assumes "scan_inv grid mm ps" and "scan_ok scan" and "distinct ns" and "set ns \<subseteq> set ps"
  shows "\<exists>hit added scan' mm'. scan_add_until ca ns scan mm = Some (hit, added, scan', mm') \<and> set added \<subseteq> set ns \<and>
    (\<forall>sc. scan_remove_all sc (rev added) mm' = Some (filter (scan_overlaps sc mm) (rev added), mm)) \<and>
    (if hit then \<exists>a. scan' = scan_hit scan a \<and> scan_place scan mm (filter (\<lambda>p. p \<notin> set added) ps) a \<and> unat a + unat (sc_size scan) < 2 ^ 64
     else scan' = scan \<and> added = ns)"
  using assms
proof (induction ns arbitrary: mm ps)
  case Nil
  then show ?case by (intro exI [of _ False]) simp
next
  case (Cons n ns)
  obtain as bs where ps: "ps = as @ n # bs" using Cons.prems(4) by (metis list.set_intros(1) split_list subsetD)
  note inv = Cons.prems(1) [unfolded ps] and out = scan_inv_out [OF Cons.prems(1) [unfolded ps]]
  have ring: "ring (node_list mm) MM_HEAD (as @ n # bs)" and ns: "\<not> drm_mm_node_scanned_block mm n"
    using inv by (simp_all add: scan_inv_def mm_layout_def)
  have dis: "distinct ps" using ring ps by (simp add: ring_def)
  note rm = remove_block_scan_out [OF ring ns out(2)] and flt = remove_filter [OF ps dis]
  show ?case
  proof (cases rule: add_block_spec [OF inv Cons.prems(2) refl, case_names miss found])
    case miss
    have "set ns \<subseteq> set (as @ bs)" using Cons.prems(3,4) ps by auto
    from Cons.IH [OF out(1) Cons.prems(2) distinct_tl [OF Cons.prems(3), simplified] this, unfolded scan_out_places]
    obtain hit added scan' mm' where IH: "scan_add_until ca ns scan (scan_out n mm) = Some (hit, added, scan', mm')" "set added \<subseteq> set ns"
      "\<forall>sc. scan_remove_all sc (rev added) mm' = Some (filter (scan_overlaps sc mm) (rev added), scan_out n mm)"
      "if hit then \<exists>a. scan' = scan_hit scan a \<and> scan_place scan mm (filter (\<lambda>p. p \<notin> set added) (as @ bs)) a \<and> unat a + unat (sc_size scan) < 2 ^ 64
       else scan' = scan \<and> added = ns" by blast
    have "scan_add_until ca (n # ns) scan mm = Some (hit, n # added, scan', mm')" using miss IH(1) by simp
    moreover have "\<forall>sc. scan_remove_all sc (rev (n # added)) mm' = Some (filter (scan_overlaps sc mm) (rev (n # added)), mm)"
      using IH(3) rm by (simp add: scan_remove_all_append)
    moreover have "set (n # added) \<subseteq> set (n # ns)" using IH(2) by auto
    moreover have "if hit then \<exists>a. scan' = scan_hit scan a \<and> scan_place scan mm (filter (\<lambda>p. p \<notin> set (n # added)) ps) a \<and>
         unat a + unat (sc_size scan) < 2 ^ 64
       else scan' = scan \<and> n # added = n # ns" using IH(4) unfolding flt(2) by (cases hit) simp_all
    ultimately show ?thesis by blast
  next
    case (found a)
    then show ?thesis using rm flt(2) [of "[]"]
      by (intro exI [of _ True] exI [of _ "[n]"] exI [of _ "scan_hit scan a"] exI [of _ "scan_out n mm"]) auto
  qed
qed

end

text \<open>
  Without a callback the scan is complete. A place that is free once a node is gone and was not before overlaps the node, so it is in the
  gap the scan looks at.
\<close>

lemma new_place_in_gap:
  assumes lay: "mm_layout mm (as @ n # bs)" and h: "h = last (MM_HEAD # as)"
    and free: "free_place mm (as @ bs) sz al rs re a" and taken: "\<not> free_place mm (as @ n # bs) sz al rs re a"
  shows "hole_fits None (scan_out n mm) sz al color rs re h a"
proof -
  let ?e = "mm_start mm MM_HEAD"
  have t: "tiled mm (hole_node_start mm MM_HEAD) as (hole_node_start mm h)" "tiled mm (hole_node_start mm h) (n # bs) ?e"
    using lay h tiled_append [of mm MM_HEAD as "n # bs" ?e] by (auto simp: mm_layout_def)
  then have n: "hole_node_start mm h \<le> mm_start mm n" "tiled mm (hole_node_start mm n) bs ?e" by auto
  have ok: "hole_node_start mm MM_HEAD \<le> a" "unat a + unat sz \<le> unat ?e" "rs \<le> a" "unat a + unat sz \<le> unat re" "aligned al a"
    and out: "\<forall>p \<in> set (as @ bs). unat a + unat sz \<le> unat (mm_start mm p) \<or> hole_node_start mm p \<le> a"
    using free by (auto simp: free_place_def block_ok_max_min)
  have ov: "unat (mm_start mm n) < unat a + unat sz" "a < hole_node_start mm n"
    using free taken by (auto simp: free_place_def not_le)
  have "hole_node_start mm h \<le> a"
  proof (cases as rule: rev_cases)
    case Nil
    then show ?thesis using ok(1) h by simp
  next
    case (snoc ys y)
    then have y: "h = y" "y \<in> set as" using h by auto
    with tiled_bounds [OF t(1) y(2)] out n(1) ov(1) show ?thesis by (force simp: word_le_nat_alt word_less_nat_alt)
  qed
  moreover have "unat a + unat sz \<le> unat (mm_start mm (hd (bs @ [MM_HEAD])))"
  proof (cases bs)
    case Nil
    then show ?thesis using ok(2) by simp
  next
    case (Cons b cs)
    with n(2) out ov(2) show ?thesis by (force simp: word_le_nat_alt word_less_nat_alt)
  qed
  ultimately show ?thesis
    using layout_gap(1) [OF layout_scan_out [OF lay] h] ok by (simp add: hole_fits_def color_adjust_def block_ok_max_min)
qed

lemma scan_miss_no_place:
  assumes "scan_inv (\<lambda>_. True) mm ps" and "scan_ok scan" and "distinct ns" and "set ns \<subseteq> set ps" and "\<forall>a. \<not> scan_place scan mm ps a"
    and "scan_add_until None ns scan mm = Some (False, added, scan', mm')"
  shows "\<forall>a. \<not> scan_place scan mm (filter (\<lambda>p. p \<notin> set ns) ps) a"
  using assms
proof (induction ns arbitrary: mm ps added)
  case (Cons n ns)
  obtain as bs where ps: "ps = as @ n # bs" using Cons.prems(4) by (metis list.set_intros(1) split_list subsetD)
  note inv = Cons.prems(1) [unfolded ps] and out = scan_inv_out [OF Cons.prems(1) [unfolded ps]]
  have lay: "mm_layout mm (as @ n # bs)" using inv by (simp add: scan_inv_def)
  have dis: "distinct ps" using lay ps by (simp add: mm_layout_def ring_def)
  note flt = remove_filter [OF ps dis]
  show ?case
  proof (cases rule: no_color.add_block_spec [OF inv Cons.prems(2) refl, case_names miss found])
    case miss
    have "\<forall>a. \<not> scan_place scan (scan_out n mm) (as @ bs) a"
    proof (intro allI notI)
      fix a assume "scan_place scan (scan_out n mm) (as @ bs) a"
      then have "scan_fits None scan (scan_out n mm) (last (MM_HEAD # as)) a"
        using Cons.prems(5) ps by (intro new_place_in_gap [OF lay refl]) auto
      with miss(2) show False by blast
    qed
    moreover obtain added' where "scan_add_until None ns scan (scan_out n mm) = Some (False, added', scan', mm')"
      using Cons.prems(6) miss(1) by (auto split: option.splits)
    moreover have "set ns \<subseteq> set (as @ bs)" "distinct ns" using Cons.prems(3,4) ps by auto
    ultimately have "\<forall>a. \<not> scan_place scan (scan_out n mm) (filter (\<lambda>p. p \<notin> set ns) (as @ bs)) a"
      using Cons.IH [OF out(1) Cons.prems(2)] by blast
    then show ?thesis unfolding flt(2) by simp
  next
    case (found a)
    then show ?thesis using Cons.prems(6) by simp
  qed
qed simp

section \<open>Eviction and insertion\<close>

context mm_library
begin

lemma remove_all_nodes_spec:
  assumes "mm_inv mm ps" and "distinct ns" and "set ns \<subseteq> set ps"
  shows "\<exists>mm'. remove_all_nodes lib ns mm = Some mm' \<and> mm_inv mm' (filter (\<lambda>p. p \<notin> set ns) ps) \<and> same_blocks mm mm'"
  using assms
proof (induction ns arbitrary: mm ps)
  case Nil
  then show ?case by (simp add: same_blocks_def)
next
  case (Cons n ns)
  obtain as bs where ps: "ps = as @ n # bs" using Cons.prems(3) by (metis list.set_intros(1) split_list subsetD)
  have dis: "distinct ps" using Cons.prems(1) by (simp add: mm_inv_def mm_layout_def ring_def)
  obtain m where m: "drm_mm_remove_node lib n mm = Some m" "mm_inv m (as @ bs)" "same_blocks mm m"
    by (rule remove_node_spec [OF Cons.prems(1) [unfolded ps]])
  have "distinct ns" "set ns \<subseteq> set (as @ bs)" using Cons.prems(2,3) ps by auto
  from Cons.IH [OF m(2) this] m show ?case unfolding remove_filter(2) [OF ps dis] by (auto intro: same_blocks_trans)
qed

end

lemma scan_init_spec:
  assumes "scan_active mm = 0" and "rs < re" and "0 < sz" and "sz \<le> re - rs"
  obtains scan where "drm_mm_scan_init_with_range mm sz al color rs re mode = Some scan" "scan_ok scan" "sc_hit_end scan = 0" "sc_size scan = sz"
    "\<forall>mm ps a. scan_place scan mm ps a \<longleftrightarrow> free_place mm ps sz al rs re a"
proof
  let ?al = "if al \<le> 1 then 0 else al"
  let ?scan = "\<lparr>sc_size = sz, sc_alignment = ?al, sc_remainder_mask = remainder_mask ?al, sc_range_start = rs, sc_range_end = re,
    sc_hit_start = - 1, sc_hit_end = 0, sc_color = color, sc_mode = mode\<rparr>"
  show "drm_mm_scan_init_with_range mm sz al color rs re mode = Some ?scan"
    using assms by (auto simp: drm_mm_scan_init_with_range_def Let_def)
  show "\<forall>mm ps a. scan_place ?scan mm ps a \<longleftrightarrow> free_place mm ps sz al rs re a"
    using block_ok_align1 [of sz al] by (simp add: free_place_def)
qed (use assms in \<open>simp_all add: scan_ok_def\<close>)

lemma inv_scan_inv:
  assumes inv: "mm_inv mm ps" and "on_grid grid mm ps" and "scan_active mm = 0"
  shows "scan_inv grid mm ps"
proof -
  have "tiled mm (hole_node_start mm MM_HEAD) ps (mm_start mm MM_HEAD)" using inv by (simp add: mm_inv_def mm_layout_def)
  then have "length ps \<le> unat (mm_start mm MM_HEAD)" using tiled_length by fastforce
  moreover have "unat (mm_start mm MM_HEAD) < 2 ^ 64" using unsigned_less [of "mm_start mm MM_HEAD", where ?'a = nat] by simp
  ultimately show ?thesis using assms by (auto simp: scan_inv_def mm_inv_def)
qed

text \<open>One round of scanning, with the numbers the driver passes in.\<close>

lemma scan_round:
  assumes hook: "color_hook ca grid" and inv: "mm_inv mm ps" and grid: "on_grid grid mm ps"
    and params: "scan_active mm = 0" "rs < re" "0 < sz" "sz \<le> re - rs" and ns: "distinct ns" "set ns \<subseteq> set ps"
  obtains scan hit added scan' mm' sel where "drm_mm_scan_init_with_range mm sz al color rs re mode = Some scan" "scan_ok scan"
    "\<forall>mm ps a. scan_place scan mm ps a \<longleftrightarrow> free_place mm ps sz al rs re a"
    "scan_add_until ca ns scan mm = Some (hit, added, scan', mm')" "scan_remove_all scan' (rev added) mm' = Some (sel, mm)"
    "distinct sel" "set sel \<subseteq> set ns" "\<not> hit \<Longrightarrow> sel = []"
    "hit \<Longrightarrow> \<exists>a. sel = filter (\<lambda>p. hole_node_start mm p > a \<and> mm_start mm p < a + sz) (rev added) \<and>
      free_place mm (filter (\<lambda>p. p \<notin> set sel) ps) sz al rs re a"
proof -
  obtain scan where scan: "drm_mm_scan_init_with_range mm sz al color rs re mode = Some scan" "scan_ok scan" "sc_hit_end scan = 0"
    "sc_size scan = sz" "\<forall>mm ps a. scan_place scan mm ps a \<longleftrightarrow> free_place mm ps sz al rs re a"
    by (rule scan_init_spec [OF params])
  from color_hook.scan_add_until_spec [OF hook inv_scan_inv [OF inv grid params(1)] scan(2) ns]
  obtain hit added scan' mm' where add: "scan_add_until ca ns scan mm = Some (hit, added, scan', mm')" "set added \<subseteq> set ns"
    "\<forall>sc. scan_remove_all sc (rev added) mm' = Some (filter (scan_overlaps sc mm) (rev added), mm)"
    and hit: "if hit then \<exists>a. scan' = scan_hit scan a \<and> scan_place scan mm (filter (\<lambda>p. p \<notin> set added) ps) a \<and> unat a + unat (sc_size scan) < 2 ^ 64
     else scan' = scan \<and> added = ns" by blast
  let ?sel = "filter (scan_overlaps scan' mm) (rev added)"
  have "distinct added" using scan_added [OF add(1)] ns(1) by blast
  moreover have "\<not> hit \<Longrightarrow> ?sel = []" using hit scan(3) by (simp add: scan_overlaps_def)
  moreover have "\<exists>a. ?sel = filter (\<lambda>p. hole_node_start mm p > a \<and> mm_start mm p < a + sz) (rev added) \<and>
      free_place mm (filter (\<lambda>p. p \<notin> set ?sel) ps) sz al rs re a" if h: hit
  proof -
    obtain a where a: "scan' = scan_hit scan a" "scan_place scan mm (filter (\<lambda>p. p \<notin> set added) ps) a" "unat a + unat (sc_size scan) < 2 ^ 64"
      using hit h by auto
    have "scan_place scan mm (filter (\<lambda>p. p \<notin> set ?sel) ps) a"
      by (rule free_place_not_overlapping [OF a(2) _ a(3)]) (auto simp: a(1))
    moreover have "scan_overlaps scan' mm = (\<lambda>p. hole_node_start mm p > a \<and> mm_start mm p < a + sz)"
      by (simp add: a(1) scan(4) scan_overlaps_def fun_eq_iff)
    ultimately show ?thesis using scan(5) by auto
  qed
  ultimately show thesis using scan(1,2,5) add by (intro that [of scan hit added scan' mm' ?sel]) auto
qed

text \<open>
  C13. A scan does not disturb the allocator: for every color callback that keeps its contract no check fires while the driver adds nodes and
  removes them in reverse order, and the allocator is then exactly what it was. If the scan reports a hit, the nodes selected are
  those that overlap it, and without them there is free space for the block at the hit; otherwise no node is selected.
\<close>

theorem scan_restores:
  assumes "color_hook ca grid" and "mm_inv mm ps" and "on_grid grid mm ps" and "scan_active mm = 0"
    and "rs < re" and "0 < sz" and "sz \<le> re - rs" and "distinct ns" and "set ns \<subseteq> set ps"
  shows "\<exists>scan hit added scan' mm' sel. drm_mm_scan_init_with_range mm sz al color rs re mode = Some scan \<and>
    scan_add_until ca ns scan mm = Some (hit, added, scan', mm') \<and> scan_remove_all scan' (rev added) mm' = Some (sel, mm) \<and>
    (if hit then \<exists>a. sel = filter (\<lambda>p. hole_node_start mm p > a \<and> mm_start mm p < a + sz) (rev added) \<and>
        free_place mm (filter (\<lambda>p. p \<notin> set sel) ps) sz al rs re a
     else sel = [])"
proof (cases rule: scan_round [OF assms, of al color mode])
  case (1 scan hit added scan' mm' sel)
  then show ?thesis
    by (intro exI [of _ scan] exI [of _ hit] exI [of _ added] exI [of _ scan'] exI [of _ mm'] exI [of _ sel]) (cases hit; simp)
qed

text \<open>
  C12. Without a callback the scan is complete, and eviction makes room. Let no aligned space of the size be free. The scan over the
  candidates reports a hit exactly if evicting all of them would free such a space; and after evicting only the nodes selected the insertion
  of the driver succeeds, with the invariant kept.
\<close>

theorem scan_evicts_enough:
  assumes lib: "rb_family lib" and inv: "mm_inv mm ps" and params: "scan_active mm = 0" "rs < re" "0 < sz" "sz \<le> re - rs"
    and ns: "distinct ns" "set ns \<subseteq> set ps" and full: "\<forall>a. \<not> free_place mm ps sz al rs re a"
    and n: "n \<in> range MM_NODE" "n \<notin> set ps" "\<not> drm_mm_node_scanned_block mm n" and once: "mode AND DRM_MM_INSERT_ONCE = 0"
  shows "\<exists>scan hit added scan' mm' sel mm1. drm_mm_scan_init_with_range mm sz al color rs re mode = Some scan \<and>
    scan_add_until None ns scan mm = Some (hit, added, scan', mm') \<and> scan_remove_all scan' (rev added) mm' = Some (sel, mm) \<and>
    (hit \<longleftrightarrow> (\<exists>a. free_place mm (filter (\<lambda>p. p \<notin> set ns) ps) sz al rs re a)) \<and> remove_all_nodes lib sel mm = Some mm1 \<and>
    (if hit then \<exists>mm2 as bs. drm_mm_insert_node_in_range lib None n sz al color rs re mode mm1 = Some (0, mm2) \<and>
        filter (\<lambda>p. p \<notin> set sel) ps = as @ bs \<and> mm_inv mm2 (as @ n # bs)
     else mm1 = mm)"
proof -
  have lib: "mm_library lib" using lib by (simp add: mm_library_def)
  have grid: "on_grid (\<lambda>_. True) mm ps" by (simp add: on_grid_def)
  show ?thesis
  proof (cases rule: scan_round [OF no_color.color_hook_axioms inv grid params ns, of al color mode])
    case (1 scan hit added scan' mm' sel)
    obtain mm1 where mm1: "remove_all_nodes lib sel mm = Some mm1" "mm_inv mm1 (filter (\<lambda>p. p \<notin> set sel) ps)" "same_blocks mm mm1"
      using mm_library.remove_all_nodes_spec [OF lib inv 1(6)] 1(7) ns(2) by blast
    show ?thesis
    proof (cases hit)
      case True
      then obtain a where a: "free_place mm (filter (\<lambda>p. p \<notin> set sel) ps) sz al rs re a" using 1(9) by auto
      then have all: "\<exists>a. free_place mm (filter (\<lambda>p. p \<notin> set ns) ps) sz al rs re a"
        using 1(7) free_place_mono [OF a, of "filter (\<lambda>p. p \<notin> set ns) ps"] by auto
      have "free_place mm1 (filter (\<lambda>p. p \<notin> set sel) ps) sz al rs re a"
        using a mm1(3) by (simp add: free_place_def same_blocks_starts)
      then have ex: "\<exists>a. free_place mm1 (filter (\<lambda>p. p \<notin> set sel) ps) sz al rs re a" ..
      have "n \<notin> set (filter (\<lambda>p. p \<notin> set sel) ps)" "\<not> drm_mm_node_scanned_block mm1 n" using n mm1(3) by (auto simp: same_blocks_def)
      from mm_library.insert_free_place [OF lib mm1(2) n(1) this less_imp_le [OF params(2)] once params(3), of al color, unfolded if_P [OF ex]]
      have "\<exists>mm2 as bs. drm_mm_insert_node_in_range lib None n sz al color rs re mode mm1 = Some (0, mm2) \<and>
        filter (\<lambda>p. p \<notin> set sel) ps = as @ bs \<and> mm_inv mm2 (as @ n # bs)" by (elim exE conjE) blast
      with 1 mm1(1) True all show ?thesis
        by (intro exI [of _ scan] exI [of _ hit] exI [of _ added] exI [of _ scan'] exI [of _ mm'] exI [of _ sel] exI [of _ mm1]) simp
    next
      case False
      have "\<forall>a. \<not> scan_place scan mm (filter (\<lambda>p. p \<notin> set ns) ps) a"
        by (rule scan_miss_no_place [OF inv_scan_inv [OF inv grid params(1)] 1(2) ns]) (use full 1(3,4) False in auto)
      with 1 mm1(1) False show ?thesis
        by (intro exI [of _ scan] exI [of _ hit] exI [of _ added] exI [of _ scan'] exI [of _ mm'] exI [of _ sel] exI [of _ mm1]) simp
    qed
  qed
qed

text \<open>
  With a color callback the driver asks for more nodes to evict until \<open>drm_mm_scan_color_evict\<close> returns none. The call finds the hole
  of the hit, no check fires, and when it returns no node, the insertion succeeds.
\<close>

theorem color_evict_insert:
  assumes lib: "rb_family lib" and hook: "color_hook (Some f) grid" and inv: "mm_inv mm ps" and grid: "on_grid grid mm ps"
    and sz: "0 < sc_size scan" and hit: "sc_hit_end scan = sc_hit_start scan + sc_size scan"
    and free: "free_place mm ps (sc_size scan) (sc_alignment scan) (sc_range_start scan) (sc_range_end scan) (sc_hit_start scan)"
    and range: "sc_range_start scan \<le> sc_range_end scan" and n: "n \<in> range MM_NODE" "n \<notin> set ps" "\<not> drm_mm_node_scanned_block mm n"
    and once: "mode AND DRM_MM_INSERT_ONCE = 0"
  shows "\<exists>r. drm_mm_scan_color_evict (Some f) scan mm = Some r \<and>
    (r = None \<longrightarrow> (\<exists>mm'. drm_mm_insert_node_in_range lib (Some f) n (sc_size scan) (sc_alignment scan) (sc_color scan)
      (sc_range_start scan) (sc_range_end scan) mode mm = Some (0, mm')))"
proof -
  let ?in = "\<lambda>h. hole_node_start mm h \<le> sc_hit_start scan \<and> hole_node_start mm h + mm_hole_size mm h \<ge> sc_hit_end scan"
  have lib: "mm_library lib" using lib by (simp add: mm_library_def)
  have stack: "set (hole_stack mm) = set (mm_holes mm ps)" using inv by (simp add: mm_inv_def holes_inv_def)
  obtain p where p: "p \<in> set (mm_holes mm ps)" and fits: "scan_fits None scan mm p (sc_hit_start scan)"
    using free free_place_iff [OF inv sz] by blast
  have un: "unat (sc_hit_end scan) = unat (sc_hit_start scan) + unat (sc_size scan)"
  proof -
    have "unat (sc_hit_start scan) + unat (sc_size scan) < 2 ^ 64"
      using free unsigned_less [of "sc_range_end scan", where ?'a = nat] by (simp add: free_place_def block_ok_max_min)
    then show ?thesis unfolding hit using unat_add_lem [of "sc_hit_start scan" "sc_size scan"] by simp
  qed
  have hole: "hole_node_start mm q + mm_hole_size mm q = hole_node_end mm q" if "q \<in> set (mm_holes mm ps)" for q
    using that inv_hole(1) [OF inv, of q] by (auto simp: set_mm_holes)
  have "?in p" using fits hole [OF p] un by (simp add: hole_fits_def color_adjust_def block_ok_max_min word_le_nat_alt)
  then have "find ?in (hole_stack mm) \<noteq> None" "hole_stack mm \<noteq> []" using p stack by (auto simp: find_None_iff)
  then obtain h where h: "find ?in (hole_stack mm) = Some h" and ne: "hole_stack mm \<noteq> []" by blast
  then have hin: "h \<in> set (mm_holes mm ps)" "?in h" using stack by (auto simp: find_Some_iff)
  obtain cs ce where col: "f mm h (sc_color scan) (hole_node_start mm h, hole_node_end mm h) = (cs, ce)" by fastforce
  have ev: "drm_mm_scan_color_evict (Some f) scan mm =
      Some (if cs > sc_hit_start scan then Some h else if ce < sc_hit_end scan then Some (list_next (node_list mm h)) else None)"
    using h ne col hole [OF hin(1)] by (simp add: drm_mm_scan_color_evict_def)
  have "\<exists>mm'. drm_mm_insert_node_in_range lib (Some f) n (sc_size scan) (sc_alignment scan) (sc_color scan)
      (sc_range_start scan) (sc_range_end scan) mode mm = Some (0, mm')" if "\<not> cs > sc_hit_start scan" "\<not> ce < sc_hit_end scan"
  proof -
    have "scan_fits (Some f) scan mm h (sc_hit_start scan)"
      using that col free un by (auto simp: hole_fits_def color_adjust_def free_place_def block_ok_max_min word_le_nat_alt word_less_nat_alt)
    then show ?thesis using hin(1) sz once
      by (cases rule: mm_library.insert_spec [OF lib inv n range color_hook.holes_shrink [OF hook inv grid],
            where sz = "sc_size scan" and al = "sc_alignment scan" and mode = mode and color = "sc_color scan"]) auto
  qed
  with ev show ?thesis by auto
qed

section \<open>An example\<close>

text \<open>An allocator with one node that takes all of its range.\<close>

lemma full_allocator:
  obtains mm where "mm_inv mm [MM_NODE 1]" "hole_node_start mm MM_HEAD = 0x1000" "mm_start mm MM_HEAD = 0x11000"
    "mm_start mm (MM_NODE 1) = 0x1000" "mm_size mm (MM_NODE 1) = 0x10000" "scan_active mm = 0"
    "\<forall>k. \<not> drm_mm_node_scanned_block mm (MM_NODE k)"
proof -
  obtain m where m: "drm_mm_init plain_lib 0x1000 0x10000 mm_zero = Some m" "mm_inv m []"
      "hole_node_start m MM_HEAD = 0x1000" "mm_start m MM_HEAD = 0x11000" "\<And>q. q \<noteq> MM_HEAD \<Longrightarrow> mm_nodes m q = mm_nodes mm_zero q" "scan_active m = 0"
    by (rule plain_mm.init_spec [of "0x1000" "0x10000" mm_zero]) auto
  have ns: "\<not> drm_mm_node_scanned_block m (MM_NODE k)" for k using m(5) mm_zero_clear(2) by (simp add: drm_mm_node_scanned_block_def)
  have lay: "mm_layout m ([] @ [])" using m(2) by (simp add: mm_inv_def)
  have e: "hole_node_end m MM_HEAD = 0x11000" using layout_gap(1) [OF lay] m(4) by simp
  have "mm_hole_size m MM_HEAD \<noteq> 0" using inv_hole(1) [OF m(2), of MM_HEAD] m(3) e by auto
  then have hole: "MM_HEAD \<in> set (mm_holes m [])" by (simp add: set_mm_holes drm_mm_hole_follows_def)
  have fits: "hole_fits None m 0x10000 0 0 0 0x20000 MM_HEAD a \<longleftrightarrow> a = 0x1000" for a
    unfolding hole_fits_def color_adjust_def m(3) e by (auto simp: block_ok_def aligned_def word_le_nat_alt word_unat_eq_iff)
  have range: "MM_NODE 1 \<in> range MM_NODE" "MM_NODE 1 \<notin> set []" "(0 :: u64) \<le> 0x20000"
    "\<forall>p \<in> set (mm_holes m []). color_shrinks None m 0 p" by (simp_all add: color_shrinks_def color_adjust_def)
  show thesis
  proof (cases rule: plain_mm.insert_spec [OF m(2) range(1,2) ns range(3,4), of "0x10000" 0 0])
    case (1 a as bs mm)
    have list: "as = []" "bs = []" using 1(2) by simp_all
    then have inv: "mm_inv mm [MM_NODE 1]" and a: "mm_start mm (MM_NODE 1) = 0x1000" using 1(3,4,9) fits by simp_all
    have same: "mm_start mm MM_HEAD = 0x11000" "hole_node_start mm MM_HEAD = 0x1000"
      using 1(11) m(3,4) by (simp_all add: hole_node_start_def)
    have "\<not> drm_mm_node_scanned_block mm (MM_NODE k)" for k
      using 1(11) ns [of k] inv by (cases "k = 1") (auto simp: mm_inv_def)
    then show thesis using 1(5,12) m(6) inv a same by (intro that [of mm]) simp_all
  next
    case 2
    then show thesis using hole fits by (auto simp: insert_mode_defs)
  qed
qed

theorem scan_restores_witness:
  "\<exists>mm scan hit added scan' mm' sel. drm_mm_scan_init_with_range mm 0x10000 0 0 0 0x20000 0 = Some scan \<and>
    scan_add_until None [MM_NODE 1] scan mm = Some (hit, added, scan', mm') \<and> scan_remove_all scan' (rev added) mm' = Some (sel, mm)"
proof -
  obtain mm where mm: "mm_inv mm [MM_NODE 1]" "scan_active mm = 0" by (rule full_allocator)
  have "(0 :: u64) < 0x20000" "(0 :: u64) < 0x10000" "(0x10000 :: u64) \<le> 0x20000 - 0" "distinct [MM_NODE 1]" "set [MM_NODE 1] \<subseteq> set [MM_NODE 1]"
    "on_grid (\<lambda>_. True) mm [MM_NODE 1]"
    by (simp_all add: on_grid_def)
  from scan_restores [OF no_color.color_hook_axioms mm(1) this(6) mm(2) this(1-5), of 0 0 0] show ?thesis by blast
qed

theorem scan_evicts_enough_witness:
  "\<exists>mm sel mm1 mm2. mm_inv mm [MM_NODE 1] \<and> remove_all_nodes plain_lib sel mm = Some mm1 \<and>
    drm_mm_insert_node_in_range plain_lib None (MM_NODE 2) 0x8000 0 0 0 0x20000 0 mm1 = Some (0, mm2)"
proof -
  obtain mm where mm: "mm_inv mm [MM_NODE 1]" "hole_node_start mm MM_HEAD = 0x1000" "mm_start mm MM_HEAD = 0x11000"
    "mm_start mm (MM_NODE 1) = 0x1000" "mm_size mm (MM_NODE 1) = 0x10000" "scan_active mm = 0" "\<forall>k. \<not> drm_mm_node_scanned_block mm (MM_NODE k)"
    by (rule full_allocator)
  have e: "hole_node_start mm (MM_NODE 1) = 0x11000" using mm(4,5) by (simp add: hole_node_start_def)
  have params: "(0 :: u64) < 0x20000" "(0 :: u64) < 0x8000" "(0x8000 :: u64) \<le> 0x20000 - 0" "distinct [MM_NODE 1]"
    "set [MM_NODE 1] \<subseteq> set [MM_NODE 1]" "MM_NODE 2 \<in> range MM_NODE" "MM_NODE 2 \<notin> set [MM_NODE 1]" "(0 :: u32) AND DRM_MM_INSERT_ONCE = 0"
    by simp_all
  have full: "\<forall>a. \<not> free_place mm [MM_NODE 1] 0x8000 0 0 0x20000 a"
    unfolding free_place_def mm(2,3) using mm(4) e by (auto simp: block_ok_def word_le_nat_alt)
  have room: "\<exists>a. free_place mm (filter (\<lambda>p. p \<notin> set [MM_NODE 1]) [MM_NODE 1]) 0x8000 0 0 0x20000 a"
    unfolding free_place_def mm(2,3) by (intro exI [of _ "0x1000"]) (simp add: block_ok_def aligned_def)
  note evict = scan_evicts_enough [OF plain_family.rb_family_axioms mm(1,6) params(1-5) full params(6,7) _ params(8), of 0]
  show ?thesis using evict mm(1,7) room by (auto split: if_splits)
qed

theorem color_evict_insert_witness:
  "\<exists>mm scan r. mm_inv mm [] \<and> drm_mm_scan_color_evict (Some i915_ggtt_color_adjust) scan mm = Some r"
proof -
  obtain mm where mm: "drm_mm_init plain_lib 0x1000 0x10000 mm_zero = Some mm" "mm_inv mm []"
      "hole_node_start mm MM_HEAD = 0x1000" "mm_start mm MM_HEAD = 0x11000" "\<And>q. q \<noteq> MM_HEAD \<Longrightarrow> mm_nodes mm q = mm_nodes mm_zero q"
    by (rule plain_mm.init_spec [of "0x1000" "0x10000" mm_zero]) auto
  let ?scan = "\<lparr>sc_size = 0x1000, sc_alignment = 0, sc_remainder_mask = 0, sc_range_start = 0, sc_range_end = 0x20000,
    sc_hit_start = 0x2000, sc_hit_end = 0x3000, sc_color = 0, sc_mode = 0\<rparr>"
  have ns: "\<not> drm_mm_node_scanned_block mm (MM_NODE 1)" using mm(5) mm_zero_clear(2) by (simp add: drm_mm_node_scanned_block_def)
  have grid: "on_grid page_aligned mm []" using mm(3,4) by (simp add: on_grid_def page_aligned_def)
  have free: "free_place mm [] 0x1000 0 0 0x20000 0x2000" unfolding free_place_def mm(3,4) by (simp add: block_ok_def aligned_def)
  from color_evict_insert [OF plain_family.rb_family_axioms ggtt_color.color_hook_axioms mm(2) grid, of ?scan "MM_NODE 1" 0] ns free mm(2)
  show ?thesis by auto
qed

end
