(* ===== verification/DRM_VMA.thy ===== *)
theory DRM_VMA
  imports DRM_MM_Reach
begin

text \<open>
  The offset manager of \<open>drivers/gpu/drm/drm_vma_manager.c\<close> and \<open>include/drm/drm_vma_manager.h\<close>: it hands out ranges of fake
  offsets for mapping buffer objects, finds the object of an offset, and keeps the set of open files that may map an object.

  The address space of a manager is a range allocator without a color callback, so a manager is its \<open>drm_mm\<close>; the node
  embedded in a \<open>drm_vma_offset_node\<close> is a node of that allocator. The other field, the tree \<open>vm_files\<close> of open files, is
  independent of it and modelled on its own. Numbers are numbers of pages.
\<close>

section \<open>Offsets\<close>

definition drm_vma_offset_manager_init :: "rb_family_lib \<Rightarrow> u64 \<Rightarrow> u64 \<Rightarrow> drm_mm \<Rightarrow> drm_mm option" where
  "drm_vma_offset_manager_init lib page_offset sz mm = drm_mm_init lib page_offset sz mm"

definition drm_vma_offset_manager_destroy :: "drm_mm \<Rightarrow> bool" where
  "drm_vma_offset_manager_destroy mm = drm_mm_takedown mm"

text \<open>The descent of the lookup: the last node on the way that starts at or before \<open>start\<close>.\<close>

fun offset_from :: "(mm_ref \<Rightarrow> u64) \<Rightarrow> u64 \<Rightarrow> mm_ref rbt \<Rightarrow> mm_ref option \<Rightarrow> mm_ref option" where
  "offset_from st start Leaf best = best"
| "offset_from st start (Node l node m r) best =
     (if start \<ge> st node then (if start = st node then Some node else offset_from st start r (Some node))
      else offset_from st start l best)"

definition drm_vma_offset_lookup_locked :: "drm_mm \<Rightarrow> u64 \<Rightarrow> u64 \<Rightarrow> mm_ref option" where
  "drm_vma_offset_lookup_locked mm start pages =
     (case offset_from (mm_start mm) start (rb_root (interval_tree mm)) None of
        None \<Rightarrow> None
      | Some best \<Rightarrow> if mm_start mm best + mm_size mm best < start + pages then None else Some best)"

definition drm_vma_offset_exact_lookup_locked :: "drm_mm \<Rightarrow> u64 \<Rightarrow> u64 \<Rightarrow> mm_ref option" where
  "drm_vma_offset_exact_lookup_locked mm start pages =
     (case drm_vma_offset_lookup_locked mm start pages of
        None \<Rightarrow> None
      | Some node \<Rightarrow> if mm_start mm node = start then Some node else None)"

definition drm_vma_offset_add :: "rb_family_lib \<Rightarrow> mm_ref \<Rightarrow> u64 \<Rightarrow> drm_mm \<Rightarrow> (int \<times> drm_mm) option" where
  "drm_vma_offset_add lib node pages mm =
     (if \<not> drm_mm_node_allocated mm node then drm_mm_insert_node lib None node pages mm else Some (0, mm))"

text \<open>\<open>memset\<close> of the embedded node.\<close>

definition clear_node :: "mm_ref \<Rightarrow> drm_mm \<Rightarrow> drm_mm" where
  "clear_node node mm =
     mm\<lparr>mm_nodes := (mm_nodes mm)
          (node := \<lparr>n_color = 0, n_start = 0, n_size = 0, n_hole_size = 0, n_allocated = False, n_scanned = False\<rparr>),
        node_list := (node_list mm)(node := \<lparr>list_next = MM_NULL, list_prev = MM_NULL\<rparr>)\<rparr>"

definition drm_vma_offset_remove :: "rb_family_lib \<Rightarrow> mm_ref \<Rightarrow> drm_mm \<Rightarrow> drm_mm option" where
  "drm_vma_offset_remove lib node mm =
     (if drm_mm_node_allocated mm node then map_option (clear_node node) (drm_mm_remove_node lib node mm) else Some mm)"

definition drm_vma_node_start :: "drm_mm \<Rightarrow> mm_ref \<Rightarrow> u64" where
  "drm_vma_node_start mm node = mm_start mm node"

definition drm_vma_node_offset_addr :: "drm_mm \<Rightarrow> mm_ref \<Rightarrow> u64" where
  "drm_vma_node_offset_addr mm node = push_bit 12 (mm_start mm node)"

section \<open>Access\<close>

text \<open>
  A tag is the address of a \<open>struct drm_file\<close>. The entry that is counted up or down is changed in the tree; \<open>None\<close> says that
  the walk ends without finding the tag. The argument \<open>mem\<close> says whether the allocation of a new entry succeeds.
\<close>

record drm_vma_offset_file =
  vm_tag :: u64
  vm_count :: u64

fun file_walk :: "u64 \<Rightarrow> drm_vma_offset_file rbt \<Rightarrow> drm_vma_offset_file option" where
  "file_walk tag Leaf = None"
| "file_walk tag (Node l e m r) =
     (if tag = vm_tag e then Some e else if tag > vm_tag e then file_walk tag r else file_walk tag l)"

fun set_file :: "drm_vma_offset_file \<Rightarrow> drm_vma_offset_file rbt \<Rightarrow> drm_vma_offset_file rbt" where
  "set_file e Leaf = Leaf"
| "set_file e (Node l x m r) =
     (if vm_tag e = vm_tag x then Node l e m r
      else if vm_tag e > vm_tag x then Node l x m (set_file e r) else Node (set_file e l) x m r)"

fun link_file :: "drm_vma_offset_file \<Rightarrow> drm_vma_offset_file rbt \<Rightarrow> drm_vma_offset_file rbt" where
  "link_file e Leaf = Node Leaf e 0 Leaf"
| "link_file e (Node l x m r) =
     (if vm_tag e > vm_tag x then Node l x m (link_file e r) else Node (link_file e l) x m r)"

definition vma_node_allow ::
    "drm_vma_offset_file rb_lib \<Rightarrow> bool \<Rightarrow> u64 \<Rightarrow> bool \<Rightarrow> drm_vma_offset_file rbt \<Rightarrow> int \<times> drm_vma_offset_file rbt" where
  "vma_node_allow lib mem tag ref_counted files =
     (case file_walk tag files of
        Some entry \<Rightarrow> (0, if ref_counted then set_file (entry\<lparr>vm_count := vm_count entry + 1\<rparr>) files else files)
      | None \<Rightarrow>
          if \<not> mem then (neg_errno ENOMEM, files)
          else (0, rb_insert_augmented lib (link_file \<lparr>vm_tag = tag, vm_count = 1\<rparr> files)))"

definition drm_vma_node_allow ::
    "drm_vma_offset_file rb_lib \<Rightarrow> bool \<Rightarrow> u64 \<Rightarrow> drm_vma_offset_file rbt \<Rightarrow> int \<times> drm_vma_offset_file rbt" where
  "drm_vma_node_allow lib mem tag files = vma_node_allow lib mem tag True files"

definition drm_vma_node_allow_once ::
    "drm_vma_offset_file rb_lib \<Rightarrow> bool \<Rightarrow> u64 \<Rightarrow> drm_vma_offset_file rbt \<Rightarrow> int \<times> drm_vma_offset_file rbt" where
  "drm_vma_node_allow_once lib mem tag files = vma_node_allow lib mem tag False files"

definition drm_vma_node_revoke :: "drm_vma_offset_file rb_lib \<Rightarrow> u64 \<Rightarrow> drm_vma_offset_file rbt \<Rightarrow> drm_vma_offset_file rbt" where
  "drm_vma_node_revoke lib tag files =
     (case file_walk tag files of
        None \<Rightarrow> files
      | Some entry \<Rightarrow>
          (let entry = entry\<lparr>vm_count := vm_count entry - 1\<rparr>; files = set_file entry files
           in if vm_count entry = 0 then rb_erase_augmented lib entry files else files))"

definition drm_vma_node_is_allowed :: "u64 \<Rightarrow> drm_vma_offset_file rbt \<Rightarrow> bool" where
  "drm_vma_node_is_allowed tag files \<longleftrightarrow> file_walk tag files \<noteq> None"

definition drm_vma_node_verify_access :: "u64 \<Rightarrow> drm_vma_offset_file rbt \<Rightarrow> int" where
  "drm_vma_node_verify_access tag files = (if drm_vma_node_is_allowed tag files then 0 else neg_errno EACCES)"

section \<open>Lookup\<close>

lemma offset_from_spec:
  assumes "sorted_wrt (\<lambda>p q. st p < st q) (inorder t)"
  shows "offset_from st start t best =
    (let xs = filter (\<lambda>x. st x \<le> start) (inorder t) in if xs = [] then best else Some (last xs))"
  using assms
proof (induction t arbitrary: best)
  case (Node l x m r)
  have srt: "sorted_wrt (\<lambda>p q. st p < st q) (inorder l)" "sorted_wrt (\<lambda>p q. st p < st q) (inorder r)"
    "\<forall>y \<in> set (inorder l). st y < st x" "\<forall>y \<in> set (inorder r). st x < st y"
    using Node.prems by (auto simp: sorted_wrt_append)
  consider (here) "start = st x" | (right) "st x < start" | (left) "start < st x" by (rule linorder_cases [of start "st x"]) auto
  then show ?case
  proof cases
    case here
    then have "filter (\<lambda>y. st y \<le> start) (inorder r) = []" using srt(4) by (auto simp: filter_empty_conv)
    with here show ?thesis by (simp add: Let_def)
  next
    case right
    then show ?thesis using Node.IH(2) [OF srt(2), of "Some x"] by (auto simp: Let_def)
  next
    case left
    then have "filter (\<lambda>y. st y \<le> start) (inorder r) = []" using srt(4) by (auto simp: filter_empty_conv)
    moreover have "\<not> st x \<le> start" "start \<noteq> st x" using left by auto
    ultimately show ?thesis using Node.IH(1) [OF srt(1), of best] by (simp add: Let_def)
  qed
qed simp

text \<open>The lookup finds the one node that spans the pages.\<close>

lemma lookup_spec:
  assumes inv: "mm_inv mm ps" and pages: "0 < pages" "unat start + unat pages < 2 ^ 64"
  shows "drm_vma_offset_lookup_locked mm start pages = Some n \<longleftrightarrow>
    n \<in> set ps \<and> mm_start mm n \<le> start \<and> unat start + unat pages \<le> unat (hole_node_start mm n)"
proof -
  let ?F = "filter (\<lambda>p. mm_start mm p \<le> start)"
  have dis: "sorted_wrt (\<lambda>p q. mm_start mm p < hole_node_start mm p \<and> hole_node_start mm p \<le> mm_start mm q) ps"
    using inv by (intro layout_disjoint) (simp add: mm_inv_def)
  have "sorted_wrt (\<lambda>p q. mm_start mm p < mm_start mm q) ps"
    by (rule sorted_wrt_mono_rel [OF _ dis]) (auto intro: less_le_trans)
  then have from_eq: "offset_from (mm_start mm) start (rb_root (interval_tree mm)) None = (if ?F ps = [] then None else Some (last (?F ps)))"
    using offset_from_spec [of "mm_start mm"] inv by (simp add: mm_inv_def Let_def)
  have sum: "unat (start + pages) = unat start + unat pages" using pages(2) unat_add_lem [of start pages] by simp
  have look: "drm_vma_offset_lookup_locked mm start pages = Some q \<longleftrightarrow>
      ?F ps \<noteq> [] \<and> q = last (?F ps) \<and> unat start + unat pages \<le> unat (hole_node_start mm q)" for q
    using sum by (auto simp: drm_vma_offset_lookup_locked_def from_eq hole_node_start_def word_less_nat_alt not_less)
  show ?thesis
  proof
    assume "drm_vma_offset_lookup_locked mm start pages = Some n"
    then have "?F ps \<noteq> []" "n = last (?F ps)" "unat start + unat pages \<le> unat (hole_node_start mm n)" using look by blast+
    then have "n \<in> set (?F ps)" "unat start + unat pages \<le> unat (hole_node_start mm n)" using last_in_set [of "?F ps"] by simp_all
    then show "n \<in> set ps \<and> mm_start mm n \<le> start \<and> unat start + unat pages \<le> unat (hole_node_start mm n)" by simp
  next
    assume n: "n \<in> set ps \<and> mm_start mm n \<le> start \<and> unat start + unat pages \<le> unat (hole_node_start mm n)"
    then obtain as bs where ps: "ps = as @ n # bs" by (metis split_list)
    have "start < hole_node_start mm n" using n pages(1) by (auto simp: word_less_nat_alt)
    moreover have "\<forall>q \<in> set bs. hole_node_start mm n \<le> mm_start mm q" using dis by (auto simp: ps sorted_wrt_append)
    ultimately have "?F bs = []" by (auto simp: filter_empty_conv not_le intro: less_le_trans)
    with n ps look show "drm_vma_offset_lookup_locked mm start pages = Some n" by simp
  qed
qed

section \<open>The manager in use\<close>

lemma clear_node_inv:
  assumes inv: "mm_inv mm ps" and n: "n \<notin> set (MM_HEAD # ps)"
  shows "mm_inv (clear_node n mm) ps"
proof -
  let ?mm = "upd_node n (\<lambda>_. \<lparr>n_color = 0, n_start = 0, n_size = 0, n_hole_size = 0, n_allocated = False, n_scanned = False\<rparr>) mm"
  let ?L = "(node_list mm)(n := \<lparr>list_next = MM_NULL, list_prev = MM_NULL\<rparr>)"
  have inv': "mm_inv ?mm ps" by (rule mm_inv_upd_node [OF inv n])
  have clr: "clear_node n mm = ?mm\<lparr>node_list := ?L\<rparr>" by (simp add: clear_node_def upd_node_def)
  have "?L = set_prev n MM_NULL (set_next n MM_NULL (node_list mm))" by (auto simp: list_head_defs)
  then have "ring ?L MM_HEAD ps"
    using ring_poison [of "node_list mm" MM_HEAD ps n] inv n by (simp add: mm_inv_def mm_layout_def)
  moreover have "tiled (m\<lparr>node_list := L\<rparr>) a qs e = tiled m a qs e" for m L a qs e by (rule tiled_cong) simp
  ultimately have "mm_layout (?mm\<lparr>node_list := ?L\<rparr>) ps"
    using inv' by (simp add: mm_inv_def mm_layout_def hole_node_start_def drm_mm_node_allocated_def)
  moreover have "mm_gaps (?mm\<lparr>node_list := ?L\<rparr>) ps"
    using inv' n by (auto simp: mm_inv_def mm_gaps_def hole_node_start_def hole_node_end_def upd_node_def)
  moreover have "holes_inv (?mm\<lparr>node_list := ?L\<rparr>) (mm_holes ?mm ps)"
    by (rule holes_inv_cong [of ?mm]) (use inv' in \<open>auto simp: mm_inv_def\<close>)
  moreover have "mm_holes (?mm\<lparr>node_list := ?L\<rparr>) ps = mm_holes ?mm ps" 
    unfolding mm_holes_def by (rule filter_cong) (simp_all add: drm_mm_hole_follows_def)
  moreover have "mm_last (?mm\<lparr>node_list := ?L\<rparr>) = mm_last ?mm" by (simp add: mm_last_def fun_eq_iff)
  ultimately show ?thesis unfolding clr using inv' by (simp add: mm_inv_def drm_mm_node_scanned_block_def)
qed

inductive vma_reachable :: "rb_family_lib \<Rightarrow> drm_mm \<Rightarrow> bool" for lib where
  init: "\<lbrakk>\<forall>q. \<not> drm_mm_node_allocated mm q \<and> \<not> drm_mm_node_scanned_block mm q;
    drm_vma_offset_manager_init lib page_offset sz mm = Some mm'\<rbrakk> \<Longrightarrow> vma_reachable lib mm'"
| add: "\<lbrakk>vma_reachable lib mm; drm_vma_offset_add lib (MM_NODE k) pages mm = Some (r, mm')\<rbrakk> \<Longrightarrow> vma_reachable lib mm'"
| remove: "\<lbrakk>vma_reachable lib mm; drm_vma_offset_remove lib (MM_NODE k) mm = Some mm'\<rbrakk> \<Longrightarrow> vma_reachable lib mm'"

abbreviation vma_good :: "drm_mm \<Rightarrow> mm_ref list \<Rightarrow> bool" where
  "vma_good \<equiv> mm_good (\<lambda>_. True)"

lemma clear_node_simps [simp]:
  "q \<noteq> n \<Longrightarrow> mm_nodes (clear_node n mm) q = mm_nodes mm q" "\<not> drm_mm_node_allocated (clear_node n mm) n"
  "\<not> drm_mm_node_scanned_block (clear_node n mm) n" "scan_active (clear_node n mm) = scan_active mm"
  by (simp_all add: clear_node_def drm_mm_node_allocated_def drm_mm_node_scanned_block_def)

lemma insert_node_range: "drm_mm_insert_node lib None n pages mm = drm_mm_insert_node_in_range lib None n pages 0 0 0 (- 1) 0 mm"
  by (simp add: drm_mm_insert_node_def drm_mm_insert_node_generic_def)

context mm_library
begin

lemma add_spec:
  assumes good: "vma_good mm ps"
  obtains (present) "drm_mm_node_allocated mm (MM_NODE k)" "drm_vma_offset_add lib (MM_NODE k) pages mm = Some (0, mm)"
    | (placed) as bs mm' where "\<not> drm_mm_node_allocated mm (MM_NODE k)" "drm_vma_offset_add lib (MM_NODE k) pages mm = Some (0, mm')"
      "ps = as @ bs" "vma_good mm' (as @ MM_NODE k # bs)" "mm_size mm' (MM_NODE k) = pages" "0 < pages"
      "\<forall>q. q \<noteq> MM_NODE k \<longrightarrow> mm_start mm' q = mm_start mm q \<and> mm_size mm' q = mm_size mm q"
    | (full) "\<not> drm_mm_node_allocated mm (MM_NODE k)" "drm_vma_offset_add lib (MM_NODE k) pages mm = Some (neg_errno ENOSPC, mm)"
      "pages = 0 \<or> (\<forall>a. \<not> free_place mm ps pages 0 0 (- 1) a)"
proof (cases "drm_mm_node_allocated mm (MM_NODE k)")
  case True
  then show thesis by (intro present) (simp_all add: drm_vma_offset_add_def)
next
  case False
  note n = mm_good_fresh [OF good False]
  have inv: "mm_inv mm ps" using good by (simp add: mm_good_def)
  have shr: "\<forall>p \<in> set (mm_holes mm ps). color_shrinks None mm 0 p" by (simp add: color_shrinks_def color_adjust_def)
  have add: "drm_vma_offset_add lib (MM_NODE k) pages mm = drm_mm_insert_node_in_range lib None (MM_NODE k) pages 0 0 0 (- 1) 0 mm"
    using False by (simp add: drm_vma_offset_add_def insert_node_range)
  show thesis
  proof (cases rule: insert_spec [OF inv n _ shr, where sz = pages and al = 0 and rs = 0 and re = "- 1" and mode = 0, case_names le placed full])
    case (placed a as bs mm')
    have node: "\<not> drm_mm_node_scanned_block mm' (MM_NODE k)" "drm_mm_node_allocated mm' (MM_NODE k)"
      using placed(3) by (auto simp: mm_inv_def mm_layout_def)
    have "drm_mm_node_allocated mm' q \<longleftrightarrow> q \<in> set (as @ MM_NODE k # bs)" "\<not> drm_mm_node_scanned_block mm' q" for q
      using placed(2,11) node good by (cases "q = MM_NODE k"; simp add: mm_good_def)+
    then have "vma_good mm' (as @ MM_NODE k # bs)" using placed(3,12) good by (simp add: mm_good_def on_grid_def)
    then show thesis using placed False by (intro that(2)) (auto simp: add)
  next
    case full
    then show thesis using False free_place_iff [OF inv, of pages 0 0 "- 1" _ 0] by (intro that(3)) (auto simp: add word_gt_0)
  qed simp
qed

lemma remove_spec:
  assumes good: "vma_good mm ps"
  obtains (absent) "\<not> drm_mm_node_allocated mm (MM_NODE k)" "drm_vma_offset_remove lib (MM_NODE k) mm = Some mm"
    | (removed) as bs mm' where "drm_vma_offset_remove lib (MM_NODE k) mm = Some mm'" "ps = as @ MM_NODE k # bs" "vma_good mm' (as @ bs)"
      "\<forall>q. q \<noteq> MM_NODE k \<longrightarrow> mm_start mm' q = mm_start mm q \<and> mm_size mm' q = mm_size mm q"
proof (cases "drm_mm_node_allocated mm (MM_NODE k)")
  case True
  have inv: "mm_inv mm ps" using good by (simp add: mm_good_def)
  obtain as bs where ps: "ps = as @ MM_NODE k # bs" using good True by (auto simp: mm_good_def dest: split_list)
  obtain m where m: "drm_mm_remove_node lib (MM_NODE k) mm = Some m" "mm_inv m (as @ bs)" "same_blocks mm m"
      "\<forall>q. drm_mm_node_allocated m q \<longleftrightarrow> drm_mm_node_allocated mm q \<and> q \<noteq> MM_NODE k" "scan_active m = scan_active mm"
    by (rule remove_node_spec [OF inv [unfolded ps]]) blast
  have n: "MM_NODE k \<notin> set (MM_HEAD # as @ bs)" using inv ps by (auto simp: mm_inv_def mm_layout_def ring_def)
  let ?m = "clear_node (MM_NODE k) m"
  have same: "mm_nodes ?m q = mm_nodes m q" if "q \<noteq> MM_NODE k" for q using that by simp
  have "drm_mm_node_allocated ?m q \<longleftrightarrow> q \<in> set (as @ bs)" for q
    using same [of q] m(4) good n ps clear_node_simps(2) [of "MM_NODE k" m]
    by (cases "q = MM_NODE k") (auto simp: mm_good_def drm_mm_node_allocated_def)
  moreover have "\<not> drm_mm_node_scanned_block ?m q" for q
    using same [of q] m(3) good clear_node_simps(3) [of "MM_NODE k" m]
    by (cases "q = MM_NODE k") (auto simp: mm_good_def same_blocks_def drm_mm_node_scanned_block_def)
  ultimately have "vma_good ?m (as @ bs)" using clear_node_inv [OF m(2) n] m(5) good by (simp add: mm_good_def on_grid_def)
  then show thesis using m(1,3) True ps by (intro that(2)) (auto simp: drm_vma_offset_remove_def same_blocks_def)
qed (intro that(1), simp_all add: drm_vma_offset_remove_def)

lemma vma_reachable_good: "vma_reachable lib mm \<Longrightarrow> \<exists>ps. vma_good mm ps"
proof (induction rule: vma_reachable.induct)
  case (init mm page_offset sz mm')
  have "mm_reachable lib None (\<lambda>_. True) mm'"
    by (rule mm_reachable.init [OF init(1)]) (use init(2) in \<open>simp_all add: drm_vma_offset_manager_init_def\<close>)
  then show ?case
    using mm_client.reachable_good [OF mm_clientI [OF _ no_color.color_hook_axioms]] mm_library_axioms by (auto simp: mm_library_def)
next
  case (add mm k pages r mm')
  then obtain ps where "vma_good mm ps" by blast
  then show ?case by (rule add_spec [of mm ps k pages]) (use add in auto)
next
  case (remove mm k mm')
  then obtain ps where "vma_good mm ps" by blast
  then show ?case by (rule remove_spec [of mm ps k]) (use remove in auto)
qed

end

text \<open>
  C23. In every state a driver can bring a manager into, the lookup of a range of pages returns the allocated node that spans it, and none
  if there is no such node.
\<close>

theorem vma_lookup_correct:
  assumes "rb_family lib" and "vma_reachable lib mm" and "0 < pages" and "unat start + unat pages < 2 ^ 64"
  shows "drm_vma_offset_lookup_locked mm start pages = Some n \<longleftrightarrow>
    drm_mm_node_allocated mm n \<and> mm_start mm n \<le> start \<and> unat start + unat pages \<le> unat (mm_start mm n + mm_size mm n)"
proof -
  obtain ps where good: "vma_good mm ps" using mm_library.vma_reachable_good assms(1,2) by (auto simp: mm_library_def)
  then have "mm_inv mm ps" "drm_mm_node_allocated mm n \<longleftrightarrow> n \<in> set ps" by (simp_all add: mm_good_def)
  with lookup_spec [of mm ps pages start n] assms(3,4) show ?thesis by (simp add: hole_node_start_def)
qed

text \<open>
  Adding a node returns: \<open>-ENOSPC\<close> with nothing changed, or 0 with the node allocated. A node that was not in the manager before gets the
  number of pages asked for, the exact lookup of its offset finds it, and the other nodes stay where they are. Removing a node returns
  as well; the node is cleared, no lookup finds it, and the other nodes stay where they are.
\<close>

theorem vma_add_remove:
  assumes lib: "rb_family lib" and reach: "vma_reachable lib mm"
  shows "(\<exists>r mm'. drm_vma_offset_add lib (MM_NODE k) pages mm = Some (r, mm') \<and>
      (r = 0 \<and> drm_mm_node_allocated mm' (MM_NODE k) \<or> r = neg_errno ENOSPC \<and> mm' = mm) \<and>
      (\<forall>q. q \<noteq> MM_NODE k \<longrightarrow> drm_mm_node_allocated mm' q = drm_mm_node_allocated mm q \<and>
         mm_start mm' q = mm_start mm q \<and> mm_size mm' q = mm_size mm q) \<and>
      (r = 0 \<and> \<not> drm_mm_node_allocated mm (MM_NODE k) \<longrightarrow>
         mm_size mm' (MM_NODE k) = pages \<and>
         drm_vma_offset_exact_lookup_locked mm' (drm_vma_node_start mm' (MM_NODE k)) pages = Some (MM_NODE k))) \<and>
    (\<exists>mm'. drm_vma_offset_remove lib (MM_NODE k) mm = Some mm' \<and> \<not> drm_mm_node_allocated mm' (MM_NODE k) \<and>
      (\<forall>q. q \<noteq> MM_NODE k \<longrightarrow> drm_mm_node_allocated mm' q = drm_mm_node_allocated mm q \<and>
         mm_start mm' q = mm_start mm q \<and> mm_size mm' q = mm_size mm q) \<and>
      (\<forall>start pages. 0 < pages \<longrightarrow> unat start + unat pages < 2 ^ 64 \<longrightarrow> drm_vma_offset_lookup_locked mm' start pages \<noteq> Some (MM_NODE k)))"
    (is "?add \<and> ?remove")
proof -
  have lib: "mm_library lib" using lib by (simp add: mm_library_def)
  obtain ps where good: "vma_good mm ps" using mm_library.vma_reachable_good [OF lib reach] by blast
  have ?add
  proof (cases rule: mm_library.add_spec [OF lib good, of k pages])
    case (2 as bs mm')
    have inv: "mm_inv mm' (as @ MM_NODE k # bs)" using 2(4) by (simp add: mm_good_def)
    have "tiled mm' (hole_node_start mm' MM_HEAD) (as @ MM_NODE k # bs) (mm_start mm' MM_HEAD)" using inv by (simp add: mm_inv_def mm_layout_def)
    from tiled_bounds [OF this, of "MM_NODE k"] have lt: "mm_start mm' (MM_NODE k) < mm_start mm' (MM_NODE k) + pages"
      using 2(5) by (simp add: hole_node_start_def)
    then have sum: "unat (mm_start mm' (MM_NODE k) + pages) = unat (mm_start mm' (MM_NODE k)) + unat pages"
      by (metis unat_plus_simple less_imp_le)
    then have "unat (mm_start mm' (MM_NODE k)) + unat pages < 2 ^ 64"
      using unsigned_less [of "mm_start mm' (MM_NODE k) + pages", where ?'a = nat] by simp
    with lookup_spec [OF inv 2(6)] have "drm_vma_offset_lookup_locked mm' (mm_start mm' (MM_NODE k)) pages = Some (MM_NODE k)"
      using sum 2(5) by (simp add: hole_node_start_def)
    moreover have "drm_mm_node_allocated mm' q \<longleftrightarrow> q \<in> set (as @ MM_NODE k # bs)" for q using 2(4) by (simp add: mm_good_def)
    ultimately show ?thesis using 2 good
      by (simp add: drm_vma_offset_exact_lookup_locked_def drm_vma_node_start_def mm_good_def)
  qed auto
  moreover have ?remove
  proof (cases rule: mm_library.remove_spec [OF lib good, of k])
    case 1
    then show ?thesis using lookup_spec [of mm ps] good by (auto simp: mm_good_def)
  next
    case (2 as bs mm')
    have dis: "MM_NODE k \<notin> set (as @ bs)" using good 2(2) by (auto simp: mm_good_def mm_inv_def mm_layout_def ring_def)
    have al: "drm_mm_node_allocated mm' q \<longleftrightarrow> q \<in> set (as @ bs)" "drm_mm_node_allocated mm q \<longleftrightarrow> q \<in> set ps" for q
      using 2(3) good by (simp_all add: mm_good_def)
    have "mm_inv mm' (as @ bs)" using 2(3) by (simp add: mm_good_def)
    with lookup_spec dis have "drm_vma_offset_lookup_locked mm' start pages \<noteq> Some (MM_NODE k)"
      if "0 < pages" "unat start + unat pages < 2 ^ 64" for start pages using that by blast
    then show ?thesis using 2(1,2,4) al dis by auto
  qed
  ultimately show ?thesis ..
qed

text \<open>A manager with one node.\<close>

lemma example_manager:
  obtains mm where "vma_reachable plain_lib mm" "\<not> drm_mm_node_allocated mm (MM_NODE 1)"
    "drm_vma_offset_manager_init plain_lib 0x1000 0x10000 mm_zero = Some mm"
proof -
  obtain mm where mm: "drm_mm_init plain_lib 0x1000 0x10000 mm_zero = Some mm" "\<And>q. q \<noteq> MM_HEAD \<Longrightarrow> mm_nodes mm q = mm_nodes mm_zero q"
    by (rule plain_mm.init_spec [of "0x1000" "0x10000" mm_zero]) auto
  then have init: "drm_vma_offset_manager_init plain_lib 0x1000 0x10000 mm_zero = Some mm" by (simp add: drm_vma_offset_manager_init_def)
  have "vma_reachable plain_lib mm" by (rule vma_reachable.init [OF _ init]) (simp add: mm_zero_clear)
  moreover have "\<not> drm_mm_node_allocated mm (MM_NODE 1)" using mm(2) mm_zero_clear(1) by (simp add: drm_mm_node_allocated_def)
  ultimately show thesis using init by (rule that)
qed

theorem vma_lookup_correct_witness:
  "\<exists>mm. vma_reachable plain_lib mm \<and> drm_vma_offset_lookup_locked mm 0x2000 1 \<noteq> Some (MM_NODE 1)"
proof -
  obtain mm where mm: "vma_reachable plain_lib mm" "\<not> drm_mm_node_allocated mm (MM_NODE 1)" by (rule example_manager)
  with vma_lookup_correct [OF plain_family.rb_family_axioms mm(1), of 1 "0x2000" "MM_NODE 1"] show ?thesis by auto
qed

theorem vma_add_remove_witness:
  "\<exists>mm r mm'. vma_reachable plain_lib mm \<and> drm_vma_offset_add plain_lib (MM_NODE 1) 16 mm = Some (r, mm') \<and>
    (r = 0 \<and> drm_mm_node_allocated mm' (MM_NODE 1) \<or> r = neg_errno ENOSPC \<and> mm' = mm)"
proof -
  obtain mm where mm: "vma_reachable plain_lib mm" by (rule example_manager)
  with vma_add_remove [OF plain_family.rb_family_axioms mm, of 1 16] show ?thesis by blast
qed

section \<open>Access as a count for each file\<close>

text \<open>
  The abstract view of the tree is the number of times an open file is allowed to map the object. The operations on it:
\<close>

datatype file_op = Allow u64 bool | AllowOnce u64 bool | Revoke u64

fun file_spec :: "file_op \<Rightarrow> (u64 \<Rightarrow> nat) \<Rightarrow> u64 \<Rightarrow> nat" where
  "file_spec (Allow tag mem) f = (if f tag = 0 \<and> \<not> mem then f else f(tag := f tag + 1))"
| "file_spec (AllowOnce tag mem) f = (if f tag = 0 \<and> mem then f(tag := 1) else f)"
| "file_spec (Revoke tag) f = f(tag := f tag - 1)"

fun file_exec :: "drm_vma_offset_file rb_lib \<Rightarrow> file_op \<Rightarrow> drm_vma_offset_file rbt \<Rightarrow> drm_vma_offset_file rbt" where
  "file_exec lib (Allow tag mem) files = snd (drm_vma_node_allow lib mem tag files)"
| "file_exec lib (AllowOnce tag mem) files = snd (drm_vma_node_allow_once lib mem tag files)"
| "file_exec lib (Revoke tag) files = drm_vma_node_revoke lib tag files"

definition files_inv :: "drm_vma_offset_file rbt \<Rightarrow> bool" where
  "files_inv files \<longleftrightarrow>
     sorted_wrt (\<lambda>x y. vm_tag x < vm_tag y) (inorder files) \<and> (\<forall>e \<in> set (inorder files). vm_count e \<noteq> 0)"

definition files_abs :: "drm_vma_offset_file rbt \<Rightarrow> u64 \<Rightarrow> nat" where
  "files_abs files tag = (case file_walk tag files of None \<Rightarrow> 0 | Some e \<Rightarrow> unat (vm_count e))"

lemma file_walk_iff:
  "sorted_wrt (\<lambda>x y. vm_tag x < vm_tag y) (inorder files) \<Longrightarrow>
   file_walk tag files = Some e \<longleftrightarrow> e \<in> set (inorder files) \<and> vm_tag e = tag"
proof (induction files)
  case (Node l x m r)
  then have "\<forall>y \<in> set (inorder l). vm_tag y < vm_tag x" "\<forall>y \<in> set (inorder r). vm_tag x < vm_tag y"
    by (auto simp: sorted_wrt_append)
  with Node show ?case by (auto simp: sorted_wrt_append)
qed simp

lemma file_walk_none:
  "sorted_wrt (\<lambda>x y. vm_tag x < vm_tag y) (inorder files) \<Longrightarrow> file_walk tag files = None \<longleftrightarrow> tag \<notin> vm_tag ` set (inorder files)"
  unfolding image_iff using file_walk_iff [of files tag] by (metis not_None_eq)

lemma inorder_set_file:
  "\<lbrakk>sorted_wrt (\<lambda>x y. vm_tag x < vm_tag y) (inorder files); vm_tag e \<in> vm_tag ` set (inorder files)\<rbrakk> \<Longrightarrow>
   inorder (set_file e files) = map (\<lambda>x. if vm_tag x = vm_tag e then e else x) (inorder files)"
proof (induction files)
  case (Node l x m r)
  have lt: "\<forall>y \<in> set (inorder l). vm_tag y < vm_tag x" "\<forall>y \<in> set (inorder r). vm_tag x < vm_tag y"
    using Node.prems(1) by (auto simp: sorted_wrt_append)
  have idle: "map (\<lambda>x. if vm_tag x = vm_tag e then e else x) xs = xs" if "\<forall>y \<in> set xs. vm_tag y \<noteq> vm_tag e" for xs
    using that by (induction xs) auto
  consider (here) "vm_tag e = vm_tag x" | (right) "vm_tag x < vm_tag e" | (left) "vm_tag e < vm_tag x" by (rule linorder_cases [of "vm_tag e" "vm_tag x"]) auto
  then show ?case
  proof cases
    case here
    have "map (\<lambda>x. if vm_tag x = vm_tag e then e else x) (inorder l) = inorder l"
      "map (\<lambda>x. if vm_tag x = vm_tag e then e else x) (inorder r) = inorder r" by (rule idle; use lt here in auto)+
    with here show ?thesis by simp
  next
    case right
    then have "vm_tag e \<in> vm_tag ` set (inorder r)" using Node.prems(2) lt by auto
    moreover have "map (\<lambda>x. if vm_tag x = vm_tag e then e else x) (inorder l) = inorder l" by (rule idle) (use lt right in auto)
    moreover have "vm_tag e \<noteq> vm_tag x" using right by simp
    ultimately show ?thesis using Node.IH(2) Node.prems(1) right by (simp add: sorted_wrt_append)
  next
    case left
    then have "vm_tag e \<in> vm_tag ` set (inorder l)" using Node.prems(2) lt by auto
    moreover have "map (\<lambda>x. if vm_tag x = vm_tag e then e else x) (inorder r) = inorder r" by (rule idle) (use lt left in auto)
    moreover have "\<not> vm_tag x < vm_tag e" "vm_tag e \<noteq> vm_tag x" using left by simp_all
    ultimately show ?thesis using Node.IH(1) Node.prems(1) left by (simp add: sorted_wrt_append)
  qed
qed simp

lemma set_link_file: "set (inorder (link_file e files)) = insert e (set (inorder files))"
  by (induction files) auto

lemma link_file_sorted:
  "\<lbrakk>sorted_wrt (\<lambda>x y. vm_tag x < vm_tag y) (inorder files); vm_tag e \<notin> vm_tag ` set (inorder files)\<rbrakk> \<Longrightarrow>
   sorted_wrt (\<lambda>x y. vm_tag x < vm_tag y) (inorder (link_file e files))"
  by (induction files) (auto simp: sorted_wrt_append set_link_file image_Un not_less order.order_iff_strict intro: order.strict_trans)

lemma sorted_tags_distinct: "sorted_wrt (\<lambda>x y. vm_tag x < vm_tag y) xs \<Longrightarrow> distinct xs"
  by (induction xs) auto

text \<open>The counts are determined by the entries.\<close>

lemma files_abs_entry:
  assumes "sorted_wrt (\<lambda>x y. vm_tag x < vm_tag y) (inorder files)"
  shows "e \<in> set (inorder files) \<Longrightarrow> files_abs files (vm_tag e) = unat (vm_count e)"
    and "tag \<notin> vm_tag ` set (inorder files) \<Longrightarrow> files_abs files tag = 0"
  using file_walk_iff [OF assms, of "vm_tag e" e] file_walk_none [OF assms, of tag] by (auto simp: files_abs_def)

lemma files_abs_upd:
  assumes srt: "sorted_wrt (\<lambda>x y. vm_tag x < vm_tag y) (inorder files)" "sorted_wrt (\<lambda>x y. vm_tag x < vm_tag y) (inorder files')"
    and same: "\<forall>x. vm_tag x \<noteq> tag \<longrightarrow> (x \<in> set (inorder files') \<longleftrightarrow> x \<in> set (inorder files))" and tag: "files_abs files' tag = c"
  shows "files_abs files' = (files_abs files)(tag := c)"
proof
  fix t
  have "file_walk t files' = Some e \<longleftrightarrow> file_walk t files = Some e" if "t \<noteq> tag" for e
    using same that by (auto simp: file_walk_iff [OF srt(1)] file_walk_iff [OF srt(2)])
  then have "t \<noteq> tag \<Longrightarrow> file_walk t files' = file_walk t files" by (metis not_None_eq)
  then show "files_abs files' t = ((files_abs files)(tag := c)) t" using tag by (simp add: files_abs_def)
qed

lemma files_abs_set_file:
  assumes srt: "sorted_wrt (\<lambda>x y. vm_tag x < vm_tag y) (inorder files)" and e: "e \<in> set (inorder files)" "vm_tag e' = vm_tag e"
  shows "sorted_wrt (\<lambda>x y. vm_tag x < vm_tag y) (inorder (set_file e' files))"
    and "set (inorder (set_file e' files)) = insert e' (set (inorder files) - {e})"
    and "files_abs (set_file e' files) = (files_abs files)(vm_tag e := unat (vm_count e'))"
proof -
  have io: "inorder (set_file e' files) = map (\<lambda>x. if vm_tag x = vm_tag e' then e' else x) (inorder files)"
    using e by (intro inorder_set_file [OF srt]) auto
  have uniq: "vm_tag x = vm_tag e \<longleftrightarrow> x = e" if "x \<in> set (inorder files)" for x
    using that e(1) file_walk_iff [OF srt, of "vm_tag e"] by (metis option.inject)
  show S: "sorted_wrt (\<lambda>x y. vm_tag x < vm_tag y) (inorder (set_file e' files))"
    unfolding io by (simp add: sorted_wrt_map e(2), rule sorted_wrt_mono_rel [OF _ srt]) (auto simp: e(2))
  show sets: "set (inorder (set_file e' files)) = insert e' (set (inorder files) - {e})"
    unfolding io using uniq e by auto
  show "files_abs (set_file e' files) = (files_abs files)(vm_tag e := unat (vm_count e'))"
  proof (rule files_abs_upd [OF srt S])
    show "files_abs (set_file e' files) (vm_tag e) = unat (vm_count e')" using files_abs_entry(1) [OF S, of e'] sets e(2) by simp
  qed (use sets e in auto)
qed

lemma files_abs_zero: "files_inv files \<Longrightarrow> files_abs files tag = 0 \<longleftrightarrow> file_walk tag files = None"
  by (auto simp: files_inv_def files_abs_def file_walk_iff unat_eq_0 split: option.split)

lemma vma_node_allow_spec:
  assumes lib: "rb_library (\<lambda>_. 0) lib" and inv: "files_inv files" and bound: "files_abs files tag + 1 < 2 ^ 64"
    and run: "vma_node_allow lib mem tag ref_counted files = (r, files')"
  shows "r = (if files_abs files tag = 0 \<and> \<not> mem then neg_errno ENOMEM else 0)" and "files_inv files'"
    and "files_abs files' = (if files_abs files tag = 0 \<and> \<not> mem then files_abs files
      else if ref_counted \<or> files_abs files tag = 0 then (files_abs files)(tag := files_abs files tag + 1) else files_abs files)"
proof -
  note srt = inv [unfolded files_inv_def, THEN conjunct1] and zero = files_abs_zero [OF inv, of tag]
  have "r = (if files_abs files tag = 0 \<and> \<not> mem then neg_errno ENOMEM else 0) \<and> files_inv files' \<and>
    files_abs files' = (if files_abs files tag = 0 \<and> \<not> mem then files_abs files
      else if ref_counted \<or> files_abs files tag = 0 then (files_abs files)(tag := files_abs files tag + 1) else files_abs files)"
  proof (cases "file_walk tag files")
    case None
    let ?e = "\<lparr>vm_tag = tag, vm_count = 1\<rparr>"
    let ?t = "rb_insert_augmented lib (link_file ?e files)"
    have fresh: "vm_tag ?e \<notin> vm_tag ` set (inorder files)" using None file_walk_none [OF srt] by simp
    have io: "inorder ?t = inorder (link_file ?e files)" by (rule rb_library.insert_inorder [OF lib])
    have S: "sorted_wrt (\<lambda>x y. vm_tag x < vm_tag y) (inorder ?t)" unfolding io by (rule link_file_sorted [OF srt fresh])
    have sets: "set (inorder ?t) = insert ?e (set (inorder files))" unfolding io by (rule set_link_file)
    have "files_abs ?t = (files_abs files)(tag := 1)"
    proof (rule files_abs_upd [OF srt S])
      show "files_abs ?t tag = 1" using files_abs_entry(1) [OF S, of ?e] sets by simp
    qed (use sets in auto)
    moreover have "files_inv ?t" using S sets inv by (auto simp: files_inv_def)
    ultimately show ?thesis using run None zero inv by (auto simp: vma_node_allow_def split: if_splits)
  next
    case (Some e)
    then have e: "e \<in> set (inorder files)" "vm_tag e = tag" using file_walk_iff [OF srt] by auto
    then have cnt: "files_abs files tag = unat (vm_count e)" using files_abs_entry(1) [OF srt e(1)] by simp
    let ?e = "e\<lparr>vm_count := vm_count e + 1\<rparr>"
    note set = files_abs_set_file [OF srt e(1), of ?e]
    have up: "unat (vm_count e + 1) = unat (vm_count e) + 1" using bound cnt unat_add_lem [of "vm_count e" 1] by simp
    then have "vm_count e + 1 \<noteq> 0" by auto
    then have "files_inv (set_file ?e files)" "files_abs (set_file ?e files) = (files_abs files)(tag := files_abs files tag + 1)"
      using set inv up cnt e(2) by (auto simp: files_inv_def)
    then show ?thesis using run Some zero inv by (auto simp: vma_node_allow_def split: if_splits)
  qed
  then show "r = (if files_abs files tag = 0 \<and> \<not> mem then neg_errno ENOMEM else 0)" and "files_inv files'"
    and "files_abs files' = (if files_abs files tag = 0 \<and> \<not> mem then files_abs files
      else if ref_counted \<or> files_abs files tag = 0 then (files_abs files)(tag := files_abs files tag + 1) else files_abs files)"
    by blast+
qed

lemma revoke_spec:
  assumes lib: "rb_library (\<lambda>_. 0) lib" and inv: "files_inv files"
  shows "files_inv (drm_vma_node_revoke lib tag files) \<and>
    files_abs (drm_vma_node_revoke lib tag files) = (files_abs files)(tag := files_abs files tag - 1)"
proof (cases "file_walk tag files")
  case None
  then have "(files_abs files)(tag := files_abs files tag - 1) = files_abs files" using files_abs_zero [OF inv, of tag] by (simp add: fun_upd_idem)
  then show ?thesis using None inv by (simp add: drm_vma_node_revoke_def)
next
  case (Some e)
  note srt = inv [unfolded files_inv_def, THEN conjunct1]
  have e: "e \<in> set (inorder files)" "vm_tag e = tag" using Some file_walk_iff [OF srt] by auto
  let ?e = "e\<lparr>vm_count := vm_count e - 1\<rparr>" and ?t = "set_file (e\<lparr>vm_count := vm_count e - 1\<rparr>) files"
  note set = files_abs_set_file [OF srt e(1), of ?e]
  have "vm_count e \<noteq> 0" using inv e(1) by (simp add: files_inv_def)
  then have down: "unat (vm_count e - 1) = unat (vm_count e) - 1" by (simp add: unat_minus_one)
  have cnt: "files_abs files tag = unat (vm_count e)" using files_abs_entry(1) [OF srt e(1)] e(2) by simp
  have abs: "files_abs ?t = (files_abs files)(tag := files_abs files tag - 1)" using set(3) down cnt e(2) by simp
  show ?thesis
  proof (cases "vm_count e - 1 = 0")
    case False
    then have "files_inv ?t" using set(1,2) inv by (auto simp: files_inv_def)
    with False abs Some show ?thesis by (simp add: drm_vma_node_revoke_def Let_def)
  next
    case True
    let ?u = "rb_erase_augmented lib ?e ?t"
    have S: "sorted_wrt (\<lambda>x y. vm_tag x < vm_tag y) (inorder ?t)" using set(1) by simp
    have mem: "?e \<in> set (inorder ?t)" using set(2) by simp
    obtain as bs where t: "inorder ?t = as @ ?e # bs" using split_list [OF mem] by blast
    have dis: "distinct (inorder ?t)" using S by (auto intro: sorted_tags_distinct)
    have io: "inorder ?u = as @ bs" using rb_library.erase_inorder [OF lib dis, of ?e] dis t by (simp add: remove1_append)
    then have U: "sorted_wrt (\<lambda>x y. vm_tag x < vm_tag y) (inorder ?u)" using S t by (simp add: sorted_wrt_append)
    have sets: "set (inorder ?u) = set (inorder files) - {e}"
    proof -
      have "set (inorder ?u) = set (inorder ?t) - {?e}" using io t dis by auto
      moreover have "?e \<notin> set (inorder files)" using inv True unfolding files_inv_def by fastforce
      ultimately show ?thesis using set(2) by auto
    qed
    have only: "vm_tag x = tag \<longleftrightarrow> x = e" if "x \<in> set (inorder files)" for x
      using that e file_walk_iff [OF srt, of tag] by (metis option.inject)
    have "files_abs ?u = (files_abs files)(tag := 0)"
    proof (rule files_abs_upd [OF srt U])
      show "files_abs ?u tag = 0" using sets only by (intro files_abs_entry(2) [OF U]) auto
    qed (use sets e in auto)
    moreover have "files_inv ?u" using U sets inv by (auto simp: files_inv_def)
    moreover have "files_abs files tag - 1 = 0" using cnt down True by (simp add: unat_eq_0 [symmetric])
    ultimately show ?thesis using Some True by (simp add: drm_vma_node_revoke_def Let_def)
  qed
qed

lemma file_exec_spec:
  assumes lib: "rb_library (\<lambda>_. 0) lib" and inv: "files_inv files" and bound: "\<forall>tag. files_abs files tag + 1 < 2 ^ 64"
  shows "files_inv (file_exec lib op files) \<and> files_abs (file_exec lib op files) = file_spec op (files_abs files)"
proof (cases op)
  case (Allow tag mem)
  obtain r t where run: "vma_node_allow lib mem tag True files = (r, t)" by fastforce
  note allow = vma_node_allow_spec [OF lib inv spec [OF bound] run]
  show ?thesis using allow(2,3) run by (simp add: Allow drm_vma_node_allow_def)
next
  case (AllowOnce tag mem)
  obtain r t where run: "vma_node_allow lib mem tag False files = (r, t)" by fastforce
  note allow = vma_node_allow_spec [OF lib inv spec [OF bound] run]
  show ?thesis using allow(2,3) run by (auto simp: AllowOnce drm_vma_node_allow_once_def)
next
  case (Revoke tag)
  then show ?thesis using revoke_spec [OF lib inv] by simp
qed

lemma file_spec_bound: "\<forall>tag. f tag \<le> n \<Longrightarrow> file_spec op f tag \<le> Suc n"
proof -
  assume "\<forall>tag. f tag \<le> n"
  then have le: "f t \<le> n" for t by blast
  then have "f t - 1 \<le> Suc n" for t by (meson diff_le_self le_SucI order_trans)
  with le show ?thesis by (cases op) (auto simp: le_SucI)
qed

lemma file_run_spec:
  assumes lib: "rb_library (\<lambda>_. 0) lib"
  shows "length ops < 2 ^ 64 - 1 \<Longrightarrow> files_inv (fold (file_exec lib) ops Leaf) \<and>
    files_abs (fold (file_exec lib) ops Leaf) = fold file_spec ops (\<lambda>_. 0) \<and> (\<forall>tag. fold file_spec ops (\<lambda>_. 0) tag \<le> length ops)"
proof (induction ops rule: rev_induct)
  case Nil
  then show ?case by (simp add: files_inv_def files_abs_def fun_eq_iff)
next
  case (snoc op ops)
  then have IH: "files_inv (fold (file_exec lib) ops Leaf)" "files_abs (fold (file_exec lib) ops Leaf) = fold file_spec ops (\<lambda>_. 0)"
    "\<forall>tag. fold file_spec ops (\<lambda>_. 0) tag \<le> length ops" and len: "length ops + 1 < 2 ^ 64" by auto
  have "\<forall>tag. files_abs (fold (file_exec lib) ops Leaf) tag + 1 < 2 ^ 64"
    unfolding IH(2)
  proof
    fix tag
    show "fold file_spec ops (\<lambda>_. 0) tag + 1 < 2 ^ 64" using spec [OF IH(3), of tag] len by linarith
  qed
  from file_exec_spec [OF lib IH(1) this, of op] IH(2) file_spec_bound [OF IH(3), of op] show ?case by simp
qed

text \<open>
  C24. The access control of an object refines a counter for each open file: after any sequence of operations, with allocations that
  may fail, a file has access exactly if it was allowed more often than revoked, where allowing once does not count up, revoking does
  nothing at zero, and allowing fails with \<open>-ENOMEM\<close> only for a file without access when there is no memory.
\<close>

theorem vma_access_refines:
  assumes "rb_library (\<lambda>_. 0) lib" and "length ops < 2 ^ 64 - 1"
    and files: "files = fold (file_exec lib) ops Leaf" and counts: "f = fold file_spec ops (\<lambda>_. 0)"
  shows "(drm_vma_node_is_allowed tag files \<longleftrightarrow> 0 < f tag) \<and>
    drm_vma_node_verify_access tag files = (if 0 < f tag then 0 else neg_errno EACCES) \<and>
    fst (drm_vma_node_allow lib mem tag files) = (if f tag = 0 \<and> \<not> mem then neg_errno ENOMEM else 0) \<and>
    fst (drm_vma_node_allow_once lib mem tag files) = (if f tag = 0 \<and> \<not> mem then neg_errno ENOMEM else 0)"
proof -
  have run: "files_inv files" "files_abs files = f" and le: "f tag \<le> length ops" using file_run_spec [OF assms(1,2)] by (simp_all add: files counts)
  have bound: "files_abs files tag + 1 < 2 ^ 64" using le assms(2) run(2) by simp
  have "fst (vma_node_allow lib mem tag ref files) = (if f tag = 0 \<and> \<not> mem then neg_errno ENOMEM else 0)" for ref
    using vma_node_allow_spec(1) [OF assms(1) run(1) bound, of mem ref] run(2) by (metis prod.collapse)
  moreover have "drm_vma_node_is_allowed tag files \<longleftrightarrow> 0 < f tag"
    using files_abs_zero [OF run(1), of tag] run(2) by (auto simp: drm_vma_node_is_allowed_def)
  ultimately show ?thesis by (simp add: drm_vma_node_allow_def drm_vma_node_allow_once_def drm_vma_node_verify_access_def)
qed

theorem vma_access_refines_witness:
  "drm_vma_node_verify_access 5 (fold (file_exec (plain_lib (\<lambda>_. 0))) [Allow 5 True, Allow 7 True, Allow 5 False, Revoke 5] Leaf) = 0 \<and>
   drm_vma_node_verify_access 7 (fold (file_exec (plain_lib (\<lambda>_. 0))) [Allow 7 True, AllowOnce 7 True, Revoke 7] Leaf) = neg_errno EACCES"
  using vma_access_refines [OF plain_lib_laws _ refl refl, of "[Allow 5 True, Allow 7 True, Allow 5 False, Revoke 5]" 5]
    vma_access_refines [OF plain_lib_laws _ refl refl, of "[Allow 7 True, AllowOnce 7 True, Revoke 7]" 7] by simp

end
