(* ===== verification/MST_Payload.thy ===== *)
theory MST_Payload
  imports DP_Aux
begin

text \<open>
  Payloads of the multi-stream transport, from \<open>drm_dp_mst_topology.c\<close> and, for the payload table of the sink, \<open>drm_dp_helper.c\<close>: the definitions.

  An atomic state lists the payloads of a topology with the time slots and the bandwidth (\<open>pbn\<close>) each of them needs. The check
  phase changes the list, assigns the identifiers (VCPI) and compares slots and bandwidth with the limits; the commit phase gives each payload its
  first time slot and tells the sink and the branch devices.

  Pointers to ports and branch devices are numbers. The topology is the tree of \<open>mst_primary\<close>; a payload names its port together with the
  pointers to the parents above it, which the upward search follows. The reference counts of ports are left out; whether the allocation of
  memory succeeds is an argument (\<open>mem\<close>), as is the atomic state of connectors and CRTCs. The argument \<open>send\<close> stands for
  \<open>drm_dp_payload_send_msg\<close>, which sends a sideband message and waits for the reply.
\<close>

section \<open>Topology and state\<close>

record mst_port_info =
  tp_ptr :: nat
  tp_pdt :: u8
  tp_mcs :: bool
  tp_full_pbn :: u16
  tp_live :: bool

datatype top_branch = TopBranch (tb_ptr: nat) (tb_ports: "top_port list")
  and top_port = TopPort (tp_info: mst_port_info) (tp_mstb: "top_branch option")

datatype up_port = UpPort (up_ptr: nat) (up_parent: "up_branch option")
  and up_branch = UpBranch nat "up_port option"

datatype payload_allocation = ALLOCATION_NONE | ALLOCATION_LOCAL | ALLOCATION_DFP | ALLOCATION_REMOTE

text \<open>The field \<open>vc_start_slot\<close> is an \<open>s8\<close>; it is kept as a word and compared with its sign.\<close>

record drm_dp_mst_atomic_payload =
  pl_port :: up_port
  vc_start_slot :: u8
  vcpi :: u8
  time_slots :: int
  pl_pbn :: int
  pl_delete :: bool
  dsc_enabled :: bool
  allocation_status :: payload_allocation

record drm_dp_mst_topology_state =
  pending_crtc_mask :: u32
  payload_mask :: u32
  payloads :: "drm_dp_mst_atomic_payload list"
  total_avail_slots :: u8
  start_slot :: u8
  pbn_div :: u32

record 'a payload_mgr =
  pm_aux :: "'a drm_dp_aux"
  mst_enabled :: bool
  max_payloads :: int
  payload_count :: u8
  next_start_slot :: u8
  mst_primary :: "top_branch option"

abbreviation pl_ptr :: "drm_dp_mst_atomic_payload \<Rightarrow> nat" where
  "pl_ptr p \<equiv> up_ptr (pl_port p)"

definition DP_PEER_DEVICE_NONE :: u8 where "DP_PEER_DEVICE_NONE = 0"
definition DP_PEER_DEVICE_MST_BRANCHING :: u8 where "DP_PEER_DEVICE_MST_BRANCHING = 2"
definition DP_PEER_DEVICE_SST_SINK :: u8 where "DP_PEER_DEVICE_SST_SINK = 3"
definition DP_PEER_DEVICE_DP_LEGACY_CONV :: u8 where "DP_PEER_DEVICE_DP_LEGACY_CONV = 4"
definition DP_PAYLOAD_ALLOCATE_SET :: nat where "DP_PAYLOAD_ALLOCATE_SET = 0x1c0"
definition DP_PAYLOAD_TABLE_UPDATE_STATUS :: nat where "DP_PAYLOAD_TABLE_UPDATE_STATUS = 0x2c0"
definition DP_PAYLOAD_TABLE_UPDATED :: u8 where "DP_PAYLOAD_TABLE_UPDATED = 1"

lemmas pdt_defs = DP_PEER_DEVICE_NONE_def DP_PEER_DEVICE_MST_BRANCHING_def DP_PEER_DEVICE_SST_SINK_def DP_PEER_DEVICE_DP_LEGACY_CONV_def

definition drm_dp_mst_is_end_device :: "u8 \<Rightarrow> bool \<Rightarrow> bool" where
  "drm_dp_mst_is_end_device pdt mcs =
     (if pdt = DP_PEER_DEVICE_DP_LEGACY_CONV \<or> pdt = DP_PEER_DEVICE_SST_SINK then True
      else if pdt = DP_PEER_DEVICE_MST_BRANCHING then \<not> mcs else True)"

fun get_port_validated_locked :: "nat \<Rightarrow> top_branch \<Rightarrow> mst_port_info option"
  and validated_in_ports :: "nat \<Rightarrow> top_port list \<Rightarrow> mst_port_info option" where
  "get_port_validated_locked to_find (TopBranch b ports) = validated_in_ports to_find ports"
| "validated_in_ports to_find [] = None"
| "validated_in_ports to_find (TopPort port None # ports) =
     (if tp_ptr port = to_find then Some port else validated_in_ports to_find ports)"
| "validated_in_ports to_find (TopPort port (Some mstb) # ports) =
     (if tp_ptr port = to_find then Some port
      else case get_port_validated_locked to_find mstb of Some mport \<Rightarrow> Some mport | None \<Rightarrow> validated_in_ports to_find ports)"

definition drm_dp_mst_topology_get_port_validated :: "'a payload_mgr \<Rightarrow> nat \<Rightarrow> mst_port_info option" where
  "drm_dp_mst_topology_get_port_validated mgr port =
     (case mst_primary mgr of
        None \<Rightarrow> None
      | Some mstb \<Rightarrow>
          (case get_port_validated_locked port mstb of
             None \<Rightarrow> None
           | Some rport \<Rightarrow> if tp_live rport then Some rport else None))"

text \<open>The branch is a pointer that may be null.\<close>

fun drm_dp_mst_port_downstream_of_branch :: "up_port \<Rightarrow> nat option \<Rightarrow> bool" where
  "drm_dp_mst_port_downstream_of_branch (UpPort p None) branch = False"
| "drm_dp_mst_port_downstream_of_branch (UpPort p (Some (UpBranch b None))) branch = (branch = Some b)"
| "drm_dp_mst_port_downstream_of_branch (UpPort p (Some (UpBranch b (Some port)))) branch =
     (branch = Some b \<or> drm_dp_mst_port_downstream_of_branch port branch)"

definition drm_atomic_get_mst_payload_state :: "drm_dp_mst_topology_state \<Rightarrow> nat \<Rightarrow> drm_dp_mst_atomic_payload option" where
  "drm_atomic_get_mst_payload_state st port = find (\<lambda>payload. pl_ptr payload = port) (payloads st)"

text \<open>Writes to a payload through the pointer the caller got.\<close>

definition upd_payload ::
    "nat \<Rightarrow> (drm_dp_mst_atomic_payload \<Rightarrow> drm_dp_mst_atomic_payload) \<Rightarrow> drm_dp_mst_topology_state \<Rightarrow> drm_dp_mst_topology_state" where
  "upd_payload port f st = st\<lparr>payloads := map (\<lambda>p. if pl_ptr p = port then f p else p) (payloads st)\<rparr>"

section \<open>The check phase\<close>

text \<open>
  \<open>crtc_mask\<close> is the mask of the CRTC of the connector. The division by \<open>pbn_div\<close> has no result if it is zero. \<open>got\<close> is the result of
  \<open>drm_atomic_get_mst_topology_state\<close>, an error or the state.
\<close>

type_synonym got_state = "int + drm_dp_mst_topology_state"

definition drm_dp_atomic_find_time_slots :: "got_state \<Rightarrow> u32 \<Rightarrow> bool \<Rightarrow> up_port \<Rightarrow> int \<Rightarrow> (int \<times> got_state) option" where
  "drm_dp_atomic_find_time_slots got crtc_mask mem port pbn =
     (case got of
        Inl err \<Rightarrow> Some (err, got)
      | Inr st \<Rightarrow>
          (let st = st\<lparr>pending_crtc_mask := pending_crtc_mask st OR crtc_mask\<rparr>;
               payload = drm_atomic_get_mst_payload_state st (up_ptr port)
           in if (case payload of Some p \<Rightarrow> pl_delete p | None \<Rightarrow> False) then Some (neg_errno EINVAL, Inr st)
              else if pbn_div st = 0 then None
              else
                (let req_slots = to_s32 (uint ((word_of_int (pbn * 4096) + pbn_div st - 1) div pbn_div st))
                 in case payload of
                      Some p \<Rightarrow> Some (req_slots, Inr (upd_payload (up_ptr port) (\<lambda>p. p\<lparr>time_slots := req_slots, pl_pbn := pbn\<rparr>) st))
                    | None \<Rightarrow>
                        if \<not> mem then Some (neg_errno ENOMEM, Inr st)
                        else
                          (let p = \<lparr>pl_port = port, vc_start_slot = - 1, vcpi = 0, time_slots = req_slots, pl_pbn = pbn, pl_delete = False,
                                    dsc_enabled = False, allocation_status = ALLOCATION_NONE\<rparr>
                           in Some (req_slots, Inr (st\<lparr>payloads := p # payloads st\<rparr>))))))"

text \<open>
  The CRTC of the old connector state is its mask, that of the new one its CRTC state in the atomic state, if there is one: the
  result of \<open>drm_atomic_crtc_needs_modeset\<close> and the flags \<open>mode_changed\<close> and \<open>connectors_changed\<close>.
\<close>

record crtc_change =
  cc_needs_modeset :: bool
  cc_mode_changed :: bool
  cc_connectors_changed :: bool

definition vcpi_bit :: "u8 \<Rightarrow> u32" where
  "vcpi_bit v = ucast (push_bit (unat v - 1) (1 :: u64))"

definition drm_dp_atomic_release_time_slots ::
    "got_state \<Rightarrow> u32 option \<Rightarrow> crtc_change option option \<Rightarrow> nat \<Rightarrow> int \<times> got_state" where
  "drm_dp_atomic_release_time_slots got old_crtc new_crtc port =
     (case old_crtc of
        None \<Rightarrow> (0, got)
      | Some crtc_mask \<Rightarrow>
          if (case new_crtc of Some None \<Rightarrow> True | Some (Some c) \<Rightarrow> \<not> cc_needs_modeset c | None \<Rightarrow> False) then (0, got)
          else
            (let update_payload = (case new_crtc of Some (Some c) \<Rightarrow> cc_mode_changed c \<or> cc_connectors_changed c | _ \<Rightarrow> True)
             in case got of
                  Inl err \<Rightarrow> (err, got)
                | Inr st \<Rightarrow>
                    (let st = st\<lparr>pending_crtc_mask := pending_crtc_mask st OR crtc_mask\<rparr>
                     in if \<not> update_payload then (0, Inr st)
                        else case drm_atomic_get_mst_payload_state st port of
                          None \<Rightarrow> (neg_errno EINVAL, Inr st)
                        | Some payload \<Rightarrow>
                            if new_crtc \<noteq> None then (0, Inr st)
                            else if pl_delete payload then (0, Inr st)
                            else
                              (let st = upd_payload port (\<lambda>p. p\<lparr>pl_pbn := 0, pl_delete := True\<rparr>) st
                               in (0, Inr (if vcpi payload > 0 then st\<lparr>payload_mask := payload_mask st AND NOT (vcpi_bit (vcpi payload))\<rparr>
                                           else st))))))"

definition drm_dp_mst_update_slots :: "bool \<Rightarrow> drm_dp_mst_topology_state \<Rightarrow> drm_dp_mst_topology_state" where
  "drm_dp_mst_update_slots is_128b132b st =
     (if is_128b132b then st\<lparr>total_avail_slots := 64, start_slot := 0\<rparr> else st\<lparr>total_avail_slots := 63, start_slot := 1\<rparr>)"

text \<open>The payloads that are copied are put at the head of the new list; \<open>mem i\<close> says whether the allocation with number \<open>i\<close> succeeds.\<close>

fun copy_payloads :: "(nat \<Rightarrow> bool) \<Rightarrow> nat \<Rightarrow> drm_dp_mst_atomic_payload list \<Rightarrow> drm_dp_mst_atomic_payload list \<Rightarrow> drm_dp_mst_atomic_payload list option" where
  "copy_payloads mem i [] new = Some new"
| "copy_payloads mem i (pos # ps) new =
     (if pl_delete pos then copy_payloads mem i ps new
      else if \<not> mem i then None
      else copy_payloads mem (i + 1) ps (pos # new))"

definition drm_dp_mst_duplicate_state :: "(nat \<Rightarrow> bool) \<Rightarrow> drm_dp_mst_topology_state \<Rightarrow> drm_dp_mst_topology_state option" where
  "drm_dp_mst_duplicate_state mem old_state =
     (if \<not> mem 0 then None
      else map_option (\<lambda>ps. old_state\<lparr>payloads := ps, pending_crtc_mask := 0\<rparr>) (copy_payloads mem 1 (payloads old_state) []))"

definition drm_dp_mst_atomic_create_state :: "bool \<Rightarrow> drm_dp_mst_topology_state option" where
  "drm_dp_mst_atomic_create_state mem =
     (if \<not> mem then None
      else Some \<lparr>pending_crtc_mask = 0, payload_mask = 0, payloads = [], total_avail_slots = 63, start_slot = 1, pbn_div = 0\<rparr>)"

subsection \<open>Limits\<close>

text \<open>The first zero bit of a word, a builtin of the compiler; for a word of ones the kernel leaves it undefined.\<close>

definition ffz :: "u64 \<Rightarrow> nat" where
  "ffz w = length (takeWhile (bit w) [0..<64])"

text \<open>The result of the loop: the error or 0, the number of payloads counted, the mask and the list.\<close>

fun alloc_limits_loop ::
    "int \<Rightarrow> int \<Rightarrow> int \<Rightarrow> u32 \<Rightarrow> drm_dp_mst_atomic_payload list \<Rightarrow> int \<times> int \<times> u32 \<times> drm_dp_mst_atomic_payload list" where
  "alloc_limits_loop max_pl avail count pmask [] = (0, count, pmask, [])"
| "alloc_limits_loop max_pl avail count pmask (payload # ps) =
     (if pl_delete payload
      then (case alloc_limits_loop max_pl avail count pmask ps of (ret, c, m, ps) \<Rightarrow> (ret, c, m, payload # ps))
      else
        (let avail = to_s32 (avail - time_slots payload)
         in if avail < 0 then (neg_errno ENOSPC, count, pmask, payload # ps)
            else if count + 1 > max_pl then (neg_errno EINVAL, count + 1, pmask, payload # ps)
            else
              (let v = (if vcpi payload = 0 then word_of_nat (ffz (ucast pmask) + 1) else vcpi payload);
                   pmask = (if vcpi payload = 0 then pmask OR vcpi_bit v else pmask)
               in case alloc_limits_loop max_pl avail (count + 1) pmask ps of
                    (ret, c, m, ps) \<Rightarrow> (ret, c, m, payload\<lparr>vcpi := v\<rparr> # ps))))"

definition drm_dp_mst_atomic_check_payload_alloc_limits ::
    "'a payload_mgr \<Rightarrow> drm_dp_mst_topology_state \<Rightarrow> int \<times> drm_dp_mst_topology_state" where
  "drm_dp_mst_atomic_check_payload_alloc_limits mgr st =
     (case alloc_limits_loop (max_payloads mgr) (uint (total_avail_slots st)) 0 (payload_mask st) (payloads st) of
        (ret, count, m, ps) \<Rightarrow>
          (let st = st\<lparr>payload_mask := m, payloads := ps\<rparr>
           in if ret \<noteq> 0 then (ret, st) else (0, if count = 0 then st\<lparr>pbn_div := 0\<rparr> else st)))"

text \<open>The result is the bandwidth used or an error, and the failing port.\<close>

fun check_mstb_bw_limit :: "drm_dp_mst_topology_state \<Rightarrow> top_branch \<Rightarrow> int \<times> nat option"
  and check_ports_bw :: "drm_dp_mst_topology_state \<Rightarrow> int \<Rightarrow> top_port list \<Rightarrow> int \<times> nat option"
  and check_port_bw_limit :: "drm_dp_mst_topology_state \<Rightarrow> top_port \<Rightarrow> int \<times> nat option" where
  "check_mstb_bw_limit st (TopBranch b ports) =
     (if \<not> (\<exists>payload \<in> set (payloads st). pl_pbn payload \<noteq> 0 \<and> drm_dp_mst_port_downstream_of_branch (pl_port payload) (Some b))
      then (0, None)
      else check_ports_bw st 0 ports)"
| "check_ports_bw st pbn_used [] = (pbn_used, None)"
| "check_ports_bw st pbn_used (port # ports) =
     (case check_port_bw_limit st port of
        (ret, failing) \<Rightarrow> if ret < 0 then (ret, failing) else check_ports_bw st (to_s32 (pbn_used + ret)) ports)"
| "check_port_bw_limit st (TopPort port mstb) =
     (if tp_pdt port = DP_PEER_DEVICE_NONE then (0, None)
      else if drm_dp_mst_is_end_device (tp_pdt port) (tp_mcs port)
      then (case drm_atomic_get_mst_payload_state st (tp_ptr port) of
              None \<Rightarrow> (0, None)
            | Some payload \<Rightarrow>
                if tp_full_pbn port = 0 then (neg_errno EINVAL, Some (tp_ptr port))
                else if pl_pbn payload > uint (tp_full_pbn port) then (neg_errno ENOSPC, Some (tp_ptr port))
                else (pl_pbn payload, None))
      else case mstb of
             None \<Rightarrow> (0, None)
           | Some mstb \<Rightarrow>
               (case check_mstb_bw_limit st mstb of
                  (pbn_used, failing) \<Rightarrow>
                    if pbn_used \<le> 0 then (pbn_used, failing)
                    else if pbn_used > uint (tp_full_pbn port) then (neg_errno ENOSPC, Some (tp_ptr port))
                    else (pbn_used, None)))"

text \<open>Without a branch device at the root no payload is below it, as for a port without one.\<close>

definition drm_dp_mst_atomic_check_mgr :: "'a payload_mgr \<Rightarrow> drm_dp_mst_topology_state \<Rightarrow> int \<times> nat option \<times> drm_dp_mst_topology_state" where
  "drm_dp_mst_atomic_check_mgr mgr st =
     (if \<not> mst_enabled mgr then (0, None, st)
      else case (case mst_primary mgr of None \<Rightarrow> (0, None) | Some mstb \<Rightarrow> check_mstb_bw_limit st mstb) of
        (ret, failing) \<Rightarrow>
          if ret < 0 then (ret, failing, st)
          else case drm_dp_mst_atomic_check_payload_alloc_limits mgr st of (ret, st) \<Rightarrow> (ret, failing, st))"

text \<open>The managers of an atomic state with their new states.\<close>

fun drm_dp_mst_atomic_check ::
    "('a payload_mgr \<times> drm_dp_mst_topology_state) list \<Rightarrow> int \<times> ('a payload_mgr \<times> drm_dp_mst_topology_state) list" where
  "drm_dp_mst_atomic_check [] = (0, [])"
| "drm_dp_mst_atomic_check ((mgr, st) # rest) =
     (case drm_dp_mst_atomic_check_mgr mgr st of
        (ret, _, st) \<Rightarrow>
          if ret \<noteq> 0 then (ret, (mgr, st) # rest)
          else case drm_dp_mst_atomic_check rest of (ret, rest) \<Rightarrow> (ret, (mgr, st) # rest))"

definition drm_dp_mst_atomic_enable_dsc :: "got_state \<Rightarrow> u32 \<Rightarrow> bool \<Rightarrow> up_port \<Rightarrow> int \<Rightarrow> bool \<Rightarrow> (int \<times> got_state) option" where
  "drm_dp_mst_atomic_enable_dsc got crtc_mask mem port pbn enable =
     (case got of
        Inl err \<Rightarrow> Some (err, got)
      | Inr st \<Rightarrow>
          (case drm_atomic_get_mst_payload_state st (up_ptr port) of
             None \<Rightarrow> Some (neg_errno EINVAL, got)
           | Some payload \<Rightarrow>
               (let slots = (if dsc_enabled payload = enable then time_slots payload else 0);
                    set = map_sum id (upd_payload (up_ptr port) (\<lambda>p. p\<lparr>dsc_enabled := enable\<rparr>))
                in if \<not> enable then Some (slots, set got)
                   else case drm_dp_atomic_find_time_slots got crtc_mask mem port pbn of
                     None \<Rightarrow> None
                   | Some (slots, got) \<Rightarrow> if slots < 0 then Some (neg_errno EINVAL, got) else Some (slots, set got))))"

section \<open>The commit phase\<close>

text \<open>
  The new state takes over the first slots and the status from the previous state, which is committed now. A payload
  that is missing in the new state would be a null pointer.
\<close>

fun take_over :: "drm_dp_mst_atomic_payload list \<Rightarrow> drm_dp_mst_topology_state \<Rightarrow> drm_dp_mst_topology_state option" where
  "take_over [] new = Some new"
| "take_over (old # olds) new =
     (if pl_delete old then take_over olds new
      else case drm_atomic_get_mst_payload_state new (pl_ptr old) of
        None \<Rightarrow> None
      | Some _ \<Rightarrow>
          take_over olds (upd_payload (pl_ptr old)
            (\<lambda>p. p\<lparr>vc_start_slot := vc_start_slot old, allocation_status := allocation_status old\<rparr>) new))"

text \<open>The loop that waits for the table of the sink, with the number of reads left.\<close>

primrec payload_status_loop :: "nat \<Rightarrow> 'a drm_dp_aux \<Rightarrow> 'a \<Rightarrow> int \<times> 'a" where
  "payload_status_loop 0 aux a = (neg_errno EINVAL, a)"
| "payload_status_loop (Suc n) aux a =
     (case drm_dp_dpcd_read_data aux DP_PAYLOAD_TABLE_UPDATE_STATUS 1 a of
        (ret, status, a) \<Rightarrow>
          if ret < 0 then (ret, a)
          else if hd status AND DP_PAYLOAD_TABLE_UPDATED = 0 then payload_status_loop n aux a
          else (0, a))"

definition drm_dp_dpcd_write_payload :: "'a drm_dp_aux \<Rightarrow> u8 \<Rightarrow> u8 \<Rightarrow> u8 \<Rightarrow> 'a \<Rightarrow> int \<times> 'a" where
  "drm_dp_dpcd_write_payload aux vcpid start_time_slot time_slot_count a =
     (case drm_dp_dpcd_write_data aux DP_PAYLOAD_TABLE_UPDATE_STATUS [DP_PAYLOAD_TABLE_UPDATED] a of
        (_, a) \<Rightarrow>
          (case drm_dp_dpcd_write_data aux DP_PAYLOAD_ALLOCATE_SET [vcpid, start_time_slot, time_slot_count] a of
             (ret, a) \<Rightarrow> if ret < 0 then (ret, a) else payload_status_loop 20 aux a))"

definition drm_dp_dpcd_clear_payload :: "'a drm_dp_aux \<Rightarrow> 'a \<Rightarrow> int \<times> 'a" where
  "drm_dp_dpcd_clear_payload aux a = drm_dp_dpcd_write_payload aux 0 0 0x3f a"

definition drm_dp_create_payload_at_dfp :: "'a payload_mgr \<Rightarrow> drm_dp_mst_atomic_payload \<Rightarrow> 'a \<Rightarrow> int \<times> 'a" where
  "drm_dp_create_payload_at_dfp mgr payload a =
     drm_dp_dpcd_write_payload (pm_aux mgr) (vcpi payload) (vc_start_slot payload) (word_of_int (time_slots payload)) a"

type_synonym 'a send_fn = "nat \<Rightarrow> u8 \<Rightarrow> int \<Rightarrow> 'a \<Rightarrow> int \<times> 'a"

definition drm_dp_create_payload_to_remote :: "'a send_fn \<Rightarrow> 'a payload_mgr \<Rightarrow> drm_dp_mst_atomic_payload \<Rightarrow> 'a \<Rightarrow> int \<times> 'a" where
  "drm_dp_create_payload_to_remote send mgr payload a =
     (case drm_dp_mst_topology_get_port_validated mgr (pl_ptr payload) of
        None \<Rightarrow> (neg_errno EIO, a)
      | Some port \<Rightarrow> send (tp_ptr port) (vcpi payload) (pl_pbn payload) a)"

text \<open>The functions on one payload return it updated.\<close>

definition drm_dp_destroy_payload_at_remote_and_dfp ::
    "'a send_fn \<Rightarrow> 'a payload_mgr \<Rightarrow> drm_dp_mst_atomic_payload \<Rightarrow> 'a \<Rightarrow> drm_dp_mst_atomic_payload \<times> 'a" where
  "drm_dp_destroy_payload_at_remote_and_dfp send mgr payload a =
     (let (payload, a) =
            (if allocation_status payload = ALLOCATION_REMOTE
             then (payload\<lparr>allocation_status := ALLOCATION_DFP\<rparr>, snd (send (pl_ptr payload) (vcpi payload) 0 a))
             else (payload, a))
      in (payload,
          if allocation_status payload = ALLOCATION_DFP
          then snd (drm_dp_dpcd_write_payload (pm_aux mgr) (vcpi payload) (vc_start_slot payload) 0 a)
          else a))"

definition drm_dp_add_payload_part1 ::
    "'a payload_mgr \<Rightarrow> u8 \<Rightarrow> drm_dp_mst_atomic_payload \<Rightarrow> 'a \<Rightarrow> int \<times> 'a payload_mgr \<times> drm_dp_mst_atomic_payload \<times> 'a" where
  "drm_dp_add_payload_part1 mgr first_slot payload a =
     (let mgr = (if payload_count mgr = 0 then mgr\<lparr>next_start_slot := first_slot\<rparr> else mgr);
          payload = payload\<lparr>vc_start_slot := next_start_slot mgr\<rparr>;
          mgr = mgr\<lparr>payload_count := payload_count mgr + 1, next_start_slot := next_start_slot mgr + word_of_int (time_slots payload)\<rparr>;
          payload = payload\<lparr>allocation_status := ALLOCATION_LOCAL\<rparr>
      in case drm_dp_mst_topology_get_port_validated mgr (pl_ptr payload) of
           None \<Rightarrow> (neg_errno EIO, mgr, payload, a)
         | Some port \<Rightarrow>
             (case drm_dp_create_payload_at_dfp mgr payload a of
                (ret, a) \<Rightarrow>
                  if ret < 0 then (ret, mgr, payload, a)
                  else (ret, mgr, payload\<lparr>allocation_status := ALLOCATION_DFP\<rparr>, a)))"

definition drm_dp_add_payload_part2 ::
    "'a send_fn \<Rightarrow> 'a payload_mgr \<Rightarrow> drm_dp_mst_atomic_payload \<Rightarrow> 'a \<Rightarrow> int \<times> drm_dp_mst_atomic_payload \<times> 'a" where
  "drm_dp_add_payload_part2 send mgr payload a =
     (if allocation_status payload \<noteq> ALLOCATION_DFP then (neg_errno EIO, payload, a)
      else case drm_dp_create_payload_to_remote send mgr payload a of
        (ret, a) \<Rightarrow> (ret, if ret < 0 then payload else payload\<lparr>allocation_status := ALLOCATION_REMOTE\<rparr>, a))"

definition drm_dp_remove_payload_part1 ::
    "'a send_fn \<Rightarrow> 'a payload_mgr \<Rightarrow> drm_dp_mst_atomic_payload \<Rightarrow> 'a \<Rightarrow> drm_dp_mst_atomic_payload \<times> 'a" where
  "drm_dp_remove_payload_part1 send mgr payload a =
     (let send_remove = drm_dp_mst_port_downstream_of_branch (pl_port payload) (map_option tb_ptr (mst_primary mgr));
          (payload, a) = (if send_remove then drm_dp_destroy_payload_at_remote_and_dfp send mgr payload a else (payload, a))
      in (payload\<lparr>allocation_status := ALLOCATION_LOCAL\<rparr>, a))"

text \<open>\<open>old_slots\<close> are the time slots of the payload in its old state; the payload of the new state is that of the port.\<close>

definition drm_dp_remove_payload_part2 ::
    "nat \<Rightarrow> int \<Rightarrow> 'a payload_mgr \<Rightarrow> drm_dp_mst_topology_state \<Rightarrow> ('a payload_mgr \<times> drm_dp_mst_topology_state) option" where
  "drm_dp_remove_payload_part2 port old_slots mgr st =
     (case drm_atomic_get_mst_payload_state st port of
        None \<Rightarrow> None
      | Some new_payload \<Rightarrow>
          (let shift = (\<lambda>pos. if pl_ptr pos \<noteq> port \<and> sint (vc_start_slot pos) > sint (vc_start_slot new_payload)
                              then pos\<lparr>vc_start_slot := vc_start_slot pos - word_of_int old_slots\<rparr> else pos);
               st = st\<lparr>payloads := map shift (payloads st)\<rparr>;
               st = upd_payload port (\<lambda>p. p\<lparr>vc_start_slot := - 1, allocation_status := ALLOCATION_NONE\<rparr>) st
           in Some (mgr\<lparr>payload_count := payload_count mgr - 1, next_start_slot := next_start_slot mgr - word_of_int old_slots\<rparr>, st)))"

section \<open>An example\<close>

text \<open>A topology with a hub that has a monitor at each of two ports, behind a port with too little bandwidth for both.\<close>

definition ex_sink_port :: "nat \<Rightarrow> top_port" where
  "ex_sink_port n = TopPort \<lparr>tp_ptr = n, tp_pdt = 3, tp_mcs = False, tp_full_pbn = 2000, tp_live = True\<rparr> None"

definition ex_bw_topology :: top_branch where
  "ex_bw_topology = TopBranch 1 [TopPort \<lparr>tp_ptr = 2, tp_pdt = 2, tp_mcs = True, tp_full_pbn = 2500, tp_live = True\<rparr>
     (Some (TopBranch 3 [ex_sink_port 4, ex_sink_port 5]))]"

definition ex_payload :: "nat \<Rightarrow> drm_dp_mst_atomic_payload" where
  "ex_payload n = \<lparr>pl_port = UpPort n (Some (UpBranch 3 (Some (UpPort 2 (Some (UpBranch 1 None)))))), vc_start_slot = - 1, vcpi = 0, time_slots = 20,
     pl_pbn = 1500, pl_delete = False, dsc_enabled = False, allocation_status = ALLOCATION_NONE\<rparr>"

definition ex_mst_state :: "drm_dp_mst_atomic_payload list \<Rightarrow> drm_dp_mst_topology_state" where
  "ex_mst_state ps = \<lparr>pending_crtc_mask = 0, payload_mask = 0, payloads = ps, total_avail_slots = 63, start_slot = 1, pbn_div = 0\<rparr>"

definition ex_payload_mgr :: "sink payload_mgr" where
  "ex_payload_mgr = \<lparr>pm_aux = sink_aux True, mst_enabled = True, max_payloads = 4, payload_count = 0, next_start_slot = 0,
     mst_primary = Some ex_bw_topology\<rparr>"

lemmas ex_bw_defs = ex_sink_port_def ex_bw_topology_def ex_payload_def ex_mst_state_def pdt_defs drm_dp_mst_is_end_device_def
  drm_atomic_get_mst_payload_state_def

end
