(* ===== verification/MST_Bandwidth.thy ===== *)
theory MST_Bandwidth
  imports MST_Payload
begin

text \<open>
  The bandwidth check of the multi-stream transport (\<open>drm_dp_mst_atomic_check_mstb_bw_limit\<close> and \<open>drm_dp_mst_atomic_check_port_bw_limit\<close>): it
  refuses a state in which a port carries more than its limit and reports such a port, with all ports below it within their limits. It also refuses,
  with an error the documentation does not have for this case, a state with a payload for an end device without bandwidth.
\<close>

section \<open>The bandwidth a port carries\<close>

fun branch_usage :: "drm_dp_mst_topology_state \<Rightarrow> top_branch \<Rightarrow> int"
  and ports_usage :: "drm_dp_mst_topology_state \<Rightarrow> top_port list \<Rightarrow> int"
  and port_usage :: "drm_dp_mst_topology_state \<Rightarrow> top_port \<Rightarrow> int" where
  "branch_usage st (TopBranch b ports) = ports_usage st ports"
| "ports_usage st [] = 0"
| "ports_usage st (port # ports) = port_usage st port + ports_usage st ports"
| "port_usage st (TopPort port mstb) =
     (if tp_pdt port = DP_PEER_DEVICE_NONE then 0
      else if drm_dp_mst_is_end_device (tp_pdt port) (tp_mcs port)
      then (case drm_atomic_get_mst_payload_state st (tp_ptr port) of None \<Rightarrow> 0 | Some payload \<Rightarrow> pl_pbn payload)
      else case mstb of None \<Rightarrow> 0 | Some mstb \<Rightarrow> branch_usage st mstb)"

text \<open>The ports of a part of the topology; below an end device there are none.\<close>

fun branch_sub :: "top_branch \<Rightarrow> top_port list" and ports_sub :: "top_port list \<Rightarrow> top_port list" and port_below :: "top_port \<Rightarrow> top_port list" where
  "branch_sub (TopBranch b ports) = ports_sub ports"
| "ports_sub [] = []"
| "ports_sub (port # ports) = port # port_below port @ ports_sub ports"
| "port_below (TopPort port mstb) =
     (if tp_pdt port = DP_PEER_DEVICE_NONE \<or> drm_dp_mst_is_end_device (tp_pdt port) (tp_mcs port) then []
      else case mstb of None \<Rightarrow> [] | Some mstb \<Rightarrow> branch_sub mstb)"

definition within_limit :: "drm_dp_mst_topology_state \<Rightarrow> top_port \<Rightarrow> bool" where
  "within_limit st port \<longleftrightarrow> port_usage st port \<le> uint (tp_full_pbn (tp_info port))"

text \<open>
  What the check relies on: the parent pointers of the payloads' ports agree with the tree, and a branch device has fewer than 2 to the 15 ports (a
  port number has 4 bits).
\<close>

fun branch_wf :: "drm_dp_mst_topology_state \<Rightarrow> top_branch \<Rightarrow> bool" and ports_wf :: "drm_dp_mst_topology_state \<Rightarrow> top_port list \<Rightarrow> bool"
  and port_wf :: "drm_dp_mst_topology_state \<Rightarrow> top_port \<Rightarrow> bool" where
  "branch_wf st (TopBranch b ports) \<longleftrightarrow>
     length ports < 32768 \<and> ports_wf st ports \<and>
     (\<forall>payload \<in> set (payloads st). pl_ptr payload \<in> tp_ptr ` tp_info ` set (ports_sub ports) \<longrightarrow>
        drm_dp_mst_port_downstream_of_branch (pl_port payload) (Some b))"
| "ports_wf st [] \<longleftrightarrow> True"
| "ports_wf st (port # ports) \<longleftrightarrow> port_wf st port \<and> ports_wf st ports"
| "port_wf st (TopPort port mstb) \<longleftrightarrow> (case mstb of None \<Rightarrow> True | Some mstb \<Rightarrow> branch_wf st mstb)"

text \<open>The port that is reported: it breaks its limit while those below it keep theirs, or it is an end device that has no bandwidth at all.\<close>

definition bad_port :: "drm_dp_mst_topology_state \<Rightarrow> top_port list \<Rightarrow> int \<Rightarrow> nat option \<Rightarrow> bool" where
  "bad_port st ports ret failing \<longleftrightarrow>
     (\<exists>port \<in> set ports. failing = Some (tp_ptr (tp_info port)) \<and>
        (ret = neg_errno ENOSPC \<and> \<not> within_limit st port \<and> (\<forall>q \<in> set (port_below port). within_limit st q) \<or>
         ret = neg_errno EINVAL \<and> tp_full_pbn (tp_info port) = 0 \<and> port_below port = [] \<and>
           drm_atomic_get_mst_payload_state st (tp_ptr (tp_info port)) \<noteq> None))"

lemma bad_port_mono: "bad_port st ports ret failing \<Longrightarrow> set ports \<subseteq> set qs \<Longrightarrow> bad_port st qs ret failing"
  unfolding bad_port_def by blast

section \<open>The check\<close>

lemma payload_state_mem: "drm_atomic_get_mst_payload_state st port = Some p \<Longrightarrow> p \<in> set (payloads st) \<and> pl_ptr p = port"
  by (auto simp: drm_atomic_get_mst_payload_state_def find_Some_iff)

lemma no_usage:
  assumes "\<forall>payload \<in> set (payloads st). pl_pbn payload \<noteq> 0 \<longrightarrow> pl_ptr payload \<notin> S"
  shows "tp_ptr ` tp_info ` set (branch_sub b) \<subseteq> S \<Longrightarrow> branch_usage st b = 0 \<and> (\<forall>q \<in> set (branch_sub b). within_limit st q)"
    and "tp_ptr ` tp_info ` set (ports_sub ports) \<subseteq> S \<Longrightarrow> ports_usage st ports = 0 \<and> (\<forall>q \<in> set (ports_sub ports). within_limit st q)"
    and "tp_ptr ` tp_info ` set (port # port_below port) \<subseteq> S \<Longrightarrow> port_usage st port = 0 \<and> (\<forall>q \<in> set (port # port_below port). within_limit st q)"
  using assms
proof (induction st b and st ports and st port rule: branch_usage_ports_usage_port_usage.induct)
  case (4 st port mstb)
  then show ?case by (auto simp: within_limit_def dest!: payload_state_mem split: option.splits if_splits)
qed (auto simp: image_Un)

lemma bw_check:
  assumes "\<forall>payload \<in> set (payloads st). 0 \<le> pl_pbn payload"
  shows "branch_wf st b \<Longrightarrow> (case check_mstb_bw_limit st b of (ret, failing) \<Rightarrow>
      if 0 \<le> ret then ret = branch_usage st b \<and> failing = None \<and> (\<forall>q \<in> set (branch_sub b). within_limit st q)
      else bad_port st (branch_sub b) ret failing)"
    and "ports_wf st ports \<Longrightarrow> 0 \<le> acc \<Longrightarrow> acc + 65535 * int (length ports) < 2 ^ 31 \<Longrightarrow> (case check_ports_bw st acc ports of (ret, failing) \<Rightarrow>
      if 0 \<le> ret then ret = acc + ports_usage st ports \<and> failing = None \<and> (\<forall>q \<in> set (ports_sub ports). within_limit st q)
      else bad_port st (ports_sub ports) ret failing)"
    and "port_wf st port \<Longrightarrow> (case check_port_bw_limit st port of (ret, failing) \<Rightarrow>
      if 0 \<le> ret then ret = port_usage st port \<and> ret \<le> 65535 \<and> failing = None \<and> (\<forall>q \<in> set (port # port_below port). within_limit st q)
      else bad_port st (port # port_below port) ret failing)"
  using assms
proof (induction st b and st acc ports and st port rule: check_mstb_bw_limit_check_ports_bw_check_port_bw_limit.induct)
  case (1 st b ports)
  show ?case
  proof (cases "\<exists>payload \<in> set (payloads st). pl_pbn payload \<noteq> 0 \<and> drm_dp_mst_port_downstream_of_branch (pl_port payload) (Some b)")
    case True
    with 1 show ?thesis by (auto split: prod.splits if_splits)
  next
    case False
    let ?S = "tp_ptr ` tp_info ` set (ports_sub ports)"
    have "\<forall>payload \<in> set (payloads st). pl_pbn payload \<noteq> 0 \<longrightarrow> pl_ptr payload \<notin> ?S" using False 1(2) by auto
    from no_usage(2) [OF this order_refl] False show ?thesis by auto
  qed
next
  case (3 st acc port ports)
  obtain ret failing where run: "check_port_bw_limit st port = (ret, failing)" by fastforce
  show ?case
  proof (cases "ret < 0")
    case True
    with 3(1,3,6) run have "bad_port st (port # port_below port) ret failing" by auto
    with True run show ?thesis by (auto intro: bad_port_mono)
  next
    case False
    with 3(1,3,6) run have ok: "ret = port_usage st port" "ret \<le> 65535" "\<forall>q \<in> set (port # port_below port). within_limit st q" by auto
    have bound: "0 \<le> acc + ret" "acc + ret + 65535 * int (length ports) < 2 ^ 31" using 3(4,5) False ok(2) by simp_all
    then have s32: "to_s32 (acc + ret) = acc + ret" by (intro to_s32_id) (simp add: is_s32_def)
    have step: "check_ports_bw st acc (port # ports) = check_ports_bw st (acc + ret) ports" using run False s32 by simp
    obtain ret' failing' where run': "check_ports_bw st (acc + ret) ports = (ret', failing')" by fastforce
    have "ports_wf st ports" using 3(3) by simp
    with 3(2) [OF run [symmetric] False, unfolded s32] bound 3(6) run'
    have "if 0 \<le> ret' then ret' = acc + ret + ports_usage st ports \<and> failing' = None \<and> (\<forall>q \<in> set (ports_sub ports). within_limit st q)
      else bad_port st (ports_sub ports) ret' failing'" by simp
    then show ?thesis unfolding step run' using ok by (auto intro: bad_port_mono split: if_splits)
  qed
next
  case (4 st port mstb)
  let ?p = "TopPort port mstb"
  consider (none) "tp_pdt port = DP_PEER_DEVICE_NONE"
    | (sink) "tp_pdt port \<noteq> DP_PEER_DEVICE_NONE" "drm_dp_mst_is_end_device (tp_pdt port) (tp_mcs port)"
    | (branch) "tp_pdt port \<noteq> DP_PEER_DEVICE_NONE" "\<not> drm_dp_mst_is_end_device (tp_pdt port) (tp_mcs port)" by blast
  then show ?case
  proof cases
    case none
    then show ?thesis by (simp add: within_limit_def)
  next
    case sink
    show ?thesis
    proof (cases "drm_atomic_get_mst_payload_state st (tp_ptr port)")
      case None
      with sink show ?thesis by (simp add: within_limit_def)
    next
      case (Some payload)
      have "0 \<le> pl_pbn payload" using 4(3) payload_state_mem [OF Some] by blast
      moreover have "uint (tp_full_pbn port) \<le> 65535" using uint_lt2p [of "tp_full_pbn port"] by simp
      ultimately show ?thesis using sink Some by (auto simp: within_limit_def bad_port_def)
    qed
  next
    case branch
    show ?thesis
    proof (cases mstb)
      case None
      with branch show ?thesis by (simp add: within_limit_def)
    next
      case (Some m)
      obtain ret failing where run: "check_mstb_bw_limit st m = (ret, failing)" by fastforce
      have below: "port_below ?p = branch_sub m" "port_usage st ?p = branch_usage st m" using branch Some by simp_all
      have full: "uint (tp_full_pbn port) \<le> 65535" using uint_lt2p [of "tp_full_pbn port"] by simp
      have IH: "if 0 \<le> ret then ret = branch_usage st m \<and> failing = None \<and> (\<forall>q \<in> set (branch_sub m). within_limit st q)
        else bad_port st (branch_sub m) ret failing"
        using 4(1) [OF branch Some] 4(2,3) Some run by simp
      consider (err) "ret < 0" | (zero) "ret = 0" | (over) "0 < ret" "ret > uint (tp_full_pbn port)" | (ok) "0 < ret" "ret \<le> uint (tp_full_pbn port)"
        by linarith
      then show ?thesis
      proof cases
        case err
        with IH have "bad_port st (?p # port_below ?p) ret failing" unfolding below by (auto intro: bad_port_mono)
        with err branch Some run show ?thesis by simp
      next
        case zero
        with IH branch Some run show ?thesis unfolding below by (simp add: within_limit_def)
      next
        case over
        with IH have "\<not> within_limit st ?p" "\<forall>q \<in> set (port_below ?p). within_limit st q" using branch Some by (simp_all add: within_limit_def)
        then have "bad_port st (?p # port_below ?p) (neg_errno ENOSPC) (Some (tp_ptr port))" unfolding bad_port_def by (intro bexI [of _ ?p]) simp_all
        with over branch Some run show ?thesis by simp
      next
        case ok
        with IH have "within_limit st ?p" "\<forall>q \<in> set (port_below ?p). within_limit st q" "ret = port_usage st ?p"
          using branch Some by (simp_all add: within_limit_def)
        with ok full branch Some run show ?thesis by simp
      qed
    qed
  qed
qed auto

text \<open>
  C16. The bandwidth check of a manager with a topology. A port carries the sum of the bandwidth of the payloads of the end devices
  below it. If no port carries more than its limit, the check names no port and goes on with time slots and identifiers, or it refuses the
  state with \<open>-EINVAL\<close> because of an end device that has a payload and no bandwidth at all. If a port carries more than its limit, the state is
  refused, with \<open>-ENOSPC\<close> and a port that exceeds its limit while all ports below it keep theirs, or with \<open>-EINVAL\<close> and an end device of
  that kind. A state that is refused here is not changed. The bandwidth of a payload is not negative, the parent pointers of the ports of payloads agree with
  the tree, and a branch device has fewer than 2 to the 15 ports (\<open>branch_wf\<close>). The documentation of \<open>drm_dp_mst_atomic_check_mgr\<close> has
  \<open>-EINVAL\<close> for too many payloads only.
\<close>

theorem bw_check_correct:
  assumes "mst_enabled mgr" and "mst_primary mgr = Some mstb" and "branch_wf st mstb" and "\<forall>payload \<in> set (payloads st). 0 \<le> pl_pbn payload"
  shows "\<exists>ret failing st'. drm_dp_mst_atomic_check_mgr mgr st = (ret, failing, st') \<and>
    (if \<forall>port \<in> set (branch_sub mstb). within_limit st port
     then failing = None \<and> (ret, st') = drm_dp_mst_atomic_check_payload_alloc_limits mgr st \<or>
       st' = st \<and> ret = neg_errno EINVAL \<and> bad_port st (branch_sub mstb) ret failing
     else st' = st \<and> ret < 0 \<and> bad_port st (branch_sub mstb) ret failing)"
proof -
  obtain ret failing where run: "check_mstb_bw_limit st mstb = (ret, failing)" by fastforce
  with bw_check(1) [OF assms(4,3)] have bw: "if 0 \<le> ret then ret = branch_usage st mstb \<and> failing = None \<and> (\<forall>q \<in> set (branch_sub mstb). within_limit st q)
      else bad_port st (branch_sub mstb) ret failing" by simp
  show ?thesis
  proof (cases "0 \<le> ret")
    case True
    obtain r s where "drm_dp_mst_atomic_check_payload_alloc_limits mgr st = (r, s)" by fastforce
    with True bw run assms(1,2) show ?thesis by (auto simp: drm_dp_mst_atomic_check_mgr_def)
  next
    case False
    then have bad: "bad_port st (branch_sub mstb) ret failing" using bw by simp
    then have "(\<forall>port \<in> set (branch_sub mstb). within_limit st port) \<Longrightarrow> ret = neg_errno EINVAL" by (auto simp: bad_port_def)
    with False bad run assms(1,2) show ?thesis by (auto simp: drm_dp_mst_atomic_check_mgr_def)
  qed
qed

lemma ex_bw_wf: "branch_wf (ex_mst_state [ex_payload 4, ex_payload 5]) ex_bw_topology"
  by (simp add: ex_bw_defs)

lemma ex_bw_over: "\<not> (\<forall>port \<in> set (branch_sub ex_bw_topology). within_limit (ex_mst_state [ex_payload 4, ex_payload 5]) port)"
  by (simp add: ex_bw_defs within_limit_def)

theorem bw_check_correct_witness:
  "\<exists>ret failing. drm_dp_mst_atomic_check_mgr ex_payload_mgr (ex_mst_state [ex_payload 4, ex_payload 5]) =
     (ret, failing, ex_mst_state [ex_payload 4, ex_payload 5]) \<and>
     bad_port (ex_mst_state [ex_payload 4, ex_payload 5]) (branch_sub ex_bw_topology) ret failing"
proof -
  have "\<forall>payload \<in> set (payloads (ex_mst_state [ex_payload 4, ex_payload 5])). 0 \<le> pl_pbn payload" by (simp add: ex_bw_defs)
  from bw_check_correct [OF _ _ ex_bw_wf this, of ex_payload_mgr] ex_bw_over show ?thesis by (auto simp: ex_payload_mgr_def)
qed

end
