(* ===== verification/MST_Alloc.thy ===== *)
theory MST_Alloc
  imports MST_Payload
begin

text \<open>
  The allocation of time slots and payload identifiers in the check phase: when the check accepts a state, and that the identifiers of the
  payloads stay distinct and agree with the mask of the state through all operations of the check phase.
\<close>

section \<open>Identifiers in use\<close>

definition active :: "drm_dp_mst_atomic_payload list \<Rightarrow> drm_dp_mst_atomic_payload list" where
  "active ps = filter (\<lambda>p. \<not> pl_delete p) ps"

text \<open>The bits of the mask for the identifiers of the active payloads that have one.\<close>

definition vcpi_bits :: "drm_dp_mst_atomic_payload list \<Rightarrow> nat list" where
  "vcpi_bits ps = map (\<lambda>p. unat (vcpi p) - 1) (filter (\<lambda>p. vcpi p \<noteq> 0) (active ps))"

lemma active_simps [simp]: "active [] = []" "active (p # ps) = (if pl_delete p then active ps else p # active ps)"
  by (simp_all add: active_def)

lemma vcpi_bits_simps [simp]:
  "vcpi_bits [] = []"
  "vcpi_bits (p # ps) = (if pl_delete p \<or> vcpi p = 0 then vcpi_bits ps else (unat (vcpi p) - 1) # vcpi_bits ps)"
  by (simp_all add: vcpi_bits_def)

definition mask_agrees :: "u32 \<Rightarrow> nat list \<Rightarrow> bool" where
  "mask_agrees m bs \<longleftrightarrow> distinct bs \<and> (\<forall>i. bit m i \<longleftrightarrow> i \<in> set bs)"

lemma mask_agrees_move: "mask_agrees m ((b # bs) @ cs) \<longleftrightarrow> mask_agrees m (bs @ b # cs)"
  by (auto simp: mask_agrees_def)

lemma mask_agrees_bound: "mask_agrees m bs \<Longrightarrow> i \<in> set bs \<Longrightarrow> i < 32"
  using bit_imp_le_length [of m i] by (simp add: mask_agrees_def)

lemma vcpi_bit_bit: "v \<noteq> 0 \<Longrightarrow> unat v \<le> 32 \<Longrightarrow> bit (vcpi_bit v) i \<longleftrightarrow> i = unat v - 1"
  by (cases "unat v") (auto simp: vcpi_bit_def bit_ucast_iff bit_exp_iff unat_eq_0)

lemma ffz_spec: "(\<forall>i < ffz w. bit w i) \<and> (ffz w < 64 \<longrightarrow> \<not> bit w (ffz w))"
proof -
  let ?n = "ffz w"
  have "?n \<le> 64" using length_takeWhile_le [of "bit w" "[0..<64]"] by (simp add: ffz_def)
  moreover have "bit w i" if "i < ?n" for i
  proof -
    have "takeWhile (bit w) [0..<64] ! i \<in> set (takeWhile (bit w) [0..<64])" using that by (intro nth_mem) (simp add: ffz_def)
    then have "bit w (takeWhile (bit w) [0..<64] ! i)" by (auto dest: set_takeWhileD)
    moreover have "takeWhile (bit w) [0..<64] ! i = i" using that calculation \<open>?n \<le> 64\<close> takeWhile_nth [of i "bit w" "[0..<64]"] by (simp add: ffz_def)
    ultimately show ?thesis by simp
  qed
  moreover have "\<not> bit w ?n" if "?n < 64"
    using that nth_length_takeWhile [of "bit w" "[0..<64]"] by (simp add: ffz_def)
  ultimately show ?thesis by blast
qed

text \<open>With fewer than 32 bits set the first clear bit is a new one.\<close>

lemma ffz_mask:
  assumes "mask_agrees m bs" and "length bs < 32"
  shows "ffz (ucast m) < 32 \<and> ffz (ucast m) \<notin> set bs"
proof -
  let ?n = "ffz (ucast m :: u64)"
  have bits: "bit (ucast m :: u64) i \<longleftrightarrow> i \<in> set bs" for i
    using assms(1) mask_agrees_bound [OF assms(1), of i] by (auto simp: mask_agrees_def bit_ucast_iff)
  have "{..<?n} \<subseteq> set bs" using ffz_spec [of "ucast m :: u64"] bits by auto
  then have "?n \<le> length bs" using card_mono [of "set bs" "{..<?n}"] card_length [of bs] by simp
  then have "?n < 32" using assms(2) by simp
  then show ?thesis using ffz_spec [of "ucast m :: u64"] bits by auto
qed

lemma mask_agrees_insert:
  assumes "mask_agrees m bs" and "n < 32" and "n \<notin> set bs"
  shows "mask_agrees (m OR vcpi_bit (word_of_nat (n + 1))) (n # bs)"
proof -
  have "unat (word_of_nat (n + 1) :: u8) = n + 1" using assms(2) by (intro unat_of_nat_u8) simp
  then show ?thesis using assms vcpi_bit_bit [of "word_of_nat (n + 1)"]
    by (auto simp: mask_agrees_def bit_or_iff simp flip: unat_eq_0 simp del: of_nat_add of_nat_Suc unat_eq_0)
qed

lemma mask_agrees_remove:
  assumes "mask_agrees m (as @ (unat v - 1) # bs)" and "v \<noteq> 0"
  shows "mask_agrees (m AND NOT (vcpi_bit v)) (as @ bs)"
proof -
  have "unat v \<le> 32" using mask_agrees_bound [OF assms(1), of "unat v - 1"] by simp
  moreover have "i < 32" if "i \<in> set as \<union> set bs" for i using mask_agrees_bound [OF assms(1), of i] that by auto
  ultimately show ?thesis using assms vcpi_bit_bit [OF assms(2)] by (auto simp: mask_agrees_def bit_and_iff bit_not_iff dest: bit_imp_le_length)
qed

section \<open>The loop over the payloads\<close>

definition slots_needed :: "drm_dp_mst_atomic_payload list \<Rightarrow> int" where
  "slots_needed ps = sum_list (map time_slots (active ps))"

lemma slots_needed_nonneg: "\<forall>p \<in> set ps. 0 \<le> time_slots p \<Longrightarrow> 0 \<le> slots_needed ps"
  unfolding slots_needed_def by (induction ps) auto

text \<open>One iteration at a payload that stays.\<close>

definition next_vcpi :: "u32 \<Rightarrow> drm_dp_mst_atomic_payload \<Rightarrow> u8" where
  "next_vcpi m p = (if vcpi p = 0 then word_of_nat (ffz (ucast m) + 1) else vcpi p)"

definition next_mask :: "u32 \<Rightarrow> drm_dp_mst_atomic_payload \<Rightarrow> u32" where
  "next_mask m p = (if vcpi p = 0 then m OR vcpi_bit (next_vcpi m p) else m)"

lemma alloc_loop_step:
  assumes "\<not> pl_delete p"
  shows "alloc_limits_loop max_pl avail count m (p # ps) =
    (if to_s32 (avail - time_slots p) < 0 then (neg_errno ENOSPC, count, m, p # ps)
     else if count + 1 > max_pl then (neg_errno EINVAL, count + 1, m, p # ps)
     else case alloc_limits_loop max_pl (to_s32 (avail - time_slots p)) (count + 1) (next_mask m p) ps of
       (ret, c, m', ps') \<Rightarrow> (ret, c, m', p\<lparr>vcpi := next_vcpi m p\<rparr> # ps'))"
  using assms unfolding alloc_limits_loop.simps(2) Let_def next_mask_def next_vcpi_def by simp

lemma alloc_loop_ok:
  assumes "\<not> pl_delete p" and "alloc_limits_loop max_pl avail count m (p # ps) = (0, c, m', qs)"
  shows "\<exists>avail' ps'. alloc_limits_loop max_pl avail' (count + 1) (next_mask m p) ps = (0, c, m', ps') \<and> qs = p\<lparr>vcpi := next_vcpi m p\<rparr> # ps'"
  using assms(2) unfolding alloc_loop_step [OF assms(1)] by (auto split: if_splits prod.splits)

lemma alloc_loop_accepts:
  assumes "\<forall>p \<in> set ps. 0 \<le> time_slots p \<and> time_slots p < 2 ^ 31" and "0 \<le> avail" and "avail < 2 ^ 31"
  shows "(fst (alloc_limits_loop max_pl avail count m ps) = 0 \<longleftrightarrow>
      slots_needed ps \<le> avail \<and> (active ps = [] \<or> count + int (length (active ps)) \<le> max_pl)) \<and>
    fst (alloc_limits_loop max_pl avail count m ps) \<in> {0, neg_errno ENOSPC, neg_errno EINVAL}"
  using assms
proof (induction ps arbitrary: avail count m)
  case Nil
  then show ?case by (simp add: slots_needed_def)
next
  case (Cons p ps)
  show ?case
  proof (cases "pl_delete p")
    case True
    with Cons.prems Cons.IH [of avail count m] show ?thesis by (auto simp: slots_needed_def split: prod.splits)
  next
    case False
    let ?a = "avail - time_slots p"
    have s32: "to_s32 ?a = ?a" using Cons.prems by (intro to_s32_id) (auto simp: is_s32_def)
    have needed: "slots_needed (p # ps) = time_slots p + slots_needed ps" using False by (simp add: slots_needed_def)
    have rest: "0 \<le> slots_needed ps" using Cons.prems by (intro slots_needed_nonneg) auto
    have range: "\<forall>p \<in> set ps. 0 \<le> time_slots p \<and> time_slots p < 2 ^ 31" "?a < 2 ^ 31" using Cons.prems by auto
    show ?thesis
    proof (cases "0 \<le> ?a \<and> count + 1 \<le> max_pl")
      case True
      then have step: "fst (alloc_limits_loop max_pl avail count m (p # ps)) = fst (alloc_limits_loop max_pl ?a (count + 1) (next_mask m p) ps)"
        unfolding alloc_loop_step [OF False] s32 by (simp split: prod.splits)
      have "(slots_needed (p # ps) \<le> avail \<and> (active (p # ps) = [] \<or> count + int (length (active (p # ps))) \<le> max_pl)) \<longleftrightarrow>
        slots_needed ps \<le> ?a \<and> (active ps = [] \<or> count + 1 + int (length (active ps)) \<le> max_pl)"
        using True False needed by auto
      with Cons.IH [OF range(1) _ range(2), of "count + 1" "next_mask m p"] True show ?thesis unfolding step by (auto simp del: active_simps)
    next
      case no: False
      then show ?thesis using False needed rest unfolding alloc_loop_step [OF False] s32 by auto
    qed
  qed
qed

text \<open>What the loop changes: payloads that stay and have no identifier get one.\<close>

definition same_but_vcpi :: "drm_dp_mst_atomic_payload \<Rightarrow> drm_dp_mst_atomic_payload \<Rightarrow> bool" where
  "same_but_vcpi p p' \<longleftrightarrow> p' = p\<lparr>vcpi := vcpi p'\<rparr> \<and> (pl_delete p \<or> vcpi p \<noteq> 0 \<longrightarrow> p' = p)"

lemma alloc_loop_result:
  "alloc_limits_loop max_pl avail count m ps = (0, c, m', ps') \<Longrightarrow> c = count + int (length (active ps)) \<and> (active ps = [] \<or> c \<le> max_pl) \<and> list_all2 same_but_vcpi ps ps'"
proof (induction ps arbitrary: avail count m ps')
  case (Cons p ps)
  show ?case
  proof (cases "pl_delete p")
    case True
    with Cons.prems Cons.IH [of avail count m] show ?thesis by (auto simp: same_but_vcpi_def split: prod.splits)
  next
    case False
    obtain avail' qs where qs: "alloc_limits_loop max_pl avail' (count + 1) (next_mask m p) ps = (0, c, m', qs)" "ps' = p\<lparr>vcpi := next_vcpi m p\<rparr> # qs"
      using alloc_loop_ok [OF False Cons.prems] by blast
    have "same_but_vcpi p (p\<lparr>vcpi := next_vcpi m p\<rparr>)" using False by (simp add: same_but_vcpi_def next_vcpi_def)
    moreover have "count + 1 \<le> max_pl" using Cons.prems unfolding alloc_loop_step [OF False] by (auto split: if_splits)
    ultimately show ?thesis using Cons.IH [OF qs(1)] qs(2) False by auto
  qed
qed simp

lemma alloc_loop_vcpi:
  assumes "alloc_limits_loop max_pl avail count m ps = (0, c, m', ps')" and "mask_agrees m (bs @ vcpi_bits ps)"
    and "length bs + length (active ps) \<le> 32"
  shows "mask_agrees m' (bs @ vcpi_bits ps') \<and> (\<forall>p \<in> set (active ps'). vcpi p \<noteq> 0)"
  using assms
proof (induction ps arbitrary: avail count m ps' bs)
  case (Cons p ps)
  show ?case
  proof (cases "pl_delete p")
    case True
    with Cons.prems obtain qs where "alloc_limits_loop max_pl avail count m ps = (0, c, m', qs)" "ps' = p # qs" by (auto split: prod.splits)
    with Cons.IH Cons.prems True show ?thesis by simp
  next
    case False
    note active = False
    define n where "n = ffz (ucast m)"
    define v where "v = next_vcpi m p"
    define m1 where "m1 = next_mask m p"
    note defs = next_vcpi_def next_mask_def
    obtain avail' qs where qs: "alloc_limits_loop max_pl avail' (count + 1) m1 ps = (0, c, m', qs)" "ps' = p\<lparr>vcpi := v\<rparr> # qs"
      using alloc_loop_ok [OF False Cons.prems(1)] unfolding v_def m1_def by blast
    have step: "v \<noteq> 0 \<and> mask_agrees m1 ((unat v - 1) # bs @ vcpi_bits ps)"
    proof (cases "vcpi p = 0")
      case True
      have "length (vcpi_bits ps) \<le> length (active ps)" by (simp add: vcpi_bits_def)
      then have "length (bs @ vcpi_bits ps) < 32" using Cons.prems(3) active by simp
      with Cons.prems(2) True active have n: "n < 32" "n \<notin> set (bs @ vcpi_bits ps)"
        using ffz_mask [of m "bs @ vcpi_bits ps"] by (simp_all add: n_def)
      have u: "unat v = n + 1" using n(1) True unat_of_nat_u8 [of "n + 1"] by (simp add: v_def defs flip: n_def)
      moreover have "v \<noteq> 0" using u by auto
      ultimately show ?thesis using mask_agrees_insert [OF _ n] Cons.prems(2) True active by (simp add: m1_def v_def defs n_def)
    next
      case False
      then show ?thesis using Cons.prems(2) active mask_agrees_move [of m "unat v - 1" bs "vcpi_bits ps"] by (simp add: v_def m1_def defs)
    qed
    have "mask_agrees m' (((unat v - 1) # bs) @ vcpi_bits qs) \<and> (\<forall>p \<in> set (active qs). vcpi p \<noteq> 0)"
      using Cons.IH [OF qs(1), of "(unat v - 1) # bs"] step Cons.prems(3) active by simp
    then show ?thesis using qs(2) active step mask_agrees_move [of m' "unat v - 1" bs "vcpi_bits qs"] by simp
  qed
qed simp

section \<open>The state\<close>

definition vcpi_inv :: "drm_dp_mst_topology_state \<Rightarrow> bool" where
  "vcpi_inv st \<longleftrightarrow> distinct (map pl_ptr (payloads st)) \<and> mask_agrees (payload_mask st) (vcpi_bits (payloads st))"

lemma same_but_vcpi_ptr: "list_all2 same_but_vcpi ps qs \<Longrightarrow> map pl_ptr qs = map pl_ptr ps"
  by (induction rule: list_all2_induct) (auto simp: same_but_vcpi_def dest: arg_cong [of _ _ pl_port])

lemma check_alloc_accepts:
  assumes "\<forall>p \<in> set (payloads st). 0 \<le> time_slots p \<and> time_slots p < 2 ^ 31" and "0 \<le> max_payloads mgr"
  shows "(fst (drm_dp_mst_atomic_check_payload_alloc_limits mgr st) = 0 \<longleftrightarrow>
      slots_needed (payloads st) \<le> uint (total_avail_slots st) \<and> int (length (active (payloads st))) \<le> max_payloads mgr) \<and>
    fst (drm_dp_mst_atomic_check_payload_alloc_limits mgr st) \<in> {0, neg_errno ENOSPC, neg_errno EINVAL}"
proof -
  have "uint (total_avail_slots st) < 2 ^ 31" using uint_lt2p [of "total_avail_slots st"] by simp
  from alloc_loop_accepts [OF assms(1) _ this, of "max_payloads mgr" 0 "payload_mask st"] assms(2) show ?thesis
    by (auto simp: drm_dp_mst_atomic_check_payload_alloc_limits_def Let_def split: prod.splits)
qed

lemma check_alloc_result:
  assumes "drm_dp_mst_atomic_check_payload_alloc_limits mgr st = (0, st')" and "vcpi_inv st" and "max_payloads mgr \<le> 32"
  shows "vcpi_inv st' \<and> (\<forall>p \<in> set (active (payloads st')). vcpi p \<noteq> 0) \<and> list_all2 same_but_vcpi (payloads st) (payloads st')"
proof -
  obtain c m ps where run: "alloc_limits_loop (max_payloads mgr) (uint (total_avail_slots st)) 0 (payload_mask st) (payloads st) = (0, c, m, ps)"
    and st': "payload_mask st' = m" "payloads st' = ps"
    using assms(1) by (auto simp: drm_dp_mst_atomic_check_payload_alloc_limits_def Let_def split: prod.splits if_splits)
  have "length (active (payloads st)) \<le> 32" using alloc_loop_result [OF run] assms(3) by auto
  then show ?thesis
    using alloc_loop_result [OF run] alloc_loop_vcpi [OF run, of "[]"] same_but_vcpi_ptr [of "payloads st" ps] assms(2)
    by (simp add: vcpi_inv_def st')
qed

text \<open>Distinct identifiers between 1 and 32.\<close>

definition vcpis_valid :: "drm_dp_mst_atomic_payload list \<Rightarrow> bool" where
  "vcpis_valid ps \<longleftrightarrow> distinct (map vcpi (active ps)) \<and> (\<forall>p \<in> set (active ps). 1 \<le> unat (vcpi p) \<and> unat (vcpi p) \<le> 32)"

lemma vcpi_inv_valid:
  assumes "vcpi_inv st" and "\<forall>p \<in> set (active (payloads st)). vcpi p \<noteq> 0"
  shows "vcpis_valid (payloads st)"
proof -
  let ?ps = "active (payloads st)"
  have bits: "vcpi_bits (payloads st) = map (\<lambda>p. unat (vcpi p) - 1) ?ps" using assms(2) by (simp add: vcpi_bits_def filter_True)
  have "distinct (map (\<lambda>v. unat v - 1) (map vcpi ?ps))" using assms(1) by (simp add: vcpi_inv_def mask_agrees_def bits comp_def)
  then have "distinct (map vcpi ?ps)" unfolding distinct_map [of "\<lambda>v. unat v - 1" "map vcpi ?ps"] by blast
  moreover have "1 \<le> unat (vcpi p) \<and> unat (vcpi p) \<le> 32" if "p \<in> set ?ps" for p
  proof -
    have "unat (vcpi p) - 1 < 32" using assms(1) that mask_agrees_bound [of "payload_mask st" "vcpi_bits (payloads st)"] by (auto simp: vcpi_inv_def bits)
    moreover have "unat (vcpi p) \<noteq> 0" using assms(2) that by (simp add: unat_eq_0)
    ultimately show ?thesis by simp
  qed
  ultimately show ?thesis by (simp add: vcpis_valid_def)
qed

text \<open>
  C18. The check of the payloads of a state accepts it exactly if the payloads that stay need no more time slots than there are and are not more than the
  hub can take. Then each of them has an identifier of its own between 1 and 32, nothing else of the payloads has changed, those that
  had an identifier kept it, and the mask of the state still has exactly the bits of the identifiers in use. Otherwise the result is
  \<open>-ENOSPC\<close> or \<open>-EINVAL\<close>.
\<close>

theorem payload_alloc_correct:
  assumes "vcpi_inv st" and "\<forall>p \<in> set (payloads st). 0 \<le> time_slots p \<and> time_slots p < 2 ^ 31" and "0 \<le> max_payloads mgr" and "max_payloads mgr \<le> 32"
  shows "case drm_dp_mst_atomic_check_payload_alloc_limits mgr st of (ret, st') \<Rightarrow>
    if slots_needed (payloads st) \<le> uint (total_avail_slots st) \<and> int (length (active (payloads st))) \<le> max_payloads mgr
    then ret = 0 \<and> vcpis_valid (payloads st') \<and> vcpi_inv st' \<and> list_all2 same_but_vcpi (payloads st) (payloads st')
    else ret \<in> {neg_errno ENOSPC, neg_errno EINVAL}"
proof -
  obtain ret st' where run: "drm_dp_mst_atomic_check_payload_alloc_limits mgr st = (ret, st')" by fastforce
  show ?thesis using check_alloc_accepts [OF assms(2,3)] check_alloc_result [of mgr st st'] vcpi_inv_valid [of st'] assms(1,4) run by auto
qed

theorem payload_alloc_correct_witness:
  "case drm_dp_mst_atomic_check_payload_alloc_limits ex_payload_mgr (ex_mst_state [ex_payload 4, ex_payload 5]) of (ret, st') \<Rightarrow>
     ret = 0 \<and> vcpis_valid (payloads st') \<and> vcpi_inv st'"
proof -
  let ?st = "ex_mst_state [ex_payload 4, ex_payload 5]"
  have "vcpi_inv ?st" by (simp add: vcpi_inv_def ex_bw_defs mask_agrees_def)
  from payload_alloc_correct [OF this, of ex_payload_mgr] show ?thesis
    by (auto simp: ex_payload_mgr_def ex_bw_defs slots_needed_def split: prod.splits)
qed

section \<open>Operations on the state\<close>

lemma vcpi_bits_append [simp]: "vcpi_bits (as @ bs) = vcpi_bits as @ vcpi_bits bs"
  by (induction as) auto

lemma upd_other: "port \<notin> pl_ptr ` set ps \<Longrightarrow> map (\<lambda>p. if pl_ptr p = port then f p else p) ps = ps"
  by (induction ps) auto

lemma payload_split:
  assumes "drm_atomic_get_mst_payload_state st port = Some p" and "distinct (map pl_ptr (payloads st))"
  shows "\<exists>as bs. payloads st = as @ p # bs \<and> pl_ptr p = port \<and> port \<notin> pl_ptr ` set (as @ bs) \<and>
    (\<forall>f. payloads (upd_payload port f st) = as @ f p # bs)"
proof -
  have p: "p \<in> set (payloads st)" "pl_ptr p = port" using assms(1) by (auto simp: drm_atomic_get_mst_payload_state_def find_Some_iff)
  obtain as bs where split: "payloads st = as @ p # bs" using split_list [OF p(1)] by blast
  then have other: "port \<notin> pl_ptr ` set as" "port \<notin> pl_ptr ` set bs" using assms(2) p(2) by auto
  with split p(2) show ?thesis by (intro exI [of _ as] exI [of _ bs]) (auto simp: upd_payload_def upd_other)
qed

text \<open>Changes of a payload that keep its port, its identifier and whether it is deleted.\<close>

lemma upd_vcpi_inv:
  assumes "vcpi_inv st" and "\<forall>p \<in> set (payloads st). pl_ptr p = port \<longrightarrow> pl_ptr (f p) = pl_ptr p \<and> vcpi (f p) = vcpi p \<and> pl_delete (f p) = pl_delete p"
  shows "vcpi_inv (upd_payload port f st)"
proof -
  let ?g = "\<lambda>p. if pl_ptr p = port then f p else p"
  have "map pl_ptr (map ?g ps) = map pl_ptr ps \<and> vcpi_bits (map ?g ps) = vcpi_bits ps" if "set ps \<subseteq> set (payloads st)" for ps
    using that assms(2) by (induction ps) auto
  from this [OF order_refl] assms(1) show ?thesis unfolding vcpi_inv_def upd_payload_def by (simp del: map_map map_eq_conv)
qed

lemma find_vcpi_inv:
  assumes "drm_dp_atomic_find_time_slots (Inr st) crtc mem port pbn = Some (ret, Inr st')" and "vcpi_inv st"
  shows "vcpi_inv st'"
proof -
  let ?st = "st\<lparr>pending_crtc_mask := pending_crtc_mask st OR crtc\<rparr>"
  have inv: "vcpi_inv ?st" using assms(2) by (simp add: vcpi_inv_def)
  show ?thesis
  proof (cases "drm_atomic_get_mst_payload_state ?st (up_ptr port)")
    case None
    then have "up_ptr port \<notin> pl_ptr ` set (payloads st)" by (auto simp: drm_atomic_get_mst_payload_state_def find_None_iff)
    with None inv assms(1) show ?thesis by (auto simp: drm_dp_atomic_find_time_slots_def Let_def vcpi_inv_def split: if_splits)
  next
    case (Some p)
    then show ?thesis using assms(1) inv upd_vcpi_inv [OF inv, of "up_ptr port"]
      by (auto simp: drm_dp_atomic_find_time_slots_def Let_def split: if_splits)
  qed
qed

lemma release_vcpi_inv:
  assumes "drm_dp_atomic_release_time_slots (Inr st) old_crtc new_crtc port = (ret, Inr st')" and "vcpi_inv st"
  shows "vcpi_inv st'"
proof -
  define s where "s m = st\<lparr>pending_crtc_mask := m\<rparr>" for m
  have inv: "vcpi_inv (s m)" for m using assms(2) by (simp add: s_def vcpi_inv_def)
  have del: "vcpi_inv (if vcpi p > 0 then t\<lparr>payload_mask := payload_mask t AND NOT (vcpi_bit (vcpi p))\<rparr> else t)"
    if "drm_atomic_get_mst_payload_state (s m) port = Some p" "\<not> pl_delete p"
      "t = upd_payload port (\<lambda>p. p\<lparr>pl_pbn := 0, pl_delete := True\<rparr>) (s m)" for m p t
  proof -
    note hyps = that
    obtain as bs where split: "payloads (s m) = as @ p # bs" "payloads t = as @ p\<lparr>pl_pbn := 0, pl_delete := True\<rparr> # bs"
      using payload_split [OF hyps(1)] inv [of m] hyps(3) unfolding vcpi_inv_def by blast
    have agrees: "mask_agrees (payload_mask (s m)) (vcpi_bits (as @ p # bs))" "distinct (map pl_ptr (as @ p # bs))"
      using inv [of m] unfolding vcpi_inv_def split(1) by blast+
    have mask: "payload_mask t = payload_mask (s m)" by (simp add: hyps(3) upd_payload_def)
    show ?thesis
    proof (cases "vcpi p = 0")
      case True
      with agrees hyps(2) split(2) mask show ?thesis by (simp add: vcpi_inv_def)
    next
      case False
      with agrees hyps(2) split(2) mask mask_agrees_remove [of "payload_mask (s m)" "vcpi_bits as" "vcpi p" "vcpi_bits bs"]
      show ?thesis by (simp add: vcpi_inv_def word_neq_0_conv)
    qed
  qed
  show ?thesis using assms inv
    by (auto simp: drm_dp_atomic_release_time_slots_def Let_def s_def [symmetric] split: option.splits if_splits dest: del [OF _ _ refl])
qed

lemma copy_payloads_result:
  "copy_payloads mem i ps new = Some qs \<Longrightarrow> qs = rev (active ps) @ new"
  by (induction mem i ps new rule: copy_payloads.induct) (auto split: if_splits)

lemma duplicate_vcpi_inv:
  assumes "drm_dp_mst_duplicate_state mem old = Some st" and "vcpi_inv old"
  shows "vcpi_inv st"
proof -
  have bits: "vcpi_bits (rev (active ps)) = rev (vcpi_bits ps)" for ps by (simp add: vcpi_bits_def active_def rev_filter rev_map)
  have "payloads st = rev (active (payloads old))" "payload_mask st = payload_mask old"
    using assms(1) copy_payloads_result [of mem 1 "payloads old" "[]"] by (auto simp: drm_dp_mst_duplicate_state_def split: if_splits)
  moreover have "distinct (map pl_ptr (rev (active (payloads old))))"
    using assms(2) distinct_map_filter [of pl_ptr "payloads old"] by (simp add: vcpi_inv_def active_def rev_map [symmetric])
  ultimately show ?thesis using assms(2) by (simp add: vcpi_inv_def bits mask_agrees_def)
qed

lemma take_over_vcpi_inv: "take_over olds new = Some st \<Longrightarrow> vcpi_inv new \<Longrightarrow> vcpi_inv st"
proof (induction olds new rule: take_over.induct)
  case (2 old olds new)
  let ?f = "\<lambda>p. p\<lparr>vc_start_slot := vc_start_slot old, allocation_status := allocation_status old\<rparr>"
  have "vcpi_inv (upd_payload (pl_ptr old) ?f new)" using 2(4) by (intro upd_vcpi_inv) simp_all
  with 2 show ?case by (auto split: if_splits option.splits)
qed simp

lemma map_sum_eq_Inr: "map_sum id f x = Inr y \<longleftrightarrow> (\<exists>z. x = Inr z \<and> y = f z)"
  by (cases x) auto

lemma enable_dsc_vcpi_inv:
  assumes "drm_dp_mst_atomic_enable_dsc (Inr st) crtc mem port pbn enable = Some (ret, Inr st')" and "vcpi_inv st"
  shows "vcpi_inv st'"
proof -
  have set: "vcpi_inv (upd_payload (up_ptr port) (\<lambda>p. p\<lparr>dsc_enabled := enable\<rparr>) s)" if "vcpi_inv s" for s
    using that by (intro upd_vcpi_inv) simp_all
  show ?thesis
  proof (cases "drm_atomic_get_mst_payload_state st (up_ptr port)")
    case None
    with assms show ?thesis by (simp add: drm_dp_mst_atomic_enable_dsc_def)
  next
    case (Some p)
    have find: "vcpi_inv s" if "drm_dp_atomic_find_time_slots (Inr st) crtc mem port pbn = Some (slots, Inr s)" for slots s
      using that assms(2) by (rule find_vcpi_inv)
    with assms Some set [OF find] set [OF assms(2)] show ?thesis
      by (auto simp: drm_dp_mst_atomic_enable_dsc_def Let_def map_sum_eq_Inr split: option.splits if_splits)
  qed
qed

text \<open>The commit phase changes the first slot and the status of a payload only.\<close>

definition commit_same :: "drm_dp_mst_atomic_payload \<Rightarrow> drm_dp_mst_atomic_payload \<Rightarrow> bool" where
  "commit_same p q \<longleftrightarrow> q = p\<lparr>vc_start_slot := vc_start_slot q, allocation_status := allocation_status q\<rparr>"

lemma add_part1_same: "drm_dp_add_payload_part1 mgr first p a = (ret, mgr', q, a') \<Longrightarrow> commit_same p q"
  by (auto simp: drm_dp_add_payload_part1_def commit_same_def Let_def split: option.splits prod.splits if_splits)

lemma add_part2_same: "drm_dp_add_payload_part2 send mgr p a = (ret, q, a') \<Longrightarrow> commit_same p q"
  by (auto simp: drm_dp_add_payload_part2_def commit_same_def split: prod.splits if_splits)

lemma remove_part1_same: "drm_dp_remove_payload_part1 send mgr p a = (q, a') \<Longrightarrow> commit_same p q"
  by (auto simp: drm_dp_remove_payload_part1_def drm_dp_destroy_payload_at_remote_and_dfp_def commit_same_def Let_def split: prod.splits if_splits)

lemma commit_vcpi_inv:
  assumes "drm_atomic_get_mst_payload_state st port = Some p" and "commit_same p q" and "vcpi_inv st"
  shows "vcpi_inv (upd_payload port (\<lambda>_. q) st)"
proof -
  obtain s u where q: "q = p\<lparr>vc_start_slot := s, allocation_status := u\<rparr>" using assms(2) unfolding commit_same_def by blast
  obtain as bs where "payloads st = as @ p # bs" "payloads (upd_payload port (\<lambda>_. q) st) = as @ q # bs"
    using payload_split [OF assms(1)] assms(3) unfolding vcpi_inv_def by blast
  with assms(3) q show ?thesis by (auto simp: vcpi_inv_def upd_payload_def split: if_splits)
qed

lemma remove_part2_vcpi_inv:
  assumes "drm_dp_remove_payload_part2 port slots mgr st = Some (mgr', st')" and "vcpi_inv st"
  shows "vcpi_inv st'"
proof -
  have shift: "vcpi_inv (st\<lparr>payloads := map (\<lambda>p. if P p then p\<lparr>vc_start_slot := f p\<rparr> else p) (payloads st)\<rparr>)" for P f
  proof -
    have "map pl_ptr (map (\<lambda>p. if P p then p\<lparr>vc_start_slot := f p\<rparr> else p) ps) = map pl_ptr ps \<and>
      vcpi_bits (map (\<lambda>p. if P p then p\<lparr>vc_start_slot := f p\<rparr> else p) ps) = vcpi_bits ps" for ps by (induction ps) auto
    from this [of "payloads st"] assms(2) show ?thesis unfolding vcpi_inv_def by (simp del: map_map map_eq_conv)
  qed
  show ?thesis using assms(1) upd_vcpi_inv [OF shift, where port = port] by (auto simp: drm_dp_remove_payload_part2_def Let_def split: option.splits)
qed

section \<open>Reachable states\<close>

text \<open>
  The states a topology goes through: a new state, copies for new atomic states, the operations of the check phase as far as they
  succeed, and those of the commit phase, for a hub with at most 32 payloads.
\<close>

inductive mst_state_reachable :: "'a payload_mgr \<Rightarrow> drm_dp_mst_topology_state \<Rightarrow> bool" where
  create: "drm_dp_mst_atomic_create_state mem = Some st \<Longrightarrow> max_payloads mgr \<le> 32 \<Longrightarrow> mst_state_reachable mgr st"
| topology: "mst_state_reachable mgr st \<Longrightarrow> max_payloads mgr' \<le> 32 \<Longrightarrow> payload_count mgr' = payload_count mgr \<Longrightarrow>
    next_start_slot mgr' = next_start_slot mgr \<Longrightarrow> mst_state_reachable mgr' st"
| duplicate: "mst_state_reachable mgr old \<Longrightarrow> drm_dp_mst_duplicate_state mems old = Some st \<Longrightarrow> mst_state_reachable mgr st"
| slots: "mst_state_reachable mgr st \<Longrightarrow> mst_state_reachable mgr (drm_dp_mst_update_slots b st)"
| pbn_div: "mst_state_reachable mgr st \<Longrightarrow> mst_state_reachable mgr (st\<lparr>pbn_div := d\<rparr>)"
| find_slots: "mst_state_reachable mgr st \<Longrightarrow> drm_dp_atomic_find_time_slots (Inr st) crtc mem port pbn = Some (ret, Inr st') \<Longrightarrow>
    mst_state_reachable mgr st'"
| release: "mst_state_reachable mgr st \<Longrightarrow> drm_dp_atomic_release_time_slots (Inr st) old_crtc new_crtc port_id = (ret, Inr st') \<Longrightarrow>
    mst_state_reachable mgr st'"
| dsc: "mst_state_reachable mgr st \<Longrightarrow> drm_dp_mst_atomic_enable_dsc (Inr st) crtc mem port pbn enable = Some (ret, Inr st') \<Longrightarrow>
    mst_state_reachable mgr st'"
| check: "mst_state_reachable mgr st \<Longrightarrow> drm_dp_mst_atomic_check_mgr mgr st = (0, failing, st') \<Longrightarrow> mst_state_reachable mgr st'"
| take_over: "mst_state_reachable mgr st \<Longrightarrow> take_over (payloads (old :: drm_dp_mst_topology_state)) st = Some st' \<Longrightarrow> mst_state_reachable mgr st'"
| add1: "mst_state_reachable mgr st \<Longrightarrow> drm_atomic_get_mst_payload_state st port_id = Some p \<Longrightarrow>
    drm_dp_add_payload_part1 mgr (start_slot st) p a = (ret, mgr', q, a') \<Longrightarrow> mst_state_reachable mgr' (upd_payload port_id (\<lambda>_. q) st)"
| add2: "mst_state_reachable mgr st \<Longrightarrow> drm_atomic_get_mst_payload_state st port_id = Some p \<Longrightarrow>
    drm_dp_add_payload_part2 send mgr p a = (ret, q, a') \<Longrightarrow> mst_state_reachable mgr (upd_payload port_id (\<lambda>_. q) st)"
| remove1: "mst_state_reachable mgr st \<Longrightarrow> drm_atomic_get_mst_payload_state st port_id = Some p \<Longrightarrow>
    drm_dp_remove_payload_part1 send mgr p a = (q, a') \<Longrightarrow> mst_state_reachable mgr (upd_payload port_id (\<lambda>_. q) st)"
| remove2: "mst_state_reachable mgr st \<Longrightarrow> drm_dp_remove_payload_part2 port_id old_slots mgr st = Some (mgr', st') \<Longrightarrow>
    mst_state_reachable mgr' st'"

lemma add_part1_max: "drm_dp_add_payload_part1 mgr first p a = (ret, mgr', q, a') \<Longrightarrow> max_payloads mgr' = max_payloads mgr"
  by (auto simp: drm_dp_add_payload_part1_def Let_def split: option.splits prod.splits if_splits)

lemma remove_part2_max: "drm_dp_remove_payload_part2 port slots mgr st = Some (mgr', st') \<Longrightarrow> max_payloads mgr' = max_payloads mgr"
  by (auto simp: drm_dp_remove_payload_part2_def Let_def split: option.splits)

lemma check_mgr_vcpi_inv:
  assumes "drm_dp_mst_atomic_check_mgr mgr st = (0, failing, st')" and "vcpi_inv st" and "max_payloads mgr \<le> 32"
  shows "vcpi_inv st'"
proof -
  from assms(1) have "st' = st \<or> drm_dp_mst_atomic_check_payload_alloc_limits mgr st = (0, st')"
    by (auto simp: drm_dp_mst_atomic_check_mgr_def split: if_splits option.splits prod.splits)
  with assms(2,3) show ?thesis using check_alloc_result by blast
qed

lemma atomic_check_all: "drm_dp_mst_atomic_check mss = (0, mss') \<Longrightarrow>
  list_all2 (\<lambda>(mgr, st) (mgr', st'). mgr' = mgr \<and> (\<exists>failing. drm_dp_mst_atomic_check_mgr mgr st = (0, failing, st'))) mss mss'"
  by (induction mss arbitrary: mss' rule: drm_dp_mst_atomic_check.induct) (auto split: prod.splits if_splits)

text \<open>
  C19. The states of a topology are well-formed: in every state that can be reached no two payloads have the same port, no two active payloads have the same identifier, and the
  mask has exactly the bits of the identifiers in use.
\<close>

theorem vcpi_invariant: "mst_state_reachable mgr st \<Longrightarrow> vcpi_inv st \<and> max_payloads mgr \<le> 32"
proof (induction rule: mst_state_reachable.induct)
  case (create mem st mgr)
  then show ?case by (auto simp: drm_dp_mst_atomic_create_state_def vcpi_inv_def mask_agrees_def split: if_splits)
next
  case (slots mgr st b)
  then show ?case by (auto simp: drm_dp_mst_update_slots_def simp: vcpi_inv_def)
next
  case (pbn_div mgr st d)
  then show ?case by (simp add: vcpi_inv_def)
qed (auto simp: add_part1_max remove_part2_max
  intro: duplicate_vcpi_inv find_vcpi_inv release_vcpi_inv enable_dsc_vcpi_inv check_mgr_vcpi_inv take_over_vcpi_inv remove_part2_vcpi_inv
    commit_vcpi_inv add_part1_same add_part2_same remove_part1_same)

definition ex_found :: "u32 \<Rightarrow> u32 \<Rightarrow> u8 \<Rightarrow> drm_dp_mst_topology_state" where
  "ex_found pending m v = \<lparr>pending_crtc_mask = pending, payload_mask = m, payloads = [(ex_payload 4)\<lparr>vcpi := v, time_slots := 24\<rparr>],
     total_avail_slots = 63, start_slot = 1, pbn_div = 262144\<rparr>"

lemma ex_find: "drm_dp_atomic_find_time_slots (Inr (ex_mst_state []\<lparr>pbn_div := 262144\<rparr>)) 1 True (pl_port (ex_payload 4)) 1500 = Some (24, Inr (ex_found 1 0 0))"
  by (simp add: drm_dp_atomic_find_time_slots_def ex_bw_defs ex_found_def to_s32_def)

lemma ex_check: "drm_dp_mst_atomic_check_mgr ex_payload_mgr (ex_found 1 0 0) = (0, None, ex_found 1 1 1)"
proof -
  have bw: "check_mstb_bw_limit (ex_found 1 0 0) ex_bw_topology = (1500, None)"
    by (simp add: ex_found_def ex_bw_defs to_s32_def)
  have "upt 0 64 = 0 # [1..<64]" by (simp add: upt_conv_Cons)
  then have "ffz 0 = 0" by (simp add: ffz_def)
  then have "drm_dp_mst_atomic_check_payload_alloc_limits ex_payload_mgr (ex_found 1 0 0) = (0, ex_found 1 1 1)"
    by (simp add: drm_dp_mst_atomic_check_payload_alloc_limits_def ex_payload_mgr_def ex_found_def ex_payload_def to_s32_def vcpi_bit_def)
  with bw show ?thesis by (simp add: drm_dp_mst_atomic_check_mgr_def ex_payload_mgr_def)
qed

theorem vcpi_invariant_witness: "mst_state_reachable ex_payload_mgr (ex_found 1 1 1) \<and> vcpi_inv (ex_found 1 1 1)"
proof -
  have "mst_state_reachable ex_payload_mgr (ex_mst_state [])"
    by (rule create [of True]) (simp_all add: drm_dp_mst_atomic_create_state_def ex_mst_state_def ex_payload_mgr_def)
  from check [OF find_slots [OF pbn_div [OF this] ex_find] ex_check] have "mst_state_reachable ex_payload_mgr (ex_found 1 1 1)" .
  with vcpi_invariant [OF this] show ?thesis by blast
qed

end
