(* ===== verification/MST_Table.thy ===== *)
theory MST_Table
  imports MST_Alloc
begin

text \<open>
  The table of payloads of a hub at commit time. The specification is a list of ports with their numbers of time slots in the order of the
  slots: a new payload is put at the end, and when one is removed those behind it move up. The functions of the commit phase implement it with a first
  slot in each payload, of 8 bits with a sign, and a counter and the next free slot in the manager.
\<close>

section \<open>The specification\<close>

type_synonym slot_table = "(nat \<times> int) list"

definition slots_total :: "slot_table \<Rightarrow> int" where
  "slots_total tbl = sum_list (map snd tbl)"

fun slot_of :: "int \<Rightarrow> slot_table \<Rightarrow> nat \<Rightarrow> int" where
  "slot_of first [] port = - 1"
| "slot_of first ((q, n) # tbl) port = (if q = port then first else slot_of (first + n) tbl port)"

definition table_wf :: "slot_table \<Rightarrow> bool" where
  "table_wf tbl \<longleftrightarrow> distinct (map fst tbl) \<and> (\<forall>n \<in> snd ` set tbl. 0 \<le> n)"

definition table_del :: "nat \<Rightarrow> slot_table \<Rightarrow> slot_table" where
  "table_del port tbl = filter (\<lambda>e. fst e \<noteq> port) tbl"

lemma table_simps [simp]:
  "slots_total [] = 0" "slots_total (e # tbl) = snd e + slots_total tbl"
  "table_wf []" "table_wf (e # tbl) \<longleftrightarrow> fst e \<notin> fst ` set tbl \<and> 0 \<le> snd e \<and> table_wf tbl"
  "table_del port [] = []" "table_del port (e # tbl) = (if fst e = port then table_del port tbl else e # table_del port tbl)"
  by (auto simp: slots_total_def table_wf_def table_del_def)

lemma slots_total_append [simp]: "slots_total (as @ bs) = slots_total as + slots_total bs"
  by (simp add: slots_total_def)

lemma slots_total_nonneg: "table_wf tbl \<Longrightarrow> 0 \<le> slots_total tbl"
  by (induction tbl) auto

lemma slot_of_none: "port \<notin> fst ` set tbl \<Longrightarrow> slot_of first tbl port = - 1"
  by (induction tbl arbitrary: first) auto

lemma slot_of_range: "table_wf tbl \<Longrightarrow> map_of tbl port = Some n \<Longrightarrow> first \<le> slot_of first tbl port \<and> slot_of first tbl port + n \<le> first + slots_total tbl"
proof (induction tbl arbitrary: first)
  case (Cons e tbl)
  show ?case using Cons.prems slots_total_nonneg [of tbl] Cons.IH [of "first + snd e"] by (cases e) (auto split: if_splits)
qed simp

lemma slot_of_append:
  "port \<notin> fst ` set tbl \<Longrightarrow>
   slot_of first (tbl @ [(port, n)]) q = (if q = port then first + slots_total tbl else slot_of first tbl q)"
  by (induction tbl arbitrary: first) auto

lemma table_del_absent: "port \<notin> fst ` set tbl \<Longrightarrow> table_del port tbl = tbl"
  by (induction tbl) auto

lemma table_del_total: "table_wf tbl \<Longrightarrow> map_of tbl port = Some n \<Longrightarrow> slots_total (table_del port tbl) = slots_total tbl - n"
  by (induction tbl) (auto simp: table_del_absent split: if_splits)

lemma table_del_length: "table_wf tbl \<Longrightarrow> map_of tbl port = Some n \<Longrightarrow> length tbl = Suc (length (table_del port tbl))"
  by (induction tbl) (auto simp: table_del_absent split: if_splits)

lemma table_del_other: "q \<noteq> port \<Longrightarrow> map_of (table_del port tbl) q = map_of tbl q"
  by (induction tbl) auto

lemma table_del_wf: "table_wf tbl \<Longrightarrow> table_wf (table_del port tbl)"
  by (auto simp: table_wf_def table_del_def distinct_map_filter)

lemma slot_of_shift: "port \<in> fst ` set tbl \<Longrightarrow> slot_of (first + k) tbl port = slot_of first tbl port + k"
proof (induction tbl arbitrary: first)
  case (Cons e tbl)
  obtain q n where e: "e = (q, n)" by fastforce
  have comm: "first + k + n = first + n + k" by simp
  show ?case unfolding e slot_of.simps comm using Cons.prems Cons.IH [of "first + n"] e by auto
qed simp

lemma slot_of_del:
  assumes "table_wf tbl" and "map_of tbl port = Some n" and "0 \<le> first" and "q \<noteq> port"
  shows "slot_of first (table_del port tbl) q =
    (if slot_of first tbl q > slot_of first tbl port then slot_of first tbl q - n else slot_of first tbl q)"
  using assms
proof (induction tbl arbitrary: first)
  case (Cons e tbl)
  obtain r k where e: "e = (r, k)" by fastforce
  show ?case
  proof (cases "r = port")
    case True
    then have "table_del port tbl = tbl" "k = n" using Cons.prems e by (auto intro: table_del_absent)
    then have goal: "?thesis \<longleftrightarrow> slot_of first tbl q = (if slot_of (first + n) tbl q > first then slot_of (first + n) tbl q - n else slot_of (first + n) tbl q)"
      using True e Cons.prems(4) by simp
    show ?thesis
    proof (cases "map_of tbl q")
      case None
      then have "q \<notin> fst ` set tbl" by (simp add: map_of_eq_None_iff)
      then show ?thesis unfolding goal using Cons.prems(3) by (simp add: slot_of_none)
    next
      case (Some l)
      then have "q \<in> fst ` set tbl" by (auto dest: map_of_SomeD intro: rev_image_eqI)
      moreover have "0 \<le> n" "table_wf tbl" using Cons.prems e \<open>k = n\<close> by auto
      ultimately show ?thesis unfolding goal using slot_of_range [OF _ Some, of first] slot_of_shift [of q tbl first n] by auto
    qed
  next
    case False
    show ?thesis
    proof (cases "r = q")
      case True
      have "first \<le> slot_of (first + k) tbl port" using slot_of_range [of tbl port n "first + k"] Cons.prems(1,2) e False by auto
      with True False e Cons.prems(4) show ?thesis by simp
    next
      case other: False
      then show ?thesis using False e Cons.prems Cons.IH [of "first + k"] by simp
    qed
  qed
qed simp

section \<open>The relation\<close>

definition table_rel :: "int \<Rightarrow> slot_table \<Rightarrow> 'a payload_mgr \<Rightarrow> drm_dp_mst_topology_state \<Rightarrow> bool" where
  "table_rel first tbl mgr st \<longleftrightarrow>
     table_wf tbl \<and> 0 \<le> first \<and> first + slots_total tbl \<le> 127 \<and> length tbl \<le> 255 \<and>
     unat (payload_count mgr) = length tbl \<and> (tbl \<noteq> [] \<longrightarrow> uint (next_start_slot mgr) = first + slots_total tbl) \<and>
     distinct (map pl_ptr (payloads st)) \<and> (\<forall>p \<in> set (payloads st). sint (vc_start_slot p) = slot_of first tbl (pl_ptr p))"

lemma sint_of_int_u8: "- 128 \<le> k \<Longrightarrow> k \<le> 127 \<Longrightarrow> sint (word_of_int k :: u8) = k"
  by (simp add: sint_sbintrunc' signed_take_bit_int_eq_self)

lemma uint_of_int_u8: "0 \<le> k \<Longrightarrow> k \<le> 255 \<Longrightarrow> uint (word_of_int k :: u8) = k"
  by (simp add: uint_word_of_int_eq take_bit_int_eq_self)

lemma sint_minus_u8: "0 \<le> sint (a :: u8) - n \<Longrightarrow> sint a - n \<le> 127 \<Longrightarrow> sint (a - word_of_int n) = sint a - n"
  using sint_of_int_u8 [of "sint a - n"] by simp

lemma uint_plus_u8: "0 \<le> n \<Longrightarrow> uint (a :: u8) + n \<le> 255 \<Longrightarrow> uint (a + word_of_int n) = uint a + n"
  using uint_of_int_u8 [of "uint a + n"] uint_nonnegative [of a] by simp

lemma uint_minus_u8: "0 \<le> n \<Longrightarrow> 0 \<le> uint (a :: u8) - n \<Longrightarrow> uint (a - word_of_int n) = uint a - n"
  using uint_of_int_u8 [of "uint a - n"] uint_lt2p [of a] by simp

lemma sint_of_uint_u8: "uint (a :: u8) \<le> 127 \<Longrightarrow> sint a = uint a"
  using sint_of_int_u8 [of "uint a"] uint_nonnegative [of a] by simp

lemma unat_plus1_u8: "unat (a :: u8) < 255 \<Longrightarrow> unat (a + 1) = unat a + 1"
proof -
  assume "unat a < 255"
  then have "uint a + 1 \<le> 255" using uint_nat [of a] by linarith
  then have "int (unat (a + 1)) = int (unat a + 1)" using uint_plus_u8 [of 1 a] by simp
  then show ?thesis by (simp only: of_nat_eq_iff)
qed

lemma unat_minus1_u8: "0 < unat (a :: u8) \<Longrightarrow> unat (a - 1) = unat a - 1"
proof -
  assume "0 < unat a"
  moreover from this have "0 \<le> uint a - 1" using uint_nat [of a] by linarith
  ultimately have "int (unat (a - 1)) = int (unat a - 1)" using uint_minus_u8 [of 1 a] by (simp add: of_nat_diff)
  then show ?thesis by (simp only: of_nat_eq_iff)
qed

text \<open>The fields of the manager and of the payload after \<open>drm_dp_add_payload_part1\<close>, whatever its result.\<close>

lemma add_part1_fields:
  assumes "drm_dp_add_payload_part1 mgr first p a = (ret, mgr', q, a')"
  shows "payload_count mgr' = payload_count mgr + 1 \<and>
    vc_start_slot q = (if payload_count mgr = 0 then first else next_start_slot mgr) \<and>
    next_start_slot mgr' = vc_start_slot q + word_of_int (time_slots p)"
  using assms by (auto simp: drm_dp_add_payload_part1_def Let_def split: option.splits prod.splits if_splits)

lemma table_add:
  assumes rel: "table_rel first tbl mgr st" and p: "drm_atomic_get_mst_payload_state st port = Some p" and new: "port \<notin> fst ` set tbl"
    and fits: "0 \<le> time_slots p" "length tbl < 255" "first' + slots_total tbl + time_slots p \<le> 127"
    and first': "first' = (if tbl = [] then uint (start_slot st) else first)"
    and run: "drm_dp_add_payload_part1 mgr (start_slot st) p a = (ret, mgr', q, a')"
  shows "table_rel first' (tbl @ [(port, time_slots p)]) mgr' (upd_payload port (\<lambda>_. q) st)"
proof -
  note rel = rel [unfolded table_rel_def]
  have empty: "payload_count mgr = 0 \<longleftrightarrow> tbl = []" using rel by (simp add: unat_eq_0 [symmetric])
  have total: "0 \<le> first'" "0 \<le> slots_total tbl" using rel first' slots_total_nonneg [of tbl] by auto
  have start: "uint (vc_start_slot q) = first' + slots_total tbl"
    using add_part1_fields [OF run] rel first' empty by auto
  then have "sint (vc_start_slot q) = first' + slots_total tbl" using sint_of_uint_u8 [of "vc_start_slot q"] fits by simp
  moreover have "uint (next_start_slot mgr') = first' + slots_total tbl + time_slots p"
    using add_part1_fields [OF run] uint_plus_u8 [of "time_slots p" "vc_start_slot q"] start fits by simp
  moreover have "unat (payload_count mgr') = length tbl + 1"
    using add_part1_fields [OF run] unat_plus1_u8 [of "payload_count mgr"] rel fits by simp
  moreover obtain as bs where split: "payloads st = as @ p # bs" "pl_ptr p = port" "port \<notin> pl_ptr ` set (as @ bs)"
    "payloads (upd_payload port (\<lambda>_. q) st) = as @ q # bs" using payload_split [OF p] rel by blast
  moreover have "pl_ptr q = port" using add_part1_same [OF run] split(2) by (auto simp: commit_same_def dest: arg_cong [of _ _ pl_port])
  moreover have "slot_of first' tbl r = slot_of first tbl r" for r using first' by (cases tbl) auto
  moreover have "\<forall>r \<in> set (as @ bs). pl_ptr r \<noteq> port" using split(3) by auto
  ultimately show ?thesis using rel new total fits
    by (auto simp: table_rel_def slot_of_append [OF new] table_wf_def)
qed

lemma table_remove:
  assumes rel: "table_rel first tbl mgr st" and p: "drm_atomic_get_mst_payload_state st port = Some p" and n: "map_of tbl port = Some n"
  shows "\<exists>mgr' st'. drm_dp_remove_payload_part2 port n mgr st = Some (mgr', st') \<and> table_rel first (table_del port tbl) mgr' st'"
proof -
  note rel = rel [unfolded table_rel_def]
  define shift where "shift = (\<lambda>pos. if pl_ptr pos \<noteq> port \<and> sint (vc_start_slot pos) > sint (vc_start_slot p)
    then pos\<lparr>vc_start_slot := vc_start_slot pos - word_of_int n\<rparr> else pos)"
  define f where "f = (\<lambda>pos. if pl_ptr pos = port then (shift pos)\<lparr>vc_start_slot := - 1, allocation_status := ALLOCATION_NONE\<rparr> else shift pos)"
  define mgr' where "mgr' = mgr\<lparr>payload_count := payload_count mgr - 1, next_start_slot := next_start_slot mgr - word_of_int n\<rparr>"
  define st' where "st' = st\<lparr>payloads := map f (payloads st)\<rparr>"
  have ptr: "pl_ptr (shift pos) = pl_ptr pos" for pos by (simp add: shift_def)
  have "drm_dp_remove_payload_part2 port n mgr st = Some (mgr', st')"
    using p by (simp add: drm_dp_remove_payload_part2_def upd_payload_def mgr'_def st'_def f_def ptr comp_def flip: shift_def)
  moreover have "table_rel first (table_del port tbl) mgr' st'"
  proof -
    have range: "first \<le> slot_of first tbl port" "slot_of first tbl port + n \<le> first + slots_total tbl" "0 \<le> n"
      using slot_of_range [OF _ n] rel n by (auto simp: table_wf_def dest!: map_of_SomeD)
    have tbl: "tbl \<noteq> []" "length tbl = Suc (length (table_del port tbl))" using n rel table_del_length [OF _ n] by auto
    have del: "slots_total (table_del port tbl) = slots_total tbl - n" "table_wf (table_del port tbl)"
      using table_del_total [OF _ n] table_del_wf rel by auto
    have next_slot: "uint (next_start_slot mgr') = first + slots_total tbl - n"
      using uint_minus_u8 [of n "next_start_slot mgr"] range rel tbl(1) by (simp add: mgr'_def)
    have count: "unat (payload_count mgr') = length (table_del port tbl)"
      using unat_minus1_u8 [of "payload_count mgr"] rel tbl(2) by (simp add: mgr'_def)
    have mine: "sint (vc_start_slot p) = slot_of first tbl port"
      using p rel by (auto simp: drm_atomic_get_mst_payload_state_def find_Some_iff)
    have slot: "sint (vc_start_slot (f r)) = slot_of first (table_del port tbl) (pl_ptr r)" if "r \<in> set (payloads st)" for r
    proof (cases "pl_ptr r = port")
      case True
      have "port \<notin> fst ` set (table_del port tbl)" by (auto simp: table_del_def)
      with True show ?thesis by (simp add: f_def slot_of_none)
    next
      case False
      have r: "sint (vc_start_slot r) = slot_of first tbl (pl_ptr r)" using that rel by blast
      have "sint (vc_start_slot r - word_of_int n) = sint (vc_start_slot r) - n" if "sint (vc_start_slot r) > sint (vc_start_slot p)"
      proof -
        have shifted: "slot_of first (table_del port tbl) (pl_ptr r) = slot_of first tbl (pl_ptr r) - n"
          using slot_of_del [OF _ n, of first "pl_ptr r"] False rel that r mine by simp
        have "map_of tbl (pl_ptr r) \<noteq> None" using that r mine range(1) rel slot_of_none [of "pl_ptr r" tbl first] by (auto simp: map_of_eq_None_iff)
        then obtain l where "map_of (table_del port tbl) (pl_ptr r) = Some l" using table_del_other [OF False] by fastforce
        from slot_of_range [OF del(2) this, of first] shifted rel r have "0 \<le> sint (vc_start_slot r) - n" by simp
        moreover have "sint (vc_start_slot r) - n \<le> 127" using sint_lt [of "vc_start_slot r"] range(3) by simp
        ultimately show ?thesis by (rule sint_minus_u8)
      qed
      with False r mine slot_of_del [OF _ n, of first "pl_ptr r"] rel show ?thesis by (simp add: f_def shift_def)
    qed
    have fptr: "pl_ptr (f r) = pl_ptr r" for r by (simp add: f_def ptr)
    then have "map pl_ptr (map f (payloads st)) = map pl_ptr (payloads st)" by simp
    then show ?thesis using rel del next_slot count slot range tbl by (auto simp: table_rel_def st'_def fptr simp del: map_map map_eq_conv)
  qed
  ultimately show ?thesis by blast
qed

section \<open>Taking over the table\<close>

definition old_of :: "drm_dp_mst_atomic_payload list \<Rightarrow> nat \<Rightarrow> drm_dp_mst_atomic_payload option" where
  "old_of olds port = find (\<lambda>p. \<not> pl_delete p \<and> pl_ptr p = port) olds"

definition taken :: "drm_dp_mst_atomic_payload list \<Rightarrow> drm_dp_mst_atomic_payload \<Rightarrow> drm_dp_mst_atomic_payload" where
  "taken olds p = (case old_of olds (pl_ptr p) of
     None \<Rightarrow> p | Some q \<Rightarrow> p\<lparr>vc_start_slot := vc_start_slot q, allocation_status := allocation_status q\<rparr>)"

lemma take_over_result:
  assumes "distinct (map pl_ptr olds)" and "\<forall>p \<in> set olds. \<not> pl_delete p \<longrightarrow> pl_ptr p \<in> pl_ptr ` set (payloads new)"
  shows "\<exists>st. take_over olds new = Some st \<and> payloads st = map (taken olds) (payloads new)"
  using assms
proof (induction olds new rule: take_over.induct)
  case (1 new)
  then show ?case by (auto simp: taken_def old_of_def)
next
  case (2 old olds new)
  have none: "old_of olds (pl_ptr old) = None" using 2(3) by (fastforce simp: old_of_def find_None_iff image_iff)
  show ?case
  proof (cases "pl_delete old")
    case True
    then have "old_of (old # olds) = old_of olds" by (auto simp: old_of_def)
    then have "taken (old # olds) = taken olds" by (auto simp: taken_def)
    with 2 True show ?thesis by simp
  next
    case False
    let ?f = "\<lambda>p. p\<lparr>vc_start_slot := vc_start_slot old, allocation_status := allocation_status old\<rparr>"
    let ?new = "upd_payload (pl_ptr old) ?f new"
    obtain q where q: "drm_atomic_get_mst_payload_state new (pl_ptr old) = Some q"
      using 2(4) False by (cases "drm_atomic_get_mst_payload_state new (pl_ptr old)") (auto simp: drm_atomic_get_mst_payload_state_def find_None_iff)
    have "map pl_ptr (payloads ?new) = map pl_ptr (payloads new)" by (simp add: upd_payload_def)
    from arg_cong [OF this, of set] have ptrs: "pl_ptr ` set (payloads ?new) = pl_ptr ` set (payloads new)" by simp
    have "taken olds (if pl_ptr p = pl_ptr old then ?f p else p) = taken (old # olds) p" for p
      using none False by (auto simp: taken_def old_of_def)
    then have "map (taken olds) (payloads ?new) = map (taken (old # olds)) (payloads new)" by (simp add: upd_payload_def)
    with 2(2) [OF False q] 2(3,4) ptrs False q show ?thesis by auto
  qed
qed

text \<open>
  A state that follows a committed one: it has every payload of the old state that is not deleted, no port twice, and what
  the old state does not have is not in the table yet. A copy of the old state is one, and the operations of the check phase keep that.
\<close>

definition follows :: "drm_dp_mst_atomic_payload list \<Rightarrow> drm_dp_mst_topology_state \<Rightarrow> bool" where
  "follows olds new \<longleftrightarrow> distinct (map pl_ptr (payloads new)) \<and>
     (\<forall>p \<in> set olds. \<not> pl_delete p \<longrightarrow> pl_ptr p \<in> pl_ptr ` set (payloads new)) \<and>
     (\<forall>p \<in> set (payloads new). old_of olds (pl_ptr p) = None \<longrightarrow> vc_start_slot p = - 1)"

lemma old_of_mem: "p \<in> set olds \<Longrightarrow> \<not> pl_delete p \<Longrightarrow> old_of olds (pl_ptr p) \<noteq> None"
  by (auto simp: old_of_def find_None_iff)

lemma duplicate_follows:
  assumes "drm_dp_mst_duplicate_state mem old = Some new" and "distinct (map pl_ptr (payloads old))"
  shows "follows (payloads old) new"
proof -
  have new: "payloads new = rev (active (payloads old))"
    using assms(1) copy_payloads_result [of mem 1 "payloads old" "[]"] by (auto simp: drm_dp_mst_duplicate_state_def split: if_splits)
  have "distinct (map pl_ptr (rev (active (payloads old))))"
    using assms(2) distinct_map_filter [of pl_ptr "payloads old"] by (simp add: active_def rev_map [symmetric])
  moreover have "p \<in> set (active (payloads old)) \<longleftrightarrow> p \<in> set (payloads old) \<and> \<not> pl_delete p" for p by (simp add: active_def)
  ultimately show ?thesis unfolding follows_def new by (auto dest: old_of_mem)
qed

text \<open>Changes that keep port and first slot of every payload.\<close>

definition same_place :: "drm_dp_mst_atomic_payload \<Rightarrow> drm_dp_mst_atomic_payload \<Rightarrow> bool" where
  "same_place p q \<longleftrightarrow> pl_ptr q = pl_ptr p \<and> vc_start_slot q = vc_start_slot p"

lemma follows_same:
  assumes "follows olds st" and "list_all2 same_place (payloads st) (payloads st')"
  shows "follows olds st'"
proof -
  have ptrs: "map pl_ptr (payloads st') = map pl_ptr (payloads st)"
    using assms(2) by (induction rule: list_all2_induct) (auto simp: same_place_def)
  have "\<exists>p \<in> set (payloads st). same_place p q" if "q \<in> set (payloads st')" for q
    using assms(2) that by (induction rule: list_all2_induct) auto
  moreover have "pl_ptr ` set (payloads st') = pl_ptr ` set (payloads st)" using arg_cong [OF ptrs, of set] by simp
  ultimately show ?thesis using ptrs assms(1) unfolding follows_def same_place_def by metis
qed

lemma upd_same_place: "(\<And>p. same_place p (f p)) \<Longrightarrow> list_all2 same_place (payloads st) (payloads (upd_payload port f st))"
  by (auto simp: upd_payload_def list_all2_map2 list_all2_same same_place_def)

lemma find_follows:
  assumes "drm_dp_atomic_find_time_slots (Inr st) crtc mem port pbn = Some (ret, Inr st')" and "follows olds st"
  shows "follows olds st'"
proof -
  define s where "s = st\<lparr>pending_crtc_mask := pending_crtc_mask st OR crtc\<rparr>"
  have s: "follows olds s" using assms(2) by (simp add: s_def follows_def)
  have upd: "follows olds (upd_payload (up_ptr port) (\<lambda>p. p\<lparr>time_slots := n, pl_pbn := pbn\<rparr>) s)" for n
    by (rule follows_same [OF s upd_same_place]) (simp add: same_place_def)
  show ?thesis
  proof (cases "drm_atomic_get_mst_payload_state s (up_ptr port)")
    case None
    then have "up_ptr port \<notin> pl_ptr ` set (payloads s)" by (auto simp: drm_atomic_get_mst_payload_state_def find_None_iff)
    with None s assms(1) show ?thesis
      by (auto simp: drm_dp_atomic_find_time_slots_def Let_def s_def [symmetric] follows_def split: if_splits)
  next
    case (Some p)
    with upd s assms(1) show ?thesis by (auto simp: drm_dp_atomic_find_time_slots_def Let_def s_def [symmetric] split: if_splits)
  qed
qed

lemma release_follows:
  assumes "drm_dp_atomic_release_time_slots (Inr st) old_crtc new_crtc port = (ret, Inr st')" and "follows olds st"
  shows "follows olds st'"
proof -
  define s where "s m = st\<lparr>pending_crtc_mask := m\<rparr>" for m
  have s: "follows olds (s m)" for m using assms(2) by (simp add: s_def follows_def)
  have upd: "follows olds (upd_payload port (\<lambda>p. p\<lparr>pl_pbn := 0, pl_delete := True\<rparr>) (s m))" for m
    by (rule follows_same [OF s upd_same_place]) (simp add: same_place_def)
  then have "follows olds (upd_payload port (\<lambda>p. p\<lparr>pl_pbn := 0, pl_delete := True\<rparr>) (s m)\<lparr>payload_mask := k\<rparr>)" for m k
    by (simp add: follows_def)
  with upd s show ?thesis using assms
    by (auto simp: drm_dp_atomic_release_time_slots_def Let_def s_def [symmetric] split: option.splits if_splits)
qed

lemma enable_dsc_follows:
  assumes "drm_dp_mst_atomic_enable_dsc (Inr st) crtc mem port pbn enable = Some (ret, Inr st')" and "follows olds st"
  shows "follows olds st'"
proof -
  have set: "follows olds (upd_payload (up_ptr port) (\<lambda>p. p\<lparr>dsc_enabled := enable\<rparr>) s)" if "follows olds s" for s
    by (rule follows_same [OF that upd_same_place]) (simp add: same_place_def)
  show ?thesis
  proof (cases "drm_atomic_get_mst_payload_state st (up_ptr port)")
    case None
    with assms show ?thesis by (simp add: drm_dp_mst_atomic_enable_dsc_def)
  next
    case (Some p)
    have find: "follows olds s" if "drm_dp_atomic_find_time_slots (Inr st) crtc mem port pbn = Some (slots, Inr s)" for slots s
      using that assms(2) by (rule find_follows)
    with assms Some set [OF find] set [OF assms(2)] show ?thesis
      by (auto simp: drm_dp_mst_atomic_enable_dsc_def Let_def map_sum_eq_Inr split: option.splits if_splits)
  qed
qed

lemma same_but_vcpi_place: "same_but_vcpi p q \<Longrightarrow> same_place p q"
proof -
  assume "same_but_vcpi p q"
  then obtain v where "q = p\<lparr>vcpi := v\<rparr>" unfolding same_but_vcpi_def by blast
  then show ?thesis by (simp add: same_place_def)
qed

lemma check_mgr_follows:
  assumes "drm_dp_mst_atomic_check_mgr mgr st = (0, failing, st')" and "follows olds st"
  shows "follows olds st'"
proof -
  have "st' = st \<or> drm_dp_mst_atomic_check_payload_alloc_limits mgr st = (0, st')"
    using assms(1) by (auto simp: drm_dp_mst_atomic_check_mgr_def split: if_splits option.splits prod.splits)
  moreover have "list_all2 same_place (payloads st) (payloads st')" if "drm_dp_mst_atomic_check_payload_alloc_limits mgr st = (0, st')"
  proof -
    have "list_all2 same_but_vcpi (payloads st) (payloads st')"
      using that alloc_loop_result by (auto simp: drm_dp_mst_atomic_check_payload_alloc_limits_def Let_def split: prod.splits if_splits)
    then show ?thesis by (rule list_all2_mono) (rule same_but_vcpi_place)
  qed
  ultimately show ?thesis using follows_same [OF assms(2)] assms(2) by blast
qed

text \<open>The check phase of a new atomic state: a copy of the old state, and operations on the copy.\<close>

inductive check_phase :: "'a payload_mgr \<Rightarrow> drm_dp_mst_topology_state \<Rightarrow> drm_dp_mst_topology_state \<Rightarrow> bool" for mgr old where
  copy: "drm_dp_mst_duplicate_state mem old = Some new \<Longrightarrow> check_phase mgr old new"
| copy_slots: "check_phase mgr old st \<Longrightarrow> check_phase mgr old (drm_dp_mst_update_slots b st)"
| copy_div: "check_phase mgr old st \<Longrightarrow> check_phase mgr old (st\<lparr>pbn_div := d\<rparr>)"
| copy_find: "check_phase mgr old st \<Longrightarrow> drm_dp_atomic_find_time_slots (Inr st) crtc ok port pbn = Some (ret, Inr st') \<Longrightarrow> check_phase mgr old st'"
| copy_release: "check_phase mgr old st \<Longrightarrow> drm_dp_atomic_release_time_slots (Inr st) old_crtc new_crtc port_id = (ret, Inr st') \<Longrightarrow>
    check_phase mgr old st'"
| copy_dsc: "check_phase mgr old st \<Longrightarrow> drm_dp_mst_atomic_enable_dsc (Inr st) crtc ok port pbn enable = Some (ret, Inr st') \<Longrightarrow>
    check_phase mgr old st'"
| copy_check: "check_phase mgr old st \<Longrightarrow> drm_dp_mst_atomic_check_mgr mgr st = (0, failing, st') \<Longrightarrow> check_phase mgr old st'"

lemma check_phase_follows:
  assumes "check_phase mgr old new" and "distinct (map pl_ptr (payloads old))"
  shows "follows (payloads old) new"
  using assms(1)
proof (induction rule: check_phase.induct)
  case (copy_slots st b)
  then show ?case by (auto simp: drm_dp_mst_update_slots_def follows_def)
next
  case (copy_div st d)
  then show ?case by (simp add: follows_def)
qed (use assms(2) in \<open>blast intro: duplicate_follows find_follows release_follows enable_dsc_follows check_mgr_follows\<close>)+

text \<open>The commit of the old state, which may come after its copy was made, leaves ports and deletions as they are.\<close>

definition same_ports :: "drm_dp_mst_topology_state \<Rightarrow> drm_dp_mst_topology_state \<Rightarrow> bool" where
  "same_ports st st' \<longleftrightarrow> map (\<lambda>p. (pl_ptr p, pl_delete p)) (payloads st') = map (\<lambda>p. (pl_ptr p, pl_delete p)) (payloads st)"

lemma follows_same_ports:
  assumes "same_ports st st'" and "follows (payloads st) new"
  shows "follows (payloads st') new"
proof -
  let ?f = "\<lambda>p. (pl_ptr p, pl_delete p)"
  have eq: "?f ` set (payloads st') = ?f ` set (payloads st)" using arg_cong [OF assms(1) [unfolded same_ports_def], of set] by simp
  have iff: "(\<exists>p \<in> set (payloads s). \<not> pl_delete p \<and> pl_ptr p = q) \<longleftrightarrow> (q, False) \<in> ?f ` set (payloads s)" for s q by auto
  have "(\<exists>p \<in> set (payloads st'). \<not> pl_delete p \<and> pl_ptr p = q) \<longleftrightarrow> (\<exists>p \<in> set (payloads st). \<not> pl_delete p \<and> pl_ptr p = q)" for q
    unfolding iff eq ..
  then show ?thesis using assms(2) unfolding follows_def old_of_def find_None_iff by metis
qed

lemma table_take_over:
  assumes rel: "table_rel first tbl mgr old" and deleted: "\<forall>p \<in> set (payloads old). pl_delete p \<longrightarrow> pl_ptr p \<notin> fst ` set tbl"
    and present: "fst ` set tbl \<subseteq> pl_ptr ` set (payloads old)" and follows: "follows (payloads old) new"
  shows "\<exists>st. take_over (payloads old) new = Some st \<and> table_rel first tbl mgr st"
proof -
  note rel = rel [unfolded table_rel_def] and new = follows [unfolded follows_def]
  obtain st where st: "take_over (payloads old) new = Some st" "payloads st = map (taken (payloads old)) (payloads new)"
    using take_over_result [of "payloads old" new] rel new by blast
  have ptr: "pl_ptr (taken olds p) = pl_ptr p" for olds p by (simp add: taken_def split: option.split)
  have slot: "sint (vc_start_slot (taken (payloads old) p)) = slot_of first tbl (pl_ptr p)" if "p \<in> set (payloads new)" for p
  proof (cases "old_of (payloads old) (pl_ptr p)")
    case None
    have "pl_ptr p \<notin> fst ` set tbl"
    proof
      assume tbl: "pl_ptr p \<in> fst ` set tbl"
      with present obtain q where "q \<in> set (payloads old)" "pl_ptr q = pl_ptr p" by (metis (no_types, lifting) image_iff subset_iff)
      moreover from this None have "pl_delete q" by (auto simp: old_of_def find_None_iff)
      ultimately show False using deleted tbl by metis
    qed
    with None new that show ?thesis by (simp add: taken_def slot_of_none)
  next
    case (Some q)
    then have "q \<in> set (payloads old)" "pl_ptr q = pl_ptr p" by (auto simp: old_of_def find_Some_iff)
    with Some rel show ?thesis by (auto simp: taken_def)
  qed
  have "map pl_ptr (payloads st) = map pl_ptr (payloads new)" unfolding st(2) by (simp add: ptr)
  moreover have "\<forall>p \<in> set (payloads st). sint (vc_start_slot p) = slot_of first tbl (pl_ptr p)" unfolding st(2) using slot by (simp add: ptr)
  ultimately show ?thesis using rel new st(1) unfolding table_rel_def by simp
qed

section \<open>Refinement\<close>

text \<open>
  C17. The commit phase implements the table of payloads. Removing a payload with the number of slots it was added with deletes its
  entry, and the payloads behind it move up by that number. Adding a payload that is not in the table appends it, also if the sink or the port refuses
  it, provided that its number of slots is not negative, fewer than 255 payloads are in the table and the table still ends at slot 127 at most, so
  that the counters of 8 bits do not wrap around. A new atomic state, copied from this one before or after its commit and changed by any operations of the check phase, takes
  the table over once the deleted payloads have left it. In each case the first slots of all payloads, the number of payloads and the next free slot are those of the table.
\<close>

theorem payload_table_refines:
  fixes mgr :: "'a payload_mgr"
  assumes "table_rel first tbl mgr st"
  shows "(\<forall>port p n. drm_atomic_get_mst_payload_state st port = Some p \<longrightarrow> map_of tbl port = Some n \<longrightarrow>
      (\<exists>mgr' st'. drm_dp_remove_payload_part2 port n mgr st = Some (mgr', st') \<and> table_rel first (table_del port tbl) mgr' st')) \<and>
    (\<forall>port p a. drm_atomic_get_mst_payload_state st port = Some p \<longrightarrow> map_of tbl port = None \<longrightarrow>
      (let first' = if tbl = [] then uint (start_slot st) else first
       in 0 \<le> time_slots p \<and> length tbl < 255 \<and> first' + slots_total tbl + time_slots p \<le> 127 \<longrightarrow>
          (case drm_dp_add_payload_part1 mgr (start_slot st) p a of (ret, mgr', q, a') \<Rightarrow>
             table_rel first' (tbl @ [(port, time_slots p)]) mgr' (upd_payload port (\<lambda>_. q) st)))) \<and>
    (\<forall>(mgr0 :: 'a payload_mgr) st0 new.
      fst ` set tbl \<subseteq> pl_ptr ` set (active (payloads st)) \<longrightarrow> same_ports st0 st \<longrightarrow> check_phase mgr0 st0 new \<longrightarrow>
      (\<exists>st'. take_over (payloads st) new = Some st' \<and> table_rel first tbl mgr st'))"
proof (intro conjI allI impI)
  fix port p n
  assume "drm_atomic_get_mst_payload_state st port = Some p" "map_of tbl port = Some n"
  with table_remove [OF assms] show "\<exists>mgr' st'. drm_dp_remove_payload_part2 port n mgr st = Some (mgr', st') \<and> table_rel first (table_del port tbl) mgr' st'"
    by blast
next
  fix port p a
  assume p: "drm_atomic_get_mst_payload_state st port = Some p" and "map_of tbl port = None"
  then have "port \<notin> fst ` set tbl" by (simp add: map_of_eq_None_iff)
  from table_add [OF assms p this] show "let first' = if tbl = [] then uint (start_slot st) else first
       in 0 \<le> time_slots p \<and> length tbl < 255 \<and> first' + slots_total tbl + time_slots p \<le> 127 \<longrightarrow>
          (case drm_dp_add_payload_part1 mgr (start_slot st) p a of (ret, mgr', q, a') \<Rightarrow>
             table_rel first' (tbl @ [(port, time_slots p)]) mgr' (upd_payload port (\<lambda>_. q) st))"
    by (auto simp: Let_def)
next
  fix mgr0 :: "'a payload_mgr" and st0 new
  assume present: "fst ` set tbl \<subseteq> pl_ptr ` set (active (payloads st))" and st0: "same_ports st0 st" "check_phase mgr0 st0 new"
  have "map fst (map (\<lambda>p. (pl_ptr p, pl_delete p)) (payloads st0)) = map fst (map (\<lambda>p. (pl_ptr p, pl_delete p)) (payloads st))"
    using st0(1) by (simp only: same_ports_def)
  then have "map pl_ptr (payloads st0) = map pl_ptr (payloads st)" by (simp add: comp_def)
  then have "distinct (map pl_ptr (payloads st0))" using assms by (simp add: table_rel_def)
  then have "follows (payloads st) new" using follows_same_ports check_phase_follows st0 by blast
  moreover have "\<forall>p \<in> set (payloads st). pl_delete p \<longrightarrow> pl_ptr p \<notin> fst ` set tbl"
  proof (intro ballI impI notI)
    fix p assume p: "p \<in> set (payloads st)" "pl_delete p" "pl_ptr p \<in> fst ` set tbl"
    then obtain q where "q \<in> set (payloads st)" "\<not> pl_delete q" "pl_ptr q = pl_ptr p" using present by (auto simp: active_def)
    then show False using assms p(1,2) by (auto simp: table_rel_def distinct_map dest: inj_onD)
  qed
  moreover have "fst ` set tbl \<subseteq> pl_ptr ` set (payloads st)" using present by (auto simp: active_def)
  ultimately show "\<exists>st'. take_over (payloads st) new = Some st' \<and> table_rel first tbl mgr st'" using table_take_over [OF assms] by blast
qed

text \<open>Two payloads of 20 slots each in the table of a hub.\<close>

definition ex_table_state :: drm_dp_mst_topology_state where
  "ex_table_state = ex_mst_state [(ex_payload 5)\<lparr>vc_start_slot := 21\<rparr>, (ex_payload 4)\<lparr>vc_start_slot := 1\<rparr>]"

definition ex_table_mgr :: "sink payload_mgr" where
  "ex_table_mgr = ex_payload_mgr\<lparr>payload_count := 2, next_start_slot := 41\<rparr>"

lemma ex_table_rel: "table_rel 1 [(4, 20), (5, 20)] ex_table_mgr ex_table_state"
  by (simp add: table_rel_def ex_table_mgr_def ex_table_state_def ex_bw_defs ex_payload_mgr_def)

theorem payload_table_refines_witness:
  "\<exists>mgr' st'. drm_dp_remove_payload_part2 4 20 ex_table_mgr ex_table_state = Some (mgr', st') \<and> table_rel 1 [(5, 20)] mgr' st'"
proof -
  have "drm_atomic_get_mst_payload_state ex_table_state 4 = Some ((ex_payload 4)\<lparr>vc_start_slot := 1\<rparr>)"
    by (simp add: ex_table_state_def ex_bw_defs)
  from payload_table_refines [OF ex_table_rel, THEN conjunct1, rule_format, OF this] show ?thesis by simp
qed

text \<open>
  No two payloads share a time slot: the slots of different ports in the table are disjoint, and all lie between the first slot
  and the next free one.
\<close>

lemma slot_of_disjoint:
  assumes "table_wf tbl" and "map_of tbl q = Some m" and "map_of tbl r = Some n" and "q \<noteq> r"
  shows "slot_of first tbl q + m \<le> slot_of first tbl r \<or> slot_of first tbl r + n \<le> slot_of first tbl q"
  using assms
proof (induction tbl arbitrary: first)
  case (Cons e tbl)
  obtain s k where e: "e = (s, k)" by fastforce
  consider (q) "s = q" | (r) "s = r" | (other) "s \<noteq> q" "s \<noteq> r" by blast
  then show ?case
  proof cases
    case q
    then show ?thesis using e Cons.prems slot_of_range [of tbl r n "first + k"] by auto
  next
    case r
    then show ?thesis using e Cons.prems slot_of_range [of tbl q m "first + k"] by auto
  next
    case other
    then show ?thesis using e Cons.prems Cons.IH [of "first + k"] by simp
  qed
qed simp

theorem payload_slots_disjoint:
  assumes "table_rel first tbl mgr st" and "p \<in> set (payloads st)" and "q \<in> set (payloads st)" and "pl_ptr p \<noteq> pl_ptr q"
    and "map_of tbl (pl_ptr p) = Some m" and "map_of tbl (pl_ptr q) = Some n"
  shows "{sint (vc_start_slot p)..<sint (vc_start_slot p) + m} \<inter> {sint (vc_start_slot q)..<sint (vc_start_slot q) + n} = {} \<and>
    {sint (vc_start_slot p)..<sint (vc_start_slot p) + m} \<subseteq> {first..<uint (next_start_slot mgr)}"
proof -
  note rel = assms(1) [unfolded table_rel_def]
  have "tbl \<noteq> []" using assms(5) by auto
  then show ?thesis using rel assms(2,3) slot_of_disjoint [OF _ assms(5,6,4), of first] slot_of_range [OF _ assms(5), of first] by auto
qed

theorem payload_slots_disjoint_witness:
  "{sint (1 :: u8)..<sint (1 :: u8) + 20} \<inter> {sint (21 :: u8)..<sint (21 :: u8) + 20} = {} \<and>
   {sint (1 :: u8)..<sint (1 :: u8) + 20} \<subseteq> {1..<uint (next_start_slot ex_table_mgr)}"
proof -
  have "(ex_payload 4)\<lparr>vc_start_slot := 1\<rparr> \<in> set (payloads ex_table_state)" "(ex_payload 5)\<lparr>vc_start_slot := 21\<rparr> \<in> set (payloads ex_table_state)"
    by (simp_all add: ex_table_state_def ex_mst_state_def)
  from payload_slots_disjoint [OF ex_table_rel this, of 20 20] show ?thesis by (simp add: ex_payload_def)
qed

end
