(* ===== verification/Spec2Isabelle.thy ===== *)
theory Spec2Isabelle
  imports Rect GPUVM_Ops DRM_Exec GPUVM_Validate DSC MST_Queue DRM_MM_Scan DRM_VMA MST_Bandwidth MST_Table
begin

text \<open>
  Verification of core logic of the Linux DRM (Direct Rendering Manager) code of this repository,
  \<open>src/others/drm_extracted\<close>: the device independent helpers under \<open>drivers/gpu/drm\<close> that the display
  and memory management of the drivers is built on.

  \<^bold>\<open>The parts and how they interact.\<close>

  \<^item> Rectangles (\<open>drm_rect.c\<close>, theory \<open>Rect\<close>): clipping, scaling and rotation of plane rectangles.
  \<^item> GPU virtual address spaces (\<open>drm_gpuvm.c\<close>). The mappings of an address space are in an interval
    tree (\<open>interval_tree_generic.h\<close>, theory \<open>Interval_Tree\<close>) and an ordered list (theory \<open>GPUVA\<close>). A request to map or
    unmap a range is split into map, remap and unmap operations (theory \<open>GPUVM_SM\<close>) that are handed to
    callbacks, collected in lists for the driver or used to take locks (theory \<open>GPUVM_Ops\<close>). A buffer object in an address space
    is a reference counted \<open>drm_gpuvm_bo\<close> on the lists of its GEM object and of the address space (theories \<open>GPUVM_BO\<close> and \<open>GPUVM_BO_Inv\<close>).
    Before a submission the driver locks the address space with its external objects, validates the evicted ones
    and adds a fence (theory \<open>GPUVM_Exec\<close>, with the proofs in \<open>GPUVM_Lock\<close> and \<open>GPUVM_Validate\<close>).
  \<^item> Execution contexts (\<open>drm_exec.c\<close>, theory \<open>DRM_Exec\<close>): locking a set of GEM objects with wound/wait locks, backing off
    when another context has to go first. \<open>GPUVM_Exec\<close> is its client.
  \<^item> The range allocator (\<open>drm_mm.c\<close>). The nodes of a range are on a list in the order of their addresses
    (\<open>list.h\<close>, theory \<open>List_Head\<close>), in an interval tree, and, if a hole follows, in a tree of holes by size and one by address (theory \<open>DRM_MM\<close>
    for the definitions, \<open>DRM_MM_Inv\<close>, \<open>DRM_MM_Ops\<close>, \<open>DRM_MM_Search\<close>, \<open>DRM_MM_Insert\<close>, \<open>DRM_MM_Free\<close> and \<open>DRM_MM_Reach\<close> for
    invariant, trees, search for a hole, insertion, free space and reachable states). A scan picks nodes to evict so that a block fits (theory
    \<open>DRM_MM_Scan\<close>).
  \<^item> The offset manager (\<open>drm_vma_manager.c\<close>, theory \<open>DRM_VMA\<close>): the addresses at which buffer objects are mapped, allocated by the
    range allocator, and the files that may map them.
  \<^item> Display stream compression (\<open>drm_dsc_helper.c\<close>, theories \<open>DSC_Tables\<close> and \<open>DSC\<close>): the rate control tables,
    the rate control parameters of a configuration and the picture parameter set sent to the sink.
  \<^item> The DisplayPort AUX channel (\<open>drm_dp_helper.c\<close>, theory \<open>DP_Aux\<close>): register access with retries
    over the transfer hook of the driver, and I2C over AUX.
  \<^item> DisplayPort multi-stream transport (\<open>drm_dp_mst_topology.c\<close>). Messages to branch devices have a header and a body
    protected by CRCs (theories \<open>CRC\<close> and \<open>MST_Header\<close>), are addressed by the path through the topology (theory
    \<open>MST_Topology\<close>), and carry encoded requests and replies (theories \<open>MST_Messages\<close> and \<open>MST_Replies\<close>). They are cut
    into chunks that are written to registers over the AUX channel, and received chunks are put together again
    (theory \<open>MST_Transport\<close>). A queue holds the requests, interrupt handlers complete them (theory
    \<open>MST_Queue\<close>). The streams to the sinks of a topology are payloads: the check phase of an atomic commit finds their time slots, gives them
    identifiers and compares slots and bandwidth with the limits, the commit phase lays them out in the table of the hub (theory
    \<open>MST_Payload\<close> for the definitions, \<open>MST_Bandwidth\<close>, \<open>MST_Alloc\<close> and \<open>MST_Table\<close> for bandwidth, identifiers and table). The
    table is written over the AUX channel.

  \<^bold>\<open>How the code is modelled.\<close> A struct is a record with the fields the modelled functions use, a tagged
  union a datatype, a function of the C code a function of the same name (a prefix \<open>raw_\<close> stands for the
  two underscores of an internal function). Functions that change a struct return it updated. Arithmetic
  on \<open>int\<close> that can leave its range is written with the conversion to the C type (theory \<open>DRM_Prelude\<close>),
  bytes and unsigned fields are words. Error codes are the negative numbers of the kernel. A result \<open>None\<close>
  stands for a C execution without a defined result: an access outside an array, a NULL dereference, or a
  loop that does not end; the theorems show that it is not reached, or name the inputs that reach it. Locks make the modelled
  functions atomic and are left out; logging is left out.

  Code that is not in the repository is a parameter with its laws as the assumptions of a locale: the red-black tree library
  (locale \<open>rb_library\<close>, and \<open>rb_family\<close> and \<open>mm_library\<close> for the three trees of the range allocator), the color callback of a range (locale
  \<open>color_hook\<close>, interpreted for no callback and for that of i915), the transfer hook of a DisplayPort driver and the sink behind it (locales
  \<open>aux_sink\<close>, \<open>i2c_driver\<close>, \<open>i2c_reader\<close>), the wound/wait locks (locale \<open>ww_lib\<close>, which also bounds how often a context is
  asked to back off), the validation callback of a driver (locale \<open>validate_hook\<close>), the sideband message that tells a branch
  device of a payload (the argument \<open>send\<close>), and the success of memory allocations. Each of these locales is
  interpreted on a concrete instance. The contracts between components are locales too: \<open>gpuva_lib\<close>
  for the address space over the interval tree, \<open>sm_client\<close> for the callbacks of a split and merge request (interpreted for the
  functions that collect lists and those that take locks), \<open>exec_client\<close> for the stages of a locking loop (of which \<open>vm_exec\<close>, the
  stages that lock an address space, is an instance), \<open>dpcd_regs\<close> and \<open>responsive_regs\<close> for what message
  transport relies on of the AUX channel (a sublocale of \<open>aux_sink\<close>), \<open>crc_code\<close> for what the two CRC polynomials have in common,
  \<open>mm_client\<close> for what the offset manager relies on of the range allocator.

  \<^bold>\<open>What the theorems show.\<close>

  \<^item> \<open>Rect\<close>: intersection and clipping as operations on sets of points, clipping keeps the scale up to rounding, exact acceptance of scale factors, rotation round
    trip.
  \<^item> \<open>Interval_Tree\<close>, \<open>GPUVA\<close>: the search finds the first overlapping mapping; insertion and removal keep the
    invariant (tree and list agree, mappings are disjoint, sorted and inside the managed range) and change
    the address map exactly as asked; lookups return what the address map says.
  \<^item> \<open>GPUVM_SM\<close>, \<open>GPUVM_Ops\<close>: executing the list created for a map or unmap request changes the address map
    exactly in the requested range; shape of the lists; outcome and memory of every allocation failure; locked objects.
  \<^item> \<open>DRM_Exec\<close>: a locking loop ends with all objects locked or with an error, and finishing the context releases every lock and
    reference.
  \<^item> \<open>GPUVM_BO_Inv\<close>: no sequence of calls by a driver that follows the documented rules makes the bookkeeping access freed memory; reference
    counts, lists and zombies agree in every reachable state; an address space outlives its buffer objects.
  \<^item> \<open>GPUVM_Lock\<close>, \<open>GPUVM_Validate\<close>: locking an address space or a range takes every lock or none; the iteration with a local list
    visits every object once and restores the list; locking and validation leave no object evicted; the fence reaches every locked object.
  \<^item> \<open>List_Head\<close>: linking and unlinking keep a ring of pointers. \<open>DRM_MM_Reach\<close>: in every reachable state the nodes are disjoint, the holes are
    exactly the gaps between them and the trees agree with the list; insertion returns, fails exactly if no hole fits, and places
    the node where the mode asks; reservation takes exactly its range; removal undoes insertion; lookup by address and the totals of the
    dump. \<open>DRM_MM_Scan\<close>: a scan restores the allocator, and evicting the nodes it names makes room.
  \<^item> \<open>DRM_VMA\<close>: a lookup finds the node that covers an offset; access refines a counter for each file; adding and removing nodes.
  \<^item> \<open>DSC\<close>: a reader of the picture parameter set recovers every transmitted field, and for three of them the constants that the
    packer writes; the tables and the computation of the rate control parameters, with its divisions defined and its error characterised on the input.
  \<^item> \<open>DP_Aux\<close>: a native access is the first success of 32 attempts; what is written is read back; an I2C read returns the bytes of the
    device without gaps, and every I2C transfer ends.
  \<^item> \<open>MST_Header\<close>: the bit-serial loops are the remainder of a polynomial division, so burst errors are
    detected; header round trip. \<open>MST_Topology\<close>: the address of a branch device leads to it. \<open>MST_Messages\<close>, \<open>MST_Replies\<close>: round
    trips of requests and of the link address reply, memory safety of the reply parsers.
  \<^item> \<open>MST_Transport\<close>: the chunks of a message reassemble to the message. \<open>MST_Queue\<close>: invariant of the queue in every reachable
    state of the manager, replies complete the message they answer, progress of the transmit work.
  \<^item> \<open>MST_Bandwidth\<close>: the check accepts a state if no port carries more than its limit and no end device
    with a payload lacks bandwidth, and names a port that fails. \<open>MST_Alloc\<close>: the check of slots
    accepts exactly the states that fit, and identifiers stay distinct and agree with the mask in every reachable state. It is for at most 32
    payloads: the mask has 32 bits, and the code does not compare the limit that the driver gives with that number. \<open>MST_Table\<close>: the commit phase refines a list of
    ports with their slots, which a new state takes over; no two payloads share a slot.
  \<^item> Some theorems record where the code does not do what it means to: a callback that fails leaks the operation it
    got, the predecessor of a range is not found across a gap, a failed allocation in the I2C request decoder is not
    noticed, a request of several chunks stalls after the first, and requests with more data than a length field can
    say are changed by the encoder (the normal form \<open>req_norm\<close>). \<open>prepare_range_null\<close> shows that locking a range dereferences the object of
    a mapping that has none.

  \<^bold>\<open>Fuel.\<close> Loops over the mappings of a range carry the number of mappings as fuel and are shown to end; \<open>send_loop\<close> has fuel
  for six passes over the message, which is shown to be enough; \<open>read_rest\<close> has one unit per byte still to be
  read. The I2C loops are functions with termination proofs. The retry loop of an execution context has fuel; one unit more than the
  patience of the lock class and one for the last round are shown to be enough. Iterations over object lists need one unit for each
  object and one for the end. The loops of the range allocator that follow pointers are partial functions and are shown to return.

  \<^bold>\<open>Not modelled.\<close> In \<open>drm_dp_mst_topology.c\<close>, the creation, destruction and reference counting of ports and branch
  devices and probing, which are kernel objects, work queues and driver callbacks around the modelled messages, and the commit dependencies of
  CRTCs. Mode timings (\<open>drm_modes.c\<close>), display identification (\<open>drm_edid.c\<close>) and the atomic mode setting core
  would be next. The buddy allocator is not in the repository, only its printing (\<open>drm_buddy.c\<close>). The device drivers
  (\<open>i915\<close>, \<open>xe\<close>, \<open>virtio\<close>), the selftests, the decompiled Apple drivers under \<open>src/others/decomp\<close>, \<open>NootedBlue\<close>,
  \<open>HookCase\<close> and the vendored SDKs are not part of this development: hardware access, generated or third-party code.
\<close>

end
